(* ===== verification/Rust_Base.thy ===== *)
theory Rust_Base imports Main "HOL-Library.Word" "HOL-Library.Multiset" begin

text \<open>
  What every component of the development shares: bytes, the machine integers of the source, the
  outcome of a fallible Rust call, little-endian byte strings and a few list lemmas.

  Bytes are \<open>8 word\<close>.  The 64-bit counters and offsets (\<open>u64\<close>, and \<open>usize\<close> on the x64 target
  the program is built for) are natural numbers with every bound written out: \<open>checked_add\<close> and
  its kin below are the Rust operations of the same name.  Where the code computes modulo
  \<open>2 ^ w\<close> (\<open>wrapping_add\<close>, atomic counters, shifts and masks) the component uses \<open>'w word\<close>.
\<close>

named_theorems checked_simps "the checked and saturating machine arithmetic, unfolded"

type_synonym u8 = "8 word"
type_synonym bytes = "u8 list"

abbreviation u64_max :: nat where "u64_max \<equiv> 18446744073709551615"

abbreviation byte_lf :: u8 where "byte_lf \<equiv> 10"
abbreviation byte_cr :: u8 where "byte_cr \<equiv> 13"

section \<open>Outcomes of fallible calls\<close>

text \<open>
  \<open>Result\<close> with one constructor more: \<open>Panic\<close> is an \<open>unreachable!\<close>, an index out of range or
  an arithmetic underflow, so that a theorem can say that none of them happens.
\<close>

datatype ('e, 'a) outcome = Ok 'a | Err 'e | Panic

fun returned :: "('e, 'a) outcome \<Rightarrow> bool" where
  "returned (Ok _) = True"
| "returned (Err _) = False"
| "returned Panic = False"

section \<open>Checked and saturating arithmetic\<close>

definition checked_add :: "nat \<Rightarrow> nat \<Rightarrow> nat option" where
  "checked_add a b = (if a + b \<le> u64_max then Some (a + b) else None)"

definition checked_sub :: "nat \<Rightarrow> nat \<Rightarrow> nat option" where
  "checked_sub a b = (if b \<le> a then Some (a - b) else None)"

definition checked_mul :: "nat \<Rightarrow> nat \<Rightarrow> nat option" where
  "checked_mul a b = (if a * b \<le> u64_max then Some (a * b) else None)"

definition saturating_add :: "nat \<Rightarrow> nat \<Rightarrow> nat" where
  "saturating_add a b = min (a + b) u64_max"

definition saturating_sub :: "nat \<Rightarrow> nat \<Rightarrow> nat" where
  "saturating_sub a b = (if b \<le> a then a - b else 0)"

definition saturating_mul :: "nat \<Rightarrow> nat \<Rightarrow> nat" where
  "saturating_mul a b = min (a * b) u64_max"

lemma checked_add_Some [checked_simps]:
  "checked_add a b = Some c \<longleftrightarrow> c = a + b \<and> a + b \<le> u64_max"
  by (auto simp: checked_add_def)

lemma checked_add_None [checked_simps]: "checked_add a b = None \<longleftrightarrow> u64_max < a + b"
  by (auto simp: checked_add_def)

lemma checked_sub_Some [checked_simps]: "checked_sub a b = Some c \<longleftrightarrow> a = c + b"
  by (auto simp: checked_sub_def)

lemma checked_sub_None [checked_simps]: "checked_sub a b = None \<longleftrightarrow> a < b"
  by (auto simp: checked_sub_def)

lemma checked_mul_Some [checked_simps]:
  "checked_mul a b = Some c \<longleftrightarrow> c = a * b \<and> a * b \<le> u64_max"
  by (auto simp: checked_mul_def)

lemma checked_mul_None [checked_simps]: "checked_mul a b = None \<longleftrightarrow> u64_max < a * b"
  by (auto simp: checked_mul_def)

lemma saturating_sub_nat [simp]: "saturating_sub a b = a - b"
  by (simp add: saturating_sub_def)

section \<open>Little-endian byte strings\<close>

fun le_bytes :: "nat \<Rightarrow> nat \<Rightarrow> bytes" where
  "le_bytes 0 n = []"
| "le_bytes (Suc k) n = word_of_nat (n mod 256) # le_bytes k (n div 256)"

fun le_value :: "bytes \<Rightarrow> nat" where
  "le_value [] = 0"
| "le_value (b # bs) = unat b + 256 * le_value bs"

lemma length_le_bytes [simp]: "length (le_bytes k n) = k"
  by (induction k arbitrary: n) auto

lemma unat_of_nat_byte [simp]: "unat (word_of_nat n :: u8) = n mod 256"
  by (simp add: unat_of_nat)

lemma le_value_le_bytes_mod: "le_value (le_bytes k n) = n mod 256 ^ k"
proof (induction k arbitrary: n)
  case (Suc k)
  have "le_value (le_bytes (Suc k) n) = n mod 256 + 256 * (n div 256 mod 256 ^ k)"
    by (simp add: Suc.IH)
  also have "\<dots> = n mod 256 ^ Suc k"
    by (simp add: mod_mult2_eq)
  finally show ?case .
qed simp

lemma le_value_le_bytes [simp]: "n < 256 ^ k \<Longrightarrow> le_value (le_bytes k n) = n"
  by (simp add: le_value_le_bytes_mod)

lemma le_value_bound: "le_value bs < 256 ^ length bs"
proof (induction bs)
  case (Cons b bs)
  have "unat b < 256" using unsigned_less [of b] by simp
  with Cons show ?case by simp
qed simp

lemma le_bytes_le_value [simp]: "le_bytes (length bs) (le_value bs) = bs"
proof (induction bs)
  case (Cons b bs)
  have b: "unat b < 256" using unsigned_less [of b] by simp
  then have "(unat b + 256 * le_value bs) mod 256 = unat b"
    and "(unat b + 256 * le_value bs) div 256 = le_value bs"
    by simp_all
  with Cons show ?case by simp
qed simp

section \<open>Byte positions\<close>

text \<open>The bytes of \<open>xs\<close> from position \<open>i\<close> up to, not including, position \<open>j\<close>.\<close>

definition segment :: "'a list \<Rightarrow> nat \<Rightarrow> nat \<Rightarrow> 'a list" where
  "segment xs i j = take (j - i) (drop i xs)"

lemma segment_empty [simp]: "segment xs i i = []"
  by (simp add: segment_def)

lemma length_segment [simp]: "j \<le> length xs \<Longrightarrow> length (segment xs i j) = j - i"
  by (simp add: segment_def)

lemma segment_append_pos:
  "length pre = i \<Longrightarrow> segment (pre @ mid @ post) i (i + length mid) = mid"
  by (simp add: segment_def)

lemma segment_split: "i \<le> j \<Longrightarrow> j \<le> k \<Longrightarrow> segment xs i j @ segment xs j k = segment xs i k"
proof -
  assume ij: "i \<le> j" and jk: "j \<le> k"
  then have "segment xs i k = take ((j - i) + (k - j)) (drop i xs)"
    by (simp add: segment_def)
  also have "\<dots> = take (j - i) (drop i xs) @ take (k - j) (drop (j - i) (drop i xs))"
    by (rule take_add)
  finally show ?thesis
    using ij by (simp add: segment_def)
qed

lemma drop_take_drop: "k \<le> g \<Longrightarrow> drop k (take g xs) @ drop g xs = drop k xs"
  by (metis append_take_drop_id drop_take le_add_diff_inverse drop_drop add.commute)

end
