(* ===== verification/Spans.thy ===== *)
theory Spans imports Rust_Base begin

text \<open>
  Record spans and checkpoints (\<open>crates/leanrows-core/src/types.rs\<close>): end-exclusive byte ranges
  and the pairs (row, byte offset) every index and viewport works with.
\<close>

record record_span =
  span_start :: nat
  span_end :: nat

datatype span_error = SpanError nat nat

definition span_new :: "nat \<Rightarrow> nat \<Rightarrow> span_error + record_span" where
  "span_new s e =
     (if e < s then Inl (SpanError s e) else Inr \<lparr>span_start = s, span_end = e\<rparr>)"

text \<open>\<open>len\<close> subtracts without a check, so it is \<open>None\<close> where the subtraction would underflow.\<close>

definition span_len :: "record_span \<Rightarrow> nat option" where
  "span_len sp = checked_sub (span_end sp) (span_start sp)"

definition span_is_empty :: "record_span \<Rightarrow> bool" where
  "span_is_empty sp \<longleftrightarrow> span_start sp = span_end sp"

record checkpoint =
  cp_row :: nat
  cp_offset :: nat

definition checkpoint_new :: "nat \<Rightarrow> nat \<Rightarrow> checkpoint" where
  "checkpoint_new row offset = \<lparr>cp_row = row, cp_offset = offset\<rparr>"

section \<open>Validated spans\<close>

definition span_valid :: "record_span \<Rightarrow> bool" where
  "span_valid sp \<longleftrightarrow> span_start sp \<le> span_end sp"

abbreviation mk_span :: "nat \<Rightarrow> nat \<Rightarrow> record_span" where
  "mk_span s e \<equiv> \<lparr>span_start = s, span_end = e\<rparr>"

lemma span_new_Inr [simp]: "s \<le> e \<Longrightarrow> span_new s e = Inr (mk_span s e)"
  by (simp add: span_new_def)

lemma span_new_valid: "span_new s e = Inr sp \<Longrightarrow> span_valid sp \<and> sp = mk_span s e"
  by (auto simp: span_new_def span_valid_def split: if_splits)

lemma span_len_valid: "span_valid sp \<Longrightarrow> span_len sp = Some (span_end sp - span_start sp)"
  by (simp add: span_len_def span_valid_def checked_sub_def)

lemma checkpoint_eqI: "cp_row a = cp_row b \<Longrightarrow> cp_offset a = cp_offset b \<Longrightarrow> a = (b::checkpoint)"
  by simp

end
