(* ===== verification/Cancel_Token.thy ===== *)
theory Cancel_Token imports Rust_Base begin

text \<open>
  Cooperative cancellation (\<open>crates/leanrows-core/src/cancel.rs\<close>).  A token is one atomic 64-bit
  generation; an operation captures the generation it starts under and is cancelled as soon as the
  token holds another one.  \<open>fetch_add\<close> wraps, so the generation is a \<open>64 word\<close>.
\<close>

type_synonym cancellation_generation = "64 word"

record cancellation_token =
  generation :: cancellation_generation

definition token_new :: cancellation_token where
  "token_new = \<lparr>generation = 0\<rparr>"

definition token_snapshot :: "cancellation_token \<Rightarrow> cancellation_generation" where
  "token_snapshot t = generation t"

text \<open>\<open>fetch_add\<close> returns the previous generation; the call returns it plus one, wrapping.\<close>

definition token_cancel ::
    "cancellation_token \<Rightarrow> cancellation_token \<times> cancellation_generation" where
  "token_cancel t =
     (let previous = generation t in (t\<lparr>generation := previous + 1\<rparr>, previous + 1))"

definition is_cancelled :: "cancellation_token \<Rightarrow> cancellation_generation \<Rightarrow> bool" where
  "is_cancelled t observed \<longleftrightarrow> generation t \<noteq> observed"

section \<open>Which operations a sequence of cancels reaches\<close>

fun cancel_times :: "nat \<Rightarrow> cancellation_token \<Rightarrow> cancellation_token" where
  "cancel_times 0 t = t"
| "cancel_times (Suc n) t = cancel_times n (fst (token_cancel t))"

lemma generation_cancel_times: "generation (cancel_times n t) = generation t + word_of_nat n"
  by (induction n arbitrary: t) (simp_all add: token_cancel_def Let_def algebra_simps)

text \<open>A generation returned by a cancel is live until the next one.\<close>

lemma cancel_returns_live: "token_cancel t = (t', g) \<Longrightarrow> \<not> is_cancelled t' g \<and> token_snapshot t' = g"
  by (auto simp: token_cancel_def is_cancelled_def token_snapshot_def Let_def)

text \<open>
  C5.  An operation that captured the token's generation sees itself cancelled after \<open>n\<close> further
  cancels exactly when \<open>n\<close> is not a multiple of \<open>2 ^ 64\<close>: every cancel reaches all work started
  before it, and only the wrap-around of the counter could hide it.
\<close>

theorem cancelled_iff_generations_passed:
  "is_cancelled (cancel_times n t) (token_snapshot t) \<longleftrightarrow> \<not> 2 ^ 64 dvd n"
  by (simp add: is_cancelled_def token_snapshot_def generation_cancel_times word_of_nat_eq_0_iff)

end
