(* ===== verification/Snapshots.thy ===== *)
theory Snapshots imports Spans Cancel_Token begin

text \<open>
  Source snapshots and positioned reads (\<open>crates/leanrows-core/src/snapshot.rs\<close>, \<open>source.rs\<close>).
  A fingerprint is a size with optional identity and revision evidence; \<open>compare\<close> classifies what
  changed since a baseline.  The file itself is the operating system's, so the trait
  \<open>PositionedRead\<close> is a record of functions over an arbitrary world \<open>'w\<close> that every call may
  change: another process may write, shrink or replace the file between any two calls, and the
  user may cancel.
\<close>

record source_identity =
  id_namespace :: nat
  id_object :: nat

record source_revision =
  rev_primary :: nat
  rev_secondary :: nat

record source_fingerprint =
  fp_size :: nat
  fp_identity :: "source_identity option"
  fp_revision :: "source_revision option"

definition fingerprint_new :: "nat \<Rightarrow> source_fingerprint" where
  "fingerprint_new bytes = \<lparr>fp_size = bytes, fp_identity = None, fp_revision = None\<rparr>"

definition fingerprint_with_evidence ::
    "nat \<Rightarrow> source_identity option \<Rightarrow> source_revision option \<Rightarrow> source_fingerprint" where
  "fingerprint_with_evidence bytes ident revision =
     \<lparr>fp_size = bytes, fp_identity = ident, fp_revision = revision\<rparr>"

datatype source_change =
  Unchanged | Grew | Shrank | IdentityChanged | RevisionChanged | EvidenceLost

definition is_changed :: "source_change \<Rightarrow> bool" where
  "is_changed c \<longleftrightarrow> c \<noteq> Unchanged"

text \<open>The part of \<open>compare\<close> after the identity check.\<close>

definition compare_size_revision ::
    "source_fingerprint \<Rightarrow> source_fingerprint \<Rightarrow> source_change" where
  "compare_size_revision self current =
     (if fp_size current < fp_size self then Shrank
      else if fp_size current > fp_size self then Grew
      else case (fp_revision self, fp_revision current) of
        (Some expected, Some actual) \<Rightarrow>
          (if expected \<noteq> actual then RevisionChanged else Unchanged)
      | (Some _, None) \<Rightarrow> EvidenceLost
      | _ \<Rightarrow> Unchanged)"

definition fingerprint_compare ::
    "source_fingerprint \<Rightarrow> source_fingerprint \<Rightarrow> source_change" where
  "fingerprint_compare self current =
     (case (fp_identity self, fp_identity current) of
        (Some expected, Some actual) \<Rightarrow>
          (if expected \<noteq> actual then IdentityChanged
           else compare_size_revision self current)
      | (Some _, None) \<Rightarrow> EvidenceLost
      | _ \<Rightarrow> compare_size_revision self current)"

section \<open>Positioned reads\<close>

datatype io_error = InvalidData nat nat | IoOther nat

definition validate_read_count :: "nat \<Rightarrow> nat \<Rightarrow> io_error + nat" where
  "validate_read_count got capacity =
     (if got > capacity then Inl (InvalidData got capacity) else Inr got)"

text \<open>
  The world an operation runs in: \<open>read_at offset n\<close> fills a destination of \<open>n\<close> bytes and says
  how many it read (the trait does not promise that the count fits, which is why the callers
  validate it), \<open>fingerprint\<close> captures evidence, \<open>load_token\<close> is one atomic load of the
  cancellation token, and \<open>feed_tokens\<close> gives the loads one scanner call will make, by the number
  of bytes it has consumed; \<open>try_reserve\<close> is one \<open>try_reserve_exact\<close> of a vector.  The default \<open>fingerprint\<close> of the trait wraps the size.
\<close>

record 'w environment =
  env_fingerprint :: "'w \<Rightarrow> (io_error + source_fingerprint) \<times> 'w"
  env_read_at :: "'w \<Rightarrow> nat \<Rightarrow> nat \<Rightarrow> (io_error + (nat \<times> bytes)) \<times> 'w"
  env_load_token :: "'w \<Rightarrow> cancellation_token \<times> 'w"
  env_feed_tokens :: "'w \<Rightarrow> (nat \<Rightarrow> cancellation_token) \<times> 'w"
  env_try_reserve :: "'w \<Rightarrow> nat \<Rightarrow> bool \<times> 'w"

definition default_fingerprint ::
    "('w \<Rightarrow> (io_error + nat) \<times> 'w) \<Rightarrow> 'w \<Rightarrow> (io_error + source_fingerprint) \<times> 'w" where
  "default_fingerprint get_size w =
     (case get_size w of
        (Inl e, w') \<Rightarrow> (Inl e, w')
      | (Inr n, w') \<Rightarrow> (Inr (fingerprint_new n), w'))"

section \<open>What a comparison promises\<close>

lemma compare_refl: "fingerprint_compare fp fp = Unchanged"
  by (simp add: fingerprint_compare_def compare_size_revision_def split: option.splits)

text \<open>
  C6.  A snapshot that compares as unchanged has the baseline's size, and every piece of evidence
  the baseline holds is present and equal: identity or revision evidence cannot vanish or differ
  unnoticed.  Evidence the baseline lacked is not required.
\<close>

theorem unchanged_iff_evidence_kept:
  "fingerprint_compare base cur = Unchanged \<longleftrightarrow>
     fp_size cur = fp_size base
     \<and> (fp_identity base = None \<or> fp_identity cur = fp_identity base)
     \<and> (fp_revision base = None \<or> fp_revision cur = fp_revision base)"
  by (auto simp: fingerprint_compare_def compare_size_revision_def split: option.splits)

lemma unchanged_size: "fingerprint_compare base cur = Unchanged \<Longrightarrow> fp_size cur = fp_size base"
  by (auto simp: fingerprint_compare_def compare_size_revision_def split: option.splits if_splits)

lemma validate_read_count_Inr [simp]: "validate_read_count n m = Inr k \<longleftrightarrow> k = n \<and> n \<le> m"
  by (auto simp: validate_read_count_def)

section \<open>A stable source\<close>

text \<open>
  The contract of \<open>PositionedRead\<close> over a file nobody changes: the fingerprint never changes and
  has the size of its bytes \<open>data\<close>, and a read inside them returns a non-empty prefix of the bytes at its
  offset that fits the destination (short reads are allowed, and so are changes to the world that
  the file does not see, such as the clock or the token).
\<close>

locale stable_source =
  fixes env :: "'w environment"
    and data :: bytes
    and base :: source_fingerprint
    and world_ok :: "'w \<Rightarrow> bool"
  assumes base_size: "fp_size base = length data"
    and fingerprint_stable:
      "world_ok w \<Longrightarrow> \<exists>w'. env_fingerprint env w = (Inr base, w') \<and> world_ok w'"
    and read_inside:
      "world_ok w \<Longrightarrow> off < length data \<Longrightarrow> 0 < n \<Longrightarrow> off + n \<le> length data \<Longrightarrow>
         \<exists>k buf w'. env_read_at env w off n = (Inr (k, buf), w') \<and> 0 < k \<and> k \<le> n
           \<and> length buf = n \<and> take k buf = take k (drop off data) \<and> world_ok w'"
    and load_token_ok: "world_ok w \<Longrightarrow> world_ok (snd (env_load_token env w))"
    and feed_tokens_ok: "world_ok w \<Longrightarrow> world_ok (snd (env_feed_tokens env w))"
    and try_reserve_ok: "world_ok w \<Longrightarrow> world_ok (snd (env_try_reserve env w n))"
begin

lemma fingerprint_unchanged:
  "world_ok w \<Longrightarrow> \<exists>w'. env_fingerprint env w = (Inr base, w') \<and> world_ok w'
     \<and> fingerprint_compare base base = Unchanged"
  using fingerprint_stable compare_refl by blast

end

text \<open>
  The model of such a file: its bytes and fingerprint never change, a read returns at most
  \<open>chunk\<close> bytes, zero-filled behind what it read, and the token stays at the world's generation.
\<close>

definition file_fingerprint :: "bytes \<Rightarrow> source_fingerprint" where
  "file_fingerprint data = fingerprint_new (length data)"

definition file_read_at :: "nat \<Rightarrow> bytes \<Rightarrow> nat \<Rightarrow> nat \<Rightarrow> nat \<times> bytes" where
  "file_read_at chunk data off n =
     (let got = take (min n chunk) (drop off data)
      in (length got, got @ replicate (n - length got) 0))"

definition file_environment :: "nat \<Rightarrow> bytes \<Rightarrow> cancellation_token environment" where
  "file_environment chunk data =
     \<lparr>env_fingerprint = (\<lambda>w. (Inr (file_fingerprint data), w)),
      env_read_at = (\<lambda>w off n. (Inr (file_read_at chunk data off n), w)),
      env_load_token = (\<lambda>w. (w, w)),
      env_feed_tokens = (\<lambda>w. (\<lambda>_. w, w)),
      env_try_reserve = (\<lambda>w n. (True, w))\<rparr>"

lemma stable_file_environment:
  assumes "0 < chunk"
  shows "stable_source (file_environment chunk data) data (file_fingerprint data) (\<lambda>w. True)"
proof
  fix w :: cancellation_token and off n
  assume "off < length data" "0 < n" "off + n \<le> length data"
  with assms show "\<exists>k buf w'. env_read_at (file_environment chunk data) w off n = (Inr (k, buf), w')
      \<and> 0 < k \<and> k \<le> n \<and> length buf = n \<and> take k buf = take k (drop off data) \<and> True"
    by (auto simp: file_environment_def file_read_at_def Let_def)
qed (auto simp: file_environment_def file_fingerprint_def fingerprint_new_def)

interpretation stable_file: stable_source "file_environment (Suc k) data" data
    "file_fingerprint data" "\<lambda>w. True" for k data
  by (rule stable_file_environment) simp


section \<open>An undisturbed operation\<close>

text \<open>
  The contract with two laws more: the allocator grants every request, and no load of the token
  shows a generation other than \<open>gen\<close>.  Operations that run to the end are proved to do so here.
\<close>

locale quiet_source = stable_source env data base world_ok
  for env :: "'w environment" and data base world_ok +
  fixes gen :: cancellation_generation
  assumes reserve_granted: "world_ok w \<Longrightarrow> fst (env_try_reserve env w n)"
    and load_token_quiet: "world_ok w \<Longrightarrow> \<not> is_cancelled (fst (env_load_token env w)) gen"
    and feed_tokens_quiet: "world_ok w \<Longrightarrow> \<not> is_cancelled (fst (env_feed_tokens env w) n) gen"

lemma quiet_file_environment:
  assumes "0 < chunk"
  shows "quiet_source (file_environment chunk data) data (file_fingerprint data)
    (\<lambda>w. generation w = gen) gen"
proof -
  have "stable_source (file_environment chunk data) data (file_fingerprint data)
      (\<lambda>w. generation w = gen)"
  proof
    fix w :: cancellation_token and off n
    assume "generation w = gen" "off < length data" "0 < n" "off + n \<le> length data"
    with assms show "\<exists>k buf w'. env_read_at (file_environment chunk data) w off n = (Inr (k, buf), w')
        \<and> 0 < k \<and> k \<le> n \<and> length buf = n \<and> take k buf = take k (drop off data) \<and> generation w' = gen"
      by (auto simp: file_environment_def file_read_at_def Let_def)
  qed (auto simp: file_environment_def file_fingerprint_def fingerprint_new_def)
  then show ?thesis
    by (auto simp: quiet_source_def quiet_source_axioms_def file_environment_def is_cancelled_def)
qed

interpretation quiet_file: quiet_source "file_environment (Suc k) data" data
    "file_fingerprint data" "\<lambda>w. generation w = gen" gen for k data gen
  by (rule quiet_file_environment) simp

end
