(* ===== verification/Run_Monad.thy ===== *)
theory Run_Monad imports Snapshots begin

text \<open>
  Fallible operations on the world: \<open>and_then\<close> is the \<open>?\<close> of Rust, the other combinators are the
  primitive calls the engine makes through \<open>PositionedRead\<close>, the cancellation token and the
  allocator.  \<open>run_ok\<close> is the triple the proofs use: from a good world a run ends in a good world,
  with a result in \<open>Q\<close> or an error in \<open>E\<close>, and does not panic.
\<close>

type_synonym ('w, 'e, 'a) run = "'w \<Rightarrow> ('e, 'a) outcome \<times> 'w"

definition give :: "'a \<Rightarrow> ('w, 'e, 'a) run" where
  "give a w = (Ok a, w)"

definition fail :: "'e \<Rightarrow> ('w, 'e, 'a) run" where
  "fail e w = (Err e, w)"

definition panic :: "('w, 'e, 'a) run" where
  "panic w = (Panic, w)"

definition and_then :: "('w, 'e, 'a) run \<Rightarrow> ('a \<Rightarrow> ('w, 'e, 'b) run) \<Rightarrow> ('w, 'e, 'b) run" where
  "and_then m f w =
     (case m w of (Ok a, w') \<Rightarrow> f a w' | (Err e, w') \<Rightarrow> (Err e, w') | (Panic, w') \<Rightarrow> (Panic, w'))"

lemma and_then_cong [fundef_cong]:
  "m w = m' w' \<Longrightarrow> (\<And>a v. m' w' = (Ok a, v) \<Longrightarrow> f a v = f' a v) \<Longrightarrow>
     and_then m f w = and_then m' f' w'"
  by (simp add: and_then_def split: prod.splits outcome.splits)

text \<open>The primitive calls, each with the error it becomes.\<close>

definition check_live :: "'w environment \<Rightarrow> cancellation_generation \<Rightarrow> 'e \<Rightarrow> ('w, 'e, unit) run" where
  "check_live env gen cancelled w =
     (case env_load_token env w of
        (token, w') \<Rightarrow> if is_cancelled token gen then (Err cancelled, w') else (Ok (), w'))"

definition capture :: "'w environment \<Rightarrow> (io_error \<Rightarrow> 'e) \<Rightarrow> ('w, 'e, source_fingerprint) run" where
  "capture env on_io w =
     (case env_fingerprint env w of (Inl e, w') \<Rightarrow> (Err (on_io e), w') | (Inr fp, w') \<Rightarrow> (Ok fp, w'))"

definition try_reserve :: "'w environment \<Rightarrow> 'e \<Rightarrow> nat \<Rightarrow> ('w, 'e, unit) run" where
  "try_reserve env unavailable n w =
     (case env_try_reserve env w n of
        (granted, w') \<Rightarrow> if granted then (Ok (), w') else (Err unavailable, w'))"

definition load_feed_tokens :: "'w environment \<Rightarrow> ('w, 'e, nat \<Rightarrow> cancellation_token) run" where
  "load_feed_tokens env w = (case env_feed_tokens env w of (tokens, w') \<Rightarrow> (Ok tokens, w'))"

text \<open>A read and the validation of its count: how many bytes, and the destination behind the call.\<close>

definition read_validated ::
    "'w environment \<Rightarrow> (io_error \<Rightarrow> 'e) \<Rightarrow> nat \<Rightarrow> nat \<Rightarrow> ('w, 'e, nat \<times> bytes) run" where
  "read_validated env on_io off request w =
     (case env_read_at env w off request of
        (Inl e, w') \<Rightarrow> (Err (on_io e), w')
      | (Inr (k, buf), w') \<Rightarrow>
          (case validate_read_count k request of
             Inl e \<Rightarrow> (Err (on_io e), w') | Inr got \<Rightarrow> (Ok (got, buf), w')))"

lemma read_validated_le: "read_validated env on_io off n w = (Ok (k, buf), w') \<Longrightarrow> k \<le> n"
  by (auto simp: read_validated_def split: prod.splits sum.splits)

definition run_ok :: "('w \<Rightarrow> bool) \<Rightarrow> ('e \<Rightarrow> bool) \<Rightarrow> ('w, 'e, 'a) run \<Rightarrow> ('a \<Rightarrow> bool) \<Rightarrow> bool" where
  "run_ok world_ok E m Q \<longleftrightarrow>
     (\<forall>w. world_ok w \<longrightarrow>
        (case m w of
           (Ok a, w') \<Rightarrow> world_ok w' \<and> Q a | (Err e, w') \<Rightarrow> world_ok w' \<and> E e | (Panic, _) \<Rightarrow> False))"

lemma run_ok_give: "Q a \<Longrightarrow> run_ok ok E (give a) Q"
  by (simp add: run_ok_def give_def)

lemma run_ok_fail: "E e \<Longrightarrow> run_ok ok E (fail e) Q"
  by (simp add: run_ok_def fail_def)

lemma run_okI:
  assumes "\<And>w. ok w \<Longrightarrow> (\<exists>a w'. m w = (Ok a, w') \<and> ok w' \<and> Q a)
      \<or> (\<exists>e w'. m w = (Err e, w') \<and> ok w' \<and> E e)"
  shows "run_ok ok E m Q"
  unfolding run_ok_def
proof (intro allI impI)
  fix w assume "ok w"
  from assms [OF this] show "case m w of
      (Ok a, w') \<Rightarrow> ok w' \<and> Q a | (Err e, w') \<Rightarrow> ok w' \<and> E e | (Panic, _) \<Rightarrow> False" by auto
qed

lemma run_okE:
  assumes "run_ok ok E m Q" "ok w"
  obtains a w' where "m w = (Ok a, w')" "ok w'" "Q a"
    | e w' where "m w = (Err e, w')" "ok w'" "E e"
proof -
  obtain r w' where r: "m w = (r, w')" by fastforce
  have "case m w of (Ok a, w') \<Rightarrow> ok w' \<and> Q a | (Err e, w') \<Rightarrow> ok w' \<and> E e | (Panic, _) \<Rightarrow> False"
    using assms by (simp add: run_ok_def)
  with r that show thesis by (cases r) auto
qed

lemma run_ok_and_then:
  assumes m: "run_ok ok E m P" and f: "\<And>a. P a \<Longrightarrow> run_ok ok E (f a) Q"
  shows "run_ok ok E (and_then m f) Q"
proof (rule run_okI)
  fix w assume "ok w"
  with m show "(\<exists>a w'. and_then m f w = (Ok a, w') \<and> ok w' \<and> Q a)
      \<or> (\<exists>e w'. and_then m f w = (Err e, w') \<and> ok w' \<and> E e)"
  proof (cases rule: run_okE)
    case (1 a w')
    from f [OF 1(3)] 1(2) show ?thesis
      by (cases rule: run_okE) (simp_all add: and_then_def 1(1))
  next
    case (2 e w')
    then show ?thesis by (simp add: and_then_def)
  qed
qed

lemma run_ok_weaken:
  assumes "run_ok ok E m P" "\<And>a. P a \<Longrightarrow> Q a"
  shows "run_ok ok E m Q"
proof (rule run_okI)
  fix w assume "ok w"
  with assms(1) show "(\<exists>a w'. m w = (Ok a, w') \<and> ok w' \<and> Q a) \<or> (\<exists>e w'. m w = (Err e, w') \<and> ok w' \<and> E e)"
    by (cases rule: run_okE) (auto intro: assms(2))
qed

section \<open>Objects in the state\<close>

text \<open>
  A method with \<open>&mut self\<close> is a run on the pair of its object and the world, so that what it changed
  before an error stays changed.
\<close>

definition on_world :: "('w, 'e, 'a) run \<Rightarrow> ('s \<times> 'w, 'e, 'a) run" where
  "on_world m sw = (case m (snd sw) of (r, w') \<Rightarrow> (r, (fst sw, w')))"

definition with_state :: "('s \<Rightarrow> ('s \<times> 'w, 'e, 'a) run) \<Rightarrow> ('s \<times> 'w, 'e, 'a) run" where
  "with_state f sw = f (fst sw) sw"

definition update_state :: "('s \<Rightarrow> 's) \<Rightarrow> ('s \<times> 'w, 'e, unit) run" where
  "update_state f sw = (Ok (), (f (fst sw), snd sw))"

definition token_cancelled :: "'w environment \<Rightarrow> cancellation_generation \<Rightarrow> ('w, 'e, bool) run" where
  "token_cancelled env gen w =
     (case env_load_token env w of (token, w') \<Rightarrow> (Ok (is_cancelled token gen), w'))"

section \<open>Runs that return a value\<close>

named_theorems wp_simps "the weakest preconditions of the combinators"

definition yields :: "('s, 'e, 'a) run \<Rightarrow> 's \<Rightarrow> ('a \<Rightarrow> 's \<Rightarrow> bool) \<Rightarrow> bool" where
  "yields m sw Q = (case m sw of (Ok a, sw') \<Rightarrow> Q a sw' | _ \<Rightarrow> False)"

lemma yields_give [wp_simps]: "yields (give a) sw Q = Q a sw"
  by (simp add: yields_def give_def)

lemma yields_and_then [wp_simps]:
  "yields (and_then m f) sw Q = yields m sw (\<lambda>a sw'. yields (f a) sw' Q)"
  by (simp add: yields_def and_then_def split: prod.split outcome.split)

lemma yields_with_state [wp_simps]: "yields (with_state f) sw Q = yields (f (fst sw)) sw Q"
  by (simp add: yields_def with_state_def)

lemma yields_update_state [wp_simps]: "yields (update_state f) sw Q = Q () (f (fst sw), snd sw)"
  by (simp add: yields_def update_state_def)

lemma yields_on_world [wp_simps]:
  "yields (on_world m) sw Q = yields m (snd sw) (\<lambda>a w'. Q a (fst sw, w'))"
  by (simp add: yields_def on_world_def split: prod.split outcome.split)

lemma yields_weaken: "yields m sw Q \<Longrightarrow> (\<And>a sw'. Q a sw' \<Longrightarrow> Q' a sw') \<Longrightarrow> yields m sw Q'"
  by (auto simp: yields_def split: prod.splits outcome.splits)

lemma yieldsI: "m sw = (Ok a, sw') \<Longrightarrow> Q a sw' \<Longrightarrow> yields m sw Q"
  by (simp add: yields_def)

lemma yieldsE:
  assumes "yields m sw Q" obtains a sw' where "m sw = (Ok a, sw')" "Q a sw'"
  using assms by (auto simp: yields_def split: prod.splits outcome.splits)

lemma yields_eq: "m sw = m' sw \<Longrightarrow> yields m' sw Q \<Longrightarrow> yields m sw Q"
  by (simp add: yields_def)

section \<open>The primitive calls over a stable source\<close>

text \<open>
  The errors \<open>E\<close> a run may end in: the cancellation error if some load of the token can show a
  cancellation, the allocation error if some reservation can be refused, and no other.
\<close>

locale run_world = stable_source env data base world_ok
  for env :: "'w environment" and data base world_ok +
  fixes gen :: cancellation_generation
    and E :: "'e \<Rightarrow> bool"
    and cancelled :: 'e
    and unavailable :: 'e
  assumes load_may_cancel:
      "world_ok w \<Longrightarrow> is_cancelled (fst (env_load_token env w)) gen \<Longrightarrow> E cancelled"
    and feed_may_cancel:
      "world_ok w \<Longrightarrow> is_cancelled (fst (env_feed_tokens env w) n) gen \<Longrightarrow> E cancelled"
    and reserve_may_fail: "world_ok w \<Longrightarrow> \<not> fst (env_try_reserve env w n) \<Longrightarrow> E unavailable"
begin

lemma check_live_ok: "run_ok world_ok E (check_live env gen cancelled) (\<lambda>_. True)"
proof (rule run_okI)
  fix w assume "world_ok w"
  then show "(\<exists>a w'. check_live env gen cancelled w = (Ok a, w') \<and> world_ok w' \<and> True)
      \<or> (\<exists>e w'. check_live env gen cancelled w = (Err e, w') \<and> world_ok w' \<and> E e)"
    using load_may_cancel [of w] load_token_ok [of w]
    by (cases "env_load_token env w") (auto simp: check_live_def)
qed

lemma capture_ok: "run_ok world_ok E (capture env on_io) (\<lambda>fp. fp = base)"
proof (rule run_okI)
  fix w assume "world_ok w"
  then show "(\<exists>a w'. capture env on_io w = (Ok a, w') \<and> world_ok w' \<and> a = base)
      \<or> (\<exists>e w'. capture env on_io w = (Err e, w') \<and> world_ok w' \<and> E e)"
    using fingerprint_stable [of w] by (auto simp: capture_def)
qed

lemma try_reserve_run_ok: "run_ok world_ok E (try_reserve env unavailable n) (\<lambda>_. True)"
proof (rule run_okI)
  fix w assume "world_ok w"
  then show "(\<exists>a w'. try_reserve env unavailable n w = (Ok a, w') \<and> world_ok w' \<and> True)
      \<or> (\<exists>e w'. try_reserve env unavailable n w = (Err e, w') \<and> world_ok w' \<and> E e)"
    using reserve_may_fail [of w n] try_reserve_ok [of w n]
    by (cases "env_try_reserve env w n") (auto simp: try_reserve_def)
qed

lemma load_feed_tokens_ok:
  "run_ok world_ok E (load_feed_tokens env) (\<lambda>tk. \<forall>n. is_cancelled (tk n) gen \<longrightarrow> E cancelled)"
proof (rule run_okI)
  fix w assume "world_ok w"
  then show "(\<exists>a w'. load_feed_tokens env w = (Ok a, w') \<and> world_ok w'
        \<and> (\<forall>n. is_cancelled (a n) gen \<longrightarrow> E cancelled))
      \<or> (\<exists>e w'. load_feed_tokens env w = (Err e, w') \<and> world_ok w' \<and> E e)"
    using feed_may_cancel [of w] feed_tokens_ok [of w]
    by (cases "env_feed_tokens env w") (auto simp: load_feed_tokens_def)
qed

lemma read_validated_ok:
  assumes "off < length data" "0 < n" "off + n \<le> length data"
  shows "run_ok world_ok E (read_validated env on_io off n)
    (\<lambda>(k, buf). 0 < k \<and> k \<le> n \<and> length buf = n \<and> take k buf = take k (drop off data))"
proof (rule run_okI)
  fix w assume "world_ok w"
  from read_inside [OF this assms] obtain k buf w' where
    "env_read_at env w off n = (Inr (k, buf), w')" "0 < k" "k \<le> n"
    "length buf = n" "take k buf = take k (drop off data)" "world_ok w'" by blast
  then show "(\<exists>a w'. read_validated env on_io off n w = (Ok a, w') \<and> world_ok w' \<and> (case a of (k, buf) \<Rightarrow>
         0 < k \<and> k \<le> n \<and> length buf = n \<and> take k buf = take k (drop off data)))
      \<or> (\<exists>e w'. read_validated env on_io off n w = (Err e, w') \<and> world_ok w' \<and> E e)"
    by (simp add: read_validated_def validate_read_count_def)
qed

end

text \<open>An undisturbed world allows no error at all; any stable one allows these two.\<close>

lemma quiet_run_world:
  "quiet_source env data base world_ok gen \<Longrightarrow>
     run_world env data base world_ok gen (\<lambda>_. False) cancelled unavailable"
  by (simp add: quiet_source_def quiet_source_axioms_def run_world_def run_world_axioms_def)

lemma stable_run_world:
  "stable_source env data base world_ok \<Longrightarrow>
     run_world env data base world_ok gen (\<lambda>e. e = cancelled \<or> e = unavailable) cancelled unavailable"
  by (simp add: run_world_def run_world_axioms_def)

interpretation file_run: run_world "file_environment (Suc k) data" data "file_fingerprint data"
    "\<lambda>w. generation w = gen" gen "\<lambda>_. False" cancelled unavailable for k data gen cancelled unavailable
  by (rule quiet_run_world, rule quiet_file_environment) simp

end
