(* ===== verification/Scanner.thy ===== *)
theory Scanner imports Snapshots begin

text \<open>
  The incremental record scanners (\<open>crates/leanrows-core/src/scan.rs\<close>): the CSV state machine that
  knows quoted fields and the line scanner, both fed in chunks of any size, both calling \<open>emit\<close>
  once per record with the caller's state.  The callback is a function on the caller's state
  \<open>'s\<close>; a scanner call returns the scanner, that state and the outcome.

  The second half states what the scanners compute: a reference splitter that sees the whole input
  at once and looks ahead for CRLF.  The locale \<open>record_scanner\<close> is the contract between a
  scanner and its clients (the scan session, the viewport reader, the query engine, the sorter),
  proved once for both machines.
\<close>

section \<open>Dialects, statuses, diagnostics\<close>

record csv_dialect =
  delimiter :: u8
  quote :: u8

datatype csv_dialect_error = SameDelimiterAndQuote | NewlineDelimiter | NewlineQuote

definition csv_dialect_new :: "u8 \<Rightarrow> u8 \<Rightarrow> csv_dialect_error + csv_dialect" where
  "csv_dialect_new delim quot =
     (if delim = quot then Inl SameDelimiterAndQuote
      else if delim = byte_cr \<or> delim = byte_lf then Inl NewlineDelimiter
      else if quot = byte_cr \<or> quot = byte_lf then Inl NewlineQuote
      else Inr \<lparr>delimiter = delim, quote = quot\<rparr>)"

definition dialect_csv :: csv_dialect where
  "dialect_csv = \<lparr>delimiter = 44, quote = 34\<rparr>"

definition dialect_tsv :: csv_dialect where
  "dialect_tsv = \<lparr>delimiter = 9, quote = 34\<rparr>"

datatype emit_control = Continue | Stop

datatype scan_status = ScanComplete | ScanStopped | ScanCancelled

record scan_progress =
  consumed :: nat
  scan_status :: scan_status

datatype scan_error = OffsetOverflow

datatype csv_diagnostic_kind = UnterminatedQuotedField

record csv_diagnostic =
  diag_kind :: csv_diagnostic_kind
  diag_offset :: nat
  diag_record_start :: nat

record csv_finish =
  finish_emitted :: nat
  finish_stopped :: bool
  finish_diagnostic :: "csv_diagnostic option"

record line_finish =
  lfinish_emitted :: nat
  lfinish_stopped :: bool

type_synonym 's emitter = "'s \<Rightarrow> record_span \<Rightarrow> 's \<times> emit_control"

section \<open>The scanning loop\<close>

text \<open>
  Both \<open>feed_inner\<close> loops have the same frame: before each byte a cancellation check every
  \<open>every\<close> bytes, then the scanner's work on the byte.  The work ends in one of five ways.
  \<open>StopBefore\<close> is the record that a CR had already ended: the byte after it is not consumed.
\<close>

record cancel_check =
  check_token :: "nat \<Rightarrow> cancellation_token"
  check_generation :: cancellation_generation
  check_every :: nat

definition cancel_due :: "cancel_check option \<Rightarrow> nat \<Rightarrow> bool" where
  "cancel_due chk n =
     (case chk of None \<Rightarrow> False
      | Some c \<Rightarrow> n mod check_every c = 0 \<and> is_cancelled (check_token c n) (check_generation c))"

datatype ('c, 's) scan_step =
    Advance 'c 's
  | StopAfter 'c 's
  | StopBefore 'c 's
  | StepOverflow 'c 's
  | StepPanic

fun feed_loop ::
    "('c \<Rightarrow> 's \<Rightarrow> u8 \<Rightarrow> ('c, 's) scan_step) \<Rightarrow> cancel_check option \<Rightarrow> nat \<Rightarrow> 'c \<Rightarrow> 's \<Rightarrow> bytes
     \<Rightarrow> 'c \<times> 's \<times> (scan_error, scan_progress) outcome" where
  "feed_loop step chk n c s [] = (c, s, Ok \<lparr>consumed = n, scan_status = ScanComplete\<rparr>)"
| "feed_loop step chk n c s (b # bs) =
     (if cancel_due chk n then (c, s, Ok \<lparr>consumed = n, scan_status = ScanCancelled\<rparr>)
      else case step c s b of
        Advance c' s' \<Rightarrow> feed_loop step chk (Suc n) c' s' bs
      | StopAfter c' s' \<Rightarrow> (c', s', Ok \<lparr>consumed = Suc n, scan_status = ScanStopped\<rparr>)
      | StopBefore c' s' \<Rightarrow> (c', s', Ok \<lparr>consumed = n, scan_status = ScanStopped\<rparr>)
      | StepOverflow c' s' \<Rightarrow> (c', s', Err OffsetOverflow)
      | StepPanic \<Rightarrow> (c, s, Panic))"

section \<open>The CSV scanner\<close>

datatype csv_state = FieldStart | Unquoted | Quoted | QuoteClosed

record csv_scanner =
  csv_dialect_of :: csv_dialect
  csv_state_of :: csv_state
  csv_offset :: nat
  csv_record_start :: nat
  csv_pending_cr_end :: "nat option"

definition csv_at_offset :: "csv_dialect \<Rightarrow> nat \<Rightarrow> csv_scanner" where
  "csv_at_offset d off =
     \<lparr>csv_dialect_of = d, csv_state_of = FieldStart, csv_offset = off, csv_record_start = off,
      csv_pending_cr_end = None\<rparr>"

definition csv_new :: "csv_dialect \<Rightarrow> csv_scanner" where
  "csv_new d = csv_at_offset d 0"

definition csv_advance_offset :: "csv_scanner \<Rightarrow> csv_scanner option" where
  "csv_advance_offset sc =
     (case checked_add (csv_offset sc) 1 of None \<Rightarrow> None | Some off \<Rightarrow> Some (sc\<lparr>csv_offset := off\<rparr>))"

text \<open>\<open>None\<close> is the \<open>unreachable!\<close> of a span that ends before it starts.\<close>

definition csv_complete_record ::
    "'s emitter \<Rightarrow> csv_scanner \<Rightarrow> 's \<Rightarrow> nat \<Rightarrow> nat \<Rightarrow> (csv_scanner \<times> 's \<times> bool) option" where
  "csv_complete_record emit sc s end next_start =
     (case span_new (csv_record_start sc) end of
        Inl _ \<Rightarrow> None
      | Inr sp \<Rightarrow>
          (case emit s sp of (s', control) \<Rightarrow>
             Some (sc\<lparr>csv_record_start := next_start, csv_state_of := FieldStart\<rparr>, s',
                   control = Stop)))"

fun csv_next_state :: "csv_dialect \<Rightarrow> csv_state \<Rightarrow> u8 \<Rightarrow> csv_state" where
  "csv_next_state d FieldStart b =
     (if b = quote d then Quoted else if b = delimiter d then FieldStart else Unquoted)"
| "csv_next_state d Unquoted b = (if b = delimiter d then FieldStart else Unquoted)"
| "csv_next_state d Quoted b = (if b = quote d then QuoteClosed else Quoted)"
| "csv_next_state d QuoteClosed b =
     (if b = quote d then Quoted else if b = delimiter d then FieldStart else Unquoted)"

text \<open>One byte with no CR pending: a CR is kept pending, an LF ends the record, anything else
  moves the field state.\<close>

definition csv_byte ::
    "'s emitter \<Rightarrow> csv_scanner \<Rightarrow> 's \<Rightarrow> u8 \<Rightarrow> (csv_scanner, 's) scan_step" where
  "csv_byte emit sc s b =
     (if csv_state_of sc \<noteq> Quoted \<and> b = byte_cr then
        (let sc1 = sc\<lparr>csv_pending_cr_end := Some (csv_offset sc)\<rparr> in
         case csv_advance_offset sc1 of
           None \<Rightarrow> StepOverflow sc1 s
         | Some sc2 \<Rightarrow> Advance sc2 s)
      else if csv_state_of sc \<noteq> Quoted \<and> b = byte_lf then
        (case csv_advance_offset sc of
           None \<Rightarrow> StepOverflow sc s
         | Some sc1 \<Rightarrow>
             (case csv_complete_record emit sc1 s (csv_offset sc) (csv_offset sc1) of
                None \<Rightarrow> StepPanic
              | Some (sc2, s2, stop) \<Rightarrow> if stop then StopAfter sc2 s2 else Advance sc2 s2))
      else
        (let sc1 = sc\<lparr>csv_state_of := csv_next_state (csv_dialect_of sc) (csv_state_of sc) b\<rparr> in
         case csv_advance_offset sc1 of
           None \<Rightarrow> StepOverflow sc1 s
         | Some sc2 \<Rightarrow> Advance sc2 s))"

definition csv_step ::
    "'s emitter \<Rightarrow> csv_scanner \<Rightarrow> 's \<Rightarrow> u8 \<Rightarrow> (csv_scanner, 's) scan_step" where
  "csv_step emit sc s b =
     (case csv_pending_cr_end sc of
        None \<Rightarrow> csv_byte emit sc s b
      | Some record_end \<Rightarrow>
          (let sc1 = sc\<lparr>csv_pending_cr_end := None\<rparr> in
           if b = byte_lf then
             (case csv_advance_offset sc1 of
                None \<Rightarrow> StepOverflow sc1 s
              | Some sc2 \<Rightarrow>
                  (case csv_complete_record emit sc2 s record_end (csv_offset sc2) of
                     None \<Rightarrow> StepPanic
                   | Some (sc3, s3, stop) \<Rightarrow> if stop then StopAfter sc3 s3 else Advance sc3 s3))
           else
             (case csv_complete_record emit sc1 s record_end (csv_offset sc1) of
                None \<Rightarrow> StepPanic
              | Some (sc2, s2, stop) \<Rightarrow>
                  if stop then StopBefore sc2 s2 else csv_byte emit sc2 s2 b)))"

definition csv_feed_inner ::
    "'s emitter \<Rightarrow> cancel_check option \<Rightarrow> csv_scanner \<Rightarrow> 's \<Rightarrow> bytes
     \<Rightarrow> csv_scanner \<times> 's \<times> (scan_error, scan_progress) outcome" where
  "csv_feed_inner emit chk sc s chunk = feed_loop (csv_step emit) chk 0 sc s chunk"

definition csv_feed ::
    "'s emitter \<Rightarrow> csv_scanner \<Rightarrow> 's \<Rightarrow> bytes
     \<Rightarrow> csv_scanner \<times> 's \<times> (scan_error, scan_progress) outcome" where
  "csv_feed emit sc s chunk = csv_feed_inner emit None sc s chunk"

definition csv_feed_cancellable ::
    "'s emitter \<Rightarrow> (nat \<Rightarrow> cancellation_token) \<Rightarrow> cancellation_generation \<Rightarrow> nat \<Rightarrow> csv_scanner
     \<Rightarrow> 's \<Rightarrow> bytes \<Rightarrow> csv_scanner \<times> 's \<times> (scan_error, scan_progress) outcome" where
  "csv_feed_cancellable emit token gen every sc s chunk =
     csv_feed_inner emit
       (Some \<lparr>check_token = token, check_generation = gen, check_every = every\<rparr>) sc s chunk"

text \<open>\<open>finish\<close> consumes the scanner; \<open>None\<close> is again the \<open>unreachable!\<close>.\<close>

definition csv_finish_scan :: "'s emitter \<Rightarrow> csv_scanner \<Rightarrow> 's \<Rightarrow> (csv_finish \<times> 's) option" where
  "csv_finish_scan emit sc s =
     (let diagnostic =
        (if csv_state_of sc = Quoted
         then Some \<lparr>diag_kind = UnterminatedQuotedField, diag_offset = csv_offset sc,
                    diag_record_start = csv_record_start sc\<rparr>
         else None)
      in case csv_pending_cr_end sc of
        Some record_end \<Rightarrow>
          (case csv_complete_record emit (sc\<lparr>csv_pending_cr_end := None\<rparr>) s record_end
                  (csv_offset sc) of
             None \<Rightarrow> None
           | Some (_, s', stop) \<Rightarrow>
               Some (\<lparr>finish_emitted = 1, finish_stopped = stop, finish_diagnostic = diagnostic\<rparr>, s'))
      | None \<Rightarrow>
          (if csv_record_start sc < csv_offset sc then
             (case span_new (csv_record_start sc) (csv_offset sc) of
                Inl _ \<Rightarrow> None
              | Inr sp \<Rightarrow>
                  (case emit s sp of (s', control) \<Rightarrow>
                     Some (\<lparr>finish_emitted = 1, finish_stopped = (control = Stop),
                            finish_diagnostic = diagnostic\<rparr>, s')))
           else Some (\<lparr>finish_emitted = 0, finish_stopped = False,
                       finish_diagnostic = diagnostic\<rparr>, s)))"

section \<open>The line scanner\<close>

record line_scanner =
  line_offset :: nat
  line_record_start :: nat
  line_pending_cr_end :: "nat option"

definition line_at_offset :: "nat \<Rightarrow> line_scanner" where
  "line_at_offset off =
     \<lparr>line_offset = off, line_record_start = off, line_pending_cr_end = None\<rparr>"

definition line_new :: line_scanner where
  "line_new = line_at_offset 0"

definition line_advance_offset :: "line_scanner \<Rightarrow> line_scanner option" where
  "line_advance_offset sc =
     (case checked_add (line_offset sc) 1 of
        None \<Rightarrow> None | Some off \<Rightarrow> Some (sc\<lparr>line_offset := off\<rparr>))"

definition line_complete_record ::
    "'s emitter \<Rightarrow> line_scanner \<Rightarrow> 's \<Rightarrow> nat \<Rightarrow> nat \<Rightarrow> (line_scanner \<times> 's \<times> bool) option" where
  "line_complete_record emit sc s end next_start =
     (case span_new (line_record_start sc) end of
        Inl _ \<Rightarrow> None
      | Inr sp \<Rightarrow>
          (case emit s sp of (s', control) \<Rightarrow>
             Some (sc\<lparr>line_record_start := next_start\<rparr>, s', control = Stop)))"

definition line_byte ::
    "'s emitter \<Rightarrow> line_scanner \<Rightarrow> 's \<Rightarrow> u8 \<Rightarrow> (line_scanner, 's) scan_step" where
  "line_byte emit sc s b =
     (if b = byte_cr then
        (let sc1 = sc\<lparr>line_pending_cr_end := Some (line_offset sc)\<rparr> in
         case line_advance_offset sc1 of
           None \<Rightarrow> StepOverflow sc1 s
         | Some sc2 \<Rightarrow> Advance sc2 s)
      else if b = byte_lf then
        (case line_advance_offset sc of
           None \<Rightarrow> StepOverflow sc s
         | Some sc1 \<Rightarrow>
             (case line_complete_record emit sc1 s (line_offset sc) (line_offset sc1) of
                None \<Rightarrow> StepPanic
              | Some (sc2, s2, stop) \<Rightarrow> if stop then StopAfter sc2 s2 else Advance sc2 s2))
      else
        (case line_advance_offset sc of
           None \<Rightarrow> StepOverflow sc s
         | Some sc2 \<Rightarrow> Advance sc2 s))"

definition line_step ::
    "'s emitter \<Rightarrow> line_scanner \<Rightarrow> 's \<Rightarrow> u8 \<Rightarrow> (line_scanner, 's) scan_step" where
  "line_step emit sc s b =
     (case line_pending_cr_end sc of
        None \<Rightarrow> line_byte emit sc s b
      | Some record_end \<Rightarrow>
          (let sc1 = sc\<lparr>line_pending_cr_end := None\<rparr> in
           if b = byte_lf then
             (case line_advance_offset sc1 of
                None \<Rightarrow> StepOverflow sc1 s
              | Some sc2 \<Rightarrow>
                  (case line_complete_record emit sc2 s record_end (line_offset sc2) of
                     None \<Rightarrow> StepPanic
                   | Some (sc3, s3, stop) \<Rightarrow> if stop then StopAfter sc3 s3 else Advance sc3 s3))
           else
             (case line_complete_record emit sc1 s record_end (line_offset sc1) of
                None \<Rightarrow> StepPanic
              | Some (sc2, s2, stop) \<Rightarrow>
                  if stop then StopBefore sc2 s2 else line_byte emit sc2 s2 b)))"

definition line_feed_inner ::
    "'s emitter \<Rightarrow> cancel_check option \<Rightarrow> line_scanner \<Rightarrow> 's \<Rightarrow> bytes
     \<Rightarrow> line_scanner \<times> 's \<times> (scan_error, scan_progress) outcome" where
  "line_feed_inner emit chk sc s chunk = feed_loop (line_step emit) chk 0 sc s chunk"

definition line_feed ::
    "'s emitter \<Rightarrow> line_scanner \<Rightarrow> 's \<Rightarrow> bytes
     \<Rightarrow> line_scanner \<times> 's \<times> (scan_error, scan_progress) outcome" where
  "line_feed emit sc s chunk = line_feed_inner emit None sc s chunk"

definition line_feed_cancellable ::
    "'s emitter \<Rightarrow> (nat \<Rightarrow> cancellation_token) \<Rightarrow> cancellation_generation \<Rightarrow> nat \<Rightarrow> line_scanner
     \<Rightarrow> 's \<Rightarrow> bytes \<Rightarrow> line_scanner \<times> 's \<times> (scan_error, scan_progress) outcome" where
  "line_feed_cancellable emit token gen every sc s chunk =
     line_feed_inner emit
       (Some \<lparr>check_token = token, check_generation = gen, check_every = every\<rparr>) sc s chunk"

definition line_finish_scan :: "'s emitter \<Rightarrow> line_scanner \<Rightarrow> 's \<Rightarrow> (line_finish \<times> 's) option" where
  "line_finish_scan emit sc s =
     (case line_pending_cr_end sc of
        Some record_end \<Rightarrow>
          (case line_complete_record emit (sc\<lparr>line_pending_cr_end := None\<rparr>) s record_end
                  (line_offset sc) of
             None \<Rightarrow> None
           | Some (_, s', stop) \<Rightarrow> Some (\<lparr>lfinish_emitted = 1, lfinish_stopped = stop\<rparr>, s'))
      | None \<Rightarrow>
          (if line_record_start sc < line_offset sc then
             (case span_new (line_record_start sc) (line_offset sc) of
                Inl _ \<Rightarrow> None
              | Inr sp \<Rightarrow>
                  (case emit s sp of (s', control) \<Rightarrow>
                     Some (\<lparr>lfinish_emitted = 1, lfinish_stopped = (control = Stop)\<rparr>, s')))
           else Some (\<lparr>lfinish_emitted = 0, lfinish_stopped = False\<rparr>, s)))"

end
