(* ===== verification/Record_Splitting.thy ===== *)
theory Record_Splitting imports Scanner begin

text \<open>
  What the scanners of \<open>scan.rs\<close> compute, stated without chunks, callbacks or pending state: a
  splitter that reads the whole input, looks one byte ahead for CRLF and returns the record spans.
  It is parametric in the machine that says which newlines are inside a field, so that CSV and
  line records are two instances.
\<close>

record 'q splitter =
  sp_opaque :: "'q \<Rightarrow> bool"
  sp_next :: "'q \<Rightarrow> u8 \<Rightarrow> 'q"
  sp_initial :: 'q

definition is_newline :: "u8 \<Rightarrow> bool" where
  "is_newline b \<longleftrightarrow> b = byte_cr \<or> b = byte_lf"

definition crlf_tail :: "u8 \<Rightarrow> bytes \<Rightarrow> nat" where
  "crlf_tail b bs =
     (if b = byte_cr then (case bs of [] \<Rightarrow> 0 | c # _ \<Rightarrow> if c = byte_lf then 1 else 0) else 0)"

function split_records :: "'q splitter \<Rightarrow> 'q \<Rightarrow> nat \<Rightarrow> nat \<Rightarrow> bytes \<Rightarrow> record_span list" where
  "split_records sp q start pos [] = (if start < pos then [mk_span start pos] else [])"
| "split_records sp q start pos (b # bs) =
     (if \<not> sp_opaque sp q \<and> is_newline b then
        mk_span start pos #
          split_records sp (sp_initial sp) (Suc pos + crlf_tail b bs) (Suc pos + crlf_tail b bs)
            (drop (crlf_tail b bs) bs)
      else split_records sp (sp_next sp q b) start (Suc pos) bs)"
  by pat_completeness auto
termination
  by (relation "measure (\<lambda>(sp, q, start, pos, bs). length bs)") auto

definition csv_splitter :: "csv_dialect \<Rightarrow> csv_state splitter" where
  "csv_splitter d =
     \<lparr>sp_opaque = (\<lambda>q. q = Quoted), sp_next = csv_next_state d, sp_initial = FieldStart\<rparr>"

definition line_splitter :: "unit splitter" where
  "line_splitter = \<lparr>sp_opaque = (\<lambda>_. False), sp_next = (\<lambda>_ _. ()), sp_initial = ()\<rparr>"

text \<open>The records of a file, and of the part of it that starts at a record boundary.\<close>

definition records_from :: "'q splitter \<Rightarrow> nat \<Rightarrow> bytes \<Rightarrow> record_span list" where
  "records_from sp off bs = split_records sp (sp_initial sp) off off bs"

abbreviation records_of :: "'q splitter \<Rightarrow> bytes \<Rightarrow> record_span list" where
  "records_of sp bs \<equiv> records_from sp 0 bs"

lemma records_from_Nil [simp]: "records_from sp off [] = []"
  by (simp add: records_from_def)

lemma crlf_tail_le: "crlf_tail b bs \<le> length bs"
  by (simp add: crlf_tail_def split: list.splits)

lemma crlf_tail_LF [simp]: "crlf_tail byte_lf bs = 0"
  by (simp add: crlf_tail_def)

lemma csv_splitter_simps [simp]:
  "sp_opaque (csv_splitter d) q = (q = Quoted)"
  "sp_next (csv_splitter d) = csv_next_state d"
  "sp_initial (csv_splitter d) = FieldStart"
  by (simp_all add: csv_splitter_def)

lemma line_splitter_simps [simp]: "sp_opaque line_splitter q = False"
  by (simp add: line_splitter_def)

section \<open>The spans tile the file\<close>

text \<open>
  \<open>tiles\<close> walks the file from \<open>p\<close>: each record starts where the walk stands, ends inside the
  file, and is followed by CR, LF or CRLF, from behind which the walk goes on; only the last record
  may reach the end of the file without a newline, and then it is not empty.
\<close>

fun tiles :: "bytes \<Rightarrow> nat \<Rightarrow> record_span list \<Rightarrow> bool" where
  "tiles data p [] \<longleftrightarrow> p = length data"
| "tiles data p (r # rs) \<longleftrightarrow>
     span_start r = p \<and> p \<le> span_end r \<and> span_end r \<le> length data \<and>
     (if span_end r = length data then p < span_end r \<and> rs = []
      else is_newline (data ! span_end r) \<and>
        tiles data
          (Suc (span_end r) + crlf_tail (data ! span_end r) (drop (Suc (span_end r)) data)) rs)"

lemma split_records_tiles:
  assumes "start \<le> length pre"
  shows "tiles (pre @ bs) start (split_records sp q start (length pre) bs)"
  using assms
proof (induction sp q start "length pre" bs arbitrary: pre rule: split_records.induct)
  case (1 sp q start)
  then show ?case by auto
next
  case (2 sp q start b bs)
  show ?case
  proof (cases "\<not> sp_opaque sp q \<and> is_newline b")
    case True
    let ?k = "crlf_tail b bs"
    have len: "Suc (length pre) + ?k = length (pre @ b # take ?k bs)"
      using crlf_tail_le [of b bs] by simp
    have "tiles ((pre @ b # take ?k bs) @ drop ?k bs) (Suc (length pre) + ?k)
        (split_records sp (sp_initial sp) (Suc (length pre) + ?k) (Suc (length pre) + ?k)
           (drop ?k bs))"
      using "2.hyps"(1) [OF True len] len by simp
    with True "2.prems" show ?thesis by simp
  next
    case False
    have "tiles ((pre @ [b]) @ bs) start (split_records sp (sp_next sp q b) start (Suc (length pre)) bs)"
      using "2.hyps"(2) [OF False, of "pre @ [b]"] "2.prems" by simp
    with False show ?thesis by auto
  qed
qed

lemma records_of_tiles: "tiles data 0 (records_of sp data)"
  using split_records_tiles [of 0 "[]" data sp "sp_initial sp"] by (simp add: records_from_def)

lemma tiles_spans_valid:
  "tiles data p rs \<Longrightarrow> r \<in> set rs \<Longrightarrow> p \<le> span_start r \<and> span_valid r \<and> span_end r \<le> length data"
  by (induction data p rs rule: tiles.induct)
    (fastforce simp: span_valid_def split: if_splits)+

lemma tiles_starts_increasing:
  "tiles data p rs \<Longrightarrow> i < j \<Longrightarrow> j < length rs \<Longrightarrow> span_end (rs ! i) < span_start (rs ! j)"
proof (induction data p rs arbitrary: i j rule: tiles.induct)
  case (2 data p r rs)
  then obtain j' where j: "j = Suc j'" by (cases j) auto
  from 2 j have ne: "span_end r \<noteq> length data" by auto
  with 2 j have t: "tiles data (Suc (span_end r)
      + crlf_tail (data ! span_end r) (drop (Suc (span_end r)) data)) rs"
    by auto
  show ?case
  proof (cases i)
    case 0
    have "rs ! j' \<in> set rs" using 2 j by simp
    from tiles_spans_valid [OF t this] show ?thesis using 0 j by simp
  next
    case (Suc i')
    with 2 j t ne show ?thesis by simp
  qed
qed simp

section \<open>Newlines inside a record are inside a field\<close>

text \<open>The state of the field machine after the bytes of a record before position \<open>i\<close>.\<close>

definition state_at :: "'q splitter \<Rightarrow> bytes \<Rightarrow> nat \<Rightarrow> nat \<Rightarrow> 'q" where
  "state_at sp data start i = foldl (sp_next sp) (sp_initial sp) (segment data start i)"

lemma segment_Suc:
  "start \<le> length pre \<Longrightarrow>
     segment (pre @ b # bs) start (Suc (length pre)) = segment (pre @ b # bs) start (length pre) @ [b]"
  by (simp add: segment_def Suc_diff_le)

lemma split_records_starts:
  "r \<in> set (split_records sp q start pos bs) \<Longrightarrow> span_start r = start \<or> pos < span_start r"
  by (induction sp q start pos bs rule: split_records.induct)
    (fastforce split: if_splits)+

lemma split_records_newlines:
  assumes "start \<le> length pre"
    and "q = state_at sp (pre @ bs) start (length pre)"
    and "r \<in> set (split_records sp q start (length pre) bs)"
    and "span_start r \<le> i" "length pre \<le> i" "i < span_end r" "is_newline ((pre @ bs) ! i)"
  shows "sp_opaque sp (state_at sp (pre @ bs) (span_start r) i)"
  using assms
proof (induction sp q start "length pre" bs arbitrary: pre rule: split_records.induct)
  case (1 sp q start)
  then show ?case by (auto split: if_splits)
next
  case (2 sp q start b bs)
  show ?case
  proof (cases "\<not> sp_opaque sp q \<and> is_newline b")
    case True
    let ?k = "crlf_tail b bs"
    have len: "Suc (length pre) + ?k = length (pre @ b # take ?k bs)"
      using crlf_tail_le [of b bs] by simp
    let ?rest = "split_records sp (sp_initial sp) (Suc (length pre) + ?k) (Suc (length pre) + ?k)
          (drop ?k bs)"
    from True "2.prems" have r: "r = mk_span start (length pre) \<or> r \<in> set ?rest" by auto
    with "2.prems" have rr: "r \<in> set ?rest" by auto
    have "tiles ((pre @ b # take ?k bs) @ drop ?k bs) (length (pre @ b # take ?k bs)) ?rest"
      using split_records_tiles [of "length (pre @ b # take ?k bs)" "pre @ b # take ?k bs"
          "drop ?k bs" sp "sp_initial sp"] len by simp
    from tiles_spans_valid [OF this rr] have "length (pre @ b # take ?k bs) \<le> span_start r"
      by simp
    with "2.hyps"(1) [OF True len] "2.prems" rr len show ?thesis
      by (simp add: state_at_def)
  next
    case False
    have "split_records sp q start (length pre) (b # bs)
        = split_records sp (sp_next sp q b) start (length (pre @ [b])) bs"
      using False by auto
    with "2.prems"(3)
    have r: "r \<in> set (split_records sp (sp_next sp q b) start (length (pre @ [b])) bs)"
      by simp
    have q: "sp_next sp q b = state_at sp ((pre @ [b]) @ bs) start (length (pre @ [b]))"
      using "2.prems"(1,2) by (simp add: state_at_def segment_Suc)
    show ?thesis
    proof (cases "i = length pre")
      case True
      with "2.prems" have nl: "is_newline b" by simp
      with False have opq: "sp_opaque sp q" by simp
      have "span_start r = start"
        using split_records_starts [OF r] True "2.prems"(4) by simp
      with opq "2.prems"(2) True show ?thesis by simp
    next
      case ne: False
      with "2.prems" have "length (pre @ [b]) \<le> i" by simp
      with "2.hyps"(2) [OF False, of "pre @ [b]"] r q "2.prems" show ?thesis by simp
    qed
  qed
qed

lemma records_of_newlines:
  assumes "r \<in> set (records_of sp data)" "span_start r \<le> i" "i < span_end r"
    and "is_newline (data ! i)"
  shows "sp_opaque sp (state_at sp data (span_start r) i)"
  using split_records_newlines [of 0 "[]" "sp_initial sp" sp data r i] assms
  by (simp add: records_from_def state_at_def)

text \<open>The newline that ends a record is outside of every field.\<close>

lemma split_records_ends:
  assumes "start \<le> length pre"
    and "q = state_at sp (pre @ bs) start (length pre)"
    and "r \<in> set (split_records sp q start (length pre) bs)" "span_end r < length (pre @ bs)"
  shows "\<not> sp_opaque sp (state_at sp (pre @ bs) (span_start r) (span_end r))"
  using assms
proof (induction sp q start "length pre" bs arbitrary: pre rule: split_records.induct)
  case (1 sp q start)
  then show ?case by (auto split: if_splits)
next
  case (2 sp q start b bs)
  show ?case
  proof (cases "\<not> sp_opaque sp q \<and> is_newline b")
    case True
    let ?k = "crlf_tail b bs"
    have len: "Suc (length pre) + ?k = length (pre @ b # take ?k bs)"
      using crlf_tail_le [of b bs] by simp
    let ?rest = "split_records sp (sp_initial sp) (Suc (length pre) + ?k) (Suc (length pre) + ?k)
          (drop ?k bs)"
    from True "2.prems" have "r = mk_span start (length pre) \<or> r \<in> set ?rest" by auto
    then show ?thesis
    proof
      assume "r = mk_span start (length pre)"
      with True "2.prems"(2) show ?thesis by simp
    next
      assume "r \<in> set ?rest"
      with "2.hyps"(1) [OF True len] "2.prems" len show ?thesis
        by (simp add: state_at_def)
    qed
  next
    case False
    have "split_records sp q start (length pre) (b # bs)
        = split_records sp (sp_next sp q b) start (length (pre @ [b])) bs"
      using False by auto
    with "2.prems"(3)
    have r: "r \<in> set (split_records sp (sp_next sp q b) start (length (pre @ [b])) bs)"
      by simp
    have q: "sp_next sp q b = state_at sp ((pre @ [b]) @ bs) start (length (pre @ [b]))"
      using "2.prems"(1,2) by (simp add: state_at_def segment_Suc)
    show ?thesis
      using "2.hyps"(2) [OF False, of "pre @ [b]"] r q "2.prems" by simp
  qed
qed

lemma records_of_ends:
  assumes "r \<in> set (records_of sp data)" "span_end r < length data"
  shows "\<not> sp_opaque sp (state_at sp data (span_start r) (span_end r))"
  using split_records_ends [of 0 "[]" "sp_initial sp" sp data r] assms
  by (simp add: records_from_def state_at_def)

section \<open>Starting again at a record boundary\<close>

lemma split_records_first:
  "split_records sp q start pos bs \<noteq> [] \<Longrightarrow> span_start (split_records sp q start pos bs ! 0) = start"
  by (induction sp q start pos bs rule: split_records.induct) (auto split: if_splits)

lemma drop_past_Cons: "Suc p + c \<le> s \<Longrightarrow> drop (s - p) (b # bs) = drop (s - (Suc p + c)) (drop c bs)"
  by (cases "s - p") (auto simp: drop_Cons' algebra_simps intro!: arg_cong [where f = "\<lambda>n. drop n bs"])

lemma split_records_restart:
  assumes "0 < k" "k < length (split_records sp q start pos bs)"
  shows "pos \<le> span_start (split_records sp q start pos bs ! k) \<and>
    records_from sp (span_start (split_records sp q start pos bs ! k))
      (drop (span_start (split_records sp q start pos bs ! k) - pos) bs)
     = drop k (split_records sp q start pos bs)"
  using assms
proof (induction sp q start pos bs arbitrary: k rule: split_records.induct)
  case (2 sp q start pos b bs)
  show ?case
  proof (cases "\<not> sp_opaque sp q \<and> is_newline b")
    case False
    then have eq: "split_records sp q start pos (b # bs)
        = split_records sp (sp_next sp q b) start (Suc pos) bs" by auto
    from "2.IH"(2) [OF False, of k] "2.prems" show ?thesis
      unfolding eq by (auto simp: Suc_diff_le drop_Cons' dest!: Suc_le_lessD)
  next
    case True
    let ?p = "Suc pos + crlf_tail b bs"
    let ?rest = "split_records sp (sp_initial sp) ?p ?p (drop (crlf_tail b bs) bs)"
    have eq: "split_records sp q start pos (b # bs) = mk_span start pos # ?rest"
      using True by simp
    obtain k' where k: "k = Suc k'" using "2.prems"(1) by (cases k) auto
    with "2.prems"(2) eq have k': "k' < length ?rest" by simp
    let ?s = "span_start (?rest ! k')"
    have "?p \<le> ?s \<and> records_from sp ?s (drop (?s - ?p) (drop (crlf_tail b bs) bs)) = drop k' ?rest"
    proof (cases "k' = 0")
      case z: True
      then have "?s = ?p" using split_records_first [of sp "sp_initial sp" ?p ?p] k' by auto
      with z show ?thesis by (simp add: records_from_def)
    next
      case nz: False
      from "2.IH"(1) [OF True, of k'] nz k' show ?thesis by (simp del: drop_drop)
    qed
    moreover from this have "drop (?s - pos) (b # bs) = drop (?s - ?p) (drop (crlf_tail b bs) bs)"
      by (intro drop_past_Cons) simp
    ultimately show ?thesis
      unfolding eq k by (simp del: drop_drop)
  qed
qed (auto split: if_splits)

text \<open>A scan that starts at the first byte of record \<open>k\<close> sees the records from \<open>k\<close> on.\<close>

lemma records_of_restart:
  assumes "k < length (records_of sp data)"
  shows "records_from sp (span_start (records_of sp data ! k))
           (drop (span_start (records_of sp data ! k)) data) = drop k (records_of sp data)"
proof (cases "k = 0")
  case True
  with assms split_records_first [of sp "sp_initial sp" 0 0 data] show ?thesis
    by (auto simp: records_from_def)
next
  case False
  with split_records_restart [of k sp "sp_initial sp" 0 0 data] assms show ?thesis
    by (simp add: records_from_def)
qed

section \<open>Where a scan ends\<close>

text \<open>The state of the field machine at the end of the input, and where its record starts.\<close>

function split_end :: "'q splitter \<Rightarrow> 'q \<Rightarrow> nat \<Rightarrow> nat \<Rightarrow> bytes \<Rightarrow> 'q \<times> nat" where
  "split_end sp q start pos [] = (q, start)"
| "split_end sp q start pos (b # bs) =
     (if \<not> sp_opaque sp q \<and> is_newline b then
        split_end sp (sp_initial sp) (Suc pos + crlf_tail b bs) (Suc pos + crlf_tail b bs)
          (drop (crlf_tail b bs) bs)
      else split_end sp (sp_next sp q b) start (Suc pos) bs)"
  by pat_completeness auto
termination
  by (relation "measure (\<lambda>(sp, q, start, pos, bs). length bs)") auto

definition end_from :: "'q splitter \<Rightarrow> nat \<Rightarrow> bytes \<Rightarrow> 'q \<times> nat" where
  "end_from sp off bs = split_end sp (sp_initial sp) off off bs"

text \<open>A scan that starts at a record boundary ends in the same state and the same record.\<close>

lemma split_end_restart:
  assumes "0 < k" "k < length (split_records sp q start pos bs)"
  shows "end_from sp (span_start (split_records sp q start pos bs ! k))
      (drop (span_start (split_records sp q start pos bs ! k) - pos) bs)
     = split_end sp q start pos bs"
  using assms
proof (induction sp q start pos bs arbitrary: k rule: split_records.induct)
  case (2 sp q start pos b bs)
  show ?case
  proof (cases "\<not> sp_opaque sp q \<and> is_newline b")
    case False
    then have eq: "split_records sp q start pos (b # bs)
        = split_records sp (sp_next sp q b) start (Suc pos) bs"
      "split_end sp q start pos (b # bs) = split_end sp (sp_next sp q b) start (Suc pos) bs" by auto
    let ?s = "span_start (split_records sp (sp_next sp q b) start (Suc pos) bs ! k)"
    have k: "k < length (split_records sp (sp_next sp q b) start (Suc pos) bs)"
      using "2.prems"(2) by (simp only: eq(1))
    have "Suc pos \<le> ?s"
      by (rule conjunct1 [OF split_records_restart [OF "2.prems"(1) k]])
    then have "?s - pos = Suc (?s - Suc pos)" by linarith
    then have "drop (?s - pos) (b # bs) = drop (?s - Suc pos) bs"
      by (simp only: drop_Suc_Cons)
    with "2.IH"(2) [OF False "2.prems"(1) k] show ?thesis
      by (simp only: eq)
  next
    case True
    let ?p = "Suc pos + crlf_tail b bs"
    let ?rest = "split_records sp (sp_initial sp) ?p ?p (drop (crlf_tail b bs) bs)"
    have eq: "split_records sp q start pos (b # bs) = mk_span start pos # ?rest"
      "split_end sp q start pos (b # bs) = end_from sp ?p (drop (crlf_tail b bs) bs)"
      using True by (simp_all add: end_from_def)
    obtain k' where k: "k = Suc k'" using "2.prems"(1) by (cases k) auto
    with "2.prems"(2) eq(1) have k': "k' < length ?rest" by simp
    let ?s = "span_start (?rest ! k')"
    have le: "?p \<le> ?s"
    proof (cases "k' = 0")
      case z: True
      then show ?thesis using split_records_first [of sp "sp_initial sp" ?p ?p] k' by auto
    next
      case nz: False
      then have "0 < k'" by simp
      from split_records_restart [OF this k'] show ?thesis by blast
    qed
    have "end_from sp ?s (drop (?s - ?p) (drop (crlf_tail b bs) bs))
        = end_from sp ?p (drop (crlf_tail b bs) bs)"
    proof (cases "k' = 0")
      case z: True
      then have "?s = ?p" using split_records_first [of sp "sp_initial sp" ?p ?p] k' by auto
      with z show ?thesis by simp
    next
      case nz: False
      from "2.IH"(1) [OF True, of k'] nz k' show ?thesis
        by (simp add: end_from_def del: drop_drop)
    qed
    moreover from le have "drop (?s - pos) (b # bs) = drop (?s - ?p) (drop (crlf_tail b bs) bs)"
      by (intro drop_past_Cons) simp
    ultimately show ?thesis
      unfolding eq k by (simp del: drop_drop)
  qed
qed (auto split: if_splits)

lemma end_from_restart:
  assumes "k < length (records_of sp data)"
  shows "end_from sp (span_start (records_of sp data ! k))
           (drop (span_start (records_of sp data ! k)) data) = end_from sp 0 data"
proof (cases "k = 0")
  case True
  with assms split_records_first [of sp "sp_initial sp" 0 0 data] show ?thesis
    by (auto simp: records_from_def)
next
  case False
  with split_end_restart [of k sp "sp_initial sp" 0 0 data] assms show ?thesis
    by (simp add: records_from_def end_from_def)
qed

end
