(* ===== verification/Scanner_Contract.thy ===== *)
theory Scanner_Contract imports Record_Splitting begin

text \<open>
  The contract between the scanners of \<open>scan.rs\<close> and their clients.  A client hands in a callback
  and sees only which records it was called with, whether the call completed, stopped or was
  cancelled, and how many bytes were consumed.  The locale \<open>record_scanner\<close> states one law per
  kind of step; everything a client needs about whole calls is proved inside it, and both machines
  interpret it for every callback.
\<close>

section \<open>Running a callback over a list of records\<close>

fun emit_all :: "'s emitter \<Rightarrow> 's \<Rightarrow> record_span list \<Rightarrow> 's option" where
  "emit_all emit s [] = Some s"
| "emit_all emit s (r # rs) =
     (case emit s r of (s', Continue) \<Rightarrow> emit_all emit s' rs | (_, Stop) \<Rightarrow> None)"

lemma emit_all_append:
  "emit_all emit s (rs @ rs') =
     (case emit_all emit s rs of None \<Rightarrow> None | Some s' \<Rightarrow> emit_all emit s' rs')"
  by (induction rs arbitrary: s) (auto split: prod.splits emit_control.splits)

text \<open>The callback continued over all of \<open>rs\<close> but the last record, where it stopped.\<close>

definition emit_stopped :: "'s emitter \<Rightarrow> 's \<Rightarrow> record_span list \<Rightarrow> 's \<Rightarrow> bool" where
  "emit_stopped emit s rs s' \<longleftrightarrow>
     (\<exists>es r s0. rs = es @ [r] \<and> emit_all emit s es = Some s0 \<and> emit s0 r = (s', Stop))"

lemma emit_stopped_single [simp]: "emit_stopped emit s [r] s' \<longleftrightarrow> emit s r = (s', Stop)"
  by (auto simp: emit_stopped_def)

lemma emit_stopped_append:
  "emit_all emit s es = Some s0 \<Longrightarrow> emit_stopped emit s0 rs s' \<Longrightarrow> emit_stopped emit s (es @ rs) s'"
proof -
  assume all: "emit_all emit s es = Some s0" and "emit_stopped emit s0 rs s'"
  then obtain us r s1 where rs: "rs = us @ [r]" and "emit_all emit s0 us = Some s1"
    and "emit s1 r = (s', Stop)" unfolding emit_stopped_def by blast
  with all have "es @ rs = (es @ us) @ [r] \<and> emit_all emit s (es @ us) = Some s1 \<and> emit s1 r = (s', Stop)"
    by (simp add: emit_all_append)
  then show ?thesis unfolding emit_stopped_def by blast
qed

section \<open>A client that feeds a list of chunks\<close>

text \<open>Feed until a chunk is not consumed completely; \<open>None\<close> is an error, a panic, a stop.\<close>

fun feed_chunks ::
    "('c \<Rightarrow> 's \<Rightarrow> bytes \<Rightarrow> 'c \<times> 's \<times> (scan_error, scan_progress) outcome) \<Rightarrow> 'c \<Rightarrow> 's
     \<Rightarrow> bytes list \<Rightarrow> ('c \<times> 's) option" where
  "feed_chunks feed c s [] = Some (c, s)"
| "feed_chunks feed c s (chunk # chunks) =
     (case feed c s chunk of
        (c', s', Ok p) \<Rightarrow>
          if scan_status p = ScanComplete then feed_chunks feed c' s' chunks else None
      | _ \<Rightarrow> None)"

text \<open>The callback that collects every record.\<close>

definition collect_span :: "record_span list emitter" where
  "collect_span rs r = (rs @ [r], Continue)"

lemma collect_span_continues [simp]: "snd (collect_span rs r) = Continue"
  by (simp add: collect_span_def)

lemma emit_all_collect [simp]: "emit_all collect_span rs es = Some (rs @ es)"
  by (induction es arbitrary: rs) (simp_all add: collect_span_def)

section \<open>The contract\<close>

locale record_scanner =
  fixes emit :: "'s emitter"
    and step :: "'c \<Rightarrow> 's \<Rightarrow> u8 \<Rightarrow> ('c, 's) scan_step"
    and finish :: "'c \<Rightarrow> 's \<Rightarrow> 's option"
    and offset :: "'c \<Rightarrow> nat"
    and invar :: "'c \<Rightarrow> bool"
    and rest :: "'c \<Rightarrow> bytes \<Rightarrow> record_span list"
    and fate :: "'c \<Rightarrow> bytes \<Rightarrow> 'x"
  assumes step_advance: "invar c \<Longrightarrow> step c s b = Advance c' s' \<Longrightarrow>
      invar c' \<and> offset c' = Suc (offset c) \<and> (\<forall>bs. fate c (b # bs) = fate c' bs) \<and>
      (\<exists>es. (\<forall>bs. rest c (b # bs) = es @ rest c' bs) \<and> emit_all emit s es = Some s')"
    and step_stop_after: "invar c \<Longrightarrow> step c s b = StopAfter c' s' \<Longrightarrow>
      invar c' \<and> offset c' = Suc (offset c) \<and> (\<forall>bs. fate c (b # bs) = fate c' bs) \<and>
      (\<exists>r. (\<forall>bs. rest c (b # bs) = r # rest c' bs) \<and> emit s r = (s', Stop))"
    and step_stop_before: "invar c \<Longrightarrow> step c s b = StopBefore c' s' \<Longrightarrow>
      invar c' \<and> offset c' = offset c \<and> (\<forall>bs. fate c (b # bs) = fate c' (b # bs)) \<and>
      (\<exists>r. (\<forall>bs. rest c (b # bs) = r # rest c' (b # bs)) \<and> emit s r = (s', Stop))"
    and step_overflow: "invar c \<Longrightarrow> step c s b = StepOverflow c' s' \<Longrightarrow> offset c = u64_max"
    and step_no_panic: "invar c \<Longrightarrow> step c s b \<noteq> StepPanic"
    and finish_emits: "invar c \<Longrightarrow> \<exists>s'. finish c s = Some s' \<and>
      (rest c [] = [] \<and> s' = s \<or> (\<exists>r. rest c [] = [r] \<and> s' = fst (emit s r)))"
begin

text \<open>One call: the records reported are the next records of the input, in order.\<close>

lemma feed_loop_spec:
  assumes "invar c" "offset c + length bs \<le> u64_max"
    and "feed_loop step chk n0 c s bs = (c', s', res)"
  shows "\<exists>n st es. res = Ok \<lparr>consumed = n0 + n, scan_status = st\<rparr> \<and> n \<le> length bs \<and> invar c'
    \<and> offset c' = offset c + n
    \<and> (\<forall>tl. rest c (bs @ tl) = es @ rest c' (drop n bs @ tl))
    \<and> (\<forall>tl. fate c (bs @ tl) = fate c' (drop n bs @ tl))
    \<and> (st = ScanComplete \<longrightarrow> n = length bs)
    \<and> (st \<noteq> ScanStopped \<longrightarrow> emit_all emit s es = Some s')
    \<and> (st = ScanStopped \<longrightarrow> emit_stopped emit s es s')
    \<and> (st = ScanCancelled \<longrightarrow> cancel_due chk (n0 + n) \<and> n < length bs)"
  using assms
proof (induction bs arbitrary: n0 c s)
  case Nil
  then show ?case by auto
next
  case (Cons b bs)
  show ?case
  proof (cases "cancel_due chk n0")
    case True
    with Cons.prems show ?thesis
      by (intro exI [of _ 0] exI [of _ ScanCancelled] exI [of _ "[]"]) auto
  next
    case False
    show ?thesis
    proof (cases "step c s b")
      case (Advance c1 s1)
      from step_advance [OF Cons.prems(1) Advance] obtain es1 where
        a: "invar c1" "offset c1 = Suc (offset c)" "\<forall>bs. fate c (b # bs) = fate c1 bs"
        "\<forall>bs. rest c (b # bs) = es1 @ rest c1 bs" "emit_all emit s es1 = Some s1" by blast
      have "feed_loop step chk (Suc n0) c1 s1 bs = (c', s', res)"
        using Cons.prems(3) False Advance by simp
      from Cons.IH [OF a(1) _ this] a(2) Cons.prems(2) obtain n st es where
        ih: "res = Ok \<lparr>consumed = Suc n0 + n, scan_status = st\<rparr>" "n \<le> length bs" "invar c'"
        "offset c' = offset c1 + n" "\<forall>tl. rest c1 (bs @ tl) = es @ rest c' (drop n bs @ tl)"
        "\<forall>tl. fate c1 (bs @ tl) = fate c' (drop n bs @ tl)"
        "st = ScanComplete \<longrightarrow> n = length bs"
        "st \<noteq> ScanStopped \<longrightarrow> emit_all emit s1 es = Some s'"
        "st = ScanStopped \<longrightarrow> emit_stopped emit s1 es s'"
        "st = ScanCancelled \<longrightarrow> cancel_due chk (Suc n0 + n) \<and> n < length bs" by auto
      show ?thesis
        using ih a by (intro exI [of _ "Suc n"] exI [of _ st] exI [of _ "es1 @ es"])
          (auto simp: emit_all_append intro: emit_stopped_append)
    next
      case (StopAfter c1 s1)
      with step_stop_after [OF Cons.prems(1) StopAfter] Cons.prems(3) False show ?thesis
        by (intro exI [of _ 1] exI [of _ ScanStopped]) auto
    next
      case (StopBefore c1 s1)
      with step_stop_before [OF Cons.prems(1) StopBefore] Cons.prems(3) False show ?thesis
        by (intro exI [of _ 0] exI [of _ ScanStopped]) auto
    next
      case (StepOverflow c1 s1)
      with step_overflow [OF Cons.prems(1)] Cons.prems(2) show ?thesis by simp
    next
      case StepPanic
      with step_no_panic [OF Cons.prems(1)] show ?thesis by simp
    qed
  qed
qed

lemma feed_loop_never_panics:
  "invar c \<Longrightarrow> feed_loop step chk n c s bs = (c', s', res) \<Longrightarrow> res \<noteq> Panic"
proof (induction bs arbitrary: n c s)
  case (Cons b bs)
  then show ?case
    using step_no_panic [OF Cons.prems(1)] step_advance [OF Cons.prems(1)]
    by (fastforce split: if_splits scan_step.splits)
qed auto

text \<open>A callback that never stops and no cancellation: the whole chunk is consumed.\<close>

lemma feed_loop_runs:
  assumes "invar c" "offset c + length bs \<le> u64_max" "\<And>n. \<not> cancel_due chk n"
    and "\<And>s r. snd (emit s r) = Continue"
  shows "\<exists>c' s' es. feed_loop step chk n0 c s bs
      = (c', s', Ok \<lparr>consumed = n0 + length bs, scan_status = ScanComplete\<rparr>)
    \<and> invar c' \<and> offset c' = offset c + length bs \<and> emit_all emit s es = Some s'
    \<and> (\<forall>tl. rest c (bs @ tl) = es @ rest c' tl) \<and> (\<forall>tl. fate c (bs @ tl) = fate c' tl)"
proof -
  obtain c' s' res where f: "feed_loop step chk n0 c s bs = (c', s', res)" by (metis prod_cases3)
  have no_stop: "\<not> emit_stopped emit s es s'" for es
    using assms(4) unfolding emit_stopped_def by (metis emit_control.distinct(1) snd_conv)
  from feed_loop_spec [OF assms(1,2) f] obtain n st es where
    r: "res = Ok \<lparr>consumed = n0 + n, scan_status = st\<rparr>" "invar c'" "offset c' = offset c + n"
    "\<forall>tl. rest c (bs @ tl) = es @ rest c' (drop n bs @ tl)"
    "\<forall>tl. fate c (bs @ tl) = fate c' (drop n bs @ tl)"
    "st = ScanComplete \<longrightarrow> n = length bs" "st \<noteq> ScanStopped \<longrightarrow> emit_all emit s es = Some s'"
    "st = ScanStopped \<longrightarrow> emit_stopped emit s es s'"
    "st = ScanCancelled \<longrightarrow> cancel_due chk (n0 + n)" by blast
  then have st: "st = ScanComplete" using no_stop assms(3) by (cases st) auto
  show ?thesis
    unfolding f by (intro exI [of _ c'] exI [of _ s'] exI [of _ es]) (use r st in auto)
qed

lemma feed_chunks_runs:
  assumes "invar c" "offset c + length (concat chunks) \<le> u64_max"
    and "\<And>s r. snd (emit s r) = Continue"
  shows "\<exists>c' s' es. feed_chunks (feed_loop step None 0) c s chunks = Some (c', s')
    \<and> invar c' \<and> offset c' = offset c + length (concat chunks) \<and> emit_all emit s es = Some s'
    \<and> (\<forall>tl. rest c (concat chunks @ tl) = es @ rest c' tl)
    \<and> (\<forall>tl. fate c (concat chunks @ tl) = fate c' tl)"
  using assms(1,2)
proof (induction chunks arbitrary: c s)
  case Nil
  then show ?case by (intro exI [of _ c] exI [of _ s] exI [of _ "[]"]) simp
next
  case (Cons chunk chunks)
  have "\<And>n. \<not> cancel_due None n" by (simp add: cancel_due_def)
  from feed_loop_runs [OF Cons.prems(1) _ this assms(3), of chunk 0 s] Cons.prems(2)
  obtain c1 s1 es1 where
    f: "feed_loop step None 0 c s chunk = (c1, s1, Ok \<lparr>consumed = 0 + length chunk, scan_status = ScanComplete\<rparr>)"
    "invar c1" "offset c1 = offset c + length chunk" "emit_all emit s es1 = Some s1"
    "\<forall>tl. rest c (chunk @ tl) = es1 @ rest c1 tl" "\<forall>tl. fate c (chunk @ tl) = fate c1 tl"
    by auto
  from Cons.IH [OF f(2), of s1] f(3) Cons.prems(2) obtain c' s' es where
    "feed_chunks (feed_loop step None 0) c1 s1 chunks = Some (c', s')"
    "invar c'" "offset c' = offset c1 + length (concat chunks)" "emit_all emit s1 es = Some s'"
    "\<forall>tl. rest c1 (concat chunks @ tl) = es @ rest c' tl"
    "\<forall>tl. fate c1 (concat chunks @ tl) = fate c' tl" by auto
  with f show ?case
    by (intro exI [of _ c'] exI [of _ s'] exI [of _ "es1 @ es"]) (simp add: emit_all_append)
qed

end

section \<open>The CSV machine meets the contract\<close>

definition csv_invar :: "csv_scanner \<Rightarrow> bool" where
  "csv_invar sc \<longleftrightarrow> csv_record_start sc \<le> csv_offset sc \<and> csv_offset sc \<le> u64_max \<and>
     (\<forall>e. csv_pending_cr_end sc = Some e \<longrightarrow>
        csv_offset sc = Suc e \<and> csv_record_start sc \<le> e \<and> csv_state_of sc \<noteq> Quoted)"

definition csv_rest :: "csv_scanner \<Rightarrow> bytes \<Rightarrow> record_span list" where
  "csv_rest sc bs =
     (case csv_pending_cr_end sc of
        None \<Rightarrow> split_records (csv_splitter (csv_dialect_of sc)) (csv_state_of sc)
                  (csv_record_start sc) (csv_offset sc) bs
      | Some e \<Rightarrow> mk_span (csv_record_start sc) e #
          records_from (csv_splitter (csv_dialect_of sc)) (csv_offset sc + crlf_tail byte_cr bs)
            (drop (crlf_tail byte_cr bs) bs))"

definition csv_fate :: "csv_scanner \<Rightarrow> bytes \<Rightarrow> csv_dialect \<times> csv_state \<times> nat" where
  "csv_fate sc bs = (csv_dialect_of sc,
     (case csv_pending_cr_end sc of
        None \<Rightarrow> split_end (csv_splitter (csv_dialect_of sc)) (csv_state_of sc)
                  (csv_record_start sc) (csv_offset sc) bs
      | Some e \<Rightarrow> end_from (csv_splitter (csv_dialect_of sc)) (csv_offset sc + crlf_tail byte_cr bs)
            (drop (crlf_tail byte_cr bs) bs)))"

lemma crlf_tail_cr_Cons [simp]: "crlf_tail byte_cr (b # bs) = (if b = byte_lf then 1 else 0)"
  by (simp add: crlf_tail_def)

lemma crlf_tail_not_cr: "b \<noteq> byte_cr \<Longrightarrow> crlf_tail b bs = 0"
  by (simp add: crlf_tail_def)

lemmas csv_unfold = csv_byte_def csv_advance_offset_def csv_complete_record_def csv_invar_def
  csv_rest_def csv_fate_def records_from_def end_from_def is_newline_def Let_def

lemmas csv_splits = if_splits option.splits prod.splits sum.splits emit_control.splits

text \<open>With no CR pending the step is \<open>csv_byte\<close>, which meets the contract.\<close>

lemma csv_byte_laws:
  assumes "csv_invar sc" "csv_pending_cr_end sc = None"
  shows "csv_byte emit sc s b = Advance c' s' \<Longrightarrow>
      csv_invar c' \<and> csv_offset c' = Suc (csv_offset sc) \<and>
      (\<forall>bs. csv_fate sc (b # bs) = csv_fate c' bs) \<and>
      (\<exists>es. (\<forall>bs. csv_rest sc (b # bs) = es @ csv_rest c' bs) \<and> emit_all emit s es = Some s')"
    and "csv_byte emit sc s b = StopAfter c' s' \<Longrightarrow>
      csv_invar c' \<and> csv_offset c' = Suc (csv_offset sc) \<and>
      (\<forall>bs. csv_fate sc (b # bs) = csv_fate c' bs) \<and>
      (\<exists>r. (\<forall>bs. csv_rest sc (b # bs) = r # csv_rest c' bs) \<and> emit s r = (s', Stop))"
    and "csv_byte emit sc s b \<noteq> StopBefore c' s'"
    and "csv_byte emit sc s b = StepOverflow c' s' \<Longrightarrow> csv_offset sc = u64_max"
    and "csv_byte emit sc s b \<noteq> StepPanic"
proof -
  from assms have inv: "csv_record_start sc \<le> csv_offset sc" "csv_offset sc \<le> u64_max"
    and p: "csv_pending_cr_end sc = None" by (simp_all add: csv_invar_def)
  consider (cr) "csv_state_of sc \<noteq> Quoted" "b = byte_cr"
    | (lf) "csv_state_of sc \<noteq> Quoted" "b = byte_lf"
    | (other) "csv_state_of sc = Quoted \<or> \<not> is_newline b"
    by (auto simp: is_newline_def)
  note cases = this
  show "csv_byte emit sc s b = Advance c' s' \<Longrightarrow>
      csv_invar c' \<and> csv_offset c' = Suc (csv_offset sc) \<and>
      (\<forall>bs. csv_fate sc (b # bs) = csv_fate c' bs) \<and>
      (\<exists>es. (\<forall>bs. csv_rest sc (b # bs) = es @ csv_rest c' bs) \<and> emit_all emit s es = Some s')"
    using cases
  proof cases
    case cr
    assume "csv_byte emit sc s b = Advance c' s'"
    with cr p inv show ?thesis
      by (intro conjI exI [of _ "[]"]) (auto simp: csv_unfold checked_simps split: csv_splits)
  next
    case lf
    assume "csv_byte emit sc s b = Advance c' s'"
    with lf p inv show ?thesis
      by (intro conjI exI [of _ "[mk_span (csv_record_start sc) (csv_offset sc)]"])
        (auto simp: csv_unfold checked_simps split: csv_splits)
  next
    case other
    assume "csv_byte emit sc s b = Advance c' s'"
    with other p inv show ?thesis
      by (intro conjI exI [of _ "[]"]) (auto simp: csv_unfold checked_simps split: csv_splits)
  qed
  show "csv_byte emit sc s b = StopAfter c' s' \<Longrightarrow>
      csv_invar c' \<and> csv_offset c' = Suc (csv_offset sc) \<and>
      (\<forall>bs. csv_fate sc (b # bs) = csv_fate c' bs) \<and>
      (\<exists>r. (\<forall>bs. csv_rest sc (b # bs) = r # csv_rest c' bs) \<and> emit s r = (s', Stop))"
    using p inv by (intro conjI exI [of _ "mk_span (csv_record_start sc) (csv_offset sc)"])
      (auto simp: csv_unfold checked_simps split: csv_splits)
  show "csv_byte emit sc s b \<noteq> StopBefore c' s'"
    by (auto simp: csv_byte_def Let_def split: csv_splits)
  show "csv_byte emit sc s b = StepOverflow c' s' \<Longrightarrow> csv_offset sc = u64_max"
    using inv by (auto simp: csv_unfold checked_simps split: csv_splits)
  show "csv_byte emit sc s b \<noteq> StepPanic"
    using inv by (auto simp: csv_unfold checked_simps span_new_def split: csv_splits)
qed


text \<open>With a CR pending, any byte but LF is seen by a scanner that stands at a record start.\<close>

definition csv_after_cr :: "csv_scanner \<Rightarrow> csv_scanner" where
  "csv_after_cr sc = sc\<lparr>csv_pending_cr_end := None, csv_record_start := csv_offset sc,
     csv_state_of := FieldStart\<rparr>"

lemma csv_after_cr_laws:
  assumes "csv_invar sc" "csv_pending_cr_end sc = Some e"
  shows "csv_invar (csv_after_cr sc)" "csv_pending_cr_end (csv_after_cr sc) = None"
    and "csv_offset (csv_after_cr sc) = csv_offset sc"
    and "b \<noteq> byte_lf \<Longrightarrow> csv_rest sc (b # bs) =
           mk_span (csv_record_start sc) e # csv_rest (csv_after_cr sc) (b # bs)"
    and "b \<noteq> byte_lf \<Longrightarrow> csv_fate sc (b # bs) = csv_fate (csv_after_cr sc) (b # bs)"
    and "b \<noteq> byte_lf \<Longrightarrow> csv_step emit sc s b =
           (case emit s (mk_span (csv_record_start sc) e) of
              (s', Stop) \<Rightarrow> StopBefore (csv_after_cr sc) s'
            | (s', Continue) \<Rightarrow> csv_byte emit (csv_after_cr sc) s' b)"
  using assms
  by (auto simp: csv_after_cr_def csv_invar_def csv_rest_def csv_fate_def records_from_def
      end_from_def csv_step_def csv_complete_record_def span_new_def Let_def
      split: prod.splits emit_control.splits)

lemma csv_pending_lf:
  assumes "csv_invar sc" "csv_pending_cr_end sc = Some e"
  shows "csv_step emit sc s byte_lf =
           (let r = mk_span (csv_record_start sc) e;
                sc' = (csv_after_cr sc)\<lparr>csv_record_start := Suc (csv_offset sc),
                        csv_offset := Suc (csv_offset sc)\<rparr>
            in if csv_offset sc = u64_max then StepOverflow (sc\<lparr>csv_pending_cr_end := None\<rparr>) s
               else case emit s r of (s', Stop) \<Rightarrow> StopAfter sc' s' | (s', Continue) \<Rightarrow> Advance sc' s')"
    and "csv_rest sc (byte_lf # bs) = mk_span (csv_record_start sc) e #
           csv_rest ((csv_after_cr sc)\<lparr>csv_record_start := Suc (csv_offset sc),
                        csv_offset := Suc (csv_offset sc)\<rparr>) bs"
    and "csv_fate sc (byte_lf # bs) =
           csv_fate ((csv_after_cr sc)\<lparr>csv_record_start := Suc (csv_offset sc),
                        csv_offset := Suc (csv_offset sc)\<rparr>) bs"
    and "csv_offset sc \<noteq> u64_max \<Longrightarrow>
           csv_invar ((csv_after_cr sc)\<lparr>csv_record_start := Suc (csv_offset sc),
                        csv_offset := Suc (csv_offset sc)\<rparr>)"
  using assms
  by (auto simp: csv_after_cr_def csv_invar_def csv_rest_def csv_fate_def records_from_def
      end_from_def csv_step_def csv_complete_record_def csv_advance_offset_def checked_add_def
      span_new_def Let_def split: prod.splits emit_control.splits)

end
