(* ===== verification/Csv_Quoting.thy ===== *)
theory Csv_Quoting imports Scanner begin

text \<open>
  Quoting as the format has it, without a machine: what a field looks like, and where in a record a
  quoted field is open.  A quoted field begins at the start of the record or behind a delimiter, and
  inside it a quote stands only in pairs; a quote anywhere else is an ordinary byte.
\<close>

fun paired :: "u8 \<Rightarrow> bytes \<Rightarrow> bool" where
  "paired q [] \<longleftrightarrow> True"
| "paired q [b] \<longleftrightarrow> b \<noteq> q"
| "paired q (b # c # bs) \<longleftrightarrow> (if b = q then c = q \<and> paired q bs else paired q (c # bs))"

definition plain_field :: "csv_dialect \<Rightarrow> bytes \<Rightarrow> bool" where
  "plain_field d f \<longleftrightarrow> delimiter d \<notin> set f \<and> (f = [] \<or> hd f \<noteq> quote d)"

definition quoted_field :: "csv_dialect \<Rightarrow> bytes \<Rightarrow> bool" where
  "quoted_field d f \<longleftrightarrow> (\<exists>body rest. f = quote d # body @ quote d # rest \<and> paired (quote d) body \<and>
     delimiter d \<notin> set rest \<and> (rest = [] \<or> hd rest \<noteq> quote d))"

definition fields_before :: "csv_dialect \<Rightarrow> bytes list \<Rightarrow> bytes" where
  "fields_before d fs = concat (map (\<lambda>f. f @ [delimiter d]) fs)"

abbreviation whole_fields :: "csv_dialect \<Rightarrow> bytes list \<Rightarrow> bool" where
  "whole_fields d fs \<equiv> \<forall>f\<in>set fs. plain_field d f \<or> quoted_field d f"

definition inside_quotes :: "csv_dialect \<Rightarrow> bytes \<Rightarrow> bool" where
  "inside_quotes d bs \<longleftrightarrow>
     (\<exists>fs body. whole_fields d fs \<and> paired (quote d) body \<and> bs = fields_before d fs @ quote d # body)"

section \<open>The scanner's states\<close>

lemma paired_snoc: "paired q bs \<Longrightarrow> b \<noteq> q \<Longrightarrow> paired q (bs @ [b])"
  by (induction q bs rule: paired.induct) (auto split: if_splits)

lemma paired_quote: "paired q bs \<Longrightarrow> paired q (bs @ [q, q])"
  by (induction q bs rule: paired.induct) (auto split: if_splits)

lemma fields_before_snoc: "fields_before d (fs @ [f]) = fields_before d fs @ f @ [delimiter d]"
  by (simp add: fields_before_def)

text \<open>What has been read of a record when the scanner is in a state.\<close>

fun state_means :: "csv_dialect \<Rightarrow> csv_state \<Rightarrow> bytes \<Rightarrow> bool" where
  "state_means d FieldStart bs \<longleftrightarrow> (\<exists>fs. whole_fields d fs \<and> bs = fields_before d fs)"
| "state_means d Unquoted bs \<longleftrightarrow>
     (\<exists>fs f. whole_fields d fs \<and> bs = fields_before d fs @ f \<and>
        (f \<noteq> [] \<and> plain_field d f \<or>
         (\<exists>body rest. f = quote d # body @ quote d # rest \<and> paired (quote d) body \<and>
            delimiter d \<notin> set rest \<and> rest \<noteq> [] \<and> hd rest \<noteq> quote d)))"
| "state_means d Quoted bs \<longleftrightarrow> inside_quotes d bs"
| "state_means d QuoteClosed bs \<longleftrightarrow>
     (\<exists>fs body. whole_fields d fs \<and> paired (quote d) body \<and> bs = fields_before d fs @ quote d # body @ [quote d])"

lemma means_start: "state_means d FieldStart bs \<Longrightarrow> state_means d (csv_next_state d FieldStart b) (bs @ [b])"
proof -
  assume "state_means d FieldStart bs"
  then obtain fs where fs: "whole_fields d fs" "bs = fields_before d fs" by auto
  consider "b = quote d" | "b \<noteq> quote d" "b = delimiter d" | "b \<noteq> quote d" "b \<noteq> delimiter d" by blast
  then show ?thesis
  proof cases
    case 1
    have "inside_quotes d (bs @ [b])"
      using fs 1 unfolding inside_quotes_def by (intro exI [of _ fs] exI [of _ "[]"]) simp
    with 1 show ?thesis by simp
  next
    case 2
    have "whole_fields d (fs @ [[]])" using fs(1) by (auto simp: plain_field_def)
    moreover have "bs @ [b] = fields_before d (fs @ [[]])" using fs(2) 2 by (simp add: fields_before_snoc)
    ultimately have "state_means d FieldStart (bs @ [b])" by (simp only: state_means.simps) blast
    with 2 show ?thesis by simp
  next
    case 3
    then have "[b] \<noteq> [] \<and> plain_field d [b]" by (auto simp: plain_field_def)
    then have "state_means d Unquoted (bs @ [b])"
      using fs unfolding state_means.simps by blast
    with 3 show ?thesis by simp
  qed
qed

lemma means_unquoted: "state_means d Unquoted bs \<Longrightarrow> state_means d (csv_next_state d Unquoted b) (bs @ [b])"
proof -
  assume "state_means d Unquoted bs"
  then obtain fs f where fs: "whole_fields d fs" "bs = fields_before d fs @ f"
    and f: "f \<noteq> [] \<and> plain_field d f \<or>
         (\<exists>body rest. f = quote d # body @ quote d # rest \<and> paired (quote d) body \<and>
            delimiter d \<notin> set rest \<and> rest \<noteq> [] \<and> hd rest \<noteq> quote d)" by auto
  have whole: "plain_field d f \<or> quoted_field d f" using f unfolding quoted_field_def by blast
  show ?thesis
  proof (cases "b = delimiter d")
    case True
    have "whole_fields d (fs @ [f])" using fs(1) whole by auto
    moreover have "bs @ [b] = fields_before d (fs @ [f])" using fs(2) True by (simp add: fields_before_snoc)
    ultimately have "state_means d FieldStart (bs @ [b])" by (simp only: state_means.simps) blast
    with True show ?thesis by simp
  next
    case False
    have "f @ [b] \<noteq> [] \<and> plain_field d (f @ [b]) \<or>
         (\<exists>body rest. f @ [b] = quote d # body @ quote d # rest \<and> paired (quote d) body \<and>
            delimiter d \<notin> set rest \<and> rest \<noteq> [] \<and> hd rest \<noteq> quote d)"
      using f
    proof (elim disjE exE conjE)
      assume "f \<noteq> []" "plain_field d f"
      with False show ?thesis by (auto simp: plain_field_def)
    next
      fix body rest
      assume "f = quote d # body @ quote d # rest" "paired (quote d) body" "delimiter d \<notin> set rest"
        "rest \<noteq> []" "hd rest \<noteq> quote d"
      with False show ?thesis
        by (intro disjI2 exI [of _ body] exI [of _ "rest @ [b]"]) auto
    qed
    moreover have "bs @ [b] = fields_before d fs @ f @ [b]" using fs(2) by simp
    ultimately have "state_means d Unquoted (bs @ [b])"
      using fs(1) unfolding state_means.simps by blast
    with False show ?thesis by simp
  qed
qed

lemma means_quoted: "state_means d Quoted bs \<Longrightarrow> state_means d (csv_next_state d Quoted b) (bs @ [b])"
proof -
  assume "state_means d Quoted bs"
  then obtain fs body where fs: "whole_fields d fs" "paired (quote d) body" "bs = fields_before d fs @ quote d # body"
    by (auto simp: inside_quotes_def)
  show ?thesis
  proof (cases "b = quote d")
    case False
    have "inside_quotes d (bs @ [b])"
      using fs(1) paired_snoc [OF fs(2) False] fs(3) unfolding inside_quotes_def
      by (intro exI [of _ fs] exI [of _ "body @ [b]"]) simp
    with False show ?thesis by simp
  qed (use fs in auto)
qed

lemma means_closed: "state_means d QuoteClosed bs \<Longrightarrow> state_means d (csv_next_state d QuoteClosed b) (bs @ [b])"
proof -
  assume "state_means d QuoteClosed bs"
  then obtain fs body where fs: "whole_fields d fs" "paired (quote d) body"
    "bs = fields_before d fs @ quote d # body @ [quote d]" by auto
  consider "b = quote d" | "b \<noteq> quote d" "b = delimiter d" | "b \<noteq> quote d" "b \<noteq> delimiter d" by blast
  then show ?thesis
  proof cases
    case 1
    have "inside_quotes d (bs @ [b])"
      using fs(1) paired_quote [OF fs(2)] fs(3) 1 unfolding inside_quotes_def
      by (intro exI [of _ fs] exI [of _ "body @ [quote d, quote d]"]) simp
    with 1 show ?thesis by simp
  next
    case 2
    let ?f = "quote d # body @ [quote d]"
    have "quoted_field d ?f" using fs(2) unfolding quoted_field_def by (intro exI [of _ body] exI [of _ "[]"]) simp
    then have "whole_fields d (fs @ [?f])" using fs(1) by auto
    moreover have "bs @ [b] = fields_before d (fs @ [?f])" using fs(3) 2 by (simp add: fields_before_snoc)
    ultimately have "state_means d FieldStart (bs @ [b])" by (simp only: state_means.simps) blast
    with 2 show ?thesis by simp
  next
    case 3
    then have "\<exists>body' rest. quote d # body @ [quote d, b] = quote d # body' @ quote d # rest \<and> paired (quote d) body' \<and>
            delimiter d \<notin> set rest \<and> rest \<noteq> [] \<and> hd rest \<noteq> quote d"
      using fs(2) by (intro exI [of _ body] exI [of _ "[b]"]) simp
    moreover have "bs @ [b] = fields_before d fs @ quote d # body @ [quote d, b]" using fs(3) by simp
    ultimately have "state_means d Unquoted (bs @ [b])"
      using fs(1) unfolding state_means.simps by blast
    with 3 show ?thesis by simp
  qed
qed

lemma state_meaning: "state_means d (foldl (csv_next_state d) FieldStart bs) bs"
proof (induction bs rule: rev_induct)
  case Nil
  show ?case by (auto simp: fields_before_def intro: exI [of _ "[]"])
next
  case (snoc b bs)
  then show ?case
    by (cases "foldl (csv_next_state d) FieldStart bs")
      (simp_all only: foldl_append foldl.simps means_start means_unquoted means_quoted means_closed)
qed

section \<open>The other direction\<close>

lemma run_unquoted: "delimiter d \<notin> set bs \<Longrightarrow> foldl (csv_next_state d) Unquoted bs = Unquoted"
  by (induction bs) auto

lemma run_paired: "paired (quote d) bs \<Longrightarrow> foldl (csv_next_state d) Quoted bs = Quoted"
proof (induction "quote d" bs rule: paired.induct)
  case (3 b c bs)
  then show ?case by (cases "b = quote d") simp_all
qed simp_all

lemma run_field:
  assumes "plain_field d f \<or> quoted_field d f" and distinct: "delimiter d \<noteq> quote d"
  shows "foldl (csv_next_state d) FieldStart (f @ [delimiter d]) = FieldStart"
  using assms(1)
proof
  assume "plain_field d f"
  with distinct show ?thesis
    by (cases f) (auto simp: plain_field_def run_unquoted)
next
  assume "quoted_field d f"
  then obtain body rest where f: "f = quote d # body @ quote d # rest" "paired (quote d) body"
    "delimiter d \<notin> set rest" "rest = [] \<or> hd rest \<noteq> quote d" by (auto simp: quoted_field_def)
  with distinct show ?thesis
    by (cases rest) (auto simp: run_paired run_unquoted)
qed

lemma run_fields:
  "whole_fields d fs \<Longrightarrow> delimiter d \<noteq> quote d \<Longrightarrow> foldl (csv_next_state d) FieldStart (fields_before d fs) = FieldStart"
proof (induction fs)
  case (Cons f fs)
  have "fields_before d (f # fs) = (f @ [delimiter d]) @ fields_before d fs" by (simp add: fields_before_def)
  moreover have "foldl (csv_next_state d) FieldStart (f @ [delimiter d]) = FieldStart"
    using Cons.prems by (intro run_field) simp_all
  ultimately show ?case
    using Cons by (simp only: foldl_append) simp
qed (simp add: fields_before_def)

text \<open>The state that knows quoted fields is the one inside quotes.\<close>

lemma quoted_is_inside: "foldl (csv_next_state d) FieldStart bs = Quoted \<Longrightarrow> inside_quotes d bs"
  using state_meaning [of d bs] by simp

lemma inside_is_quoted:
  assumes "inside_quotes d bs" "delimiter d \<noteq> quote d"
  shows "foldl (csv_next_state d) FieldStart bs = Quoted"
proof -
  obtain fs body where fs: "whole_fields d fs" "paired (quote d) body" "bs = fields_before d fs @ quote d # body"
    using assms(1) by (auto simp: inside_quotes_def)
  show ?thesis
    unfolding fs(3) foldl_append run_fields [OF fs(1) assms(2)] using fs(2) by (simp add: run_paired)
qed

end
