(* ===== verification/Chunked_Scan.thy ===== *)
theory Chunked_Scan imports Scanner_Contract Csv_Quoting begin

text \<open>
  Both scanners of \<open>scan.rs\<close> interpret \<open>record_scanner\<close>, and with it the properties of whole scans:
  however the input is cut into chunks, the records reported are those of the reference splitter,
  a stop or a cancellation loses and repeats nothing, and the diagnostic is about the last record.
\<close>

section \<open>The CSV scanner\<close>

lemma csv_step_advance:
  assumes "csv_invar c" "csv_step emit c s b = Advance c' s'"
  shows "csv_invar c' \<and> csv_offset c' = Suc (csv_offset c) \<and>
      (\<forall>bs. csv_fate c (b # bs) = csv_fate c' bs) \<and>
      (\<exists>es. (\<forall>bs. csv_rest c (b # bs) = es @ csv_rest c' bs) \<and> emit_all emit s es = Some s')"
proof (cases "csv_pending_cr_end c")
  case None
  with assms csv_byte_laws(1) [OF assms(1) None, of emit s b c' s'] show ?thesis
    by (simp add: csv_step_def)
next
  case (Some e)
  note after = csv_after_cr_laws [OF assms(1) Some] and lf = csv_pending_lf [OF assms(1) Some]
  let ?r = "mk_span (csv_record_start c) e"
  show ?thesis
  proof (cases "b = byte_lf")
    case True
    with assms(2) show ?thesis
      by (intro conjI exI [of _ "[?r]"])
        (auto simp: lf Let_def split: if_splits prod.splits emit_control.splits)
  next
    case False
    obtain s1 where em: "emit s ?r = (s1, Continue)" and
      st: "csv_byte emit (csv_after_cr c) s1 b = Advance c' s'"
      using assms(2) unfolding after(6) [OF False] by (auto split: prod.splits emit_control.splits)
    from csv_byte_laws(1) [OF after(1,2) st] obtain es where
      l: "csv_invar c'" "csv_offset c' = Suc (csv_offset c)"
      "\<forall>bs. csv_fate (csv_after_cr c) (b # bs) = csv_fate c' bs"
      "\<forall>bs. csv_rest (csv_after_cr c) (b # bs) = es @ csv_rest c' bs"
      "emit_all emit s1 es = Some s'" unfolding after(3) by blast
    then show ?thesis
      using em by (intro conjI exI [of _ "?r # es"]) (simp_all add: after(4,5) [OF False])
  qed
qed

lemma csv_step_stop_after:
  assumes "csv_invar c" "csv_step emit c s b = StopAfter c' s'"
  shows "csv_invar c' \<and> csv_offset c' = Suc (csv_offset c) \<and>
      (\<forall>bs. csv_fate c (b # bs) = csv_fate c' bs) \<and>
      (\<exists>r. (\<forall>bs. csv_rest c (b # bs) = r # csv_rest c' bs) \<and> emit s r = (s', Stop))"
proof (cases "csv_pending_cr_end c")
  case None
  with assms csv_byte_laws(2) [OF assms(1) None, of emit s b c' s'] show ?thesis
    by (simp add: csv_step_def)
next
  case (Some e)
  note after = csv_after_cr_laws [OF assms(1) Some] and lf = csv_pending_lf [OF assms(1) Some]
  let ?r = "mk_span (csv_record_start c) e"
  show ?thesis
  proof (cases "b = byte_lf")
    case True
    with assms(2) show ?thesis
      by (intro conjI exI [of _ "?r"])
        (auto simp: lf Let_def split: if_splits prod.splits emit_control.splits)
  next
    case False
    then have nostop: "csv_byte emit (csv_after_cr c) s1 b \<noteq> StopAfter c' s'" for s1
      by (auto simp: csv_byte_def csv_after_cr_def Let_def split: csv_splits)
    with assms(2) show ?thesis
      unfolding after(6) [OF False] by (auto split: prod.splits emit_control.splits)
  qed
qed

lemma csv_step_stop_before:
  assumes "csv_invar c" "csv_step emit c s b = StopBefore c' s'"
  shows "csv_invar c' \<and> csv_offset c' = csv_offset c \<and>
      (\<forall>bs. csv_fate c (b # bs) = csv_fate c' (b # bs)) \<and>
      (\<exists>r. (\<forall>bs. csv_rest c (b # bs) = r # csv_rest c' (b # bs)) \<and> emit s r = (s', Stop))"
proof (cases "csv_pending_cr_end c")
  case None
  with assms show ?thesis
    by (simp add: csv_step_def csv_byte_laws(3) [OF assms(1) None])
next
  case (Some e)
  note after = csv_after_cr_laws [OF assms(1) Some] and lf = csv_pending_lf [OF assms(1) Some]
  let ?r = "mk_span (csv_record_start c) e"
  show ?thesis
  proof (cases "b = byte_lf")
    case True
    with assms(2) show ?thesis
      by (auto simp: lf(1) Let_def split: if_splits prod.splits emit_control.splits)
  next
    case False
    have "emit s ?r = (s', Stop)" "c' = csv_after_cr c"
      using assms(2) unfolding after(6) [OF False]
      by (auto simp: csv_byte_laws(3) [OF after(1,2)] split: prod.splits emit_control.splits)
    then show ?thesis
      by (intro conjI exI [of _ "?r"]) (simp_all add: after(1,3) after(4,5) [OF False])
  qed
qed

lemma csv_step_overflow:
  assumes "csv_invar c" "csv_step emit c s b = StepOverflow c' s'"
  shows "csv_offset c = u64_max"
proof (cases "csv_pending_cr_end c")
  case None
  with assms csv_byte_laws(4) [OF assms(1) None] show ?thesis
    by (simp add: csv_step_def)
next
  case (Some e)
  note after = csv_after_cr_laws [OF assms(1) Some] and lf = csv_pending_lf [OF assms(1) Some]
  show ?thesis
  proof (cases "b = byte_lf")
    case True
    with assms(2) show ?thesis
      by (auto simp: lf(1) Let_def split: if_splits prod.splits emit_control.splits)
  next
    case False
    with assms(2) csv_byte_laws(4) [OF after(1,2)] show ?thesis
      unfolding after(3) after(6) [OF False] by (auto split: prod.splits emit_control.splits)
  qed
qed

lemma csv_step_no_panic:
  assumes "csv_invar c"
  shows "csv_step emit c s b \<noteq> StepPanic"
proof (cases "csv_pending_cr_end c")
  case None
  with assms csv_byte_laws(5) [OF assms(1) None] show ?thesis
    by (simp add: csv_step_def)
next
  case (Some e)
  note after = csv_after_cr_laws [OF assms(1) Some] and lf = csv_pending_lf [OF assms(1) Some]
  show ?thesis
  proof (cases "b = byte_lf")
    case True
    then show ?thesis
      by (auto simp: lf(1) Let_def split: if_splits prod.splits emit_control.splits)
  next
    case False
    then show ?thesis
      unfolding after(6) [OF False]
      by (auto simp: csv_byte_laws(5) [OF after(1,2)] split: prod.splits emit_control.splits)
  qed
qed

lemma csv_finish_spec:
  assumes "csv_invar c"
  shows "\<exists>f s'. csv_finish_scan emit c s = Some (f, s') \<and>
    (csv_rest c [] = [] \<and> s' = s \<and> finish_emitted f = 0 \<and> \<not> finish_stopped f
     \<or> (\<exists>r. csv_rest c [] = [r] \<and> s' = fst (emit s r) \<and> finish_emitted f = 1
          \<and> finish_stopped f = (snd (emit s r) = Stop))) \<and>
    finish_diagnostic f =
      (if csv_state_of c = Quoted
       then Some \<lparr>diag_kind = UnterminatedQuotedField, diag_offset = csv_offset c,
                  diag_record_start = csv_record_start c\<rparr> else None)"
  using assms
  by (auto simp: csv_finish_scan_def csv_complete_record_def csv_invar_def csv_rest_def span_new_def
      Let_def crlf_tail_def split: option.splits prod.splits)

interpretation csv_scan: record_scanner emit "csv_step emit"
  "\<lambda>c s. map_option snd (csv_finish_scan emit c s)" csv_offset csv_invar csv_rest csv_fate
  for emit :: "'s emitter"
proof unfold_locales
  fix c :: csv_scanner and s :: 's
  assume "csv_invar c"
  from csv_finish_spec [OF this, of emit s]
  show "\<exists>s'. map_option snd (csv_finish_scan emit c s) = Some s' \<and>
      (csv_rest c [] = [] \<and> s' = s \<or> (\<exists>r. csv_rest c [] = [r] \<and> s' = fst (emit s r)))"
    by auto
qed (fact csv_step_advance csv_step_stop_after csv_step_stop_before csv_step_overflow
       csv_step_no_panic)+


section \<open>The line scanner\<close>

definition line_invar :: "line_scanner \<Rightarrow> bool" where
  "line_invar sc \<longleftrightarrow> line_record_start sc \<le> line_offset sc \<and> line_offset sc \<le> u64_max \<and>
     (\<forall>e. line_pending_cr_end sc = Some e \<longrightarrow>
        line_offset sc = Suc e \<and> line_record_start sc \<le> e)"

definition line_rest :: "line_scanner \<Rightarrow> bytes \<Rightarrow> record_span list" where
  "line_rest sc bs =
     (case line_pending_cr_end sc of
        None \<Rightarrow> split_records line_splitter () (line_record_start sc) (line_offset sc) bs
      | Some e \<Rightarrow> mk_span (line_record_start sc) e #
          records_from line_splitter (line_offset sc + crlf_tail byte_cr bs)
            (drop (crlf_tail byte_cr bs) bs))"

definition line_fate :: "line_scanner \<Rightarrow> bytes \<Rightarrow> unit" where
  "line_fate sc bs = ()"

lemmas line_unfold = line_step_def line_byte_def line_advance_offset_def line_complete_record_def
  line_invar_def line_rest_def line_fate_def records_from_def is_newline_def span_new_def Let_def
  checked_add_def

lemma line_step_advance:
  assumes "line_invar c" "line_step emit c s b = Advance c' s'"
  shows "line_invar c' \<and> line_offset c' = Suc (line_offset c) \<and>
      (\<forall>bs. line_fate c (b # bs) = line_fate c' bs) \<and>
      (\<exists>es. (\<forall>bs. line_rest c (b # bs) = es @ line_rest c' bs) \<and> emit_all emit s es = Some s')"
proof (cases "line_pending_cr_end c")
  case None
  show ?thesis
    using assms None by (intro conjI exI [of _ "if b = byte_lf
        then [mk_span (line_record_start c) (line_offset c)] else []"])
      (auto simp: line_unfold split: csv_splits)
next
  case (Some e)
  with assms(1) have off: "line_offset c = Suc e" by (simp add: line_invar_def)
  show ?thesis
    using assms Some by (intro conjI exI [of _ "[mk_span (line_record_start c) e]"])
      (auto simp: line_unfold off split: csv_splits)
qed


lemma line_step_stop_after:
  assumes "line_invar c" "line_step emit c s b = StopAfter c' s'"
  shows "line_invar c' \<and> line_offset c' = Suc (line_offset c) \<and>
      (\<forall>bs. line_fate c (b # bs) = line_fate c' bs) \<and>
      (\<exists>r. (\<forall>bs. line_rest c (b # bs) = r # line_rest c' bs) \<and> emit s r = (s', Stop))"
proof -
  have "line_pending_cr_end c = Some e \<Longrightarrow> line_offset c = Suc e" for e
    using assms(1) by (simp add: line_invar_def)
  then show ?thesis
    using assms
    by (intro conjI exI [of _ "mk_span (line_record_start c) (case line_pending_cr_end c of
          None \<Rightarrow> line_offset c | Some e \<Rightarrow> e)"])
      (auto simp: line_unfold split: csv_splits)
qed

lemma line_step_stop_before:
  assumes "line_invar c" "line_step emit c s b = StopBefore c' s'"
  shows "line_invar c' \<and> line_offset c' = line_offset c \<and>
      (\<forall>bs. line_fate c (b # bs) = line_fate c' (b # bs)) \<and>
      (\<exists>r. (\<forall>bs. line_rest c (b # bs) = r # line_rest c' (b # bs)) \<and> emit s r = (s', Stop))"
  using assms
  by (intro conjI exI [of _ "mk_span (line_record_start c) (the (line_pending_cr_end c))"])
    (auto simp: line_unfold split: csv_splits)

lemma line_step_overflow:
  "line_invar c \<Longrightarrow> line_step emit c s b = StepOverflow c' s' \<Longrightarrow> line_offset c = u64_max"
  by (auto simp: line_unfold split: csv_splits)

lemma line_step_no_panic: "line_invar c \<Longrightarrow> line_step emit c s b \<noteq> StepPanic"
  by (auto simp: line_unfold split: csv_splits)

lemma line_finish_spec:
  assumes "line_invar c"
  shows "\<exists>f s'. line_finish_scan emit c s = Some (f, s') \<and>
    (line_rest c [] = [] \<and> s' = s \<and> lfinish_emitted f = 0 \<and> \<not> lfinish_stopped f
     \<or> (\<exists>r. line_rest c [] = [r] \<and> s' = fst (emit s r) \<and> lfinish_emitted f = 1
          \<and> lfinish_stopped f = (snd (emit s r) = Stop)))"
  using assms
  by (auto simp: line_finish_scan_def line_complete_record_def line_invar_def line_rest_def
      span_new_def Let_def crlf_tail_def split: option.splits prod.splits)

interpretation line_scan: record_scanner emit "line_step emit"
  "\<lambda>c s. map_option snd (line_finish_scan emit c s)" line_offset line_invar line_rest line_fate
  for emit :: "'s emitter"
proof unfold_locales
  fix c :: line_scanner and s :: 's
  assume "line_invar c"
  from line_finish_spec [OF this, of emit s]
  show "\<exists>s'. map_option snd (line_finish_scan emit c s) = Some s' \<and>
      (line_rest c [] = [] \<and> s' = s \<or> (\<exists>r. line_rest c [] = [r] \<and> s' = fst (emit s r)))"
    by auto
qed (fact line_step_advance line_step_stop_after line_step_stop_before line_step_overflow
       line_step_no_panic)+


section \<open>Whole scans\<close>

definition csv_scan_chunks ::
    "csv_dialect \<Rightarrow> nat \<Rightarrow> bytes list \<Rightarrow> (record_span list \<times> csv_diagnostic option) option" where
  "csv_scan_chunks d off chunks =
     (case feed_chunks (csv_feed collect_span) (csv_at_offset d off) [] chunks of
        None \<Rightarrow> None
      | Some (sc, rs) \<Rightarrow>
          (case csv_finish_scan collect_span sc rs of
             None \<Rightarrow> None | Some (f, rs') \<Rightarrow> Some (rs', finish_diagnostic f)))"

definition line_scan_chunks :: "nat \<Rightarrow> bytes list \<Rightarrow> record_span list option" where
  "line_scan_chunks off chunks =
     (case feed_chunks (line_feed collect_span) (line_at_offset off) [] chunks of
        None \<Rightarrow> None
      | Some (sc, rs) \<Rightarrow> map_option snd (line_finish_scan collect_span sc rs))"

lemma csv_at_offset_laws:
  "off \<le> u64_max \<Longrightarrow> csv_invar (csv_at_offset d off)"
  "csv_offset (csv_at_offset d off) = off"
  "csv_rest (csv_at_offset d off) bs = records_from (csv_splitter d) off bs"
  "csv_fate (csv_at_offset d off) bs = (d, end_from (csv_splitter d) off bs)"
  by (simp_all add: csv_at_offset_def csv_invar_def csv_rest_def csv_fate_def records_from_def
      end_from_def)

lemma line_at_offset_laws:
  "off \<le> u64_max \<Longrightarrow> line_invar (line_at_offset off)"
  "line_offset (line_at_offset off) = off"
  "line_rest (line_at_offset off) bs = records_from line_splitter off bs"
  by (simp_all add: line_at_offset_def line_invar_def line_rest_def records_from_def)

text \<open>When no input is left, the fate of a scanner is its own state.\<close>

lemma csv_fate_Nil:
  "csv_invar sc \<Longrightarrow> fst (snd (csv_fate sc [])) = Quoted \<longleftrightarrow> csv_state_of sc = Quoted"
  "csv_state_of sc = Quoted \<Longrightarrow> csv_invar sc \<Longrightarrow> snd (snd (csv_fate sc [])) = csv_record_start sc"
  by (auto simp: csv_fate_def csv_invar_def end_from_def crlf_tail_def split: option.splits)

lemma csv_scan_chunking_general:
  assumes "off + length (concat chunks) \<le> u64_max"
  shows "csv_scan_chunks d off chunks =
    Some (records_from (csv_splitter d) off (concat chunks),
      (case end_from (csv_splitter d) off (concat chunks) of (q, start) \<Rightarrow>
         if q = Quoted
         then Some \<lparr>diag_kind = UnterminatedQuotedField,
                    diag_offset = off + length (concat chunks), diag_record_start = start\<rparr>
         else None))"
proof -
  let ?c = "csv_at_offset d off"
  have "off \<le> u64_max" using assms by simp
  note laws = csv_at_offset_laws(1) [OF this] csv_at_offset_laws(2-)
  have feed: "csv_feed collect_span = feed_loop (csv_step collect_span) None 0"
    by (simp add: fun_eq_iff csv_feed_def csv_feed_inner_def)
  from csv_scan.feed_chunks_runs [of ?c chunks collect_span "[]", OF laws(1)] assms
  obtain c' es where r: "feed_chunks (csv_feed collect_span) ?c [] chunks = Some (c', es)"
    "csv_invar c'" "csv_offset c' = off + length (concat chunks)"
    "records_from (csv_splitter d) off (concat chunks) = es @ csv_rest c' []"
    "csv_fate c' [] = (d, end_from (csv_splitter d) off (concat chunks))"
    by (auto simp: feed laws collect_span_def) (metis append_Nil2)
  from csv_finish_spec [OF r(2), of collect_span es] obtain f where
    f: "csv_finish_scan collect_span c' es = Some (f, es @ csv_rest c' [])"
    "finish_diagnostic f = (if csv_state_of c' = Quoted
       then Some \<lparr>diag_kind = UnterminatedQuotedField, diag_offset = csv_offset c',
                  diag_record_start = csv_record_start c'\<rparr> else None)"
    by (auto simp: collect_span_def)
  show ?thesis
    using r(1,3-5) f csv_fate_Nil [of c'] r(2)
    by (auto simp: csv_scan_chunks_def split: prod.splits)
qed

text \<open>
  C1. However a CSV file is cut into chunks, scanning it never fails and never panics, the spans
  reported are those of the reference splitter on the whole input, in order and each once, and
  the diagnostic is there exactly when the input ends inside a quoted field; it then names the end
  of the input and the record the quote belongs to.
\<close>

theorem csv_scan_chunking:
  assumes "off + length (concat chunks) \<le> u64_max"
  shows "csv_scan_chunks d off chunks =
    Some (records_from (csv_splitter d) off (concat chunks),
      (case end_from (csv_splitter d) off (concat chunks) of (q, start) \<Rightarrow>
         if q = Quoted
         then Some \<lparr>diag_kind = UnterminatedQuotedField,
                    diag_offset = off + length (concat chunks), diag_record_start = start\<rparr>
         else None))"
  by (rule csv_scan_chunking_general [OF assms])

lemma csv_scan_chunking_witness:
  "csv_scan_chunks dialect_csv 0 [[34, 97], [10, 34, 13], [10, 98]] =
     Some ([mk_span 0 4, mk_span 6 7], None)"
  by (subst csv_scan_chunking) (simp, code_simp)


text \<open>
  C2. The same for the line scanner: any chunking, the records of the reference splitter.
\<close>

theorem line_scan_chunking:
  assumes "off + length (concat chunks) \<le> u64_max"
  shows "line_scan_chunks off chunks = Some (records_from line_splitter off (concat chunks))"
proof -
  let ?c = "line_at_offset off"
  have "off \<le> u64_max" using assms by simp
  note laws = line_at_offset_laws(1) [OF this] line_at_offset_laws(2-)
  have feed: "line_feed collect_span = feed_loop (line_step collect_span) None 0"
    by (simp add: fun_eq_iff line_feed_def line_feed_inner_def)
  from line_scan.feed_chunks_runs [of ?c chunks collect_span "[]", OF laws(1)] assms
  obtain c' es where r: "feed_chunks (line_feed collect_span) ?c [] chunks = Some (c', es)"
    "line_invar c'" "records_from line_splitter off (concat chunks) = es @ line_rest c' []"
    by (auto simp: feed laws collect_span_def) (metis append_Nil2)
  from line_finish_spec [OF r(2), of collect_span es] obtain f where
    "line_finish_scan collect_span c' es = Some (f, es @ line_rest c' [])"
    by (auto simp: collect_span_def)
  with r show ?thesis by (simp add: line_scan_chunks_def)
qed

lemma line_scan_chunking_witness:
  "line_scan_chunks 7 [[97, 13], [10], [13, 98]] =
     Some [mk_span 7 8, mk_span 10 10, mk_span 11 12]"
  by (subst line_scan_chunking) (simp, code_simp)

text \<open>
  C3. The spans of a scan tile the file: the first starts at its first byte, each next one right
  behind the CR, LF or CRLF that ends the one before, nothing is left over.  A newline inside a CSV
  record is inside a quoted field, one that opened at the start of the record or behind a delimiter
  and in which quotes stand only in pairs so far; and, if the dialect tells its two bytes apart, the
  newline that ends a record is not.
\<close>

theorem csv_spans_tile_file:
  assumes "length (concat chunks) \<le> u64_max"
    and "csv_scan_chunks d 0 chunks = Some (rs, diagnostic)"
  shows "tiles (concat chunks) 0 rs \<and>
    (\<forall>r \<in> set rs.
       (\<forall>i. span_start r \<le> i \<and> i < span_end r \<and> is_newline (concat chunks ! i) \<longrightarrow>
          inside_quotes d (segment (concat chunks) (span_start r) i)) \<and>
       (delimiter d \<noteq> quote d \<and> span_end r < length (concat chunks) \<longrightarrow>
          \<not> inside_quotes d (segment (concat chunks) (span_start r) (span_end r))))"
proof -
  let ?sp = "csv_splitter d"
  have rs: "rs = records_of ?sp (concat chunks)"
    using csv_scan_chunking_general [of 0 chunks d] assms by simp
  show ?thesis
    unfolding rs using records_of_newlines [of _ ?sp "concat chunks"] records_of_ends [of _ ?sp "concat chunks"]
    by (auto simp: state_at_def records_of_tiles intro: quoted_is_inside dest: inside_is_quoted)
qed

lemma csv_spans_tile_file_witness:
  "csv_scan_chunks dialect_csv 0 [[97, 44, 34, 10], [34, 13], [10, 98]] = Some ([mk_span 0 5, mk_span 7 8], None) \<and>
   inside_quotes dialect_csv [97, 44, 34] \<and> \<not> inside_quotes dialect_csv [97, 44, 34, 10, 34]"
proof -
  let ?chunks = "[[97, 44, 34, 10], [34, 13], [10, 98]] :: bytes list"
  have scan: "csv_scan_chunks dialect_csv 0 ?chunks = Some ([mk_span 0 5, mk_span 7 8], None)"
    by (subst csv_scan_chunking_general) (simp, code_simp)
  have "delimiter dialect_csv \<noteq> quote dialect_csv" by (simp add: dialect_csv_def)
  with csv_spans_tile_file [OF _ scan] scan show ?thesis
    by (auto simp: segment_def is_newline_def dest!: spec [of _ 3])
qed

text \<open>
  C4. A feed that the callback stops or that is cancelled loses and repeats nothing: whatever
  the status, the records handed to the callback are the next records of the file, the scanner
  stands \<open>consumed\<close> bytes further on, and feeding it the bytes that were not consumed goes on with
  exactly the records not yet reported.  Cancellation is seen only at a multiple of the interval,
  with bytes left to read.
\<close>

theorem csv_feed_resumable:
  assumes "csv_invar sc" "csv_offset sc + length chunk \<le> u64_max"
    and "csv_feed_cancellable emit token gen every sc s chunk = (sc', s', res)"
  shows "\<exists>p es. res = Ok p \<and> consumed p \<le> length chunk \<and> csv_invar sc'
    \<and> csv_offset sc' = csv_offset sc + consumed p
    \<and> (\<forall>tl. csv_rest sc (chunk @ tl) = es @ csv_rest sc' (drop (consumed p) chunk @ tl))
    \<and> (case scan_status p of
         ScanComplete \<Rightarrow> consumed p = length chunk \<and> emit_all emit s es = Some s'
       | ScanStopped \<Rightarrow> emit_stopped emit s es s'
       | ScanCancelled \<Rightarrow> emit_all emit s es = Some s' \<and> consumed p < length chunk
           \<and> consumed p mod every = 0 \<and> is_cancelled (token (consumed p)) gen)"
proof -
  let ?chk = "Some \<lparr>check_token = token, check_generation = gen, check_every = every\<rparr>"
  have f: "feed_loop (csv_step emit) ?chk 0 sc s chunk = (sc', s', res)"
    using assms(3) by (simp add: csv_feed_cancellable_def csv_feed_inner_def)
  from csv_scan.feed_loop_spec [OF assms(1,2) f] obtain n st es where
    r: "res = Ok \<lparr>consumed = n, scan_status = st\<rparr>" "n \<le> length chunk" "csv_invar sc'"
    "csv_offset sc' = csv_offset sc + n"
    "\<forall>tl. csv_rest sc (chunk @ tl) = es @ csv_rest sc' (drop n chunk @ tl)"
    "st = ScanComplete \<longrightarrow> n = length chunk"
    "st \<noteq> ScanStopped \<longrightarrow> emit_all emit s es = Some s'"
    "st = ScanStopped \<longrightarrow> emit_stopped emit s es s'"
    "st = ScanCancelled \<longrightarrow> cancel_due ?chk n \<and> n < length chunk" by auto
  show ?thesis
    by (intro exI [of _ "\<lparr>consumed = n, scan_status = st\<rparr>"] exI [of _ es])
      (use r in \<open>auto simp: cancel_due_def split: scan_status.splits\<close>)
qed

lemma csv_feed_resumable_witness:
  "\<exists>p. snd (snd (csv_feed_cancellable (\<lambda>s r. (r, Stop)) (\<lambda>_. token_new) 0 1 (csv_new dialect_csv)
      (mk_span 0 0) [97, 10, 98, 10])) = Ok p \<and> consumed p \<le> 4"
proof -
  let ?call = "csv_feed_cancellable (\<lambda>s r. (r, Stop)) (\<lambda>_. token_new) 0 1 (csv_new dialect_csv)
     (mk_span 0 0) [97, 10, 98, 10]"
  have "csv_invar (csv_new dialect_csv)" "csv_offset (csv_new dialect_csv) + length [97, 10, 98, 10 :: u8] \<le> u64_max"
    by (simp_all add: csv_new_def csv_at_offset_laws)
  from csv_feed_resumable [OF this, of "\<lambda>s r. (r, Stop)" "\<lambda>_. token_new" 0 1
      "mk_span 0 0" "fst ?call" "fst (snd ?call)" "snd (snd ?call)"]
  obtain p where "snd (snd ?call) = Ok p" "consumed p \<le> length [97, 10, 98, 10 :: u8]"
    by (metis prod.collapse)
  then show ?thesis by auto
qed

end
