(* ===== verification/Formats.thy ===== *)
theory Formats imports Chunked_Scan begin

text \<open>
  The document formats (\<open>crates/leanrows-core/src/format.rs\<close>), the boundary rules they map to, and
  the two-way scanner that \<open>session.rs\<close> and \<open>viewport.rs\<close> build from them.  Every feed of it is
  one of the two scanners', so the contract \<open>record_scanner\<close> gives one law for whole calls, in
  terms of \<open>format_records\<close>: the records of the format's reference splitter.
\<close>

datatype viewport_format = Delimited csv_dialect | Lines

datatype document_format = Csv | Tsv | Jsonl | Log

fun viewport_format_of :: "document_format \<Rightarrow> viewport_format" where
  "viewport_format_of Csv = Delimited dialect_csv"
| "viewport_format_of Tsv = Delimited dialect_tsv"
| "viewport_format_of Jsonl = Lines"
| "viewport_format_of Log = Lines"

fun delimited_dialect :: "document_format \<Rightarrow> csv_dialect option" where
  "delimited_dialect Csv = Some dialect_csv"
| "delimited_dialect Tsv = Some dialect_tsv"
| "delimited_dialect Jsonl = None"
| "delimited_dialect Log = None"

datatype boundary_scanner = DelimitedScanner csv_scanner | LineScanner line_scanner

fun boundary_scanner_new :: "viewport_format \<Rightarrow> nat \<Rightarrow> boundary_scanner" where
  "boundary_scanner_new (Delimited d) off = DelimitedScanner (csv_at_offset d off)"
| "boundary_scanner_new Lines off = LineScanner (line_at_offset off)"

fun boundary_scanner_offset :: "boundary_scanner \<Rightarrow> nat" where
  "boundary_scanner_offset (DelimitedScanner sc) = csv_offset sc"
| "boundary_scanner_offset (LineScanner sc) = line_offset sc"

fun boundary_scanner_feed ::
    "'s emitter \<Rightarrow> (nat \<Rightarrow> cancellation_token) \<Rightarrow> cancellation_generation \<Rightarrow> nat \<Rightarrow> boundary_scanner
     \<Rightarrow> 's \<Rightarrow> bytes \<Rightarrow> boundary_scanner \<times> 's \<times> (scan_error, scan_progress) outcome" where
  "boundary_scanner_feed emit token gen every (DelimitedScanner sc) s chunk =
     (case csv_feed_cancellable emit token gen every sc s chunk of
        (sc', s', res) \<Rightarrow> (DelimitedScanner sc', s', res))"
| "boundary_scanner_feed emit token gen every (LineScanner sc) s chunk =
     (case line_feed_cancellable emit token gen every sc s chunk of
        (sc', s', res) \<Rightarrow> (LineScanner sc', s', res))"

text \<open>\<open>None\<close> is the \<open>unreachable!\<close> of the scanners; the diagnostic is there for CSV only.\<close>

fun boundary_scanner_finish ::
    "'s emitter \<Rightarrow> boundary_scanner \<Rightarrow> 's \<Rightarrow> (csv_diagnostic option \<times> 's) option" where
  "boundary_scanner_finish emit (DelimitedScanner sc) s =
     (case csv_finish_scan emit sc s of
        None \<Rightarrow> None | Some (f, s') \<Rightarrow> Some (finish_diagnostic f, s'))"
| "boundary_scanner_finish emit (LineScanner sc) s =
     (case line_finish_scan emit sc s of None \<Rightarrow> None | Some (_, s') \<Rightarrow> Some (None, s'))"

section \<open>What a format's scanner reports\<close>

fun format_records :: "viewport_format \<Rightarrow> nat \<Rightarrow> bytes \<Rightarrow> record_span list" where
  "format_records (Delimited d) off bs = records_from (csv_splitter d) off bs"
| "format_records Lines off bs = records_from line_splitter off bs"

fun format_diagnostic :: "viewport_format \<Rightarrow> nat \<Rightarrow> bytes \<Rightarrow> csv_diagnostic option" where
  "format_diagnostic (Delimited d) off bs =
     (case end_from (csv_splitter d) off bs of (q, start) \<Rightarrow>
        if q = Quoted
        then Some \<lparr>diag_kind = UnterminatedQuotedField, diag_offset = off + length bs,
                   diag_record_start = start\<rparr>
        else None)"
| "format_diagnostic Lines off bs = None"

fun scanner_ok :: "boundary_scanner \<Rightarrow> bool" where
  "scanner_ok (DelimitedScanner sc) = csv_invar sc"
| "scanner_ok (LineScanner sc) = line_invar sc"

fun scanner_rest :: "boundary_scanner \<Rightarrow> bytes \<Rightarrow> record_span list" where
  "scanner_rest (DelimitedScanner sc) bs = csv_rest sc bs"
| "scanner_rest (LineScanner sc) bs = line_rest sc bs"

fun scanner_diagnostic :: "boundary_scanner \<Rightarrow> bytes \<Rightarrow> csv_diagnostic option" where
  "scanner_diagnostic (DelimitedScanner sc) bs =
     (case csv_fate sc bs of (d, q, start) \<Rightarrow>
        if q = Quoted
        then Some \<lparr>diag_kind = UnterminatedQuotedField, diag_offset = csv_offset sc + length bs,
                   diag_record_start = start\<rparr>
        else None)"
| "scanner_diagnostic (LineScanner sc) bs = None"

lemma boundary_scanner_new_laws:
  assumes "off \<le> u64_max"
  shows "scanner_ok (boundary_scanner_new fmt off)"
    and "boundary_scanner_offset (boundary_scanner_new fmt off) = off"
    and "scanner_rest (boundary_scanner_new fmt off) bs = format_records fmt off bs"
    and "scanner_diagnostic (boundary_scanner_new fmt off) bs = format_diagnostic fmt off bs"
proof -
  show "scanner_ok (boundary_scanner_new fmt off)"
    using assms by (cases fmt) (simp_all only: boundary_scanner_new.simps scanner_ok.simps
      csv_at_offset_laws line_at_offset_laws)
  show "boundary_scanner_offset (boundary_scanner_new fmt off) = off"
    by (cases fmt) (simp_all only: boundary_scanner_new.simps boundary_scanner_offset.simps
      csv_at_offset_laws line_at_offset_laws)
  show "scanner_rest (boundary_scanner_new fmt off) bs = format_records fmt off bs"
    by (cases fmt) (simp_all only: boundary_scanner_new.simps scanner_rest.simps
      format_records.simps csv_at_offset_laws line_at_offset_laws)
  show "scanner_diagnostic (boundary_scanner_new fmt off) bs = format_diagnostic fmt off bs"
    by (cases fmt) (simp_all only: boundary_scanner_new.simps scanner_diagnostic.simps
      format_diagnostic.simps csv_at_offset_laws prod.case)
qed

lemma boundary_scanner_feed_spec:
  assumes "scanner_ok sc" "boundary_scanner_offset sc + length chunk \<le> u64_max"
    and "boundary_scanner_feed emit token gen every sc s chunk = (sc', s', res)"
  shows "\<exists>n st es. res = Ok \<lparr>consumed = n, scan_status = st\<rparr> \<and> n \<le> length chunk \<and> scanner_ok sc'
    \<and> boundary_scanner_offset sc' = boundary_scanner_offset sc + n
    \<and> (\<forall>tl. scanner_rest sc (chunk @ tl) = es @ scanner_rest sc' (drop n chunk @ tl))
    \<and> (\<forall>tl. scanner_diagnostic sc (chunk @ tl) = scanner_diagnostic sc' (drop n chunk @ tl))
    \<and> (st = ScanComplete \<longrightarrow> n = length chunk)
    \<and> (st \<noteq> ScanStopped \<longrightarrow> emit_all emit s es = Some s')
    \<and> (st = ScanStopped \<longrightarrow> emit_stopped emit s es s')
    \<and> (st = ScanCancelled \<longrightarrow> is_cancelled (token n) gen \<and> n mod every = 0 \<and> n < length chunk)"
proof (cases sc)
  case (DelimitedScanner c)
  with assms(3) obtain c' where sc': "sc' = DelimitedScanner c'" and
    f: "feed_loop (csv_step emit) (Some \<lparr>check_token = token, check_generation = gen,
          check_every = every\<rparr>) 0 c s chunk = (c', s', res)"
    by (auto simp: csv_feed_cancellable_def csv_feed_inner_def split: prod.splits)
  from csv_scan.feed_loop_spec [OF _ _ f] assms(1,2) DelimitedScanner obtain n st es where
    "res = Ok \<lparr>consumed = n, scan_status = st\<rparr>" "n \<le> length chunk" "csv_invar c'"
    "csv_offset c' = csv_offset c + n"
    "\<forall>tl. csv_rest c (chunk @ tl) = es @ csv_rest c' (drop n chunk @ tl)"
    "\<forall>tl. csv_fate c (chunk @ tl) = csv_fate c' (drop n chunk @ tl)"
    "st = ScanComplete \<longrightarrow> n = length chunk"
    "st \<noteq> ScanStopped \<longrightarrow> emit_all emit s es = Some s'"
    "st = ScanStopped \<longrightarrow> emit_stopped emit s es s'"
    "st = ScanCancelled \<longrightarrow> is_cancelled (token n) gen \<and> n mod every = 0 \<and> n < length chunk"
    by (auto simp: cancel_due_def)
  moreover from this have "\<forall>tl. scanner_diagnostic sc (chunk @ tl)
      = scanner_diagnostic sc' (drop n chunk @ tl)"
    unfolding sc' DelimitedScanner by (auto split: prod.splits)
  ultimately show ?thesis
    unfolding sc' DelimitedScanner by (intro exI [of _ n] exI [of _ st] exI [of _ es]) auto
next
  case (LineScanner c)
  with assms(3) obtain c' where sc': "sc' = LineScanner c'" and
    f: "feed_loop (line_step emit) (Some \<lparr>check_token = token, check_generation = gen,
          check_every = every\<rparr>) 0 c s chunk = (c', s', res)"
    by (auto simp: line_feed_cancellable_def line_feed_inner_def split: prod.splits)
  from line_scan.feed_loop_spec [OF _ _ f] assms(1,2) LineScanner obtain n st es where
    "res = Ok \<lparr>consumed = n, scan_status = st\<rparr>" "n \<le> length chunk" "line_invar c'"
    "line_offset c' = line_offset c + n"
    "\<forall>tl. line_rest c (chunk @ tl) = es @ line_rest c' (drop n chunk @ tl)"
    "st = ScanComplete \<longrightarrow> n = length chunk"
    "st \<noteq> ScanStopped \<longrightarrow> emit_all emit s es = Some s'"
    "st = ScanStopped \<longrightarrow> emit_stopped emit s es s'"
    "st = ScanCancelled \<longrightarrow> is_cancelled (token n) gen \<and> n mod every = 0 \<and> n < length chunk"
    by (auto simp: cancel_due_def)
  then show ?thesis
    unfolding sc' LineScanner by (intro exI [of _ n] exI [of _ st] exI [of _ es]) auto
qed

lemma boundary_scanner_finish_spec:
  assumes "scanner_ok sc"
  shows "\<exists>s'. boundary_scanner_finish emit sc s = Some (scanner_diagnostic sc [], s') \<and>
    (scanner_rest sc [] = [] \<and> s' = s \<or> (\<exists>r. scanner_rest sc [] = [r] \<and> s' = fst (emit s r)))"
proof (cases sc)
  case (DelimitedScanner c)
  with assms have inv: "csv_invar c" by simp
  from csv_finish_spec [OF inv, of emit s] obtain f s' where
    f: "csv_finish_scan emit c s = Some (f, s')"
    "csv_rest c [] = [] \<and> s' = s \<or> (\<exists>r. csv_rest c [] = [r] \<and> s' = fst (emit s r))"
    "finish_diagnostic f = (if csv_state_of c = Quoted
       then Some \<lparr>diag_kind = UnterminatedQuotedField, diag_offset = csv_offset c,
                  diag_record_start = csv_record_start c\<rparr> else None)" by auto
  have "finish_diagnostic f = scanner_diagnostic sc []"
    using f(3) csv_fate_Nil [of c] inv DelimitedScanner by (auto split: prod.splits)
  with f DelimitedScanner show ?thesis by auto
next
  case (LineScanner c)
  with assms line_finish_spec [of c emit s] show ?thesis by auto
qed

section \<open>The records of a format\<close>

lemma split_records_length:
  "length (split_records sp q start pos bs) \<le> length bs + (if start < pos then 1 else 0)"
proof (induction sp q start pos bs rule: split_records.induct)
  case (2 sp q start pos b bs)
  then show ?case using crlf_tail_le [of b bs] by (auto split: if_splits)
qed simp

lemma format_records_length: "length (format_records fmt off bs) \<le> length bs"
  using split_records_length [of "csv_splitter d" FieldStart off off bs for d]
    split_records_length [of line_splitter "()" off off bs]
  by (cases fmt) (simp_all add: records_from_def)

lemma format_records_tiles: "tiles data 0 (format_records fmt 0 data)"
  by (cases fmt) (simp_all add: records_of_tiles)

lemma format_records_valid:
  "r \<in> set (format_records fmt 0 data) \<Longrightarrow> span_start r \<le> span_end r \<and> span_end r \<le> length data"
  using tiles_spans_valid [OF format_records_tiles] by (fastforce simp: span_valid_def)

lemma format_records_starts:
  "sorted_wrt (<) (map span_start (format_records fmt 0 data))"
proof -
  have "span_start (format_records fmt 0 data ! i) < span_start (format_records fmt 0 data ! j)"
    if "i < j" "j < length (format_records fmt 0 data)" for i j
    using tiles_starts_increasing [OF format_records_tiles that]
      format_records_valid [of "format_records fmt 0 data ! i" fmt data] that
    by (meson le_less_trans less_trans nth_mem)
  then show ?thesis by (simp add: sorted_wrt_iff_nth_less)
qed

lemma format_records_hd:
  "format_records fmt 0 data \<noteq> [] \<Longrightarrow> span_start (hd (format_records fmt 0 data)) = 0"
  using format_records_tiles [of data fmt] by (cases "format_records fmt 0 data") auto

lemma format_records_restart:
  assumes "k < length (format_records fmt 0 data)"
  shows "format_records fmt (span_start (format_records fmt 0 data ! k))
           (drop (span_start (format_records fmt 0 data ! k)) data) = drop k (format_records fmt 0 data)"
  using assms by (cases fmt) (simp_all add: records_of_restart)


lemma format_diagnostic_restart:
  assumes "k < length (format_records fmt 0 data)"
  shows "format_diagnostic fmt (span_start (format_records fmt 0 data ! k))
           (drop (span_start (format_records fmt 0 data ! k)) data) = format_diagnostic fmt 0 data"
proof (cases fmt)
  case (Delimited d)
  have "span_start (format_records fmt 0 data ! k) \<le> length data"
    using format_records_valid [of "format_records fmt 0 data ! k" fmt data] assms by force
  with assms show ?thesis
    by (simp add: Delimited end_from_restart split: prod.split)
qed simp

end
