(* ===== verification/Row_Index.thy ===== *)
theory Row_Index imports Spans begin

text \<open>
  The sparse checkpoint index (\<open>crates/leanrows-core/src/index.rs\<close>): a bounded list of record
  boundaries sampled by row or by byte distance.  A full index drops every other checkpoint and
  doubles its stride.  The locale \<open>checkpoint_lookup\<close> is the contract of the trait
  \<open>CheckpointLookup\<close> and of \<open>observe\<close>: what a lookup returns was observed, and lies at or before
  the row asked for.
\<close>

datatype index_error = CapacityTooSmall | CapacityUnavailable | ZeroStride | NonMonotonic

record index_update =
  stored :: bool
  compacted :: bool

datatype cadence = CadenceRows | CadenceBytes

record adaptive_index =
  index_entries :: "checkpoint list"
  capacity_limit :: nat
  stride :: nat
  cadence_of :: cadence
  last_observed :: checkpoint

text \<open>\<open>can_reserve\<close> says whether the allocator grants a capacity.\<close>

definition adaptive_new ::
    "(nat \<Rightarrow> bool) \<Rightarrow> nat \<Rightarrow> nat \<Rightarrow> cadence \<Rightarrow> index_error + adaptive_index" where
  "adaptive_new can_reserve capacity initial_stride cad =
     (if capacity < 2 then Inl CapacityTooSmall
      else if initial_stride = 0 then Inl ZeroStride
      else if \<not> can_reserve capacity then Inl CapacityUnavailable
      else (let origin = checkpoint_new 0 0 in
        Inr \<lparr>index_entries = [origin], capacity_limit = capacity, stride = initial_stride,
             cadence_of = cad, last_observed = origin\<rparr>))"

function compact_loop :: "checkpoint list \<Rightarrow> nat \<Rightarrow> nat \<Rightarrow> nat \<Rightarrow> checkpoint list \<times> nat" where
  "compact_loop es write rd old_len =
     (if rd < old_len then compact_loop (es[write := es ! rd]) (write + 1) (rd + 2) old_len
      else (es, write))"
  by pat_completeness auto
termination
  by (relation "measure (\<lambda>(es, write, rd, old_len). old_len - rd)") auto

declare compact_loop.simps [simp del]

definition adaptive_compact :: "adaptive_index \<Rightarrow> adaptive_index" where
  "adaptive_compact ix =
     (case compact_loop (index_entries ix) 1 2 (length (index_entries ix)) of
        (es, write) \<Rightarrow> ix\<lparr>index_entries := take write es, stride := saturating_mul (stride ix) 2\<rparr>)"

definition checkpoint_distance :: "cadence \<Rightarrow> checkpoint \<Rightarrow> checkpoint \<Rightarrow> nat" where
  "checkpoint_distance cad candidate previous =
     (case cad of
        CadenceRows \<Rightarrow> saturating_sub (cp_row candidate) (cp_row previous)
      | CadenceBytes \<Rightarrow> saturating_sub (cp_offset candidate) (cp_offset previous))"

definition adaptive_observe ::
    "adaptive_index \<Rightarrow> checkpoint \<Rightarrow> (index_error + index_update) \<times> adaptive_index" where
  "adaptive_observe ix candidate =
     (if candidate = last_observed ix then (Inr \<lparr>stored = False, compacted = False\<rparr>, ix)
      else if cp_row candidate \<le> cp_row (last_observed ix)
              \<or> cp_offset candidate \<le> cp_offset (last_observed ix) then (Inl NonMonotonic, ix)
      else
        (let ix1 = ix\<lparr>last_observed := candidate\<rparr>;
             full = (length (index_entries ix1) = capacity_limit ix1);
             ix2 = (if full then adaptive_compact ix1 else ix1);
             previous = index_entries ix2 ! (length (index_entries ix2) - 1);
             keep = (checkpoint_distance (cadence_of ix2) candidate previous \<ge> stride ix2);
             ix3 = (if keep then ix2\<lparr>index_entries := index_entries ix2 @ [candidate]\<rparr> else ix2)
         in (Inr \<lparr>stored = keep, compacted = full\<rparr>, ix3)))"

text \<open>\<open>partition_point\<close> on a list the predicate partitions; \<open>nearest\<close> is read off it.\<close>

definition partition_point :: "('a \<Rightarrow> bool) \<Rightarrow> 'a list \<Rightarrow> nat" where
  "partition_point P xs = length (takeWhile P xs)"

definition adaptive_nearest :: "adaptive_index \<Rightarrow> nat \<Rightarrow> checkpoint" where
  "adaptive_nearest ix row =
     index_entries ix !
       saturating_sub (partition_point (\<lambda>e. cp_row e \<le> row) (index_entries ix)) 1"

definition row_index_new :: "(nat \<Rightarrow> bool) \<Rightarrow> nat \<Rightarrow> nat \<Rightarrow> index_error + adaptive_index" where
  "row_index_new can_reserve capacity initial_row_stride =
     adaptive_new can_reserve capacity initial_row_stride CadenceRows"

definition byte_index_new :: "(nat \<Rightarrow> bool) \<Rightarrow> nat \<Rightarrow> nat \<Rightarrow> index_error + adaptive_index" where
  "byte_index_new can_reserve capacity initial_byte_stride =
     adaptive_new can_reserve capacity initial_byte_stride CadenceBytes"

section \<open>Compaction keeps every other checkpoint\<close>

fun every_other :: "'a list \<Rightarrow> 'a list" where
  "every_other [] = []"
| "every_other [x] = [x]"
| "every_other (x # y # xs) = x # every_other xs"

lemma length_every_other: "length (every_other xs) = (length xs + 1) div 2"
  by (induction xs rule: every_other.induct) auto

lemma nth_every_other: "i < length (every_other xs) \<Longrightarrow> every_other xs ! i = xs ! (2 * i)"
  by (induction xs arbitrary: i rule: every_other.induct) (auto simp: nth_Cons' right_diff_distrib' numeral_2_eq_2 split: if_splits)

lemma set_every_other: "set (every_other xs) \<subseteq> set xs"
  by (induction xs rule: every_other.induct) auto

lemma hd_every_other: "xs \<noteq> [] \<Longrightarrow> hd (every_other xs) = hd xs"
  by (cases xs rule: every_other.cases) auto

lemma every_other_eq_Nil [simp]: "every_other xs = [] \<longleftrightarrow> xs = []"
  by (cases xs rule: every_other.cases) auto

lemma compact_loop_spec:
  assumes "length es = n" "2 * w = rd" "\<And>i. i < w \<Longrightarrow> i < n \<Longrightarrow> es ! i = xs ! (2 * i)"
    and "\<And>i. w \<le> i \<Longrightarrow> i < n \<Longrightarrow> es ! i = xs ! i" "w \<le> (n + 1) div 2" "0 < w"
  shows "\<exists>es'. compact_loop es w rd n = (es', (n + 1) div 2) \<and> length es' = n \<and>
    (\<forall>i < (n + 1) div 2. es' ! i = xs ! (2 * i))"
  using assms
proof (induction es w rd n rule: compact_loop.induct)
  case (1 es w rd n)
  note prems = "1.prems"
  show ?case
  proof (cases "rd < n")
    case True
    let ?es = "es[w := es ! rd]"
    from True prems(2,6) have w: "w < rd" "w + 1 \<le> (n + 1) div 2" by linarith+
    have rd: "es ! rd = xs ! (2 * w)" using prems(2) prems(4) [of rd] w True by simp
    have "\<exists>es'. compact_loop ?es (w + 1) (rd + 2) n = (es', (n + 1) div 2) \<and> length es' = n \<and>
      (\<forall>i < (n + 1) div 2. es' ! i = xs ! (2 * i))"
    proof (rule "1.IH" [OF True])
      show "?es ! i = xs ! (2 * i)" if "i < w + 1" "i < n" for i
        using that prems(1) prems(3) [of i] rd by (cases "i = w") auto
      show "?es ! i = xs ! i" if "w + 1 \<le> i" "i < n" for i
        using that prems(4) [of i] by simp
    qed (use prems(1,2) w in simp_all)
    with True show ?thesis by (simp add: compact_loop.simps [of es])
  next
    case False
    with prems(2,5) have w: "w = (n + 1) div 2" by linarith
    have "es ! i = xs ! (2 * i)" if "i < w" for i
      using that w prems(3) [of i] by simp
    with False w prems(1) show ?thesis by (auto simp: compact_loop.simps [of es])
  qed
qed

lemma adaptive_compact_eq:
  assumes "index_entries ix \<noteq> []"
  shows "adaptive_compact ix =
    ix\<lparr>index_entries := every_other (index_entries ix), stride := saturating_mul (stride ix) 2\<rparr>"
proof -
  let ?xs = "index_entries ix" and ?m = "(length (index_entries ix) + 1) div 2"
  have le: "1 \<le> ?m" using assms by (cases ?xs) auto
  from compact_loop_spec [of ?xs "length ?xs" 1 2 ?xs] le obtain es where
    c: "compact_loop ?xs 1 2 (length ?xs) = (es, ?m)" "length es = length ?xs"
    "\<forall>i < ?m. es ! i = ?xs ! (2 * i)" by auto
  have "take ?m es = every_other ?xs"
    using c(2,3) by (intro nth_equalityI) (auto simp: length_every_other nth_every_other)
  with c(1) show ?thesis by (simp add: adaptive_compact_def)
qed


section \<open>The index invariant\<close>

definition checkpoint_before :: "checkpoint \<Rightarrow> checkpoint \<Rightarrow> bool" where
  "checkpoint_before a b \<longleftrightarrow> cp_row a < cp_row b \<and> cp_offset a < cp_offset b"

lemma checkpoint_before_trans:
  "checkpoint_before a b \<Longrightarrow> checkpoint_before b c \<Longrightarrow> checkpoint_before a c"
  by (simp add: checkpoint_before_def)

text \<open>
  Bounded, never empty, starting at the origin, strictly increasing in both coordinates up to the
  last boundary observed, and any two checkpoints at least a stride apart in the index's cadence.
\<close>

definition index_wf :: "adaptive_index \<Rightarrow> bool" where
  "index_wf ix \<longleftrightarrow>
     index_entries ix \<noteq> [] \<and> hd (index_entries ix) = checkpoint_new 0 0
     \<and> sorted_wrt checkpoint_before (index_entries ix)
     \<and> sorted_wrt (\<lambda>a b. stride ix \<le> checkpoint_distance (cadence_of ix) b a) (index_entries ix)
     \<and> length (index_entries ix) \<le> capacity_limit ix \<and> 2 \<le> capacity_limit ix \<and> 0 < stride ix
     \<and> (last (index_entries ix) = last_observed ix
        \<or> checkpoint_before (last (index_entries ix)) (last_observed ix))"

lemma adaptive_new_wf: "adaptive_new can_reserve cap st cad = Inr ix \<Longrightarrow> index_wf ix"
  by (auto simp: adaptive_new_def index_wf_def Let_def split: if_splits)

lemma distance_add:
  "checkpoint_before a b \<Longrightarrow> checkpoint_before b c \<Longrightarrow>
     checkpoint_distance cad c a = checkpoint_distance cad c b + checkpoint_distance cad b a"
  by (cases cad) (simp_all add: checkpoint_distance_def checkpoint_before_def)

lemma sorted_wrt_every_other: "sorted_wrt R xs \<Longrightarrow> sorted_wrt R (every_other xs)"
proof (induction xs rule: every_other.induct)
  case (3 x y xs)
  then show ?case using set_every_other [of xs] by auto
qed auto

lemma spaced_every_other:
  assumes "sorted_wrt checkpoint_before xs"
    and "sorted_wrt (\<lambda>a b. st \<le> checkpoint_distance cad b a) xs"
  shows "sorted_wrt (\<lambda>a b. 2 * st \<le> checkpoint_distance cad b a) (every_other xs)"
  using assms
proof (induction xs rule: every_other.induct)
  case (3 x y xs)
  have "2 * st \<le> checkpoint_distance cad z x" if "z \<in> set (every_other xs)" for z
    using that 3 set_every_other [of xs] distance_add [of x y z cad] by fastforce
  with 3 show ?case by simp
qed auto

lemma last_every_other_le:
  assumes "xs \<noteq> []" "sorted_wrt checkpoint_before xs"
  shows "last (every_other xs) = last xs \<or> checkpoint_before (last (every_other xs)) (last xs)"
proof -
  have "last (every_other xs) \<in> set xs"
    using assms(1) set_every_other [of xs] last_in_set [of "every_other xs"] by auto
  then obtain i where i: "i < length xs" "last (every_other xs) = xs ! i" by (metis in_set_conv_nth)
  show ?thesis
  proof (cases "i = length xs - 1")
    case True
    with i assms(1) show ?thesis by (simp add: last_conv_nth)
  next
    case False
    with i assms show ?thesis by (simp add: last_conv_nth sorted_wrt_iff_nth_less)
  qed
qed

lemma adaptive_compact_wf:
  assumes "index_wf ix"
  shows "index_wf (adaptive_compact ix)"
proof -
  let ?xs = "index_entries ix"
  from assms have ne: "?xs \<noteq> []" and so: "sorted_wrt checkpoint_before ?xs"
    and sp: "sorted_wrt (\<lambda>a b. stride ix \<le> checkpoint_distance (cadence_of ix) b a) ?xs"
    and len: "length ?xs \<le> capacity_limit ix" "2 \<le> capacity_limit ix"
    by (simp_all add: index_wf_def)
  from spaced_every_other [OF so sp]
  have "sorted_wrt (\<lambda>a b. saturating_mul (stride ix) 2 \<le> checkpoint_distance (cadence_of ix) b a)
      (every_other ?xs)"
    by (rule sorted_wrt_mono_rel [rotated]) (simp add: saturating_mul_def)
  moreover have "last (every_other ?xs) = last_observed ix
      \<or> checkpoint_before (last (every_other ?xs)) (last_observed ix)"
    using assms last_every_other_le [OF ne so] checkpoint_before_trans
    unfolding index_wf_def by metis
  moreover have "length (every_other ?xs) \<le> capacity_limit ix"
    using len by (simp add: length_every_other)
  ultimately show ?thesis
    using assms unfolding adaptive_compact_eq [OF ne]
    by (simp add: index_wf_def sorted_wrt_every_other hd_every_other saturating_mul_def)
qed

lemma adaptive_compact_simps:
  assumes "index_wf ix"
  shows "set (index_entries (adaptive_compact ix)) \<subseteq> set (index_entries ix)"
    and "last_observed (adaptive_compact ix) = last_observed ix"
    and "cadence_of (adaptive_compact ix) = cadence_of ix"
    and "capacity_limit (adaptive_compact ix) = capacity_limit ix"
    and "length (index_entries ix) = capacity_limit ix \<Longrightarrow>
           length (index_entries (adaptive_compact ix)) < capacity_limit ix"
  using assms
  by (auto simp: index_wf_def adaptive_compact_eq length_every_other
      dest: subsetD [OF set_every_other])

text \<open>\<open>observe\<close> in one equation: compact when full, then keep the candidate if it is far enough.\<close>

definition observe_room :: "adaptive_index \<Rightarrow> adaptive_index" where
  "observe_room ix = (if length (index_entries ix) = capacity_limit ix then adaptive_compact ix else ix)"

lemma adaptive_observe_eq:
  assumes "index_wf ix" "checkpoint_before (last_observed ix) c"
  shows "\<exists>u. adaptive_observe ix c = (Inr u,
    (observe_room ix)\<lparr>last_observed := c,
       index_entries := index_entries (observe_room ix) @
         (if stride (observe_room ix)
               \<le> checkpoint_distance (cadence_of ix) c (last (index_entries (observe_room ix)))
          then [c] else [])\<rparr>)
    \<and> stored u = (stride (observe_room ix)
               \<le> checkpoint_distance (cadence_of ix) c (last (index_entries (observe_room ix))))"
proof -
  from assms(2) have lt: "c \<noteq> last_observed ix" "\<not> cp_row c \<le> cp_row (last_observed ix)"
    "\<not> cp_offset c \<le> cp_offset (last_observed ix)" by (auto simp: checkpoint_before_def)
  have ne: "index_entries ix \<noteq> []" using assms(1) by (simp add: index_wf_def)
  have comp: "adaptive_compact (ix\<lparr>last_observed := c\<rparr>) = (adaptive_compact ix)\<lparr>last_observed := c\<rparr>"
    using ne adaptive_compact_eq [of ix] adaptive_compact_eq [of "ix\<lparr>last_observed := c\<rparr>"] by simp
  have lst: "index_entries (observe_room ix) \<noteq> []"
    using ne by (auto simp: observe_room_def adaptive_compact_eq)
  show ?thesis
    using lt lst ne
    by (auto simp: adaptive_observe_def Let_def comp observe_room_def last_conv_nth
        adaptive_compact_simps [OF assms(1)] adaptive_compact_eq)
qed


lemma observe_room_wf:
  assumes "index_wf ix"
  shows "index_wf (observe_room ix)" "length (index_entries (observe_room ix)) < capacity_limit ix"
    and "set (index_entries (observe_room ix)) \<subseteq> set (index_entries ix)"
    and "last_observed (observe_room ix) = last_observed ix"
    and "cadence_of (observe_room ix) = cadence_of ix"
    and "capacity_limit (observe_room ix) = capacity_limit ix"
  using adaptive_compact_wf [OF assms] adaptive_compact_simps [OF assms] assms
  by (auto simp: observe_room_def index_wf_def)

lemma adaptive_observe_wf:
  assumes "index_wf ix" "c = last_observed ix \<or> checkpoint_before (last_observed ix) c"
  shows "\<exists>u ix'. adaptive_observe ix c = (Inr u, ix') \<and> index_wf ix' \<and> last_observed ix' = c
    \<and> set (index_entries ix') \<subseteq> insert c (set (index_entries ix))
    \<and> (stored u \<longrightarrow> c \<in> set (index_entries ix')) \<and> cadence_of ix' = cadence_of ix"
proof (cases "c = last_observed ix")
  case True
  with assms(1) show ?thesis by (auto simp: adaptive_observe_def)
next
  case False
  with assms(2) have bef: "checkpoint_before (last_observed ix) c" by simp
  note room = observe_room_wf [OF assms(1)]
  let ?ix = "observe_room ix"
  let ?new = "if stride ?ix \<le> checkpoint_distance (cadence_of ix) c (last (index_entries ?ix))
          then [c] else []"
  from room(1,4) bef have last: "checkpoint_before (last (index_entries ?ix)) c"
    by (auto simp: index_wf_def intro: checkpoint_before_trans)
  have before: "checkpoint_before e c
      \<and> checkpoint_distance (cadence_of ix) c (last (index_entries ?ix)) \<le> checkpoint_distance (cadence_of ix) c e"
    if "e \<in> set (index_entries ?ix)" for e
  proof (cases "e = last (index_entries ?ix)")
    case True
    with last show ?thesis by simp
  next
    case ne: False
    from that obtain i where "i < length (index_entries ?ix)" "e = index_entries ?ix ! i"
      by (metis in_set_conv_nth)
    with ne room(1) have "checkpoint_before e (last (index_entries ?ix))"
      by (cases "i = length (index_entries ?ix) - 1")
        (auto simp: index_wf_def sorted_wrt_iff_nth_less last_conv_nth)
    with last show ?thesis
      using checkpoint_before_trans distance_add [of e "last (index_entries ?ix)" c] by auto
  qed
  have "index_wf (?ix\<lparr>last_observed := c, index_entries := index_entries ?ix @ ?new\<rparr>)"
    using room(1,2,5,6) last before by (auto simp: index_wf_def sorted_wrt_append intro: order_trans)
  then show ?thesis
    using adaptive_observe_eq [OF assms(1) bef] room(3,5) by fastforce
qed

section \<open>The contract of a checkpoint lookup\<close>

locale checkpoint_lookup =
  fixes nearest :: "'i \<Rightarrow> nat \<Rightarrow> checkpoint"
    and observe :: "'i \<Rightarrow> checkpoint \<Rightarrow> (index_error + index_update) \<times> 'i"
    and invar :: "'i \<Rightarrow> bool"
    and kept :: "'i \<Rightarrow> checkpoint set"
    and frontier :: "'i \<Rightarrow> checkpoint"
  assumes nearest_kept: "invar ix \<Longrightarrow> nearest ix row \<in> kept ix \<and> cp_row (nearest ix row) \<le> row"
    and nearest_greatest: "invar ix \<Longrightarrow> c \<in> kept ix \<Longrightarrow> cp_row c \<le> row \<Longrightarrow>
      cp_row c \<le> cp_row (nearest ix row)"
    and observe_next: "invar ix \<Longrightarrow> c = frontier ix \<or> checkpoint_before (frontier ix) c \<Longrightarrow>
      \<exists>u ix'. observe ix c = (Inr u, ix') \<and> invar ix' \<and> frontier ix' = c
        \<and> kept ix' \<subseteq> insert c (kept ix)"
begin

fun observe_list :: "'i \<Rightarrow> checkpoint list \<Rightarrow> 'i option" where
  "observe_list ix [] = Some ix"
| "observe_list ix (c # cs) =
     (case observe ix c of (Inr _, ix') \<Rightarrow> observe_list ix' cs | (Inl _, _) \<Rightarrow> None)"

text \<open>Boundaries observed in order: no error, and every lookup is the origin or one of them.\<close>

lemma observe_list_sound:
  assumes "invar ix" "sorted_wrt checkpoint_before cs"
    and "cs \<noteq> [] \<Longrightarrow> hd cs = frontier ix \<or> checkpoint_before (frontier ix) (hd cs)"
  shows "\<exists>ix'. observe_list ix cs = Some ix' \<and> invar ix' \<and> kept ix' \<subseteq> kept ix \<union> set cs
    \<and> (\<forall>row. nearest ix' row \<in> kept ix \<union> set cs \<and> cp_row (nearest ix' row) \<le> row)"
  using assms
proof (induction cs arbitrary: ix)
  case Nil
  then show ?case using nearest_kept by simp
next
  case (Cons c cs)
  then obtain u ix1 where ob: "observe ix c = (Inr u, ix1)" "invar ix1" "frontier ix1 = c"
    "kept ix1 \<subseteq> insert c (kept ix)"
    using observe_next [OF Cons.prems(1), of c] by auto
  have "cs \<noteq> [] \<Longrightarrow> hd cs = frontier ix1 \<or> checkpoint_before (frontier ix1) (hd cs)"
    using Cons.prems(2) ob(3) by simp
  from Cons.IH [OF ob(2) _ this] Cons.prems(2) obtain ix' where
    "observe_list ix1 cs = Some ix'" "invar ix'" "kept ix' \<subseteq> kept ix1 \<union> set cs"
    "\<forall>row. nearest ix' row \<in> kept ix1 \<union> set cs \<and> cp_row (nearest ix' row) \<le> row" by auto
  with ob show ?case by fastforce
qed

end

lemma takeWhile_sorted_rows:
  assumes "index_wf ix"
  shows "0 < length (takeWhile (\<lambda>e. cp_row e \<le> row) (index_entries ix))"
  using assms by (cases "index_entries ix") (auto simp: index_wf_def checkpoint_new_def)

lemma index_rows_mono:
  "index_wf ix \<Longrightarrow> i \<le> j \<Longrightarrow> j < length (index_entries ix) \<Longrightarrow>
     cp_row (index_entries ix ! i) \<le> cp_row (index_entries ix ! j)"
  by (cases "i = j")
    (auto simp: index_wf_def sorted_wrt_iff_nth_less checkpoint_before_def less_imp_le)

lemma adaptive_nearest_spec:
  assumes "index_wf ix"
  shows "adaptive_nearest ix row \<in> set (index_entries ix) \<and> cp_row (adaptive_nearest ix row) \<le> row"
    and "c \<in> set (index_entries ix) \<Longrightarrow> cp_row c \<le> row \<Longrightarrow>
           cp_row c \<le> cp_row (adaptive_nearest ix row)"
proof -
  let ?xs = "index_entries ix" and ?t = "takeWhile (\<lambda>e. cp_row e \<le> row) (index_entries ix)"
  have pos: "0 < length ?t" by (rule takeWhile_sorted_rows [OF assms])
  have n: "adaptive_nearest ix row = last ?t"
    using pos takeWhile_nth [of "length ?t - 1" "\<lambda>e. cp_row e \<le> row" ?xs]
    by (simp add: adaptive_nearest_def partition_point_def last_conv_nth)
  have "last ?t \<in> set ?t" using pos by simp
  then show "adaptive_nearest ix row \<in> set ?xs \<and> cp_row (adaptive_nearest ix row) \<le> row"
    unfolding n by (meson set_takeWhileD)
  assume c: "c \<in> set ?xs" "cp_row c \<le> row"
  from c(1) obtain i where i: "i < length ?xs" "c = ?xs ! i" by (metis in_set_conv_nth)
  have "i < length ?t"
  proof (rule ccontr)
    assume "\<not> i < length ?t"
    then have t: "length ?t < length ?xs" "length ?t \<le> i" using i by auto
    have "\<not> cp_row (?xs ! length ?t) \<le> row" using t(1) nth_length_takeWhile by blast
    moreover have "cp_row (?xs ! length ?t) \<le> cp_row c"
      using t i index_rows_mono [OF assms] by simp
    ultimately show False using c(2) by simp
  qed
  moreover have "last ?t = ?xs ! (length ?t - 1)"
    using pos by (simp add: last_conv_nth takeWhile_nth)
  moreover have "length ?t - 1 < length ?xs"
    using pos length_takeWhile_le [of "\<lambda>e. cp_row e \<le> row" ?xs] by linarith
  ultimately show "cp_row c \<le> cp_row (adaptive_nearest ix row)"
    unfolding n using i index_rows_mono [OF assms, of i "length ?t - 1"] by simp
qed

interpretation adaptive_lookup: checkpoint_lookup adaptive_nearest adaptive_observe index_wf
  "\<lambda>ix. set (index_entries ix)" last_observed
proof unfold_locales
  fix ix c
  assume "index_wf ix" "c = last_observed ix \<or> checkpoint_before (last_observed ix) c"
  from adaptive_observe_wf [OF this]
  show "\<exists>u ix'. adaptive_observe ix c = (Inr u, ix') \<and> index_wf ix' \<and> last_observed ix' = c
      \<and> set (index_entries ix') \<subseteq> insert c (set (index_entries ix))" by blast
qed (simp_all add: adaptive_nearest_spec)

end
