(* ===== verification/Dense_Index.thy ===== *)
theory Dense_Index imports Row_Index begin

text \<open>
  What the row index holds when, as in a scan session, every record boundary is observed in order:
  exactly the rows that are multiples of its stride, however often it was compacted, so a lookup
  finds the boundary fewer than one stride before the row asked for.
\<close>

fun observe_rows :: "adaptive_index \<Rightarrow> nat \<Rightarrow> nat list \<Rightarrow> adaptive_index option" where
  "observe_rows ix row [] = Some ix"
| "observe_rows ix row (off # offs) =
     (case adaptive_observe ix (checkpoint_new row off) of
        (Inl _, _) \<Rightarrow> None
      | (Inr _, ix') \<Rightarrow> observe_rows ix' (Suc row) offs)"

lemma observe_rows_append:
  "observe_rows ix row (offs @ offs') =
     (case observe_rows ix row offs of
        None \<Rightarrow> None | Some ix' \<Rightarrow> observe_rows ix' (row + length offs) offs')"
  by (induction ix row offs rule: observe_rows.induct) (auto split: prod.splits sum.splits option.splits)

definition strided :: "nat list \<Rightarrow> nat \<Rightarrow> nat \<Rightarrow> checkpoint list" where
  "strided offs st k = map (\<lambda>i. checkpoint_new (i * st) (offs ! (i * st))) [0..<k]"

definition dense :: "nat list \<Rightarrow> nat \<Rightarrow> adaptive_index \<Rightarrow> bool" where
  "dense offs n ix \<longleftrightarrow>
     index_wf ix \<and> cadence_of ix = CadenceRows
     \<and> index_entries ix = strided offs (stride ix) (length (index_entries ix))
     \<and> last_observed ix = checkpoint_new n (offs ! n)
     \<and> (length (index_entries ix) - 1) * stride ix \<le> n \<and> n < length (index_entries ix) * stride ix"

lemma strided_snoc: "strided offs st (Suc k) = strided offs st k @ [checkpoint_new (k * st) (offs ! (k * st))]"
  by (simp add: strided_def)

lemma length_strided [simp]: "length (strided offs st k) = k"
  by (simp add: strided_def)

lemma every_other_strided: "every_other (strided offs st k) = strided offs (2 * st) ((k + 1) div 2)"
  by (rule nth_equalityI) (auto simp: length_every_other nth_every_other strided_def algebra_simps)

lemma strided_one: "strided offs st (Suc 0) = [checkpoint_new 0 (offs ! 0)]"
  by (simp add: strided_def)

lemma room_dense:
  assumes "dense offs n ix" "n < u64_max"
  defines "ix' \<equiv> observe_room ix"
  defines "k \<equiv> length (index_entries (observe_room ix))"
  shows "index_entries ix' = strided offs (stride ix') k" "(k - 1) * stride ix' \<le> n"
    and "Suc n \<le> k * stride ix'" "0 < k"
proof -
  let ?m = "length (index_entries ix)" and ?st = "stride ix"
  from assms(1) have wf: "index_wf ix" and es: "index_entries ix = strided offs ?st ?m"
    and lo: "(?m - 1) * ?st \<le> n" and hi: "n < ?m * ?st" by (simp_all add: dense_def)
  from wf have m: "index_entries ix \<noteq> []" "2 \<le> capacity_limit ix" "0 < ?m"
    by (auto simp: index_wf_def)
  have "index_entries ix' = strided offs (stride ix') k \<and> (k - 1) * stride ix' \<le> n
    \<and> Suc n \<le> k * stride ix' \<and> 0 < k"
  proof (cases "?m = capacity_limit ix")
    case False
    with es lo hi m show ?thesis by (auto simp: ix'_def k_def observe_room_def)
  next
    case True
    then have ix': "ix' = ix\<lparr>index_entries := every_other (index_entries ix), stride := saturating_mul ?st 2\<rparr>"
      using m by (simp add: ix'_def observe_room_def adaptive_compact_eq)
    have k: "k = (?m + 1) div 2" using ix' by (simp add: k_def ix'_def length_every_other)
    have es': "index_entries ix' = strided offs (2 * ?st) k"
      unfolding ix' k by (subst es) (simp add: every_other_strided)
    show ?thesis
    proof (cases "k = 1")
      case one: True
      have "?m \<le> 2" using k one by linarith
      then have "Suc n \<le> 2 * ?st" using hi mult_le_mono1 [of ?m 2 ?st] by linarith
      moreover have "stride ix' = min (2 * ?st) u64_max" unfolding ix' by (simp add: saturating_mul_def mult.commute)
      ultimately show ?thesis
        using es' one assms(2) by (auto simp: strided_one)
    next
      case False
      with k True m have k2: "2 \<le> k" "2 * (k - 1) \<le> ?m - 1" "?m \<le> 2 * k" by linarith+
      have "(k - 1) * (2 * ?st) \<le> (?m - 1) * ?st"
        using mult_le_mono1 [OF k2(2), of ?st] by (simp only: ac_simps)
      then have kn: "(k - 1) * (2 * ?st) \<le> n" using lo by (rule order_trans)
      have "1 * (2 * ?st) \<le> (k - 1) * (2 * ?st)" using k2(1) by (intro mult_le_mono1) simp
      with kn assms(2) have "2 * ?st \<le> u64_max" by linarith
      then have st: "stride ix' = 2 * ?st" unfolding ix' by (simp add: saturating_mul_def)
      have "?m * ?st \<le> k * (2 * ?st)" using mult_le_mono1 [OF k2(3), of ?st] by (simp only: ac_simps)
      with hi have "Suc n \<le> k * (2 * ?st)" by linarith
      with st es' kn k2 show ?thesis by simp
    qed
  qed
  then show "index_entries ix' = strided offs (stride ix') k" "(k - 1) * stride ix' \<le> n"
    "Suc n \<le> k * stride ix'" "0 < k" by simp_all
qed

lemma dense_step:
  assumes "dense offs n ix" "Suc n \<le> u64_max" "sorted_wrt (<) offs" "Suc n < length offs"
  shows "\<exists>u ix'. adaptive_observe ix (checkpoint_new (Suc n) (offs ! Suc n)) = (Inr u, ix')
    \<and> dense offs (Suc n) ix' \<and> capacity_limit ix' = capacity_limit ix \<and> stride ix \<le> stride ix'"
proof -
  let ?c = "checkpoint_new (Suc n) (offs ! Suc n)" and ?r = "observe_room ix"
  let ?k = "length (index_entries ?r)"
  from assms(1) have wf: "index_wf ix" and lo: "last_observed ix = checkpoint_new n (offs ! n)"
    and cad: "cadence_of ix = CadenceRows" by (simp_all add: dense_def)
  note room = room_dense [OF assms(1)] and rwf = observe_room_wf [OF wf]
  have n: "n < u64_max" using assms(2) by simp
  have bef: "checkpoint_before (last_observed ix) ?c"
    using assms(3,4) by (simp add: lo checkpoint_before_def checkpoint_new_def sorted_wrt_iff_nth_less)
  from room(4) [OF n] obtain j where j: "?k = Suc j" by (cases ?k) auto
  have "index_entries ?r = strided offs (stride ?r) (Suc j)" using room(1) [OF n] j by simp
  then have last: "last (index_entries ?r) = checkpoint_new (j * stride ?r) (offs ! (j * stride ?r))"
    by (simp add: strided_snoc)
  have keep: "stride ?r \<le> checkpoint_distance CadenceRows ?c (last (index_entries ?r))
      \<longleftrightarrow> Suc n = ?k * stride ?r"
    using room(2,3) [OF n] j by (auto simp: last checkpoint_distance_def checkpoint_new_def)
  from adaptive_observe_eq [OF wf bef] obtain u where
    ob: "adaptive_observe ix ?c = (Inr u, ?r\<lparr>last_observed := ?c, index_entries := index_entries ?r @
         (if Suc n = ?k * stride ?r then [?c] else [])\<rparr>)" (is "_ = (_, ?ix')")
    unfolding cad keep by blast
  have "index_wf ?ix'"
    using adaptive_observe_wf [OF wf disjI2 [OF bef]] ob by auto
  moreover have "index_entries ?ix' = strided offs (stride ?r) (length (index_entries ?ix'))"
    using room(1) [OF n] by (auto simp: strided_snoc)
  moreover have "(length (index_entries ?ix') - 1) * stride ?r \<le> Suc n
      \<and> Suc n < length (index_entries ?ix') * stride ?r"
  proof -
    have "0 < stride ?r" using rwf(1) by (simp add: index_wf_def)
    then show ?thesis using room(2-4) [OF n] by auto
  qed
  ultimately have "dense offs (Suc n) ?ix'"
    using rwf(5) cad by (simp add: dense_def)
  moreover have "stride ix \<le> stride ?r"
  proof (cases "length (index_entries ix) = capacity_limit ix")
    case True
    then have "1 * stride ix \<le> (length (index_entries ix) - 1) * stride ix"
      using wf by (intro mult_le_mono1) (auto simp: index_wf_def)
    moreover have "(length (index_entries ix) - 1) * stride ix \<le> n"
      using assms(1) unfolding dense_def by blast
    ultimately have "stride ix \<le> u64_max" using n by linarith
    with True wf show ?thesis
      by (simp add: observe_room_def adaptive_compact_eq saturating_mul_def index_wf_def)
  qed (simp add: observe_room_def)
  ultimately show ?thesis using ob rwf(6) by auto
qed


lemma dense_rows:
  assumes "dense offs n ix" "sorted_wrt (<) offs" "Suc n + k = length offs" "length offs \<le> u64_max"
  shows "\<exists>ix'. observe_rows ix (Suc n) (drop (Suc n) offs) = Some ix'
    \<and> dense offs (length offs - 1) ix' \<and> capacity_limit ix' = capacity_limit ix \<and> stride ix \<le> stride ix'"
  using assms
proof (induction k arbitrary: n ix)
  case 0
  then have "length offs - 1 = n" "drop (Suc n) offs = []" by simp_all
  with 0 show ?case by simp
next
  case (Suc k)
  then have n: "Suc n \<le> u64_max" "Suc n < length offs" by simp_all
  then have d: "drop (Suc n) offs = offs ! Suc n # drop (Suc (Suc n)) offs"
    by (metis Cons_nth_drop_Suc)
  from dense_step [OF Suc.prems(1) n(1) Suc.prems(2) n(2)] obtain u ix1 where
    "adaptive_observe ix (checkpoint_new (Suc n) (offs ! Suc n)) = (Inr u, ix1)"
    "dense offs (Suc n) ix1" "capacity_limit ix1 = capacity_limit ix" "stride ix \<le> stride ix1" by blast
  with Suc.IH [of "Suc n" ix1] Suc.prems show ?case unfolding d by fastforce
qed

lemma dense_nearest:
  assumes "dense offs n ix" "row \<le> n"
  shows "adaptive_nearest ix row =
    checkpoint_new (row div stride ix * stride ix) (offs ! (row div stride ix * stride ix))"
proof -
  let ?k = "length (index_entries ix)" and ?st = "stride ix" and ?q = "row div stride ix"
  from assms(1) have wf: "index_wf ix" and es: "index_entries ix = strided offs ?st ?k"
    and hi: "n < ?k * ?st" by (simp_all add: dense_def)
  have st: "0 < ?st" using wf by (simp add: index_wf_def)
  have "row < ?k * ?st" using assms(2) hi by simp
  then have q: "?q < ?k" using st by (simp add: less_mult_imp_div_less)
  have at: "index_entries ix ! i = checkpoint_new (i * ?st) (offs ! (i * ?st))" if "i < ?k" for i
    by (subst es) (simp add: strided_def that)
  have "cp_row (index_entries ix ! ?q) \<le> row" using at [OF q] by (simp add: checkpoint_new_def)
  with q have "cp_row (index_entries ix ! ?q) \<le> cp_row (adaptive_nearest ix row)"
    using adaptive_nearest_spec(2) [OF wf, of "index_entries ix ! ?q" row] by simp
  then have ge: "?q * ?st \<le> cp_row (adaptive_nearest ix row)"
    using at [OF q] by (simp add: checkpoint_new_def)
  obtain i where i: "i < ?k" "adaptive_nearest ix row = index_entries ix ! i"
    using adaptive_nearest_spec(1) [OF wf] by (metis in_set_conv_nth)
  have "i * ?st \<le> row" using adaptive_nearest_spec(1) [OF wf, of row] i at by (simp add: checkpoint_new_def)
  then have "i \<le> ?q" using st by (simp add: less_eq_div_iff_mult_less_eq)
  moreover have "?q \<le> i" using ge i at st by (simp add: checkpoint_new_def)
  ultimately show ?thesis using i at by simp
qed

lemma observe_rows_dense:
  assumes "row_index_new can_reserve capacity st = Inr ix"
    and "sorted_wrt (<) offs" "offs \<noteq> []" "hd offs = 0" "length offs \<le> u64_max"
  shows "\<exists>ix'. observe_rows ix 0 offs = Some ix' \<and> st \<le> stride ix'
    \<and> length (index_entries ix') \<le> capacity
    \<and> (\<forall>row < length offs. adaptive_nearest ix' row =
         checkpoint_new (row div stride ix' * stride ix') (offs ! (row div stride ix' * stride ix')))"
proof -
  let ?c = "checkpoint_new 0 0"
  have ix: "ix = \<lparr>index_entries = [?c], capacity_limit = capacity, stride = st,
      cadence_of = CadenceRows, last_observed = ?c\<rparr>" and st: "0 < st"
    using assms(1) by (auto simp: row_index_new_def adaptive_new_def Let_def split: if_splits)
  obtain rest where offs: "offs = 0 # rest" using assms(3,4) by (cases offs) auto
  have wf: "index_wf ix" using assms(1) unfolding row_index_new_def by (rule adaptive_new_wf)
  have "dense offs 0 ix"
    using wf st by (simp add: dense_def ix offs strided_one)
  from dense_rows [OF this assms(2), of "length rest"] assms(5) obtain ix' where
    r: "observe_rows ix (Suc 0) rest = Some ix'" "dense offs (length offs - 1) ix'"
    "capacity_limit ix' = capacity_limit ix" "stride ix \<le> stride ix'" by (auto simp: offs)
  have "adaptive_observe ix ?c = (Inr \<lparr>stored = False, compacted = False\<rparr>, ix)"
    by (simp add: adaptive_observe_def ix)
  with r(1) have "observe_rows ix 0 offs = Some ix'" by (simp add: offs)
  moreover have "length (index_entries ix') \<le> capacity"
    using r(2,3) by (simp add: dense_def index_wf_def ix)
  ultimately show ?thesis
    using r(2,4) dense_nearest [OF r(2)] by (intro exI [of _ ix']) (auto simp: ix offs)
qed

text \<open>
  C7. Observing the boundaries \<open>offs\<close> of rows 0, 1, 2, \<open>\<dots>\<close> in order never fails, keeps the index
  within its capacity, and leaves exactly the rows that are multiples of its (grown) stride: for
  every row seen, \<open>nearest\<close> returns the true boundary of the last such row at or before it.
\<close>

theorem row_index_keeps_every_stride:
  assumes "row_index_new can_reserve capacity st = Inr ix"
    and "sorted_wrt (<) offs" "offs \<noteq> []" "hd offs = 0" "length offs \<le> u64_max"
  shows "\<exists>ix'. observe_rows ix 0 offs = Some ix' \<and> st \<le> stride ix'
    \<and> length (index_entries ix') \<le> capacity
    \<and> (\<forall>row < length offs. adaptive_nearest ix' row =
         checkpoint_new (row div stride ix' * stride ix') (offs ! (row div stride ix' * stride ix')))"
  by (rule observe_rows_dense [OF assms])

lemma row_index_keeps_every_stride_witness:
  "\<exists>ix'. observe_rows \<lparr>index_entries = [checkpoint_new 0 0], capacity_limit = 2, stride = 1,
      cadence_of = CadenceRows, last_observed = checkpoint_new 0 0\<rparr> 0 [0, 5, 9, 20] = Some ix'
    \<and> length (index_entries ix') \<le> 2"
proof -
  have "row_index_new (\<lambda>_. True) 2 1 = Inr \<lparr>index_entries = [checkpoint_new 0 0], capacity_limit = 2,
      stride = 1, cadence_of = CadenceRows, last_observed = checkpoint_new 0 0\<rparr>"
    by (simp add: row_index_new_def adaptive_new_def Let_def)
  from row_index_keeps_every_stride [OF this, of "[0, 5, 9, 20]"] show ?thesis by auto
qed

end
