(* ===== verification/Scan_Session.thy ===== *)
theory Scan_Session imports Formats Dense_Index begin

text \<open>
  The incremental scan session (\<open>crates/leanrows-core/src/session.rs\<close>): a bounded number of bytes
  per step, a checkpoint index that is usable after every step, and a source whose fingerprint is
  compared before the read, after the read and before finalizing.  A failed comparison poisons the
  session.  \<open>session_step\<close> is the whole of \<open>ScanSession::step\<close>, in the order of the source.
\<close>

record session_config =
  cfg_index_capacity :: nat
  cfg_initial_row_stride :: nat
  cfg_read_buffer_bytes :: nat
  cfg_cancellation_check_bytes :: nat

definition session_config_default :: session_config where
  "session_config_default =
     \<lparr>cfg_index_capacity = 4096, cfg_initial_row_stride = 1024, cfg_read_buffer_bytes = 64 * 1024,
      cfg_cancellation_check_bytes = 16 * 1024\<rparr>"

datatype step_status = StepProgress | StepComplete | StepCancelled

record session_report =
  processed_bytes :: nat
  discovered_records :: nat
  step_status :: step_status

datatype source_failure = FailureChanged source_change nat | FailureEvidenceUnavailable

datatype session_error =
    SessionIo io_error
  | SessionScan scan_error
  | SessionIndex index_error
  | SessionZeroReadBuffer
  | ReadBufferUnavailable
  | SessionZeroCancellationInterval
  | ZeroByteQuantum
  | SourceShrank nat nat
  | SourceGrew nat nat
  | SourceChanged source_change nat nat nat
  | SourceEvidenceUnavailable nat
  | RecordCountOverflow
  | InvalidState

record scan_session =
  ss_format :: document_format
  ss_snapshot :: source_fingerprint
  ss_scanner :: "boundary_scanner option"
  ss_index :: adaptive_index
  ss_record_count :: nat
  ss_diagnostic :: "csv_diagnostic option"
  ss_read_buffer :: bytes
  ss_check_bytes :: nat
  ss_failure :: "source_failure option"

text \<open>\<open>SessionScanner\<close>: the format's scanner from the start of the file.\<close>

definition session_scanner_new :: "document_format \<Rightarrow> boundary_scanner" where
  "session_scanner_new fmt =
     (case delimited_dialect fmt of
        Some d \<Rightarrow> DelimitedScanner (csv_new d)
      | None \<Rightarrow> LineScanner line_new)"

definition session_new ::
    "'w environment \<Rightarrow> document_format \<Rightarrow> session_config \<Rightarrow> 'w \<Rightarrow> (session_error + scan_session) \<times> 'w"
where
  "session_new env fmt cfg w =
     (if cfg_read_buffer_bytes cfg = 0 then (Inl SessionZeroReadBuffer, w)
      else if cfg_cancellation_check_bytes cfg = 0 then (Inl SessionZeroCancellationInterval, w)
      else
        (case row_index_new (\<lambda>n. fst (env_try_reserve env w n)) (cfg_index_capacity cfg)
                (cfg_initial_row_stride cfg) of
           Inl e \<Rightarrow> (Inl (SessionIndex e),
              if e = CapacityUnavailable then snd (env_try_reserve env w (cfg_index_capacity cfg)) else w)
         | Inr ix \<Rightarrow>
             (case env_fingerprint env (snd (env_try_reserve env w (cfg_index_capacity cfg))) of
                (Inl e, w2) \<Rightarrow> (Inl (SessionIo e), w2)
              | (Inr fp, w2) \<Rightarrow>
                  (case env_try_reserve env w2 (cfg_read_buffer_bytes cfg) of
                     (False, w3) \<Rightarrow> (Inl ReadBufferUnavailable, w3)
                   | (True, w3) \<Rightarrow>
                       (Inr \<lparr>ss_format = fmt, ss_snapshot = fp,
                             ss_scanner = Some (session_scanner_new fmt), ss_index = ix,
                             ss_record_count = 0, ss_diagnostic = None,
                             ss_read_buffer = replicate (cfg_read_buffer_bytes cfg) 0,
                             ss_check_bytes = cfg_cancellation_check_bytes cfg,
                             ss_failure = None\<rparr>, w3)))))"

definition session_scanner_offset :: "scan_session \<Rightarrow> nat" where
  "session_scanner_offset ss =
     (case ss_scanner ss of None \<Rightarrow> fp_size (ss_snapshot ss) | Some sc \<Rightarrow> boundary_scanner_offset sc)"

fun source_failure_error :: "scan_session \<Rightarrow> source_failure \<Rightarrow> session_error" where
  "source_failure_error ss (FailureChanged Shrank actual) =
     SourceShrank (fp_size (ss_snapshot ss)) (session_scanner_offset ss)"
| "source_failure_error ss (FailureChanged Grew actual) =
     SourceGrew (fp_size (ss_snapshot ss)) actual"
| "source_failure_error ss (FailureChanged change actual) =
     SourceChanged change (fp_size (ss_snapshot ss)) actual (session_scanner_offset ss)"
| "source_failure_error ss FailureEvidenceUnavailable =
     SourceEvidenceUnavailable (session_scanner_offset ss)"

definition session_ensure_unchanged ::
    "'w environment \<Rightarrow> scan_session \<Rightarrow> 'w \<Rightarrow> session_error option \<times> scan_session \<times> 'w" where
  "session_ensure_unchanged env ss w =
     (case ss_failure ss of
        Some failure \<Rightarrow> (Some (source_failure_error ss failure), ss, w)
      | None \<Rightarrow>
          (case env_fingerprint env w of
             (Inl e, w') \<Rightarrow> (Some (SessionIo e), ss\<lparr>ss_failure := Some FailureEvidenceUnavailable\<rparr>, w')
           | (Inr current, w') \<Rightarrow>
               (let change = fingerprint_compare (ss_snapshot ss) current in
                if \<not> is_changed change then (None, ss, w')
                else
                  (let failure = FailureChanged change (fp_size current);
                       ss' = ss\<lparr>ss_failure := Some failure\<rparr>
                   in (Some (source_failure_error ss' failure), ss', w')))))"

text \<open>The callback of the session: the index, the record count and the first error.\<close>

type_synonym observer = "adaptive_index \<times> nat \<times> session_error option"

definition observe_record :: "observer emitter" where
  "observe_record ob sp =
     (case ob of (ix, record_count, err) \<Rightarrow>
        (case checked_add record_count 1 of
           None \<Rightarrow> ((ix, record_count, Some RecordCountOverflow), Stop)
         | Some next_count \<Rightarrow>
             (case adaptive_observe ix (checkpoint_new record_count (span_start sp)) of
                (Inl e, ix') \<Rightarrow> ((ix', record_count, Some (SessionIndex e)), Stop)
              | (Inr _, ix') \<Rightarrow> ((ix', next_count, err), Continue))))"

definition session_finalize :: "scan_session \<Rightarrow> (session_error, unit) outcome \<times> scan_session" where
  "session_finalize ss =
     (case ss_scanner ss of
        None \<Rightarrow> (Err InvalidState, ss)
      | Some sc \<Rightarrow>
          (let ss1 = ss\<lparr>ss_scanner := None\<rparr> in
           case boundary_scanner_finish observe_record sc (ss_index ss, ss_record_count ss, None) of
             None \<Rightarrow> (Panic, ss1)
           | Some (diagnostic, (ix, n, err)) \<Rightarrow>
               (let ss2 = ss1\<lparr>ss_index := ix, ss_record_count := n\<rparr> in
                case err of
                  Some e \<Rightarrow> (Err e, ss2)
                | None \<Rightarrow> (Ok (), ss2\<lparr>ss_diagnostic := diagnostic\<rparr>))))"

definition report :: "nat \<Rightarrow> nat \<Rightarrow> scan_session \<Rightarrow> step_status \<Rightarrow> (session_error, session_report) outcome" where
  "report processed before_records ss st =
     (case checked_sub (ss_record_count ss) before_records of
        None \<Rightarrow> Panic
      | Some n \<Rightarrow> Ok \<lparr>processed_bytes = processed, discovered_records = n, step_status = st\<rparr>)"

text \<open>The part of \<open>step\<close> behind the read: validate, compare again, feed, finalize at the end.\<close>

definition session_consume ::
    "'w environment \<Rightarrow> cancellation_generation \<Rightarrow> scan_session \<Rightarrow> nat \<Rightarrow> 'w
     \<Rightarrow> (session_error, session_report) outcome \<times> scan_session \<times> 'w" where
  "session_consume env gen ss got w =
     (case session_ensure_unchanged env ss w of
        (Some e, ss1, w1) \<Rightarrow> (Err e, ss1, w1)
      | (None, ss1, w1) \<Rightarrow>
          (case ss_scanner ss1 of
             None \<Rightarrow> (Err InvalidState, ss1, w1)
           | Some sc \<Rightarrow>
               (case env_feed_tokens env w1 of (tokens, w2) \<Rightarrow>
                 (case boundary_scanner_feed observe_record tokens gen (ss_check_bytes ss1) sc
                         (ss_index ss1, ss_record_count ss1, None) (take got (ss_read_buffer ss1)) of
                    (sc', (ix, n, err), res) \<Rightarrow>
                      (let before_records = ss_record_count ss1;
                           ss2 = ss1\<lparr>ss_scanner := Some sc', ss_index := ix, ss_record_count := n\<rparr> in
                       case res of
                         Panic \<Rightarrow> (Panic, ss2, w2)
                       | Err e \<Rightarrow> (Err (SessionScan e), ss2, w2)
                       | Ok progress \<Rightarrow>
                           (case err of
                              Some e \<Rightarrow> (Err e, ss2, w2)
                            | None \<Rightarrow>
                                (case scan_status progress of
                                   ScanCancelled \<Rightarrow>
                                     (report (consumed progress) before_records ss2 StepCancelled, ss2, w2)
                                 | ScanStopped \<Rightarrow> (Err InvalidState, ss2, w2)
                                 | ScanComplete \<Rightarrow>
                                     (if session_scanner_offset ss2 = fp_size (ss_snapshot ss2) then
                                        (case session_ensure_unchanged env ss2 w2 of
                                           (Some e, ss3, w3) \<Rightarrow> (Err e, ss3, w3)
                                         | (None, ss3, w3) \<Rightarrow>
                                             (case session_finalize ss3 of
                                                (Panic, ss4) \<Rightarrow> (Panic, ss4, w3)
                                              | (Err e, ss4) \<Rightarrow> (Err e, ss4, w3)
                                              | (Ok _, ss4) \<Rightarrow>
                                                  (report (consumed progress) before_records ss4
                                                     StepComplete, ss4, w3)))
                                      else (report (consumed progress) before_records ss2 StepProgress,
                                            ss2, w2)))))))))"

definition session_step ::
    "'w environment \<Rightarrow> nat \<Rightarrow> cancellation_generation \<Rightarrow> scan_session \<Rightarrow> 'w
     \<Rightarrow> (session_error, session_report) outcome \<times> scan_session \<times> 'w" where
  "session_step env byte_quantum gen ss w =
     (if byte_quantum = 0 then (Err ZeroByteQuantum, ss, w)
      else
        (case env_load_token env w of (token, w1) \<Rightarrow>
           if is_cancelled token gen
           then (Ok \<lparr>processed_bytes = 0, discovered_records = 0, step_status = StepCancelled\<rparr>, ss, w1)
           else
             (case session_ensure_unchanged env ss w1 of
                (Some e, ss1, w2) \<Rightarrow> (Err e, ss1, w2)
              | (None, ss1, w2) \<Rightarrow>
                  (if ss_scanner ss1 = None
                   then (Ok \<lparr>processed_bytes = 0, discovered_records = 0,
                             step_status = StepComplete\<rparr>, ss1, w2)
                   else
                     (let before_records = ss_record_count ss1;
                          off = session_scanner_offset ss1 in
                      if off = fp_size (ss_snapshot ss1) then
                        (case session_finalize ss1 of
                           (Panic, ss2) \<Rightarrow> (Panic, ss2, w2)
                         | (Err e, ss2) \<Rightarrow> (Err e, ss2, w2)
                         | (Ok _, ss2) \<Rightarrow> (report 0 before_records ss2 StepComplete, ss2, w2))
                      else
                        (case checked_sub (fp_size (ss_snapshot ss1)) off of
                           None \<Rightarrow> (Panic, ss1, w2)
                         | Some remaining \<Rightarrow>
                             (let request = min (min remaining byte_quantum) (length (ss_read_buffer ss1)) in
                              case env_read_at env w2 off request of
                                (Inl e, w3) \<Rightarrow> (Err (SessionIo e), ss1, w3)
                              | (Inr (k, buf), w3) \<Rightarrow>
                                  (let ss2 = ss1\<lparr>ss_read_buffer :=
                                               buf @ drop request (ss_read_buffer ss1)\<rparr> in
                                   case validate_read_count k request of
                                     Inl e \<Rightarrow> (Err (SessionIo e), ss2, w3)
                                   | Inr got \<Rightarrow>
                                       (if got = 0
                                        then (Err (SourceShrank (fp_size (ss_snapshot ss2)) off), ss2, w3)
                                        else session_consume env gen ss2 got w3)))))))))"

end
