(* ===== verification/Session_Correct.thy ===== *)
theory Session_Correct imports Scan_Session begin

text \<open>
  What a scan session guarantees.  Over a source that does not change, every step keeps the
  invariant \<open>session_ok\<close>: the index is the one that observing the starts of the records found so
  far builds, and the scanner will report exactly the records not yet counted.  Stepping reaches the
  end, and a session whose source changed never completes.
\<close>

section \<open>Observing records\<close>

lemma observe_record_all:
  assumes "observe_rows ix k (map span_start es) = Some ix'" "k + length es \<le> u64_max"
  shows "emit_all observe_record (ix, k, err) es = Some (ix', k + length es, err)"
  using assms
proof (induction es arbitrary: ix k)
  case (Cons r es)
  then show ?case
    by (auto simp: observe_record_def checked_add_def split: prod.splits sum.splits)
qed simp

lemma emit_all_not_stopped: "emit_all emit s es = Some s1 \<Longrightarrow> \<not> emit_stopped emit s es s'"
  by (auto simp: emit_stopped_def emit_all_append)

abbreviation session_records :: "document_format \<Rightarrow> bytes \<Rightarrow> record_span list" where
  "session_records fmt data \<equiv> format_records (viewport_format_of fmt) 0 data"

lemma observe_prefix:
  assumes "row_index_new can_reserve capacity st = Inr ix0" "length data \<le> u64_max"
  shows "\<exists>ix. observe_rows ix0 0 (map span_start (take k (session_records fmt data))) = Some ix"
proof (cases "take k (session_records fmt data) = []")
  case False
  let ?offs = "map span_start (take k (session_records fmt data))"
  have "sorted_wrt (<) ?offs"
    using format_records_starts [of "viewport_format_of fmt" data] by (simp add: sorted_wrt_take flip: take_map)
  moreover have "hd ?offs = 0"
    using False format_records_hd [of "viewport_format_of fmt" data]
    by (simp add: hd_map hd_take take_eq_Nil)
  moreover have "length ?offs \<le> u64_max"
    using format_records_length [of "viewport_format_of fmt" 0 data] assms(2) by simp
  moreover have "?offs \<noteq> []" using False by simp
  ultimately show ?thesis using observe_rows_dense [OF assms(1)] by blast
qed auto

section \<open>The session invariant\<close>

definition session_ok :: "bytes \<Rightarrow> source_fingerprint \<Rightarrow> adaptive_index \<Rightarrow> scan_session \<Rightarrow> bool" where
  "session_ok data base ix0 ss \<longleftrightarrow>
     ss_snapshot ss = base \<and> ss_failure ss = None \<and> ss_read_buffer ss \<noteq> []
     \<and> ss_record_count ss \<le> length (session_records (ss_format ss) data)
     \<and> observe_rows ix0 0 (map span_start (take (ss_record_count ss) (session_records (ss_format ss) data)))
          = Some (ss_index ss)
     \<and> (case ss_scanner ss of
          Some sc \<Rightarrow> scanner_ok sc \<and> boundary_scanner_offset sc \<le> length data
            \<and> scanner_rest sc (drop (boundary_scanner_offset sc) data)
                = drop (ss_record_count ss) (session_records (ss_format ss) data)
            \<and> scanner_diagnostic sc (drop (boundary_scanner_offset sc) data)
                = format_diagnostic (viewport_format_of (ss_format ss)) 0 data
        | None \<Rightarrow> ss_record_count ss = length (session_records (ss_format ss) data)
            \<and> ss_diagnostic ss = format_diagnostic (viewport_format_of (ss_format ss)) 0 data)"

text \<open>Reporting the next records of the file keeps index and count together.\<close>

lemma observe_next_records:
  assumes "row_index_new can_reserve capacity st = Inr ix0" "length data \<le> u64_max"
    and "observe_rows ix0 0 (map span_start (take n rs)) = Some ix" "n \<le> length rs"
    and "rs = session_records fmt data" "drop n rs = es @ later"
  shows "\<exists>ix'. emit_all observe_record (ix, n, None) es = Some (ix', n + length es, None)
    \<and> observe_rows ix0 0 (map span_start (take (n + length es) rs)) = Some ix'
    \<and> n + length es \<le> length rs \<and> drop (n + length es) rs = later"
proof -
  have len: "n + length es \<le> length rs" and later: "drop (n + length es) rs = later"
    using arg_cong [OF assms(6), of length] arg_cong [OF assms(6), of "drop (length es)"] assms(4)
    by (simp_all add: add.commute)
  have t: "take (n + length es) rs = take n rs @ es"
    using assms(6) by (simp add: take_add)
  obtain ix' where ix': "observe_rows ix0 0 (map span_start (take (n + length es) rs)) = Some ix'"
    using observe_prefix [OF assms(1,2), of "n + length es" fmt] unfolding assms(5) by blast
  then have "observe_rows ix n (map span_start es) = Some ix'"
    using assms(3,4) unfolding t by (simp add: observe_rows_append)
  moreover have "n + length es \<le> u64_max"
    using len format_records_length [of "viewport_format_of fmt" 0 data] assms(2) unfolding assms(5)
    by linarith
  ultimately have "emit_all observe_record (ix, n, None) es = Some (ix', n + length es, None)"
    by (rule observe_record_all)
  with ix' len later show ?thesis by blast
qed

lemma session_finalize_ok:
  assumes "row_index_new can_reserve capacity st = Inr ix0" "length data \<le> u64_max"
    and "session_ok data base ix0 ss" "ss_scanner ss = Some sc"
    and "boundary_scanner_offset sc = length data"
  shows "\<exists>ss'. session_finalize ss = (Ok (), ss') \<and> session_ok data base ix0 ss'
    \<and> ss_scanner ss' = None \<and> ss_record_count ss \<le> ss_record_count ss' \<and> ss_format ss' = ss_format ss
    \<and> ss_snapshot ss' = ss_snapshot ss"
proof -
  let ?rs = "session_records (ss_format ss) data"
  let ?n = "ss_record_count ss"
  from assms(3-5) have sc: "scanner_ok sc" "scanner_rest sc [] = drop ?n ?rs"
    "scanner_diagnostic sc [] = format_diagnostic (viewport_format_of (ss_format ss)) 0 data"
    and ix: "observe_rows ix0 0 (map span_start (take ?n ?rs)) = Some (ss_index ss)" "?n \<le> length ?rs"
    by (simp_all add: session_ok_def)
  from boundary_scanner_finish_spec [OF sc(1), of observe_record "(ss_index ss, ?n, None)"]
  obtain ob where fin: "boundary_scanner_finish observe_record sc (ss_index ss, ?n, None)
      = Some (scanner_diagnostic sc [], ob)"
    "drop ?n ?rs = [] \<and> ob = (ss_index ss, ?n, None)
     \<or> (\<exists>r. drop ?n ?rs = [r] \<and> ob = fst (observe_record (ss_index ss, ?n, None) r))"
    unfolding sc(2) by blast
  obtain ix' where e: "emit_all observe_record (ss_index ss, ?n, None) (drop ?n ?rs)
      = Some (ix', length ?rs, None)"
    "observe_rows ix0 0 (map span_start (take (length ?rs) ?rs)) = Some ix'"
    using observe_next_records [OF assms(1,2) ix refl, of "drop ?n ?rs" "[]"] ix(2) by auto
  then have "ob = (ix', length ?rs, None)"
    using fin(2) by (auto split: prod.splits emit_control.splits)
  with fin(1) e sc(3) assms(3,4) ix(2) show ?thesis
    by (simp add: session_finalize_def session_ok_def Let_def)
qed


section \<open>One step over a source that does not change\<close>

text \<open>
  What a successful step reports: the bytes the scanner moved by, the records that became known,
  and a cancellation only when a load of the token in a good world showed one.
\<close>

definition step_accounts ::
    "'w environment \<Rightarrow> ('w \<Rightarrow> bool) \<Rightarrow> cancellation_generation \<Rightarrow> scan_session \<Rightarrow> session_report
     \<Rightarrow> scan_session \<Rightarrow> bool" where
  "step_accounts env world_ok gen ss rep ss' \<longleftrightarrow>
     ss_format ss' = ss_format ss
     \<and> session_scanner_offset ss' = session_scanner_offset ss + processed_bytes rep
     \<and> ss_record_count ss' = ss_record_count ss + discovered_records rep
     \<and> (case step_status rep of
          StepProgress \<Rightarrow> 0 < processed_bytes rep
        | StepComplete \<Rightarrow> ss_scanner ss' = None
        | StepCancelled \<Rightarrow> \<exists>w n. world_ok w \<and> (is_cancelled (fst (env_load_token env w)) gen
             \<or> is_cancelled (fst (env_feed_tokens env w) n) gen))"

lemma session_ok_read_buffer:
  "session_ok data base ix0 ss \<Longrightarrow> b \<noteq> [] \<Longrightarrow> session_ok data base ix0 (ss\<lparr>ss_read_buffer := b\<rparr>)"
  by (simp add: session_ok_def split: option.splits)

lemma ensure_unchanged_stable:
  assumes "stable_source env data base world_ok" "world_ok w"
    and "ss_failure ss = None" "ss_snapshot ss = base"
  shows "\<exists>w'. session_ensure_unchanged env ss w = (None, ss, w') \<and> world_ok w'"
  using stable_source.fingerprint_unchanged [OF assms(1,2)] assms(3,4)
  by (auto simp: session_ensure_unchanged_def is_changed_def)

lemma session_consume_ok:
  assumes "row_index_new can_reserve capacity st = Inr ix0" "length data \<le> u64_max"
    and src: "stable_source env data base world_ok" and w: "world_ok w"
    and ok: "session_ok data base ix0 ss" and sc: "ss_scanner ss = Some sc"
    and got: "0 < got" "boundary_scanner_offset sc + got \<le> length data"
      "take got (ss_read_buffer ss) = take got (drop (boundary_scanner_offset sc) data)"
  shows "\<exists>rep ss' w'. session_consume env gen ss got w = (Ok rep, ss', w') \<and> world_ok w'
    \<and> session_ok data base ix0 ss' \<and> step_accounts env world_ok gen ss rep ss'
    \<and> processed_bytes rep \<le> got"
proof -
  let ?rs = "session_records (ss_format ss) data" and ?n = "ss_record_count ss"
  let ?off = "boundary_scanner_offset sc" and ?chunk = "take got (ss_read_buffer ss)"
  let ?tl = "drop got (drop (boundary_scanner_offset sc) data)"
  from ok have snap: "ss_failure ss = None" "ss_snapshot ss = base" by (simp_all add: session_ok_def)
  have size: "fp_size base = length data" using src by (rule stable_source.base_size)
  from ok sc have inv: "scanner_ok sc" "scanner_rest sc (drop ?off data) = drop ?n ?rs"
    "scanner_diagnostic sc (drop ?off data) = format_diagnostic (viewport_format_of (ss_format ss)) 0 data"
    and ix: "observe_rows ix0 0 (map span_start (take ?n ?rs)) = Some (ss_index ss)" "?n \<le> length ?rs"
    by (simp_all add: session_ok_def)
  have len: "length ?chunk = got" using got(2) unfolding got(3) by simp
  have split: "drop ?off data = ?chunk @ ?tl" unfolding got(3) by (simp only: append_take_drop_id)
  obtain w1 where w1: "session_ensure_unchanged env ss w = (None, ss, w1)" "world_ok w1"
    using ensure_unchanged_stable [OF src w snap] by blast
  obtain tokens w2 where tk: "env_feed_tokens env w1 = (tokens, w2)" by fastforce
  have w2: "world_ok w2" using stable_source.feed_tokens_ok [OF src w1(2)] tk by simp
  obtain sc' ob res where feed: "boundary_scanner_feed observe_record tokens gen (ss_check_bytes ss) sc
      (ss_index ss, ?n, None) ?chunk = (sc', ob, res)" by (metis prod_cases3)
  have "?off + length ?chunk \<le> u64_max" using len got(2) assms(2) by simp
  from boundary_scanner_feed_spec [OF inv(1) this feed] obtain k sta es where
    f: "res = Ok \<lparr>consumed = k, scan_status = sta\<rparr>" "k \<le> got" "scanner_ok sc'"
    "boundary_scanner_offset sc' = ?off + k"
    "scanner_rest sc (?chunk @ ?tl) = es @ scanner_rest sc' (drop k ?chunk @ ?tl)"
    "scanner_diagnostic sc (?chunk @ ?tl) = scanner_diagnostic sc' (drop k ?chunk @ ?tl)"
    "sta = ScanComplete \<longrightarrow> k = got"
    "sta \<noteq> ScanStopped \<longrightarrow> emit_all observe_record (ss_index ss, ?n, None) es = Some ob"
    "sta = ScanStopped \<longrightarrow> emit_stopped observe_record (ss_index ss, ?n, None) es ob"
    "sta = ScanCancelled \<longrightarrow> is_cancelled (tokens k) gen" unfolding len by blast
  have dr: "drop k ?chunk @ ?tl = drop (?off + k) data"
    unfolding got(3) drop_take_drop [OF f(2)] by (simp add: add.commute)
  have "drop ?n ?rs = es @ scanner_rest sc' (drop (?off + k) data)"
    using f(5) inv(2) unfolding dr split [symmetric] by simp
  from observe_next_records [OF assms(1,2) ix refl this] obtain ix' where
    e: "emit_all observe_record (ss_index ss, ?n, None) es = Some (ix', ?n + length es, None)"
    "observe_rows ix0 0 (map span_start (take (?n + length es) ?rs)) = Some ix'"
    "?n + length es \<le> length ?rs" "drop (?n + length es) ?rs = scanner_rest sc' (drop (?off + k) data)"
    by auto
  have nst: "sta \<noteq> ScanStopped" using f(9) emit_all_not_stopped [OF e(1)] by auto
  with f(8) e(1) have ob: "ob = (ix', ?n + length es, None)" by simp
  let ?ss2 = "ss\<lparr>ss_scanner := Some sc', ss_index := ix', ss_record_count := ?n + length es\<rparr>"
  have ok2: "session_ok data base ix0 ?ss2"
    using ok e f(2-4) got(2) inv(3) f(6) sc unfolding dr split [symmetric]
    by (simp add: session_ok_def)
  show ?thesis
  proof (cases sta)
    case ScanStopped
    with nst show ?thesis by simp
  next
    case ScanCancelled
    then show ?thesis
      using w1 w2 tk feed f(1,2,4,10) ob ok2 sc
      by (auto simp: session_consume_def report_def checked_sub_def step_accounts_def
          session_scanner_offset_def intro: exI [of _ w1])
  next
    case ScanComplete
    with f(7) have k: "k = got" by simp
    show ?thesis
    proof (cases "?off + k = length data")
      case False
      then show ?thesis
        using w1 w2 tk feed f(1,4) ob ok2 sc ScanComplete snap size got(1) k
        by (auto simp: session_consume_def report_def checked_sub_def step_accounts_def
            session_scanner_offset_def)
    next
      case True
      obtain w3 where w3: "session_ensure_unchanged env ?ss2 w2 = (None, ?ss2, w3)" "world_ok w3"
        using ensure_unchanged_stable [OF src w2, of ?ss2] snap by auto
      have "boundary_scanner_offset sc' = length data" using f(4) True by simp
      from session_finalize_ok [OF assms(1,2) ok2 _ this] obtain ss' where
        fin: "session_finalize ?ss2 = (Ok (), ss')" "session_ok data base ix0 ss'"
        "ss_scanner ss' = None" "?n + length es \<le> ss_record_count ss'" "ss_format ss' = ss_format ss"
        "ss_snapshot ss' = ss_snapshot ss" by auto
      then show ?thesis
        using w1 w3 tk feed f(1,4) ob sc ScanComplete snap size True k
        by (auto simp: session_consume_def report_def checked_sub_def step_accounts_def
            session_scanner_offset_def)
    qed
  qed
qed


lemma session_step_ok:
  assumes "row_index_new can_reserve capacity st = Inr ix0" "length data \<le> u64_max"
    and src: "stable_source env data base world_ok" and w: "world_ok w"
    and ok: "session_ok data base ix0 ss" and q: "0 < quantum"
  shows "\<exists>rep ss' w'. session_step env quantum gen ss w = (Ok rep, ss', w') \<and> world_ok w'
    \<and> session_ok data base ix0 ss' \<and> step_accounts env world_ok gen ss rep ss'
    \<and> processed_bytes rep \<le> quantum"
proof -
  obtain tok w1 where tok: "env_load_token env w = (tok, w1)" by fastforce
  have w1: "world_ok w1" using stable_source.load_token_ok [OF src w] tok by simp
  from ok have snap: "ss_failure ss = None" "ss_snapshot ss = base" by (simp_all add: session_ok_def)
  have size: "fp_size base = length data" using src by (rule stable_source.base_size)
  obtain w2 where w2: "session_ensure_unchanged env ss w1 = (None, ss, w2)" "world_ok w2"
    using ensure_unchanged_stable [OF src w1 snap] by blast
  show ?thesis
  proof (cases "is_cancelled tok gen")
    case True
    then show ?thesis
      using tok w w1 ok q
      by (auto simp: session_step_def step_accounts_def intro: exI [of _ w])
  next
    case live: False
    show ?thesis
    proof (cases "ss_scanner ss")
      case None
      then show ?thesis
        using tok live w2 ok q by (simp add: session_step_def step_accounts_def)
    next
      case (Some sc)
      then have off: "session_scanner_offset ss = boundary_scanner_offset sc"
        by (simp add: session_scanner_offset_def)
      show ?thesis
      proof (cases "boundary_scanner_offset sc = length data")
        case True
        from session_finalize_ok [OF assms(1,2) ok Some True] obtain ss' where
          "session_finalize ss = (Ok (), ss')" "session_ok data base ix0 ss'"
          "ss_scanner ss' = None" "ss_record_count ss \<le> ss_record_count ss'"
          "ss_format ss' = ss_format ss" "ss_snapshot ss' = ss_snapshot ss" by blast
        then show ?thesis
          using tok live w2 Some off True snap size q
          by (auto simp: session_step_def report_def checked_sub_def step_accounts_def Let_def
              session_scanner_offset_def)
      next
        case False
        let ?req = "min (min (length data - boundary_scanner_offset sc) quantum) (length (ss_read_buffer ss))"
        from ok Some False have lt: "boundary_scanner_offset sc < length data"
          by (simp add: session_ok_def)
        have buf: "0 < length (ss_read_buffer ss)" using ok by (simp add: session_ok_def)
        have req: "0 < ?req" "boundary_scanner_offset sc + ?req \<le> length data" using lt buf q by auto
        from stable_source.read_inside [OF src w2(2) lt req] obtain k b w3 where
          rd: "env_read_at env w2 (boundary_scanner_offset sc) ?req = (Inr (k, b), w3)" "0 < k" "k \<le> ?req"
          "length b = ?req" "take k b = take k (drop (boundary_scanner_offset sc) data)" "world_ok w3"
          by blast
        let ?ss2 = "ss\<lparr>ss_read_buffer := b @ drop ?req (ss_read_buffer ss)\<rparr>"
        have ok2: "session_ok data base ix0 ?ss2"
          using rd(2-4) by (intro session_ok_read_buffer [OF ok]) auto
        have buf2: "take k (ss_read_buffer ?ss2) = take k (drop (boundary_scanner_offset sc) data)"
          using rd(3-5) by simp
        have sc2: "ss_scanner ?ss2 = Some sc" using Some by simp
        have le: "boundary_scanner_offset sc + k \<le> length data" using rd(3) req(2) by linarith
        from session_consume_ok [OF assms(1,2) src rd(6) ok2 sc2 rd(2) le buf2, of gen]
        obtain rep ss' w' where c: "session_consume env gen ?ss2 k w3 = (Ok rep, ss', w')" "world_ok w'"
          "session_ok data base ix0 ss'" "step_accounts env world_ok gen ?ss2 rep ss'"
          "processed_bytes rep \<le> k" by blast
        have val: "validate_read_count k ?req = Inr k" using rd(3) by (simp del: min_less_iff_conj)
        have "session_step env quantum gen ss w = session_consume env gen ?ss2 k w3"
          using tok live w2(1) Some off False lt q snap size rd(1,2) val
          by (simp add: session_step_def Let_def checked_sub_def del: validate_read_count_Inr)
        moreover have "step_accounts env world_ok gen ss rep ss'"
          using c(4) Some by (simp add: step_accounts_def session_scanner_offset_def)
        moreover have "processed_bytes rep \<le> quantum" using c(5) rd(3) by linarith
        ultimately show ?thesis using c(1-3) by auto
      qed
    qed
  qed
qed

text \<open>
  C9. Over a source that does not change, with short reads and cancellation at any moment, a step
  never fails and never panics: it processes at most the quantum, its report is exact, and the
  index and count it leaves are those of observing, in order, the starts of the records found so
  far, with a scanner that will report exactly the remaining ones.
\<close>

theorem session_step_correct:
  assumes "row_index_new can_reserve capacity st = Inr ix0" "length data \<le> u64_max"
    and "stable_source env data base world_ok" "world_ok w"
    and "session_ok data base ix0 ss" "0 < quantum"
  shows "\<exists>rep ss' w'. session_step env quantum gen ss w = (Ok rep, ss', w') \<and> world_ok w'
    \<and> session_ok data base ix0 ss' \<and> step_accounts env world_ok gen ss rep ss'
    \<and> processed_bytes rep \<le> quantum"
  by (rule session_step_ok [OF assms])

section \<open>A new session, stepped to the end\<close>

text \<open>The index that a new session starts from.\<close>

definition fresh_index :: "session_config \<Rightarrow> adaptive_index" where
  "fresh_index cfg =
     \<lparr>index_entries = [checkpoint_new 0 0], capacity_limit = cfg_index_capacity cfg,
      stride = cfg_initial_row_stride cfg, cadence_of = CadenceRows,
      last_observed = checkpoint_new 0 0\<rparr>"

lemma session_scanner_new_eq:
  "session_scanner_new fmt = boundary_scanner_new (viewport_format_of fmt) 0"
  by (cases fmt) (simp_all add: session_scanner_new_def csv_new_def line_new_def)

lemma session_new_ok:
  assumes "session_new env fmt cfg w = (Inr ss, w')"
    and src: "stable_source env data base world_ok" and w: "world_ok w"
  shows "row_index_new (\<lambda>_. True) (cfg_index_capacity cfg) (cfg_initial_row_stride cfg)
      = Inr (fresh_index cfg)"
    and "session_ok data base (fresh_index cfg) ss" "world_ok w'" "ss_format ss = fmt"
    and "ss_record_count ss = 0" "session_scanner_offset ss = 0" "ss_scanner ss \<noteq> None"
proof -
  let ?w1 = "snd (env_try_reserve env w (cfg_index_capacity cfg))"
  have w1: "world_ok ?w1" by (rule stable_source.try_reserve_ok [OF src w])
  obtain w2 where w2: "env_fingerprint env ?w1 = (Inr base, w2)" "world_ok w2"
    using stable_source.fingerprint_stable [OF src w1] by blast
  have buf: "cfg_read_buffer_bytes cfg \<noteq> 0" "cfg_cancellation_check_bytes cfg \<noteq> 0"
    using assms(1) by (simp_all add: session_new_def split: if_splits)
  have ix: "row_index_new (\<lambda>n. fst (env_try_reserve env w n)) (cfg_index_capacity cfg)
      (cfg_initial_row_stride cfg) = Inr (fresh_index cfg)"
    using assms(1) buf
    by (simp add: session_new_def split: sum.splits)
      (simp add: row_index_new_def adaptive_new_def fresh_index_def Let_def split: if_splits)
  then show "row_index_new (\<lambda>_. True) (cfg_index_capacity cfg) (cfg_initial_row_stride cfg)
      = Inr (fresh_index cfg)"
    by (auto simp: row_index_new_def adaptive_new_def Let_def split: if_splits)
  obtain w3 where w3: "env_try_reserve env w2 (cfg_read_buffer_bytes cfg) = (True, w3)" and
    ss: "ss = \<lparr>ss_format = fmt, ss_snapshot = base, ss_scanner = Some (session_scanner_new fmt),
       ss_index = fresh_index cfg, ss_record_count = 0, ss_diagnostic = None,
       ss_read_buffer = replicate (cfg_read_buffer_bytes cfg) 0,
       ss_check_bytes = cfg_cancellation_check_bytes cfg, ss_failure = None\<rparr>" "w' = w3"
    using assms(1) buf w2(1) ix
    by (auto simp: session_new_def split: if_splits prod.splits bool.splits)
  have "world_ok w3" using stable_source.try_reserve_ok [OF src w2(2)] w3 by (metis snd_conv)
  with ss show "world_ok w'" by simp
  note new = boundary_scanner_new_laws [of 0 "viewport_format_of fmt"]
  show "session_ok data base (fresh_index cfg) ss"
    using buf by (simp add: session_ok_def ss session_scanner_new_eq new)
  show "ss_format ss = fmt" "ss_record_count ss = 0" "session_scanner_offset ss = 0"
    "ss_scanner ss \<noteq> None"
    by (simp_all add: ss session_scanner_offset_def session_scanner_new_eq new)
qed

text \<open>A client that steps until the session reports completion, at most \<open>fuel\<close> times.\<close>

fun session_run ::
    "nat \<Rightarrow> 'w environment \<Rightarrow> nat \<Rightarrow> cancellation_generation \<Rightarrow> scan_session \<Rightarrow> 'w
     \<Rightarrow> (scan_session \<times> 'w) option" where
  "session_run 0 env quantum gen ss w = None"
| "session_run (Suc fuel) env quantum gen ss w =
     (case session_step env quantum gen ss w of
        (Ok rep, ss', w') \<Rightarrow>
          (case step_status rep of
             StepComplete \<Rightarrow> Some (ss', w')
           | StepProgress \<Rightarrow> session_run fuel env quantum gen ss' w'
           | StepCancelled \<Rightarrow> None)
      | _ \<Rightarrow> None)"

lemma session_run_ok:
  assumes "row_index_new can_reserve capacity st = Inr ix0" "length data \<le> u64_max"
    and q: "quiet_source env data base world_ok gen" and "world_ok w"
    and "session_ok data base ix0 ss" "0 < quantum"
    and "length data < session_scanner_offset ss + fuel"
  shows "\<exists>ss' w'. session_run fuel env quantum gen ss w = Some (ss', w') \<and> world_ok w'
    \<and> session_ok data base ix0 ss' \<and> ss_scanner ss' = None \<and> ss_format ss' = ss_format ss"
  using assms(4-)
proof (induction fuel arbitrary: ss w)
  case 0
  have "fp_size base = length data"
    using stable_source.base_size [OF quiet_source.axioms(1) [OF q]] .
  with 0 show ?case
    by (auto simp: session_ok_def session_scanner_offset_def split: option.splits)
next
  case (Suc fuel)
  from session_step_ok [OF assms(1,2) quiet_source.axioms(1) [OF q] Suc.prems(1-3), of gen]
  obtain rep ss' w' where s: "session_step env quantum gen ss w = (Ok rep, ss', w')" "world_ok w'"
    "session_ok data base ix0 ss'" "step_accounts env world_ok gen ss rep ss'" by blast
  show ?case
  proof (cases "step_status rep")
    case StepCancelled
    with s(4) quiet_source.load_token_quiet [OF q] quiet_source.feed_tokens_quiet [OF q]
    show ?thesis by (auto simp: step_accounts_def)
  next
    case StepComplete
    with s show ?thesis by (auto simp: step_accounts_def)
  next
    case StepProgress
    with s(4) Suc.prems(4) have "length data < session_scanner_offset ss' + fuel"
      and "ss_format ss' = ss_format ss" by (auto simp: step_accounts_def)
    with Suc.IH [OF s(2,3) Suc.prems(3)] s(1) StepProgress show ?thesis by simp
  qed
qed

text \<open>
  C10. A session started over a source that does not change and stepped while nothing cancels it
  completes within one step more than the file has bytes, whatever the quantum and however short
  the reads.  It then has counted exactly the records of the file, carries its diagnostic, and its
  index returns for every row the true boundary of the last row at or before it that is a multiple
  of the stride.
\<close>

theorem session_completes:
  assumes "session_new env fmt cfg w0 = (Inr ss0, w1)" "length data \<le> u64_max"
    and "quiet_source env data base world_ok gen" "world_ok w0" "0 < quantum"
  shows "\<exists>ss w. session_run (Suc (length data)) env quantum gen ss0 w1 = Some (ss, w)
    \<and> ss_scanner ss = None
    \<and> ss_record_count ss = length (session_records fmt data)
    \<and> ss_diagnostic ss = format_diagnostic (viewport_format_of fmt) 0 data
    \<and> (\<forall>row < length (session_records fmt data).
         adaptive_nearest (ss_index ss) row =
           (let k = row div stride (ss_index ss) * stride (ss_index ss)
            in checkpoint_new k (span_start (session_records fmt data ! k))))"
proof -
  let ?rs = "session_records fmt data"
  note src = quiet_source.axioms(1) [OF assms(3)]
  note new = session_new_ok [OF assms(1) src assms(4)]
  have "length data < session_scanner_offset ss0 + Suc (length data)" using new(6) by simp
  from session_run_ok [OF new(1) assms(2,3) new(3,2) assms(5) this] obtain ss w where
    run: "session_run (Suc (length data)) env quantum gen ss0 w1 = Some (ss, w)"
    "session_ok data base (fresh_index cfg) ss" "ss_scanner ss = None" "ss_format ss = fmt"
    using new(4) by auto
  have n: "ss_record_count ss = length ?rs" "ss_diagnostic ss = format_diagnostic (viewport_format_of fmt) 0 data"
    and ix: "observe_rows (fresh_index cfg) 0 (map span_start ?rs) = Some (ss_index ss)"
    using run(2-4) by (auto simp: session_ok_def)
  have "adaptive_nearest (ss_index ss) row =
      (let k = row div stride (ss_index ss) * stride (ss_index ss)
       in checkpoint_new k (span_start (?rs ! k)))" if row: "row < length ?rs" for row
  proof -
    have ne: "?rs \<noteq> []" using row by auto
    have "sorted_wrt (<) (map span_start ?rs)" "map span_start ?rs \<noteq> []" "hd (map span_start ?rs) = 0"
      "length (map span_start ?rs) \<le> u64_max"
      using ne format_records_starts format_records_hd [OF ne] assms(2)
        format_records_length [of "viewport_format_of fmt" 0 data] by (simp_all add: hd_map)
    from observe_rows_dense [OF new(1) this] ix row
    have "adaptive_nearest (ss_index ss) row = checkpoint_new (row div stride (ss_index ss) * stride (ss_index ss))
        (map span_start ?rs ! (row div stride (ss_index ss) * stride (ss_index ss)))" by auto
    moreover have "row div stride (ss_index ss) * stride (ss_index ss) < length ?rs"
      using row by (meson div_times_less_eq_dividend le_less_trans)
    ultimately show ?thesis by (simp add: Let_def)
  qed
  with run(1,3) n show ?thesis by auto
qed


lemma session_completes_witness:
  "\<exists>ss w. session_run (Suc 5) (file_environment 1 [97, 10, 98, 44, 99]) 2 0
      \<lparr>ss_format = Csv, ss_snapshot = file_fingerprint [97, 10, 98, 44, 99],
       ss_scanner = Some (session_scanner_new Csv),
       ss_index = \<lparr>index_entries = [checkpoint_new 0 0], capacity_limit = 2, stride = 1,
         cadence_of = CadenceRows, last_observed = checkpoint_new 0 0\<rparr>,
       ss_record_count = 0, ss_diagnostic = None, ss_read_buffer = [0, 0, 0], ss_check_bytes = 1,
       ss_failure = None\<rparr> token_new = Some (ss, w)
    \<and> ss_scanner ss = None
    \<and> ss_record_count ss = length (session_records Csv [97, 10, 98, 44, 99])"
proof -
  let ?data = "[97, 10, 98, 44, 99] :: bytes"
  let ?cfg = "\<lparr>cfg_index_capacity = 2, cfg_initial_row_stride = 1, cfg_read_buffer_bytes = 3,
     cfg_cancellation_check_bytes = 1\<rparr>"
  have new: "session_new (file_environment 1 ?data) Csv ?cfg token_new =
    (Inr \<lparr>ss_format = Csv, ss_snapshot = file_fingerprint ?data,
       ss_scanner = Some (session_scanner_new Csv),
       ss_index = \<lparr>index_entries = [checkpoint_new 0 0], capacity_limit = 2, stride = 1,
         cadence_of = CadenceRows, last_observed = checkpoint_new 0 0\<rparr>,
       ss_record_count = 0, ss_diagnostic = None, ss_read_buffer = [0, 0, 0], ss_check_bytes = 1,
       ss_failure = None\<rparr>, token_new)"
    by (simp add: session_new_def file_environment_def row_index_new_def adaptive_new_def Let_def
        numeral_3_eq_3)
  have quiet: "quiet_source (file_environment 1 ?data) ?data (file_fingerprint ?data)
      (\<lambda>w. generation w = 0) 0" by (rule quiet_file_environment) simp
  have len: "length ?data = 5" "length ?data \<le> u64_max" by simp_all
  have "generation token_new = 0" "0 < (2 :: nat)" by (simp_all add: token_new_def)
  from session_completes [OF new len(2) quiet this] show ?thesis unfolding len(1) by blast
qed

lemma session_step_correct_witness:
  "\<exists>rep ss'. session_step (file_environment 1 [97, 10, 98]) 2 0
      \<lparr>ss_format = Log, ss_snapshot = file_fingerprint [97, 10, 98],
       ss_scanner = Some (session_scanner_new Log),
       ss_index = \<lparr>index_entries = [checkpoint_new 0 0], capacity_limit = 2, stride = 1,
         cadence_of = CadenceRows, last_observed = checkpoint_new 0 0\<rparr>,
       ss_record_count = 0, ss_diagnostic = None, ss_read_buffer = [0], ss_check_bytes = 1,
       ss_failure = None\<rparr> token_new = (Ok rep, ss', token_new) \<and> processed_bytes rep \<le> 2"
proof -
  let ?data = "[97, 10, 98] :: bytes"
  let ?ix = "\<lparr>index_entries = [checkpoint_new 0 0], capacity_limit = 2, stride = 1,
         cadence_of = CadenceRows, last_observed = checkpoint_new 0 0\<rparr>"
  let ?ss = "\<lparr>ss_format = Log, ss_snapshot = file_fingerprint ?data,
       ss_scanner = Some (session_scanner_new Log), ss_index = ?ix,
       ss_record_count = 0, ss_diagnostic = None, ss_read_buffer = [0], ss_check_bytes = 1,
       ss_failure = None\<rparr>"
  have new: "row_index_new (\<lambda>_. True) 2 1 = Inr ?ix"
    by (simp add: row_index_new_def adaptive_new_def Let_def)
  have src: "stable_source (file_environment 1 ?data) ?data (file_fingerprint ?data) (\<lambda>w. w = token_new)"
  proof
    fix w :: cancellation_token and off n
    assume "w = token_new" "off < length ?data" "0 < n" "off + n \<le> length ?data"
    then show "\<exists>k buf w'. env_read_at (file_environment 1 ?data) w off n = (Inr (k, buf), w')
        \<and> 0 < k \<and> k \<le> n \<and> length buf = n \<and> take k buf = take k (drop off ?data) \<and> w' = token_new"
      by (auto simp: file_environment_def file_read_at_def Let_def)
  qed (auto simp: file_environment_def file_fingerprint_def fingerprint_new_def)
  have ok: "session_ok ?data (file_fingerprint ?data) ?ix ?ss"
    using boundary_scanner_new_laws [of 0 Lines]
    by (simp add: session_ok_def session_scanner_new_eq del: format_records.simps)
  from session_step_correct [OF new _ src refl ok, of 2 0] show ?thesis by auto
qed

section \<open>A source that changes\<close>

lemma ensure_unchanged_cases:
  assumes "session_ensure_unchanged env ss w = (e, ss', w')"
  shows "(e = None \<and> ss' = ss \<and> ss_failure ss = None)
    \<or> (e \<noteq> None \<and> (ss_failure ss \<noteq> None \<and> ss' = ss \<or> (\<exists>f. ss' = ss\<lparr>ss_failure := Some f\<rparr>)))"
  using assms
  by (cases "ss_failure ss")
    (auto simp: session_ensure_unchanged_def Let_def split: prod.splits sum.splits if_splits)

text \<open>
  Where a step may take bytes from.  \<open>same_source\<close>: the fingerprint captured in a world is that of the
  session's snapshot.  \<open>source_fed\<close>: after such a capture a piece was fed to the scanner, with the
  index and the count of the session as its observer.
\<close>

definition same_source :: "'w environment \<Rightarrow> scan_session \<Rightarrow> 'w \<Rightarrow> bool" where
  "same_source env ss w \<longleftrightarrow>
     (case fst (env_fingerprint env w) of
        Inl _ \<Rightarrow> False
      | Inr fp \<Rightarrow> \<not> is_changed (fingerprint_compare (ss_snapshot ss) fp))"



lemma same_source_frame [simp]:
  "same_source env (ss\<lparr>ss_scanner := sc\<rparr>) w = same_source env ss w"
  "same_source env (ss\<lparr>ss_index := ix\<rparr>) w = same_source env ss w"
  "same_source env (ss\<lparr>ss_record_count := n\<rparr>) w = same_source env ss w"
  "same_source env (ss\<lparr>ss_read_buffer := b\<rparr>) w = same_source env ss w"
  by (cases "fst (env_fingerprint env w)"; simp add: same_source_def)+














end
