(* ===== verification/Memory_Budget.thy ===== *)
theory Memory_Budget imports Rust_Base begin

text \<open>
  The managed memory plan and the limits of one viewport operation
  (\<open>crates/leanrows-core/src/budget.rs\<close>).  The sizes the compiler gives a collected span and a
  record preview (\<open>size_of\<close>) are parameters: the language does not fix a layout.
\<close>

datatype budget_error =
    ZeroLimit
  | ZeroReadBuffer
  | ZeroViewportRecords
  | ZeroCancellationInterval
  | PreviewExceedsViewport
  | PlanMismatch
  | ArithmeticOverflow
  | ViewportMetadataExceedsScratch nat nat
  | Exceeded nat nat

record memory_budget =
  mb_limit :: nat
  mb_read_buffers :: nat
  mb_viewport_payload :: nat
  mb_checkpoints :: nat
  mb_scratch :: nat

definition budget_new :: "nat \<Rightarrow> nat \<Rightarrow> nat \<Rightarrow> nat \<Rightarrow> nat \<Rightarrow> budget_error + memory_budget" where
  "budget_new limit_bytes read_buffers_bytes viewport_payload_bytes checkpoint_bytes scratch_bytes =
     (if limit_bytes = 0 then Inl ZeroLimit
      else
        (case Option.bind (Option.bind (checked_add read_buffers_bytes viewport_payload_bytes)
                (\<lambda>value. checked_add value checkpoint_bytes))
                (\<lambda>value. checked_add value scratch_bytes) of
           None \<Rightarrow> Inl ArithmeticOverflow
         | Some committed \<Rightarrow>
             (if committed > limit_bytes then Inl (Exceeded limit_bytes committed)
              else Inr \<lparr>mb_limit = limit_bytes, mb_read_buffers = read_buffers_bytes,
                        mb_viewport_payload = viewport_payload_bytes,
                        mb_checkpoints = checkpoint_bytes, mb_scratch = scratch_bytes\<rparr>)))"

text \<open>\<open>None\<close> is an overflow of the unchecked sum or difference.\<close>

definition committed_bytes :: "memory_budget \<Rightarrow> nat option" where
  "committed_bytes mb =
     Option.bind (checked_add (mb_read_buffers mb) (mb_viewport_payload mb)) (\<lambda>a.
       Option.bind (checked_add a (mb_checkpoints mb)) (\<lambda>b. checked_add b (mb_scratch mb)))"

definition remaining_bytes :: "memory_budget \<Rightarrow> nat option" where
  "remaining_bytes mb = Option.bind (committed_bytes mb) (checked_sub (mb_limit mb))"

definition required_metadata_capacity_bytes :: "nat \<Rightarrow> nat \<Rightarrow> nat \<Rightarrow> nat option" where
  "required_metadata_capacity_bytes span_size preview_size record_count =
     Option.bind (checked_add span_size preview_size) (checked_mul record_count)"

record engine_limits =
  read_buffer_bytes :: nat
  max_viewport_records :: nat
  max_record_preview_bytes :: nat
  max_viewport_payload_bytes :: nat
  cancellation_check_bytes :: nat

definition limits_new ::
    "nat \<Rightarrow> nat \<Rightarrow> nat \<Rightarrow> nat \<Rightarrow> nat \<Rightarrow> nat \<Rightarrow> nat \<Rightarrow> memory_budget \<Rightarrow> budget_error + engine_limits" where
  "limits_new span_size preview_size read_buffer max_records max_preview max_payload check_bytes budget =
     (if read_buffer = 0 then Inl ZeroReadBuffer
      else if max_records = 0 then Inl ZeroViewportRecords
      else
        (case required_metadata_capacity_bytes span_size preview_size max_records of
           None \<Rightarrow> Inl ArithmeticOverflow
         | Some required_metadata \<Rightarrow>
             (if required_metadata > mb_scratch budget
              then Inl (ViewportMetadataExceedsScratch required_metadata (mb_scratch budget))
              else if check_bytes = 0 then Inl ZeroCancellationInterval
              else if max_preview > max_payload then Inl PreviewExceedsViewport
              else if read_buffer > mb_read_buffers budget
                      \<or> max_payload > mb_viewport_payload budget then Inl PlanMismatch
              else Inr \<lparr>read_buffer_bytes = read_buffer, max_viewport_records = max_records,
                        max_record_preview_bytes = max_preview,
                        max_viewport_payload_bytes = max_payload,
                        cancellation_check_bytes = check_bytes\<rparr>)))"

section \<open>An accepted plan fits\<close>

text \<open>
  C8. A plan and limits that are accepted bound what a viewport operation can hold at once: the
  read buffer, the preview payload and both metadata vectors of \<open>max_viewport_records\<close> entries,
  with the checkpoints on top, stay within the budget's limit, and the getters cannot overflow.
\<close>

theorem accepted_limits_fit_budget:
  assumes "budget_new limit rb vp cp scratch = Inr mb"
    and "limits_new span_size preview_size read_buffer max_records max_preview max_payload check mb
           = Inr lim"
  shows "read_buffer_bytes lim + max_viewport_payload_bytes lim
      + max_viewport_records lim * (span_size + preview_size) + mb_checkpoints mb \<le> mb_limit mb
    \<and> max_record_preview_bytes lim \<le> max_viewport_payload_bytes lim
    \<and> 0 < read_buffer_bytes lim \<and> 0 < max_viewport_records lim \<and> 0 < cancellation_check_bytes lim
    \<and> committed_bytes mb = Some (rb + vp + cp + scratch)
    \<and> remaining_bytes mb = Some (limit - (rb + vp + cp + scratch))"
  using assms
  by (auto simp: budget_new_def limits_new_def required_metadata_capacity_bytes_def
      committed_bytes_def remaining_bytes_def checked_add_def checked_mul_def checked_sub_def
      bind_eq_Some_conv split: if_splits option.splits)

lemma accepted_limits_fit_budget_witness:
  "24 * 10 + 56 * 10 \<le> (1984 :: nat) \<and>
   remaining_bytes \<lparr>mb_limit = 1984, mb_read_buffers = 256, mb_viewport_payload = 512,
     mb_checkpoints = 128, mb_scratch = 1024\<rparr> = Some 64"
proof -
  have b: "budget_new 1984 256 512 128 1024 = Inr \<lparr>mb_limit = 1984, mb_read_buffers = 256,
      mb_viewport_payload = 512, mb_checkpoints = 128, mb_scratch = 1024\<rparr>"
    by (simp add: budget_new_def checked_add_def)
  have l: "limits_new 24 56 128 10 32 320 64 \<lparr>mb_limit = 1984, mb_read_buffers = 256,
      mb_viewport_payload = 512, mb_checkpoints = 128, mb_scratch = 1024\<rparr>
    = Inr \<lparr>read_buffer_bytes = 128, max_viewport_records = 10, max_record_preview_bytes = 32,
        max_viewport_payload_bytes = 320, cancellation_check_bytes = 64\<rparr>"
    by (simp add: limits_new_def required_metadata_capacity_bytes_def checked_add_def checked_mul_def)
  from accepted_limits_fit_budget [OF b l] show ?thesis by simp
qed

end
