(* ===== verification/Viewport_Read.thy ===== *)
theory Viewport_Read imports Run_Monad Session_Correct Memory_Budget begin

text \<open>
  Reading the visible rows (\<open>crates/leanrows-core/src/viewport.rs\<close>): start at the nearest
  checkpoint, scan forward in bounded reads, collect the spans of the wanted rows, then read a
  bounded prefix of each.  The fingerprint is compared before and after every read.  The loop over
  reads carries fuel; \<open>Suc\<close> of the source size is enough because every pass that goes on consumes a
  byte, and the theorems show that a run never ends in the panic that stands for running out.
\<close>

datatype viewport_error =
    VpIo io_error
  | VpScan scan_error
  | VpCancelled
  | VpInvalidCheckpoint
  | VpSourceShrank
  | VpSourceChanged source_change nat nat
  | VpRowOverflow
  | VpAddressSpace
  | VpAllocationUnavailable

record record_preview =
  rp_row :: nat
  rp_span :: record_span
  rp_bytes :: bytes
  rp_truncated :: bool

record viewport =
  vp_records :: "record_preview list"
  vp_reached_eof :: bool
  vp_diagnostic :: "csv_diagnostic option"

record span_collector =
  col_next_row :: nat
  col_first_row :: nat
  col_limit :: nat
  col_spans :: "(nat \<times> record_span) list"
  col_row_overflow :: bool

definition collector_accept :: "span_collector emitter" where
  "collector_accept col sp =
     (case checked_add (col_next_row col) 1 of
        None \<Rightarrow> (col\<lparr>col_row_overflow := True\<rparr>, Stop)
      | Some next \<Rightarrow>
          (let row = col_next_row col;
               col1 = col\<lparr>col_next_row := next\<rparr>;
               col2 = (if row \<ge> col_first_row col1
                       then col1\<lparr>col_spans := col_spans col1 @ [(row, sp)]\<rparr> else col1)
           in (col2, if length (col_spans col2) = col_limit col2 then Stop else Continue)))"

definition vp_ensure_unchanged ::
    "'w environment \<Rightarrow> source_fingerprint \<Rightarrow> ('w, viewport_error, unit) run" where
  "vp_ensure_unchanged env baseline =
     and_then (capture env VpIo) (\<lambda>current.
       let change = fingerprint_compare baseline current in
       if is_changed change
       then fail (VpSourceChanged change (fp_size baseline) (fp_size current))
       else give ())"

definition zeroed_buffer :: "'w environment \<Rightarrow> nat \<Rightarrow> ('w, viewport_error, bytes) run" where
  "zeroed_buffer env n =
     and_then (try_reserve env VpAllocationUnavailable n) (\<lambda>_. give (replicate n 0))"

text \<open>One read of the scan loop between two comparisons, and the feed of what it read.\<close>

definition viewport_pass ::
    "'w environment \<Rightarrow> cancellation_generation \<Rightarrow> engine_limits \<Rightarrow> source_fingerprint
     \<Rightarrow> boundary_scanner \<Rightarrow> span_collector
     \<Rightarrow> ('w, viewport_error, boundary_scanner \<times> span_collector \<times> scan_status) run" where
  "viewport_pass env gen lim snapshot sc col =
     and_then (check_live env gen VpCancelled) (\<lambda>_.
       let request = min (fp_size snapshot - boundary_scanner_offset sc) (read_buffer_bytes lim) in
       and_then (vp_ensure_unchanged env snapshot) (\<lambda>_.
       and_then (read_validated env VpIo (boundary_scanner_offset sc) request) (\<lambda>(got, buf).
       if got = 0 then fail VpSourceShrank
       else
         and_then (vp_ensure_unchanged env snapshot) (\<lambda>_.
         and_then (load_feed_tokens env) (\<lambda>tokens.
         case boundary_scanner_feed collector_accept tokens gen (cancellation_check_bytes lim) sc col
                (take got buf) of
           (sc', col', res) \<Rightarrow>
             (case res of
                Panic \<Rightarrow> panic
              | Err e \<Rightarrow> fail (VpScan e)
              | Ok progress \<Rightarrow>
                  (if col_row_overflow col' then fail VpRowOverflow
                   else if scan_status progress = ScanCancelled then fail VpCancelled
                   else give (sc', col', scan_status progress))))))))"

fun viewport_scan ::
    "nat \<Rightarrow> 'w environment \<Rightarrow> cancellation_generation \<Rightarrow> engine_limits \<Rightarrow> source_fingerprint
     \<Rightarrow> boundary_scanner \<Rightarrow> span_collector
     \<Rightarrow> ('w, viewport_error, boundary_scanner \<times> span_collector) run" where
  "viewport_scan fuel env gen lim snapshot sc col =
     (if boundary_scanner_offset sc < fp_size snapshot \<and> length (col_spans col) < col_limit col then
        (case fuel of
           0 \<Rightarrow> panic
         | Suc fuel' \<Rightarrow>
             and_then (viewport_pass env gen lim snapshot sc col) (\<lambda>(sc', col', status).
               if status = ScanStopped then give (sc', col')
               else viewport_scan fuel' env gen lim snapshot sc' col'))
      else give (sc, col))"

declare viewport_scan.simps [simp del]

text \<open>Filling one preview: the buffer has the preview's length, \<open>filled\<close> of it is read.\<close>

function fill_preview ::
    "'w environment \<Rightarrow> cancellation_generation \<Rightarrow> source_fingerprint \<Rightarrow> nat \<Rightarrow> nat \<Rightarrow> nat \<Rightarrow> bytes
     \<Rightarrow> ('w, viewport_error, bytes) run" where
  "fill_preview env gen snapshot start copy_size filled buffer w =
     (if filled < copy_size then
        and_then (check_live env gen VpCancelled) (\<lambda>_.
        and_then (vp_ensure_unchanged env snapshot) (\<lambda>_.
        and_then (read_validated env VpIo (start + filled) (copy_size - filled)) (\<lambda>r.
        if fst r = 0 then fail VpSourceShrank
        else
          and_then (vp_ensure_unchanged env snapshot) (\<lambda>_.
            fill_preview env gen snapshot start copy_size (filled + fst r)
              (take filled buffer @ snd r))))) w
      else give buffer w)"
  by pat_completeness auto
termination
  by (relation "measure (\<lambda>(env, gen, snapshot, start, copy_size, filled, buffer, w). copy_size - filled)")
    (auto dest: read_validated_le)

declare fill_preview.simps [simp del]

fun preview_records ::
    "'w environment \<Rightarrow> cancellation_generation \<Rightarrow> engine_limits \<Rightarrow> source_fingerprint \<Rightarrow> nat
     \<Rightarrow> (nat \<times> record_span) list \<Rightarrow> ('w, viewport_error, record_preview list) run" where
  "preview_records env gen lim snapshot payload_remaining [] = give []"
| "preview_records env gen lim snapshot payload_remaining ((row, sp) # spans) =
     and_then (check_live env gen VpCancelled) (\<lambda>_.
       case span_len sp of
         None \<Rightarrow> panic
       | Some record_size \<Rightarrow>
           (let copy_size = min (min record_size (max_record_preview_bytes lim)) payload_remaining in
            and_then (zeroed_buffer env copy_size) (\<lambda>buffer.
            and_then (fill_preview env gen snapshot (span_start sp) copy_size 0 buffer) (\<lambda>bytes.
            and_then (preview_records env gen lim snapshot (payload_remaining - copy_size) spans)
              (\<lambda>records. give (\<lparr>rp_row = row, rp_span = sp, rp_bytes = bytes,
                                rp_truncated = (copy_size < record_size)\<rparr> # records))))))"

definition materialize_previews ::
    "'w environment \<Rightarrow> cancellation_generation \<Rightarrow> engine_limits \<Rightarrow> source_fingerprint
     \<Rightarrow> (nat \<times> record_span) list \<Rightarrow> ('w, viewport_error, record_preview list) run" where
  "materialize_previews env gen lim snapshot spans =
     and_then (try_reserve env VpAllocationUnavailable (length spans)) (\<lambda>_.
       preview_records env gen lim snapshot (max_viewport_payload_bytes lim) spans)"

definition read_viewport ::
    "'w environment \<Rightarrow> viewport_format \<Rightarrow> ('i \<Rightarrow> nat \<Rightarrow> checkpoint) \<Rightarrow> 'i \<Rightarrow> nat \<Rightarrow> engine_limits
     \<Rightarrow> cancellation_generation \<Rightarrow> ('w, viewport_error, viewport) run" where
  "read_viewport env fmt nearest index first_row lim gen =
     and_then (check_live env gen VpCancelled) (\<lambda>_.
     and_then (capture env VpIo) (\<lambda>snapshot.
     let cp = nearest index first_row in
     if cp_row cp > first_row \<or> cp_offset cp > fp_size snapshot then fail VpInvalidCheckpoint
     else
       and_then (try_reserve env VpAllocationUnavailable (max_viewport_records lim)) (\<lambda>_.
       and_then (zeroed_buffer env (read_buffer_bytes lim)) (\<lambda>_.
       and_then (viewport_scan (Suc (fp_size snapshot)) env gen lim snapshot
                   (boundary_scanner_new fmt (cp_offset cp))
                   \<lparr>col_next_row = cp_row cp, col_first_row = first_row,
                    col_limit = max_viewport_records lim, col_spans = [], col_row_overflow = False\<rparr>)
         (\<lambda>(sc, col).
       let scanned_to_eof = (boundary_scanner_offset sc = fp_size snapshot) in
       and_then
         (if scanned_to_eof \<and> length (col_spans col) < col_limit col then
            (case boundary_scanner_finish collector_accept sc col of
               None \<Rightarrow> panic
             | Some (diagnostic, col') \<Rightarrow>
                 if col_row_overflow col' then fail VpRowOverflow else give (diagnostic, col'))
          else give (None, col)) (\<lambda>(diagnostic, col').
       and_then (materialize_previews env gen lim snapshot (col_spans col')) (\<lambda>records.
       and_then (vp_ensure_unchanged env snapshot) (\<lambda>_.
       give \<lparr>vp_records = records, vp_reached_eof = scanned_to_eof, vp_diagnostic = diagnostic\<rparr>))))))))"

text \<open>\<open>RecordPreview::read_at\<close>: one preview of a record whose span is known.\<close>

function preview_fill_loop ::
    "'w environment \<Rightarrow> cancellation_generation \<Rightarrow> nat \<Rightarrow> nat \<Rightarrow> nat \<Rightarrow> bytes
     \<Rightarrow> ('w, viewport_error, bytes) run" where
  "preview_fill_loop env gen start amount filled buffer w =
     (if filled < amount then
        and_then (check_live env gen VpCancelled) (\<lambda>_.
        and_then (read_validated env VpIo (start + filled) (amount - filled)) (\<lambda>r.
        if fst r = 0 then fail VpSourceShrank
        else preview_fill_loop env gen start amount (filled + fst r) (take filled buffer @ snd r))) w
      else give buffer w)"
  by pat_completeness auto
termination
  by (relation "measure (\<lambda>(env, gen, start, amount, filled, buffer, w). amount - filled)")
    (auto dest: read_validated_le)

declare preview_fill_loop.simps [simp del]

definition preview_read_at ::
    "'w environment \<Rightarrow> nat \<Rightarrow> record_span \<Rightarrow> nat \<Rightarrow> cancellation_generation
     \<Rightarrow> ('w, viewport_error, record_preview) run" where
  "preview_read_at env row sp max_bytes gen =
     and_then (check_live env gen VpCancelled) (\<lambda>_.
     and_then (capture env VpIo) (\<lambda>snapshot.
     if span_end sp > fp_size snapshot then fail VpInvalidCheckpoint
     else
       (case span_len sp of
          None \<Rightarrow> panic
        | Some len \<Rightarrow>
            (let amount = min len max_bytes in
             and_then (zeroed_buffer env amount) (\<lambda>buffer.
             and_then (preview_fill_loop env gen (span_start sp) amount 0 buffer) (\<lambda>bytes.
             and_then (vp_ensure_unchanged env snapshot) (\<lambda>_.
             give \<lparr>rp_row = row, rp_span = sp, rp_bytes = bytes, rp_truncated = (amount < len)\<rparr>)))))))"

end
