(* ===== verification/Viewport_Correct.thy ===== *)
theory Viewport_Correct imports Viewport_Read begin

text \<open>
  A viewport shows the right rows.  The collector is followed through the scan as a function of how
  many records the scanner has reported; the locale \<open>viewport_world\<close> holds the triples of the
  passes, the loops and the whole operation over a source that does not change.
\<close>

section \<open>The collector\<close>

definition rows_of :: "record_span list \<Rightarrow> nat \<Rightarrow> nat \<Rightarrow> (nat \<times> record_span) list" where
  "rows_of rs a b = map (\<lambda>i. (i, rs ! i)) [a..<b]"

definition collected :: "record_span list \<Rightarrow> nat \<Rightarrow> nat \<Rightarrow> nat \<Rightarrow> span_collector" where
  "collected rs first limit m =
     \<lparr>col_next_row = m, col_first_row = first, col_limit = limit, col_spans = rows_of rs first m,
      col_row_overflow = False\<rparr>"

lemma length_rows_of [simp]: "length (rows_of rs a b) = b - a"
  by (simp add: rows_of_def)

lemma rows_of_Suc: "a \<le> b \<Longrightarrow> rows_of rs a (Suc b) = rows_of rs a b @ [(b, rs ! b)]"
  by (simp add: rows_of_def)

lemma rows_of_empty: "b \<le> a \<Longrightarrow> rows_of rs a b = []"
  by (simp add: rows_of_def)

lemma collector_accept_next:
  assumes "m < u64_max"
  shows "collector_accept (collected rs first limit m) (rs ! m) =
    (collected rs first limit (Suc m), if Suc m - first = limit then Stop else Continue)"
  using assms
  by (cases "first \<le> m")
    (simp_all add: collector_accept_def checked_add_def collected_def rows_of_Suc rows_of_empty Suc_diff_le Let_def)

lemma collector_all:
  assumes "emit_all collector_accept (collected rs first limit m) es = Some col"
    and "drop m rs = es @ later" "length rs \<le> u64_max" "m - first < limit"
  shows "col = collected rs first limit (m + length es) \<and> m + length es - first < limit"
  using assms
proof (induction es arbitrary: m)
  case (Cons r es)
  have m: "m < length rs" using Cons.prems(2) by (cases "m < length rs") auto
  then have r: "rs ! m = r" "drop (Suc m) rs = es @ later"
    using Cons.prems(2) by (simp_all add: Cons_nth_drop_Suc [symmetric])
  have "m < u64_max" using m Cons.prems(3) by simp
  note acc = collector_accept_next [OF this, of rs first limit, unfolded r(1)]
  from Cons.prems(1) have "Suc m - first \<noteq> limit"
    and "emit_all collector_accept (collected rs first limit (Suc m)) es = Some col"
    by (auto simp: acc split: if_splits)
  with Cons.IH [OF _ r(2) Cons.prems(3)] Cons.prems(4) show ?case by simp
qed simp

lemma collector_stopped:
  assumes "emit_stopped collector_accept (collected rs first limit m) es col"
    and "drop m rs = es @ later" "length rs \<le> u64_max" "m - first < limit"
  shows "col = collected rs first limit (m + length es) \<and> m + length es - first = limit"
proof -
  from assms(1) obtain us r c where es: "es = us @ [r]"
    and c: "emit_all collector_accept (collected rs first limit m) us = Some c"
    and stop: "collector_accept c r = (col, Stop)" by (auto simp: emit_stopped_def)
  let ?m = "m + length us"
  have d: "drop m rs = us @ (r # later)" using assms(2) es by simp
  from collector_all [OF c d assms(3,4)] have ceq: "c = collected rs first limit ?m" by simp
  have dr: "drop ?m rs = r # later"
    using arg_cong [OF d, of "drop (length us)"] by (simp add: add.commute)
  then have m: "?m < length rs" by (cases "?m < length rs") auto
  with dr have r: "rs ! ?m = r" by (simp add: Cons_nth_drop_Suc [symmetric])
  have "?m < u64_max" using m assms(3) by simp
  from collector_accept_next [OF this, of rs first limit, unfolded r] stop ceq es show ?thesis
    by (auto split: if_splits)
qed

section \<open>The previews of a list of rows\<close>

fun previews_of :: "nat \<Rightarrow> nat \<Rightarrow> bytes \<Rightarrow> (nat \<times> record_span) list \<Rightarrow> record_preview list" where
  "previews_of max_preview remaining data [] = []"
| "previews_of max_preview remaining data ((row, sp) # xs) =
     (let len = span_end sp - span_start sp; n = min (min len max_preview) remaining
      in \<lparr>rp_row = row, rp_span = sp, rp_bytes = take n (drop (span_start sp) data),
          rp_truncated = (n < len)\<rparr> # previews_of max_preview (remaining - n) data xs)"

lemma previews_of_payload:
  "sum_list (map (\<lambda>r. length (rp_bytes r)) (previews_of mp rem data xs)) \<le> rem"
proof (induction xs arbitrary: rem)
  case (Cons x xs)
  obtain row sp where x: "x = (row, sp)" by fastforce
  let ?n = "min (min (span_end sp - span_start sp) mp) rem"
  have "sum_list (map (\<lambda>r. length (rp_bytes r)) (previews_of mp (rem - ?n) data xs)) \<le> rem - ?n"
    by (rule Cons.IH)
  moreover have "length (take ?n (drop (span_start sp) data)) \<le> ?n" "?n \<le> rem"
    by (simp_all only: length_take min.cobounded2)
  ultimately have "length (take ?n (drop (span_start sp) data))
      + sum_list (map (\<lambda>r. length (rp_bytes r)) (previews_of mp (rem - ?n) data xs)) \<le> rem"
    by linarith
  then show ?case unfolding x by (simp add: Let_def)
qed simp

section \<open>Triples of the viewport operations\<close>

locale viewport_world = run_world env data base world_ok gen E VpCancelled VpAllocationUnavailable
  for env :: "'w environment" and data base world_ok gen and E :: "viewport_error \<Rightarrow> bool" +
  fixes fmt :: viewport_format and first :: nat and lim :: engine_limits
  assumes data_small: "length data \<le> u64_max"
    and read_positive: "0 < read_buffer_bytes lim"
    and limit_positive: "0 < max_viewport_records lim"
begin

abbreviation records :: "record_span list" where
  "records \<equiv> format_records fmt 0 data"

definition scanning :: "boundary_scanner \<Rightarrow> span_collector \<Rightarrow> nat \<Rightarrow> bool" where
  "scanning sc col m \<longleftrightarrow>
     scanner_ok sc \<and> boundary_scanner_offset sc \<le> length data
     \<and> col = collected records first (max_viewport_records lim) m
     \<and> scanner_rest sc (drop (boundary_scanner_offset sc) data) = drop m records
     \<and> scanner_diagnostic sc (drop (boundary_scanner_offset sc) data) = format_diagnostic fmt 0 data
     \<and> m \<le> length records \<and> m - first \<le> max_viewport_records lim"

lemma records_small: "length records \<le> u64_max"
  using format_records_length [of fmt 0 data] data_small by linarith

lemma ensure_ok: "run_ok world_ok E (vp_ensure_unchanged env base) (\<lambda>_. True)"
  unfolding vp_ensure_unchanged_def
  by (rule run_ok_and_then [OF capture_ok])
    (simp add: compare_refl is_changed_def run_ok_give)

lemma zeroed_buffer_ok: "run_ok world_ok E (zeroed_buffer env n) (\<lambda>b. length b = n)"
  unfolding zeroed_buffer_def
  by (rule run_ok_and_then [OF try_reserve_run_ok]) (simp add: run_ok_give)

lemma pass_ok:
  assumes sc: "scanning sc col m" and more: "boundary_scanner_offset sc < length data"
    and room: "m - first < max_viewport_records lim"
  shows "run_ok world_ok E (viewport_pass env gen lim base sc col)
    (\<lambda>(sc', col', st). st \<noteq> ScanCancelled \<and> (\<exists>m'. scanning sc' col' m'
       \<and> (st = ScanStopped \<longrightarrow> m' - first = max_viewport_records lim)
       \<and> (st = ScanComplete \<longrightarrow> boundary_scanner_offset sc < boundary_scanner_offset sc'
            \<and> m' - first < max_viewport_records lim)))" (is "run_ok _ _ _ ?Q")
proof -
  let ?off = "boundary_scanner_offset sc" and ?limit = "max_viewport_records lim"
  let ?req = "min (fp_size base - ?off) (read_buffer_bytes lim)"
  have req: "0 < ?req" "?off + ?req \<le> length data"
    using more read_positive base_size by auto
  have feed: "run_ok world_ok E
      (case boundary_scanner_feed collector_accept tokens gen (cancellation_check_bytes lim) sc col
              (take got buf) of
         (sc', col', res) \<Rightarrow>
           (case res of
              Panic \<Rightarrow> panic
            | Err e \<Rightarrow> fail (VpScan e)
            | Ok progress \<Rightarrow>
                (if col_row_overflow col' then fail VpRowOverflow
                 else if scan_status progress = ScanCancelled then fail VpCancelled
                 else give (sc', col', scan_status progress)))) ?Q"
    if got: "0 < got" "got \<le> ?req" "length buf = ?req" "take got buf = take got (drop ?off data)"
      and tokens: "\<forall>n. is_cancelled (tokens n) gen \<longrightarrow> E VpCancelled" for got buf tokens
  proof -
    let ?chunk = "take got buf" and ?tl = "drop got (drop ?off data)"
    obtain sc' col' res where f: "boundary_scanner_feed collector_accept tokens gen
        (cancellation_check_bytes lim) sc col ?chunk = (sc', col', res)" by (metis prod_cases3)
    have len: "length ?chunk = got" using got(2,3) by simp
    have "?off + length ?chunk \<le> u64_max" using len got(2) req(2) data_small by linarith
    from boundary_scanner_feed_spec [OF _ this f] sc obtain k sta es where
      r: "res = Ok \<lparr>consumed = k, scan_status = sta\<rparr>" "k \<le> got" "scanner_ok sc'"
      "boundary_scanner_offset sc' = ?off + k"
      "scanner_rest sc (?chunk @ ?tl) = es @ scanner_rest sc' (drop k ?chunk @ ?tl)"
      "scanner_diagnostic sc (?chunk @ ?tl) = scanner_diagnostic sc' (drop k ?chunk @ ?tl)"
      "sta = ScanComplete \<longrightarrow> k = got"
      "sta \<noteq> ScanStopped \<longrightarrow> emit_all collector_accept col es = Some col'"
      "sta = ScanStopped \<longrightarrow> emit_stopped collector_accept col es col'"
      "sta = ScanCancelled \<longrightarrow> is_cancelled (tokens k) gen"
      unfolding len scanning_def by blast
    have chunk: "?chunk @ ?tl = drop ?off data" unfolding got(4) by (rule append_take_drop_id)
    have rest: "drop k ?chunk @ ?tl = drop (?off + k) data"
      unfolding got(4) drop_take_drop [OF r(2)] by (simp add: add.commute)
    have es: "drop m records = es @ scanner_rest sc' (drop (?off + k) data)"
      using r(5) sc unfolding rest chunk by (simp add: scanning_def)
    have col: "col = collected records first ?limit m" using sc by (simp add: scanning_def)
    note all = collector_all [OF _ es records_small room] and
      stopped = collector_stopped [OF _ es records_small room]
    have "col' = collected records first ?limit (m + length es)
      \<and> (sta = ScanStopped \<longrightarrow> m + length es - first = ?limit)
      \<and> (sta \<noteq> ScanStopped \<longrightarrow> m + length es - first < ?limit)"
      using all stopped r(8,9) unfolding col by (cases "sta = ScanStopped") auto
    moreover have "drop (m + length es) records = scanner_rest sc' (drop (?off + k) data)"
      using arg_cong [OF es, of "drop (length es)"] by (simp add: add.commute)
    moreover have "m \<le> length records" using sc by (simp add: scanning_def)
    then have "m + length es \<le> length records"
      using arg_cong [OF es, of length] by simp
    moreover have "scanner_diagnostic sc' (drop (?off + k) data) = format_diagnostic fmt 0 data"
      using r(6) sc unfolding rest chunk by (simp add: scanning_def)
    moreover have "?off + k \<le> length data" using r(2) got(2) req(2) by linarith
    ultimately have sc': "scanning sc' col' (m + length es)"
      "sta = ScanStopped \<longrightarrow> m + length es - first = ?limit"
      "sta \<noteq> ScanStopped \<longrightarrow> m + length es - first < ?limit" "\<not> col_row_overflow col'"
      using r(3,4) by (auto simp: scanning_def collected_def)
    show ?thesis
      using sc' r(1,4,7,10) tokens got(1)
      by (cases "sta = ScanCancelled") (auto simp: f intro!: run_ok_fail run_ok_give)
  qed
  have tail: "run_ok world_ok E
      (if got = 0 then fail VpSourceShrank
       else
         and_then (vp_ensure_unchanged env base) (\<lambda>_.
         and_then (load_feed_tokens env) (\<lambda>tokens.
         case boundary_scanner_feed collector_accept tokens gen (cancellation_check_bytes lim) sc col
                (take got buf) of
           (sc', col', res) \<Rightarrow>
             (case res of
                Panic \<Rightarrow> panic
              | Err e \<Rightarrow> fail (VpScan e)
              | Ok progress \<Rightarrow>
                  (if col_row_overflow col' then fail VpRowOverflow
                   else if scan_status progress = ScanCancelled then fail VpCancelled
                   else give (sc', col', scan_status progress)))))) ?Q"
    if got: "0 < got" "got \<le> ?req" "length buf = ?req" "take got buf = take got (drop ?off data)"
    for got buf
  proof -
    have "got \<noteq> 0" using got(1) by simp
    then show ?thesis
      unfolding if_not_P [OF \<open>got \<noteq> 0\<close>]
      by (intro run_ok_and_then [OF ensure_ok] run_ok_and_then [OF load_feed_tokens_ok] feed [OF got])
  qed
  show ?thesis
    unfolding viewport_pass_def Let_def
    by (intro run_ok_and_then [OF check_live_ok] run_ok_and_then [OF ensure_ok]
        run_ok_and_then [OF read_validated_ok [OF more req]]) (clarify, erule (3) tail)
qed

lemma scan_ok:
  assumes "scanning sc col m" "length data < fuel + boundary_scanner_offset sc"
  shows "run_ok world_ok E (viewport_scan fuel env gen lim base sc col)
    (\<lambda>(sc', col'). \<exists>m'. scanning sc' col' m' \<and>
       (boundary_scanner_offset sc' = length data \<or> m' - first = max_viewport_records lim))"
  using assms
proof (induction fuel arbitrary: sc col m)
  case 0
  then show ?case by (simp add: scanning_def)
next
  case (Suc fuel)
  have col: "length (col_spans col) = m - first" "col_limit col = max_viewport_records lim"
    using Suc.prems(1) by (simp_all add: scanning_def collected_def)
  show ?case
  proof (cases "boundary_scanner_offset sc < length data \<and> m - first < max_viewport_records lim")
    case False
    with Suc.prems(1) have "boundary_scanner_offset sc = length data
        \<or> m - first = max_viewport_records lim" by (auto simp: scanning_def)
    with False Suc.prems(1) show ?thesis
      by (subst viewport_scan.simps) (auto simp: base_size col intro!: run_ok_give)
  next
    case True
    have eq: "viewport_scan (Suc fuel) env gen lim base sc col =
        and_then (viewport_pass env gen lim base sc col) (\<lambda>(sc', col', status).
           if status = ScanStopped then give (sc', col')
           else viewport_scan fuel env gen lim base sc' col')"
      using True by (subst viewport_scan.simps) (simp add: base_size col)
    show ?thesis
      unfolding eq
    proof (rule run_ok_and_then [OF pass_ok [OF Suc.prems(1)]], simp_all only: True)
      fix r
      assume "case r of (sc', col', st) \<Rightarrow> st \<noteq> ScanCancelled \<and> (\<exists>m'. scanning sc' col' m'
       \<and> (st = ScanStopped \<longrightarrow> m' - first = max_viewport_records lim)
       \<and> (st = ScanComplete \<longrightarrow> boundary_scanner_offset sc < boundary_scanner_offset sc'
            \<and> m' - first < max_viewport_records lim))"
      then obtain sc' col' st m' where r: "r = (sc', col', st)" "st \<noteq> ScanCancelled"
        "scanning sc' col' m'" "st = ScanStopped \<longrightarrow> m' - first = max_viewport_records lim"
        "st = ScanComplete \<longrightarrow> boundary_scanner_offset sc < boundary_scanner_offset sc'" by auto
      show "run_ok world_ok E (case r of (sc', col', status) \<Rightarrow>
           if status = ScanStopped then give (sc', col')
           else viewport_scan fuel env gen lim base sc' col')
         (\<lambda>(sc', col'). \<exists>m'. scanning sc' col' m' \<and>
            (boundary_scanner_offset sc' = length data \<or> m' - first = max_viewport_records lim))"
      proof (cases "st = ScanStopped")
        case True
        with r show ?thesis by (auto intro!: run_ok_give)
      next
        case False
        with r(2) have "st = ScanComplete" by (cases st) auto
        with r(5) Suc.prems(2) have "length data < fuel + boundary_scanner_offset sc'" by simp
        from Suc.IH [OF r(3) this] False show ?thesis by (simp add: r(1))
      qed
    qed
  qed
qed

lemma fill_ok:
  assumes "filled \<le> n" "length buffer = n" "start + n \<le> length data"
    and "take filled buffer = take filled (drop start data)"
  shows "run_ok world_ok E (fill_preview env gen base start n filled buffer)
    (\<lambda>b. b = take n (drop start data))"
  using assms
proof (induction "n - filled" arbitrary: filled buffer rule: less_induct)
  case less
  show ?case
  proof (cases "filled < n")
    case False
    have "length (take n (drop start data)) = n" using less.prems(3) by simp
    with False less.prems have "buffer = take n (drop start data)" by simp
    moreover have "fill_preview env gen base start n filled buffer = give buffer"
      using False by (simp add: fun_eq_iff fill_preview.simps [of env])
    ultimately show ?thesis by (simp add: run_ok_give)
  next
    case True
    have eq: "fill_preview env gen base start n filled buffer =
       and_then (check_live env gen VpCancelled) (\<lambda>_.
        and_then (vp_ensure_unchanged env base) (\<lambda>_.
        and_then (read_validated env VpIo (start + filled) (n - filled)) (\<lambda>r.
        if fst r = 0 then fail VpSourceShrank
        else
          and_then (vp_ensure_unchanged env base) (\<lambda>_.
            fill_preview env gen base start n (filled + fst r) (take filled buffer @ snd r)))))"
      using True by (simp add: fun_eq_iff fill_preview.simps [of env])
    have rd: "start + filled < length data" "0 < n - filled" "start + filled + (n - filled) \<le> length data"
      using True less.prems(3) by simp_all
    have tail: "run_ok world_ok E (fill_preview env gen base start n (filled + k) (take filled buffer @ buf))
        (\<lambda>b. b = take n (drop start data))"
      if k: "0 < k" "k \<le> n - filled" "length buf = n - filled"
        "take k buf = take k (drop (start + filled) data)" for k buf
    proof (rule less.hyps)
      have "take (filled + k) (drop start data) = take filled (drop start data) @ take k (drop (start + filled) data)"
        by (simp add: take_add add.commute)
      moreover have "take (filled + k) (take filled buffer @ buf) = take filled buffer @ take k buf"
        using less.prems(2) True by simp
      ultimately show "take (filled + k) (take filled buffer @ buf) = take (filled + k) (drop start data)"
        by (simp only: less.prems(4) k(4))
    qed (use True k less.prems in auto)
    show ?thesis
      unfolding eq
    proof (intro run_ok_and_then [OF check_live_ok] run_ok_and_then [OF ensure_ok]
        run_ok_and_then [OF read_validated_ok [OF rd]])
      fix r
      assume "case r of (k, buf) \<Rightarrow> 0 < k \<and> k \<le> n - filled \<and> length buf = n - filled
          \<and> take k buf = take k (drop (start + filled) data)"
      then obtain k buf where r: "r = (k, buf)" and k: "0 < k" "k \<le> n - filled" "length buf = n - filled"
        "take k buf = take k (drop (start + filled) data)" by auto
      from k(1) show "run_ok world_ok E (if fst r = 0 then fail VpSourceShrank
        else and_then (vp_ensure_unchanged env base) (\<lambda>_.
            fill_preview env gen base start n (filled + fst r) (take filled buffer @ snd r)))
          (\<lambda>b. b = take n (drop start data))"
        by (auto simp: r intro!: run_ok_and_then [OF ensure_ok] tail [OF k])
    qed
  qed
qed

lemma previews_ok:
  assumes "\<forall>(row, sp) \<in> set spans. span_start sp \<le> span_end sp \<and> span_end sp \<le> length data"
  shows "run_ok world_ok E (preview_records env gen lim base remaining spans)
    (\<lambda>rs. rs = previews_of (max_record_preview_bytes lim) remaining data spans)"
  using assms
proof (induction spans arbitrary: remaining)
  case Nil
  then show ?case by (simp add: run_ok_give)
next
  case (Cons x spans)
  obtain row sp where x: "x = (row, sp)" by fastforce
  with Cons.prems have sp: "span_start sp \<le> span_end sp" "span_end sp \<le> length data" by auto
  have len: "span_len sp = Some (span_end sp - span_start sp)"
    using sp(1) by (simp add: span_len_valid span_valid_def)
  let ?n = "min (min (span_end sp - span_start sp) (max_record_preview_bytes lim)) remaining"
  have "span_start sp + ?n \<le> length data" using sp by linarith
  note fill = fill_ok [OF _ _ this]
  have IH: "run_ok world_ok E (preview_records env gen lim base (remaining - ?n) spans)
      (\<lambda>rs. rs = previews_of (max_record_preview_bytes lim) (remaining - ?n) data spans)"
    using Cons.prems by (intro Cons.IH) simp
  show ?case
    unfolding x preview_records.simps len option.case Let_def
    by (rule run_ok_and_then [OF check_live_ok], rule run_ok_and_then [OF zeroed_buffer_ok],
        rule run_ok_and_then [OF fill], simp, simp, simp, rule run_ok_and_then [OF IH])
      (simp add: run_ok_give Let_def)
qed

text \<open>A checkpoint that a lookup may return: the origin, or the start of a record of the file.\<close>

definition boundary_checkpoint :: "checkpoint \<Rightarrow> bool" where
  "boundary_checkpoint cp \<longleftrightarrow>
     cp = checkpoint_new 0 0
     \<or> (cp_row cp < length records \<and> cp_offset cp = span_start (records ! cp_row cp))"

lemma boundary_checkpoint_restart:
  assumes "boundary_checkpoint cp"
  shows "cp_offset cp \<le> length data"
    and "format_records fmt (cp_offset cp) (drop (cp_offset cp) data) = drop (cp_row cp) records"
    and "format_diagnostic fmt (cp_offset cp) (drop (cp_offset cp) data) = format_diagnostic fmt 0 data"
    and "cp_row cp \<le> length records"
proof -
  have "cp_offset cp \<le> length data
    \<and> format_records fmt (cp_offset cp) (drop (cp_offset cp) data) = drop (cp_row cp) records
    \<and> format_diagnostic fmt (cp_offset cp) (drop (cp_offset cp) data) = format_diagnostic fmt 0 data
    \<and> cp_row cp \<le> length records"
  proof (cases "cp = checkpoint_new 0 0")
    case True
    then show ?thesis by (simp add: checkpoint_new_def)
  next
    case False
    with assms have k: "cp_row cp < length records" "cp_offset cp = span_start (records ! cp_row cp)"
      by (simp_all add: boundary_checkpoint_def)
    have "records ! cp_row cp \<in> set records" using k(1) by simp
    from format_records_valid [OF this] have "cp_offset cp \<le> length data" using k(2) by simp
    with k format_records_restart [OF k(1)] format_diagnostic_restart [OF k(1)] show ?thesis by simp
  qed
  then show "cp_offset cp \<le> length data"
    "format_records fmt (cp_offset cp) (drop (cp_offset cp) data) = drop (cp_row cp) records"
    "format_diagnostic fmt (cp_offset cp) (drop (cp_offset cp) data) = format_diagnostic fmt 0 data"
    "cp_row cp \<le> length records" by simp_all
qed

lemma finish_ok:
  assumes "scanning sc col m" "boundary_scanner_offset sc = length data"
    and "m - first < max_viewport_records lim"
  shows "\<exists>col'. boundary_scanner_finish collector_accept sc col = Some (format_diagnostic fmt 0 data, col')
    \<and> col' = collected records first (max_viewport_records lim) (length records)
    \<and> length records - first \<le> max_viewport_records lim"
proof -
  from assms(1,2) have sc: "scanner_ok sc" "scanner_rest sc [] = drop m records"
    "scanner_diagnostic sc [] = format_diagnostic fmt 0 data" "m \<le> length records"
    and col: "col = collected records first (max_viewport_records lim) m"
    by (simp_all add: scanning_def)
  from boundary_scanner_finish_spec [OF sc(1), of collector_accept col] obtain col' where
    f: "boundary_scanner_finish collector_accept sc col = Some (format_diagnostic fmt 0 data, col')"
    "drop m records = [] \<and> col' = col
     \<or> (\<exists>r. drop m records = [r] \<and> col' = fst (collector_accept col r))"
    unfolding sc(2,3) by blast
  show ?thesis
  proof (cases "drop m records = []")
    case True
    with f sc(4) assms(3) col show ?thesis by simp
  next
    case False
    with f(2) obtain r where r: "drop m records = [r]" "col' = fst (collector_accept col r)" by blast
    have "length (drop m records) = 1" unfolding r(1) by simp
    then have m: "m < length records" "length records = Suc m"
      unfolding length_drop by linarith+
    have "records ! m = r" using r(1) m(1) by (simp add: Cons_nth_drop_Suc [symmetric])
    moreover have "m < u64_max" using m records_small by linarith
    ultimately have "col' = collected records first (max_viewport_records lim) (Suc m)"
      using collector_accept_next [of m records first "max_viewport_records lim"] r(2) col by simp
    with f(1) m assms(3) show ?thesis by auto
  qed
qed

text \<open>What the operation returns: the wanted rows, previewed within the payload.\<close>

definition shown_rows :: "(nat \<times> record_span) list" where
  "shown_rows = rows_of records first (min (first + max_viewport_records lim) (length records))"

definition viewport_right :: "viewport \<Rightarrow> bool" where
  "viewport_right vp \<longleftrightarrow>
     vp_records vp = previews_of (max_record_preview_bytes lim) (max_viewport_payload_bytes lim) data
       shown_rows
     \<and> (length shown_rows < max_viewport_records lim \<longrightarrow> vp_reached_eof vp
          \<and> vp_diagnostic vp = format_diagnostic fmt 0 data)
     \<and> (vp_diagnostic vp = None \<or> vp_diagnostic vp = format_diagnostic fmt 0 data)"

lemma rows_of_shown:
  assumes "m \<le> length records" "m - first = max_viewport_records lim \<or> m = length records
      \<and> length records - first \<le> max_viewport_records lim"
  shows "rows_of records first m = shown_rows"
proof (cases "m \<le> first")
  case True
  with assms limit_positive show ?thesis by (auto simp: shown_rows_def rows_of_empty)
next
  case False
  with assms have "m = min (first + max_viewport_records lim) (length records)" by auto
  then show ?thesis by (simp add: shown_rows_def)
qed

lemma shown_rows_valid:
  "\<forall>(row, sp) \<in> set shown_rows. span_start sp \<le> span_end sp \<and> span_end sp \<le> length data"
proof -
  have "span_start (records ! i) \<le> span_end (records ! i) \<and> span_end (records ! i) \<le> length data"
    if "i < length records" for i
    using format_records_valid [of "records ! i" fmt data] that by simp
  then show ?thesis by (auto simp: shown_rows_def rows_of_def)
qed

lemma materialize_ok:
  "run_ok world_ok E (materialize_previews env gen lim base shown_rows)
    (\<lambda>rs. rs = previews_of (max_record_preview_bytes lim) (max_viewport_payload_bytes lim) data shown_rows)"
  unfolding materialize_previews_def
  by (intro run_ok_and_then [OF try_reserve_run_ok] previews_ok shown_rows_valid)

lemma read_viewport_ok:
  assumes "boundary_checkpoint (nearest index first)" "cp_row (nearest index first) \<le> first"
  shows "run_ok world_ok E (read_viewport env fmt nearest index first lim gen) viewport_right"
proof -
  let ?cp = "nearest index first" and ?limit = "max_viewport_records lim"
  let ?sc = "boundary_scanner_new fmt (cp_offset ?cp)"
  let ?col = "\<lparr>col_next_row = cp_row ?cp, col_first_row = first, col_limit = ?limit,
     col_spans = [], col_row_overflow = False\<rparr>"
  note restart = boundary_checkpoint_restart [OF assms(1)]
  have small: "cp_offset ?cp \<le> u64_max" using restart(1) data_small by simp
  have start: "scanning ?sc ?col (cp_row ?cp)"
    using assms(2) boundary_scanner_new_laws [OF small, of fmt] restart
    by (simp add: scanning_def collected_def rows_of_empty)
  have inside: "\<not> (first < cp_row ?cp \<or> fp_size base < cp_offset ?cp)"
    using assms(2) restart(1) by (simp add: base_size)
  have eof: "run_ok world_ok E
      (if boundary_scanner_offset sc = fp_size base \<and> length (col_spans col) < col_limit col then
            (case boundary_scanner_finish collector_accept sc col of
               None \<Rightarrow> panic
             | Some (diagnostic, col') \<Rightarrow>
                 if col_row_overflow col' then fail VpRowOverflow else give (diagnostic, col'))
          else give (None, col))
      (\<lambda>(diagnostic, col'). col_spans col' = shown_rows
        \<and> (length shown_rows < ?limit \<longrightarrow> boundary_scanner_offset sc = fp_size base
             \<and> diagnostic = format_diagnostic fmt 0 data)
        \<and> (diagnostic = None \<or> diagnostic = format_diagnostic fmt 0 data))"
    if sc: "scanning sc col m" and stop: "boundary_scanner_offset sc = length data \<or> m - first = ?limit"
    for sc col m
  proof (cases "m - first < ?limit")
    case True
    with stop have off: "boundary_scanner_offset sc = length data" by simp
    from finish_ok [OF sc off True] obtain col' where
      f: "boundary_scanner_finish collector_accept sc col = Some (format_diagnostic fmt 0 data, col')"
      "col' = collected records first ?limit (length records)" "length records - first \<le> ?limit" by blast
    have "rows_of records first (length records) = shown_rows"
      using f(3) by (intro rows_of_shown) simp_all
    with True off sc f show ?thesis
      by (auto simp: base_size scanning_def collected_def intro!: run_ok_give)
  next
    case False
    with sc have lim: "m - first = ?limit" "m \<le> length records" by (simp_all add: scanning_def)
    then have "rows_of records first m = shown_rows" by (intro rows_of_shown) simp_all
    moreover from this have "length shown_rows = ?limit" using lim(1) by (metis length_rows_of)
    ultimately show ?thesis
      using False sc by (auto simp: scanning_def collected_def intro!: run_ok_give)
  qed
  have last: "run_ok world_ok E
      (and_then (materialize_previews env gen lim base (col_spans col')) (\<lambda>records.
       and_then (vp_ensure_unchanged env base) (\<lambda>_.
       give \<lparr>vp_records = records, vp_reached_eof = (boundary_scanner_offset sc = fp_size base),
             vp_diagnostic = diagnostic\<rparr>))) viewport_right"
    if "col_spans col' = shown_rows"
      "length shown_rows < ?limit \<longrightarrow> boundary_scanner_offset sc = fp_size base
         \<and> diagnostic = format_diagnostic fmt 0 data"
      "diagnostic = None \<or> diagnostic = format_diagnostic fmt 0 data" for sc diagnostic col'
    unfolding that(1)
    by (rule run_ok_and_then [OF materialize_ok], rule run_ok_and_then [OF ensure_ok])
      (use that in \<open>auto simp: viewport_right_def intro!: run_ok_give\<close>)
  have fuel: "length data < Suc (fp_size base) + boundary_scanner_offset ?sc"
    by (simp add: base_size)
  show ?thesis
    unfolding read_viewport_def Let_def
    apply (rule run_ok_and_then [OF check_live_ok])
    apply (rule run_ok_and_then [OF capture_ok], erule ssubst, unfold if_not_P [OF inside])
    apply (rule run_ok_and_then [OF try_reserve_run_ok])
    apply (rule run_ok_and_then [OF zeroed_buffer_ok])
    apply (rule run_ok_and_then [OF scan_ok [OF start fuel]], clarify)
    apply (rule run_ok_and_then [OF eof], assumption, assumption, clarify)
    apply (rule last, assumption+)
    done
qed

lemma preview_fill_ok:
  assumes "filled \<le> n" "length buffer = n" "start + n \<le> length data"
    and "take filled buffer = take filled (drop start data)"
  shows "run_ok world_ok E (preview_fill_loop env gen start n filled buffer)
    (\<lambda>b. b = take n (drop start data))"
  using assms
proof (induction "n - filled" arbitrary: filled buffer rule: less_induct)
  case less
  show ?case
  proof (cases "filled < n")
    case False
    have "length (take n (drop start data)) = n" using less.prems(3) by simp
    with False less.prems have "buffer = take n (drop start data)" by simp
    moreover have "preview_fill_loop env gen start n filled buffer = give buffer"
      using False by (simp add: fun_eq_iff preview_fill_loop.simps [of env])
    ultimately show ?thesis by (simp add: run_ok_give)
  next
    case True
    have eq: "preview_fill_loop env gen start n filled buffer =
       and_then (check_live env gen VpCancelled) (\<lambda>_.
        and_then (read_validated env VpIo (start + filled) (n - filled)) (\<lambda>r.
        if fst r = 0 then fail VpSourceShrank
        else preview_fill_loop env gen start n (filled + fst r) (take filled buffer @ snd r)))"
      using True by (simp add: fun_eq_iff preview_fill_loop.simps [of env])
    have rd: "start + filled < length data" "0 < n - filled" "start + filled + (n - filled) \<le> length data"
      using True less.prems(3) by simp_all
    show ?thesis
      unfolding eq
    proof (intro run_ok_and_then [OF check_live_ok] run_ok_and_then [OF read_validated_ok [OF rd]])
      fix r
      assume "case r of (k, buf) \<Rightarrow> 0 < k \<and> k \<le> n - filled \<and> length buf = n - filled
          \<and> take k buf = take k (drop (start + filled) data)"
      then obtain k buf where r: "r = (k, buf)" and k: "0 < k" "k \<le> n - filled" "length buf = n - filled"
        "take k buf = take k (drop (start + filled) data)" by auto
      have "take (filled + k) (drop start data) = take filled (drop start data) @ take k (drop (start + filled) data)"
        by (simp add: take_add add.commute)
      moreover have "take (filled + k) (take filled buffer @ buf) = take filled buffer @ take k buf"
        using less.prems(2) True by simp
      ultimately have "take (filled + k) (take filled buffer @ buf) = take (filled + k) (drop start data)"
        by (simp only: less.prems(4) k(4))
      then have "run_ok world_ok E (preview_fill_loop env gen start n (filled + k) (take filled buffer @ buf))
          (\<lambda>b. b = take n (drop start data))"
        using True k less.prems by (intro less.hyps) auto
      with k(1) show "run_ok world_ok E (if fst r = 0 then fail VpSourceShrank
          else preview_fill_loop env gen start n (filled + fst r) (take filled buffer @ snd r))
          (\<lambda>b. b = take n (drop start data))"
        by (simp add: r)
    qed
  qed
qed

lemma preview_read_at_ok:
  assumes "span_start sp \<le> span_end sp" "span_end sp \<le> length data"
  shows "run_ok world_ok E (preview_read_at env row sp max_bytes gen)
    (\<lambda>p. p = \<lparr>rp_row = row, rp_span = sp,
              rp_bytes = take max_bytes (segment data (span_start sp) (span_end sp)),
              rp_truncated = (max_bytes < span_end sp - span_start sp)\<rparr>)"
proof -
  let ?len = "span_end sp - span_start sp"
  have len: "span_len sp = Some ?len"
    using assms(1) by (simp add: span_len_valid span_valid_def)
  have inside: "\<not> fp_size base < span_end sp" using assms(2) by (simp add: base_size)
  have "span_start sp + min ?len max_bytes \<le> length data" using assms by linarith
  note fill = preview_fill_ok [OF _ _ this]
  show ?thesis
    unfolding preview_read_at_def Let_def
    apply (rule run_ok_and_then [OF check_live_ok])
    apply (rule run_ok_and_then [OF capture_ok], erule ssubst, unfold if_not_P [OF inside] len option.case)
    apply (rule run_ok_and_then [OF zeroed_buffer_ok])
    apply (rule run_ok_and_then [OF fill], simp, simp, simp, rule run_ok_and_then [OF ensure_ok])
    apply (rule run_ok_give, simp add: segment_def min.commute)
    apply linarith
    done
qed

end

section \<open>Lookups of a session's index\<close>

lemma adaptive_observe_accepted:
  "adaptive_observe ix c = (Inr u, ix') \<Longrightarrow>
     c = last_observed ix \<or> checkpoint_before (last_observed ix) c"
  by (auto simp: adaptive_observe_def checkpoint_before_def split: if_splits)

fun row_checkpoints :: "nat \<Rightarrow> nat list \<Rightarrow> checkpoint list" where
  "row_checkpoints row [] = []"
| "row_checkpoints row (off # offs) = checkpoint_new row off # row_checkpoints (Suc row) offs"

lemma row_checkpoints_nth:
  "c \<in> set (row_checkpoints row offs) \<Longrightarrow>
     \<exists>i < length offs. c = checkpoint_new (row + i) (offs ! i)"
proof (induction row offs rule: row_checkpoints.induct)
  case (2 row off offs)
  show ?case
  proof (cases "c = checkpoint_new row off")
    case True
    then show ?thesis by (intro exI [of _ 0]) simp
  next
    case False
    with "2.prems" have "c \<in> set (row_checkpoints (Suc row) offs)" by simp
    from "2.IH" [OF this] obtain i where "i < length offs" "c = checkpoint_new (Suc row + i) (offs ! i)"
      by blast
    then show ?thesis by (intro exI [of _ "Suc i"]) simp
  qed
qed simp

lemma observe_rows_kept:
  "index_wf ix \<Longrightarrow> observe_rows ix row offs = Some ix' \<Longrightarrow>
     index_wf ix' \<and> set (index_entries ix') \<subseteq> set (index_entries ix) \<union> set (row_checkpoints row offs)"
proof (induction ix row offs rule: observe_rows.induct)
  case (2 ix row off offs)
  from "2.prems"(2) obtain u ix1 where ob: "adaptive_observe ix (checkpoint_new row off) = (Inr u, ix1)"
    "observe_rows ix1 (Suc row) offs = Some ix'" by (auto split: prod.splits sum.splits)
  from adaptive_lookup.observe_next [OF "2.prems"(1) adaptive_observe_accepted [OF ob(1)]] ob(1)
  have ix1: "index_wf ix1" "set (index_entries ix1) \<subseteq> insert (checkpoint_new row off) (set (index_entries ix))"
    by auto
  have "index_wf ix' \<and> set (index_entries ix') \<subseteq> set (index_entries ix1) \<union> set (row_checkpoints (Suc row) offs)"
    using "2.IH" [OF ob(1) [symmetric] refl ix1(1) ob(2)] .
  with ix1(2) show ?case by auto
qed simp

lemma session_lookup:
  assumes "row_index_new can_reserve capacity st = Inr ix0" "session_ok data base ix0 ss"
  defines "rs \<equiv> session_records (ss_format ss) data"
  shows "cp_row (adaptive_nearest (ss_index ss) row) \<le> row \<and>
    (adaptive_nearest (ss_index ss) row = checkpoint_new 0 0
     \<or> (cp_row (adaptive_nearest (ss_index ss) row) < length rs
        \<and> cp_offset (adaptive_nearest (ss_index ss) row)
            = span_start (rs ! cp_row (adaptive_nearest (ss_index ss) row))))"
proof -
  have wf: "index_wf ix0" "index_entries ix0 = [checkpoint_new 0 0]"
    using assms(1) adaptive_new_wf [of can_reserve capacity st CadenceRows ix0]
    by (auto simp: row_index_new_def adaptive_new_def Let_def split: if_splits)
  from assms(2) have n: "ss_record_count ss \<le> length rs"
    and ob: "observe_rows ix0 0 (map span_start (take (ss_record_count ss) rs)) = Some (ss_index ss)"
    by (simp_all add: session_ok_def rs_def)
  let ?c = "adaptive_nearest (ss_index ss) row"
  note kept = observe_rows_kept [OF wf(1) ob]
  from adaptive_lookup.nearest_kept [of "ss_index ss" row] kept
  have le: "cp_row ?c \<le> row" and mem: "?c = checkpoint_new 0 0
      \<or> ?c \<in> set (row_checkpoints 0 (map span_start (take (ss_record_count ss) rs)))"
    by (auto simp: wf(2))
  from mem show ?thesis
  proof
    assume "?c \<in> set (row_checkpoints 0 (map span_start (take (ss_record_count ss) rs)))"
    from row_checkpoints_nth [OF this] obtain i where "i < ss_record_count ss" "i < length rs"
      "?c = checkpoint_new i (span_start (rs ! i))" using n by auto
    then have "cp_row ?c < length rs \<and> cp_offset ?c = span_start (rs ! cp_row ?c)"
      by (simp add: checkpoint_new_def)
    with le show ?thesis by blast
  qed (use le in blast)
qed

lemma session_viewport:
  assumes "row_index_new can_reserve capacity st = Inr ix0" "session_ok data base ix0 ss"
    and "run_world env data base world_ok gen E VpCancelled VpAllocationUnavailable"
    and "length data \<le> u64_max" "0 < read_buffer_bytes lim" "0 < max_viewport_records lim"
  shows "run_ok world_ok E
    (read_viewport env (viewport_format_of (ss_format ss)) adaptive_nearest (ss_index ss) first_row lim gen)
    (viewport_world.viewport_right data (viewport_format_of (ss_format ss)) first_row lim)"
proof -
  let ?fmt = "viewport_format_of (ss_format ss)"
  have vw: "viewport_world env data base world_ok gen E lim"
    using assms(3-6) by (simp add: viewport_world_def viewport_world_axioms_def)
  note look = session_lookup [OF assms(1,2), of first_row]
  from look have "viewport_world.boundary_checkpoint data ?fmt (adaptive_nearest (ss_index ss) first_row)"
    by (simp add: viewport_world.boundary_checkpoint_def [OF vw])
  with look show ?thesis by (intro viewport_world.read_viewport_ok [OF vw]) simp_all
qed

lemma viewport_right_unfold:
  assumes "viewport_world env data base world_ok gen E lim"
    and "viewport_world.viewport_right data fmt first_row lim vp"
  shows "vp_records vp = previews_of (max_record_preview_bytes lim) (max_viewport_payload_bytes lim) data
        (rows_of (format_records fmt 0 data) first_row
           (min (first_row + max_viewport_records lim) (length (format_records fmt 0 data))))
    \<and> sum_list (map (\<lambda>r. length (rp_bytes r)) (vp_records vp)) \<le> max_viewport_payload_bytes lim
    \<and> (length (format_records fmt 0 data) < first_row + max_viewport_records lim \<longrightarrow> vp_reached_eof vp
         \<and> vp_diagnostic vp = format_diagnostic fmt 0 data)"
  using assms(2) viewport_world.limit_positive [OF assms(1)]
  by (auto simp: viewport_world.viewport_right_def [OF assms(1)]
      viewport_world.shown_rows_def [OF assms(1)] previews_of_payload)

text \<open>
  C12. The rows on screen are the rows of the file.  With the index of a scan session at any moment
  of the scan, and a source that nobody changes, cancels or starves, a viewport read succeeds: it
  shows exactly the records from \<open>first_row\<close> on, at most the limit of them, each with the prefix of
  its bytes that the preview and payload limits leave, and together within the payload; a
  viewport with room left reached the end of the file and carries its diagnostic.
\<close>

theorem viewport_shows_the_rows:
  assumes "row_index_new can_reserve capacity st = Inr ix0" "session_ok data base ix0 ss"
    and "quiet_source env data base world_ok gen" "world_ok w" "length data \<le> u64_max"
    and "0 < read_buffer_bytes lim" "0 < max_viewport_records lim"
  shows "\<exists>vp w'. read_viewport env (viewport_format_of (ss_format ss)) adaptive_nearest (ss_index ss)
        first_row lim gen w = (Ok vp, w')
    \<and> vp_records vp = previews_of (max_record_preview_bytes lim) (max_viewport_payload_bytes lim) data
        (rows_of (session_records (ss_format ss) data) first_row
           (min (first_row + max_viewport_records lim) (length (session_records (ss_format ss) data))))
    \<and> sum_list (map (\<lambda>r. length (rp_bytes r)) (vp_records vp)) \<le> max_viewport_payload_bytes lim
    \<and> (length (session_records (ss_format ss) data) < first_row + max_viewport_records lim \<longrightarrow>
         vp_reached_eof vp
         \<and> vp_diagnostic vp = format_diagnostic (viewport_format_of (ss_format ss)) 0 data)"
proof -
  note world = quiet_run_world [OF assms(3), of VpCancelled VpAllocationUnavailable]
  have vw: "viewport_world env data base world_ok gen (\<lambda>_. False) lim"
    using world assms(5-7) by (simp add: viewport_world_def viewport_world_axioms_def)
  from session_viewport [OF assms(1,2) world assms(5-7), of first_row] assms(4)
  show ?thesis by (cases rule: run_okE) (auto dest: viewport_right_unfold [OF vw])
qed

text \<open>
  C13. Cancellation and refused memory are the only ways out.  Over a source that does not change, a
  viewport read with any short reads, any cancellations and any refused reservation either shows
  the right rows or returns one of these two errors: it never panics, never loops, and never
  shows anything else.
\<close>

theorem viewport_right_or_cancelled:
  assumes "row_index_new can_reserve capacity st = Inr ix0" "session_ok data base ix0 ss"
    and "stable_source env data base world_ok" "world_ok w" "length data \<le> u64_max"
    and "0 < read_buffer_bytes lim" "0 < max_viewport_records lim"
  shows "case fst (read_viewport env (viewport_format_of (ss_format ss)) adaptive_nearest (ss_index ss)
        first_row lim gen w) of
      Ok vp \<Rightarrow> vp_records vp =
        previews_of (max_record_preview_bytes lim) (max_viewport_payload_bytes lim) data
          (rows_of (session_records (ss_format ss) data) first_row
             (min (first_row + max_viewport_records lim) (length (session_records (ss_format ss) data))))
    | Err e \<Rightarrow> e = VpCancelled \<or> e = VpAllocationUnavailable
    | Panic \<Rightarrow> False"
proof -
  note world = stable_run_world [OF assms(3), of gen VpCancelled VpAllocationUnavailable]
  have vw: "viewport_world env data base world_ok gen
      (\<lambda>e. e = VpCancelled \<or> e = VpAllocationUnavailable) lim"
    using world assms(5-7) by (simp add: viewport_world_def viewport_world_axioms_def)
  from session_viewport [OF assms(1,2) world assms(5-7), of first_row] assms(4)
  show ?thesis by (cases rule: run_okE) (auto dest: viewport_right_unfold [OF vw])
qed

text \<open>
  C14. Reading one known record returns the prefix of its bytes up to the limit and says whether
  bytes are missing; a span that ends behind the file is refused.
\<close>

theorem preview_reads_the_record:
  assumes "quiet_source env data base world_ok gen" "world_ok w" "length data \<le> u64_max"
    and "span_start sp \<le> span_end sp"
  shows "fst (preview_read_at env row sp max_bytes gen w) =
    (if span_end sp \<le> length data
     then Ok \<lparr>rp_row = row, rp_span = sp,
              rp_bytes = take max_bytes (segment data (span_start sp) (span_end sp)),
              rp_truncated = (max_bytes < span_end sp - span_start sp)\<rparr>
     else Err VpInvalidCheckpoint)"
proof -
  let ?lim = "\<lparr>read_buffer_bytes = 1, max_viewport_records = 1, max_record_preview_bytes = 0,
     max_viewport_payload_bytes = 0, cancellation_check_bytes = 1\<rparr>"
  note world = quiet_run_world [OF assms(1), of VpCancelled VpAllocationUnavailable]
  have vw: "viewport_world env data base world_ok gen (\<lambda>_. False) ?lim"
    using world assms(3) by (simp add: viewport_world_def viewport_world_axioms_def)
  show ?thesis
  proof (cases "span_end sp \<le> length data")
    case True
    from viewport_world.preview_read_at_ok [OF vw assms(4) True, of row max_bytes] assms(2) True
    show ?thesis by (cases rule: run_okE) auto
  next
    case False
    have "fp_size base = length data"
      by (rule stable_source.base_size [OF quiet_source.axioms(1) [OF assms(1)]])
    moreover from run_world.check_live_ok [OF world] assms(2) obtain w1 where
      w1: "check_live env gen VpCancelled w = (Ok (), w1)" "world_ok w1"
      by (cases rule: run_okE) auto
    moreover from run_world.capture_ok [OF world, of VpIo] w1(2) obtain w2 where
      "capture env VpIo w1 = (Ok base, w2)" by (cases rule: run_okE) auto
    ultimately show ?thesis
      using False by (simp add: preview_read_at_def and_then_def fail_def)
  qed
qed

section \<open>Instances\<close>

text \<open>A small file and the session that has just been opened on it.\<close>

definition sample_data :: bytes where
  "sample_data = [97, 10, 98, 98]"

definition sample_index :: adaptive_index where
  "sample_index = \<lparr>index_entries = [checkpoint_new 0 0], capacity_limit = 2, stride = 1,
     cadence_of = CadenceRows, last_observed = checkpoint_new 0 0\<rparr>"

definition sample_session :: scan_session where
  "sample_session = \<lparr>ss_format = Log, ss_snapshot = file_fingerprint sample_data,
     ss_scanner = Some (session_scanner_new Log), ss_index = sample_index, ss_record_count = 0,
     ss_diagnostic = None, ss_read_buffer = [0], ss_check_bytes = 1, ss_failure = None\<rparr>"

definition sample_limits :: engine_limits where
  "sample_limits = \<lparr>read_buffer_bytes = 2, max_viewport_records = 5, max_record_preview_bytes = 8,
     max_viewport_payload_bytes = 16, cancellation_check_bytes = 1\<rparr>"

lemma sample_index_new: "row_index_new (\<lambda>_. True) 2 1 = Inr sample_index"
  by (simp add: row_index_new_def adaptive_new_def sample_index_def Let_def)

lemma sample_session_ok: "session_ok sample_data (file_fingerprint sample_data) sample_index sample_session"
  using boundary_scanner_new_laws [of 0 Lines]
  by (simp add: session_ok_def sample_session_def session_scanner_new_eq del: format_records.simps)

lemma sample_small: "length sample_data \<le> u64_max" "0 < read_buffer_bytes sample_limits"
  "0 < max_viewport_records sample_limits"
  by (simp_all add: sample_data_def sample_limits_def)

lemma sample_records: "session_records Log sample_data = [mk_span 0 1, mk_span 2 4]"
  by code_simp

lemma viewport_shows_the_rows_witness:
  "\<exists>vp w'. read_viewport (file_environment 1 sample_data) Lines adaptive_nearest sample_index 1
        sample_limits 0 token_new = (Ok vp, w')
    \<and> vp_records vp = [\<lparr>rp_row = 1, rp_span = mk_span 2 4, rp_bytes = [98, 98], rp_truncated = False\<rparr>]
    \<and> vp_reached_eof vp"
proof -
  have quiet: "quiet_source (file_environment 1 sample_data) sample_data (file_fingerprint sample_data)
      (\<lambda>w. generation w = 0) 0" by (rule quiet_file_environment) simp
  have fields: "ss_format sample_session = Log" "ss_index sample_session = sample_index"
    "viewport_format_of Log = Lines" "max_viewport_records sample_limits = 5"
    by (simp_all add: sample_session_def sample_limits_def)
  have rows: "rows_of [mk_span 0 1, mk_span 2 4] 1 (min (1 + 5) (length [mk_span 0 1, mk_span 2 4]))
      = [(1, mk_span 2 4)]" by (simp add: rows_of_def)
  have prev: "previews_of (max_record_preview_bytes sample_limits)
      (max_viewport_payload_bytes sample_limits) sample_data [(1, mk_span 2 4)]
      = [\<lparr>rp_row = 1, rp_span = mk_span 2 4, rp_bytes = [98, 98], rp_truncated = False\<rparr>]"
    by (simp add: sample_limits_def sample_data_def)
  have "generation token_new = 0" by (simp add: token_new_def)
  from viewport_shows_the_rows [OF sample_index_new sample_session_ok quiet this sample_small, of 1,
      unfolded fields sample_records [unfolded fields] rows prev]
  show ?thesis by fastforce
qed

lemma viewport_right_or_cancelled_witness:
  "fst (read_viewport (file_environment 1 sample_data) Lines adaptive_nearest sample_index 0
        sample_limits 7 token_new) \<noteq> Panic"
proof -
  have "stable_source (file_environment 1 sample_data) sample_data (file_fingerprint sample_data) (\<lambda>w. True)"
    by (rule stable_file_environment) simp
  from viewport_right_or_cancelled [OF sample_index_new sample_session_ok this TrueI sample_small,
      where first_row = 0 and gen = 7 and w = token_new]
  show ?thesis by (auto simp: sample_session_def split: outcome.splits)
qed

lemma preview_reads_the_record_witness:
  "fst (preview_read_at (file_environment 1 sample_data) 1 (mk_span 2 4) 1 0 token_new) =
     Ok \<lparr>rp_row = 1, rp_span = mk_span 2 4, rp_bytes = [98], rp_truncated = True\<rparr>"
proof -
  have quiet: "quiet_source (file_environment 1 sample_data) sample_data (file_fingerprint sample_data)
      (\<lambda>w. generation w = 0) 0" by (rule quiet_file_environment) simp
  have "generation token_new = 0" "span_start (mk_span 2 4) \<le> span_end (mk_span 2 4)"
    by (simp_all add: token_new_def)
  from preview_reads_the_record [OF quiet this(1) sample_small(1) this(2), of 1 1]
  show ?thesis by (simp add: sample_data_def segment_def)
qed

end
