(* ===== verification/Scratch_Store.thy ===== *)
theory Scratch_Store imports Formats begin

text \<open>
  The scratch file of a query (\<open>crates/leanrows-core/src/query.rs\<close>): its name, which carries a
  16-byte owner in lower-case hexadecimal, its 48-byte header, and the 24-byte entry of a hit.
  Strings are their bytes.  The operating system's file calls are the record \<open>hit_file\<close>; the
  arithmetic of the store, what it writes where, and what recovery accepts are the source's.
\<close>

record query_hit =
  hit_row :: nat
  hit_span :: record_span

datatype query_error =
    QIo io_error
  | QScan scan_error
  | EmptyNeedle
  | QZeroReadBuffer
  | QZeroCancellationInterval
  | QZeroPageCapacity
  | ZeroWorkBudget
  | ScratchQuotaTooSmall nat nat
  | UnsafeScratchDirectory
  | ScratchNameExhausted
  | ScratchCorrupt
  | QAllocationUnavailable
  | QSourceShrank
  | QSourceGrew nat nat
  | QSourceChanged source_change nat nat
  | QSourceEvidenceUnavailable
  | QRowOverflow
  | QAddressSpace

section \<open>Entries and header\<close>

abbreviation (input) query_scratch_header_bytes :: nat where "query_scratch_header_bytes \<equiv> 48"
abbreviation (input) query_hit_entry_bytes :: nat where "query_hit_entry_bytes \<equiv> 24"

definition encode_hit :: "query_hit \<Rightarrow> bytes" where
  "encode_hit hit =
     le_bytes 8 (hit_row hit) @ le_bytes 8 (span_start (hit_span hit)) @ le_bytes 8 (span_end (hit_span hit))"

definition decode_hit :: "bytes \<Rightarrow> query_error + query_hit" where
  "decode_hit bs =
     (case span_new (le_value (segment bs 8 16)) (le_value (segment bs 16 24)) of
        Inl _ \<Rightarrow> Inl ScratchCorrupt
      | Inr sp \<Rightarrow> Inr \<lparr>hit_row = le_value (segment bs 0 8), hit_span = sp\<rparr>)"

definition ascii :: "string \<Rightarrow> bytes" where
  "ascii s = map of_char s"

definition scratch_header :: "bytes \<Rightarrow> bytes" where
  "scratch_header owner =
     ascii ''LRQHIT01'' @ le_bytes 2 1 @ le_bytes 2 48 @ le_bytes 2 24 @ [0, 0] @ owner @ replicate 16 0"

section \<open>The owner's name\<close>

definition hex_digits :: bytes where
  "hex_digits = ascii ''0123456789abcdef''"

definition encode_owner :: "bytes \<Rightarrow> bytes" where
  "encode_owner owner =
     concat (map (\<lambda>b. [hex_digits ! unat (drop_bit 4 b), hex_digits ! unat (and b 15)]) owner)"

definition scratch_name_prefix :: bytes where
  "scratch_name_prefix = ascii ''leanrows-query-v1-''"

definition scratch_name_suffix :: bytes where
  "scratch_name_suffix = ascii ''.hits''"

definition scratch_file_name :: "bytes \<Rightarrow> bytes" where
  "scratch_file_name owner = scratch_name_prefix @ encode_owner owner @ scratch_name_suffix"

definition strip_prefix :: "bytes \<Rightarrow> bytes \<Rightarrow> bytes option" where
  "strip_prefix p s = (if take (length p) s = p then Some (drop (length p) s) else None)"

definition strip_suffix :: "bytes \<Rightarrow> bytes \<Rightarrow> bytes option" where
  "strip_suffix p s =
     (if length p \<le> length s \<and> drop (length s - length p) s = p
      then Some (take (length s - length p) s) else None)"

definition is_hex_digit :: "u8 \<Rightarrow> bool" where
  "is_hex_digit b \<longleftrightarrow> (48 \<le> b \<and> b \<le> 57) \<or> (97 \<le> b \<and> b \<le> 102)"

text \<open>\<open>from_str_radix\<close> on two digits that are known to be hexadecimal.\<close>

definition hex_value :: "u8 \<Rightarrow> u8" where
  "hex_value b = (if b \<le> 57 then b - 48 else b - 87)"

fun hex_pairs :: "bytes \<Rightarrow> bytes" where
  "hex_pairs (a # b # s) = (hex_value a * 16 + hex_value b) # hex_pairs s"
| "hex_pairs _ = []"

definition parse_owner_from_name :: "bytes \<Rightarrow> bytes option" where
  "parse_owner_from_name name =
     Option.bind (strip_prefix scratch_name_prefix name) (\<lambda>s.
     Option.bind (strip_suffix scratch_name_suffix s) (\<lambda>encoded.
       if length encoded \<noteq> 32 \<or> \<not> list_all is_hex_digit encoded then None
       else Some (hex_pairs encoded)))"

text \<open>\<open>is_recoverable_query_file\<close> once the file is known to be regular, with its contents.\<close>

definition recoverable_contents :: "bytes \<Rightarrow> bytes \<Rightarrow> bool" where
  "recoverable_contents owner contents \<longleftrightarrow>
     query_scratch_header_bytes \<le> length contents
     \<and> take query_scratch_header_bytes contents = scratch_header owner
     \<and> (length contents - query_scratch_header_bytes) mod query_hit_entry_bytes = 0"

section \<open>Round trips\<close>

lemma length_encode_hit [simp]: "length (encode_hit h) = 24"
  by (simp add: encode_hit_def)

lemma length_scratch_header: "length owner = 16 \<Longrightarrow> length (scratch_header owner) = 48"
  by (simp add: scratch_header_def ascii_def)

lemma decode_encode_hit:
  assumes "hit_row h \<le> u64_max" "span_start (hit_span h) \<le> span_end (hit_span h)"
    and "span_end (hit_span h) \<le> u64_max"
  shows "decode_hit (encode_hit h) = Inr h"
proof -
  let ?a = "le_bytes 8 (hit_row h)" and ?b = "le_bytes 8 (span_start (hit_span h))"
  let ?c = "le_bytes 8 (span_end (hit_span h))"
  have seg: "segment (?a @ ?b @ ?c) 0 8 = ?a" "segment (?a @ ?b @ ?c) 8 16 = ?b"
    "segment (?a @ ?b @ ?c) 16 24 = ?c"
    by (simp_all add: segment_def)
  have "hit_row h < 256 ^ 8" "span_start (hit_span h) < 256 ^ 8" "span_end (hit_span h) < 256 ^ 8"
    using assms by simp_all
  then have vals: "le_value ?a = hit_row h" "le_value ?b = span_start (hit_span h)"
    "le_value ?c = span_end (hit_span h)" by (simp_all only: le_value_le_bytes)
  show ?thesis
    using assms(2) by (simp add: decode_hit_def encode_hit_def seg vals del: le_bytes.simps)
qed

lemma encode_decode_hit:
  assumes "length bs = 24" "decode_hit bs = Inr h"
  shows "encode_hit h = bs"
proof -
  have parts: "bs = segment bs 0 8 @ segment bs 8 16 @ segment bs 16 24"
  proof -
    have "segment bs 0 24 = bs" using assms(1) by (simp add: segment_def)
    then show ?thesis
      using segment_split [of 0 8 16 bs] segment_split [of 0 16 24 bs] by simp (metis append.assoc)
  qed
  have len: "length (segment bs 0 8) = 8" "length (segment bs 8 16) = 8" "length (segment bs 16 24) = 8"
    using assms(1) by simp_all
  from assms(2) have "h = \<lparr>hit_row = le_value (segment bs 0 8),
      hit_span = mk_span (le_value (segment bs 8 16)) (le_value (segment bs 16 24))\<rparr>"
    by (auto simp: decode_hit_def span_new_def split: sum.splits if_splits)
  then have "encode_hit h = segment bs 0 8 @ segment bs 8 16 @ segment bs 16 24"
    using le_bytes_le_value [of "segment bs 0 8"] le_bytes_le_value [of "segment bs 8 16"]
      le_bytes_le_value [of "segment bs 16 24"] unfolding len by (simp add: encode_hit_def)
  with parts show ?thesis by simp
qed

lemma nibbles: "(drop_bit 4 b :: u8) * 16 + and b 15 = b"
proof -
  have "and b 15 = take_bit 4 b" by (simp add: take_bit_eq_mask mask_numeral)
  moreover have "drop_bit 4 b * 16 = push_bit 4 (drop_bit 4 b)" by (simp add: push_bit_eq_mult)
  ultimately show ?thesis by (simp only: bits_ident [of 4 b])
qed

lemma nibble_bounds: "unat (drop_bit 4 (b :: u8)) < 16" "unat (and (b :: u8) 15) < 16"
proof -
  have "unat (drop_bit 4 b) = unat b div 16"
    by (simp add: drop_bit_eq_div unat_div_distrib)
  moreover have "unat b < 256" using unsigned_less [of b] by simp
  ultimately show "unat (drop_bit 4 b) < 16" by simp
  have "and b 15 = take_bit 4 b" by (simp add: take_bit_eq_mask mask_numeral)
  then have "unat (and b 15) = take_bit 4 (unat b)" by (simp add: unsigned_take_bit_eq)
  then show "unat (and b 15) < 16" by (simp add: take_bit_eq_mod)
qed

lemma hex_digit_facts:
  assumes "n < 16"
  shows "is_hex_digit (hex_digits ! n) \<and> hex_value (hex_digits ! n) = word_of_nat n"
proof -
  have "\<forall>n \<in> set [0..<16]. is_hex_digit (hex_digits ! n) \<and> hex_value (hex_digits ! n) = word_of_nat n"
    by code_simp
  with assms show ?thesis by simp
qed

lemma hex_pairs_encode: "hex_pairs (encode_owner owner) = owner"
proof (induction owner)
  case (Cons b owner)
  have "hex_value (hex_digits ! unat (drop_bit 4 b)) = drop_bit 4 b"
    "hex_value (hex_digits ! unat (and b 15)) = and b 15"
    using hex_digit_facts [OF nibble_bounds(1)] hex_digit_facts [OF nibble_bounds(2)] by simp_all
  with Cons show ?case by (simp add: encode_owner_def nibbles)
qed (simp add: encode_owner_def)

lemma encode_owner_digits: "list_all is_hex_digit (encode_owner owner)"
  by (induction owner) (simp_all add: encode_owner_def hex_digit_facts [OF nibble_bounds(1)]
      hex_digit_facts [OF nibble_bounds(2)])

lemma length_encode_owner: "length (encode_owner owner) = 2 * length owner"
  by (induction owner) (simp_all add: encode_owner_def)


lemma is_hex_digit_cases:
  assumes "is_hex_digit c"
  shows "\<exists>n < 16. hex_digits ! n = c \<and> unat (hex_value c) = n"
proof -
  have c: "c = word_of_nat (unat c)" by simp
  have "48 \<le> unat c \<and> unat c \<le> 57 \<or> 97 \<le> unat c \<and> unat c \<le> 102"
    using assms by (simp add: is_hex_digit_def word_le_nat_alt)
  then have "unat c \<in> set ([48..<58] @ [97..<103])"
    by (simp only: set_append set_upt Un_iff atLeastLessThan_iff) linarith
  moreover have "\<forall>k \<in> set ([48..<58] @ [97..<103]).
      \<exists>n \<in> set [0..<16]. hex_digits ! n = (word_of_nat k :: u8) \<and> unat (hex_value (word_of_nat k)) = n"
    by code_simp
  ultimately obtain n where "n \<in> set [0..<16]" "hex_digits ! n = word_of_nat (unat c)"
    "unat (hex_value (word_of_nat (unat c))) = n" by blast
  then show ?thesis unfolding c [symmetric] by auto
qed

lemma nibbles_of_pair:
  assumes "unat (x :: u8) < 16" "unat (y :: u8) < 16"
  shows "unat (drop_bit 4 (x * 16 + y)) = unat x" "unat (and (x * 16 + y) 15) = unat y"
proof -
  have v: "unat (x * 16 + y) = unat x * 16 + unat y"
    using assms by (simp add: unat_word_ariths)
  have "unat (drop_bit 4 (x * 16 + y)) = unat (x * 16 + y) div 16"
    by (simp add: drop_bit_eq_div unat_div_distrib)
  then show "unat (drop_bit 4 (x * 16 + y)) = unat x" using assms v by simp
  have "and (x * 16 + y) 15 = take_bit 4 (x * 16 + y)" by (simp add: take_bit_eq_mask mask_numeral)
  then have "unat (and (x * 16 + y) 15) = unat (x * 16 + y) mod 16"
    by (simp add: take_bit_eq_mod unat_mod_distrib)
  then show "unat (and (x * 16 + y) 15) = unat y" using assms v by simp
qed

lemma encode_hex_pairs:
  assumes "list_all is_hex_digit s" "even (length s)"
  shows "encode_owner (hex_pairs s) = s"
  using assms
proof (induction s rule: hex_pairs.induct)
  case (1 a b s)
  have digits: "is_hex_digit a" "is_hex_digit b" using "1.prems"(1) by simp_all
  from is_hex_digit_cases [OF digits(1)] is_hex_digit_cases [OF digits(2)]
  have "hex_digits ! unat (hex_value a) = a" "unat (hex_value a) < 16"
    "hex_digits ! unat (hex_value b) = b" "unat (hex_value b) < 16" by auto
  with 1 show ?case by (simp add: encode_owner_def nibbles_of_pair)
qed (simp_all add: encode_owner_def)

lemma length_hex_pairs: "length (hex_pairs s) = length s div 2"
  by (induction s rule: hex_pairs.induct) auto

lemma strip_prefix_Some: "strip_prefix p s = Some t \<longleftrightarrow> s = p @ t"
  by (auto simp: strip_prefix_def) (metis append_take_drop_id)

lemma strip_suffix_Some: "strip_suffix p s = Some t \<longleftrightarrow> s = t @ p"
  by (auto simp: strip_suffix_def) (metis append_take_drop_id)

text \<open>
  C20. A scratch name is parsed back to the owner it was made from, and nothing else is accepted: the
  names that recovery recognises are exactly the names the store makes for 16-byte owners.
\<close>

theorem owner_names_exact:
  "parse_owner_from_name name = Some owner \<longleftrightarrow> name = scratch_file_name owner \<and> length owner = 16"
proof
  assume "parse_owner_from_name name = Some owner"
  then obtain s e where "strip_prefix scratch_name_prefix name = Some s"
    "strip_suffix scratch_name_suffix s = Some e" and e: "length e = 32" "list_all is_hex_digit e"
    "owner = hex_pairs e" by (auto simp: parse_owner_from_name_def bind_eq_Some_conv split: if_splits)
  then have "name = scratch_name_prefix @ e @ scratch_name_suffix"
    by (simp add: strip_prefix_Some strip_suffix_Some)
  moreover have "encode_owner owner = e" using e by (simp add: encode_hex_pairs)
  ultimately show "name = scratch_file_name owner \<and> length owner = 16"
    using e(1,3) by (simp add: scratch_file_name_def length_hex_pairs)
next
  assume n: "name = scratch_file_name owner \<and> length owner = 16"
  then have "strip_prefix scratch_name_prefix name = Some (encode_owner owner @ scratch_name_suffix)"
    "strip_suffix scratch_name_suffix (encode_owner owner @ scratch_name_suffix) = Some (encode_owner owner)"
    by (simp_all add: scratch_file_name_def strip_prefix_Some strip_suffix_Some)
  with n show "parse_owner_from_name name = Some owner"
    by (simp add: parse_owner_from_name_def length_encode_owner encode_owner_digits hex_pairs_encode)
qed

text \<open>
  C19. A hit entry is 24 bytes and survives the scratch file: decoding an encoded hit gives the hit
  back, and any 24 bytes that decode are the encoding of what they decode to.
\<close>

theorem hit_entry_roundtrip:
  assumes "length bs = 24"
  shows "decode_hit bs = Inr h \<longleftrightarrow> bs = encode_hit h \<and> hit_row h \<le> u64_max
    \<and> span_start (hit_span h) \<le> span_end (hit_span h) \<and> span_end (hit_span h) \<le> u64_max"
proof
  assume d: "decode_hit bs = Inr h"
  have val: "le_value (segment bs i (i + 8)) \<le> u64_max" if "i + 8 \<le> 24" for i
    using le_value_bound [of "segment bs i (i + 8)"] assms that by simp
  have "hit_row h = le_value (segment bs 0 8)" "span_start (hit_span h) \<le> span_end (hit_span h)"
    "span_end (hit_span h) = le_value (segment bs 16 24)"
    using d by (auto simp: decode_hit_def span_new_def split: sum.splits if_splits)
  with encode_decode_hit [OF assms d] val [of 0] val [of 16]
  show "bs = encode_hit h \<and> hit_row h \<le> u64_max
    \<and> span_start (hit_span h) \<le> span_end (hit_span h) \<and> span_end (hit_span h) \<le> u64_max" by simp
qed (auto simp: decode_encode_hit)

lemma hit_entry_roundtrip_witness:
  "decode_hit (encode_hit \<lparr>hit_row = 258, hit_span = mk_span 3 70000\<rparr>)
     = Inr \<lparr>hit_row = 258, hit_span = mk_span 3 70000\<rparr>"
  by (subst hit_entry_roundtrip) simp_all

end
