(* ===== verification/Literal_Search.thy ===== *)
theory Literal_Search imports Rust_Base "HOL-Library.Sublist" begin

text \<open>
  The literal matcher of the query engine (\<open>CompiledLiteral\<close> in
  \<open>crates/leanrows-core/src/query.rs\<close>): the failure table of Knuth, Morris and Pratt, built over the
  needle folded to lower case when the mode asks for it, and the one-byte \<open>advance\<close>.  Both inner
  loops run down the failure table; \<open>retreat\<close> is that loop, with \<open>None\<close> for an index out of range
  or a table it would never leave.  The specification speaks of suffixes only.
\<close>

section \<open>The compiled literal\<close>

datatype match_mode = MatchExact | AsciiCaseInsensitive

definition to_ascii_lowercase :: "u8 \<Rightarrow> u8" where
  "to_ascii_lowercase b = (if 65 \<le> b \<and> b \<le> 90 then b + 32 else b)"

record compiled_literal =
  lit_bytes :: bytes
  lit_failure :: "nat list"
  lit_mode :: match_mode

definition nth_checked :: "'a list \<Rightarrow> nat \<Rightarrow> 'a option" where
  "nth_checked xs i = (if i < length xs then Some (xs ! i) else None)"

partial_function (option) retreat :: "bytes \<Rightarrow> nat list \<Rightarrow> u8 \<Rightarrow> nat \<Rightarrow> nat option" where
  "retreat pat failure c state =
     (case nth_checked pat state of
        None \<Rightarrow> None
      | Some p \<Rightarrow>
          (if state > 0 \<and> p \<noteq> c then
             (case nth_checked failure (state - 1) of
                None \<Rightarrow> None | Some next \<Rightarrow> retreat pat failure c next)
           else Some state))"

text \<open>The body of the construction loop, and the loop from \<open>index\<close> to the end of the needle.\<close>

definition failure_entry :: "bytes \<Rightarrow> nat list \<Rightarrow> nat \<Rightarrow> nat option" where
  "failure_entry pat failure index =
     Option.bind (nth_checked failure (index - 1)) (\<lambda>candidate.
     Option.bind (nth_checked pat index) (\<lambda>c.
     Option.bind (retreat pat failure c candidate) (\<lambda>candidate'.
     Option.bind (nth_checked pat candidate') (\<lambda>p.
       Some (if c = p then candidate' + 1 else candidate')))))"

function failure_loop :: "bytes \<Rightarrow> nat \<Rightarrow> nat list \<Rightarrow> nat list option" where
  "failure_loop pat index failure =
     (if index < length pat then
        (case failure_entry pat failure index of
           None \<Rightarrow> None
         | Some candidate \<Rightarrow> failure_loop pat (index + 1) (failure[index := candidate]))
      else Some failure)"
  by pat_completeness auto
termination
  by (relation "measure (\<lambda>(pat, index, failure). length pat - index)") auto

declare failure_loop.simps [simp del]

definition failure_table :: "bytes \<Rightarrow> nat list option" where
  "failure_table pat = failure_loop pat 1 (replicate (length pat) 0)"

definition literal_advance :: "compiled_literal \<Rightarrow> nat \<Rightarrow> u8 \<Rightarrow> (nat \<times> bool) option" where
  "literal_advance lit state byte =
     (let candidate = (if lit_mode lit = AsciiCaseInsensitive then to_ascii_lowercase byte else byte) in
      Option.bind (retreat (lit_bytes lit) (lit_failure lit) candidate state) (\<lambda>st.
      Option.bind (nth_checked (lit_bytes lit) st) (\<lambda>p.
        (let st' = (if p = candidate then st + 1 else st) in
         if st' = length (lit_bytes lit)
         then Option.bind (nth_checked (lit_failure lit) (st' - 1)) (\<lambda>next. Some (next, True))
         else Some (st', False)))))"

section \<open>Overlaps of the needle with the text\<close>

text \<open>\<open>k\<close> bytes of the needle end the text; the greatest proper such \<open>k\<close> is the matcher's state.\<close>

definition overlap :: "bytes \<Rightarrow> bytes \<Rightarrow> nat \<Rightarrow> bool" where
  "overlap pat ys k \<longleftrightarrow> k < length pat \<and> suffix (take k pat) ys"

definition is_state :: "bytes \<Rightarrow> bytes \<Rightarrow> nat \<Rightarrow> bool" where
  "is_state pat ys s \<longleftrightarrow> overlap pat ys s \<and> (\<forall>k. overlap pat ys k \<longrightarrow> k \<le> s)"

text \<open>The longest proper border of the first \<open>n\<close> bytes of the needle.\<close>

definition is_border :: "bytes \<Rightarrow> nat \<Rightarrow> nat \<Rightarrow> bool" where
  "is_border pat n b \<longleftrightarrow> b < n \<and> suffix (take b pat) (take n pat)
     \<and> (\<forall>k < n. suffix (take k pat) (take n pat) \<longrightarrow> k \<le> b)"

definition borders_below :: "bytes \<Rightarrow> nat list \<Rightarrow> nat \<Rightarrow> bool" where
  "borders_below pat failure n \<longleftrightarrow> length failure = length pat \<and>
     (\<forall>i < n. i < length pat \<longrightarrow> is_border pat (Suc i) (failure ! i))"

lemma suffix_chain: "suffix xs ys \<Longrightarrow> suffix ys zs \<Longrightarrow> suffix xs zs"
  by (auto simp: suffix_def)

lemma suffix_nested:
  "suffix xs zs \<Longrightarrow> suffix ys zs \<Longrightarrow> length xs \<le> length ys \<Longrightarrow> suffix xs ys"
  by (rule suffix_length_suffix)

lemma suffix_snoc_iff: "suffix (xs @ [a]) (ys @ [b]) \<longleftrightarrow> a = b \<and> suffix xs ys"
  by (auto simp: suffix_def)

lemma overlap_0 [simp]: "overlap pat ys 0 \<longleftrightarrow> pat \<noteq> []"
  by (auto simp: overlap_def)

text \<open>Below an overlap \<open>s\<close> the overlaps are the borders of the first \<open>s\<close> bytes.\<close>

lemma overlap_below:
  assumes "overlap pat ys s" "k < s"
  shows "overlap pat ys k \<longleftrightarrow> suffix (take k pat) (take s pat)"
proof
  assume "overlap pat ys k"
  moreover have "suffix (take s pat) ys" "length (take k pat) \<le> length (take s pat)"
    using assms by (simp_all add: overlap_def)
  ultimately show "suffix (take k pat) (take s pat)"
    unfolding overlap_def by (intro suffix_nested [of "take k pat" ys "take s pat"]) simp_all
next
  assume "suffix (take k pat) (take s pat)"
  moreover have "suffix (take s pat) ys" "k < length pat" using assms by (simp_all add: overlap_def)
  ultimately show "overlap pat ys k" unfolding overlap_def using suffix_chain by blast
qed

lemma retreat_spec:
  assumes "borders_below pat failure n" "overlap pat ys s" "s \<le> n"
  shows "\<exists>s'. retreat pat failure c s = Some s' \<and> overlap pat ys s' \<and> s' \<le> s
    \<and> (\<forall>k. overlap pat ys k \<and> k \<le> s \<and> pat ! k = c \<longrightarrow> k \<le> s')
    \<and> (pat ! s' \<noteq> c \<longrightarrow> s' = 0)"
  using assms(2,3)
proof (induction s rule: less_induct)
  case (less s)
  have s: "s < length pat" using less.prems(1) by (simp add: overlap_def)
  show ?case
  proof (cases "s > 0 \<and> pat ! s \<noteq> c")
    case False
    with s less.prems(1) show ?thesis
      by (subst retreat.simps) (auto simp: nth_checked_def)
  next
    case True
    let ?b = "failure ! (s - 1)"
    have len: "length failure = length pat" using assms(1) by (simp add: borders_below_def)
    have "s - 1 < n" "s - 1 < length pat" "Suc (s - 1) = s" using True s less.prems(2) by linarith+
    with assms(1) have b: "is_border pat s ?b" unfolding borders_below_def by metis
    then have lt: "?b < s" by (simp add: is_border_def)
    have ob: "overlap pat ys ?b"
      using overlap_below [OF less.prems(1) lt] b by (simp add: is_border_def)
    have "?b \<le> n" using lt less.prems(2) by simp
    from less.IH [OF lt ob this] obtain s' where
      r: "retreat pat failure c ?b = Some s'" "overlap pat ys s'" "s' \<le> ?b"
      "\<forall>k. overlap pat ys k \<and> k \<le> ?b \<and> pat ! k = c \<longrightarrow> k \<le> s'" "pat ! s' \<noteq> c \<longrightarrow> s' = 0" by blast
    have "k \<le> s'" if k: "overlap pat ys k" "k \<le> s" "pat ! k = c" for k
    proof -
      have "k < s" using k(2,3) True by (cases "k = s") auto
      then have "k \<le> ?b" using overlap_below [OF less.prems(1)] k(1) b by (auto simp: is_border_def)
      with k r(4) show ?thesis by blast
    qed
    moreover have "retreat pat failure c s = retreat pat failure c ?b"
      using True s len \<open>s - 1 < length pat\<close> by (subst retreat.simps) (simp add: nth_checked_def)
    ultimately show ?thesis using r lt by auto
  qed
qed

text \<open>Extending the text by a byte extends exactly the overlaps that the needle continues with it.\<close>

lemma suffix_take_Suc:
  "k < length pat \<Longrightarrow> suffix (take (Suc k) pat) (ys @ [c]) \<longleftrightarrow> pat ! k = c \<and> suffix (take k pat) ys"
  by (simp add: take_Suc_conv_app_nth suffix_snoc_iff)

lemma step_spec:
  assumes "borders_below pat failure n" "is_state pat ys s" "s \<le> n"
  shows "\<exists>st. retreat pat failure c s = Some st \<and> st < length pat \<and>
    (let st' = (if pat ! st = c then st + 1 else st)
     in suffix (take st' pat) (ys @ [c])
        \<and> (\<forall>k \<le> length pat. suffix (take k pat) (ys @ [c]) \<longrightarrow> k \<le> st'))"
proof -
  have ov: "overlap pat ys s" using assms(2) by (simp add: is_state_def)
  from retreat_spec [OF assms(1) ov assms(3), of c] obtain st where
    r: "retreat pat failure c s = Some st" "overlap pat ys st"
    "\<forall>k. overlap pat ys k \<and> k \<le> s \<and> pat ! k = c \<longrightarrow> k \<le> st" "pat ! st \<noteq> c \<longrightarrow> st = 0" by blast
  have st: "st < length pat" using r(2) by (simp add: overlap_def)
  let ?st' = "if pat ! st = c then st + 1 else st"
  have "suffix (take ?st' pat) (ys @ [c])"
    using r(2,4) suffix_take_Suc [OF st, of ys c] by (cases "pat ! st = c") (simp_all add: overlap_def)
  moreover have "k \<le> ?st'" if k: "k \<le> length pat" "suffix (take k pat) (ys @ [c])" for k
  proof (cases k)
    case (Suc j)
    then have "j < length pat" using k(1) by simp
    moreover have "pat ! j = c" "suffix (take j pat) ys"
      using k(2) suffix_take_Suc [OF \<open>j < length pat\<close>, of ys c] unfolding Suc by blast+
    ultimately have j: "j < length pat" "pat ! j = c" "overlap pat ys j"
      by (simp_all add: overlap_def)
    then have "j \<le> s" using assms(2) by (simp add: is_state_def)
    with j r(3) have "j \<le> st" by blast
    moreover have "pat ! st = c"
    proof (rule ccontr)
      assume ne: "pat ! st \<noteq> c"
      with r(4) \<open>j \<le> st\<close> have "j = st" by simp
      with j(2) ne show False by simp
    qed
    ultimately show ?thesis using Suc by simp
  qed simp
  ultimately show ?thesis using r(1) st by (auto simp: Let_def)
qed

section \<open>The failure table\<close>

lemma failure_entry_spec:
  assumes "borders_below pat failure n" "0 < n" "n < length pat"
  shows "\<exists>b. failure_entry pat failure n = Some b \<and> is_border pat (Suc n) b"
proof -
  have len: "length failure = length pat" using assms(1) by (simp add: borders_below_def)
  let ?b = "failure ! (n - 1)" and ?ys = "drop 1 (take n pat)"
  have "n - 1 < n" "n - 1 < length pat" "Suc (n - 1) = n" using assms(2,3) by linarith+
  with assms(1) have b: "is_border pat n ?b" unfolding borders_below_def by metis
  have tail: "suffix (take k pat) ?ys \<longleftrightarrow> suffix (take k pat) (take n pat)" if "k < n" for k
  proof -
    have "length (take k pat) \<le> length ?ys" using that assms(3) by simp
    moreover have "suffix ?ys (take n pat)" by (simp add: suffix_drop)
    ultimately show ?thesis
      by (meson suffix_nested suffix_chain)
  qed
  have small: "k < n" if "suffix (take k pat) ?ys" "k < length pat" for k
    using suffix_length_le [OF that(1)] that(2) assms(2,3) by simp
  have "?b < n" using b by (simp add: is_border_def)
  then have "overlap pat ?ys ?b"
    using b tail [of ?b] assms(3) by (simp add: overlap_def is_border_def)
  moreover have "k \<le> ?b" if "overlap pat ?ys k" for k
    using that b small [of k] tail [of k] by (simp add: overlap_def is_border_def)
  ultimately have st: "is_state pat ?ys ?b" unfolding is_state_def by blast
  have le: "?b \<le> n" using b by (simp add: is_border_def)
  from step_spec [OF assms(1) st le, of "pat ! n"] obtain r where
    r: "retreat pat failure (pat ! n) ?b = Some r" "r < length pat"
    "suffix (take (if pat ! r = pat ! n then r + 1 else r) pat) (?ys @ [pat ! n])"
    "\<forall>k \<le> length pat. suffix (take k pat) (?ys @ [pat ! n])
       \<longrightarrow> k \<le> (if pat ! r = pat ! n then r + 1 else r)" by (auto simp: Let_def)
  let ?e = "if pat ! r = pat ! n then r + 1 else r"
  have ys: "?ys @ [pat ! n] = drop 1 (take (Suc n) pat)"
    using assms(2,3) by (simp add: take_Suc_conv_app_nth)
  have e: "failure_entry pat failure n = Some ?e"
    using r(1,2) assms(2,3) len by (auto simp: failure_entry_def nth_checked_def)
  have el: "?e < Suc n"
    using suffix_length_le [OF r(3)] r(2) assms(2,3) unfolding ys by (auto split: if_splits)
  have "suffix (take ?e pat) (take (Suc n) pat)"
    using r(3) unfolding ys by (meson suffix_drop suffix_chain)
  moreover have "k \<le> ?e" if k: "k < Suc n" "suffix (take k pat) (take (Suc n) pat)" for k
  proof -
    have "suffix (take k pat) (drop 1 (take (Suc n) pat))"
      using k assms(3) by (intro suffix_nested [OF k(2)]) (auto simp: suffix_drop)
    with r(4) k(1) assms(3) show ?thesis unfolding ys by simp
  qed
  ultimately show ?thesis using e el by (auto simp: is_border_def)
qed

lemma failure_loop_spec:
  assumes "borders_below pat failure n" "0 < n" "n \<le> length pat"
  shows "\<exists>t. failure_loop pat n failure = Some t \<and> borders_below pat t (length pat)"
  using assms
proof (induction "length pat - n" arbitrary: n failure)
  case 0
  then show ?case by (subst failure_loop.simps) simp
next
  case (Suc m)
  then have n: "n < length pat" by simp
  from failure_entry_spec [OF Suc.prems(1,2) n] obtain b where
    b: "failure_entry pat failure n = Some b" "is_border pat (Suc n) b" by blast
  have "borders_below pat (failure[n := b]) (Suc n)"
    using Suc.prems(1) b(2) n by (auto simp: borders_below_def nth_list_update less_Suc_eq)
  with Suc.hyps(1) [of "Suc n" "failure[n := b]"] Suc.hyps(2) n b(1) show ?case
    by (subst failure_loop.simps) simp
qed

lemma failure_table_spec:
  assumes "pat \<noteq> []"
  shows "\<exists>t. failure_table pat = Some t \<and> borders_below pat t (length pat)"
proof -
  have "borders_below pat (replicate (length pat) 0) 1"
    using assms by (auto simp: borders_below_def is_border_def)
  moreover have "1 \<le> length pat" using assms by (cases pat) auto
  ultimately show ?thesis unfolding failure_table_def by (intro failure_loop_spec) simp_all
qed

section \<open>The matcher\<close>

definition fold_byte :: "match_mode \<Rightarrow> u8 \<Rightarrow> u8" where
  "fold_byte mode b = (if mode = AsciiCaseInsensitive then to_ascii_lowercase b else b)"

definition compile_literal :: "bytes \<Rightarrow> match_mode \<Rightarrow> compiled_literal option" where
  "compile_literal needle mode =
     (let bytes = map (fold_byte mode) needle in
      map_option (\<lambda>t. \<lparr>lit_bytes = bytes, lit_failure = t, lit_mode = mode\<rparr>) (failure_table bytes))"

definition literal_ok :: "compiled_literal \<Rightarrow> bool" where
  "literal_ok lit \<longleftrightarrow> lit_bytes lit \<noteq> []
     \<and> borders_below (lit_bytes lit) (lit_failure lit) (length (lit_bytes lit))"

definition folded :: "compiled_literal \<Rightarrow> bytes \<Rightarrow> bytes" where
  "folded lit bs = map (fold_byte (lit_mode lit)) bs"

lemma compile_literal_spec:
  "needle \<noteq> [] \<Longrightarrow> \<exists>lit. compile_literal needle mode = Some lit \<and> literal_ok lit
     \<and> lit_mode lit = mode \<and> lit_bytes lit = map (fold_byte mode) needle"
  using failure_table_spec [of "map (fold_byte mode) needle"]
  by (auto simp: compile_literal_def literal_ok_def Let_def)

lemma folded_snoc: "folded lit (bs @ [b]) = folded lit bs @ [fold_byte (lit_mode lit) b]"
  by (simp add: folded_def)

lemma literal_start: "literal_ok lit \<Longrightarrow> is_state (lit_bytes lit) [] 0"
  by (auto simp: is_state_def literal_ok_def overlap_def)

text \<open>One byte: the state follows the text, and a match is reported when the needle ends it.\<close>

lemma literal_advance_spec:
  assumes "literal_ok lit" "is_state (lit_bytes lit) (folded lit bs) s"
  shows "\<exists>s'. literal_advance lit s b =
      Some (s', suffix (lit_bytes lit) (folded lit (bs @ [b])))
    \<and> is_state (lit_bytes lit) (folded lit (bs @ [b])) s'"
proof -
  let ?pat = "lit_bytes lit" and ?ys = "folded lit bs" and ?c = "fold_byte (lit_mode lit) b"
  from assms(1) have ne: "?pat \<noteq> []" and bb: "borders_below ?pat (lit_failure lit) (length ?pat)"
    and len: "length (lit_failure lit) = length ?pat"
    by (simp_all add: literal_ok_def borders_below_def)
  have "s \<le> length ?pat" using assms(2) by (simp add: is_state_def overlap_def)
  from step_spec [OF bb assms(2) this, of ?c] obtain st where
    r: "retreat ?pat (lit_failure lit) ?c s = Some st" "st < length ?pat"
    and st': "suffix (take (if ?pat ! st = ?c then st + 1 else st) ?pat) (?ys @ [?c])"
    "\<forall>k \<le> length ?pat. suffix (take k ?pat) (?ys @ [?c]) \<longrightarrow> k \<le> (if ?pat ! st = ?c then st + 1 else st)"
    by (auto simp: Let_def)
  let ?s = "if ?pat ! st = ?c then st + 1 else st"
  have adv: "literal_advance lit s b =
      (if ?s = length ?pat then Some (lit_failure lit ! (?s - 1), True) else Some (?s, False))"
    using r ne len by (simp add: literal_advance_def fold_byte_def nth_checked_def Let_def split: if_splits)
  show ?thesis
  proof (cases "?s = length ?pat")
    case True
    let ?f = "lit_failure lit ! (length ?pat - 1)"
    have full: "suffix ?pat (?ys @ [?c])" using st'(1) True by (simp split: if_splits)
    have "length ?pat - 1 < length ?pat" "Suc (length ?pat - 1) = length ?pat"
      using ne by simp_all
    with bb have b: "is_border ?pat (length ?pat) ?f" unfolding borders_below_def by metis
    have fb: "?f < length ?pat" "suffix (take ?f ?pat) ?pat" using b by (simp_all add: is_border_def)
    have "overlap ?pat (?ys @ [?c]) ?f"
      using fb(1) suffix_chain [OF fb(2) full] by (simp add: overlap_def)
    moreover have "k \<le> ?f" if "overlap ?pat (?ys @ [?c]) k" for k
      using that b full suffix_nested [of "take k ?pat" "?ys @ [?c]" ?pat]
      by (simp add: overlap_def is_border_def)
    ultimately have "is_state ?pat (?ys @ [?c]) ?f" unfolding is_state_def by blast
    moreover have "literal_advance lit s b = Some (?f, True)" using adv True by simp
    ultimately show ?thesis using full by (simp add: folded_snoc)
  next
    case False
    obtain s2 where s2: "?s = s2" by blast
    have "s2 < length ?pat" using r(2) False unfolding s2 [symmetric] by (simp split: if_splits)
    moreover have "\<not> suffix ?pat (?ys @ [?c])"
    proof
      assume "suffix ?pat (?ys @ [?c])"
      then have "suffix (take (length ?pat) ?pat) (?ys @ [?c])" by simp
      with st'(2) have "length ?pat \<le> s2" unfolding s2 by blast
      with \<open>s2 < length ?pat\<close> show False by linarith
    qed
    moreover have "is_state ?pat (?ys @ [?c]) s2"
      using st' \<open>s2 < length ?pat\<close> 
      unfolding s2 is_state_def overlap_def by (blast intro: less_imp_le)
    moreover have "literal_advance lit s b = Some (s2, False)" using adv False unfolding s2 by simp
    ultimately show ?thesis by (simp add: folded_snoc)
  qed
qed

text \<open>Running the matcher over some bytes: the state, and where matches end, counted from 0.\<close>

fun literal_scan :: "compiled_literal \<Rightarrow> nat \<Rightarrow> nat \<Rightarrow> bytes \<Rightarrow> (nat \<times> nat list) option" where
  "literal_scan lit s pos [] = Some (s, [])"
| "literal_scan lit s pos (b # bs) =
     (case literal_advance lit s b of
        None \<Rightarrow> None
      | Some (s', matched) \<Rightarrow>
          map_option (\<lambda>(s'', ends). (s'', if matched then Suc pos # ends else ends))
            (literal_scan lit s' (Suc pos) bs))"

definition occurrence_ends :: "compiled_literal \<Rightarrow> bytes \<Rightarrow> nat \<Rightarrow> nat \<Rightarrow> nat list" where
  "occurrence_ends lit bs i j =
     filter (\<lambda>e. suffix (lit_bytes lit) (folded lit (take e bs))) [Suc i..<Suc j]"

lemma literal_scan_spec:
  assumes "literal_ok lit" "is_state (lit_bytes lit) (folded lit pre) s"
  shows "\<exists>s'. literal_scan lit s (length pre) bs
      = Some (s', occurrence_ends lit (pre @ bs) (length pre) (length pre + length bs))
    \<and> is_state (lit_bytes lit) (folded lit (pre @ bs)) s'"
  using assms(2)
proof (induction bs arbitrary: pre s)
  case Nil
  then show ?case by (simp add: occurrence_ends_def)
next
  case (Cons b bs)
  from literal_advance_spec [OF assms(1) Cons.prems, of b] obtain s1 where
    adv: "literal_advance lit s b = Some (s1, suffix (lit_bytes lit) (folded lit (pre @ [b])))"
    "is_state (lit_bytes lit) (folded lit (pre @ [b])) s1" by blast
  from Cons.IH [OF adv(2)] obtain s' where
    r: "literal_scan lit s1 (Suc (length pre)) bs = Some (s', occurrence_ends lit (pre @ b # bs)
          (Suc (length pre)) (Suc (length pre + length bs)))"
    "is_state (lit_bytes lit) (folded lit (pre @ b # bs)) s'" by auto
  have "[Suc (length pre)..<Suc (Suc (length pre + length bs))]
      = Suc (length pre) # [Suc (Suc (length pre))..<Suc (Suc (length pre + length bs))]"
    by (rule upt_conv_Cons) simp
  then have "occurrence_ends lit (pre @ b # bs) (length pre) (Suc (length pre + length bs)) =
      (if suffix (lit_bytes lit) (folded lit (pre @ [b])) then [Suc (length pre)] else [])
      @ occurrence_ends lit (pre @ b # bs) (Suc (length pre)) (Suc (length pre + length bs))"
    by (simp add: occurrence_ends_def del: upt_Suc)
  with adv(1) r show ?case by simp
qed

text \<open>
  C15. The matcher is exact.  A non-empty needle always compiles, and run from the start of a record
  over its bytes the matcher reports a match at exactly the positions where the needle, folded
  when the mode asks for it, ends: overlapping occurrences included, none invented, none missed.
\<close>

theorem literal_finds_every_occurrence:
  assumes "needle \<noteq> []"
  shows "\<exists>lit s. compile_literal needle mode = Some lit \<and>
    literal_scan lit 0 0 bs = Some (s, filter (\<lambda>e.
      suffix (map (fold_byte mode) needle) (map (fold_byte mode) (take e bs))) [1..<Suc (length bs)])"
proof -
  from compile_literal_spec [OF assms, of mode] obtain lit where
    lit: "compile_literal needle mode = Some lit" "literal_ok lit" "lit_mode lit = mode"
    "lit_bytes lit = map (fold_byte mode) needle" by blast
  have "is_state (lit_bytes lit) (folded lit []) 0"
    using literal_start [OF lit(2)] by (simp add: folded_def)
  from literal_scan_spec [OF lit(2) this, of bs] lit show ?thesis
    by (auto simp: occurrence_ends_def folded_def)
qed

lemma literal_finds_every_occurrence_witness:
  "\<exists>lit s. compile_literal [65, 98, 65] AsciiCaseInsensitive = Some lit \<and>
     literal_scan lit 0 0 [97, 98, 97, 66, 65, 98] = Some (s, [3, 5])"
proof -
  have "filter (\<lambda>e. suffix (map (fold_byte AsciiCaseInsensitive) [65, 98, 65])
      (map (fold_byte AsciiCaseInsensitive) (take e [97, 98, 97, 66, 65, 98])))
        [1..<Suc (length [97, 98, 97, 66, 65, 98 :: u8])] = [3, 5]" by code_simp
  with literal_finds_every_occurrence [of "[65, 98, 65]" AsciiCaseInsensitive "[97, 98, 97, 66, 65, 98]"]
  show ?thesis by simp
qed

end
