(* ===== verification/Query_Session.thy ===== *)
theory Query_Session imports Scratch_Store Literal_Search Run_Monad begin

text \<open>
  The literal query session (\<open>crates/leanrows-core/src/query.rs\<close>): it finds records with the scanners
  of \<open>scan.rs\<close>, runs the matcher over each record's bytes, and appends the hits to a scratch file of
  bounded size.  Work is done in bounded steps that can be cancelled and resumed anywhere.  An
  operation is a \<open>run\<close> on the pair of the session and the world, so that the session keeps what an
  operation changed before an error.
\<close>

record query_config =
  qc_format :: viewport_format
  qc_read_buffer_bytes :: nat
  qc_cancellation_check_bytes :: nat
  qc_page_capacity :: nat
  qc_scratch_quota_bytes :: nat

definition query_config_new ::
    "viewport_format \<Rightarrow> nat \<Rightarrow> nat \<Rightarrow> nat \<Rightarrow> nat \<Rightarrow> query_error + query_config" where
  "query_config_new fmt read_buffer check_bytes page_capacity quota =
     (if read_buffer = 0 then Inl QZeroReadBuffer
      else if check_bytes = 0 then Inl QZeroCancellationInterval
      else if page_capacity = 0 then Inl QZeroPageCapacity
      else if quota < query_scratch_header_bytes
           then Inl (ScratchQuotaTooSmall quota query_scratch_header_bytes)
      else Inr \<lparr>qc_format = fmt, qc_read_buffer_bytes = read_buffer,
                qc_cancellation_check_bytes = check_bytes, qc_page_capacity = page_capacity,
                qc_scratch_quota_bytes = quota\<rparr>)"

record quota_exceeded =
  qe_quota_bytes :: nat
  qe_used_bytes :: nat
  qe_required_bytes :: nat
  qe_stored_hits :: nat
  qe_rejected_hit :: query_hit

datatype query_status =
    QRunning
  | QCancelled
  | QComplete
  | QQuotaExceeded quota_exceeded

datatype query_source_failure =
    QFailureChanged source_change nat
  | QFailureEvidenceUnavailable
  | QFailureShortRead

record pending_record =
  pr_row :: nat
  pr_span :: record_span
  pr_cursor :: nat
  pr_matcher_state :: nat

record hit_page =
  pg_capacity :: nat
  pg_first_hit :: nat
  pg_hits :: "query_hit list"

record scratch_store =
  sc_owner :: bytes
  sc_quota_bytes :: nat
  sc_used_bytes :: nat
  sc_entries :: nat

record query_session =
  qs_snapshot :: source_fingerprint
  qs_failure :: "query_source_failure option"
  qs_scanner :: "boundary_scanner option"
  qs_literal :: compiled_literal
  qs_config :: query_config
  qs_buffer :: bytes
  qs_pending :: "pending_record option"
  qs_scratch :: scratch_store
  qs_page :: hit_page
  qs_next_row :: nat
  qs_examined_records :: nat
  qs_diagnostic :: "csv_diagnostic option"
  qs_status :: query_status

text \<open>Seek-and-write-all and seek-and-read-exact on the scratch file.\<close>

record 'w hit_file =
  hf_write :: "'w \<Rightarrow> nat \<Rightarrow> bytes \<Rightarrow> io_error option \<times> 'w"
  hf_read :: "'w \<Rightarrow> nat \<Rightarrow> nat \<Rightarrow> (io_error + bytes) \<times> 'w"

type_synonym ('w, 'a) query_run = "(query_session \<times> 'w, query_error, 'a) run"

section \<open>The hit page and the scratch store\<close>

definition page_append :: "nat \<Rightarrow> query_hit \<Rightarrow> hit_page \<Rightarrow> hit_page" where
  "page_append index hit pg =
     (let follows_page = (checked_add (pg_first_hit pg) (length (pg_hits pg)) = Some index);
          pg1 = (if pg_hits pg = [] \<or> \<not> follows_page \<or> length (pg_hits pg) = pg_capacity pg
                 then pg\<lparr>pg_hits := [], pg_first_hit := index\<rparr> else pg)
      in pg1\<lparr>pg_hits := pg_hits pg1 @ [hit]\<rparr>)"

datatype scratch_append = Stored nat | QuotaReached nat

definition scratch_append_hit :: "'w hit_file \<Rightarrow> query_hit \<Rightarrow> ('w, scratch_append) query_run" where
  "scratch_append_hit hf hit =
     with_state (\<lambda>s.
       (case checked_add (sc_used_bytes (qs_scratch s)) query_hit_entry_bytes of
          None \<Rightarrow> fail QAddressSpace
        | Some required \<Rightarrow>
            (if required > sc_quota_bytes (qs_scratch s) then give (QuotaReached required)
             else
               and_then (on_world (\<lambda>w. case hf_write hf w (sc_used_bytes (qs_scratch s)) (encode_hit hit) of
                           (Some e, w') \<Rightarrow> (Err (QIo e), w') | (None, w') \<Rightarrow> (Ok (), w'))) (\<lambda>_.
               and_then (update_state (\<lambda>s. s\<lparr>qs_scratch := (qs_scratch s)\<lparr>sc_used_bytes := required\<rparr>\<rparr>)) (\<lambda>_.
               case checked_add (sc_entries (qs_scratch s)) 1 of
                 None \<Rightarrow> fail QAddressSpace
               | Some n \<Rightarrow>
                   and_then (update_state (\<lambda>s. s\<lparr>qs_scratch := (qs_scratch s)\<lparr>sc_entries := n\<rparr>\<rparr>)) (\<lambda>_.
                   give (Stored (sc_entries (qs_scratch s)))))))))"

definition append_hit :: "'w hit_file \<Rightarrow> query_hit \<Rightarrow> ('w, quota_exceeded option) query_run" where
  "append_hit hf hit =
     and_then (scratch_append_hit hf hit) (\<lambda>r.
       case r of
         Stored index \<Rightarrow>
           and_then (update_state (\<lambda>s. s\<lparr>qs_page := page_append index hit (qs_page s)\<rparr>)) (\<lambda>_. give None)
       | QuotaReached required \<Rightarrow>
           with_state (\<lambda>s. give (Some
             \<lparr>qe_quota_bytes = sc_quota_bytes (qs_scratch s), qe_used_bytes = sc_used_bytes (qs_scratch s),
              qe_required_bytes = required, qe_stored_hits = sc_entries (qs_scratch s),
              qe_rejected_hit = hit\<rparr>)))"

definition scratch_read_hit :: "'w hit_file \<Rightarrow> nat \<Rightarrow> ('w, query_hit option) query_run" where
  "scratch_read_hit hf index =
     with_state (\<lambda>s.
       if index \<ge> sc_entries (qs_scratch s) then give None
       else
         (case Option.bind (checked_mul query_hit_entry_bytes index)
                 (checked_add query_scratch_header_bytes) of
            None \<Rightarrow> fail QAddressSpace
          | Some off \<Rightarrow>
              and_then (on_world (\<lambda>w. case hf_read hf w off query_hit_entry_bytes of
                          (Inl e, w') \<Rightarrow> (Err (QIo e), w') | (Inr bs, w') \<Rightarrow> (Ok bs, w'))) (\<lambda>bs.
              case decode_hit bs of Inl e \<Rightarrow> fail e | Inr h \<Rightarrow> give (Some h))))"

section \<open>Reading the hits back\<close>

fun read_page_loop :: "'w hit_file \<Rightarrow> nat \<Rightarrow> nat \<Rightarrow> nat \<Rightarrow> ('w, unit) query_run" where
  "read_page_loop hf first_hit relative 0 = give ()"
| "read_page_loop hf first_hit relative (Suc n) =
     (case checked_add first_hit relative of
        None \<Rightarrow> fail QAddressSpace
      | Some index \<Rightarrow>
          and_then (scratch_read_hit hf index) (\<lambda>h.
            case h of
              None \<Rightarrow> fail ScratchCorrupt
            | Some hit \<Rightarrow>
                and_then (update_state (\<lambda>s. s\<lparr>qs_page := (qs_page s)\<lparr>pg_hits := pg_hits (qs_page s) @ [hit]\<rparr>\<rparr>))
                  (\<lambda>_. read_page_loop hf first_hit (Suc relative) n)))"

definition read_page :: "'w hit_file \<Rightarrow> nat \<Rightarrow> ('w, nat \<times> query_hit list) query_run" where
  "read_page hf first_hit =
     and_then (update_state (\<lambda>s. s\<lparr>qs_page := (qs_page s)\<lparr>pg_hits := [], pg_first_hit := first_hit\<rparr>\<rparr>)) (\<lambda>_.
     with_state (\<lambda>s.
       and_then (read_page_loop hf first_hit 0
                   (min (saturating_sub (sc_entries (qs_scratch s)) first_hit) (pg_capacity (qs_page s)))) (\<lambda>_.
       with_state (\<lambda>s. give (pg_first_hit (qs_page s), pg_hits (qs_page s))))))"

definition cached_hit :: "query_session \<Rightarrow> nat \<Rightarrow> query_hit option" where
  "cached_hit s index =
     (case checked_sub index (pg_first_hit (qs_page s)) of
        None \<Rightarrow> None
      | Some relative \<Rightarrow>
          if relative < length (pg_hits (qs_page s)) then Some (pg_hits (qs_page s) ! relative) else None)"

definition read_hit :: "'w hit_file \<Rightarrow> nat \<Rightarrow> ('w, query_hit option) query_run" where
  "read_hit hf index =
     with_state (\<lambda>s.
       if index \<ge> sc_entries (qs_scratch s) then give None
       else
         (case cached_hit s index of
            Some hit \<Rightarrow> give (Some hit)
          | None \<Rightarrow>
              and_then (read_page hf (index div pg_capacity (qs_page s) * pg_capacity (qs_page s))) (\<lambda>_.
              with_state (\<lambda>s. give (cached_hit s index)))))"

definition next_hit_index :: "query_session \<Rightarrow> nat option \<Rightarrow> nat option" where
  "next_hit_index s current =
     (case (case current of Some index \<Rightarrow> checked_add index 1 | None \<Rightarrow> Some 0) of
        None \<Rightarrow> None
      | Some candidate \<Rightarrow> if candidate < sc_entries (qs_scratch s) then Some candidate else None)"

definition previous_hit_index :: "query_session \<Rightarrow> nat option \<Rightarrow> nat option" where
  "previous_hit_index s current =
     (case current of
        Some index \<Rightarrow>
          (if index = 0 then None
           else if index \<le> sc_entries (qs_scratch s) then Some (index - 1)
           else checked_sub (sc_entries (qs_scratch s)) 1)
      | None \<Rightarrow> checked_sub (sc_entries (qs_scratch s)) 1)"

section \<open>Reading the source\<close>

fun query_source_failure_error :: "query_session \<Rightarrow> query_source_failure \<Rightarrow> query_error" where
  "query_source_failure_error s (QFailureChanged Shrank actual) = QSourceShrank"
| "query_source_failure_error s QFailureShortRead = QSourceShrank"
| "query_source_failure_error s (QFailureChanged Grew actual) = QSourceGrew (fp_size (qs_snapshot s)) actual"
| "query_source_failure_error s (QFailureChanged change actual) =
     QSourceChanged change (fp_size (qs_snapshot s)) actual"
| "query_source_failure_error s QFailureEvidenceUnavailable = QSourceEvidenceUnavailable"

definition query_ensure_unchanged :: "'w environment \<Rightarrow> ('w, unit) query_run" where
  "query_ensure_unchanged env sw =
     (case sw of (s, w) \<Rightarrow>
        (case qs_failure s of
           Some failure \<Rightarrow> (Err (query_source_failure_error s failure), (s, w))
         | None \<Rightarrow>
             (case env_fingerprint env w of
                (Inl e, w') \<Rightarrow> (Err (QIo e), (s\<lparr>qs_failure := Some QFailureEvidenceUnavailable\<rparr>, w'))
              | (Inr current, w') \<Rightarrow>
                  (let change = fingerprint_compare (qs_snapshot s) current in
                   if \<not> is_changed change then (Ok (), (s, w'))
                   else
                     (let failure = QFailureChanged change (fp_size current) in
                      (Err (query_source_failure_error s failure), (s\<lparr>qs_failure := Some failure\<rparr>, w')))))))"

definition checked_read_at :: "'w environment \<Rightarrow> nat \<Rightarrow> nat \<Rightarrow> ('w, nat) query_run" where
  "checked_read_at env off request =
     and_then (query_ensure_unchanged env) (\<lambda>_.
     and_then (on_world (read_validated env QIo off request)) (\<lambda>(got, buf).
     and_then (update_state (\<lambda>s. s\<lparr>qs_buffer := buf @ drop request (qs_buffer s)\<rparr>)) (\<lambda>_.
     if got = 0 then
       and_then (update_state (\<lambda>s. s\<lparr>qs_failure := Some QFailureShortRead\<rparr>)) (\<lambda>_. fail QSourceShrank)
     else and_then (query_ensure_unchanged env) (\<lambda>_. give got))))"

definition queue_record :: "record_span \<Rightarrow> ('w, unit) query_run" where
  "queue_record sp =
     with_state (\<lambda>s.
       case checked_add (qs_next_row s) 1 of
         None \<Rightarrow> fail QRowOverflow
       | Some next \<Rightarrow>
           update_state (\<lambda>s'. s'\<lparr>qs_next_row := next,
             qs_pending := Some \<lparr>pr_row = qs_next_row s, pr_span = sp, pr_cursor = span_start sp,
                                 pr_matcher_state = 0\<rparr>\<rparr>))"

text \<open>The callback of \<open>feed_one\<close> and \<open>finish\<close>: keep the record and stop.\<close>

definition accept_one :: "record_span option emitter" where
  "accept_one emitted sp = (Some sp, Stop)"

definition advance_scanner ::
    "'w environment \<Rightarrow> cancellation_generation \<Rightarrow> nat \<Rightarrow> ('w, scan_progress) query_run" where
  "advance_scanner env gen work_bytes =
     with_state (\<lambda>s.
       case qs_scanner s of
         None \<Rightarrow> fail ScratchCorrupt
       | Some sc \<Rightarrow>
           (case checked_sub (fp_size (qs_snapshot s)) (boundary_scanner_offset sc) of
              None \<Rightarrow> panic
            | Some remaining_source \<Rightarrow>
                (let request = min (min remaining_source (length (qs_buffer s))) work_bytes in
                 and_then (checked_read_at env (boundary_scanner_offset sc) request) (\<lambda>got.
                 and_then (on_world (load_feed_tokens env)) (\<lambda>tokens.
                 with_state (\<lambda>s.
                 case boundary_scanner_feed accept_one tokens gen
                        (qc_cancellation_check_bytes (qs_config s)) sc None (take got (qs_buffer s)) of
                   (sc', emitted, res) \<Rightarrow>
                     and_then (update_state (\<lambda>s. s\<lparr>qs_scanner := Some sc'\<rparr>)) (\<lambda>_.
                     case res of
                       Panic \<Rightarrow> panic
                     | Err e \<Rightarrow> fail (QScan e)
                     | Ok progress \<Rightarrow>
                         and_then (case emitted of None \<Rightarrow> give () | Some sp \<Rightarrow> queue_record sp)
                           (\<lambda>_. give progress))))))))"

section \<open>Matching the pending record\<close>

datatype pending_status = PendingRunning | PendingCancelled | PendingComplete | PendingQuota quota_exceeded

record pending_advance =
  pa_processed :: nat
  pa_status :: pending_status

definition update_pending_cursor :: "nat \<Rightarrow> nat \<Rightarrow> nat \<Rightarrow> ('w, unit) query_run" where
  "update_pending_cursor original_cursor processed matcher_state =
     (case checked_add original_cursor processed of
        None \<Rightarrow> fail QAddressSpace
      | Some cursor \<Rightarrow>
          with_state (\<lambda>s.
            case qs_pending s of
              None \<Rightarrow> fail ScratchCorrupt
            | Some p \<Rightarrow> update_state (\<lambda>s. s\<lparr>qs_pending :=
                Some (p\<lparr>pr_cursor := cursor, pr_matcher_state := matcher_state\<rparr>)\<rparr>)))"

text \<open>\<open>bs\<close> are the bytes of the buffer not yet processed.\<close>

fun match_loop ::
    "'w environment \<Rightarrow> 'w hit_file \<Rightarrow> cancellation_generation \<Rightarrow> pending_record \<Rightarrow> compiled_literal \<Rightarrow> nat
     \<Rightarrow> nat \<Rightarrow> nat \<Rightarrow> bytes \<Rightarrow> ('w, pending_advance) query_run" where
  "match_loop env hf gen pend lit check processed st [] =
     and_then (update_pending_cursor (pr_cursor pend) processed st) (\<lambda>_.
     with_state (\<lambda>s.
       give \<lparr>pa_processed = processed,
             pa_status = (case qs_pending s of
                Some p \<Rightarrow> if pr_cursor p = span_end (pr_span p) then PendingComplete else PendingRunning
              | None \<Rightarrow> PendingRunning)\<rparr>))"
| "match_loop env hf gen pend lit check processed st (b # bs) =
     and_then (if processed mod check = 0 then on_world (token_cancelled env gen) else give False) (\<lambda>cancelled.
     if cancelled then
       and_then (update_pending_cursor (pr_cursor pend) processed st)
         (\<lambda>_. give \<lparr>pa_processed = processed, pa_status = PendingCancelled\<rparr>)
     else
       (case literal_advance lit st b of
          None \<Rightarrow> panic
        | Some (st', matched) \<Rightarrow>
            (if matched then
               (case Option.bind (checked_add (pr_cursor pend) (Suc processed)) (\<lambda>end.
                     Option.bind (checked_sub end (length (lit_bytes lit))) (\<lambda>start.
                       case span_new start end of Inl _ \<Rightarrow> None | Inr sp \<Rightarrow> Some sp)) of
                  None \<Rightarrow> fail QAddressSpace
                | Some sp \<Rightarrow>
                    and_then (append_hit hf \<lparr>hit_row = pr_row pend, hit_span = sp\<rparr>) (\<lambda>details.
                    case details of
                      Some d \<Rightarrow>
                        and_then (update_pending_cursor (pr_cursor pend) (Suc processed) st')
                          (\<lambda>_. give \<lparr>pa_processed = Suc processed, pa_status = PendingQuota d\<rparr>)
                    | None \<Rightarrow> match_loop env hf gen pend lit check (Suc processed) st' bs))
             else match_loop env hf gen pend lit check (Suc processed) st' bs)))"

definition match_pending_bytes ::
    "'w environment \<Rightarrow> 'w hit_file \<Rightarrow> cancellation_generation \<Rightarrow> nat \<Rightarrow> ('w, pending_advance) query_run" where
  "match_pending_bytes env hf gen amount =
     with_state (\<lambda>s.
       case qs_pending s of
         None \<Rightarrow> fail ScratchCorrupt
       | Some pend \<Rightarrow>
           match_loop env hf gen pend (qs_literal s) (qc_cancellation_check_bytes (qs_config s)) 0
             (pr_matcher_state pend) (take amount (qs_buffer s)))"

definition advance_pending ::
    "'w environment \<Rightarrow> 'w hit_file \<Rightarrow> cancellation_generation \<Rightarrow> nat \<Rightarrow> ('w, pending_advance) query_run" where
  "advance_pending env hf gen work_bytes =
     with_state (\<lambda>s.
       case qs_pending s of
         None \<Rightarrow> fail ScratchCorrupt
       | Some pend \<Rightarrow>
           (if pr_cursor pend = span_end (pr_span pend)
            then give \<lparr>pa_processed = 0, pa_status = PendingComplete\<rparr>
            else
              (case checked_sub (span_end (pr_span pend)) (pr_cursor pend) of
                 None \<Rightarrow> panic
               | Some remaining_record \<Rightarrow>
                   and_then (checked_read_at env (pr_cursor pend)
                       (min (min remaining_record (length (qs_buffer s))) work_bytes))
                     (\<lambda>amount. match_pending_bytes env hf gen amount))))"

definition complete_pending :: "('w, unit) query_run" where
  "complete_pending =
     and_then (update_state (\<lambda>s. s\<lparr>qs_pending := None\<rparr>)) (\<lambda>_.
     with_state (\<lambda>s.
       case checked_add (qs_examined_records s) 1 of
         None \<Rightarrow> fail QRowOverflow
       | Some n \<Rightarrow> update_state (\<lambda>s. s\<lparr>qs_examined_records := n\<rparr>)))"

section \<open>The session\<close>

definition set_status :: "query_status \<Rightarrow> ('w, query_status) query_run" where
  "set_status st = and_then (update_state (\<lambda>s. s\<lparr>qs_status := st\<rparr>)) (\<lambda>_. give st)"

text \<open>
  One pass of the loop of \<open>advance\<close>: \<open>Inl\<close> is the status it returns with, \<open>Inr\<close> the work left.
\<close>

definition query_pass ::
    "'w environment \<Rightarrow> 'w hit_file \<Rightarrow> cancellation_generation \<Rightarrow> nat \<Rightarrow> ('w, query_status + nat) query_run" where
  "query_pass env hf gen remaining =
     and_then (on_world (token_cancelled env gen)) (\<lambda>cancelled.
     if cancelled then and_then (set_status QCancelled) (\<lambda>st. give (Inl st))
     else
       and_then (query_ensure_unchanged env) (\<lambda>_.
       with_state (\<lambda>s.
         if qs_pending s \<noteq> None then
           and_then (advance_pending env hf gen remaining) (\<lambda>outcome.
             let left = saturating_sub remaining (pa_processed outcome) in
             case pa_status outcome of
               PendingRunning \<Rightarrow> give (Inr left)
             | PendingCancelled \<Rightarrow> and_then (set_status QCancelled) (\<lambda>st. give (Inl st))
             | PendingComplete \<Rightarrow> and_then complete_pending (\<lambda>_. give (Inr left))
             | PendingQuota d \<Rightarrow> and_then (set_status (QQuotaExceeded d)) (\<lambda>st. give (Inl st)))
         else
           (case qs_scanner s of
              Some sc \<Rightarrow>
                (if boundary_scanner_offset sc < fp_size (qs_snapshot s) then
                   and_then (advance_scanner env gen remaining) (\<lambda>progress.
                     let left = saturating_sub remaining (consumed progress) in
                     case scan_status progress of
                       ScanCancelled \<Rightarrow> and_then (set_status QCancelled) (\<lambda>st. give (Inl st))
                     | ScanComplete \<Rightarrow> give (Inr left)
                     | ScanStopped \<Rightarrow> give (Inr left))
                 else
                   and_then (update_state (\<lambda>s. s\<lparr>qs_scanner := None\<rparr>)) (\<lambda>_.
                   case boundary_scanner_finish accept_one sc None of
                     None \<Rightarrow> panic
                   | Some (diagnostic, emitted) \<Rightarrow>
                       and_then (update_state (\<lambda>s. s\<lparr>qs_diagnostic := diagnostic\<rparr>)) (\<lambda>_.
                       case emitted of
                         Some sp \<Rightarrow> and_then (queue_record sp) (\<lambda>_. give (Inr remaining))
                       | None \<Rightarrow> and_then (set_status QComplete) (\<lambda>st. give (Inl st)))))
            | None \<Rightarrow> and_then (set_status QComplete) (\<lambda>st. give (Inl st))))))"

text \<open>The loop, with fuel; running out is the panic that the theorems exclude.\<close>

fun query_loop ::
    "nat \<Rightarrow> 'w environment \<Rightarrow> 'w hit_file \<Rightarrow> cancellation_generation \<Rightarrow> nat \<Rightarrow> ('w, query_status) query_run" where
  "query_loop 0 env hf gen remaining = panic"
| "query_loop (Suc fuel) env hf gen remaining =
     and_then (query_pass env hf gen remaining) (\<lambda>r.
       case r of
         Inl st \<Rightarrow> give st
       | Inr left \<Rightarrow>
           if left = 0 then with_state (\<lambda>s. give (qs_status s))
           else query_loop fuel env hf gen left)"

definition query_fuel :: "query_session \<Rightarrow> nat" where
  "query_fuel s = 4 * fp_size (qs_snapshot s) + 3"

definition query_advance ::
    "'w environment \<Rightarrow> 'w hit_file \<Rightarrow> cancellation_generation \<Rightarrow> nat \<Rightarrow> ('w, query_status) query_run" where
  "query_advance env hf gen max_work_bytes =
     (if max_work_bytes = 0 then fail ZeroWorkBudget
      else with_state (\<lambda>s.
        case qs_status s of
          QComplete \<Rightarrow>
            and_then (on_world (token_cancelled env gen)) (\<lambda>cancelled.
            if cancelled then give (qs_status s)
            else and_then (query_ensure_unchanged env) (\<lambda>_. give (qs_status s)))
        | QQuotaExceeded d \<Rightarrow>
            and_then (on_world (token_cancelled env gen)) (\<lambda>cancelled.
            if cancelled then give (qs_status s)
            else and_then (query_ensure_unchanged env) (\<lambda>_. give (qs_status s)))
        | _ \<Rightarrow>
            and_then (update_state (\<lambda>s. s\<lparr>qs_status := QRunning\<rparr>)) (\<lambda>_.
              query_loop (query_fuel s) env hf gen max_work_bytes)))"

text \<open>
  A new session over a scratch file that has just been created for \<open>owner\<close>: the needle is
  compiled first, then the source is captured, then buffers and scratch header.
\<close>

definition literal_new :: "'w environment \<Rightarrow> bytes \<Rightarrow> match_mode \<Rightarrow> ('w, query_error, compiled_literal) run" where
  "literal_new env needle mode =
     (if needle = [] then fail EmptyNeedle
      else
        and_then (Run_Monad.try_reserve env QAllocationUnavailable (length needle)) (\<lambda>_.
        and_then (Run_Monad.try_reserve env QAllocationUnavailable (length needle)) (\<lambda>_.
        case compile_literal needle mode of None \<Rightarrow> panic | Some lit \<Rightarrow> give lit)))"

definition query_new ::
    "'w environment \<Rightarrow> 'w hit_file \<Rightarrow> bytes \<Rightarrow> bytes \<Rightarrow> match_mode \<Rightarrow> query_config
     \<Rightarrow> ('w, query_error, query_session) run" where
  "query_new env hf owner needle mode cfg =
     and_then (literal_new env needle mode) (\<lambda>lit.
     and_then (capture env QIo) (\<lambda>snapshot.
     and_then (try_reserve env QAllocationUnavailable (qc_read_buffer_bytes cfg)) (\<lambda>_.
     and_then (try_reserve env QAllocationUnavailable (qc_page_capacity cfg)) (\<lambda>_.
     and_then (\<lambda>w. case hf_write hf w 0 (scratch_header owner) of
                 (Some e, w') \<Rightarrow> (Err (QIo e), w') | (None, w') \<Rightarrow> (Ok (), w')) (\<lambda>_.
     give \<lparr>qs_snapshot = snapshot, qs_failure = None,
           qs_scanner = Some (boundary_scanner_new (qc_format cfg) 0), qs_literal = lit,
           qs_config = cfg, qs_buffer = replicate (qc_read_buffer_bytes cfg) 0, qs_pending = None,
           qs_scratch = \<lparr>sc_owner = owner, sc_quota_bytes = qc_scratch_quota_bytes cfg,
                         sc_used_bytes = query_scratch_header_bytes, sc_entries = 0\<rparr>,
           qs_page = \<lparr>pg_capacity = qc_page_capacity cfg, pg_first_hit = 0, pg_hits = []\<rparr>,
           qs_next_row = 0, qs_examined_records = 0, qs_diagnostic = None, qs_status = QRunning\<rparr>)))))"

record query_progress =
  qp_source_bytes :: nat
  qp_scanned_bytes :: nat
  qp_discovered_records :: nat
  qp_examined_records :: nat
  qp_stored_hits :: nat
  qp_scratch_bytes :: nat
  qp_active_row :: "nat option"
  qp_csv_diagnostic :: "csv_diagnostic option"

definition query_progress_of :: "query_session \<Rightarrow> query_progress" where
  "query_progress_of s =
     \<lparr>qp_source_bytes = fp_size (qs_snapshot s),
      qp_scanned_bytes = (case qs_scanner s of
         Some sc \<Rightarrow> boundary_scanner_offset sc | None \<Rightarrow> fp_size (qs_snapshot s)),
      qp_discovered_records = qs_next_row s, qp_examined_records = qs_examined_records s,
      qp_stored_hits = sc_entries (qs_scratch s), qp_scratch_bytes = sc_used_bytes (qs_scratch s),
      qp_active_row = map_option pr_row (qs_pending s), qp_csv_diagnostic = qs_diagnostic s\<rparr>"

fun is_source_integrity_failure :: "query_error \<Rightarrow> bool" where
  "is_source_integrity_failure QSourceShrank = True"
| "is_source_integrity_failure (QSourceGrew _ _) = True"
| "is_source_integrity_failure (QSourceChanged _ _ _) = True"
| "is_source_integrity_failure QSourceEvidenceUnavailable = True"
| "is_source_integrity_failure _ = False"

end
