(* ===== verification/Query_Store.thy ===== *)
theory Query_Store imports Query_Session begin

text \<open>
  What the scratch store and the hit page of a query hold.  \<open>store_holds s c hits\<close> says that the
  scratch contents \<open>c\<close> are the header and the entries of \<open>hits\<close>, that the counters agree and that
  the page caches a part of them.  The locale \<open>query_world\<close> is the contract of the file calls: a
  write lands where it was aimed, a read returns what is there, and reading the source leaves the
  scratch file alone.
\<close>

definition hit_fits :: "query_hit \<Rightarrow> bool" where
  "hit_fits h \<longleftrightarrow> hit_row h \<le> u64_max \<and> span_start (hit_span h) \<le> span_end (hit_span h)
     \<and> span_end (hit_span h) \<le> u64_max"

definition page_caches :: "hit_page \<Rightarrow> query_hit list \<Rightarrow> bool" where
  "page_caches pg hits \<longleftrightarrow> 0 < pg_capacity pg \<and> length (pg_hits pg) \<le> pg_capacity pg
     \<and> pg_hits pg = take (length (pg_hits pg)) (drop (pg_first_hit pg) hits)"

definition store_bytes :: "bytes \<Rightarrow> query_hit list \<Rightarrow> bytes" where
  "store_bytes owner hits = scratch_header owner @ concat (map encode_hit hits)"

definition store_holds :: "query_session \<Rightarrow> bytes \<Rightarrow> query_hit list \<Rightarrow> bool" where
  "store_holds s c hits \<longleftrightarrow>
     length (sc_owner (qs_scratch s)) = 16
     \<and> sc_entries (qs_scratch s) = length hits
     \<and> sc_used_bytes (qs_scratch s) = 48 + 24 * length hits
     \<and> sc_used_bytes (qs_scratch s) \<le> sc_quota_bytes (qs_scratch s)
     \<and> take (48 + 24 * length hits) c = store_bytes (sc_owner (qs_scratch s)) hits
     \<and> (\<forall>h \<in> set hits. hit_fits h)
     \<and> page_caches (qs_page s) hits"

lemma length_entries: "length (concat (map encode_hit hits)) = 24 * length hits"
  by (induction hits) simp_all

lemma length_store_bytes: "length owner = 16 \<Longrightarrow> length (store_bytes owner hits) = 48 + 24 * length hits"
  by (simp add: store_bytes_def length_scratch_header length_entries)

lemma store_bytes_snoc: "store_bytes owner (hits @ [h]) = store_bytes owner hits @ encode_hit h"
  by (simp add: store_bytes_def)

lemma entry_at:
  "i < length hits \<Longrightarrow> take 24 (drop (24 * i) (concat (map encode_hit hits))) = encode_hit (hits ! i)"
proof (induction hits arbitrary: i)
  case (Cons h hits)
  show ?case
  proof (cases i)
    case 0
    then show ?thesis by simp
  next
    case (Suc j)
    have "drop (24 * i) (encode_hit h @ concat (map encode_hit hits))
        = drop (24 * j) (concat (map encode_hit hits))" by (simp add: Suc)
    with Cons.IH [of j] Cons.prems Suc show ?thesis by simp
  qed
qed simp

lemma store_entry:
  assumes "length owner = 16" "take (48 + 24 * length hits) c = store_bytes owner hits" "i < length hits"
  shows "48 + 24 * i + 24 \<le> length c" "take 24 (drop (48 + 24 * i) c) = encode_hit (hits ! i)"
proof -
  have "length (take (48 + 24 * length hits) c) = 48 + 24 * length hits"
    using assms(1,2) by (simp add: length_store_bytes)
  then have long: "48 + 24 * length hits \<le> length c" by simp
  with assms(3) show "48 + 24 * i + 24 \<le> length c" by linarith
  have "take 24 (drop (48 + 24 * i) c) = take 24 (drop (48 + 24 * i) (take (48 + 24 * length hits) c))"
    using assms(3) by (simp add: drop_take min_def)
  also have "\<dots> = take 24 (drop (24 * i) (concat (map encode_hit hits)))"
    using assms(1) unfolding assms(2)
    by (simp add: store_bytes_def length_scratch_header)
  finally show "take 24 (drop (48 + 24 * i) c) = encode_hit (hits ! i)"
    using entry_at [OF assms(3)] by simp
qed

lemma page_append_caches:
  assumes "page_caches pg hits" "length hits < u64_max"
  shows "page_caches (page_append (length hits) h pg) (hits @ [h])"
proof -
  let ?f = "pg_first_hit pg" and ?n = "length (pg_hits pg)"
  show ?thesis
  proof (cases "pg_hits pg = [] \<or> checked_add ?f ?n \<noteq> Some (length hits) \<or> ?n = pg_capacity pg")
    case True
    with assms(1) show ?thesis by (auto simp: page_append_def page_caches_def Let_def)
  next
    case False
    then have f: "?f + ?n = length hits" by (auto simp: checked_add_def split: if_splits)
    then have "drop ?f hits = pg_hits pg"
      using assms(1) by (simp add: page_caches_def)
    with False f assms(1) show ?thesis
      by (auto simp: page_append_def page_caches_def Let_def)
  qed
qed

section \<open>Runs that may be lost\<close>

text \<open>
  \<open>ends F m s Q\<close>: the run ends with a result in \<open>Q\<close>, or with an error and a state in \<open>F\<close>, and never
  with a panic.
\<close>

definition ends ::
    "('e \<Rightarrow> 's \<Rightarrow> bool) \<Rightarrow> ('s, 'e, 'a) run \<Rightarrow> 's \<Rightarrow> ('a \<Rightarrow> 's \<Rightarrow> bool) \<Rightarrow> bool" where
  "ends F m sw Q = (case m sw of (Ok a, sw') \<Rightarrow> Q a sw' | (Err e, sw') \<Rightarrow> F e sw' | (Panic, _) \<Rightarrow> False)"

lemma ends_give [wp_simps]: "ends F (give a) sw Q = Q a sw"
  by (simp add: ends_def give_def)

lemma ends_and_then [wp_simps]:
  "ends F (and_then m f) sw Q = ends F m sw (\<lambda>a sw'. ends F (f a) sw' Q)"
  by (simp add: ends_def and_then_def split: prod.split outcome.split)

lemma ends_with_state [wp_simps]: "ends F (with_state f) sw Q = ends F (f (fst sw)) sw Q"
  by (simp add: ends_def with_state_def)

lemma ends_update_state [wp_simps]: "ends F (update_state f) sw Q = Q () (f (fst sw), snd sw)"
  by (simp add: ends_def update_state_def)

lemma ends_on_world [wp_simps]:
  "ends F (on_world m) sw Q = ends (\<lambda>e w'. F e (fst sw, w')) m (snd sw) (\<lambda>a w'. Q a (fst sw, w'))"
  by (simp add: ends_def on_world_def split: prod.split outcome.split)

lemma ends_weaken: "ends F m sw Q \<Longrightarrow> (\<And>a sw'. Q a sw' \<Longrightarrow> Q' a sw') \<Longrightarrow> ends F m sw Q'"
  by (auto simp: ends_def split: prod.splits outcome.splits)

lemma endsI: "m sw = (Ok a, sw') \<Longrightarrow> Q a sw' \<Longrightarrow> ends F m sw Q"
  by (simp add: ends_def)

lemma endsE:
  assumes "ends F m sw Q"
  obtains a sw' where "m sw = (Ok a, sw')" "Q a sw'" | e sw' where "m sw = (Err e, sw')" "F e sw'"
  using assms by (auto simp: ends_def split: prod.splits outcome.splits)

lemma ends_eq: "m sw = m' sw \<Longrightarrow> ends F m' sw Q \<Longrightarrow> ends F m sw Q"
  by (simp add: ends_def)

section \<open>The contract of the scratch file\<close>

text \<open>
  A write lands, or it fails, if writes may fail here at all, and then leaves the bytes in front of it
  as they were.  What was written is read back.
\<close>

locale query_world = stable_source env data base world_ok
  for env :: "'w environment" and data base world_ok +
  fixes hf :: "'w hit_file"
    and contents :: "'w \<Rightarrow> bytes"
    and may_fail :: bool
  assumes fingerprint_keeps: "world_ok w \<Longrightarrow> contents (snd (env_fingerprint env w)) = contents w"
    and read_keeps: "world_ok w \<Longrightarrow> contents (snd (env_read_at env w off n)) = contents w"
    and load_keeps: "world_ok w \<Longrightarrow> contents (snd (env_load_token env w)) = contents w"
    and feed_keeps: "world_ok w \<Longrightarrow> contents (snd (env_feed_tokens env w)) = contents w"
    and reserve_keeps: "world_ok w \<Longrightarrow> contents (snd (env_try_reserve env w n)) = contents w"
    and write_lands: "world_ok w \<Longrightarrow> off \<le> length (contents w) \<Longrightarrow>
      \<exists>r w'. hf_write hf w off bs = (r, w') \<and> world_ok w' \<and>
        (case r of
           None \<Rightarrow> contents w' = take off (contents w) @ bs @ drop (off + length bs) (contents w)
         | Some e \<Rightarrow> may_fail \<and> off \<le> length (contents w') \<and> take off (contents w') = take off (contents w))"
    and read_returns: "world_ok w \<Longrightarrow> off + n \<le> length (contents w) \<Longrightarrow>
      \<exists>w'. hf_read hf w off n = (Inr (take n (drop off (contents w))), w') \<and> world_ok w'
        \<and> contents w' = contents w"
begin

lemma append_hit_ok:
  assumes "world_ok w" "store_holds s (contents w) hits" "hit_fits h"
    and "24 * length hits + 72 \<le> u64_max"
  shows "(48 + 24 * length (hits @ [h]) \<le> sc_quota_bytes (qs_scratch s) \<and>
      (\<exists>st pg w'. append_hit hf h (s, w) = (Ok None, (s\<lparr>qs_scratch := st, qs_page := pg\<rparr>, w'))
         \<and> world_ok w' \<and> store_holds (s\<lparr>qs_scratch := st, qs_page := pg\<rparr>) (contents w') (hits @ [h])
         \<and> sc_quota_bytes st = sc_quota_bytes (qs_scratch s)))
    \<or> (sc_quota_bytes (qs_scratch s) < 48 + 24 * length (hits @ [h]) \<and>
       append_hit hf h (s, w) = (Ok (Some
         \<lparr>qe_quota_bytes = sc_quota_bytes (qs_scratch s), qe_used_bytes = 48 + 24 * length hits,
          qe_required_bytes = 48 + 24 * length (hits @ [h]), qe_stored_hits = length hits,
          qe_rejected_hit = h\<rparr>), (s, w)))
    \<or> (may_fail \<and> (\<exists>e w'. append_hit hf h (s, w) = (Err (QIo e), (s, w')) \<and> world_ok w' \<and>
         store_holds s (contents w') hits))"
proof -
  let ?sc = "qs_scratch s"
  from assms(2) have own: "length (sc_owner ?sc) = 16" and n: "sc_entries ?sc = length hits"
    and u: "sc_used_bytes ?sc = 48 + 24 * length hits"
    and c: "take (48 + 24 * length hits) (contents w) = store_bytes (sc_owner ?sc) hits"
    and fits: "\<forall>h \<in> set hits. hit_fits h" and pg: "page_caches (qs_page s) hits"
    by (simp_all add: store_holds_def)
  have ca: "checked_add (48 + 24 * length hits) 24 = Some (48 + 24 * length (hits @ [h]))"
    using assms(4) by (simp add: checked_add_def)
  show ?thesis
  proof (cases "48 + 24 * length (hits @ [h]) \<le> sc_quota_bytes ?sc")
    case False
    then show ?thesis
      by (intro disjI2 disjI1) (simp add: append_hit_def scratch_append_hit_def and_then_def with_state_def
          give_def ca u n)
  next
    case True
    have "length (take (48 + 24 * length hits) (contents w)) = 48 + 24 * length hits"
      using own c by (simp add: length_store_bytes)
    then have long: "48 + 24 * length hits \<le> length (contents w)" by simp
    obtain r w' where wr: "hf_write hf w (48 + 24 * length hits) (encode_hit h) = (r, w')" "world_ok w'"
      and out: "case r of
           None \<Rightarrow> contents w' = take (48 + 24 * length hits) (contents w) @ encode_hit h
             @ drop (48 + 24 * length hits + length (encode_hit h)) (contents w)
         | Some e \<Rightarrow> may_fail \<and> 48 + 24 * length hits \<le> length (contents w')
             \<and> take (48 + 24 * length hits) (contents w') = take (48 + 24 * length hits) (contents w)"
      using write_lands [OF assms(1) long, of "encode_hit h"] by blast
    show ?thesis
    proof (cases r)
      case (Some e)
      have "append_hit hf h (s, w) = (Err (QIo e), (s, w'))"
        using True wr(1) assms(4) Some
        by (simp add: append_hit_def scratch_append_hit_def and_then_def with_state_def give_def
            on_world_def update_state_def ca u n)
      moreover have "store_holds s (contents w') hits"
        using assms(2) out Some by (simp add: store_holds_def)
      ultimately show ?thesis using out Some wr(2) by auto
    next
      case None
      then have w': "hf_write hf w (48 + 24 * length hits) (encode_hit h) = (None, w')" "world_ok w'"
        "contents w' = take (48 + 24 * length hits) (contents w) @ encode_hit h
           @ drop (48 + 24 * length hits + 24) (contents w)"
        using wr out by simp_all
    let ?st = "?sc\<lparr>sc_used_bytes := 48 + 24 * length (hits @ [h]), sc_entries := Suc (length hits)\<rparr>"
    let ?pg = "page_append (length hits) h (qs_page s)"
    have "append_hit hf h (s, w) = (Ok None, (s\<lparr>qs_scratch := ?st, qs_page := ?pg\<rparr>, w'))"
      using True w'(1) assms(4)
      by (simp add: append_hit_def scratch_append_hit_def and_then_def with_state_def give_def
          on_world_def update_state_def ca u n checked_add_def)
    moreover have "take (48 + 24 * length (hits @ [h])) (contents w') = store_bytes (sc_owner ?sc) (hits @ [h])"
      unfolding w'(3) c store_bytes_snoc by (simp add: length_store_bytes [OF own])
    moreover have "page_caches ?pg (hits @ [h])"
      using assms(4) by (intro page_append_caches pg) simp
    ultimately show ?thesis
      using True w'(2) own fits assms(3)
      by (intro disjI1 conjI exI [of _ ?st] exI [of _ ?pg] exI [of _ w'])
        (auto simp: store_holds_def)
    qed
  qed
qed

lemma scratch_read_hit_ok:
  assumes "world_ok w" "store_holds s (contents w) hits" "24 * length hits + 72 \<le> u64_max"
  shows "\<exists>w'. scratch_read_hit hf i (s, w) =
      (Ok (if i < length hits then Some (hits ! i) else None), (s, w')) \<and> world_ok w'
      \<and> contents w' = contents w"
proof (cases "i < length hits")
  case False
  with assms show ?thesis
    by (auto simp: scratch_read_hit_def with_state_def give_def store_holds_def)
next
  case True
  from assms(2) have own: "length (sc_owner (qs_scratch s)) = 16" "sc_entries (qs_scratch s) = length hits"
    and c: "take (48 + 24 * length hits) (contents w) = store_bytes (sc_owner (qs_scratch s)) hits"
    and fits: "\<forall>h \<in> set hits. hit_fits h" by (simp_all add: store_holds_def)
  note entry = store_entry [OF own(1) c True]
  from read_returns [OF assms(1) entry(1)] obtain w' where
    r: "hf_read hf w (48 + 24 * i) 24 = (Inr (encode_hit (hits ! i)), w')" "world_ok w'"
    "contents w' = contents w" unfolding entry(2) by blast
  have off: "Option.bind (checked_mul 24 i) (checked_add 48) = Some (48 + 24 * i)"
    using True assms(3) by (simp add: checked_mul_def checked_add_def)
  have dec: "decode_hit (encode_hit (hits ! i)) = Inr (hits ! i)"
    using fits True by (intro decode_encode_hit) (auto simp: hit_fits_def)
  show ?thesis
    using True own(2) r
    by (intro exI [of _ w']) (simp add: scratch_read_hit_def with_state_def off and_then_def
        on_world_def dec give_def)
qed

lemma read_page_loop_ok:
  assumes "world_ok w" "store_holds s (contents w) hits" "24 * length hits + 72 \<le> u64_max"
    and "pg_hits (qs_page s) = take rel (drop first hits)" "pg_first_hit (qs_page s) = first"
    and "first + rel + n \<le> length hits" "rel + n \<le> pg_capacity (qs_page s)"
  shows "\<exists>w' pg. read_page_loop hf first rel n (s, w) = (Ok (), (s\<lparr>qs_page := pg\<rparr>, w'))
    \<and> world_ok w' \<and> contents w' = contents w \<and> pg_hits pg = take (rel + n) (drop first hits)
    \<and> pg_first_hit pg = first \<and> pg_capacity pg = pg_capacity (qs_page s)"
  using assms
proof (induction n arbitrary: rel s w)
  case 0
  then show ?case by (intro exI [of _ w] exI [of _ "qs_page s"]) (simp add: give_def)
next
  case (Suc n)
  have i: "first + rel < length hits" using Suc.prems(6) by simp
  from scratch_read_hit_ok [OF Suc.prems(1-3), of "first + rel"] i obtain w1 where
    r: "scratch_read_hit hf (first + rel) (s, w) = (Ok (Some (hits ! (first + rel))), (s, w1))"
    "world_ok w1" "contents w1 = contents w" by auto
  let ?s = "s\<lparr>qs_page := (qs_page s)\<lparr>pg_hits := pg_hits (qs_page s) @ [hits ! (first + rel)]\<rparr>\<rparr>"
  have more: "take (Suc rel) (drop first hits) = take rel (drop first hits) @ [hits ! (first + rel)]"
    using i by (simp add: take_Suc_conv_app_nth)
  have cap: "page_caches (qs_page ?s) hits"
    using Suc.prems(2,4,5,7) more i by (simp add: store_holds_def page_caches_def)
  then have "store_holds ?s (contents w1) hits"
    using Suc.prems(2) r(3) by (simp add: store_holds_def)
  moreover have "checked_add first rel = Some (first + rel)"
    using i Suc.prems(3) by (simp add: checked_add_def)
  ultimately show ?case
    using Suc.IH [of w1 ?s "Suc rel"] Suc.prems(3-7) r more
    by (auto simp: and_then_def update_state_def)
qed

text \<open>Reading a page and reading a hit return what was stored, and leave the page a cache of it.\<close>

lemma read_page_ok:
  assumes "world_ok w" "store_holds s (contents w) hits" "24 * length hits + 72 \<le> u64_max"
  shows "\<exists>w' pg. read_page hf first (s, w) =
      (Ok (first, take (pg_capacity (qs_page s)) (drop first hits)), (s\<lparr>qs_page := pg\<rparr>, w'))
    \<and> world_ok w' \<and> contents w' = contents w \<and> store_holds (s\<lparr>qs_page := pg\<rparr>) (contents w') hits
    \<and> pg_first_hit pg = first \<and> pg_hits pg = take (pg_capacity (qs_page s)) (drop first hits)
    \<and> pg_capacity pg = pg_capacity (qs_page s)"
proof -
  let ?s = "s\<lparr>qs_page := (qs_page s)\<lparr>pg_hits := [], pg_first_hit := first\<rparr>\<rparr>"
  let ?n = "min (length hits - first) (pg_capacity (qs_page s))"
  have ok: "store_holds ?s (contents w) hits"
    using assms(2) by (simp add: store_holds_def page_caches_def)
  have n: "sc_entries (qs_scratch s) = length hits" "0 < pg_capacity (qs_page s)"
    using assms(2) by (simp_all add: store_holds_def page_caches_def)
  have "\<exists>w' pg. read_page_loop hf first 0 ?n (?s, w) = (Ok (), (?s\<lparr>qs_page := pg\<rparr>, w'))
    \<and> world_ok w' \<and> contents w' = contents w \<and> pg_hits pg = take (0 + ?n) (drop first hits)
    \<and> pg_first_hit pg = first \<and> pg_capacity pg = pg_capacity (qs_page ?s)"
  proof (cases "first \<le> length hits")
    case True
    then show ?thesis by (intro read_page_loop_ok [OF assms(1) ok assms(3)]) auto
  next
    case False
    then show ?thesis
      using assms(1) by (intro exI [of _ w] exI [of _ "qs_page ?s"]) (simp add: give_def)
  qed
  then obtain w' pg where l: "read_page_loop hf first 0 ?n (?s, w) = (Ok (), (s\<lparr>qs_page := pg\<rparr>, w'))"
    "world_ok w'" "contents w' = contents w" "pg_hits pg = take ?n (drop first hits)"
    "pg_first_hit pg = first" "pg_capacity pg = pg_capacity (qs_page s)" by auto
  have hits: "pg_hits pg = take (pg_capacity (qs_page s)) (drop first hits)"
    unfolding l(4) by (simp add: min_def)
  have "read_page hf first (s, w) =
      (Ok (first, take (pg_capacity (qs_page s)) (drop first hits)), (s\<lparr>qs_page := pg\<rparr>, w'))"
    using l(1,5) hits n(1)
    by (simp add: read_page_def and_then_def update_state_def with_state_def give_def)
  moreover have "page_caches pg hits"
    using n(2) unfolding page_caches_def l(5,6) l(4) by (simp add: min_def)
  ultimately show ?thesis
    using l(2,3,5,6) hits assms(2) by (intro exI [of _ w'] exI [of _ pg]) (simp add: store_holds_def)
qed

lemma read_hit_ok:
  assumes "world_ok w" "store_holds s (contents w) hits" "24 * length hits + 72 \<le> u64_max"
  shows "\<exists>w' pg. read_hit hf i (s, w) =
      (Ok (if i < length hits then Some (hits ! i) else None), (s\<lparr>qs_page := pg\<rparr>, w'))
    \<and> world_ok w' \<and> contents w' = contents w \<and> store_holds (s\<lparr>qs_page := pg\<rparr>) (contents w') hits"
proof -
  have n: "sc_entries (qs_scratch s) = length hits" and pc: "page_caches (qs_page s) hits"
    using assms(2) by (simp_all add: store_holds_def)
  have cached: "cached_hit t i = Some (hits ! i)"
    if "page_caches (qs_page t) hits" "i < length hits" "pg_first_hit (qs_page t) \<le> i"
      "i < pg_first_hit (qs_page t) + length (pg_hits (qs_page t))" for t
  proof -
    have "pg_hits (qs_page t) ! (i - pg_first_hit (qs_page t))
        = take (length (pg_hits (qs_page t))) (drop (pg_first_hit (qs_page t)) hits) ! (i - pg_first_hit (qs_page t))"
      using that(1) by (simp add: page_caches_def)
    also have "\<dots> = hits ! i" using that(2-4) by simp
    finally show ?thesis using that(3,4) by (simp add: cached_hit_def checked_sub_def)
  qed
  show ?thesis
  proof (cases "i < length hits")
    case False
    with n assms show ?thesis
      by (intro exI [of _ w] exI [of _ "qs_page s"]) (simp add: read_hit_def with_state_def give_def)
  next
    case i: True
    show ?thesis
    proof (cases "cached_hit s i")
      case (Some h)
      then have "pg_first_hit (qs_page s) \<le> i"
        "i < pg_first_hit (qs_page s) + length (pg_hits (qs_page s))"
        by (auto simp: cached_hit_def checked_sub_def split: if_splits)
      with cached [OF pc i] Some have "h = hits ! i" by simp
      with Some i n assms show ?thesis
        by (intro exI [of _ w] exI [of _ "qs_page s"]) (simp add: read_hit_def with_state_def give_def)
    next
      case None
      let ?cap = "pg_capacity (qs_page s)"
      let ?first = "i div ?cap * ?cap"
      from read_page_ok [OF assms, of ?first] obtain w' pg where
        p: "read_page hf ?first (s, w) = (Ok (?first, take ?cap (drop ?first hits)), (s\<lparr>qs_page := pg\<rparr>, w'))"
        "world_ok w'" "contents w' = contents w" "store_holds (s\<lparr>qs_page := pg\<rparr>) (contents w') hits"
        "pg_first_hit pg = ?first" "pg_hits pg = take ?cap (drop ?first hits)" by blast
      have cap: "0 < ?cap" using pc by (simp add: page_caches_def)
      have "?first \<le> i" by simp
      moreover have "i < ?first + ?cap"
        using div_mult_mod_eq [of i ?cap] mod_less_divisor [OF cap, of i] by linarith
      ultimately have "cached_hit (s\<lparr>qs_page := pg\<rparr>) i = Some (hits ! i)"
        using p(4-6) i by (intro cached) (auto simp: store_holds_def)
      with None i n p show ?thesis
        by (intro exI [of _ w'] exI [of _ pg])
          (simp add: read_hit_def with_state_def give_def and_then_def)
    qed
  qed
qed

end

end
