(* ===== verification/Query_Correct.thy ===== *)
theory Query_Correct imports Query_Store Formats begin

text \<open>
  A query finds every occurrence of its literal.  \<open>record_hits\<close> and \<open>all_hits\<close> say what it is to
  find, in terms of the records of the format and of \<open>suffix\<close>; \<open>query_inv\<close> is the invariant of the
  session between passes, and \<open>work_left\<close> bounds the passes that are still to come.
\<close>

section \<open>The hits of a file\<close>

definition record_hits_upto :: "compiled_literal \<Rightarrow> bytes \<Rightarrow> nat \<Rightarrow> record_span \<Rightarrow> nat \<Rightarrow> query_hit list" where
  "record_hits_upto lit data row r k =
     map (\<lambda>e. \<lparr>hit_row = row, hit_span = mk_span (span_start r + e - length (lit_bytes lit)) (span_start r + e)\<rparr>)
       (occurrence_ends lit (segment data (span_start r) (span_end r)) 0 k)"

definition record_hits :: "compiled_literal \<Rightarrow> bytes \<Rightarrow> nat \<Rightarrow> record_span \<Rightarrow> query_hit list" where
  "record_hits lit data row r = record_hits_upto lit data row r (span_end r - span_start r)"

definition hits_before :: "compiled_literal \<Rightarrow> bytes \<Rightarrow> record_span list \<Rightarrow> nat \<Rightarrow> query_hit list" where
  "hits_before lit data rs n = concat (map (\<lambda>i. record_hits lit data i (rs ! i)) [0..<n])"

definition all_hits :: "compiled_literal \<Rightarrow> bytes \<Rightarrow> record_span list \<Rightarrow> query_hit list" where
  "all_hits lit data rs = hits_before lit data rs (length rs)"

lemma hits_before_Suc:
  "hits_before lit data rs (Suc n) = hits_before lit data rs n @ record_hits lit data n (rs ! n)"
  by (simp add: hits_before_def)

lemma occurrence_ends_Suc:
  "occurrence_ends lit bs 0 (Suc k) = occurrence_ends lit bs 0 k
     @ (if suffix (lit_bytes lit) (folded lit (take (Suc k) bs)) then [Suc k] else [])"
  by (simp add: occurrence_ends_def)

lemma record_hits_upto_0: "record_hits_upto lit data row r 0 = []"
  by (simp add: record_hits_upto_def occurrence_ends_def)

lemma record_hits_upto_Suc:
  "record_hits_upto lit data row r (Suc k) = record_hits_upto lit data row r k
     @ (if suffix (lit_bytes lit) (folded lit (take (Suc k) (segment data (span_start r) (span_end r))))
        then [\<lparr>hit_row = row, hit_span = mk_span (span_start r + Suc k - length (lit_bytes lit))
                (span_start r + Suc k)\<rparr>] else [])"
  by (simp add: record_hits_upto_def occurrence_ends_Suc)

lemma length_record_hits_upto: "length (record_hits_upto lit data row r k) \<le> k"
  unfolding record_hits_upto_def occurrence_ends_def
  by (simp only: length_map) (rule order_trans [OF length_filter_le], simp)

lemma record_hits_upto_prefix:
  "k \<le> m \<Longrightarrow> prefix (record_hits_upto lit data row r k) (record_hits_upto lit data row r m)"
proof (induction rule: dec_induct)
  case (step n)
  have "prefix (record_hits_upto lit data row r n) (record_hits_upto lit data row r (Suc n))"
    unfolding record_hits_upto_Suc by (rule prefixI, rule refl)
  with step.IH show ?case by (rule prefix_order.trans)
qed simp

lemma hits_before_prefix:
  "n \<le> m \<Longrightarrow> prefix (hits_before lit data rs n) (hits_before lit data rs m)"
proof (induction rule: dec_induct)
  case (step k)
  have "prefix (hits_before lit data rs k) (hits_before lit data rs (Suc k))"
    unfolding hits_before_Suc by (rule prefixI, rule refl)
  with step.IH show ?case by (rule prefix_order.trans)
qed simp

lemma partial_hits_prefix:
  assumes "i < length rs" "k \<le> span_end (rs ! i) - span_start (rs ! i)"
  shows "prefix (hits_before lit data rs i @ record_hits_upto lit data i (rs ! i) k) (all_hits lit data rs)"
proof -
  have "prefix (hits_before lit data rs i @ record_hits_upto lit data i (rs ! i) k)
      (hits_before lit data rs (Suc i))"
    unfolding hits_before_Suc record_hits_def same_prefix_prefix
    by (rule record_hits_upto_prefix [OF assms(2)])
  also have "prefix \<dots> (all_hits lit data rs)"
    unfolding all_hits_def using assms(1) by (intro hits_before_prefix) simp
  finally show ?thesis .
qed

section \<open>The records have room in the file\<close>

definition record_lengths :: "record_span list \<Rightarrow> nat" where
  "record_lengths rs = sum_list (map (\<lambda>r. span_end r - span_start r) rs)"

lemma tiles_lengths: "tiles data p rs \<Longrightarrow> p \<le> length data \<Longrightarrow> record_lengths rs + p \<le> length data"
proof (induction data p rs rule: tiles.induct)
  case (2 data p r rs)
  show ?case
  proof (cases "span_end r = length data")
    case True
    with 2 show ?thesis by (simp add: record_lengths_def)
  next
    case False
    let ?q = "Suc (span_end r) + crlf_tail (data ! span_end r) (drop (Suc (span_end r)) data)"
    have "span_end r < length data" using 2 False by simp
    then have "?q \<le> length data"
      using crlf_tail_le [of "data ! span_end r" "drop (Suc (span_end r)) data"] by simp
    then have "record_lengths rs + ?q \<le> length data" using 2 False by simp
    then show ?thesis using 2 by (simp add: record_lengths_def)
  qed
qed (simp add: record_lengths_def)

lemma record_lengths_format: "record_lengths (format_records fmt 0 data) \<le> length data"
  using tiles_lengths [OF format_records_tiles, of data fmt] by simp

lemma length_hits_before:
  "n \<le> length rs \<Longrightarrow> length (hits_before lit data rs n) \<le> record_lengths (take n rs)"
proof (induction n)
  case (Suc n)
  then have n: "n < length rs" by simp
  have "length (record_hits lit data n (rs ! n)) \<le> span_end (rs ! n) - span_start (rs ! n)"
    unfolding record_hits_def by (rule length_record_hits_upto)
  with Suc n show ?case
    by (simp add: hits_before_Suc take_Suc_conv_app_nth record_lengths_def)
qed (simp add: hits_before_def)

lemma length_all_hits: "length (all_hits lit data (format_records fmt 0 data)) \<le> length data"
  using length_hits_before [of "length (format_records fmt 0 data)" "format_records fmt 0 data" lit data]
    record_lengths_format [of fmt data] unfolding all_hits_def by simp

section \<open>The pending record\<close>

definition pending_ok :: "compiled_literal \<Rightarrow> bytes \<Rightarrow> record_span list \<Rightarrow> pending_record \<Rightarrow> bool" where
  "pending_ok lit data rs p \<longleftrightarrow> pr_row p < length rs \<and> pr_span p = rs ! pr_row p
     \<and> span_start (pr_span p) \<le> pr_cursor p \<and> pr_cursor p \<le> span_end (pr_span p)
     \<and> is_state (lit_bytes lit) (folded lit (segment data (span_start (pr_span p)) (pr_cursor p)))
         (pr_matcher_state p)"

definition pending_hits :: "compiled_literal \<Rightarrow> bytes \<Rightarrow> record_span list \<Rightarrow> pending_record \<Rightarrow> query_hit list" where
  "pending_hits lit data rs p = hits_before lit data rs (pr_row p)
     @ record_hits_upto lit data (pr_row p) (pr_span p) (pr_cursor p - span_start (pr_span p))"

definition moved :: "pending_record \<Rightarrow> nat \<Rightarrow> nat \<Rightarrow> pending_record" where
  "moved p k st = p\<lparr>pr_cursor := pr_cursor p + k, pr_matcher_state := st\<rparr>"

lemma moved_sel [simp]:
  "pr_row (moved p k st) = pr_row p" "pr_span (moved p k st) = pr_span p"
  "pr_cursor (moved p k st) = pr_cursor p + k" "pr_matcher_state (moved p k st) = st"
  by (simp_all add: moved_def)

lemma moved_0: "moved p 0 (pr_matcher_state p) = p"
  by (simp add: moved_def)

lemma pending_hits_prefix:
  "pending_ok lit data rs p \<Longrightarrow> prefix (pending_hits lit data rs p) (all_hits lit data rs)"
  unfolding pending_hits_def pending_ok_def
  by (metis partial_hits_prefix diff_le_mono)

lemma pending_step:
  assumes lit: "literal_ok lit" and p: "pending_ok lit data rs (moved p k st)"
    and inside: "pr_cursor p + k < span_end (pr_span p)" and len: "span_end (pr_span p) \<le> length data"
  obtains st' m where "literal_advance lit st (data ! (pr_cursor p + k)) = Some (st', m)"
    "pending_ok lit data rs (moved p (Suc k) st')"
    "pending_hits lit data rs (moved p (Suc k) st') = pending_hits lit data rs (moved p k st) @
       (if m then [\<lparr>hit_row = pr_row p, hit_span =
          mk_span (pr_cursor p + Suc k - length (lit_bytes lit)) (pr_cursor p + Suc k)\<rparr>] else [])"
    "m \<longrightarrow> length (lit_bytes lit) \<le> pr_cursor p + Suc k"
proof -
  let ?a = "span_start (pr_span p)" and ?z = "span_end (pr_span p)" and ?c = "pr_cursor p + k"
  let ?d = "?c - ?a" and ?seg = "segment data ?a ?z"
  from p have ac: "?a \<le> ?c" unfolding pending_ok_def moved_sel by blast
  have snoc: "segment data ?a (Suc ?c) = segment data ?a ?c @ [data ! ?c]"
    using ac inside len by (simp add: segment_def Suc_diff_le take_Suc_conv_app_nth)
  have pre: "take (Suc ?d) ?seg = segment data ?a (Suc ?c)"
    using ac inside by (simp add: segment_def Suc_diff_le min_def)
  have "is_state (lit_bytes lit) (folded lit (segment data ?a ?c)) st"
    using p unfolding pending_ok_def moved_sel by blast
  from literal_advance_spec [OF lit this, of "data ! ?c"] obtain st' where
    adv: "literal_advance lit st (data ! ?c)
        = Some (st', suffix (lit_bytes lit) (folded lit (segment data ?a (Suc ?c))))"
    "is_state (lit_bytes lit) (folded lit (segment data ?a (Suc ?c))) st'" unfolding snoc by blast
  have "pending_ok lit data rs (moved p (Suc k) st')"
    using p ac inside adv(2) unfolding pending_ok_def moved_sel add_Suc_right
    by (blast intro: le_SucI Suc_leI)
  moreover have d: "pr_cursor p + Suc k - ?a = Suc ?d" "?a + Suc ?d = pr_cursor p + Suc k"
    using ac by simp_all
  have "pending_hits lit data rs (moved p (Suc k) st') = pending_hits lit data rs (moved p k st) @
      (if suffix (lit_bytes lit) (folded lit (segment data ?a (Suc ?c)))
       then [\<lparr>hit_row = pr_row p, hit_span =
          mk_span (pr_cursor p + Suc k - length (lit_bytes lit)) (pr_cursor p + Suc k)\<rparr>] else [])"
    unfolding pending_hits_def moved_sel d(1) record_hits_upto_Suc pre d(2) by (simp only: append_assoc)
  moreover have "suffix (lit_bytes lit) (folded lit (segment data ?a (Suc ?c)))
      \<longrightarrow> length (lit_bytes lit) \<le> pr_cursor p + Suc k"
  proof
    assume "suffix (lit_bytes lit) (folded lit (segment data ?a (Suc ?c)))"
    from suffix_length_le [OF this] have "length (lit_bytes lit) \<le> length (segment data ?a (Suc ?c))"
      by (simp add: folded_def)
    also have "\<dots> \<le> Suc ?c - ?a" unfolding segment_def by (simp only: length_take min.cobounded2)
    finally show "length (lit_bytes lit) \<le> pr_cursor p + Suc k" by linarith
  qed
  ultimately show thesis using adv(1) that by blast
qed

section \<open>Matching\<close>

definition quota_report :: "scratch_store \<Rightarrow> quota_exceeded \<Rightarrow> bool" where
  "quota_report sc d \<longleftrightarrow> qe_quota_bytes d = sc_quota_bytes sc \<and> qe_used_bytes d = sc_used_bytes sc
     \<and> qe_stored_hits d = sc_entries sc \<and> qe_required_bytes d = sc_used_bytes sc + 24
     \<and> sc_quota_bytes sc < qe_required_bytes d"

locale query_engine = query_world env data base world_ok hf contents may_fail
  for env :: "'w environment" and data base world_ok hf and contents :: "'w \<Rightarrow> bytes" and may_fail +
  fixes gen :: cancellation_generation and may_cancel :: bool
    and fmt :: viewport_format and lit :: compiled_literal and quota :: nat
  assumes data_small: "24 * length data + 72 \<le> u64_max"
    and lit_ok: "literal_ok lit"
    and load_may_cancel: "world_ok w \<Longrightarrow> is_cancelled (fst (env_load_token env w)) gen \<Longrightarrow> may_cancel"
    and feed_may_cancel: "world_ok w \<Longrightarrow> is_cancelled (fst (env_feed_tokens env w) n) gen \<Longrightarrow> may_cancel"
begin

abbreviation records :: "record_span list" where
  "records \<equiv> format_records fmt 0 data"

text \<open>
  What is left of a session when a write to its scratch file failed: the hits stored before are held
  and are the first ones of the file.
\<close>

definition lost :: "query_error \<Rightarrow> query_session \<times> 'w \<Rightarrow> bool" where
  "lost e sw \<longleftrightarrow> may_fail \<and> (\<exists>io. e = QIo io) \<and> world_ok (snd sw) \<and>
     (\<exists>hits. store_holds (fst sw) (contents (snd sw)) hits \<and> prefix hits (all_hits lit data records))"

definition match_post ::
    "query_session \<Rightarrow> pending_record \<Rightarrow> nat \<Rightarrow> pending_advance \<Rightarrow> query_session \<times> 'w \<Rightarrow> bool" where
  "match_post s p m a sw \<longleftrightarrow> (\<exists>st sc pg hits.
     pa_processed a \<le> m \<and> world_ok (snd sw) \<and> sc_quota_bytes sc = quota
     \<and> fst sw = s\<lparr>qs_scratch := sc, qs_page := pg, qs_pending := Some (moved p (pa_processed a) st)\<rparr>
     \<and> pending_ok lit data records (moved p (pa_processed a) st)
     \<and> store_holds (fst sw) (contents (snd sw)) hits
     \<and> (case pa_status a of
          PendingQuota d \<Rightarrow>
            pending_hits lit data records (moved p (pa_processed a) st) = hits @ [qe_rejected_hit d]
            \<and> quota_report sc d
        | PendingCancelled \<Rightarrow>
            pending_hits lit data records (moved p (pa_processed a) st) = hits \<and> may_cancel
        | PendingRunning \<Rightarrow>
            pending_hits lit data records (moved p (pa_processed a) st) = hits \<and> pa_processed a = m
        | PendingComplete \<Rightarrow>
            pending_hits lit data records (moved p (pa_processed a) st) = hits
            \<and> pr_cursor p + pa_processed a = span_end (pr_span p)))"

lemma token_cancelled_yields:
  assumes "world_ok w"
    and "\<And>w'. world_ok w' \<Longrightarrow> contents w' = contents w \<Longrightarrow> Q False w'"
    and "\<And>w'. world_ok w' \<Longrightarrow> contents w' = contents w \<Longrightarrow> may_cancel \<Longrightarrow> Q True w'"
  shows "ends F (token_cancelled env gen) w Q"
  using assms(2,3) [of "snd (env_load_token env w)"] load_may_cancel [OF assms(1)]
    load_token_ok [OF assms(1)] load_keeps [OF assms(1)]
  by (cases "is_cancelled (fst (env_load_token env w)) gen")
    (auto simp: ends_def token_cancelled_def split: prod.split)

lemma update_pending_cursor_yields:
  assumes "qs_pending s = Some p" "pr_cursor p + k \<le> u64_max"
    and "Q () (s\<lparr>qs_pending := Some (moved p k st)\<rparr>, w)"
  shows "ends F (update_pending_cursor (pr_cursor p) k st) (s, w) Q"
  using assms by (simp add: update_pending_cursor_def checked_add_def wp_simps moved_def)

lemma pending_small:
  assumes "pending_ok lit data records p"
  shows "pr_row p < length data" "span_end (pr_span p) \<le> length data"
    "pr_cursor p \<le> span_end (pr_span p)"
    "24 * length (pending_hits lit data records p) + 72 \<le> u64_max"
proof -
  have p: "pr_row p < length records" "pr_span p = records ! pr_row p"
    using assms by (simp_all add: pending_ok_def)
  show "pr_row p < length data" using p(1) format_records_length [of fmt 0 data] by linarith
  have "pr_span p \<in> set records" using p by simp
  from format_records_valid [OF this] show "span_end (pr_span p) \<le> length data" by simp
  show "pr_cursor p \<le> span_end (pr_span p)" using assms unfolding pending_ok_def by blast
  have "length (pending_hits lit data records p) \<le> length data"
    using prefix_length_le [OF pending_hits_prefix [OF assms]] length_all_hits [of lit data fmt]
    by (rule order_trans)
  then show "24 * length (pending_hits lit data records p) + 72 \<le> u64_max" using data_small by linarith
qed

lemma match_loop_ok:
  assumes "world_ok w" "qs_pending s = Some p" "pending_ok lit data records (moved p k st)"
    and "store_holds s (contents w) (pending_hits lit data records (moved p k st))"
    and "sc_quota_bytes (qs_scratch s) = quota"
    and "bs = take (length bs) (drop (pr_cursor p + k) data)"
    and "pr_cursor p + k + length bs \<le> span_end (pr_span p)"
  shows "ends lost (match_loop env hf gen p lit check k st bs) (s, w) (match_post s p (k + length bs))"
  using assms
proof (induction bs arbitrary: s w k st)
  case Nil
  from pending_small [OF Nil.prems(3)] data_small
  have fit: "pr_cursor p + k \<le> u64_max" by simp
  show ?case
    unfolding match_loop.simps ends_and_then
    by (rule update_pending_cursor_yields [OF Nil.prems(2) fit])
      (use Nil.prems in \<open>auto simp: wp_simps match_post_def store_holds_def
         intro!: exI [of _ st] exI [of _ "qs_scratch s"] exI [of _ "qs_page s"]\<close>)
next
  case (Cons b bs)
  note small = pending_small [OF Cons.prems(3), unfolded moved_sel]
  have fit: "pr_cursor p + k \<le> u64_max" using small data_small by simp
  have inside: "pr_cursor p + k < span_end (pr_span p)" using Cons.prems(7) by simp
  have off: "pr_cursor p + k < length data" using inside small(2) by simp
  have dr: "drop (pr_cursor p + k) data = data ! (pr_cursor p + k) # drop (pr_cursor p + Suc k) data"
    using off by (simp add: Cons_nth_drop_Suc)
  have b: "data ! (pr_cursor p + k) = b" and bs: "bs = take (length bs) (drop (pr_cursor p + Suc k) data)"
    using Cons.prems(6) unfolding dr by simp_all
  from pending_step [OF lit_ok Cons.prems(3) inside small(2)] obtain st' m where
    adv: "literal_advance lit st b = Some (st', m)"
    "pending_ok lit data records (moved p (Suc k) st')"
    "pending_hits lit data records (moved p (Suc k) st') = pending_hits lit data records (moved p k st) @
       (if m then [\<lparr>hit_row = pr_row p, hit_span =
          mk_span (pr_cursor p + Suc k - length (lit_bytes lit)) (pr_cursor p + Suc k)\<rparr>] else [])"
    "m \<longrightarrow> length (lit_bytes lit) \<le> pr_cursor p + Suc k" unfolding b by blast
  have room: "pr_cursor p + Suc k + length bs \<le> span_end (pr_span p)" using Cons.prems(7) by simp
  let ?rest = "case literal_advance lit st b of
          None \<Rightarrow> panic
        | Some (st', matched) \<Rightarrow>
            (if matched then
               (case Option.bind (checked_add (pr_cursor p) (Suc k)) (\<lambda>end.
                     Option.bind (checked_sub end (length (lit_bytes lit))) (\<lambda>start.
                       case span_new start end of Inl _ \<Rightarrow> None | Inr sp \<Rightarrow> Some sp)) of
                  None \<Rightarrow> fail QAddressSpace
                | Some sp \<Rightarrow>
                    and_then (append_hit hf \<lparr>hit_row = pr_row p, hit_span = sp\<rparr>) (\<lambda>details.
                    case details of
                      Some d \<Rightarrow>
                        and_then (update_pending_cursor (pr_cursor p) (Suc k) st')
                          (\<lambda>_. give \<lparr>pa_processed = Suc k, pa_status = PendingQuota d\<rparr>)
                    | None \<Rightarrow> match_loop env hf gen p lit check (Suc k) st' bs))
             else match_loop env hf gen p lit check (Suc k) st' bs)"
  have rest: "ends lost ?rest (s, w') (match_post s p (k + length (b # bs)))"
    if w': "world_ok w'" "contents w' = contents w" for w'
  proof (cases m)
    case False
    have "store_holds s (contents w') (pending_hits lit data records (moved p (Suc k) st'))"
      using Cons.prems(4) w'(2) adv(3) False by simp
    from Cons.IH [OF w'(1) Cons.prems(2) adv(2) this Cons.prems(5) bs room] False show ?thesis
      by (simp add: adv(1))
  next
    case True
    let ?h = "\<lparr>hit_row = pr_row p, hit_span =
        mk_span (pr_cursor p + Suc k - length (lit_bytes lit)) (pr_cursor p + Suc k)\<rparr>"
    let ?hits = "pending_hits lit data records (moved p k st)"
    have le: "length (lit_bytes lit) \<le> pr_cursor p + Suc k" "pr_cursor p + Suc k \<le> u64_max"
      using adv(4) True off data_small by simp_all
    then have sp: "Option.bind (checked_add (pr_cursor p) (Suc k)) (\<lambda>end.
        Option.bind (checked_sub end (length (lit_bytes lit))) (\<lambda>start.
          case span_new start end of Inl _ \<Rightarrow> None | Inr sp \<Rightarrow> Some sp)) = Some (hit_span ?h)"
      by (simp add: checked_add_def checked_sub_def span_new_def)
    have eq: "?rest = and_then (append_hit hf ?h) (\<lambda>details. case details of
            Some d \<Rightarrow> and_then (update_pending_cursor (pr_cursor p) (Suc k) st')
                (\<lambda>_. give \<lparr>pa_processed = Suc k, pa_status = PendingQuota d\<rparr>)
          | None \<Rightarrow> match_loop env hf gen p lit check (Suc k) st' bs)"
      using True by (simp add: adv(1) sp)
    have fits: "hit_fits ?h" using le small(1) data_small by (simp add: hit_fits_def)
    have st0: "store_holds s (contents w') ?hits" using Cons.prems(4) w'(2) by simp
    from append_hit_ok [OF w'(1) st0 fits small(4)] show ?thesis
    proof (elim disjE)
      assume "may_fail \<and> (\<exists>e w2. append_hit hf ?h (s, w') = (Err (QIo e), (s, w2)) \<and> world_ok w2 \<and>
         store_holds s (contents w2) ?hits)"
      then obtain e w2 where failed: "may_fail" "append_hit hf ?h (s, w') = (Err (QIo e), (s, w2))"
        "world_ok w2" "store_holds s (contents w2) ?hits" by blast
      have "prefix ?hits (all_hits lit data records)"
        by (rule pending_hits_prefix [OF Cons.prems(3)])
      with failed have "lost (QIo e) (s, w2)"
        unfolding lost_def by (intro conjI exI [of _ ?hits]) simp_all
      with failed(2) show ?thesis
        unfolding eq by (simp add: ends_def and_then_def)
    next
      assume full: "sc_quota_bytes (qs_scratch s) < 48 + 24 * length (?hits @ [?h]) \<and>
        append_hit hf ?h (s, w') = (Ok (Some
          \<lparr>qe_quota_bytes = sc_quota_bytes (qs_scratch s), qe_used_bytes = 48 + 24 * length ?hits,
           qe_required_bytes = 48 + 24 * length (?hits @ [?h]), qe_stored_hits = length ?hits,
           qe_rejected_hit = ?h\<rparr>), (s, w'))"
      let ?d = "\<lparr>qe_quota_bytes = sc_quota_bytes (qs_scratch s), qe_used_bytes = 48 + 24 * length ?hits,
           qe_required_bytes = 48 + 24 * length (?hits @ [?h]), qe_stored_hits = length ?hits,
           qe_rejected_hit = ?h\<rparr>"
      have "quota_report (qs_scratch s) ?d"
        using full st0 by (simp add: quota_report_def store_holds_def)
      then have "match_post s p (k + length (b # bs)) \<lparr>pa_processed = Suc k, pa_status = PendingQuota ?d\<rparr>
          (s\<lparr>qs_pending := Some (moved p (Suc k) st')\<rparr>, w')"
        using st0 w'(1) adv(2,3) True Cons.prems(5)
        unfolding match_post_def
        by (intro exI [of _ st'] exI [of _ "qs_scratch s"] exI [of _ "qs_page s"] exI [of _ ?hits])
          (simp add: store_holds_def)
      then have "ends lost (and_then (update_pending_cursor (pr_cursor p) (Suc k) st')
            (\<lambda>_. give \<lparr>pa_processed = Suc k, pa_status = PendingQuota ?d\<rparr>)) (s, w')
          (match_post s p (k + length (b # bs)))"
        unfolding ends_and_then ends_give
        by (intro update_pending_cursor_yields [OF Cons.prems(2) le(2)])
      with full show ?thesis
        unfolding eq ends_and_then [where m = "append_hit hf ?h"]
        by (intro endsI [where m = "append_hit hf ?h", OF conjunct2 [OF full]]) (simp only: option.case)
    next
      assume "48 + 24 * length (?hits @ [?h]) \<le> sc_quota_bytes (qs_scratch s) \<and>
        (\<exists>sc pg w2. append_hit hf ?h (s, w') = (Ok None, (s\<lparr>qs_scratch := sc, qs_page := pg\<rparr>, w2))
         \<and> world_ok w2 \<and> store_holds (s\<lparr>qs_scratch := sc, qs_page := pg\<rparr>) (contents w2) (?hits @ [?h])
         \<and> sc_quota_bytes sc = sc_quota_bytes (qs_scratch s))"
      then obtain sc pg w2 where
        ap: "append_hit hf ?h (s, w') = (Ok None, (s\<lparr>qs_scratch := sc, qs_page := pg\<rparr>, w2))" "world_ok w2"
        "store_holds (s\<lparr>qs_scratch := sc, qs_page := pg\<rparr>) (contents w2) (?hits @ [?h])"
        "sc_quota_bytes sc = quota" using Cons.prems(5) by auto
      let ?s = "s\<lparr>qs_scratch := sc, qs_page := pg\<rparr>"
      have "ends lost (match_loop env hf gen p lit check (Suc k) st' bs) (?s, w2)
          (match_post ?s p (Suc k + length bs))"
        using ap(2-4) True adv(3) Cons.prems(2)
        by (intro Cons.IH [OF _ _ adv(2) _ _ bs room]) simp_all
      then have "ends lost (match_loop env hf gen p lit check (Suc k) st' bs) (?s, w2)
          (match_post s p (k + length (b # bs)))"
        by (rule ends_weaken) (auto simp: match_post_def)
      then show ?thesis
        unfolding eq ends_and_then [where m = "append_hit hf ?h"]
        by (intro endsI [where m = "append_hit hf ?h", OF ap(1)]) (simp only: option.case)
    qed
  qed
  have stop: "ends lost (and_then (update_pending_cursor (pr_cursor p) k st)
      (\<lambda>_. give \<lparr>pa_processed = k, pa_status = PendingCancelled\<rparr>)) (s, w')
        (match_post s p (k + length (b # bs)))"
    if w': "world_ok w'" "contents w' = contents w" may_cancel for w'
  proof -
    have "match_post s p (k + length (b # bs)) \<lparr>pa_processed = k, pa_status = PendingCancelled\<rparr>
        (s\<lparr>qs_pending := Some (moved p k st)\<rparr>, w')"
      unfolding match_post_def
      by (intro exI [of _ st] exI [of _ "qs_scratch s"] exI [of _ "qs_page s"]
          exI [of _ "pending_hits lit data records (moved p k st)"])
        (use w' Cons.prems(2-5) in \<open>simp add: store_holds_def\<close>)
    then show ?thesis
      unfolding ends_and_then ends_give
      by (intro update_pending_cursor_yields [OF Cons.prems(2) fit])
  qed
  show ?case
    unfolding match_loop.simps ends_and_then
    using rest [OF Cons.prems(1) refl] rest stop
    by (auto simp: ends_give ends_on_world intro!: token_cancelled_yields [OF Cons.prems(1)])
qed

end

end
