(* ===== verification/Query_Search.thy ===== *)
theory Query_Search imports Query_Correct begin

text \<open>
  The invariant of a query session and its preservation by every pass of \<open>advance\<close>, with the
  measure that shows the loop ends; then the properties of whole calls.
\<close>

section \<open>The invariant\<close>

definition scanner_at :: "bytes \<Rightarrow> viewport_format \<Rightarrow> query_session \<Rightarrow> bool" where
  "scanner_at data fmt s \<longleftrightarrow> qs_next_row s \<le> length (format_records fmt 0 data) \<and>
     (case qs_scanner s of
        None \<Rightarrow> qs_next_row s = length (format_records fmt 0 data)
          \<and> qs_diagnostic s = format_diagnostic fmt 0 data
      | Some sc \<Rightarrow> scanner_ok sc \<and> boundary_scanner_offset sc \<le> length data
          \<and> scanner_rest sc (drop (boundary_scanner_offset sc) data)
              = drop (qs_next_row s) (format_records fmt 0 data)
          \<and> scanner_diagnostic sc (drop (boundary_scanner_offset sc) data) = format_diagnostic fmt 0 data)"

definition examining :: "compiled_literal \<Rightarrow> bytes \<Rightarrow> record_span list \<Rightarrow> query_session \<Rightarrow> bool" where
  "examining lit data rs s \<longleftrightarrow>
     (case qs_pending s of
        None \<Rightarrow> qs_examined_records s = qs_next_row s
      | Some p \<Rightarrow> pending_ok lit data rs p \<and> qs_examined_records s = pr_row p
          \<and> qs_next_row s = Suc (pr_row p))"

definition found :: "compiled_literal \<Rightarrow> bytes \<Rightarrow> record_span list \<Rightarrow> query_session \<Rightarrow> query_hit list" where
  "found lit data rs s =
     (case qs_pending s of
        None \<Rightarrow> hits_before lit data rs (qs_next_row s) | Some p \<Rightarrow> pending_hits lit data rs p)"

definition rejected :: "query_status \<Rightarrow> query_hit list" where
  "rejected st = (case st of QQuotaExceeded d \<Rightarrow> [qe_rejected_hit d] | _ \<Rightarrow> [])"

definition status_ok :: "query_session \<Rightarrow> bool" where
  "status_ok s \<longleftrightarrow>
     (case qs_status s of
        QComplete \<Rightarrow> qs_scanner s = None \<and> qs_pending s = None
      | QQuotaExceeded d \<Rightarrow> quota_report (qs_scratch s) d
      | _ \<Rightarrow> True)"

definition query_ok ::
    "bytes \<Rightarrow> viewport_format \<Rightarrow> source_fingerprint \<Rightarrow> compiled_literal \<Rightarrow> nat
     \<Rightarrow> query_session \<Rightarrow> bytes \<Rightarrow> bool" where
  "query_ok data fmt base lit quota s c \<longleftrightarrow>
     qs_snapshot s = base \<and> qs_failure s = None \<and> qs_literal s = lit \<and> qs_buffer s \<noteq> []
     \<and> sc_quota_bytes (qs_scratch s) = quota
     \<and> scanner_at data fmt s \<and> examining lit data (format_records fmt 0 data) s \<and> status_ok s
     \<and> (\<exists>hits. store_holds s c hits
          \<and> found lit data (format_records fmt 0 data) s = hits @ rejected (qs_status s))"

definition work_left :: "bytes \<Rightarrow> record_span list \<Rightarrow> query_session \<Rightarrow> nat" where
  "work_left data rs s =
     (case qs_scanner s of None \<Rightarrow> 0 | Some sc \<Rightarrow> Suc (length data - boundary_scanner_offset sc))
     + (record_lengths (drop (qs_next_row s) rs) + 2 * length (drop (qs_next_row s) rs))
     + (case qs_pending s of None \<Rightarrow> 0 | Some p \<Rightarrow> Suc (span_end (pr_span p) - pr_cursor p))"

lemma scanner_at_updates [simp]:
  "scanner_at data fmt (s\<lparr>qs_buffer := b\<rparr>) = scanner_at data fmt s"
  "scanner_at data fmt (s\<lparr>qs_scratch := sc\<rparr>) = scanner_at data fmt s"
  "scanner_at data fmt (s\<lparr>qs_page := pg\<rparr>) = scanner_at data fmt s"
  "scanner_at data fmt (s\<lparr>qs_pending := p\<rparr>) = scanner_at data fmt s"
  "scanner_at data fmt (s\<lparr>qs_status := st\<rparr>) = scanner_at data fmt s"
  "scanner_at data fmt (s\<lparr>qs_examined_records := n\<rparr>) = scanner_at data fmt s"
  by (cases "qs_scanner s"; simp add: scanner_at_def)+

lemma record_lengths_drop:
  "i < length rs \<Longrightarrow>
     record_lengths (drop i rs) = span_end (rs ! i) - span_start (rs ! i) + record_lengths (drop (Suc i) rs)"
  by (simp add: record_lengths_def Cons_nth_drop_Suc [symmetric])

lemma record_lengths_drop_le: "record_lengths (drop i rs) \<le> record_lengths rs"
proof -
  have "record_lengths rs = record_lengths (take i rs) + record_lengths (drop i rs)"
    unfolding record_lengths_def by (metis append_take_drop_id map_append sum_list_append)
  then show ?thesis by simp
qed

lemma work_left_bound:
  assumes "query_ok data fmt base lit quota s c"
  shows "work_left data (format_records fmt 0 data) s \<le> 4 * length data + 1"
proof -
  let ?rs = "format_records fmt 0 data" and ?n = "qs_next_row s"
  have ex: "examining lit data ?rs s" using assms by (simp add: query_ok_def)
  have len: "length ?rs \<le> length data" by (rule format_records_length)
  have tot: "record_lengths (drop i ?rs) \<le> length data" for i
    using record_lengths_drop_le [of i ?rs] record_lengths_format [of fmt data] by (rule order_trans)
  have "(record_lengths (drop ?n ?rs) + 2 * length (drop ?n ?rs))
     + (case qs_pending s of None \<Rightarrow> 0 | Some p \<Rightarrow> Suc (span_end (pr_span p) - pr_cursor p)) \<le> 3 * length data"
  proof (cases "qs_pending s")
    case None
    then show ?thesis using tot [of ?n] len by simp
  next
    case (Some p)
    with ex have p: "pending_ok lit data ?rs p" and n: "?n = Suc (pr_row p)" by (simp_all add: examining_def)
    have r: "pr_row p < length ?rs" "pr_span p = ?rs ! pr_row p"
      "span_start (pr_span p) \<le> pr_cursor p" using p unfolding pending_ok_def by blast+
    have "record_lengths (drop (pr_row p) ?rs) = span_end (pr_span p) - span_start (pr_span p)
        + record_lengths (drop ?n ?rs)"
      unfolding n r(2) by (rule record_lengths_drop [OF r(1)])
    moreover have "length (drop ?n ?rs) < length data" using r(1) len unfolding n by simp
    ultimately show ?thesis
      using tot [of "pr_row p"] r(3) unfolding Some option.case by linarith
  qed
  moreover have "(case qs_scanner s of None \<Rightarrow> 0 | Some sc \<Rightarrow> Suc (length data - boundary_scanner_offset sc))
      \<le> Suc (length data)" by (simp split: option.split)
  ultimately show ?thesis unfolding work_left_def by linarith
qed

section \<open>Reading the source\<close>

context query_engine begin

abbreviation session_ok :: "query_session \<times> 'w \<Rightarrow> bool" where
  "session_ok sw \<equiv> world_ok (snd sw) \<and> query_ok data fmt base lit quota (fst sw) (contents (snd sw))"

abbreviation left_over :: "query_session \<Rightarrow> nat" where
  "left_over s \<equiv> work_left data (format_records fmt 0 data) s"

lemma query_ensure_unchanged_yields:
  assumes "world_ok w" "qs_failure s = None" "qs_snapshot s = base"
    and "\<And>w'. world_ok w' \<Longrightarrow> contents w' = contents w \<Longrightarrow> Q () (s, w')"
  shows "ends lost (query_ensure_unchanged env) (s, w) Q"
proof -
  from fingerprint_stable [OF assms(1)] obtain w' where
    w': "env_fingerprint env w = (Inr base, w')" "world_ok w'" by blast
  have "contents w' = contents w" using fingerprint_keeps [OF assms(1)] w'(1) by simp
  with assms w' show ?thesis
    by (simp add: ends_def query_ensure_unchanged_def compare_refl is_changed_def Let_def)
qed

lemma checked_read_at_yields:
  assumes "world_ok w" "qs_failure s = None" "qs_snapshot s = base"
    and "off < length data" "0 < n" "off + n \<le> length data" "n \<le> length (qs_buffer s)"
    and Q: "\<And>got buf w'. 0 < got \<Longrightarrow> got \<le> n \<Longrightarrow> length buf = length (qs_buffer s) \<Longrightarrow>
      take got buf = take got (drop off data) \<Longrightarrow> world_ok w' \<Longrightarrow> contents w' = contents w \<Longrightarrow>
      Q got (s\<lparr>qs_buffer := buf\<rparr>, w')"
  shows "ends lost (checked_read_at env off n) (s, w) Q"
  unfolding checked_read_at_def ends_and_then
proof (rule query_ensure_unchanged_yields [OF assms(1-3)])
  fix w1 assume w1: "world_ok w1" "contents w1 = contents w"
  from read_inside [OF w1(1) assms(4-6)] obtain k buf w2 where
    r: "env_read_at env w1 off n = (Inr (k, buf), w2)" "0 < k" "k \<le> n" "length buf = n"
    "take k buf = take k (drop off data)" "world_ok w2" by blast
  have c2: "contents w2 = contents w" using read_keeps [OF w1(1), of off n] r(1) w1(2) by simp
  let ?buf = "buf @ drop n (qs_buffer s)"
  have buf: "length ?buf = length (qs_buffer s)" "take k ?buf = take k (drop off data)"
    using r(3-5) assms(7) by simp_all
  have "ends lost (query_ensure_unchanged env) (s\<lparr>qs_buffer := ?buf\<rparr>, w2) (\<lambda>_. Q k)"
    using assms(2,3) by (intro query_ensure_unchanged_yields [OF r(6)])
      (simp_all add: Q [OF r(2,3) buf] c2)
  with r(2) show "ends lost (on_world (read_validated env QIo off n)) (s, w1) (\<lambda>a sw'.
      ends lost (case a of (got, buf) \<Rightarrow>
         and_then (update_state (\<lambda>s. s\<lparr>qs_buffer := buf @ drop n (qs_buffer s)\<rparr>)) (\<lambda>_.
           if got = 0 then and_then (update_state (\<lambda>s. s\<lparr>qs_failure := Some QFailureShortRead\<rparr>))
                (\<lambda>_. fail QSourceShrank)
           else and_then (query_ensure_unchanged env) (\<lambda>_. give got))) sw' Q)"
    using r(3) by (simp add: ends_on_world ends_def [where m = "read_validated env QIo off n"]
        read_validated_def r(1) validate_read_count_def wp_simps)
qed

section \<open>The record that is examined\<close>

definition advanced :: "query_session \<Rightarrow> pending_advance \<Rightarrow> query_session \<Rightarrow> query_session" where
  "advanced s a s' =
     (case pa_status a of
        PendingRunning \<Rightarrow> s'
      | PendingCancelled \<Rightarrow> s'\<lparr>qs_status := QCancelled\<rparr>
      | PendingComplete \<Rightarrow> s'\<lparr>qs_pending := None, qs_examined_records := Suc (qs_examined_records s)\<rparr>
      | PendingQuota d \<Rightarrow> s'\<lparr>qs_status := QQuotaExceeded d\<rparr>)"

lemma advance_pending_yields:
  assumes ok: "session_ok (s, w)" and p: "qs_pending s = Some p" and run: "qs_status s = QRunning"
    and work: "0 < work"
  shows "ends lost (advance_pending env hf gen work) (s, w) (\<lambda>a sw'. \<exists>buf m.
    match_post (s\<lparr>qs_buffer := buf\<rparr>) p m a sw' \<and> length buf = length (qs_buffer s)
    \<and> (pa_status a = PendingRunning \<longrightarrow> 0 < m))"
proof -
  have q: "qs_failure s = None" "qs_snapshot s = base" "qs_literal s = lit" "qs_buffer s \<noteq> []"
    "sc_quota_bytes (qs_scratch s) = quota" "pending_ok lit data records p"
    "store_holds s (contents w) (pending_hits lit data records p)" "world_ok w"
    using ok p run by (auto simp: query_ok_def examining_def found_def rejected_def)
  let ?z = "span_end (pr_span p)"
  note small = pending_small [OF q(6)]
  show ?thesis
  proof (cases "pr_cursor p = ?z")
    case True
    have "match_post (s\<lparr>qs_buffer := qs_buffer s\<rparr>) p 0 \<lparr>pa_processed = 0, pa_status = PendingComplete\<rparr> (s, w)"
      unfolding match_post_def
      by (intro exI [of _ "pr_matcher_state p"] exI [of _ "qs_scratch s"] exI [of _ "qs_page s"]
          exI [of _ "pending_hits lit data records p"]) (use q p True in \<open>simp add: moved_0\<close>)
    then have "\<exists>buf m. match_post (s\<lparr>qs_buffer := buf\<rparr>) p m
        \<lparr>pa_processed = 0, pa_status = PendingComplete\<rparr> (s, w) \<and> length buf = length (qs_buffer s)" by blast
    then show ?thesis using True p by (simp add: advance_pending_def wp_simps)
  next
    case False
    let ?n = "min (min (?z - pr_cursor p) (length (qs_buffer s))) work"
    have lt: "pr_cursor p < ?z" using False small(3) by simp
    have n: "0 < ?n" "pr_cursor p + ?n \<le> ?z" "?n \<le> length (qs_buffer s)" using lt work q(4) by auto
    have eq: "advance_pending env hf gen work (s, w) = and_then (checked_read_at env (pr_cursor p) ?n)
        (\<lambda>amount. match_pending_bytes env hf gen amount) (s, w)"
      using p False small(3) by (simp add: advance_pending_def with_state_def checked_sub_def)
    have body: "ends lost (and_then (checked_read_at env (pr_cursor p) ?n)
        (\<lambda>amount. match_pending_bytes env hf gen amount)) (s, w) (\<lambda>a sw'. \<exists>buf m.
      match_post (s\<lparr>qs_buffer := buf\<rparr>) p m a sw' \<and> length buf = length (qs_buffer s)
      \<and> (pa_status a = PendingRunning \<longrightarrow> 0 < m))"
      unfolding ends_and_then
    proof (rule checked_read_at_yields [OF q(8,1,2) _ n(1) _ n(3)])
      show "pr_cursor p < length data" "pr_cursor p + ?n \<le> length data"
        using lt n(2) small(2) by linarith+
      fix got buf w'
      assume g: "0 < got" "got \<le> ?n" "length buf = length (qs_buffer s)"
        "take got buf = take got (drop (pr_cursor p) data)" "world_ok w'" "contents w' = contents w"
      let ?s = "s\<lparr>qs_buffer := buf\<rparr>" and ?bs = "take got buf"
      have len: "length ?bs = got" using g(2,3) n(3) by simp
      have "ends lost (match_loop env hf gen p lit (qc_cancellation_check_bytes (qs_config s)) 0
          (pr_matcher_state p) ?bs) (?s, w') (match_post ?s p (0 + length ?bs))"
      proof (rule match_loop_ok [OF g(5)])
        show "qs_pending ?s = Some p" using p by simp
        show "pending_ok lit data records (moved p 0 (pr_matcher_state p))" using q(6) by (simp add: moved_0)
        show "store_holds ?s (contents w') (pending_hits lit data records (moved p 0 (pr_matcher_state p)))"
          using q(7) g(6) by (simp add: moved_0 store_holds_def)
        show "sc_quota_bytes (qs_scratch ?s) = quota" using q(5) by simp
        show "?bs = take (length ?bs) (drop (pr_cursor p + 0) data)" unfolding len using g(4) by simp
        show "pr_cursor p + 0 + length ?bs \<le> ?z" unfolding len using g(2) n(2) by linarith
      qed
      then have "ends lost (match_pending_bytes env hf gen got) (?s, w') (match_post ?s p got)"
        unfolding len by (simp add: match_pending_bytes_def ends_with_state p q(3))
      then show "ends lost (match_pending_bytes env hf gen got) (?s, w') (\<lambda>a sw'. \<exists>buf m.
          match_post (s\<lparr>qs_buffer := buf\<rparr>) p m a sw' \<and> length buf = length (qs_buffer s)
          \<and> (pa_status a = PendingRunning \<longrightarrow> 0 < m))"
        by (rule ends_weaken) (use g(1,3) in blast)
    qed
    then show ?thesis unfolding ends_def eq .
  qed
qed

lemma match_post_keeps:
  assumes ok: "session_ok (s, w)" and p: "qs_pending s = Some p" and run: "qs_status s = QRunning"
    and buf: "length buf = length (qs_buffer s)"
    and post: "match_post (s\<lparr>qs_buffer := buf\<rparr>) p m a sw'"
    and m: "pa_status a = PendingRunning \<longrightarrow> 0 < m"
  shows "session_ok (advanced s a (fst sw'), snd sw')"
    and "pa_status a = PendingRunning \<or> pa_status a = PendingComplete \<Longrightarrow>
      left_over (advanced s a (fst sw')) < left_over s"
    and "pa_status a = PendingCancelled \<Longrightarrow> may_cancel"
    and "qs_status (fst sw') = QRunning" "qs_examined_records (fst sw') = qs_examined_records s"
    and "qs_examined_records s < length data"
proof -
  from post obtain st sc pg hits where
    a: "pa_processed a \<le> m" "world_ok (snd sw')" "sc_quota_bytes sc = quota"
    "pending_ok lit data records (moved p (pa_processed a) st)" and
    s': "fst sw' = s\<lparr>qs_buffer := buf, qs_scratch := sc, qs_page := pg,
            qs_pending := Some (moved p (pa_processed a) st)\<rparr>" and
    h: "store_holds (fst sw') (contents (snd sw')) hits" and
    c: "case pa_status a of
          PendingQuota d \<Rightarrow>
            pending_hits lit data records (moved p (pa_processed a) st) = hits @ [qe_rejected_hit d]
            \<and> quota_report sc d
        | PendingCancelled \<Rightarrow>
            pending_hits lit data records (moved p (pa_processed a) st) = hits \<and> may_cancel
        | PendingRunning \<Rightarrow>
            pending_hits lit data records (moved p (pa_processed a) st) = hits \<and> pa_processed a = m
        | PendingComplete \<Rightarrow>
            pending_hits lit data records (moved p (pa_processed a) st) = hits
            \<and> pr_cursor p + pa_processed a = span_end (pr_span p)"
    unfolding match_post_def by auto
  have q: "pending_ok lit data records p" "qs_examined_records s = pr_row p" "qs_next_row s = Suc (pr_row p)"
    "scanner_at data fmt s" "qs_buffer s \<noteq> []"
    using ok p by (auto simp: query_ok_def examining_def)
  have whole: "pending_hits lit data records (moved p (pa_processed a) st) = hits_before lit data records (Suc (pr_row p))"
    if "pr_cursor p + pa_processed a = span_end (pr_span p)"
    using that q(1) unfolding pending_hits_def moved_sel hits_before_Suc record_hits_def pending_ok_def by simp
  have b: "buf \<noteq> []" using buf q(5) by auto
  show "session_ok (advanced s a (fst sw'), snd sw')"
    using ok run a c h q b whole unfolding s' advanced_def
    by (cases "pa_status a")
      (auto simp: query_ok_def examining_def found_def rejected_def status_ok_def store_holds_def)
  show "left_over (advanced s a (fst sw')) < left_over s"
    if "pa_status a = PendingRunning \<or> pa_status a = PendingComplete"
    using that
  proof
    assume st: "pa_status a = PendingRunning"
    then have "pa_processed a = m" "0 < m" using c m by simp_all
    moreover have "pr_cursor p + pa_processed a \<le> span_end (pr_span p)"
      using a(4) unfolding pending_ok_def moved_sel by blast
    ultimately show ?thesis by (simp add: advanced_def st s' work_left_def p)
  next
    assume "pa_status a = PendingComplete"
    then show ?thesis by (simp add: advanced_def s' work_left_def p)
  qed
  show may_cancel if "pa_status a = PendingCancelled" using that c by simp
  show "qs_status (fst sw') = QRunning" "qs_examined_records (fst sw') = qs_examined_records s"
    using run by (simp_all add: s')
  show "qs_examined_records s < length data" using q(2) pending_small(1) [OF q(1)] by simp
qed

end

end
