(* ===== verification/Query_Complete.thy ===== *)
theory Query_Complete imports Query_Search begin

text \<open>
  The passes of a query session keep its invariant and make progress, so a call of \<open>advance\<close> ends
  in a session that is complete, out of scratch space, cancelled, or out of work budget, and the
  hits it stored are the first ones of the file.
\<close>

section \<open>Scanning for the next record\<close>

lemma accept_one_all: "emit_all accept_one e es = Some e' \<longleftrightarrow> es = [] \<and> e' = e"
  by (cases es) (auto simp: accept_one_def)

lemma accept_one_stopped: "emit_stopped accept_one e es e' \<longleftrightarrow> (\<exists>r. es = [r] \<and> e' = Some r)"
proof
  assume "emit_stopped accept_one e es e'"
  then show "\<exists>r. es = [r] \<and> e' = Some r"
    by (auto simp: emit_stopped_def accept_one_all) (simp add: accept_one_def)
qed (auto simp: accept_one_def)

definition queued :: "query_session \<Rightarrow> record_span \<Rightarrow> query_session" where
  "queued s r = s\<lparr>qs_next_row := Suc (qs_next_row s),
     qs_pending := Some \<lparr>pr_row = qs_next_row s, pr_span = r, pr_cursor = span_start r,
                         pr_matcher_state = 0\<rparr>\<rparr>"

lemma queue_record_yields:
  "qs_next_row s < u64_max \<Longrightarrow> Q () (queued s r, w) \<Longrightarrow> ends F (queue_record r) (s, w) Q"
  by (simp add: queue_record_def wp_simps checked_add_def queued_def)

text \<open>
  What the document engine does with a session: it calls \<open>advance\<close> until the status is no longer
  \<open>QRunning\<close>, at most \<open>n\<close> times here.
\<close>

fun query_drive ::
    "nat \<Rightarrow> 'w environment \<Rightarrow> 'w hit_file \<Rightarrow> cancellation_generation \<Rightarrow> nat \<Rightarrow> ('w, query_status) query_run" where
  "query_drive 0 env hf gen work = panic"
| "query_drive (Suc n) env hf gen work =
     and_then (query_advance env hf gen work) (\<lambda>st.
       if st = QRunning then query_drive n env hf gen work else give st)"

context query_engine begin

text \<open>The next record of the file is queued: nothing of it has been examined yet.\<close>

lemma queued_fresh:
  assumes "qs_next_row s < length records" "r = records ! qs_next_row s" "qs_pending s = None"
    and "qs_examined_records s = qs_next_row s"
  shows "examining lit data records (queued s r)"
    and "found lit data records (queued s r) = found lit data records s"
    and "left_over (queued s r) + 1 = left_over s"
proof -
  have "r \<in> set records" using assms(1,2) by simp
  from format_records_valid [OF this] have v: "span_start r \<le> span_end r" by simp
  show "examining lit data records (queued s r)"
    using assms v literal_start [OF lit_ok] by (simp add: examining_def queued_def pending_ok_def folded_def)
  show "found lit data records (queued s r) = found lit data records s"
    using assms(3) by (simp add: found_def queued_def pending_hits_def record_hits_upto_0)
  show "left_over (queued s r) + 1 = left_over s"
    using record_lengths_drop [OF assms(1)] assms(1,2,3)
    by (simp add: work_left_def queued_def)
qed

lemma advance_scanner_yields:
  assumes ok: "session_ok (s, w)" and none: "qs_pending s = None" and sc: "qs_scanner s = Some sc"
    and run: "qs_status s = QRunning" and more: "boundary_scanner_offset sc < length data"
    and work: "0 < work"
  shows "ends lost (advance_scanner env gen work) (s, w) (\<lambda>progress sw'.
    session_ok sw' \<and> qs_status (fst sw') = QRunning
    \<and> (scan_status progress = ScanCancelled \<longrightarrow> may_cancel)
    \<and> (scan_status progress \<noteq> ScanCancelled \<longrightarrow> left_over (fst sw') < left_over s))"
    (is "ends lost _ _ ?Q")
proof -
  let ?off = "boundary_scanner_offset sc" and ?n = "min (min (length data - boundary_scanner_offset sc) (length (qs_buffer s))) work"
  have q: "qs_failure s = None" "qs_snapshot s = base" "qs_buffer s \<noteq> []" "world_ok w"
    "qs_examined_records s = qs_next_row s" "scanner_at data fmt s"
    using ok none by (auto simp: query_ok_def examining_def)
  have at: "scanner_ok sc" "scanner_rest sc (drop ?off data) = drop (qs_next_row s) records"
    "scanner_diagnostic sc (drop ?off data) = format_diagnostic fmt 0 data"
    "qs_next_row s \<le> length records"
    using q(6) sc by (simp_all add: scanner_at_def)
  have n: "0 < ?n" "?off + ?n \<le> length data" "?n \<le> length (qs_buffer s)" using more work q(3) by auto
  have feed: "ends lost (case boundary_scanner_feed accept_one tokens gen
        (qc_cancellation_check_bytes (qs_config s)) sc None (take got buf) of
      (sc', emitted, res) \<Rightarrow>
        and_then (update_state (\<lambda>s. s\<lparr>qs_scanner := Some sc'\<rparr>)) (\<lambda>_.
        case res of
          Panic \<Rightarrow> panic
        | Err e \<Rightarrow> fail (QScan e)
        | Ok progress \<Rightarrow>
            and_then (case emitted of None \<Rightarrow> give () | Some sp \<Rightarrow> queue_record sp)
              (\<lambda>_. give progress))) (s\<lparr>qs_buffer := buf\<rparr>, w') ?Q"
    if g: "0 < got" "got \<le> ?n" "length buf = length (qs_buffer s)" "take got buf = take got (drop ?off data)"
      "world_ok w'" "contents w' = contents w" and tok: "\<And>i. is_cancelled (tokens i) gen \<Longrightarrow> may_cancel"
    for got buf w' and tokens :: "nat \<Rightarrow> cancellation_token"
  proof -
    let ?chunk = "take got buf" and ?tl = "drop got (drop ?off data)"
    obtain sc' em res where f: "boundary_scanner_feed accept_one tokens gen
        (qc_cancellation_check_bytes (qs_config s)) sc None ?chunk = (sc', em, res)" by (metis prod_cases3)
    have len: "length ?chunk = got" using g(2,3) n(3) by simp
    have small: "?off + length ?chunk \<le> u64_max" using len g(2) n(2) data_small by linarith
    from boundary_scanner_feed_spec [OF at(1) small f] obtain k sta es where
      r: "res = Ok \<lparr>consumed = k, scan_status = sta\<rparr>" "k \<le> got" "scanner_ok sc'"
      "boundary_scanner_offset sc' = ?off + k"
      "scanner_rest sc (?chunk @ ?tl) = es @ scanner_rest sc' (drop k ?chunk @ ?tl)"
      "scanner_diagnostic sc (?chunk @ ?tl) = scanner_diagnostic sc' (drop k ?chunk @ ?tl)"
      "sta = ScanComplete \<longrightarrow> k = got"
      "sta \<noteq> ScanStopped \<longrightarrow> emit_all accept_one None es = Some em"
      "sta = ScanStopped \<longrightarrow> emit_stopped accept_one None es em"
      "sta = ScanCancelled \<longrightarrow> is_cancelled (tokens k) gen"
      unfolding len by blast
    have chunk: "?chunk @ ?tl = drop ?off data" unfolding g(4) by (rule append_take_drop_id)
    have rest: "drop k ?chunk @ ?tl = drop (?off + k) data"
      unfolding g(4) drop_take_drop [OF r(2)] by (simp add: add.commute)
    have es: "drop (qs_next_row s) records = es @ scanner_rest sc' (drop (?off + k) data)"
      using r(5) at(2) unfolding rest chunk by simp
    have diag: "scanner_diagnostic sc' (drop (?off + k) data) = format_diagnostic fmt 0 data"
      using r(6) at(3) unfolding rest chunk by simp
    have off: "?off + k \<le> length data" using r(2) g(2) n(2) by linarith
    let ?s = "s\<lparr>qs_buffer := buf, qs_scanner := Some sc'\<rparr>"
    have buf: "buf \<noteq> []" using g(3) q(3) by auto
    show ?thesis
    proof (cases "sta = ScanStopped")
      case False
      then have e: "es = []" "em = None" using r(8) by (simp_all add: accept_one_all)
      have "session_ok (?s, w')"
        using ok g(5,6) buf none run r(3,4) es e(1) off diag at(4)
        by (auto simp: query_ok_def scanner_at_def examining_def found_def status_ok_def store_holds_def)
      moreover have "left_over ?s < left_over s" if "sta = ScanComplete"
        using that r(4,7) g(1) more off sc none by (simp add: work_left_def)
      ultimately show ?thesis
        using f r(1,10) e(2) tok run False by (cases sta) (auto simp: wp_simps)
    next
      case True
      then obtain x where e: "es = [x]" "em = Some x" using r(9) by (auto simp: accept_one_stopped)
      have row: "qs_next_row s < length records" using es e(1) at(4) by (cases "qs_next_row s < length records") auto
      then have x: "x = records ! qs_next_row s"
        "scanner_rest sc' (drop (?off + k) data) = drop (Suc (qs_next_row s)) records"
        using es e(1) by (simp_all add: Cons_nth_drop_Suc [symmetric])
      have fresh: "examining lit data records (queued ?s x)"
        "found lit data records (queued ?s x) = found lit data records ?s"
        "left_over (queued ?s x) + 1 = left_over ?s"
        using row x(1) none q(5) by (intro queued_fresh; simp)+
      have "session_ok (queued ?s x, w')"
      proof -
        from ok obtain hits where h: "store_holds s (contents w) hits"
          "found lit data records s = hits @ rejected QRunning" using run by (auto simp: query_ok_def)
        have "found lit data records (queued ?s x) = hits @ rejected (qs_status (queued ?s x))"
          unfolding fresh(2) using h(2) run none by (simp add: found_def queued_def)
        moreover have "store_holds (queued ?s x) (contents w') hits"
          using h(1) g(6) by (simp add: store_holds_def queued_def)
        moreover have "scanner_at data fmt (queued ?s x)"
          using r(3,4) x(2) off diag row by (simp add: scanner_at_def queued_def)
        ultimately show ?thesis
          using ok g(5) buf run fresh(1) unfolding query_ok_def
          by (auto simp: queued_def status_ok_def)
      qed
      moreover have "left_over ?s \<le> left_over s"
        using r(4) off sc none by (simp add: work_left_def)
      then have "left_over (queued ?s x) < left_over s" using fresh(3) by linarith
      moreover have "qs_next_row ?s < u64_max"
        using row format_records_length [of fmt 0 data] data_small by simp
      ultimately show ?thesis
        using f r(1) e(2) True run
        by (auto simp: wp_simps queued_def intro!: queue_record_yields)
    qed
  qed
  have eq: "advance_scanner env gen work (s, w) =
      and_then (checked_read_at env ?off ?n) (\<lambda>got.
        and_then (on_world (load_feed_tokens env)) (\<lambda>tokens.
        with_state (\<lambda>s.
        case boundary_scanner_feed accept_one tokens gen
               (qc_cancellation_check_bytes (qs_config s)) sc None (take got (qs_buffer s)) of
          (sc', emitted, res) \<Rightarrow>
            and_then (update_state (\<lambda>s. s\<lparr>qs_scanner := Some sc'\<rparr>)) (\<lambda>_.
            case res of
              Panic \<Rightarrow> panic
            | Err e \<Rightarrow> fail (QScan e)
            | Ok progress \<Rightarrow>
                and_then (case emitted of None \<Rightarrow> give () | Some sp \<Rightarrow> queue_record sp)
                  (\<lambda>_. give progress))))) (s, w)" (is "_ = ?m (s, w)")
    using more q(2) by (simp add: advance_scanner_def with_state_def [of _ "(s, w)"] sc checked_sub_def base_size Let_def)
  show ?thesis
  proof (rule ends_eq [where m = "advance_scanner env gen work" and m' = ?m and sw = "(s, w)", OF eq], unfold ends_and_then, rule checked_read_at_yields [OF q(4,1,2) more n])
    fix got buf w'
    assume g: "0 < got" "got \<le> ?n" "length buf = length (qs_buffer s)"
      "take got buf = take got (drop ?off data)" "world_ok w'" "contents w' = contents w"
    obtain tokens w2 where ft: "env_feed_tokens env w' = (tokens, w2)" by fastforce
    have "world_ok w2" "contents w2 = contents w"
      using feed_tokens_ok [OF g(5)] feed_keeps [OF g(5)] g(6) by (simp_all add: ft)
    from feed [OF g(1-4) this, of tokens] feed_may_cancel [OF g(5), unfolded ft]
    show "ends lost (on_world (load_feed_tokens env)) (s\<lparr>qs_buffer := buf\<rparr>, w') (\<lambda>a sw'.
       ends lost (with_state (\<lambda>s.
        case boundary_scanner_feed accept_one a gen
               (qc_cancellation_check_bytes (qs_config s)) sc None (take got (qs_buffer s)) of
          (sc', emitted, res) \<Rightarrow>
            and_then (update_state (\<lambda>s. s\<lparr>qs_scanner := Some sc'\<rparr>)) (\<lambda>_.
            case res of
              Panic \<Rightarrow> panic
            | Err e \<Rightarrow> fail (QScan e)
            | Ok progress \<Rightarrow>
                and_then (case emitted of None \<Rightarrow> give () | Some sp \<Rightarrow> queue_record sp)
                  (\<lambda>_. give progress)))) sw' ?Q)"
      by (simp add: ends_on_world ends_with_state ends_def [where m = "load_feed_tokens env"]
          load_feed_tokens_def ft)
  qed
qed

section \<open>One pass\<close>

definition pass_post :: "query_session \<Rightarrow> query_status + nat \<Rightarrow> query_session \<times> 'w \<Rightarrow> bool" where
  "pass_post s r sw \<longleftrightarrow> session_ok sw \<and>
     (case r of
        Inl st \<Rightarrow> qs_status (fst sw) = st \<and> st \<noteq> QRunning \<and> (st = QCancelled \<longrightarrow> may_cancel)
      | Inr _ \<Rightarrow> qs_status (fst sw) = QRunning \<and> left_over (fst sw) < left_over s)"

lemma cancelled_ok: "session_ok (s, w) \<Longrightarrow> qs_status s = QRunning \<Longrightarrow> session_ok (s\<lparr>qs_status := QCancelled\<rparr>, w)"
  by (cases "qs_pending s")
    (auto simp: query_ok_def examining_def found_def rejected_def status_ok_def store_holds_def)

lemma session_ok_world:
  "session_ok (s, w) \<Longrightarrow> world_ok w' \<Longrightarrow> contents w' = contents w \<Longrightarrow> session_ok (s, w')"
  by simp

text \<open>The source is at its end: the scanner is asked for the record it still holds.\<close>

lemma finish_yields:
  assumes ok: "session_ok (s, w)" and none: "qs_pending s = None" and sc: "qs_scanner s = Some sc"
    and run: "qs_status s = QRunning" and at_end: "boundary_scanner_offset sc = length data"
  shows "ends lost (and_then (update_state (\<lambda>s. s\<lparr>qs_scanner := None\<rparr>)) (\<lambda>_.
       case boundary_scanner_finish accept_one sc None of
         None \<Rightarrow> panic
       | Some (diagnostic, emitted) \<Rightarrow>
           and_then (update_state (\<lambda>s. s\<lparr>qs_diagnostic := diagnostic\<rparr>)) (\<lambda>_.
           case emitted of
             Some sp \<Rightarrow> and_then (queue_record sp) (\<lambda>_. give (Inr remaining))
           | None \<Rightarrow> and_then (set_status QComplete) (\<lambda>st. give (Inl st))))) (s, w) (pass_post s)"
proof -
  have q: "qs_examined_records s = qs_next_row s" "scanner_at data fmt s"
    using ok none by (auto simp: query_ok_def examining_def)
  have at: "scanner_ok sc" "scanner_rest sc [] = drop (qs_next_row s) records"
    "scanner_diagnostic sc [] = format_diagnostic fmt 0 data" "qs_next_row s \<le> length records"
    using q(2) sc at_end by (simp_all add: scanner_at_def)
  from boundary_scanner_finish_spec [OF at(1), of accept_one None] obtain em where
    f: "boundary_scanner_finish accept_one sc None = Some (format_diagnostic fmt 0 data, em)"
    "scanner_rest sc [] = [] \<and> em = None \<or> (\<exists>r. scanner_rest sc [] = [r] \<and> em = Some r)"
    unfolding at(3) by (auto simp: accept_one_def)
  let ?s = "s\<lparr>qs_scanner := None, qs_diagnostic := format_diagnostic fmt 0 data\<rparr>"
  from ok obtain hits where h: "store_holds s (contents w) hits"
    "found lit data records s = hits" using run by (auto simp: query_ok_def rejected_def)
  show ?thesis
  proof (cases em)
    case None
    with f(2) at(2,4) have row: "qs_next_row s = length records" by auto
    have "session_ok (?s\<lparr>qs_status := QComplete\<rparr>, w)"
      using ok none row h
      by (auto simp: query_ok_def scanner_at_def examining_def found_def status_ok_def rejected_def store_holds_def)
    with f(1) None show ?thesis by (simp add: wp_simps set_status_def pass_post_def)
  next
    case (Some x)
    with f(2) at(2) have d: "drop (qs_next_row s) records = [x]" by auto
    then have row: "qs_next_row s < length records" "Suc (qs_next_row s) = length records"
      using arg_cong [OF d, of length] at(4) unfolding length_drop by simp_all
    then have x: "x = records ! qs_next_row s" using d by (simp add: Cons_nth_drop_Suc [symmetric])
    have fresh: "examining lit data records (queued ?s x)"
      "found lit data records (queued ?s x) = found lit data records ?s"
      "left_over (queued ?s x) + 1 = left_over ?s"
      using row(1) x none q(1) by (intro queued_fresh; simp)+
    have "found lit data records (queued ?s x) = hits"
      unfolding fresh(2) using h(2) none by (simp add: found_def)
    moreover have "store_holds (queued ?s x) (contents w) hits"
      using h(1) by (simp add: store_holds_def queued_def)
    moreover have "scanner_at data fmt (queued ?s x)" using row(2) by (simp add: scanner_at_def queued_def)
    ultimately have "session_ok (queued ?s x, w)"
      using ok run fresh(1) unfolding query_ok_def by (auto simp: queued_def status_ok_def rejected_def)
    moreover have "left_over ?s < left_over s" using sc none by (simp add: work_left_def)
    then have "left_over (queued ?s x) < left_over s" using fresh(3) by linarith
    moreover have "qs_next_row ?s < u64_max"
      using row(1) format_records_length [of fmt 0 data] data_small by simp
    ultimately show ?thesis
      using f(1) Some run
      by (auto simp: wp_simps pass_post_def queued_def intro!: queue_record_yields)
  qed
qed

lemma advance_pending_pass:
  assumes ok: "session_ok (s, w)" and p: "qs_pending s = Some p" and run: "qs_status s = QRunning"
    and work: "0 < remaining"
  shows "ends lost (and_then (advance_pending env hf gen remaining) (\<lambda>outcome.
             let left = saturating_sub remaining (pa_processed outcome) in
             case pa_status outcome of
               PendingRunning \<Rightarrow> give (Inr left)
             | PendingCancelled \<Rightarrow> and_then (set_status QCancelled) (\<lambda>st. give (Inl st))
             | PendingComplete \<Rightarrow> and_then complete_pending (\<lambda>_. give (Inr left))
             | PendingQuota d \<Rightarrow> and_then (set_status (QQuotaExceeded d)) (\<lambda>st. give (Inl st)))) (s, w)
     (pass_post s)"
  unfolding ends_and_then
proof (rule ends_weaken [OF advance_pending_yields [OF ok p run work]], elim exE conjE)
  fix a sw' buf m
  assume post: "match_post (s\<lparr>qs_buffer := buf\<rparr>) p m a sw'" and buf: "length buf = length (qs_buffer s)"
    and m: "pa_status a = PendingRunning \<longrightarrow> 0 < m"
  note k = match_post_keeps [OF ok p run buf post m]
  have "Suc (qs_examined_records s) \<le> u64_max" using k(6) data_small by linarith
  with k show "ends lost (let left = saturating_sub remaining (pa_processed a) in
             case pa_status a of
               PendingRunning \<Rightarrow> give (Inr left)
             | PendingCancelled \<Rightarrow> and_then (set_status QCancelled) (\<lambda>st. give (Inl st))
             | PendingComplete \<Rightarrow> and_then complete_pending (\<lambda>_. give (Inr left))
             | PendingQuota d \<Rightarrow> and_then (set_status (QQuotaExceeded d)) (\<lambda>st. give (Inl st))) sw' (pass_post s)"
    unfolding pass_post_def
    by (cases "pa_status a")
      (simp_all add: wp_simps advanced_def set_status_def complete_pending_def checked_add_def)
qed

lemma advance_scanner_pass:
  assumes ok: "session_ok (s, w)" and none: "qs_pending s = None" and sc: "qs_scanner s = Some sc"
    and run: "qs_status s = QRunning" and more: "boundary_scanner_offset sc < length data"
    and work: "0 < remaining"
  shows "ends lost (and_then (advance_scanner env gen remaining) (\<lambda>progress.
       let left = saturating_sub remaining (consumed progress) in
       case scan_status progress of
         ScanCancelled \<Rightarrow> and_then (set_status QCancelled) (\<lambda>st. give (Inl st))
       | ScanComplete \<Rightarrow> give (Inr left)
       | ScanStopped \<Rightarrow> give (Inr left))) (s, w) (pass_post s)"
  unfolding ends_and_then
proof (rule ends_weaken [OF advance_scanner_yields [OF assms]], elim conjE)
  fix progress and sw' :: "query_session \<times> 'w"
  assume a: "world_ok (snd sw')" "query_ok data fmt base lit quota (fst sw') (contents (snd sw'))"
    "qs_status (fst sw') = QRunning" "scan_status progress = ScanCancelled \<longrightarrow> may_cancel"
    "scan_status progress \<noteq> ScanCancelled \<longrightarrow> left_over (fst sw') < left_over s"
  have "session_ok ((fst sw')\<lparr>qs_status := QCancelled\<rparr>, snd sw')"
    using a(1,2,3) by (intro cancelled_ok) simp_all
  with a show "ends lost (let left = saturating_sub remaining (consumed progress) in
       case scan_status progress of
         ScanCancelled \<Rightarrow> and_then (set_status QCancelled) (\<lambda>st. give (Inl st))
       | ScanComplete \<Rightarrow> give (Inr left)
       | ScanStopped \<Rightarrow> give (Inr left)) sw' (pass_post s)"
    unfolding pass_post_def
    by (cases "scan_status progress") (simp_all add: wp_simps set_status_def)
qed

lemma query_pass_yields:
  assumes ok: "session_ok (s, w)" and run: "qs_status s = QRunning" and work: "0 < remaining"
  shows "ends lost (query_pass env hf gen remaining) (s, w) (pass_post s)"
proof -
  have q: "world_ok w" "qs_failure s = None" "qs_snapshot s = base" "scanner_at data fmt s"
    using ok by (simp_all add: query_ok_def)
  let ?rest = "with_state (\<lambda>s.
       if qs_pending s \<noteq> None then
         and_then (advance_pending env hf gen remaining) (\<lambda>outcome.
           let left = saturating_sub remaining (pa_processed outcome) in
           case pa_status outcome of
             PendingRunning \<Rightarrow> give (Inr left)
           | PendingCancelled \<Rightarrow> and_then (set_status QCancelled) (\<lambda>st. give (Inl st))
           | PendingComplete \<Rightarrow> and_then complete_pending (\<lambda>_. give (Inr left))
           | PendingQuota d \<Rightarrow> and_then (set_status (QQuotaExceeded d)) (\<lambda>st. give (Inl st)))
       else
         (case qs_scanner s of
            Some sc \<Rightarrow>
              (if boundary_scanner_offset sc < fp_size (qs_snapshot s) then
                 and_then (advance_scanner env gen remaining) (\<lambda>progress.
                   let left = saturating_sub remaining (consumed progress) in
                   case scan_status progress of
                     ScanCancelled \<Rightarrow> and_then (set_status QCancelled) (\<lambda>st. give (Inl st))
                   | ScanComplete \<Rightarrow> give (Inr left)
                   | ScanStopped \<Rightarrow> give (Inr left))
               else
                 and_then (update_state (\<lambda>s. s\<lparr>qs_scanner := None\<rparr>)) (\<lambda>_.
                 case boundary_scanner_finish accept_one sc None of
                   None \<Rightarrow> panic
                 | Some (diagnostic, emitted) \<Rightarrow>
                     and_then (update_state (\<lambda>s. s\<lparr>qs_diagnostic := diagnostic\<rparr>)) (\<lambda>_.
                     case emitted of
                       Some sp \<Rightarrow> and_then (queue_record sp) (\<lambda>_. give (Inr remaining))
                     | None \<Rightarrow> and_then (set_status QComplete) (\<lambda>st. give (Inl st)))))
          | None \<Rightarrow> and_then (set_status QComplete) (\<lambda>st. give (Inl st))))"
  have rest: "ends lost ?rest (s, w2) (pass_post s)" if w2: "world_ok w2" "contents w2 = contents w" for w2
  proof -
    have ok2: "session_ok (s, w2)" using ok w2 by simp
    show ?thesis
    proof (cases "qs_pending s")
      case (Some p)
      from advance_pending_pass [OF ok2 Some run work] show ?thesis
        by (simp add: ends_with_state Some)
    next
      case None
      show ?thesis
      proof (cases "qs_scanner s")
        case (Some sc)
        have le: "boundary_scanner_offset sc \<le> length data" using q(4) Some by (simp add: scanner_at_def)
        show ?thesis
        proof (cases "boundary_scanner_offset sc < length data")
          case True
          from advance_scanner_pass [OF ok2 None Some run True work] True show ?thesis
            by (simp add: ends_with_state None Some q(3) base_size)
        next
          case False
          then have "boundary_scanner_offset sc = length data" using le by simp
          from finish_yields [OF ok2 None Some run this] False show ?thesis
            by (simp add: ends_with_state None Some q(3) base_size)
        qed
      next
        case sc: None
        have "session_ok (s\<lparr>qs_status := QComplete\<rparr>, w2)"
          using ok2 run sc None
          by (auto simp: query_ok_def examining_def found_def rejected_def status_ok_def store_holds_def)
        then show ?thesis
          by (simp add: ends_with_state None sc wp_simps set_status_def pass_post_def)
      qed
    qed
  qed
  have live: "ends lost (and_then (query_ensure_unchanged env) (\<lambda>_. ?rest)) (s, w1) (pass_post s)"
    if w1: "world_ok w1" "contents w1 = contents w" for w1
    unfolding ends_and_then
  proof (rule query_ensure_unchanged_yields [OF w1(1) q(2,3)])
    fix w2 assume w2: "world_ok w2" "contents w2 = contents w1"
    show "ends lost ?rest (s, w2) (pass_post s)" using w2 w1(2) by (intro rest) simp_all
  qed
  have stopped: "ends lost (and_then (set_status QCancelled) (\<lambda>st. give (Inl st))) (s, w1) (pass_post s)"
    if "world_ok w1" "contents w1 = contents w" may_cancel for w1
    using cancelled_ok [OF session_ok_world [OF ok that(1,2)] run] that(3)
    unfolding pass_post_def by (simp add: wp_simps set_status_def)
  show ?thesis
    unfolding query_pass_def ends_and_then [where m = "on_world _"] ends_on_world fst_conv snd_conv
    by (rule token_cancelled_yields [OF q(1)], unfold if_True if_False) (erule (1) live, erule (2) stopped)
qed

section \<open>The loop\<close>

definition call_post :: "query_session \<Rightarrow> query_status \<Rightarrow> query_session \<times> 'w \<Rightarrow> bool" where
  "call_post s st sw \<longleftrightarrow> session_ok sw \<and> qs_status (fst sw) = st \<and> (st = QCancelled \<longrightarrow> may_cancel)
     \<and> (st = QRunning \<longrightarrow> left_over (fst sw) < left_over s)"

lemma call_post_mono: "call_post s' st sw \<Longrightarrow> left_over s' \<le> left_over s \<Longrightarrow> call_post s st sw"
  by (auto simp: call_post_def)

lemma query_loop_yields:
  assumes "session_ok (s, w)" "qs_status s = QRunning" "0 < remaining" "left_over s < fuel"
  shows "ends lost (query_loop fuel env hf gen remaining) (s, w) (call_post s)"
  using assms
proof (induction fuel arbitrary: s w remaining)
  case (Suc fuel)
  show ?case
    unfolding query_loop.simps ends_and_then
  proof (rule ends_weaken [OF query_pass_yields [OF Suc.prems(1-3)]])
    fix r sw' assume post: "pass_post s r sw'"
    obtain s' w' where sw': "sw' = (s', w')" by fastforce
    show "ends lost (case r of
         Inl st \<Rightarrow> give st
       | Inr left \<Rightarrow>
           if left = 0 then with_state (\<lambda>s. give (qs_status s))
           else query_loop fuel env hf gen left) sw' (call_post s)"
    proof (cases r)
      case (Inl st)
      with post show ?thesis
        unfolding pass_post_def call_post_def by (simp add: wp_simps)
    next
      case (Inr left)
      with post have a: "session_ok (s', w')" "qs_status s' = QRunning" "left_over s' < left_over s"
        unfolding pass_post_def sw' by simp_all
      show ?thesis
      proof (cases "left = 0")
        case True
        with Inr a show ?thesis unfolding sw' by (simp add: wp_simps call_post_def)
      next
        case False
        then have "0 < left" "left_over s' < fuel" using a(3) Suc.prems(4) by simp_all
        from ends_weaken [OF Suc.IH [OF a(1,2) this] call_post_mono] a(3) Inr False
        show ?thesis unfolding sw' by simp
      qed
    qed
  qed
qed simp

lemma query_advance_yields:
  assumes ok: "session_ok (s, w)" and work: "0 < work"
  shows "ends lost (query_advance env hf gen work) (s, w) (call_post s)"
proof -
  have q: "world_ok w" "qs_failure s = None" "qs_snapshot s = base" using ok by (simp_all add: query_ok_def)
  have settled: "ends lost (and_then (on_world (token_cancelled env gen)) (\<lambda>cancelled.
       if cancelled then give (qs_status s)
       else and_then (query_ensure_unchanged env) (\<lambda>_. give (qs_status s)))) (s, w) (call_post s)"
    if st: "qs_status s \<noteq> QCancelled" "qs_status s \<noteq> QRunning"
  proof -
    have post: "call_post s (qs_status s) (s, w')" if "world_ok w'" "contents w' = contents w" for w'
      using session_ok_world [OF ok that] st unfolding call_post_def by simp
    have live: "ends lost (and_then (query_ensure_unchanged env) (\<lambda>_. give (qs_status s))) (s, w1) (call_post s)"
      if w1: "world_ok w1" "contents w1 = contents w" for w1
      unfolding ends_and_then ends_give
      by (rule query_ensure_unchanged_yields [OF w1(1) q(2,3)]) (simp add: post w1(2))
    show ?thesis
      unfolding ends_and_then [where m = "on_world _"] ends_on_world fst_conv snd_conv
    proof (rule token_cancelled_yields [OF q(1)], unfold if_True if_False ends_give)
      show "ends lost (and_then (query_ensure_unchanged env) (\<lambda>_. give (qs_status s))) (s, w1) (call_post s)"
        if "world_ok w1" "contents w1 = contents w" for w1 by (rule live [OF that])
      show "call_post s (qs_status s) (s, w1)" if "world_ok w1" "contents w1 = contents w" for w1
        by (rule post [OF that])
    qed
  qed
  have go: "ends lost (and_then (update_state (\<lambda>s. s\<lparr>qs_status := QRunning\<rparr>)) (\<lambda>_.
      query_loop (query_fuel s) env hf gen work)) (s, w) (call_post s)"
    if st: "qs_status s = QRunning \<or> qs_status s = QCancelled"
  proof -
    have ok': "session_ok (s\<lparr>qs_status := QRunning\<rparr>, w)"
      using ok st by (cases "qs_pending s")
        (auto simp: query_ok_def examining_def found_def rejected_def status_ok_def store_holds_def)
    then have "query_ok data fmt base lit quota (s\<lparr>qs_status := QRunning\<rparr>) (contents w)" by simp
    from work_left_bound [OF this] have "left_over (s\<lparr>qs_status := QRunning\<rparr>) < query_fuel s"
      using q(3) by (simp add: query_fuel_def base_size)
    from query_loop_yields [OF ok' _ work this]
    have "ends lost (query_loop (query_fuel s) env hf gen work) (s\<lparr>qs_status := QRunning\<rparr>, w)
        (call_post (s\<lparr>qs_status := QRunning\<rparr>))" by simp
    then have "ends lost (query_loop (query_fuel s) env hf gen work) (s\<lparr>qs_status := QRunning\<rparr>, w) (call_post s)"
      by (rule ends_weaken) (erule call_post_mono, simp add: work_left_def)
    then show ?thesis by (simp add: wp_simps)
  qed
  show ?thesis
    using settled go work by (cases "qs_status s") (simp_all add: query_advance_def ends_with_state cong: if_cong)
qed

section \<open>Whole sessions\<close>

lemma query_new_yields:
  assumes w: "world_ok w" "contents w = []" and owner: "length owner = 16"
    and needle: "needle \<noteq> []" and lit: "compile_literal needle mode = Some lit"
    and cfg: "query_config_new fmt rb cb pc quota = Inr cfg"
    and grant: "\<And>w n. world_ok w \<Longrightarrow> fst (env_try_reserve env w n)"
  shows "ends (\<lambda>e w. may_fail \<and> (\<exists>io. e = QIo io) \<and> world_ok w) (query_new env hf owner needle mode cfg) w (\<lambda>s w'.
    session_ok (s, w') \<and> qs_status s = QRunning \<and> qs_config s = cfg \<and> store_holds s (contents w') [])"
proof -
  have cfg': "qc_format cfg = fmt" "0 < qc_read_buffer_bytes cfg" "0 < qc_page_capacity cfg"
    "qc_scratch_quota_bytes cfg = quota" "48 \<le> quota"
    using cfg by (auto simp: query_config_new_def split: if_splits)
  have reserve: "ends F (try_reserve env QAllocationUnavailable n) v Q"
    if v: "world_ok v" "contents v = []"
      "\<And>v'. world_ok v' \<Longrightarrow> contents v' = [] \<Longrightarrow> Q () v'" for n v F and Q :: "unit \<Rightarrow> 'w \<Rightarrow> bool"
    using grant [OF v(1), of n] try_reserve_ok [OF v(1), of n] reserve_keeps [OF v(1), of n] v(2,3)
    by (cases "env_try_reserve env v n") (simp add: ends_def try_reserve_def)
  have fp: "ends F (capture env QIo) v Q"
    if v: "world_ok v" "contents v = []" "\<And>v'. world_ok v' \<Longrightarrow> contents v' = [] \<Longrightarrow> Q base v'"
    for v F and Q :: "source_fingerprint \<Rightarrow> 'w \<Rightarrow> bool"
    using fingerprint_stable [OF v(1)] fingerprint_keeps [OF v(1)] v(2,3)
    by (auto simp: ends_def capture_def)
  have header: "ends (\<lambda>e w. may_fail \<and> (\<exists>io. e = QIo io) \<and> world_ok w) (\<lambda>w. case hf_write hf w 0 (scratch_header owner) of
      (Some e, w') \<Rightarrow> (Err (QIo e), w') | (None, w') \<Rightarrow> (Ok (), w')) v Q"
    if v: "world_ok v" "contents v = []"
      "\<And>v'. world_ok v' \<Longrightarrow> contents v' = scratch_header owner \<Longrightarrow> Q () v'"
    for v and Q :: "unit \<Rightarrow> 'w \<Rightarrow> bool"
    using write_lands [OF v(1), of 0 "scratch_header owner"] v(2,3)
    by (auto simp: ends_def split: prod.splits option.splits)
  have lit_new: "ends F (literal_new env needle mode) v Q"
    if v: "world_ok v" "contents v = []" "\<And>v'. world_ok v' \<Longrightarrow> contents v' = [] \<Longrightarrow> Q lit v'"
    for v F and Q :: "compiled_literal \<Rightarrow> 'w \<Rightarrow> bool"
    unfolding literal_new_def if_not_P [OF needle] ends_and_then lit option.case ends_give
    by (rule reserve [OF v(1,2)]) (rule reserve, assumption+, rule v(3))
  let ?s = "\<lambda>snapshot. \<lparr>qs_snapshot = snapshot, qs_failure = None,
           qs_scanner = Some (boundary_scanner_new (qc_format cfg) 0), qs_literal = lit,
           qs_config = cfg, qs_buffer = replicate (qc_read_buffer_bytes cfg) 0, qs_pending = None,
           qs_scratch = \<lparr>sc_owner = owner, sc_quota_bytes = qc_scratch_quota_bytes cfg,
                         sc_used_bytes = query_scratch_header_bytes, sc_entries = 0\<rparr>,
           qs_page = \<lparr>pg_capacity = qc_page_capacity cfg, pg_first_hit = 0, pg_hits = []\<rparr>,
           qs_next_row = 0, qs_examined_records = 0, qs_diagnostic = None, qs_status = QRunning\<rparr>"
  have held: "store_holds (?s base) (scratch_header owner) []"
    using owner cfg' by (simp add: store_holds_def store_bytes_def length_scratch_header page_caches_def)
  have "scanner_at data fmt (?s base)"
    using boundary_scanner_new_laws [of 0 fmt] cfg' by (simp add: scanner_at_def)
  with held have init: "query_ok data fmt base lit quota (?s base) (scratch_header owner)"
    using cfg' by (auto simp: query_ok_def examining_def found_def rejected_def status_ok_def hits_before_def)
  show ?thesis
    unfolding query_new_def ends_and_then ends_give
    by (rule lit_new [OF w], rule fp, assumption+, rule reserve, assumption+, rule reserve, assumption+,
        rule header, assumption+) (simp add: init held)
qed

lemma drive_yields:
  assumes "session_ok (s, w)" "0 < work" "left_over s < n"
  shows "ends lost (query_drive n env hf gen work) (s, w)
    (\<lambda>st sw. session_ok sw \<and> qs_status (fst sw) = st \<and> st \<noteq> QRunning \<and> (st = QCancelled \<longrightarrow> may_cancel))"
  using assms(1,3)
proof (induction n arbitrary: s w)
  case (Suc n)
  show ?case
    unfolding query_drive.simps ends_and_then
  proof (rule ends_weaken [OF query_advance_yields [OF Suc.prems(1) assms(2)]])
    fix st sw' assume post: "call_post s st sw'"
    obtain s' w' where sw': "sw' = (s', w')" by fastforce
    show "ends lost (if st = QRunning then query_drive n env hf gen work else give st) sw'
      (\<lambda>st sw. session_ok sw \<and> qs_status (fst sw) = st \<and> st \<noteq> QRunning \<and> (st = QCancelled \<longrightarrow> may_cancel))"
    proof (cases "st = QRunning")
      case True
      with post have "session_ok (s', w')" "left_over s' < left_over s"
        unfolding call_post_def sw' by simp_all
      with Suc.IH [OF this(1)] Suc.prems(2) True show ?thesis unfolding sw' by simp
    next
      case False
      with post show ?thesis unfolding call_post_def by (simp add: ends_give)
    qed
  qed
qed simp

lemma store_holdsD:
  assumes "store_holds s c hits"
  shows "length (sc_owner (qs_scratch s)) = 16" "sc_entries (qs_scratch s) = length hits"
    "take (48 + 24 * length hits) c = store_bytes (sc_owner (qs_scratch s)) hits"
    "\<forall>h \<in> set hits. hit_fits h"
  using assms by (simp_all add: store_holds_def)

lemma store_holds_unique:
  assumes h: "store_holds s c hits" "store_holds s c hits'"
  shows "hits = hits'"
proof -
  note d = store_holdsD [OF h(1)] and d' = store_holdsD [OF h(2)]
  have len: "length hits = length hits'" using d(2) d'(2) by (rule trans [OF sym])
  note own = d(1) and c = d(3) d'(3) and fits = d(4) d'(4)
  have "hits ! i = hits' ! i" if i: "i < length hits" for i
  proof -
    have i': "i < length hits'" using i len by simp
    have "encode_hit (hits ! i) = encode_hit (hits' ! i)"
      using store_entry(2) [OF own c(1) i] store_entry(2) [OF own c(2) i'] by (rule trans [OF sym])
    moreover have "decode_hit (encode_hit h) = Inr h" if "hit_fits h" for h
      using that by (intro decode_encode_hit) (auto simp: hit_fits_def)
    ultimately have "Inr (hits ! i) = (Inr (hits' ! i) :: query_error + query_hit)"
      using fits(1) nth_mem [OF i] fits(2) nth_mem [OF i'] by metis
    then show ?thesis by simp
  qed
  with len show "hits = hits'" by (simp add: list_eq_iff_nth_eq)
qed

lemma found_prefix:
  assumes "scanner_at data fmt s" "examining lit data records s"
  shows "prefix (found lit data records s) (all_hits lit data records)"
proof (cases "qs_pending s")
  case None
  with assms(1) show ?thesis
    unfolding found_def all_hits_def by (simp add: scanner_at_def hits_before_prefix)
next
  case (Some p)
  with assms(2) show ?thesis unfolding found_def by (simp add: examining_def pending_hits_prefix)
qed

lemma stored_hits_small:
  assumes "query_ok data fmt base lit quota s c" "store_holds s c hits"
  shows "24 * length hits + 72 \<le> u64_max"
proof -
  from assms(1) obtain hits' where h: "store_holds s c hits'"
    "found lit data records s = hits' @ rejected (qs_status s)" and
    q: "scanner_at data fmt s" "examining lit data records s" by (auto simp: query_ok_def)
  from prefix_length_le [OF found_prefix [OF q]]
  have "length hits \<le> length (all_hits lit data records)"
    unfolding h(2) store_holds_unique [OF assms(2) h(1)] by simp
  then show ?thesis using length_all_hits [of lit data fmt] data_small by linarith
qed

lemma read_back:
  assumes "world_ok w" "query_ok data fmt base lit quota s (contents w)" "store_holds s (contents w) hits"
  shows "(\<exists>w' pg. read_hit hf i (s, w) =
        (Ok (if i < length hits then Some (hits ! i) else None), (s\<lparr>qs_page := pg\<rparr>, w'))
      \<and> world_ok w' \<and> contents w' = contents w \<and> store_holds (s\<lparr>qs_page := pg\<rparr>) (contents w') hits)
    \<and> (\<exists>w' pg. read_page hf i (s, w) =
        (Ok (i, take (pg_capacity (qs_page s)) (drop i hits)), (s\<lparr>qs_page := pg\<rparr>, w'))
      \<and> world_ok w' \<and> contents w' = contents w \<and> store_holds (s\<lparr>qs_page := pg\<rparr>) (contents w') hits)"
  using read_hit_ok [OF assms(1,3) stored_hits_small [OF assms(2,3)], of i]
    read_page_ok [OF assms(1,3) stored_hits_small [OF assms(2,3)], of i] by blast

text \<open>What the invariant says of the hits, by status.\<close>

lemma session_hits:
  assumes "query_ok data fmt base lit quota s c"
  obtains hits where "store_holds s c hits" "prefix (hits @ rejected (qs_status s)) (all_hits lit data records)"
    "qs_status s = QComplete \<Longrightarrow> hits = all_hits lit data records \<and> qs_examined_records s = length records
       \<and> qs_diagnostic s = format_diagnostic fmt 0 data"
    "\<And>d. qs_status s = QQuotaExceeded d \<Longrightarrow> quota_report (qs_scratch s) d"
proof -
  from assms obtain hits where h: "store_holds s c hits"
    "found lit data records s = hits @ rejected (qs_status s)" and
    q: "scanner_at data fmt s" "examining lit data records s" "status_ok s" by (auto simp: query_ok_def)
  have "prefix (found lit data records s) (all_hits lit data records)" by (rule found_prefix [OF q(1,2)])
  moreover have "hits = all_hits lit data records \<and> qs_examined_records s = length records
       \<and> qs_diagnostic s = format_diagnostic fmt 0 data" if "qs_status s = QComplete"
    using that q h(2) by (simp add: status_ok_def scanner_at_def examining_def found_def rejected_def all_hits_def)
  moreover have "quota_report (qs_scratch s) d" if "qs_status s = QQuotaExceeded d" for d
    using that q(3) by (simp add: status_ok_def)
  ultimately show thesis using that h by simp
qed

end

context query_engine begin

lemma advance_hits:
  assumes "world_ok w" "query_ok data fmt base lit quota s (contents w)" "0 < work"
  shows "\<exists>r s' w' hits. query_advance env hf gen work (s, w) = (r, (s', w')) \<and> world_ok w'
    \<and> store_holds s' (contents w') hits \<and> prefix hits (all_hits lit data records)
    \<and> (case r of
         Ok st \<Rightarrow> query_ok data fmt base lit quota s' (contents w') \<and>
           (case st of
              QComplete \<Rightarrow> hits = all_hits lit data records \<and> qs_diagnostic s' = format_diagnostic fmt 0 data
            | QQuotaExceeded d \<Rightarrow> quota < 48 + 24 * Suc (length hits) \<and> qe_stored_hits d = length hits
                \<and> prefix (hits @ [qe_rejected_hit d]) (all_hits lit data records)
            | QCancelled \<Rightarrow> may_cancel
            | QRunning \<Rightarrow> left_over s' < left_over s)
       | Err e \<Rightarrow> may_fail \<and> (\<exists>io. e = QIo io)
       | Panic \<Rightarrow> False)"
proof -
  have "session_ok (s, w)" using assms(1,2) by simp
  from query_advance_yields [OF this assms(3)] show ?thesis
  proof (cases rule: endsE)
    case (2 e sw')
    obtain s' w' where sw': "sw' = (s', w')" by fastforce
    from 2(2) obtain hits where "may_fail" "\<exists>io. e = QIo io" "world_ok w'" "store_holds s' (contents w') hits"
      "prefix hits (all_hits lit data records)" unfolding lost_def sw' by auto
    with 2(1) show ?thesis unfolding sw'
      by (intro exI [of _ "Err e"] exI [of _ s'] exI [of _ w'] exI [of _ hits]) simp
  next
    case r: (1 st sw')
    obtain s' w' where sw': "sw' = (s', w')" by fastforce
    from r(2) have p: "world_ok w'" "query_ok data fmt base lit quota s' (contents w')" "qs_status s' = st"
      "st = QCancelled \<longrightarrow> may_cancel" "st = QRunning \<longrightarrow> left_over s' < left_over s"
      unfolding call_post_def sw' by auto
    from session_hits [OF p(2)] obtain hits where h: "store_holds s' (contents w') hits"
      "prefix (hits @ rejected st) (all_hits lit data records)"
      "st = QComplete \<Longrightarrow> hits = all_hits lit data records \<and> qs_examined_records s' = length records
         \<and> qs_diagnostic s' = format_diagnostic fmt 0 data"
      "\<And>d. st = QQuotaExceeded d \<Longrightarrow> quota_report (qs_scratch s') d" unfolding p(3) by blast
    have "prefix hits (all_hits lit data records)" using h(2) by (rule append_prefixD)
    moreover have "quota < 48 + 24 * Suc (length hits) \<and> qe_stored_hits d = length hits
        \<and> prefix (hits @ [qe_rejected_hit d]) (all_hits lit data records)" if "st = QQuotaExceeded d" for d
      using h(1,2) h(4) [OF that] p(2) that
      by (simp add: quota_report_def store_holds_def rejected_def query_ok_def)
    ultimately show ?thesis
      using r(1) p h(1,3) unfolding sw'
      by (intro exI [of _ "Ok st"] exI [of _ s'] exI [of _ w'] exI [of _ hits]) (auto split: query_status.split)
  qed
qed

text \<open>Where a whole search ends: with all hits, with no room for the next one, or with a failed write.\<close>

lemma drive_hits:
  assumes quiet: "\<not> may_cancel"
    and "compile_literal needle mode = Some lit" "needle \<noteq> []"
    and "query_config_new fmt rb cb pc quota = Inr cfg" "length owner = 16" "0 < work"
    and "world_ok w" "contents w = []" "\<forall>v n. world_ok v \<longrightarrow> fst (env_try_reserve env v n)"
  shows "(\<exists>io w'. may_fail \<and> query_new env hf owner needle mode cfg w = (Err (QIo io), w')) \<or>
    (\<exists>s w' r s' w'' hits. query_new env hf owner needle mode cfg w = (Ok s, w')
      \<and> query_drive (4 * length data + 2) env hf gen work (s, w') = (r, (s', w''))
      \<and> store_holds s' (contents w'') hits \<and> prefix hits (all_hits lit data records)
      \<and> (case r of
           Ok st \<Rightarrow>
             (if 48 + 24 * length (all_hits lit data records) \<le> quota
              then st = QComplete \<and> hits = all_hits lit data records
              else 48 + 24 * length hits \<le> quota \<and> quota < 48 + 24 * Suc (length hits))
         | Err e \<Rightarrow> may_fail \<and> (\<exists>io. e = QIo io)
         | Panic \<Rightarrow> False))"
proof -
  let ?all = "all_hits lit data records"
  have "ends (\<lambda>e w. may_fail \<and> (\<exists>io. e = QIo io) \<and> world_ok w) (query_new env hf owner needle mode cfg) w (\<lambda>s w'.
      session_ok (s, w') \<and> qs_status s = QRunning \<and> qs_config s = cfg \<and> store_holds s (contents w') [])"
    using assms(9) by (intro query_new_yields [OF assms(7,8,5,3,2,4)]) blast
  then show ?thesis
  proof (cases rule: endsE)
    case (2 e w')
    then show ?thesis by blast
  next
    case new: (1 s w')
    then have ok: "session_ok (s, w')" by blast
    then have "query_ok data fmt base lit quota s (contents w')" by simp
    from work_left_bound [OF this] have "left_over s < 4 * length data + 2" by simp
    from drive_yields [OF ok assms(6) this] show ?thesis
    proof (cases rule: endsE)
      case (2 e sw')
      obtain s' w'' where sw': "sw' = (s', w'')" by fastforce
      from 2(2) obtain hits where "may_fail" "\<exists>io. e = QIo io" "store_holds s' (contents w'') hits" "prefix hits ?all"
        unfolding lost_def sw' by auto
      with 2(1) new(1) show ?thesis unfolding sw'
        by (intro disjI2 exI [of _ s] exI [of _ w'] exI [of _ "Err e"] exI [of _ s'] exI [of _ w''] exI [of _ hits]) simp
    next
      case (1 st sw')
      with quiet have d: "query_drive (4 * length data + 2) env hf gen work (s, w') = (Ok st, sw')"
        "session_ok sw'" "qs_status (fst sw') = st" "st \<noteq> QRunning" "st \<noteq> QCancelled" by auto
      obtain s' w'' where sw': "sw' = (s', w'')" by fastforce
      from d(2) have ok: "query_ok data fmt base lit quota s' (contents w'')" unfolding sw' by simp
      from session_hits [OF ok] d(3) obtain hits where h: "store_holds s' (contents w'') hits"
        "prefix (hits @ rejected st) ?all" "st = QComplete \<Longrightarrow> hits = ?all"
        "\<And>d. st = QQuotaExceeded d \<Longrightarrow> quota_report (qs_scratch s') d" unfolding sw' by auto
      have fits: "48 + 24 * length hits \<le> quota" using h(1) ok by (simp add: store_holds_def query_ok_def)
      have len: "length hits + length (rejected st) \<le> length ?all" using prefix_length_le [OF h(2)] by simp
      have "if 48 + 24 * length ?all \<le> quota then st = QComplete \<and> hits = ?all
           else 48 + 24 * length hits \<le> quota \<and> quota < 48 + 24 * Suc (length hits)"
      proof (cases st)
        case QComplete
        with h(3) fits show ?thesis by simp
      next
        case (QQuotaExceeded d)
        with h(4) h(1) ok have "quota < 48 + 24 * Suc (length hits)"
          by (simp add: quota_report_def store_holds_def query_ok_def)
        with len fits QQuotaExceeded show ?thesis by (simp add: rejected_def)
      qed (use d(4,5) in simp_all)
      with new(1) d(1) h(1) append_prefixD [OF h(2)] show ?thesis unfolding sw'
        by (intro disjI2 exI [of _ s] exI [of _ w'] exI [of _ "Ok st"] exI [of _ s'] exI [of _ w''] exI [of _ hits]) simp
    qed
  qed
qed

end

section \<open>A file and a scratch file in memory\<close>

definition paired_environment :: "nat \<Rightarrow> bytes \<Rightarrow> (cancellation_token \<times> bytes) environment" where
  "paired_environment chunk data =
     \<lparr>env_fingerprint = (\<lambda>w. (Inr (file_fingerprint data), w)),
      env_read_at = (\<lambda>w off n. (Inr (file_read_at chunk data off n), w)),
      env_load_token = (\<lambda>w. (fst w, w)),
      env_feed_tokens = (\<lambda>w. (\<lambda>_. fst w, w)),
      env_try_reserve = (\<lambda>w n. (True, w))\<rparr>"

definition memory_hit_file :: "(cancellation_token \<times> bytes) hit_file" where
  "memory_hit_file =
     \<lparr>hf_write = (\<lambda>(t, c) off bs.
        if off \<le> length c then (None, (t, take off c @ bs @ drop (off + length bs) c))
        else (None, (t, c @ replicate (off - length c) 0 @ bs))),
      hf_read = (\<lambda>(t, c) off n.
        if off + n \<le> length c then (Inr (take n (drop off c)), (t, c)) else (Inl (IoOther 0), (t, c)))\<rparr>"

lemma paired_stable:
  "0 < chunk \<Longrightarrow> stable_source (paired_environment chunk data) data (file_fingerprint data) (\<lambda>w. generation (fst w) = gen)"
  by unfold_locales
    (auto simp: paired_environment_def file_read_at_def Let_def file_fingerprint_def fingerprint_new_def)

interpretation memory_world: query_world "paired_environment (Suc k) data" data "file_fingerprint data"
    "\<lambda>w. generation (fst w) = gen" memory_hit_file snd False for k data gen
  by (rule query_world.intro [OF paired_stable], simp, unfold_locales)
    (auto simp: paired_environment_def memory_hit_file_def split: prod.splits)

lemma paired_engine:
  assumes "24 * length data + 72 \<le> u64_max" "literal_ok lit"
  shows "query_engine (paired_environment (Suc k) data) data (file_fingerprint data)
    (\<lambda>w. generation (fst w) = gen) memory_hit_file snd False gen False lit"
  using assms by unfold_locales (auto simp: paired_environment_def is_cancelled_def)

interpretation memory_engine: query_engine "paired_environment (Suc k) (take 1000000 data)" "take 1000000 data"
    "file_fingerprint (take 1000000 data)" "\<lambda>w. generation (fst w) = gen" memory_hit_file snd False gen False fmt
    "\<lparr>lit_bytes = [b], lit_failure = [0], lit_mode = MatchExact\<rparr>" quota for k data gen fmt b quota
proof (rule paired_engine)
  have "length (take 1000000 data) \<le> 1000000" by simp
  then show "24 * length (take 1000000 data) + 72 \<le> u64_max" by linarith
  show "literal_ok \<lparr>lit_bytes = [b], lit_failure = [0], lit_mode = MatchExact\<rparr>"
    by (simp add: literal_ok_def borders_below_def is_border_def)
qed

section \<open>Properties\<close>


text \<open>A session over a small file: the needle is \<open>ab\<close>, the records are \<open>xab\<close> and \<open>abab\<close>.\<close>

abbreviation sample_file :: bytes where
  "sample_file \<equiv> [120, 97, 98, 10, 97, 98, 97, 98]"

abbreviation sample_config :: query_config where
  "sample_config \<equiv> \<lparr>qc_format = Lines, qc_read_buffer_bytes = 4, qc_cancellation_check_bytes = 2,
     qc_page_capacity = 2, qc_scratch_quota_bytes = 96\<rparr>"

abbreviation sample_env :: "(cancellation_token \<times> bytes) environment" where
  "sample_env \<equiv> paired_environment (Suc 2) sample_file"

lemma sample_query:
  obtains lit s w where "compile_literal [97, 98] MatchExact = Some lit"
    "query_engine sample_env sample_file (file_fingerprint sample_file)
       (\<lambda>w. generation (fst w) = 5) memory_hit_file snd False 5 False lit"
    "query_new sample_env memory_hit_file (replicate 16 7) [97, 98] MatchExact sample_config
       (\<lparr>generation = 5\<rparr>, []) = (Ok s, w)" "generation (fst w) = 5"
    "query_ok sample_file Lines (file_fingerprint sample_file) lit 96 s (snd w)"
    "store_holds s (snd w) []"
proof -
  from compile_literal_spec [of "[97, 98]" MatchExact] obtain lit where
    lit: "compile_literal [97, 98] MatchExact = Some lit" "literal_ok lit" by auto
  have e: "query_engine sample_env sample_file (file_fingerprint sample_file)
     (\<lambda>w. generation (fst w) = 5) memory_hit_file snd False 5 False lit"
    by (rule paired_engine) (simp_all add: lit(2))
  have "ends (\<lambda>_ _. False) (query_new sample_env memory_hit_file (replicate 16 7) [97, 98] MatchExact sample_config)
      (\<lparr>generation = 5\<rparr>, []) (\<lambda>s w. (generation (fst w) = 5 \<and>
         query_ok sample_file Lines (file_fingerprint sample_file) lit 96 s (snd w))
       \<and> qs_status s = QRunning \<and> qs_config s = sample_config \<and> store_holds s (snd w) [])"
    using query_engine.query_new_yields [OF e, of "(\<lparr>generation = 5\<rparr>, [])" "replicate 16 7" "[97, 98]"
        MatchExact Lines 4 2 2 96 sample_config] lit(1)
    by (simp add: query_config_new_def paired_environment_def)
  then show thesis
    by (cases rule: endsE) (use that lit(1) e in auto)
qed


text \<open>
  C17. A whole search.  Over a source that does not change, with an allocator that grants what is
  asked and no cancellation, a session over an empty scratch file is created, and the client that
  keeps calling \<open>advance\<close>, whatever the work budget of a call, needs at most four calls per byte of the
  file and two more.  It ends with every hit of the file stored, or with the scratch quota exhausted,
  where one more hit would not have fitted; a quota that fits all hits gives all hits.  Only a write
  to the scratch file that fails can end it otherwise, with that error.  In every case the stored hits
  are the first ones of the file.
\<close>

theorem query_runs_to_the_end:
  assumes "query_engine env data base world_ok hf contents may_fail gen False lit"
    and "compile_literal needle mode = Some lit" "needle \<noteq> []"
    and "query_config_new fmt rb cb pc quota = Inr cfg" "length owner = 16" "0 < work"
    and "world_ok w" "contents w = []" "\<forall>v n. world_ok v \<longrightarrow> fst (env_try_reserve env v n)"
  shows "(\<exists>io w'. may_fail \<and> query_new env hf owner needle mode cfg w = (Err (QIo io), w')) \<or>
    (\<exists>s w' r s' w'' hits. query_new env hf owner needle mode cfg w = (Ok s, w')
      \<and> query_drive (4 * length data + 2) env hf gen work (s, w') = (r, (s', w''))
      \<and> store_holds s' (contents w'') hits \<and> prefix hits (all_hits lit data (format_records fmt 0 data))
      \<and> (case r of
           Ok st \<Rightarrow>
             (if 48 + 24 * length (all_hits lit data (format_records fmt 0 data)) \<le> quota
              then st = QComplete \<and> hits = all_hits lit data (format_records fmt 0 data)
              else 48 + 24 * length hits \<le> quota \<and> quota < 48 + 24 * Suc (length hits))
         | Err e \<Rightarrow> may_fail \<and> (\<exists>io. e = QIo io)
         | Panic \<Rightarrow> False))"
  by (rule query_engine.drive_hits [OF assms(1) _ assms(2-9)]) simp

lemma query_runs_to_the_end_witness:
  "\<exists>lit s w' st s' w'' hits.
     query_new sample_env memory_hit_file (replicate 16 7) [97, 98] MatchExact sample_config
       (\<lparr>generation = 5\<rparr>, []) = (Ok s, w')
     \<and> query_drive (4 * length sample_file + 2) sample_env memory_hit_file 5 3 (s, w') = (Ok st, (s', w''))
     \<and> store_holds s' (snd w'') hits \<and> 48 + 24 * length hits \<le> 96"
proof -
  from compile_literal_spec [of "[97, 98]" MatchExact] obtain lit where
    lit: "compile_literal [97, 98] MatchExact = Some lit" "literal_ok lit" by auto
  have e: "query_engine sample_env sample_file (file_fingerprint sample_file)
     (\<lambda>w. generation (fst w) = 5) memory_hit_file snd False 5 False lit"
    by (rule paired_engine) (simp_all add: lit(2))
  have cfg: "query_config_new Lines 4 2 2 96 = Inr sample_config" by (simp add: query_config_new_def)
  from query_runs_to_the_end [OF e lit(1) _ cfg, where owner = "replicate 16 7" and w = "(\<lparr>generation = 5\<rparr>, [])" and work = 3]
  have "(\<exists>io w'. False \<and> query_new sample_env memory_hit_file (replicate 16 7) [97, 98] MatchExact sample_config
       (\<lparr>generation = 5\<rparr>, []) = (Err (QIo io), w')) \<or>
    (\<exists>s w' r s' w'' hits.
     query_new sample_env memory_hit_file (replicate 16 7) [97, 98] MatchExact sample_config
       (\<lparr>generation = 5\<rparr>, []) = (Ok s, w')
     \<and> query_drive (4 * length sample_file + 2) sample_env memory_hit_file 5 3 (s, w') = (r, (s', w''))
     \<and> store_holds s' (snd w'') hits
     \<and> prefix hits (all_hits lit sample_file (format_records Lines 0 sample_file))
     \<and> (case r of
          Ok st \<Rightarrow>
            (if 48 + 24 * length (all_hits lit sample_file (format_records Lines 0 sample_file)) \<le> 96
             then st = QComplete \<and> hits = all_hits lit sample_file (format_records Lines 0 sample_file)
             else 48 + 24 * length hits \<le> 96 \<and> 96 < 48 + 24 * Suc (length hits))
        | Err e \<Rightarrow> False \<and> (\<exists>io. e = QIo io)
        | Panic \<Rightarrow> False))"
    by (simp add: paired_environment_def)
  then show ?thesis by (elim exE conjE disjE) (auto split: if_splits outcome.splits)
qed

text \<open>
  C18. Reading the hits back.  Whatever page is cached, reading hit \<open>i\<close> returns the \<open>i\<close>-th stored hit
  and nothing behind the last one, and reading a page returns the hits from its first one on, at most
  as many as the page holds; neither ever fails, and both leave the stored hits as they were.
\<close>

theorem query_hits_read_back:
  assumes "query_engine env data base world_ok hf contents may_fail gen may_cancel lit"
    and "world_ok w" "query_ok data fmt base lit quota s (contents w)" "store_holds s (contents w) hits"
  shows "(\<exists>w' pg. read_hit hf i (s, w) =
        (Ok (if i < length hits then Some (hits ! i) else None), (s\<lparr>qs_page := pg\<rparr>, w'))
      \<and> world_ok w' \<and> contents w' = contents w \<and> store_holds (s\<lparr>qs_page := pg\<rparr>) (contents w') hits)
    \<and> (\<exists>w' pg. read_page hf i (s, w) =
        (Ok (i, take (pg_capacity (qs_page s)) (drop i hits)), (s\<lparr>qs_page := pg\<rparr>, w'))
      \<and> world_ok w' \<and> contents w' = contents w \<and> store_holds (s\<lparr>qs_page := pg\<rparr>) (contents w') hits)"
  by (rule query_engine.read_back [OF assms])

lemma query_hits_read_back_witness:
  "\<exists>s w w' pg.
     query_new sample_env memory_hit_file (replicate 16 7) [97, 98] MatchExact sample_config
       (\<lparr>generation = 5\<rparr>, []) = (Ok s, w) \<and>
     read_hit memory_hit_file 0 (s, w) = (Ok None, (s\<lparr>qs_page := pg\<rparr>, w'))"
proof (rule sample_query)
  fix lit s w
  assume s: "query_engine sample_env sample_file (file_fingerprint sample_file)
       (\<lambda>w. generation (fst w) = 5) memory_hit_file snd False 5 False lit"
    "query_new sample_env memory_hit_file (replicate 16 7) [97, 98] MatchExact sample_config
       (\<lparr>generation = 5\<rparr>, []) = (Ok s, w)" "generation (fst w) = 5"
    "query_ok sample_file Lines (file_fingerprint sample_file) lit 96 s (snd w)"
    "store_holds s (snd w) []"
  from query_hits_read_back [OF s(1,3,4,5), of 0] s(2) show ?thesis by auto
qed

end
