(* ===== verification/Scratch_Recovery.thy ===== *)
theory Scratch_Recovery imports Query_Store begin

text \<open>
  Scratch files on disk (\<open>ScratchHitStore::create\<close>, \<open>recover_stale_query_files\<close> and their helpers in
  \<open>crates/leanrows-core/src/query.rs\<close>).  A directory is the list of entries its enumeration gives, each
  with what the file system answers about it; creation tries owners until one name is free.
\<close>

section \<open>Creating a scratch file\<close>

datatype open_outcome = Opened | AlreadyExists | OpenFailed io_error

text \<open>\<open>owners k\<close> is the owner of attempt \<open>k\<close>, \<open>open_new\<close> the file system's answer for a name.\<close>

fun create_attempts :: "(nat \<Rightarrow> bytes) \<Rightarrow> (bytes \<Rightarrow> open_outcome) \<Rightarrow> nat \<Rightarrow> nat \<Rightarrow> query_error + bytes" where
  "create_attempts owners open_new k 0 = Inl ScratchNameExhausted"
| "create_attempts owners open_new k (Suc n) =
     (case open_new (scratch_file_name (owners k)) of
        Opened \<Rightarrow> Inr (owners k)
      | AlreadyExists \<Rightarrow> create_attempts owners open_new (Suc k) n
      | OpenFailed e \<Rightarrow> Inl (QIo e))"

definition scratch_create ::
    "(nat \<Rightarrow> bytes) \<Rightarrow> (bytes \<Rightarrow> open_outcome) \<Rightarrow> nat \<Rightarrow> query_error + scratch_store" where
  "scratch_create owners open_new quota =
     map_sum id (\<lambda>owner. \<lparr>sc_owner = owner, sc_quota_bytes = quota,
         sc_used_bytes = query_scratch_header_bytes, sc_entries = 0\<rparr>)
       (create_attempts owners open_new 0 64)"

section \<open>Recovering stale files\<close>

record scratch_entry =
  se_name :: bytes
  se_contained :: bool
  se_metadata :: "io_error + (bool \<times> nat)"
  se_canonical_inside :: "io_error + bool"
  se_header :: "io_error + bytes option"
  se_remove :: "io_error option"

text \<open>
  The metadata are whether the entry is a regular file and no reparse point, and its length; the
  header is \<open>None\<close> when the file ends before it.
\<close>

definition is_recoverable_query_file :: "bytes \<Rightarrow> scratch_entry \<Rightarrow> query_error + bool" where
  "is_recoverable_query_file owner e =
     (case se_metadata e of
        Inl err \<Rightarrow> Inl (QIo err)
      | Inr (plain, len) \<Rightarrow>
          if \<not> plain then Inr False
          else
            (case se_canonical_inside e of
               Inl err \<Rightarrow> Inl (QIo err)
             | Inr inside \<Rightarrow>
                 if \<not> inside then Inr False
                 else
                   (case se_header e of
                      Inl err \<Rightarrow> Inl (QIo err)
                    | Inr None \<Rightarrow> Inr False
                    | Inr (Some header) \<Rightarrow>
                        if header \<noteq> scratch_header owner then Inr False
                        else if len < query_scratch_header_bytes then Inr False
                        else Inr ((len - query_scratch_header_bytes) mod query_hit_entry_bytes = 0))))"

record recovery_report =
  removed_files :: nat
  retained_candidates :: nat

text \<open>What one entry comes to: not a candidate, retained, or removed.\<close>

datatype entry_fate = NotOurs | Retained | Removed

definition entry_fate :: "scratch_entry \<Rightarrow> query_error + entry_fate" where
  "entry_fate e =
     (case parse_owner_from_name (se_name e) of
        None \<Rightarrow> Inr NotOurs
      | Some owner \<Rightarrow>
          if \<not> se_contained e then Inr Retained
          else
            (case is_recoverable_query_file owner e of
               Inl err \<Rightarrow> Inl err
             | Inr False \<Rightarrow> Inr Retained
             | Inr True \<Rightarrow> (case se_remove e of Some err \<Rightarrow> Inl (QIo err) | None \<Rightarrow> Inr Removed)))"

text \<open>The enumeration: the names removed so far are kept, for an error leaves them removed.\<close>

fun recover_entries ::
    "(io_error + scratch_entry) list \<Rightarrow> recovery_report \<Rightarrow> bytes list
     \<Rightarrow> (query_error + recovery_report) \<times> bytes list" where
  "recover_entries [] report gone = (Inr report, gone)"
| "recover_entries (Inl err # es) report gone = (Inl (QIo err), gone)"
| "recover_entries (Inr e # es) report gone =
     (case entry_fate e of
        Inl err \<Rightarrow> (Inl err, gone)
      | Inr NotOurs \<Rightarrow> recover_entries es report gone
      | Inr Retained \<Rightarrow>
          (case checked_add (retained_candidates report) 1 of
             None \<Rightarrow> (Inl QAddressSpace, gone)
           | Some n \<Rightarrow> recover_entries es (report\<lparr>retained_candidates := n\<rparr>) gone)
      | Inr Removed \<Rightarrow>
          (case checked_add (removed_files report) 1 of
             None \<Rightarrow> (Inl QAddressSpace, gone @ [se_name e])
           | Some n \<Rightarrow> recover_entries es (report\<lparr>removed_files := n\<rparr>) (gone @ [se_name e])))"

definition recover_stale_query_files ::
    "(query_error + (io_error + scratch_entry) list) \<Rightarrow> (query_error + recovery_report) \<times> bytes list" where
  "recover_stale_query_files directory =
     (case directory of
        Inl err \<Rightarrow> (Inl err, [])
      | Inr es \<Rightarrow> recover_entries es \<lparr>removed_files = 0, retained_candidates = 0\<rparr> [])"

section \<open>What recovery removes\<close>

definition own_file :: "scratch_entry \<Rightarrow> bool" where
  "own_file e \<longleftrightarrow> (\<exists>owner len n. length owner = 16 \<and> se_name e = scratch_file_name owner \<and> se_contained e
     \<and> se_metadata e = Inr (True, len) \<and> se_canonical_inside e = Inr True
     \<and> se_header e = Inr (Some (scratch_header owner)) \<and> len = 48 + 24 * n)"

lemma parse_owner_exact:
  "parse_owner_from_name name = Some owner \<Longrightarrow> name = scratch_file_name owner \<and> length owner = 16"
proof -
  assume "parse_owner_from_name name = Some owner"
  then obtain s e where "strip_prefix scratch_name_prefix name = Some s"
    "strip_suffix scratch_name_suffix s = Some e" and e: "length e = 32" "list_all is_hex_digit e"
    "owner = hex_pairs e" by (auto simp: parse_owner_from_name_def bind_eq_Some_conv split: if_splits)
  moreover have "encode_owner owner = e" using e by (simp add: encode_hex_pairs)
  ultimately show "name = scratch_file_name owner \<and> length owner = 16"
    by (simp add: strip_prefix_Some strip_suffix_Some scratch_file_name_def length_hex_pairs)
qed

lemma parse_scratch_name: "length owner = 16 \<Longrightarrow> parse_owner_from_name (scratch_file_name owner) = Some owner"
  by (simp add: parse_owner_from_name_def scratch_file_name_def strip_prefix_def strip_suffix_def
      hex_pairs_encode encode_owner_digits length_encode_owner)

lemma recoverable_iff:
  "is_recoverable_query_file owner e = Inr True \<longleftrightarrow>
     (\<exists>n. se_metadata e = Inr (True, 48 + 24 * n) \<and> se_canonical_inside e = Inr True
        \<and> se_header e = Inr (Some (scratch_header owner)))"
proof
  assume "is_recoverable_query_file owner e = Inr True"
  then obtain len where a: "se_metadata e = Inr (True, len)" "se_canonical_inside e = Inr True"
    "se_header e = Inr (Some (scratch_header owner))" "48 \<le> len" "(len - 48) mod 24 = 0"
    by (auto simp: is_recoverable_query_file_def split: sum.splits option.splits if_splits)
  from a(5) obtain n where "len - 48 = 24 * n" by (metis dvd_imp_mod_0 mod_0_imp_dvd dvdE)
  with a(4) have "len = 48 + 24 * n" by simp
  with a show "\<exists>n. se_metadata e = Inr (True, 48 + 24 * n) \<and> se_canonical_inside e = Inr True
      \<and> se_header e = Inr (Some (scratch_header owner))" by blast
qed (auto simp: is_recoverable_query_file_def)

lemma entry_fate_own:
  "own_file e \<Longrightarrow> entry_fate e = (case se_remove e of Some err \<Rightarrow> Inl (QIo err) | None \<Rightarrow> Inr Removed)"
proof -
  assume "own_file e"
  then obtain owner n where o: "length owner = 16" "se_name e = scratch_file_name owner" "se_contained e"
    "se_metadata e = Inr (True, 48 + 24 * n)" "se_canonical_inside e = Inr True"
    "se_header e = Inr (Some (scratch_header owner))" by (auto simp: own_file_def)
  then have "is_recoverable_query_file owner e = Inr True" using recoverable_iff by blast
  with o show ?thesis by (simp add: entry_fate_def parse_scratch_name split: option.split)
qed

lemma entry_fate_removed: "entry_fate e = Inr Removed \<Longrightarrow> own_file e"
proof -
  assume "entry_fate e = Inr Removed"
  then obtain owner where "parse_owner_from_name (se_name e) = Some owner" "se_contained e"
    "is_recoverable_query_file owner e = Inr True"
    by (auto simp: entry_fate_def split: option.splits sum.splits bool.splits if_splits)
  with parse_owner_exact [of "se_name e" owner] recoverable_iff [of owner e]
  show "own_file e" by (auto simp: own_file_def)
qed

text \<open>The own files of an enumeration.\<close>

fun own_names :: "(io_error + scratch_entry) list \<Rightarrow> bytes list" where
  "own_names [] = []"
| "own_names (Inl _ # es) = own_names es"
| "own_names (Inr e # es) = (if own_file e then se_name e # own_names es else own_names es)"

lemma recover_entries_gone:
  "recover_entries es report gone = (r, gone') \<Longrightarrow>
     (\<exists>names. prefix names (own_names es) \<and> gone' = gone @ names
       \<and> (\<forall>rep. r = Inr rep \<longrightarrow> names = own_names es
            \<and> removed_files rep = removed_files report + length names))"
proof (induction es report gone rule: recover_entries.induct)
  case (1 report gone)
  then show ?case by auto
next
  case (2 err es report gone)
  then show ?case by (intro exI [of _ "[]"]) auto
next
  case (3 e es report gone)
  show ?case
  proof (cases "entry_fate e")
    case (Inl err)
    with 3(4) show ?thesis by (intro exI [of _ "[]"]) auto
  next
    case (Inr f)
    show ?thesis
    proof (cases "own_file e")
      case False
      then have f: "f = NotOurs \<or> f = Retained"
        using entry_fate_removed [of e] Inr by (cases f) auto
      from f 3(4) Inr consider
        report' where "recover_entries es report' gone = (r, gone')"
          "removed_files report' = removed_files report"
          "f = NotOurs \<and> report' = report \<or> f = Retained
            \<and> (\<exists>n. checked_add (retained_candidates report) 1 = Some n \<and> report' = report\<lparr>retained_candidates := n\<rparr>)"
        | "gone' = gone" "\<exists>err. r = Inl err"
        by (auto split: option.splits)
      then show ?thesis
      proof cases
        case 1
        then have "\<exists>names. prefix names (own_names es) \<and> gone' = gone @ names
            \<and> (\<forall>rep. r = Inr rep \<longrightarrow> names = own_names es
               \<and> removed_files rep = removed_files report' + length names)"
          using 3(1,2) Inr by blast
        with False 1(2) show ?thesis by simp
      next
        case 2
        then show ?thesis by (intro exI [of _ "[]"]) auto
      qed
    next
      case True
      with Inr have f: "f = Removed" using entry_fate_own [of e] by (auto split: option.splits)
      show ?thesis
      proof (cases "checked_add (removed_files report) 1")
        case None
        with 3(4) Inr f True show ?thesis by (intro exI [of _ "[se_name e]"]) auto
      next
        case (Some n)
        with 3(4) Inr f have "recover_entries es (report\<lparr>removed_files := n\<rparr>) (gone @ [se_name e]) = (r, gone')"
          by simp
        moreover have rf: "removed_files (report\<lparr>removed_files := n\<rparr>) = n" by simp
        note 3(3) [OF Inr f Some calculation]
        then obtain names where n: "prefix names (own_names es)"
          "gone' = (gone @ [se_name e]) @ names" "\<forall>rep. r = Inr rep \<longrightarrow> names = own_names es
             \<and> removed_files rep = n + length names"
          unfolding rf by (elim exE conjE) (rule that)
        have len: "n = Suc (removed_files report)" using Some by (simp add: checked_simps)
        have "se_name e # names = own_names (Inr e # es)
             \<and> removed_files rep = removed_files report + length (se_name e # names)" if "r = Inr rep" for rep
        proof -
          from n(3) that have "names = own_names es" "removed_files rep = n + length names" by blast+
          then show ?thesis using True len by simp
        qed
        moreover have "prefix (se_name e # names) (own_names (Inr e # es))" using n(1) True by simp
        moreover have "gone' = gone @ (se_name e # names)" using n(2) by simp
        ultimately show ?thesis by blast
      qed
    qed
  qed
qed

text \<open>What a session itself stored is such a file.\<close>

lemma session_file_is_own:
  assumes h: "store_holds s c hits"
    and e: "se_name e = scratch_file_name (sc_owner (qs_scratch s))" "se_contained e"
      "se_metadata e = Inr (True, sc_used_bytes (qs_scratch s))" "se_canonical_inside e = Inr True"
      "se_header e = Inr (Some (take 48 c))"
  shows "own_file e"
proof -
  let ?o = "sc_owner (qs_scratch s)"
  have o: "length ?o = 16" "sc_used_bytes (qs_scratch s) = 48 + 24 * length hits"
    and c: "take (48 + 24 * length hits) c = store_bytes ?o hits"
    using h by (simp_all add: store_holds_def)
  have "take 48 c = take 48 (take (48 + 24 * length hits) c)" by (simp only: take_take) simp
  also have "\<dots> = scratch_header ?o" unfolding c by (simp add: store_bytes_def length_scratch_header o(1))
  finally have "se_header e = Inr (Some (scratch_header ?o))" using e(5) by simp
  then show ?thesis
    unfolding own_file_def using o(1) e(1-4) unfolding o(2) by blast
qed

text \<open>
  C23. Recovery removes query scratch files only.  Every name that \<open>recover_stale_query_files\<close> removes,
  whether it ends with a report or with an error, is one that a session makes for a 16-byte owner, of
  a regular file inside the directory that starts with that owner's header and holds whole entries
  (\<open>own_file\<close>); they go in the order of the enumeration, and a report means that all of them are gone
  and counts them.
\<close>

theorem recovery_removes_only_scratch_files:
  "\<exists>names. prefix names (own_names es) \<and> snd (recover_stale_query_files (Inr es)) = names
      \<and> (\<forall>rep. fst (recover_stale_query_files (Inr es)) = Inr rep \<longrightarrow>
           names = own_names es \<and> removed_files rep = length names)"
proof -
  obtain r gone where rg: "recover_stale_query_files (Inr es) = (r, gone)" by (rule prod.exhaust)
  then have "recover_entries es \<lparr>removed_files = 0, retained_candidates = 0\<rparr> [] = (r, gone)"
    unfolding recover_stale_query_files_def sum.case .
  from recover_entries_gone [OF this] show ?thesis
    unfolding rg fst_conv snd_conv append_Nil recovery_report.simps add_0 by blast
qed

text \<open>A directory with a file of the program, and one that only has such a name.\<close>

definition sample_entry :: "nat \<Rightarrow> scratch_entry" where
  "sample_entry len = \<lparr>se_name = scratch_file_name (replicate 16 7), se_contained = True,
     se_metadata = Inr (True, len), se_canonical_inside = Inr True,
     se_header = Inr (Some (scratch_header (replicate 16 7))), se_remove = None\<rparr>"

lemma recovery_removes_only_scratch_files_witness:
  "snd (recover_stale_query_files (Inr [Inr (sample_entry 96), Inr (sample_entry 97)]))
     = [scratch_file_name (replicate 16 7)]"
proof -
  let ?es = "[Inr (sample_entry 96), Inr (sample_entry 97)] :: (io_error + scratch_entry) list"
  have p: "parse_owner_from_name (scratch_file_name (replicate 16 7)) = Some (replicate 16 7)"
    by (rule parse_scratch_name) simp
  have f: "entry_fate (sample_entry 96) = Inr Removed" "entry_fate (sample_entry 97) = Inr Retained"
    by (simp_all add: entry_fate_def sample_entry_def p is_recoverable_query_file_def)
  have own: "own_file (sample_entry 96)" using f(1) by (rule entry_fate_removed)
  have "\<not> own_file (sample_entry 97)"
    using entry_fate_own [of "sample_entry 97"] f(2) by (auto split: option.splits)
  with own have "own_names ?es = [scratch_file_name (replicate 16 7)]" by (simp add: sample_entry_def)
  moreover have "\<exists>rep. fst (recover_stale_query_files (Inr ?es)) = Inr rep"
    by (simp add: recover_stale_query_files_def f checked_add_def)
  ultimately show ?thesis using recovery_removes_only_scratch_files [of ?es] by auto
qed

end
