(* ===== verification/Field_Projection.thy ===== *)
theory Field_Projection imports Viewport_Read "HOL-Library.Sublist" begin

text \<open>
  Projecting the fields of one visible record (\<open>crates/leanrows-core/src/projection.rs\<close>): the parser
  over the bounded bytes of a record preview, with its limits on fields and decoded bytes.  The UTF-8
  check is the one of the standard library.  \<open>csv_fields\<close> is the reference: the fields of a record
  with their raw extents and unescaped values, without any limit.
\<close>

section \<open>UTF-8\<close>

datatype utf8_check = Utf8Ok | Utf8BadSequence | Utf8UnexpectedEnd

abbreviation utf8_continuation :: "u8 \<Rightarrow> bool" where
  "utf8_continuation b \<equiv> 0x80 \<le> b \<and> b \<le> 0xBF"

text \<open>The second byte of a sequence, by its first; \<open>None\<close> when no sequence starts so.\<close>

definition utf8_second :: "u8 \<Rightarrow> (nat \<times> u8 \<times> u8) option" where
  "utf8_second b =
     (if 0xC2 \<le> b \<and> b \<le> 0xDF then Some (0, 0x80, 0xBF)
      else if b = 0xE0 then Some (1, 0xA0, 0xBF)
      else if 0xE1 \<le> b \<and> b \<le> 0xEC then Some (1, 0x80, 0xBF)
      else if b = 0xED then Some (1, 0x80, 0x9F)
      else if 0xEE \<le> b \<and> b \<le> 0xEF then Some (1, 0x80, 0xBF)
      else if b = 0xF0 then Some (2, 0x90, 0xBF)
      else if 0xF1 \<le> b \<and> b \<le> 0xF3 then Some (2, 0x80, 0xBF)
      else if b = 0xF4 then Some (2, 0x80, 0x8F)
      else None)"

text \<open>\<open>pending\<close> continuation bytes are due, the next of them between \<open>lo\<close> and \<open>hi\<close>.\<close>

fun utf8_scan :: "(nat \<times> u8 \<times> u8) option \<Rightarrow> bytes \<Rightarrow> utf8_check" where
  "utf8_scan None [] = Utf8Ok"
| "utf8_scan (Some _) [] = Utf8UnexpectedEnd"
| "utf8_scan None (b # bs) =
     (if b < 0x80 then utf8_scan None bs
      else case utf8_second b of None \<Rightarrow> Utf8BadSequence | Some p \<Rightarrow> utf8_scan (Some p) bs)"
| "utf8_scan (Some (n, lo, hi)) (b # bs) =
     (if lo \<le> b \<and> b \<le> hi
      then utf8_scan (if n = 0 then None else Some (n - 1, 0x80, 0xBF)) bs
      else Utf8BadSequence)"

definition from_utf8 :: "bytes \<Rightarrow> utf8_check" where
  "from_utf8 bs = utf8_scan None bs"

datatype field_utf8_status = FieldUtf8Valid | FieldUtf8Invalid | FieldUtf8Incomplete

definition classify_utf8 :: "bytes \<Rightarrow> bool \<Rightarrow> field_utf8_status" where
  "classify_utf8 bs truncated =
     (case from_utf8 bs of
        Utf8Ok \<Rightarrow> FieldUtf8Valid
      | Utf8UnexpectedEnd \<Rightarrow> if truncated then FieldUtf8Incomplete else FieldUtf8Invalid
      | Utf8BadSequence \<Rightarrow> FieldUtf8Invalid)"

section \<open>Limits and results\<close>

datatype projection_error = ZeroFieldLimit | OffsetOverflow | VisiblePrefixOutsideRecord

record projection_limits =
  pl_fields :: nat
  pl_decoded_bytes_per_field :: nat
  pl_total_decoded_bytes :: nat

definition projection_limits_new :: "nat \<Rightarrow> nat \<Rightarrow> nat \<Rightarrow> projection_error + projection_limits" where
  "projection_limits_new max_fields per_field total_bytes =
     (if max_fields = 0 then Inl ZeroFieldLimit
      else Inr \<lparr>pl_fields = max_fields, pl_decoded_bytes_per_field = per_field,
                pl_total_decoded_bytes = total_bytes\<rparr>)"

abbreviation flag_quoted :: u8 where "flag_quoted \<equiv> 1"
abbreviation flag_escaped_quotes :: u8 where "flag_escaped_quotes \<equiv> 2"
abbreviation flag_raw_truncated :: u8 where "flag_raw_truncated \<equiv> 4"
abbreviation flag_decoded_truncated :: u8 where "flag_decoded_truncated \<equiv> 8"

record field_projection =
  fp_raw_span :: record_span
  fp_decoded :: bytes
  fp_flags :: u8
  fp_utf8_status :: field_utf8_status

definition flag_contains :: "u8 \<Rightarrow> u8 \<Rightarrow> bool" where
  "flag_contains flags flag \<longleftrightarrow> and flags flag \<noteq> 0"

definition was_quoted :: "field_projection \<Rightarrow> bool" where
  "was_quoted f = flag_contains (fp_flags f) flag_quoted"

definition had_escaped_quotes :: "field_projection \<Rightarrow> bool" where
  "had_escaped_quotes f = flag_contains (fp_flags f) flag_escaped_quotes"

definition is_raw_truncated :: "field_projection \<Rightarrow> bool" where
  "is_raw_truncated f = flag_contains (fp_flags f) flag_raw_truncated"

definition is_decoded_truncated :: "field_projection \<Rightarrow> bool" where
  "is_decoded_truncated f = flag_contains (fp_flags f) flag_decoded_truncated"

definition field_is_truncated :: "field_projection \<Rightarrow> bool" where
  "field_is_truncated f \<longleftrightarrow> is_raw_truncated f \<or> is_decoded_truncated f"

record record_projection =
  dp_record_span :: record_span
  dp_fields :: "field_projection list"
  dp_fields_truncated :: bool

section \<open>The parser\<close>

datatype field_state = FsStart | FsUnquoted | FsQuoted | FsQuoteClosed

record field_accumulator =
  fa_raw_start :: nat
  fa_decoded :: bytes
  fa_limit :: nat
  fa_quoted :: bool
  fa_escaped :: bool
  fa_truncated :: bool

definition accumulator_new :: "nat \<Rightarrow> nat \<Rightarrow> field_accumulator" where
  "accumulator_new raw_start decoded_limit =
     \<lparr>fa_raw_start = raw_start, fa_decoded = [], fa_limit = decoded_limit, fa_quoted = False,
      fa_escaped = False, fa_truncated = False\<rparr>"

definition push_decoded :: "u8 \<Rightarrow> field_accumulator \<Rightarrow> field_accumulator" where
  "push_decoded b fa =
     (if length (fa_decoded fa) < fa_limit fa then fa\<lparr>fa_decoded := fa_decoded fa @ [b]\<rparr>
      else fa\<lparr>fa_truncated := True\<rparr>)"

definition field_flags :: "field_accumulator \<Rightarrow> bool \<Rightarrow> u8" where
  "field_flags fa raw_truncated =
     or (or (or (if fa_quoted fa then flag_quoted else 0) (if fa_escaped fa then flag_escaped_quotes else 0))
            (if raw_truncated then flag_raw_truncated else 0))
        (if fa_truncated fa then flag_decoded_truncated else 0)"

definition accumulator_finish ::
    "field_accumulator \<Rightarrow> nat \<Rightarrow> nat \<Rightarrow> bool \<Rightarrow> projection_error + field_projection" where
  "accumulator_finish fa record_start raw_end raw_truncated =
     (case checked_add record_start (fa_raw_start fa) of
        None \<Rightarrow> Inl OffsetOverflow
      | Some a \<Rightarrow>
          (case checked_add record_start raw_end of
             None \<Rightarrow> Inl OffsetOverflow
           | Some z \<Rightarrow>
               (case span_new a z of
                  Inl _ \<Rightarrow> Inl VisiblePrefixOutsideRecord
                | Inr sp \<Rightarrow>
                    Inr \<lparr>fp_raw_span = sp, fp_decoded = fa_decoded fa,
                         fp_flags = field_flags fa raw_truncated,
                         fp_utf8_status = classify_utf8 (fa_decoded fa) (raw_truncated \<or> fa_truncated fa)\<rparr>)))"

definition new_field :: "nat \<Rightarrow> nat \<Rightarrow> nat \<Rightarrow> projection_limits \<Rightarrow> field_accumulator" where
  "new_field raw_start projected remaining lim =
     accumulator_new raw_start
       (if projected < pl_fields lim then min (pl_decoded_bytes_per_field lim) remaining else 0)"

text \<open>The three variables that \<open>finish_field\<close> changes.\<close>

record projected =
  pj_fields :: "field_projection list"
  pj_omitted :: bool
  pj_remaining :: nat

definition finish_field ::
    "projected \<Rightarrow> field_accumulator \<Rightarrow> nat \<Rightarrow> nat \<Rightarrow> bool \<Rightarrow> projection_limits
     \<Rightarrow> projection_error + projected" where
  "finish_field pj fa record_start raw_end raw_truncated lim =
     (if length (pj_fields pj) = pl_fields lim then Inr (pj\<lparr>pj_omitted := True\<rparr>)
      else
        (case accumulator_finish fa record_start raw_end raw_truncated of
           Inl e \<Rightarrow> Inl e
         | Inr f \<Rightarrow>
             Inr (pj\<lparr>pj_remaining := saturating_sub (pj_remaining pj) (length (fp_decoded f)),
                     pj_fields := pj_fields pj @ [f]\<rparr>)))"

text \<open>The loop over the bytes from \<open>cursor\<close> on, and the last field.\<close>

fun project_loop ::
    "csv_dialect \<Rightarrow> projection_limits \<Rightarrow> nat \<Rightarrow> bool \<Rightarrow> projected \<Rightarrow> field_state \<Rightarrow> field_accumulator \<Rightarrow> nat
     \<Rightarrow> bytes \<Rightarrow> projection_error + projected" where
  "project_loop d lim rs trunc pj st fa cursor [] = finish_field pj fa rs cursor trunc lim"
| "project_loop d lim rs trunc pj st fa cursor (b # bs) =
     (if st = FsStart \<and> b = quote d then
        project_loop d lim rs trunc pj FsQuoted (fa\<lparr>fa_quoted := True\<rparr>) (Suc cursor) bs
      else if st \<noteq> FsQuoted \<and> b = delimiter d then
        (case finish_field pj fa rs cursor False lim of
           Inl e \<Rightarrow> Inl e
         | Inr pj' \<Rightarrow>
             project_loop d lim rs trunc pj' FsStart
               (new_field (Suc cursor) (length (pj_fields pj')) (pj_remaining pj') lim) (Suc cursor) bs)
      else if st = FsQuoted \<and> b = quote d then
        project_loop d lim rs trunc pj FsQuoteClosed fa (Suc cursor) bs
      else if st = FsQuoteClosed \<and> b = quote d then
        project_loop d lim rs trunc pj FsQuoted (push_decoded (quote d) (fa\<lparr>fa_escaped := True\<rparr>))
          (Suc cursor) bs
      else if st \<noteq> FsQuoted then
        project_loop d lim rs trunc pj FsUnquoted (push_decoded b fa) (Suc cursor) bs
      else project_loop d lim rs trunc pj FsQuoted (push_decoded b fa) (Suc cursor) bs)"

definition project_delimited_record ::
    "record_preview \<Rightarrow> csv_dialect \<Rightarrow> projection_limits \<Rightarrow> projection_error + record_projection" where
  "project_delimited_record rec d lim =
     (if pl_fields lim = 0 then Inl ZeroFieldLimit
      else
        (case checked_add (span_start (rp_span rec)) (length (rp_bytes rec)) of
           None \<Rightarrow> Inl OffsetOverflow
         | Some visible_end \<Rightarrow>
             if visible_end > span_end (rp_span rec) then Inl VisiblePrefixOutsideRecord
             else
               (let trunc = (visible_end < span_end (rp_span rec) \<or> rp_truncated rec) in
                case project_loop d lim (span_start (rp_span rec)) trunc
                       \<lparr>pj_fields = [], pj_omitted = False, pj_remaining = pl_total_decoded_bytes lim\<rparr>
                       FsStart
                       (accumulator_new 0 (min (pl_decoded_bytes_per_field lim) (pl_total_decoded_bytes lim)))
                       0 (rp_bytes rec) of
                  Inl e \<Rightarrow> Inl e
                | Inr pj \<Rightarrow>
                    Inr \<lparr>dp_record_span = rp_span rec, dp_fields = pj_fields pj,
                         dp_fields_truncated = (pj_omitted pj \<or> trunc)\<rparr>)))"

section \<open>The fields of a record\<close>

record csv_field =
  cf_start :: nat
  cf_end :: nat
  cf_value :: bytes
  cf_quoted :: bool
  cf_escaped :: bool

fun csv_field_walk ::
    "csv_dialect \<Rightarrow> field_state \<Rightarrow> csv_field \<Rightarrow> bytes \<Rightarrow> csv_field list" where
  "csv_field_walk d st f [] = [f]"
| "csv_field_walk d st f (b # bs) =
     (let more = f\<lparr>cf_end := Suc (cf_end f)\<rparr> in
      case st of
        FsQuoted \<Rightarrow>
          if b = quote d then csv_field_walk d FsQuoteClosed more bs
          else csv_field_walk d FsQuoted (more\<lparr>cf_value := cf_value f @ [b]\<rparr>) bs
      | _ \<Rightarrow>
          if st = FsStart \<and> b = quote d then csv_field_walk d FsQuoted (more\<lparr>cf_quoted := True\<rparr>) bs
          else if b = delimiter d then
            f # csv_field_walk d FsStart
                  \<lparr>cf_start = Suc (cf_end f), cf_end = Suc (cf_end f), cf_value = [],
                   cf_quoted = False, cf_escaped = False\<rparr> bs
          else if st = FsQuoteClosed \<and> b = quote d then
            csv_field_walk d FsQuoted (more\<lparr>cf_value := cf_value f @ [b], cf_escaped := True\<rparr>) bs
          else csv_field_walk d FsUnquoted (more\<lparr>cf_value := cf_value f @ [b]\<rparr>) bs)"

definition field_at :: "nat \<Rightarrow> csv_field" where
  "field_at i = \<lparr>cf_start = i, cf_end = i, cf_value = [], cf_quoted = False, cf_escaped = False\<rparr>"

definition csv_fields :: "csv_dialect \<Rightarrow> bytes \<Rightarrow> csv_field list" where
  "csv_fields d bs = csv_field_walk d FsStart (field_at 0) bs"

section \<open>What a projection shows of them\<close>

definition field_view :: "nat \<Rightarrow> bool \<Rightarrow> nat \<Rightarrow> csv_field \<Rightarrow> field_projection" where
  "field_view rs raw_truncated limit f =
     (let v = take limit (cf_value f); cut = limit < length (cf_value f) in
      \<lparr>fp_raw_span = mk_span (rs + cf_start f) (rs + cf_end f), fp_decoded = v,
       fp_flags = field_flags \<lparr>fa_raw_start = cf_start f, fa_decoded = v, fa_limit = limit,
          fa_quoted = cf_quoted f, fa_escaped = cf_escaped f, fa_truncated = cut\<rparr> raw_truncated,
       fp_utf8_status = classify_utf8 v (raw_truncated \<or> cut)\<rparr>)"

fun bounded_view ::
    "projection_limits \<Rightarrow> nat \<Rightarrow> bool \<Rightarrow> nat \<Rightarrow> nat \<Rightarrow> csv_field list \<Rightarrow> field_projection list" where
  "bounded_view lim rs trunc remaining k [] = []"
| "bounded_view lim rs trunc remaining 0 (f # fs) = []"
| "bounded_view lim rs trunc remaining (Suc k) (f # fs) =
     (let n = min (pl_decoded_bytes_per_field lim) remaining in
      field_view rs (trunc \<and> fs = []) n f
        # bounded_view lim rs trunc (remaining - length (take n (cf_value f))) k fs)"

lemma bounded_view_0 [simp]: "bounded_view lim rs trunc remaining 0 fs = []"
  by (cases fs) simp_all

text \<open>The accumulator holds the field seen so far, cut to its limit.\<close>

definition accumulates :: "field_accumulator \<Rightarrow> nat \<Rightarrow> csv_field \<Rightarrow> bool" where
  "accumulates fa limit f \<longleftrightarrow>
     fa = \<lparr>fa_raw_start = cf_start f, fa_decoded = take limit (cf_value f), fa_limit = limit,
           fa_quoted = cf_quoted f, fa_escaped = cf_escaped f, fa_truncated = (limit < length (cf_value f))\<rparr>"

lemma accumulates_push:
  "accumulates fa limit f \<Longrightarrow>
     accumulates (push_decoded b fa) limit (f\<lparr>cf_end := e, cf_value := cf_value f @ [b]\<rparr>)"
  by (auto simp: accumulates_def push_decoded_def min_def)

lemma accumulates_end [simp]: "accumulates fa limit (f\<lparr>cf_end := e\<rparr>) = accumulates fa limit f"
  by (simp add: accumulates_def)

lemma finish_field_spec:
  assumes "accumulates fa limit f" "cf_start f \<le> cf_end f" "rs + cf_end f \<le> u64_max"
    and "length (pj_fields pj) \<le> pl_fields lim"
    and "limit = (if length (pj_fields pj) < pl_fields lim
       then min (pl_decoded_bytes_per_field lim) (pj_remaining pj) else 0)"
  shows "finish_field pj fa rs (cf_end f) rt lim =
    Inr (if length (pj_fields pj) = pl_fields lim then pj\<lparr>pj_omitted := True\<rparr>
         else pj\<lparr>pj_remaining := pj_remaining pj - length (take limit (cf_value f)),
                pj_fields := pj_fields pj @ [field_view rs rt limit f]\<rparr>)"
  using assms
  by (auto simp: finish_field_def accumulator_finish_def accumulates_def checked_add_def span_new_def
      field_view_def Let_def)

lemma walk_not_empty [simp]: "csv_field_walk d st f bs \<noteq> []"
  by (induction bs arbitrary: st f) (auto simp: Let_def split: field_state.splits)

lemma project_loop_spec:
  assumes "accumulates fa limit f" "cf_start f \<le> cf_end f" "rs + cf_end f + length bs \<le> u64_max"
    and "length (pj_fields pj) \<le> pl_fields lim"
    and "limit = (if length (pj_fields pj) < pl_fields lim
       then min (pl_decoded_bytes_per_field lim) (pj_remaining pj) else 0)"
  shows "\<exists>r. project_loop d lim rs trunc pj st fa (cf_end f) bs = Inr
     \<lparr>pj_fields = pj_fields pj @ bounded_view lim rs trunc (pj_remaining pj)
         (pl_fields lim - length (pj_fields pj)) (csv_field_walk d st f bs),
      pj_omitted = (pj_omitted pj \<or>
         pl_fields lim - length (pj_fields pj) < length (csv_field_walk d st f bs)),
      pj_remaining = r\<rparr>"
  using assms
proof (induction bs arbitrary: pj st fa f limit)
  case Nil
  have fin: "finish_field pj fa rs (cf_end f) trunc lim =
      Inr (if length (pj_fields pj) = pl_fields lim then pj\<lparr>pj_omitted := True\<rparr>
         else pj\<lparr>pj_remaining := pj_remaining pj - length (take limit (cf_value f)),
                pj_fields := pj_fields pj @ [field_view rs trunc limit f]\<rparr>)"
    using Nil.prems by (intro finish_field_spec) simp_all
  show ?case
  proof (cases "pl_fields lim - length (pj_fields pj)")
    case 0
    then have "length (pj_fields pj) = pl_fields lim" using Nil.prems(4) by simp
    then show ?thesis using fin by (cases pj) simp
  next
    case (Suc k)
    then have "length (pj_fields pj) < pl_fields lim" by simp
    then show ?thesis using fin Nil.prems(5) Suc by (cases pj) (simp add: Let_def)
  qed
next
  case (Cons b bs)
  let ?m = "f\<lparr>cf_end := Suc (cf_end f)\<rparr>"
  have acc: "accumulates fa limit ?m" using Cons.prems(1) by simp
  have step: "\<exists>r. project_loop d lim rs trunc pj st' fa' (Suc (cf_end f)) bs = Inr
     \<lparr>pj_fields = pj_fields pj @ bounded_view lim rs trunc (pj_remaining pj)
         (pl_fields lim - length (pj_fields pj)) (csv_field_walk d st' f' bs),
      pj_omitted = (pj_omitted pj \<or>
         pl_fields lim - length (pj_fields pj) < length (csv_field_walk d st' f' bs)),
      pj_remaining = r\<rparr>"
    if "accumulates fa' limit f'" "cf_start f' = cf_start f" "cf_end f' = Suc (cf_end f)" for st' fa' f'
    using Cons.IH [OF that(1) _ _ Cons.prems(4,5), of st'] that(2,3) Cons.prems(2,3) by simp
  consider (opened) "st = FsStart" "b = quote d"
    | (delim) "st \<noteq> FsQuoted" "b = delimiter d" "\<not> (st = FsStart \<and> b = quote d)"
    | (closed) "st = FsQuoted" "b = quote d"
    | (reopen) "st = FsQuoteClosed" "b = quote d" "b \<noteq> delimiter d"
    | (plain) "st \<noteq> FsQuoted" "b \<noteq> delimiter d" "\<not> (st = FsStart \<and> b = quote d)"
        "\<not> (st = FsQuoteClosed \<and> b = quote d)"
    | (inside) "st = FsQuoted" "b \<noteq> quote d" by blast
  then show ?case
  proof cases
    case opened
    have "accumulates (fa\<lparr>fa_quoted := True\<rparr>) limit (?m\<lparr>cf_quoted := True\<rparr>)"
      using acc by (auto simp: accumulates_def)
    from step [OF this] opened show ?thesis by (simp add: Let_def)
  next
    case delim
    have fin: "finish_field pj fa rs (cf_end f) False lim =
      Inr (if length (pj_fields pj) = pl_fields lim then pj\<lparr>pj_omitted := True\<rparr>
         else pj\<lparr>pj_remaining := pj_remaining pj - length (take limit (cf_value f)),
                pj_fields := pj_fields pj @ [field_view rs False limit f]\<rparr>)"
      using Cons.prems by (intro finish_field_spec) simp_all
    let ?f = "\<lparr>cf_start = Suc (cf_end f), cf_end = Suc (cf_end f), cf_value = [],
                   cf_quoted = False, cf_escaped = False\<rparr>"
    have walk: "csv_field_walk d st f (b # bs) = f # csv_field_walk d FsStart ?f bs"
      using delim by (cases st) (auto simp: Let_def)
    have go: "\<exists>r. project_loop d lim rs trunc pj' FsStart
          (new_field (Suc (cf_end f)) (length (pj_fields pj')) (pj_remaining pj') lim) (Suc (cf_end f)) bs = Inr
       \<lparr>pj_fields = pj_fields pj' @ bounded_view lim rs trunc (pj_remaining pj')
           (pl_fields lim - length (pj_fields pj')) (csv_field_walk d FsStart ?f bs),
        pj_omitted = (pj_omitted pj' \<or>
           pl_fields lim - length (pj_fields pj') < length (csv_field_walk d FsStart ?f bs)),
        pj_remaining = r\<rparr>"
      if "length (pj_fields pj') \<le> pl_fields lim" for pj'
      using Cons.IH [of "new_field (Suc (cf_end f)) (length (pj_fields pj')) (pj_remaining pj') lim" _ ?f pj' FsStart]
        Cons.prems(3) that by (simp add: accumulates_def new_field_def accumulator_new_def)
    show ?thesis
    proof (cases "pl_fields lim - length (pj_fields pj)")
      case 0
      then have full: "length (pj_fields pj) = pl_fields lim" using Cons.prems(4) by simp
      from go [of "pj\<lparr>pj_omitted := True\<rparr>"] delim full show ?thesis
        unfolding walk by (auto simp: fin)
    next
      case (Suc k)
      then have room: "length (pj_fields pj) < pl_fields lim" "pl_fields lim - Suc (length (pj_fields pj)) = k"
        by simp_all
      from go [of "pj\<lparr>pj_remaining := pj_remaining pj - length (take limit (cf_value f)),
                pj_fields := pj_fields pj @ [field_view rs False limit f]\<rparr>"]
        delim room Cons.prems(5) show ?thesis
        unfolding walk Suc by (auto simp: fin Let_def)
    qed
  next
    case closed
    from step [OF acc] closed show ?thesis by (simp add: Let_def)
  next
    case reopen
    have "accumulates (push_decoded (quote d) (fa\<lparr>fa_escaped := True\<rparr>)) limit
        (?m\<lparr>cf_value := cf_value f @ [b], cf_escaped := True\<rparr>)"
      using acc reopen(2) by (auto simp: accumulates_def push_decoded_def min_def)
    from step [OF this] reopen show ?thesis by (simp add: Let_def)
  next
    case plain
    have "accumulates (push_decoded b fa) limit (?m\<lparr>cf_value := cf_value f @ [b]\<rparr>)"
      using accumulates_push [OF Cons.prems(1)] by simp
    from step [OF this] plain show ?thesis by (cases st) (auto simp: Let_def)
  next
    case inside
    have "accumulates (push_decoded b fa) limit (?m\<lparr>cf_value := cf_value f @ [b]\<rparr>)"
      using accumulates_push [OF Cons.prems(1)] by simp
    from step [OF this] inside show ?thesis by (simp add: Let_def)
  qed
qed

lemma project_record_spec:
  assumes "0 < pl_fields lim" "span_start (rp_span r) + length (rp_bytes r) \<le> span_end (rp_span r)"
    and "span_end (rp_span r) \<le> u64_max"
  shows "project_delimited_record r d lim =
    (let trunc = (span_start (rp_span r) + length (rp_bytes r) < span_end (rp_span r) \<or> rp_truncated r) in
     Inr \<lparr>dp_record_span = rp_span r,
          dp_fields = bounded_view lim (span_start (rp_span r)) trunc (pl_total_decoded_bytes lim)
            (pl_fields lim) (csv_fields d (rp_bytes r)),
          dp_fields_truncated = (pl_fields lim < length (csv_fields d (rp_bytes r)) \<or> trunc)\<rparr>)"
proof -
  let ?trunc = "span_start (rp_span r) + length (rp_bytes r) < span_end (rp_span r) \<or> rp_truncated r"
  let ?n = "min (pl_decoded_bytes_per_field lim) (pl_total_decoded_bytes lim)"
  have "accumulates (accumulator_new 0 ?n) ?n (field_at 0)"
    by (simp add: accumulates_def accumulator_new_def field_at_def)
  from project_loop_spec [OF this, where rs = "span_start (rp_span r)" and bs = "rp_bytes r" and lim = lim
      and pj = "\<lparr>pj_fields = [], pj_omitted = False, pj_remaining = pl_total_decoded_bytes lim\<rparr>"
      and d = d and trunc = ?trunc and st = FsStart] assms
  show ?thesis
    by (auto simp: project_delimited_record_def checked_add_def csv_fields_def field_at_def Let_def)
qed

lemma bounded_view_length:
  "length (bounded_view lim rs trunc remaining k fs) = min k (length fs)"
  by (induction lim rs trunc remaining k fs rule: bounded_view.induct) (simp_all add: Let_def)

lemma bounded_view_total:
  "sum_list (map (\<lambda>f. length (fp_decoded f)) (bounded_view lim rs trunc remaining k fs)) \<le> remaining"
proof (induction lim rs trunc remaining k fs rule: bounded_view.induct)
  case (3 lim rs trunc remaining k g fs)
  let ?l = "length (take (min (pl_decoded_bytes_per_field lim) remaining) (cf_value g))"
  have "sum_list (map (\<lambda>f. length (fp_decoded f)) (bounded_view lim rs trunc (remaining - ?l) k fs))
      \<le> remaining - ?l" by (rule "3.IH" [OF refl])
  moreover have "?l \<le> remaining" by simp
  ultimately have "?l + sum_list (map (\<lambda>f. length (fp_decoded f)) (bounded_view lim rs trunc (remaining - ?l) k fs))
      \<le> remaining" by linarith
  then show ?case by (simp add: Let_def field_view_def)
qed simp_all

lemma bounded_view_each:
  "f \<in> set (bounded_view lim rs trunc remaining k fs) \<Longrightarrow>
     length (fp_decoded f) \<le> pl_decoded_bytes_per_field lim"
  by (induction lim rs trunc remaining k fs rule: bounded_view.induct)
    (auto simp: Let_def field_view_def)

lemma bounded_view_nth:
  "i < k \<Longrightarrow> i < length fs \<Longrightarrow>
     \<exists>n rt. bounded_view lim rs trunc remaining k fs ! i = field_view rs rt n (fs ! i)"
proof (induction lim rs trunc remaining k fs arbitrary: i rule: bounded_view.induct)
  case (3 lim rs trunc remaining k f fs)
  then show ?case by (cases i) (auto simp: Let_def)
qed simp_all

lemma flags_of [simp]:
  "flag_contains (field_flags fa rt) flag_quoted = fa_quoted fa"
  "flag_contains (field_flags fa rt) flag_escaped_quotes = fa_escaped fa"
  "flag_contains (field_flags fa rt) flag_raw_truncated = rt"
  "flag_contains (field_flags fa rt) flag_decoded_truncated = fa_truncated fa"
  by (cases "fa_quoted fa"; cases "fa_escaped fa"; cases rt; cases "fa_truncated fa";
      simp add: field_flags_def flag_contains_def)+

lemma field_view_facts:
  "fp_raw_span (field_view rs rt n f) = mk_span (rs + cf_start f) (rs + cf_end f)"
  "prefix (fp_decoded (field_view rs rt n f)) (cf_value f)"
  "was_quoted (field_view rs rt n f) = cf_quoted f"
  "had_escaped_quotes (field_view rs rt n f) = cf_escaped f"
  "is_raw_truncated (field_view rs rt n f) = rt"
  "is_decoded_truncated (field_view rs rt n f) = (fp_decoded (field_view rs rt n f) \<noteq> cf_value f)"
  by (simp_all add: field_view_def Let_def take_is_prefix was_quoted_def had_escaped_quotes_def
      is_raw_truncated_def is_decoded_truncated_def take_all_iff not_le)

text \<open>
  C22. Projection respects its limits.  For a preview inside its record, with room for a field, the
  projection never fails; it has the record's first fields, at most \<open>max_fields\<close> of them; a field
  holds at most \<open>max_decoded_bytes_per_field\<close> decoded bytes and all fields together at most
  \<open>max_total_decoded_bytes\<close>; every field shows the raw extent, the quoting and a prefix of the value
  of the corresponding field of the reference, and says whether it was cut; fields are missing only
  if the result says so.
\<close>

theorem projection_respects_limits:
  assumes "0 < pl_fields lim" "span_start (rp_span r) + length (rp_bytes r) \<le> span_end (rp_span r)"
    and "span_end (rp_span r) \<le> u64_max"
  shows "\<exists>p. project_delimited_record r d lim = Inr p \<and> dp_record_span p = rp_span r
    \<and> length (dp_fields p) = min (pl_fields lim) (length (csv_fields d (rp_bytes r)))
    \<and> sum_list (map (\<lambda>f. length (fp_decoded f)) (dp_fields p)) \<le> pl_total_decoded_bytes lim
    \<and> (\<forall>i < length (dp_fields p).
         (let f = dp_fields p ! i; g = csv_fields d (rp_bytes r) ! i in
            length (fp_decoded f) \<le> pl_decoded_bytes_per_field lim
          \<and> prefix (fp_decoded f) (cf_value g)
          \<and> fp_raw_span f = mk_span (span_start (rp_span r) + cf_start g) (span_start (rp_span r) + cf_end g)
          \<and> was_quoted f = cf_quoted g \<and> had_escaped_quotes f = cf_escaped g
          \<and> is_decoded_truncated f = (fp_decoded f \<noteq> cf_value g)))
    \<and> (\<not> dp_fields_truncated p \<longrightarrow> length (dp_fields p) = length (csv_fields d (rp_bytes r)))"
proof -
  let ?trunc = "span_start (rp_span r) + length (rp_bytes r) < span_end (rp_span r) \<or> rp_truncated r"
  let ?fs = "csv_fields d (rp_bytes r)"
  let ?v = "bounded_view lim (span_start (rp_span r)) ?trunc (pl_total_decoded_bytes lim) (pl_fields lim) ?fs"
  let ?p = "\<lparr>dp_record_span = rp_span r, dp_fields = ?v,
      dp_fields_truncated = (pl_fields lim < length ?fs \<or> ?trunc)\<rparr>"
  have len: "length ?v = min (pl_fields lim) (length ?fs)" by (rule bounded_view_length)
  have each: "let f = ?v ! i; g = ?fs ! i in length (fp_decoded f) \<le> pl_decoded_bytes_per_field lim
          \<and> prefix (fp_decoded f) (cf_value g)
          \<and> fp_raw_span f = mk_span (span_start (rp_span r) + cf_start g) (span_start (rp_span r) + cf_end g)
          \<and> was_quoted f = cf_quoted g \<and> had_escaped_quotes f = cf_escaped g
          \<and> is_decoded_truncated f = (fp_decoded f \<noteq> cf_value g)" if i: "i < length ?v" for i
  proof -
    from i len have "i < pl_fields lim" "i < length ?fs" by simp_all
    from bounded_view_nth [OF this] obtain n rt where "?v ! i = field_view (span_start (rp_span r)) rt n (?fs ! i)"
      by blast
    moreover have "length (fp_decoded (?v ! i)) \<le> pl_decoded_bytes_per_field lim"
      by (rule bounded_view_each [OF nth_mem [OF i]])
    ultimately show ?thesis by (simp add: Let_def field_view_facts)
  qed
  have all: "\<not> (pl_fields lim < length ?fs \<or> ?trunc) \<longrightarrow> length ?v = length ?fs" unfolding len by simp
  have every: "\<forall>i < length ?v. let f = ?v ! i; g = ?fs ! i in length (fp_decoded f) \<le> pl_decoded_bytes_per_field lim
          \<and> prefix (fp_decoded f) (cf_value g)
          \<and> fp_raw_span f = mk_span (span_start (rp_span r) + cf_start g) (span_start (rp_span r) + cf_end g)
          \<and> was_quoted f = cf_quoted g \<and> had_escaped_quotes f = cf_escaped g
          \<and> is_decoded_truncated f = (fp_decoded f \<noteq> cf_value g)" using each by blast
  have "project_delimited_record r d lim = Inr ?p"
    unfolding project_record_spec [OF assms] Let_def ..
  moreover have "dp_record_span ?p = rp_span r" "dp_fields ?p = ?v"
    "dp_fields_truncated ?p = (pl_fields lim < length ?fs \<or> ?trunc)" by simp_all
  ultimately obtain p where p: "project_delimited_record r d lim = Inr p" "dp_record_span p = rp_span r"
    "dp_fields p = ?v" "dp_fields_truncated p = (pl_fields lim < length ?fs \<or> ?trunc)" by blast
  show ?thesis
    by (rule exI [of _ p], unfold p(3,4), intro conjI; (rule p | rule len | rule bounded_view_total | rule every | rule all))
qed

lemma projection_respects_limits_witness:
  "\<exists>p. project_delimited_record \<lparr>rp_row = 0, rp_span = mk_span 10 17, rp_bytes = [34, 97, 34, 34, 98, 34],
       rp_truncated = True\<rparr> dialect_csv
       \<lparr>pl_fields = 2, pl_decoded_bytes_per_field = 2, pl_total_decoded_bytes = 9\<rparr> = Inr p
     \<and> length (dp_fields p) = 1 \<and> sum_list (map (\<lambda>f. length (fp_decoded f)) (dp_fields p)) \<le> 9"
  using projection_respects_limits [of "\<lparr>pl_fields = 2, pl_decoded_bytes_per_field = 2, pl_total_decoded_bytes = 9\<rparr>"
      "\<lparr>rp_row = 0, rp_span = mk_span 10 17, rp_bytes = [34, 97, 34, 34, 98, 34], rp_truncated = True\<rparr>" dialect_csv]
  by (force simp: csv_fields_def field_at_def dialect_csv_def)

end
