(* ===== verification/Csv_Roundtrip.thy ===== *)
theory Csv_Roundtrip imports Field_Projection Formats begin

text \<open>
  Writing a table as CSV and reading it back with the scanner of \<open>scan.rs\<close> and the projection of
  \<open>projection.rs\<close>.  The writer is specification only: a field is quoted when it must be, and may be
  when it need not.
\<close>

section \<open>The writer\<close>

definition must_quote :: "csv_dialect \<Rightarrow> bytes \<Rightarrow> bool" where
  "must_quote d v \<longleftrightarrow> (\<exists>b \<in> set v. b = delimiter d \<or> b = quote d \<or> is_newline b)"

fun double_quotes :: "csv_dialect \<Rightarrow> bytes \<Rightarrow> bytes" where
  "double_quotes d [] = []"
| "double_quotes d (b # bs) = (if b = quote d then [b, b] else [b]) @ double_quotes d bs"

definition write_field :: "csv_dialect \<Rightarrow> bool \<times> bytes \<Rightarrow> bytes" where
  "write_field d f = (case f of (force, v) \<Rightarrow>
     if force \<or> must_quote d v then quote d # double_quotes d v @ [quote d] else v)"

fun write_record :: "csv_dialect \<Rightarrow> (bool \<times> bytes) list \<Rightarrow> bytes" where
  "write_record d [] = []"
| "write_record d [f] = write_field d f"
| "write_record d (f # fs) = write_field d f @ delimiter d # write_record d fs"

definition write_table :: "csv_dialect \<Rightarrow> (bool \<times> bytes) list list \<Rightarrow> bytes" where
  "write_table d rows = concat (map (\<lambda>row. write_record d row @ [byte_lf]) rows)"

definition plain_dialect :: "csv_dialect \<Rightarrow> bool" where
  "plain_dialect d \<longleftrightarrow> delimiter d \<noteq> quote d \<and> \<not> is_newline (delimiter d) \<and> \<not> is_newline (quote d)"

lemma plain_dialect_new: "csv_dialect_new a b = Inr d \<Longrightarrow> plain_dialect d"
  by (auto simp: csv_dialect_new_def plain_dialect_def is_newline_def split: if_splits)

section \<open>The scanner over what is written\<close>

text \<open>\<open>bs\<close> has no newline outside quotes, read from state \<open>q\<close>, and ends in \<open>q'\<close>.\<close>

fun reads_to :: "csv_dialect \<Rightarrow> csv_state \<Rightarrow> bytes \<Rightarrow> csv_state \<Rightarrow> bool" where
  "reads_to d q [] q' \<longleftrightarrow> q' = q"
| "reads_to d q (b # bs) q' \<longleftrightarrow> (q = Quoted \<or> \<not> is_newline b) \<and> reads_to d (csv_next_state d q b) bs q'"

lemma reads_to_append: "reads_to d q xs q1 \<Longrightarrow> reads_to d q1 ys q2 \<Longrightarrow> reads_to d q (xs @ ys) q2"
  by (induction xs arbitrary: q) auto

lemma split_reads:
  "reads_to d q bs q' \<Longrightarrow> split_records (csv_splitter d) q start pos (bs @ rest)
     = split_records (csv_splitter d) q' start (pos + length bs) rest"
  by (induction bs arbitrary: q pos) auto

lemma reads_quoted: "plain_dialect d \<Longrightarrow> reads_to d Quoted (double_quotes d v) Quoted"
  by (induction v) (auto simp: plain_dialect_def)

lemma reads_plain:
  "\<forall>b \<in> set v. b \<noteq> delimiter d \<and> b \<noteq> quote d \<and> \<not> is_newline b \<Longrightarrow> reads_to d Unquoted v Unquoted"
  by (induction v) auto

lemma reads_field:
  assumes "plain_dialect d"
  obtains q where "reads_to d FieldStart (write_field d f) q" "q \<noteq> Quoted"
    "csv_next_state d q (delimiter d) = FieldStart"
proof -
  obtain force v where f: "f = (force, v)" by fastforce
  show thesis
  proof (cases "force \<or> must_quote d v")
    case True
    have "reads_to d Quoted (double_quotes d v @ [quote d]) QuoteClosed"
      by (rule reads_to_append [OF reads_quoted [OF assms]]) simp
    then have "reads_to d FieldStart (write_field d f) QuoteClosed"
      using True assms by (simp add: f write_field_def plain_dialect_def)
    then show thesis using assms by (intro that [of QuoteClosed]) (auto simp: plain_dialect_def)
  next
    case False
    then have plain: "\<forall>b \<in> set v. b \<noteq> delimiter d \<and> b \<noteq> quote d \<and> \<not> is_newline b" and
      w: "write_field d f = v" by (auto simp: must_quote_def f write_field_def)
    show thesis
    proof (cases v)
      case Nil
      then show thesis using assms w by (intro that [of FieldStart]) (auto simp: plain_dialect_def)
    next
      case (Cons b bs)
      have "reads_to d FieldStart v Unquoted" using plain reads_plain [of bs d] by (simp add: Cons)
      then show thesis using assms w by (intro that [of Unquoted]) (auto simp: plain_dialect_def)
    qed
  qed
qed

lemma reads_record:
  assumes "plain_dialect d"
  shows "\<exists>q. reads_to d FieldStart (write_record d fs) q \<and> q \<noteq> Quoted"
proof (induction fs)
  case IH: (Cons f fs)
  from reads_field [OF assms, of f] obtain q where q: "reads_to d FieldStart (write_field d f) q" "q \<noteq> Quoted"
    "csv_next_state d q (delimiter d) = FieldStart" by blast
  show ?case
  proof (cases fs)
    case Nil
    with q show ?thesis by auto
  next
    case (Cons g gs)
    from IH.IH obtain q' where "reads_to d FieldStart (write_record d fs) q'" "q' \<noteq> Quoted" by blast
    then have "reads_to d q (delimiter d # write_record d fs) q'"
      using q(2,3) assms by (simp add: plain_dialect_def)
    from reads_to_append [OF q(1) this] \<open>q' \<noteq> Quoted\<close> Cons show ?thesis by auto
  qed
qed (auto intro: exI [of _ FieldStart])

fun table_spans :: "csv_dialect \<Rightarrow> nat \<Rightarrow> (bool \<times> bytes) list list \<Rightarrow> record_span list" where
  "table_spans d off [] = []"
| "table_spans d off (row # rows) =
     mk_span off (off + length (write_record d row))
       # table_spans d (Suc (off + length (write_record d row))) rows"

lemma records_of_table:
  assumes "plain_dialect d"
  shows "records_from (csv_splitter d) off (write_table d rows) = table_spans d off rows"
proof (induction rows arbitrary: off)
  case Nil
  then show ?case by (simp add: write_table_def)
next
  case (Cons row rows)
  from reads_record [OF assms, of row] obtain q where
    q: "reads_to d FieldStart (write_record d row) q" "q \<noteq> Quoted" by blast
  have "write_table d (row # rows) = write_record d row @ byte_lf # write_table d rows"
    by (simp add: write_table_def)
  then have "records_from (csv_splitter d) off (write_table d (row # rows))
      = split_records (csv_splitter d) q off (off + length (write_record d row)) (byte_lf # write_table d rows)"
    using split_reads [OF q(1)] by (simp add: records_from_def)
  also have "\<dots> = mk_span off (off + length (write_record d row))
      # records_from (csv_splitter d) (Suc (off + length (write_record d row))) (write_table d rows)"
    using q(2) by (simp add: is_newline_def records_from_def)
  finally show ?case using Cons.IH by simp
qed

lemma table_span_bytes:
  "i < length rows \<Longrightarrow> length pre = off \<Longrightarrow>
     segment (pre @ write_table d rows) (span_start (table_spans d off rows ! i)) (span_end (table_spans d off rows ! i))
       = write_record d (rows ! i)
     \<and> span_start (table_spans d off rows ! i) \<le> span_end (table_spans d off rows ! i)"
proof (induction rows arbitrary: i pre off)
  case (Cons row rows)
  have w: "write_table d (row # rows) = write_record d row @ byte_lf # write_table d rows"
    by (simp add: write_table_def)
  show ?case
  proof (cases i)
    case 0
    with Cons.prems segment_append_pos [of pre off "write_record d row" "byte_lf # write_table d rows"]
    show ?thesis by (simp add: w)
  next
    case (Suc j)
    from Cons.IH [of j "pre @ write_record d row @ [byte_lf]" "Suc (off + length (write_record d row))"] Cons.prems Suc
    show ?thesis by (simp add: w)
  qed
qed simp

lemma length_table_spans [simp]: "length (table_spans d off rows) = length rows"
  by (induction rows arbitrary: off) simp_all

section \<open>The fields of what is written\<close>

lemma walk_quoted:
  "plain_dialect d \<Longrightarrow> \<exists>esc. csv_field_walk d FsQuoted f (double_quotes d v @ rest)
     = csv_field_walk d FsQuoted (f\<lparr>cf_end := cf_end f + length (double_quotes d v), cf_value := cf_value f @ v,
          cf_escaped := esc\<rparr>) rest"
proof (induction v arbitrary: f)
  case Nil
  then show ?case by (intro exI [of _ "cf_escaped f"]) simp
next
  case (Cons b v)
  show ?case
  proof (cases "b = quote d")
    case True
    with Cons.IH [OF Cons.prems, of "f\<lparr>cf_end := Suc (Suc (cf_end f)), cf_value := cf_value f @ [b], cf_escaped := True\<rparr>"]
      Cons.prems True show ?thesis by (auto simp: Let_def plain_dialect_def)
  next
    case False
    with Cons.IH [OF Cons.prems, of "f\<lparr>cf_end := Suc (cf_end f), cf_value := cf_value f @ [b]\<rparr>"]
    show ?thesis by (simp add: Let_def)
  qed
qed

lemma walk_plain:
  "\<forall>b \<in> set v. b \<noteq> delimiter d \<and> b \<noteq> quote d \<and> \<not> is_newline b \<Longrightarrow> v \<noteq> [] \<Longrightarrow> st = FsStart \<or> st = FsUnquoted \<Longrightarrow>
     csv_field_walk d st f (v @ rest)
     = csv_field_walk d FsUnquoted (f\<lparr>cf_end := cf_end f + length v, cf_value := cf_value f @ v\<rparr>) rest"
proof (induction v arbitrary: st f)
  case (Cons b v)
  show ?case
  proof (cases "v = []")
    case True
    with Cons.prems show ?thesis by (auto simp: Let_def)
  next
    case False
    with Cons.IH [of FsUnquoted "f\<lparr>cf_end := Suc (cf_end f), cf_value := cf_value f @ [b]\<rparr>"] Cons.prems
    show ?thesis by (auto simp: Let_def)
  qed
qed simp

lemma walk_field:
  assumes "plain_dialect d"
  shows "\<exists>g st. csv_field_walk d FsStart (field_at i) (write_field d f @ rest) = csv_field_walk d st g rest
    \<and> cf_value g = snd f \<and> cf_end g = i + length (write_field d f) \<and> st \<noteq> FsQuoted
    \<and> (st = FsStart \<longrightarrow> write_field d f = [] \<and> g = field_at i)"
proof -
  obtain force v where f: "f = (force, v)" by fastforce
  show ?thesis
  proof (cases "force \<or> must_quote d v")
    case True
    let ?g = "(field_at i)\<lparr>cf_end := Suc i, cf_quoted := True\<rparr>"
    from walk_quoted [OF assms, of ?g v "quote d # rest"] obtain esc where
      "csv_field_walk d FsQuoted ?g (double_quotes d v @ quote d # rest)
       = csv_field_walk d FsQuoted (?g\<lparr>cf_value := v, cf_end := Suc (i + length (double_quotes d v)),
          cf_escaped := esc\<rparr>) (quote d # rest)" by (auto simp: field_at_def)
    then have "csv_field_walk d FsStart (field_at i) (write_field d f @ rest)
        = csv_field_walk d FsQuoteClosed (?g\<lparr>cf_value := v,
            cf_end := Suc (Suc (i + length (double_quotes d v))), cf_escaped := esc\<rparr>) rest"
      using True by (simp add: f write_field_def Let_def field_at_def)
    then show ?thesis using True
      by (intro exI [of _ "?g\<lparr>cf_value := v,
            cf_end := Suc (Suc (i + length (double_quotes d v))), cf_escaped := esc\<rparr>"] exI [of _ FsQuoteClosed])
        (simp add: f write_field_def)
  next
    case False
    then have plain: "\<forall>b \<in> set v. b \<noteq> delimiter d \<and> b \<noteq> quote d \<and> \<not> is_newline b" and
      w: "write_field d f = v" by (auto simp: must_quote_def f write_field_def)
    show ?thesis
    proof (cases "v = []")
      case True
      then show ?thesis using w
        by (intro exI [of _ "field_at i"] exI [of _ FsStart]) (simp add: f field_at_def)
    next
      case ne: False
      from walk_plain [OF plain ne, of FsStart "field_at i" rest] show ?thesis
        by (intro exI [of _ "(field_at i)\<lparr>cf_value := v, cf_end := i + length v\<rparr>"] exI [of _ FsUnquoted])
          (simp add: f w [unfolded f] field_at_def)
    qed
  qed
qed

lemma fields_of_record:
  assumes "plain_dialect d" "fs \<noteq> []"
  shows "map cf_value (csv_field_walk d FsStart (field_at i) (write_record d fs)) = map snd fs"
  using assms(2)
proof (induction fs arbitrary: i)
  case IH: (Cons f fs)
  show ?case
  proof (cases fs)
    case Nil
    with walk_field [OF assms(1), of i f "[]"] show ?thesis by auto
  next
    case (Cons g gs)
    from walk_field [OF assms(1), of i f "delimiter d # write_record d fs"] obtain h st where
      h: "csv_field_walk d FsStart (field_at i) (write_field d f @ delimiter d # write_record d fs)
          = csv_field_walk d st h (delimiter d # write_record d fs)"
      "cf_value h = snd f" "st \<noteq> FsQuoted" by blast
    have "csv_field_walk d st h (delimiter d # write_record d fs)
        = h # csv_field_walk d FsStart (field_at (Suc (cf_end h))) (write_record d fs)"
      using h(3) assms(1) by (cases st) (auto simp: Let_def field_at_def plain_dialect_def)
    with h(1,2) IH.IH Cons show ?thesis by simp
  qed
qed simp

section \<open>Nothing is cut\<close>

lemma bounded_view_full:
  assumes "length fs \<le> k" "sum_list (map (\<lambda>f. length (cf_value f)) fs) \<le> remaining"
    and "\<forall>f \<in> set fs. length (cf_value f) \<le> pl_decoded_bytes_per_field lim"
  shows "map fp_decoded (bounded_view lim rs trunc remaining k fs) = map cf_value fs"
  using assms
proof (induction fs arbitrary: remaining k)
  case (Cons f fs)
  then obtain j where "k = Suc j" by (cases k) auto
  with Cons.IH [of j "remaining - length (cf_value f)"] Cons.prems show ?case
    by (auto simp: Let_def field_view_def min_def)
qed simp

lemma walk_bytes:
  "sum_list (map (\<lambda>f. length (cf_value f)) (csv_field_walk d st f bs)) \<le> length (cf_value f) + length bs"
proof (induction bs arbitrary: st f)
  case (Cons b bs)
  show ?case by (cases st) (auto simp: Let_def intro!: order_trans [OF Cons.IH])
qed simp

lemma walk_length: "length (csv_field_walk d st f bs) \<le> Suc (length bs)"
proof (induction bs arbitrary: st f)
  case (Cons b bs)
  show ?case by (cases st) (auto simp: Let_def intro!: order_trans [OF Cons.IH])
qed simp

text \<open>
  C21. A table written as CSV is read back.  For every dialect the program accepts and every table whose
  rows have a field, written with the fields quoted that must be and any others, the records of the
  file are its rows, and projecting a record with limits that the file cannot exceed gives exactly the
  row's values, whatever delimiters, quotes and newlines they contain, with nothing cut or omitted.
\<close>

theorem csv_table_roundtrip:
  assumes "csv_dialect_new delim quot = Inr d" "i < length rows" "rows ! i \<noteq> []"
    and "length (write_table d rows) \<le> u64_max" "length (write_table d rows) < pl_fields lim"
    and "length (write_table d rows) \<le> pl_decoded_bytes_per_field lim"
    and "length (write_table d rows) \<le> pl_total_decoded_bytes lim"
  shows "length (format_records (Delimited d) 0 (write_table d rows)) = length rows
    \<and> (\<exists>p. project_delimited_record
          \<lparr>rp_row = i, rp_span = format_records (Delimited d) 0 (write_table d rows) ! i,
           rp_bytes = segment (write_table d rows)
             (span_start (format_records (Delimited d) 0 (write_table d rows) ! i))
             (span_end (format_records (Delimited d) 0 (write_table d rows) ! i)),
           rp_truncated = False\<rparr> d lim = Inr p
      \<and> map fp_decoded (dp_fields p) = map snd (rows ! i) \<and> \<not> dp_fields_truncated p)"
proof -
  note pd = plain_dialect_new [OF assms(1)]
  let ?t = "write_table d rows" and ?r = "table_spans d 0 rows ! i"
  let ?b = "segment ?t (span_start ?r) (span_end ?r)"
  have recs: "format_records (Delimited d) 0 ?t = table_spans d 0 rows"
    using records_of_table [OF pd, of 0 rows] by simp
  have b: "?b = write_record d (rows ! i)" "span_start ?r \<le> span_end ?r"
    using table_span_bytes [OF assms(2), of "[]" 0 d] by simp_all
  have "?r \<in> set (format_records (Delimited d) 0 ?t)" unfolding recs using assms(2) by simp
  from format_records_valid [OF this] have e: "span_end ?r \<le> length ?t" by simp
  have lb: "span_start ?r + length ?b = span_end ?r" using b(2) e by simp
  let ?rec = "\<lparr>rp_row = i, rp_span = ?r, rp_bytes = ?b, rp_truncated = False\<rparr>"
  let ?fs = "csv_fields d ?b"
  have cnt: "length ?fs \<le> Suc (length ?b)" "sum_list (map (\<lambda>f. length (cf_value f)) ?fs) \<le> length ?b"
    using walk_bytes [of d FsStart "field_at 0" ?b] walk_length [of d FsStart "field_at 0" ?b] by (simp_all add: csv_fields_def field_at_def)
  have lt: "length ?b \<le> length ?t" using lb e by linarith
  have each: "\<forall>f \<in> set ?fs. length (cf_value f) \<le> pl_decoded_bytes_per_field lim"
  proof
    fix f assume "f \<in> set ?fs"
    then have "length (cf_value f) \<le> sum_list (map (\<lambda>f. length (cf_value f)) ?fs)"
      by (intro member_le_sum_list) auto
    then show "length (cf_value f) \<le> pl_decoded_bytes_per_field lim" using cnt(2) lt assms(6) by linarith
  qed
  have k: "length ?fs \<le> pl_fields lim" "0 < pl_fields lim" using cnt(1) lt assms(5) by linarith+
  have total: "sum_list (map (\<lambda>f. length (cf_value f)) ?fs) \<le> pl_total_decoded_bytes lim"
    using cnt(2) lt assms(7) by linarith
  have vals: "map cf_value ?fs = map snd (rows ! i)"
    unfolding csv_fields_def b(1) by (rule fields_of_record [OF pd assms(3)])
  have "project_delimited_record ?rec d lim =
      Inr \<lparr>dp_record_span = ?r, dp_fields = bounded_view lim (span_start ?r) False (pl_total_decoded_bytes lim)
            (pl_fields lim) ?fs, dp_fields_truncated = False\<rparr>"
    using project_record_spec [of lim ?rec d] k lb e assms(4) by (simp add: Let_def)
  moreover have "map fp_decoded (bounded_view lim (span_start ?r) False (pl_total_decoded_bytes lim) (pl_fields lim) ?fs)
      = map snd (rows ! i)" unfolding bounded_view_full [OF k(1) total each] by (rule vals)
  ultimately show ?thesis unfolding recs by simp
qed

text \<open>Two rows: \<open>a,b\<close> and an empty quoted field, then \<open>x\<close>.\<close>

abbreviation sample_table :: "(bool \<times> bytes) list list" where
  "sample_table \<equiv> [[(False, [97, 44, 98]), (True, [])], [(False, [120])]]"

lemma csv_table_roundtrip_witness:
  "length (format_records (Delimited dialect_csv) 0 (write_table dialect_csv sample_table)) = 2
   \<and> (\<exists>p. project_delimited_record
          \<lparr>rp_row = 0, rp_span = format_records (Delimited dialect_csv) 0 (write_table dialect_csv sample_table) ! 0,
           rp_bytes = segment (write_table dialect_csv sample_table)
             (span_start (format_records (Delimited dialect_csv) 0 (write_table dialect_csv sample_table) ! 0))
             (span_end (format_records (Delimited dialect_csv) 0 (write_table dialect_csv sample_table) ! 0)),
           rp_truncated = False\<rparr> dialect_csv
         \<lparr>pl_fields = 20, pl_decoded_bytes_per_field = 20, pl_total_decoded_bytes = 20\<rparr> = Inr p
      \<and> map fp_decoded (dp_fields p) = [[97, 44, 98], []] \<and> \<not> dp_fields_truncated p)"
proof -
  have d: "csv_dialect_new 44 34 = Inr dialect_csv" by (simp add: csv_dialect_new_def dialect_csv_def)
  have len: "length (write_table dialect_csv sample_table) = 11"
    by (simp add: write_table_def write_field_def must_quote_def dialect_csv_def is_newline_def)
  from csv_table_roundtrip [OF d, of 0 sample_table
      "\<lparr>pl_fields = 20, pl_decoded_bytes_per_field = 20, pl_total_decoded_bytes = 20\<rparr>"]
  show ?thesis unfolding len by simp
qed

end
