(* ===== verification/Sort_Key.thy ===== *)
theory Sort_Key imports Run_Monad Formats begin

text \<open>
  Sort keys (\<open>crates/leanrows-core/src/sort.rs\<close> and \<open>sort/key.rs\<close>): finding the key field of a
  record, decoding it, the prefix and the number fields stored for it, and comparing two keys.  All of
  it reads the source in pieces and stops when the work budget of the step is spent, so every method
  is a run on the object and the budget.  The 4 KiB buffers are the bytes not yet taken from them.
\<close>

section \<open>Requests and errors\<close>

datatype sort_mode = SortText | SortNumeric
datatype sort_direction = Ascending | Descending

record sort_request =
  sr_column :: nat
  sr_mode :: sort_mode
  sr_direction :: sort_direction

datatype sort_error =
    SortIo io_error
  | SortSourceChanged
  | SortAllocation
  | SortQuota
  | SortWasCancelled
  | NumericRange
  | InvalidScratch
  | InvalidConfig
  | SortScan scan_error

section \<open>Orderings\<close>

datatype sort_ordering = OrdLess | OrdEqual | OrdGreater

definition ord_cmp :: "'a::linorder \<Rightarrow> 'a \<Rightarrow> sort_ordering" where
  "ord_cmp a b = (if a < b then OrdLess else if a = b then OrdEqual else OrdGreater)"

fun ord_reverse :: "sort_ordering \<Rightarrow> sort_ordering" where
  "ord_reverse OrdLess = OrdGreater"
| "ord_reverse OrdEqual = OrdEqual"
| "ord_reverse OrdGreater = OrdLess"

definition ord_then :: "sort_ordering \<Rightarrow> sort_ordering \<Rightarrow> sort_ordering" where
  "ord_then a b = (if a = OrdEqual then b else a)"

fun slice_cmp :: "bytes \<Rightarrow> bytes \<Rightarrow> sort_ordering" where
  "slice_cmp [] [] = OrdEqual"
| "slice_cmp [] (_ # _) = OrdLess"
| "slice_cmp (_ # _) [] = OrdGreater"
| "slice_cmp (a # as) (b # bs) = ord_then (ord_cmp a b) (slice_cmp as bs)"

section \<open>Descriptors\<close>

abbreviation (input) key_prefix :: nat where "key_prefix \<equiv> 32"

record descriptor =
  ds_row :: nat
  ds_start :: nat
  ds_end :: nat
  ds_key_start :: nat
  ds_key_end :: nat
  ds_quoted :: bool
  ds_prefix :: bytes
  ds_len :: nat
  ds_group :: nat
  ds_sign :: int
  ds_magnitude :: int
  ds_leading :: nat
  ds_digits :: nat

definition descriptor_new :: "nat \<Rightarrow> record_span \<Rightarrow> descriptor" where
  "descriptor_new row sp =
     \<lparr>ds_row = row, ds_start = span_start sp, ds_end = span_end sp, ds_key_start = 0, ds_key_end = 0,
      ds_quoted = False, ds_prefix = replicate 32 0, ds_len = 0, ds_group = 0, ds_sign = 0,
      ds_magnitude = 0, ds_leading = 0, ds_digits = 0\<rparr>"

definition checked_read :: "'w environment \<Rightarrow> nat \<Rightarrow> nat \<Rightarrow> ('w, sort_error, bytes) run" where
  "checked_read env off n w =
     (case env_read_at env w off n of
        (Inl e, w') \<Rightarrow> (Err (SortIo e), w')
      | (Inr (k, buf), w') \<Rightarrow>
          if k = 0 \<or> k > n then (Err SortSourceChanged, w') else (Ok (take k buf), w'))"

section \<open>Locating the key field\<close>

datatype locator_state = LsStart | LsUnquoted | LsQuoted | LsClosed

record locator =
  lo_descriptor :: descriptor
  lo_cursor :: nat
  lo_field_start :: nat
  lo_column :: nat
  lo_target :: nat
  lo_state :: locator_state
  lo_delimiter :: "u8 option"
  lo_quote :: u8

definition format_quote :: "viewport_format \<Rightarrow> u8" where
  "format_quote fmt = (case fmt of Delimited d \<Rightarrow> quote d | Lines \<Rightarrow> 34)"

definition locator_new :: "nat \<Rightarrow> record_span \<Rightarrow> viewport_format \<Rightarrow> nat \<Rightarrow> locator" where
  "locator_new row sp fmt target =
     \<lparr>lo_descriptor = descriptor_new row sp, lo_cursor = span_start sp, lo_field_start = span_start sp,
      lo_column = 0, lo_target = target, lo_state = LsStart,
      lo_delimiter = (case fmt of Delimited d \<Rightarrow> Some (delimiter d) | Lines \<Rightarrow> None),
      lo_quote = format_quote fmt\<rparr>"

text \<open>The body of the loop over the bytes read; the flag says that the descriptor is returned.\<close>

definition locate_byte :: "u8 \<Rightarrow> locator \<Rightarrow> locator \<times> bool" where
  "locate_byte b lo =
     (let at = lo_cursor lo; l1 = lo\<lparr>lo_cursor := Suc at\<rparr> in
      if lo_delimiter lo = None then (l1, False)
      else if lo_state lo = LsStart \<and> b = lo_quote lo then
        (let l2 = l1\<lparr>lo_state := LsQuoted\<rparr> in
         (if lo_column lo = lo_target lo
          then l2\<lparr>lo_descriptor := (lo_descriptor lo)\<lparr>ds_quoted := True\<rparr>\<rparr> else l2, False))
      else if lo_state lo = LsQuoted \<and> b = lo_quote lo then (l1\<lparr>lo_state := LsClosed\<rparr>, False)
      else if lo_state lo = LsQuoted then (l1, False)
      else if lo_state lo = LsClosed \<and> b = lo_quote lo then (l1\<lparr>lo_state := LsQuoted\<rparr>, False)
      else if Some b = lo_delimiter lo then
        (if lo_column lo = lo_target lo then
           (l1\<lparr>lo_descriptor := (lo_descriptor lo)\<lparr>ds_key_start := lo_field_start lo, ds_key_end := at\<rparr>\<rparr>, True)
         else
           (l1\<lparr>lo_column := Suc (lo_column lo), lo_field_start := Suc at, lo_state := LsStart\<rparr>, False))
      else (l1\<lparr>lo_state := LsUnquoted\<rparr>, False))"

fun locate_bytes :: "bytes \<Rightarrow> locator \<Rightarrow> nat \<Rightarrow> locator \<times> nat \<times> bool" where
  "locate_bytes [] lo budget = (lo, budget, False)"
| "locate_bytes (b # bs) lo budget =
     (case locate_byte b lo of
        (lo', found) \<Rightarrow>
          if found then (lo', budget - 1, True) else locate_bytes bs lo' (budget - 1))"

fun locator_loop ::
    "nat \<Rightarrow> 'w environment \<Rightarrow> ((locator \<times> nat) \<times> 'w, sort_error, descriptor option) run" where
  "locator_loop 0 env = panic"
| "locator_loop (Suc fuel) env =
     with_state (\<lambda>(lo, budget).
       let d = lo_descriptor lo in
       if lo_cursor lo < ds_end d \<and> budget > 0 then
         and_then (on_world (checked_read env (lo_cursor lo)
             (min (min budget 4096) (ds_end d - lo_cursor lo)))) (\<lambda>bs.
         case locate_bytes bs lo budget of
           (lo', budget', found) \<Rightarrow>
             and_then (update_state (\<lambda>_. (lo', budget'))) (\<lambda>_.
             if found then give (Some (lo_descriptor lo')) else locator_loop fuel env))
       else if lo_cursor lo = ds_end d then
         (let d' = (if lo_column lo = lo_target lo
                    then d\<lparr>ds_key_start := lo_field_start lo, ds_key_end := lo_cursor lo\<rparr>
                    else d\<lparr>ds_key_start := lo_cursor lo, ds_key_end := lo_cursor lo\<rparr>) in
          and_then (update_state (\<lambda>_. (lo\<lparr>lo_descriptor := d'\<rparr>, budget))) (\<lambda>_. give (Some d')))
       else give None)"

text \<open>Every pass reads a byte of the budget, so this is enough.\<close>

definition locator_advance ::
    "'w environment \<Rightarrow> ((locator \<times> nat) \<times> 'w, sort_error, descriptor option) run" where
  "locator_advance env = with_state (\<lambda>(lo, budget). locator_loop (Suc budget) env)"

section \<open>Decoding the key\<close>

datatype byte_step = ByteStep u8 | EndStep | YieldStep

record key_cursor =
  kc_offset :: nat
  kc_end :: nat
  kc_unread :: bytes
  kc_quoted :: bool
  kc_closed :: bool
  kc_first :: bool
  kc_quote :: u8

definition key_cursor_new :: "descriptor \<Rightarrow> u8 \<Rightarrow> key_cursor" where
  "key_cursor_new d q =
     \<lparr>kc_offset = ds_key_start d, kc_end = ds_key_end d, kc_unread = [], kc_quoted = ds_quoted d,
      kc_closed = False, kc_first = True, kc_quote = q\<rparr>"

text \<open>What one byte does to the flags, and what it delivers.\<close>

definition cursor_byte :: "u8 \<Rightarrow> key_cursor \<Rightarrow> key_cursor \<times> u8 option" where
  "cursor_byte b kc =
     (let k1 = kc\<lparr>kc_first := False\<rparr> in
      if kc_first kc \<and> kc_quoted kc then (k1, None)
      else if kc_quoted kc then
        (if kc_closed kc then
           (if b = kc_quote kc then (k1\<lparr>kc_closed := False\<rparr>, Some b)
            else (k1\<lparr>kc_closed := False, kc_quoted := False\<rparr>, Some b))
         else if b = kc_quote kc then (k1\<lparr>kc_closed := True\<rparr>, None)
         else (k1, Some b))
      else (k1, Some b))"

fun cursor_loop :: "nat \<Rightarrow> 'w environment \<Rightarrow> ((key_cursor \<times> nat) \<times> 'w, sort_error, byte_step) run" where
  "cursor_loop 0 env = panic"
| "cursor_loop (Suc fuel) env =
     with_state (\<lambda>(kc, budget).
       if budget = 0 then give YieldStep
       else if kc_unread kc = [] \<and> kc_offset kc = kc_end kc then give EndStep
       else
         and_then
           (if kc_unread kc = [] then
              and_then (on_world (checked_read env (kc_offset kc) (min 4096 (kc_end kc - kc_offset kc)))) (\<lambda>bs.
              update_state (\<lambda>(kc, budget). (kc\<lparr>kc_unread := bs\<rparr>, budget)))
            else give ()) (\<lambda>_.
         with_state (\<lambda>(kc, budget).
           case kc_unread kc of
             [] \<Rightarrow> panic
           | b # bs \<Rightarrow>
               (case cursor_byte b (kc\<lparr>kc_unread := bs, kc_offset := Suc (kc_offset kc)\<rparr>) of
                  (kc', out) \<Rightarrow>
                    and_then (update_state (\<lambda>_. (kc', budget - 1))) (\<lambda>_.
                    case out of Some v \<Rightarrow> give (ByteStep v) | None \<Rightarrow> cursor_loop fuel env)))))"

definition cursor_next :: "'w environment \<Rightarrow> ((key_cursor \<times> nat) \<times> 'w, sort_error, byte_step) run" where
  "cursor_next env = with_state (\<lambda>(kc, budget). cursor_loop (Suc budget) env)"

section \<open>Numbers\<close>

record key_number =
  nu_state :: nat
  nu_negative :: bool
  nu_exp_negative :: bool
  nu_exp :: nat
  nu_exp_digits :: nat
  nu_before_dot :: nat
  nu_digits :: nat
  nu_leading :: nat
  nu_significant :: bool
  nu_invalid :: bool
  nu_exp_overflow :: bool

definition number_default :: key_number where
  "number_default =
     \<lparr>nu_state = 0, nu_negative = False, nu_exp_negative = False, nu_exp = 0, nu_exp_digits = 0,
      nu_before_dot = 0, nu_digits = 0, nu_leading = 0, nu_significant = False, nu_invalid = False,
      nu_exp_overflow = False\<rparr>"

definition is_ascii_whitespace :: "u8 \<Rightarrow> bool" where
  "is_ascii_whitespace b \<longleftrightarrow> b = 32 \<or> b = 9 \<or> b = 10 \<or> b = 12 \<or> b = 13"

definition is_ascii_digit :: "u8 \<Rightarrow> bool" where
  "is_ascii_digit b \<longleftrightarrow> 48 \<le> b \<and> b \<le> 57"

abbreviation is_sign :: "u8 \<Rightarrow> bool" where "is_sign b \<equiv> b = 43 \<or> b = 45"
abbreviation is_exponent_mark :: "u8 \<Rightarrow> bool" where "is_exponent_mark b \<equiv> b = 101 \<or> b = 69"

definition number_digit :: "u8 \<Rightarrow> bool \<Rightarrow> key_number \<Rightarrow> key_number" where
  "number_digit b integer n =
     (let n1 = n\<lparr>nu_digits := Suc (nu_digits n)\<rparr>;
          n2 = (if integer then n1\<lparr>nu_before_dot := Suc (nu_before_dot n)\<rparr> else n1);
          n3 = (if \<not> nu_significant n \<and> b = 48 then n2\<lparr>nu_leading := Suc (nu_leading n)\<rparr> else n2)
      in if b \<noteq> 48 then n3\<lparr>nu_significant := True\<rparr> else n3)"

abbreviation i64_max :: nat where "i64_max \<equiv> 9223372036854775807"

definition number_exponent :: "u8 \<Rightarrow> key_number \<Rightarrow> key_number" where
  "number_exponent b n =
     (let next = Option.bind (Option.bind (checked_mul (nu_exp n) 10) (checked_add (unat (b - 48))))
                   (\<lambda>v. if v \<le> i64_max then Some v else None);
          n1 = (case next of Some v \<Rightarrow> n\<lparr>nu_exp := v\<rparr> | None \<Rightarrow> n\<lparr>nu_exp_overflow := True\<rparr>)
      in n1\<lparr>nu_exp_digits := Suc (nu_exp_digits n)\<rparr>)"

definition number_push :: "u8 \<Rightarrow> key_number \<Rightarrow> key_number" where
  "number_push b n =
     (if nu_invalid n then n
      else if is_ascii_whitespace b then
        (let n1 = (if nu_state n \<in> {1, 4, 5} then n\<lparr>nu_invalid := True\<rparr> else n)
         in if nu_state n \<noteq> 0 then n1\<lparr>nu_state := 7\<rparr> else n1)
      else if nu_state n = 0 then
        (if is_sign b then n\<lparr>nu_negative := (b = 45), nu_state := 1\<rparr>
         else if b = 46 then n\<lparr>nu_state := 3\<rparr>
         else if is_ascii_digit b then number_digit b True (n\<lparr>nu_state := 2\<rparr>)
         else n\<lparr>nu_invalid := True\<rparr>)
      else if nu_state n = 1 \<or> nu_state n = 2 then
        (if is_ascii_digit b then number_digit b True (n\<lparr>nu_state := 2\<rparr>)
         else if b = 46 then n\<lparr>nu_state := 3\<rparr>
         else if is_exponent_mark b \<and> nu_digits n > 0 then n\<lparr>nu_state := 4\<rparr>
         else n\<lparr>nu_invalid := True\<rparr>)
      else if nu_state n = 3 then
        (if is_ascii_digit b then number_digit b False n
         else if is_exponent_mark b \<and> nu_digits n > 0 then n\<lparr>nu_state := 4\<rparr>
         else n\<lparr>nu_invalid := True\<rparr>)
      else if nu_state n = 4 then
        (if is_sign b then n\<lparr>nu_exp_negative := (b = 45), nu_state := 5\<rparr>
         else if is_ascii_digit b then number_exponent b (n\<lparr>nu_state := 6\<rparr>)
         else n\<lparr>nu_invalid := True\<rparr>)
      else if (nu_state n = 5 \<or> nu_state n = 6) \<and> is_ascii_digit b then
        number_exponent b (n\<lparr>nu_state := 6\<rparr>)
      else n\<lparr>nu_invalid := True\<rparr>)"

definition number_finish :: "key_number \<Rightarrow> descriptor \<Rightarrow> sort_error + descriptor" where
  "number_finish n d =
     (let d1 = d\<lparr>ds_group := (if ds_len d = 0 \<or> (nu_state n = 0 \<and> \<not> nu_invalid n) then 2 else 1)\<rparr> in
      if nu_invalid n \<or> nu_digits n = 0 \<or> nu_state n \<in> {1, 4, 5} \<or> (nu_exp_digits n = 0 \<and> nu_state n = 6)
      then Inr d1
      else if nu_exp_overflow n then Inl NumericRange
      else Inr (d1\<lparr>ds_group := 0, ds_leading := nu_leading n, ds_digits := nu_digits n,
             ds_sign := (if \<not> nu_significant n then 0 else if nu_negative n then -1 else 1),
             ds_magnitude := int (nu_before_dot n) - int (nu_leading n)
               + int (nu_exp n) * (if nu_exp_negative n then -1 else 1)\<rparr>))"

section \<open>Building a descriptor\<close>

record key_builder =
  kb_descriptor :: descriptor
  kb_cursor :: key_cursor
  kb_number :: key_number

definition builder_new :: "descriptor \<Rightarrow> u8 \<Rightarrow> key_builder" where
  "builder_new d q = \<lparr>kb_descriptor = d, kb_cursor = key_cursor_new d q, kb_number = number_default\<rparr>"

definition push_prefix :: "u8 \<Rightarrow> descriptor \<Rightarrow> descriptor" where
  "push_prefix b d =
     (let d1 = (if ds_len d < key_prefix then d\<lparr>ds_prefix := (ds_prefix d)[ds_len d := b]\<rparr> else d)
      in d1\<lparr>ds_len := Suc (ds_len d)\<rparr>)"

text \<open>Calling a method of a part of the object.\<close>

definition focus :: "('s \<Rightarrow> 't) \<Rightarrow> ('t \<Rightarrow> 's \<Rightarrow> 's) \<Rightarrow> ('t \<times> 'w, 'e, 'a) run \<Rightarrow> ('s \<times> 'w, 'e, 'a) run" where
  "focus get put m sw =
     (case m (get (fst sw), snd sw) of (r, (t, w')) \<Rightarrow> (r, (put t (fst sw), w')))"

abbreviation builder_cursor_next ::
    "'w environment \<Rightarrow> ((key_builder \<times> nat) \<times> 'w, sort_error, byte_step) run" where
  "builder_cursor_next env \<equiv>
     focus (\<lambda>(kb, budget). (kb_cursor kb, budget)) (\<lambda>(kc, budget) (kb, _). (kb\<lparr>kb_cursor := kc\<rparr>, budget))
       (cursor_next env)"

fun builder_loop ::
    "nat \<Rightarrow> 'w environment \<Rightarrow> sort_mode \<Rightarrow> ((key_builder \<times> nat) \<times> 'w, sort_error, descriptor option) run" where
  "builder_loop 0 env mode = panic"
| "builder_loop (Suc fuel) env mode =
     and_then (builder_cursor_next env) (\<lambda>step.
       case step of
         ByteStep b \<Rightarrow>
           and_then (update_state (\<lambda>(kb, budget).
               (kb\<lparr>kb_descriptor := push_prefix b (kb_descriptor kb),
                   kb_number := (if mode = SortNumeric then number_push b (kb_number kb) else kb_number kb)\<rparr>,
                budget))) (\<lambda>_. builder_loop fuel env mode)
       | EndStep \<Rightarrow>
           with_state (\<lambda>(kb, budget).
             if mode = SortNumeric then
               (case number_finish (kb_number kb) (kb_descriptor kb) of
                  Inl e \<Rightarrow>
                    and_then (update_state (\<lambda>(kb, budget).
                        (kb\<lparr>kb_descriptor := (kb_descriptor kb)\<lparr>ds_group := 1\<rparr>\<rparr>, budget))) (\<lambda>_. fail e)
                | Inr d \<Rightarrow>
                    and_then (update_state (\<lambda>(kb, budget). (kb\<lparr>kb_descriptor := d\<rparr>, budget)))
                      (\<lambda>_. give (Some d)))
             else give (Some (kb_descriptor kb)))
       | YieldStep \<Rightarrow> give None)"

definition builder_advance ::
    "'w environment \<Rightarrow> sort_mode \<Rightarrow> ((key_builder \<times> nat) \<times> 'w, sort_error, descriptor option) run" where
  "builder_advance env mode = with_state (\<lambda>(kb, budget). builder_loop (Suc budget) env mode)"

section \<open>The digits of a number\<close>

record key_digits =
  kd_cursor :: key_cursor
  kd_skip :: nat
  kd_ended :: bool

definition key_digits_new :: "descriptor \<Rightarrow> u8 \<Rightarrow> key_digits" where
  "key_digits_new d q = \<lparr>kd_cursor = key_cursor_new d q, kd_skip = ds_leading d, kd_ended = False\<rparr>"

abbreviation digits_cursor_next ::
    "'w environment \<Rightarrow> ((key_digits \<times> nat) \<times> 'w, sort_error, byte_step) run" where
  "digits_cursor_next env \<equiv>
     focus (\<lambda>(kd, budget). (kd_cursor kd, budget)) (\<lambda>(kc, budget) (kd, _). (kd\<lparr>kd_cursor := kc\<rparr>, budget))
       (cursor_next env)"

fun digits_loop :: "nat \<Rightarrow> 'w environment \<Rightarrow> ((key_digits \<times> nat) \<times> 'w, sort_error, byte_step) run" where
  "digits_loop 0 env = panic"
| "digits_loop (Suc fuel) env =
     and_then (digits_cursor_next env) (\<lambda>step.
       case step of
         EndStep \<Rightarrow> and_then (update_state (\<lambda>(kd, budget). (kd\<lparr>kd_ended := True\<rparr>, budget))) (\<lambda>_. give EndStep)
       | YieldStep \<Rightarrow> give YieldStep
       | ByteStep b \<Rightarrow>
           if is_exponent_mark b then
             and_then (update_state (\<lambda>(kd, budget). (kd\<lparr>kd_ended := True\<rparr>, budget))) (\<lambda>_. give EndStep)
           else if is_ascii_digit b then
             with_state (\<lambda>(kd, budget).
               if kd_skip kd > 0 then
                 and_then (update_state (\<lambda>(kd, budget). (kd\<lparr>kd_skip := kd_skip kd - 1\<rparr>, budget)))
                   (\<lambda>_. digits_loop fuel env)
               else give (ByteStep b))
           else digits_loop fuel env)"

definition digits_next :: "'w environment \<Rightarrow> ((key_digits \<times> nat) \<times> 'w, sort_error, byte_step) run" where
  "digits_next env =
     with_state (\<lambda>(kd, budget). if kd_ended kd then give EndStep else digits_loop (Suc budget) env)"

section \<open>Deciding from the stored fields\<close>

fun digits_cmp :: "bytes \<Rightarrow> bytes \<Rightarrow> sort_ordering" where
  "digits_cmp [] [] = OrdEqual"
| "digits_cmp (a # as) [] = ord_then (ord_cmp a 48) (digits_cmp as [])"
| "digits_cmp [] (b # bs) = ord_then (ord_cmp 48 b) (digits_cmp [] bs)"
| "digits_cmp (a # as) (b # bs) = ord_then (ord_cmp a b) (digits_cmp as bs)"

definition mantissa_digits :: "bytes \<Rightarrow> bytes" where
  "mantissa_digits v = filter is_ascii_digit (takeWhile (\<lambda>b. \<not> is_exponent_mark b) v)"

definition short_number_order :: "descriptor \<Rightarrow> descriptor \<Rightarrow> sort_ordering" where
  "short_number_order a b =
     digits_cmp (drop (ds_leading a) (mantissa_digits (take (ds_len a) (ds_prefix a))))
                (drop (ds_leading b) (mantissa_digits (take (ds_len b) (ds_prefix b))))"

definition order_finish :: "sort_request \<Rightarrow> descriptor \<Rightarrow> descriptor \<Rightarrow> sort_ordering \<Rightarrow> sort_ordering" where
  "order_finish req a b v =
     ord_then (if sr_direction req = Descending then ord_reverse v else v) (ord_cmp (ds_row a) (ds_row b))"

definition order_decide :: "descriptor \<Rightarrow> descriptor \<Rightarrow> sort_request \<Rightarrow> sort_ordering option" where
  "order_decide a b req =
     (if sr_mode req = SortNumeric \<and> ds_group a \<noteq> ds_group b then Some (ord_cmp (ds_group a) (ds_group b))
      else if sr_mode req = SortNumeric \<and> ds_group a = 2 then Some (ord_cmp (ds_row a) (ds_row b))
      else if sr_mode req = SortNumeric \<and> ds_group a = 0 then
        (if ds_sign a \<noteq> ds_sign b then Some (order_finish req a b (ord_cmp (ds_sign a) (ds_sign b)))
         else if ds_sign a = 0 then Some (ord_cmp (ds_row a) (ds_row b))
         else if ds_magnitude a \<noteq> ds_magnitude b then
           (let m = ord_cmp (ds_magnitude a) (ds_magnitude b)
            in Some (order_finish req a b (if ds_sign a < 0 then ord_reverse m else m)))
         else if ds_len a \<le> key_prefix \<and> ds_len b \<le> key_prefix then
           (let v = short_number_order a b
            in Some (order_finish req a b (if ds_sign a < 0 then ord_reverse v else v)))
         else None)
      else
        (let prefix = slice_cmp (take (ds_len a) (ds_prefix a)) (take (ds_len b) (ds_prefix b)) in
         if prefix \<noteq> OrdEqual then Some (order_finish req a b prefix)
         else if ds_len a \<le> key_prefix \<and> ds_len b \<le> key_prefix
         then Some (ord_cmp (ds_row a) (ds_row b))
         else None))"

section \<open>Comparing whole keys\<close>

text \<open>A value read from one side: \<open>Some None\<close> is its end, \<open>None\<close> that it has not been read.\<close>

record comparison =
  cm_a :: descriptor
  cm_b :: descriptor
  cm_request :: sort_request
  cm_ca :: key_cursor
  cm_cb :: key_cursor
  cm_da :: key_digits
  cm_db :: key_digits
  cm_numeric :: bool
  cm_first :: bool
  cm_left :: "u8 option option"

definition comparison_new :: "descriptor \<Rightarrow> descriptor \<Rightarrow> sort_request \<Rightarrow> u8 \<Rightarrow> comparison" where
  "comparison_new a b req q =
     \<lparr>cm_a = a, cm_b = b, cm_request = req, cm_ca = key_cursor_new a q, cm_cb = key_cursor_new b q,
      cm_da = key_digits_new a q, cm_db = key_digits_new b q,
      cm_numeric = (sr_mode req = SortNumeric \<and> ds_group a = 0 \<and> ds_group b = 0),
      cm_first = True, cm_left = None\<rparr>"

fun option_cmp :: "u8 option \<Rightarrow> u8 option \<Rightarrow> sort_ordering" where
  "option_cmp None None = OrdEqual"
| "option_cmp None (Some _) = OrdLess"
| "option_cmp (Some _) None = OrdGreater"
| "option_cmp (Some a) (Some b) = ord_cmp a b"

definition unwrap_or :: "'a option \<Rightarrow> 'a \<Rightarrow> 'a" where
  "unwrap_or m d = (case m of Some v \<Rightarrow> v | None \<Rightarrow> d)"

type_synonym ('w, 'a) comparison_run = "((comparison \<times> nat) \<times> 'w, sort_error, 'a) run"

definition next_a :: "'w environment \<Rightarrow> ('w, byte_step) comparison_run" where
  "next_a env = with_state (\<lambda>(cm, budget).
     if cm_numeric cm
     then focus (\<lambda>(cm, n). (cm_da cm, n)) (\<lambda>(kd, n) (cm, _). (cm\<lparr>cm_da := kd\<rparr>, n)) (digits_next env)
     else focus (\<lambda>(cm, n). (cm_ca cm, n)) (\<lambda>(kc, n) (cm, _). (cm\<lparr>cm_ca := kc\<rparr>, n)) (cursor_next env))"

definition next_b :: "'w environment \<Rightarrow> ('w, byte_step) comparison_run" where
  "next_b env = with_state (\<lambda>(cm, budget).
     if cm_numeric cm
     then focus (\<lambda>(cm, n). (cm_db cm, n)) (\<lambda>(kd, n) (cm, _). (cm\<lparr>cm_db := kd\<rparr>, n)) (digits_next env)
     else focus (\<lambda>(cm, n). (cm_cb cm, n)) (\<lambda>(kc, n) (cm, _). (cm\<lparr>cm_cb := kc\<rparr>, n)) (cursor_next env))"

definition step_value :: "byte_step \<Rightarrow> u8 option option" where
  "step_value s = (case s of ByteStep b \<Rightarrow> Some (Some b) | EndStep \<Rightarrow> Some None | YieldStep \<Rightarrow> None)"

text \<open>What the two values read decide.\<close>

definition values_order :: "comparison \<Rightarrow> u8 option \<Rightarrow> u8 option \<Rightarrow> sort_ordering option" where
  "values_order cm left right =
     (if left = None \<and> right = None then Some (ord_cmp (ds_row (cm_a cm)) (ds_row (cm_b cm)))
      else
        (let v = (if cm_numeric cm then ord_cmp (unwrap_or left 48) (unwrap_or right 48)
                  else option_cmp left right) in
         if v \<noteq> OrdEqual
         then Some (order_finish (cm_request cm) (cm_a cm) (cm_b cm)
                (if cm_numeric cm \<and> ds_sign (cm_a cm) < 0 then ord_reverse v else v))
         else None))"

fun comparison_loop :: "nat \<Rightarrow> 'w environment \<Rightarrow> ('w, sort_ordering option) comparison_run" where
  "comparison_loop 0 env = panic"
| "comparison_loop (Suc fuel) env =
     and_then (with_state (\<lambda>(cm, budget).
         if cm_left cm = None then
           and_then (next_a env) (\<lambda>step.
             and_then (update_state (\<lambda>(cm, budget). (cm\<lparr>cm_left := step_value step\<rparr>, budget)))
               (\<lambda>_. give (step \<noteq> YieldStep)))
         else give True)) (\<lambda>ready.
     if \<not> ready then give None
     else
       and_then (next_b env) (\<lambda>step.
         case step_value step of
           None \<Rightarrow> give None
         | Some right \<Rightarrow>
             with_state (\<lambda>(cm, budget).
               let left = Option.bind (cm_left cm) id in
               and_then (update_state (\<lambda>(cm, budget). (cm\<lparr>cm_left := None\<rparr>, budget))) (\<lambda>_.
               case values_order cm left right of
                 Some v \<Rightarrow> give (Some v)
               | None \<Rightarrow> comparison_loop fuel env))))"

text \<open>
  A pass that goes on has read a byte, unless it only compared the value kept over a yield with the
  end of the other side; so one more pass than the budget, and one for the result, are enough.
\<close>

definition comparison_advance :: "'w environment \<Rightarrow> ('w, sort_ordering option) comparison_run" where
  "comparison_advance env =
     and_then (with_state (\<lambda>(cm, budget).
       if cm_first cm then
         and_then (update_state (\<lambda>(cm, budget). (cm\<lparr>cm_first := False\<rparr>, budget)))
           (\<lambda>_. give (order_decide (cm_a cm) (cm_b cm) (cm_request cm)))
       else give None)) (\<lambda>decided.
     case decided of
       Some v \<Rightarrow> give (Some v)
     | None \<Rightarrow> with_state (\<lambda>(cm, budget). comparison_loop (budget + 2) env))"

end
