(* ===== verification/Sort_Number.thy ===== *)
theory Sort_Number imports Complex_Main Sort_Key begin

text \<open>
  What the number scanner of \<open>sort/key.rs\<close> accepts and computes.  \<open>decimal_parse\<close> is a recursive
  descent parser of decimal literals, \<open>decimal_value\<close> the rational a literal denotes; the scanner
  accepts exactly these literals, and sign, magnitude and digits order them by their values.
\<close>

section \<open>Decimal literals\<close>

definition take_sign :: "bytes \<Rightarrow> bool \<times> bytes" where
  "take_sign v = (case v of b # r \<Rightarrow> if is_sign b then (b = 45, r) else (False, v) | [] \<Rightarrow> (False, v))"

definition take_digits :: "bytes \<Rightarrow> bytes \<times> bytes" where
  "take_digits v = (takeWhile is_ascii_digit v, dropWhile is_ascii_digit v)"

definition take_fraction :: "bytes \<Rightarrow> bytes \<times> bytes" where
  "take_fraction v = (case v of b # r \<Rightarrow> if b = 46 then take_digits r else ([], v) | [] \<Rightarrow> ([], v))"

record decimal =
  dc_negative :: bool
  dc_integer :: bytes
  dc_fraction :: bytes
  dc_exp_negative :: bool
  dc_exponent :: bytes

definition is_blank :: "bytes \<Rightarrow> bool" where
  "is_blank v = list_all is_ascii_whitespace v"

definition decimal_parse :: "bytes \<Rightarrow> decimal option" where
  "decimal_parse v =
     (let (neg, v1) = take_sign (dropWhile is_ascii_whitespace v);
          (i, v2) = take_digits v1;
          (f, v3) = take_fraction v2 in
      if i @ f = [] then None
      else
        (case v3 of
           b # r \<Rightarrow>
             if is_exponent_mark b then
               (let (eneg, r1) = take_sign r; (x, r2) = take_digits r1 in
                if x = [] \<or> \<not> is_blank r2 then None
                else Some \<lparr>dc_negative = neg, dc_integer = i, dc_fraction = f, dc_exp_negative = eneg, dc_exponent = x\<rparr>)
             else if is_blank v3
             then Some \<lparr>dc_negative = neg, dc_integer = i, dc_fraction = f, dc_exp_negative = False, dc_exponent = []\<rparr>
             else None
         | [] \<Rightarrow> Some \<lparr>dc_negative = neg, dc_integer = i, dc_fraction = f, dc_exp_negative = False, dc_exponent = []\<rparr>))"

definition digit_value :: "u8 \<Rightarrow> nat" where
  "digit_value b = unat (b - 48)"

fun decimal_nat :: "bytes \<Rightarrow> nat" where
  "decimal_nat [] = 0"
| "decimal_nat (b # bs) = digit_value b * 10 ^ length bs + decimal_nat bs"

definition dc_digits :: "decimal \<Rightarrow> bytes" where
  "dc_digits dc = dc_integer dc @ dc_fraction dc"

definition signed :: "bool \<Rightarrow> int \<Rightarrow> int" where
  "signed neg k = (if neg then - k else k)"

definition decimal_value :: "decimal \<Rightarrow> rat" where
  "decimal_value dc =
     (if dc_negative dc then -1 else 1) * of_nat (decimal_nat (dc_digits dc))
       * 10 powi (signed (dc_exp_negative dc) (int (decimal_nat (dc_exponent dc))) - int (length (dc_fraction dc)))"

lemma decimal_sample: "map_option decimal_value (decimal_parse [32, 45, 49, 50, 46, 53, 101, 43, 50, 32]) = Some (-1250)"
  by code_simp

section \<open>The scanner on digits\<close>

abbreviation leading_zeros :: "bytes \<Rightarrow> nat" where
  "leading_zeros ds \<equiv> length (takeWhile (\<lambda>b. b = 48) ds)"

abbreviation all_digits :: "bytes \<Rightarrow> bool" where
  "all_digits ds \<equiv> list_all is_ascii_digit ds"

lemma digits_of_runs [simp]:
  "fst (take_digits v) @ snd (take_digits v) = v" "all_digits (fst (take_digits v))"
  "snd (take_digits v) = b # r \<Longrightarrow> \<not> is_ascii_digit b"
  by (auto simp: take_digits_def list_all_iff dest: set_takeWhileD)
     (metis hd_dropWhile list.sel(1) list.discI)

definition count_digits :: "bool \<Rightarrow> bytes \<Rightarrow> key_number \<Rightarrow> key_number" where
  "count_digits integer ds n =
     n\<lparr>nu_before_dot := nu_before_dot n + (if integer then length ds else 0),
       nu_digits := nu_digits n + length ds,
       nu_leading := nu_leading n + (if nu_significant n then 0 else leading_zeros ds),
       nu_significant := nu_significant n \<or> (\<exists>b \<in> set ds. b \<noteq> 48)\<rparr>"

lemma count_digits_Nil [simp]: "count_digits integer [] n = n"
  by (simp add: count_digits_def)

lemma count_digits_Cons: "count_digits integer (b # ds) n = count_digits integer ds (number_digit b integer n)"
  by (cases "nu_significant n"; cases "b = 48"; cases integer)
     (simp_all add: count_digits_def number_digit_def Let_def)

lemma digit_facts:
  assumes "is_ascii_digit b"
  shows "\<not> is_ascii_whitespace b" "b \<noteq> 43" "b \<noteq> 45" "b \<noteq> 46" "b \<noteq> 101" "b \<noteq> 69"
  using assms by (auto simp: is_ascii_digit_def is_ascii_whitespace_def)

lemma push_invalid [simp]: "nu_invalid n \<Longrightarrow> fold number_push v n = n"
  by (induction v) (simp_all add: number_push_def)

lemma push_blank_start: "is_blank w \<Longrightarrow> nu_state n = 0 \<Longrightarrow> \<not> nu_invalid n \<Longrightarrow> fold number_push w n = n"
  by (induction w) (simp_all add: number_push_def is_blank_def)

lemma number_digit_fields [simp]:
  "nu_state (number_digit b i n) = nu_state n" "nu_invalid (number_digit b i n) = nu_invalid n"
  "number_digit b i (n\<lparr>nu_state := s\<rparr>) = (number_digit b i n)\<lparr>nu_state := s\<rparr>"
  by (simp_all add: number_digit_def Let_def)

lemma count_digits_fields [simp]:
  "nu_state (count_digits i ds n) = nu_state n" "nu_invalid (count_digits i ds n) = nu_invalid n"
  "nu_digits (count_digits i ds n) = nu_digits n + length ds"
  "count_digits i ds (n\<lparr>nu_state := s\<rparr>) = (count_digits i ds n)\<lparr>nu_state := s\<rparr>"
  by (simp_all add: count_digits_def)

lemma push_integer:
  "all_digits ds \<Longrightarrow> nu_state n \<le> 2 \<Longrightarrow> \<not> nu_invalid n \<Longrightarrow>
     fold number_push ds n = (if ds = [] then n else (count_digits True ds n)\<lparr>nu_state := 2\<rparr>)"
proof (induction ds arbitrary: n)
  case (Cons b ds)
  then have "number_push b n = (number_digit b True n)\<lparr>nu_state := 2\<rparr>"
    using digit_facts [of b] by (auto simp: number_push_def)
  with Cons show ?case by (simp add: count_digits_Cons)
qed simp

lemma push_fraction:
  "all_digits ds \<Longrightarrow> nu_state n = 3 \<Longrightarrow> \<not> nu_invalid n \<Longrightarrow> fold number_push ds n = count_digits False ds n"
proof (induction ds arbitrary: n)
  case (Cons b ds)
  then have "number_push b n = number_digit b False n"
    using digit_facts [of b] by (simp add: number_push_def)
  with Cons show ?case by (simp add: count_digits_Cons)
qed simp

lemma number_exponent_fields [simp]:
  "nu_state (number_exponent b n) = nu_state n" "nu_invalid (number_exponent b n) = nu_invalid n"
  "nu_digits (number_exponent b n) = nu_digits n"
  "number_exponent b (n\<lparr>nu_state := s\<rparr>) = (number_exponent b n)\<lparr>nu_state := s\<rparr>"
  by (simp_all add: number_exponent_def Let_def split: option.split)

lemma fold_exponent_fields [simp]:
  "nu_state (fold number_exponent x n) = nu_state n" "nu_invalid (fold number_exponent x n) = nu_invalid n"
  "nu_digits (fold number_exponent x n) = nu_digits n"
  "fold number_exponent x (n\<lparr>nu_state := s\<rparr>) = (fold number_exponent x n)\<lparr>nu_state := s\<rparr>"
  by (induction x arbitrary: n) simp_all

lemma push_exponent:
  "all_digits x \<Longrightarrow> 4 \<le> nu_state n \<Longrightarrow> nu_state n \<le> 6 \<Longrightarrow> \<not> nu_invalid n \<Longrightarrow>
     fold number_push x n = (if x = [] then n else (fold number_exponent x n)\<lparr>nu_state := 6\<rparr>)"
proof (induction x arbitrary: n)
  case (Cons b x)
  then have "number_push b n = (number_exponent b n)\<lparr>nu_state := 6\<rparr>"
    using digit_facts [of b] by (auto simp: number_push_def)
  with Cons show ?case by simp
qed simp

lemma digit_value_less: "is_ascii_digit b \<Longrightarrow> digit_value b < 10"
  unfolding is_ascii_digit_def digit_value_def by unat_arith

lemma number_exponent_step:
  assumes "nu_exp n \<le> i64_max" "digit_value b < 10"
  shows "number_exponent b n =
    (if nu_exp n * 10 + digit_value b \<le> i64_max
     then n\<lparr>nu_exp := nu_exp n * 10 + digit_value b, nu_exp_digits := Suc (nu_exp_digits n)\<rparr>
     else n\<lparr>nu_exp_overflow := True, nu_exp_digits := Suc (nu_exp_digits n)\<rparr>)"
  using assms by (auto simp: number_exponent_def checked_mul_def checked_add_def digit_value_def Let_def
      split: bind_splits)

lemma overflow_sticks: "nu_exp_overflow n \<Longrightarrow> nu_exp_overflow (fold number_exponent x n)"
proof (induction x arbitrary: n)
  case (Cons b x)
  have "nu_exp_overflow (number_exponent b n)"
    using Cons.prems by (simp add: number_exponent_def Let_def split: option.split)
  with Cons.IH show ?case by simp
qed simp

lemma fold_exponent_others:
  "nu_exp_digits (fold number_exponent x n) = nu_exp_digits n + length x"
  "nu_negative (fold number_exponent x n) = nu_negative n"
  "nu_exp_negative (fold number_exponent x n) = nu_exp_negative n"
  "nu_before_dot (fold number_exponent x n) = nu_before_dot n"
  "nu_leading (fold number_exponent x n) = nu_leading n"
  "nu_significant (fold number_exponent x n) = nu_significant n"
  by (induction x arbitrary: n) (simp_all add: number_exponent_def Let_def split: option.split)

lemma scaled_above: "m < (e::nat) \<Longrightarrow> m < e * 10 ^ k + d"
proof (induction k)
  case (Suc k)
  then have "m < e * 10 ^ k + d" by simp
  moreover have "e * 10 ^ k \<le> e * 10 ^ Suc k" by simp
  ultimately show ?case by linarith
qed simp

lemma exponent_value:
  "all_digits x \<Longrightarrow> nu_exp n \<le> i64_max \<Longrightarrow> \<not> nu_exp_overflow n \<Longrightarrow>
     (let v = nu_exp n * 10 ^ length x + decimal_nat x; n' = fold number_exponent x n in
        nu_exp_overflow n' = (v > i64_max) \<and> (v \<le> i64_max \<longrightarrow> nu_exp n' = v))"
proof (induction x arbitrary: n)
  case (Cons b x)
  let ?e = "nu_exp n * 10 + digit_value b"
  have d: "digit_value b < 10" and x: "all_digits x" using Cons.prems(1) by (simp_all add: digit_value_less)
  have v: "nu_exp n * 10 ^ length (b # x) + decimal_nat (b # x) = ?e * 10 ^ length x + decimal_nat x"
    by (simp add: algebra_simps)
  show ?case
  proof (cases "?e \<le> i64_max")
    case True
    with Cons.IH [OF x, of "n\<lparr>nu_exp := ?e, nu_exp_digits := Suc (nu_exp_digits n)\<rparr>"] Cons.prems(3)
    show ?thesis
      unfolding v by (simp add: number_exponent_step [OF Cons.prems(2) d] Let_def)
  next
    case False
    then have "i64_max < ?e * 10 ^ length x + decimal_nat x" unfolding not_le by (rule scaled_above)
    with False show ?thesis
      unfolding v Let_def
      by (simp add: number_exponent_step [OF Cons.prems(2) d] overflow_sticks)
  qed
qed simp

section \<open>What the scanner accepts\<close>

lemma push_closed: "nu_state n = 7 \<Longrightarrow> \<not> nu_invalid n \<Longrightarrow>
    (is_blank r \<longrightarrow> fold number_push r n = n)
  \<and> nu_invalid (fold number_push r n) = (\<not> is_blank r)"
proof (induction r)
  case (Cons b r)
  have "number_push b n = (if is_ascii_whitespace b then n else n\<lparr>nu_invalid := True\<rparr>)"
    using Cons.prems by (simp add: number_push_def)
  with Cons show ?case by (cases "is_ascii_whitespace b") (simp_all add: is_blank_def)
qed (simp add: is_blank_def)

text \<open>After the digits of a number only white space may follow.\<close>

lemma push_tail:
  assumes "nu_state n \<in> {2, 3, 6}" "\<not> nu_invalid n"
    and "r = b # r' \<Longrightarrow> \<not> is_ascii_digit b" "nu_state n = 2 \<Longrightarrow> r = b # r' \<Longrightarrow> b \<noteq> 46"
    and "nu_state n \<noteq> 6 \<Longrightarrow> nu_digits n > 0 \<Longrightarrow> r = b # r' \<Longrightarrow> \<not> is_exponent_mark b"
    and "r = b # r' \<or> r = []"
  shows "nu_invalid (fold number_push r n) = (\<not> is_blank r)"
    and "is_blank r \<Longrightarrow> fold number_push r n = (if r = [] then n else n\<lparr>nu_state := 7\<rparr>)"
proof -
  have "nu_invalid (fold number_push r n) = (\<not> is_blank r)
    \<and> (is_blank r \<longrightarrow> fold number_push r n = (if r = [] then n else n\<lparr>nu_state := 7\<rparr>))"
  proof (cases "r = []")
    case False
    with assms(6) have r: "r = b # r'" by simp
    show ?thesis
    proof (cases "is_ascii_whitespace b")
      case True
      with assms(1,2) have "number_push b n = n\<lparr>nu_state := 7\<rparr>" by (auto simp: number_push_def)
      with True r push_closed [of "n\<lparr>nu_state := 7\<rparr>" r'] assms(2) show ?thesis
        by (auto simp: is_blank_def)
    next
      case b: False
      have "number_push b n = n\<lparr>nu_invalid := True\<rparr>"
        using assms(1,2) assms(3) [OF r] assms(4) [OF _ r] assms(5) [OF _ _ r] b
        by (auto simp: number_push_def)
      with b r show ?thesis by (simp add: is_blank_def)
    qed
  qed (simp add: is_blank_def assms(2))
  then show "nu_invalid (fold number_push r n) = (\<not> is_blank r)"
    "is_blank r \<Longrightarrow> fold number_push r n = (if r = [] then n else n\<lparr>nu_state := 7\<rparr>)" by blast+
qed

definition rejected :: "key_number \<Rightarrow> bool" where
  "rejected n \<longleftrightarrow> nu_invalid n \<or> nu_digits n = 0 \<or> nu_state n \<in> {1, 4, 5}"

lemma finish_rejected:
  "rejected n \<Longrightarrow> number_finish n d =
     Inr (d\<lparr>ds_group := (if ds_len d = 0 \<or> (nu_state n = 0 \<and> \<not> nu_invalid n) then 2 else 1)\<rparr>)"
  by (auto simp: number_finish_def rejected_def Let_def)

lemma rejected_invalid: "nu_invalid n \<Longrightarrow> rejected n" by (simp add: rejected_def)

text \<open>The exponent: after its mark.\<close>

lemma push_after_mark:
  assumes n: "nu_state n = 4" "\<not> nu_invalid n"
    and sg: "take_sign r = (eneg, r1)" and x: "take_digits r1 = (x, r2)"
  shows "x = [] \<or> \<not> is_blank r2 \<Longrightarrow> nu_invalid (fold number_push r n) \<or> nu_state (fold number_push r n) \<in> {4, 5}"
    and "x \<noteq> [] \<Longrightarrow> is_blank r2 \<Longrightarrow> \<exists>s s'. fold number_push r n =
      (fold number_exponent x (n\<lparr>nu_exp_negative := (if r = r1 then nu_exp_negative n else eneg), nu_state := s\<rparr>))
        \<lparr>nu_state := s'\<rparr> \<and> s' \<in> {6, 7}"
proof -
  define n1 where "n1 = (if r = r1 then n else n\<lparr>nu_exp_negative := eneg, nu_state := 5\<rparr>)"
  have n1: "nu_state n1 \<in> {4, 5}" "\<not> nu_invalid n1" using n by (simp_all add: n1_def)
  have r: "fold number_push r n = fold number_push r1 n1"
    "nu_state n1 = 4 \<Longrightarrow> r1 = b # r' \<Longrightarrow> \<not> is_sign b" for b r'
    using sg n by (auto simp: take_sign_def n1_def number_push_def is_ascii_whitespace_def
        split: list.splits if_splits)
  have r1: "r1 = x @ r2" "all_digits x" "\<And>b r'. r2 = b # r' \<Longrightarrow> \<not> is_ascii_digit b"
    using digits_of_runs [of r1] x by auto
  define n2 where "n2 = (if x = [] then n1 else (fold number_exponent x n1)\<lparr>nu_state := 6\<rparr>)"
  have "fold number_push x n1 = n2"
    unfolding n2_def using push_exponent [OF r1(2), of n1] n1 by auto
  with r(1) r1(1) have eq: "fold number_push r n = fold number_push r2 n2" by simp
  {
    assume "x = []"
    then have "n2 = n1" "r1 = r2" using r1(1) by (simp_all add: n2_def)
    have "nu_invalid (fold number_push r2 n1) \<or> nu_state (fold number_push r2 n1) \<in> {4, 5}"
    proof (cases r2)
      case Nil
      with n1 show ?thesis by simp
    next
      case (Cons b r')
      with r1(3) r(2) [of b r'] n1 \<open>r1 = r2\<close>
      have "nu_invalid (number_push b n1)" by (auto simp: number_push_def)
      with Cons show ?thesis by simp
    qed
    with eq \<open>n2 = n1\<close> have "nu_invalid (fold number_push r n) \<or> nu_state (fold number_push r n) \<in> {4, 5}" by simp
  }
  note empty = this
  {
    assume "x \<noteq> []"
    then have n2: "n2 = (fold number_exponent x n1)\<lparr>nu_state := 6\<rparr>" by (simp add: n2_def)
    have "nu_invalid (fold number_push r2 n2) = (\<not> is_blank r2)
      \<and> (is_blank r2 \<longrightarrow> fold number_push r2 n2 = (if r2 = [] then n2 else n2\<lparr>nu_state := 7\<rparr>))"
    proof (cases r2)
      case Nil
      then show ?thesis by (simp add: is_blank_def n2 n1)
    next
      case (Cons b r')
      have "nu_state n2 \<in> {2, 3, 6}" "\<not> nu_invalid n2" by (simp_all add: n2 n1)
      from push_tail [OF this, of r2 b r'] Cons r1(3) show ?thesis by (simp add: n2)
    qed
    note tail = this
  }
  note tail = this
  show "nu_invalid (fold number_push r n) \<or> nu_state (fold number_push r n) \<in> {4, 5}"
    if "x = [] \<or> \<not> is_blank r2"
    using that empty tail eq by auto
  show "\<exists>s s'. fold number_push r n =
      (fold number_exponent x (n\<lparr>nu_exp_negative := (if r = r1 then nu_exp_negative n else eneg), nu_state := s\<rparr>))
        \<lparr>nu_state := s'\<rparr> \<and> s' \<in> {6, 7}" if "x \<noteq> []" "is_blank r2"
  proof -
    have "\<exists>s. n1 = n\<lparr>nu_exp_negative := (if r = r1 then nu_exp_negative n else eneg), nu_state := s\<rparr>"
      by (rule exI [of _ "nu_state n1"]) (simp add: n1_def)
    then obtain s where s: "n1 = n\<lparr>nu_exp_negative := (if r = r1 then nu_exp_negative n else eneg), nu_state := s\<rparr>" ..
    have "fold number_push r n = (if r2 = [] then n2 else n2\<lparr>nu_state := 7\<rparr>)" using tail [OF that(1)] that(2) eq by simp
    moreover have n2: "n2 = (fold number_exponent x n1)\<lparr>nu_state := 6\<rparr>" using that(1) by (simp add: n2_def)
    ultimately have "fold number_push r n = (fold number_exponent x n1)\<lparr>nu_state := if r2 = [] then 6 else 7\<rparr>" by simp
    then show ?thesis unfolding s by (intro exI conjI, assumption) simp
  qed
qed

text \<open>What the scanner has counted at the end of a literal.\<close>

definition scanned :: "decimal \<Rightarrow> key_number \<Rightarrow> bool" where
  "scanned dc n \<longleftrightarrow> \<not> nu_invalid n \<and> nu_state n \<in> {2, 3, 6, 7} \<and> (nu_state n = 6 \<longrightarrow> nu_exp_digits n \<noteq> 0)
     \<and> nu_digits n = length (dc_digits dc) \<and> nu_digits n > 0
     \<and> nu_before_dot n = length (dc_integer dc) \<and> nu_leading n = leading_zeros (dc_digits dc)
     \<and> nu_significant n = (\<exists>b \<in> set (dc_digits dc). b \<noteq> 48)
     \<and> nu_negative n = dc_negative dc \<and> nu_exp_negative n = dc_exp_negative dc
     \<and> nu_exp_overflow n = (decimal_nat (dc_exponent dc) > i64_max)
     \<and> (decimal_nat (dc_exponent dc) \<le> i64_max \<longrightarrow> nu_exp n = decimal_nat (dc_exponent dc))"

lemma leading_zeros_append:
  "leading_zeros (xs @ ys) =
     leading_zeros xs + (if \<exists>b \<in> set xs. b \<noteq> 48 then 0 else leading_zeros ys)"
  by (induction xs) auto

lemma counted:
  fixes i f x :: bytes
  assumes "n = (fold number_exponent x
      ((count_digits False f ((count_digits True i (number_default\<lparr>nu_negative := neg\<rparr>))))
        \<lparr>nu_exp_negative := eneg\<rparr>))\<lparr>nu_state := s\<rparr>"
    and "s \<in> {2, 3, 6, 7}" "s = 6 \<longrightarrow> x \<noteq> []" "all_digits x" "i @ f \<noteq> []"
  shows "scanned \<lparr>dc_negative = neg, dc_integer = i, dc_fraction = f, dc_exp_negative = eneg, dc_exponent = x\<rparr> n"
proof -
  let ?m = "(count_digits False f (count_digits True i (number_default\<lparr>nu_negative := neg\<rparr>)))\<lparr>nu_exp_negative := eneg\<rparr>"
  have m: "nu_exp ?m = 0" "\<not> nu_exp_overflow ?m" "nu_invalid ?m = False" "nu_digits ?m = length i + length f"
    "nu_before_dot ?m = length i" "nu_negative ?m = neg" "nu_exp_negative ?m = eneg"
    "nu_significant ?m = (\<exists>b \<in> set (i @ f). b \<noteq> 48)" "nu_leading ?m = leading_zeros (i @ f)"
    unfolding leading_zeros_append by (auto simp: count_digits_def number_default_def)
  have "nu_exp ?m \<le> i64_max" unfolding m(1) by simp
  from exponent_value [OF assms(4) this m(2)] m(1)
  have e: "nu_exp_overflow (fold number_exponent x ?m) = (decimal_nat x > i64_max)"
    "decimal_nat x \<le> i64_max \<longrightarrow> nu_exp (fold number_exponent x ?m) = decimal_nat x"
    by (simp_all add: Let_def)
  define k where "k = fold number_exponent x ?m"
  have k: "nu_invalid k = False" "nu_digits k = length i + length f" "nu_before_dot k = length i"
    "nu_negative k = neg" "nu_exp_negative k = eneg" "nu_significant k = (\<exists>b \<in> set (i @ f). b \<noteq> 48)"
    "nu_leading k = leading_zeros (i @ f)" "nu_exp_digits k \<ge> length x"
    "nu_exp_overflow k = (decimal_nat x > i64_max)" "decimal_nat x \<le> i64_max \<longrightarrow> nu_exp k = decimal_nat x"
    using m e unfolding k_def by (simp_all add: fold_exponent_others del: set_append)
  have n: "n = k\<lparr>nu_state := s\<rparr>" unfolding k_def by (rule assms(1))
  have "0 < length (i @ f)" using assms(5) by (rule length_greater_0_conv [THEN iffD2])
  then have "0 < length i + length f" by simp
  moreover have "s = 6 \<longrightarrow> nu_exp_digits k \<noteq> 0" using assms(3) k(8) by (cases x) auto
  ultimately show ?thesis using assms(2) unfolding n scanned_def dc_digits_def by (simp add: k del: set_append)
qed

text \<open>The three parts in front of the exponent.\<close>

lemma push_start:
  assumes "take_sign (dropWhile is_ascii_whitespace v) = (neg, v1)" "take_digits v1 = (i, v2)"
    and "take_fraction v2 = (f, v3)"
  obtains s where
    "fold number_push v number_default = fold number_push v3
       ((count_digits False f (count_digits True i (number_default\<lparr>nu_negative := neg\<rparr>)))\<lparr>nu_state := s\<rparr>)"
    "s \<in> {0, 1, 2, 3}" "i \<noteq> [] \<or> f \<noteq> [] \<Longrightarrow> s \<in> {2, 3}" "s = 0 \<Longrightarrow> v3 = dropWhile is_ascii_whitespace v"
    "\<And>b r. v3 = b # r \<Longrightarrow> \<not> is_ascii_digit b" "\<And>b r. v3 = b # r \<Longrightarrow> s \<noteq> 3 \<Longrightarrow> b \<noteq> 46"
    "\<And>b r. v3 = b # r \<Longrightarrow> s = 0 \<Longrightarrow> \<not> is_sign b" "s \<noteq> 0 \<Longrightarrow> dropWhile is_ascii_whitespace v \<noteq> []"
    "s = 2 \<Longrightarrow> i \<noteq> []" "s = 1 \<Longrightarrow> i = [] \<and> f = []" "all_digits i" "all_digits f"
proof -
  let ?v0 = "dropWhile is_ascii_whitespace v" and ?n0 = "number_default\<lparr>nu_negative := neg\<rparr>"
  have d0: "nu_state number_default = 0" "\<not> nu_invalid number_default" by (simp_all add: number_default_def)
  have w: "is_blank (takeWhile is_ascii_whitespace v)"
    by (auto simp: is_blank_def list_all_iff dest: set_takeWhileD)
  have "fold number_push v number_default = fold number_push ?v0 (fold number_push (takeWhile is_ascii_whitespace v) number_default)"
    unfolding fold_append [symmetric, unfolded o_def, THEN fun_cong, symmetric]
    by (metis comp_apply fold_append takeWhile_dropWhile_id)
  with push_blank_start [OF w d0] have a: "fold number_push v number_default = fold number_push ?v0 number_default" by simp
  obtain s1 where b: "fold number_push ?v0 number_default = fold number_push v1 (?n0\<lparr>nu_state := s1\<rparr>)"
    "s1 = 0 \<and> v1 = ?v0 \<and> (\<forall>b r. v1 = b # r \<longrightarrow> \<not> is_sign b) \<or> s1 = 1 \<and> ?v0 \<noteq> []"
  proof (cases "\<exists>b r. ?v0 = b # r \<and> is_sign b")
    case True
    then obtain b r where br: "?v0 = b # r" "is_sign b" by blast
    then have "number_push b number_default = ?n0\<lparr>nu_state := 1\<rparr>" "v1 = r"
      using assms(1) by (auto simp: take_sign_def number_push_def number_default_def is_ascii_whitespace_def)
    with br that [of 1] show ?thesis by simp
  next
    case False
    then have "v1 = ?v0" "\<not> neg" using assms(1) by (auto simp: take_sign_def split: list.splits if_splits)
    moreover have "number_default = ?n0\<lparr>nu_state := 0\<rparr>" using \<open>\<not> neg\<close> by (simp add: number_default_def)
    ultimately show ?thesis using that [of 0] False by metis
  qed
  have v1: "v1 = i @ v2" "all_digits i" "\<And>b r. v2 = b # r \<Longrightarrow> \<not> is_ascii_digit b"
    using digits_of_runs [of v1] assms(2) by auto
  define s2 where "s2 = (if i = [] then s1 else 2)"
  have n1: "nu_state (?n0\<lparr>nu_state := s1\<rparr>) \<le> 2" "\<not> nu_invalid (?n0\<lparr>nu_state := s1\<rparr>)"
    using b(2) by (auto simp: number_default_def)
  have "fold number_push i (?n0\<lparr>nu_state := s1\<rparr>) = (count_digits True i ?n0)\<lparr>nu_state := s2\<rparr>"
    using push_integer [OF v1(2) n1] by (simp add: s2_def)
  with v1(1) a b(1) have c: "fold number_push v number_default = fold number_push v2 ((count_digits True i ?n0)\<lparr>nu_state := s2\<rparr>)"
    by simp
  show ?thesis
  proof (cases "\<exists>r. v2 = 46 # r")
    case True
    then obtain r where r: "v2 = 46 # r" by blast
    then have f: "r = f @ v3" "all_digits f" "\<And>b r. v3 = b # r \<Longrightarrow> \<not> is_ascii_digit b"
      using assms(3) digits_of_runs [of r] by (auto simp: take_fraction_def)
    have "s2 \<le> 2" "s2 \<noteq> 0 \<or> i = []" using b(2) by (auto simp: s2_def)
    then have "number_push 46 ((count_digits True i ?n0)\<lparr>nu_state := s2\<rparr>) = (count_digits True i ?n0)\<lparr>nu_state := 3\<rparr>"
      by (auto simp: number_push_def is_ascii_whitespace_def is_ascii_digit_def number_default_def)
    moreover have "fold number_push f ((count_digits True i ?n0)\<lparr>nu_state := 3\<rparr>)
        = (count_digits False f (count_digits True i ?n0))\<lparr>nu_state := 3\<rparr>"
      using push_fraction [OF f(2), of "(count_digits True i ?n0)\<lparr>nu_state := 3\<rparr>"]
      by (simp add: number_default_def)
    ultimately have "fold number_push v2 ((count_digits True i ?n0)\<lparr>nu_state := s2\<rparr>)
        = fold number_push v3 ((count_digits False f (count_digits True i ?n0))\<lparr>nu_state := 3\<rparr>)"
      unfolding r f(1) by simp
    moreover have "?v0 \<noteq> []" using b(2) v1(1) r by (metis append_is_Nil_conv list.discI)
    ultimately show ?thesis using that [of 3] c f v1(2) by simp
  next
    case False
    then have f: "f = []" "v3 = v2" using assms(3)
      by (auto simp: take_fraction_def split: list.splits if_splits)
    show ?thesis
    proof (rule that [of s2])
      have "s1 \<noteq> 0 \<or> i \<noteq> [] \<Longrightarrow> ?v0 \<noteq> []" using b(2) v1(1) by (metis append_is_Nil_conv)
      then show "s2 \<noteq> 0 \<Longrightarrow> ?v0 \<noteq> []" by (simp add: s2_def del: dropWhile_eq_Nil_conv split: if_splits)
      show "\<And>b r. v3 = b # r \<Longrightarrow> s2 = 0 \<Longrightarrow> \<not> is_sign b" "s2 = 0 \<Longrightarrow> v3 = ?v0"
        "s2 \<in> {0, 1, 2, 3}" "i \<noteq> [] \<or> f \<noteq> [] \<Longrightarrow> s2 \<in> {2, 3}" "s2 = 2 \<Longrightarrow> i \<noteq> []" "s2 = 1 \<Longrightarrow> i = [] \<and> f = []"
        using b(2) v1(1) f by (auto simp: s2_def split: if_splits)
    qed (use c f v1 False in auto)
  qed
qed

lemma push_mark:
  assumes "nu_state n \<in> {2, 3}" "\<not> nu_invalid n" "nu_digits n > 0" "is_exponent_mark b"
  shows "number_push b n = n\<lparr>nu_state := 4\<rparr>"
proof -
  have "\<not> is_ascii_whitespace b" "\<not> is_ascii_digit b" "b \<noteq> 46"
    using assms(4) by (auto simp: is_ascii_whitespace_def is_ascii_digit_def)
  then show ?thesis using assms by (auto simp: number_push_def)
qed

lemma is_blank_dropWhile: "is_blank v \<longleftrightarrow> dropWhile is_ascii_whitespace v = []"
  by (simp add: is_blank_def list_all_iff)

lemma state_negative_default: "number_default\<lparr>nu_negative := False, nu_exp_negative := False\<rparr> = number_default"
  by (simp add: number_default_def)

theorem number_scan:
  "case decimal_parse v of
     None \<Rightarrow> rejected (fold number_push v number_default)
       \<and> (nu_state (fold number_push v number_default) = 0 \<and> \<not> nu_invalid (fold number_push v number_default)
            \<longleftrightarrow> is_blank v)
   | Some dc \<Rightarrow> scanned dc (fold number_push v number_default)"
proof -
  let ?v0 = "dropWhile is_ascii_whitespace v"
  obtain neg v1 where sg: "take_sign ?v0 = (neg, v1)" by fastforce
  obtain i v2 where i: "take_digits v1 = (i, v2)" by fastforce
  obtain f v3 where f: "take_fraction v2 = (f, v3)" by fastforce
  obtain s where
    n0: "fold number_push v number_default = fold number_push v3
       ((count_digits False f (count_digits True i (number_default\<lparr>nu_negative := neg\<rparr>)))\<lparr>nu_state := s\<rparr>)"
    and s: "s \<in> {0, 1, 2, 3}" "i \<noteq> [] \<or> f \<noteq> [] \<Longrightarrow> s \<in> {2, 3}" "s = 0 \<Longrightarrow> v3 = ?v0"
      "\<And>b r. v3 = b # r \<Longrightarrow> \<not> is_ascii_digit b" "\<And>b r. v3 = b # r \<Longrightarrow> s \<noteq> 3 \<Longrightarrow> b \<noteq> 46"
      "\<And>b r. v3 = b # r \<Longrightarrow> s = 0 \<Longrightarrow> \<not> is_sign b" "s \<noteq> 0 \<Longrightarrow> ?v0 \<noteq> []" "s = 2 \<Longrightarrow> i \<noteq> []"
    by (rule push_start [OF sg i f]) (rule that; assumption)
  define m where "m = count_digits False f (count_digits True i (number_default\<lparr>nu_negative := neg\<rparr>))"
  note n = n0 [folded m_def]
  let ?N = "m\<lparr>nu_state := s\<rparr>"
  have m: "\<not> nu_invalid m" "nu_digits m = length i + length f" "nu_exp_negative m = False"
    by (simp_all add: m_def number_default_def, simp add: count_digits_def)
  have blank: "is_blank v \<longleftrightarrow> ?v0 = []" by (rule is_blank_dropWhile)
  show ?thesis
  proof (cases "i @ f = []")
    case True
    then have none: "decimal_parse v = None" by (simp add: decimal_parse_def Let_def sg i f)
    have "rejected (fold number_push v3 ?N)
      \<and> (nu_state (fold number_push v3 ?N) = 0 \<and> \<not> nu_invalid (fold number_push v3 ?N) \<longleftrightarrow> is_blank v)"
    proof (cases v3)
      case Nil
      then have "(s = 0) = (?v0 = [])" using s(3,7) by metis
      with True m Nil show ?thesis unfolding blank by (simp add: rejected_def del: dropWhile_eq_Nil_conv)
    next
      case (Cons b r)
      show ?thesis
      proof (cases "s = 3 \<and> is_ascii_whitespace b")
        case b: True
        then have p: "number_push b ?N = m\<lparr>nu_state := 7\<rparr>" using m by (simp add: number_push_def)
        have "nu_state (m\<lparr>nu_state := 7\<rparr>) = 7" "\<not> nu_invalid (m\<lparr>nu_state := 7\<rparr>)" using m by simp_all
        with push_closed [OF this, of r] have "nu_invalid (fold number_push v3 ?N) \<or> fold number_push v3 ?N = m\<lparr>nu_state := 7\<rparr>"
          using Cons p by (cases "is_blank r") simp_all
        moreover have "?v0 \<noteq> []" using b s(7) by simp
        ultimately show ?thesis using m(2) True unfolding blank by (auto simp: rejected_def simp del: dropWhile_eq_Nil_conv)
      next
        case b: False
        have "\<not> is_ascii_whitespace b" if "s = 0"
          using that s(3) Cons by (metis hd_dropWhile list.sel(1) list.discI)
        moreover have "s \<noteq> 2" using s(8) True by auto
        ultimately have "nu_invalid (number_push b ?N)"
          using s(1) s(4-6) [OF Cons] m True b by (auto simp: number_push_def)
        moreover have "?v0 \<noteq> []" using s(3,7) Cons by (metis list.discI)
        ultimately show ?thesis using Cons unfolding blank by (simp add: rejected_def del: dropWhile_eq_Nil_conv)
      qed
    qed
    with none n show ?thesis by simp
  next
    case False
    then have st: "s \<in> {2, 3}" "?v0 \<noteq> []" "nu_digits m > 0" "nu_digits ?N > 0" using s(2,7) m(2) by auto
    let ?dc = "\<lambda>eneg x. \<lparr>dc_negative = neg, dc_integer = i, dc_fraction = f, dc_exp_negative = eneg, dc_exponent = x\<rparr>"
    show ?thesis
    proof (cases "\<exists>b r. v3 = b # r \<and> is_exponent_mark b")
      case True
      then obtain b r where b: "v3 = b # r" "is_exponent_mark b" by blast
      obtain eneg r1 where e: "take_sign r = (eneg, r1)" by fastforce
      obtain x r2 where x: "take_digits r1 = (x, r2)" by fastforce
      have p: "number_push b ?N = m\<lparr>nu_state := 4\<rparr>"
        using push_mark [of ?N b] b(2) st(1,4) m(1) by simp
      have m4: "nu_state (m\<lparr>nu_state := 4\<rparr>) = 4" "\<not> nu_invalid (m\<lparr>nu_state := 4\<rparr>)" using m(1) by simp_all
      have d: "decimal_parse v = (if x = [] \<or> \<not> is_blank r2 then None else Some (?dc eneg x))"
        unfolding decimal_parse_def using False b(2) by (auto simp add: sg i f e x b(1) Let_def)
      show ?thesis
      proof (cases "x = [] \<or> \<not> is_blank r2")
        case True
        from push_after_mark(1) [OF m4 e x True] b(1) p st(2) True show ?thesis
          unfolding d n blank by (auto simp: rejected_def simp del: dropWhile_eq_Nil_conv)
      next
        case acc: False
        have "r = r1 \<Longrightarrow> \<not> eneg" using e by (auto simp: take_sign_def split: list.splits if_splits)
        then have eneg: "(if r = r1 then nu_exp_negative (m\<lparr>nu_state := 4\<rparr>) else eneg) = eneg" using m(3) by simp
        from push_after_mark(2) [OF m4 e x] acc obtain k s' where
          "fold number_push r (m\<lparr>nu_state := 4\<rparr>)
            = (fold number_exponent x (m\<lparr>nu_state := 4, nu_exp_negative := eneg, nu_state := k\<rparr>))\<lparr>nu_state := s'\<rparr>"
          and s': "s' \<in> {6, 7}" unfolding eneg by blast
        then have "fold number_push r (m\<lparr>nu_state := 4\<rparr>)
            = (fold number_exponent x (m\<lparr>nu_exp_negative := eneg, nu_state := k\<rparr>))\<lparr>nu_state := s'\<rparr>" by simp
        then have fx: "fold number_push v number_default
            = (fold number_exponent x (m\<lparr>nu_exp_negative := eneg\<rparr>))\<lparr>nu_state := s'\<rparr>"
          unfolding n b(1) using p by simp
        have ad: "all_digits x" using digits_of_runs(2) [of r1] x by simp
        have "scanned (?dc eneg x) (fold number_push v number_default)"
          by (rule counted [OF fx [unfolded m_def] _ _ ad False]) (use s' acc in blast)+
        with acc show ?thesis unfolding d by simp
      qed
    next
      case mark: False
      have d: "decimal_parse v = (if is_blank v3 then Some (?dc False []) else None)"
        unfolding decimal_parse_def using False mark
        by (cases v3) (auto simp: sg i f Let_def is_blank_def)
      have tail: "nu_invalid (fold number_push v3 ?N) = (\<not> is_blank v3)
        \<and> (is_blank v3 \<longrightarrow> fold number_push v3 ?N = (if v3 = [] then ?N else ?N\<lparr>nu_state := 7\<rparr>))"
      proof (cases v3)
        case Nil
        then show ?thesis using m(1) by (simp add: is_blank_def)
      next
        case (Cons b r)
        have c: "nu_state ?N \<in> {2, 3, 6}" "\<not> nu_invalid ?N" using st(1) m(1) by auto
        show ?thesis using push_tail [OF c, of v3 b r] s(4) [OF Cons] s(5) [OF Cons] mark Cons st(1) by auto
      qed
      show ?thesis
      proof (cases "is_blank v3")
        case True
        have e: "m\<lparr>nu_exp_negative := False\<rparr> = m" using m(3) by (cases m) simp
        have fx: "fold number_push v number_default
            = (fold number_exponent [] (m\<lparr>nu_exp_negative := False\<rparr>))\<lparr>nu_state := if v3 = [] then s else 7\<rparr>"
          unfolding n e using tail True by simp
        have "scanned (?dc False []) (fold number_push v number_default)"
          by (rule counted [OF fx [unfolded m_def] _ _ _ False]) (use st(1) in auto)
        with True show ?thesis unfolding d by simp
      next
        case False
        with tail n st(2) show ?thesis unfolding d blank by (simp add: rejected_def del: dropWhile_eq_Nil_conv)
      qed
    qed
  qed
qed

end
