(* ===== verification/Sort_Order.thy ===== *)
theory Sort_Order imports Sort_Number "HOL-Library.List_Lexorder" begin

text \<open>
  The order of sort keys.  \<open>key_order\<close> is the specification: numbers by value before other text by its
  bytes before blank cells, the direction applied inside a class, equal keys by source row.  It is a
  total order, and what the stored fields of two descriptors decide agrees with it.
\<close>

section \<open>Comparators\<close>

lemma ord_cmp_simps [simp]:
  "ord_cmp a b = OrdLess \<longleftrightarrow> a < b" "ord_cmp a b = OrdEqual \<longleftrightarrow> a = b" "ord_cmp a b = OrdGreater \<longleftrightarrow> b < a"
  "ord_cmp a a = OrdEqual"
  by (auto simp: ord_cmp_def)

lemma ord_then_simps [simp]: "ord_then OrdEqual b = b" "ord_then a OrdEqual = a"
  "ord_then OrdLess b = OrdLess" "ord_then OrdGreater b = OrdGreater"
  by (simp_all add: ord_then_def)

lemma ord_then_left: "a \<noteq> OrdEqual \<Longrightarrow> ord_then a b = a"
  by (simp add: ord_then_def)

lemma ord_then_assoc: "ord_then (ord_then a b) c = ord_then a (ord_then b c)"
  by (simp add: ord_then_def)

lemma ord_reverse_cmp: "ord_reverse (ord_cmp a b) = ord_cmp b a"
  by (auto simp: ord_cmp_def)

lemma ord_reverse_then: "ord_reverse (ord_then a b) = ord_then (ord_reverse a) (ord_reverse b)"
  by (cases a) simp_all

lemma ord_reverse_simps [simp]: "ord_reverse (ord_reverse a) = a" "ord_reverse a = OrdEqual \<longleftrightarrow> a = OrdEqual"
  "ord_reverse a = OrdGreater \<longleftrightarrow> a = OrdLess" "ord_reverse a = OrdLess \<longleftrightarrow> a = OrdGreater"
  by (cases a; simp)+

text \<open>A comparator that orders totally, up to keys it takes for equal.\<close>

definition total_comparator :: "('a \<Rightarrow> 'a \<Rightarrow> sort_ordering) \<Rightarrow> bool" where
  "total_comparator c \<longleftrightarrow> (\<forall>x y. c y x = ord_reverse (c x y))
     \<and> (\<forall>x y z. c x y \<noteq> OrdGreater \<longrightarrow> c y z \<noteq> OrdGreater \<longrightarrow> c x z = ord_then (c x y) (c y z))"

lemma total_comparator_rev: "total_comparator c \<Longrightarrow> ord_reverse (c x y) = c y x"
  unfolding total_comparator_def by metis

lemma total_comparator_trans:
  "total_comparator c \<Longrightarrow> c x y \<noteq> OrdGreater \<Longrightarrow> c y z \<noteq> OrdGreater \<Longrightarrow> c x z = ord_then (c x y) (c y z)"
  unfolding total_comparator_def by metis

lemma total_comparator_cmp: "total_comparator (\<lambda>x y. ord_cmp (f x) (f y))"
  by (auto simp: total_comparator_def ord_reverse_cmp ord_then_def) (auto simp: ord_cmp_def split: if_splits)

lemma total_comparator_reverse:
  assumes c: "total_comparator c" shows "total_comparator (\<lambda>x y. ord_reverse (c x y))"
  unfolding total_comparator_def
proof (intro conjI allI impI)
  note rev = total_comparator_rev [OF c]
  show "ord_reverse (c y x) = ord_reverse (ord_reverse (c x y))" for x y unfolding rev by simp
  fix x y z
  assume "ord_reverse (c x y) \<noteq> OrdGreater" "ord_reverse (c y z) \<noteq> OrdGreater"
  moreover from this have "c z x = ord_then (c z y) (c y x)"
    unfolding rev by (intro total_comparator_trans [OF c])
  ultimately show "ord_reverse (c x z) = ord_then (ord_reverse (c x y)) (ord_reverse (c y z))"
    unfolding rev by (cases "c z y"; cases "c y x") simp_all
qed

lemma total_comparator_then:
  assumes c: "total_comparator c" and d: "total_comparator d"
  shows "total_comparator (\<lambda>x y. ord_then (c x y) (d x y))"
  unfolding total_comparator_def
proof (intro conjI allI impI)
  fix x y z
  show "ord_then (c y x) (d y x) = ord_reverse (ord_then (c x y) (d x y))"
    unfolding ord_reverse_then total_comparator_rev [OF c] total_comparator_rev [OF d] ..
  assume le: "ord_then (c x y) (d x y) \<noteq> OrdGreater" "ord_then (c y z) (d y z) \<noteq> OrdGreater"
  then have "c x y \<noteq> OrdGreater" "c y z \<noteq> OrdGreater" by auto
  from total_comparator_trans [OF c this] have cz: "c x z = ord_then (c x y) (c y z)" .
  show "ord_then (c x z) (d x z) = ord_then (ord_then (c x y) (d x y)) (ord_then (c y z) (d y z))"
  proof (cases "c x y = OrdEqual \<and> c y z = OrdEqual")
    case True
    with le total_comparator_trans [OF d, of x y z] cz show ?thesis by simp
  next
    case False
    with le cz show ?thesis by (cases "c x y"; cases "c y z"; cases "d x y") simp_all
  qed
qed

section \<open>The order of keys\<close>

abbreviation numeric :: "sort_request \<Rightarrow> bool" where
  "numeric req \<equiv> sr_mode req = SortNumeric"

definition key_class :: "bytes \<Rightarrow> nat" where
  "key_class v = (if decimal_parse v \<noteq> None then 0 else if is_blank v then 2 else 1)"

definition number_of :: "bytes \<Rightarrow> rat" where
  "number_of v = (case decimal_parse v of Some dc \<Rightarrow> decimal_value dc | None \<Rightarrow> 0)"

definition directed :: "sort_request \<Rightarrow> sort_ordering \<Rightarrow> sort_ordering" where
  "directed req v = (if sr_direction req = Descending then ord_reverse v else v)"

definition value_order :: "sort_request \<Rightarrow> bytes \<Rightarrow> bytes \<Rightarrow> sort_ordering" where
  "value_order req v w =
     (if numeric req \<and> key_class v \<noteq> key_class w then ord_cmp (key_class v) (key_class w)
      else if numeric req \<and> key_class v = 2 then OrdEqual
      else if numeric req \<and> key_class v = 0 then directed req (ord_cmp (number_of v) (number_of w))
      else directed req (ord_cmp v w))"

definition key_order :: "sort_request \<Rightarrow> nat \<times> bytes \<Rightarrow> nat \<times> bytes \<Rightarrow> sort_ordering" where
  "key_order req x y = ord_then (value_order req (snd x) (snd y)) (ord_cmp (fst x) (fst y))"

lemma directed_Equal [simp]: "directed req OrdEqual = OrdEqual"
  by (simp add: directed_def)

lemma total_comparator_directed: "total_comparator c \<Longrightarrow> total_comparator (\<lambda>x y. directed req (c x y))"
  by (cases "sr_direction req") (simp_all add: directed_def total_comparator_reverse)

lemma value_order_total: "total_comparator (value_order req)"
proof (cases "numeric req")
  case True
  have "value_order req = (\<lambda>v w. ord_then (ord_cmp (key_class v) (key_class w))
      (ord_then (directed req (ord_cmp (if key_class v = 0 then number_of v else 0) (if key_class w = 0 then number_of w else 0)))
                (directed req (ord_cmp (if key_class v = 1 then v else []) (if key_class w = 1 then w else [])))))"
  proof (intro ext)
    fix v w
    have "key_class v \<in> {0, 1, 2}" by (simp add: key_class_def)
    with True show "value_order req v w = ord_then (ord_cmp (key_class v) (key_class w))
      (ord_then (directed req (ord_cmp (if key_class v = 0 then number_of v else 0) (if key_class w = 0 then number_of w else 0)))
                (directed req (ord_cmp (if key_class v = 1 then v else []) (if key_class w = 1 then w else []))))"
      by (cases "key_class v = key_class w") (auto simp: value_order_def ord_then_def)
  qed
  then show ?thesis
    by (elim ssubst) (intro total_comparator_then total_comparator_directed total_comparator_cmp)
next
  case False
  then have "value_order req = (\<lambda>v w. directed req (ord_cmp v w))" by (simp add: value_order_def fun_eq_iff)
  then show ?thesis by (elim ssubst) (intro total_comparator_directed total_comparator_cmp)
qed

lemma total_comparator_compose: "total_comparator c \<Longrightarrow> total_comparator (\<lambda>x y. c (f x) (f y))"
  unfolding total_comparator_def by blast

lemma key_order_total: "total_comparator (key_order req)"
  unfolding key_order_def
  by (intro total_comparator_then total_comparator_compose [OF value_order_total] total_comparator_cmp)

lemma key_order_rows: "key_order req x y = OrdEqual \<Longrightarrow> fst x = fst y"
  by (cases "value_order req (snd x) (snd y)") (simp_all add: key_order_def)

section \<open>Digits and values\<close>

fun fraction :: "bytes \<Rightarrow> rat" where
  "fraction [] = 0"
| "fraction (b # bs) = (of_nat (digit_value b) + fraction bs) / 10"

lemma fraction_bounds: "all_digits ds \<Longrightarrow> 0 \<le> fraction ds \<and> fraction ds < 1"
proof (induction ds)
  case (Cons b ds)
  then have "0 \<le> fraction ds" "fraction ds < 1" and d: "digit_value b < 10" by (simp_all add: digit_value_less)
  moreover from d have "of_nat (digit_value b) \<le> (9 :: rat)"
    using of_nat_mono [of "digit_value b" 9, where 'a = rat] by simp
  ultimately show ?case by simp
qed simp

lemma fraction_nat: "fraction ds * 10 ^ length ds = of_nat (decimal_nat ds)"
  by (induction ds) (simp_all add: field_simps)

lemma fraction_append_zeros: "fraction (ds @ replicate k 48) = fraction ds"
proof (induction ds)
  case Nil
  show ?case by (induction k) (simp_all add: digit_value_def)
qed simp

lemma digit_cmp:
  assumes "is_ascii_digit a" "is_ascii_digit b"
  shows "ord_cmp a b = ord_cmp (digit_value a) (digit_value b)"
proof -
  have "a < b \<longleftrightarrow> digit_value a < digit_value b" "a = b \<longleftrightarrow> digit_value a = digit_value b"
    using assms unfolding is_ascii_digit_def digit_value_def by unat_arith+
  then show ?thesis by (simp add: ord_cmp_def)
qed

lemma fraction_Cons_cmp:
  assumes "is_ascii_digit a" "is_ascii_digit b" "all_digits as" "all_digits bs"
  shows "ord_cmp (fraction (a # as)) (fraction (b # bs)) = ord_then (ord_cmp a b) (ord_cmp (fraction as) (fraction bs))"
proof -
  have f: "0 \<le> fraction as" "fraction as < 1" "0 \<le> fraction bs" "fraction bs < 1"
    using fraction_bounds assms(3,4) by auto
  consider "digit_value a < digit_value b" | "digit_value a = digit_value b" | "digit_value b < digit_value a"
    by linarith
  then show ?thesis
  proof cases
    case 1
    then have "of_nat (digit_value a) + 1 \<le> (of_nat (digit_value b) :: rat)"
      by (metis Suc_leI of_nat_Suc of_nat_le_iff add.commute)
    with f have "fraction (a # as) < fraction (b # bs)" by simp
    with 1 show ?thesis unfolding digit_cmp [OF assms(1,2)] by (simp add: ord_cmp_def)
  next
    case 2
    then show ?thesis unfolding digit_cmp [OF assms(1,2)] by (simp add: ord_cmp_def)
  next
    case 3
    then have "of_nat (digit_value b) + 1 \<le> (of_nat (digit_value a) :: rat)"
      by (metis Suc_leI of_nat_Suc of_nat_le_iff add.commute)
    with f have "fraction (b # bs) < fraction (a # as)" by simp
    with 3 show ?thesis unfolding digit_cmp [OF assms(1,2)] by (auto simp add: ord_cmp_def)
  qed
qed

lemma zero_digit [simp]: "is_ascii_digit 48" "digit_value 48 = 0"
  by (simp_all add: is_ascii_digit_def digit_value_def)

lemma digits_cmp_fraction:
  "all_digits xs \<Longrightarrow> all_digits ys \<Longrightarrow> digits_cmp xs ys = ord_cmp (fraction xs) (fraction ys)"
proof (induction xs ys rule: digits_cmp.induct)
  case (2 a as)
  then show ?case using fraction_Cons_cmp [of a 48 as "[]"] by simp
next
  case (3 b bs)
  then show ?case using fraction_Cons_cmp [of 48 b "[]" bs] by simp
next
  case (4 a as b bs)
  then show ?case using fraction_Cons_cmp [of a b as bs] by simp
qed simp

section \<open>Sign, magnitude and significant digits\<close>

definition dc_sign :: "decimal \<Rightarrow> int" where
  "dc_sign dc = (if \<forall>b \<in> set (dc_digits dc). b = 48 then 0 else if dc_negative dc then -1 else 1)"

definition dc_magnitude :: "decimal \<Rightarrow> int" where
  "dc_magnitude dc = int (length (dc_integer dc)) - int (leading_zeros (dc_digits dc))
     + signed (dc_exp_negative dc) (int (decimal_nat (dc_exponent dc)))"

definition dc_significant :: "decimal \<Rightarrow> bytes" where
  "dc_significant dc = drop (leading_zeros (dc_digits dc)) (dc_digits dc)"

definition dc_valid :: "decimal \<Rightarrow> bool" where
  "dc_valid dc \<longleftrightarrow> all_digits (dc_digits dc)"

lemma decimal_nat_drop_zeros: "decimal_nat (drop (leading_zeros ds) ds) = decimal_nat ds"
  by (induction ds) simp_all

lemma decimal_nat_zeros: "\<forall>b \<in> set ds. b = 48 \<Longrightarrow> decimal_nat ds = 0"
  by (induction ds) simp_all

lemma leading_zeros_le: "leading_zeros ds \<le> length ds"
  by (rule length_takeWhile_le)

lemma ten_powi: "(10::rat) powi k > 0" by (simp add: zero_less_power_int)

lemma decimal_value_fraction:
  "decimal_value dc = (if dc_negative dc then -1 else 1) * fraction (dc_significant dc) * 10 powi dc_magnitude dc"
proof -
  let ?E = "signed (dc_exp_negative dc) (int (decimal_nat (dc_exponent dc)))"
  let ?n = "length (dc_significant dc)"
  have "dc_magnitude dc = int ?n + (?E - int (length (dc_fraction dc)))"
    using leading_zeros_le [of "dc_digits dc"]
    by (simp add: dc_magnitude_def dc_significant_def of_nat_diff) (simp add: dc_digits_def)
  then have "(10::rat) powi dc_magnitude dc = 10 ^ ?n * 10 powi (?E - int (length (dc_fraction dc)))"
    by (simp add: power_int_add)
  then have "fraction (dc_significant dc) * 10 powi dc_magnitude dc
      = of_nat (decimal_nat (dc_significant dc)) * 10 powi (?E - int (length (dc_fraction dc)))"
    by (simp add: fraction_nat [symmetric] mult.assoc)
  then show ?thesis
    unfolding decimal_value_def by (simp add: dc_significant_def decimal_nat_drop_zeros mult.assoc)
qed

lemma nonzero_digit: "is_ascii_digit b \<Longrightarrow> b \<noteq> 48 \<Longrightarrow> 1 \<le> digit_value b"
  unfolding is_ascii_digit_def digit_value_def by unat_arith

lemma significant_shape:
  assumes "dc_valid dc" "dc_sign dc \<noteq> 0"
  shows "1 / 10 \<le> fraction (dc_significant dc)" "fraction (dc_significant dc) < 1" "all_digits (dc_significant dc)"
proof -
  have eq: "dc_significant dc = dropWhile (\<lambda>b. b = 48) (dc_digits dc)"
    unfolding dc_significant_def by (rule dropWhile_eq_drop [symmetric])
  have "dc_significant dc \<noteq> []" using assms(2) unfolding eq by (auto simp: dc_sign_def split: if_splits)
  then obtain b bs where b: "dc_significant dc = b # bs" by (cases "dc_significant dc") auto
  moreover have "b \<noteq> 48" using b unfolding eq dropWhile_eq_Cons_conv by simp
  moreover show dig: "all_digits (dc_significant dc)"
    using assms(1) unfolding dc_significant_def dc_valid_def list_all_iff by (meson in_set_dropD)
  ultimately have "1 \<le> digit_value b" "all_digits bs" using nonzero_digit [of b] by simp_all
  then have "(1::rat) \<le> of_nat (digit_value b)" "0 \<le> fraction bs"
    using fraction_bounds by (metis of_nat_1 of_nat_le_iff, blast)
  then show "1 / 10 \<le> fraction (dc_significant dc)" unfolding b by simp
  show "fraction (dc_significant dc) < 1" using fraction_bounds [OF dig] ..
qed

lemma scaled_cmp:
  fixes x y :: rat
  assumes "1 / 10 \<le> x" "x < 1" "1 / 10 \<le> y" "y < 1"
  shows "ord_cmp (x * 10 powi m) (y * 10 powi k) = ord_then (ord_cmp m k) (ord_cmp x y)"
proof -
  have less: "x * 10 powi m < y * 10 powi k" if "m < k" "x < 1" "1 / 10 \<le> y" for x y :: rat and m k :: int
  proof -
    have "x * 10 powi m < 1 * 10 powi m" by (rule mult_strict_right_mono [OF that(2) ten_powi])
    also have "(1::rat) * 10 powi m \<le> 10 powi (k - 1)" using that(1) by (simp add: power_int_increasing)
    also have "(10::rat) powi (k - 1) = 1 / 10 * 10 powi k" by (simp add: power_int_diff)
    also have "\<dots> \<le> y * 10 powi k" using that(3) ten_powi [of k] by (intro mult_right_mono) auto
    finally show ?thesis .
  qed
  consider "m < k" | "m = k" | "k < m" by linarith
  then show ?thesis
  proof cases
    case 1
    with less [OF 1 assms(2,3)] show ?thesis by (simp add: ord_cmp_def)
  next
    case 2
    with ten_powi [of k] show ?thesis by (simp add: ord_cmp_def)
  next
    case 3
    with less [OF 3 assms(4,1)] show ?thesis by (auto simp add: ord_cmp_def)
  qed
qed

text \<open>The order of two numbers, as the stored fields give it.\<close>

definition signed_order :: "int \<Rightarrow> sort_ordering \<Rightarrow> sort_ordering" where
  "signed_order sign v = (if sign < 0 then ord_reverse v else v)"

lemma decimal_order:
  assumes "dc_valid a" "dc_valid b"
  shows "ord_cmp (decimal_value a) (decimal_value b) =
    (if dc_sign a \<noteq> dc_sign b then ord_cmp (dc_sign a) (dc_sign b)
     else if dc_sign a = 0 then OrdEqual
     else signed_order (dc_sign a) (ord_then (ord_cmp (dc_magnitude a) (dc_magnitude b))
            (digits_cmp (dc_significant a) (dc_significant b))))"
proof -
  have pos: "fraction (dc_significant c) * 10 powi dc_magnitude c > 0" if "dc_valid c" "dc_sign c \<noteq> 0" for c
    using significant_shape(1) [OF that] ten_powi [of "dc_magnitude c"] by (intro mult_pos_pos) auto
  have sign: "dc_sign c = 0 \<Longrightarrow> decimal_value c = 0"
    "dc_sign c \<noteq> 0 \<Longrightarrow> dc_sign c = (if dc_negative c then -1 else 1)" for c
    by (auto simp: dc_sign_def decimal_value_def decimal_nat_zeros split: if_splits)
  have val: "dc_sign c > 0 \<Longrightarrow> decimal_value c > 0" "dc_sign c < 0 \<Longrightarrow> decimal_value c < 0"
    if "dc_valid c" for c
    using pos [OF that] sign(2) [of c] unfolding decimal_value_fraction
    by (auto simp: mult.assoc split: if_splits)
  show ?thesis
  proof (cases "dc_sign a = dc_sign b \<and> dc_sign a \<noteq> 0")
    case True
    then have nz: "dc_sign a \<noteq> 0" "dc_sign b \<noteq> 0" by auto
    note fa = significant_shape [OF assms(1) nz(1)] and fb = significant_shape [OF assms(2) nz(2)]
    let ?x = "fraction (dc_significant a) * 10 powi dc_magnitude a"
      and ?y = "fraction (dc_significant b) * 10 powi dc_magnitude b"
    have neg: "dc_negative a \<longleftrightarrow> dc_sign a < 0" "dc_negative b \<longleftrightarrow> dc_sign a < 0"
      using True sign(2) [OF nz(1)] sign(2) [OF nz(2)] by (auto split: if_splits)
    have "ord_cmp (decimal_value a) (decimal_value b) = signed_order (dc_sign a) (ord_cmp ?x ?y)"
      unfolding decimal_value_fraction signed_order_def ord_reverse_cmp neg
      by (simp add: mult.assoc ord_cmp_def)
    also have "ord_cmp ?x ?y = ord_then (ord_cmp (dc_magnitude a) (dc_magnitude b))
            (digits_cmp (dc_significant a) (dc_significant b))"
      unfolding digits_cmp_fraction [OF fa(3) fb(3)] by (rule scaled_cmp [OF fa(1,2) fb(1,2)])
    finally show ?thesis using True by simp
  next
    case False
    have range: "dc_sign c \<in> {-1, 0, 1}" for c by (simp add: dc_sign_def)
    have "ord_cmp (decimal_value a) (decimal_value b) = ord_cmp (dc_sign a) (dc_sign b)"
      using False range [of a] range [of b] sign(1) [of a] sign(1) [of b] val [OF assms(1)] val [OF assms(2)]
      by (auto simp: ord_cmp_def)
    with False show ?thesis by auto
  qed
qed

section \<open>The parts of a literal\<close>

lemma take_sign_parts:
  "take_sign v = (neg, r) \<Longrightarrow> \<exists>sg. v = sg @ r \<and> set sg \<subseteq> {43, 45}"
  by (auto simp: take_sign_def split: list.splits if_splits)

lemma take_fraction_parts:
  assumes "take_fraction v = (f, r)"
  shows "\<exists>p. v = p @ f @ r \<and> set p \<subseteq> {46}" "all_digits f"
proof -
  have "(\<exists>p. v = p @ f @ r \<and> set p \<subseteq> {46}) \<and> all_digits f"
  proof (cases "\<exists>w. v = 46 # w")
    case True
    then obtain w where w: "v = 46 # w" by blast
    with assms digits_of_runs [of w] show ?thesis by (auto simp: take_fraction_def intro!: exI [of _ "[46]"])
  next
    case False
    with assms have "f = []" "r = v" by (auto simp: take_fraction_def split: list.splits if_splits)
    then show ?thesis by (intro conjI exI [of _ "[]"]) simp_all
  qed
  then show "\<exists>p. v = p @ f @ r \<and> set p \<subseteq> {46}" "all_digits f" by blast+
qed

lemma plain_bytes:
  "is_ascii_digit b \<Longrightarrow> \<not> is_exponent_mark b" "is_ascii_whitespace b \<Longrightarrow> \<not> is_exponent_mark b"
  "is_ascii_whitespace b \<Longrightarrow> \<not> is_ascii_digit b" "b \<in> {43, 45, 46} \<Longrightarrow> \<not> is_exponent_mark b"
  "b \<in> {43, 45, 46} \<Longrightarrow> \<not> is_ascii_digit b"
  by (auto simp: is_ascii_digit_def is_ascii_whitespace_def)

lemma mantissa_digits_append:
  assumes "\<forall>b \<in> set xs. \<not> is_exponent_mark b"
  shows "mantissa_digits (xs @ ys) = filter is_ascii_digit xs @ mantissa_digits ys"
  using assms by (induction xs) (auto simp: mantissa_digits_def)

lemma no_digits: "\<forall>b \<in> set xs. \<not> is_ascii_digit b \<Longrightarrow> filter is_ascii_digit xs = []"
  by (simp add: filter_empty_conv)

lemma all_digits_filter: "all_digits xs \<Longrightarrow> filter is_ascii_digit xs = xs"
  by (simp add: list_all_iff filter_id_conv)

lemma mantissa_tail:
  assumes "r = [] \<or> is_blank r \<or> (\<exists>b r'. r = b # r' \<and> is_exponent_mark b)"
  shows "mantissa_digits r = []"
proof (cases "is_blank r")
  case True
  then have "\<forall>b \<in> set r. \<not> is_ascii_digit b" by (simp add: is_blank_def list_all_iff plain_bytes)
  then show ?thesis by (auto simp: mantissa_digits_def filter_empty_conv dest: set_takeWhileD)
next
  case False
  with assms show ?thesis by (auto simp: mantissa_digits_def)
qed

theorem parsed_digits:
  assumes "decimal_parse v = Some dc"
  shows "mantissa_digits v = dc_digits dc" "dc_valid dc" "all_digits (dc_exponent dc)"
proof -
  let ?v0 = "dropWhile is_ascii_whitespace v"
  obtain neg v1 where sg: "take_sign ?v0 = (neg, v1)" by fastforce
  obtain i v2 where i: "take_digits v1 = (i, v2)" by fastforce
  obtain f v3 where f: "take_fraction v2 = (f, v3)" by fastforce
  have v1: "v1 = i @ v2" "all_digits i" using digits_of_runs [of v1] i by auto
  obtain g where g: "?v0 = g @ v1" "set g \<subseteq> {43, 45}" using take_sign_parts [OF sg] by blast
  obtain p where p: "v2 = p @ f @ v3" "set p \<subseteq> {46}" "all_digits f" using take_fraction_parts [OF f] by blast
  have v: "v = takeWhile is_ascii_whitespace v @ g @ i @ p @ f @ v3"
    by (simp only: p(1) [symmetric] v1(1) [symmetric] g(1) [symmetric] takeWhile_dropWhile_id)
  have dc: "dc_integer dc = i \<and> dc_fraction dc = f \<and> all_digits (dc_exponent dc)
     \<and> (v3 = [] \<or> is_blank v3 \<or> (\<exists>b r'. v3 = b # r' \<and> is_exponent_mark b))"
  proof (cases "\<exists>b r'. v3 = b # r' \<and> is_exponent_mark b")
    case True
    then obtain b r where b: "v3 = b # r" "is_exponent_mark b" by blast
    obtain eneg r1 where e: "take_sign r = (eneg, r1)" by fastforce
    obtain x r2 where x: "take_digits r1 = (x, r2)" by fastforce
    have "all_digits x" using digits_of_runs(2) [of r1] x by simp
    with assms b show ?thesis unfolding decimal_parse_def
      by (auto simp add: sg i f e x Let_def split: if_splits)
  next
    case False
    with assms show ?thesis unfolding decimal_parse_def
      by (cases v3) (auto simp: sg i f Let_def split: if_splits)
  qed
  have w: "\<forall>b \<in> set (takeWhile is_ascii_whitespace v). is_ascii_whitespace b"
    by (auto dest: set_takeWhileD)
  note dig = v1(2) [unfolded list_all_iff] p(3) [unfolded list_all_iff]
  have gp: "\<forall>b \<in> set g. b \<in> {43, 45, 46}" "\<forall>b \<in> set p. b \<in> {43, 45, 46}" using g(2) p(2) by blast+
  have m: "\<forall>b \<in> set (takeWhile is_ascii_whitespace v). \<not> is_exponent_mark b"
    "\<forall>b \<in> set g. \<not> is_exponent_mark b" "\<forall>b \<in> set i. \<not> is_exponent_mark b" "\<forall>b \<in> set p. \<not> is_exponent_mark b"
    "\<forall>b \<in> set f. \<not> is_exponent_mark b"
    by (intro ballI, rule plain_bytes(2), erule w [rule_format])
      (intro ballI, rule plain_bytes(4), erule gp [rule_format],
       intro ballI, rule plain_bytes(1), erule dig [rule_format],
       intro ballI, rule plain_bytes(4), erule gp [rule_format],
       intro ballI, rule plain_bytes(1), erule dig [rule_format])
  have n: "filter is_ascii_digit (takeWhile is_ascii_whitespace v) = []" "filter is_ascii_digit g = []"
    "filter is_ascii_digit p = []"
    by (rule no_digits, intro ballI, rule plain_bytes(3), erule w [rule_format])
      (rule no_digits, intro ballI, rule plain_bytes(5), erule gp [rule_format])+
  have "mantissa_digits v = i @ f @ mantissa_digits v3"
    by (subst v) (simp only: mantissa_digits_append [OF m(1)] mantissa_digits_append [OF m(2)]
        mantissa_digits_append [OF m(3)] mantissa_digits_append [OF m(4)] mantissa_digits_append [OF m(5)]
        n all_digits_filter [OF v1(2)] all_digits_filter [OF p(3)] append_Nil append_assoc)
  with dc mantissa_tail [of v3] show "mantissa_digits v = dc_digits dc" by (auto simp: dc_digits_def)
  show "dc_valid dc" using dc v1(2) p(3) by (simp add: dc_valid_def dc_digits_def)
  show "all_digits (dc_exponent dc)" using dc by blast
qed

section \<open>What a descriptor stores of its key\<close>

definition stores_prefix :: "descriptor \<Rightarrow> bytes \<Rightarrow> bool" where
  "stores_prefix d v \<longleftrightarrow>
     length (ds_prefix d) = 32 \<and> ds_len d = length v \<and> take (length v) (ds_prefix d) = take 32 v"

definition stores_key :: "sort_mode \<Rightarrow> descriptor \<Rightarrow> bytes \<Rightarrow> bool" where
  "stores_key mode d v \<longleftrightarrow> stores_prefix d v
   \<and> (mode = SortNumeric \<longrightarrow> ds_group d = key_class v
       \<and> (case decimal_parse v of
            None \<Rightarrow> True
          | Some dc \<Rightarrow> ds_sign d = dc_sign dc \<and> ds_magnitude d = dc_magnitude dc
              \<and> ds_leading d = leading_zeros (dc_digits dc)))"

lemma push_prefix_stores:
  assumes "stores_prefix d v" shows "stores_prefix (push_prefix b d) (v @ [b])"
proof (cases "length v < 32")
  case True
  with assms show ?thesis
    by (simp add: stores_prefix_def push_prefix_def Let_def take_Suc_conv_app_nth)
next
  case False
  then have eq: "ds_prefix d = take 32 v" using assms by (metis linorder_not_less stores_prefix_def take_all)
  with False assms show ?thesis by (simp add: stores_prefix_def push_prefix_def Let_def)
qed

lemma prefix_order:
  assumes "stores_prefix a v" "stores_prefix b w"
  shows "slice_cmp (take (ds_len a) (ds_prefix a)) (take (ds_len b) (ds_prefix b)) = slice_cmp (take 32 v) (take 32 w)"
  using assms by (simp add: stores_prefix_def)

lemma slice_cmp_lex: "slice_cmp v w = ord_cmp v w"
  by (induction v w rule: slice_cmp.induct) (auto simp: ord_cmp_def ord_then_def)

lemma slice_cmp_take:
  "slice_cmp v w = ord_then (slice_cmp (take n v) (take n w)) (slice_cmp v w)"
proof (induction v w arbitrary: n rule: slice_cmp.induct)
  case (4 a as b bs)
  show ?case
  proof (cases n)
    case (Suc k)
    then show ?thesis using "4.IH" [of k] by (cases "ord_cmp a b") (simp_all del: ord_cmp_simps)
  qed simp
next
  case (2 b bs)
  show ?case by (cases n) simp_all
next
  case (3 a as)
  show ?case by (cases n) simp_all
qed simp

text \<open>What the stored fields decide is the order of the keys.\<close>

theorem order_decide_correct:
  assumes "stores_key (sr_mode req) a v" "stores_key (sr_mode req) b w" "order_decide a b req = Some r"
  shows "r = key_order req (ds_row a, v) (ds_row b, w)"
proof -
  have a: "stores_prefix a v" and b: "stores_prefix b w" using assms(1,2) by (simp_all add: stores_key_def)
  have by_text: "r = ord_then (directed req (ord_cmp v w)) (ord_cmp (ds_row a) (ds_row b))"
    if "(let prefix = slice_cmp (take (ds_len a) (ds_prefix a)) (take (ds_len b) (ds_prefix b)) in
         if prefix \<noteq> OrdEqual then Some (order_finish req a b prefix)
         else if ds_len a \<le> key_prefix \<and> ds_len b \<le> key_prefix
         then Some (ord_cmp (ds_row a) (ds_row b))
         else None) = Some r"
  proof -
    let ?p = "slice_cmp (take 32 v) (take 32 w)"
    have differ: "ord_cmp v w = ?p" if "?p \<noteq> OrdEqual"
      using slice_cmp_take [of v w 32] that unfolding slice_cmp_lex [of v w] by (simp add: ord_then_def)
    have same: "ord_cmp v w = OrdEqual" if "?p = OrdEqual" "ds_len a \<le> 32" "ds_len b \<le> 32"
      using that a b by (simp add: stores_prefix_def slice_cmp_lex)
    show ?thesis
    proof (cases "?p = OrdEqual")
      case True
      with that have "ds_len a \<le> 32" "ds_len b \<le> 32" "r = ord_cmp (ds_row a) (ds_row b)"
        unfolding prefix_order [OF a b] by (auto split: if_splits)
      with same [OF True] show ?thesis by simp
    next
      case False
      with that have "r = order_finish req a b ?p"
        unfolding prefix_order [OF a b] by (simp add: Let_def)
      with differ [OF False] show ?thesis by (simp add: order_finish_def directed_def)
    qed
  qed
  show ?thesis
  proof (cases "numeric req")
    case False
    with assms(3) have "r = ord_then (directed req (ord_cmp v w)) (ord_cmp (ds_row a) (ds_row b))"
      by (intro by_text) (simp add: order_decide_def)
    with False show ?thesis by (simp add: key_order_def value_order_def)
  next
    case True
    then have g: "ds_group a = key_class v" "ds_group b = key_class w" using assms(1,2) by (simp_all add: stores_key_def)
    have c: "key_class v \<in> {0, 1, 2}" by (simp add: key_class_def)
    consider "key_class v \<noteq> key_class w" | "key_class v = key_class w" "key_class v = 1"
      | "key_class v = key_class w" "key_class v = 2" | "key_class v = key_class w" "key_class v = 0"
      using c by (metis insertE emptyE)
    then show ?thesis
    proof cases
      case 1
      with assms(3) True g show ?thesis by (auto simp: order_decide_def key_order_def value_order_def ord_then_def)
    next
      case 2
      with assms(3) True g have "r = ord_then (directed req (ord_cmp v w)) (ord_cmp (ds_row a) (ds_row b))"
        by (intro by_text) (simp add: order_decide_def)
      with 2 show ?thesis by (simp add: key_order_def value_order_def)
    next
      case 3
      with assms(3) True g show ?thesis by (auto simp: order_decide_def key_order_def value_order_def)
    next
      case 4
      then obtain dv dw where p: "decimal_parse v = Some dv" "decimal_parse w = Some dw"
        by (auto simp: key_class_def split: if_splits)
      with True assms(1,2) have s: "ds_sign a = dc_sign dv" "ds_magnitude a = dc_magnitude dv"
        "ds_leading a = leading_zeros (dc_digits dv)" "ds_sign b = dc_sign dw" "ds_magnitude b = dc_magnitude dw"
        "ds_leading b = leading_zeros (dc_digits dw)" by (simp_all add: stores_key_def)
      have short: "short_number_order a b = digits_cmp (dc_significant dv) (dc_significant dw)"
        if "ds_len a \<le> 32" "ds_len b \<le> 32"
        using that a b unfolding short_number_order_def dc_significant_def stores_prefix_def
        by (simp add: s parsed_digits(1) [OF p(1)] parsed_digits(1) [OF p(2)])
      have v: "key_order req (ds_row a, v) (ds_row b, w)
          = ord_then (directed req (ord_cmp (decimal_value dv) (decimal_value dw))) (ord_cmp (ds_row a) (ds_row b))"
        using 4 True by (simp add: key_order_def value_order_def number_of_def p)
      note o = decimal_order [OF parsed_digits(2) [OF p(1)] parsed_digits(2) [OF p(2)]]
      show ?thesis using assms(3) True 4
        unfolding v o order_decide_def g s
        by (auto simp: order_finish_def directed_def signed_order_def short Let_def ord_reverse_then ord_then_left split: if_splits)
    qed
  qed
qed

end
