(* ===== verification/Sort_Extract.thy ===== *)
theory Sort_Extract imports Sort_Order Field_Projection begin

text \<open>
  Finding and decoding the key of a record over an unchanged source, whatever the step budgets and the
  lengths of the reads: the locator finds the raw extent of the field the projection shows, the
  cursor delivers its value, and the builder stores it.
\<close>

section \<open>Reads\<close>

lemma yields_focus [wp_simps]:
  "yields (focus get put m) sw Q = yields m (get (fst sw), snd sw) (\<lambda>a tw. Q a (put (fst tw) (fst sw), snd tw))"
  by (simp add: yields_def focus_def split: prod.splits outcome.splits)

context stable_source begin

lemma checked_read_yields:
  assumes "world_ok w" "off < length data" "0 < n" "off + n \<le> length data"
  shows "yields (checked_read env off n) w
    (\<lambda>bs w'. world_ok w' \<and> bs \<noteq> [] \<and> length bs \<le> n \<and> bs = take (length bs) (drop off data))"
proof -
  from read_inside [OF assms] obtain k buf w' where r: "env_read_at env w off n = (Inr (k, buf), w')"
    "0 < k" "k \<le> n" "length buf = n" "take k buf = take k (drop off data)" "world_ok w'" by blast
  then have "checked_read env off n w = (Ok (take k buf), w')" by (simp add: checked_read_def)
  then show ?thesis
    by (rule yieldsI) (use r assms in auto)
qed

end

section \<open>The cursor\<close>

fun cursor_values :: "key_cursor \<Rightarrow> bytes \<Rightarrow> bytes" where
  "cursor_values kc [] = []"
| "cursor_values kc (b # bs) =
     (case cursor_byte b kc of
        (kc', None) \<Rightarrow> cursor_values kc' bs | (kc', Some v) \<Rightarrow> v # cursor_values kc' bs)"

definition kc_bytes :: "bytes \<Rightarrow> key_cursor \<Rightarrow> bytes" where
  "kc_bytes data kc = take (kc_end kc - kc_offset kc) (drop (kc_offset kc) data)"

definition kc_rest :: "bytes \<Rightarrow> key_cursor \<Rightarrow> bytes" where
  "kc_rest data kc = cursor_values kc (kc_bytes data kc)"

definition cursor_at :: "bytes \<Rightarrow> key_cursor \<Rightarrow> bool" where
  "cursor_at data kc \<longleftrightarrow> kc_offset kc \<le> kc_end kc \<and> kc_end kc \<le> length data
     \<and> prefix (kc_unread kc) (kc_bytes data kc)"

lemma cursor_byte_update:
  "cursor_byte b (kc\<lparr>kc_unread := u, kc_offset := i\<rparr>)
     = (case cursor_byte b kc of (kc', out) \<Rightarrow> (kc'\<lparr>kc_unread := u, kc_offset := i\<rparr>, out))"
  by (simp add: cursor_byte_def Let_def)

lemma cursor_byte_fields:
  "cursor_byte b kc = (kc', out) \<Longrightarrow>
     kc_offset kc' = kc_offset kc \<and> kc_end kc' = kc_end kc \<and> kc_unread kc' = kc_unread kc"
  by (auto simp: cursor_byte_def Let_def split: if_splits)

lemma cursor_values_update [simp]:
  "cursor_values (kc\<lparr>kc_unread := u, kc_offset := i\<rparr>) bs = cursor_values kc bs"
  by (induction kc bs rule: cursor_values.induct)
    (simp_all add: cursor_byte_update split: prod.splits option.splits)

lemma cursor_values_unread [simp]: "cursor_values (kc\<lparr>kc_unread := u\<rparr>) bs = cursor_values kc bs"
  using cursor_values_update [where u = u and i = "kc_offset kc" and kc = kc and bs = bs] by simp

lemma kc_bytes_unread [simp]: "kc_bytes data (kc\<lparr>kc_unread := u\<rparr>) = kc_bytes data kc"
  "kc_rest data (kc\<lparr>kc_unread := u\<rparr>) = kc_rest data kc"
  by (simp_all add: kc_bytes_def kc_rest_def)

definition cursor_post :: "bytes \<Rightarrow> key_cursor \<Rightarrow> nat \<Rightarrow> byte_step \<Rightarrow> key_cursor \<Rightarrow> nat \<Rightarrow> bool" where
  "cursor_post data kc budget step kc' budget' \<longleftrightarrow> cursor_at data kc'
     \<and> length (kc_bytes data kc') + budget = length (kc_bytes data kc) + budget'
     \<and> (case step of
          ByteStep b \<Rightarrow> kc_rest data kc = b # kc_rest data kc' \<and> budget' < budget
        | EndStep \<Rightarrow> kc_rest data kc = [] \<and> kc_bytes data kc' = [] \<and> budget' \<le> budget
        | YieldStep \<Rightarrow> kc_rest data kc' = kc_rest data kc \<and> budget' = 0)"

context stable_source begin

lemma cursor_consume:
  assumes at: "cursor_at data kc" and u: "kc_unread kc = b # bs"
    and c: "cursor_byte b (kc\<lparr>kc_unread := bs, kc_offset := Suc (kc_offset kc)\<rparr>) = (kc', out)"
  shows "cursor_at data kc'" "kc_bytes data kc = b # kc_bytes data kc'"
    "kc_rest data kc = (case out of Some v \<Rightarrow> v # kc_rest data kc' | None \<Rightarrow> kc_rest data kc')"
proof -
  note f = cursor_byte_fields [OF c]
  let ?o = "kc_offset kc"
  have pre: "prefix (b # bs) (kc_bytes data kc)" using at u by (simp add: cursor_at_def)
  then have lt: "?o < kc_end kc" and le: "kc_end kc \<le> length data"
    using at by (auto simp: kc_bytes_def cursor_at_def nat_less_le)
  have "drop ?o data = data ! ?o # drop (Suc ?o) data" using lt le by (simp add: Cons_nth_drop_Suc)
  then have "kc_bytes data kc = data ! ?o # take (kc_end kc - Suc ?o) (drop (Suc ?o) data)"
    using lt by (simp add: kc_bytes_def take_Cons' Suc_diff_Suc diff_Suc)
  with f pre have s: "kc_bytes data kc = b # kc_bytes data kc'" "prefix bs (kc_bytes data kc')"
    by (simp_all add: kc_bytes_def)
  then show "kc_bytes data kc = b # kc_bytes data kc'" by simp
  show "cursor_at data kc'" using s(2) f lt le by (simp add: cursor_at_def)
  obtain k where k: "cursor_byte b kc = (k, out)" "kc' = k\<lparr>kc_unread := bs, kc_offset := Suc ?o\<rparr>"
    using c by (auto simp: cursor_byte_update split: prod.splits)
  then have "cursor_values k xs = cursor_values kc' xs" for xs by simp
  then show "kc_rest data kc = (case out of Some v \<Rightarrow> v # kc_rest data kc' | None \<Rightarrow> kc_rest data kc')"
    unfolding kc_rest_def s(1) by (simp add: k(1) split: option.split)
qed

lemma cursor_loop_spec:
  "budget < fuel \<Longrightarrow> cursor_at data kc \<Longrightarrow> world_ok w \<Longrightarrow>
     yields (cursor_loop fuel env) ((kc, budget), w)
       (\<lambda>step ((kc', budget'), w'). world_ok w' \<and> cursor_post data kc budget step kc' budget')"
proof (induction fuel arbitrary: kc budget w)
  case (Suc fuel)
  have consume: "case kc_unread k of [] \<Rightarrow> False | b # bs \<Rightarrow>
      (case cursor_byte b (k\<lparr>kc_unread := bs, kc_offset := Suc (kc_offset k)\<rparr>) of
         (k', out) \<Rightarrow> yields (case out of Some v \<Rightarrow> give (ByteStep v) | None \<Rightarrow> cursor_loop fuel env) ((k', budget - 1), w)
           (\<lambda>step ((kc', budget'), w'). world_ok w' \<and> cursor_post data k budget step kc' budget'))"
    if b: "0 < budget" and k: "kc_unread k \<noteq> []" "cursor_at data k" "world_ok w" for k w
  proof -
    obtain b bs where u: "kc_unread k = b # bs" using k(1) by (cases "kc_unread k") auto
    obtain k' out where c: "cursor_byte b (k\<lparr>kc_unread := bs, kc_offset := Suc (kc_offset k)\<rparr>) = (k', out)"
      by fastforce
    note con = cursor_consume [OF k(2) u c]
    show ?thesis
    proof (cases out)
      case None
      have "budget - 1 < fuel" using b Suc.prems(1) by simp
      from Suc.IH [OF this con(1) k(3)] show ?thesis
        unfolding u list.case c prod.case None option.case
        by (rule yields_weaken) (use con b None in \<open>auto simp: cursor_post_def split: byte_step.splits\<close>)
    next
      case (Some v)
      then show ?thesis using con b k(3) u c
        by (simp add: wp_simps cursor_post_def)
    qed
  qed
  consider "budget = 0" | "0 < budget" "kc_unread kc = []" "kc_offset kc = kc_end kc"
    | "0 < budget" "kc_unread kc = []" "kc_offset kc < kc_end kc" | "0 < budget" "kc_unread kc \<noteq> []"
    using Suc.prems(2) unfolding cursor_at_def by linarith
  then show ?case
  proof cases
    case 1
    with Suc.prems show ?thesis by (simp add: wp_simps cursor_post_def)
  next
    case 2
    with Suc.prems show ?thesis by (simp add: wp_simps cursor_post_def kc_rest_def kc_bytes_def)
  next
    case 3
    have r: "kc_offset kc < length data" "0 < min 4096 (kc_end kc - kc_offset kc)"
      "kc_offset kc + min 4096 (kc_end kc - kc_offset kc) \<le> length data"
      using 3 Suc.prems(2) by (auto simp: cursor_at_def)
    have "yields (cursor_loop (Suc fuel) env) ((kc, budget), w)
        (\<lambda>step ((kc', budget'), w'). world_ok w' \<and> cursor_post data kc budget step kc' budget')
      = yields (checked_read env (kc_offset kc) (min 4096 (kc_end kc - kc_offset kc))) w
        (\<lambda>bs w'. yields (with_state (\<lambda>(kc, budget).
           case kc_unread kc of
             [] \<Rightarrow> panic
           | b # bs \<Rightarrow>
               (case cursor_byte b (kc\<lparr>kc_unread := bs, kc_offset := Suc (kc_offset kc)\<rparr>) of
                  (kc', out) \<Rightarrow>
                    and_then (update_state (\<lambda>_. (kc', budget - 1))) (\<lambda>_.
                    case out of Some v \<Rightarrow> give (ByteStep v) | None \<Rightarrow> cursor_loop fuel env))))
           ((kc\<lparr>kc_unread := bs\<rparr>, budget), w')
           (\<lambda>step ((kc', budget'), w'). world_ok w' \<and> cursor_post data kc budget step kc' budget'))"
      using 3 by (simp add: wp_simps)
    also have "\<dots>"
    proof (rule yields_weaken [OF checked_read_yields [OF Suc.prems(3) r]])
      fix bs w'
      assume bs: "world_ok w' \<and> bs \<noteq> [] \<and> length bs \<le> min 4096 (kc_end kc - kc_offset kc)
        \<and> bs = take (length bs) (drop (kc_offset kc) data)"
      let ?k = "kc\<lparr>kc_unread := bs\<rparr>"
      have "min (length bs) (kc_end kc - kc_offset kc) = length bs" using bs by linarith
      then have "bs = take (length bs) (kc_bytes data kc)" using bs by (simp add: kc_bytes_def)
      then have "prefix bs (kc_bytes data kc)" by (metis take_is_prefix)
      then have k: "kc_unread ?k \<noteq> []" "cursor_at data ?k" "world_ok w'"
        using bs Suc.prems(2) by (simp_all add: cursor_at_def)
      have "cursor_post data ?k = cursor_post data kc" by (simp add: cursor_post_def fun_eq_iff split: byte_step.split)
      with consume [OF 3(1) k]
      show "yields (with_state (\<lambda>(kc, budget).
           case kc_unread kc of
             [] \<Rightarrow> panic
           | b # bs \<Rightarrow>
               (case cursor_byte b (kc\<lparr>kc_unread := bs, kc_offset := Suc (kc_offset kc)\<rparr>) of
                  (kc', out) \<Rightarrow>
                    and_then (update_state (\<lambda>_. (kc', budget - 1))) (\<lambda>_.
                    case out of Some v \<Rightarrow> give (ByteStep v) | None \<Rightarrow> cursor_loop fuel env))))
           ((?k, budget), w')
           (\<lambda>step ((kc', budget'), w'). world_ok w' \<and> cursor_post data kc budget step kc' budget')"
        by (simp add: wp_simps split: list.splits prod.splits)
    qed
    finally show ?thesis .
  next
    case 4
    then show ?thesis using consume [OF 4 Suc.prems(2,3)]
      by (simp add: wp_simps split: list.splits prod.splits)
  qed
qed simp

lemma cursor_next_spec:
  "cursor_at data kc \<Longrightarrow> world_ok w \<Longrightarrow>
     yields (cursor_next env) ((kc, budget), w)
       (\<lambda>step ((kc', budget'), w'). world_ok w' \<and> cursor_post data kc budget step kc' budget')"
  unfolding cursor_next_def using cursor_loop_spec [of budget "Suc budget" kc w] by (simp only: wp_simps) simp

end

section \<open>The builder\<close>

definition stored_key :: "sort_mode \<Rightarrow> descriptor \<Rightarrow> bytes \<Rightarrow> sort_error + descriptor" where
  "stored_key mode d v =
     (let d1 = fold push_prefix v d in
      if mode = SortNumeric then number_finish (fold number_push v number_default) d1 else Inr d1)"

text \<open>A builder over \<open>d\<close> that has taken \<open>v\<close> of the key so far.\<close>

definition builder_at :: "bytes \<Rightarrow> sort_mode \<Rightarrow> descriptor \<Rightarrow> bytes \<Rightarrow> key_builder \<Rightarrow> bool" where
  "builder_at data mode d v kb \<longleftrightarrow> cursor_at data (kb_cursor kb)
     \<and> kb_descriptor kb = fold push_prefix v d
     \<and> kb_number kb = (if mode = SortNumeric then fold number_push v number_default else number_default)"

definition builder_post ::
    "bytes \<Rightarrow> sort_mode \<Rightarrow> descriptor \<Rightarrow> bytes \<Rightarrow> descriptor option \<Rightarrow> key_builder \<Rightarrow> nat \<Rightarrow> bool" where
  "builder_post data mode d v r kb budget \<longleftrightarrow>
     (case r of
        Some d' \<Rightarrow> stored_key mode d v = Inr d'
      | None \<Rightarrow> budget = 0 \<and> (\<exists>u. builder_at data mode d u kb \<and> u @ kc_rest data (kb_cursor kb) = v))"

context stable_source begin

text \<open>
  A call returns the finished descriptor, yields with the budget spent and the value unchanged, or
  fails because the exponent of the number is out of range.
\<close>

lemma builder_loop_spec:
  "budget < fuel \<Longrightarrow> builder_at data mode d u kb \<Longrightarrow> world_ok w \<Longrightarrow> v = u @ kc_rest data (kb_cursor kb) \<Longrightarrow>
     case builder_loop fuel env mode ((kb, budget), w) of
       (Ok r, ((kb', budget'), w')) \<Rightarrow> world_ok w' \<and> builder_post data mode d v r kb' budget'
         \<and> length (kc_bytes data (kb_cursor kb')) + budget = length (kc_bytes data (kb_cursor kb)) + budget'
     | (Err e, _) \<Rightarrow> stored_key mode d v = Inl e
     | (Panic, _) \<Rightarrow> False"
proof (induction fuel arbitrary: kb budget w u)
  case (Suc fuel)
  have at: "cursor_at data (kb_cursor kb)" using Suc.prems(2) by (simp add: builder_at_def)
  from cursor_next_spec [OF at Suc.prems(3), of budget] obtain step kc' budget' w' where
    n: "cursor_next env ((kb_cursor kb, budget), w) = (Ok step, ((kc', budget'), w'))"
    and w: "world_ok w'" and post: "cursor_post data (kb_cursor kb) budget step kc' budget'"
    by (auto elim!: yieldsE)
  have f: "builder_cursor_next env ((kb, budget), w) = (Ok step, ((kb\<lparr>kb_cursor := kc'\<rparr>, budget'), w'))"
    by (simp add: focus_def n)
  show ?case
  proof (cases step)
    case (ByteStep b)
    define kb1 where "kb1 = kb\<lparr>kb_cursor := kc', kb_descriptor := push_prefix b (kb_descriptor kb),
      kb_number := (if mode = SortNumeric then number_push b (kb_number kb) else kb_number kb)\<rparr>"
    have kc: "kb_cursor kb1 = kc'" by (simp add: kb1_def)
    have p: "kc_rest data (kb_cursor kb) = b # kc_rest data kc'" "budget' < budget" "cursor_at data kc'"
      "length (kc_bytes data kc') + budget = length (kc_bytes data (kb_cursor kb)) + budget'"
      using post ByteStep by (simp_all add: cursor_post_def)
    have "builder_at data mode d (u @ [b]) kb1" using Suc.prems(2) p(3) by (simp add: builder_at_def kb1_def)
    moreover have "budget' < fuel" using p(2) Suc.prems(1) by simp
    moreover have "v = (u @ [b]) @ kc_rest data (kb_cursor kb1)" using p(1) Suc.prems(4) by (simp add: kc)
    ultimately have "case builder_loop fuel env mode ((kb1, budget'), w') of
       (Ok r, ((kb', budget''), w')) \<Rightarrow> world_ok w' \<and> builder_post data mode d v r kb' budget''
         \<and> length (kc_bytes data (kb_cursor kb')) + budget' = length (kc_bytes data (kb_cursor kb1)) + budget''
     | (Err e, _) \<Rightarrow> stored_key mode d v = Inl e
     | (Panic, _) \<Rightarrow> False"
      by (intro Suc.IH [OF _ _ w])
    moreover have "builder_loop (Suc fuel) env mode ((kb, budget), w) = builder_loop fuel env mode ((kb1, budget'), w')"
      by (simp add: and_then_def f ByteStep update_state_def kb1_def)
    ultimately show ?thesis using p(4) unfolding kc by (auto split: prod.splits outcome.splits)
  next
    case EndStep
    then have e: "kc_rest data (kb_cursor kb) = []"
      "budget = length (kc_bytes data (kb_cursor kb)) + budget'" "kc_bytes data kc' = []"
      using post by (auto simp add: cursor_post_def)
    then have "v = u" using Suc.prems(4) by simp
    have "builder_loop (Suc fuel) env mode ((kb, budget), w) =
      with_state (\<lambda>(kb, budget).
             if mode = SortNumeric then
               (case number_finish (kb_number kb) (kb_descriptor kb) of
                  Inl e \<Rightarrow>
                    and_then (update_state (\<lambda>(kb, budget).
                        (kb\<lparr>kb_descriptor := (kb_descriptor kb)\<lparr>ds_group := 1\<rparr>\<rparr>, budget))) (\<lambda>_. fail e)
                | Inr d \<Rightarrow>
                    and_then (update_state (\<lambda>(kb, budget). (kb\<lparr>kb_descriptor := d\<rparr>, budget)))
                      (\<lambda>_. give (Some d)))
             else give (Some (kb_descriptor kb))) ((kb\<lparr>kb_cursor := kc'\<rparr>, budget'), w')"
      by (simp add: and_then_def f EndStep)
    with Suc.prems(2) w e(2,3) \<open>v = u\<close> show ?thesis
      by (auto simp: and_then_def with_state_def update_state_def give_def fail_def builder_at_def
          builder_post_def stored_key_def Let_def split: sum.split)
  next
    case YieldStep
    then have p: "kc_rest data kc' = kc_rest data (kb_cursor kb)" "budget' = 0" "cursor_at data kc'"
      "length (kc_bytes data kc') + budget = length (kc_bytes data (kb_cursor kb)) + budget'"
      using post by (simp_all add: cursor_post_def)
    then have "builder_at data mode d u (kb\<lparr>kb_cursor := kc'\<rparr>)" using Suc.prems(2) by (simp add: builder_at_def)
    with p Suc.prems(4) w show ?thesis
      by (auto simp: and_then_def f YieldStep give_def builder_post_def)
  qed
qed simp

end

section \<open>What is stored\<close>

lemma push_prefix_other:
  "fold push_prefix v d = d\<lparr>ds_prefix := ds_prefix (fold push_prefix v d), ds_len := ds_len (fold push_prefix v d)\<rparr>"
proof (induction v arbitrary: d)
  case (Cons b v)
  show ?case
    by (simp only: fold_Cons o_apply, subst Cons.IH) (simp add: push_prefix_def Let_def)
qed simp

lemma stores_prefix_fold:
  "stores_prefix d u \<Longrightarrow> stores_prefix (fold push_prefix v d) (u @ v)"
  by (induction v arbitrary: d u) (simp, metis push_prefix_stores append_Cons append_Nil append_assoc fold_simps(2))

lemma finish_scanned:
  assumes "scanned dc n"
  shows "number_finish n d =
    (if decimal_nat (dc_exponent dc) > i64_max then Inl NumericRange
     else Inr (d\<lparr>ds_group := 0, ds_leading := leading_zeros (dc_digits dc), ds_digits := length (dc_digits dc),
            ds_sign := dc_sign dc, ds_magnitude := dc_magnitude dc\<rparr>))"
proof -
  have st: "nu_state n \<in> {2, 3, 6, 7}" "\<not> nu_invalid n" "nu_digits n > 0"
    "nu_state n = 6 \<longrightarrow> nu_exp_digits n \<noteq> 0"
    using assms unfolding scanned_def by blast+
  have ok: "\<not> (nu_invalid n \<or> nu_digits n = 0 \<or> nu_state n \<in> {1, 4, 5} \<or> nu_exp_digits n = 0 \<and> nu_state n = 6)"
    using st by auto
  have f: "nu_digits n = length (dc_digits dc)" "nu_before_dot n = length (dc_integer dc)"
      "nu_leading n = leading_zeros (dc_digits dc)" "nu_significant n = (\<exists>b \<in> set (dc_digits dc). b \<noteq> 48)"
      "nu_negative n = dc_negative dc" "nu_exp_negative n = dc_exp_negative dc"
      "nu_exp_overflow n = (decimal_nat (dc_exponent dc) > i64_max)"
    and e: "decimal_nat (dc_exponent dc) \<le> i64_max \<longrightarrow> nu_exp n = decimal_nat (dc_exponent dc)"
    using assms unfolding scanned_def by blast+
  have sign: "(if \<not> nu_significant n then 0 else if nu_negative n then - 1 else 1) = dc_sign dc"
    by (simp add: f dc_sign_def)
  have mag: "int (nu_before_dot n) - int (nu_leading n) + int (nu_exp n) * (if nu_exp_negative n then - 1 else 1)
      = dc_magnitude dc" if "\<not> nu_exp_overflow n"
    using that e by (simp add: f dc_magnitude_def signed_def)
  have "number_finish n d =
    (if nu_exp_overflow n then Inl NumericRange
     else Inr (d\<lparr>ds_group := 0, ds_leading := nu_leading n, ds_digits := nu_digits n,
             ds_sign := (if \<not> nu_significant n then 0 else if nu_negative n then -1 else 1),
             ds_magnitude := int (nu_before_dot n) - int (nu_leading n)
               + int (nu_exp n) * (if nu_exp_negative n then -1 else 1)\<rparr>))"
    unfolding number_finish_def Let_def if_not_P [OF ok] by simp
  with mag show ?thesis unfolding sign f(1,3) unfolding f(7) by auto
qed

lemma stored_key_stores:
  assumes "ds_len d = 0" "length (ds_prefix d) = 32" "stored_key mode d v = Inr d'"
  shows "stores_key mode d' v"
    and "d' = d\<lparr>ds_prefix := ds_prefix d', ds_len := ds_len d', ds_group := ds_group d', ds_sign := ds_sign d',
      ds_magnitude := ds_magnitude d', ds_leading := ds_leading d', ds_digits := ds_digits d'\<rparr>"
proof -
  have "stores_prefix d []" using assms(1,2) by (simp add: stores_prefix_def)
  from stores_prefix_fold [OF this, of v] have p: "stores_prefix (fold push_prefix v d) v" by simp
  define d1 where "d1 = fold push_prefix v d"
  from p have p: "stores_prefix d1 v" by (simp add: d1_def)
  then have len: "ds_len d1 = 0 \<longleftrightarrow> v = []" by (simp add: stores_prefix_def)
  have keep: "d1 = d\<lparr>ds_prefix := ds_prefix d1, ds_len := ds_len d1\<rparr>" unfolding d1_def by (rule push_prefix_other)
  have d: "d' = d1\<lparr>ds_group := ds_group d', ds_sign := ds_sign d', ds_magnitude := ds_magnitude d',
      ds_leading := ds_leading d', ds_digits := ds_digits d'\<rparr>"
    using assms(3) unfolding stored_key_def d1_def [symmetric]
    by (auto simp: number_finish_def Let_def split: if_splits)
  have same: "ds_row d' = ds_row d1" "ds_start d' = ds_start d1" "ds_end d' = ds_end d1"
    "ds_key_start d' = ds_key_start d1" "ds_key_end d' = ds_key_end d1" "ds_quoted d' = ds_quoted d1"
    "ds_prefix d' = ds_prefix d1" "ds_len d' = ds_len d1" by (subst d, simp)+
  have same1: "ds_row d1 = ds_row d" "ds_start d1 = ds_start d" "ds_end d1 = ds_end d"
    "ds_key_start d1 = ds_key_start d" "ds_key_end d1 = ds_key_end d" "ds_quoted d1 = ds_quoted d"
    by (subst keep, simp)+
  have p': "stores_prefix d' v" using p by (simp add: stores_prefix_def same(7,8))
  show "stores_key mode d' v"
  proof (cases "mode = SortNumeric")
    case True
    let ?n = "fold number_push v number_default"
    have fin: "number_finish ?n d1 = Inr d'" using assms(3) True by (simp add: stored_key_def d1_def)
    show ?thesis
    proof (cases "decimal_parse v")
      case None
      with number_scan [of v] have r: "rejected ?n"
        "(nu_state ?n = 0 \<and> \<not> nu_invalid ?n) = is_blank v" by simp_all
      have "v = [] \<Longrightarrow> is_blank v" by (simp add: is_blank_def)
      with fin finish_rejected [OF r(1), of d1] len r(2) have "ds_group d' = key_class v"
        by (auto simp: key_class_def None)
      with p' None show ?thesis by (simp add: stores_key_def)
    next
      case (Some dc)
      with number_scan [of v] have sc: "scanned dc ?n" by simp
      have "d' = d1\<lparr>ds_group := 0, ds_leading := leading_zeros (dc_digits dc), ds_digits := length (dc_digits dc),
          ds_sign := dc_sign dc, ds_magnitude := dc_magnitude dc\<rparr>"
        using fin unfolding finish_scanned [OF sc] by (simp split: if_splits)
      then have "ds_group d' = 0 \<and> ds_leading d' = leading_zeros (dc_digits dc) \<and> ds_sign d' = dc_sign dc
          \<and> ds_magnitude d' = dc_magnitude dc" by simp
      with p' Some show ?thesis by (simp add: stores_key_def key_class_def)
    qed
  qed (simp add: stores_key_def p')
  show "d' = d\<lparr>ds_prefix := ds_prefix d', ds_len := ds_len d', ds_group := ds_group d', ds_sign := ds_sign d',
      ds_magnitude := ds_magnitude d', ds_leading := ds_leading d', ds_digits := ds_digits d'\<rparr>"
    by (rule descriptor.equality) (simp_all add: same(1-6) same1)
qed

end
