(* ===== verification/Sort_Locate.thy ===== *)
theory Sort_Locate imports Sort_Extract begin

section \<open>The field a key comes from\<close>

text \<open>
  The key of a record: the field of its column as the projection shows it, or nothing when the record
  has no such field; a record without fields (a line) is its only field.
\<close>

definition key_field :: "viewport_format \<Rightarrow> nat \<Rightarrow> bytes \<Rightarrow> csv_field" where
  "key_field fmt target bs =
     (case fmt of
        Delimited d \<Rightarrow>
          if target < length (csv_fields d bs) then csv_fields d bs ! target else field_at (length bs)
      | Lines \<Rightarrow>
          if target = 0
          then \<lparr>cf_start = 0, cf_end = length bs, cf_value = bs, cf_quoted = False, cf_escaped = False\<rparr>
          else field_at (length bs))"

text \<open>The value of a field is what the cursor delivers over its raw bytes.\<close>

definition cursor_flags :: "bool \<Rightarrow> bool \<Rightarrow> bool \<Rightarrow> u8 \<Rightarrow> key_cursor" where
  "cursor_flags first quoted shut q =
     \<lparr>kc_offset = 0, kc_end = 0, kc_unread = [], kc_quoted = quoted, kc_closed = shut, kc_first = first,
      kc_quote = q\<rparr>"

lemma cursor_byte_flags:
  "cursor_byte b (cursor_flags first quoted shut q) =
     (if first \<and> quoted then (cursor_flags False quoted shut q, None)
      else if quoted then
        (if shut then (if b = q then (cursor_flags False True False q, Some b) else (cursor_flags False False False q, Some b))
         else if b = q then (cursor_flags False True True q, None) else (cursor_flags False quoted shut q, Some b))
      else (cursor_flags False quoted shut q, Some b))"
  by (simp add: cursor_byte_def cursor_flags_def Let_def)

fun cursor_state :: "key_cursor \<Rightarrow> bytes \<Rightarrow> key_cursor" where
  "cursor_state kc [] = kc"
| "cursor_state kc (b # bs) = cursor_state (fst (cursor_byte b kc)) bs"

lemma cursor_values_append:
  "cursor_values kc (xs @ ys) = cursor_values kc xs @ cursor_values (cursor_state kc xs) ys"
  by (induction kc xs rule: cursor_values.induct) (simp_all split: prod.splits option.splits)

lemma cursor_state_append: "cursor_state kc (xs @ ys) = cursor_state (cursor_state kc xs) ys"
  by (induction xs arbitrary: kc) simp_all

text \<open>\<open>raw\<close> holds the bytes of the field \<open>f\<close> so far, in the parser state \<open>st\<close>.\<close>

definition decodes :: "u8 \<Rightarrow> field_state \<Rightarrow> bytes \<Rightarrow> bytes \<Rightarrow> bool \<Rightarrow> bool" where
  "decodes q st raw v quoted \<longleftrightarrow>
     cursor_values (cursor_flags True quoted False q) raw = v
   \<and> (case st of
        FsStart \<Rightarrow> raw = [] \<and> \<not> quoted
      | FsUnquoted \<Rightarrow> \<exists>first. cursor_state (cursor_flags True quoted False q) raw = cursor_flags first False False q
      | FsQuoted \<Rightarrow> quoted \<and> cursor_state (cursor_flags True True False q) raw = cursor_flags False True False q
      | FsQuoteClosed \<Rightarrow> quoted \<and> cursor_state (cursor_flags True True False q) raw = cursor_flags False True True q)"

lemma decodes_step:
  assumes "decodes q st raw v quoted"
  shows "st = FsQuoted \<Longrightarrow> b = q \<Longrightarrow> decodes q FsQuoteClosed (raw @ [b]) v quoted"
    "st = FsQuoted \<Longrightarrow> b \<noteq> q \<Longrightarrow> decodes q FsQuoted (raw @ [b]) (v @ [b]) quoted"
    "st = FsStart \<Longrightarrow> b = q \<Longrightarrow> decodes q FsQuoted (raw @ [b]) v True"
    "st = FsQuoteClosed \<Longrightarrow> b = q \<Longrightarrow> decodes q FsQuoted (raw @ [b]) (v @ [b]) quoted"
    "st = FsQuoteClosed \<Longrightarrow> b \<noteq> q \<Longrightarrow> decodes q FsUnquoted (raw @ [b]) (v @ [b]) quoted"
    "st = FsUnquoted \<Longrightarrow> decodes q FsUnquoted (raw @ [b]) (v @ [b]) quoted"
    "st = FsStart \<Longrightarrow> b \<noteq> q \<Longrightarrow> decodes q FsUnquoted (raw @ [b]) (v @ [b]) quoted"
  using assms
  by (auto simp: decodes_def cursor_values_append cursor_state_append cursor_byte_flags)

lemma walk_decodes:
  assumes "decodes (quote d) st raw (cf_value f) (cf_quoted f)"
    and "raw = take (cf_end f - cf_start f) (drop (cf_start f) all)" "bs = drop (cf_end f) all"
    and "cf_start f \<le> cf_end f" "cf_end f \<le> length all" "g \<in> set (csv_field_walk d st f bs)"
  shows "cf_start g \<le> cf_end g \<and> cf_end g \<le> length all
    \<and> cursor_values (cursor_flags True (cf_quoted g) False (quote d))
        (take (cf_end g - cf_start g) (drop (cf_start g) all)) = cf_value g"
  using assms
proof (induction bs arbitrary: st f raw)
  case Nil
  then show ?case by (simp add: decodes_def)
next
  case (Cons b bs)
  let ?more = "f\<lparr>cf_end := Suc (cf_end f)\<rparr>"
  have lt: "cf_end f < length all" and tail: "bs = drop (Suc (cf_end f)) all" and b: "b = all ! cf_end f"
    using Cons.prems(3) by (metis drop_all list.discI not_le, metis drop_Suc list.sel(3) tl_drop,
        metis hd_drop_conv_nth drop_all list.discI list.sel(1) not_le)
  have raw: "raw @ [b] = take (Suc (cf_end f) - cf_start f) (drop (cf_start f) all)"
    using Cons.prems(2,4) lt b by (simp add: Suc_diff_le take_Suc_conv_app_nth)
  have stay: ?case
    if "decodes (quote d) st' (raw @ [b]) (cf_value g') (cf_quoted g')" "g \<in> set (csv_field_walk d st' g' bs)"
      "cf_start g' = cf_start f" "cf_end g' = Suc (cf_end f)" for st' g'
    using Cons.IH [OF that(1) _ _ _ _ that(2)] raw tail Cons.prems(4) lt by (simp add: that(3,4))
  note step = decodes_step [OF Cons.prems(1), of b]
  show ?case
  proof (cases "st \<noteq> FsQuoted \<and> b \<noteq> quote d \<and> b = delimiter d
      \<or> st \<in> {FsUnquoted, FsQuoteClosed} \<and> b = delimiter d")
    case True
    then have w: "csv_field_walk d st f (b # bs) = f # csv_field_walk d FsStart (field_at (Suc (cf_end f))) bs"
      by (cases st) (auto simp: field_at_def Let_def)
    show ?thesis
    proof (cases "g = f")
      case True
      with Cons.prems(1,2,4,5) show ?thesis by (simp add: decodes_def)
    next
      case False
      with w Cons.prems(6) have "g \<in> set (csv_field_walk d FsStart (field_at (Suc (cf_end f))) bs)" by simp
      moreover have "decodes (quote d) FsStart [] [] False" by (simp add: decodes_def)
      ultimately show ?thesis
        using Cons.IH [of FsStart "[]" "field_at (Suc (cf_end f))"] tail lt by (simp add: field_at_def)
    qed
  next
    case False
    show ?thesis
    proof (cases st)
      case FsStart
      show ?thesis
      proof (cases "b = quote d")
        case True
        with Cons.prems(6) FsStart show ?thesis
          by (intro stay [of FsQuoted "?more\<lparr>cf_quoted := True\<rparr>"]) (use step(3) [OF FsStart True] in simp_all)
      next
        case b: False
        with Cons.prems(6) FsStart False show ?thesis
          by (intro stay [of FsUnquoted "?more\<lparr>cf_value := cf_value f @ [b]\<rparr>"]) (use step(7) [OF FsStart b] in simp_all)
      qed
    next
      case FsUnquoted
      with Cons.prems(6) False show ?thesis
        by (intro stay [of FsUnquoted "?more\<lparr>cf_value := cf_value f @ [b]\<rparr>"]) (use step(6) [OF FsUnquoted] in simp_all)
    next
      case FsQuoted
      show ?thesis
      proof (cases "b = quote d")
        case True
        with Cons.prems(6) FsQuoted show ?thesis
          by (intro stay [of FsQuoteClosed ?more]) (use step(1) [OF FsQuoted True] in simp_all)
      next
        case b: False
        with Cons.prems(6) FsQuoted show ?thesis
          by (intro stay [of FsQuoted "?more\<lparr>cf_value := cf_value f @ [b]\<rparr>"]) (use step(2) [OF FsQuoted b] in simp_all)
      qed
    next
      case FsQuoteClosed
      show ?thesis
      proof (cases "b = quote d")
        case True
        with Cons.prems(6) FsQuoteClosed False show ?thesis
          by (intro stay [of FsQuoted "?more\<lparr>cf_value := cf_value f @ [b], cf_escaped := True\<rparr>"])
            (use step(4) [OF FsQuoteClosed True] in simp_all)
      next
        case b: False
        with Cons.prems(6) FsQuoteClosed False show ?thesis
          by (intro stay [of FsUnquoted "?more\<lparr>cf_value := cf_value f @ [b]\<rparr>"]) (use step(5) [OF FsQuoteClosed b] in simp_all)
      qed
    qed
  qed
qed

lemma field_decodes:
  assumes "g \<in> set (csv_fields d bs)"
  shows "cf_start g \<le> cf_end g \<and> cf_end g \<le> length bs
    \<and> cursor_values (cursor_flags True (cf_quoted g) False (quote d))
        (take (cf_end g - cf_start g) (drop (cf_start g) bs)) = cf_value g"
  by (rule walk_decodes [where st = FsStart and raw = "[]" and f = "field_at 0" and bs = bs])
    (use assms in \<open>simp_all add: decodes_def field_at_def csv_fields_def\<close>)

lemma plain_cursor_values: "cursor_values (cursor_flags True False False q) bs = bs"
proof -
  have "cursor_values (cursor_flags first False False q) bs = bs" for first
    by (induction bs arbitrary: first) (simp_all add: cursor_byte_flags)
  then show ?thesis .
qed

lemma key_field_decodes:
  defines "f fmt t bs \<equiv> key_field fmt t bs"
  shows "cf_start (f fmt t bs) \<le> cf_end (f fmt t bs)" "cf_end (f fmt t bs) \<le> length bs"
    "cursor_values (cursor_flags True (cf_quoted (f fmt t bs)) False (format_quote fmt))
        (take (cf_end (f fmt t bs) - cf_start (f fmt t bs)) (drop (cf_start (f fmt t bs)) bs)) = cf_value (f fmt t bs)"
proof -
  have "cf_start (f fmt t bs) \<le> cf_end (f fmt t bs) \<and> cf_end (f fmt t bs) \<le> length bs
    \<and> cursor_values (cursor_flags True (cf_quoted (f fmt t bs)) False (format_quote fmt))
        (take (cf_end (f fmt t bs) - cf_start (f fmt t bs)) (drop (cf_start (f fmt t bs)) bs)) = cf_value (f fmt t bs)"
  proof (cases fmt)
    case (Delimited d)
    show ?thesis
    proof (cases "t < length (csv_fields d bs)")
      case True
      then have "f fmt t bs = csv_fields d bs ! t" by (simp add: f_def key_field_def Delimited)
      with field_decodes [OF nth_mem [OF True]] show ?thesis by (simp add: format_quote_def Delimited)
    next
      case False
      then have "f fmt t bs = field_at (length bs)" by (simp add: f_def key_field_def Delimited)
      then show ?thesis by (simp add: field_at_def)
    qed
  next
    case Lines
    then show ?thesis by (simp add: f_def key_field_def field_at_def plain_cursor_values)
  qed
  then show "cf_start (f fmt t bs) \<le> cf_end (f fmt t bs)" "cf_end (f fmt t bs) \<le> length bs"
    "cursor_values (cursor_flags True (cf_quoted (f fmt t bs)) False (format_quote fmt))
        (take (cf_end (f fmt t bs) - cf_start (f fmt t bs)) (drop (cf_start (f fmt t bs)) bs)) = cf_value (f fmt t bs)"
    by blast+
qed

section \<open>The locator\<close>

text \<open>The descriptor the locator returns for the remaining bytes of the record.\<close>

fun located :: "locator \<Rightarrow> bytes \<Rightarrow> descriptor" where
  "located lo [] =
     (if lo_column lo = lo_target lo
      then (lo_descriptor lo)\<lparr>ds_key_start := lo_field_start lo, ds_key_end := lo_cursor lo\<rparr>
      else (lo_descriptor lo)\<lparr>ds_key_start := lo_cursor lo, ds_key_end := lo_cursor lo\<rparr>)"
| "located lo (b # bs) =
     (case locate_byte b lo of (lo', found) \<Rightarrow> if found then lo_descriptor lo' else located lo' bs)"

definition field_state_of :: "locator_state \<Rightarrow> field_state" where
  "field_state_of s = (case s of LsStart \<Rightarrow> FsStart | LsUnquoted \<Rightarrow> FsUnquoted | LsQuoted \<Rightarrow> FsQuoted
     | LsClosed \<Rightarrow> FsQuoteClosed)"

definition locates :: "nat \<Rightarrow> csv_dialect \<Rightarrow> locator \<Rightarrow> csv_field \<Rightarrow> bool" where
  "locates base d lo f \<longleftrightarrow> lo_delimiter lo = Some (delimiter d) \<and> lo_quote lo = quote d
     \<and> lo_cursor lo = base + cf_end f \<and> lo_field_start lo = base + cf_start f \<and> lo_column lo \<le> lo_target lo
     \<and> ds_quoted (lo_descriptor lo) = (lo_column lo = lo_target lo \<and> cf_quoted f)
     \<and> (lo_state lo = LsStart \<longrightarrow> \<not> cf_quoted f)"

definition key_extent :: "descriptor \<Rightarrow> nat \<Rightarrow> csv_field \<Rightarrow> descriptor" where
  "key_extent d base f = d\<lparr>ds_key_start := base + cf_start f, ds_key_end := base + cf_end f, ds_quoted := cf_quoted f\<rparr>"

lemma located_walk:
  assumes "quote d \<noteq> delimiter d" "locates base d lo f"
  shows "located lo bs =
    (let fs = csv_field_walk d (field_state_of (lo_state lo)) f bs; t = lo_target lo - lo_column lo in
     key_extent (lo_descriptor lo) base (if t < length fs then fs ! t else field_at (cf_end f + length bs)))"
  using assms(2)
proof (induction bs arbitrary: lo f)
  case Nil
  then show ?case
    by (cases "lo_descriptor lo") (auto simp: locates_def key_extent_def field_at_def Let_def)
next
  case (Cons b bs)
  let ?more = "f\<lparr>cf_end := Suc (cf_end f)\<rparr>"
  obtain lo' found where lb: "locate_byte b lo = (lo', found)" by fastforce
  have stay: ?case
    if "\<not> found" "locates base d lo' f'" "lo_target lo' = lo_target lo" "lo_column lo' = lo_column lo"
      "\<And>g. key_extent (lo_descriptor lo') base g = key_extent (lo_descriptor lo) base g" "cf_end f' = Suc (cf_end f)"
      "csv_field_walk d (field_state_of (lo_state lo)) f (b # bs) = csv_field_walk d (field_state_of (lo_state lo')) f' bs"
    for f'
    using Cons.IH [OF that(2)] that lb by (simp add: Let_def)
  note at = Cons.prems [unfolded locates_def]
  note defs = locates_def locate_byte_def Let_def field_state_of_def key_extent_def
  show ?case
  proof (cases "b = quote d \<and> lo_state lo \<noteq> LsUnquoted \<or> lo_state lo = LsQuoted")
    case True
    then consider "lo_state lo = LsStart" "b = quote d" | "lo_state lo = LsQuoted" "b = quote d"
      | "lo_state lo = LsQuoted" "b \<noteq> quote d" | "lo_state lo = LsClosed" "b = quote d"
      by (cases "lo_state lo") auto
    then show ?thesis
    proof cases
      case 1
      with at lb show ?thesis
        by (intro stay [of "?more\<lparr>cf_quoted := True\<rparr>"]; cases "lo_column lo = lo_target lo") (auto simp: defs)
    next
      case 2
      with at lb show ?thesis by (intro stay [of ?more]) (auto simp: defs)
    next
      case 3
      with at lb show ?thesis
        by (intro stay [of "?more\<lparr>cf_value := cf_value f @ [b]\<rparr>"]) (auto simp: defs)
    next
      case 4
      with at lb assms(1) show ?thesis
        by (intro stay [of "?more\<lparr>cf_value := cf_value f @ [b], cf_escaped := True\<rparr>"]) (auto simp: defs)
    qed
  next
    case plain: False
    show ?thesis
    proof (cases "b = delimiter d")
      case True
      have w: "csv_field_walk d (field_state_of (lo_state lo)) f (b # bs)
          = f # csv_field_walk d FsStart (field_at (Suc (cf_end f))) bs"
        using plain True by (cases "lo_state lo") (auto simp: field_state_of_def Let_def field_at_def)
      show ?thesis
      proof (cases "lo_column lo = lo_target lo")
        case t: True
        with at lb plain True have "found"
          "lo_descriptor lo' = (lo_descriptor lo)\<lparr>ds_key_start := base + cf_start f, ds_key_end := base + cf_end f\<rparr>"
          by (auto simp: locate_byte_def Let_def)
        with at t lb show ?thesis unfolding w
          by (cases "lo_descriptor lo") (simp add: key_extent_def Let_def)
      next
        case t: False
        with at lb plain True have l: "\<not> found" "lo' = lo\<lparr>lo_cursor := Suc (lo_cursor lo), lo_column := Suc (lo_column lo),
            lo_field_start := Suc (lo_cursor lo), lo_state := LsStart\<rparr>"
          by (auto simp: locate_byte_def Let_def)
        with at t have n: "locates base d lo' (field_at (Suc (cf_end f)))"
          by (auto simp: locates_def field_at_def)
        have "field_state_of (lo_state lo') = FsStart" using l by (simp add: field_state_of_def)
        moreover have "lo_column lo < lo_target lo" using at t by (simp add: le_neq_implies_less)
        then have "lo_target lo - lo_column lo = Suc (lo_target lo' - lo_column lo')" using l by simp
        moreover have "lo_descriptor lo' = lo_descriptor lo" using l by simp
        ultimately show ?thesis using Cons.IH [OF n] l(1) lb unfolding w
          by (simp add: Let_def) (simp add: field_at_def)
      qed
    next
      case False
      with at lb plain show ?thesis
        by (intro stay [of "?more\<lparr>cf_value := cf_value f @ [b]\<rparr>"]) (cases "lo_state lo"; auto simp: defs)+
    qed
  qed
qed

lemma located_new:
  assumes "\<And>d. fmt = Delimited d \<Longrightarrow> quote d \<noteq> delimiter d"
  shows "located (locator_new row sp fmt target) bs
    = key_extent (descriptor_new row sp) (span_start sp) (key_field fmt target bs)"
proof (cases fmt)
  case (Delimited d)
  let ?lo = "locator_new row sp fmt target"
  have "locates (span_start sp) d ?lo (field_at 0)"
    by (simp add: locates_def locator_new_def Delimited format_quote_def field_at_def descriptor_new_def)
  from located_walk [OF assms [OF Delimited] this, of bs] show ?thesis
    by (simp add: Let_def key_field_def Delimited csv_fields_def field_state_of_def)
      (simp add: locator_new_def field_at_def)
next
  case Lines
  have line: "located lo bs = (if lo_column lo = lo_target lo
      then (lo_descriptor lo)\<lparr>ds_key_start := lo_field_start lo, ds_key_end := lo_cursor lo + length bs\<rparr>
      else (lo_descriptor lo)\<lparr>ds_key_start := lo_cursor lo + length bs, ds_key_end := lo_cursor lo + length bs\<rparr>)"
    if "lo_delimiter lo = None" for lo
    using that by (induction bs arbitrary: lo) (simp_all add: locate_byte_def Let_def)
  show ?thesis by (subst line) (simp_all add: locator_new_def Lines key_field_def key_extent_def
      descriptor_new_def field_at_def)
qed

section \<open>The locator over a source\<close>

definition lo_rest :: "bytes \<Rightarrow> locator \<Rightarrow> bytes" where
  "lo_rest data lo = take (ds_end (lo_descriptor lo) - lo_cursor lo) (drop (lo_cursor lo) data)"

definition locator_at :: "bytes \<Rightarrow> locator \<Rightarrow> bool" where
  "locator_at data lo \<longleftrightarrow> lo_cursor lo \<le> ds_end (lo_descriptor lo) \<and> ds_end (lo_descriptor lo) \<le> length data"

lemma locate_byte_fields:
  "locate_byte b lo = (lo', found) \<Longrightarrow> \<not> found \<Longrightarrow>
     lo_cursor lo' = Suc (lo_cursor lo) \<and> ds_end (lo_descriptor lo') = ds_end (lo_descriptor lo)"
  by (auto simp: locate_byte_def Let_def split: if_splits)

lemma locate_bytes_spec:
  assumes "locate_bytes bs lo budget = (lo', budget', found)" "length bs \<le> budget"
  shows "found \<Longrightarrow> located lo (bs @ rest) = lo_descriptor lo'"
    and "\<not> found \<Longrightarrow> located lo (bs @ rest) = located lo' rest \<and> budget' = budget - length bs
      \<and> lo_cursor lo' = lo_cursor lo + length bs \<and> ds_end (lo_descriptor lo') = ds_end (lo_descriptor lo)"
proof -
  have "(found \<longrightarrow> located lo (bs @ rest) = lo_descriptor lo')
    \<and> (\<not> found \<longrightarrow> located lo (bs @ rest) = located lo' rest \<and> budget' = budget - length bs
      \<and> lo_cursor lo' = lo_cursor lo + length bs \<and> ds_end (lo_descriptor lo') = ds_end (lo_descriptor lo))"
    using assms
  proof (induction bs arbitrary: lo budget)
    case (Cons b bs)
    obtain l f where l: "locate_byte b lo = (l, f)" by fastforce
    show ?case
    proof (cases f)
      case True
      with Cons.prems l show ?thesis by simp
    next
      case False
      with Cons.prems l have "locate_bytes bs l (budget - 1) = (lo', budget', found)" "length bs \<le> budget - 1" by auto
      from Cons.IH [OF this] locate_byte_fields [OF l False] l False show ?thesis by auto
    qed
  qed simp
  then show "found \<Longrightarrow> located lo (bs @ rest) = lo_descriptor lo'"
    "\<not> found \<Longrightarrow> located lo (bs @ rest) = located lo' rest \<and> budget' = budget - length bs
      \<and> lo_cursor lo' = lo_cursor lo + length bs \<and> ds_end (lo_descriptor lo') = ds_end (lo_descriptor lo)" by blast+
qed

lemma locate_bytes_budget: "locate_bytes bs lo budget = (lo', budget', found) \<Longrightarrow> budget' \<le> budget"
proof (induction bs arbitrary: lo budget)
  case (Cons b bs)
  obtain l f where l: "locate_byte b lo = (l, f)" by fastforce
  show ?case
  proof (cases f)
    case True
    with Cons.prems l have "budget' = budget - 1" by simp
    then show ?thesis by simp
  next
    case False
    with Cons.prems l have "locate_bytes bs l (budget - 1) = (lo', budget', found)" by simp
    from Cons.IH [OF this] show ?thesis by simp
  qed
qed simp

definition locator_post ::
    "bytes \<Rightarrow> locator \<Rightarrow> nat \<Rightarrow> descriptor option \<Rightarrow> locator \<Rightarrow> nat \<Rightarrow> bool" where
  "locator_post data lo budget r lo' budget' \<longleftrightarrow>
     (case r of
        Some d \<Rightarrow> d = located lo (lo_rest data lo) \<and> budget' \<le> budget
      | None \<Rightarrow> budget' = 0 \<and> locator_at data lo' \<and> located lo' (lo_rest data lo') = located lo (lo_rest data lo)
          \<and> lo_cursor lo' = lo_cursor lo + budget \<and> ds_end (lo_descriptor lo') = ds_end (lo_descriptor lo))"

context stable_source begin

lemma locator_loop_spec:
  "budget < fuel \<Longrightarrow> locator_at data lo \<Longrightarrow> world_ok w \<Longrightarrow>
     yields (locator_loop fuel env) ((lo, budget), w)
       (\<lambda>r ((lo', budget'), w'). world_ok w' \<and> locator_post data lo budget r lo' budget')"
proof (induction fuel arbitrary: lo budget w)
  case (Suc fuel)
  let ?stop = "ds_end (lo_descriptor lo)"
  consider "lo_cursor lo < ?stop" "0 < budget" | "lo_cursor lo = ?stop" | "lo_cursor lo < ?stop" "budget = 0"
    using Suc.prems(2) unfolding locator_at_def by linarith
  then show ?case
  proof cases
    case 1
    let ?n = "min (min budget 4096) (?stop - lo_cursor lo)"
    have r: "lo_cursor lo < length data" "0 < ?n" "lo_cursor lo + ?n \<le> length data"
      using 1 Suc.prems(2) by (auto simp: locator_at_def)
    have "yields (locator_loop (Suc fuel) env) ((lo, budget), w)
        (\<lambda>r ((lo', budget'), w'). world_ok w' \<and> locator_post data lo budget r lo' budget')
      = yields (checked_read env (lo_cursor lo) ?n) w
        (\<lambda>bs w'. case locate_bytes bs lo budget of (lo', budget', found) \<Rightarrow>
            yields (if found then give (Some (lo_descriptor lo')) else locator_loop fuel env) ((lo', budget'), w')
              (\<lambda>r ((lo', budget'), w'). world_ok w' \<and> locator_post data lo budget r lo' budget'))"
      using 1 by (simp add: wp_simps Let_def case_prod_beta)
    also have "\<dots>"
    proof (rule yields_weaken [OF checked_read_yields [OF Suc.prems(3) r]])
      fix bs w'
      assume bs: "world_ok w' \<and> bs \<noteq> [] \<and> length bs \<le> ?n \<and> bs = take (length bs) (drop (lo_cursor lo) data)"
      obtain lo' budget' found where l: "locate_bytes bs lo budget = (lo', budget', found)" by (metis prod_cases3)
      have le: "length bs \<le> budget" "length bs \<le> ?stop - lo_cursor lo" "bs \<noteq> []" using bs by auto
      define rest where "rest = drop (length bs) (lo_rest data lo)"
      have "take (length bs) (lo_rest data lo) = bs"
        using bs le(2) by (simp add: lo_rest_def min_absorb1)
      then have split: "lo_rest data lo = bs @ rest" unfolding rest_def by (metis append_take_drop_id)
      note spec = locate_bytes_spec [OF l le(1), of rest]
      show "case locate_bytes bs lo budget of (lo', budget', found) \<Rightarrow>
            yields (if found then give (Some (lo_descriptor lo')) else locator_loop fuel env) ((lo', budget'), w')
              (\<lambda>r ((lo', budget'), w'). world_ok w' \<and> locator_post data lo budget r lo' budget')"
      proof (cases found)
        case True
        have "budget' \<le> budget" by (rule locate_bytes_budget [OF l])
        with True spec(1) bs l split show ?thesis by (simp add: wp_simps locator_post_def)
      next
        case False
        note s = spec(2) [OF False]
        have rest: "lo_rest data lo' = rest" unfolding rest_def lo_rest_def using s le(2)
          by (simp add: drop_take add.commute)
        have "locator_at data lo'" using s le(2) 1 Suc.prems(2) by (simp add: locator_at_def)
        moreover have "budget' < fuel" using s le Suc.prems(1) 1 by (cases bs) auto
        ultimately have "yields (locator_loop fuel env) ((lo', budget'), w')
          (\<lambda>r ((lo2, budget2), w2). world_ok w2 \<and> locator_post data lo' budget' r lo2 budget2)"
          using bs by (intro Suc.IH) simp_all
        then have "yields (locator_loop fuel env) ((lo', budget'), w')
          (\<lambda>r ((lo2, budget2), w2). world_ok w2 \<and> locator_post data lo budget r lo2 budget2)"
          by (rule yields_weaken) (use s le rest split in
            \<open>auto simp: locator_post_def split: option.splits\<close>)
        with False l show ?thesis by simp
      qed
    qed
    finally show ?thesis .
  next
    case 2
    then have "lo_rest data lo = []" by (simp add: lo_rest_def)
    with 2 Suc.prems show ?thesis
      by (auto simp add: wp_simps Let_def locator_post_def)
  next
    case 3
    with Suc.prems show ?thesis by (simp add: wp_simps Let_def locator_post_def)
  qed
qed simp

lemma locator_advance_spec:
  "locator_at data lo \<Longrightarrow> world_ok w \<Longrightarrow>
     yields (locator_advance env) ((lo, budget), w)
       (\<lambda>r ((lo', budget'), w'). world_ok w' \<and> locator_post data lo budget r lo' budget')"
  unfolding locator_advance_def using locator_loop_spec [of budget "Suc budget" lo w]
  by (simp only: wp_simps) simp

end

end
