(* ===== verification/Sort_Compare.thy ===== *)
theory Sort_Compare imports Sort_Locate begin

text \<open>
  Comparing whole keys over an unchanged source: a comparison resumed over any number of calls, with
  any budgets and short reads, ends with the order of the keys.
\<close>

section \<open>The digits\<close>

definition digits_rest :: "bytes \<Rightarrow> key_digits \<Rightarrow> bytes" where
  "digits_rest data kd =
     (if kd_ended kd then [] else drop (kd_skip kd) (mantissa_digits (kc_rest data (kd_cursor kd))))"

lemma mantissa_digits_Cons:
  "mantissa_digits (b # bs) =
     (if is_exponent_mark b then [] else if is_ascii_digit b then b # mantissa_digits bs else mantissa_digits bs)"
  by (auto simp: mantissa_digits_def)

lemma mantissa_digits_Nil [simp]: "mantissa_digits [] = []"
  by (simp add: mantissa_digits_def)

text \<open>What one step of a reader does to the bytes it has still to deliver.\<close>

definition delivers :: "bytes \<Rightarrow> bytes \<Rightarrow> nat \<Rightarrow> nat \<Rightarrow> byte_step \<Rightarrow> bool" where
  "delivers before after budget budget' step \<longleftrightarrow>
     (case step of
        ByteStep b \<Rightarrow> before = b # after \<and> budget' < budget
      | EndStep \<Rightarrow> before = [] \<and> after = [] \<and> budget' \<le> budget
      | YieldStep \<Rightarrow> after = before \<and> budget' = 0)"

lemma cursor_post_delivers:
  "cursor_post data kc budget step kc' budget' \<Longrightarrow> cursor_at data kc'
     \<and> length (kc_bytes data kc') + budget = length (kc_bytes data kc) + budget'
     \<and> delivers (kc_rest data kc) (kc_rest data kc') budget budget' step"
  by (auto simp: cursor_post_def delivers_def kc_rest_def split: byte_step.splits)

context stable_source begin

lemma digits_loop_spec:
  "budget < fuel \<Longrightarrow> cursor_at data (kd_cursor kd) \<Longrightarrow> \<not> kd_ended kd \<Longrightarrow> world_ok w \<Longrightarrow>
     yields (digits_loop fuel env) ((kd, budget), w)
       (\<lambda>step ((kd', budget'), w'). world_ok w' \<and> cursor_at data (kd_cursor kd')
         \<and> length (kc_bytes data (kd_cursor kd')) + budget = length (kc_bytes data (kd_cursor kd)) + budget'
         \<and> delivers (digits_rest data kd) (digits_rest data kd') budget budget' step)"
proof (induction fuel arbitrary: kd budget w)
  case (Suc fuel)
  from cursor_next_spec [OF Suc.prems(2,4), of budget] obtain step kc' budget' w' where
    n: "cursor_next env ((kd_cursor kd, budget), w) = (Ok step, ((kc', budget'), w'))"
    and w: "world_ok w'" and post: "cursor_post data (kd_cursor kd) budget step kc' budget'"
    by (auto elim!: yieldsE)
  have f: "digits_cursor_next env ((kd, budget), w) = (Ok step, ((kd\<lparr>kd_cursor := kc'\<rparr>, budget'), w'))"
    by (simp add: focus_def n)
  note p = cursor_post_delivers [OF post]
  have len: "length (kc_bytes data kc') + budget = length (kc_bytes data (kd_cursor kd)) + budget'"
    using p by blast
  show ?case
  proof (cases step)
    case (ByteStep b)
    with p have r: "kc_rest data (kd_cursor kd) = b # kc_rest data kc'" "budget' < budget" "cursor_at data kc'"
      by (simp_all add: delivers_def)
    have again: ?thesis
      if "digits_loop (Suc fuel) env ((kd, budget), w) = digits_loop fuel env ((kd1, budget'), w')"
        "kd_cursor kd1 = kc'" "\<not> kd_ended kd1" "digits_rest data kd1 = digits_rest data kd" for kd1
    proof -
      have "budget' < fuel" using r(2) Suc.prems(1) by simp
      from Suc.IH [OF this _ that(3) w] r(3) that(2)
      have "yields (digits_loop fuel env) ((kd1, budget'), w')
        (\<lambda>step ((kd', budget''), w'). world_ok w' \<and> cursor_at data (kd_cursor kd')
         \<and> length (kc_bytes data (kd_cursor kd')) + budget' = length (kc_bytes data kc') + budget''
         \<and> delivers (digits_rest data kd1) (digits_rest data kd') budget' budget'' step)" by simp
      then have "yields (digits_loop fuel env) ((kd1, budget'), w')
        (\<lambda>step ((kd', budget''), w'). world_ok w' \<and> cursor_at data (kd_cursor kd')
         \<and> length (kc_bytes data (kd_cursor kd')) + budget = length (kc_bytes data (kd_cursor kd)) + budget''
         \<and> delivers (digits_rest data kd) (digits_rest data kd') budget budget'' step)"
        by (rule yields_weaken) (use len r(2) that(4) in \<open>auto simp: delivers_def split: byte_step.splits\<close>)
      then show ?thesis unfolding yields_def that(1) .
    qed
    consider "is_exponent_mark b" | "\<not> is_exponent_mark b" "is_ascii_digit b" "kd_skip kd > 0"
      | "\<not> is_exponent_mark b" "is_ascii_digit b" "kd_skip kd = 0" | "\<not> is_exponent_mark b" "\<not> is_ascii_digit b"
      by blast
    then show ?thesis
    proof cases
      case 1
      have "digits_loop (Suc fuel) env ((kd, budget), w) = (Ok EndStep, ((kd\<lparr>kd_cursor := kc', kd_ended := True\<rparr>, budget'), w'))"
        using 1 by (simp add: and_then_def f ByteStep update_state_def give_def)
      then show ?thesis
        by (rule yieldsI) (use 1 r w len Suc.prems(3) in \<open>simp add: delivers_def digits_rest_def mantissa_digits_Cons\<close>)
    next
      case 2
      show ?thesis
        by (rule again [of "kd\<lparr>kd_cursor := kc', kd_skip := kd_skip kd - 1\<rparr>"])
          (use 2 r Suc.prems(3) in \<open>simp_all add: and_then_def f ByteStep update_state_def with_state_def
              digits_rest_def mantissa_digits_Cons drop_Cons'\<close>)
    next
      case 3
      have "digits_loop (Suc fuel) env ((kd, budget), w) = (Ok (ByteStep b), ((kd\<lparr>kd_cursor := kc'\<rparr>, budget'), w'))"
        using 3 by (simp add: and_then_def f ByteStep with_state_def give_def)
      then show ?thesis
        by (rule yieldsI) (use 3 r w len Suc.prems(3) in \<open>simp add: delivers_def digits_rest_def mantissa_digits_Cons\<close>)
    next
      case 4
      show ?thesis
        by (rule again [of "kd\<lparr>kd_cursor := kc'\<rparr>"])
          (use 4 r Suc.prems(3) in \<open>simp_all add: and_then_def f ByteStep digits_rest_def mantissa_digits_Cons\<close>)
    qed
  next
    case EndStep
    have "digits_loop (Suc fuel) env ((kd, budget), w) = (Ok EndStep, ((kd\<lparr>kd_cursor := kc', kd_ended := True\<rparr>, budget'), w'))"
      by (simp add: and_then_def f EndStep update_state_def give_def)
    then show ?thesis
      by (rule yieldsI) (use EndStep p w len in \<open>simp add: delivers_def digits_rest_def\<close>)
  next
    case YieldStep
    have "digits_loop (Suc fuel) env ((kd, budget), w) = (Ok YieldStep, ((kd\<lparr>kd_cursor := kc'\<rparr>, budget'), w'))"
      by (simp add: and_then_def f YieldStep give_def)
    then show ?thesis
      by (rule yieldsI) (use YieldStep p w len in \<open>simp add: delivers_def digits_rest_def\<close>)
  qed
qed simp

lemma digits_next_spec:
  assumes "cursor_at data (kd_cursor kd)" "world_ok w"
  shows "yields (digits_next env) ((kd, budget), w)
    (\<lambda>step ((kd', budget'), w'). world_ok w' \<and> cursor_at data (kd_cursor kd')
         \<and> length (kc_bytes data (kd_cursor kd')) + budget = length (kc_bytes data (kd_cursor kd)) + budget'
         \<and> delivers (digits_rest data kd) (digits_rest data kd') budget budget' step)"
proof (cases "kd_ended kd")
  case True
  with assms show ?thesis by (simp add: digits_next_def wp_simps delivers_def digits_rest_def)
next
  case False
  with digits_loop_spec [OF _ assms(1) False assms(2), of budget "Suc budget"] show ?thesis
    by (simp add: digits_next_def wp_simps del: digits_loop.simps)
qed

end

section \<open>The two streams\<close>

fun streams_order :: "comparison \<Rightarrow> bytes \<Rightarrow> bytes \<Rightarrow> sort_ordering" where
  "streams_order cm [] [] = ord_cmp (ds_row (cm_a cm)) (ds_row (cm_b cm))"
| "streams_order cm [] (b # bs) =
     (case values_order cm None (Some b) of Some r \<Rightarrow> r | None \<Rightarrow> streams_order cm [] bs)"
| "streams_order cm (a # as) [] =
     (case values_order cm (Some a) None of Some r \<Rightarrow> r | None \<Rightarrow> streams_order cm as [])"
| "streams_order cm (a # as) (b # bs) =
     (case values_order cm (Some a) (Some b) of Some r \<Rightarrow> r | None \<Rightarrow> streams_order cm as bs)"

definition same_pair :: "comparison \<Rightarrow> comparison \<Rightarrow> bool" where
  "same_pair cm cm' \<longleftrightarrow> cm_a cm' = cm_a cm \<and> cm_b cm' = cm_b cm \<and> cm_request cm' = cm_request cm
     \<and> cm_numeric cm' = cm_numeric cm \<and> cm_first cm' = cm_first cm"

lemma same_pair_order: "same_pair cm cm' \<Longrightarrow> streams_order cm' xs ys = streams_order cm xs ys"
  by (induction cm xs ys rule: streams_order.induct)
    (simp_all add: same_pair_def values_order_def Let_def split: option.split)

definition rest_a :: "bytes \<Rightarrow> comparison \<Rightarrow> bytes" where
  "rest_a data cm = (if cm_numeric cm then digits_rest data (cm_da cm) else kc_rest data (cm_ca cm))"

definition rest_b :: "bytes \<Rightarrow> comparison \<Rightarrow> bytes" where
  "rest_b data cm = (if cm_numeric cm then digits_rest data (cm_db cm) else kc_rest data (cm_cb cm))"

definition left_stream :: "bytes \<Rightarrow> comparison \<Rightarrow> bytes" where
  "left_stream data cm =
     (case cm_left cm of None \<Rightarrow> rest_a data cm | Some (Some b) \<Rightarrow> b # rest_a data cm | Some None \<Rightarrow> [])"

definition comparison_todo :: "bytes \<Rightarrow> comparison \<Rightarrow> nat" where
  "comparison_todo data cm =
     (if cm_numeric cm then length (kc_bytes data (kd_cursor (cm_da cm))) + length (kc_bytes data (kd_cursor (cm_db cm)))
      else length (kc_bytes data (cm_ca cm)) + length (kc_bytes data (cm_cb cm)))"

definition comparison_at :: "bytes \<Rightarrow> comparison \<Rightarrow> bool" where
  "comparison_at data cm \<longleftrightarrow> cursor_at data (cm_ca cm) \<and> cursor_at data (cm_cb cm)
     \<and> cursor_at data (kd_cursor (cm_da cm)) \<and> cursor_at data (kd_cursor (cm_db cm))
     \<and> (cm_left cm = Some None \<longrightarrow> rest_a data cm = [])"

definition compared :: "bytes \<Rightarrow> comparison \<Rightarrow> sort_ordering" where
  "compared data cm = streams_order cm (left_stream data cm) (rest_b data cm)"

context stable_source begin

lemma next_a_spec:
  assumes "comparison_at data cm" "cm_left cm = None" "world_ok w"
  shows "yields (next_a env) ((cm, budget), w)
    (\<lambda>step ((cm', budget'), w'). world_ok w' \<and> comparison_at data cm' \<and> same_pair cm cm' \<and> cm_left cm' = None
       \<and> rest_b data cm' = rest_b data cm \<and> comparison_todo data cm' + budget = comparison_todo data cm + budget'
       \<and> delivers (rest_a data cm) (rest_a data cm') budget budget' step)"
proof (cases "cm_numeric cm")
  case True
  have at: "cursor_at data (kd_cursor (cm_da cm))" using assms(1) by (simp add: comparison_at_def)
  show ?thesis
    using True by (simp add: next_a_def wp_simps)
      (rule yields_weaken [OF digits_next_spec [OF at assms(3), of budget]],
       use assms in \<open>auto simp: comparison_at_def same_pair_def rest_a_def rest_b_def comparison_todo_def\<close>)
next
  case False
  have at: "cursor_at data (cm_ca cm)" using assms(1) by (simp add: comparison_at_def)
  show ?thesis
    using False by (simp add: next_a_def wp_simps)
      (rule yields_weaken [OF cursor_next_spec [OF at assms(3), of budget]],
       use assms in \<open>auto simp: comparison_at_def same_pair_def rest_a_def rest_b_def comparison_todo_def
         dest!: cursor_post_delivers\<close>)
qed

lemma next_b_spec:
  assumes "comparison_at data cm" "world_ok w"
  shows "yields (next_b env) ((cm, budget), w)
    (\<lambda>step ((cm', budget'), w'). world_ok w' \<and> comparison_at data cm' \<and> same_pair cm cm' \<and> cm_left cm' = cm_left cm
       \<and> rest_a data cm' = rest_a data cm \<and> comparison_todo data cm' + budget = comparison_todo data cm + budget'
       \<and> delivers (rest_b data cm) (rest_b data cm') budget budget' step)"
proof (cases "cm_numeric cm")
  case True
  have at: "cursor_at data (kd_cursor (cm_db cm))" using assms(1) by (simp add: comparison_at_def)
  show ?thesis
    using True by (simp add: next_b_def wp_simps)
      (rule yields_weaken [OF digits_next_spec [OF at assms(2), of budget]],
       use assms in \<open>auto simp: comparison_at_def same_pair_def rest_a_def rest_b_def comparison_todo_def\<close>)
next
  case False
  have at: "cursor_at data (cm_cb cm)" using assms(1) by (simp add: comparison_at_def)
  show ?thesis
    using False by (simp add: next_b_def wp_simps)
      (rule yields_weaken [OF cursor_next_spec [OF at assms(2), of budget]],
       use assms in \<open>auto simp: comparison_at_def same_pair_def rest_a_def rest_b_def comparison_todo_def
         dest!: cursor_post_delivers\<close>)
qed

end

definition comparison_post ::
    "bytes \<Rightarrow> comparison \<Rightarrow> nat \<Rightarrow> sort_ordering option \<Rightarrow> comparison \<Rightarrow> nat \<Rightarrow> bool" where
  "comparison_post data cm budget r cm' budget' \<longleftrightarrow> comparison_todo data cm' + budget = comparison_todo data cm + budget'
     \<and> (case r of
          Some v \<Rightarrow> v = compared data cm
        | None \<Rightarrow> budget' = 0 \<and> comparison_at data cm' \<and> same_pair cm cm' \<and> compared data cm' = compared data cm)"

lemma same_pair_trans: "same_pair a b \<Longrightarrow> same_pair b c \<Longrightarrow> same_pair a c"
  by (simp add: same_pair_def)

lemma values_order_pair: "same_pair cm cm' \<Longrightarrow> values_order cm' l r = values_order cm l r"
  by (simp add: same_pair_def values_order_def Let_def)

lemma values_order_ends: "values_order cm None None = Some (ord_cmp (ds_row (cm_a cm)) (ds_row (cm_b cm)))"
  by (simp add: values_order_def)

text \<open>The head and the tail of a stream, at its end too.\<close>

definition head_of :: "bytes \<Rightarrow> u8 option" where
  "head_of bs = (case bs of [] \<Rightarrow> None | b # _ \<Rightarrow> Some b)"

lemma streams_order_step:
  "streams_order cm xs ys =
     (case values_order cm (head_of xs) (head_of ys) of
        Some r \<Rightarrow> r | None \<Rightarrow> streams_order cm (tl xs) (tl ys))"
  by (cases xs; cases ys) (simp_all add: head_of_def values_order_ends split: option.split)

lemma left_update [simp]:
  "rest_a data (cm\<lparr>cm_left := l\<rparr>) = rest_a data cm" "rest_b data (cm\<lparr>cm_left := l\<rparr>) = rest_b data cm"
  "comparison_todo data (cm\<lparr>cm_left := l\<rparr>) = comparison_todo data cm"
  "same_pair cm (cm'\<lparr>cm_left := l\<rparr>) = same_pair cm cm'"
  by (simp_all add: rest_a_def rest_b_def comparison_todo_def same_pair_def)

lemma comparison_at_left:
  "comparison_at data cm \<Longrightarrow> (l = Some None \<Longrightarrow> rest_a data cm = []) \<Longrightarrow> comparison_at data (cm\<lparr>cm_left := l\<rparr>)"
  by (simp add: comparison_at_def)

context stable_source begin

lemma read_left_spec:
  assumes "comparison_at data cm" "world_ok w"
  shows "yields (with_state (\<lambda>(cm, budget).
         if cm_left cm = None then
           and_then (next_a env) (\<lambda>step.
             and_then (update_state (\<lambda>(cm, budget). (cm\<lparr>cm_left := step_value step\<rparr>, budget)))
               (\<lambda>_. give (step \<noteq> YieldStep)))
         else give True)) ((cm, budget), w)
    (\<lambda>ready ((cm', budget'), w'). world_ok w' \<and> comparison_at data cm' \<and> same_pair cm cm'
       \<and> left_stream data cm' = left_stream data cm \<and> rest_b data cm' = rest_b data cm
       \<and> comparison_todo data cm' + budget = comparison_todo data cm + budget' \<and> budget' \<le> budget
       \<and> (if ready then cm_left cm' = Some (head_of (left_stream data cm))
              \<and> rest_a data cm' = tl (left_stream data cm)
              \<and> (cm_left cm = None \<longrightarrow> left_stream data cm \<noteq> [] \<longrightarrow> budget' < budget)
           else budget' = 0))"
proof (cases "cm_left cm")
  case None
  from next_a_spec [OF assms(1) None assms(2), of budget] obtain step cm1 b1 w1 where
    n: "next_a env ((cm, budget), w) = (Ok step, ((cm1, b1), w1))"
    and p: "world_ok w1" "comparison_at data cm1" "same_pair cm cm1" "cm_left cm1 = None"
      "rest_b data cm1 = rest_b data cm" "comparison_todo data cm1 + budget = comparison_todo data cm + b1"
    and d: "delivers (rest_a data cm) (rest_a data cm1) budget b1 step"
    by (auto elim!: yieldsE)
  let ?cm = "cm1\<lparr>cm_left := step_value step\<rparr>"
  have L: "left_stream data cm = rest_a data cm" by (simp add: left_stream_def None)
  have "comparison_at data ?cm"
    using d p(2) by (intro comparison_at_left) (auto simp: delivers_def step_value_def split: byte_step.splits)
  moreover have "left_stream data ?cm = left_stream data cm \<and> b1 \<le> budget
    \<and> (if step \<noteq> YieldStep then cm_left ?cm = Some (head_of (left_stream data cm))
              \<and> rest_a data ?cm = tl (left_stream data cm)
              \<and> (left_stream data cm \<noteq> [] \<longrightarrow> b1 < budget)
           else b1 = 0)"
    unfolding L using d
    by (cases step) (simp_all add: delivers_def step_value_def head_of_def left_stream_def)
  ultimately have "yields (give (step \<noteq> YieldStep)) ((?cm, b1), w1)
    (\<lambda>ready ((cm', budget'), w'). world_ok w' \<and> comparison_at data cm' \<and> same_pair cm cm'
       \<and> left_stream data cm' = left_stream data cm \<and> rest_b data cm' = rest_b data cm
       \<and> comparison_todo data cm' + budget = comparison_todo data cm + budget' \<and> budget' \<le> budget
       \<and> (if ready then cm_left cm' = Some (head_of (left_stream data cm))
              \<and> rest_a data cm' = tl (left_stream data cm)
              \<and> (cm_left cm = None \<longrightarrow> left_stream data cm \<noteq> [] \<longrightarrow> budget' < budget)
           else budget' = 0))"
    using p None by (cases "step = YieldStep") (auto simp add: wp_simps)
  then show ?thesis
    by (simp add: yields_def with_state_def and_then_def n update_state_def None)
next
  case (Some l)
  with assms show ?thesis
    by (cases l) (auto simp: wp_simps left_stream_def head_of_def same_pair_def comparison_at_def)
qed

lemma comparison_loop_spec:
  "budget + (if cm_left cm = None then 0 else 1) < fuel \<Longrightarrow> comparison_at data cm \<Longrightarrow> world_ok w \<Longrightarrow>
     yields (comparison_loop fuel env) ((cm, budget), w)
       (\<lambda>r ((cm', budget'), w'). world_ok w' \<and> comparison_post data cm budget r cm' budget')"
proof (induction fuel arbitrary: cm budget w)
  case (Suc fuel)
  let ?post = "\<lambda>r ((cm', budget'), w'). world_ok w' \<and> comparison_post data cm budget r cm' budget'"
  let ?L = "left_stream data cm" and ?R = "rest_b data cm"
  show ?case
    unfolding comparison_loop.simps yields_and_then
  proof (rule yields_weaken [OF read_left_spec [OF Suc.prems(2,3), of budget]], clarify)
    fix ready cm1 b1 w1
    assume w1: "world_ok w1" and at1: "comparison_at data cm1" and pair1: "same_pair cm cm1"
      and l1: "left_stream data cm1 = ?L" and r1: "rest_b data cm1 = ?R"
      and t1: "comparison_todo data cm1 + budget = comparison_todo data cm + b1" and b1: "b1 \<le> budget"
      and ready: "if ready then cm_left cm1 = Some (head_of ?L) \<and> rest_a data cm1 = tl ?L
              \<and> (cm_left cm = None \<longrightarrow> ?L \<noteq> [] \<longrightarrow> b1 < budget) else b1 = 0"
    have same: "compared data cm1 = compared data cm"
      by (simp add: compared_def l1 r1 same_pair_order [OF pair1])
    show "yields (if \<not> ready then give None
       else and_then (next_b env) (\<lambda>step.
         case step_value step of
           None \<Rightarrow> give None
         | Some right \<Rightarrow>
             with_state (\<lambda>(cm, budget).
               let left = Option.bind (cm_left cm) id in
               and_then (update_state (\<lambda>(cm, budget). (cm\<lparr>cm_left := None\<rparr>, budget))) (\<lambda>_.
               case values_order cm left right of
                 Some v \<Rightarrow> give (Some v)
               | None \<Rightarrow> comparison_loop fuel env)))) ((cm1, b1), w1) ?post"
    proof (cases ready)
      case False
      with ready w1 at1 pair1 same t1 show ?thesis by (simp add: wp_simps comparison_post_def)
    next
      case True
      then have left: "cm_left cm1 = Some (head_of ?L)" "rest_a data cm1 = tl ?L"
        "cm_left cm = None \<longrightarrow> ?L \<noteq> [] \<longrightarrow> b1 < budget" using ready by simp_all
      show ?thesis
        unfolding if_not_P [OF not_not [THEN iffD2, OF True]] yields_and_then
      proof (rule yields_weaken [OF next_b_spec [OF at1 w1, of b1]], clarify)
        fix step cm2 b2 w2
        assume w2: "world_ok w2" and at2: "comparison_at data cm2" and pair2: "same_pair cm1 cm2"
          and l2: "cm_left cm2 = cm_left cm1" and a2: "rest_a data cm2 = rest_a data cm1"
          and t2: "comparison_todo data cm2 + b1 = comparison_todo data cm1 + b2"
          and d2: "delivers (rest_b data cm1) (rest_b data cm2) b1 b2 step"
        note pair = same_pair_trans [OF pair1 pair2]
        have t: "comparison_todo data cm2 + budget = comparison_todo data cm + b2" using t1 t2 by linarith
        show "yields (case step_value step of
           None \<Rightarrow> give None
         | Some right \<Rightarrow>
             with_state (\<lambda>(cm, budget).
               let left = Option.bind (cm_left cm) id in
               and_then (update_state (\<lambda>(cm, budget). (cm\<lparr>cm_left := None\<rparr>, budget))) (\<lambda>_.
               case values_order cm left right of
                 Some v \<Rightarrow> give (Some v)
               | None \<Rightarrow> comparison_loop fuel env))) ((cm2, b2), w2) ?post"
        proof (cases "step = YieldStep")
          case True
          with d2 have "b2 = 0" "rest_b data cm2 = ?R" using r1 by (simp_all add: delivers_def)
          moreover have "left_stream data cm2 = ?L"
            using l1 unfolding left_stream_def l2 a2 .
          ultimately have "compared data cm2 = compared data cm"
            by (simp add: compared_def same_pair_order [OF pair])
          with True w2 at2 pair t \<open>b2 = 0\<close> show ?thesis
            by (simp add: step_value_def wp_simps comparison_post_def)
        next
          case False
          then have sv: "step_value step = Some (head_of ?R)" "rest_b data cm2 = tl ?R" "b2 \<le> b1"
            "?R \<noteq> [] \<Longrightarrow> b2 < b1"
            using d2 r1 by (auto simp: step_value_def delivers_def head_of_def split: byte_step.splits)
          let ?cm = "cm2\<lparr>cm_left := None\<rparr>"
          have cm: "rest_b data ?cm = tl ?R" "left_stream data ?cm = tl ?L" "comparison_at data ?cm"
            "same_pair cm ?cm" "comparison_todo data ?cm = comparison_todo data cm2"
            using sv(2) a2 left(2) pair comparison_at_left [OF at2, of None] by (simp_all add: left_stream_def)
          have vo: "values_order cm2 (head_of ?L) (head_of ?R) = values_order cm (head_of ?L) (head_of ?R)"
            by (rule values_order_pair [OF pair])
          show ?thesis
          proof (cases "values_order cm (head_of ?L) (head_of ?R)")
            case (Some v)
            then have "v = compared data cm" by (simp add: compared_def streams_order_step [of cm ?L ?R])
            with sv(1) l2 left(1) Some vo w2 cm(5) t show ?thesis
              by (simp add: wp_simps comparison_post_def)
          next
            case None
            then have "?L \<noteq> [] \<or> ?R \<noteq> []" by (auto simp: head_of_def values_order_ends)
            then have "b2 + 0 < fuel"
              using Suc.prems(1) b1 sv(3,4) left(3) by (cases "cm_left cm = None"; cases "?R = []") auto
            then have "yields (comparison_loop fuel env) ((?cm, b2), w2)
              (\<lambda>r ((cm', budget'), w'). world_ok w' \<and> comparison_post data ?cm b2 r cm' budget')"
              by (intro Suc.IH) (use cm(3) w2 in simp_all)
            moreover have "compared data ?cm = compared data cm"
              using None unfolding compared_def cm(1,2) same_pair_order [OF cm(4)]
              by (simp add: streams_order_step [of cm ?L ?R])
            ultimately have "yields (comparison_loop fuel env) ((?cm, b2), w2) ?post"
              by (elim yields_weaken) (use t cm(5) in
                \<open>auto simp: comparison_post_def intro: same_pair_trans [OF cm(4)] split: option.splits\<close>)
            then show ?thesis using sv(1) l2 left(1) None vo by (simp add: wp_simps)
          qed
        qed
      qed
    qed
  qed
qed simp

end

section \<open>The result\<close>

definition pending_comparison :: "bytes \<Rightarrow> comparison \<Rightarrow> sort_ordering \<Rightarrow> bool" where
  "pending_comparison data cm r \<longleftrightarrow> comparison_at data cm \<and>
     (if cm_first cm
      then (case order_decide (cm_a cm) (cm_b cm) (cm_request cm) of
              Some v \<Rightarrow> v = r | None \<Rightarrow> compared data cm = r)
      else compared data cm = r)"

definition comparison_result ::
    "bytes \<Rightarrow> sort_ordering \<Rightarrow> comparison \<Rightarrow> nat \<Rightarrow> sort_ordering option \<Rightarrow> comparison \<Rightarrow> nat \<Rightarrow> bool" where
  "comparison_result data r cm budget out cm' budget' \<longleftrightarrow>
     comparison_todo data cm' + budget = comparison_todo data cm + budget' \<and>
     (case out of Some v \<Rightarrow> v = r | None \<Rightarrow> budget' = 0 \<and> pending_comparison data cm' r)"

lemma first_update [simp]:
  "rest_a data (cm\<lparr>cm_first := l\<rparr>) = rest_a data cm" "rest_b data (cm\<lparr>cm_first := l\<rparr>) = rest_b data cm"
  "comparison_todo data (cm\<lparr>cm_first := l\<rparr>) = comparison_todo data cm"
  "left_stream data (cm\<lparr>cm_first := l\<rparr>) = left_stream data cm"
  "comparison_at data (cm\<lparr>cm_first := l\<rparr>) = comparison_at data cm"
  by (simp_all add: rest_a_def rest_b_def comparison_todo_def left_stream_def comparison_at_def
      split: option.split)

lemma compared_first [simp]: "compared data (cm\<lparr>cm_first := l\<rparr>) = compared data cm"
proof -
  have "streams_order (cm\<lparr>cm_first := l\<rparr>) xs ys = streams_order cm xs ys" for xs ys
    by (induction cm xs ys rule: streams_order.induct) (simp_all add: values_order_def Let_def split: option.split)
  then show ?thesis by (simp add: compared_def)
qed

context stable_source begin

lemma comparison_advance_spec:
  assumes "pending_comparison data cm r" "world_ok w"
  shows "yields (comparison_advance env) ((cm, budget), w)
    (\<lambda>out ((cm', budget'), w'). world_ok w' \<and> comparison_result data r cm budget out cm' budget')"
proof -
  have loop: "yields (comparison_loop (budget + 2) env) ((cm1, budget), w)
      (\<lambda>out ((cm', budget'), w'). world_ok w' \<and> comparison_result data r cm budget out cm' budget')"
    if "comparison_at data cm1" "compared data cm1 = r" "\<not> cm_first cm1"
      "comparison_todo data cm1 = comparison_todo data cm" for cm1
  proof (rule yields_weaken [OF comparison_loop_spec [OF _ that(1) assms(2)]])
    show "budget + (if cm_left cm1 = None then 0 else 1) < budget + 2" by simp
  qed (use that in \<open>auto simp: comparison_post_def comparison_result_def pending_comparison_def same_pair_def
         split: option.splits\<close>)
  show ?thesis
  proof (cases "cm_first cm")
    case True
    let ?cm = "cm\<lparr>cm_first := False\<rparr>"
    show ?thesis
    proof (cases "order_decide (cm_a cm) (cm_b cm) (cm_request cm)")
      case None
      with True assms(1) have "comparison_at data ?cm" "compared data ?cm = r" "\<not> cm_first ?cm"
        by (simp_all add: pending_comparison_def)
      from loop [OF this] None True show ?thesis
        by (simp add: comparison_advance_def wp_simps del: comparison_loop.simps)
    next
      case (Some v)
      with True assms show ?thesis
        by (simp add: comparison_advance_def wp_simps pending_comparison_def comparison_result_def
            del: comparison_loop.simps)
    qed
  next
    case False
    with assms(1) have "comparison_at data cm" "compared data cm = r" by (simp_all add: pending_comparison_def)
    from loop [OF this False] False show ?thesis
      by (simp add: comparison_advance_def wp_simps del: comparison_loop.simps)
  qed
qed

end

section \<open>The order of the keys\<close>

text \<open>A descriptor of a key of the source: what is stored, and where the whole key can be read.\<close>

definition holds_key :: "bytes \<Rightarrow> u8 \<Rightarrow> sort_mode \<Rightarrow> descriptor \<Rightarrow> bytes \<Rightarrow> bool" where
  "holds_key data q mode d v \<longleftrightarrow> stores_key mode d v
     \<and> ds_key_start d \<le> ds_key_end d \<and> ds_key_end d \<le> length data
     \<and> cursor_values (cursor_flags True (ds_quoted d) False q)
         (take (ds_key_end d - ds_key_start d) (drop (ds_key_start d) data)) = v"

lemma cursor_values_flags:
  "kc_first k = kc_first k' \<Longrightarrow> kc_quoted k = kc_quoted k' \<Longrightarrow> kc_closed k = kc_closed k' \<Longrightarrow>
     kc_quote k = kc_quote k' \<Longrightarrow> cursor_values k bs = cursor_values k' bs"
proof (induction bs arbitrary: k k')
  case (Cons b bs)
  obtain k1 o1 where 1: "cursor_byte b k = (k1, o1)" by fastforce
  obtain k2 o2 where 2: "cursor_byte b k' = (k2, o2)" by fastforce
  have "o1 = o2 \<and> kc_first k1 = kc_first k2 \<and> kc_quoted k1 = kc_quoted k2 \<and> kc_closed k1 = kc_closed k2
      \<and> kc_quote k1 = kc_quote k2"
    using 1 2 Cons.prems by (auto simp: cursor_byte_def Let_def split: if_splits)
  with Cons.IH [of k1 k2] show ?case by (simp add: 1 2 split: option.split)
qed simp

lemma holds_key_cursor:
  assumes "holds_key data q mode d v"
  shows "cursor_at data (key_cursor_new d q)" "kc_rest data (key_cursor_new d q) = v"
proof -
  show "cursor_at data (key_cursor_new d q)"
    using assms by (simp add: holds_key_def cursor_at_def key_cursor_new_def)
  have "cursor_values (key_cursor_new d q) bs = cursor_values (cursor_flags True (ds_quoted d) False q) bs" for bs
    by (rule cursor_values_flags) (simp_all add: key_cursor_new_def cursor_flags_def)
  then show "kc_rest data (key_cursor_new d q) = v"
    using assms by (simp add: holds_key_def kc_rest_def kc_bytes_def) (simp add: key_cursor_new_def)
qed

lemma streams_text:
  "\<not> cm_numeric cm \<Longrightarrow> streams_order cm xs ys = order_finish (cm_request cm) (cm_a cm) (cm_b cm) (slice_cmp xs ys)"
proof (induction cm xs ys rule: streams_order.induct)
  case (4 cm a as b bs)
  then show ?case by (cases "ord_cmp a b = OrdEqual") (auto simp: values_order_def Let_def ord_then_left simp del: ord_cmp_simps)
qed (simp_all add: values_order_def Let_def order_finish_def)

lemma streams_digits:
  "cm_numeric cm \<Longrightarrow> streams_order cm xs ys =
     order_finish (cm_request cm) (cm_a cm) (cm_b cm) (signed_order (ds_sign (cm_a cm)) (digits_cmp xs ys))"
proof (induction cm xs ys rule: streams_order.induct)
  case (1 cm)
  then show ?case by (simp add: order_finish_def signed_order_def)
next
  case (2 cm b bs)
  then show ?case by (cases "ord_cmp 48 b = OrdEqual")
      (auto simp: values_order_def Let_def ord_then_left signed_order_def unwrap_or_def simp del: ord_cmp_simps)
next
  case (3 cm a as)
  then show ?case by (cases "ord_cmp a 48 = OrdEqual")
      (auto simp: values_order_def Let_def ord_then_left signed_order_def unwrap_or_def simp del: ord_cmp_simps)
next
  case (4 cm a as b bs)
  then show ?case by (cases "ord_cmp a b = OrdEqual")
      (auto simp: values_order_def Let_def ord_then_left signed_order_def unwrap_or_def simp del: ord_cmp_simps)
qed

lemma numeric_streams:
  assumes "stores_key SortNumeric a v" "key_class v = 0"
  shows "drop (ds_leading a) (mantissa_digits v) = dc_significant (the (decimal_parse v))"
proof -
  from assms(2) obtain dc where dc: "decimal_parse v = Some dc" by (auto simp: key_class_def split: if_splits)
  with assms(1) show ?thesis by (simp add: stores_key_def parsed_digits(1) [OF dc] dc_significant_def)
qed

lemma undecided_numbers:
  assumes "numeric req" "ds_group a = 0" "ds_group b = 0" "order_decide a b req = None"
  shows "ds_sign a = ds_sign b" "ds_sign a \<noteq> 0" "ds_magnitude a = ds_magnitude b"
  using assms by (auto simp: order_decide_def Let_def split: if_splits)

lemma undecided_order:
  assumes "holds_key data q (sr_mode req) a v" "holds_key data q (sr_mode req) b w"
    and "order_decide a b req = None"
  shows "compared data (comparison_new a b req q) = key_order req (ds_row a, v) (ds_row b, w)"
proof -
  let ?cm = "comparison_new a b req q"
  note st = assms(1,2) [unfolded holds_key_def, THEN conjunct1]
  note cur = holds_key_cursor [OF assms(1)] holds_key_cursor [OF assms(2)]
  have left: "left_stream data ?cm = rest_a data ?cm" by (simp add: left_stream_def comparison_new_def)
  show ?thesis
  proof (cases "cm_numeric ?cm")
    case True
    then have num: "numeric req" "ds_group a = 0" "ds_group b = 0" by (simp_all add: comparison_new_def)
    note u = undecided_numbers [OF num assms(3)]
    have cl: "key_class v = 0" "key_class w = 0" using num st by (simp_all add: stores_key_def)
    then obtain dv dw where dc: "decimal_parse v = Some dv" "decimal_parse w = Some dw"
      by (auto simp: key_class_def split: if_splits)
    have sg: "ds_sign a = dc_sign dv" "ds_sign b = dc_sign dw" "ds_magnitude a = dc_magnitude dv"
      "ds_magnitude b = dc_magnitude dw" using num st dc by (simp_all add: stores_key_def)
    have "rest_a data ?cm = drop (ds_leading a) (mantissa_digits v)" "rest_b data ?cm = drop (ds_leading b) (mantissa_digits w)"
      using True cur by (simp_all add: rest_a_def rest_b_def digits_rest_def comparison_new_def key_digits_new_def)
    then have "compared data ?cm = order_finish req a b (signed_order (ds_sign a) (digits_cmp (dc_significant dv) (dc_significant dw)))"
      using numeric_streams [of a v] numeric_streams [of b w] st cl dc num(1)
      by (simp add: compared_def left streams_digits [OF True]) (simp add: comparison_new_def)
    moreover have "ord_cmp (decimal_value dv) (decimal_value dw)
        = signed_order (ds_sign a) (digits_cmp (dc_significant dv) (dc_significant dw))"
      using decimal_order [OF parsed_digits(2) [OF dc(1)] parsed_digits(2) [OF dc(2)]] u sg by simp
    ultimately show ?thesis
      using num(1) cl dc by (simp add: key_order_def value_order_def number_of_def order_finish_def directed_def)
  next
    case False
    have "rest_a data ?cm = v" "rest_b data ?cm = w"
      using False cur by (auto simp add: rest_a_def rest_b_def comparison_new_def)
    then have "compared data ?cm = ord_then (directed req (ord_cmp v w)) (ord_cmp (ds_row a) (ds_row b))"
      unfolding compared_def left streams_text [OF False] slice_cmp_lex
      by (simp add: comparison_new_def order_finish_def directed_def)
    moreover have "numeric req \<Longrightarrow> ds_group a = ds_group b \<and> ds_group a \<noteq> 2"
      using assms(3) by (auto simp: order_decide_def split: if_splits)
    moreover have "numeric req \<Longrightarrow> ds_group a = key_class v \<and> ds_group b = key_class w"
      using st by (simp add: stores_key_def)
    moreover have "numeric req \<Longrightarrow> \<not> (ds_group a = 0 \<and> ds_group b = 0)" using False by (simp add: comparison_new_def)
    ultimately show ?thesis by (auto simp: key_order_def value_order_def)
  qed
qed

theorem comparison_new_pending:
  assumes "holds_key data q (sr_mode req) a v" "holds_key data q (sr_mode req) b w"
  shows "pending_comparison data (comparison_new a b req q) (key_order req (ds_row a, v) (ds_row b, w))"
proof -
  have "comparison_at data (comparison_new a b req q)"
    using holds_key_cursor(1) [OF assms(1)] holds_key_cursor(1) [OF assms(2)]
    by (simp add: comparison_at_def comparison_new_def key_digits_new_def)
  moreover have "stores_key (sr_mode req) a v" "stores_key (sr_mode req) b w"
    using assms by (simp_all add: holds_key_def)
  ultimately show ?thesis
    using order_decide_correct [of req a v b w] undecided_order [OF assms]
    by (simp add: pending_comparison_def comparison_new_def split: option.split)
qed

section \<open>Driving a comparison\<close>

fun compare_steps ::
    "'w environment \<Rightarrow> nat list \<Rightarrow> comparison \<Rightarrow> 'w \<Rightarrow> (sort_error, sort_ordering option) outcome" where
  "compare_steps env [] cm w = Ok None"
| "compare_steps env (n # ns) cm w =
     (case comparison_advance env ((cm, n), w) of
        (Ok None, ((cm', _), w')) \<Rightarrow> compare_steps env ns cm' w'
      | (r, _) \<Rightarrow> r)"

context stable_source begin

lemma compare_steps_spec:
  "pending_comparison data cm r \<Longrightarrow> world_ok w \<Longrightarrow>
     (compare_steps env ns cm w = Ok (Some r) \<or> compare_steps env ns cm w = Ok None \<and> sum_list ns \<le> comparison_todo data cm)"
proof (induction ns arbitrary: cm w)
  case (Cons n ns)
  from comparison_advance_spec [OF Cons.prems, of n] obtain out cm' n' w' where
    a: "comparison_advance env ((cm, n), w) = (Ok out, ((cm', n'), w'))" "world_ok w'"
    "comparison_result data r cm n out cm' n'" by (auto elim!: yieldsE)
  show ?case
  proof (cases out)
    case None
    with a(3) have p: "pending_comparison data cm' r" "comparison_todo data cm' + n = comparison_todo data cm"
      by (auto simp: comparison_result_def)
    from Cons.IH [OF p(1) a(2)] p(2) a(1) None show ?thesis by auto
  next
    case (Some v)
    with a show ?thesis by (simp add: comparison_result_def)
  qed
qed simp

end

end
