(* ===== verification/Sort_Keys.thy ===== *)
theory Sort_Keys imports Sort_Compare begin

text \<open>
  The properties of sort keys: extracting them, storing them and comparing them, each resumed over any
  number of calls with any budgets.
\<close>

section \<open>Driving an extraction\<close>

text \<open>The pending record of a session: it is located first and built then.\<close>

fun extract_steps ::
    "'w environment \<Rightarrow> sort_mode \<Rightarrow> u8 \<Rightarrow> nat list \<Rightarrow> locator + key_builder \<Rightarrow> 'w
     \<Rightarrow> (sort_error, descriptor option) outcome" where
  "extract_steps env mode q [] p w = Ok None"
| "extract_steps env mode q (n # ns) (Inl lo) w =
     (case locator_advance env ((lo, n), w) of
        (Ok None, ((lo', _), w')) \<Rightarrow> extract_steps env mode q ns (Inl lo') w'
      | (Ok (Some d), (_, w')) \<Rightarrow> extract_steps env mode q ns (Inr (builder_new d q)) w'
      | (Err e, _) \<Rightarrow> Err e
      | (Panic, _) \<Rightarrow> Panic)"
| "extract_steps env mode q (n # ns) (Inr kb) w =
     (case builder_advance env mode ((kb, n), w) of
        (Ok None, ((kb', _), w')) \<Rightarrow> extract_steps env mode q ns (Inr kb') w'
      | (r, _) \<Rightarrow> r)"

definition stored_outcome :: "sort_error + descriptor \<Rightarrow> (sort_error, descriptor option) outcome" where
  "stored_outcome r = (case r of Inl e \<Rightarrow> Err e | Inr d \<Rightarrow> Ok (Some d))"

lemma extent_cursor:
  assumes "ds_key_start d \<le> ds_key_end d" "ds_key_end d \<le> length data"
    and "cursor_values (cursor_flags True (ds_quoted d) False q)
         (take (ds_key_end d - ds_key_start d) (drop (ds_key_start d) data)) = v"
  shows "builder_at data mode d [] (builder_new d q)" "kc_rest data (kb_cursor (builder_new d q)) = v"
proof -
  show "builder_at data mode d [] (builder_new d q)"
    using assms by (simp add: builder_at_def builder_new_def cursor_at_def key_cursor_new_def)
  have "cursor_values (key_cursor_new d q) bs = cursor_values (cursor_flags True (ds_quoted d) False q) bs" for bs
    by (rule cursor_values_flags) (simp_all add: key_cursor_new_def cursor_flags_def)
  then show "kc_rest data (kb_cursor (builder_new d q)) = v"
    using assms(3) by (simp add: builder_new_def kc_rest_def kc_bytes_def) (simp add: key_cursor_new_def)
qed

context stable_source begin

lemma builder_advance_spec:
  assumes "builder_at data mode d u kb" "world_ok w" "v = u @ kc_rest data (kb_cursor kb)"
  shows "case builder_advance env mode ((kb, budget), w) of
       (Ok r, ((kb', budget'), w')) \<Rightarrow> world_ok w' \<and> builder_post data mode d v r kb' budget'
         \<and> length (kc_bytes data (kb_cursor kb')) + budget = length (kc_bytes data (kb_cursor kb)) + budget'
     | (Err e, _) \<Rightarrow> stored_key mode d v = Inl e
     | (Panic, _) \<Rightarrow> False"
  using builder_loop_spec [OF _ assms, of budget "Suc budget"]
  by (simp add: builder_advance_def with_state_def del: builder_loop.simps)

lemma build_steps_spec:
  "builder_at data mode d u kb \<Longrightarrow> world_ok w \<Longrightarrow> v = u @ kc_rest data (kb_cursor kb) \<Longrightarrow>
     extract_steps env mode q ns (Inr kb) w = stored_outcome (stored_key mode d v)
   \<or> extract_steps env mode q ns (Inr kb) w = Ok None
       \<and> ((\<forall>n \<in> set ns. 0 < n) \<longrightarrow> length ns \<le> length (kc_bytes data (kb_cursor kb)))"
proof (induction ns arbitrary: kb w u)
  case (Cons n ns)
  obtain r kb' n' w' where a: "builder_advance env mode ((kb, n), w) = (r, ((kb', n'), w'))" by (metis surj_pair)
  note spec = builder_advance_spec [OF Cons.prems, of n, unfolded a]
  show ?case
  proof (cases r)
    case (Ok out)
    show ?thesis
    proof (cases out)
      case None
      with Ok spec obtain u' where u': "builder_at data mode d u' kb'" "v = u' @ kc_rest data (kb_cursor kb')"
        and w': "world_ok w'" and len: "length (kc_bytes data (kb_cursor kb')) + n = length (kc_bytes data (kb_cursor kb))"
        by (auto simp: builder_post_def)
      from Cons.IH [OF u'(1) w' u'(2)] len Ok None a show ?thesis by auto
    next
      case (Some d')
      with Ok spec a show ?thesis by (simp add: builder_post_def stored_outcome_def)
    qed
  next
    case (Err e)
    with spec a show ?thesis by (simp add: stored_outcome_def)
  next
    case Panic
    with spec show ?thesis by simp
  qed
qed simp

lemma locate_steps_spec:
  assumes D: "located lo (lo_rest data lo) = D" "ds_key_start D \<le> ds_key_end D" "ds_key_end D \<le> length data"
      "cursor_values (cursor_flags True (ds_quoted D) False q)
         (take (ds_key_end D - ds_key_start D) (drop (ds_key_start D) data)) = v"
    and lo: "locator_at data lo" and w: "world_ok w"
  shows "extract_steps env mode q ns (Inl lo) w = stored_outcome (stored_key mode D v)
   \<or> extract_steps env mode q ns (Inl lo) w = Ok None
       \<and> ((\<forall>n \<in> set ns. 0 < n) \<longrightarrow>
            length ns \<le> Suc (ds_end (lo_descriptor lo) - lo_cursor lo + (ds_key_end D - ds_key_start D)))"
  using D(1) lo w
proof (induction ns arbitrary: lo w)
  case (Cons n ns)
  from locator_advance_spec [OF Cons.prems(2,3), of n] obtain r lo' n' w' where
    a: "locator_advance env ((lo, n), w) = (Ok r, ((lo', n'), w'))" "world_ok w'" "locator_post data lo n r lo' n'"
    by (auto elim!: yieldsE)
  show ?case
  proof (cases r)
    case None
    with a(3) have p: "locator_at data lo'" "located lo' (lo_rest data lo') = located lo (lo_rest data lo)"
      "lo_cursor lo' = lo_cursor lo + n" "ds_end (lo_descriptor lo') = ds_end (lo_descriptor lo)"
      by (simp_all add: locator_post_def)
    from Cons.IH [OF _ p(1) a(2)] p(2) Cons.prems(1)
    have "extract_steps env mode q ns (Inl lo') w' = stored_outcome (stored_key mode D v)
       \<or> extract_steps env mode q ns (Inl lo') w' = Ok None
       \<and> ((\<forall>n \<in> set ns. 0 < n) \<longrightarrow>
            length ns \<le> Suc (ds_end (lo_descriptor lo') - lo_cursor lo' + (ds_key_end D - ds_key_start D)))" by simp
    moreover have "lo_cursor lo + n \<le> ds_end (lo_descriptor lo)" using p(1) unfolding locator_at_def p(3,4) ..
    ultimately show ?thesis using a(1) None unfolding p(3,4) by auto
  next
    case (Some d)
    with a(3) Cons.prems(1) have "d = D" by (simp add: locator_post_def)
    note b = extent_cursor(1) [OF D(2-4), of mode] extent_cursor(2) [OF D(2-4)]
    have "length (kc_bytes data (kb_cursor (builder_new D q))) \<le> ds_key_end D - ds_key_start D"
      by (simp add: kc_bytes_def builder_new_def key_cursor_new_def)
    with build_steps_spec [OF b(1) a(2), of v q ns] b(2) a(1) Some \<open>d = D\<close> show ?thesis by auto
  qed
qed simp

end

section \<open>Keys are extracted\<close>

definition valid_format :: "viewport_format \<Rightarrow> bool" where
  "valid_format fmt = (case fmt of Delimited d \<Rightarrow> quote d \<noteq> delimiter d | Lines \<Rightarrow> True)"

definition record_bytes :: "bytes \<Rightarrow> record_span \<Rightarrow> bytes" where
  "record_bytes data sp = segment data (span_start sp) (span_end sp)"

lemma segment_inside:
  "i \<le> j \<Longrightarrow> j \<le> length (segment data a b) \<Longrightarrow>
     take (j - i) (drop i (segment data a b)) = take (a + j - (a + i)) (drop (a + i) data)"
proof -
  assume "i \<le> j" and le: "j \<le> length (segment data a b)"
  then have "j \<le> b - a" by (simp add: segment_def)
  then have "min (j - i) (b - a - i) = j - i" by simp
  then show ?thesis by (simp add: segment_def drop_take add.commute)
qed

lemma key_located:
  fixes row target :: nat
  assumes "valid_format fmt"
    and "span_start sp \<le> span_end sp" "span_end sp \<le> length data"
  defines "D \<equiv> key_extent (descriptor_new row sp) (span_start sp) (key_field fmt target (record_bytes data sp))"
    and "lo \<equiv> locator_new row sp fmt target"
  shows "located lo (lo_rest data lo) = D" "locator_at data lo"
    "ds_key_start D \<le> ds_key_end D" "ds_key_end D \<le> length data" "ds_row D = row" "ds_start D = span_start sp"
    "ds_end D = span_end sp" "ds_len D = 0" "length (ds_prefix D) = 32"
    "span_start sp \<le> ds_key_start D" "ds_key_end D \<le> span_end sp"
    "cursor_values (cursor_flags True (ds_quoted D) False (format_quote fmt))
         (take (ds_key_end D - ds_key_start D) (drop (ds_key_start D) data))
       = cf_value (key_field fmt target (record_bytes data sp))"
proof -
  have rest: "lo_rest data lo = record_bytes data sp"
    by (simp add: lo_rest_def lo_def locator_new_def descriptor_new_def record_bytes_def segment_def)
  show "located lo (lo_rest data lo) = D" 
    unfolding rest by (unfold lo_def D_def) (rule located_new, use assms(1) in \<open>simp add: valid_format_def\<close>)
  show "locator_at data lo" using assms(2,3)
    by (simp add: locator_at_def lo_def locator_new_def descriptor_new_def)
  let ?f = "key_field fmt target (record_bytes data sp)"
  note f = key_field_decodes [of fmt target "record_bytes data sp"]
  have len: "length (record_bytes data sp) = span_end sp - span_start sp"
    using assms(3) by (simp add: record_bytes_def segment_def)
  have D: "ds_key_start D = span_start sp + cf_start ?f" "ds_key_end D = span_start sp + cf_end ?f"
    "ds_quoted D = cf_quoted ?f" by (simp_all add: D_def key_extent_def)
  show "ds_key_start D \<le> ds_key_end D" "ds_key_end D \<le> length data" "span_start sp \<le> ds_key_start D"
    "ds_key_end D \<le> span_end sp"
    using f(1,2) len assms(2,3) by (simp_all add: D)
  show "ds_row D = row" "ds_start D = span_start sp" "ds_end D = span_end sp" "ds_len D = 0"
    "length (ds_prefix D) = 32" by (simp_all add: D_def key_extent_def descriptor_new_def)
  show "cursor_values (cursor_flags True (ds_quoted D) False (format_quote fmt))
         (take (ds_key_end D - ds_key_start D) (drop (ds_key_start D) data)) = cf_value ?f"
    using f(3) segment_inside [of "cf_start ?f" "cf_end ?f" data "span_start sp" "span_end sp"] f(1,2) unfolding D
    by (simp add: record_bytes_def [symmetric])
qed

lemma stored_holds_key:
  assumes "ds_len D = 0" "length (ds_prefix D) = 32" "ds_key_start D \<le> ds_key_end D" "ds_key_end D \<le> length data"
    and "cursor_values (cursor_flags True (ds_quoted D) False q)
         (take (ds_key_end D - ds_key_start D) (drop (ds_key_start D) data)) = v"
    and "stored_key mode D v = Inr d"
  shows "holds_key data q mode d v" "ds_row d = ds_row D" "ds_start d = ds_start D" "ds_end d = ds_end D"
proof -
  note st = stored_key_stores [OF assms(1,2,6)]
  have same: "ds_row d = ds_row D" "ds_start d = ds_start D" "ds_end d = ds_end D" "ds_key_start d = ds_key_start D"
    "ds_key_end d = ds_key_end D" "ds_quoted d = ds_quoted D"
    by (subst st(2), simp)+
  then show "ds_row d = ds_row D" "ds_start d = ds_start D" "ds_end d = ds_end D" by simp_all
  show "holds_key data q mode d v" using st(1) assms(3-5) by (simp add: holds_key_def same)
qed

lemma stored_key_error:
  "stored_key mode d v = Inl e \<Longrightarrow> e = NumericRange \<and> mode = SortNumeric
     \<and> (\<exists>dc. decimal_parse v = Some dc \<and> decimal_nat (dc_exponent dc) > i64_max)"
proof -
  assume err: "stored_key mode d v = Inl e"
  then have m: "mode = SortNumeric" by (auto simp: stored_key_def Let_def split: if_splits)
  with err have fin: "number_finish (fold number_push v number_default) (fold push_prefix v d) = Inl e"
    by (simp add: stored_key_def)
  show ?thesis
  proof (cases "decimal_parse v")
    case None
    with number_scan [of v] have "rejected (fold number_push v number_default)" by simp
    with fin finish_rejected show ?thesis by simp
  next
    case (Some dc)
    with number_scan [of v] have "scanned dc (fold number_push v number_default)" by simp
    with fin finish_scanned show ?thesis using m Some by (auto split: if_splits)
  qed
qed

section \<open>Properties\<close>

text \<open>
  C25. Numbers are recognised and measured exactly.  The number scanner, fed with the bytes of a key,
  classifies the key as a number exactly when it is a decimal literal with optional white space,
  sign, fraction and exponent, as blank when it is empty or white space, and as text otherwise; it
  fails only when the exponent exceeds 63 bits; and it stores the sign, the magnitude and the number
  of leading zeros of the literal.
\<close>

theorem numbers_recognised_exactly:
  assumes "ds_len d = length v"
  shows "number_finish (fold number_push v number_default) d =
    (case decimal_parse v of
       None \<Rightarrow> Inr (d\<lparr>ds_group := if is_blank v then 2 else 1\<rparr>)
     | Some dc \<Rightarrow>
         if decimal_nat (dc_exponent dc) > i64_max then Inl NumericRange
         else Inr (d\<lparr>ds_group := 0, ds_leading := leading_zeros (dc_digits dc), ds_digits := length (dc_digits dc),
                ds_sign := dc_sign dc, ds_magnitude := dc_magnitude dc\<rparr>))"
proof (cases "decimal_parse v")
  case None
  with number_scan [of v] have r: "rejected (fold number_push v number_default)"
    "(nu_state (fold number_push v number_default) = 0 \<and> \<not> nu_invalid (fold number_push v number_default)) = is_blank v"
    by simp_all
  have "v = [] \<Longrightarrow> is_blank v" by (simp add: is_blank_def)
  then show ?thesis using finish_rejected [OF r(1), of d] r(2) assms None by auto
next
  case (Some dc)
  with number_scan [of v] finish_scanned [of dc _ d] show ?thesis by simp
qed

lemma numbers_recognised_exactly_witness:
  "number_finish (fold number_push [45, 49, 46, 53] number_default)
      ((descriptor_new 0 (mk_span 0 4))\<lparr>ds_len := 4\<rparr>) =
     Inr ((descriptor_new 0 (mk_span 0 4))\<lparr>ds_len := 4, ds_group := 0, ds_digits := 2, ds_sign := -1, ds_magnitude := 1\<rparr>)"
proof -
  have "decimal_parse [45, 49, 46, 53] = Some \<lparr>dc_negative = True, dc_integer = [49], dc_fraction = [53],
      dc_exp_negative = False, dc_exponent = []\<rparr>" by code_simp
  with numbers_recognised_exactly [of "(descriptor_new 0 (mk_span 0 4))\<lparr>ds_len := 4\<rparr>" "[45, 49, 46, 53]"]
  show ?thesis
    by (simp add: dc_digits_def dc_sign_def dc_magnitude_def signed_def descriptor_new_def)
qed

text \<open>
  C24. What the stored fields decide is right.  For two descriptors built from the keys \<open>v\<close> and \<open>w\<close>,
  an answer of \<open>decide\<close> is the order of the keys: numbers by value, then text by its bytes, then
  blank cells, the direction applied inside a class, and equal keys by source row.  Keys of at most
  32 bytes are always decided.
\<close>

theorem stored_fields_decide_the_order:
  assumes "stored_key (sr_mode req) a0 v = Inr a" "stored_key (sr_mode req) b0 w = Inr b"
    and "ds_len a0 = 0" "length (ds_prefix a0) = 32" "ds_len b0 = 0" "length (ds_prefix b0) = 32"
  shows "(order_decide a b req = None \<or> order_decide a b req = Some (key_order req (ds_row a0, v) (ds_row b0, w)))
    \<and> (length v \<le> 32 \<and> length w \<le> 32 \<longrightarrow> order_decide a b req \<noteq> None)"
proof -
  note a = stored_key_stores [OF assms(3,4,1)] and b = stored_key_stores [OF assms(5,6,2)]
  have "ds_row a = ds_row a0" "ds_row b = ds_row b0" by (subst a(2) b(2), simp)+
  moreover have "order_decide a b req \<noteq> None" if "length v \<le> 32" "length w \<le> 32"
    using that a(1) b(1) by (auto simp: stores_key_def stores_prefix_def order_decide_def Let_def)
  ultimately show ?thesis using order_decide_correct [OF a(1) b(1)] by (cases "order_decide a b req") auto
qed

definition sample_key :: "nat \<Rightarrow> descriptor" where
  "sample_key row = (descriptor_new row (mk_span (2 * row) (2 * row + 1)))\<lparr>ds_key_start := 2 * row, ds_key_end := 2 * row + 1\<rparr>"

definition sample_request :: sort_request where
  "sample_request = \<lparr>sr_column = 1, sr_mode = SortNumeric, sr_direction = Descending\<rparr>"

lemma stored_fields_decide_the_order_witness:
  "\<exists>a b. stored_key SortNumeric (sample_key 0) [57] = Inr a \<and> stored_key SortNumeric (sample_key 1) [49, 48] = Inr b
     \<and> order_decide a b sample_request = Some (key_order sample_request (0, [57]) (1, [49, 48]))"
proof -
  have "\<exists>a. stored_key SortNumeric (sample_key 0) [57] = Inr a" "\<exists>b. stored_key SortNumeric (sample_key 1) [49, 48] = Inr b"
    by (simp_all add: stored_key_def number_finish_def number_push_def number_default_def number_digit_def
        is_ascii_digit_def is_ascii_whitespace_def Let_def)
  then obtain a b where a: "stored_key SortNumeric (sample_key 0) [57] = Inr a"
    and b: "stored_key SortNumeric (sample_key 1) [49, 48] = Inr b" by blast
  have k: "ds_len (sample_key i) = 0" "length (ds_prefix (sample_key i)) = 32" "ds_row (sample_key i) = i" for i
    by (simp_all add: sample_key_def descriptor_new_def)
  have m: "sr_mode sample_request = SortNumeric" by (simp add: sample_request_def)
  from stored_fields_decide_the_order [of sample_request "sample_key 0" "[57]" a "sample_key 1" "[49, 48]" b] a b
  show ?thesis by (auto simp: k m)
qed

text \<open>
  C26. Comparisons by the full keys are right.  Two keys of a source that does not change, read with
  short reads and compared in any number of calls with any budgets, compare as the specification
  says or are still undecided, and they are undecided only while the budgets add up to no more than
  the bytes of the two keys; no error and no panic occurs.
\<close>

theorem comparison_gives_the_order:
  assumes "stable_source env data base world_ok" "world_ok w"
    and "holds_key data q (sr_mode req) a u" "holds_key data q (sr_mode req) b v"
  shows "compare_steps env ns (comparison_new a b req q) w \<in> {Ok None, Ok (Some (key_order req (ds_row a, u) (ds_row b, v)))}
    \<and> (sum_list ns > ds_key_end a - ds_key_start a + (ds_key_end b - ds_key_start b) \<longrightarrow>
         compare_steps env ns (comparison_new a b req q) w = Ok (Some (key_order req (ds_row a, u) (ds_row b, v))))"
proof -
  have "comparison_todo data (comparison_new a b req q) \<le> ds_key_end a - ds_key_start a + (ds_key_end b - ds_key_start b)"
    by (auto simp: comparison_todo_def comparison_new_def kc_bytes_def key_cursor_new_def key_digits_new_def
        intro!: add_mono)
  with stable_source.compare_steps_spec [OF assms(1) comparison_new_pending [OF assms(3,4)] assms(2), of ns]
  show ?thesis by auto
qed

text \<open>
  C27. Extracting a key stores the field the projection shows.  Locating and building the key of a record
  in any number of calls, with any budgets and short reads, ends with a descriptor of the record that
  holds the value of its field as the projection decodes it (nothing when the record has too few
  fields), or with the range error of a number whose exponent exceeds 63 bits; and it has ended once
  \<open>2 * length + 2\<close> calls were made, each with a budget, for a record of \<open>length\<close> bytes.
\<close>

theorem extraction_stores_the_field:
  fixes req :: sort_request and row :: nat and ns :: "nat list"
  assumes "stable_source env data base world_ok" "world_ok w"
    and "valid_format fmt"
    and "span_start sp \<le> span_end sp" "span_end sp \<le> length data"
  defines "v \<equiv> cf_value (key_field fmt (sr_column req) (record_bytes data sp))"
    and "r \<equiv> extract_steps env (sr_mode req) (format_quote fmt) ns
               (Inl (locator_new row sp fmt (sr_column req))) w"
  shows "(case r of
       Ok None \<Rightarrow> (\<forall>n \<in> set ns. 0 < n) \<longrightarrow> length ns \<le> 2 * (span_end sp - span_start sp) + 1
     | Ok (Some d) \<Rightarrow> holds_key data (format_quote fmt) (sr_mode req) d v
         \<and> ds_row d = row \<and> ds_start d = span_start sp \<and> ds_end d = span_end sp
     | Err e \<Rightarrow> e = NumericRange \<and> sr_mode req = SortNumeric
         \<and> (\<exists>dc. decimal_parse v = Some dc \<and> decimal_nat (dc_exponent dc) > i64_max)
     | Panic \<Rightarrow> False)"
proof -
  note k = key_located [where row = row and target = "sr_column req", OF assms(3-5)]
  let ?D = "key_extent (descriptor_new row sp) (span_start sp) (key_field fmt (sr_column req) (record_bytes data sp))"
  have bound: "ds_key_end ?D - ds_key_start ?D \<le> span_end sp - span_start sp" using k(10,11) by linarith
  have lo: "ds_end (lo_descriptor (locator_new row sp fmt (sr_column req))) = span_end sp"
    "lo_cursor (locator_new row sp fmt (sr_column req)) = span_start sp"
    by (simp_all add: locator_new_def descriptor_new_def)
  from stable_source.locate_steps_spec [OF assms(1) k(1) k(3,4,12) k(2) assms(2), of "sr_mode req" ns]
  consider "r = stored_outcome (stored_key (sr_mode req) ?D v)"
    | "r = Ok None" "(\<forall>n \<in> set ns. 0 < n) \<longrightarrow> length ns \<le> Suc (span_end sp - span_start sp + (ds_key_end ?D - ds_key_start ?D))"
    unfolding lo r_def v_def by blast
  then show ?thesis
  proof cases
    case 1
    show ?thesis
    proof (cases "stored_key (sr_mode req) ?D v")
      case (Inl e)
      with 1 stored_key_error [OF Inl] show ?thesis by (simp add: stored_outcome_def)
    next
      case (Inr d)
      from stored_holds_key [OF k(8,9,3,4,12) Inr [unfolded v_def]] 1 Inr k(5-7) show ?thesis
        by (simp add: stored_outcome_def v_def)
    qed
  next
    case 2
    with bound show ?thesis by auto
  qed
qed

text \<open>The record \<open>a,10\<close>, sorted by its second field.\<close>

definition sample_record :: bytes where
  "sample_record = [97, 44, 49, 48]"

lemma sample_source: "stable_source (file_environment 1 sample_record) sample_record (file_fingerprint sample_record) (\<lambda>w. True)"
  by (rule stable_file_environment) simp

lemma sample_field: "cf_value (key_field (Delimited dialect_csv) 1 (record_bytes sample_record (mk_span 0 4))) = [49, 48]"
  by (simp add: key_field_def record_bytes_def sample_record_def segment_def csv_fields_def dialect_csv_def field_at_def)

lemma extraction_stores_the_field_witness:
  "\<exists>d. extract_steps (file_environment 1 sample_record) SortNumeric 34 (replicate 10 1)
       (Inl (locator_new 7 (mk_span 0 4) (Delimited dialect_csv) 1)) token_new = Ok (Some d)
     \<and> holds_key sample_record 34 SortNumeric d [49, 48] \<and> ds_row d = 7"
proof -
  have d: "valid_format (Delimited dialect_csv)" by (simp add: valid_format_def dialect_csv_def)
  have p: "decimal_parse [49, 48] = Some \<lparr>dc_negative = False, dc_integer = [49, 48], dc_fraction = [],
      dc_exp_negative = False, dc_exponent = []\<rparr>" by code_simp
  have f: "format_quote (Delimited dialect_csv) = 34" by (simp add: format_quote_def dialect_csv_def)
  have "span_start (mk_span 0 4) \<le> span_end (mk_span 0 4)" "span_end (mk_span 0 4) \<le> length sample_record"
    by (simp_all add: sample_record_def)
  from extraction_stores_the_field [OF sample_source TrueI d this, where req = sample_request and row = 7
      and ns = "replicate 10 1" and w = token_new]
  show ?thesis
    by (auto simp add: sample_request_def sample_field [simplified] p f split: outcome.splits option.splits)
qed

lemma comparison_gives_the_order_witness:
  "\<exists>a b. holds_key [49, 44, 57] 34 SortText a [49] \<and> holds_key [49, 44, 57] 34 SortText b [57]
     \<and> compare_steps (file_environment 1 [49, 44, 57]) [1, 1, 1]
         (comparison_new a b \<lparr>sr_column = 0, sr_mode = SortText, sr_direction = Ascending\<rparr> 34) token_new
       = Ok (Some OrdLess)"
proof -
  let ?req = "\<lparr>sr_column = 0, sr_mode = SortText, sr_direction = Ascending\<rparr>"
  let ?a = "push_prefix 49 (sample_key 0)" and ?b = "push_prefix 57 (sample_key 1)"
  have src: "stable_source (file_environment 1 [49, 44, 57]) [49, 44, 57] (file_fingerprint [49, 44, 57]) (\<lambda>w. True)"
    by (rule stable_file_environment) simp
  have h: "holds_key [49, 44, 57] 34 (sr_mode ?req) ?a [49]" "holds_key [49, 44, 57] 34 (sr_mode ?req) ?b [57]"
    by (simp_all add: holds_key_def stores_key_def stores_prefix_def push_prefix_def sample_key_def
        descriptor_new_def cursor_byte_flags numeral_nat)
  have r: "key_order ?req (ds_row ?a, [49]) (ds_row ?b, [57]) = OrdLess"
    by (simp add: key_order_def value_order_def directed_def ord_cmp_def)
  have "ds_key_end ?a - ds_key_start ?a + (ds_key_end ?b - ds_key_start ?b) < sum_list [1, 1, 1]"
    by (simp add: push_prefix_def sample_key_def descriptor_new_def)
  with comparison_gives_the_order [OF src TrueI h, of "[1, 1, 1]" token_new] h show ?thesis
    unfolding r by (intro exI [of _ ?a] exI [of _ ?b]) simp
qed

end
