(* ===== verification/Sort_Ledger.thy ===== *)
theory Sort_Ledger imports Sort_Key Scratch_Recovery begin

text \<open>
  The resources of sorting (\<open>SortResources\<close>, \<open>Reservation\<close> and \<open>Owner\<close> in
  \<open>crates/leanrows-core/src/sort/storage.rs\<close>): two atomic counters with limits, leases that give back
  what they took when they are dropped, an owner directory per sort, and the directories whose
  deletion was blocked.  Several sorts share one ledger from several threads, so the second half is a
  step relation in which the atomic operations interleave in any order.  The recovery of stale owner
  directories is in \<open>Sort_Recovery\<close>.

  What the operating system answers is the record \<open>sort_disk\<close>: the bytes one read or write request moves
  and whether a call on a path succeeds.  A call that the system interrupts and the library repeats is
  one call here.
\<close>

type_synonym path = "bytes list"

datatype removal = FileRemoved | FileNotFound | RemovalFailed io_error

text \<open>The metadata of a path: is it a directory, is it a symbolic link, and its Windows attributes.\<close>

record path_metadata =
  md_directory :: bool
  md_symlink :: bool
  md_attributes :: "32 word"

record 'w sort_disk =
  sd_write :: "'w \<Rightarrow> nat \<Rightarrow> (io_error + nat) \<times> 'w"
  sd_read :: "'w \<Rightarrow> nat \<Rightarrow> (io_error + nat) \<times> 'w"
  sd_open_new :: "'w \<Rightarrow> path \<Rightarrow> io_error option \<times> 'w"
  sd_clone :: "'w \<Rightarrow> io_error option \<times> 'w"
  sd_set_len :: "'w \<Rightarrow> nat \<Rightarrow> io_error option \<times> 'w"
  sd_metadata :: "'w \<Rightarrow> io_error option \<times> 'w"
  sd_path_metadata :: "'w \<Rightarrow> path \<Rightarrow> path_metadata option \<times> 'w"
  sd_create_dir :: "'w \<Rightarrow> path \<Rightarrow> open_outcome \<times> 'w"
  sd_remove_file :: "'w \<Rightarrow> path \<Rightarrow> removal \<times> 'w"
  sd_remove_dir_all :: "'w \<Rightarrow> path \<Rightarrow> removal \<times> 'w"
  sd_next_owner :: "'w \<Rightarrow> nat \<times> 'w"
  sd_process_id :: nat
  sd_path_capacity :: "path \<Rightarrow> nat"
  sd_cleanup_entry_size :: nat
  sd_descriptor_size :: nat

section \<open>The ledger\<close>

record pending_cleanup =
  pc_path :: path
  pc_disk_bytes :: nat
  pc_memory_bytes :: nat

record sort_resources =
  rs_memory_limit :: nat
  rs_disk_limit :: nat
  rs_memory :: nat
  rs_disk :: nat
  rs_peak :: nat
  rs_disk_peak :: nat
  rs_writes :: nat
  rs_key_readers :: nat
  rs_pending :: "pending_cleanup option list"

record reservation =
  rv_bytes :: nat
  rv_memory :: bool

definition resources_new :: "nat \<Rightarrow> nat \<Rightarrow> sort_resources" where
  "resources_new memory_limit disk_limit =
     \<lparr>rs_memory_limit = memory_limit, rs_disk_limit = disk_limit, rs_memory = 0, rs_disk = 0, rs_peak = 0,
      rs_disk_peak = 0, rs_writes = 0, rs_key_readers = 0, rs_pending = replicate 64 None\<rparr>"

text \<open>Atomic \<open>fetch_add\<close> and \<open>fetch_sub\<close> wrap.\<close>

definition atomic_add :: "nat \<Rightarrow> nat \<Rightarrow> nat" where
  "atomic_add n k = (n + k) mod 2 ^ 64"

definition atomic_sub :: "nat \<Rightarrow> nat \<Rightarrow> nat" where
  "atomic_sub n k = (n + 2 ^ 64 - k mod 2 ^ 64) mod 2 ^ 64"

definition counter :: "bool \<Rightarrow> sort_resources \<Rightarrow> nat" where
  "counter memory rs = (if memory then rs_memory rs else rs_disk rs)"

definition limit :: "bool \<Rightarrow> sort_resources \<Rightarrow> nat" where
  "limit memory rs = (if memory then rs_memory_limit rs else rs_disk_limit rs)"

definition set_counter :: "bool \<Rightarrow> nat \<Rightarrow> sort_resources \<Rightarrow> sort_resources" where
  "set_counter memory n rs = (if memory then rs\<lparr>rs_memory := n\<rparr> else rs\<lparr>rs_disk := n\<rparr>)"

text \<open>The two atomic operations of \<open>reserve\<close>: \<open>fetch_update\<close> of the counter, \<open>fetch_max\<close> of the peak.\<close>

definition take_bytes :: "nat \<Rightarrow> bool \<Rightarrow> sort_resources \<Rightarrow> sort_resources option" where
  "take_bytes bytes memory rs =
     (case checked_add (counter memory rs) bytes of
        None \<Rightarrow> None
      | Some n \<Rightarrow> if n \<le> limit memory rs then Some (set_counter memory n rs) else None)"

definition raise_peak :: "bool \<Rightarrow> nat \<Rightarrow> sort_resources \<Rightarrow> sort_resources" where
  "raise_peak memory n rs =
     (if memory then rs\<lparr>rs_peak := max (rs_peak rs) n\<rparr> else rs\<lparr>rs_disk_peak := max (rs_disk_peak rs) n\<rparr>)"

definition reserve :: "nat \<Rightarrow> bool \<Rightarrow> sort_resources \<Rightarrow> (sort_error + reservation) \<times> sort_resources" where
  "reserve bytes memory rs =
     (case take_bytes bytes memory rs of
        None \<Rightarrow> (Inl (if memory then SortAllocation else SortQuota), rs)
      | Some rs' \<Rightarrow> (Inr \<lparr>rv_bytes = bytes, rv_memory = memory\<rparr>, raise_peak memory (counter memory rs') rs'))"

definition reserve_memory :: "nat \<Rightarrow> sort_resources \<Rightarrow> (sort_error + reservation) \<times> sort_resources" where
  "reserve_memory bytes = reserve bytes True"

text \<open>\<open>Drop for Reservation\<close>.\<close>

definition release :: "reservation \<Rightarrow> sort_resources \<Rightarrow> sort_resources" where
  "release r rs = set_counter (rv_memory r) (atomic_sub (counter (rv_memory r) rs) (rv_bytes r)) rs"

definition grow :: "nat \<Rightarrow> reservation \<Rightarrow> sort_resources \<Rightarrow> (sort_error + reservation) \<times> sort_resources" where
  "grow n r rs =
     (case reserve n (rv_memory r) rs of
        (Inl e, rs') \<Rightarrow> (Inl e, rs')
      | (Inr addition, rs') \<Rightarrow>
          (Inr (r\<lparr>rv_bytes := rv_bytes r + rv_bytes addition\<rparr>), release (addition\<lparr>rv_bytes := 0\<rparr>) rs'))"

definition count_key_readers :: "sort_resources \<Rightarrow> sort_resources" where
  "count_key_readers rs = rs\<lparr>rs_key_readers := atomic_add (rs_key_readers rs) 1\<rparr>"

definition count_write :: "sort_resources \<Rightarrow> sort_resources" where
  "count_write rs = rs\<lparr>rs_writes := atomic_add (rs_writes rs) 1\<rparr>"

section \<open>Deferred cleanup\<close>

fun retry_slots ::
    "'w sort_disk \<Rightarrow> pending_cleanup option list \<Rightarrow> sort_resources \<times> 'w
     \<Rightarrow> pending_cleanup option list \<times> sort_resources \<times> 'w" where
  "retry_slots dk [] (rs, w) = ([], rs, w)"
| "retry_slots dk (None # slots) (rs, w) =
     (case retry_slots dk slots (rs, w) of (slots', rest) \<Rightarrow> (None # slots', rest))"
| "retry_slots dk (Some entry # slots) (rs, w) =
     (case sd_remove_dir_all dk w (pc_path entry) of
        (RemovalFailed e, w') \<Rightarrow>
          (case retry_slots dk slots (rs, w') of (slots', rest) \<Rightarrow> (Some entry # slots', rest))
      | (_, w') \<Rightarrow>
          (case retry_slots dk slots
                  (rs\<lparr>rs_disk := atomic_sub (rs_disk rs) (pc_disk_bytes entry),
                      rs_memory := atomic_sub (rs_memory rs) (pc_memory_bytes entry)\<rparr>, w') of
             (slots', rest) \<Rightarrow> (None # slots', rest)))"

definition retry_cleanup :: "'w sort_disk \<Rightarrow> sort_resources \<times> 'w \<Rightarrow> sort_resources \<times> 'w" where
  "retry_cleanup dk rw =
     (case retry_slots dk (rs_pending (fst rw)) rw of (slots, rs, w) \<Rightarrow> (rs\<lparr>rs_pending := slots\<rparr>, w))"

fun free_slot :: "'a option list \<Rightarrow> nat option" where
  "free_slot [] = None"
| "free_slot (None # slots) = Some 0"
| "free_slot (Some _ # slots) = map_option Suc (free_slot slots)"

definition defer_cleanup :: "'w sort_disk \<Rightarrow> path \<Rightarrow> nat \<Rightarrow> sort_resources \<Rightarrow> sort_resources" where
  "defer_cleanup dk p disk_bytes rs =
     (case free_slot (rs_pending rs) of
        None \<Rightarrow> rs
      | Some i \<Rightarrow>
          (let bytes = sd_path_capacity dk p + sd_cleanup_entry_size dk in
           case reserve bytes True rs of
             (Inl _, rs') \<Rightarrow> rs'
           | (Inr memory, rs') \<Rightarrow>
               (release (memory\<lparr>rv_bytes := 0\<rparr>) rs')\<lparr>rs_pending := (rs_pending rs')
                  [i := Some \<lparr>pc_path = p, pc_disk_bytes = disk_bytes, pc_memory_bytes = bytes\<rparr>]\<rparr>))"

section \<open>Owner directories\<close>

record sort_owner =
  ow_path :: path
  ow_locked :: bool
  ow_retained_bytes :: nat

fun decimal_text :: "nat \<Rightarrow> bytes" where
  "decimal_text n = (if n < 10 then [] else decimal_text (n div 10)) @ [48 + word_of_nat (n mod 10)]"

declare decimal_text.simps [simp del]

definition sort_name_prefix :: bytes where
  "sort_name_prefix = ascii ''leanrows-sort-v1-''"

definition ordinary_directory :: "'w sort_disk \<Rightarrow> path \<Rightarrow> 'w \<Rightarrow> bool \<times> 'w" where
  "ordinary_directory dk p w =
     (case sd_path_metadata dk w p of
        (None, w') \<Rightarrow> (False, w')
      | (Some md, w') \<Rightarrow>
          (md_directory md \<and> \<not> md_symlink md \<and> and (md_attributes md) 0x400 = 0, w'))"

fun owner_attempts :: "'w sort_disk \<Rightarrow> path \<Rightarrow> nat \<Rightarrow> ('w, sort_error, sort_owner) run" where
  "owner_attempts dk directory 0 w = (Err InvalidScratch, w)"
| "owner_attempts dk directory (Suc k) w =
     (case sd_next_owner dk w of
        (n, w1) \<Rightarrow>
          let p = directory @ [sort_name_prefix @ decimal_text (sd_process_id dk) @ ascii ''-'' @ decimal_text n] in
          (case sd_create_dir dk w1 p of
             (Opened, w2) \<Rightarrow>
               (case sd_open_new dk w2 (p @ [ascii ''owner.lock'']) of
                  (None, w3) \<Rightarrow> (Ok \<lparr>ow_path = p, ow_locked = True, ow_retained_bytes = 0\<rparr>, w3)
                | (Some e, w3) \<Rightarrow> (Err (SortIo e), w3))
           | (AlreadyExists, w2) \<Rightarrow> owner_attempts dk directory k w2
           | (OpenFailed e, w2) \<Rightarrow> (Err (SortIo e), w2)))"

definition owner_create :: "'w sort_disk \<Rightarrow> path \<Rightarrow> ('w, sort_error, sort_owner) run" where
  "owner_create dk directory w =
     (case ordinary_directory dk directory w of
        (True, w') \<Rightarrow> owner_attempts dk directory 64 w'
      | (False, w') \<Rightarrow> (Err InvalidScratch, w'))"

text \<open>\<open>Drop for Owner\<close>: the lock is closed first.\<close>

definition owner_drop :: "'w sort_disk \<Rightarrow> sort_owner \<Rightarrow> sort_resources \<times> 'w \<Rightarrow> sort_resources \<times> 'w" where
  "owner_drop dk ow rw =
     (case sd_remove_dir_all dk (snd rw) (ow_path ow) of
        (FileRemoved, w') \<Rightarrow>
          ((fst rw)\<lparr>rs_disk := atomic_sub (rs_disk (fst rw)) (ow_retained_bytes ow)\<rparr>, w')
      | (_, w') \<Rightarrow>
          (if ow_retained_bytes ow \<noteq> 0 then defer_cleanup dk (ow_path ow) (ow_retained_bytes ow) (fst rw) else fst rw,
           w'))"

section \<open>The counters under interleaving\<close>

text \<open>
  The mutex around the deferred cleanups, and how far the thread that holds it has come: it looks at a
  slot, it has deleted the slot's directory, it has given back the disk bytes, then the memory too; or
  it is tracking the directory of a dropped owner, which kept \<open>k\<close> bytes.
\<close>

datatype pending_lock =
  Unlocked | Sweeping nat | Deleted nat | DiskFreed nat | BothFreed nat | Deferring path nat

text \<open>
  The state of a ledger shared by any number of threads: the leases that are alive, the owners with the
  bytes they keep for files they could not delete, the bytes whose owner could not even be tracked, the
  counter values that some thread has loaded for the peak and not stored yet, and the mutex.
\<close>

record ledger =
  lg_resources :: sort_resources
  lg_live :: "reservation multiset"
  lg_owners :: "(path \<times> nat) multiset"
  lg_lost :: nat
  lg_loaded :: "(bool \<times> nat) multiset"
  lg_lock :: pending_lock

definition ledger_new :: "nat \<Rightarrow> nat \<Rightarrow> ledger" where
  "ledger_new memory_limit disk_limit =
     \<lparr>lg_resources = resources_new memory_limit disk_limit, lg_live = {#}, lg_owners = {#}, lg_lost = 0,
      lg_loaded = {#}, lg_lock = Unlocked\<rparr>"

text \<open>What tracking a directory costs.\<close>

definition tracking_bytes :: "'w sort_disk \<Rightarrow> path \<Rightarrow> nat" where
  "tracking_bytes dk p = sd_path_capacity dk p + sd_cleanup_entry_size dk"

text \<open>
  One atomic step of some thread: the counter update of \<open>reserve\<close>, the load and the \<open>fetch_max\<close> of its
  peak, the merge of \<open>grow\<close>, the drop of a lease, a new owner, a file whose deletion failed, an owner
  whose directory is gone; an owner whose directory could not be deleted, which leaves nothing, or takes
  the mutex and is then tracked in the first free slot by a lease that was reserved for it, or given up;
  and the sweep of \<open>retry_cleanup\<close>, which looks at the slots in order and, only where the deletion
  succeeds or finds nothing, gives back the disk bytes, then the memory, then clears the slot.  The
  world a deletion is tried in is any.
\<close>

inductive ledger_step :: "'w sort_disk \<Rightarrow> ledger \<Rightarrow> ledger \<Rightarrow> bool" for dk where
  Take: "take_bytes n m (lg_resources g) = Some rs \<Longrightarrow>
     ledger_step dk g (g\<lparr>lg_resources := rs, lg_live := add_mset \<lparr>rv_bytes = n, rv_memory = m\<rparr> (lg_live g)\<rparr>)"
| Load: "ledger_step dk g (g\<lparr>lg_loaded := add_mset (m, counter m (lg_resources g)) (lg_loaded g)\<rparr>)"
| Peak: "lg_loaded g = add_mset (m, n) rest \<Longrightarrow>
     ledger_step dk g (g\<lparr>lg_resources := raise_peak m n (lg_resources g), lg_loaded := rest\<rparr>)"
| Merge: "lg_live g = add_mset r (add_mset a rest) \<Longrightarrow> rv_memory a = rv_memory r \<Longrightarrow>
     ledger_step dk g (g\<lparr>lg_live := add_mset (r\<lparr>rv_bytes := rv_bytes r + rv_bytes a\<rparr>) rest\<rparr>)"
| Drop: "lg_live g = add_mset r rest \<Longrightarrow>
     ledger_step dk g (g\<lparr>lg_resources := release r (lg_resources g), lg_live := rest\<rparr>)"
| Own: "ledger_step dk g (g\<lparr>lg_owners := add_mset (p, 0) (lg_owners g)\<rparr>)"
| Retain: "lg_live g = add_mset r rest \<Longrightarrow> \<not> rv_memory r \<Longrightarrow> lg_owners g = add_mset (p, k) owners \<Longrightarrow>
     fst (sd_remove_file dk w f) \<noteq> FileRemoved \<Longrightarrow>
     ledger_step dk g (g\<lparr>lg_live := rest, lg_owners := add_mset (p, k + rv_bytes r) owners\<rparr>)"
| Removed: "lg_owners g = add_mset (p, k) owners \<Longrightarrow> fst (sd_remove_dir_all dk w p) = FileRemoved \<Longrightarrow>
     ledger_step dk g (g\<lparr>lg_resources := (lg_resources g)\<lparr>rs_disk := atomic_sub (rs_disk (lg_resources g)) k\<rparr>,
       lg_owners := owners\<rparr>)"
| Left: "lg_owners g = add_mset (p, 0) owners \<Longrightarrow> fst (sd_remove_dir_all dk w p) \<noteq> FileRemoved \<Longrightarrow>
     ledger_step dk g (g\<lparr>lg_owners := owners\<rparr>)"
| Defer: "lg_lock g = Unlocked \<Longrightarrow> lg_owners g = add_mset (p, k) owners \<Longrightarrow> k \<noteq> 0 \<Longrightarrow>
     fst (sd_remove_dir_all dk w p) \<noteq> FileRemoved \<Longrightarrow>
     ledger_step dk g (g\<lparr>lg_owners := owners, lg_lock := Deferring p k\<rparr>)"
| Track: "lg_lock g = Deferring p k \<Longrightarrow> free_slot (rs_pending (lg_resources g)) = Some i \<Longrightarrow>
     n = tracking_bytes dk p \<Longrightarrow> lg_live g = add_mset \<lparr>rv_bytes = n, rv_memory = True\<rparr> rest \<Longrightarrow>
     ledger_step dk g (g\<lparr>lg_live := rest, lg_lock := Unlocked, lg_resources := (lg_resources g)
       \<lparr>rs_pending := (rs_pending (lg_resources g))
          [i := Some \<lparr>pc_path = p, pc_disk_bytes = k, pc_memory_bytes = n\<rparr>]\<rparr>\<rparr>)"
| Abandon: "lg_lock g = Deferring p k \<Longrightarrow>
     free_slot (rs_pending (lg_resources g)) = None \<or> take_bytes (tracking_bytes dk p) True (lg_resources g) = None \<Longrightarrow>
     ledger_step dk g (g\<lparr>lg_lost := lg_lost g + k, lg_lock := Unlocked\<rparr>)"
| Sweep: "lg_lock g = Unlocked \<Longrightarrow> ledger_step dk g (g\<lparr>lg_lock := Sweeping 0\<rparr>)"
| Skip: "lg_lock g = Sweeping i \<Longrightarrow> i < length (rs_pending (lg_resources g)) \<Longrightarrow>
     rs_pending (lg_resources g) ! i = None \<Longrightarrow>
     ledger_step dk g (g\<lparr>lg_lock := Sweeping (Suc i)\<rparr>)"
| Blocked: "lg_lock g = Sweeping i \<Longrightarrow> i < length (rs_pending (lg_resources g)) \<Longrightarrow>
     rs_pending (lg_resources g) ! i = Some entry \<Longrightarrow>
     fst (sd_remove_dir_all dk w (pc_path entry)) = RemovalFailed e \<Longrightarrow>
     ledger_step dk g (g\<lparr>lg_lock := Sweeping (Suc i)\<rparr>)"
| Delete: "lg_lock g = Sweeping i \<Longrightarrow> i < length (rs_pending (lg_resources g)) \<Longrightarrow>
     rs_pending (lg_resources g) ! i = Some entry \<Longrightarrow>
     fst (sd_remove_dir_all dk w (pc_path entry)) \<in> {FileRemoved, FileNotFound} \<Longrightarrow>
     ledger_step dk g (g\<lparr>lg_lock := Deleted i\<rparr>)"
| FreeDisk: "lg_lock g = Deleted i \<Longrightarrow> rs_pending (lg_resources g) ! i = Some entry \<Longrightarrow>
     ledger_step dk g (g\<lparr>lg_lock := DiskFreed i, lg_resources := (lg_resources g)
       \<lparr>rs_disk := atomic_sub (rs_disk (lg_resources g)) (pc_disk_bytes entry)\<rparr>\<rparr>)"
| FreeMemory: "lg_lock g = DiskFreed i \<Longrightarrow> rs_pending (lg_resources g) ! i = Some entry \<Longrightarrow>
     ledger_step dk g (g\<lparr>lg_lock := BothFreed i, lg_resources := (lg_resources g)
       \<lparr>rs_memory := atomic_sub (rs_memory (lg_resources g)) (pc_memory_bytes entry)\<rparr>\<rparr>)"
| Clear: "lg_lock g = BothFreed i \<Longrightarrow>
     ledger_step dk g (g\<lparr>lg_lock := Sweeping (Suc i), lg_resources := (lg_resources g)
       \<lparr>rs_pending := (rs_pending (lg_resources g))[i := None]\<rparr>\<rparr>)"
| Unlock: "lg_lock g = Sweeping (length (rs_pending (lg_resources g))) \<Longrightarrow>
     ledger_step dk g (g\<lparr>lg_lock := Unlocked\<rparr>)"

definition held :: "bool \<Rightarrow> reservation multiset \<Rightarrow> nat" where
  "held m live = (\<Sum>r\<in>#filter_mset (\<lambda>r. rv_memory r = m) live. rv_bytes r)"

definition slot_sum :: "(pending_cleanup \<Rightarrow> nat) \<Rightarrow> pending_cleanup option list \<Rightarrow> nat" where
  "slot_sum f slots = sum_list (map (case_option 0 f) slots)"

text \<open>The slots whose bytes a counter still holds, and the bytes of the owner that is being tracked.\<close>

fun charged_slots :: "bool \<Rightarrow> pending_lock \<Rightarrow> pending_cleanup option list \<Rightarrow> pending_cleanup option list" where
  "charged_slots m (DiskFreed i) slots = (if m then slots else slots[i := None])"
| "charged_slots m (BothFreed i) slots = slots[i := None]"
| "charged_slots m _ slots = slots"

fun deferring :: "pending_lock \<Rightarrow> nat" where
  "deferring (Deferring p k) = k"
| "deferring _ = 0"

definition charged :: "bool \<Rightarrow> ledger \<Rightarrow> nat" where
  "charged m g = held m (lg_live g) +
     slot_sum (if m then pc_memory_bytes else pc_disk_bytes)
       (charged_slots m (lg_lock g) (rs_pending (lg_resources g))) +
     (if m then 0 else \<Sum>\<^sub># (image_mset snd (lg_owners g)) + deferring (lg_lock g) + lg_lost g)"

definition lock_ok :: "pending_lock \<Rightarrow> pending_cleanup option list \<Rightarrow> bool" where
  "lock_ok lock slots \<longleftrightarrow>
     (\<forall>i. lock \<in> {Deleted i, DiskFreed i, BothFreed i} \<longrightarrow> i < length slots \<and> slots ! i \<noteq> None)"

definition ledger_inv :: "nat \<Rightarrow> nat \<Rightarrow> ledger \<Rightarrow> bool" where
  "ledger_inv memory_limit disk_limit g \<longleftrightarrow>
     rs_memory_limit (lg_resources g) = memory_limit \<and> rs_disk_limit (lg_resources g) = disk_limit
   \<and> length (rs_pending (lg_resources g)) = 64
   \<and> (\<forall>m. counter m (lg_resources g) = charged m g \<and> counter m (lg_resources g) \<le> limit m (lg_resources g))
   \<and> (\<forall>x \<in># lg_loaded g. snd x \<le> limit (fst x) (lg_resources g))
   \<and> rs_peak (lg_resources g) \<le> memory_limit \<and> rs_disk_peak (lg_resources g) \<le> disk_limit
   \<and> lock_ok (lg_lock g) (rs_pending (lg_resources g))"

lemma atomic_sub_nat:
  assumes "k \<le> n" "n \<le> u64_max" shows "atomic_sub n k = n - k"
proof -
  have k: "k mod 2 ^ 64 = k" using assms by (intro mod_less) simp
  have "n + 2 ^ 64 - k = (n - k) + 2 ^ 64" using assms(1) by simp
  then have "atomic_sub n k = (n - k) mod 2 ^ 64" unfolding atomic_sub_def k by (simp only: mod_add_self2)
  also have "\<dots> = n - k" using assms by (intro mod_less) simp
  finally show ?thesis .
qed

lemma ledger_fields [simp]:
  "counter m (set_counter m' n rs) = (if m = m' then n else counter m rs)"
  "limit m (set_counter m' n rs) = limit m rs"
  "rs_pending (set_counter m' n rs) = rs_pending rs"
  "rs_peak (set_counter m' n rs) = rs_peak rs" "rs_disk_peak (set_counter m' n rs) = rs_disk_peak rs"
  "counter m (raise_peak m' n rs) = counter m rs" "limit m (raise_peak m' n rs) = limit m rs"
  "rs_pending (raise_peak m' n rs) = rs_pending rs"
  by (simp_all add: counter_def set_counter_def limit_def raise_peak_def)

lemma held_simps [simp]:
  "held m {#} = 0"
  "held m (add_mset r live) = (if rv_memory r = m then rv_bytes r else 0) + held m live"
  by (simp_all add: held_def)




text \<open>What the composed operations do, by the atomic operations they are made of.\<close>

lemma take_bytes_Some:
  "take_bytes n m rs = Some rs' \<longleftrightarrow>
     counter m rs + n \<le> u64_max \<and> counter m rs + n \<le> limit m rs \<and> rs' = set_counter m (counter m rs + n) rs"
  by (auto simp: take_bytes_def checked_add_def)

lemma release_nothing: "counter m rs \<le> u64_max \<Longrightarrow> release \<lparr>rv_bytes = 0, rv_memory = m\<rparr> rs = rs"
  by (simp add: release_def atomic_sub_nat counter_def set_counter_def)

lemma reserve_cases:
  obtains (refused) "reserve n m rs = (Inl (if m then SortAllocation else SortQuota), rs)" "take_bytes n m rs = None"
  | (granted) rs' where "take_bytes n m rs = Some rs'"
      "reserve n m rs = (Inr \<lparr>rv_bytes = n, rv_memory = m\<rparr>, raise_peak m (counter m rs') rs')"
  by (cases "take_bytes n m rs") (simp_all add: reserve_def)

text \<open>Taking and giving back leaves the counters as they were.\<close>

lemma reserve_release:
  assumes "reserve n m rs = (Inr r, rs')" "counter m rs \<le> u64_max"
  shows "r = \<lparr>rv_bytes = n, rv_memory = m\<rparr>" "counter m' (release r rs') = counter m' rs"
  using assms by (auto simp: reserve_def take_bytes_Some release_def atomic_sub_nat split: option.splits)

lemma defer_cleanup_eq:
  assumes "rs_memory_limit rs \<le> u64_max"
  shows "defer_cleanup dk p k rs =
     (case free_slot (rs_pending rs) of
        None \<Rightarrow> rs
      | Some i \<Rightarrow>
          (if rs_memory rs + tracking_bytes dk p \<le> rs_memory_limit rs
           then (raise_peak True (rs_memory rs + tracking_bytes dk p)
                   (rs\<lparr>rs_memory := rs_memory rs + tracking_bytes dk p\<rparr>))
                \<lparr>rs_pending := (rs_pending rs)
                   [i := Some \<lparr>pc_path = p, pc_disk_bytes = k, pc_memory_bytes = tracking_bytes dk p\<rparr>]\<rparr>
           else rs))"
proof -
  let ?n = "tracking_bytes dk p"
  let ?rs = "rs\<lparr>rs_memory := rs_memory rs + ?n\<rparr>"
  have quiet: "release \<lparr>rv_bytes = 0, rv_memory = True\<rparr> (raise_peak True (rs_memory rs + ?n) ?rs)
      = raise_peak True (rs_memory rs + ?n) ?rs" if "rs_memory rs + ?n \<le> rs_memory_limit rs"
    using assms that by (intro release_nothing) (simp add: counter_def raise_peak_def)
  show ?thesis
  proof (cases rule: reserve_cases [of ?n True rs])
    case refused
    with assms have "\<not> rs_memory rs + ?n \<le> rs_memory_limit rs"
      by (auto simp: take_bytes_def checked_add_def counter_def limit_def)
    with refused(1) show ?thesis by (simp add: defer_cleanup_def tracking_bytes_def Let_def split: option.split)
  next
    case (granted rs')
    then have "rs' = ?rs" "rs_memory rs + ?n \<le> rs_memory_limit rs"
      by (simp_all add: take_bytes_Some set_counter_def counter_def limit_def)
    with granted(2) quiet show ?thesis
      by (simp add: defer_cleanup_def tracking_bytes_def Let_def counter_def raise_peak_def split: option.split)
  qed
qed

lemma ledger_invD:
  assumes "ledger_inv ml dl g" "ml \<le> u64_max" "dl \<le> u64_max"
  shows "rs_memory (lg_resources g) = charged True g" "rs_disk (lg_resources g) = charged False g"
    "charged True g \<le> ml" "charged False g \<le> dl" "charged True g \<le> u64_max" "charged False g \<le> u64_max"
  using assms by (auto simp: ledger_inv_def counter_def limit_def all_bool_eq)

lemma ledger_resources_simps [simp]:
  "limit m (rs\<lparr>rs_pending := ps\<rparr>) = limit m rs" "counter m (rs\<lparr>rs_pending := ps\<rparr>) = counter m rs"
  by (simp_all add: counter_def limit_def)

lemma ledger_invI:
  assumes "rs_memory_limit (lg_resources g) = ml" "rs_disk_limit (lg_resources g) = dl"
    and "length (rs_pending (lg_resources g)) = 64"
    and "rs_memory (lg_resources g) = charged True g" "rs_disk (lg_resources g) = charged False g"
    and "charged True g \<le> ml" "charged False g \<le> dl"
    and "\<forall>x \<in># lg_loaded g. snd x \<le> limit (fst x) (lg_resources g)"
    and "rs_peak (lg_resources g) \<le> ml" "rs_disk_peak (lg_resources g) \<le> dl"
    and "lock_ok (lg_lock g) (rs_pending (lg_resources g))"
  shows "ledger_inv ml dl g"
  using assms by (simp add: ledger_inv_def all_bool_eq counter_def limit_def)

lemma lock_ok_simps [simp]:
  "lock_ok Unlocked slots" "lock_ok (Sweeping i) slots" "lock_ok (Deferring p k) slots"
  "lock_ok (Deleted i) slots = (i < length slots \<and> slots ! i \<noteq> None)"
  "lock_ok (DiskFreed i) slots = (i < length slots \<and> slots ! i \<noteq> None)"
  "lock_ok (BothFreed i) slots = (i < length slots \<and> slots ! i \<noteq> None)"
  by (auto simp: lock_ok_def)

lemma ledger_new_inv: "ledger_inv ml dl (ledger_new ml dl)"
  by (rule ledger_invI) (simp_all add: ledger_new_def resources_new_def charged_def slot_sum_def sum_list_replicate)


section \<open>The operations are made of these steps\<close>

abbreviation ledger_run :: "'w sort_disk \<Rightarrow> ledger \<Rightarrow> ledger \<Rightarrow> bool" where
  "ledger_run dk \<equiv> (ledger_step dk)\<^sup>*\<^sup>*"

lemma reserve_run:
  assumes "reserve n m (lg_resources g) = (Inr r, rs)"
  shows "ledger_run dk g (g\<lparr>lg_resources := rs, lg_live := add_mset r (lg_live g)\<rparr>)"
proof (cases rule: reserve_cases [of n m "lg_resources g"])
  case (granted rs')
  let ?g1 = "g\<lparr>lg_resources := rs', lg_live := add_mset \<lparr>rv_bytes = n, rv_memory = m\<rparr> (lg_live g)\<rparr>"
  let ?g2 = "?g1\<lparr>lg_loaded := add_mset (m, counter m (lg_resources ?g1)) (lg_loaded ?g1)\<rparr>"
  let ?g3 = "?g2\<lparr>lg_resources := raise_peak m (counter m rs') (lg_resources ?g2), lg_loaded := lg_loaded g\<rparr>"
  have "ledger_step dk g ?g1" by (rule ledger_step.Take) (rule granted(1))
  moreover have "ledger_step dk ?g1 ?g2" by (rule ledger_step.Load)
  moreover have "ledger_step dk ?g2 ?g3" by (rule ledger_step.Peak) simp
  ultimately have "ledger_run dk g ?g3" by (meson converse_rtranclp_into_rtranclp rtranclp.rtrancl_refl)
  moreover have "?g3 = g\<lparr>lg_resources := rs, lg_live := add_mset r (lg_live g)\<rparr>"
    using assms granted(2) by simp
  ultimately show ?thesis by simp
qed (use assms in simp)

lemma reserve_counter:
  "reserve n m rs = (Inr r, rs') \<Longrightarrow> counter m rs' \<le> u64_max \<and> r = \<lparr>rv_bytes = n, rv_memory = m\<rparr>"
  by (auto simp: reserve_def take_bytes_Some split: option.splits)

lemma grow_run:
  assumes "grow n r (lg_resources g) = (Inr r', rs)" and "lg_live g = add_mset r rest"
  shows "ledger_run dk g (g\<lparr>lg_resources := rs, lg_live := add_mset r' rest\<rparr>)"
proof (cases "reserve n (rv_memory r) (lg_resources g)")
  case (Pair a rs1)
  with assms obtain addition where a: "a = Inr addition" by (cases a) (simp_all add: grow_def)
  note add = reserve_counter [OF Pair [unfolded a]]
  with assms(1) Pair a have r': "r' = r\<lparr>rv_bytes := rv_bytes r + rv_bytes addition\<rparr>" and rs: "rs = rs1"
    using release_nothing [of "rv_memory r" rs1] by (simp_all add: grow_def)
  let ?g1 = "g\<lparr>lg_resources := rs1, lg_live := add_mset addition (lg_live g)\<rparr>"
  have "ledger_run dk g ?g1" by (rule reserve_run [OF Pair [unfolded a]])
  also have "ledger_step dk ?g1 (?g1\<lparr>lg_live := add_mset r' rest\<rparr>)"
    unfolding r' by (rule ledger_step.Merge) (simp_all add: assms(2) add add_mset_commute)
  finally show ?thesis unfolding rs by simp
qed

section \<open>What each operation does\<close>

text \<open>
  The specification, on the fields themselves: whether a request fits, the ledger after it, and the
  ledger after bytes are given back.
\<close>

definition fits :: "nat \<Rightarrow> bool \<Rightarrow> sort_resources \<Rightarrow> bool" where
  "fits n m rs \<longleftrightarrow> (if m then rs_memory rs + n \<le> rs_memory_limit rs else rs_disk rs + n \<le> rs_disk_limit rs)"

definition after_reserve :: "nat \<Rightarrow> bool \<Rightarrow> sort_resources \<Rightarrow> sort_resources" where
  "after_reserve n m rs =
     (if m then rs\<lparr>rs_memory := rs_memory rs + n, rs_peak := max (rs_peak rs) (rs_memory rs + n)\<rparr>
      else rs\<lparr>rs_disk := rs_disk rs + n, rs_disk_peak := max (rs_disk_peak rs) (rs_disk rs + n)\<rparr>)"

definition after_release :: "nat \<Rightarrow> bool \<Rightarrow> sort_resources \<Rightarrow> sort_resources" where
  "after_release n m rs =
     (if m then rs\<lparr>rs_memory := rs_memory rs - n\<rparr> else rs\<lparr>rs_disk := rs_disk rs - n\<rparr>)"

text \<open>
  A dropped owner gives its bytes back only when its directory is gone.  Otherwise they stay charged:
  its directory goes into the first free slot, which costs memory, or nothing changes.
\<close>

definition first_free :: "'a option list \<Rightarrow> nat" where
  "first_free slots = length (takeWhile (\<lambda>s. s \<noteq> None) slots)"

definition after_owner_drop :: "removal \<Rightarrow> nat \<Rightarrow> path \<Rightarrow> nat \<Rightarrow> sort_resources \<Rightarrow> sort_resources" where
  "after_owner_drop removal n p k rs =
     (if removal = FileRemoved then after_release k False rs
      else if k \<noteq> 0 \<and> None \<in> set (rs_pending rs) \<and> fits n True rs then
        (after_reserve n True rs)\<lparr>rs_pending := (rs_pending rs)
           [first_free (rs_pending rs) := Some \<lparr>pc_path = p, pc_disk_bytes = k, pc_memory_bytes = n\<rparr>]\<rparr>
      else rs)"

text \<open>
  A sweep tries the deletion of every slot once, in order; the slots whose deletion succeeded or found
  nothing are cleared and give both their charges back, the others keep both.
\<close>

fun sweep_deletions :: "'w sort_disk \<Rightarrow> pending_cleanup option list \<Rightarrow> 'w \<Rightarrow> bool list \<times> 'w" where
  "sweep_deletions dk [] w = ([], w)"
| "sweep_deletions dk (None # slots) w = map_prod (Cons False) id (sweep_deletions dk slots w)"
| "sweep_deletions dk (Some entry # slots) w =
     (let (r, w') = sd_remove_dir_all dk w (pc_path entry)
      in map_prod (Cons (r = FileRemoved \<or> r = FileNotFound)) id (sweep_deletions dk slots w'))"

definition keep_slots :: "bool \<Rightarrow> bool list \<Rightarrow> 'a option list \<Rightarrow> 'a option list" where
  "keep_slots b deleted slots = map2 (\<lambda>d s. if d = b then s else None) deleted slots"

definition after_retry :: "bool list \<Rightarrow> sort_resources \<Rightarrow> sort_resources" where
  "after_retry deleted rs =
     (let gone = keep_slots True deleted (rs_pending rs)
      in rs\<lparr>rs_disk := rs_disk rs - slot_sum pc_disk_bytes gone,
            rs_memory := rs_memory rs - slot_sum pc_memory_bytes gone,
            rs_pending := keep_slots False deleted (rs_pending rs)\<rparr>)"

lemma keep_slots_simps [simp]:
  "keep_slots b [] [] = []"
  "keep_slots b (d # ds) (s # slots) = (if d = b then s else None) # keep_slots b ds slots"
  by (simp_all add: keep_slots_def)

lemma slot_sum_simps [simp]:
  "slot_sum f [] = 0" "slot_sum f (s # slots) = case_option 0 f s + slot_sum f slots"
  by (simp_all add: slot_sum_def)

lemma free_slot_first: "free_slot slots = (if None \<in> set slots then Some (first_free slots) else None)"
  by (induction slots rule: free_slot.induct) (auto simp: first_free_def)

section \<open>The exact effects\<close>

lemma reserve_effect:
  assumes "ledger_inv ml dl g" "ml \<le> u64_max" "dl \<le> u64_max"
  shows "reserve n m (lg_resources g) =
     (if fits n m (lg_resources g) then (Inr \<lparr>rv_bytes = n, rv_memory = m\<rparr>, after_reserve n m (lg_resources g))
      else (Inl (if m then SortAllocation else SortQuota), lg_resources g))"
proof -
  have "rs_memory_limit (lg_resources g) \<le> u64_max" "rs_disk_limit (lg_resources g) \<le> u64_max"
    using assms by (simp_all only: ledger_inv_def)
  then show ?thesis
    by (auto simp: reserve_def take_bytes_def checked_add_def counter_def limit_def set_counter_def raise_peak_def
        fits_def after_reserve_def)
qed

lemma release_effect:
  assumes "ledger_inv ml dl g" "ml \<le> u64_max" "dl \<le> u64_max" "lg_live g = add_mset r rest"
  shows "release r (lg_resources g) = after_release (rv_bytes r) (rv_memory r) (lg_resources g)"
  using ledger_invD [OF assms(1-3)] assms(4)
  by (auto simp: release_def after_release_def counter_def set_counter_def atomic_sub_nat charged_def)

lemma grow_effect:
  assumes inv: "ledger_inv ml dl g" "ml \<le> u64_max" "dl \<le> u64_max"
  shows "grow n r (lg_resources g) =
     (if fits n (rv_memory r) (lg_resources g)
      then (Inr (r\<lparr>rv_bytes := rv_bytes r + n\<rparr>), after_reserve n (rv_memory r) (lg_resources g))
      else (Inl (if rv_memory r then SortAllocation else SortQuota), lg_resources g))"
proof (cases "fits n (rv_memory r) (lg_resources g)")
  case True
  moreover have "rs_memory_limit (lg_resources g) \<le> u64_max" "rs_disk_limit (lg_resources g) \<le> u64_max"
    using assms by (simp_all only: ledger_inv_def)
  ultimately have "counter (rv_memory r) (after_reserve n (rv_memory r) (lg_resources g)) \<le> u64_max"
    by (auto simp: fits_def after_reserve_def counter_def)
  with True show ?thesis by (simp add: grow_def reserve_effect [OF inv] release_nothing)
qed (simp add: grow_def reserve_effect [OF inv])

lemma owner_drop_effect:
  assumes inv: "ledger_inv ml dl g" "ml \<le> u64_max" "dl \<le> u64_max"
    and own: "lg_owners g = add_mset (ow_path ow, ow_retained_bytes ow) owners"
  shows "owner_drop dk ow (lg_resources g, w) =
     (after_owner_drop (fst (sd_remove_dir_all dk w (ow_path ow))) (tracking_bytes dk (ow_path ow))
        (ow_path ow) (ow_retained_bytes ow) (lg_resources g), snd (sd_remove_dir_all dk w (ow_path ow)))"
proof -
  have le: "ow_retained_bytes ow \<le> rs_disk (lg_resources g)" "rs_disk (lg_resources g) \<le> u64_max"
    using ledger_invD [OF inv] own by (simp_all add: charged_def)
  have limit: "rs_memory_limit (lg_resources g) \<le> u64_max" using inv by (simp only: ledger_inv_def)
  obtain r w' where d: "sd_remove_dir_all dk w (ow_path ow) = (r, w')" by fastforce
  show ?thesis
    by (cases r)
       (auto simp: owner_drop_def d after_owner_drop_def after_release_def atomic_sub_nat le defer_cleanup_eq [OF limit]
          free_slot_first fits_def after_reserve_def raise_peak_def)
qed

lemma retry_slots_effect:
  "slot_sum pc_disk_bytes slots \<le> rs_disk rs \<Longrightarrow> slot_sum pc_memory_bytes slots \<le> rs_memory rs \<Longrightarrow>
   rs_disk rs \<le> u64_max \<Longrightarrow> rs_memory rs \<le> u64_max \<Longrightarrow> sweep_deletions dk slots w = (ds, w') \<Longrightarrow>
   retry_slots dk slots (rs, w) =
     (keep_slots False ds slots,
      rs\<lparr>rs_disk := rs_disk rs - slot_sum pc_disk_bytes (keep_slots True ds slots),
         rs_memory := rs_memory rs - slot_sum pc_memory_bytes (keep_slots True ds slots)\<rparr>, w')"
proof (induction slots arbitrary: rs w ds w')
  case (Cons slot slots)
  show ?case
  proof (cases slot)
    case None
    with Cons.prems(5) obtain ds' where s: "sweep_deletions dk slots w = (ds', w')" and ds: "ds = False # ds'"
      by (auto simp: map_prod_def split: prod.splits)
    have "slot_sum pc_disk_bytes slots \<le> rs_disk rs" "slot_sum pc_memory_bytes slots \<le> rs_memory rs"
      using Cons.prems(1,2) None by simp_all
    from Cons.IH [OF this Cons.prems(3,4) s] show ?thesis by (simp add: None ds)
  next
    case (Some entry)
    obtain r w1 where d: "sd_remove_dir_all dk w (pc_path entry) = (r, w1)" by fastforce
    obtain ds' where s: "sweep_deletions dk slots w1 = (ds', w')" and ds: "ds = (r = FileRemoved \<or> r = FileNotFound) # ds'"
      using Cons.prems(5) by (auto simp: Some d Let_def map_prod_def split: prod.splits)
    let ?rs = "rs\<lparr>rs_disk := rs_disk rs - pc_disk_bytes entry, rs_memory := rs_memory rs - pc_memory_bytes entry\<rparr>"
    have sub: "atomic_sub (rs_disk rs) (pc_disk_bytes entry) = rs_disk rs - pc_disk_bytes entry"
      "atomic_sub (rs_memory rs) (pc_memory_bytes entry) = rs_memory rs - pc_memory_bytes entry"
      using Cons.prems(1-4) Some by (simp_all add: atomic_sub_nat)
    show ?thesis
    proof (cases "r = FileRemoved \<or> r = FileNotFound")
      case True
      have "slot_sum pc_disk_bytes slots \<le> rs_disk ?rs" "slot_sum pc_memory_bytes slots \<le> rs_memory ?rs"
        "rs_disk ?rs \<le> u64_max" "rs_memory ?rs \<le> u64_max"
        using Cons.prems(1-4) Some by simp_all
      from Cons.IH [OF this s] True show ?thesis by (auto simp: Some d sub ds)
    next
      case False
      then obtain e where e: "r = RemovalFailed e" by (cases r) auto
      have "slot_sum pc_disk_bytes slots \<le> rs_disk rs" "slot_sum pc_memory_bytes slots \<le> rs_memory rs"
        using Cons.prems(1,2) Some by simp_all
      from Cons.IH [OF this Cons.prems(3,4) s] show ?thesis by (simp add: Some d e ds)
    qed
  qed
qed simp

lemma retry_slots_keeps_pending: "retry_slots dk slots (rs, w) = (s, rs', w') \<Longrightarrow> rs_pending rs' = rs_pending rs"
  by (induction dk slots "(rs, w)" arbitrary: rs w s rs' w' rule: retry_slots.induct)
     (force split: prod.splits removal.splits)+

lemma retry_slots_length: "retry_slots dk slots (rs, w) = (s, rs', w') \<Longrightarrow> length s = length slots"
  by (induction dk slots "(rs, w)" arbitrary: rs w s rs' w' rule: retry_slots.induct)
     (force split: prod.splits removal.splits)+

lemma retry_cleanup_effect:
  assumes inv: "ledger_inv ml dl g" "ml \<le> u64_max" "dl \<le> u64_max" and lock: "lg_lock g = Unlocked"
    and swept: "sweep_deletions dk (rs_pending (lg_resources g)) w = (ds, w')"
  shows "retry_cleanup dk (lg_resources g, w) = (after_retry ds (lg_resources g), w')"
proof -
  let ?rs = "lg_resources g"
  note now = ledger_invD [OF inv]
  have "slot_sum pc_disk_bytes (rs_pending ?rs) \<le> rs_disk ?rs" "slot_sum pc_memory_bytes (rs_pending ?rs) \<le> rs_memory ?rs"
    "rs_disk ?rs \<le> u64_max" "rs_memory ?rs \<le> u64_max"
    using now lock by (simp_all add: charged_def)
  from retry_slots_effect [OF this swept] show ?thesis by (simp add: retry_cleanup_def after_retry_def Let_def)
qed

section \<open>The runs of the operations\<close>

text \<open>A slot whose directory is gone, and an owner that is tracked.\<close>

lemma four_steps: "R a b \<Longrightarrow> R b c \<Longrightarrow> R c d \<Longrightarrow> R d e \<Longrightarrow> R\<^sup>*\<^sup>* a e"
  by (meson converse_rtranclp_into_rtranclp rtranclp.rtrancl_refl)

lemma freed_slot_run:
  assumes lock: "lg_lock g = Sweeping i" and i: "i < length (rs_pending (lg_resources g))"
    and entry: "rs_pending (lg_resources g) ! i = Some entry"
    and gone: "fst (sd_remove_dir_all dk w (pc_path entry)) \<in> {FileRemoved, FileNotFound}"
  shows "ledger_run dk g (g\<lparr>lg_resources := (lg_resources g)
     \<lparr>rs_disk := atomic_sub (rs_disk (lg_resources g)) (pc_disk_bytes entry),
      rs_memory := atomic_sub (rs_memory (lg_resources g)) (pc_memory_bytes entry),
      rs_pending := (rs_pending (lg_resources g))[i := None]\<rparr>, lg_lock := Sweeping (Suc i)\<rparr>)"
proof -
  let ?g1 = "g\<lparr>lg_lock := Deleted i\<rparr>"
  let ?g2 = "?g1\<lparr>lg_lock := DiskFreed i, lg_resources := (lg_resources g)
    \<lparr>rs_disk := atomic_sub (rs_disk (lg_resources g)) (pc_disk_bytes entry)\<rparr>\<rparr>"
  let ?g3 = "?g2\<lparr>lg_lock := BothFreed i, lg_resources := (lg_resources ?g2)
    \<lparr>rs_memory := atomic_sub (rs_memory (lg_resources ?g2)) (pc_memory_bytes entry)\<rparr>\<rparr>"
  have "ledger_step dk g ?g1" by (rule ledger_step.Delete [OF lock i entry gone])
  moreover have "ledger_step dk ?g1 ?g2" using ledger_step.FreeDisk [of ?g1 i entry dk] entry by simp
  moreover have "ledger_step dk ?g2 ?g3" by (rule ledger_step.FreeMemory) (simp_all add: entry)
  moreover have "ledger_step dk ?g3 (g\<lparr>lg_resources := (lg_resources g)
     \<lparr>rs_disk := atomic_sub (rs_disk (lg_resources g)) (pc_disk_bytes entry),
      rs_memory := atomic_sub (rs_memory (lg_resources g)) (pc_memory_bytes entry),
      rs_pending := (rs_pending (lg_resources g))[i := None]\<rparr>, lg_lock := Sweeping (Suc i)\<rparr>)"
    using ledger_step.Clear [of ?g3 i dk] by (cases g) simp
  ultimately show ?thesis by (rule four_steps)
qed

lemma tracked_run:
  assumes inv: "ledger_inv ml dl g" "ml \<le> u64_max" "dl \<le> u64_max" and lock: "lg_lock g = Unlocked"
    and own: "lg_owners g = add_mset (p, k) owners" and k: "k \<noteq> 0"
    and kept: "fst (sd_remove_dir_all dk w p) \<noteq> FileRemoved"
    and room: "None \<in> set (rs_pending (lg_resources g))" "fits (tracking_bytes dk p) True (lg_resources g)"
  shows "ledger_run dk g (g\<lparr>lg_owners := owners, lg_resources :=
    (after_reserve (tracking_bytes dk p) True (lg_resources g))
      \<lparr>rs_pending := (rs_pending (lg_resources g))[first_free (rs_pending (lg_resources g)) :=
         Some \<lparr>pc_path = p, pc_disk_bytes = k, pc_memory_bytes = tracking_bytes dk p\<rparr>]\<rparr>\<rparr>)" (is "ledger_run dk g ?h")
proof -
  let ?n = "tracking_bytes dk p" and ?rs = "lg_resources g"
  let ?r = "\<lparr>rv_bytes = ?n, rv_memory = True\<rparr>"
  let ?g1 = "g\<lparr>lg_owners := owners, lg_lock := Deferring p k\<rparr>"
  let ?g2 = "?g1\<lparr>lg_resources := after_reserve ?n True ?rs, lg_live := add_mset ?r (lg_live g)\<rparr>"
  have slot: "free_slot (rs_pending (lg_resources ?g2)) = Some (first_free (rs_pending ?rs))"
    using room(1) by (simp add: free_slot_first after_reserve_def)
  have "ledger_run dk g ?g1"
    by (rule r_into_rtranclp, rule ledger_step.Defer [OF lock own k kept])
  also have "ledger_run dk ?g1 ?g2"
    using reserve_run [of ?n True ?g1 ?r "after_reserve ?n True ?rs" dk] reserve_effect [OF inv, of ?n True] room(2)
    by simp
  also have "ledger_step dk ?g2 ?h"
  proof -
    have "?h = ?g2\<lparr>lg_live := lg_live g, lg_lock := Unlocked, lg_resources := (lg_resources ?g2)
        \<lparr>rs_pending := (rs_pending (lg_resources ?g2))[first_free (rs_pending ?rs) :=
           Some \<lparr>pc_path = p, pc_disk_bytes = k, pc_memory_bytes = ?n\<rparr>]\<rparr>\<rparr>"
      by (cases g) (use lock in \<open>simp add: after_reserve_def\<close>)
    moreover have "ledger_step dk ?g2 \<dots>" by (rule ledger_step.Track [OF _ slot refl]) simp_all
    ultimately show ?thesis by simp
  qed
  finally show ?thesis .
qed

lemma owner_drop_run:
  assumes inv: "ledger_inv ml dl g" "ml \<le> u64_max" "dl \<le> u64_max" and lock: "lg_lock g = Unlocked"
    and own: "lg_owners g = add_mset (p, k) owners" and removal: "fst (sd_remove_dir_all dk w p) = r"
  shows "ledger_run dk g (g\<lparr>lg_resources := after_owner_drop r (tracking_bytes dk p) p k (lg_resources g),
      lg_owners := owners,
      lg_lost := lg_lost g + (if r = FileRemoved \<or> None \<in> set (rs_pending (lg_resources g))
        \<and> fits (tracking_bytes dk p) True (lg_resources g) then 0 else k)\<rparr>)"
    (is "ledger_run dk g ?h")
proof -
  let ?n = "tracking_bytes dk p" and ?rs = "lg_resources g"
  note now = ledger_invD [OF inv]
  have unlocked: "?h\<lparr>lg_lock := Unlocked\<rparr> = ?h" using lock by (cases g) simp
  have k: "k \<le> rs_disk ?rs" using now own by (simp add: charged_def)
  consider (gone) "r = FileRemoved" | (unused) "r \<noteq> FileRemoved" "k = 0"
    | (tracked) "r \<noteq> FileRemoved" "k \<noteq> 0" "None \<in> set (rs_pending ?rs)" "fits ?n True ?rs"
    | (lost) "r \<noteq> FileRemoved" "k \<noteq> 0" "\<not> (None \<in> set (rs_pending ?rs) \<and> fits ?n True ?rs)" by blast
  then show ?thesis
  proof cases
    case gone
    from ledger_step.Removed [OF own removal [unfolded gone]] gone k now show ?thesis
      by (simp add: after_owner_drop_def after_release_def atomic_sub_nat)
  next
    case unused
    then have "?h = g\<lparr>lg_owners := owners\<rparr>" by (simp add: after_owner_drop_def)
    moreover have "ledger_step dk g (g\<lparr>lg_owners := owners\<rparr>)"
      by (rule ledger_step.Left [OF own [unfolded unused(2)], of _ w]) (use removal unused(1) in simp)
    ultimately show ?thesis by simp
  next
    case tracked
    have "?h = g\<lparr>lg_owners := owners, lg_resources := (after_reserve ?n True ?rs)
        \<lparr>rs_pending := (rs_pending ?rs)[first_free (rs_pending ?rs) :=
           Some \<lparr>pc_path = p, pc_disk_bytes = k, pc_memory_bytes = ?n\<rparr>]\<rparr>\<rparr>"
      by (cases g) (use tracked in \<open>simp add: after_owner_drop_def\<close>)
    with tracked_run [OF inv lock own, of dk w] removal tracked show ?thesis by simp
  next
    case lost
    let ?g1 = "g\<lparr>lg_owners := owners, lg_lock := Deferring p k\<rparr>"
    have "take_bytes ?n True ?rs = None" if "\<not> fits ?n True ?rs"
      using that by (auto simp: take_bytes_def fits_def counter_def limit_def checked_add_def)
    then have full: "free_slot (rs_pending ?rs) = None \<or> take_bytes ?n True ?rs = None"
      using lost(3) by (auto simp: free_slot_first)
    have "ledger_step dk g ?g1"
      by (rule ledger_step.Defer [OF lock own lost(2), where w = w]) (use removal lost(1) in simp)
    also have "ledger_run dk ?g1 (?h\<lparr>lg_lock := Unlocked\<rparr>)"
      using ledger_step.Abandon [of ?g1 p k dk] full lost lock by (auto simp: after_owner_drop_def intro: r_into_rtranclp)
    finally show ?thesis by (simp only: unlocked)
  qed
qed

text \<open>The sweep from slot \<open>length pre\<close> on.\<close>

lemma retry_slots_run:
  "retry_slots dk slots (rs, w) = (slots', rs', w') \<Longrightarrow>
     ledger_run dk (g\<lparr>lg_resources := rs\<lparr>rs_pending := pre @ slots\<rparr>, lg_lock := Sweeping (length pre)\<rparr>)
       (g\<lparr>lg_resources := rs'\<lparr>rs_pending := pre @ slots'\<rparr>, lg_lock := Sweeping (length pre + length slots)\<rparr>)"
proof (induction slots arbitrary: rs w slots' rs' w' pre)
  case (Cons slot slots)
  let ?g = "g\<lparr>lg_resources := rs\<lparr>rs_pending := pre @ slot # slots\<rparr>, lg_lock := Sweeping (length pre)\<rparr>"
  show ?case
  proof (cases slot)
    case None
    with Cons.prems obtain s where s: "retry_slots dk slots (rs, w) = (s, rs', w')" "slots' = None # s"
      by (auto split: prod.splits)
    have "ledger_step dk ?g (?g\<lparr>lg_lock := Sweeping (Suc (length pre))\<rparr>)"
      by (rule ledger_step.Skip) (simp_all add: None)
    also have "ledger_run dk \<dots> (g\<lparr>lg_resources := rs'\<lparr>rs_pending := pre @ slots'\<rparr>,
        lg_lock := Sweeping (length pre + length (slot # slots))\<rparr>)"
      using Cons.IH [OF s(1), of "pre @ [None]"] None s(2) by simp
    finally show ?thesis .
  next
    case (Some entry)
    let ?rs = "rs\<lparr>rs_disk := atomic_sub (rs_disk rs) (pc_disk_bytes entry),
        rs_memory := atomic_sub (rs_memory rs) (pc_memory_bytes entry)\<rparr>"
    obtain r w1 where d: "sd_remove_dir_all dk w (pc_path entry) = (r, w1)" by fastforce
    show ?thesis
    proof (cases "\<exists>e. r = RemovalFailed e")
      case True
      then obtain e where e: "r = RemovalFailed e" by blast
      with Cons.prems Some d obtain s where s: "retry_slots dk slots (rs, w1) = (s, rs', w')" "slots' = Some entry # s"
        by (auto split: prod.splits)
      have "ledger_step dk ?g (?g\<lparr>lg_lock := Sweeping (Suc (length pre))\<rparr>)"
        by (rule ledger_step.Blocked [of _ _ entry _ w e]) (simp_all add: Some d e)
      also have "ledger_run dk \<dots> (g\<lparr>lg_resources := rs'\<lparr>rs_pending := pre @ slots'\<rparr>,
          lg_lock := Sweeping (length pre + length (slot # slots))\<rparr>)"
        using Cons.IH [OF s(1), of "pre @ [Some entry]"] Some s(2) by simp
      finally show ?thesis .
    next
      case False
      then have r: "r \<in> {FileRemoved, FileNotFound}" by (cases r) auto
      with Cons.prems Some d obtain s where s: "retry_slots dk slots (?rs, w1) = (s, rs', w')" "slots' = None # s"
        by (auto split: prod.splits)
      let ?g4 = "g\<lparr>lg_resources := ?rs\<lparr>rs_pending := (pre @ [None]) @ slots\<rparr>,
          lg_lock := Sweeping (length (pre @ [None]))\<rparr>"
      have run: "ledger_run dk ?g ?g4"
        using freed_slot_run [of ?g "length pre" entry dk w] r d by (simp add: Some)
      from Cons.IH [OF s(1), of "pre @ [None]"] s(2)
      have "ledger_run dk ?g4 (g\<lparr>lg_resources := rs'\<lparr>rs_pending := pre @ slots'\<rparr>,
          lg_lock := Sweeping (length pre + length (slot # slots))\<rparr>)"
        by simp
      with run show ?thesis by (rule rtranclp_trans)
    qed
  qed
qed simp

lemma retry_cleanup_run:
  assumes "retry_cleanup dk (lg_resources g, w) = (rs, w')" and lock: "lg_lock g = Unlocked"
  shows "ledger_run dk g (g\<lparr>lg_resources := rs\<rparr>)"
proof -
  let ?n = "length (rs_pending (lg_resources g))"
  obtain s rs1 where r: "retry_slots dk (rs_pending (lg_resources g)) (lg_resources g, w) = (s, rs1, w')"
    and rs: "rs = rs1\<lparr>rs_pending := s\<rparr>"
    using assms by (auto simp: retry_cleanup_def split: prod.splits)
  have n: "length s = ?n" by (rule retry_slots_length [OF r])
  have unlocked: "g\<lparr>lg_resources := rs, lg_lock := Unlocked\<rparr> = g\<lparr>lg_resources := rs\<rparr>"
    using lock by (cases g) simp
  have "ledger_step dk g (g\<lparr>lg_lock := Sweeping 0\<rparr>)" by (rule ledger_step.Sweep) (rule lock)
  also have "ledger_run dk (g\<lparr>lg_lock := Sweeping 0\<rparr>) (g\<lparr>lg_resources := rs, lg_lock := Sweeping ?n\<rparr>)"
    using retry_slots_run [OF r, where g = g and pre = "[]"] by (simp add: rs)
  also have "ledger_step dk \<dots> (g\<lparr>lg_resources := rs\<rparr>)"
    using ledger_step.Unlock [of "g\<lparr>lg_resources := rs, lg_lock := Sweeping ?n\<rparr>" dk] n by (simp add: rs unlocked [unfolded rs])
  finally show ?thesis .
qed

section \<open>Properties\<close>


text \<open>A disk on which every request moves all its bytes and every call succeeds.\<close>

definition ready_disk :: "'w sort_disk" where
  "ready_disk = \<lparr>sd_write = (\<lambda>w n. (Inr n, w)), sd_read = (\<lambda>w n. (Inr n, w)), sd_open_new = (\<lambda>w p. (None, w)),
     sd_clone = (\<lambda>w. (None, w)), sd_set_len = (\<lambda>w n. (None, w)), sd_metadata = (\<lambda>w. (None, w)),
     sd_path_metadata = (\<lambda>w p. (Some \<lparr>md_directory = True, md_symlink = False, md_attributes = 0\<rparr>, w)),
     sd_create_dir = (\<lambda>w p. (Opened, w)), sd_remove_file = (\<lambda>w p. (FileRemoved, w)),
     sd_remove_dir_all = (\<lambda>w p. (FileRemoved, w)), sd_next_owner = (\<lambda>w. (0, w)), sd_process_id = 1,
     sd_path_capacity = (\<lambda>p. 64), sd_cleanup_entry_size = 48, sd_descriptor_size = 128\<rparr>"


text \<open>
  C29. Each operation of the ledger does exactly what it promises, by atomic steps.  A reservation or
  a growing lease succeeds exactly when the bytes fit within the limit, adds them to its counter and
  raises its peak; refused, it changes nothing.  A dropped lease gives back its bytes.  A dropped owner
  gives back the bytes it kept only when its directory was deleted; otherwise they stay charged and the
  directory is tracked while a slot is free and the memory to track it fits.  A retry gives back the
  charges of the slots whose deletion succeeded or found nothing, and no others.  Each of them, where it
  changes the ledger, is a run of the atomic steps that other threads may interleave with.
\<close>

theorem ledger_operations_refine_steps:
  assumes "ledger_inv ml dl g" "ml \<le> u64_max" "dl \<le> u64_max"
  shows "(\<forall>n m. if fits n m (lg_resources g)
        then reserve n m (lg_resources g) = (Inr \<lparr>rv_bytes = n, rv_memory = m\<rparr>, after_reserve n m (lg_resources g))
          \<and> ledger_run dk g (g\<lparr>lg_resources := after_reserve n m (lg_resources g),
               lg_live := add_mset \<lparr>rv_bytes = n, rv_memory = m\<rparr> (lg_live g)\<rparr>)
        else reserve n m (lg_resources g) = (Inl (if m then SortAllocation else SortQuota), lg_resources g))
    \<and> (\<forall>n b m rest. lg_live g = add_mset \<lparr>rv_bytes = b, rv_memory = m\<rparr> rest \<longrightarrow>
        (if fits n m (lg_resources g)
         then grow n \<lparr>rv_bytes = b, rv_memory = m\<rparr> (lg_resources g)
              = (Inr \<lparr>rv_bytes = b + n, rv_memory = m\<rparr>, after_reserve n m (lg_resources g))
          \<and> ledger_run dk g (g\<lparr>lg_resources := after_reserve n m (lg_resources g),
               lg_live := add_mset \<lparr>rv_bytes = b + n, rv_memory = m\<rparr> rest\<rparr>)
         else grow n \<lparr>rv_bytes = b, rv_memory = m\<rparr> (lg_resources g)
              = (Inl (if m then SortAllocation else SortQuota), lg_resources g)))
    \<and> (\<forall>b m rest. lg_live g = add_mset \<lparr>rv_bytes = b, rv_memory = m\<rparr> rest \<longrightarrow>
        release \<lparr>rv_bytes = b, rv_memory = m\<rparr> (lg_resources g) = after_release b m (lg_resources g)
        \<and> ledger_run dk g (g\<lparr>lg_resources := after_release b m (lg_resources g), lg_live := rest\<rparr>))
    \<and> (\<forall>p l k owners w r w'. lg_lock g = Unlocked \<longrightarrow> lg_owners g = add_mset (p, k) owners \<longrightarrow>
        sd_remove_dir_all dk w p = (r, w') \<longrightarrow>
        owner_drop dk \<lparr>ow_path = p, ow_locked = l, ow_retained_bytes = k\<rparr> (lg_resources g, w)
          = (after_owner_drop r (tracking_bytes dk p) p k (lg_resources g), w')
        \<and> ledger_run dk g (g\<lparr>lg_resources := after_owner_drop r (tracking_bytes dk p) p k (lg_resources g),
             lg_owners := owners,
             lg_lost := lg_lost g + (if r = FileRemoved \<or> None \<in> set (rs_pending (lg_resources g))
               \<and> fits (tracking_bytes dk p) True (lg_resources g) then 0 else k)\<rparr>))
    \<and> (\<forall>w ds w'. lg_lock g = Unlocked \<longrightarrow> sweep_deletions dk (rs_pending (lg_resources g)) w = (ds, w') \<longrightarrow>
        retry_cleanup dk (lg_resources g, w) = (after_retry ds (lg_resources g), w')
        \<and> ledger_run dk g (g\<lparr>lg_resources := after_retry ds (lg_resources g)\<rparr>))"
proof (intro conjI allI impI, goal_cases)
  case (1 n m)
  from reserve_effect [OF assms, of n m] reserve_run [of n m g _ _ dk] show ?case by simp
next
  case (2 n b m rest)
  from grow_effect [OF assms, of n "\<lparr>rv_bytes = b, rv_memory = m\<rparr>"] grow_run [OF _ 2, of n _ _ dk]
  show ?case by simp
next
  case (3 b m rest)
  from release_effect [OF assms 3] show ?case by simp
next
  case (4 b m rest)
  from ledger_step.Drop [OF 4, of dk] release_effect [OF assms 4] show ?case by (simp add: r_into_rtranclp)
next
  case (5 p l k owners w r w')
  with owner_drop_effect [OF assms, of "\<lparr>ow_path = p, ow_locked = l, ow_retained_bytes = k\<rparr>" owners dk w]
  show ?case by simp
next
  case (6 p l k owners w r w')
  then show ?case by (intro owner_drop_run [OF assms, where w = w]) simp_all
next
  case (7 w ds w')
  then show ?case by (intro retry_cleanup_effect [OF assms])
next
  case (8 w ds w')
  from retry_cleanup_run [OF retry_cleanup_effect [OF assms 8] 8(1)] show ?case .
qed

text \<open>A disk that never deletes a directory: the dropped owner is tracked, and a retry keeps its charges.\<close>

lemma ledger_operations_refine_steps_witness:
  "reserve 70 True (resources_new 100 50)
     = (Inr \<lparr>rv_bytes = 70, rv_memory = True\<rparr>, (resources_new 100 50)\<lparr>rs_memory := 70, rs_peak := 70\<rparr>)
   \<and> reserve 51 False (resources_new 100 50) = (Inl SortQuota, resources_new 100 50)
   \<and> ledger_run (ready_disk :: unit sort_disk) (ledger_new 100 50)
         ((ledger_new 100 50)\<lparr>lg_resources := (resources_new 100 50)\<lparr>rs_memory := 70, rs_peak := 70\<rparr>,
            lg_live := {#\<lparr>rv_bytes = 70, rv_memory = True\<rparr>#}\<rparr>)"
proof -
  have g: "lg_resources (ledger_new 100 50) = resources_new 100 50" "lg_live (ledger_new 100 50) = {#}"
    by (simp_all add: ledger_new_def)
  have fit: "fits 70 True (resources_new 100 50)" "\<not> fits 51 False (resources_new 100 50)"
    "after_reserve 70 True (resources_new 100 50) = (resources_new 100 50)\<lparr>rs_memory := 70, rs_peak := 70\<rparr>"
    by (simp_all add: fits_def resources_new_def after_reserve_def)
  have le: "100 \<le> u64_max" "50 \<le> u64_max" by simp_all
  note all = ledger_operations_refine_steps [where dk = "ready_disk :: unit sort_disk", OF ledger_new_inv le]
  from all [THEN conjunct1, rule_format, of 70 True] all [THEN conjunct1, rule_format, of 51 False]
  show ?thesis by (simp add: fit g)
qed

end
