(* ===== verification/Sort_Disk.thy ===== *)
theory Sort_Disk imports Sort_Ledger begin

text \<open>
  The scratch files of a sort (\<open>DiskFile\<close>, \<open>ReadPage\<close>, \<open>SortedOrder\<close>, the 128-byte descriptor and the
  helpers around them in \<open>crates/leanrows-core/src/sort/storage.rs\<close>).  A file is its bytes and its
  cursor, which every handle of it shares; \<open>seek_read\<close> and \<open>seek_write\<close> move the cursor, as they do on
  Windows.  The buffered writer of the standard library is its 64 KiB buffer.  How many bytes a
  request moves is up to the disk.
\<close>

section \<open>Files\<close>

record disk_file =
  df_path :: path
  df_data :: bytes
  df_position :: nat
  df_bytes :: nat
  df_reservation :: reservation
  df_writer :: "bytes option"
  df_buffer_memory :: "reservation option"

text \<open>What the files of one sort share.\<close>

record sort_shared =
  sh_resources :: sort_resources
  sh_owner :: sort_owner

type_synonym ('w, 'a) shared_run = "(sort_shared \<times> 'w, sort_error, 'a) run"
type_synonym ('w, 'a) file_run = "((disk_file \<times> sort_shared) \<times> 'w, sort_error, 'a) run"

definition write_buffer_bytes :: nat where
  "write_buffer_bytes = 64 * 1024"

text \<open>The error kind the library reports when a write moves nothing.\<close>

definition write_zero :: io_error where
  "write_zero = IoOther 0"

definition overwrite :: "nat \<Rightarrow> bytes \<Rightarrow> bytes \<Rightarrow> bytes" where
  "overwrite at bs data = take at data @ replicate (at - length data) 0 @ bs @ drop (at + length bs) data"

definition resize :: "nat \<Rightarrow> bytes \<Rightarrow> bytes" where
  "resize n data = take n data @ replicate (n - length data) 0"

definition with_resources :: "(sort_resources \<Rightarrow> sort_resources) \<Rightarrow> sort_shared \<Rightarrow> sort_shared" where
  "with_resources f sh = sh\<lparr>sh_resources := f (sh_resources sh)\<rparr>"

text \<open>An operation of the ledger within a run.\<close>

definition ledger_call ::
    "(sort_resources \<Rightarrow> (sort_error + 'a) \<times> sort_resources) \<Rightarrow> ('w, 'a) shared_run" where
  "ledger_call f sw =
     (case f (sh_resources (fst sw)) of
        (Inl e, rs) \<Rightarrow> (Err e, ((fst sw)\<lparr>sh_resources := rs\<rparr>, snd sw))
      | (Inr a, rs) \<Rightarrow> (Ok a, ((fst sw)\<lparr>sh_resources := rs\<rparr>, snd sw)))"

text \<open>A call of the system that answers with an error or nothing.\<close>

definition system_call :: "('w \<Rightarrow> io_error option \<times> 'w) \<Rightarrow> ('w, sort_error, unit) run" where
  "system_call f w = (case f w of (Some e, w') \<Rightarrow> (Err (SortIo e), w') | (None, w') \<Rightarrow> (Ok (), w'))"

text \<open>What a failed operation does on its way out.\<close>

definition on_failure :: "('s, 'e, 'a) run \<Rightarrow> ('s \<Rightarrow> 's) \<Rightarrow> ('s, 'e, 'a) run" where
  "on_failure m undo s = (case m s of (Err e, s') \<Rightarrow> (Err e, undo s') | r \<Rightarrow> r)"

definition release_shared :: "reservation \<Rightarrow> sort_shared \<times> 'w \<Rightarrow> sort_shared \<times> 'w" where
  "release_shared r sw = (with_resources (release r) (fst sw), snd sw)"

definition disk_file_create :: "'w sort_disk \<Rightarrow> bytes \<Rightarrow> ('w, disk_file) shared_run" where
  "disk_file_create dk name =
     with_state (\<lambda>sh. let p = ow_path (sh_owner sh) @ [name] in
       and_then (on_world (system_call (\<lambda>w. sd_open_new dk w p))) (\<lambda>_.
       and_then (ledger_call (reserve write_buffer_bytes True)) (\<lambda>memory.
       on_failure
         (and_then (on_world (system_call (sd_clone dk))) (\<lambda>_.
          and_then (ledger_call (reserve 0 False)) (\<lambda>r.
          give \<lparr>df_path = p, df_data = [], df_position = 0, df_bytes = 0, df_reservation = r,
                df_writer = Some [], df_buffer_memory = Some memory\<rparr>)))
         (release_shared memory))))"

text \<open>One write request at the cursor.\<close>

definition write_request :: "'w sort_disk \<Rightarrow> bytes \<Rightarrow> ('w, nat) file_run" where
  "write_request dk bs sw =
     (case sw of ((f, sh), w) \<Rightarrow>
        (case sd_write dk w (length bs) of
           (Inl e, w') \<Rightarrow> (Err (SortIo e), ((f, sh), w'))
         | (Inr k, w') \<Rightarrow>
             (let moved = take k bs in
              (Ok (length moved),
               ((f\<lparr>df_data := overwrite (df_position f) moved (df_data f),
                   df_position := df_position f + length moved\<rparr>, sh), w')))))"

definition count_request :: "('w, unit) file_run" where
  "count_request = update_state (\<lambda>(f, sh). (f, with_resources count_write sh))"

text \<open>\<open>Write for CountedFile\<close>.\<close>

definition counted_write :: "'w sort_disk \<Rightarrow> bytes \<Rightarrow> ('w, nat) file_run" where
  "counted_write dk bs = and_then count_request (\<lambda>_. write_request dk bs)"

text \<open>\<open>write_all\<close> of the library, for the counted file and for the plain one.\<close>

fun write_all :: "nat \<Rightarrow> (bytes \<Rightarrow> ('w, nat) file_run) \<Rightarrow> bytes \<Rightarrow> ('w, unit) file_run" where
  "write_all fuel write [] = give ()"
| "write_all 0 write (b # bs) = panic"
| "write_all (Suc fuel) write (b # bs) =
     and_then (write (b # bs)) (\<lambda>n.
       if n = 0 then fail (SortIo write_zero) else write_all fuel write (drop n (b # bs)))"

text \<open>\<open>flush_buf\<close>: what was written leaves the buffer, also when a later request fails.\<close>

fun flush_buffer :: "nat \<Rightarrow> 'w sort_disk \<Rightarrow> ('w, unit) file_run" where
  "flush_buffer fuel dk sw =
     (case df_writer (fst (fst sw)) of
        None \<Rightarrow> (Ok (), sw)
      | Some [] \<Rightarrow> (Ok (), sw)
      | Some (b # bs) \<Rightarrow>
          (case fuel of
             0 \<Rightarrow> (Panic, sw)
           | Suc k \<Rightarrow>
               and_then (counted_write dk (b # bs)) (\<lambda>n.
                 if n = 0 then fail (SortIo write_zero)
                 else and_then (update_state (\<lambda>(f, sh). (f\<lparr>df_writer := Some (drop n (b # bs))\<rparr>, sh)))
                        (\<lambda>_. flush_buffer k dk)) sw))"

declare flush_buffer.simps [simp del]

definition flush_writer :: "'w sort_disk \<Rightarrow> ('w, unit) file_run" where
  "flush_writer dk = with_state (\<lambda>(f, sh). flush_buffer (case df_writer f of None \<Rightarrow> 0 | Some buf \<Rightarrow> length buf) dk)"

definition push_buffer :: "bytes \<Rightarrow> ('w, unit) file_run" where
  "push_buffer bs = update_state (\<lambda>(f, sh). (f\<lparr>df_writer := map_option (\<lambda>buf. buf @ bs) (df_writer f)\<rparr>, sh))"

text \<open>\<open>write_all\<close> of the buffered writer.\<close>

definition buffered_write_all :: "'w sort_disk \<Rightarrow> bytes \<Rightarrow> bytes \<Rightarrow> ('w, unit) file_run" where
  "buffered_write_all dk buf bs =
     (let spare = write_buffer_bytes - length buf in
      if length bs < spare then push_buffer bs
      else
        and_then (if length bs > spare then flush_writer dk else give ()) (\<lambda>_.
          if length bs \<ge> write_buffer_bytes then write_all (length bs) (counted_write dk) bs
          else push_buffer bs))"

definition grow_file :: "nat \<Rightarrow> ('w, unit) file_run" where
  "grow_file n sw =
     (case sw of ((f, sh), w) \<Rightarrow>
        (case grow n (df_reservation f) (sh_resources sh) of
           (Inl e, rs) \<Rightarrow> (Err e, ((f, sh\<lparr>sh_resources := rs\<rparr>), w))
         | (Inr r, rs) \<Rightarrow>
             (Ok (), ((f\<lparr>df_reservation := r, df_bytes := df_bytes f + n\<rparr>, sh\<lparr>sh_resources := rs\<rparr>), w))))"

definition append_bytes :: "'w sort_disk \<Rightarrow> bytes \<Rightarrow> ('w, unit) file_run" where
  "append_bytes dk bs =
     and_then (grow_file (length bs)) (\<lambda>_.
       with_state (\<lambda>(f, sh).
         case df_writer f of
           Some buf \<Rightarrow> buffered_write_all dk buf bs
         | None \<Rightarrow> and_then count_request (\<lambda>_. write_all (length bs) (write_request dk) bs)))"

text \<open>Closing the writer flushes it once more, which has nothing left to do, and frees its buffer.\<close>

definition close_writer :: "('w, unit) file_run" where
  "close_writer = update_state (\<lambda>(f, sh).
     (f\<lparr>df_writer := None, df_buffer_memory := None\<rparr>,
      case df_buffer_memory f of None \<Rightarrow> sh | Some r \<Rightarrow> with_resources (release r) sh))"

definition finish_writing :: "'w sort_disk \<Rightarrow> ('w, unit) file_run" where
  "finish_writing dk = and_then (flush_writer dk) (\<lambda>_. close_writer)"

definition allocate_bytes :: "'w sort_disk \<Rightarrow> nat \<Rightarrow> ('w, unit) file_run" where
  "allocate_bytes dk n =
     and_then (finish_writing dk) (\<lambda>_.
     and_then (grow_file n) (\<lambda>_.
     with_state (\<lambda>(f, sh).
       and_then (on_world (system_call (\<lambda>w. sd_set_len dk w (df_bytes f)))) (\<lambda>_.
         update_state (\<lambda>(f, sh). (f\<lparr>df_data := resize (df_bytes f) (df_data f)\<rparr>, sh))))))"

text \<open>
  \<open>Drop for DiskFile\<close>: the writer flushes what it can, the file is deleted, and its charge goes to the
  owner when it cannot be; then the leases are released.
\<close>

definition disk_file_drop :: "'w sort_disk \<Rightarrow> disk_file \<Rightarrow> sort_shared \<times> 'w \<Rightarrow> sort_shared \<times> 'w" where
  "disk_file_drop dk f sw =
     (case snd (flush_writer dk ((f, fst sw), snd sw)) of ((f1, sh), w) \<Rightarrow>
        (case sd_remove_file dk w (df_path f1) of
           (removal, w') \<Rightarrow>
             let sh1 = (if removal = FileRemoved then with_resources (release (df_reservation f1)) sh
                        else with_resources (release ((df_reservation f1)\<lparr>rv_bytes := 0\<rparr>))
                          (sh\<lparr>sh_owner := (sh_owner sh)\<lparr>ow_retained_bytes :=
                             atomic_add (ow_retained_bytes (sh_owner sh)) (rv_bytes (df_reservation f1))\<rparr>\<rparr>))
             in (case df_buffer_memory f1 of None \<Rightarrow> sh1 | Some r \<Rightarrow> with_resources (release r) sh1, w')))"

section \<open>Reading and writing at an offset\<close>

text \<open>
  The bytes \<open>read_exact_at\<close> put in its destination, and the error that stopped it.
\<close>

fun fill_at :: "nat \<Rightarrow> 'w sort_disk \<Rightarrow> nat \<Rightarrow> nat \<Rightarrow> bytes \<Rightarrow> ('w, bytes \<times> sort_error option) file_run" where
  "fill_at fuel dk off 0 acc sw = (Ok (acc, None), sw)"
| "fill_at 0 dk off (Suc n) acc sw = (Panic, sw)"
| "fill_at (Suc fuel) dk off (Suc n) acc sw =
     (case sw of ((f, sh), w) \<Rightarrow>
        (case sd_read dk w (Suc n) of
           (Inl e, w') \<Rightarrow> (Ok (acc, Some (SortIo e)), ((f, sh), w'))
         | (Inr k, w') \<Rightarrow>
             (let got = take (min k (Suc n)) (drop off (df_data f)) in
              let sw' = ((f\<lparr>df_position := off + length got\<rparr>, sh), w') in
              if got = [] then (Ok (acc, Some InvalidScratch), sw')
              else fill_at fuel dk (off + length got) (Suc n - length got) (acc @ got) sw')))"

definition read_exact_at :: "'w sort_disk \<Rightarrow> nat \<Rightarrow> nat \<Rightarrow> ('w, bytes) file_run" where
  "read_exact_at dk off n =
     and_then (fill_at n dk off n []) (\<lambda>(got, failure).
       case failure of None \<Rightarrow> give got | Some e \<Rightarrow> fail e)"

definition write_request_at :: "'w sort_disk \<Rightarrow> nat \<Rightarrow> bytes \<Rightarrow> ('w, nat) file_run" where
  "write_request_at dk off bs =
     and_then count_request (\<lambda>_.
     and_then (update_state (\<lambda>(f, sh). (f\<lparr>df_position := off\<rparr>, sh))) (\<lambda>_. write_request dk bs))"

fun write_all_at :: "nat \<Rightarrow> 'w sort_disk \<Rightarrow> nat \<Rightarrow> bytes \<Rightarrow> ('w, unit) file_run" where
  "write_all_at fuel dk off [] = give ()"
| "write_all_at 0 dk off (b # bs) = panic"
| "write_all_at (Suc fuel) dk off (b # bs) =
     and_then (write_request_at dk off (b # bs)) (\<lambda>n.
       if n = 0 then fail InvalidScratch else write_all_at fuel dk (off + n) (drop n (b # bs)))"

end
