(* ===== verification/Sort_Pages.thy ===== *)
theory Sort_Pages imports Sort_Disk begin

text \<open>
  What the scratch files of a sort hold (\<open>encode\<close>, \<open>decode\<close>, \<open>map_header\<close>, \<open>ReadPage\<close> and \<open>SortedOrder\<close> in
  \<open>crates/leanrows-core/src/sort/storage.rs\<close>): descriptors of 128 bytes, read back a page of 64 KiB at a
  time, and the two maps of a finished sort.
\<close>

section \<open>Descriptors as bytes\<close>

definition encode_descriptor :: "descriptor \<Rightarrow> bytes" where
  "encode_descriptor d =
     le_bytes 8 (ds_row d) @ le_bytes 8 (ds_start d) @ le_bytes 8 (ds_end d) @
     le_bytes 8 (ds_key_start d) @ le_bytes 8 (ds_key_end d) @ ds_prefix d @ le_bytes 8 (ds_len d) @
     le_bytes 16 (unat (word_of_int (ds_magnitude d) :: 128 word)) @
     le_bytes 8 (ds_leading d) @ le_bytes 8 (ds_digits d) @
     [word_of_nat (ds_group d), word_of_int (ds_sign d), if ds_quoted d then 1 else 0] @ replicate 13 0"

definition decode_descriptor :: "bytes \<Rightarrow> sort_error + descriptor" where
  "decode_descriptor b =
     (let d = \<lparr>ds_row = le_value (segment b 0 8), ds_start = le_value (segment b 8 16),
               ds_end = le_value (segment b 16 24), ds_key_start = le_value (segment b 24 32),
               ds_key_end = le_value (segment b 32 40), ds_quoted = (b ! 114 = 1), ds_prefix = segment b 40 72,
               ds_len = le_value (segment b 72 80), ds_group = unat (b ! 112),
               ds_sign = sint (b ! 113),
               ds_magnitude = sint (word_of_nat (le_value (segment b 80 96)) :: 128 word),
               ds_leading = le_value (segment b 96 104), ds_digits = le_value (segment b 104 112)\<rparr> in
      if ds_start d > ds_key_start d \<or> ds_key_start d > ds_key_end d \<or> ds_key_end d > ds_end d
         \<or> ds_group d > 2 \<or> \<not> (-1 \<le> ds_sign d \<and> ds_sign d \<le> 1) \<or> b ! 114 > 1
      then Inl InvalidScratch else Inr d)"

definition map_header :: "nat \<Rightarrow> nat \<Rightarrow> nat \<Rightarrow> bytes" where
  "map_header n size_bytes width =
     ascii ''LRSORT01'' @ le_bytes 8 n @ le_bytes 8 size_bytes @ le_bytes 8 width"

section \<open>Read pages\<close>

record read_page =
  rp_base :: nat
  rp_bytes :: bytes
  rp_count :: nat

definition page_bytes :: nat where
  "page_bytes = 64 * 1024"

definition read_page_new :: "'w environment \<Rightarrow> ('w, sort_error, read_page) run" where
  "read_page_new env =
     and_then (try_reserve env SortAllocation page_bytes) (\<lambda>_.
       give \<lparr>rp_base = u64_max, rp_bytes = replicate page_bytes 0, rp_count = 0\<rparr>)"

text \<open>
  \<open>ReadPage::record\<close>.  The count is set and the destination may be partly overwritten before an error
  of the read; \<open>base\<close> is set after it.
\<close>

definition page_load :: "'w sort_disk \<Rightarrow> nat \<Rightarrow> ((read_page \<times> disk_file \<times> sort_shared) \<times> 'w, sort_error, unit) run" where
  "page_load dk base =
     with_state (\<lambda>(pg, f, sh).
       case checked_sub (df_bytes f) base of
         None \<Rightarrow> fail InvalidScratch
       | Some behind \<Rightarrow>
           (let n = min behind (length (rp_bytes pg)) in
            and_then (update_state (\<lambda>(pg, fs). (pg\<lparr>rp_count := n\<rparr>, fs))) (\<lambda>_.
            and_then (focus snd (\<lambda>fs (pg, _). (pg, fs)) (fill_at n dk base n [])) (\<lambda>(got, failure).
            and_then (update_state (\<lambda>(pg, fs). (pg\<lparr>rp_bytes := got @ drop (length got) (rp_bytes pg)\<rparr>, fs)))
              (\<lambda>_. case failure of
                     Some e \<Rightarrow> fail e
                   | None \<Rightarrow> update_state (\<lambda>(pg, fs). (pg\<lparr>rp_base := base\<rparr>, fs)))))))"

definition page_descriptor :: "read_page \<Rightarrow> nat \<Rightarrow> sort_error + descriptor" where
  "page_descriptor pg start =
     (if start + 128 \<le> length (rp_bytes pg) \<and> start + 128 \<le> rp_count pg
      then decode_descriptor (segment (rp_bytes pg) start (start + 128))
      else Inl InvalidScratch)"

definition lift_sum :: "'e + 'a \<Rightarrow> ('s, 'e, 'a) run" where
  "lift_sum r = (case r of Inl e \<Rightarrow> fail e | Inr a \<Rightarrow> give a)"

definition page_record ::
    "'w sort_disk \<Rightarrow> nat \<Rightarrow> ((read_page \<times> disk_file \<times> sort_shared) \<times> 'w, sort_error, descriptor) run" where
  "page_record dk i =
     (case checked_mul i 128 of
        None \<Rightarrow> fail InvalidScratch
      | Some offset \<Rightarrow>
          (let base = offset div 65536 * 65536 in
           and_then (with_state (\<lambda>(pg, _). if base \<noteq> rp_base pg then page_load dk base else give ()))
             (\<lambda>_. with_state (\<lambda>(pg, _). lift_sum (page_descriptor pg (offset - base))))))"

section \<open>The finished order\<close>

record sorted_record =
  srt_source_row :: nat
  srt_span :: record_span

record sorted_order =
  so_order :: disk_file
  so_inverse :: disk_file
  so_records :: nat
  so_source_size :: nat
  so_memory :: reservation
  so_shared :: sort_shared

type_synonym ('w, 'a) order_run = "(sorted_order \<times> 'w, sort_error, 'a) run"

definition on_order_map :: "('w, 'a) file_run \<Rightarrow> ('w, 'a) order_run" where
  "on_order_map = focus (\<lambda>so. (so_order so, so_shared so)) (\<lambda>(f, sh) so. so\<lparr>so_order := f, so_shared := sh\<rparr>)"

definition on_inverse_map :: "('w, 'a) file_run \<Rightarrow> ('w, 'a) order_run" where
  "on_inverse_map = focus (\<lambda>so. (so_inverse so, so_shared so)) (\<lambda>(f, sh) so. so\<lparr>so_inverse := f, so_shared := sh\<rparr>)"

definition validate_map :: "'w sort_disk \<Rightarrow> nat \<Rightarrow> nat \<Rightarrow> nat \<Rightarrow> ('w, unit) file_run" where
  "validate_map dk n size_bytes width =
     and_then (read_exact_at dk 0 32) (\<lambda>header.
       if header \<noteq> map_header n size_bytes width then fail InvalidScratch
       else
         and_then (on_world (system_call (sd_metadata dk))) (\<lambda>_.
           case checked_mul n width of
             None \<Rightarrow> fail InvalidScratch
           | Some body \<Rightarrow> with_state (\<lambda>(f, sh). if length (df_data f) \<noteq> 32 + body then fail InvalidScratch else give ())))"

definition record_at :: "'w sort_disk \<Rightarrow> nat \<Rightarrow> ('w, sorted_record) order_run" where
  "record_at dk rank =
     with_state (\<lambda>so.
       and_then (on_order_map (validate_map dk (so_records so) (so_source_size so) 24)) (\<lambda>_.
         if rank \<ge> so_records so then fail InvalidScratch
         else
           (case checked_mul rank 24 of
              None \<Rightarrow> fail InvalidScratch
            | Some at \<Rightarrow>
                and_then (on_order_map (read_exact_at dk (32 + at) 24)) (\<lambda>b.
                  let row = le_value (segment b 0 8); start = le_value (segment b 8 16);
                      stop = le_value (segment b 16 24) in
                  if row \<ge> so_records so \<or> stop > so_source_size so then fail InvalidScratch
                  else
                    (case span_new start stop of
                       Inl _ \<Rightarrow> fail InvalidScratch
                     | Inr sp \<Rightarrow> give \<lparr>srt_source_row = row, srt_span = sp\<rparr>)))))"

definition rank_of :: "'w sort_disk \<Rightarrow> nat \<Rightarrow> ('w, nat) order_run" where
  "rank_of dk row =
     with_state (\<lambda>so.
       and_then (on_inverse_map (validate_map dk (so_records so) (so_source_size so) 8)) (\<lambda>_.
         if row \<ge> so_records so then fail InvalidScratch
         else
           (case checked_mul row 8 of
              None \<Rightarrow> fail InvalidScratch
            | Some at \<Rightarrow>
                and_then (on_inverse_map (read_exact_at dk (32 + at) 8)) (\<lambda>b.
                  let rank = le_value b in
                  if rank \<ge> so_records so then fail InvalidScratch else give rank))))"

definition managed_bytes :: "sorted_order \<Rightarrow> nat" where
  "managed_bytes so = rv_bytes (so_memory so)"

end
