(* ===== verification/Sort_Disk_Correct.thy ===== *)
theory Sort_Disk_Correct imports Sort_Pages begin

text \<open>
  What the scratch files of a sort hold.  \<open>attains E m s Q\<close> is the triple of this part: from the state
  \<open>s\<close> the operation ends with a result in \<open>Q\<close> or an error in \<open>E\<close>, and does not panic.  The locale
  \<open>sort_world\<close> is the contract of the disk: a request that succeeds moves at least a byte, and the
  source does not notice.  While a file is written its bytes and the bytes in its buffer are what was
  appended; once the writer is closed they are all on disk.
\<close>

section \<open>Triples with errors\<close>

definition attains :: "('e \<Rightarrow> bool) \<Rightarrow> ('s, 'e, 'a) run \<Rightarrow> 's \<Rightarrow> ('a \<Rightarrow> 's \<Rightarrow> bool) \<Rightarrow> bool" where
  "attains E m sw Q = (case m sw of (Ok a, sw') \<Rightarrow> Q a sw' | (Err e, _) \<Rightarrow> E e | (Panic, _) \<Rightarrow> False)"

lemma attains_give [wp_simps]: "attains E (give a) sw Q = Q a sw"
  by (simp add: attains_def give_def)

lemma attains_fail [wp_simps]: "attains E (fail e) sw Q = E e"
  by (simp add: attains_def fail_def)

lemma attains_and_then [wp_simps]:
  "attains E (and_then m f) sw Q = attains E m sw (\<lambda>a sw'. attains E (f a) sw' Q)"
  by (simp add: attains_def and_then_def split: prod.split outcome.split)

lemma attains_with_state [wp_simps]: "attains E (with_state f) sw Q = attains E (f (fst sw)) sw Q"
  by (simp add: attains_def with_state_def)

lemma attains_update_state [wp_simps]: "attains E (update_state f) sw Q = Q () (f (fst sw), snd sw)"
  by (simp add: attains_def update_state_def)

lemma attains_on_world [wp_simps]:
  "attains E (on_world m) sw Q = attains E m (snd sw) (\<lambda>a w'. Q a (fst sw, w'))"
  by (simp add: attains_def on_world_def split: prod.split outcome.split)

lemma attains_focus [wp_simps]:
  "attains E (focus get put m) sw Q =
     attains E m (get (fst sw), snd sw) (\<lambda>a tw. Q a (put (fst tw) (fst sw), snd tw))"
  by (simp add: attains_def focus_def split: prod.split outcome.split)

lemma attains_lift_sum [wp_simps]:
  "attains E (lift_sum r) sw Q = (case r of Inl e \<Rightarrow> E e | Inr a \<Rightarrow> Q a sw)"
  by (simp add: lift_sum_def attains_fail attains_give split: sum.split)

lemma attains_if [wp_simps]:
  "attains E (if c then m else m') sw Q = (if c then attains E m sw Q else attains E m' sw Q)"
  by simp

lemma attains_on_failure [wp_simps]: "attains E (on_failure m undo) sw Q = attains E m sw Q"
  by (simp add: attains_def on_failure_def split: prod.split outcome.split)

lemma attains_weaken:
  "attains E m sw Q \<Longrightarrow> (\<And>a sw'. Q a sw' \<Longrightarrow> Q' a sw') \<Longrightarrow> attains E m sw Q'"
  by (auto simp: attains_def split: prod.splits outcome.splits)

lemma yields_attains: "yields m sw Q \<Longrightarrow> attains E m sw Q"
  by (auto simp: attains_def yields_def split: prod.splits outcome.splits)

lemma attains_cases:
  assumes "attains E m sw Q"
  obtains (result) a sw' where "m sw = (Ok a, sw')" "Q a sw'" | (failed) e sw' where "m sw = (Err e, sw')" "E e"
  using assms by (auto simp: attains_def split: prod.splits outcome.splits)

text \<open>The errors a sort may end with over a source that does not change.\<close>

fun sort_failure :: "sort_error \<Rightarrow> bool" where
  "sort_failure (SortIo _) = True"
| "sort_failure SortAllocation = True"
| "sort_failure SortQuota = True"
| "sort_failure NumericRange = True"
| "sort_failure _ = False"

section \<open>The contract of the disk\<close>

locale sort_world = stable_source env data base world_ok
  for env :: "'w environment" and data base world_ok +
  fixes dk :: "'w sort_disk"
  assumes disk_moves:
      "world_ok w \<Longrightarrow> 0 < n \<Longrightarrow> fst (sd_write dk w n) = Inr k \<Longrightarrow> 0 < k"
      "world_ok w \<Longrightarrow> 0 < n \<Longrightarrow> fst (sd_read dk w n) = Inr k \<Longrightarrow> 0 < k"
    and disk_ok:
      "world_ok w \<Longrightarrow> world_ok (snd (sd_write dk w n))" "world_ok w \<Longrightarrow> world_ok (snd (sd_read dk w n))"
      "world_ok w \<Longrightarrow> world_ok (snd (sd_open_new dk w p))" "world_ok w \<Longrightarrow> world_ok (snd (sd_clone dk w))"
      "world_ok w \<Longrightarrow> world_ok (snd (sd_set_len dk w n))" "world_ok w \<Longrightarrow> world_ok (snd (sd_metadata dk w))"
      "world_ok w \<Longrightarrow> world_ok (snd (sd_path_metadata dk w p))" "world_ok w \<Longrightarrow> world_ok (snd (sd_create_dir dk w p))"
      "world_ok w \<Longrightarrow> world_ok (snd (sd_remove_file dk w p))" "world_ok w \<Longrightarrow> world_ok (snd (sd_remove_dir_all dk w p))"
      "world_ok w \<Longrightarrow> world_ok (snd (sd_next_owner dk w))"

text \<open>The disk of the model never refuses, and its requests move everything.\<close>

lemma ready_sort_world:
  assumes "stable_source env data base world_ok"
  shows "sort_world env data base world_ok ready_disk"
  by (rule sort_world.intro [OF assms]) (auto simp: sort_world_axioms_def ready_disk_def)

interpretation ready_world: sort_world "file_environment (Suc k) data" data "file_fingerprint data"
    "\<lambda>w. True" ready_disk for k data
  by (rule ready_sort_world) (rule stable_file.stable_source_axioms)

section \<open>What a file holds\<close>

definition writing :: "disk_file \<Rightarrow> bytes \<Rightarrow> bool" where
  "writing f c \<longleftrightarrow> df_position f = length (df_data f) \<and> df_bytes f = length c
     \<and> (\<exists>buf. df_writer f = Some buf \<and> length buf \<le> write_buffer_bytes \<and> df_data f @ buf = c)"

definition stored :: "disk_file \<Rightarrow> bytes \<Rightarrow> bool" where
  "stored f c \<longleftrightarrow> df_writer f = None \<and> df_data f = c \<and> df_bytes f = length c"

lemma stored_position [simp]: "stored (f\<lparr>df_position := p\<rparr>) c = stored f c"
  by (simp add: stored_def)

definition moved :: "disk_file \<Rightarrow> disk_file \<Rightarrow> bool" where
  "moved f f' \<longleftrightarrow> (\<exists>p. f' = f\<lparr>df_position := p\<rparr>)"

lemma moved_refl [simp]: "moved f f"
  unfolding moved_def by (rule exI [of _ "df_position f"]) simp

lemma moved_position [simp]: "moved f (f\<lparr>df_position := p\<rparr>)"
  unfolding moved_def by blast

lemma moved_fields: "moved f f' \<Longrightarrow> df_data f' = df_data f \<and> df_bytes f' = df_bytes f \<and> stored f' = stored f"
  by (auto simp: moved_def fun_eq_iff)

lemma moved_trans: "moved (f\<lparr>df_data := c, df_position := p\<rparr>) f' \<Longrightarrow> moved (f\<lparr>df_data := c\<rparr>) f'"
  by (auto simp: moved_def)

lemma overwrite_end [simp]: "overwrite (length c) bs c = c @ bs"
  by (simp add: overwrite_def)

lemma length_overwrite: "at + length bs \<le> length c \<Longrightarrow> length (overwrite at bs c) = length c"
  by (simp add: overwrite_def)

lemma overwrite_inside: "at + length bs \<le> length c \<Longrightarrow> overwrite at bs c = take at c @ bs @ drop (at + length bs) c"
  by (simp add: overwrite_def)

lemma overwrite_overwrite:
  "at + length bs + length cs \<le> length c \<Longrightarrow>
     overwrite (at + length bs) cs (overwrite at bs c) = overwrite at (bs @ cs) c"
proof -
  assume le: "at + length bs + length cs \<le> length c"
  then have "length (take at c @ bs) = at + length bs" by simp
  with le show ?thesis
    by (simp add: overwrite_inside length_overwrite) (simp add: append_eq_conv_conj [symmetric] ac_simps)
qed

lemma overwrite_nothing [simp]: "at \<le> length c \<Longrightarrow> overwrite at [] c = c"
  by (simp add: overwrite_def)

lemma attains_ledger_call [wp_simps]:
  "attains E (ledger_call f) sw Q =
     (case f (sh_resources (fst sw)) of
        (Inl e, rs) \<Rightarrow> E e | (Inr a, rs) \<Rightarrow> Q a ((fst sw)\<lparr>sh_resources := rs\<rparr>, snd sw))"
  by (auto simp: attains_def ledger_call_def split: prod.split sum.split)

lemma attains_system_call [wp_simps]:
  "attains E (system_call f) w Q = (case f w of (Some e, _) \<Rightarrow> E (SortIo e) | (None, w') \<Rightarrow> Q () w')"
  by (auto simp: attains_def system_call_def split: prod.split option.split)

lemma reserve_errors: "fst (reserve n m rs) = Inl e \<Longrightarrow> sort_failure e"
  by (auto simp: reserve_def split: option.splits if_splits)

lemma attains_grow_file:
  assumes "\<And>r rs. Q () ((f\<lparr>df_reservation := r, df_bytes := df_bytes f + n\<rparr>, sh\<lparr>sh_resources := rs\<rparr>), w)"
  shows "attains sort_failure (grow_file n) ((f, sh), w) Q"
  using assms by (auto simp: attains_def grow_file_def grow_def reserve_def split: prod.splits sum.splits option.splits)

context sort_world begin

lemma create_spec:
  assumes "world_ok w"
  shows "attains sort_failure (disk_file_create dk name) (sh, w)
    (\<lambda>f (sh', w'). world_ok w' \<and> writing f [] \<and> sh_owner sh' = sh_owner sh)"
  using assms disk_ok(3,4)
  by (auto simp: disk_file_create_def wp_simps Let_def writing_def reserve_def split: prod.splits option.splits)
    (metis snd_conv)+

lemma write_request_spec:
  assumes "world_ok w" "bs \<noteq> []"
  shows "attains sort_failure (write_request dk bs) ((f, sh), w)
    (\<lambda>n ((f', sh'), w'). world_ok w' \<and> sh' = sh \<and> 0 < n \<and> n \<le> length bs
       \<and> f' = f\<lparr>df_data := overwrite (df_position f) (take n bs) (df_data f), df_position := df_position f + n\<rparr>)"
proof -
  obtain r w' where r: "sd_write dk w (length bs) = (r, w')" by fastforce
  from disk_ok(1) [OF assms(1), of "length bs"] r have "world_ok w'" by simp
  moreover have "0 < k" if "r = Inr k" for k
    using disk_moves(1) [OF assms(1), of "length bs" k] assms(2) r that by simp
  ultimately show ?thesis
    using assms(2) by (auto simp: attains_def write_request_def r Let_def min_def split: sum.splits)
qed

definition writes :: "(bytes \<Rightarrow> ('w, nat) file_run) \<Rightarrow> bool" where
  "writes write \<longleftrightarrow> (\<forall>f sh w bs. world_ok w \<longrightarrow> bs \<noteq> [] \<longrightarrow>
     attains sort_failure (write bs) ((f, sh), w)
       (\<lambda>n ((f', sh'), w'). world_ok w' \<and> sh_owner sh' = sh_owner sh \<and> 0 < n \<and> n \<le> length bs
          \<and> f' = f\<lparr>df_data := overwrite (df_position f) (take n bs) (df_data f), df_position := df_position f + n\<rparr>))"

lemma writes_request: "writes (write_request dk)"
  unfolding writes_def by (auto intro: attains_weaken [OF write_request_spec])

lemma writes_counted: "writes (counted_write dk)"
  unfolding writes_def counted_write_def count_request_def
  by (auto simp: wp_simps with_resources_def intro!: attains_weaken [OF write_request_spec])

lemma write_all_spec:
  assumes "writes write"
  shows "world_ok w \<Longrightarrow> df_position f = length (df_data f) \<Longrightarrow> length bs \<le> fuel \<Longrightarrow>
    attains sort_failure (write_all fuel write bs) ((f, sh), w)
      (\<lambda>_ ((f', sh'), w'). world_ok w' \<and> sh_owner sh' = sh_owner sh
         \<and> f' = f\<lparr>df_data := df_data f @ bs, df_position := df_position f + length bs\<rparr>)"
proof (induction fuel arbitrary: f sh w bs)
  case (Suc fuel)
  show ?case
  proof (cases bs)
    case (Cons b bs')
    let ?bs = "b # bs'"
    from assms Suc.prems(1) have w: "attains sort_failure (write ?bs) ((f, sh), w)
       (\<lambda>n ((f', sh'), w'). world_ok w' \<and> sh_owner sh' = sh_owner sh \<and> 0 < n \<and> n \<le> length ?bs
          \<and> f' = f\<lparr>df_data := overwrite (df_position f) (take n ?bs) (df_data f), df_position := df_position f + n\<rparr>)"
      unfolding writes_def by blast
    show ?thesis unfolding Cons write_all.simps attains_and_then
    proof (rule attains_weaken [OF w], clarsimp simp: wp_simps, goal_cases)
      case (1 n sh' w')
      let ?f = "f\<lparr>df_data := overwrite (df_position f) (take n ?bs) (df_data f), df_position := df_position f + n\<rparr>"
      have f: "df_data ?f = df_data f @ take n ?bs" "df_position ?f = length (df_data ?f)"
        using Suc.prems(2) 1 by simp_all
      have "length (drop n ?bs) \<le> fuel" using Suc.prems(3) Cons 1 by simp
      from Suc.IH [OF 1(1) f(2) this, of sh'] show ?case
        by (rule attains_weaken) (use f(1) 1 Suc.prems(2) in \<open>auto simp: ac_simps\<close>)
    qed
  qed (simp add: wp_simps Suc.prems)
qed (simp add: wp_simps)

lemma flush_buffer_spec:
  "world_ok w \<Longrightarrow> df_position f = length (df_data f) \<Longrightarrow> df_writer f = Some buf \<Longrightarrow> length buf \<le> fuel \<Longrightarrow>
    attains sort_failure (flush_buffer fuel dk) ((f, sh), w)
      (\<lambda>_ ((f', sh'), w'). world_ok w' \<and> sh_owner sh' = sh_owner sh
         \<and> f' = f\<lparr>df_data := df_data f @ buf, df_position := df_position f + length buf, df_writer := Some []\<rparr>)"
proof (induction fuel arbitrary: f sh w buf)
  case 0
  then show ?case by (simp add: attains_def flush_buffer.simps)
next
  case (Suc fuel)
  show ?case
  proof (cases buf)
    case Nil
    with Suc.prems show ?thesis by (simp add: attains_def flush_buffer.simps)
  next
    case (Cons b bs)
    let ?bs = "b # bs"
    let ?next = "\<lambda>n. if n = 0 then fail (SortIo write_zero)
        else and_then (update_state (\<lambda>(f, sh). (f\<lparr>df_writer := Some (drop n ?bs)\<rparr>, sh))) (\<lambda>_. flush_buffer fuel dk)"
    have run: "flush_buffer (Suc fuel) dk ((f, sh), w) = and_then (counted_write dk ?bs) ?next ((f, sh), w)"
      using Suc.prems(3) Cons by (simp add: flush_buffer.simps)
    from writes_counted Suc.prems(1) have w: "attains sort_failure (counted_write dk ?bs) ((f, sh), w)
       (\<lambda>n ((f', sh'), w'). world_ok w' \<and> sh_owner sh' = sh_owner sh \<and> 0 < n \<and> n \<le> length ?bs
          \<and> f' = f\<lparr>df_data := overwrite (df_position f) (take n ?bs) (df_data f), df_position := df_position f + n\<rparr>)"
      unfolding writes_def by blast
    have "attains sort_failure (and_then (counted_write dk ?bs) ?next) ((f, sh), w)
      (\<lambda>_ ((f', sh'), w'). world_ok w' \<and> sh_owner sh' = sh_owner sh
         \<and> f' = f\<lparr>df_data := df_data f @ buf, df_position := df_position f + length buf, df_writer := Some []\<rparr>)"
      unfolding attains_and_then
    proof (rule attains_weaken [OF w], clarsimp simp: wp_simps, goal_cases)
      case (1 n sh' w')
      let ?f = "f\<lparr>df_data := overwrite (df_position f) (take n ?bs) (df_data f), df_position := df_position f + n,
          df_writer := Some (drop n ?bs)\<rparr>"
      have f: "df_data ?f = df_data f @ take n ?bs" "df_position ?f = length (df_data ?f)" "df_writer ?f = Some (drop n ?bs)"
        using Suc.prems(2) 1 by simp_all
      have "length (drop n ?bs) \<le> fuel" using Suc.prems(4) Cons 1 by simp
      from Suc.IH [OF 1(1) f(2,3) this, of sh'] show ?case
        by (rule attains_weaken) (use f(1) 1 Suc.prems(2) Cons in \<open>auto simp: ac_simps\<close>)
    qed
    then show ?thesis by (simp add: attains_def run)
  qed
qed

lemma flush_writer_any:
  assumes "world_ok w" "df_position f = length (df_data f)" "df_writer f = Some buf"
  shows "attains sort_failure (flush_writer dk) ((f, sh), w)
    (\<lambda>_ ((f', sh'), w'). world_ok w' \<and> sh_owner sh' = sh_owner sh
       \<and> f' = f\<lparr>df_data := df_data f @ buf, df_position := df_position f + length buf, df_writer := Some []\<rparr>)"
  using flush_buffer_spec [OF assms order.refl, of sh] assms(3) by (simp add: flush_writer_def wp_simps)

lemma flush_writer_spec:
  assumes "world_ok w" "writing f c"
  shows "attains sort_failure (flush_writer dk) ((f, sh), w)
    (\<lambda>_ ((f', sh'), w'). world_ok w' \<and> sh_owner sh' = sh_owner sh \<and> writing f' c \<and> df_writer f' = Some [])"
proof -
  from assms(2) obtain buf where buf: "df_writer f = Some buf" "df_position f = length (df_data f)" "df_data f @ buf = c"
    "df_bytes f = length c" by (auto simp: writing_def)
  from flush_writer_any [OF assms(1) buf(2,1)] show ?thesis
    by (rule attains_weaken) (use buf in \<open>auto simp: writing_def\<close>)
qed

lemma append_spec:
  assumes "world_ok w" "writing f c"
  shows "attains sort_failure (append_bytes dk bs) ((f, sh), w)
    (\<lambda>_ ((f', sh'), w'). world_ok w' \<and> sh_owner sh' = sh_owner sh \<and> writing f' (c @ bs))"
  unfolding append_bytes_def attains_and_then
proof (rule attains_grow_file, clarsimp simp: wp_simps, goal_cases)
  case (1 r rs)
  let ?f = "f\<lparr>df_reservation := r, df_bytes := df_bytes f + length bs\<rparr>" and ?sh = "sh\<lparr>sh_resources := rs\<rparr>"
  from assms(2) obtain buf where buf: "df_writer f = Some buf" "length buf \<le> write_buffer_bytes"
    "df_position f = length (df_data f)" "df_data f @ buf = c" "df_bytes f = length c" by (auto simp: writing_def)
  show ?case
  proof (cases "length bs < write_buffer_bytes - length buf")
    case True
    with buf assms(1) show ?thesis
      by (auto simp: buffered_write_all_def wp_simps push_buffer_def writing_def)
  next
    case False
    let ?go = "if write_buffer_bytes \<le> length bs then write_all (length bs) (counted_write dk) bs else push_buffer bs"
    have empty: "attains sort_failure ?go ((f1, sh1), w1)
        (\<lambda>_ ((f', sh'), w'). world_ok w' \<and> sh_owner sh' = sh_owner sh \<and> writing f' (c @ bs))"
      if "world_ok w1" "df_position f1 = length (df_data f1)" "df_writer f1 = Some []" "df_data f1 = c"
        "df_bytes f1 = length c + length bs" "sh_owner sh1 = sh_owner sh" for f1 sh1 w1
    proof (cases "write_buffer_bytes \<le> length bs")
      case True
      with write_all_spec [OF writes_counted that(1,2) order.refl, of bs sh1] that show ?thesis
        by (auto simp: writing_def elim: attains_weaken)
    next
      case False
      with that show ?thesis by (simp add: wp_simps push_buffer_def writing_def)
    qed
    show ?thesis
    proof (cases "length bs > write_buffer_bytes - length buf")
      case True
      have "df_position ?f = length (df_data ?f)" "df_writer ?f = Some buf" using buf by simp_all
      note fl = flush_writer_any [OF assms(1) this, of ?sh]
      have "attains sort_failure (and_then (flush_writer dk) (\<lambda>_. ?go)) ((?f, ?sh), w)
        (\<lambda>_ ((f', sh'), w'). world_ok w' \<and> sh_owner sh' = sh_owner sh \<and> writing f' (c @ bs))"
        unfolding attains_and_then
        by (rule attains_weaken [OF fl], clarify, rule empty, use buf in auto)
      then show ?thesis using True False by (simp add: buffered_write_all_def Let_def buf(1))
    next
      case spare: False
      with False have bs: "length bs = write_buffer_bytes - length buf" by simp
      show ?thesis
      proof (cases "buf = []")
        case True
        with empty [of w ?f ?sh] buf assms(1) bs show ?thesis
          by (simp add: buffered_write_all_def wp_simps Let_def)
      next
        case False
        then have "\<not> write_buffer_bytes \<le> length bs" unfolding bs by (cases buf) (simp_all add: write_buffer_bytes_def)
        with False buf assms(1) bs show ?thesis
          by (auto simp: buffered_write_all_def wp_simps Let_def push_buffer_def writing_def write_buffer_bytes_def)
      qed
    qed
  qed
qed

lemma finish_spec:
  assumes "world_ok w" "writing f c"
  shows "attains sort_failure (finish_writing dk) ((f, sh), w)
    (\<lambda>_ ((f', sh'), w'). world_ok w' \<and> sh_owner sh' = sh_owner sh \<and> stored f' c)"
  unfolding finish_writing_def attains_and_then
  by (rule attains_weaken [OF flush_writer_spec [OF assms]])
     (auto simp: wp_simps close_writer_def writing_def stored_def with_resources_def split: option.splits)

lemma finish_again:
  "stored f c \<Longrightarrow> finish_writing dk ((f, sh), w) = (Ok (), ((f\<lparr>df_buffer_memory := None\<rparr>,
     case df_buffer_memory f of None \<Rightarrow> sh | Some r \<Rightarrow> with_resources (release r) sh), w))"
  by (simp add: finish_writing_def and_then_def flush_writer_def with_state_def flush_buffer.simps close_writer_def
      update_state_def stored_def)

lemma length_resize [simp]: "length (resize n c) = n"
  by (simp add: resize_def)

lemma resize_longer: "resize (length c + n) c = c @ replicate n 0"
  by (simp add: resize_def)

lemma allocate_spec:
  assumes "world_ok w" "writing f c"
  shows "attains sort_failure (allocate_bytes dk n) ((f, sh), w)
    (\<lambda>_ ((f', sh'), w'). world_ok w' \<and> sh_owner sh' = sh_owner sh \<and> stored f' (c @ replicate n 0))"
  unfolding allocate_bytes_def attains_and_then
proof (rule attains_weaken [OF finish_spec [OF assms]], clarify)
  fix f1 w1 and sh1 :: sort_shared
  assume 1: "world_ok w1" "sh_owner sh1 = sh_owner sh" "stored f1 c"
  show "attains sort_failure (grow_file n) ((f1, sh1), w1)
     (\<lambda>_ sw'. attains sort_failure (with_state (\<lambda>(f, sh). and_then
          (on_world (system_call (\<lambda>w. sd_set_len dk w (df_bytes f))))
          (\<lambda>_. update_state (\<lambda>(f, sh). (f\<lparr>df_data := resize (df_bytes f) (df_data f)\<rparr>, sh))))) sw'
        (\<lambda>_ ((f', sh'), w'). world_ok w' \<and> sh_owner sh' = sh_owner sh \<and> stored f' (c @ replicate n 0)))"
    by (rule attains_grow_file)
       (use 1 disk_ok(5) [OF 1(1), of "df_bytes f1 + n"] in
        \<open>auto simp: wp_simps stored_def resize_longer split: prod.splits option.splits\<close>)
qed

lemma fill_spec:
  "world_ok w \<Longrightarrow> off + n \<le> length (df_data f) \<Longrightarrow> n \<le> fuel \<Longrightarrow>
   \<exists>got failure p w'. fill_at fuel dk off n acc ((f, sh), w) = (Ok (acc @ got, failure), ((f\<lparr>df_position := p\<rparr>, sh), w'))
     \<and> world_ok w' \<and> length got \<le> n
     \<and> (case failure of None \<Rightarrow> got = segment (df_data f) off (off + n) | Some e \<Rightarrow> \<exists>x. e = SortIo x)"
proof (induction fuel arbitrary: off n acc f w)
  case 0
  then show ?case by (auto intro!: exI [of _ "[]"] exI [of _ "df_position f"])
next
  case (Suc fuel off m)
  show ?case
  proof (cases m)
    case 0
    with Suc.prems show ?thesis by (auto intro!: exI [of _ "[]"] exI [of _ "df_position f"])
  next
    case (Suc n)
    note 3 = Suc.IH Suc.prems [unfolded Suc]
  obtain r w1 where r: "sd_read dk w (Suc n) = (r, w1)" by fastforce
  have w1: "world_ok w1" using disk_ok(2) [OF 3(2), of "Suc n"] by (simp only: r snd_conv)
  show ?thesis
  proof (cases r)
    case (Inl e)
    then show ?thesis using r 3(3) w1 \<open>m = Suc n\<close>
      by (intro exI [of _ "[]"] exI [of _ "Some (SortIo e)"] exI [of _ "df_position f"] exI [of _ w1]) simp
  next
    case (Inr k)
    define g where "g = take (min k (Suc n)) (drop off (df_data f))"
    have k: "0 < k" using disk_moves(2) [OF 3(2), of "Suc n" k] r Inr by simp
    then have some: "g \<noteq> []" "0 < length g" "length g \<le> Suc n" using 3(3) by (auto simp: g_def)
    let ?f = "f\<lparr>df_position := off + length g\<rparr>"
    have step: "fill_at (Suc fuel) dk off (Suc n) acc ((f, sh), w)
        = fill_at fuel dk (off + length g) (Suc n - length g) (acc @ g) ((?f, sh), w1)"
      using some(1) by (simp add: r Inr Let_def g_def [symmetric])
    have "off + length g + (Suc n - length g) \<le> length (df_data ?f)" "Suc n - length g \<le> fuel"
      using 3(3,4) some(2,3) by (simp_all, linarith+)
    from 3(1) [OF w1 this, of "acc @ g"] obtain got failure p w' where
      ih: "fill_at fuel dk (off + length g) (Suc n - length g) (acc @ g) ((?f, sh), w1)
          = (Ok ((acc @ g) @ got, failure), ((?f\<lparr>df_position := p\<rparr>, sh), w'))"
        "world_ok w'" "length got \<le> Suc n - length g"
        "case failure of None \<Rightarrow> got = segment (df_data ?f) (off + length g) (off + length g + (Suc n - length g))
         | Some e \<Rightarrow> \<exists>x. e = SortIo x"
      by auto
    have "g = segment (df_data f) off (off + length g)" by (auto simp: g_def segment_def min_def)
    then have seg: "g @ segment (df_data f) (off + length g) (off + Suc n) = segment (df_data f) off (off + Suc n)"
      using some(3) by (metis add_left_mono le_add1 segment_split)
    show ?thesis unfolding \<open>m = Suc n\<close> step ih(1)
      using ih(2-4) some(3) seg
      by (intro exI [of _ "g @ got"] exI [of _ failure] exI [of _ p] exI [of _ w'])
         (auto split: option.splits)
  qed
  qed
qed

lemma read_spec:
  assumes "world_ok w" "off + n \<le> length (df_data f)"
  shows "attains sort_failure (read_exact_at dk off n) ((f, sh), w)
    (\<lambda>bs ((f', sh'), w'). world_ok w' \<and> sh' = sh \<and> bs = segment (df_data f) off (off + n) \<and> moved f f')"
proof -
  from fill_spec [OF assms order.refl, of "[]" sh] show ?thesis
    by (auto simp: attains_def read_exact_at_def and_then_def give_def fail_def split: option.splits)
qed

lemma write_request_at_spec:
  assumes "world_ok w" "bs \<noteq> []"
  shows "attains sort_failure (write_request_at dk off bs) ((f, sh), w)
    (\<lambda>n ((f', sh'), w'). world_ok w' \<and> sh_owner sh' = sh_owner sh \<and> 0 < n \<and> n \<le> length bs
       \<and> f' = f\<lparr>df_data := overwrite off (take n bs) (df_data f), df_position := off + n\<rparr>)"
  using write_request_spec [OF assms, of "f\<lparr>df_position := off\<rparr>" "with_resources count_write sh"]
  by (auto simp: write_request_at_def count_request_def wp_simps with_resources_def elim!: attains_weaken)

lemma write_all_at_spec:
  "world_ok w \<Longrightarrow> off + length bs \<le> length (df_data f) \<Longrightarrow> length bs \<le> fuel \<Longrightarrow>
    attains sort_failure (write_all_at fuel dk off bs) ((f, sh), w)
      (\<lambda>_ ((f', sh'), w'). world_ok w' \<and> sh_owner sh' = sh_owner sh
         \<and> moved (f\<lparr>df_data := overwrite off bs (df_data f)\<rparr>) f')"
proof (induction fuel arbitrary: f sh w off bs)
  case (Suc fuel)
  show ?case
  proof (cases bs)
    case Nil
    with Suc.prems show ?thesis by (simp add: wp_simps)
  next
    case (Cons b bs')
    let ?bs = "b # bs'"
    have ne: "?bs \<noteq> []" by simp
    show ?thesis unfolding Cons write_all_at.simps attains_and_then
    proof (rule attains_weaken [OF write_request_at_spec [OF Suc.prems(1) ne]], clarsimp simp: wp_simps, goal_cases)
      case (1 n sh' w')
      let ?f = "f\<lparr>df_data := overwrite off (take n ?bs) (df_data f), df_position := off + n\<rparr>"
      have len: "length (take n ?bs) = n" using 1 by simp
      have "off + n + length (drop n ?bs) \<le> length (df_data ?f)" "length (drop n ?bs) \<le> fuel"
        using Suc.prems(2,3) Cons 1 len by (simp_all add: length_overwrite)
      note ih = Suc.IH [OF 1(1) this, of sh']
      have "overwrite (off + n) (drop n ?bs) (overwrite off (take n ?bs) (df_data f)) = overwrite off ?bs (df_data f)"
        using overwrite_overwrite [of off "take n ?bs" "drop n ?bs" "df_data f"] Suc.prems(2) Cons len by simp
      with ih show ?case using 1 by (auto elim!: attains_weaken simp: moved_def)
    qed
  qed
qed (simp add: wp_simps)

lemma write_at_spec:
  assumes "world_ok w" "stored f c" "off + length bs \<le> length c"
  shows "attains sort_failure (write_all_at (length bs) dk off bs) ((f, sh), w)
      (\<lambda>_ ((f', sh'), w'). world_ok w' \<and> sh_owner sh' = sh_owner sh \<and> stored f' (overwrite off bs c))"
proof -
  have "off + length bs \<le> length (df_data f)" using assms(2,3) by (simp add: stored_def)
  from write_all_at_spec [OF assms(1) this order.refl, of sh] show ?thesis
    by (rule attains_weaken) (use assms(2,3) in \<open>auto simp: stored_def length_overwrite moved_def\<close>)
qed

end

end
