(* ===== verification/Sort_Pages_Correct.thy ===== *)
theory Sort_Pages_Correct imports Sort_Disk_Correct begin

text \<open>
  Descriptors survive their 128 bytes, and a read page delivers the descriptors of the file it reads,
  whatever part of it the page holds.
\<close>

section \<open>Descriptors\<close>

text \<open>What the fields of a descriptor can hold at their widths, and what \<open>decode\<close> accepts.\<close>

definition descriptor_fits :: "descriptor \<Rightarrow> bool" where
  "descriptor_fits d \<longleftrightarrow> ds_row d \<le> u64_max \<and> ds_end d \<le> u64_max
     \<and> ds_start d \<le> ds_key_start d \<and> ds_key_start d \<le> ds_key_end d \<and> ds_key_end d \<le> ds_end d
     \<and> length (ds_prefix d) = 32 \<and> ds_len d \<le> u64_max \<and> ds_group d \<le> 2 \<and> -1 \<le> ds_sign d \<and> ds_sign d \<le> 1
     \<and> - (2 ^ 127) \<le> ds_magnitude d \<and> ds_magnitude d < 2 ^ 127
     \<and> ds_leading d \<le> u64_max \<and> ds_digits d \<le> u64_max"

lemma le_value_u64 [simp]: "n \<le> u64_max \<Longrightarrow> le_value (le_bytes 8 n) = n"
  by (rule le_value_le_bytes) simp

lemma le_value_eight: "length bs \<le> 8 \<Longrightarrow> le_value bs \<le> u64_max"
proof -
  assume "length bs \<le> 8"
  then have "(256::nat) ^ length bs \<le> 256 ^ 8" by (rule power_increasing) simp
  with le_value_bound [of bs] show ?thesis by simp
qed

lemma magnitude_word:
  assumes "- (2 ^ 127) \<le> m" "m < 2 ^ 127"
  shows "sint (word_of_nat (le_value (le_bytes 16 (unat (word_of_int m :: 128 word)))) :: 128 word) = m"
proof -
  have "unat (word_of_int m :: 128 word) < 2 ^ 128"
    using unsigned_less [of "word_of_int m :: 128 word"] by simp
  then have "unat (word_of_int m :: 128 word) < 256 ^ 16" by simp
  then have "le_value (le_bytes 16 (unat (word_of_int m :: 128 word))) = unat (word_of_int m :: 128 word)"
    by (rule le_value_le_bytes)
  moreover have "sint (word_of_int m :: 128 word) = m"
    using assms by (simp add: signed_of_int signed_take_bit_int_eq_self)
  ultimately show ?thesis by simp
qed

lemma sign_word: "-1 \<le> s \<Longrightarrow> s \<le> 1 \<Longrightarrow> sint (word_of_int s :: 8 word) = s"
  by (simp add: signed_of_int signed_take_bit_int_eq_self)

lemma length_encode_descriptor: "length (ds_prefix d) = 32 \<Longrightarrow> length (encode_descriptor d) = 128"
  by (simp add: encode_descriptor_def)

lemma segment_skip: "length xs \<le> i \<Longrightarrow> segment (xs @ ys) i j = segment ys (i - length xs) (j - length xs)"
  by (simp add: segment_def)

lemma segment_here: "length xs = j \<Longrightarrow> segment (xs @ ys) 0 j = xs"
  by (simp add: segment_def)

lemma encode_fields:
  assumes "length (ds_prefix d) = 32"
  defines "b \<equiv> encode_descriptor d"
  shows "segment b 0 8 = le_bytes 8 (ds_row d)" "segment b 8 16 = le_bytes 8 (ds_start d)"
    "segment b 16 24 = le_bytes 8 (ds_end d)" "segment b 24 32 = le_bytes 8 (ds_key_start d)"
    "segment b 32 40 = le_bytes 8 (ds_key_end d)" "segment b 40 72 = ds_prefix d"
    "segment b 72 80 = le_bytes 8 (ds_len d)"
    "segment b 80 96 = le_bytes 16 (unat (word_of_int (ds_magnitude d) :: 128 word))"
    "segment b 96 104 = le_bytes 8 (ds_leading d)" "segment b 104 112 = le_bytes 8 (ds_digits d)"
    "b ! 112 = word_of_nat (ds_group d)" "b ! 113 = word_of_int (ds_sign d)"
    "b ! 114 = (if ds_quoted d then 1 else 0)"
  by (simp_all add: b_def encode_descriptor_def segment_skip segment_here assms(1) nth_append)

lemma decode_encode:
  assumes "descriptor_fits d" shows "decode_descriptor (encode_descriptor d) = Inr d"
proof -
  have p: "length (ds_prefix d) = 32" using assms by (simp add: descriptor_fits_def)
  have "ds_group d mod 256 = ds_group d" using assms by (simp add: descriptor_fits_def)
  then show ?thesis
    using assms
    by (simp add: decode_descriptor_def encode_fields [OF p] Let_def descriptor_fits_def magnitude_word sign_word)
qed

lemma decode_fits:
  assumes "decode_descriptor b = Inr d" "length b = 128" shows "descriptor_fits d"
proof -
  have m: "- (2 ^ 127) \<le> sint (x :: 128 word) \<and> sint x < 2 ^ 127" for x
    using sint_range_size [of x] by (simp add: word_size)
  from assms show ?thesis
    by (auto simp: decode_descriptor_def Let_def descriptor_fits_def le_value_eight m [simplified] split: if_splits)
qed

text \<open>
  C30. Descriptors survive their 128 bytes.  A descriptor whose fields fit their widths and whose extents
  are nested is encoded to 128 bytes from which \<open>decode\<close> gives it back, and whatever \<open>decode\<close> accepts
  is such a descriptor, so decoding never invents an extent outside the record.
\<close>

theorem descriptor_bytes_roundtrip:
  "(descriptor_fits d \<longrightarrow> length (encode_descriptor d) = 128 \<and> decode_descriptor (encode_descriptor d) = Inr d)
   \<and> (length b = 128 \<and> decode_descriptor b = Inr d \<longrightarrow> descriptor_fits d)"
  using decode_encode decode_fits length_encode_descriptor by (auto simp: descriptor_fits_def)

lemma descriptor_bytes_roundtrip_witness:
  "decode_descriptor (encode_descriptor ((descriptor_new 7 (mk_span 3 9))\<lparr>ds_key_start := 4, ds_key_end := 6,
      ds_magnitude := -5, ds_sign := -1\<rparr>))
   = Inr ((descriptor_new 7 (mk_span 3 9))\<lparr>ds_key_start := 4, ds_key_end := 6, ds_magnitude := -5, ds_sign := -1\<rparr>)"
proof -
  have "descriptor_fits ((descriptor_new 7 (mk_span 3 9))\<lparr>ds_key_start := 4, ds_key_end := 6,
      ds_magnitude := -5, ds_sign := -1\<rparr>)"
    by (simp add: descriptor_fits_def descriptor_new_def)
  with descriptor_bytes_roundtrip show ?thesis by blast
qed

section \<open>Pages\<close>

definition encoded :: "descriptor list \<Rightarrow> bytes" where
  "encoded ds = concat (map encode_descriptor ds)"

lemma encoded_simps [simp]:
  "encoded [] = []" "encoded (d # ds) = encode_descriptor d @ encoded ds" "encoded (ds @ es) = encoded ds @ encoded es"
  by (simp_all add: encoded_def)

lemma length_encoded: "\<forall>d \<in> set ds. length (ds_prefix d) = 32 \<Longrightarrow> length (encoded ds) = 128 * length ds"
  by (induction ds) (simp_all add: length_encode_descriptor)

lemma segment_encoded:
  "\<forall>d \<in> set ds. length (ds_prefix d) = 32 \<Longrightarrow> i < length ds \<Longrightarrow>
     segment (encoded ds) (128 * i) (128 * i + 128) = encode_descriptor (ds ! i)"
proof (induction ds arbitrary: i)
  case (Cons d ds)
  show ?case
  proof (cases i)
    case 0
    with Cons.prems show ?thesis by (simp add: segment_here length_encode_descriptor)
  next
    case (Suc j)
    from Cons Suc have "segment (encoded ds) (128 * j) (128 + 128 * j) = encode_descriptor (ds ! j)"
      by (simp add: add.commute)
    with Cons.prems Suc show ?thesis by (simp add: segment_skip length_encode_descriptor)
  qed
qed simp

text \<open>The page holds the part of the file behind its base, or nothing yet.\<close>

definition page_holds :: "read_page \<Rightarrow> bytes \<Rightarrow> bool" where
  "page_holds pg c \<longleftrightarrow> length (rp_bytes pg) = page_bytes \<and>
     (rp_base pg = u64_max \<or>
      rp_base pg \<le> length c \<and> rp_count pg = min (length c - rp_base pg) page_bytes
      \<and> take (rp_count pg) (rp_bytes pg) = segment c (rp_base pg) (rp_base pg + rp_count pg))"

lemma page_forget: "page_holds pg c \<Longrightarrow> page_holds (pg\<lparr>rp_base := u64_max\<rparr>) c'"
  by (simp add: page_holds_def)

lemma segment_take: "j \<le> n \<Longrightarrow> segment (take n xs) i j = segment xs i j"
  by (simp add: segment_def drop_take min_def)

lemma segment_segment: "a + j \<le> b \<Longrightarrow> segment (segment xs a b) i j = segment xs (a + i) (a + j)"
  by (simp add: segment_def drop_take add.commute min_def)

lemma page_descriptor_held:
  assumes holds: "page_holds pg (encoded ds)" and base: "rp_base pg \<noteq> u64_max"
    and at: "rp_base pg + start = 128 * i" "start + 128 \<le> page_bytes" and i: "i < length ds"
    and fits: "\<forall>d \<in> set ds. descriptor_fits d"
  shows "page_descriptor pg start = Inr (ds ! i)"
proof -
  have p: "\<forall>d \<in> set ds. length (ds_prefix d) = 32" using fits by (simp add: descriptor_fits_def)
  have len: "rp_base pg + start + 128 \<le> length (encoded ds)" using i at(1) by (simp add: length_encoded [OF p])
  with holds base at(2) have count: "start + 128 \<le> rp_count pg" "length (rp_bytes pg) = page_bytes"
    "take (rp_count pg) (rp_bytes pg) = segment (encoded ds) (rp_base pg) (rp_base pg + rp_count pg)"
    by (auto simp: page_holds_def)
  have "segment (rp_bytes pg) start (start + 128) = segment (take (rp_count pg) (rp_bytes pg)) start (start + 128)"
    using count(1) by (simp add: segment_take)
  also have "\<dots> = segment (encoded ds) (128 * i) (128 * i + 128)"
    unfolding count(3) using count(1) by (subst segment_segment) (simp_all add: at(1) [symmetric] add.assoc)
  also have "\<dots> = encode_descriptor (ds ! i)" by (rule segment_encoded [OF p i])
  finally have "segment (rp_bytes pg) start (start + 128) = encode_descriptor (ds ! i)" .
  moreover have "descriptor_fits (ds ! i)" using fits i by simp
  ultimately show ?thesis using count at(2) by (simp add: page_descriptor_def decode_encode)
qed

context sort_world begin

lemma page_new_spec:
  assumes "world_ok w"
  shows "attains sort_failure (read_page_new env) w (\<lambda>pg w'. world_ok w' \<and> page_holds pg c \<and> rp_base pg = u64_max)"
  using try_reserve_ok [OF assms, of page_bytes]
  by (auto simp: read_page_new_def wp_simps attains_def try_reserve_def and_then_def give_def page_holds_def split: prod.splits)

lemma page_load_spec:
  assumes w: "world_ok w" and f: "stored f c" and pg: "length (rp_bytes pg) = page_bytes" and pb: "pb \<le> length c"
  shows "attains sort_failure (page_load dk pb) ((pg, f, sh), w)
    (\<lambda>_ ((pg', f', sh'), w'). world_ok w' \<and> moved f f' \<and> sh' = sh \<and> page_holds pg' c \<and> rp_base pg' = pb)"
proof -
  let ?n = "min (length c - pb) page_bytes"
  have c: "df_data f = c" "df_bytes f = length c" using f by (simp_all add: stored_def)
  have "pb + ?n \<le> length (df_data f)" using pb c by simp
  from fill_spec [OF w this order.refl, of "[]" sh] obtain got failure p w' where
    r: "fill_at ?n dk pb ?n [] ((f, sh), w) = (Ok (got, failure), ((f\<lparr>df_position := p\<rparr>, sh), w'))"
      "world_ok w'" "length got \<le> ?n"
      "case failure of None \<Rightarrow> got = segment c pb (pb + ?n) | Some e \<Rightarrow> \<exists>x. e = SortIo x"
    using c(1) by auto
  have fill: "attains sort_failure (fill_at ?n dk pb ?n []) ((f, sh), w) (\<lambda>(got, failure) ((f', sh'), w').
      world_ok w' \<and> sh' = sh \<and> moved f f' \<and> length got \<le> ?n
      \<and> (case failure of None \<Rightarrow> got = segment c pb (pb + ?n) | Some e \<Rightarrow> \<exists>x. e = SortIo x))"
    using r by (simp add: attains_def)
  have full: "length (segment c pb (pb + ?n)) = ?n" using pb by simp
  have sub: "checked_sub (df_bytes f) pb = Some (length c - pb)" using pb by (simp add: checked_sub_def c)
  show ?thesis
    unfolding page_load_def attains_with_state fst_conv prod.case sub option.case Let_def pg
    by (simp add: wp_simps)
       (rule attains_weaken [OF fill], use pg pb full in \<open>auto simp: wp_simps page_holds_def split: option.splits\<close>)
qed

lemma page_record_spec:
  assumes w: "world_ok w" and f: "stored f (encoded ds)" and pg: "page_holds pg (encoded ds)"
    and i: "i < length ds" "128 * length ds \<le> u64_max" and fits: "\<forall>d \<in> set ds. descriptor_fits d"
  shows "attains sort_failure (page_record dk i) ((pg, f, sh), w)
    (\<lambda>d ((pg', f', sh'), w'). d = ds ! i \<and> world_ok w' \<and> moved f f' \<and> sh' = sh \<and> page_holds pg' (encoded ds))"
proof -
  define pb where "pb = i * 128 div 65536 * 65536"
  have off: "checked_mul i 128 = Some (i * 128)" using i by (simp add: checked_mul_def)
  have le: "pb \<le> i * 128" by (simp add: pb_def)
  have start: "i * 128 - pb + 128 \<le> page_bytes" "pb + (i * 128 - pb) = 128 * i"
  proof -
    have "i * 128 - pb = i * 128 mod 65536" unfolding pb_def by (rule minus_div_mult_eq_mod)
    also have "\<dots> = i mod 512 * 128" using mod_mult_mult2 [of i 128 512] by simp
    finally have r: "i * 128 - pb = i mod 512 * 128" .
    have "i mod 512 \<le> 511" using mod_less_divisor [of 512 i] by simp
    then show "i * 128 - pb + 128 \<le> page_bytes" unfolding r by (simp add: page_bytes_def)
    show "pb + (i * 128 - pb) = 128 * i" using le by simp
  qed
  have p: "\<forall>d \<in> set ds. length (ds_prefix d) = 32" using fits by (simp add: descriptor_fits_def)
  have "pb \<le> length (encoded ds)" using le i(1) by (simp add: length_encoded [OF p])
  note load = page_load_spec [OF w f _ this, of pg sh]
  have odd: "pb \<noteq> u64_max"
  proof
    assume "pb = u64_max"
    then have "65536 dvd (u64_max :: nat)" by (metis pb_def dvd_triv_right)
    then show False by simp
  qed
  have held: "page_descriptor pg' (i * 128 - pb) = Inr (ds ! i)"
    if "page_holds pg' (encoded ds)" "rp_base pg' = pb" for pg'
    by (rule page_descriptor_held [OF that(1)]) (use that(2) odd start i fits in auto)
  then have held': "page_descriptor pg' (i * 128 - rp_base pg') = Inr (ds ! i)"
    if "page_holds pg' (encoded ds)" "rp_base pg' = pb" for pg'
    using that by simp
  have run: "page_record dk i = and_then (with_state (\<lambda>(pg, _). if pb \<noteq> rp_base pg then page_load dk pb else give ()))
      (\<lambda>_. with_state (\<lambda>(pg, _). lift_sum (page_descriptor pg (i * 128 - pb))))"
    by (simp only: page_record_def off option.case Let_def pb_def)
  show ?thesis
  proof (cases "pb = rp_base pg")
    case True
    with held [OF pg] w pg show ?thesis by (simp add: run wp_simps)
  next
    case False
    have "length (rp_bytes pg) = page_bytes" using pg by (simp add: page_holds_def)
    from load [OF this] show ?thesis using False
      by (auto simp: run wp_simps held held' elim!: attains_weaken)
  qed
qed

end

end
