(* ===== verification/Sort_Inverse.thy ===== *)
theory Sort_Inverse imports Sort_Pages begin

text \<open>
  The inverse map of a sort (\<open>InverseBuilder\<close> in \<open>crates/leanrows-core/src/sort/inverse.rs\<close>).  Ranks
  arrive in sorted order with their rows all over the file, so each pair of row and rank is first
  appended to the bucket of its row, in one scratch file with a region per bucket, and each bucket is
  then placed in memory and written to the map in sequence.
\<close>

definition pair_bytes :: nat where "pair_bytes = 16"
definition chunk_bytes :: nat where "chunk_bytes = 64 * 1024"
definition map_header_bytes :: nat where "map_header_bytes = 32"

record inverse_builder =
  ib_records :: nat
  ib_bucket_rows :: nat
  ib_buckets :: nat
  ib_buffer_bytes :: nat
  ib_pairs :: disk_file
  ib_buffer :: bytes
  ib_filled :: "nat list"
  ib_written :: "nat list"
  ib_ranks :: "nat list"
  ib_chunk :: bytes
  ib_bucket :: nat
  ib_read :: nat
  ib_memory :: reservation

type_synonym ('w, 'a) inverse_run = "((inverse_builder \<times> sort_shared) \<times> 'w, sort_error, 'a) run"

text \<open>A local file that is dropped when the operation on it fails.\<close>

definition with_file :: "'w sort_disk \<Rightarrow> disk_file \<Rightarrow> ('w, 'a) file_run \<Rightarrow> ('w, disk_file \<times> 'a) shared_run" where
  "with_file dk f m sw =
     (case m ((f, fst sw), snd sw) of
        (Ok a, ((f', sh), w)) \<Rightarrow> (Ok (f', a), (sh, w))
      | (Err e, ((f', sh), w)) \<Rightarrow> (Err e, disk_file_drop dk f' (sh, w))
      | (Panic, ((f', sh), w)) \<Rightarrow> (Panic, (sh, w)))"

definition on_shared :: "('w, 'a) shared_run \<Rightarrow> ('w, 'a) file_run" where
  "on_shared = focus snd (\<lambda>sh (f, _). (f, sh))"

definition option_or :: "'e \<Rightarrow> 'a option \<Rightarrow> ('s, 'e, 'a) run" where
  "option_or e r = (case r of None \<Rightarrow> fail e | Some a \<Rightarrow> give a)"

definition zeroed :: "'w environment \<Rightarrow> nat \<Rightarrow> 'a \<Rightarrow> ('w, sort_error, 'a list) run" where
  "zeroed env n zero = and_then (try_reserve env SortAllocation n) (\<lambda>_. give (replicate n zero))"

definition div_ceil :: "nat \<Rightarrow> nat \<Rightarrow> nat" where
  "div_ceil a b = a div b + (if a mod b = 0 then 0 else 1)"

definition inverse_memory :: "nat \<Rightarrow> nat \<Rightarrow> nat \<Rightarrow> nat option" where
  "inverse_memory buckets buffer_bytes held_rows =
     Option.bind (checked_mul buckets (buffer_bytes + 2 * 8)) (\<lambda>n.
     Option.bind (checked_mul held_rows 8) (\<lambda>h.
     Option.bind (checked_add n h) (\<lambda>n. checked_add n chunk_bytes)))"

definition inverse_new ::
    "'w environment \<Rightarrow> 'w sort_disk \<Rightarrow> nat \<Rightarrow> nat \<Rightarrow> nat \<Rightarrow> ('w, inverse_builder) shared_run" where
  "inverse_new env dk records bucket_rows buffer_bytes =
     (if bucket_rows = 0 \<or> buffer_bytes < pair_bytes \<or> buffer_bytes mod pair_bytes \<noteq> 0 then fail InvalidConfig
      else
        (let buckets = div_ceil records bucket_rows; held_rows = min bucket_rows records in
         and_then (option_or SortAllocation (inverse_memory buckets buffer_bytes held_rows)) (\<lambda>bytes.
         and_then (ledger_call (reserve bytes True)) (\<lambda>memory.
         on_failure
           (and_then (disk_file_create dk (ascii ''pairs.bin'')) (\<lambda>pairs.
            and_then (with_file dk pairs
              (and_then (option_or InvalidScratch (checked_mul records pair_bytes)) (\<lambda>n.
               and_then (allocate_bytes dk n) (\<lambda>_.
               and_then (option_or SortAllocation (checked_mul buckets buffer_bytes)) (\<lambda>m.
               and_then (on_world (zeroed env m 0)) (\<lambda>buffer.
               and_then (on_world (zeroed env buckets 0)) (\<lambda>filled.
               and_then (on_world (zeroed env buckets 0)) (\<lambda>written.
               and_then (on_world (zeroed env held_rows 0)) (\<lambda>ranks.
               and_then (on_world (zeroed env chunk_bytes 0)) (\<lambda>chunk.
               give (buffer, filled, written, ranks, chunk)))))))))))
              (\<lambda>(pairs, buffer, filled, written, ranks, chunk).
                give \<lparr>ib_records = records, ib_bucket_rows = bucket_rows, ib_buckets = buckets,
                      ib_buffer_bytes = buffer_bytes, ib_pairs = pairs, ib_buffer = buffer, ib_filled = filled,
                      ib_written = written, ib_ranks = ranks, ib_chunk = chunk, ib_bucket = 0, ib_read = 0,
                      ib_memory = memory\<rparr>)))
           (release_shared memory)))))"

definition bucket_start :: "inverse_builder \<Rightarrow> nat \<Rightarrow> nat" where
  "bucket_start ib b = b * ib_bucket_rows ib"

text \<open>\<open>None\<close> is the underflow of the subtraction.\<close>

definition bucket_len :: "inverse_builder \<Rightarrow> nat \<Rightarrow> nat option" where
  "bucket_len ib b = map_option (min (ib_bucket_rows ib)) (checked_sub (ib_records ib) (bucket_start ib b))"

definition on_pairs :: "('w, 'a) file_run \<Rightarrow> ('w, 'a) inverse_run" where
  "on_pairs = focus (\<lambda>(ib, sh). (ib_pairs ib, sh)) (\<lambda>(f, sh) (ib, _). (ib\<lparr>ib_pairs := f\<rparr>, sh))"

definition modify_builder :: "(inverse_builder \<Rightarrow> inverse_builder) \<Rightarrow> ('w, unit) inverse_run" where
  "modify_builder f = update_state (\<lambda>(ib, sh). (f ib, sh))"

definition inverse_flush :: "'w sort_disk \<Rightarrow> nat \<Rightarrow> ('w, unit) inverse_run" where
  "inverse_flush dk b =
     with_state (\<lambda>(ib, _).
       if b \<ge> length (ib_filled ib) \<or> b \<ge> length (ib_written ib) then panic
       else
         (let n = ib_filled ib ! b in
          if n = 0 then give ()
          else
            (case bucket_len ib b of
               None \<Rightarrow> panic
             | Some len \<Rightarrow>
                 if ib_written ib ! b + n > len * pair_bytes then fail InvalidScratch
                 else
                   (let offset = bucket_start ib b * pair_bytes + ib_written ib ! b;
                        start = b * ib_buffer_bytes ib in
                    if start + n > length (ib_buffer ib) then panic
                    else
                      and_then (on_pairs (write_all_at n dk offset (segment (ib_buffer ib) start (start + n)))) (\<lambda>_.
                        modify_builder (\<lambda>ib. ib\<lparr>ib_written := (ib_written ib)[b := ib_written ib ! b + n],
                                               ib_filled := (ib_filled ib)[b := 0]\<rparr>))))))"

definition inverse_push :: "'w sort_disk \<Rightarrow> nat \<Rightarrow> nat \<Rightarrow> ('w, unit) inverse_run" where
  "inverse_push dk row rank =
     with_state (\<lambda>(ib, _).
       if row \<ge> ib_records ib \<or> rank \<ge> ib_records ib then fail InvalidScratch
       else
         (let b = row div ib_bucket_rows ib in
          if b \<ge> length (ib_filled ib) then panic
          else
            (let at = b * ib_buffer_bytes ib + ib_filled ib ! b in
             if at + pair_bytes > length (ib_buffer ib) then panic
             else
               and_then (modify_builder (\<lambda>ib. ib\<lparr>ib_buffer := overwrite at (le_bytes 8 row @ le_bytes 8 rank) (ib_buffer ib),
                                                ib_filled := (ib_filled ib)[b := ib_filled ib ! b + pair_bytes]\<rparr>))
                 (\<lambda>_. if ib_filled ib ! b + pair_bytes = ib_buffer_bytes ib then inverse_flush dk b else give ()))))"

fun finish_buckets :: "'w sort_disk \<Rightarrow> nat list \<Rightarrow> ('w, unit) inverse_run" where
  "finish_buckets dk [] = give ()"
| "finish_buckets dk (b # bs) =
     and_then (inverse_flush dk b) (\<lambda>_.
     with_state (\<lambda>(ib, _).
       if b \<ge> length (ib_written ib) then panic
       else
         (case bucket_len ib b of
            None \<Rightarrow> panic
          | Some len \<Rightarrow> if ib_written ib ! b \<noteq> len * pair_bytes then fail InvalidScratch else finish_buckets dk bs)))"

definition finish_collecting :: "'w sort_disk \<Rightarrow> ('w, unit) inverse_run" where
  "finish_collecting dk = with_state (\<lambda>(ib, _). finish_buckets dk [0..<ib_buckets ib])"

section \<open>Placing\<close>

definition chunk_pairs :: "bytes \<Rightarrow> (nat \<times> nat) list" where
  "chunk_pairs c =
     map (\<lambda>i. (le_value (segment c (16 * i) (16 * i + 8)), le_value (segment c (16 * i + 8) (16 * i + 16))))
       [0..<length c div pair_bytes]"

text \<open>The loop over a chunk: the ranks so far, and whether every pair had a slot of its own.\<close>

fun place_pairs :: "nat \<Rightarrow> nat \<Rightarrow> (nat \<times> nat) list \<Rightarrow> nat list \<Rightarrow> nat list \<times> bool" where
  "place_pairs start len [] ranks = (ranks, True)"
| "place_pairs start len ((row, rank) # ps) ranks =
     (case checked_sub row start of
        None \<Rightarrow> (ranks, False)
      | Some slot \<Rightarrow>
          if slot < len \<and> slot < length ranks \<and> ranks ! slot = u64_max
          then place_pairs start len ps (ranks[slot := rank])
          else (ranks, False))"

definition rank_bytes :: "nat list \<Rightarrow> bytes" where
  "rank_bytes rs = concat (map (le_bytes 8) rs)"

type_synonym ('w, 'a) place_run = "((inverse_builder \<times> disk_file \<times> nat \<times> sort_shared) \<times> 'w, sort_error, 'a) run"

definition on_map_file :: "('w, 'a) file_run \<Rightarrow> ('w, 'a) place_run" where
  "on_map_file = focus (\<lambda>(ib, f, n, sh). (f, sh)) (\<lambda>(f, sh) (ib, _, n, _). (ib, f, n, sh))"

definition on_builder :: "('w, 'a) inverse_run \<Rightarrow> ('w, 'a) place_run" where
  "on_builder = focus (\<lambda>(ib, f, n, sh). (ib, sh)) (\<lambda>(ib, sh) (_, f, n, _). (ib, f, n, sh))"

text \<open>Writing a placed bucket, a chunk of ranks at a time; \<open>from\<close> is what is written already.\<close>

fun write_ranks :: "nat \<Rightarrow> 'w sort_disk \<Rightarrow> nat \<Rightarrow> nat \<Rightarrow> nat \<Rightarrow> ('w, unit) place_run" where
  "write_ranks fuel dk start rows from =
     (if from \<ge> rows then give ()
      else
        (case fuel of
           0 \<Rightarrow> panic
         | Suc k \<Rightarrow>
             (let n = min (rows - from) (chunk_bytes div 8) in
              with_state (\<lambda>(ib, _).
                if from + n > length (ib_ranks ib) \<or> n * 8 > length (ib_chunk ib) then panic
                else
                  (let bs = rank_bytes (segment (ib_ranks ib) from (from + n)) in
                   and_then (on_builder (modify_builder (\<lambda>ib. ib\<lparr>ib_chunk := overwrite 0 bs (ib_chunk ib)\<rparr>))) (\<lambda>_.
                   and_then (on_map_file (write_all_at (n * 8) dk (map_header_bytes + (start + from) * 8) bs)) (\<lambda>_.
                   write_ranks k dk start rows (from + n))))))))"

declare write_ranks.simps [simp del]

text \<open>Reading a chunk of pairs into the buffer and placing them.\<close>

definition place_chunk :: "'w sort_disk \<Rightarrow> nat \<Rightarrow> nat \<Rightarrow> nat \<Rightarrow> ('w, unit) inverse_run" where
  "place_chunk dk start len n =
     with_state (\<lambda>(ib, _).
       if n > length (ib_chunk ib) then panic
       else
         and_then (on_pairs (fill_at n dk (start * pair_bytes + ib_read ib) n [])) (\<lambda>(got, failure).
         and_then (modify_builder (\<lambda>ib. ib\<lparr>ib_chunk := overwrite 0 got (ib_chunk ib)\<rparr>)) (\<lambda>_.
           case failure of
             Some e \<Rightarrow> fail e
           | None \<Rightarrow>
               (case place_pairs start len (chunk_pairs got) (ib_ranks ib) of
                  (ranks, complete) \<Rightarrow>
                    and_then (modify_builder (\<lambda>ib. ib\<lparr>ib_ranks := ranks\<rparr>)) (\<lambda>_.
                      if complete then give () else fail InvalidScratch)))))"

definition inverse_place :: "'w sort_disk \<Rightarrow> ('w, bool) place_run" where
  "inverse_place dk =
     with_state (\<lambda>(ib, _).
       if ib_bucket ib = ib_buckets ib then give True
       else
         (let start = bucket_start ib (ib_bucket ib) in
          case bucket_len ib (ib_bucket ib) of
            None \<Rightarrow> panic
          | Some len \<Rightarrow>
              (let total_bytes = len * pair_bytes in
               if ib_read ib > total_bytes \<or> len > length (ib_ranks ib) then panic
               else
                 (let n = min (total_bytes - ib_read ib) chunk_bytes in
                  and_then (on_builder (modify_builder (\<lambda>ib.
                    if ib_read ib = 0 then ib\<lparr>ib_ranks := replicate len u64_max @ drop len (ib_ranks ib)\<rparr> else ib))) (\<lambda>_.
                  and_then (on_builder (place_chunk dk start len n)) (\<lambda>_.
                  and_then (update_state (\<lambda>(ib, f, budget, sh).
                    (ib\<lparr>ib_read := ib_read ib + n\<rparr>, f, saturating_sub budget n, sh))) (\<lambda>_.
                  and_then (with_state (\<lambda>(ib, _).
                    if ib_read ib = total_bytes
                    then and_then (write_ranks len dk start len 0) (\<lambda>_.
                           on_builder (modify_builder (\<lambda>ib. ib\<lparr>ib_bucket := ib_bucket ib + 1, ib_read := 0\<rparr>)))
                    else give ())) (\<lambda>_.
                  with_state (\<lambda>(ib, _). give (ib_bucket ib = ib_buckets ib))))))))))"

end
