(* ===== verification/Sort_Inverse_Correct.thy ===== *)
theory Sort_Inverse_Correct imports Sort_Pages_Correct Sort_Inverse begin

text \<open>
  The steps of the inverse map.  Pushing keeps every pair in the bucket of its row, collecting finds
  every bucket full, and placing writes the rank of each row to the row's place in the map; a bucket
  with a row missing or pushed twice is refused.  \<open>collects\<close> is the invariant while pairs are pushed, \<open>placing\<close> the one while
  buckets are placed.
\<close>

section \<open>Entries of a fixed width\<close>

lemma length_concat_width: "\<forall>x \<in> set xs. length (f x) = n \<Longrightarrow> length (concat (map f xs)) = n * length xs"
  by (induction xs) simp_all

lemma take_concat_width:
  "\<forall>x \<in> set xs. length (f x) = n \<Longrightarrow> take (n * i) (concat (map f xs)) = concat (map f (take i xs))"
proof (induction xs arbitrary: i)
  case (Cons x xs)
  then show ?case by (cases i) simp_all
qed simp

lemma drop_concat_width:
  "\<forall>x \<in> set xs. length (f x) = n \<Longrightarrow> drop (n * i) (concat (map f xs)) = concat (map f (drop i xs))"
proof (induction xs arbitrary: i)
  case (Cons x xs)
  then show ?case by (cases i) simp_all
qed simp

lemma segment_concat_width:
  assumes "\<forall>x \<in> set xs. length (f x) = n"
  shows "segment (concat (map f xs)) (n * i) (n * j) = concat (map f (segment xs i j))"
proof -
  have "\<forall>x \<in> set (drop i xs). length (f x) = n" using assms by (meson in_set_dropD)
  then show ?thesis
    by (simp add: segment_def drop_concat_width [OF assms] take_concat_width diff_mult_distrib2 [symmetric])
qed

lemma overwrite_concat_width:
  assumes "\<forall>x \<in> set xs. length (f x) = n" "\<forall>x \<in> set ys. length (f x) = n" "i + length ys \<le> length xs"
  shows "overwrite (n * i) (concat (map f ys)) (concat (map f xs))
    = concat (map f (take i xs @ ys @ drop (i + length ys) xs))"
proof -
  have sum: "n * i + n * length ys = n * (i + length ys)" by (simp add: algebra_simps)
  have "n * i + length (concat (map f ys)) \<le> length (concat (map f xs))"
    unfolding length_concat_width [OF assms(1)] length_concat_width [OF assms(2)] sum using assms(3) by (rule mult_le_mono2)
  then show ?thesis
    by (simp add: overwrite_inside length_concat_width [OF assms(2)] take_concat_width [OF assms(1)] sum
        drop_concat_width [OF assms(1)])
qed

lemma segment_overwrite_other:
  assumes "at + length bs \<le> length c" "j \<le> at \<or> at + length bs \<le> i"
  shows "segment (overwrite at bs c) i j = segment c i j"
proof (cases "j \<le> at")
  case True
  have "segment (overwrite at bs c) i j = segment (take at (overwrite at bs c)) i j"
    using True by (simp add: segment_take)
  also have "take at (overwrite at bs c) = take at c" using assms(1) by (simp add: overwrite_inside)
  finally show ?thesis using True by (simp add: segment_take)
next
  case False
  with assms have i: "at + length bs \<le> i" by simp
  have "drop (at + length bs) (overwrite at bs c) = drop (at + length bs) c" using assms(1) by (simp add: overwrite_inside)
  then have "drop i (overwrite at bs c) = drop i c" using i by (metis drop_drop le_add_diff_inverse2)
  then show ?thesis by (simp add: segment_def)
qed

lemma segment_overwrite_extend:
  assumes "i \<le> at" "at + length bs \<le> length c"
  shows "segment (overwrite at bs c) i (at + length bs) = segment c i at @ bs"
  using assms by (simp add: segment_def overwrite_inside drop_take)

lemma overwrite_header:
  "length h = n \<Longrightarrow> i + length bs \<le> length c \<Longrightarrow> overwrite (n + i) bs (h @ c) = h @ overwrite i bs c"
  by (simp add: overwrite_inside)

section \<open>Pairs\<close>

definition pair_entry :: "nat \<times> nat \<Rightarrow> bytes" where
  "pair_entry p = le_bytes 8 (fst p) @ le_bytes 8 (snd p)"

definition pairs_bytes :: "(nat \<times> nat) list \<Rightarrow> bytes" where
  "pairs_bytes ps = concat (map pair_entry ps)"

lemma length_pair_entry [simp]: "length (pair_entry p) = 16"
  by (simp add: pair_entry_def)

lemma length_pairs_bytes [simp]: "length (pairs_bytes ps) = 16 * length ps"
  unfolding pairs_bytes_def by (rule length_concat_width) simp

lemma pairs_bytes_simps [simp]:
  "pairs_bytes [] = []" "pairs_bytes (p # ps) = pair_entry p @ pairs_bytes ps"
  "pairs_bytes (ps @ qs) = pairs_bytes ps @ pairs_bytes qs"
  by (simp_all add: pairs_bytes_def)

lemma segment_pairs_bytes: "segment (pairs_bytes ps) (16 * i) (16 * j) = pairs_bytes (segment ps i j)"
  unfolding pairs_bytes_def by (rule segment_concat_width) simp

lemma pair_at:
  assumes "i < length ps"
  shows "segment (pairs_bytes ps) (16 * i) (16 * i + 16) = pair_entry (ps ! i)"
proof -
  have "segment ps i (Suc i) = [ps ! i]"
    using assms by (simp add: segment_def Cons_nth_drop_Suc [symmetric])
  moreover have "16 * i + 16 = 16 * Suc i" by simp
  ultimately show ?thesis using segment_pairs_bytes [of ps i "Suc i"] by (simp add: add.commute)
qed

lemma chunk_pairs_bytes:
  assumes "\<forall>p \<in> set ps. fst p \<le> u64_max \<and> snd p \<le> u64_max"
  shows "chunk_pairs (pairs_bytes ps) = ps"
proof (rule nth_equalityI)
  show "length (chunk_pairs (pairs_bytes ps)) = length ps" by (simp add: chunk_pairs_def pair_bytes_def)
next
  fix i assume "i < length (chunk_pairs (pairs_bytes ps))"
  then have i: "i < length ps" by (simp add: chunk_pairs_def pair_bytes_def)
  have "segment (pairs_bytes ps) (16 * i) (16 * i + 8) = segment (segment (pairs_bytes ps) (16 * i) (16 * i + 16)) 0 8"
    "segment (pairs_bytes ps) (16 * i + 8) (16 * i + 16) = segment (segment (pairs_bytes ps) (16 * i) (16 * i + 16)) 8 16"
    by (simp_all add: segment_segment)
  then have "chunk_pairs (pairs_bytes ps) ! i = (le_value (segment (pair_entry (ps ! i)) 0 8), le_value (segment (pair_entry (ps ! i)) 8 16))"
    using i by (simp add: chunk_pairs_def pair_bytes_def pair_at)
  also have "\<dots> = ps ! i"
    using assms i by (simp add: pair_entry_def segment_here segment_skip segment_here [of _ _ "[]", simplified])
  finally show "chunk_pairs (pairs_bytes ps) ! i = ps ! i" .
qed

section \<open>Buckets\<close>

definition in_bucket :: "nat \<Rightarrow> nat \<Rightarrow> (nat \<times> nat) list \<Rightarrow> (nat \<times> nat) list" where
  "in_bucket rows b ps = filter (\<lambda>p. fst p div rows = b) ps"

definition rows_in :: "inverse_builder \<Rightarrow> nat \<Rightarrow> nat" where
  "rows_in ib b = min (ib_bucket_rows ib) (ib_records ib - b * ib_bucket_rows ib)"

lemma rows_in_update [simp]:
  "rows_in (ib\<lparr>ib_ranks := r\<rparr>) = rows_in ib" "rows_in (ib\<lparr>ib_read := n\<rparr>) = rows_in ib"
  "rows_in (ib\<lparr>ib_bucket := n\<rparr>) = rows_in ib" "rows_in (ib\<lparr>ib_chunk := c\<rparr>) = rows_in ib"
  by (simp_all add: rows_in_def fun_eq_iff)

lemma bucket_range:
  assumes "0 < rows" "r < n" "r div rows = b"
  shows "b * rows \<le> r" "r < b * rows + min rows (n - b * rows)" "b < div_ceil n rows"
proof -
  show le: "b * rows \<le> r" using assms by (metis div_times_less_eq_dividend)
  have "r < b * rows + rows" using assms by (metis add.commute dividend_less_times_div mult.commute mult_Suc_right)
  with assms(2) le show "r < b * rows + min rows (n - b * rows)" by auto
  show "b < div_ceil n rows"
  proof (cases "n mod rows = 0")
    case True
    then have "n = n div rows * rows" by (metis add_cancel_right_right div_mult_mod_eq)
    with le assms(2) have "b * rows < n div rows * rows" by linarith
    then have "b < n div rows" by simp
    with True show ?thesis by (simp add: div_ceil_def)
  next
    case False
    have "b \<le> n div rows" using div_le_mono [of r n rows] assms by simp
    with False show ?thesis by (simp add: div_ceil_def)
  qed
qed

lemma bucket_start_less: "0 < rows \<Longrightarrow> b < div_ceil n rows \<Longrightarrow> b * rows < n"
proof -
  assume rows: "0 < rows" and b: "b < div_ceil n rows"
  show "b * rows < n"
  proof (cases "n mod rows = 0")
    case True
    with b have "b < n div rows" by (simp add: div_ceil_def)
    then have "Suc b * rows \<le> n div rows * rows" by (intro mult_le_mono1) simp
    also have "\<dots> \<le> n" by simp
    finally show ?thesis using rows by simp
  next
    case False
    with b have "b * rows \<le> n div rows * rows" by (intro mult_le_mono1) (simp add: div_ceil_def)
    moreover have "n div rows * rows < n" using False by (metis div_mult_mod_eq less_add_same_cancel1 neq0_conv)
    ultimately show ?thesis by (rule le_less_trans)
  qed
qed

lemma in_bucket_rows:
  assumes "0 < rows" "\<forall>p \<in> set ps. fst p < n"
  shows "set (map fst (in_bucket rows b ps)) \<subseteq> {b * rows..<b * rows + min rows (n - b * rows)}"
proof
  fix r assume "r \<in> set (map fst (in_bucket rows b ps))"
  then obtain p where p: "p \<in> set ps" "fst p div rows = b" "r = fst p" by (auto simp: in_bucket_def)
  with assms(2) have "fst p < n" by blast
  from bucket_range(1,2) [OF assms(1) this p(2)] p(3) show "r \<in> {b * rows..<b * rows + min rows (n - b * rows)}" by simp
qed

lemma in_bucket_count:
  assumes "0 < rows" "distinct (map fst ps)" "\<forall>p \<in> set ps. fst p < n"
  shows "length (in_bucket rows b ps) \<le> min rows (n - b * rows)"
proof -
  have d: "distinct (map fst (in_bucket rows b ps))"
    using assms(2) unfolding in_bucket_def by (rule distinct_map_filter)
  from card_mono [OF _ in_bucket_rows [OF assms(1,3)], of b] have "card (set (map fst (in_bucket rows b ps))) \<le> min rows (n - b * rows)" by simp
  then show ?thesis using distinct_card [OF d] by simp
qed

lemma in_bucket_full:
  assumes "0 < rows" "distinct (map fst ps)" "fst ` set ps = {..<n}"
  shows "length (in_bucket rows b ps) = min rows (n - b * rows)"
proof -
  have d: "distinct (map fst (in_bucket rows b ps))"
    using assms(2) unfolding in_bucket_def by (rule distinct_map_filter)
  have "set (map fst (in_bucket rows b ps)) = {b * rows..<b * rows + min rows (n - b * rows)}" (is "?L = ?R")
  proof
    have "\<forall>p \<in> set ps. fst p < n" using assms(3) by auto
    then show "?L \<subseteq> ?R" by (rule in_bucket_rows [OF assms(1)])
    show "?R \<subseteq> ?L"
    proof
      fix r assume r: "r \<in> ?R"
      then have le: "b * rows \<le> r" and less: "r < b * rows + min rows (n - b * rows)" by simp_all
      have "r < b * rows + rows" using less by (rule less_le_trans) (rule add_left_mono, rule min.cobounded1)
      moreover have "r < b * rows + (n - b * rows)" using less by (rule less_le_trans) (rule add_left_mono, rule min.cobounded2)
      ultimately have "b * rows \<le> r" "r < b * rows + rows" "r < n" using le by linarith+
      moreover from this have "r div rows = b" by (intro div_nat_eqI) (simp_all add: mult.commute)
      ultimately have "r < n" "r div rows = b" by simp_all
      with assms(3) have "r \<in> fst ` set ps" by simp
      with \<open>r div rows = b\<close> show "r \<in> ?L" by (auto simp: in_bucket_def)
    qed
  qed
  with distinct_card [OF d] show ?thesis by simp
qed

section \<open>Collecting\<close>

definition builder_ok :: "inverse_builder \<Rightarrow> bool" where
  "builder_ok ib \<longleftrightarrow> 0 < ib_bucket_rows ib \<and> 16 \<le> ib_buffer_bytes ib \<and> 16 dvd ib_buffer_bytes ib
     \<and> ib_buckets ib = div_ceil (ib_records ib) (ib_bucket_rows ib) \<and> ib_records ib * 16 \<le> u64_max
     \<and> length (ib_buffer ib) = ib_buckets ib * ib_buffer_bytes ib
     \<and> length (ib_filled ib) = ib_buckets ib \<and> length (ib_written ib) = ib_buckets ib
     \<and> length (ib_ranks ib) = min (ib_bucket_rows ib) (ib_records ib) \<and> length (ib_chunk ib) = chunk_bytes"

definition bucket_holds :: "inverse_builder \<Rightarrow> bytes \<Rightarrow> nat \<Rightarrow> (nat \<times> nat) list \<Rightarrow> bool" where
  "bucket_holds ib c b qs \<longleftrightarrow> ib_filled ib ! b \<le> ib_buffer_bytes ib \<and> 16 dvd ib_filled ib ! b
     \<and> ib_written ib ! b \<le> 16 * rows_in ib b
     \<and> segment c (16 * (b * ib_bucket_rows ib)) (16 * (b * ib_bucket_rows ib) + ib_written ib ! b)
       @ segment (ib_buffer ib) (b * ib_buffer_bytes ib) (b * ib_buffer_bytes ib + ib_filled ib ! b) = pairs_bytes qs"

definition collects :: "inverse_builder \<Rightarrow> (nat \<times> nat) list \<Rightarrow> bool" where
  "collects ib ps \<longleftrightarrow> builder_ok ib \<and> ib_bucket ib = 0 \<and> ib_read ib = 0
     \<and> (\<forall>p \<in> set ps. fst p < ib_records ib \<and> snd p < ib_records ib)
     \<and> (\<exists>c. stored (ib_pairs ib) c \<and> length c = 16 * ib_records ib
          \<and> (\<forall>b < ib_buckets ib. bucket_holds ib c b (in_bucket (ib_bucket_rows ib) b ps)))"

definition room :: "inverse_builder \<Rightarrow> bool" where
  "room ib \<longleftrightarrow> (\<forall>b < ib_buckets ib. ib_filled ib ! b + 16 \<le> ib_buffer_bytes ib)"

definition same_setup :: "inverse_builder \<Rightarrow> inverse_builder \<Rightarrow> bool" where
  "same_setup ib ib' \<longleftrightarrow> ib_records ib' = ib_records ib \<and> ib_bucket_rows ib' = ib_bucket_rows ib
     \<and> ib_buckets ib' = ib_buckets ib \<and> ib_buffer_bytes ib' = ib_buffer_bytes ib"

lemma bucket_inside:
  assumes "builder_ok ib" "b < ib_buckets ib"
  shows "b * ib_bucket_rows ib < ib_records ib" "bucket_len ib b = Some (rows_in ib b)"
    "b * ib_bucket_rows ib + rows_in ib b \<le> ib_records ib" "0 < rows_in ib b" "rows_in ib b \<le> length (ib_ranks ib)"
proof -
  show less: "b * ib_bucket_rows ib < ib_records ib"
    using assms bucket_start_less by (simp add: builder_ok_def)
  then show "bucket_len ib b = Some (rows_in ib b)"
    by (simp add: bucket_len_def checked_sub_def bucket_start_def rows_in_def)
  show "b * ib_bucket_rows ib + rows_in ib b \<le> ib_records ib" "0 < rows_in ib b" "rows_in ib b \<le> length (ib_ranks ib)"
    using less assms(1) by (simp_all add: rows_in_def builder_ok_def)
qed

lemma bucket_apart:
  assumes "b < b'" shows "b * ib_bucket_rows ib + rows_in ib b \<le> b' * ib_bucket_rows ib"
proof -
  have "b * ib_bucket_rows ib + rows_in ib b \<le> Suc b * ib_bucket_rows ib" by (simp add: rows_in_def)
  also have "\<dots> \<le> b' * ib_bucket_rows ib" using assms by (intro mult_le_mono1) simp
  finally show ?thesis .
qed

lemma buffer_apart: "b < b' \<Longrightarrow> b * n + n \<le> b' * (n :: nat)"
  using mult_le_mono1 [of "Suc b" b' n] by simp

text \<open>Every bucket full: its region holds all its pairs.\<close>

definition collected :: "inverse_builder \<Rightarrow> (nat \<times> nat) list \<Rightarrow> bool" where
  "collected ib ps \<longleftrightarrow> builder_ok ib \<and> (\<forall>p \<in> set ps. fst p < ib_records ib \<and> snd p < ib_records ib)
     \<and> (\<exists>c. stored (ib_pairs ib) c \<and> length c = 16 * ib_records ib
          \<and> (\<forall>b < ib_buckets ib. length (in_bucket (ib_bucket_rows ib) b ps) = rows_in ib b
               \<and> segment c (16 * (b * ib_bucket_rows ib)) (16 * (b * ib_bucket_rows ib + rows_in ib b))
                   = pairs_bytes (in_bucket (ib_bucket_rows ib) b ps)))"

definition flushed :: "inverse_builder \<Rightarrow> nat \<Rightarrow> bool" where
  "flushed ib b \<longleftrightarrow> ib_filled ib ! b = 0 \<and> ib_written ib ! b = 16 * rows_in ib b"

lemma all_flushed:
  assumes c: "collects ib ps" and f: "\<forall>b < ib_buckets ib. flushed ib b"
  shows "collected ib ps"
proof -
  from c obtain data0 where ok: "builder_ok ib" and st: "stored (ib_pairs ib) data0" "length data0 = 16 * ib_records ib"
    and holds: "\<forall>b < ib_buckets ib. bucket_holds ib data0 b (in_bucket (ib_bucket_rows ib) b ps)"
    and ps: "\<forall>p \<in> set ps. fst p < ib_records ib \<and> snd p < ib_records ib"
    by (auto simp: collects_def)
  have "length (in_bucket (ib_bucket_rows ib) b ps) = rows_in ib b
      \<and> segment data0 (16 * (b * ib_bucket_rows ib)) (16 * (b * ib_bucket_rows ib + rows_in ib b))
          = pairs_bytes (in_bucket (ib_bucket_rows ib) b ps)" if b: "b < ib_buckets ib" for b
  proof -
    have seg: "segment data0 (16 * (b * ib_bucket_rows ib)) (16 * (b * ib_bucket_rows ib) + 16 * rows_in ib b)
        = pairs_bytes (in_bucket (ib_bucket_rows ib) b ps)"
      using holds f b by (auto simp: bucket_holds_def flushed_def)
    then have "length (pairs_bytes (in_bucket (ib_bucket_rows ib) b ps)) = 16 * rows_in ib b"
      unfolding seg [symmetric] using bucket_inside(3) [OF ok b] st(2) by simp
    then have "length (in_bucket (ib_bucket_rows ib) b ps) = rows_in ib b" by simp
    with seg show ?thesis by (simp add: distrib_left)
  qed
  with ok st ps show ?thesis unfolding collected_def by blast
qed

text \<open>The failures of the builder: those of storage, and the refusal of rows that are no permutation.\<close>

definition refuses :: "bool \<Rightarrow> sort_error \<Rightarrow> bool" where
  "refuses good e \<longleftrightarrow> sort_failure e \<or> e = InvalidScratch \<and> \<not> good"

lemma attains_refuses: "attains sort_failure m sw Q \<Longrightarrow> attains (refuses good) m sw Q"
  by (auto simp: attains_def refuses_def split: prod.splits outcome.splits)

context sort_world begin

lemma flush_spec:
  assumes w: "world_ok w" and c: "collects ib ps" and b: "b < ib_buckets ib"
    and good: "good \<Longrightarrow> length (in_bucket (ib_bucket_rows ib) b ps) \<le> rows_in ib b"
  shows "attains (refuses good) (inverse_flush dk b) ((ib, sh), w)
    (\<lambda>_ ((ib', sh'), w'). world_ok w' \<and> sh_owner sh' = sh_owner sh \<and> collects ib' ps \<and> same_setup ib ib'
       \<and> ib_filled ib' = (ib_filled ib)[b := 0]
       \<and> ib_written ib' = (ib_written ib)[b := 16 * length (in_bucket (ib_bucket_rows ib) b ps)])"
proof -
  from c obtain data0 where ok: "builder_ok ib" and st: "stored (ib_pairs ib) data0" "length data0 = 16 * ib_records ib"
    and holds: "\<forall>b < ib_buckets ib. bucket_holds ib data0 b (in_bucket (ib_bucket_rows ib) b ps)"
    and ps: "\<forall>p \<in> set ps. fst p < ib_records ib \<and> snd p < ib_records ib" "ib_bucket ib = 0" "ib_read ib = 0"
    by (auto simp: collects_def)
  note in_b = bucket_inside [OF ok b]
  let ?n = "ib_filled ib ! b" and ?wr = "ib_written ib ! b" and ?qs = "in_bucket (ib_bucket_rows ib) b ps"
  let ?at = "16 * (b * ib_bucket_rows ib) + ?wr" and ?s = "b * ib_buffer_bytes ib"
  have len: "b < length (ib_filled ib)" "b < length (ib_written ib)" "length (ib_buffer ib) = ib_buckets ib * ib_buffer_bytes ib"
    using ok b by (simp_all add: builder_ok_def)
  have hb: "?n \<le> ib_buffer_bytes ib" "?wr \<le> 16 * rows_in ib b"
    "segment data0 (16 * (b * ib_bucket_rows ib)) ?at @ segment (ib_buffer ib) ?s (?s + ?n) = pairs_bytes ?qs"
    using holds b by (auto simp: bucket_holds_def)
  have buf: "?s + ?n \<le> length (ib_buffer ib)"
    using hb(1) buffer_apart [OF b, of "ib_buffer_bytes ib"] len(3) by linarith
  have at: "?at \<le> length data0" using hb(2) in_b(3) st(2) by linarith
  have "length (pairs_bytes ?qs) = ?wr + ?n"
    unfolding hb(3) [symmetric] using at buf by simp
  then have n: "16 * length ?qs = ?wr + ?n" by simp
  show ?thesis
  proof (cases "?n = 0")
    case True
    then have "ib_filled ib = (ib_filled ib)[b := 0]" by (metis list_update_id)
    moreover have "ib_written ib = (ib_written ib)[b := 16 * length ?qs]" using True n by simp
    ultimately show ?thesis using True c w len
      by (simp add: inverse_flush_def wp_simps same_setup_def)
  next
    case False
    show ?thesis
    proof (cases "?wr + ?n > rows_in ib b * 16")
      case True
      then have "\<not> good" using good n by auto
      with False True len in_b(2) show ?thesis
        by (simp add: inverse_flush_def wp_simps refuses_def pair_bytes_def Let_def)
    next
      case fits: False
      let ?bs = "segment (ib_buffer ib) ?s (?s + ?n)"
      have lbs: "length ?bs = ?n" using buf by simp
      have inside: "?at + length ?bs \<le> length data0" unfolding lbs using fits in_b(3) st(2) by linarith
      note wr = write_at_spec [OF w st(1) inside, of sh, THEN attains_refuses [where good = good]]
      let ?data = "overwrite ?at ?bs data0"
      define ib1 where "ib1 f = ib\<lparr>ib_pairs := f, ib_written := (ib_written ib)[b := ?wr + ?n],
          ib_filled := (ib_filled ib)[b := 0]\<rparr>" for f
      have other: "segment ?data (16 * (b' * ib_bucket_rows ib)) (16 * (b' * ib_bucket_rows ib) + ib_written ib ! b')
          = segment data0 (16 * (b' * ib_bucket_rows ib)) (16 * (b' * ib_bucket_rows ib) + ib_written ib ! b')"
        if "b' < ib_buckets ib" "b' \<noteq> b" for b'
      proof (rule segment_overwrite_other [OF inside])
        have "ib_written ib ! b' \<le> 16 * rows_in ib b'" using holds that(1) by (auto simp: bucket_holds_def)
        with bucket_apart [of b' b ib] bucket_apart [of b b' ib] that(2) fits lbs
        show "16 * (b' * ib_bucket_rows ib) + ib_written ib ! b' \<le> ?at \<or> ?at + length ?bs \<le> 16 * (b' * ib_bucket_rows ib)"
          by (cases "b' < b") auto
      qed
      have own: "segment ?data (16 * (b * ib_bucket_rows ib)) (?at + ?n) = pairs_bytes ?qs"
        using segment_overwrite_extend [OF _ inside, of "16 * (b * ib_bucket_rows ib)"] hb(3) lbs by simp
      have keeps: "collects (ib1 f) ps" if "stored f ?data" for f
      proof -
        have "bucket_holds (ib1 f) ?data b' (in_bucket (ib_bucket_rows ib) b' ps)" if b': "b' < ib_buckets ib" for b'
        proof (cases "b' = b")
          case True
          with own fits len show ?thesis
            by (simp add: bucket_holds_def ib1_def rows_in_def add.assoc)
        next
          case False
          with other [OF b' False] holds b' show ?thesis by (simp add: bucket_holds_def ib1_def rows_in_def)
        qed
        with ok ps that st(2) inside show ?thesis
          by (auto simp: collects_def ib1_def builder_ok_def length_overwrite)
      qed
      let ?run = "and_then (on_pairs (write_all_at (length ?bs) dk ?at ?bs))
          (\<lambda>_. modify_builder (\<lambda>ib. ib\<lparr>ib_written := (ib_written ib)[b := ib_written ib ! b + ?n],
               ib_filled := (ib_filled ib)[b := 0]\<rparr>))"
      have "inverse_flush dk b ((ib, sh), w) = ?run ((ib, sh), w)"
        unfolding lbs using False fits len in_b(2) buf
        by (simp add: inverse_flush_def with_state_def Let_def pair_bytes_def bucket_start_def mult.commute)
      then have step: "attains E (inverse_flush dk b) ((ib, sh), w) Q = attains E ?run ((ib, sh), w) Q" for E Q
        by (simp only: attains_def)
      show ?thesis
        unfolding step attains_and_then on_pairs_def modify_builder_def attains_focus
        by (simp add: wp_simps del: length_segment, rule attains_weaken [OF wr])
           (use keeps n len in \<open>auto simp: ib1_def same_setup_def\<close>)
    qed
  qed
qed

lemma push_spec:
  assumes w: "world_ok w" and c: "collects ib ps" and r: "room ib" and row: "row < ib_records ib" and rank: "rank < ib_records ib"
    and good: "good \<Longrightarrow> distinct (map fst (ps @ [(row, rank)]))"
  shows "attains (refuses good) (inverse_push dk row rank) ((ib, sh), w)
    (\<lambda>_ ((ib', sh'), w'). world_ok w' \<and> sh_owner sh' = sh_owner sh \<and> collects ib' (ps @ [(row, rank)]) \<and> room ib'
       \<and> same_setup ib ib')"
proof -
  from c obtain data0 where ok: "builder_ok ib" and st: "stored (ib_pairs ib) data0" "length data0 = 16 * ib_records ib"
    and holds: "\<forall>b < ib_buckets ib. bucket_holds ib data0 b (in_bucket (ib_bucket_rows ib) b ps)"
    and ps: "\<forall>p \<in> set ps. fst p < ib_records ib \<and> snd p < ib_records ib" "ib_bucket ib = 0" "ib_read ib = 0"
    by (auto simp: collects_def)
  have pos: "0 < ib_bucket_rows ib" using ok by (simp add: builder_ok_def)
  define b where "b = row div ib_bucket_rows ib"
  have b: "b < ib_buckets ib" using bucket_range(3) [OF pos row] ok by (simp add: b_def builder_ok_def)
  have len: "length (ib_filled ib) = ib_buckets ib" "length (ib_buffer ib) = ib_buckets ib * ib_buffer_bytes ib"
    using ok by (simp_all add: builder_ok_def)
  let ?s = "b * ib_buffer_bytes ib" and ?n = "ib_filled ib ! b"
  let ?entry = "pair_entry (row, rank)"
  have room: "?n + 16 \<le> ib_buffer_bytes ib" using r b by (simp add: room_def)
  have inside: "?s + ?n + length ?entry \<le> length (ib_buffer ib)"
    using buffer_apart [OF b, of "ib_buffer_bytes ib"] room len(2) by simp
  define ib1 where "ib1 = ib\<lparr>ib_buffer := overwrite (?s + ?n) ?entry (ib_buffer ib), ib_filled := (ib_filled ib)[b := ?n + 16]\<rparr>"
  have in_b: "in_bucket (ib_bucket_rows ib) b' (ps @ [(row, rank)])
      = in_bucket (ib_bucket_rows ib) b' ps @ (if b' = b then [(row, rank)] else [])" for b'
    by (simp add: in_bucket_def b_def)
  have "bucket_holds ib1 data0 b' (in_bucket (ib_bucket_rows ib) b' (ps @ [(row, rank)]))" if b': "b' < ib_buckets ib" for b'
  proof (cases "b' = b")
    case True
    have "segment (overwrite (?s + ?n) ?entry (ib_buffer ib)) ?s (?s + ?n + length ?entry) = segment (ib_buffer ib) ?s (?s + ?n) @ ?entry"
      by (rule segment_overwrite_extend [OF _ inside]) simp
    with True holds b' room len show ?thesis
      by (auto simp: bucket_holds_def ib1_def in_b rows_in_def add.assoc)
  next
    case False
    have "ib_filled ib ! b' + 16 \<le> ib_buffer_bytes ib" using r b' by (simp add: room_def)
    then have "b' * ib_buffer_bytes ib + ib_filled ib ! b' \<le> ?s + ?n \<or> ?s + ?n + length ?entry \<le> b' * ib_buffer_bytes ib"
      using False buffer_apart [of b' b "ib_buffer_bytes ib"] buffer_apart [of b b' "ib_buffer_bytes ib"] room
      by (cases "b' < b") auto
    from segment_overwrite_other [OF inside this] False holds b' show ?thesis
      by (simp add: bucket_holds_def ib1_def in_b rows_in_def)
  qed
  with ok st ps row rank inside have c1: "collects ib1 (ps @ [(row, rank)])"
    by (auto simp: collects_def ib1_def builder_ok_def length_overwrite)
  let ?rest = "if ?n + 16 = ib_buffer_bytes ib then inverse_flush dk b else give ()"
  have run: "attains E (inverse_push dk row rank) ((ib, sh), w) Q = attains E ?rest ((ib1, sh), w) Q" for E Q
    using row rank b len(1) inside
    by (simp add: inverse_push_def wp_simps Let_def b_def [symmetric] pair_bytes_def modify_builder_def ib1_def pair_entry_def)
  show ?thesis
  proof (cases "?n + 16 = ib_buffer_bytes ib")
    case True
    have "length (in_bucket (ib_bucket_rows ib1) b (ps @ [(row, rank)])) \<le> rows_in ib1 b" if good
      using in_bucket_count [OF pos good [OF that], of "ib_records ib" b] ps(1) row
      by (simp add: ib1_def rows_in_def)
    note fl = flush_spec [OF w c1 _ this, where sh = sh]
    have "b < ib_buckets ib1" using b by (simp add: ib1_def)
    from fl [OF this] show ?thesis unfolding run if_P [OF True]
      by (rule attains_weaken)
         (use r ok b len True in \<open>auto simp: same_setup_def room_def ib1_def nth_list_update builder_ok_def\<close>)
  next
    case False
    have "16 dvd ib_buffer_bytes ib" "16 dvd ?n" using ok holds b by (auto simp: builder_ok_def bucket_holds_def)
    then have "?n + 32 \<le> ib_buffer_bytes ib" using room False by presburger
    with False c1 w r len(1) b show ?thesis unfolding run
      by (clarsimp simp: wp_simps same_setup_def room_def ib1_def nth_list_update)
  qed
qed

lemma finish_buckets_spec:
  assumes good: "good \<Longrightarrow> distinct (map fst ps) \<and> fst ` set ps = {..<n}"
  shows "world_ok w \<Longrightarrow> collects ib ps \<Longrightarrow> ib_records ib = n \<Longrightarrow> b \<le> ib_buckets ib \<Longrightarrow>
    (\<forall>b' < b. flushed ib b') \<Longrightarrow> k = ib_buckets ib \<Longrightarrow>
    attains (refuses good) (finish_buckets dk [b..<k]) ((ib, sh), w)
      (\<lambda>_ ((ib', sh'), w'). world_ok w' \<and> sh_owner sh' = sh_owner sh \<and> collected ib' ps \<and> collects ib' ps \<and> same_setup ib ib')"
proof (induction "k - b" arbitrary: b ib sh w)
  case 0
  then have "\<forall>b' < ib_buckets ib. flushed ib b'" by simp
  with 0 all_flushed show ?case by (simp add: wp_simps same_setup_def)
next
  case (Suc m)
  then have b: "b < ib_buckets ib" and k: "[b..<k] = b # [Suc b..<k]" by (simp_all add: upt_conv_Cons)
  have ok: "builder_ok ib" and pos: "0 < ib_bucket_rows ib" using Suc.prems by (auto simp: collects_def builder_ok_def)
  let ?qs = "in_bucket (ib_bucket_rows ib) b ps"
  have full: "length ?qs = rows_in ib b" if good
    using in_bucket_full [OF pos, of ps n b] good [OF that] Suc.prems(3) by (simp add: rows_in_def)
  show ?case unfolding k finish_buckets.simps attains_and_then
  proof (rule attains_weaken [OF flush_spec [OF Suc.prems(1,2) b]], goal_cases)
    case 1
    with full show ?case by simp
  next
    case (2 u sw)
    obtain ib1 sh1 w1 where sw: "sw = ((ib1, sh1), w1)" by (metis surj_pair)
    with 2 have 1: "world_ok w1" "sh_owner sh1 = sh_owner sh" "collects ib1 ps" "same_setup ib ib1"
      "ib_filled ib1 = (ib_filled ib)[b := 0]" "ib_written ib1 = (ib_written ib)[b := 16 * length ?qs]" by auto
    have b1: "b < ib_buckets ib1" "b < length (ib_written ib1)" "b < length (ib_filled ib)" "b < length (ib_written ib)"
      using b 1(3,4) ok by (auto simp: same_setup_def collects_def builder_ok_def)
    have len: "bucket_len ib1 b = Some (rows_in ib1 b)" "rows_in ib1 b = rows_in ib b"
      using bucket_inside(2) [of ib1 b] 1(3,4) b1(1) by (auto simp: collects_def same_setup_def rows_in_def)
    show ?case
    proof (cases "ib_written ib1 ! b = rows_in ib b * 16")
      case False
      have "\<not> good" using full 1(6) False b1 by auto
      with False len b1 show ?thesis by (simp add: sw wp_simps refuses_def pair_bytes_def)
    next
      case True
      have "\<forall>b' < Suc b. flushed ib1 b'"
        using Suc.prems(5) 1(4-6) True len b1 by (auto simp: flushed_def less_Suc_eq rows_in_def same_setup_def)
      moreover have "m = k - Suc b" "ib_records ib1 = n" "Suc b \<le> ib_buckets ib1" "k = ib_buckets ib1"
        using Suc.hyps(2) Suc.prems(3,6) 1(4) b by (simp_all add: same_setup_def)
      ultimately have "attains (refuses good) (finish_buckets dk [Suc b..<k]) ((ib1, sh1), w1)
        (\<lambda>_ ((ib', sh'), w'). world_ok w' \<and> sh_owner sh' = sh_owner sh1 \<and> collected ib' ps \<and> collects ib' ps
           \<and> same_setup ib1 ib')"
        by (intro Suc.hyps(1) [of "Suc b"] 1(1,3))
      with True len b1 1(2,4) show ?thesis
        by (simp add: sw wp_simps pair_bytes_def same_setup_def)
    qed
  qed
qed

end

section \<open>Placing\<close>

text \<open>The slots of a bucket after the pairs \<open>dn\<close>: empty ones hold the maximum.\<close>

definition ranks_hold :: "nat \<Rightarrow> nat \<Rightarrow> (nat \<times> nat) list \<Rightarrow> nat list \<Rightarrow> bool" where
  "ranks_hold start len dn ranks \<longleftrightarrow> len \<le> length ranks \<and> distinct (map fst dn)
     \<and> (\<forall>s < len. (ranks ! s = u64_max \<longleftrightarrow> start + s \<notin> fst ` set dn) \<and> (ranks ! s \<noteq> u64_max \<longrightarrow> (start + s, ranks ! s) \<in> set dn))"

lemma place_pairs_spec:
  "ranks_hold start len dn ranks \<Longrightarrow> \<forall>p \<in> set qs. start \<le> fst p \<and> fst p < start + len \<and> snd p < u64_max \<Longrightarrow>
   place_pairs start len qs ranks = (ranks', complete) \<Longrightarrow>
     length ranks' = length ranks \<and> (if complete then ranks_hold start len (dn @ qs) ranks' else \<not> distinct (map fst (dn @ qs)))"
proof (induction qs arbitrary: dn ranks)
  case (Cons p qs)
  obtain row rank where p: "p = (row, rank)" by fastforce
  let ?slot = "row - start"
  have slot: "checked_sub row start = Some ?slot" "?slot < len" "start + ?slot = row" "rank < u64_max"
    using Cons.prems(2) p by (auto simp: checked_sub_def)
  have len: "?slot < length ranks" using slot(2) Cons.prems(1) by (simp add: ranks_hold_def)
  show ?case
  proof (cases "ranks ! ?slot = u64_max")
    case True
    then have new: "row \<notin> fst ` set dn" using Cons.prems(1) slot by (auto simp: ranks_hold_def)
    have "ranks_hold start len (dn @ [p]) (ranks[?slot := rank])"
      using Cons.prems(1) slot len new p by (auto simp: ranks_hold_def nth_list_update)
    moreover have "place_pairs start len qs (ranks[?slot := rank]) = (ranks', complete)"
      using Cons.prems(3) slot len True p by simp
    ultimately show ?thesis using Cons.IH [of "dn @ [p]" "ranks[?slot := rank]"] Cons.prems(2)
      by (cases complete) auto
  next
    case False
    then have "row \<in> fst ` set dn" using Cons.prems(1) slot by (auto simp: ranks_hold_def)
    moreover have "ranks' = ranks" "\<not> complete" using Cons.prems(3) slot len False p by simp_all
    ultimately show ?thesis using p by auto
  qed
qed simp

lemma length_rank_bytes [simp]: "length (rank_bytes rs) = 8 * length rs"
  unfolding rank_bytes_def by (rule length_concat_width) simp

lemma overwrite_ranks:
  assumes "length h = 32" "at + length new \<le> length rs"
  shows "overwrite (32 + at * 8) (rank_bytes new) (h @ rank_bytes rs)
    = h @ rank_bytes (take at rs @ new @ drop (at + length new) rs)"
proof -
  have "overwrite (8 * at) (rank_bytes new) (rank_bytes rs) = rank_bytes (take at rs @ new @ drop (at + length new) rs)"
    unfolding rank_bytes_def by (rule overwrite_concat_width) (use assms in simp_all)
  moreover have "8 * at + length (rank_bytes new) \<le> length (rank_bytes rs)" using assms(2) by simp
  ultimately show ?thesis using overwrite_header [OF assms(1), of "8 * at" "rank_bytes new" "rank_bytes rs"]
    by (simp add: mult.commute)
qed

definition placing :: "inverse_builder \<Rightarrow> disk_file \<Rightarrow> bytes \<Rightarrow> (nat \<times> nat) list \<Rightarrow> bool" where
  "placing ib f h ps \<longleftrightarrow> collected ib ps \<and> ib_bucket ib \<le> ib_buckets ib \<and> length h = 32
     \<and> (\<exists>rs. stored f (h @ rank_bytes rs) \<and> length rs = ib_records ib
          \<and> (\<forall>row < ib_records ib. row < ib_bucket ib * ib_bucket_rows ib \<longrightarrow> (row, rs ! row) \<in> set ps))
     \<and> (\<forall>b < ib_bucket ib. distinct (map fst (in_bucket (ib_bucket_rows ib) b ps)))
     \<and> (if ib_bucket ib = ib_buckets ib then ib_read ib = 0
        else \<exists>m. ib_read ib = 16 * m \<and> m < rows_in ib (ib_bucket ib)
          \<and> (0 < m \<longrightarrow> ranks_hold (ib_bucket ib * ib_bucket_rows ib) (rows_in ib (ib_bucket ib))
               (take m (in_bucket (ib_bucket_rows ib) (ib_bucket ib) ps)) (ib_ranks ib)))"

definition rechunked :: "inverse_builder \<Rightarrow> inverse_builder \<Rightarrow> bool" where
  "rechunked ib ib' \<longleftrightarrow> (\<exists>c. ib' = ib\<lparr>ib_chunk := c\<rparr> \<and> length c = chunk_bytes)"

lemma rechunked_refl: "length (ib_chunk ib) = chunk_bytes \<Longrightarrow> rechunked ib ib"
  unfolding rechunked_def by (rule exI [of _ "ib_chunk ib"]) simp

lemma rechunked_trans: "rechunked (ib\<lparr>ib_chunk := c\<rparr>) ib' \<Longrightarrow> rechunked ib ib'"
  by (auto simp: rechunked_def)

definition place_left :: "inverse_builder \<Rightarrow> nat" where
  "place_left ib = 16 * (ib_buckets ib * ib_bucket_rows ib) - (16 * (ib_bucket ib * ib_bucket_rows ib) + ib_read ib)"

context sort_world begin

lemma place_chunk_spec:
  assumes w: "world_ok w" and c: "collected ib ps" and b: "b < ib_buckets ib"
    and read: "ib_read ib = 16 * m" "m + q \<le> rows_in ib b" "16 * q \<le> chunk_bytes"
    and held: "ranks_hold (b * ib_bucket_rows ib) (rows_in ib b) (take m (in_bucket (ib_bucket_rows ib) b ps)) (ib_ranks ib)"
    and good: "good \<Longrightarrow> distinct (map fst ps)"
  shows "attains (refuses good) (place_chunk dk (b * ib_bucket_rows ib) (rows_in ib b) (16 * q)) ((ib, sh), w)
    (\<lambda>_ ((ib', sh'), w'). world_ok w' \<and> sh' = sh \<and> collected ib' ps \<and> same_setup ib ib'
       \<and> ib_bucket ib' = ib_bucket ib \<and> ib_read ib' = ib_read ib
       \<and> ranks_hold (b * ib_bucket_rows ib) (rows_in ib b) (take (m + q) (in_bucket (ib_bucket_rows ib) b ps)) (ib_ranks ib'))"
proof -
  from c obtain data0 where ok: "builder_ok ib" and st: "stored (ib_pairs ib) data0" "length data0 = 16 * ib_records ib"
    and full: "\<forall>b < ib_buckets ib. length (in_bucket (ib_bucket_rows ib) b ps) = rows_in ib b
         \<and> segment data0 (16 * (b * ib_bucket_rows ib)) (16 * (b * ib_bucket_rows ib + rows_in ib b))
             = pairs_bytes (in_bucket (ib_bucket_rows ib) b ps)"
    and ps: "\<forall>p \<in> set ps. fst p < ib_records ib \<and> snd p < ib_records ib"
    by (auto simp: collected_def)
  let ?st = "b * ib_bucket_rows ib" and ?qs = "in_bucket (ib_bucket_rows ib) b ps"
  note in_b = bucket_inside [OF ok b]
  have len: "length ?qs = rows_in ib b" using full b by blast
  have chunk: "length (ib_chunk ib) = chunk_bytes" using ok by (simp add: builder_ok_def)
  have pos: "0 < ib_bucket_rows ib" using ok by (simp add: builder_ok_def)
  let ?new = "segment ?qs m (m + q)"
  have seg: "segment data0 (16 * ?st + 16 * m) (16 * ?st + 16 * m + 16 * q) = pairs_bytes ?new"
  proof -
    have "segment data0 (16 * ?st + 16 * m) (16 * ?st + 16 * m + 16 * q)
        = segment (segment data0 (16 * ?st) (16 * (?st + rows_in ib b))) (16 * m) (16 * m + 16 * q)"
      using read(2) by (subst segment_segment) (simp_all add: add.assoc)
    also have "\<dots> = segment (pairs_bytes ?qs) (16 * m) (16 * (m + q))"
      using full b by (simp add: distrib_left)
    finally show ?thesis by (simp only: segment_pairs_bytes)
  qed
  have inside: "16 * ?st + 16 * m + 16 * q \<le> length (df_data (ib_pairs ib))"
    using st in_b(3) read(2) by (simp add: stored_def)
  have range: "\<forall>p \<in> set ?new. ?st \<le> fst p \<and> fst p < ?st + rows_in ib b \<and> snd p < u64_max"
  proof
    fix p assume "p \<in> set ?new"
    then have p: "p \<in> set ?qs" by (auto simp: segment_def dest: in_set_takeD in_set_dropD)
    then have "p \<in> set ps" "fst p div ib_bucket_rows ib = b" by (auto simp: in_bucket_def)
    with ps bucket_range(1,2) [OF pos _ this(2)] ok
    show "?st \<le> fst p \<and> fst p < ?st + rows_in ib b \<and> snd p < u64_max"
      by (fastforce simp: rows_in_def builder_ok_def)
  qed
  have "\<forall>p \<in> set ?new. fst p \<le> u64_max \<and> snd p \<le> u64_max"
  proof
    fix p assume "p \<in> set ?new"
    with range in_b(3) ok show "fst p \<le> u64_max \<and> snd p \<le> u64_max" by (fastforce simp: builder_ok_def)
  qed
  note pairs = chunk_pairs_bytes [OF this]
  obtain ranks complete where pl: "place_pairs ?st (rows_in ib b) ?new (ib_ranks ib) = (ranks, complete)" by fastforce
  have tk: "take m ?qs @ ?new = take (m + q) ?qs" by (simp add: segment_def take_add)
  note placed = place_pairs_spec [OF held range pl, unfolded tk]
  have dup: "\<not> good" if "\<not> complete"
  proof
    assume good
    then have "distinct (map fst ?qs)" using good unfolding in_bucket_def by (blast intro: distinct_map_filter)
    then have "distinct (map fst (take (m + q) ?qs))" by (simp add: take_map [symmetric])
    with placed that show False by simp
  qed
  have data0: "df_data (ib_pairs ib) = data0" using st(1) by (simp add: stored_def)
  from fill_spec [OF w inside order.refl, of "[]" sh, unfolded data0 seg append_Nil] obtain got failure p w'
    where r: "fill_at (16 * q) dk (16 * ?st + 16 * m) (16 * q) [] ((ib_pairs ib, sh), w)
        = (Ok (got, failure), ((ib_pairs ib\<lparr>df_position := p\<rparr>, sh), w'))" "world_ok w'" "length got \<le> 16 * q"
      "case failure of None \<Rightarrow> got = pairs_bytes ?new | Some e \<Rightarrow> \<exists>x. e = SortIo x"
    by blast
  define ib1 where "ib1 = ib\<lparr>ib_pairs := ib_pairs ib\<lparr>df_position := p\<rparr>, ib_chunk := overwrite 0 got (ib_chunk ib), ib_ranks := ranks\<rparr>"
  have "collected ib1 ps" using c st(1) r(3) read(3) chunk placed
    by (auto simp: collected_def ib1_def builder_ok_def rows_in_def length_overwrite)
  then show ?thesis
    using r placed dup pl pairs read chunk
    by (auto simp: place_chunk_def wp_simps on_pairs_def modify_builder_def pair_bytes_def mult.commute [of _ 16]
        attains_def [of _ "fill_at _ _ _ _ _"] refuses_def ib1_def same_setup_def split: option.splits if_splits)
qed

lemma write_ranks_spec:
  "world_ok w \<Longrightarrow> stored f (h @ rank_bytes rs) \<Longrightarrow> length h = 32 \<Longrightarrow> start + rows \<le> length rs \<Longrightarrow>
   rows \<le> length (ib_ranks ib) \<Longrightarrow> length (ib_chunk ib) = chunk_bytes \<Longrightarrow> i \<le> rows \<Longrightarrow> rows - i \<le> fuel \<Longrightarrow>
   attains sort_failure (write_ranks fuel dk start rows i) ((ib, f, n, sh), w)
     (\<lambda>_ ((ib', f', n', sh'), w'). world_ok w' \<and> sh_owner sh' = sh_owner sh \<and> n' = n
        \<and> rechunked ib ib'
        \<and> stored f' (h @ rank_bytes (take (start + i) rs @ segment (ib_ranks ib) i rows @ drop (start + rows) rs)))"
proof (induction fuel arbitrary: w f rs ib i sh)
  case 0
  then have "i = rows" by simp
  with 0 show ?case by (simp add: write_ranks.simps wp_simps rechunked_refl)
next
  case (Suc fuel)
  show ?case
  proof (cases "i = rows")
    case True
    with Suc.prems show ?thesis by (simp add: write_ranks.simps [of "Suc fuel"] wp_simps rechunked_refl)
  next
    case False
    define k where k: "k = min (rows - i) (chunk_bytes div 8)"
    let ?new = "segment (ib_ranks ib) i (i + k)"
    have n: "0 < k" "i + k \<le> rows" "k * 8 \<le> chunk_bytes"
      using False Suc.prems(7) by (simp_all add: k chunk_bytes_def)
    have len: "length ?new = k" using n Suc.prems(5) by simp
    define rs1 where "rs1 = take (start + i) rs @ ?new @ drop (start + i + k) rs"
    have lrs1: "length rs1 = length rs" using len n Suc.prems(4) by (simp add: rs1_def)
    have inside: "32 + (start + i) * 8 + length (rank_bytes ?new) \<le> length (h @ rank_bytes rs)"
      using len n Suc.prems(3,4) by simp
    have over: "overwrite (32 + (start + i) * 8) (rank_bytes ?new) (h @ rank_bytes rs) = h @ rank_bytes rs1"
      using overwrite_ranks [OF Suc.prems(3), of "start + i" ?new rs] len n Suc.prems(4) by (simp add: rs1_def)
    note wr = write_at_spec [OF Suc.prems(1,2) inside, unfolded over]
    define ib1 where "ib1 = ib\<lparr>ib_chunk := overwrite 0 (rank_bytes ?new) (ib_chunk ib)\<rparr>"
    have chunk1: "length (ib_chunk ib1) = chunk_bytes" "ib_ranks ib1 = ib_ranks ib"
      using len n Suc.prems(6) by (simp_all add: ib1_def length_overwrite)
    have run: "attains E (write_ranks (Suc fuel) dk start rows i) ((ib, f, n, sh), w) Q
      = attains E (write_all_at (length (rank_bytes ?new)) dk (32 + (start + i) * 8) (rank_bytes ?new)) ((f, sh), w)
          (\<lambda>_ ((f', sh'), w'). attains E (write_ranks fuel dk start rows (i + k)) ((ib1, f', n, sh'), w') Q)" for E Q
    proof -
      have "length (rank_bytes ?new) = k * 8" using len by simp
      then show ?thesis using False n Suc.prems(5-7)
        by (simp only: write_ranks.simps [of "Suc fuel"] k [symmetric])
           (simp add: k [symmetric] wp_simps Let_def on_builder_def modify_builder_def on_map_file_def map_header_bytes_def ib1_def
             case_prod_unfold)
    qed
    show ?thesis unfolding run
    proof (rule attains_weaken [OF wr], clarify)
      fix f2 w2 and sh2 :: sort_shared
      assume 2: "world_ok w2" "sh_owner sh2 = sh_owner sh" "stored f2 (h @ rank_bytes rs1)"
      have "segment (ib_ranks ib) i (i + k) @ segment (ib_ranks ib) (i + k) rows = segment (ib_ranks ib) i rows"
        using n by (intro segment_split) simp_all
      moreover have parts: "rs1 = (take (start + i) rs @ ?new) @ drop (start + i + k) rs"
        "length (take (start + i) rs @ ?new) = start + (i + k)"
        using len n Suc.prems(4) by (simp_all add: rs1_def)
      then have "take (start + (i + k)) rs1 = take (start + i) rs @ ?new" by (metis append_eq_conv_conj)
      moreover have "drop (start + (i + k)) rs1 = drop (start + i + k) rs" using parts by (metis append_eq_conv_conj)
      then have "drop (rows - (i + k)) (drop (start + (i + k)) rs1) = drop (rows - (i + k)) (drop (start + i + k) rs)" by simp
      then have "drop (start + rows) rs1 = drop (start + rows) rs" using n(2) by (simp add: add.commute add.left_commute)
      ultimately have eq: "take (start + (i + k)) rs1 @ segment (ib_ranks ib) (i + k) rows @ drop (start + rows) rs1
          = take (start + i) rs @ segment (ib_ranks ib) i rows @ drop (start + rows) rs" by simp
      have "rows - (i + k) \<le> fuel" "start + rows \<le> length rs1" "rows \<le> length (ib_ranks ib1)"
        using n Suc.prems(4,5,8) lrs1 by (simp_all add: chunk1(2))
      from Suc.IH [OF 2(1,3) Suc.prems(3) this(2,3) chunk1(1) n(2) this(1), of sh2, unfolded chunk1(2) eq]
      show "attains sort_failure (write_ranks fuel dk start rows (i + k)) ((ib1, f2, n, sh2), w2)
         (\<lambda>_ ((ib', f', n', sh'), w'). world_ok w' \<and> sh_owner sh' = sh_owner sh \<and> n' = n
        \<and> rechunked ib ib'
        \<and> stored f' (h @ rank_bytes (take (start + i) rs @ segment (ib_ranks ib) i rows @ drop (start + rows) rs)))"
        by (rule attains_weaken) (use 2(2) rechunked_trans in \<open>auto simp: ib1_def\<close>)
    qed
  qed
qed

lemma place_spec:
  assumes w: "world_ok w" and p: "placing ib f h ps" and more: "ib_bucket ib < ib_buckets ib"
    and good: "good \<Longrightarrow> distinct (map fst ps)"
  shows "attains (refuses good) (inverse_place dk) ((ib, f, budget, sh), w)
    (\<lambda>complete ((ib', f', budget', sh'), w'). world_ok w' \<and> sh_owner sh' = sh_owner sh \<and> placing ib' f' h ps
       \<and> complete = (ib_bucket ib' = ib_buckets ib') \<and> same_setup ib ib' \<and> place_left ib' < place_left ib
       \<and> budget' < max budget 1)"
proof -
  let ?b = "ib_bucket ib"
  let ?B = "ib_bucket_rows ib" and ?qs = "in_bucket (ib_bucket_rows ib) ?b ps"
  from p more obtain rs m where c: "collected ib ps" and h: "length h = 32"
    and st: "stored f (h @ rank_bytes rs)" and rs: "length rs = ib_records ib"
      "\<forall>row < ib_records ib. row < ?b * ?B \<longrightarrow> (row, rs ! row) \<in> set ps"
    and dist: "\<forall>b < ?b. distinct (map fst (in_bucket ?B b ps))"
    and read: "ib_read ib = 16 * m" "m < rows_in ib ?b"
      "0 < m \<Longrightarrow> ranks_hold (?b * ?B) (rows_in ib ?b) (take m ?qs) (ib_ranks ib)"
    unfolding placing_def by auto
  have ok: "builder_ok ib" using c by (simp add: collected_def)
  note in_b = bucket_inside [OF ok more]
  define q where "q = min (rows_in ib ?b - m) 4096"
  have q: "min (rows_in ib ?b * 16 - 16 * m) chunk_bytes = 16 * q" "m + q \<le> rows_in ib ?b" "16 * q \<le> chunk_bytes" "0 < q"
    using read(2) by (simp_all add: q_def chunk_bytes_def min_def) linarith+
  define ib0 where "ib0 = (if 16 * m = 0 then ib\<lparr>ib_ranks := replicate (rows_in ib ?b) u64_max @ drop (rows_in ib ?b) (ib_ranks ib)\<rparr> else ib)"
  have same0: "same_setup ib ib0" "ib_bucket ib0 = ?b" "ib_read ib0 = 16 * m" "rows_in ib0 = rows_in ib"
    using read(1) by (simp_all add: ib0_def same_setup_def rows_in_def fun_eq_iff)
  have c0: "collected ib0 ps" using c in_b(5)
    by (auto simp: ib0_def collected_def builder_ok_def rows_in_def)
  have held0: "ranks_hold (?b * ?B) (rows_in ib ?b) (take m ?qs) (ib_ranks ib0)"
    using read(3) by (cases "m = 0") (auto simp: ib0_def ranks_hold_def nth_append)
  have chunk: "attains (refuses good) (place_chunk dk (?b * ?B) (rows_in ib ?b) (16 * q)) ((ib0, sh), w)
    (\<lambda>_ ((ib', sh'), w'). world_ok w' \<and> sh' = sh \<and> collected ib' ps \<and> same_setup ib0 ib'
       \<and> ib_bucket ib' = ib_bucket ib0 \<and> ib_read ib' = ib_read ib0
       \<and> ranks_hold (?b * ?B) (rows_in ib ?b) (take (m + q) ?qs) (ib_ranks ib'))"
    using place_chunk_spec [OF w c0 _ same0(3), of ?b q good sh] more same0 q good held0
    by (simp add: same_setup_def)
  let ?rest = "with_state (\<lambda>(ib1, _).
                    if ib_read ib1 = rows_in ib ?b * 16
                    then and_then (write_ranks (rows_in ib ?b) dk (?b * ?B) (rows_in ib ?b) 0) (\<lambda>_.
                           on_builder (modify_builder (\<lambda>ib. ib\<lparr>ib_bucket := ib_bucket ib + 1, ib_read := 0\<rparr>)))
                    else give ())"
  have run: "attains E (inverse_place dk) ((ib, f, budget, sh), w) Q
      = attains E (place_chunk dk (?b * ?B) (rows_in ib ?b) (16 * q)) ((ib0, sh), w)
          (\<lambda>_ ((ib', sh'), w'). attains E ?rest ((ib'\<lparr>ib_read := ib_read ib' + 16 * q\<rparr>, f, budget - 16 * q, sh'), w')
             (\<lambda>_ sw. Q (ib_bucket (fst (fst sw)) = ib_buckets (fst (fst sw))) sw))" for E Q
    using more in_b(2,5) read q(1)
    by (simp add: inverse_place_def wp_simps Let_def pair_bytes_def bucket_start_def on_builder_def modify_builder_def
        case_prod_unfold ib0_def)
  show ?thesis unfolding run
  proof (rule attains_weaken [OF chunk], goal_cases)
    case (1 u sw)
    obtain ib1 sh1 w1 where sw: "sw = ((ib1, sh1), w1)" by (metis surj_pair)
    with 1 have 1: "world_ok w1" "collected ib1 ps" "same_setup ib0 ib1" "ib_bucket ib1 = ib_bucket ib0"
      "ib_read ib1 = ib_read ib0" "ranks_hold (?b * ?B) (rows_in ib ?b) (take (m + q) ?qs) (ib_ranks ib1)"
      and sh1: "sh1 = sh" by auto
    have same: "ib_records ib1 = ib_records ib" "ib_bucket_rows ib1 = ?B" "ib_buckets ib1 = ib_buckets ib"
      "ib_bucket ib1 = ?b" "rows_in ib1 = rows_in ib" "ib_read ib1 + 16 * q = 16 * (m + q)" "ib_buffer_bytes ib1 = ib_buffer_bytes ib"
      using 1(3-5) same0 by (auto simp: same_setup_def rows_in_def fun_eq_iff)
    have len: "length ?qs = rows_in ib ?b" using c more by (auto simp: collected_def)
    have left: "16 * (?b * ?B) + 16 * rows_in ib ?b \<le> 16 * (ib_buckets ib * ?B)"
    proof -
      have "rows_in ib ?b \<le> ?B" by (simp add: rows_in_def)
      with buffer_apart [OF more, of ?B] show ?thesis by linarith
    qed
    show ?case
    proof (cases "m + q = rows_in ib ?b")
      case False
      with q(2) have less: "m + q < rows_in ib ?b" by simp
      define ib2 where "ib2 = ib1\<lparr>ib_read := ib_read ib1 + 16 * q\<rparr>"
      have c2: "collected ib2 ps" using 1(2) by (auto simp: collected_def builder_ok_def ib2_def)
      have same2: "same_setup ib ib2" "ib_bucket ib2 = ?b" "ib_read ib2 = 16 * (m + q)" "rows_in ib2 = rows_in ib"
        "ib_ranks ib2 = ib_ranks ib1"
        using same by (simp_all add: ib2_def same_setup_def)
      have "placing ib2 f h ps"
        unfolding placing_def
        using c2 h st rs dist more 1(6) same2(1) less
        by (auto simp: same2(2-5) same_setup_def intro!: exI [of _ rs] exI [of _ "m + q"])
      moreover have "place_left ib2 < place_left ib"
        using left q(4) less same2(1) unfolding place_left_def same2(2,3) read(1) by (simp add: same_setup_def)
      moreover have "ib_read ib1 + 16 * q \<noteq> rows_in ib ?b * 16" using less same(6) by simp
      ultimately show ?thesis using 1(1) q(4) same2(1) by (simp add: sw sh1 wp_simps ib2_def [symmetric])
    next
      case True
      let ?st = "?b * ?B" and ?len = "rows_in ib ?b"
      define ib2 where "ib2 = ib1\<lparr>ib_read := rows_in ib ?b * 16\<rparr>"
      have ib2: "ib_read ib1 + 16 * q = rows_in ib ?b * 16" "ib_ranks ib2 = ib_ranks ib1"
        using same(6) True by (simp_all add: ib2_def)
      have held: "ranks_hold ?st ?len ?qs (ib_ranks ib1)" using 1(6) True len by simp
      have lens: "?st + ?len \<le> length rs" "?len \<le> length (ib_ranks ib2)" "length (ib_chunk ib2) = chunk_bytes" "?len - 0 \<le> ?len"
        using in_b(3) rs(1) held 1(2) by (simp_all add: ranks_hold_def ib2_def collected_def builder_ok_def)
      note wr = write_ranks_spec [OF 1(1) st h lens(1,2,3) le0 lens(4), where n = "budget - 16 * q" and sh = sh,
        THEN attains_refuses [where good = good]]
      define rs1 where "rs1 = take ?st rs @ segment (ib_ranks ib1) 0 ?len @ drop (?st + ?len) rs"
      have dist1: "distinct (map fst ?qs)" using held by (simp add: ranks_hold_def)
      have full_bucket: "fst ` set ?qs = {?st..<?st + ?len}"
      proof (rule card_subset_eq)
        have "\<forall>p \<in> set ps. fst p < ib_records ib" using c by (simp add: collected_def)
        with ok in_bucket_rows [of ?B ps "ib_records ib" ?b] show "fst ` set ?qs \<subseteq> {?st..<?st + ?len}"
          by (simp add: builder_ok_def rows_in_def)
        show "card (fst ` set ?qs) = card {?st..<?st + ?len}" using distinct_card [OF dist1] len by simp
      qed simp
      have placed: "(row, rs1 ! row) \<in> set ps" if row: "row < ib_records ib" "row < Suc ?b * ?B" for row
      proof (cases "row < ?st")
        case True
        with row(1) rs lens(1) show ?thesis by (simp add: rs1_def nth_append)
      next
        case False
        define s where "s = row - ?st"
        have s: "s < ?len" "row = ?st + s" using False row by (auto simp: s_def rows_in_def)
        have at: "rs1 ! row = ib_ranks ib1 ! s"
          using s lens(1,2) ib2(2) by (simp add: rs1_def nth_append segment_def)
        have "row \<in> fst ` set ?qs" using full_bucket s by simp
        with held s have "(?st + s, ib_ranks ib1 ! s) \<in> set ?qs" by (auto simp: ranks_hold_def)
        with at s(2) show ?thesis by (simp add: in_bucket_def)
      qed
      have next_ok: "placing ib3 f3 h ps \<and> same_setup ib ib3 \<and> place_left ib3 < place_left ib"
        if "rechunked ib2 ib2'" "stored f3 (h @ rank_bytes rs1)" "ib3 = ib2'\<lparr>ib_bucket := Suc ?b, ib_read := 0\<rparr>" for ib2' ib3 f3
      proof -
        have c3: "collected ib3 ps" using 1(2) that(1,3) by (auto simp: collected_def builder_ok_def ib2_def rechunked_def)
        have same3: "same_setup ib ib3" "ib_bucket ib3 = Suc ?b" "ib_read ib3 = 0" "rows_in ib3 = rows_in ib"
          using that(1,3) same by (auto simp: ib2_def same_setup_def rechunked_def)
        have "0 < rows_in ib (Suc ?b)" if "Suc ?b \<noteq> ib_buckets ib"
          using bucket_inside(4) [OF ok, of "Suc ?b"] more that by simp
        moreover have "length rs1 = length rs" using lens(1,2) ib2(2) by (simp add: rs1_def)
        moreover have "distinct (map fst (in_bucket ?B b' ps))" if "b' < Suc ?b" for b'
          using that dist dist1 by (cases "b' = ?b") simp_all
        ultimately have "placing ib3 f3 h ps"
          unfolding placing_def
          using c3 h that(2) rs(1) placed more same3(1)
          by (auto simp: same3(2-4) same_setup_def intro!: exI [of _ rs1])
        moreover have "place_left ib3 < place_left ib"
        proof -
          have "Suc ?b * ?B \<le> ib_buckets ib * ?B" using more by (intro mult_le_mono1) simp
          moreover have "rows_in ib ?b \<le> ?B" by (simp add: rows_in_def)
          ultimately have "16 * (?b * ?B) + 16 * m < 16 * (Suc ?b * ?B)" "16 * (Suc ?b * ?B) \<le> 16 * (ib_buckets ib * ?B)"
            using read(2) by simp_all
          with same3(1) show ?thesis unfolding place_left_def same3(2,3) read(1) by (simp add: same_setup_def)
        qed
        ultimately show ?thesis using same3(1) by simp
      qed
      have zero: "take (?st + 0) rs @ segment (ib_ranks ib2) 0 ?len @ drop (?st + ?len) rs = rs1"
        by (simp add: rs1_def ib2(2))
      have bk: "ib_bucket ib2' = ?b" if "rechunked ib2 ib2'" for ib2' using same(4) that by (auto simp: ib2_def rechunked_def)
      show ?thesis using ib2(1)
        by (simp add: sw sh1 wp_simps ib2_def [symmetric] on_builder_def modify_builder_def)
           (rule attains_weaken [OF wr [unfolded zero]], use next_ok [OF _ _ refl] bk q(4) in auto)
    qed
  qed
qed

end

end
