(* ===== verification/Sort_Inverse_Map.thy ===== *)
theory Sort_Inverse_Map imports Sort_Inverse_Correct begin

text \<open>
  The inverse map is the inverse.  If every source row is pushed with its rank, the finished map holds
  the rank of each row at the row's place; if some row is missing or pushed twice, the builder refuses.
\<close>

context sort_world begin

lemma attains_with_file:
  "attains E (with_file dk' f m) (sh, w) Q = attains E m ((f, sh), w) (\<lambda>a ((f', sh'), w'). Q (f', a) (sh', w'))"
  by (auto simp: attains_def with_file_def split: prod.splits outcome.splits)

lemma attains_option_or: "attains E (option_or e r) sw Q = (case r of None \<Rightarrow> E e | Some a \<Rightarrow> Q a sw)"
  by (simp add: option_or_def wp_simps split: option.split)

lemma attains_reserve:
  "(\<And>r rs. Q r (sh\<lparr>sh_resources := rs\<rparr>, w)) \<Longrightarrow> attains sort_failure (ledger_call (reserve n m)) (sh, w) Q"
  by (auto simp: attains_ledger_call reserve_def split: option.splits)

lemma zeroed_then:
  assumes "world_ok w" "\<And>w'. world_ok w' \<Longrightarrow> Q (replicate n z) w'"
  shows "attains sort_failure (zeroed env n z) w Q"
  unfolding zeroed_def attains_and_then attains_give
  using try_reserve_ok [OF assms(1), of n] assms(2)
  by (auto simp: attains_def try_reserve_def split: prod.splits)

lemma create_then:
  assumes "world_ok w"
    "\<And>f sh' w'. world_ok w' \<Longrightarrow> writing f [] \<Longrightarrow> sh_owner sh' = sh_owner sh \<Longrightarrow> Q f (sh', w')"
  shows "attains sort_failure (disk_file_create dk name) (sh, w) Q"
  using assms(2) by (auto intro: attains_weaken [OF create_spec [OF assms(1)]])

lemma allocate_then:
  assumes "world_ok w" "writing f c"
    "\<And>f' sh' w'. world_ok w' \<Longrightarrow> stored f' (c @ replicate n 0) \<Longrightarrow> sh_owner sh' = sh_owner sh \<Longrightarrow> Q () ((f', sh'), w')"
  shows "attains sort_failure (allocate_bytes dk n) ((f, sh), w) Q"
  using assms(3) by (auto intro: attains_weaken [OF allocate_spec [OF assms(1,2)]])

end

lemma collects_new:
  fixes r :: reservation
  assumes "0 < rows" "16 \<le> buffer" "16 dvd buffer" "records * 16 \<le> u64_max"
    and "stored f (replicate (16 * records) 0)"
  defines "buckets \<equiv> div_ceil records rows"
  defines "ib \<equiv> \<lparr>ib_records = records, ib_bucket_rows = rows, ib_buckets = buckets, ib_buffer_bytes = buffer, ib_pairs = f,
      ib_buffer = replicate (buckets * buffer) 0, ib_filled = replicate buckets 0, ib_written = replicate buckets 0,
      ib_ranks = replicate (min rows records) 0, ib_chunk = replicate chunk_bytes 0, ib_bucket = 0, ib_read = 0,
      ib_memory = r\<rparr>"
  shows "collects ib [] \<and> room ib \<and> ib_records ib = records \<and> ib_bucket_rows ib = rows"
proof -
  have "bucket_holds ib (replicate (16 * records) 0) b (in_bucket rows b [])" if "b < buckets" for b
    using that by (simp add: bucket_holds_def ib_def in_bucket_def)
  then have "collects ib []"
    using assms(1-5) by (auto simp: collects_def builder_ok_def ib_def buckets_def)
  moreover have "room ib" using assms(2) by (simp add: room_def ib_def)
  ultimately show ?thesis by (simp add: ib_def)
qed

section \<open>A whole map\<close>

text \<open>Every source row with its rank, then all buckets, as the tests of the builder run it.\<close>

fun push_ranks :: "'w sort_disk \<Rightarrow> nat \<Rightarrow> nat list \<Rightarrow> ('w, unit) inverse_run" where
  "push_ranks dk rank [] = give ()"
| "push_ranks dk rank (row # rows) = and_then (inverse_push dk row rank) (\<lambda>_. push_ranks dk (rank + 1) rows)"

fun place_all :: "nat \<Rightarrow> 'w sort_disk \<Rightarrow> ('w, unit) place_run" where
  "place_all 0 dk = panic"
| "place_all (Suc fuel) dk = and_then (inverse_place dk) (\<lambda>complete. if complete then give () else place_all fuel dk)"

definition with_builder :: "inverse_builder \<Rightarrow> 'w sort_disk \<Rightarrow> ('w, 'a) place_run \<Rightarrow> ('w, 'a) file_run" where
  "with_builder ib dk m sw =
     (case m ((ib, fst (fst sw), u64_max, snd (fst sw)), snd sw) of
        (r, ((ib', f, _, sh), w)) \<Rightarrow>
          (case release_shared (ib_memory ib') (disk_file_drop dk (ib_pairs ib') (sh, w)) of (sh', w') \<Rightarrow> (r, ((f, sh'), w'))))"

definition build_inverse ::
    "'w environment \<Rightarrow> 'w sort_disk \<Rightarrow> nat list \<Rightarrow> nat \<Rightarrow> nat \<Rightarrow> ('w, nat list) shared_run" where
  "build_inverse env dk rows bucket_rows buffer_bytes =
     (let n = length rows in
      and_then (disk_file_create dk (ascii ''inverse.bin'')) (\<lambda>f.
      and_then (with_file dk f
        (and_then (append_bytes dk (map_header n 0 8)) (\<lambda>_.
         and_then (allocate_bytes dk (n * 8)) (\<lambda>_.
         and_then (on_shared (inverse_new env dk n bucket_rows buffer_bytes)) (\<lambda>ib.
         and_then (with_builder ib dk
           (and_then (on_builder (push_ranks dk 0 rows)) (\<lambda>_.
            and_then (on_builder (finish_collecting dk)) (\<lambda>_.
            with_state (\<lambda>(ib, _). place_all (place_left ib + 1) dk))))) (\<lambda>_.
         read_exact_at dk 32 (n * 8)))))))
      (\<lambda>(f, bs). \<lambda>sw. (Ok (map (\<lambda>i. le_value (segment bs (8 * i) (8 * i + 8))) [0..<n]), disk_file_drop dk f sw))))"

context sort_world begin

lemma new_spec:
  assumes w: "world_ok w" and ok: "0 < rows" "16 \<le> buffer" "16 dvd buffer" "records * 16 \<le> u64_max"
  shows "attains sort_failure (inverse_new env dk records rows buffer) (sh, w)
    (\<lambda>ib (sh', w'). world_ok w' \<and> sh_owner sh' = sh_owner sh \<and> collects ib [] \<and> room ib
       \<and> ib_records ib = records \<and> ib_bucket_rows ib = rows)"
proof -
  have cfg: "\<not> (rows = 0 \<or> buffer < pair_bytes \<or> buffer mod pair_bytes \<noteq> 0)"
    using ok by (auto simp: pair_bytes_def dvd_eq_mod_eq_0)
  have mul: "checked_mul records pair_bytes = Some (16 * records)" using ok(4) by (simp add: checked_mul_def pair_bytes_def mult.commute)
  show ?thesis
  proof (cases "inverse_memory (div_ceil records rows) buffer (min rows records)")
    case None
    then show ?thesis unfolding inverse_new_def if_not_P [OF cfg] Let_def by (simp add: option_or_def wp_simps)
  next
    case (Some bytes)
    show ?thesis
      unfolding inverse_new_def if_not_P [OF cfg] Let_def mul Some attains_and_then attains_option_or
        attains_on_failure option.case
    proof (rule attains_reserve, rule create_then [OF w], unfold attains_and_then attains_with_file attains_option_or option.case,
        rule allocate_then, assumption, assumption, goal_cases)
      case (1 r rs f sh1 w1 f2 sh2 w2)
      then show ?case
        apply (simp add: wp_simps split: option.split)
        apply (intro allI impI, rule zeroed_then, assumption, rule zeroed_then, assumption, rule zeroed_then, assumption,
            rule zeroed_then, assumption, rule zeroed_then, assumption)
        apply (use ok collects_new [of rows buffer records f2 r] in \<open>auto simp: checked_mul_def wp_simps split: if_splits\<close>)
        done
    qed
  qed
qed

lemma push_ranks_spec:
  assumes good: "good \<Longrightarrow> distinct all \<and> (\<forall>row \<in> set all. row < length all)"
  shows "world_ok w \<Longrightarrow> collects ib (zip before [0..<length before]) \<Longrightarrow> room ib \<Longrightarrow> ib_records ib = length all \<Longrightarrow>
    all = before @ rows \<Longrightarrow>
    attains (refuses good) (push_ranks dk (length before) rows) ((ib, sh), w)
      (\<lambda>_ ((ib', sh'), w'). world_ok w' \<and> sh_owner sh' = sh_owner sh \<and> collects ib' (zip all [0..<length all])
         \<and> same_setup ib ib')"
proof (induction rows arbitrary: before ib sh w)
  case Nil
  then show ?case by (simp add: wp_simps same_setup_def)
next
  case (Cons row rows)
  let ?before = "before @ [row]"
  let ?ps = "zip before [0..<length before] @ [(row, length before)]"
  have ps: "zip ?before [0..<length ?before] = ?ps" by simp
  show ?case
  proof (cases "row < length all")
    case True
    have rank: "length before < ib_records ib" using Cons.prems(4,5) by simp
    have "distinct (map fst ?ps)" if good
      using good [OF that] Cons.prems(5) by (simp add: map_fst_zip)
    note push = push_spec [OF Cons.prems(1-3) True [folded Cons.prems(4)] rank this]
    show ?thesis unfolding push_ranks.simps attains_and_then
    proof (rule attains_weaken [OF push], assumption, goal_cases)
      case (1 u sw)
      obtain ib1 sh1 w1 where sw: "sw = ((ib1, sh1), w1)" by (metis surj_pair)
      with 1 ps have 1: "world_ok w1" "sh_owner sh1 = sh_owner sh" "collects ib1 (zip ?before [0..<length ?before])" "room ib1"
        "same_setup ib ib1" by auto
      have "ib_records ib1 = length all" "all = ?before @ rows" using 1(5) Cons.prems(4,5) by (simp_all add: same_setup_def)
      from Cons.IH [OF 1(1,3,4) this, of sh1] 1(2,5) show ?case
        by (simp add: sw) (rule attains_weaken, assumption, auto simp: same_setup_def)
    qed
  next
    case False
    then have "\<not> good" using good Cons.prems(5) by auto
    with False Cons.prems(4) show ?thesis by (simp add: inverse_push_def wp_simps refuses_def)
  qed
qed

lemma place_all_spec:
  assumes good: "good \<Longrightarrow> distinct (map fst ps)"
  shows "world_ok w \<Longrightarrow> placing ib f h ps \<Longrightarrow> place_left ib < fuel \<Longrightarrow>
    attains (refuses good) (place_all fuel dk) ((ib, f, budget, sh), w)
      (\<lambda>_ ((ib', f', budget', sh'), w'). world_ok w' \<and> sh_owner sh' = sh_owner sh \<and> placing ib' f' h ps
         \<and> ib_bucket ib' = ib_buckets ib' \<and> same_setup ib ib')"
proof (induction fuel arbitrary: ib f budget sh w)
  case (Suc fuel)
  show ?case
  proof (cases "ib_bucket ib = ib_buckets ib")
    case True
    with Suc.prems show ?thesis by (simp add: inverse_place_def wp_simps same_setup_def)
  next
    case False
    with Suc.prems(2) have more: "ib_bucket ib < ib_buckets ib" by (simp add: placing_def)
    show ?thesis unfolding place_all.simps attains_and_then
    proof (rule attains_weaken [OF place_spec [OF Suc.prems(1,2) more good]], assumption, goal_cases)
      case (1 complete sw)
      obtain ib1 f1 budget1 sh1 w1 where sw: "sw = ((ib1, f1, budget1, sh1), w1)" by (metis surj_pair)
      with 1 have 1: "world_ok w1" "sh_owner sh1 = sh_owner sh" "placing ib1 f1 h ps"
        "complete = (ib_bucket ib1 = ib_buckets ib1)" "same_setup ib ib1" "place_left ib1 < place_left ib" by auto
      have "place_left ib1 < fuel" using 1(6) Suc.prems(3) by simp
      from Suc.IH [OF 1(1,3) this, of budget1 sh1] 1 show ?case
        by (cases complete) (auto simp: sw wp_simps same_setup_def elim: attains_weaken)
    qed
  qed
qed simp

lemma attains_with_builder:
  "attains E (with_builder ib dk' m) ((f, sh), w) Q =
     attains E m ((ib, f, u64_max, sh), w) (\<lambda>a ((ib', f', n, sh'), w').
       case release_shared (ib_memory ib') (disk_file_drop dk' (ib_pairs ib') (sh', w')) of (sh2, w2) \<Rightarrow> Q a ((f', sh2), w2))"
  by (simp add: attains_def with_builder_def split: prod.split outcome.split)

lemma flush_ok:
  "world_ok w \<Longrightarrow> world_ok (snd (snd (flush_buffer fuel dk ((f, sh), w))))"
proof (induction fuel arbitrary: f sh w)
  case 0
  then show ?case by (simp add: flush_buffer.simps split: option.split list.split)
next
  case (Suc fuel)
  then show ?case
    by (auto simp: flush_buffer.simps [of "Suc fuel"] and_then_def counted_write_def count_request_def write_request_def
        update_state_def fail_def Let_def disk_ok(1) [OF Suc.prems] split: option.split list.split prod.splits outcome.splits sum.splits)
      (metis disk_ok(1) snd_conv Suc.prems Suc.IH)+
qed

lemma drop_ok:
  assumes "world_ok w"
  shows "world_ok (snd (disk_file_drop dk f (sh, w)))"
proof -
  obtain r f1 sh1 w1 where r: "flush_writer dk ((f, sh), w) = (r, ((f1, sh1), w1))" by (metis surj_pair)
  with flush_ok [OF assms] have "world_ok w1" by (auto simp: flush_writer_def with_state_def) (metis snd_conv)
  from disk_ok(9) [OF this] show ?thesis
    by (simp add: disk_file_drop_def r Let_def split: prod.split) (metis snd_conv)
qed

lemma le_bytes_zero: "le_bytes k 0 = replicate k 0"
  by (induction k) simp_all

lemma place_start:
  assumes "collected ib ps" "ib_bucket ib = 0" "ib_read ib = 0" "stored f (h @ replicate (8 * ib_records ib) 0)" "length h = 32"
  shows "placing ib f h ps"
proof -
  have "rank_bytes (replicate n 0) = replicate (8 * n) 0" for n
    by (induction n) (simp_all add: rank_bytes_def le_bytes_zero replicate_add [symmetric])
  moreover have "0 < rows_in ib 0" if "0 < ib_buckets ib" using assms(1) that bucket_inside(4) by (auto simp: collected_def)
  ultimately show ?thesis using assms
    by (auto simp: placing_def intro!: exI [of _ "replicate (ib_records ib) 0"])
qed

end

lemma placed_inverse:
  assumes p: "placing ib f h (zip rows [0..<length rows])" and n: "ib_records ib = length rows"
    and complete: "ib_bucket ib = ib_buckets ib"
  obtains ranks where "stored f (h @ rank_bytes ranks)" "length ranks = length rows"
    "\<forall>row < length rows. ranks ! row < length rows \<and> rows ! (ranks ! row) = row"
proof -
  have ok: "builder_ok ib" using p by (simp add: placing_def collected_def)
  from p obtain rs where rs: "stored f (h @ rank_bytes rs)" "length rs = ib_records ib"
    "\<forall>row < ib_records ib. row < ib_buckets ib * ib_bucket_rows ib \<longrightarrow> (row, rs ! row) \<in> set (zip rows [0..<length rows])"
    unfolding placing_def complete by blast
  have "rs ! row < length rows \<and> rows ! (rs ! row) = row" if row: "row < length rows" for row
  proof -
    have "row < ib_buckets ib * ib_bucket_rows ib"
    proof -
      have "row div ib_bucket_rows ib < ib_buckets ib"
        using bucket_range(3) [of "ib_bucket_rows ib" row "ib_records ib"] ok row n by (simp add: builder_ok_def)
      then show ?thesis using ok by (simp add: builder_ok_def div_less_iff_less_mult)
    qed
    with rs(3) row n have "(row, rs ! row) \<in> set (zip rows [0..<length rows])" by simp
    then show ?thesis by (auto simp: set_zip)
  qed
  with rs n that show thesis by simp
qed

lemma inverse_permutation:
  assumes "length ranks = length rows" "\<forall>row < length rows. ranks ! row < length rows \<and> rows ! (ranks ! row) = row"
  shows "distinct rows" "set rows = {..<length rows}"
proof -
  have sub: "{..<length rows} \<subseteq> set rows" using assms(2) by (metis lessThan_iff nth_mem subsetI)
  have "card (set rows) \<le> length rows" by (rule card_length)
  with sub show eq: "set rows = {..<length rows}" by (metis card_lessThan card_seteq List.finite_set)
  show "distinct rows" by (rule card_distinct) (simp add: eq)
qed

lemma read_ranks:
  "\<forall>r \<in> set rs. r \<le> u64_max \<Longrightarrow>
   map (\<lambda>i. le_value (segment (rank_bytes rs) (8 * i) (8 * i + 8))) [0..<length rs] = rs"
proof (rule nth_equalityI)
  fix i assume ok: "\<forall>r \<in> set rs. r \<le> u64_max" and "i < length (map (\<lambda>i. le_value (segment (rank_bytes rs) (8 * i) (8 * i + 8))) [0..<length rs])"
  then have i: "i < length rs" by simp
  have "segment rs i (Suc i) = [rs ! i]" using i by (simp add: segment_def Cons_nth_drop_Suc [symmetric])
  moreover have "segment (rank_bytes rs) (8 * i) (8 * Suc i) = rank_bytes (segment rs i (Suc i))"
    unfolding rank_bytes_def by (rule segment_concat_width) simp
  ultimately have "segment (rank_bytes rs) (8 * i) (8 * i + 8) = le_bytes 8 (rs ! i)" by (simp add: rank_bytes_def add.commute)
  with i ok show "map (\<lambda>i. le_value (segment (rank_bytes rs) (8 * i) (8 * i + 8))) [0..<length rs] ! i = rs ! i" by simp
qed simp

lemma length_map_header [simp]: "length (map_header n s k) = 32"
  by (simp add: map_header_def ascii_def)

text \<open>What a run of the builder may end with.\<close>

definition inverse_result :: "nat list \<Rightarrow> nat list \<Rightarrow> bool" where
  "inverse_result rows ranks \<longleftrightarrow> distinct rows \<and> set rows = {..<length rows} \<and> length ranks = length rows
     \<and> (\<forall>row < length rows. ranks ! row < length rows \<and> rows ! (ranks ! row) = row)"

context sort_world begin

lemma builder_spec:
  fixes rows :: "nat list"
  defines "ps \<equiv> zip rows [0..<length rows]"
    and "good \<equiv> distinct rows \<and> (\<forall>row \<in> set rows. row < length rows)"
  assumes w: "world_ok w" and c: "collects ib []" and r: "room ib" and n: "ib_records ib = length rows"
    and f: "stored f (h @ replicate (8 * length rows) 0)" "length h = 32"
  shows "attains (refuses good)
    (and_then (on_builder (push_ranks dk 0 rows)) (\<lambda>_.
     and_then (on_builder (finish_collecting dk)) (\<lambda>_.
     with_state (\<lambda>(ib, _). place_all (place_left ib + 1) dk)))) ((ib, f, budget, sh), w)
    (\<lambda>_ ((ib', f', budget', sh'), w'). world_ok w' \<and> sh_owner sh' = sh_owner sh
       \<and> (\<exists>ranks. stored f' (h @ rank_bytes ranks) \<and> inverse_result rows ranks))"
proof -
  have fsts: "map fst ps = rows" by (simp add: ps_def)
  have good: "distinct rows \<and> (\<forall>row \<in> set rows. row < length rows)" if good using that by (simp add: good_def)
  have good_ps: "distinct (map fst ps) \<and> fst ` set ps = {..<length rows}" if good
  proof -
    have "set rows = {..<length rows}"
      using good [OF that] by (intro card_subset_eq) (auto simp: distinct_card)
    with fsts good [OF that] show ?thesis by (metis list.set_map)
  qed
  have push: "attains (refuses good) (push_ranks dk 0 rows) ((ib, sh), w)
      (\<lambda>_ ((ib', sh'), w'). world_ok w' \<and> sh_owner sh' = sh_owner sh \<and> collects ib' ps \<and> same_setup ib ib')"
    using push_ranks_spec [of good rows w ib "[]" rows sh] good w c r n by (simp add: ps_def)
  have place: "attains (refuses good) (place_all (place_left ib1 + 1) dk) ((ib1, f, budget, sh1), w1)
      (\<lambda>_ ((ib', f', budget', sh'), w'). world_ok w' \<and> sh_owner sh' = sh_owner sh \<and> (\<exists>ranks. stored f' (h @ rank_bytes ranks) \<and> inverse_result rows ranks))"
    if "world_ok w1" "sh_owner sh1 = sh_owner sh" "collected ib1 ps" "collects ib1 ps" "same_setup ib ib1" for ib1 sh1 w1
  proof -
    have records: "ib_records ib1 = length rows" using that(5) n by (simp add: same_setup_def)
    have start: "placing ib1 f h ps"
      using that(3,4) f records by (intro place_start) (simp_all add: collects_def)
    have ok: "distinct (map fst ps)" if good using good_ps [OF that] by simp
    show ?thesis
    proof (rule attains_weaken [OF place_all_spec [OF ok that(1) start, where fuel = "place_left ib1 + 1" and budget = budget and sh = sh1]], assumption, simp, goal_cases)
      case (1 u sw)
      obtain ib2 f2 budget2 sh2 w2 where sw: "sw = ((ib2, f2, budget2, sh2), w2)" by (metis surj_pair)
      with 1 have 2: "world_ok w2" "sh_owner sh2 = sh_owner sh1" "placing ib2 f2 h ps" "ib_bucket ib2 = ib_buckets ib2"
        "same_setup ib1 ib2" by auto
      have "ib_records ib2 = length rows" using 2(5) records by (simp add: same_setup_def)
      from placed_inverse [OF 2(3) [unfolded ps_def] this 2(4)] obtain ranks where
        ranks: "stored f2 (h @ rank_bytes ranks)" "length ranks = length rows"
          "\<forall>row < length rows. ranks ! row < length rows \<and> rows ! (ranks ! row) = row" .
      with inverse_permutation [OF ranks(2,3)] have "inverse_result rows ranks" by (simp add: inverse_result_def)
      with ranks(1) 2(1,2) that(2) show ?case by (auto simp: sw)
    qed
  qed
  have finish: "attains (refuses good) (finish_collecting dk) ((ib1, sh1), w1)
      (\<lambda>_ ((ib', sh'), w'). world_ok w' \<and> sh_owner sh' = sh_owner sh \<and> collected ib' ps \<and> collects ib' ps \<and> same_setup ib ib')"
    if "world_ok w1" "sh_owner sh1 = sh_owner sh" "collects ib1 ps" "same_setup ib ib1" for ib1 sh1 w1
    using finish_buckets_spec [of good ps "length rows" w1 ib1 0 "ib_buckets ib1" sh1] good_ps that n
    by (simp add: finish_collecting_def wp_simps same_setup_def)
  show ?thesis unfolding attains_and_then on_builder_def attains_focus prod.case fst_conv snd_conv
  proof (rule attains_weaken [OF push], clarsimp simp: wp_simps simp del: place_all.simps, rule attains_weaken [OF finish],
      assumption+, clarsimp simp: wp_simps simp del: place_all.simps, goal_cases)
    case (1 ib1 sh1 w1 ib2 sh2 w2)
    from place [OF 1(5-9)] show ?case by (auto elim: attains_weaken simp del: place_all.simps)
  qed
qed

lemma build_inverse_spec:
  assumes w: "world_ok w" and ok: "0 < bucket_rows" "16 \<le> buffer" "16 dvd buffer" "length rows * 16 \<le> u64_max"
  shows "attains (refuses (distinct rows \<and> (\<forall>row \<in> set rows. row < length rows)))
    (build_inverse env dk rows bucket_rows buffer) (sh, w)
    (\<lambda>ranks (sh', w'). world_ok w' \<and> inverse_result rows ranks)"
proof -
  let ?good = "distinct rows \<and> (\<forall>row \<in> set rows. row < length rows)" and ?n = "length rows"
  let ?h = "map_header ?n 0 8"
  note refuse = attains_refuses [where good = ?good]
  have body: "attains (refuses ?good)
      (and_then (append_bytes dk ?h) (\<lambda>_.
       and_then (allocate_bytes dk (?n * 8)) (\<lambda>_.
       and_then (on_shared (inverse_new env dk ?n bucket_rows buffer)) (\<lambda>ib.
       and_then (with_builder ib dk
         (and_then (on_builder (push_ranks dk 0 rows)) (\<lambda>_.
          and_then (on_builder (finish_collecting dk)) (\<lambda>_.
          with_state (\<lambda>(ib, _). place_all (place_left ib + 1) dk))))) (\<lambda>_.
       read_exact_at dk 32 (?n * 8)))))) ((f, sh1), w1)
      (\<lambda>bs ((f', sh'), w'). world_ok w' \<and> (\<exists>ranks. bs = rank_bytes ranks \<and> inverse_result rows ranks))"
    if 1: "world_ok w1" "writing f []" for f sh1 w1
    unfolding attains_and_then
  proof (rule attains_weaken [OF refuse [OF append_spec [OF 1]]], goal_cases)
    case (1 u sw)
    obtain f2 sh2 w2 where sw: "sw = ((f2, sh2), w2)" by (metis surj_pair)
    with 1 have 2: "world_ok w2" "writing f2 ?h" by auto
    show ?case unfolding sw
    proof (rule attains_weaken [OF refuse [OF allocate_spec [OF 2]]], goal_cases)
      case (1 u sw)
      obtain f3 sh3 w3 where sw: "sw = ((f3, sh3), w3)" by (metis surj_pair)
      with 1 have 3: "world_ok w3" "stored f3 (?h @ replicate (8 * ?n) 0)" by (auto simp: mult.commute)
      show ?case unfolding sw on_shared_def attains_focus snd_conv fst_conv
      proof (rule attains_weaken [OF refuse [OF new_spec [OF 3(1) ok]]], goal_cases)
        case (1 ib sw)
        obtain sh4 w4 where sw: "sw = (sh4, w4)" by (metis surj_pair)
        with 1 have 4: "world_ok w4" "collects ib []" "room ib" "ib_records ib = ?n" by auto
        show ?case unfolding sw attains_with_builder fst_conv snd_conv prod.case
        proof (rule attains_weaken [OF builder_spec [OF 4 3(2) length_map_header]], goal_cases)
          case (1 u sw)
          obtain ib5 f5 n5 sh5 w5 where sw: "sw = ((ib5, f5, n5, sh5), w5)" by (metis surj_pair)
          with 1 obtain ranks where 5: "world_ok w5" "stored f5 (?h @ rank_bytes ranks)" "inverse_result rows ranks" by auto
          obtain sh6 w6 where rel: "release_shared (ib_memory ib5) (disk_file_drop dk (ib_pairs ib5) (sh5, w5)) = (sh6, w6)"
            by (metis surj_pair)
          with drop_ok [OF 5(1), of "ib_pairs ib5" sh5] have w6: "world_ok w6" by (auto simp: release_shared_def)
          have len: "length ranks = ?n" using 5(3) by (simp add: inverse_result_def)
          have inside: "32 + ?n * 8 \<le> length (df_data f5)" using 5(2) len by (simp add: stored_def)
          have "segment (df_data f5) 32 (32 + ?n * 8) = rank_bytes ranks"
            using 5(2) len by (simp add: stored_def segment_def)
          with 5(3) show ?case
            by (simp add: sw rel) (rule attains_weaken [OF refuse [OF read_spec [OF w6 inside]]], auto)
        qed
      qed
    qed
  qed
  have decode: "map (\<lambda>i. le_value (segment (rank_bytes ranks) (8 * i) (8 * i + 8))) [0..<?n] = ranks"
    if r: "inverse_result rows ranks" for ranks
  proof -
    have len: "length ranks = ?n" "\<forall>row < ?n. ranks ! row < ?n" using r by (simp_all add: inverse_result_def)
    then have "\<forall>r \<in> set ranks. r \<le> u64_max" using ok(4) by (fastforce simp: in_set_conv_nth)
    with read_ranks [of ranks] len(1) show ?thesis by simp
  qed
  show ?thesis unfolding build_inverse_def Let_def attains_and_then
  proof (rule attains_weaken [OF refuse [OF create_spec [OF w]]], goal_cases)
    case (1 f sw)
    obtain sh1 w1 where sw: "sw = (sh1, w1)" by (metis surj_pair)
    with 1 have 1: "world_ok w1" "writing f []" by auto
    show ?case unfolding sw attains_with_file
    proof (rule attains_weaken [OF body [OF 1]], goal_cases)
      case (1 bs sw)
      obtain f2 sh2 w2 where sw: "sw = ((f2, sh2), w2)" by (metis surj_pair)
      with 1 obtain ranks where 2: "world_ok w2" "bs = rank_bytes ranks" "inverse_result rows ranks" by auto
      with decode drop_ok [OF 2(1), of f2 sh2] show ?case by (auto simp: sw attains_def)
    qed
  qed
qed

end

text \<open>
  C31. A finished inverse map is the inverse of the order it was built from.  If collecting and placing
  succeed then the rows that were pushed are a permutation, and the map holds for every row the rank
  it was pushed with; the builder does not panic, and it refuses with \<open>InvalidScratch\<close> only rows that
  are no permutation.
\<close>

theorem inverse_map_is_inverse:
  assumes "sort_world env data base world_ok dk" "world_ok w"
    and "0 < bucket_rows" "16 \<le> buffer" "16 dvd buffer" "length rows * 16 \<le> u64_max"
  shows "case fst (build_inverse env dk rows bucket_rows buffer (sh, w)) of
      Ok ranks \<Rightarrow> inverse_result rows ranks
    | Err e \<Rightarrow> sort_failure e \<or> e = InvalidScratch \<and> \<not> (distinct rows \<and> (\<forall>row \<in> set rows. row < length rows))
    | Panic \<Rightarrow> False"
  using sort_world.build_inverse_spec [OF assms, of sh]
  by (auto simp: attains_def refuses_def split: prod.splits outcome.splits)

lemma inverse_map_is_inverse_witness:
  "case fst (build_inverse (file_environment 1 []) ready_disk [2, 0, 1] 2 16
      (\<lparr>sh_resources = resources_new (16 * 1024 * 1024) (1024 * 1024),
        sh_owner = \<lparr>ow_path = [], ow_locked = True, ow_retained_bytes = 0\<rparr>\<rparr>, token_new)) of
     Ok ranks \<Rightarrow> inverse_result [2, 0, 1] ranks
   | Err e \<Rightarrow> sort_failure e \<or> e = InvalidScratch \<and> \<not> (distinct [2, 0, 1 :: nat] \<and> (\<forall>row \<in> set [2, 0, 1]. row < length [2, 0, 1 :: nat]))
   | Panic \<Rightarrow> False"
proof -
  have "sort_world (file_environment 1 []) [] (file_fingerprint []) (\<lambda>w. True) ready_disk"
    using ready_world.sort_world_axioms [of 0 "[]"] by simp
  from inverse_map_is_inverse [OF this, where bucket_rows = 2 and buffer = 16 and rows = "[2, 0, 1]"] show ?thesis by simp
qed

end
