(* ===== verification/Sort_Session.thy ===== *)
theory Sort_Session imports Sort_Keys Sort_Inverse begin

text \<open>
  The external sort (\<open>crates/leanrows-core/src/sort/session.rs\<close>): records are scanned and their keys
  extracted into a batch, each batch is merge sorted and written as a run, runs are merged group by
  group through a winner tree until one is left, and the order map and its inverse are written from
  it.  A call of \<open>advance\<close> does a bounded amount of work in steps of one phase each; an operation is
  a run on the session and the budget that is left.
\<close>

section \<open>State\<close>

datatype sort_phase = Extracting | SortingRuns | Merging | BuildingInverse | SortComplete | SortCancelled

record sort_config =
  sg_format :: viewport_format
  sg_request :: sort_request
  sg_batch_capacity :: nat
  sg_merge_fan_in :: nat
  sg_step_bytes :: nat

record sort_step =
  step_phase :: sort_phase
  step_scanned_bytes :: nat
  step_source_bytes :: nat
  step_records :: nat
  step_merge_passes :: nat

datatype pending_key = PendingLocate locator | PendingBuild key_builder

definition fixed_bytes :: nat where "fixed_bytes = 512 * 1024"
definition merge_page_bytes :: nat where "merge_page_bytes = 64 * 1024"
definition tree_bytes_per_run :: nat where "tree_bytes_per_run = 256"
definition empty_run :: nat where "empty_run = 4294967295"
definition scan_buffer_bytes :: nat where "scan_buffer_bytes = 64 * 1024"

datatype merge_stage = StageIdle | StageBuild nat | StageEmit | StageReplay nat

record winner_tree =
  wt_leaves :: nat
  wt_nodes :: "nat list"
  wt_heads :: "descriptor option list"
  wt_next :: "nat list"
  wt_end :: "nat list"
  wt_group_end :: nat
  wt_stage :: merge_stage

record batch_merge =
  bm_width :: nat
  bm_start :: nat
  bm_left :: nat
  bm_right :: nat
  bm_middle :: nat
  bm_end :: nat
  bm_out :: nat

definition batch_merge_default :: batch_merge where
  "batch_merge_default = \<lparr>bm_width = 0, bm_start = 0, bm_left = 0, bm_right = 0, bm_middle = 0, bm_end = 0, bm_out = 0\<rparr>"

record sort_session =
  se_snapshot :: source_fingerprint
  se_config :: sort_config
  se_shared :: sort_shared
  se_fixed_memory :: reservation
  se_merge_memory :: "reservation option"
  se_phase :: sort_phase
  se_scanner :: "boundary_scanner option"
  se_scan_buffer :: bytes
  se_scan_pos :: nat
  se_scan_count :: nat
  se_pending :: "pending_key option"
  se_batch :: "descriptor list"
  se_alternate :: "descriptor list"
  se_merge :: batch_merge
  se_comparison :: "comparison option"
  se_write_at :: nat
  se_records :: nat
  se_run_file :: "disk_file option"
  se_pass_file :: "disk_file option"
  se_run_width :: nat
  se_pass :: nat
  se_group_start :: nat
  se_tree :: winner_tree
  se_order :: "disk_file option"
  se_inverse :: "disk_file option"
  se_inverse_at :: nat
  se_inverse_builder :: "inverse_builder option"
  se_pages :: "read_page list"

type_synonym ('w, 'a) sort_run = "((sort_session \<times> nat) \<times> 'w, sort_error, 'a) run"

definition modify_session :: "(sort_session \<Rightarrow> sort_session) \<Rightarrow> ('w, unit) sort_run" where
  "modify_session f = update_state (\<lambda>(se, budget). (f se, budget))"

definition spend :: "nat \<Rightarrow> ('w, unit) sort_run" where
  "spend n = update_state (\<lambda>(se, budget). (se, saturating_sub budget n))"

definition on_sort_shared :: "('w, 'a) shared_run \<Rightarrow> ('w, 'a) sort_run" where
  "on_sort_shared = focus (\<lambda>(se, _). se_shared se) (\<lambda>sh (se, budget). (se\<lparr>se_shared := sh\<rparr>, budget))"

text \<open>An operation on one of the session's files, which must be there.\<close>

definition on_file ::
    "(sort_session \<Rightarrow> disk_file option) \<Rightarrow> (disk_file \<Rightarrow> sort_session \<Rightarrow> sort_session) \<Rightarrow> ('w, 'a) file_run
     \<Rightarrow> ('w, 'a) sort_run" where
  "on_file get put m =
     with_state (\<lambda>(se, _).
       case get se of
         None \<Rightarrow> fail InvalidScratch
       | Some f \<Rightarrow> focus (\<lambda>(se, _). (f, se_shared se)) (\<lambda>(f, sh) (se, budget). (put f (se\<lparr>se_shared := sh\<rparr>), budget)) m)"

abbreviation on_run_file :: "('w, 'a) file_run \<Rightarrow> ('w, 'a) sort_run" where
  "on_run_file \<equiv> on_file se_run_file (\<lambda>f se. se\<lparr>se_run_file := Some f\<rparr>)"

abbreviation on_pass_file :: "('w, 'a) file_run \<Rightarrow> ('w, 'a) sort_run" where
  "on_pass_file \<equiv> on_file se_pass_file (\<lambda>f se. se\<lparr>se_pass_file := Some f\<rparr>)"

abbreviation on_order_file :: "('w, 'a) file_run \<Rightarrow> ('w, 'a) sort_run" where
  "on_order_file \<equiv> on_file se_order (\<lambda>f se. se\<lparr>se_order := Some f\<rparr>)"

text \<open>A file that is dropped or replaced.\<close>

definition drop_file :: "'w sort_disk \<Rightarrow> disk_file option \<Rightarrow> ('w, unit) sort_run" where
  "drop_file dk f = on_sort_shared (\<lambda>sw. (Ok (), case f of None \<Rightarrow> sw | Some f \<Rightarrow> disk_file_drop dk f sw))"

section \<open>New sessions\<close>

fun next_power_of_two :: "nat \<Rightarrow> nat" where
  "next_power_of_two n = (if n \<le> 1 then 1 else 2 * next_power_of_two ((n + 1) div 2))"

declare next_power_of_two.simps [simp del]

definition filled :: "'w environment \<Rightarrow> nat \<Rightarrow> 'a \<Rightarrow> ('w, sort_error, 'a list) run" where
  "filled env n v = and_then (try_reserve env SortAllocation n) (\<lambda>_. give (replicate n v))"

definition tree_new :: "'w environment \<Rightarrow> nat \<Rightarrow> ('w, sort_error, winner_tree) run" where
  "tree_new env fan_in =
     (let leaves = next_power_of_two fan_in in
      if leaves > u64_max then fail InvalidConfig
      else
        and_then (option_or InvalidConfig (checked_mul leaves 2)) (\<lambda>n.
        and_then (filled env n empty_run) (\<lambda>nodes.
        and_then (filled env fan_in None) (\<lambda>heads.
        and_then (filled env fan_in 0) (\<lambda>nexts.
        and_then (filled env fan_in 0) (\<lambda>ends.
        give \<lparr>wt_leaves = leaves, wt_nodes = nodes, wt_heads = heads, wt_next = nexts, wt_end = ends,
              wt_group_end = 0, wt_stage = StageIdle\<rparr>))))))"

definition merge_bytes :: "'w sort_disk \<Rightarrow> sort_config \<Rightarrow> nat option" where
  "merge_bytes dk cfg =
     Option.bind (checked_mul (sg_batch_capacity cfg) (sd_descriptor_size dk)) (\<lambda>n.
     Option.bind (checked_mul n 2) (\<lambda>n.
     Option.bind (checked_mul (sg_merge_fan_in cfg) (merge_page_bytes + tree_bytes_per_run)) (\<lambda>m.
     checked_add n m)))"

text \<open>Operations on the ledger before there is an owner, and what runs while there is one.\<close>

type_synonym ('w, 'a) ledger_run = "(sort_resources \<times> 'w, sort_error, 'a) run"

definition resource_call :: "(sort_resources \<Rightarrow> (sort_error + 'a) \<times> sort_resources) \<Rightarrow> ('w, 'a) ledger_run" where
  "resource_call f rw =
     (case f (fst rw) of (Inl e, rs) \<Rightarrow> (Err e, (rs, snd rw)) | (Inr a, rs) \<Rightarrow> (Ok a, (rs, snd rw)))"

definition release_lease :: "reservation \<Rightarrow> sort_resources \<times> 'w \<Rightarrow> sort_resources \<times> 'w" where
  "release_lease r rw = (release r (fst rw), snd rw)"

definition with_owner :: "'w sort_disk \<Rightarrow> sort_owner \<Rightarrow> ('w, 'a) shared_run \<Rightarrow> ('w, sort_shared \<times> 'a) ledger_run" where
  "with_owner dk ow m rw =
     (case m (\<lparr>sh_resources = fst rw, sh_owner = ow\<rparr>, snd rw) of
        (Ok a, (sh, w)) \<Rightarrow> (Ok (sh, a), (sh_resources sh, w))
      | (Err e, (sh, w)) \<Rightarrow> (Err e, owner_drop dk (sh_owner sh) (sh_resources sh, w))
      | (Panic, (sh, w)) \<Rightarrow> (Panic, (sh_resources sh, w)))"

definition session_buffers :: "'w environment \<Rightarrow> sort_config \<Rightarrow> ('w, sort_error, descriptor list \<times> bytes \<times> read_page list) run" where
  "session_buffers env cfg =
     and_then (try_reserve env SortAllocation (sg_batch_capacity cfg)) (\<lambda>_.
     and_then (try_reserve env SortAllocation (sg_batch_capacity cfg)) (\<lambda>_.
     and_then (try_reserve env SortAllocation scan_buffer_bytes) (\<lambda>_.
     and_then (try_reserve env SortAllocation (sg_merge_fan_in cfg)) (\<lambda>_.
     and_then (read_page_new env) (\<lambda>page.
     give (replicate (sg_batch_capacity cfg) (descriptor_new 0 (mk_span 0 0)), replicate scan_buffer_bytes 0, [page]))))))"

definition session_new ::
    "'w environment \<Rightarrow> 'w sort_disk \<Rightarrow> sort_config \<Rightarrow> path \<Rightarrow> ('w, sort_session) ledger_run" where
  "session_new env dk cfg directory =
     (if sg_batch_capacity cfg = 0 \<or> sg_merge_fan_in cfg < 2 \<or> sg_step_bytes cfg = 0 then fail InvalidConfig
      else
        and_then (on_world (capture env SortIo)) (\<lambda>snapshot.
        and_then (resource_call (reserve fixed_bytes True)) (\<lambda>fixed.
        on_failure
          (and_then (option_or SortAllocation (merge_bytes dk cfg)) (\<lambda>bytes.
           and_then (resource_call (reserve bytes True)) (\<lambda>memory.
           on_failure
             (and_then (on_world (session_buffers env cfg)) (\<lambda>(alternate, buffer, pages).
              and_then (\<lambda>rw. (Ok (), retry_cleanup dk rw)) (\<lambda>_.
              and_then (on_world (owner_create dk directory)) (\<lambda>ow.
              and_then
                (with_owner dk ow
                  (and_then (disk_file_create dk (ascii ''runs-0.bin'')) (\<lambda>runs.
                   with_file dk runs (\<lambda>fw. on_world (tree_new env (sg_merge_fan_in cfg)) fw))))
                (\<lambda>(sh, runs, tree).
                   give \<lparr>se_snapshot = snapshot, se_config = cfg, se_shared = sh, se_fixed_memory = fixed,
                         se_merge_memory = Some memory, se_phase = Extracting,
                         se_scanner = Some (boundary_scanner_new (sg_format cfg) 0), se_scan_buffer = buffer,
                         se_scan_pos = 0, se_scan_count = 0, se_pending = None, se_batch = [],
                         se_alternate = alternate, se_merge = batch_merge_default, se_comparison = None,
                         se_write_at = 0, se_records = 0, se_run_file = Some runs, se_pass_file = None,
                         se_run_width = sg_batch_capacity cfg, se_pass = 0, se_group_start = 0, se_tree = tree,
                         se_order = None, se_inverse = None, se_inverse_at = 0, se_inverse_builder = None,
                         se_pages = pages\<rparr>)))))
             (release_lease memory))))
          (release_lease fixed))))"

section \<open>Extracting\<close>

definition session_quote :: "sort_session \<Rightarrow> u8" where
  "session_quote se = format_quote (sg_format (se_config se))"

definition session_progress :: "sort_session \<Rightarrow> sort_step" where
  "session_progress se =
     \<lparr>step_phase = se_phase se,
      step_scanned_bytes =
        (case se_scanner se of None \<Rightarrow> fp_size (se_snapshot se) | Some sc \<Rightarrow> boundary_scanner_offset sc),
      step_source_bytes = fp_size (se_snapshot se), step_records = se_records se, step_merge_passes = se_pass se\<rparr>"

text \<open>The scanner stops at every record it reports.\<close>

definition take_span :: "record_span option emitter" where
  "take_span _ sp = (Some sp, Stop)"

fun sort_scanner_feed ::
    "boundary_scanner \<Rightarrow> bytes \<Rightarrow> boundary_scanner \<times> record_span option \<times> (scan_error, scan_progress) outcome" where
  "sort_scanner_feed (DelimitedScanner sc) bs =
     (case csv_feed take_span sc None bs of (sc', sp, r) \<Rightarrow> (DelimitedScanner sc', sp, r))"
| "sort_scanner_feed (LineScanner sc) bs =
     (case line_feed take_span sc None bs of (sc', sp, r) \<Rightarrow> (LineScanner sc', sp, r))"

definition fill_scan_buffer :: "'w environment \<Rightarrow> boundary_scanner \<Rightarrow> ('w, unit) sort_run" where
  "fill_scan_buffer env sc =
     with_state (\<lambda>(se, _).
       case checked_sub (fp_size (se_snapshot se)) (boundary_scanner_offset sc) of
         None \<Rightarrow> panic
       | Some left \<Rightarrow>
           and_then (on_world (checked_read env (boundary_scanner_offset sc) (min (length (se_scan_buffer se)) left))) (\<lambda>bs.
             modify_session (\<lambda>se. se\<lparr>se_scan_buffer := bs @ drop (length bs) (se_scan_buffer se),
                                     se_scan_count := length bs, se_scan_pos := 0\<rparr>)))"

definition session_scan :: "'w environment \<Rightarrow> ('w, record_span option) sort_run" where
  "session_scan env =
     with_state (\<lambda>(se, _).
       case se_scanner se of
         None \<Rightarrow> give None
       | Some sc \<Rightarrow>
           if boundary_scanner_offset sc = fp_size (se_snapshot se) then
             and_then (modify_session (\<lambda>se. se\<lparr>se_scanner := None\<rparr>)) (\<lambda>_.
               case boundary_scanner_finish take_span sc None of None \<Rightarrow> panic | Some (_, sp) \<Rightarrow> give sp)
           else
             and_then (if se_scan_pos se = se_scan_count se then fill_scan_buffer env sc else give ()) (\<lambda>_.
             with_state (\<lambda>(se, budget).
               case checked_sub (se_scan_count se) (se_scan_pos se) of
                 None \<Rightarrow> panic
               | Some unread \<Rightarrow>
                   (let n = min budget unread in
                    case sort_scanner_feed sc (segment (se_scan_buffer se) (se_scan_pos se) (se_scan_pos se + n)) of
                      (sc', sp, r) \<Rightarrow>
                        and_then (modify_session (\<lambda>se. se\<lparr>se_scanner := Some sc'\<rparr>)) (\<lambda>_.
                          case r of
                            Ok p \<Rightarrow>
                              and_then (update_state (\<lambda>(se, budget).
                                (se\<lparr>se_scan_pos := se_scan_pos se + consumed p\<rparr>, budget - consumed p)))
                                (\<lambda>_. give sp)
                          | Err e \<Rightarrow> fail (SortScan e)
                          | Panic \<Rightarrow> panic)))))"

definition extract_pending :: "'w environment \<Rightarrow> pending_key \<Rightarrow> ('w, unit) sort_run" where
  "extract_pending env pending =
     (case pending of
        PendingLocate lo \<Rightarrow>
          and_then (focus (\<lambda>(_, budget). (lo, budget))
                     (\<lambda>(lo, budget) (se, _). (se\<lparr>se_pending := Some (PendingLocate lo)\<rparr>, budget))
                     (locator_advance env)) (\<lambda>r.
            case r of
              None \<Rightarrow> give ()
            | Some d \<Rightarrow> modify_session (\<lambda>se. se\<lparr>se_pending := Some (PendingBuild (builder_new d (session_quote se)))\<rparr>))
      | PendingBuild kb \<Rightarrow>
          with_state (\<lambda>(se, _).
            and_then (focus (\<lambda>(_, budget). (kb, budget))
                       (\<lambda>(kb, budget) (se, _). (se\<lparr>se_pending := Some (PendingBuild kb)\<rparr>, budget))
                       (builder_advance env (sr_mode (sg_request (se_config se))))) (\<lambda>r.
              case r of
                None \<Rightarrow> give ()
              | Some d \<Rightarrow> modify_session (\<lambda>se. se\<lparr>se_batch := se_batch se @ [d], se_records := se_records se + 1,
                                                    se_pending := None\<rparr>))))"

section \<open>Maps\<close>

definition map_bucket_rows :: nat where "map_bucket_rows = 512 * 1024"
definition map_bucket_buffer_bytes :: nat where "map_bucket_buffer_bytes = 16 * 1024"

text \<open>The files of the two maps and the builder of the inverse.\<close>

definition create_maps ::
    "'w environment \<Rightarrow> 'w sort_disk \<Rightarrow> nat \<Rightarrow> nat \<Rightarrow> ('w, disk_file \<times> disk_file \<times> inverse_builder) shared_run" where
  "create_maps env dk n size_bytes =
     and_then (disk_file_create dk (ascii ''order.bin'')) (\<lambda>order.
     with_file dk order
       (and_then (append_bytes dk (map_header n size_bytes 24)) (\<lambda>_.
        on_shared
          (and_then (disk_file_create dk (ascii ''inverse.bin'')) (\<lambda>by_row.
           with_file dk by_row
             (and_then (append_bytes dk (map_header n size_bytes 8)) (\<lambda>_.
              and_then (option_or InvalidScratch (checked_mul n 8)) (\<lambda>bytes.
              and_then (allocate_bytes dk bytes) (\<lambda>_.
              on_shared (inverse_new env dk n map_bucket_rows map_bucket_buffer_bytes))))))))))"

definition begin_maps :: "'w environment \<Rightarrow> 'w sort_disk \<Rightarrow> ('w, unit) sort_run" where
  "begin_maps env dk =
     and_then (modify_session (\<lambda>se. se\<lparr>se_batch := [], se_alternate := [], se_pages := take 1 (se_pages se)\<rparr>)) (\<lambda>_.
     and_then (on_world (tree_new env 1)) (\<lambda>tree.
     and_then (modify_session (\<lambda>se. se\<lparr>se_tree := tree,
         se_shared := (case se_merge_memory se of None \<Rightarrow> se_shared se
                       | Some r \<Rightarrow> with_resources (release r) (se_shared se)), se_merge_memory := None\<rparr>)) (\<lambda>_.
     with_state (\<lambda>(se, _).
       and_then (on_sort_shared (create_maps env dk (se_records se) (fp_size (se_snapshot se))))
         (\<lambda>(order, by_row, builder).
           modify_session (\<lambda>se. se\<lparr>se_inverse_builder := Some builder, se_order := Some order,
                                   se_inverse := Some by_row, se_phase := BuildingInverse\<rparr>))))))"

definition run_file_name :: "nat \<Rightarrow> bytes" where
  "run_file_name pass = ascii ''runs-'' @ decimal_text pass @ ascii ''.bin''"

fun add_pages :: "'w environment \<Rightarrow> nat \<Rightarrow> ('w, unit) sort_run" where
  "add_pages env 0 = give ()"
| "add_pages env (Suc n) =
     and_then (on_world (read_page_new env)) (\<lambda>page.
     and_then (modify_session (\<lambda>se. se\<lparr>se_pages := se_pages se @ [page]\<rparr>)) (\<lambda>_. add_pages env n))"

definition set_stage :: "merge_stage \<Rightarrow> ('w, unit) sort_run" where
  "set_stage st = modify_session (\<lambda>se. se\<lparr>se_tree := (se_tree se)\<lparr>wt_stage := st\<rparr>\<rparr>)"

definition begin_disk_merge :: "'w environment \<Rightarrow> 'w sort_disk \<Rightarrow> ('w, unit) sort_run" where
  "begin_disk_merge env dk =
     and_then (on_run_file (finish_writing dk)) (\<lambda>_.
     and_then (modify_session (\<lambda>se. se\<lparr>se_pages := map (\<lambda>pg. pg\<lparr>rp_base := u64_max\<rparr>) (se_pages se)\<rparr>)) (\<lambda>_.
     with_state (\<lambda>(se, _).
       if se_records se \<le> se_run_width se then begin_maps env dk
       else
         (let runs = min (div_ceil (se_records se) (se_run_width se)) (sg_merge_fan_in (se_config se)) in
          and_then (add_pages env (runs - length (se_pages se))) (\<lambda>_.
          and_then (modify_session (\<lambda>se. se\<lparr>se_pass := se_pass se + 1\<rparr>)) (\<lambda>_.
          and_then (on_sort_shared (disk_file_create dk (run_file_name (se_pass se + 1)))) (\<lambda>f.
          and_then (drop_file dk (se_pass_file se)) (\<lambda>_.
          modify_session (\<lambda>se. se\<lparr>se_pass_file := Some f, se_group_start := 0,
            se_tree := (se_tree se)\<lparr>wt_stage := StageIdle\<rparr>, se_phase := Merging\<rparr>)))))))))"

definition session_extract :: "'w environment \<Rightarrow> 'w sort_disk \<Rightarrow> ('w, unit) sort_run" where
  "session_extract env dk =
     with_state (\<lambda>(se, _).
       case se_pending se of
         Some pending \<Rightarrow> extract_pending env pending
       | None \<Rightarrow>
           if length (se_batch se) = sg_batch_capacity (se_config se) \<or> se_scanner se = None then
             (if se_batch se = [] then begin_disk_merge env dk
              else modify_session (\<lambda>se. se\<lparr>se_merge := batch_merge_default\<lparr>bm_width := 1\<rparr>, se_write_at := 0,
                                          se_phase := SortingRuns\<rparr>))
           else
             and_then (session_scan env) (\<lambda>span.
               case span of
                 None \<Rightarrow> give ()
               | Some sp \<Rightarrow>
                   modify_session (\<lambda>se. se\<lparr>se_pending := Some (PendingLocate
                     (locator_new (se_records se) sp (sg_format (se_config se)) (sr_column (sg_request (se_config se)))))\<rparr>)))"

section \<open>Comparing\<close>

definition session_compare ::
    "'w environment \<Rightarrow> descriptor \<Rightarrow> descriptor \<Rightarrow> ('w, sort_ordering option) sort_run" where
  "session_compare env a b =
     with_state (\<lambda>(se, _).
       case (se_comparison se, order_decide a b (sg_request (se_config se))) of
         (None, Some order) \<Rightarrow> give (Some order)
       | (started, _) \<Rightarrow>
           and_then
             (if started = None then
                modify_session (\<lambda>se. se\<lparr>se_shared := with_resources count_key_readers (se_shared se),
                  se_comparison := Some (comparison_new a b (sg_request (se_config se)) (session_quote se))\<rparr>)
              else give ()) (\<lambda>_.
           with_state (\<lambda>(se, _).
             case se_comparison se of
               None \<Rightarrow> fail InvalidScratch
             | Some cm \<Rightarrow>
                 and_then (focus (\<lambda>(_, budget). (cm, budget))
                            (\<lambda>(cm, budget) (se, _). (se\<lparr>se_comparison := Some cm\<rparr>, budget))
                            (comparison_advance env)) (\<lambda>order.
                   and_then (if order = None then give () else modify_session (\<lambda>se. se\<lparr>se_comparison := None\<rparr>))
                     (\<lambda>_. give order)))))"

section \<open>Sorting a batch\<close>

definition modify_merge :: "(batch_merge \<Rightarrow> batch_merge) \<Rightarrow> ('w, unit) sort_run" where
  "modify_merge f = modify_session (\<lambda>se. se\<lparr>se_merge := f (se_merge se)\<rparr>)"

definition write_sorted :: "'w sort_disk \<Rightarrow> ('w, unit) sort_run" where
  "write_sorted dk =
     with_state (\<lambda>(se, _).
       if se_write_at se < length (se_batch se) then
         and_then (on_run_file (append_bytes dk (encode_descriptor (se_batch se ! se_write_at se)))) (\<lambda>_.
         and_then (modify_session (\<lambda>se. se\<lparr>se_write_at := se_write_at se + 1\<rparr>)) (\<lambda>_. spend 128))
       else modify_session (\<lambda>se. se\<lparr>se_batch := [], se_phase := Extracting\<rparr>))"

definition next_width :: "('w, unit) sort_run" where
  "next_width =
     with_state (\<lambda>(se, _).
       let n = length (se_batch se) in
       if n > length (se_alternate se) then panic
       else
         and_then (modify_session (\<lambda>se. se\<lparr>se_batch := take n (se_alternate se),
           se_merge := (se_merge se)\<lparr>bm_width := saturating_mul (bm_width (se_merge se)) 2, bm_start := 0, bm_end := 0,
                                    bm_out := 0\<rparr>\<rparr>)) (\<lambda>_. spend (saturating_mul n 128)))"

definition next_block :: "('w, unit) sort_run" where
  "next_block =
     with_state (\<lambda>(se, _).
       let n = length (se_batch se); bm = se_merge se; start = bm_start bm;
           middle = min (saturating_add start (bm_width bm)) n;
           stop = min (saturating_add middle (bm_width bm)) n in
       modify_merge (\<lambda>bm. bm\<lparr>bm_left := start, bm_right := middle, bm_middle := middle, bm_end := stop, bm_out := start\<rparr>))"

text \<open>\<open>None\<close> is the comparison that ran out of budget.\<close>

definition choose_left :: "'w environment \<Rightarrow> ('w, bool option) sort_run" where
  "choose_left env =
     with_state (\<lambda>(se, _).
       let bm = se_merge se in
       if bm_left bm = bm_middle bm then give (Some False)
       else if bm_right bm = bm_end bm then give (Some True)
       else if bm_left bm \<ge> length (se_batch se) \<or> bm_right bm \<ge> length (se_batch se) then panic
       else
         and_then (session_compare env (se_batch se ! bm_left bm) (se_batch se ! bm_right bm))
           (\<lambda>order. give (map_option (\<lambda>o'. o' \<noteq> OrdGreater) order)))"

definition take_element :: "bool \<Rightarrow> ('w, unit) sort_run" where
  "take_element take_left =
     with_state (\<lambda>(se, _).
       let bm = se_merge se; index = (if take_left then bm_left bm else bm_right bm) in
       if index \<ge> length (se_batch se) \<or> bm_out bm \<ge> length (se_alternate se) then panic
       else
         and_then (modify_session (\<lambda>se. se\<lparr>se_alternate := (se_alternate se)[bm_out bm := se_batch se ! index],
           se_merge := (let bm' = (if take_left then bm\<lparr>bm_left := bm_left bm + 1\<rparr> else bm\<lparr>bm_right := bm_right bm + 1\<rparr>)
                          \<lparr>bm_out := bm_out bm + 1\<rparr>
                        in if bm_out bm' = bm_end bm' then bm'\<lparr>bm_start := bm_end bm'\<rparr> else bm')\<rparr>))
           (\<lambda>_. spend 128))"

definition sort_batch :: "'w environment \<Rightarrow> 'w sort_disk \<Rightarrow> ('w, unit) sort_run" where
  "sort_batch env dk =
     with_state (\<lambda>(se, _).
       let n = length (se_batch se); bm = se_merge se in
       if bm_width bm \<ge> n then write_sorted dk
       else if bm_start bm \<ge> n then next_width
       else
         and_then (if bm_out bm = bm_end bm then next_block else give ()) (\<lambda>_.
         and_then (choose_left env) (\<lambda>choice.
           case choice of None \<Rightarrow> give () | Some take_left \<Rightarrow> take_element take_left)))"

section \<open>Merging runs\<close>

definition load_descriptor :: "'w sort_disk \<Rightarrow> nat \<Rightarrow> nat \<Rightarrow> ('w, descriptor) sort_run" where
  "load_descriptor dk index page =
     with_state (\<lambda>(se, _).
       if page \<ge> length (se_pages se) then panic
       else
         (case se_run_file se of
            None \<Rightarrow> fail InvalidScratch
          | Some f \<Rightarrow>
              focus (\<lambda>(se, _). (se_pages se ! page, f, se_shared se))
                (\<lambda>(pg, f, sh) (se, budget).
                   (se\<lparr>se_pages := (se_pages se)[page := pg], se_run_file := Some f, se_shared := sh\<rparr>, budget))
                (page_record dk index)))"

definition modify_tree :: "(winner_tree \<Rightarrow> winner_tree) \<Rightarrow> ('w, unit) sort_run" where
  "modify_tree f = modify_session (\<lambda>se. se\<lparr>se_tree := f (se_tree se)\<rparr>)"

definition load_head :: "'w sort_disk \<Rightarrow> nat \<Rightarrow> ('w, unit) sort_run" where
  "load_head dk run =
     with_state (\<lambda>(se, _).
       let wt = se_tree se in
       if run \<ge> length (wt_heads wt) \<or> run \<ge> length (wt_next wt) \<or> run \<ge> length (wt_end wt) then panic
       else
         and_then (if wt_next wt ! run < wt_end wt ! run
                   then and_then (load_descriptor dk (wt_next wt ! run) run) (\<lambda>d. give (Some d))
                   else give None) (\<lambda>head.
           modify_tree (\<lambda>wt. wt\<lparr>wt_heads := (wt_heads wt)[run := head]\<rparr>)))"

text \<open>The loop of \<open>start_group\<close> over the runs; \<open>start\<close> is where the next run begins.\<close>

fun start_runs :: "'w sort_disk \<Rightarrow> nat \<Rightarrow> nat list \<Rightarrow> ('w, nat) sort_run" where
  "start_runs dk start [] = give start"
| "start_runs dk start (run # runs) =
     with_state (\<lambda>(se, _).
       let stop = min (saturating_add start (se_run_width se)) (se_records se); wt = se_tree se in
       if run \<ge> length (wt_next wt) \<or> run \<ge> length (wt_end wt) then panic
       else
         and_then (modify_tree (\<lambda>wt. wt\<lparr>wt_next := (wt_next wt)[run := start], wt_end := (wt_end wt)[run := stop]\<rparr>)) (\<lambda>_.
         and_then (load_head dk run) (\<lambda>_.
         and_then
           (with_state (\<lambda>(se, _).
             let wt = se_tree se in
             if wt_heads wt ! run = None then give ()
             else if run > empty_run then fail InvalidConfig
             else if wt_leaves wt + run \<ge> length (wt_nodes wt) then panic
             else modify_tree (\<lambda>wt. wt\<lparr>wt_nodes := (wt_nodes wt)[wt_leaves wt + run := run]\<rparr>)))
           (\<lambda>_. start_runs dk stop runs))))"

definition start_group :: "'w sort_disk \<Rightarrow> ('w, unit) sort_run" where
  "start_group dk =
     and_then (modify_tree (\<lambda>wt. wt\<lparr>wt_nodes := map (\<lambda>_. empty_run) (wt_nodes wt)\<rparr>)) (\<lambda>_.
     with_state (\<lambda>(se, _).
       and_then (start_runs dk (se_group_start se) [0..<length (se_pages se)]) (\<lambda>stop.
         modify_tree (\<lambda>wt. wt\<lparr>wt_group_end := stop,
           wt_stage := (if wt_leaves wt > 1 then StageBuild (wt_leaves wt - 1) else StageEmit)\<rparr>))))"

text \<open>The winner of a node; \<open>None\<close> is a comparison that ran out of budget.\<close>

definition play :: "'w environment \<Rightarrow> nat \<Rightarrow> ('w, nat option) sort_run" where
  "play env node =
     with_state (\<lambda>(se, _).
       let wt = se_tree se in
       if node * 2 + 1 \<ge> length (wt_nodes wt) then panic
       else
         (let left = wt_nodes wt ! (node * 2); right = wt_nodes wt ! (node * 2 + 1) in
          if left = empty_run then give (Some right)
          else if right = empty_run then give (Some left)
          else if left \<ge> length (wt_heads wt) \<or> right \<ge> length (wt_heads wt) then panic
          else
            (case (wt_heads wt ! left, wt_heads wt ! right) of
               (Some a, Some b) \<Rightarrow>
                 and_then (session_compare env a b) (\<lambda>order.
                   give (map_option (\<lambda>o'. if o' = OrdGreater then right else left) order))
             | _ \<Rightarrow> fail InvalidScratch)))"

text \<open>Setting a node to its winner and going on to \<open>stage\<close>.\<close>

definition play_node :: "'w environment \<Rightarrow> nat \<Rightarrow> merge_stage \<Rightarrow> ('w, unit) sort_run" where
  "play_node env node stage =
     and_then (play env node) (\<lambda>winner.
       case winner of
         None \<Rightarrow> give ()
       | Some r \<Rightarrow>
           with_state (\<lambda>(se, _).
             if node \<ge> length (wt_nodes (se_tree se)) then panic
             else modify_tree (\<lambda>wt. wt\<lparr>wt_nodes := (wt_nodes wt)[node := r], wt_stage := stage\<rparr>)))"

definition emit_winner :: "'w sort_disk \<Rightarrow> ('w, unit) sort_run" where
  "emit_winner dk =
     with_state (\<lambda>(se, _).
       let wt = se_tree se in
       if 1 \<ge> length (wt_nodes wt) then panic
       else
         (let run = wt_nodes wt ! 1 in
          if run = empty_run then
            modify_session (\<lambda>se. se\<lparr>se_group_start := wt_group_end (se_tree se),
                                    se_tree := (se_tree se)\<lparr>wt_stage := StageIdle\<rparr>\<rparr>)
          else if run \<ge> length (wt_heads wt) then panic
          else
            and_then (modify_tree (\<lambda>wt. wt\<lparr>wt_heads := (wt_heads wt)[run := None]\<rparr>)) (\<lambda>_.
            and_then (option_or InvalidScratch (wt_heads wt ! run)) (\<lambda>d.
            and_then (on_pass_file (append_bytes dk (encode_descriptor d))) (\<lambda>_.
            and_then (spend 128) (\<lambda>_.
            if run \<ge> length (wt_next wt) then panic
            else
              and_then (modify_tree (\<lambda>wt. wt\<lparr>wt_next := (wt_next wt)[run := wt_next wt ! run + 1]\<rparr>)) (\<lambda>_.
              and_then (load_head dk run) (\<lambda>_.
              if wt_leaves wt + run \<ge> length (wt_nodes wt) then panic
              else
                modify_tree (\<lambda>wt. wt\<lparr>wt_nodes := (wt_nodes wt)[wt_leaves wt + run :=
                    (if wt_heads wt ! run = None then empty_run else run)],
                  wt_stage := StageReplay ((wt_leaves wt + run) div 2)\<rparr>)))))))))"

definition merge_step :: "'w environment \<Rightarrow> 'w sort_disk \<Rightarrow> ('w, unit) sort_run" where
  "merge_step env dk =
     with_state (\<lambda>(se, _).
       case wt_stage (se_tree se) of
         StageBuild node \<Rightarrow> play_node env node (if node > 1 then StageBuild (node - 1) else StageEmit)
       | StageEmit \<Rightarrow> emit_winner dk
       | StageReplay node \<Rightarrow> play_node env node (if node > 1 then StageReplay (node div 2) else StageEmit)
       | StageIdle \<Rightarrow> give ())"

definition end_pass :: "'w environment \<Rightarrow> 'w sort_disk \<Rightarrow> ('w, unit) sort_run" where
  "end_pass env dk =
     with_state (\<lambda>(se, _).
       and_then (modify_session (\<lambda>se. se\<lparr>se_run_file := se_pass_file se, se_pass_file := None\<rparr>)) (\<lambda>_.
       and_then (drop_file dk (se_run_file se)) (\<lambda>_.
       and_then (modify_session (\<lambda>se. se\<lparr>se_run_width := saturating_mul (se_run_width se) (sg_merge_fan_in (se_config se))\<rparr>))
         (\<lambda>_. begin_disk_merge env dk))))"

definition merge_disk :: "'w environment \<Rightarrow> 'w sort_disk \<Rightarrow> ('w, unit) sort_run" where
  "merge_disk env dk =
     with_state (\<lambda>(se, _).
       if wt_stage (se_tree se) = StageIdle then
         (if se_group_start se = se_records se then end_pass env dk
          else and_then (start_group dk) (\<lambda>_. merge_step env dk))
       else merge_step env dk)"

section \<open>Building the maps\<close>

definition order_entry :: "descriptor \<Rightarrow> bytes" where
  "order_entry d = le_bytes 8 (ds_row d) @ le_bytes 8 (ds_start d) @ le_bytes 8 (ds_end d)"

definition on_inverse_builder :: "('w, 'a) inverse_run \<Rightarrow> ('w, 'a) sort_run" where
  "on_inverse_builder m =
     with_state (\<lambda>(se, _).
       case se_inverse_builder se of
         None \<Rightarrow> fail InvalidScratch
       | Some ib \<Rightarrow>
           focus (\<lambda>(se, _). (ib, se_shared se))
             (\<lambda>(ib, sh) (se, budget). (se\<lparr>se_inverse_builder := Some ib, se_shared := sh\<rparr>, budget)) m)"

definition drop_builder :: "'w sort_disk \<Rightarrow> ('w, unit) sort_run" where
  "drop_builder dk =
     with_state (\<lambda>(se, _).
       case se_inverse_builder se of
         None \<Rightarrow> give ()
       | Some ib \<Rightarrow>
           and_then (modify_session (\<lambda>se. se\<lparr>se_inverse_builder := None\<rparr>)) (\<lambda>_.
             on_sort_shared (\<lambda>sw. (Ok (), release_shared (ib_memory ib) (disk_file_drop dk (ib_pairs ib) sw)))))"

definition place_step :: "'w sort_disk \<Rightarrow> ('w, bool) sort_run" where
  "place_step dk =
     with_state (\<lambda>(se, _).
       case (se_inverse se, se_inverse_builder se) of
         (Some f, Some ib) \<Rightarrow>
           focus (\<lambda>(se, budget). (ib, f, budget, se_shared se))
             (\<lambda>(ib, f, budget, sh) (se, _).
                (se\<lparr>se_inverse_builder := Some ib, se_inverse := Some f, se_shared := sh\<rparr>, budget))
             (inverse_place dk)
       | _ \<Rightarrow> fail InvalidScratch)"

definition build_maps :: "'w environment \<Rightarrow> 'w sort_disk \<Rightarrow> ('w, unit) sort_run" where
  "build_maps env dk =
     with_state (\<lambda>(se, _).
       if se_inverse_at se = se_records se then
         (if se_inverse_builder se = None then fail InvalidScratch
          else if se_run_file se \<noteq> None then
            and_then (on_inverse_builder (finish_collecting dk)) (\<lambda>_.
            and_then (on_order_file (finish_writing dk)) (\<lambda>_.
            with_state (\<lambda>(se, _).
              and_then (modify_session (\<lambda>se. se\<lparr>se_run_file := None\<rparr>)) (\<lambda>_. drop_file dk (se_run_file se)))))
          else
            and_then (place_step dk) (\<lambda>complete.
              if complete
              then and_then (drop_builder dk) (\<lambda>_. modify_session (\<lambda>se. se\<lparr>se_phase := SortComplete\<rparr>))
              else give ()))
       else
         and_then (load_descriptor dk (se_inverse_at se) 0) (\<lambda>d.
         and_then (on_order_file (append_bytes dk (order_entry d))) (\<lambda>_.
         and_then (on_inverse_builder (inverse_push dk (ds_row d) (se_inverse_at se))) (\<lambda>_.
         and_then (modify_session (\<lambda>se. se\<lparr>se_inverse_at := se_inverse_at se + 1\<rparr>)) (\<lambda>_. spend 128)))))"

section \<open>Advancing\<close>

definition session_work :: "'w environment \<Rightarrow> 'w sort_disk \<Rightarrow> ('w, unit) sort_run" where
  "session_work env dk =
     with_state (\<lambda>(se, _).
       case se_phase se of
         Extracting \<Rightarrow> session_extract env dk
       | SortingRuns \<Rightarrow> sort_batch env dk
       | Merging \<Rightarrow> merge_disk env dk
       | BuildingInverse \<Rightarrow> build_maps env dk
       | SortComplete \<Rightarrow> give ()
       | SortCancelled \<Rightarrow> give ())"

text \<open>The loop of \<open>advance\<close>; \<open>None\<close> is a call that does not return.\<close>

partial_function (option) session_loop ::
    "'w environment \<Rightarrow> 'w sort_disk \<Rightarrow> cancellation_generation \<Rightarrow> (sort_session \<times> nat) \<times> 'w
     \<Rightarrow> ((sort_error, unit) outcome \<times> (sort_session \<times> nat) \<times> 'w) option" where
  "session_loop env dk gen sw =
     (case sw of ((se, budget), w) \<Rightarrow>
        if budget = 0 \<or> se_phase se = SortComplete \<or> se_phase se = SortCancelled then Some (Ok (), sw)
        else
          (case env_load_token env w of (token, w') \<Rightarrow>
             if is_cancelled token gen then Some (Ok (), ((se\<lparr>se_phase := SortCancelled\<rparr>, budget), w'))
             else
               (case session_work env dk ((se, budget), w') of (r, sw') \<Rightarrow>
                  if r = Ok () then session_loop env dk gen sw' else Some (r, sw'))))"

declare session_loop.simps [code]

definition ensure_snapshot :: "'w environment \<Rightarrow> ((sort_session \<times> nat) \<times> 'w, sort_error, unit) run" where
  "ensure_snapshot env =
     with_state (\<lambda>(se, _).
       and_then (on_world (capture env SortIo)) (\<lambda>now.
         if is_changed (fingerprint_compare (se_snapshot se) now) then fail SortSourceChanged else give ()))"

text \<open>\<open>None\<close> is a call that does not return.\<close>

definition session_advance ::
    "'w environment \<Rightarrow> 'w sort_disk \<Rightarrow> cancellation_generation \<Rightarrow> sort_session \<times> 'w
     \<Rightarrow> ((sort_error, sort_step) outcome \<times> sort_session \<times> 'w) option" where
  "session_advance env dk gen sw =
     (case env_load_token env (snd sw) of (token, w) \<Rightarrow>
        if is_cancelled token gen then
          (let se = (fst sw)\<lparr>se_phase := SortCancelled\<rparr> in Some (Ok (session_progress se), (se, w)))
        else
          (case ensure_snapshot env ((fst sw, sg_step_bytes (se_config (fst sw))), w) of
             (Ok _, sw1) \<Rightarrow>
               map_option
                 (\<lambda>(r, sw2). case r of
                     Ok _ \<Rightarrow>
                       (case ensure_snapshot env sw2 of
                          (Ok _, ((se, _), w)) \<Rightarrow> (Ok (session_progress se), (se, w))
                        | (Err e, ((se, _), w)) \<Rightarrow> (Err e, (se, w))
                        | (Panic, ((se, _), w)) \<Rightarrow> (Panic, (se, w)))
                   | Err e \<Rightarrow> (Err e, (fst (fst sw2), snd sw2))
                   | Panic \<Rightarrow> (Panic, (fst (fst sw2), snd sw2)))
                 (session_loop env dk gen sw1)
           | (Err e, ((se, _), w)) \<Rightarrow> Some (Err e, (se, w))
           | (Panic, ((se, _), w)) \<Rightarrow> Some (Panic, (se, w))))"

text \<open>
  The finished order.  The files and the lease of the order move out of the session; what is left of
  it is dropped: the leases of its buffers, and the files if it fails before they moved.
\<close>

definition order_memory_bytes :: nat where "order_memory_bytes = 4096"

definition drop_files :: "'w sort_disk \<Rightarrow> disk_file option list \<Rightarrow> sort_shared \<times> 'w \<Rightarrow> sort_shared \<times> 'w" where
  "drop_files dk fs sw = fold (\<lambda>f sw. case f of None \<Rightarrow> sw | Some f \<Rightarrow> disk_file_drop dk f sw) fs sw"

definition session_into_order ::
    "'w environment \<Rightarrow> 'w sort_disk \<Rightarrow> sort_session \<Rightarrow> 'w \<Rightarrow> (sort_error, sorted_order) outcome \<times> sort_shared \<times> 'w" where
  "session_into_order env dk se w =
     (let leftover = (\<lambda>fs (sh, w).
            (case drop_files dk fs (with_resources (release (se_fixed_memory se)) sh, w) of (sh, w) \<Rightarrow>
               (case se_inverse_builder se of
                  None \<Rightarrow> (case se_merge_memory se of None \<Rightarrow> sh | Some r \<Rightarrow> with_resources (release r) sh, w)
                | Some ib \<Rightarrow> release_shared (ib_memory ib) (disk_file_drop dk (ib_pairs ib) (sh, w)))));
          files = [se_run_file se, se_pass_file se, se_order se, se_inverse se] in
      if se_phase se \<noteq> SortComplete then
        (case leftover files (se_shared se, w) of (sh, w) \<Rightarrow> (Err InvalidConfig, (sh, w)))
      else
        (case env_fingerprint env w of
           (Inl e, w) \<Rightarrow> (Err (SortIo e), leftover files (se_shared se, w))
         | (Inr now, w) \<Rightarrow>
             if now \<noteq> se_snapshot se then (Err SortSourceChanged, leftover files (se_shared se, w))
             else
               (case (se_order se, se_inverse se) of
                  (Some order, Some by_row) \<Rightarrow>
                    (case reserve order_memory_bytes True (sh_resources (se_shared se)) of
                       (Inl e, rs) \<Rightarrow> (Err e, leftover [Some by_row, Some order, se_run_file se, se_pass_file se]
                                                ((se_shared se)\<lparr>sh_resources := rs\<rparr>, w))
                     | (Inr memory, rs) \<Rightarrow>
                         (case leftover [se_run_file se, se_pass_file se] ((se_shared se)\<lparr>sh_resources := rs\<rparr>, w) of
                            (sh, w) \<Rightarrow>
                              (Ok \<lparr>so_order = order, so_inverse = by_row, so_records = se_records se,
                                   so_source_size = fp_size (se_snapshot se), so_memory = memory, so_shared = sh\<rparr>, (sh, w))))
                | _ \<Rightarrow> (Err InvalidScratch, leftover files (se_shared se, w)))))"

end
