(* ===== verification/Sort_Blocks.thy ===== *)
theory Sort_Blocks imports Sort_Keys begin

text \<open>
  Lists in sorted blocks, which is what every stage of the external sort produces: \<open>block_sort w xs\<close>
  is \<open>xs\<close> with each block of \<open>w\<close> elements sorted.  The first pass over a batch has \<open>w = 1\<close>, a written
  run has the capacity of a batch, a merge pass multiplies \<open>w\<close>, and once \<open>w\<close> reaches the length the
  list is sorted.
\<close>

function block_sort :: "nat \<Rightarrow> 'a::linorder list \<Rightarrow> 'a list" where
  "block_sort w xs = (if xs = [] \<or> w = 0 then xs else sort (take w xs) @ block_sort w (drop w xs))"
  by pat_completeness auto
termination by (relation "measure (\<lambda>(w, xs). length xs)") auto

declare block_sort.simps [simp del]

lemma block_sort_Nil [simp]: "block_sort w [] = []"
  by (simp add: block_sort.simps)

lemma block_sort_sorted: "length xs \<le> w \<Longrightarrow> block_sort w xs = sort xs"
  by (cases "xs = [] \<or> w = 0") (auto simp: block_sort.simps [of w xs])

lemma mset_block_sort [simp]: "mset (block_sort w xs) = mset xs"
proof (induction w xs rule: block_sort.induct)
  case (1 w xs)
  show ?case
  proof (cases "xs = [] \<or> w = 0")
    case True
    then show ?thesis by (simp add: block_sort.simps)
  next
    case False
    then have "mset (block_sort w xs) = mset (take w xs) + mset (drop w xs)"
      using 1 by (simp add: block_sort.simps [of w xs])
    also have "\<dots> = mset xs" by (metis append_take_drop_id mset_append)
    finally show ?thesis .
  qed
qed

lemma length_block_sort [simp]: "length (block_sort w xs) = length xs"
  by (metis mset_block_sort size_mset)

lemma set_block_sort [simp]: "set (block_sort w xs) = set xs"
  by (metis mset_block_sort set_mset_mset)

lemma block_sort_append:
  assumes "0 < w" "length xs = w * k"
  shows "block_sort w (xs @ ys) = block_sort w xs @ block_sort w ys"
  using assms(2)
proof (induction k arbitrary: xs)
  case (Suc k)
  then have "length (drop w xs) = w * k" by simp
  from Suc.IH [OF this] Suc.prems assms(1) show ?case
    by (simp add: block_sort.simps [of w "xs @ ys"] block_sort.simps [of w xs])
qed simp

lemma block_sort_one: "block_sort (Suc 0) xs = xs"
proof (induction xs)
  case (Cons x xs)
  then show ?case by (simp add: block_sort.simps [of "Suc 0" "x # xs"])
qed simp

lemma block_sort_take:
  assumes "0 < w" "w * k \<le> length xs"
  shows "take (w * k) (block_sort w xs) = block_sort w (take (w * k) xs)"
    and "drop (w * k) (block_sort w xs) = block_sort w (drop (w * k) xs)"
proof -
  have len: "length (take (w * k) xs) = w * k" using assms(2) by simp
  have "block_sort w xs = block_sort w (take (w * k) xs) @ block_sort w (drop (w * k) xs)"
    using block_sort_append [OF assms(1) len, of "drop (w * k) xs"] by simp
  with len show "take (w * k) (block_sort w xs) = block_sort w (take (w * k) xs)"
    "drop (w * k) (block_sort w xs) = block_sort w (drop (w * k) xs)" by simp_all
qed

text \<open>One block of the result.\<close>

lemma block_sort_segment:
  assumes "0 < w" "w * k \<le> length xs"
  defines "j \<equiv> min (w * Suc k) (length xs)"
  shows "segment (block_sort w xs) (w * k) j = sort (segment xs (w * k) j)"
proof -
  let ?ys = "drop (w * k) xs"
  have "segment (block_sort w xs) (w * k) j = take (j - w * k) (block_sort w ?ys)"
    by (simp add: segment_def block_sort_take(2) [OF assms(1,2)])
  also have "\<dots> = sort (take (j - w * k) ?ys)"
  proof (cases "?ys = []")
    case False
    have "block_sort w ?ys = sort (take w ?ys) @ block_sort w (drop w ?ys)"
      using False assms(1) by (simp add: block_sort.simps [of w ?ys])
    moreover have "take (j - w * k) ?ys = take w ?ys \<and> length (take w ?ys) = j - w * k"
      by (auto simp: j_def min_def)
    ultimately show ?thesis by simp
  qed simp
  finally show ?thesis by (simp add: segment_def)
qed

text \<open>Sorting blocks of blocks: sorting inside a block first changes nothing.\<close>

lemma sort_mset_eq: "mset xs = mset ys \<Longrightarrow> sort xs = sort (ys :: 'a::linorder list)"
  by (metis properties_for_sort sorted_sort mset_sort)

lemma mset_block_segment:
  assumes "0 < w" "w dvd i" "i \<le> j" "w dvd j \<or> j = length xs" "j \<le> length xs"
  shows "mset (segment (block_sort w xs) i j) = mset (segment xs i j)"
proof -
  from assms(2) obtain k where k: "i = w * k" by (rule dvdE)
  have "segment (block_sort w xs) i j = take (j - i) (block_sort w (drop i xs))"
    using assms(1,3,5) by (simp add: segment_def k block_sort_take(2))
  also have "\<dots> = block_sort w (take (j - i) (drop i xs))"
  proof (cases "j = length xs")
    case False
    with assms(2,4) have "w dvd j - i" by simp
    then obtain l where l: "j - i = w * l" by (rule dvdE)
    have "w * l \<le> length (drop i xs)" using assms(5) l [symmetric] by simp
    from block_sort_take(1) [OF assms(1) this] show ?thesis by (simp add: l)
  qed simp
  finally show ?thesis by (simp add: segment_def)
qed

section \<open>Merging two lists\<close>

lemma sort_take_left:
  assumes "sorted (a # as)" "sorted bs" "bs = [] \<or> a \<le> hd bs"
  shows "sort ((a # as) @ bs) = a # sort (as @ bs)"
proof -
  have "a \<le> x" if "x \<in> set bs" for x using assms(2,3) that by (cases bs) auto
  then have "insort a (sort (as @ bs)) = a # sort (as @ bs)" using assms(1) by (intro insort_is_Cons) auto
  then show ?thesis by simp
qed

lemma sort_take_right:
  assumes "sorted as" "sorted (b # bs)" "as = [] \<or> b \<le> hd as"
  shows "sort (as @ b # bs) = b # sort (as @ bs)"
proof -
  have "sort (as @ b # bs) = sort ((b # bs) @ as)" by (rule sort_mset_eq) simp
  also have "\<dots> = b # sort (bs @ as)" by (rule sort_take_left) (use assms in auto)
  also have "sort (bs @ as) = sort (as @ bs)" by (rule sort_mset_eq) simp
  finally show ?thesis .
qed

lemma segment_Cons: "i < j \<Longrightarrow> i < length xs \<Longrightarrow> segment xs i j = xs ! i # segment xs (Suc i) j"
  by (simp add: segment_def Cons_nth_drop_Suc [symmetric] take_Cons')

lemma segment_whole [simp]: "segment xs 0 (length xs) = xs"
  by (simp add: segment_def)

lemma sorted_segment: "sorted (segment xs i k) \<Longrightarrow> i \<le> j \<Longrightarrow> sorted (segment xs j k)"
proof -
  assume s: "sorted (segment xs i k)" and "i \<le> j"
  have "segment xs j k = drop (j - i) (segment xs i k)"
    using \<open>i \<le> j\<close> by (simp add: segment_def drop_take)
  with s show ?thesis by (simp add: sorted_wrt_drop)
qed

lemma segment_update_out: "i \<le> j \<Longrightarrow> j < length xs \<Longrightarrow> segment (xs[j := x]) i (Suc j) = segment xs i j @ [x]"
  by (simp add: segment_def drop_update_swap Suc_diff_le take_Suc_conv_app_nth)

lemma take_segment: "i \<le> j \<Longrightarrow> take i xs @ segment xs i j = take j xs"
  by (simp add: segment_def) (metis le_add_diff_inverse take_add)

end
