(* ===== verification/Winner_Tree.thy ===== *)
theory Winner_Tree imports Sort_Session Sort_Blocks begin

text \<open>
  The winner tree of a merge, as an array: node \<open>i\<close> has the children \<open>2 * i\<close> and \<open>2 * i + 1\<close>, and leaf
  \<open>leaves + r\<close> is run \<open>r\<close>.  \<open>best\<close> is what a node must hold, computed from the first keys of the runs:
  the run below it whose first key is smallest, or \<open>empty_run\<close>.  Changing the key of one run changes
  only the nodes above its leaf.
\<close>

section \<open>Positions\<close>

definition below :: "nat \<Rightarrow> nat \<Rightarrow> bool" where
  "below i j \<longleftrightarrow> (\<exists>d. j div 2 ^ d = i)"

lemma below_refl [simp]: "below i i"
  unfolding below_def by (rule exI [of _ 0]) simp

lemma below_le: "below i j \<Longrightarrow> i \<le> j"
  by (auto simp: below_def)

lemma below_step: "below i j \<longleftrightarrow> i = j \<or> below i (j div 2)"
proof
  assume "below i j"
  then obtain d where d: "j div 2 ^ d = i" by (auto simp: below_def)
  show "i = j \<or> below i (j div 2)"
  proof (cases d)
    case (Suc e)
    with d have "j div 2 div 2 ^ e = i" by (simp add: div_mult2_eq)
    then show ?thesis unfolding below_def by blast
  qed (use d in simp)
next
  assume "i = j \<or> below i (j div 2)"
  then show "below i j"
  proof
    assume "below i (j div 2)"
    then obtain d where "j div 2 div 2 ^ d = i" by (auto simp: below_def)
    then have "j div 2 ^ Suc d = i" by (simp add: div_mult2_eq)
    then show ?thesis unfolding below_def by blast
  qed simp
qed

lemma below_trans: "below i j \<Longrightarrow> below j k \<Longrightarrow> below i k"
proof -
  assume "below i j" "below j k"
  then obtain d e where "j div 2 ^ d = i" "k div 2 ^ e = j" by (auto simp: below_def)
  then have "k div 2 ^ (e + d) = i" by (simp add: power_add div_mult2_eq)
  then show ?thesis unfolding below_def by blast
qed

lemma below_child: "c div 2 = i \<Longrightarrow> below c j \<Longrightarrow> below i j"
proof -
  assume "c div 2 = i"
  then have "below i c" by (simp add: below_step [of i c])
  then show "below c j \<Longrightarrow> below i j" by (rule below_trans)
qed

lemma below_children: "below i j \<longleftrightarrow> i = j \<or> below (2 * i) j \<or> below (2 * i + 1) j"
proof
  assume "below i j"
  then obtain d where d: "j div 2 ^ d = i" by (auto simp: below_def)
  show "i = j \<or> below (2 * i) j \<or> below (2 * i + 1) j"
  proof (cases d)
    case (Suc e)
    let ?c = "j div 2 ^ e"
    from d Suc have "?c div 2 = i" by (metis div_mult2_eq mult.commute power_Suc)
    then have "?c = 2 * i \<or> ?c = 2 * i + 1" by linarith
    moreover have "below ?c j" by (auto simp: below_def)
    ultimately show ?thesis by auto
  qed (use d in simp)
next
  assume "i = j \<or> below (2 * i) j \<or> below (2 * i + 1) j"
  then show "below i j" using below_child [of "2 * i" i j] below_child [of "2 * i + 1" i j] by auto
qed

lemma below_root: "leaves = 2 ^ h \<Longrightarrow> r < leaves \<Longrightarrow> below 1 (leaves + r)"
  unfolding below_def by (rule exI [of _ h]) simp

lemma next_power_of_two_power: "\<exists>h. next_power_of_two n = 2 ^ h"
proof (induction n rule: next_power_of_two.induct)
  case (1 n)
  show ?case
  proof (cases "n \<le> 1")
    case True
    then have "next_power_of_two n = 2 ^ 0" by (simp add: next_power_of_two.simps)
    then show ?thesis ..
  next
    case False
    with 1 obtain h where "next_power_of_two ((n + 1) div 2) = 2 ^ h" by blast
    with False have "next_power_of_two n = 2 ^ Suc h" by (simp add: next_power_of_two.simps [of n])
    then show ?thesis ..
  qed
qed

lemma next_power_of_two_ge: "n \<le> next_power_of_two n"
proof (induction n rule: next_power_of_two.induct)
  case (1 n)
  show ?case
  proof (cases "n \<le> 1")
    case False
    with 1 have "(n + 1) div 2 \<le> next_power_of_two ((n + 1) div 2)" by simp
    then have "n \<le> 2 * next_power_of_two ((n + 1) div 2)" by linarith
    with False show ?thesis by (simp add: next_power_of_two.simps [of n])
  qed (simp add: next_power_of_two.simps [of n])
qed

section \<open>Winners\<close>

definition winner :: "(nat \<Rightarrow> 'k::linorder option) \<Rightarrow> nat \<Rightarrow> nat \<Rightarrow> nat" where
  "winner key l r =
     (if l = empty_run then r else if r = empty_run then l else if the (key l) > the (key r) then r else l)"

definition leaf_value :: "(nat \<Rightarrow> 'k option) \<Rightarrow> nat \<Rightarrow> nat" where
  "leaf_value key r = (if key r = None then empty_run else r)"

function best :: "nat \<Rightarrow> (nat \<Rightarrow> 'k::linorder option) \<Rightarrow> nat \<Rightarrow> nat" where
  "best leaves key i =
     (if i = 0 \<or> leaves \<le> i then leaf_value key (i - leaves)
      else winner key (best leaves key (2 * i)) (best leaves key (2 * i + 1)))"
  by pat_completeness auto
termination by (relation "measure (\<lambda>(leaves, key, i). leaves - i)") auto

declare best.simps [simp del]

text \<open>The runs that have a key are numbered below \<open>empty_run\<close>.\<close>

definition live_runs :: "nat \<Rightarrow> (nat \<Rightarrow> 'k option) \<Rightarrow> bool" where
  "live_runs leaves key \<longleftrightarrow> (\<forall>r. key r \<noteq> None \<longrightarrow> r < leaves \<and> r < empty_run)"

definition best_of :: "nat \<Rightarrow> (nat \<Rightarrow> 'k::linorder option) \<Rightarrow> nat \<Rightarrow> nat \<Rightarrow> bool" where
  "best_of leaves key i b \<longleftrightarrow>
     (if b = empty_run then \<forall>r. below i (leaves + r) \<longrightarrow> key r = None
      else below i (leaves + b) \<and> (\<exists>x. key b = Some x \<and> (\<forall>r y. below i (leaves + r) \<longrightarrow> key r = Some y \<longrightarrow> x \<le> y)))"

lemma best_correct:
  assumes "live_runs leaves key"
  shows "0 < i \<Longrightarrow> i < 2 * leaves \<Longrightarrow> best_of leaves key i (best leaves key i)"
proof (induction "leaves - i" arbitrary: i rule: less_induct)
  case less
  show ?case
  proof (cases "leaves \<le> i")
    case True
    then obtain r where r: "i = leaves + r" using le_Suc_ex by blast
    have "leaves + r' = i" if "below i (leaves + r')" "key r' \<noteq> None" for r'
    proof -
      have "r' < leaves" using assms that(2) by (simp add: live_runs_def)
      then have "(leaves + r') div 2 < leaves" by linarith
      with True have "\<not> below i ((leaves + r') div 2)" using below_le by fastforce
      with that(1) show ?thesis by (simp add: below_step [of i "leaves + r'"])
    qed
    then have only: "r' = r" if "below i (leaves + r')" "key r' \<noteq> None" for r' using that r by simp
    have "best leaves key i = leaf_value key r" using r less.prems by (simp add: best.simps [of leaves key "leaves + r"])
    moreover have "r \<noteq> empty_run" if "key r \<noteq> None" using assms that by (auto simp: live_runs_def)
    moreover have "key r' = None \<or> r' = r" if "below i (leaves + r')" for r' using only [OF that] by blast
    ultimately show ?thesis
      using r by (cases "key r") (fastforce simp: best_of_def leaf_value_def)+
  next
    case False
    let ?l = "best leaves key (2 * i)" and ?r = "best leaves key (2 * i + 1)"
    have lr: "best_of leaves key (2 * i) ?l" "best_of leaves key (2 * i + 1) ?r"
      using less.hyps [of "2 * i"] less.hyps [of "2 * i + 1"] less.prems False by simp_all
    have sub: "below i (leaves + r) \<longleftrightarrow> below (2 * i) (leaves + r) \<or> below (2 * i + 1) (leaves + r)" for r
      using below_children [of i "leaves + r"] False by auto
    have b: "best leaves key i = winner key ?l ?r"
      using False less.prems by (simp add: best.simps [of leaves key i])
    show ?thesis using lr unfolding b winner_def best_of_def sub
      by (auto split: if_splits) fastforce+
  qed
qed

lemma best_update:
  assumes "live_runs leaves key" "live_runs leaves key'" and same: "\<forall>r. r \<noteq> run \<longrightarrow> key' r = key r"
  shows "0 < i \<Longrightarrow> i < 2 * leaves \<Longrightarrow> \<not> below i (leaves + run) \<Longrightarrow> best leaves key' i = best leaves key i"
proof (induction "leaves - i" arbitrary: i rule: less_induct)
  case less
  show ?case
  proof (cases "leaves \<le> i")
    case True
    then have "i - leaves \<noteq> run" using less.prems(3) by auto
    then have "key' (i - leaves) = key (i - leaves)" using same by blast
    then show ?thesis using True by (simp add: best.simps [of leaves _ i] leaf_value_def)
  next
    case False
    have out: "\<not> below (2 * i) (leaves + run)" "\<not> below (2 * i + 1) (leaves + run)"
      using less.prems(3) below_children by blast+
    then have eq: "best leaves key' (2 * i) = best leaves key (2 * i)" "best leaves key' (2 * i + 1) = best leaves key (2 * i + 1)"
      using less.hyps [of "2 * i"] less.hyps [of "2 * i + 1"] less.prems(1,2) False by simp_all
    have "best leaves key c \<noteq> run" if "c = 2 * i \<or> c = 2 * i + 1" "best leaves key c \<noteq> empty_run" for c
    proof -
      have "best_of leaves key c (best leaves key c)"
        using that(1) less.prems(1) False by (intro best_correct [OF assms(1)]) auto
      with that(2) have "below c (leaves + best leaves key c)" by (simp add: best_of_def)
      with out that(1) show ?thesis by auto
    qed
    then have "winner key' (best leaves key (2 * i)) (best leaves key (2 * i + 1))
        = winner key (best leaves key (2 * i)) (best leaves key (2 * i + 1))"
      using same by (auto simp: winner_def)
    then show ?thesis using False less.prems(1) eq
      by (simp add: best.simps [of leaves key i] best.simps [of leaves key' i])
  qed
qed

lemma best_node: "0 < i \<Longrightarrow> i < leaves \<Longrightarrow>
    best leaves key i = winner key (best leaves key (2 * i)) (best leaves key (2 * i + 1))"
  by (simp add: best.simps [of leaves key i])

lemma best_leaf: "0 < leaves \<Longrightarrow> best leaves key (leaves + r) = leaf_value key r"
  by (simp add: best.simps [of leaves key "leaves + r"])

text \<open>The root holds a run with the smallest key of all.\<close>

lemma best_root:
  assumes "live_runs leaves key" "leaves = 2 ^ h"
  shows "if best leaves key 1 = empty_run then \<forall>r. key r = None
    else \<exists>x. key (best leaves key 1) = Some x \<and> (\<forall>r y. key r = Some y \<longrightarrow> x \<le> y)"
proof -
  have "best_of leaves key 1 (best leaves key 1)"
  proof (rule best_correct [OF assms(1)])
    have "(1 :: nat) \<le> 2 ^ h" by simp
    with assms(2) show "1 < 2 * leaves" by linarith
  qed simp
  moreover have "below 1 (leaves + r)" if "key r \<noteq> None" for r
    using that assms(1) below_root [OF assms(2), of r] by (simp add: live_runs_def)
  ultimately show ?thesis by (fastforce simp: best_of_def split: if_splits)
qed

end
