(* ===== verification/Sort_Batch.thy ===== *)
theory Sort_Batch imports Sort_Session Sort_Blocks Sort_Inverse_Map "HOL-Library.Product_Lexorder" begin

text \<open>
  Sorting a batch.  Records are named by their rank: \<open>D p\<close> is the descriptor of the record with rank
  \<open>p\<close>, so that a batch is \<open>map D\<close> of a list of numbers, comparing two records compares two numbers, and
  what the merge sort must produce is the sorted list of the numbers.  The locale \<open>sort_ranks\<close> says what
  the stages need of the descriptors.
\<close>

section \<open>Operations on a session\<close>

lemma attains_eq: "m sw = m' sw \<Longrightarrow> attains E m' sw Q \<Longrightarrow> attains E m sw Q"
  by (simp add: attains_def)

lemma attains_modify_session [wp_simps]: "attains E (modify_session f) ((se, budget), w) Q = Q () ((f se, budget), w)"
  by (simp add: modify_session_def wp_simps)

lemma attains_spend [wp_simps]: "attains E (spend n) ((se, budget), w) Q = Q () ((se, budget - n), w)"
  by (simp add: spend_def wp_simps)

lemma attains_on_sort_shared [wp_simps]:
  "attains E (on_sort_shared m) ((se, budget), w) Q =
     attains E m (se_shared se, w) (\<lambda>a (sh, w'). Q a ((se\<lparr>se_shared := sh\<rparr>, budget), w'))"
  by (simp add: on_sort_shared_def wp_simps case_prod_unfold)

lemma attains_on_file [wp_simps]:
  "attains E (on_file get put m) ((se, budget), w) Q =
     (case get se of
        None \<Rightarrow> E InvalidScratch
      | Some f \<Rightarrow> attains E m ((f, se_shared se), w)
                    (\<lambda>a ((f', sh), w'). Q a ((put f' (se\<lparr>se_shared := sh\<rparr>), budget), w')))"
  by (simp add: on_file_def wp_simps case_prod_unfold split: option.split)

section \<open>Records by rank\<close>

locale sort_ranks = sort_world env data base world_ok dk
  for env :: "'w environment" and data base world_ok and dk :: "'w sort_disk" +
  fixes cfg :: sort_config
    and D :: "nat \<Rightarrow> descriptor"
    and okay :: "nat \<Rightarrow> bool"
  assumes fits: "okay p \<Longrightarrow> descriptor_fits (D p)"
    and decides: "okay p \<Longrightarrow> okay q \<Longrightarrow> order_decide (D p) (D q) (sg_request cfg) = Some r \<Longrightarrow> r = ord_cmp p q"
    and undecided: "okay p \<Longrightarrow> okay q \<Longrightarrow>
      pending_comparison data (comparison_new (D p) (D q) (sg_request cfg) (format_quote (sg_format cfg))) (ord_cmp p q)"

text \<open>How much a comparison may still read; more than any when none has begun.\<close>

definition comparison_left :: "bytes \<Rightarrow> sort_session \<Rightarrow> nat" where
  "comparison_left data se =
     (case se_comparison se of None \<Rightarrow> 2 * length data + 1 | Some cm \<Rightarrow> comparison_todo data cm)"

definition compares :: "bytes \<Rightarrow> sort_session \<Rightarrow> nat \<Rightarrow> nat \<Rightarrow> bool" where
  "compares data se p q \<longleftrightarrow> (\<forall>cm. se_comparison se = Some cm \<longrightarrow> pending_comparison data cm (ord_cmp p q))"

lemma comparison_todo_new: "comparison_todo data (comparison_new a b req q) \<le> 2 * length data"
proof -
  have "length (kc_bytes data kc) \<le> length data" for kc by (simp add: kc_bytes_def)
  then have "length (kc_bytes data kc) + length (kc_bytes data kc') \<le> 2 * length data" for kc kc'
    by (metis add_mono mult_2)
  then show ?thesis by (simp add: comparison_todo_def)
qed

definition compared_to :: "bytes \<Rightarrow> nat \<Rightarrow> nat \<Rightarrow> nat \<Rightarrow> sort_session \<Rightarrow> sort_ordering option \<Rightarrow> sort_session \<Rightarrow> bool" where
  "compared_to data p q budget se out se' \<longleftrightarrow>
     (case out of
        Some r \<Rightarrow> r = ord_cmp p q \<and> (\<exists>sh. se' = se\<lparr>se_comparison := None, se_shared := sh\<rparr>)
      | None \<Rightarrow> compares data se' p q \<and> (0 < budget \<longrightarrow> comparison_left data se' < comparison_left data se)
          \<and> (\<exists>cm sh. se' = se\<lparr>se_comparison := Some cm, se_shared := sh\<rparr>))"

context sort_ranks begin

lemma compare_spec:
  assumes ok: "okay p" "okay q" and w: "world_ok w" and cfg: "se_config se = cfg" and c: "compares data se p q"
  shows "attains sort_failure (session_compare env (D p) (D q)) ((se, budget), w)
    (\<lambda>out ((se', budget'), w'). world_ok w' \<and> compared_to data p q budget se out se')"
proof (cases "se_comparison se = None \<and> order_decide (D p) (D q) (sg_request cfg) \<noteq> None")
  case True
  then obtain r where "order_decide (D p) (D q) (sg_request cfg) = Some r" by auto
  then show ?thesis using True w cfg decides [OF ok]
    by (auto simp: session_compare_def wp_simps compared_to_def intro!: exI [of _ "se_shared se"])
next
  case False
  define se1 where "se1 = (if se_comparison se = None
      then se\<lparr>se_shared := with_resources count_key_readers (se_shared se),
              se_comparison := Some (comparison_new (D p) (D q) (sg_request cfg) (session_quote se))\<rparr> else se)"
  have quote: "session_quote se = format_quote (sg_format cfg)" using cfg by (simp add: session_quote_def)
  obtain cm where cm: "se_comparison se1 = Some cm" "pending_comparison data cm (ord_cmp p q)"
    using undecided [OF ok] c quote by (cases "se_comparison se") (auto simp: se1_def compares_def)
  have left: "comparison_todo data cm < comparison_left data se \<or> comparison_todo data cm = comparison_left data se \<and> se1 = se"
    using cm comparison_todo_new [of data "D p" "D q" "sg_request cfg" "session_quote se"]
    by (auto simp: se1_def comparison_left_def split: option.splits if_splits)
  have se1: "se1\<lparr>se_comparison := x\<rparr> = se\<lparr>se_comparison := x, se_shared := se_shared se1\<rparr>" for x
    by (simp add: se1_def)
  have run: "attains X (session_compare env (D p) (D q)) ((se, budget), w) Q
      = attains X (comparison_advance env) ((cm, budget), w)
          (\<lambda>out ((cm', budget'), w'). Q out ((se1\<lparr>se_comparison := (if out = None then Some cm' else None)\<rparr>, budget'), w'))"
    for X Q
  proof -
    have "attains X (session_compare env (D p) (D q)) ((se, budget), w) Q =
        attains X (with_state (\<lambda>(se, _).
             case se_comparison se of
               None \<Rightarrow> fail InvalidScratch
             | Some cm \<Rightarrow>
                 and_then (focus (\<lambda>(_, budget). (cm, budget))
                            (\<lambda>(cm, budget) (se, _). (se\<lparr>se_comparison := Some cm\<rparr>, budget))
                            (comparison_advance env)) (\<lambda>order.
                   and_then (if order = None then give () else modify_session (\<lambda>se. se\<lparr>se_comparison := None\<rparr>))
                     (\<lambda>_. give order)))) ((se1, budget), w) Q"
      using False cfg by (cases "se_comparison se") (auto simp: session_compare_def wp_simps se1_def)
    also have "\<dots> = attains X (comparison_advance env) ((cm, budget), w)
          (\<lambda>out ((cm', budget'), w'). Q out ((se1\<lparr>se_comparison := (if out = None then Some cm' else None)\<rparr>, budget'), w'))"
      using cm by (auto simp: wp_simps case_prod_unfold intro!: arg_cong [where f = "attains X (comparison_advance env) ((cm, budget), w)"])
    finally show ?thesis .
  qed
  show ?thesis
    unfolding run
  proof (rule attains_weaken [OF yields_attains [OF comparison_advance_spec [OF cm(2) w]]], goal_cases)
    case (1 out sw)
    obtain cm' budget' w' where sw: "sw = ((cm', budget'), w')" by (metis surj_pair)
    with 1 have r: "world_ok w'" "comparison_result data (ord_cmp p q) cm budget out cm' budget'" by auto
    show ?case
    proof (cases out)
      case None
      with r(2) have "comparison_todo data cm' + budget = comparison_todo data cm" "pending_comparison data cm' (ord_cmp p q)"
        by (simp_all add: comparison_result_def)
      with None r(1) left show ?thesis
        by (auto simp: sw compared_to_def se1 compares_def comparison_left_def split: option.splits)
    next
      case (Some v)
      with r show ?thesis by (auto simp: sw compared_to_def se1 comparison_result_def)
    qed
  qed
qed

end

section \<open>The state of a batch\<close>

text \<open>A block that is being merged: \<open>out\<close> is what was taken, the rest is still in the two halves.\<close>

definition block_at :: "(nat \<Rightarrow> descriptor) \<Rightarrow> nat list \<Rightarrow> batch_merge \<Rightarrow> descriptor list \<Rightarrow> bool" where
  "block_at D xs bm alt \<longleftrightarrow>
     (let ys = block_sort (bm_width bm) xs; n = length xs in
      bm_middle bm = min (bm_start bm + bm_width bm) n \<and> bm_end bm = min (bm_start bm + 2 * bm_width bm) n
      \<and> bm_start bm \<le> bm_left bm \<and> bm_left bm \<le> bm_middle bm \<and> bm_middle bm \<le> bm_right bm
      \<and> bm_right bm \<le> bm_end bm \<and> bm_start bm \<le> bm_out bm \<and> bm_out bm < bm_end bm
      \<and> bm_out bm - bm_start bm = (bm_left bm - bm_start bm) + (bm_right bm - bm_middle bm)
      \<and> (\<exists>out. segment alt (bm_start bm) (bm_out bm) = map D out
           \<and> out @ sort (segment ys (bm_left bm) (bm_middle bm) @ segment ys (bm_right bm) (bm_end bm))
               = sort (segment ys (bm_start bm) (bm_end bm))))"

definition in_block :: "bytes \<Rightarrow> (nat \<Rightarrow> descriptor) \<Rightarrow> nat list \<Rightarrow> sort_session \<Rightarrow> bool" where
  "in_block data D xs se \<longleftrightarrow> block_at D xs (se_merge se) (se_alternate se)
     \<and> (let bm = se_merge se; ys = block_sort (bm_width bm) xs in
        if bm_left bm < bm_middle bm \<and> bm_right bm < bm_end bm
        then compares data se (ys ! bm_left bm) (ys ! bm_right bm) else se_comparison se = None)"

definition merging_batch :: "bytes \<Rightarrow> (nat \<Rightarrow> descriptor) \<Rightarrow> nat list \<Rightarrow> sort_session \<Rightarrow> bool" where
  "merging_batch data D xs se \<longleftrightarrow>
     (let bm = se_merge se in
      0 < bm_width bm \<and> bm_start bm \<le> length xs \<and> (2 * bm_width bm dvd bm_start bm \<or> bm_start bm = length xs)
      \<and> take (bm_start bm) (se_alternate se) = map D (take (bm_start bm) (block_sort (2 * bm_width bm) xs))
      \<and> (if bm_out bm = bm_end bm then se_comparison se = None \<and> bm_out bm = bm_start bm else in_block data D xs se))"

text \<open>The batch \<open>xs\<close>, sorted in blocks; once it is sorted it is written behind the contents \<open>c\<close> of the run file.\<close>

definition sorting :: "bytes \<Rightarrow> (nat \<Rightarrow> descriptor) \<Rightarrow> bytes \<Rightarrow> nat list \<Rightarrow> sort_session \<Rightarrow> bool" where
  "sorting data D c xs se \<longleftrightarrow>
     se_phase se = SortingRuns \<and> se_batch se = map D (block_sort (bm_width (se_merge se)) xs)
     \<and> length xs \<le> length (se_alternate se) \<and> 0 < bm_width (se_merge se) \<and> se_write_at se \<le> length xs
     \<and> (\<exists>f. se_run_file se = Some f \<and> writing f (c @ encoded (map D (take (se_write_at se) (sort xs)))))
     \<and> (if bm_width (se_merge se) < length xs then se_write_at se = 0 \<and> merging_batch data D xs se
        else se_comparison se = None)"

definition batch_todo :: "bytes \<Rightarrow> nat list \<Rightarrow> sort_session \<Rightarrow> nat \<times> nat \<times> nat \<times> nat" where
  "batch_todo data xs se =
     (length xs - bm_width (se_merge se), length xs - bm_out (se_merge se), comparison_left data se,
      length xs - se_write_at se)"

text \<open>What sorting a batch does not touch.\<close>

definition same_scan :: "sort_session \<Rightarrow> sort_session \<Rightarrow> bool" where
  "same_scan se se' \<longleftrightarrow> se_snapshot se' = se_snapshot se \<and> se_config se' = se_config se
     \<and> se_scanner se' = se_scanner se \<and> se_scan_buffer se' = se_scan_buffer se \<and> se_scan_pos se' = se_scan_pos se
     \<and> se_scan_count se' = se_scan_count se \<and> se_pending se' = se_pending se \<and> se_records se' = se_records se
     \<and> se_pass_file se' = se_pass_file se \<and> se_run_width se' = se_run_width se \<and> se_pages se' = se_pages se
     \<and> se_tree se' = se_tree se \<and> se_order se' = se_order se \<and> se_inverse se' = se_inverse se
     \<and> se_inverse_at se' = se_inverse_at se \<and> se_inverse_builder se' = se_inverse_builder se
     \<and> length (se_alternate se') = length (se_alternate se)"

lemma same_scan_refl [simp]: "same_scan se se"
  by (simp add: same_scan_def)

context sort_ranks begin

lemma write_sorted_spec:
  assumes w: "world_ok w" and s: "sorting data D c xs se" and n: "length xs \<le> bm_width (se_merge se)"
  shows "attains sort_failure (write_sorted dk) ((se, budget), w)
    (\<lambda>_ ((se', budget'), w'). world_ok w' \<and> same_scan se se' \<and>
       (if se_phase se' = Extracting
        then se_batch se' = [] \<and> se_comparison se' = None
          \<and> (\<exists>f. se_run_file se' = Some f \<and> writing f (c @ encoded (map D (sort xs))))
        else sorting data D c xs se' \<and> se_merge se' = se_merge se \<and> se_comparison se' = se_comparison se
          \<and> se_write_at se' = Suc (se_write_at se) \<and> se_write_at se < length xs))"
proof -
  from s obtain f where f: "se_run_file se = Some f" "writing f (c @ encoded (map D (take (se_write_at se) (sort xs))))"
    by (auto simp: sorting_def)
  have batch: "se_batch se = map D (sort xs)" using s n by (simp add: sorting_def block_sort_sorted)
  show ?thesis
  proof (cases "se_write_at se < length xs")
    case True
    have enc: "encoded (map D (take (Suc (se_write_at se)) (sort xs)))
        = encoded (map D (take (se_write_at se) (sort xs))) @ encode_descriptor (D (sort xs ! se_write_at se))"
      using True by (simp add: take_Suc_conv_app_nth)
    show ?thesis using True
      by (simp add: write_sorted_def wp_simps batch f(1))
         (rule attains_weaken [OF append_spec [OF w f(2)]],
          use s n True enc in \<open>auto simp: sorting_def same_scan_def wp_simps\<close>)
  next
    case False
    with s f have "take (se_write_at se) (sort xs) = sort xs" by simp
    with False f s n w show ?thesis
      by (simp add: write_sorted_def wp_simps batch same_scan_def sorting_def)
  qed
qed

end

lemma half_sorted:
  assumes "0 < w" "w dvd i" "i \<le> length xs"
  shows "sorted (segment (block_sort w xs) i (min (i + w) (length xs)))"
proof -
  from assms(2) obtain k where k: "i = w * k" by (rule dvdE)
  have "min (i + w) (length xs) = min (w * Suc k) (length xs)" by (simp add: k add.commute)
  with block_sort_segment [OF assms(1) assms(3) [unfolded k]] show ?thesis by (simp add: k)
qed

text \<open>The two halves of a block are sorted, and sorting the whole block gives the block of the next pass.\<close>

lemma block_halves:
  assumes w: "0 < w" and st: "2 * w dvd st" "st \<le> length xs"
  defines "middle \<equiv> min (st + w) (length xs)" and "stop \<equiv> min (st + 2 * w) (length xs)"
  shows "sorted (segment (block_sort w xs) st middle)" "sorted (segment (block_sort w xs) middle stop)"
    "segment (block_sort (2 * w) xs) st stop = sort (segment (block_sort w xs) st stop)"
proof -
  have dvd: "w dvd st" using st(1) by (metis dvd_mult_right)
  show "sorted (segment (block_sort w xs) st middle)" unfolding middle_def by (rule half_sorted [OF w dvd st(2)])
  show "sorted (segment (block_sort w xs) middle stop)"
  proof (cases "st + w \<le> length xs")
    case True
    then have "middle = st + w" "stop = min (middle + w) (length xs)" by (simp_all add: middle_def stop_def)
    moreover have "w dvd st + w" using dvd by simp
    ultimately show ?thesis using half_sorted [OF w _ True] by simp
  next
    case False
    then show ?thesis by (simp add: middle_def stop_def)
  qed
  obtain k where k: "st = 2 * w * k" using st(1) by (rule dvdE)
  have "stop = min (2 * w * Suc k) (length xs)" by (simp add: stop_def k add.commute)
  then have "segment (block_sort (2 * w) xs) st stop = sort (segment xs st stop)"
    using block_sort_segment [of "2 * w" k xs] w st(2) by (simp add: k)
  also have "\<dots> = sort (segment (block_sort w xs) st stop)"
  proof (rule sort_mset_eq [symmetric], rule mset_block_segment [OF w dvd])
    show "st \<le> stop" "stop \<le> length xs" using st(2) by (simp_all add: stop_def)
    have "w dvd st + 2 * w" using dvd by simp
    then show "w dvd stop \<or> stop = length xs" by (auto simp: stop_def min_def)
  qed
  finally show "segment (block_sort (2 * w) xs) st stop = sort (segment (block_sort w xs) st stop)" .
qed

definition may_take :: "nat list \<Rightarrow> batch_merge \<Rightarrow> bool \<Rightarrow> bool" where
  "may_take ys bm left \<longleftrightarrow>
     (if left then bm_left bm < bm_middle bm \<and> (bm_right bm = bm_end bm \<or> ys ! bm_left bm \<le> ys ! bm_right bm)
      else bm_right bm < bm_end bm \<and> (bm_left bm = bm_middle bm \<or> ys ! bm_right bm \<le> ys ! bm_left bm))"

lemma take_step:
  fixes se :: sort_session and xs :: "nat list"
  defines "bm \<equiv> se_merge se"
  defines "w \<equiv> bm_width bm"
  defines "ys \<equiv> block_sort w xs"
  assumes s: "sorting data D c xs se" and more: "w < length xs" and blk: "in_block data D xs se" and none: "se_comparison se = None"
    and may: "may_take ys bm left"
  shows "yields (take_element left) ((se, budget), w')
    (\<lambda>_ ((se', budget'), w''). w'' = w' \<and> same_scan se se' \<and> sorting data D c xs se' \<and> se_phase se' = SortingRuns
       \<and> bm_width (se_merge se') = w \<and> bm_out (se_merge se') = Suc (bm_out bm) \<and> bm_out bm < length xs)"
proof -
  let ?n = "length xs" and ?st = "bm_start bm" and ?l = "bm_left bm" and ?m = "bm_middle bm" and ?r = "bm_right bm"
    and ?e = "bm_end bm" and ?o = "bm_out bm"
  have mb: "0 < w" "?st \<le> ?n" "2 * w dvd ?st \<or> ?st = ?n"
    "take ?st (se_alternate se) = map D (take ?st (block_sort (2 * w) xs))"
    using s more by (auto simp: sorting_def merging_batch_def bm_def w_def Let_def)
  have me: "?m = min (?st + w) ?n" "?e = min (?st + 2 * w) ?n" "?st \<le> ?l" "?l \<le> ?m" "?m \<le> ?r" "?r \<le> ?e" "?st \<le> ?o" "?o < ?e"
    "?o - ?st = (?l - ?st) + (?r - ?m)"
    using blk by (auto simp: in_block_def block_at_def bm_def w_def Let_def)
  obtain out where out: "segment (se_alternate se) ?st ?o = map D out"
    "out @ sort (segment ys ?l ?m @ segment ys ?r ?e) = sort (segment ys ?st ?e)"
    using blk by (auto simp: in_block_def block_at_def bm_def w_def ys_def Let_def)
  have dvd: "2 * w dvd ?st" using mb(3) me(2,7,8) by auto
  note halves = block_halves [OF mb(1) dvd mb(2), folded me(1,2) ys_def]
  have len: "length ys = ?n" "?m \<le> ?n" "?e \<le> ?n" "?n \<le> length (se_alternate se)"
    using s me by (simp_all add: ys_def sorting_def)
  define i where "i = (if left then ?l else ?r)"
  define l' where "l' = (if left then Suc ?l else ?l)"
  define r' where "r' = (if left then ?r else Suc ?r)"
  have i: "i < ?n" "i < length (se_batch se)" "se_batch se ! i = D (ys ! i)"
    using may me len s by (auto simp: may_take_def i_def sorting_def ys_def w_def bm_def split: if_splits)
  have A: "sorted (segment ys ?l ?m)" "sorted (segment ys ?r ?e)"
    using sorted_segment [OF halves(1) me(3)] sorted_segment [OF halves(2) me(5)] by simp_all
  have step: "sort (segment ys ?l ?m @ segment ys ?r ?e) = ys ! i # sort (segment ys l' ?m @ segment ys r' ?e)"
  proof (cases left)
    case True
    with may have l: "?l < ?m" "?r = ?e \<or> ys ! ?l \<le> ys ! ?r" by (simp_all add: may_take_def)
    have a: "segment ys ?l ?m = ys ! ?l # segment ys (Suc ?l) ?m" using l(1) len by (intro segment_Cons) simp_all
    have "segment ys ?r ?e = [] \<or> ys ! ?l \<le> hd (segment ys ?r ?e)"
    proof (cases "?r = ?e")
      case False
      then have "segment ys ?r ?e = ys ! ?r # segment ys (Suc ?r) ?e" using me(6) len by (intro segment_Cons) simp_all
      with l(2) False show ?thesis by simp
    qed simp
    from sort_take_left [OF _ A(2) this] A(1) show ?thesis by (simp add: True a i_def l'_def r'_def)
  next
    case False
    with may have r: "?r < ?e" "?l = ?m \<or> ys ! ?r \<le> ys ! ?l" by (simp_all add: may_take_def)
    have b: "segment ys ?r ?e = ys ! ?r # segment ys (Suc ?r) ?e" using r(1) len by (intro segment_Cons) simp_all
    have "segment ys ?l ?m = [] \<or> ys ! ?r \<le> hd (segment ys ?l ?m)"
    proof (cases "?l = ?m")
      case False
      then have "segment ys ?l ?m = ys ! ?l # segment ys (Suc ?l) ?m" using me(4) len by (intro segment_Cons) simp_all
      with r(2) False show ?thesis by simp
    qed simp
    from sort_take_right [OF A(1) _ this] A(2) show ?thesis by (simp add: False b i_def l'_def r'_def)
  qed
  have alt: "segment ((se_alternate se)[?o := D (ys ! i)]) ?st (Suc ?o) = map D (out @ [ys ! i])"
    using segment_update_out [OF me(7), of "se_alternate se"] me(8) len out(1) by simp
  define bm' where "bm' = (if left then bm\<lparr>bm_left := ?l + 1\<rparr> else bm\<lparr>bm_right := ?r + 1\<rparr>)\<lparr>bm_out := ?o + 1\<rparr>"
  define bm2 where "bm2 = (if bm_out bm' = bm_end bm' then bm'\<lparr>bm_start := bm_end bm'\<rparr> else bm')"
  define se' where "se' = se\<lparr>se_alternate := (se_alternate se)[?o := D (ys ! i)], se_merge := bm2\<rparr>"
  have bm': "bm_width bm' = w" "bm_middle bm' = ?m" "bm_end bm' = ?e" "bm_start bm' = ?st" "bm_left bm' = l'" "bm_right bm' = r'"
    "bm_out bm' = Suc ?o" by (simp_all add: bm'_def w_def l'_def r'_def)
  have sizes: "?st \<le> l'" "l' \<le> ?m" "?m \<le> r'" "r' \<le> ?e" "Suc ?o - ?st = (l' - ?st) + (r' - ?m)"
    using me may by (auto simp: l'_def r'_def may_take_def split: if_splits)
  have rest: "(out @ [ys ! i]) @ sort (segment ys l' ?m @ segment ys r' ?e) = sort (segment ys ?st ?e)"
    using out(2) step by simp
  have "merging_batch data D xs se'"
  proof (cases "Suc ?o = ?e")
    case True
    then have "l' = ?m" "r' = ?e" using sizes me(3-6) by linarith+
    with rest have fin: "out @ [ys ! i] = sort (segment ys ?st ?e)" by simp
    have "take ?e ((se_alternate se)[?o := D (ys ! i)]) = take ?st (se_alternate se) @ map D (out @ [ys ! i])"
      using take_segment [of ?st "Suc ?o" "(se_alternate se)[?o := D (ys ! i)]"] me(7) True alt by simp
    also have "\<dots> = map D (take ?st (block_sort (2 * w) xs) @ segment (block_sort (2 * w) xs) ?st ?e)"
      by (simp only: fin halves(3) mb(4) map_append)
    also have "\<dots> = map D (take ?e (block_sort (2 * w) xs))"
      using take_segment [of ?st ?e "block_sort (2 * w) xs"] me by simp
    finally have tk: "take ?e ((se_alternate se)[?o := D (ys ! i)]) = map D (take ?e (block_sort (2 * w) xs))" .
    have "2 * w dvd ?st + 2 * w" using dvd by (rule dvd_add) simp
    then have "2 * w dvd ?e \<or> ?e = ?n" using me(2) by (auto simp: min_def)
    then show ?thesis using True mb(1) len(3) tk none
      by (simp add: merging_batch_def se'_def bm2_def bm')
  next
    case False
    then have "Suc ?o < ?e" using me(8) by simp
    have sel: "se_merge se' = bm'" "se_alternate se' = (se_alternate se)[?o := D (ys ! i)]" "se_comparison se' = None"
      using False none by (simp_all add: se'_def bm2_def bm')
    have "compares data se' p q" for p q by (simp add: compares_def sel)
    moreover have "?st \<le> Suc ?o" using me(7) by simp
    ultimately have "in_block data D xs se'"
      unfolding in_block_def block_at_def Let_def sel bm' ys_def [symmetric]
      using me(1,2) sizes rest alt \<open>Suc ?o < ?e\<close>
      by (intro conjI exI [of _ "out @ [ys ! i]"]) (simp_all only: if_cancel if_split, simp_all)
    then show ?thesis using False mb dvd me(7)
      by (simp add: merging_batch_def se'_def bm2_def bm' Let_def)
  qed
  moreover have "bm_width bm2 = w" "bm_out bm2 = Suc ?o" by (simp_all add: bm2_def bm')
  ultimately have "sorting data D c xs se'" "same_scan se se'" using s more none
    by (auto simp: sorting_def se'_def same_scan_def w_def bm_def)
  moreover have "yields (take_element left) ((se, budget), w') Q = Q () ((se', budget - 128), w')" for Q
    using i(2,3) me(8) len(3,4)
    by (cases left) (simp_all add: take_element_def wp_simps Let_def bm_def [symmetric] modify_session_def spend_def i_def
          se'_def bm2_def bm'_def)
  ultimately show ?thesis using me(8) len(3) s \<open>bm_width bm2 = w\<close> \<open>bm_out bm2 = Suc ?o\<close>
    by (simp add: sorting_def se'_def)
qed

lemma next_width_step:
  fixes se :: sort_session and xs :: "nat list"
  defines "bm \<equiv> se_merge se"
  assumes s: "sorting data D c xs se" and more: "bm_width bm < length xs" and fin: "length xs \<le> bm_start bm"
    and n: "length xs \<le> u64_max"
  shows "yields next_width ((se, budget), w')
    (\<lambda>_ ((se', budget'), w''). w'' = w' \<and> same_scan se se' \<and> sorting data D c xs se'
       \<and> bm_width bm < bm_width (se_merge se'))"
proof -
  let ?w = "bm_width bm" and ?n = "length xs"
  let ?w' = "saturating_mul ?w 2"
  have mb: "0 < ?w" "bm_start bm = ?n" "take ?n (se_alternate se) = map D (block_sort (2 * ?w) xs)"
    using s more fin by (auto simp: sorting_def merging_batch_def bm_def Let_def)
  have none: "se_comparison se = None"
    using s more fin mb(2) by (auto simp: sorting_def merging_batch_def in_block_def block_at_def bm_def Let_def split: if_splits)
  have w': "block_sort ?w' xs = block_sort (2 * ?w) xs" "?w < ?w'" "0 < ?w'"
    using mb(1) more n by (auto simp: saturating_mul_def block_sort_sorted min_def not_le mult.commute [of _ 2])
  define se' where "se' = se\<lparr>se_batch := map D (block_sort (2 * ?w) xs),
     se_merge := bm\<lparr>bm_width := ?w', bm_start := 0, bm_end := 0, bm_out := 0\<rparr>\<rparr>"
  have len: "length (se_batch se) = ?n" "?n \<le> length (se_alternate se)" using s by (simp_all add: sorting_def)
  have "yields next_width ((se, budget), w') Q = Q () ((se', budget - saturating_mul ?n 128), w')" for Q
    using len mb(3) by (simp add: next_width_def wp_simps Let_def modify_session_def spend_def se'_def bm_def)
  moreover have "merging_batch data D xs se'"
    using w' none by (simp add: merging_batch_def se'_def)
  then have "sorting data D c xs se'" using s more w' none len
    by (auto simp: sorting_def se'_def bm_def)
  moreover have "same_scan se se'" by (simp add: same_scan_def se'_def)
  ultimately show ?thesis using w' by (simp add: se'_def)
qed

lemma next_block_step:
  fixes se :: sort_session and xs :: "nat list"
  defines "bm \<equiv> se_merge se"
  assumes s: "sorting data D c xs se" and more: "bm_width bm < length xs" and start: "bm_start bm < length xs"
    and n: "length xs \<le> u64_max"
  shows "yields (if bm_out bm = bm_end bm then next_block else give ()) ((se, budget), w')
    (\<lambda>_ ((se', budget'), w''). w'' = w' \<and> budget' = budget \<and> same_scan se se' \<and> sorting data D c xs se' \<and> in_block data D xs se'
       \<and> bm_width (se_merge se') = bm_width bm \<and> bm_out (se_merge se') = bm_out bm \<and> se_comparison se' = se_comparison se
       \<and> se_write_at se' = se_write_at se)"
proof (cases "bm_out bm = bm_end bm")
  case False
  with s more show ?thesis
    by (auto simp add: wp_simps same_scan_def sorting_def merging_batch_def Let_def bm_def)
next
  case True
  let ?w = "bm_width bm" and ?n = "length xs" and ?st = "bm_start bm"
  let ?ys = "block_sort ?w xs"
  have mb: "0 < ?w" "bm_out bm = ?st" "2 * ?w dvd ?st" "se_comparison se = None"
    using s more start True by (auto simp: sorting_def merging_batch_def bm_def Let_def)
  define m where "m = min (?st + ?w) ?n"
  define e where "e = min (?st + 2 * ?w) ?n"
  have m: "min (saturating_add ?st ?w) ?n = m" "min (saturating_add m ?w) ?n = e"
    using n by (auto simp: saturating_add_def m_def e_def min_def)
  have me: "?st \<le> m" "m \<le> e" "?st < e" "e \<le> ?n" using mb(1) start by (auto simp: m_def e_def)
  define bm2 where "bm2 = bm\<lparr>bm_left := ?st, bm_right := m, bm_middle := m, bm_end := e, bm_out := ?st\<rparr>"
  define se' where "se' = se\<lparr>se_merge := bm2\<rparr>"
  have bm2: "bm_left bm2 = ?st" "bm_right bm2 = m" "bm_middle bm2 = m" "bm_end bm2 = e" "bm_out bm2 = ?st"
    "bm_start bm2 = ?st" "bm_width bm2 = ?w" by (simp_all add: bm2_def)
  have sel: "se_merge se' = bm2" "se_alternate se' = se_alternate se" "se_comparison se' = None"
    using mb(4) by (simp_all add: se'_def)
  have len: "length (se_batch se) = ?n" using s by (simp add: sorting_def)
  have run: "yields next_block ((se, budget), w') Q = Q () ((se', budget), w')" for Q
    by (simp add: next_block_def modify_merge_def wp_simps Let_def modify_session_def len bm_def [symmetric] m se'_def bm2_def)
  have "compares data se' p q" for p q by (simp add: compares_def sel)
  moreover have "segment ?ys ?st m @ segment ?ys m e = segment ?ys ?st e" by (rule segment_split [OF me(1,2)])
  ultimately have blk: "in_block data D xs se'"
    unfolding in_block_def block_at_def Let_def sel bm2
    using me m_def e_def by (intro conjI exI [of _ "[]"]) (simp_all only: if_cancel if_split, simp_all)
  have "merging_batch data D xs se'"
    using s more blk me mb(1) start by (simp add: sorting_def merging_batch_def Let_def sel bm2 bm_def [symmetric] mb(3))
  then have "sorting data D c xs se'" using s more by (auto simp add: sorting_def se'_def bm2 bm_def [symmetric])
  with blk True mb(2,4) show ?thesis by (simp add: run same_scan_def se'_def bm2)
qed

context sort_ranks begin

lemma choose_left_spec:
  assumes w: "world_ok w" and cfg: "se_config se = cfg" and ok: "\<forall>p \<in> set xs. okay p"
    and s: "sorting data D c xs se" and more: "bm_width (se_merge se) < length xs" and blk: "in_block data D xs se"
  shows "attains sort_failure (choose_left env) ((se, budget), w)
    (\<lambda>choice ((se', budget'), w'). world_ok w' \<and> (\<exists>cm sh. se' = se\<lparr>se_comparison := cm, se_shared := sh\<rparr>)
       \<and> (case choice of
            Some left \<Rightarrow> may_take (block_sort (bm_width (se_merge se)) xs) (se_merge se) left \<and> se_comparison se' = None
          | None \<Rightarrow> in_block data D xs se' \<and> (0 < budget \<longrightarrow> comparison_left data se' < comparison_left data se)))"
proof -
  define bm where "bm = se_merge se"
  define ys where "ys = block_sort (bm_width bm) xs"
  have me: "bm_left bm \<le> bm_middle bm" "bm_middle bm \<le> bm_right bm" "bm_right bm \<le> bm_end bm" "bm_end bm \<le> length xs"
    "bm_out bm < bm_end bm" "bm_out bm - bm_start bm = (bm_left bm - bm_start bm) + (bm_right bm - bm_middle bm)"
    "bm_start bm \<le> bm_left bm" "bm_start bm \<le> bm_out bm"
    and cmp: "if bm_left bm < bm_middle bm \<and> bm_right bm < bm_end bm
         then compares data se (ys ! bm_left bm) (ys ! bm_right bm) else se_comparison se = None"
    using blk by (auto simp: in_block_def block_at_def Let_def bm_def ys_def)
  have same: "\<exists>cm sh. se = se\<lparr>se_comparison := cm, se_shared := sh\<rparr>"
    by (rule exI [of _ "se_comparison se"], rule exI [of _ "se_shared se"]) simp
  consider (right) "bm_left bm = bm_middle bm" | (left) "bm_left bm < bm_middle bm" "bm_right bm = bm_end bm"
    | (both) "bm_left bm < bm_middle bm" "bm_right bm < bm_end bm" using me by linarith
  then show ?thesis
  proof cases
    case right
    have r: "bm_right bm < bm_end bm"
    proof (rule ccontr)
      assume "\<not> bm_right bm < bm_end bm"
      then have "bm_right bm = bm_end bm" using me(3) by simp
      with right me(5-8) me(1,2) show False by linarith
    qed
    with right cmp w same show ?thesis
      by (simp add: choose_left_def wp_simps Let_def bm_def [symmetric] may_take_def)
  next
    case left
    with cmp w same show ?thesis
      by (simp add: choose_left_def wp_simps Let_def bm_def [symmetric] may_take_def)
  next
    case both
    then have idx: "bm_left bm < length xs" "bm_right bm < length xs" using me by simp_all
    have batch: "se_batch se = map D ys" "length ys = length xs" using s by (simp_all add: sorting_def ys_def bm_def)
    have oks: "okay (ys ! bm_left bm)" "okay (ys ! bm_right bm)"
      using ok idx nth_mem [of _ ys] batch(2) by (auto simp: ys_def)
    from both cmp have "compares data se (ys ! bm_left bm) (ys ! bm_right bm)" by simp
    note cs = compare_spec [OF oks w cfg this, of budget]
    have run: "attains X (choose_left env) ((se, budget), w) Q
        = attains X (session_compare env (D (ys ! bm_left bm)) (D (ys ! bm_right bm))) ((se, budget), w)
            (\<lambda>order. Q (map_option (\<lambda>o'. o' \<noteq> OrdGreater) order))" for X Q
      using both idx batch by (simp add: choose_left_def wp_simps Let_def bm_def [symmetric])
    show ?thesis unfolding run
    proof (rule attains_weaken [OF cs], goal_cases)
      case (1 out sw)
      obtain se' budget' w' where sw: "sw = ((se', budget'), w')" by (metis surj_pair)
      with 1 have r: "world_ok w'" "compared_to data (ys ! bm_left bm) (ys ! bm_right bm) budget se out se'" by auto
      show ?case
      proof (cases out)
        case None
        with r(2) obtain cm sh where se': "se' = se\<lparr>se_comparison := Some cm, se_shared := sh\<rparr>"
          and c': "compares data se' (ys ! bm_left bm) (ys ! bm_right bm)"
            "0 < budget \<longrightarrow> comparison_left data se' < comparison_left data se" by (auto simp: compared_to_def)
        have "in_block data D xs se'"
          using blk both c'(1) by (simp add: in_block_def se' Let_def bm_def [symmetric] ys_def [symmetric])
        with None r(1) c'(2) se' show ?thesis by (auto simp: sw)
      next
        case (Some v)
        with r(2) have v: "v = ord_cmp (ys ! bm_left bm) (ys ! bm_right bm)"
          and se': "\<exists>sh. se' = se\<lparr>se_comparison := None, se_shared := sh\<rparr>" by (auto simp: compared_to_def)
        have "may_take ys bm (v \<noteq> OrdGreater)" using both by (auto simp: v may_take_def)
        with Some r(1) se' show ?thesis by (auto simp: sw bm_def ys_def)
      qed
    qed
  qed
qed

end

end
