(* ===== verification/Sort_Batch_Step.thy ===== *)
theory Sort_Batch_Step imports Sort_Batch begin

text \<open>
  One step of sorting a batch: it keeps the state of the batch and comes closer to the end, or the
  batch is written.
\<close>

lemma same_scan_trans: "same_scan se se' \<Longrightarrow> same_scan se' se'' \<Longrightarrow> same_scan se se''"
  by (simp add: same_scan_def)

context sort_ranks begin

lemma sort_batch_spec:
  assumes w: "world_ok w" and cfg: "se_config se = cfg" and ok: "\<forall>p \<in> set xs. okay p" and n: "length xs \<le> u64_max"
    and s: "sorting data D c xs se" and budget: "0 < budget"
  shows "attains sort_failure (sort_batch env dk) ((se, budget), w)
    (\<lambda>_ ((se', budget'), w'). world_ok w' \<and> same_scan se se' \<and>
       (if se_phase se' = Extracting
        then se_batch se' = [] \<and> se_comparison se' = None
          \<and> (\<exists>f. se_run_file se' = Some f \<and> writing f (c @ encoded (map D (sort xs))))
        else sorting data D c xs se' \<and> batch_todo data xs se' < batch_todo data xs se))"
proof -
  define bm where "bm = se_merge se"
  have len: "length (se_batch se) = length xs" using s by (simp add: sorting_def)
  consider (written) "length xs \<le> bm_width bm" | (pass) "bm_width bm < length xs" "length xs \<le> bm_start bm"
    | (merge) "bm_width bm < length xs" "bm_start bm < length xs" by linarith
  then show ?thesis
  proof cases
    case written
    then have run: "sort_batch env dk ((se, budget), w) = write_sorted dk ((se, budget), w)"
      by (simp add: sort_batch_def with_state_def Let_def len bm_def)
    show ?thesis
      by (rule attains_eq, rule run, rule attains_weaken [OF write_sorted_spec [OF w s written [unfolded bm_def], of budget]])
         (auto simp: batch_todo_def comparison_left_def bm_def split: if_splits)
  next
    case pass
    then have run: "sort_batch env dk ((se, budget), w) = next_width ((se, budget), w)"
      by (simp add: sort_batch_def with_state_def Let_def len bm_def)
    have "attains sort_failure next_width ((se, budget), w) (\<lambda>_ ((se', budget'), w''). w'' = w \<and> same_scan se se' \<and> sorting data D c xs se'
       \<and> bm_width bm < bm_width (se_merge se'))"
      using yields_attains [OF next_width_step [OF s pass [unfolded bm_def] n, of budget w]] by (simp add: bm_def)
    then have "attains sort_failure next_width ((se, budget), w)
      (\<lambda>_ ((se', budget'), w'). world_ok w' \<and> same_scan se se' \<and>
       (if se_phase se' = Extracting
        then se_batch se' = [] \<and> se_comparison se' = None
          \<and> (\<exists>f. se_run_file se' = Some f \<and> writing f (c @ encoded (map D (sort xs))))
        else sorting data D c xs se' \<and> batch_todo data xs se' < batch_todo data xs se))"
      by (rule attains_weaken) (use w pass in \<open>auto simp: batch_todo_def sorting_def bm_def\<close>)
    then show ?thesis by (rule attains_eq [rotated], intro run)
  next
    case merge
    let ?go = "and_then (choose_left env) (\<lambda>choice. case choice of None \<Rightarrow> give () | Some left \<Rightarrow> take_element left)"
    have run: "attains X (sort_batch env dk) ((se, budget), w) Q
        = attains X (if bm_out bm = bm_end bm then next_block else give ()) ((se, budget), w)
            (\<lambda>_ sw. attains X ?go sw Q)" for X Q
      using merge by (simp add: sort_batch_def wp_simps Let_def len bm_def [symmetric])
    show ?thesis unfolding run
    proof (rule attains_weaken [OF yields_attains [OF next_block_step [OF s merge [unfolded bm_def] n, folded bm_def]]], goal_cases)
      case (1 u sw)
      obtain se1 w1 where sw: "sw = ((se1, budget), w1)" and 1: "w1 = w" "same_scan se se1" "sorting data D c xs se1"
        "in_block data D xs se1" "bm_width (se_merge se1) = bm_width bm" "bm_out (se_merge se1) = bm_out bm"
        "se_comparison se1 = se_comparison se" "se_write_at se1 = se_write_at se"
        using 1 by auto
      have cfg1: "se_config se1 = cfg" using 1(2) cfg by (simp add: same_scan_def)
      have more: "bm_width (se_merge se1) < length xs" using merge 1(5) by simp
      show ?case unfolding sw 1(1) attains_and_then
      proof (rule attains_weaken [OF choose_left_spec [OF w cfg1 ok 1(3) more 1(4)]], goal_cases)
        case (1 choice sw)
        obtain se2 budget2 w2 where sw2: "sw = ((se2, budget2), w2)" by (metis surj_pair)
        with 1 obtain cm sh where 2: "world_ok w2" "se2 = se1\<lparr>se_comparison := cm, se_shared := sh\<rparr>"
          and choice: "case choice of
              Some left \<Rightarrow> may_take (block_sort (bm_width (se_merge se1)) xs) (se_merge se1) left \<and> se_comparison se2 = None
            | None \<Rightarrow> in_block data D xs se2 \<and> (0 < budget \<longrightarrow> comparison_left data se2 < comparison_left data se1)"
          by auto
        show ?case
        proof (cases choice)
          case None
          with choice budget have blk: "in_block data D xs se2" "comparison_left data se2 < comparison_left data se1" by simp_all
          have out: "bm_out (se_merge se2) \<noteq> bm_end (se_merge se2)" using blk(1) by (auto simp: in_block_def block_at_def Let_def)
          have "merging_batch data D xs se2"
            using \<open>sorting data D c xs se1\<close> more blk(1) out by (simp add: sorting_def merging_batch_def 2(2) Let_def split: if_splits)
          then have "sorting data D c xs se2" using \<open>sorting data D c xs se1\<close> more by (auto simp: sorting_def 2(2))
          moreover have "batch_todo data xs se2 < batch_todo data xs se"
            using blk(2) \<open>bm_width (se_merge se1) = bm_width bm\<close> \<open>bm_out (se_merge se1) = bm_out bm\<close> \<open>se_comparison se1 = se_comparison se\<close>
            by (simp add: batch_todo_def 2(2) bm_def comparison_left_def)
          ultimately show ?thesis using None 2 \<open>same_scan se se1\<close>
            by (auto simp: sw2 wp_simps same_scan_def sorting_def)
        next
          case (Some left)
          with choice have may: "may_take (block_sort (bm_width (se_merge se1)) xs) (se_merge se1) left" "se_comparison se2 = None"
            by simp_all
          have none: "cm = None" using may(2) 2(2) by simp
          have blk: "in_block data D xs se2"
          proof -
            have "compares data se2 p q" for p q by (simp add: compares_def may(2))
            moreover have "block_at D xs (se_merge se2) (se_alternate se2)"
              using \<open>in_block data D xs se1\<close> by (simp add: in_block_def 2(2))
            ultimately show ?thesis using may(2) by (simp add: in_block_def Let_def)
          qed
          have out: "bm_out (se_merge se2) \<noteq> bm_end (se_merge se2)" using blk by (auto simp: in_block_def block_at_def Let_def)
          have "merging_batch data D xs se2"
            using \<open>sorting data D c xs se1\<close> more blk out by (simp add: sorting_def merging_batch_def 2(2) Let_def split: if_splits)
          then have s2: "sorting data D c xs se2" using \<open>sorting data D c xs se1\<close> more by (auto simp: sorting_def 2(2))
          have may2: "may_take (block_sort (bm_width (se_merge se2)) xs) (se_merge se2) left"
            and more2: "bm_width (se_merge se2) < length xs" using may more by (simp_all add: 2(2))
          note step = take_step [OF s2 more2 blk may(2) may2, of budget2 w2]
          have same2: "same_scan se se2" using \<open>same_scan se se1\<close> by (simp add: same_scan_def 2(2))
          have size: "bm_width (se_merge se2) = bm_width bm" "bm_out (se_merge se2) = bm_out bm"
            using \<open>bm_width (se_merge se1) = bm_width bm\<close> \<open>bm_out (se_merge se1) = bm_out bm\<close> by (simp_all add: 2(2))
          have fin: "world_ok w3 \<and> same_scan se se3 \<and> (if se_phase se3 = Extracting then X else sorting data D c xs se3
              \<and> batch_todo data xs se3 < batch_todo data xs se)"
            if 3: "w3 = w2" "same_scan se2 se3" "sorting data D c xs se3" "se_phase se3 = SortingRuns"
              "bm_width (se_merge se3) = bm_width (se_merge se2)" "bm_out (se_merge se3) = Suc (bm_out (se_merge se2))"
              "bm_out (se_merge se2) < length xs" for se3 w3 X
          proof -
            have "length xs - bm_out (se_merge se3) < length xs - bm_out bm" using 3(6,7) size by linarith
            then have "batch_todo data xs se3 < batch_todo data xs se"
              using 3(5) size by (simp add: batch_todo_def bm_def [symmetric])
            with 3 same2 2(1) show ?thesis by (simp add: same_scan_trans [OF same2])
          qed
          show ?thesis unfolding Some sw2 option.case
          proof (rule attains_weaken [OF yields_attains [OF step]], goal_cases)
            case (1 u sw)
            obtain se3 budget3 w3 where "sw = ((se3, budget3), w3)" by (metis surj_pair)
            with 1 fin [of w3 se3] show ?case by simp
          qed
        qed
      qed
    qed
  qed
qed

end

end
