(* ===== verification/Sort_Ranks.thy ===== *)
theory Sort_Ranks imports Sort_Batch begin

text \<open>
  The ranks of a source: its rows in the order of their keys, the descriptor each row is stored as, and
  the interpretation of \<open>sort_ranks\<close> on them.
\<close>

section \<open>Ranks of a strict order\<close>

definition rank_by :: "(nat \<Rightarrow> nat \<Rightarrow> bool) \<Rightarrow> nat \<Rightarrow> nat \<Rightarrow> nat" where
  "rank_by lt n i = length (filter (\<lambda>j. lt j i) [0..<n])"

definition nth_by :: "(nat \<Rightarrow> nat \<Rightarrow> bool) \<Rightarrow> nat \<Rightarrow> nat \<Rightarrow> nat" where
  "nth_by lt n p = hd (filter (\<lambda>i. rank_by lt n i = p) [0..<n] @ [n])"

definition strict_total :: "(nat \<Rightarrow> nat \<Rightarrow> bool) \<Rightarrow> bool" where
  "strict_total lt \<longleftrightarrow> (\<forall>i. \<not> lt i i) \<and> (\<forall>i j k. lt i j \<longrightarrow> lt j k \<longrightarrow> lt i k) \<and> (\<forall>i j. i \<noteq> j \<longrightarrow> lt i j \<or> lt j i)"

lemma rank_by_card: "rank_by lt n i = card {j. j < n \<and> lt j i}"
proof -
  have "rank_by lt n i = card (set (filter (\<lambda>j. lt j i) [0..<n]))"
    unfolding rank_by_def by (rule distinct_card [symmetric]) simp
  also have "set (filter (\<lambda>j. lt j i) [0..<n]) = {j. j < n \<and> lt j i}" by auto
  finally show ?thesis .
qed

lemma rank_by_mono:
  assumes "strict_total lt" "i < n" "lt i j"
  shows "rank_by lt n i < rank_by lt n j"
proof -
  have "{k. k < n \<and> lt k i} \<subset> {k. k < n \<and> lt k j}" using assms unfolding strict_total_def by blast
  then show ?thesis unfolding rank_by_card by (rule psubset_card_mono [rotated]) simp
qed

lemma rank_by_less:
  assumes "strict_total lt" "i < n" shows "rank_by lt n i < n"
proof -
  have "{j. j < n \<and> lt j i} \<subseteq> {..<n} - {i}" using assms(1) unfolding strict_total_def by auto
  then have "card {j. j < n \<and> lt j i} \<le> card ({..<n} - {i})" by (rule card_mono [rotated]) simp
  also have "\<dots> < n" using assms(2) by simp
  finally show ?thesis by (simp add: rank_by_card)
qed

lemma rank_by_order:
  assumes "strict_total lt" "i < n" "j < n"
  shows "rank_by lt n i < rank_by lt n j \<longleftrightarrow> lt i j" "rank_by lt n i = rank_by lt n j \<longleftrightarrow> i = j"
proof -
  have *: "lt i j \<or> i = j \<or> lt j i" using assms(1) unfolding strict_total_def by blast
  then show "rank_by lt n i < rank_by lt n j \<longleftrightarrow> lt i j" "rank_by lt n i = rank_by lt n j \<longleftrightarrow> i = j"
    using rank_by_mono [OF assms(1), of i n j] rank_by_mono [OF assms(1), of j n i] assms(2,3) by auto
qed

lemma rank_by_bij:
  assumes "strict_total lt" shows "bij_betw (rank_by lt n) {..<n} {..<n}"
proof -
  have inj: "inj_on (rank_by lt n) {..<n}" using rank_by_order(2) [OF assms] by (auto intro: inj_onI)
  moreover have "rank_by lt n ` {..<n} = {..<n}"
    using endo_inj_surj [OF _ _ inj] rank_by_less [OF assms] by auto
  ultimately show ?thesis by (simp add: bij_betw_def)
qed

lemma nth_by_rank:
  assumes "strict_total lt" "p < n"
  shows "nth_by lt n p < n" "rank_by lt n (nth_by lt n p) = p"
proof -
  have "p \<in> rank_by lt n ` {..<n}" using rank_by_bij [OF assms(1), of n] assms(2) by (simp add: bij_betw_def)
  then obtain i where i: "i < n" "rank_by lt n i = p" by auto
  then have ne: "filter (\<lambda>i. rank_by lt n i = p) [0..<n] \<noteq> []" by (auto simp: filter_empty_conv)
  then have "nth_by lt n p \<in> set (filter (\<lambda>i. rank_by lt n i = p) [0..<n])"
    unfolding nth_by_def by (cases "filter (\<lambda>i. rank_by lt n i = p) [0..<n]") auto
  then show "nth_by lt n p < n" "rank_by lt n (nth_by lt n p) = p" by auto
qed

lemma rank_nth_by: "strict_total lt \<Longrightarrow> i < n \<Longrightarrow> nth_by lt n (rank_by lt n i) = i"
  using nth_by_rank [of lt "rank_by lt n i" n] rank_by_less rank_by_order(2) by metis

section \<open>The rows of a source\<close>

abbreviation source_rows :: "sort_config \<Rightarrow> bytes \<Rightarrow> record_span list" where
  "source_rows cfg data \<equiv> format_records (sg_format cfg) 0 data"

text \<open>The key of a row is the value of its field.\<close>

definition row_key :: "sort_config \<Rightarrow> bytes \<Rightarrow> nat \<Rightarrow> bytes" where
  "row_key cfg data i =
     cf_value (key_field (sg_format cfg) (sr_column (sg_request cfg)) (record_bytes data (source_rows cfg data ! i)))"

definition row_extent :: "sort_config \<Rightarrow> bytes \<Rightarrow> nat \<Rightarrow> descriptor" where
  "row_extent cfg data i =
     (let sp = source_rows cfg data ! i in
      key_extent (descriptor_new i sp) (span_start sp)
        (key_field (sg_format cfg) (sr_column (sg_request cfg)) (record_bytes data sp)))"

definition row_stored :: "sort_config \<Rightarrow> bytes \<Rightarrow> nat \<Rightarrow> sort_error + descriptor" where
  "row_stored cfg data i = stored_key (sr_mode (sg_request cfg)) (row_extent cfg data i) (row_key cfg data i)"

definition row_before :: "sort_config \<Rightarrow> bytes \<Rightarrow> nat \<Rightarrow> nat \<Rightarrow> bool" where
  "row_before cfg data i j \<longleftrightarrow> key_order (sg_request cfg) (i, row_key cfg data i) (j, row_key cfg data j) = OrdLess"

definition row_rank :: "sort_config \<Rightarrow> bytes \<Rightarrow> nat \<Rightarrow> nat" where
  "row_rank cfg data = rank_by (row_before cfg data) (length (source_rows cfg data))"

definition ranked_row :: "sort_config \<Rightarrow> bytes \<Rightarrow> nat \<Rightarrow> nat" where
  "ranked_row cfg data = nth_by (row_before cfg data) (length (source_rows cfg data))"

definition ranked_descriptor :: "sort_config \<Rightarrow> bytes \<Rightarrow> nat \<Rightarrow> descriptor" where
  "ranked_descriptor cfg data p =
     (case row_stored cfg data (ranked_row cfg data p) of Inr d \<Rightarrow> d | Inl _ \<Rightarrow> row_extent cfg data (ranked_row cfg data p))"

text \<open>A rank whose key is in range, of a source and a format the sort takes.\<close>

definition ranked_okay :: "sort_config \<Rightarrow> bytes \<Rightarrow> nat \<Rightarrow> bool" where
  "ranked_okay cfg data p \<longleftrightarrow> valid_format (sg_format cfg) \<and> length data \<le> u64_max \<and> p < length (source_rows cfg data)
     \<and> (\<exists>d. row_stored cfg data (ranked_row cfg data p) = Inr d)"

lemma ord_reverse_Less [simp]: "ord_reverse OrdLess = OrdGreater" "ord_reverse OrdGreater = OrdLess"
  by simp_all

lemma row_before_total: "strict_total (row_before cfg data)"
proof -
  let ?o = "\<lambda>i j. key_order (sg_request cfg) (i, row_key cfg data i) (j, row_key cfg data j)"
  have rev: "?o j i = ord_reverse (?o i j)" for i j by (metis total_comparator_rev key_order_total)
  have tr: "?o i j = OrdLess \<Longrightarrow> ?o j k = OrdLess \<Longrightarrow> ?o i k = OrdLess" for i j k
    using total_comparator_trans [OF key_order_total, of "sg_request cfg" "(i, row_key cfg data i)" "(j, row_key cfg data j)"
        "(k, row_key cfg data k)"] by simp
  have eq: "i \<noteq> j \<Longrightarrow> ?o i j \<noteq> OrdEqual" for i j using key_order_rows by fastforce
  have irr: "?o i i \<noteq> OrdLess" for i using rev [of i i] by auto
  have tot: "?o i j = OrdLess \<or> ?o j i = OrdLess" if "i \<noteq> j" for i j
    using eq [OF that] eq [OF that [symmetric]] rev [of i j] by (cases "?o i j"; cases "?o j i") simp_all
  show ?thesis
    unfolding strict_total_def row_before_def using irr tr tot by blast
qed

lemma row_rank_less: "i < length (source_rows cfg data) \<Longrightarrow> row_rank cfg data i < length (source_rows cfg data)"
  unfolding row_rank_def by (rule rank_by_less [OF row_before_total])

lemma row_rank_order:
  assumes "i < length (source_rows cfg data)" "j < length (source_rows cfg data)"
  shows "row_rank cfg data i < row_rank cfg data j \<longleftrightarrow> row_before cfg data i j" "row_rank cfg data i = row_rank cfg data j \<longleftrightarrow> i = j"
  unfolding row_rank_def by (rule rank_by_order [OF row_before_total assms])+

lemma ranked_row_rank:
  assumes "p < length (source_rows cfg data)"
  shows "ranked_row cfg data p < length (source_rows cfg data)" "row_rank cfg data (ranked_row cfg data p) = p"
  unfolding row_rank_def ranked_row_def by (rule nth_by_rank [OF row_before_total assms])+

lemma row_rank_row: "i < length (source_rows cfg data) \<Longrightarrow> ranked_row cfg data (row_rank cfg data i) = i"
  unfolding row_rank_def ranked_row_def by (rule rank_nth_by [OF row_before_total])

lemma rank_order:
  assumes "p < length (source_rows cfg data)" "q < length (source_rows cfg data)"
  defines "i \<equiv> ranked_row cfg data p" and "j \<equiv> ranked_row cfg data q"
  shows "key_order (sg_request cfg) (i, row_key cfg data i) (j, row_key cfg data j) = ord_cmp p q"
proof -
  note i = ranked_row_rank [OF assms(1)] and j = ranked_row_rank [OF assms(2)]
  have less: "row_before cfg data i j \<longleftrightarrow> p < q" "row_before cfg data j i \<longleftrightarrow> q < p"
    using row_rank_order(1) [OF i(1) j(1)] row_rank_order(1) [OF j(1) i(1)] i(2) j(2) by (simp_all add: i_def j_def)
  have "key_order (sg_request cfg) (j, row_key cfg data j) (i, row_key cfg data i)
      = ord_reverse (key_order (sg_request cfg) (i, row_key cfg data i) (j, row_key cfg data j))"
    by (metis total_comparator_rev key_order_total)
  then show ?thesis
    using less by (cases "key_order (sg_request cfg) (i, row_key cfg data i) (j, row_key cfg data j)")
      (auto simp: row_before_def ord_cmp_def)
qed

section \<open>Stored rows\<close>

lemma source_row_valid:
  assumes "i < length (source_rows cfg data)"
  shows "span_start (source_rows cfg data ! i) \<le> span_end (source_rows cfg data ! i)"
    "span_end (source_rows cfg data ! i) \<le> length data"
  using format_records_valid [OF nth_mem [OF assms]] by simp_all

lemma row_stored_holds:
  assumes "valid_format (sg_format cfg)" "i < length (source_rows cfg data)" "row_stored cfg data i = Inr d"
  shows "holds_key data (format_quote (sg_format cfg)) (sr_mode (sg_request cfg)) d (row_key cfg data i)"
    "ds_row d = i" "ds_start d = span_start (source_rows cfg data ! i)" "ds_end d = span_end (source_rows cfg data ! i)"
proof -
  note k = key_located [where row = i and target = "sr_column (sg_request cfg)",
      OF assms(1) source_row_valid [OF assms(2)]]
  note s = stored_holds_key [OF k(8,9,3,4,12) assms(3) [unfolded row_stored_def row_extent_def row_key_def Let_def]]
  show "holds_key data (format_quote (sg_format cfg)) (sr_mode (sg_request cfg)) d (row_key cfg data i)"
    "ds_row d = i" "ds_start d = span_start (source_rows cfg data ! i)" "ds_end d = span_end (source_rows cfg data ! i)"
    using s k(5-7) by (simp_all add: row_key_def)
qed

lemma mantissa_digits_length: "length (mantissa_digits v) \<le> length v"
proof -
  have "length (mantissa_digits v) \<le> length (takeWhile (\<lambda>b. \<not> is_exponent_mark b) v)"
    by (simp add: mantissa_digits_def)
  then show ?thesis using length_takeWhile_le order_trans by blast
qed

text \<open>The fields of a number that is stored.\<close>

definition number_fits :: "descriptor \<Rightarrow> bool" where
  "number_fits d \<longleftrightarrow> ds_group d \<le> 2 \<and> -1 \<le> ds_sign d \<and> ds_sign d \<le> 1
     \<and> - (2 ^ 127) \<le> ds_magnitude d \<and> ds_magnitude d < 2 ^ 127 \<and> ds_leading d \<le> u64_max \<and> ds_digits d \<le> u64_max"

lemma finish_fits:
  assumes len: "length v \<le> u64_max" and d: "number_fits d" and fin: "number_finish (fold number_push v number_default) d = Inr d'"
  shows "number_fits d'"
proof (cases "decimal_parse v")
  case None
  with number_scan [of v] have "rejected (fold number_push v number_default)" by simp
  from fin [unfolded finish_rejected [OF this]] d show ?thesis by (auto simp: number_fits_def)
next
  case (Some dc)
  with number_scan [of v] have "scanned dc (fold number_push v number_default)" by simp
  from fin [unfolded finish_scanned [OF this]] have e: "decimal_nat (dc_exponent dc) \<le> i64_max"
    and d': "d' = d\<lparr>ds_group := 0, ds_leading := leading_zeros (dc_digits dc), ds_digits := length (dc_digits dc),
            ds_sign := dc_sign dc, ds_magnitude := dc_magnitude dc\<rparr>"
    by (auto split: if_splits)
  have n: "length (dc_digits dc) \<le> u64_max"
    using mantissa_digits_length [of v] len parsed_digits(1) [OF Some] by simp
  have z: "leading_zeros (dc_digits dc) \<le> u64_max" using leading_zeros_le [of "dc_digits dc"] n by simp
  have i: "length (dc_integer dc) \<le> u64_max" using n by (simp add: dc_digits_def)
  have m: "\<bar>dc_magnitude dc\<bar> \<le> int u64_max + int u64_max + int i64_max"
    using e z i by (auto simp: dc_magnitude_def signed_def)
  then have "- (2 ^ 127) \<le> dc_magnitude dc" "dc_magnitude dc < 2 ^ 127" by simp_all
  with n z show ?thesis by (simp add: number_fits_def d' dc_sign_def)
qed

lemma row_stored_fits:
  assumes fmt: "valid_format (sg_format cfg)" and size: "length data \<le> u64_max"
    and i: "i < length (source_rows cfg data)" and d: "row_stored cfg data i = Inr d"
  shows "descriptor_fits d"
proof -
  let ?sp = "source_rows cfg data ! i" and ?D = "row_extent cfg data i" and ?v = "row_key cfg data i"
  note k = key_located [where row = i and target = "sr_column (sg_request cfg)", OF fmt source_row_valid [OF i]]
  have D: "ds_len ?D = 0" "length (ds_prefix ?D) = 32" using k(8,9) by (simp_all add: row_extent_def Let_def)
  note st = stored_key_stores [OF D d [unfolded row_stored_def]]
  have pre: "stores_prefix d ?v" using st(1) by (simp add: stores_key_def)
  have ext: "ds_key_start d = ds_key_start ?D" "ds_key_end d = ds_key_end ?D"
    by (subst st(2), simp)+
  note h = row_stored_holds [OF fmt i d]
  have vlen: "length ?v \<le> u64_max"
  proof -
    have "length (cursor_values kc bs) \<le> length bs" for kc bs
      by (induction kc bs rule: cursor_values.induct) (auto split: prod.splits option.splits intro: le_SucI)
    then have "length ?v \<le> ds_key_end d - ds_key_start d" using h(1) unfolding holds_key_def
      by (metis length_take min.bounded_iff order_trans)
    moreover have "ds_key_end d \<le> length data" using h(1) by (simp add: holds_key_def)
    ultimately show ?thesis using size by linarith
  qed
  have "number_fits ?D" by (simp add: number_fits_def row_extent_def Let_def key_extent_def descriptor_new_def)
  moreover have "ds_group (fold push_prefix ?v ?D) = ds_group ?D" "ds_sign (fold push_prefix ?v ?D) = ds_sign ?D"
    "ds_magnitude (fold push_prefix ?v ?D) = ds_magnitude ?D" "ds_leading (fold push_prefix ?v ?D) = ds_leading ?D"
    "ds_digits (fold push_prefix ?v ?D) = ds_digits ?D" by (subst push_prefix_other, simp)+
  ultimately have nf: "number_fits (fold push_prefix ?v ?D)" by (simp only: number_fits_def)
  have "number_fits d"
  proof (cases "sr_mode (sg_request cfg) = SortNumeric")
    case True
    then show ?thesis using finish_fits [OF vlen nf] d by (simp add: row_stored_def stored_key_def Let_def)
  next
    case False
    then show ?thesis using nf d by (simp add: row_stored_def stored_key_def Let_def)
  qed
  moreover have "i \<le> u64_max" using i format_records_length [of "sg_format cfg" 0 data] size by linarith
  moreover have "ds_start d \<le> ds_key_start d" "ds_key_start d \<le> ds_key_end d" "ds_key_end d \<le> ds_end d" "ds_end d \<le> u64_max"
    using k(3,10,11) source_row_valid [OF i] size by (simp_all add: ext h(3,4) row_extent_def Let_def)
  ultimately show ?thesis
    using pre vlen h(2) by (auto simp: descriptor_fits_def number_fits_def stores_prefix_def)
qed

lemma ranked_stored:
  assumes "ranked_okay cfg data p"
  defines "i \<equiv> ranked_row cfg data p"
  shows "i < length (source_rows cfg data)" "row_stored cfg data i = Inr (ranked_descriptor cfg data p)"
    "ds_row (ranked_descriptor cfg data p) = i"
    "holds_key data (format_quote (sg_format cfg)) (sr_mode (sg_request cfg)) (ranked_descriptor cfg data p) (row_key cfg data i)"
proof -
  from assms(1) obtain d where p: "p < length (source_rows cfg data)" and fmt: "valid_format (sg_format cfg)"
    and d: "row_stored cfg data i = Inr d" by (auto simp: ranked_okay_def i_def)
  show i: "i < length (source_rows cfg data)" using ranked_row_rank(1) [OF p] by (simp add: i_def)
  have e: "ranked_descriptor cfg data p = d" using d by (simp add: ranked_descriptor_def i_def)
  show "row_stored cfg data i = Inr (ranked_descriptor cfg data p)" "ds_row (ranked_descriptor cfg data p) = i"
    "holds_key data (format_quote (sg_format cfg)) (sr_mode (sg_request cfg)) (ranked_descriptor cfg data p) (row_key cfg data i)"
    using row_stored_holds [OF fmt i d] d by (simp_all add: e)
qed

section \<open>The interpretation\<close>

lemma ranked_sort:
  assumes "sort_world env data base world_ok dk"
  shows "sort_ranks env data base world_ok dk cfg (ranked_descriptor cfg data) (ranked_okay cfg data)"
proof (intro sort_ranks.intro assms sort_ranks_axioms.intro)
  fix p assume p: "ranked_okay cfg data p"
  show "descriptor_fits (ranked_descriptor cfg data p)"
    using row_stored_fits [OF _ _ ranked_stored(1,2) [OF p]] p by (simp add: ranked_okay_def)
next
  fix p q r assume p: "ranked_okay cfg data p" and q: "ranked_okay cfg data q"
  note hp = ranked_stored [OF p] and hq = ranked_stored [OF q]
  have o: "key_order (sg_request cfg) (ds_row (ranked_descriptor cfg data p), row_key cfg data (ranked_row cfg data p))
      (ds_row (ranked_descriptor cfg data q), row_key cfg data (ranked_row cfg data q)) = ord_cmp p q"
    unfolding hp(3) hq(3) using p q by (intro rank_order) (simp_all add: ranked_okay_def)
  show "order_decide (ranked_descriptor cfg data p) (ranked_descriptor cfg data q) (sg_request cfg) = Some r \<Longrightarrow> r = ord_cmp p q"
    using order_decide_correct hp(4) hq(4) o unfolding holds_key_def by metis
  show "pending_comparison data (comparison_new (ranked_descriptor cfg data p) (ranked_descriptor cfg data q) (sg_request cfg)
        (format_quote (sg_format cfg))) (ord_cmp p q)"
    unfolding o [symmetric] by (rule comparison_new_pending [OF hp(4) hq(4)])
qed

interpretation ready_ranks: sort_ranks "file_environment (Suc k) data" data "file_fingerprint data" "\<lambda>w. True" ready_disk
    cfg "ranked_descriptor cfg data" "ranked_okay cfg data" for k data cfg
  by (rule ranked_sort) (rule ready_world.sort_world_axioms)

end
