(* ===== verification/Sort_Scanning.thy ===== *)
theory Sort_Scanning imports Sort_Ranks begin

text \<open>
  Scanning records for the sort: the scanner stops at every record, reads go through a buffer, and the
  records it reports are those of the source in order.
\<close>

section \<open>One call of the scanner\<close>

lemma take_span_simps [simp]: "take_span s sp = (Some sp, Stop)"
  by (simp add: take_span_def)

lemma emit_all_take: "emit_all take_span s es = Some s' \<Longrightarrow> es = [] \<and> s' = s"
  by (cases es) simp_all

lemma emit_stopped_take: "emit_stopped take_span s es s' \<Longrightarrow> \<exists>r. es = [r] \<and> s' = Some r"
  unfolding emit_stopped_def using emit_all_take by fastforce

lemma sort_scanner_feed_spec:
  assumes "scanner_ok sc" "boundary_scanner_offset sc + length chunk \<le> u64_max"
    and "sort_scanner_feed sc chunk = (sc', out, res)"
  shows "\<exists>n st. res = Ok \<lparr>consumed = n, scan_status = st\<rparr> \<and> n \<le> length chunk \<and> scanner_ok sc'
    \<and> boundary_scanner_offset sc' = boundary_scanner_offset sc + n
    \<and> (\<forall>tl. scanner_rest sc (chunk @ tl) = (case out of None \<Rightarrow> [] | Some r \<Rightarrow> [r]) @ scanner_rest sc' (drop n chunk @ tl))
    \<and> (out = None \<longrightarrow> n = length chunk)"
proof (cases sc)
  case (DelimitedScanner c)
  with assms(3) obtain c' where sc': "sc' = DelimitedScanner c'" and
    f: "feed_loop (csv_step take_span) None 0 c None chunk = (c', out, res)"
    by (auto simp: csv_feed_def csv_feed_inner_def split: prod.splits)
  from csv_scan.feed_loop_spec [OF _ _ f] assms(1,2) DelimitedScanner obtain n st es where
    r: "res = Ok \<lparr>consumed = n, scan_status = st\<rparr>" "n \<le> length chunk" "csv_invar c'"
    "csv_offset c' = csv_offset c + n"
    "\<forall>tl. csv_rest c (chunk @ tl) = es @ csv_rest c' (drop n chunk @ tl)"
    "st = ScanComplete \<longrightarrow> n = length chunk"
    "st \<noteq> ScanStopped \<longrightarrow> emit_all take_span None es = Some out"
    "st = ScanStopped \<longrightarrow> emit_stopped take_span None es out" "st \<noteq> ScanCancelled"
    by (auto simp: cancel_due_def)
  have "es = (case out of None \<Rightarrow> [] | Some r \<Rightarrow> [r]) \<and> (out = None \<longrightarrow> st \<noteq> ScanStopped)"
    using r(7,8) emit_all_take emit_stopped_take by (cases "st = ScanStopped") fastforce+
  with r show ?thesis unfolding sc' DelimitedScanner
    by (intro exI [of _ n] exI [of _ st]) (cases st; auto)
next
  case (LineScanner c)
  with assms(3) obtain c' where sc': "sc' = LineScanner c'" and
    f: "feed_loop (line_step take_span) None 0 c None chunk = (c', out, res)"
    by (auto simp: line_feed_def line_feed_inner_def split: prod.splits)
  from line_scan.feed_loop_spec [OF _ _ f] assms(1,2) LineScanner obtain n st es where
    r: "res = Ok \<lparr>consumed = n, scan_status = st\<rparr>" "n \<le> length chunk" "line_invar c'"
    "line_offset c' = line_offset c + n"
    "\<forall>tl. line_rest c (chunk @ tl) = es @ line_rest c' (drop n chunk @ tl)"
    "st = ScanComplete \<longrightarrow> n = length chunk"
    "st \<noteq> ScanStopped \<longrightarrow> emit_all take_span None es = Some out"
    "st = ScanStopped \<longrightarrow> emit_stopped take_span None es out" "st \<noteq> ScanCancelled"
    by (auto simp: cancel_due_def)
  have "es = (case out of None \<Rightarrow> [] | Some r \<Rightarrow> [r]) \<and> (out = None \<longrightarrow> st \<noteq> ScanStopped)"
    using r(7,8) emit_all_take emit_stopped_take by (cases "st = ScanStopped") fastforce+
  with r show ?thesis unfolding sc' LineScanner
    by (intro exI [of _ n] exI [of _ st]) (cases st; auto)
qed

section \<open>The scanner of a session\<close>

definition scan_at :: "sort_config \<Rightarrow> bytes \<Rightarrow> nat \<Rightarrow> sort_session \<Rightarrow> bool" where
  "scan_at cfg data t se \<longleftrightarrow> t \<le> length (source_rows cfg data) \<and> 0 < length (se_scan_buffer se) \<and>
     (case se_scanner se of
        None \<Rightarrow> t = length (source_rows cfg data)
      | Some sc \<Rightarrow>
          (let off = boundary_scanner_offset sc; unread = se_scan_count se - se_scan_pos se in
           scanner_ok sc \<and> off + unread \<le> length data \<and> scanner_rest sc (drop off data) = drop t (source_rows cfg data)
           \<and> se_scan_pos se \<le> se_scan_count se \<and> se_scan_count se \<le> length (se_scan_buffer se)
           \<and> segment (se_scan_buffer se) (se_scan_pos se) (se_scan_count se) = take unread (drop off data)))"

definition scan_left :: "bytes \<Rightarrow> sort_session \<Rightarrow> nat" where
  "scan_left data se = (case se_scanner se of None \<Rightarrow> 0 | Some sc \<Rightarrow> Suc (length data - boundary_scanner_offset sc))"

text \<open>What scanning does not touch.\<close>

definition same_runs :: "sort_session \<Rightarrow> sort_session \<Rightarrow> bool" where
  "same_runs se se' \<longleftrightarrow> se_snapshot se' = se_snapshot se \<and> se_config se' = se_config se \<and> se_phase se' = se_phase se
     \<and> se_pending se' = se_pending se \<and> se_batch se' = se_batch se \<and> se_alternate se' = se_alternate se
     \<and> se_comparison se' = se_comparison se \<and> se_records se' = se_records se \<and> se_run_file se' = se_run_file se
     \<and> se_run_width se' = se_run_width se \<and> se_pages se' = se_pages se \<and> se_tree se' = se_tree se
     \<and> se_inverse_at se' = se_inverse_at se"

lemma same_runs_refl [simp]: "same_runs se se"
  by (simp add: same_runs_def)

lemma same_runs_trans: "same_runs se se' \<Longrightarrow> same_runs se' se'' \<Longrightarrow> same_runs se se''"
  by (simp add: same_runs_def)

lemma scan_at_cong:
  "se_scanner se' = se_scanner se \<Longrightarrow> se_scan_buffer se' = se_scan_buffer se \<Longrightarrow> se_scan_pos se' = se_scan_pos se \<Longrightarrow>
   se_scan_count se' = se_scan_count se \<Longrightarrow> scan_at cfg data t se' = scan_at cfg data t se \<and> scan_left data se' = scan_left data se"
  by (cases "se_scanner se") (simp_all add: scan_at_def scan_left_def Let_def)

definition scan_result :: "sort_config \<Rightarrow> bytes \<Rightarrow> nat \<Rightarrow> sort_session \<Rightarrow> record_span option \<Rightarrow> sort_session \<Rightarrow> bool" where
  "scan_result cfg data t se out se' \<longleftrightarrow> same_runs se se' \<and>
     (case out of
        None \<Rightarrow> scan_at cfg data t se' \<and> scan_left data se' < scan_left data se
      | Some sp \<Rightarrow> t < length (source_rows cfg data) \<and> sp = source_rows cfg data ! t \<and> scan_at cfg data (Suc t) se')"

context sort_world begin

lemma fill_spec:
  assumes w: "world_ok w" and s: "scan_at cfg data t se" and sc: "se_scanner se = Some sc" and empty: "se_scan_pos se = se_scan_count se"
    and more: "boundary_scanner_offset sc \<noteq> length data" and size: "fp_size (se_snapshot se) = length data"
  shows "attains sort_failure (fill_scan_buffer env sc) ((se, budget), w)
    (\<lambda>_ ((se', budget'), w'). world_ok w' \<and> budget' = budget \<and> same_runs se se' \<and> scan_at cfg data t se' \<and> se_scanner se' = Some sc
       \<and> se_scan_pos se' < se_scan_count se')"
proof -
  let ?off = "boundary_scanner_offset sc" and ?buf = "se_scan_buffer se"
  define n where "n = min (length ?buf) (length data - ?off)"
  have off: "?off < length data" and buf: "0 < length ?buf" using s sc more empty by (auto simp: scan_at_def Let_def)
  then have n: "0 < n" "?off + n \<le> length data" "n \<le> length ?buf" by (auto simp: n_def)
  have run: "attains X (fill_scan_buffer env sc) ((se, budget), w) Q
     = attains X (checked_read env ?off n) w
         (\<lambda>bs w'. Q () ((se\<lparr>se_scan_buffer := bs @ drop (length bs) ?buf, se_scan_count := length bs, se_scan_pos := 0\<rparr>, budget), w'))" for X Q
    using off by (simp add: fill_scan_buffer_def wp_simps size checked_sub_def n_def)
  show ?thesis unfolding run
  proof (rule attains_weaken [OF yields_attains [OF checked_read_yields [OF w off n(1,2)]]], goal_cases)
    case (1 bs w')
    have seg: "segment (bs @ drop (length bs) ?buf) 0 (length bs) = bs" by (simp add: segment_def)
    have "?off + length bs \<le> length data" "length bs \<le> length ?buf" using 1 n by linarith+
    then show ?case using 1 s sc unfolding scan_at_def same_runs_def Let_def
      by (simp add: seg)
  qed
qed

lemma session_scan_spec:
  assumes w: "world_ok w" and s: "scan_at cfg data t se" and some: "se_scanner se \<noteq> None" and budget: "0 < budget"
    and size: "fp_size (se_snapshot se) = length data" "length data \<le> u64_max"
  shows "attains sort_failure (session_scan env) ((se, budget), w)
    (\<lambda>out ((se', budget'), w'). world_ok w' \<and> scan_result cfg data t se out se')"
proof -
  let ?rs = "source_rows cfg data"
  obtain sc where sc: "se_scanner se = Some sc" using some by auto
  let ?off = "boundary_scanner_offset sc"
  have inv: "scanner_ok sc" "?off \<le> length data" "scanner_rest sc (drop ?off data) = drop t ?rs" "t \<le> length ?rs"
    using s by (simp_all add: scan_at_def sc Let_def)
  show ?thesis
  proof (cases "?off = length data")
    case True
    from boundary_scanner_finish_spec [OF inv(1), of take_span None] obtain out where
      fin: "boundary_scanner_finish take_span sc None = Some (scanner_diagnostic sc [], out)"
        "scanner_rest sc [] = [] \<and> out = None \<or> (\<exists>r. scanner_rest sc [] = [r] \<and> out = Some r)"
      by auto
    have rest: "scanner_rest sc [] = drop t ?rs" using inv(3) True by simp
    have "scan_result cfg data t se out (se\<lparr>se_scanner := None\<rparr>)"
    proof (cases "drop t ?rs")
      case Nil
      then have "t = length ?rs" using inv(4) by simp
      moreover have "out = None" using fin(2) rest Nil by simp
      ultimately show ?thesis using s by (simp add: scan_result_def scan_at_def same_runs_def scan_left_def sc)
    next
      case (Cons r rs)
      then have o: "out = Some r" "rs = []" using fin(2) rest by auto
      have "t < length ?rs" using Cons by (cases "t < length ?rs") simp_all
      moreover have "r = ?rs ! t" "length ?rs = Suc t"
        using Cons o(2) calculation by (metis Cons_nth_drop_Suc list.inject, metis length_drop One_nat_def length_Cons list.size(3) Suc_diff_Suc diff_is_0_eq le_antisym Suc_leI drop_eq_Nil Cons_nth_drop_Suc list.inject)
      ultimately show ?thesis using s o by (simp add: scan_result_def scan_at_def same_runs_def)
    qed
    then show ?thesis using w True by (simp add: session_scan_def wp_simps sc size fin(1))
  next
    case False
    have "attains sort_failure (if se_scan_pos se = se_scan_count se then fill_scan_buffer env sc else give ()) ((se, budget), w)
      (\<lambda>_ ((se', budget'), w'). world_ok w' \<and> budget' = budget \<and> same_runs se se' \<and> scan_at cfg data t se' \<and> se_scanner se' = Some sc
         \<and> se_scan_pos se' < se_scan_count se')" (is "attains _ ?fill _ _")
    proof (cases "se_scan_pos se = se_scan_count se")
      case True
      then show ?thesis using fill_spec [OF w s sc True False size(1)] by simp
    next
      case other: False
      then show ?thesis using w s sc by (auto simp: wp_simps scan_at_def Let_def)
    qed
    note filled = this
    have run: "attains X (session_scan env) ((se, budget), w) Q
      = attains X ?fill ((se, budget), w) (\<lambda>_ sw. attains X (with_state (\<lambda>(se, budget).
               case checked_sub (se_scan_count se) (se_scan_pos se) of
                 None \<Rightarrow> panic
               | Some unread \<Rightarrow>
                   (let n = min budget unread in
                    case sort_scanner_feed sc (segment (se_scan_buffer se) (se_scan_pos se) (se_scan_pos se + n)) of
                      (sc', sp, r) \<Rightarrow>
                        and_then (modify_session (\<lambda>se. se\<lparr>se_scanner := Some sc'\<rparr>)) (\<lambda>_.
                          case r of
                            Ok p \<Rightarrow>
                              and_then (update_state (\<lambda>(se, budget).
                                (se\<lparr>se_scan_pos := se_scan_pos se + consumed p\<rparr>, budget - consumed p)))
                                (\<lambda>_. give sp)
                          | Err e \<Rightarrow> fail (SortScan e)
                          | Panic \<Rightarrow> panic)))) sw Q)" for X Q
      using False by (simp add: session_scan_def wp_simps sc size)
    show ?thesis unfolding run
    proof (rule attains_weaken [OF filled], goal_cases)
      case (1 u sw)
      obtain se1 w1 where sw: "sw = ((se1, budget), w1)" using 1 by auto
      with 1 have 1: "world_ok w1" "same_runs se se1" "scan_at cfg data t se1" "se_scanner se1 = Some sc"
        "se_scan_pos se1 < se_scan_count se1" by auto
      let ?pos = "se_scan_pos se1" and ?unread = "se_scan_count se1 - se_scan_pos se1" and ?buf = "se_scan_buffer se1"
      define n where "n = min budget ?unread"
      define chunk where "chunk = segment ?buf ?pos (?pos + n)"
      have b: "?off + ?unread \<le> length data" "se_scan_count se1 \<le> length ?buf"
        "segment ?buf ?pos (se_scan_count se1) = take ?unread (drop ?off data)"
        using 1(3) unfolding scan_at_def 1(4) option.case Let_def by blast+
      have n: "0 < n" "n \<le> ?unread" using budget 1(5) by (simp_all add: n_def)
      have chunk: "chunk = take n (drop ?off data)" "length chunk = n"
      proof -
        have "chunk = take n (segment ?buf ?pos (se_scan_count se1))" using n by (simp add: chunk_def segment_def)
        then show "chunk = take n (drop ?off data)" using n b(3) by (simp add: min_def)
        then show "length chunk = n" using b(1) n(2) by simp
      qed
      obtain sc' out res where feed: "sort_scanner_feed sc chunk = (sc', out, res)" by (metis surj_pair)
      have "?off + length chunk \<le> u64_max" using b(1) n(2) size(2) chunk(2) by linarith
      from sort_scanner_feed_spec [OF inv(1) this feed] obtain k st where
        k: "res = Ok \<lparr>consumed = k, scan_status = st\<rparr>" "k \<le> n" "scanner_ok sc'" "boundary_scanner_offset sc' = ?off + k"
          "scanner_rest sc (chunk @ drop n (drop ?off data))
             = (case out of None \<Rightarrow> [] | Some r \<Rightarrow> [r]) @ scanner_rest sc' (drop k chunk @ drop n (drop ?off data))"
          "out = None \<longrightarrow> k = n" using chunk(2) by blast
      have whole: "chunk @ drop n (drop ?off data) = drop ?off data" unfolding chunk(1) by (rule append_take_drop_id)
      have behind: "drop k chunk @ drop n (drop ?off data) = drop (?off + k) data"
        unfolding chunk(1) using k(2) drop_take_drop [of k n "drop ?off data"] by (simp add: add.commute)
      have rest: "drop t ?rs = (case out of None \<Rightarrow> [] | Some r \<Rightarrow> [r]) @ scanner_rest sc' (drop (?off + k) data)"
        using k(5) inv(3) unfolding whole behind by simp
      define se2 where "se2 = se1\<lparr>se_scanner := Some sc', se_scan_pos := ?pos + k\<rparr>"
      have seg: "segment ?buf (?pos + k) (se_scan_count se1) = take (?unread - k) (drop (?off + k) data)"
      proof -
        have "segment ?buf (?pos + k) (se_scan_count se1) = drop k (segment ?buf ?pos (se_scan_count se1))"
          by (simp add: segment_def drop_take add.commute)
        then show ?thesis unfolding b(3) by (simp add: drop_take add.commute)
      qed
      have at: "scan_at cfg data t' se2" if "t' \<le> length ?rs" "scanner_rest sc' (drop (?off + k) data) = drop t' ?rs" for t'
      proof -
        have f2: "se_scanner se2 = Some sc'" "se_scan_count se2 = se_scan_count se1" "se_scan_pos se2 = ?pos + k" "se_scan_buffer se2 = ?buf"
          by (simp_all add: se2_def)
        have "?off + k + (se_scan_count se1 - (?pos + k)) \<le> length data" "?pos + k \<le> se_scan_count se1"
          using b(1) k(2) n(2) 1(5) by linarith+
        moreover have "se_scan_count se1 - (?pos + k) = ?unread - k" by simp
        moreover have "0 < length ?buf" using 1(3) unfolding scan_at_def by blast
        ultimately show ?thesis
          unfolding scan_at_def f2 option.case Let_def k(4) using that k(3) seg b(2) by metis
      qed
      have same: "same_runs se se2" using 1(2) by (simp add: same_runs_def se2_def)
      have "scan_result cfg data t se out se2"
      proof (cases out)
        case None
        then have "scan_left data se2 < scan_left data se"
          using k(4,6) n b(1) sc by (simp add: scan_left_def se2_def)
        then show ?thesis using None same at [of t] rest inv(4) by (simp add: scan_result_def)
      next
        case (Some r)
        then have "drop t ?rs = r # scanner_rest sc' (drop (?off + k) data)" using rest by simp
        moreover from this have "t < length ?rs" by (cases "t < length ?rs") simp_all
        ultimately have "t < length ?rs" "r = ?rs ! t" "scanner_rest sc' (drop (?off + k) data) = drop (Suc t) ?rs"
          by (metis Cons_nth_drop_Suc list.inject)+
        then show ?thesis using Some same at [of "Suc t"] by (simp add: scan_result_def)
      qed
      then show ?case using 1(1,5) feed k(1)
        by (simp add: sw wp_simps checked_sub_def Let_def n_def [symmetric] chunk_def [symmetric] se2_def)
    qed
  qed
qed

end

end
