(* ===== verification/Sort_Merge.thy ===== *)
theory Sort_Merge imports Sort_Batch Winner_Tree begin

text \<open>
  Merging runs.  A run file holds the records in sorted blocks of the run width; a pass merges groups
  of runs through the winner tree and leaves sorted blocks of as many runs.  What was emitted of a
  group, followed by the sorted rest of its runs, is always the sorted group.
\<close>

section \<open>Groups of blocks\<close>

lemma block_merge:
  assumes w: "0 < w" "0 < m" and st: "w * m dvd st" "st \<le> length xs"
  defines "stop \<equiv> min (st + w * m) (length xs)"
  shows "segment (block_sort (w * m) xs) st stop = sort (segment (block_sort w xs) st stop)"
proof -
  obtain k where k: "st = w * m * k" using st(1) by (rule dvdE)
  have dvd: "w dvd st" using st(1) by (metis dvd_mult_left)
  have "stop = min (w * m * Suc k) (length xs)" by (simp add: stop_def k add.commute)
  then have "segment (block_sort (w * m) xs) st stop = sort (segment xs st stop)"
    using block_sort_segment [of "w * m" k xs] w st(2) by (simp add: k)
  also have "\<dots> = sort (segment (block_sort w xs) st stop)"
  proof (rule sort_mset_eq [symmetric], rule mset_block_segment [OF w(1) dvd])
    show "st \<le> stop" "stop \<le> length xs" using st(2) by (simp_all add: stop_def)
    have "w dvd st + w * m" using dvd by simp
    then show "w dvd stop \<or> stop = length xs" by (auto simp: stop_def min_def)
  qed
  finally show ?thesis .
qed

text \<open>Where run \<open>r\<close> of the group at \<open>gs\<close> begins.\<close>

definition run_start :: "nat \<Rightarrow> nat \<Rightarrow> nat \<Rightarrow> nat \<Rightarrow> nat" where
  "run_start n w gs r = min (gs + r * w) n"

lemma run_start_mono: "r \<le> r' \<Longrightarrow> run_start n w gs r \<le> run_start n w gs r'"
proof -
  assume "r \<le> r'"
  then have "r * w \<le> r' * w" by (rule mult_le_mono1)
  then show ?thesis by (simp add: run_start_def min_le_iff_disj)
qed

lemma run_start_le [simp]: "run_start n w gs r \<le> n"
  by (simp add: run_start_def)

lemma run_start_Suc: "min (run_start n w gs r + w) n = run_start n w gs (Suc r)"
  by (simp add: run_start_def min_def)

lemma run_start_0 [simp]: "gs \<le> n \<Longrightarrow> run_start n w gs 0 = gs"
  by (simp add: run_start_def)

lemma run_sorted:
  assumes "0 < w" "w dvd gs" "gs \<le> length xs" "run_start (length xs) w gs r \<le> i"
  shows "sorted (segment (block_sort w xs) i (run_start (length xs) w gs (Suc r)))"
proof -
  have "sorted (segment (block_sort w xs) (run_start (length xs) w gs r) (run_start (length xs) w gs (Suc r)))"
  proof (cases "gs + r * w \<le> length xs")
    case True
    then have eq: "run_start (length xs) w gs r = gs + r * w" by (simp add: run_start_def)
    have "w dvd gs + r * w" using assms(2) by simp
    from half_sorted [OF assms(1) this True] show ?thesis unfolding eq run_start_Suc [symmetric] .
  next
    case False
    then show ?thesis by (simp add: run_start_def)
  qed
  then show ?thesis using assms(4) by (rule sorted_segment)
qed

lemma runs_concat:
  "gs \<le> length ys \<Longrightarrow> concat (map (\<lambda>r. segment ys (run_start (length ys) w gs r) (run_start (length ys) w gs (Suc r))) [0..<m])
     = segment ys gs (run_start (length ys) w gs m)"
proof (induction m)
  case (Suc m)
  then show ?case
    using segment_split [of gs "run_start (length ys) w gs m" "run_start (length ys) w gs (Suc m)" ys]
      run_start_mono [of m "Suc m"] run_start_mono [of 0 m "length ys" w gs] by simp
qed simp

lemma mset_concat_take:
  assumes "r < m" "f r = x # f' r" "\<forall>i. i \<noteq> r \<longrightarrow> f' i = f i"
  shows "mset (concat (map f [0..<m])) = add_mset x (mset (concat (map f' [0..<m])))"
proof -
  have split: "[0..<m] = [0..<r] @ r # [Suc r..<m]"
    using assms(1) by (metis less_imp_add_positive upt_add_eq_append upt_conv_Cons zero_le less_add_same_cancel1)
  have "map f [0..<r] = map f' [0..<r]" "map f [Suc r..<m] = map f' [Suc r..<m]"
    using assms(3) by simp_all
  then show ?thesis by (simp add: split assms(2) del: map_eq_conv)
qed

lemma sort_pick_min:
  assumes "mset xs = add_mset x (mset ys)" "\<forall>y \<in> set ys. x \<le> y"
  shows "sort xs = x # sort (ys :: 'a::linorder list)"
proof -
  have "sort xs = sort (x # ys)" by (rule sort_mset_eq) (simp add: assms(1))
  also have "\<dots> = x # sort ys" using assms(2) by (simp add: insort_is_Cons)
  finally show ?thesis .
qed

section \<open>The state of a merge\<close>

definition run_key :: "nat list \<Rightarrow> nat \<Rightarrow> winner_tree \<Rightarrow> nat \<Rightarrow> nat option" where
  "run_key runs m wt r = (if r < m \<and> wt_next wt ! r < wt_end wt ! r then Some (runs ! (wt_next wt ! r)) else None)"

definition tree_ok :: "sort_config \<Rightarrow> nat \<Rightarrow> winner_tree \<Rightarrow> bool" where
  "tree_ok cfg m wt \<longleftrightarrow> (\<exists>h. wt_leaves wt = 2 ^ Suc h) \<and> 0 < m \<and> m \<le> sg_merge_fan_in cfg \<and> sg_merge_fan_in cfg \<le> wt_leaves wt
     \<and> sg_merge_fan_in cfg \<le> empty_run \<and> length (wt_nodes wt) = 2 * wt_leaves wt
     \<and> length (wt_heads wt) = sg_merge_fan_in cfg \<and> length (wt_next wt) = sg_merge_fan_in cfg
     \<and> length (wt_end wt) = sg_merge_fan_in cfg"

text \<open>The runs of a group, and what was emitted of it.\<close>

definition group_at :: "(nat \<Rightarrow> descriptor) \<Rightarrow> nat list \<Rightarrow> nat \<Rightarrow> nat \<Rightarrow> nat \<Rightarrow> nat list \<Rightarrow> winner_tree \<Rightarrow> bool" where
  "group_at D xs w m gs out wt \<longleftrightarrow>
     (let n = length xs; runs = block_sort w xs in
      gs < n \<and> w * m dvd gs \<and> wt_group_end wt = run_start n w gs m
      \<and> (\<forall>r < m. wt_end wt ! r = run_start n w gs (Suc r) \<and> run_start n w gs r \<le> wt_next wt ! r
           \<and> wt_next wt ! r \<le> wt_end wt ! r \<and> wt_heads wt ! r = map_option D (run_key runs m wt r))
      \<and> out @ sort (concat (map (\<lambda>r. segment runs (wt_next wt ! r) (wt_end wt ! r)) [0..<m]))
          = sort (segment runs gs (run_start n w gs m)))"

definition node_correct :: "nat list \<Rightarrow> nat \<Rightarrow> winner_tree \<Rightarrow> nat \<Rightarrow> bool" where
  "node_correct runs m wt i \<longleftrightarrow> wt_nodes wt ! i = best (wt_leaves wt) (run_key runs m wt) i"

text \<open>A comparison that has begun is the one of the node that is played.\<close>

definition plays :: "bytes \<Rightarrow> nat list \<Rightarrow> nat \<Rightarrow> sort_session \<Rightarrow> nat \<Rightarrow> bool" where
  "plays data runs m se k \<longleftrightarrow>
     (let wt = se_tree se; a = wt_nodes wt ! (2 * k); b = wt_nodes wt ! (2 * k + 1) in
      se_comparison se \<noteq> None \<longrightarrow> a \<noteq> empty_run \<and> b \<noteq> empty_run
        \<and> compares data se (the (run_key runs m wt a)) (the (run_key runs m wt b)))"

definition tree_at :: "bytes \<Rightarrow> nat list \<Rightarrow> nat \<Rightarrow> sort_session \<Rightarrow> bool" where
  "tree_at data runs m se \<longleftrightarrow>
     (let wt = se_tree se; l = wt_leaves wt in
      case wt_stage wt of
        StageIdle \<Rightarrow> False
      | StageBuild k \<Rightarrow> 0 < k \<and> k < l \<and> (\<forall>i. k < i \<and> i < 2 * l \<longrightarrow> node_correct runs m wt i) \<and> plays data runs m se k
      | StageEmit \<Rightarrow> se_comparison se = None \<and> (\<forall>i. 0 < i \<and> i < 2 * l \<longrightarrow> node_correct runs m wt i)
      | StageReplay k \<Rightarrow> 0 < k \<and> k < l \<and> (\<forall>i. 0 < i \<and> i < 2 * l \<and> \<not> below i k \<longrightarrow> node_correct runs m wt i)
          \<and> plays data runs m se k)"

definition merging :: "bytes \<Rightarrow> (nat \<Rightarrow> descriptor) \<Rightarrow> nat list \<Rightarrow> sort_session \<Rightarrow> bool" where
  "merging data D xs se \<longleftrightarrow>
     (let w = se_run_width se; m = length (se_pages se); runs = block_sort w xs; gs = se_group_start se in
      se_phase se = Merging \<and> se_records se = length xs \<and> 0 < w \<and> w < length xs
      \<and> (m = sg_merge_fan_in (se_config se) \<or> length xs \<le> m * w) \<and> tree_ok (se_config se) m (se_tree se)
      \<and> (\<exists>f. se_run_file se = Some f \<and> stored f (encoded (map D runs)))
      \<and> (\<forall>pg \<in> set (se_pages se). page_holds pg (encoded (map D runs)))
      \<and> (\<exists>out f. se_pass_file se = Some f \<and> writing f (encoded (map D (take gs (block_sort (w * m) xs) @ out)))
           \<and> (if wt_stage (se_tree se) = StageIdle
              then out = [] \<and> se_comparison se = None \<and> gs \<le> length xs \<and> (w * m dvd gs \<or> gs = length xs)
              else group_at D xs w m gs out (se_tree se) \<and> tree_at data runs m se)))"

definition stage_todo :: "winner_tree \<Rightarrow> nat" where
  "stage_todo wt = (case wt_stage wt of StageIdle \<Rightarrow> 2 * wt_leaves wt | StageBuild k \<Rightarrow> k | StageEmit \<Rightarrow> 0 | StageReplay k \<Rightarrow> k)"

definition emitted_bytes :: "sort_session \<Rightarrow> nat" where
  "emitted_bytes se = (case se_pass_file se of None \<Rightarrow> 0 | Some f \<Rightarrow> df_bytes f)"

definition merge_todo :: "bytes \<Rightarrow> nat list \<Rightarrow> sort_session \<Rightarrow> nat \<times> nat \<times> nat \<times> nat \<times> nat" where
  "merge_todo data xs se =
     (length xs - se_run_width se, 128 * length xs - emitted_bytes se, length xs - se_group_start se,
      stage_todo (se_tree se), comparison_left data se)"

text \<open>What merging does not touch.\<close>

definition same_sort :: "sort_session \<Rightarrow> sort_session \<Rightarrow> bool" where
  "same_sort se se' \<longleftrightarrow> se_snapshot se' = se_snapshot se \<and> se_config se' = se_config se \<and> se_records se' = se_records se
     \<and> se_scanner se' = se_scanner se \<and> se_pending se' = se_pending se \<and> se_inverse_at se' = se_inverse_at se
     \<and> se_order se' = se_order se \<and> se_inverse se' = se_inverse se \<and> se_inverse_builder se' = se_inverse_builder se"

lemma same_sort_refl [simp]: "same_sort se se"
  by (simp add: same_sort_def)

lemma same_sort_trans: "same_sort se se' \<Longrightarrow> same_sort se' se'' \<Longrightarrow> same_sort se se''"
  by (simp add: same_sort_def)

lemma run_key_live: "tree_ok cfg m wt \<Longrightarrow> live_runs (wt_leaves wt) (run_key runs m wt)"
  by (auto simp: live_runs_def run_key_def tree_ok_def split: if_splits)

section \<open>Playing a node\<close>

lemma run_key_below: "run_key runs m wt r = Some x \<Longrightarrow> r < m \<and> x = runs ! (wt_next wt ! r) \<and> wt_next wt ! r < wt_end wt ! r"
  by (simp add: run_key_def split: if_splits)

text \<open>What the winners below a node say.\<close>

lemma correct_child:
  assumes t: "tree_ok cfg m wt" and c: "0 < c" "c < 2 * wt_leaves wt" "node_correct runs m wt c" and ne: "wt_nodes wt ! c \<noteq> empty_run"
  shows "\<exists>x. run_key runs m wt (wt_nodes wt ! c) = Some x" "wt_nodes wt ! c < m"
proof -
  have "best_of (wt_leaves wt) (run_key runs m wt) c (wt_nodes wt ! c)"
    using best_correct [OF run_key_live [OF t] c(1,2), of runs] c(3) by (simp add: node_correct_def)
  with ne show "\<exists>x. run_key runs m wt (wt_nodes wt ! c) = Some x" by (auto simp: best_of_def)
  then show "wt_nodes wt ! c < m" using run_key_below by blast
qed

context sort_ranks begin

lemma play_spec:
  fixes se :: sort_session and xs :: "nat list"
  defines "wt \<equiv> se_tree se" and "m \<equiv> length (se_pages se)" and "runs \<equiv> block_sort (se_run_width se) xs"
  assumes w: "world_ok w" and cfg: "se_config se = cfg" and ok: "\<forall>p \<in> set xs. okay p" and t: "tree_ok cfg m wt"
    and k: "0 < k" "k < wt_leaves wt" "node_correct runs m wt (2 * k)" "node_correct runs m wt (2 * k + 1)"
    and p: "plays data runs m se k"
    and heads: "\<forall>r < m. wt_heads wt ! r = map_option D (run_key runs m wt r) \<and> wt_end wt ! r \<le> length xs"
  shows "attains sort_failure (play env k) ((se, budget), w)
    (\<lambda>out ((se', budget'), w'). world_ok w' \<and> (\<exists>cm sh. se' = se\<lparr>se_comparison := cm, se_shared := sh\<rparr>) \<and>
       (case out of
          Some r \<Rightarrow> r = best (wt_leaves wt) (run_key runs m wt) k \<and> se_comparison se' = None
        | None \<Rightarrow> plays data runs m se' k \<and> (0 < budget \<longrightarrow> comparison_left data se' < comparison_left data se)))"
proof -
  let ?a = "wt_nodes wt ! (2 * k)" and ?b = "wt_nodes wt ! (2 * k + 1)"
  have len: "length (wt_nodes wt) = 2 * wt_leaves wt" "m \<le> length (wt_heads wt)" using t by (simp_all add: tree_ok_def)
  have inside: "\<not> k * 2 + 1 \<ge> length (wt_nodes wt)" using k(2) len by simp
  have best: "best (wt_leaves wt) (run_key runs m wt) k = winner (run_key runs m wt) ?a ?b"
    using best_node [OF k(1,2), of "run_key runs m wt"] k(3,4) by (simp add: node_correct_def)
  have same: "\<exists>cm sh. se = se\<lparr>se_comparison := cm, se_shared := sh\<rparr>"
    by (rule exI [of _ "se_comparison se"], rule exI [of _ "se_shared se"]) simp
  consider "?a = empty_run" | "?a \<noteq> empty_run" "?b = empty_run" | "?a \<noteq> empty_run" "?b \<noteq> empty_run" by blast
  then show ?thesis
  proof cases
    case 3
    have c: "2 * k < 2 * wt_leaves wt" "2 * k + 1 < 2 * wt_leaves wt" using k(2) by simp_all
    obtain x y where xy: "run_key runs m wt ?a = Some x" "run_key runs m wt ?b = Some y" "?a < m" "?b < m"
      using correct_child [OF t _ c(1) k(3) 3(1)] correct_child [OF t _ c(2) k(4) 3(2)] k(1) by auto
    have hd: "wt_heads wt ! ?a = Some (D x)" "wt_heads wt ! ?b = Some (D y)" using heads xy by simp_all
    have "x \<in> set xs" "y \<in> set xs"
    proof -
      have "z \<in> set runs" if "run_key runs m wt r = Some z" for z r
      proof -
        note z = run_key_below [OF that]
        with heads have "wt_end wt ! r \<le> length runs" by (simp add: runs_def)
        with z have "wt_next wt ! r < length runs" by linarith
        with z show ?thesis by (simp only: nth_mem)
      qed
      with xy(1,2) have "x \<in> set runs" "y \<in> set runs" by blast+
      then show "x \<in> set xs" "y \<in> set xs" by (simp_all add: runs_def)
    qed
    with ok have oks: "okay x" "okay y" by simp_all
    have "compares data se x y" using p 3 xy
      by (cases "se_comparison se") (auto simp: plays_def wt_def [symmetric] Let_def compares_def)
    note cs = compare_spec [OF oks w cfg this, of budget]
    have run: "attains X (play env k) ((se, budget), w) Q
        = attains X (session_compare env (D x) (D y)) ((se, budget), w)
            (\<lambda>order. Q (map_option (\<lambda>o'. if o' = OrdGreater then ?b else ?a) order))" for X Q
    proof -
      have "\<not> (?a \<ge> length (wt_heads wt) \<or> ?b \<ge> length (wt_heads wt))" using xy(3,4) len by simp
      then show ?thesis using inside 3 hd
        by (simp add: play_def wp_simps Let_def wt_def [symmetric] mult.commute [of k 2] cong: if_cong)
    qed
    show ?thesis unfolding run
    proof (rule attains_weaken [OF cs], goal_cases)
      case (1 out sw)
      obtain se' budget' w' where sw: "sw = ((se', budget'), w')" by (metis surj_pair)
      with 1 have r: "world_ok w'" "compared_to data x y budget se out se'" by auto
      show ?case
      proof (cases out)
        case None
        with r(2) obtain cm sh where se': "se' = se\<lparr>se_comparison := Some cm, se_shared := sh\<rparr>"
          and c': "compares data se' x y" "0 < budget \<longrightarrow> comparison_left data se' < comparison_left data se"
          by (auto simp: compared_to_def)
        have "plays data runs m se' k"
          using 3 c'(1) xy by (simp add: plays_def Let_def se' wt_def [symmetric])
        with None r(1) c'(2) se' show ?thesis by (auto simp: sw)
      next
        case (Some v)
        with r(2) obtain sh where v: "v = ord_cmp x y" and se': "se' = se\<lparr>se_comparison := None, se_shared := sh\<rparr>"
          by (auto simp: compared_to_def)
        have "winner (run_key runs m wt) ?a ?b = (if v = OrdGreater then ?b else ?a)"
          using 3 xy by (simp add: winner_def v)
        with Some r(1) show ?thesis by (auto simp: sw best se')
      qed
    qed
  next
    case 1
    have "se_comparison se = None" using p 1 by (simp add: plays_def wt_def [symmetric] Let_def)
    moreover have "winner (run_key runs m wt) ?a ?b = ?b" using 1 by (simp add: winner_def)
    ultimately show ?thesis using inside w 1 same
      by (simp add: play_def wp_simps Let_def wt_def [symmetric] mult.commute [of k 2] best)
  next
    case 2
    have "se_comparison se = None" using p 2 by (simp add: plays_def wt_def [symmetric] Let_def)
    moreover have "winner (run_key runs m wt) ?a ?b = ?a" using 2 by (simp add: winner_def)
    ultimately show ?thesis using inside w 2 same
      by (simp add: play_def wp_simps Let_def wt_def [symmetric] mult.commute [of k 2] best)
  qed
qed

end

lemma tree_updates [simp]:
  "run_key runs m (wt\<lparr>wt_nodes := ns\<rparr>) = run_key runs m wt" "run_key runs m (wt\<lparr>wt_stage := st\<rparr>) = run_key runs m wt"
  "run_key runs m (wt\<lparr>wt_heads := hs\<rparr>) = run_key runs m wt" "run_key runs m (wt\<lparr>wt_group_end := ge\<rparr>) = run_key runs m wt"
  "group_at D xs w m gs out (wt\<lparr>wt_nodes := ns\<rparr>) = group_at D xs w m gs out wt"
  "group_at D xs w m gs out (wt\<lparr>wt_stage := st\<rparr>) = group_at D xs w m gs out wt"
  "tree_ok cfg m (wt\<lparr>wt_stage := st\<rparr>) = tree_ok cfg m wt"
  by (simp_all add: run_key_def fun_eq_iff group_at_def tree_ok_def)

lemma tree_ok_nodes: "length ns = length (wt_nodes wt) \<Longrightarrow> tree_ok cfg m (wt\<lparr>wt_nodes := ns\<rparr>) = tree_ok cfg m wt"
  by (simp add: tree_ok_def)

text \<open>The stage after a node is played.\<close>

fun next_stage :: "merge_stage \<Rightarrow> merge_stage" where
  "next_stage (StageBuild k) = (if k > 1 then StageBuild (k - 1) else StageEmit)"
| "next_stage (StageReplay k) = (if k > 1 then StageReplay (k div 2) else StageEmit)"
| "next_stage st = st"

lemma tree_at_played:
  fixes se :: sort_session
  defines "wt \<equiv> se_tree se"
  assumes at: "tree_at data runs m se" and st: "wt_stage wt = StageBuild k \<or> wt_stage wt = StageReplay k"
    and len: "length (wt_nodes wt) = 2 * wt_leaves wt"
    and se': "se_tree se' = wt\<lparr>wt_nodes := (wt_nodes wt)[k := best (wt_leaves wt) (run_key runs m wt) k], wt_stage := next_stage (wt_stage wt)\<rparr>"
      "se_comparison se' = None"
  shows "tree_at data runs m se'"
proof -
  have k: "0 < k" "k < wt_leaves wt" using at st by (auto simp: tree_at_def Let_def wt_def)
  let ?wt = "wt\<lparr>wt_nodes := (wt_nodes wt)[k := best (wt_leaves wt) (run_key runs m wt) k], wt_stage := next_stage (wt_stage wt)\<rparr>"
  have node: "node_correct runs m ?wt i \<longleftrightarrow> i = k \<or> node_correct runs m wt i" for i
    using k(2) len by (auto simp: node_correct_def nth_list_update)
  have plays: "plays data runs m se' j" for j by (simp add: plays_def se'(2) Let_def)
  have one: "i = 1" if "below i 1" "0 < i" for i using below_le [OF that(1)] that(2) by simp
  from st show ?thesis
  proof
    assume b: "wt_stage wt = StageBuild k"
    then have old: "node_correct runs m wt i" if "k < i" "i < 2 * wt_leaves wt" for i
      using at that by (auto simp: tree_at_def Let_def wt_def)
    then have "node_correct runs m ?wt i" if "k - 1 < i" "i < 2 * wt_leaves wt" for i
      using that node [of i] by (cases "i = k") auto
    then show ?thesis using k plays se' by (auto simp: tree_at_def Let_def b)
  next
    assume r: "wt_stage wt = StageReplay k"
    then have old: "node_correct runs m wt i" if "0 < i" "i < 2 * wt_leaves wt" "\<not> below i k" for i
      using at that by (auto simp: tree_at_def Let_def wt_def)
    then have "node_correct runs m ?wt i" if "0 < i" "i < 2 * wt_leaves wt" "\<not> below i (k div 2) \<or> k = 1" for i
      using that node [of i] below_step [of i k] one [of i] by (cases "i = k") auto
    then show ?thesis using k plays se' by (auto simp: tree_at_def Let_def r)
  qed
qed

lemma stage_todo_next:
  "wt_stage wt = StageBuild k \<or> wt_stage wt = StageReplay k \<Longrightarrow> 0 < k \<Longrightarrow>
     stage_todo (wt\<lparr>wt_nodes := ns, wt_stage := next_stage (wt_stage wt)\<rparr>) < stage_todo wt"
  by (auto simp: stage_todo_def)

context sort_ranks begin

lemma play_node_spec:
  fixes se :: sort_session and xs :: "nat list"
  defines "wt \<equiv> se_tree se"
  assumes w: "world_ok w" and cfg: "se_config se = cfg" and ok: "\<forall>p \<in> set xs. okay p" and budget: "0 < budget"
    and me: "merging data D xs se" and st: "wt_stage wt = StageBuild k \<or> wt_stage wt = StageReplay k"
  shows "attains sort_failure (play_node env k (next_stage (wt_stage wt))) ((se, budget), w)
    (\<lambda>_ ((se', budget'), w'). world_ok w' \<and> same_sort se se' \<and> merging data D xs se' \<and> merge_todo data xs se' < merge_todo data xs se)"
proof -
  let ?m = "length (se_pages se)" and ?runs = "block_sort (se_run_width se) xs" and ?gs = "se_group_start se"
  have idle: "wt_stage wt \<noteq> StageIdle" using st by auto
  obtain out f where pf: "se_pass_file se = Some f"
      "writing f (encoded (map D (take ?gs (block_sort (se_run_width se * ?m) xs) @ out)))"
    and group: "group_at D xs (se_run_width se) ?m ?gs out wt" and at: "tree_at data ?runs ?m se"
    using me idle by (auto simp: merging_def Let_def wt_def)
  have t: "tree_ok cfg ?m wt" using me cfg by (simp add: merging_def Let_def wt_def)
  have len: "length (wt_nodes wt) = 2 * wt_leaves wt" using t by (simp add: tree_ok_def)
  have k: "0 < k" "k < wt_leaves wt" "plays data ?runs ?m se k" using at st by (auto simp: tree_at_def Let_def wt_def)
  have kids: "node_correct ?runs ?m wt (2 * k)" "node_correct ?runs ?m wt (2 * k + 1)"
  proof -
    have "\<not> below (2 * k) k" "\<not> below (2 * k + 1) k" using k(1) below_le by fastforce+
    with at st k(1,2) show "node_correct ?runs ?m wt (2 * k)" "node_correct ?runs ?m wt (2 * k + 1)"
      by (auto simp: tree_at_def Let_def wt_def)
  qed
  have heads: "\<forall>r < ?m. wt_heads wt ! r = map_option D (run_key ?runs ?m wt r) \<and> wt_end wt ! r \<le> length xs"
    using group by (simp add: group_at_def Let_def)
  note pl = play_spec [OF w cfg ok t [unfolded wt_def] k(1) k(2) [unfolded wt_def] kids [unfolded wt_def] k(3) heads [unfolded wt_def],
      of budget, folded wt_def]
  show ?thesis unfolding play_node_def attains_and_then
  proof (rule attains_weaken [OF pl], goal_cases)
    case (1 o' sw)
    obtain se1 budget1 w1 where sw: "sw = ((se1, budget1), w1)" by (metis surj_pair)
    with 1 obtain cm sh where 1: "world_ok w1" "se1 = se\<lparr>se_comparison := cm, se_shared := sh\<rparr>"
      "case o' of Some r \<Rightarrow> r = best (wt_leaves wt) (run_key ?runs ?m wt) k \<and> se_comparison se1 = None
        | None \<Rightarrow> plays data ?runs ?m se1 k \<and> (0 < budget \<longrightarrow> comparison_left data se1 < comparison_left data se)"
      by auto
    have same: "same_sort se se1" by (simp add: 1(2) same_sort_def)
    show ?case
    proof (cases o')
      case None
      with 1(3) budget have p: "plays data ?runs ?m se1 k" "comparison_left data se1 < comparison_left data se" by simp_all
      have "tree_at data ?runs ?m se1"
        using at st p(1) by (auto simp: tree_at_def Let_def 1(2) wt_def)
      then have "merging data D xs se1"
        using me group pf idle by (auto simp: merging_def Let_def 1(2) wt_def)
      moreover have "merge_todo data xs se1 < merge_todo data xs se"
        using p(2) by (simp add: merge_todo_def 1(2) emitted_bytes_def)
      ultimately show ?thesis using None 1(1) same by (simp add: sw wp_simps)
    next
      case (Some r)
      with 1(3) have r: "r = best (wt_leaves wt) (run_key ?runs ?m wt) k" "cm = None" by (simp_all add: 1(2))
      let ?wt = "wt\<lparr>wt_nodes := (wt_nodes wt)[k := r], wt_stage := next_stage (wt_stage wt)\<rparr>"
      define se2 where "se2 = se1\<lparr>se_tree := ?wt\<rparr>"
      have run: "attains X (case o' of None \<Rightarrow> give () | Some r \<Rightarrow> with_state (\<lambda>(se, _).
             if k \<ge> length (wt_nodes (se_tree se)) then panic
             else modify_tree (\<lambda>wt'. wt'\<lparr>wt_nodes := (wt_nodes wt')[k := r], wt_stage := next_stage (wt_stage wt)\<rparr>))) sw Q
          = Q () ((se2, budget1), w1)" for X Q
        using k(2) len by (simp add: Some sw wp_simps modify_tree_def 1(2) wt_def [symmetric] se2_def)
      have "tree_at data ?runs ?m se2"
        by (rule tree_at_played [OF at st [unfolded wt_def] len [unfolded wt_def]])
           (simp_all add: se2_def r 1(2) wt_def)
      moreover have "tree_ok cfg ?m ?wt" using t by (simp add: tree_ok_nodes)
      ultimately have "merging data D xs se2"
        using me group pf idle cfg st by (auto simp: merging_def Let_def se2_def 1(2) wt_def split: if_splits)
      moreover have "merge_todo data xs se2 < merge_todo data xs se"
        using stage_todo_next [OF st k(1)] by (simp add: merge_todo_def se2_def 1(2) emitted_bytes_def wt_def)
      ultimately show ?thesis using 1(1) same unfolding run by (simp add: se2_def same_sort_def)
    qed
  qed
qed

end

end
