(* ===== verification/Sort_Merge_Step.thy ===== *)
theory Sort_Merge_Step imports Sort_Merge begin

text \<open>
  The steps of a merge: a group is started by loading the head of each of its runs, a winner is emitted
  and the next record of its run takes its leaf.  Every step keeps the state of the merge and comes
  closer to the end of the pass.
\<close>

section \<open>Loading heads\<close>

definition reads_runs :: "(nat \<Rightarrow> descriptor) \<Rightarrow> nat list \<Rightarrow> sort_session \<Rightarrow> bool" where
  "reads_runs D runs se \<longleftrightarrow> (\<exists>f. se_run_file se = Some f \<and> stored f (encoded (map D runs)))
     \<and> (\<forall>pg \<in> set (se_pages se). page_holds pg (encoded (map D runs)))"

text \<open>What loading a head changes: the tree, and where the file and its pages are.\<close>

definition loaded :: "sort_session \<Rightarrow> sort_session \<Rightarrow> bool" where
  "loaded se se' \<longleftrightarrow> same_sort se se' \<and> se_phase se' = se_phase se \<and> se_run_width se' = se_run_width se
     \<and> length (se_pages se') = length (se_pages se) \<and> se_pass_file se' = se_pass_file se
     \<and> se_group_start se' = se_group_start se \<and> se_comparison se' = se_comparison se"

lemma loaded_trans: "loaded se se' \<Longrightarrow> loaded se' se'' \<Longrightarrow> loaded se se''"
  by (simp add: loaded_def same_sort_def)

lemma loaded_tree [simp]: "loaded se (se\<lparr>se_tree := wt\<rparr>)"
  by (simp add: loaded_def same_sort_def)

lemma loaded_refl [simp]: "loaded se se"
  by (simp add: loaded_def)

lemma loaded_fields:
  "loaded se se' \<Longrightarrow> se_records se' = se_records se \<and> se_run_width se' = se_run_width se
     \<and> length (se_pages se') = length (se_pages se)"
  by (simp add: loaded_def same_sort_def)

lemma reads_runs_tree [simp]: "reads_runs D runs (se\<lparr>se_tree := wt\<rparr>) = reads_runs D runs se"
  by (simp add: reads_runs_def)

text \<open>The state of a merge, taken apart and put together.\<close>

lemma mergingD:
  fixes se :: sort_session and xs :: "nat list"
  defines "m \<equiv> length (se_pages se)" and "runs \<equiv> block_sort (se_run_width se) xs"
  assumes "merging data D xs se"
  shows "se_phase se = Merging" "se_records se = length xs" "0 < se_run_width se" "se_run_width se < length xs"
    "m = sg_merge_fan_in (se_config se) \<or> length xs \<le> m * se_run_width se" "tree_ok (se_config se) m (se_tree se)"
    "reads_runs D runs se"
  using assms by (auto simp: merging_def Let_def reads_runs_def)

lemma merging_group:
  fixes se :: sort_session and xs :: "nat list"
  defines "m \<equiv> length (se_pages se)" and "runs \<equiv> block_sort (se_run_width se) xs"
  assumes "merging data D xs se" "wt_stage (se_tree se) \<noteq> StageIdle"
  obtains f out where "se_pass_file se = Some f"
    "writing f (encoded (map D (take (se_group_start se) (block_sort (se_run_width se * m) xs) @ out)))"
    "group_at D xs (se_run_width se) m (se_group_start se) out (se_tree se)" "tree_at data runs m se"
  using assms by (auto simp: merging_def Let_def)

lemma merging_idle:
  fixes se :: sort_session and xs :: "nat list"
  defines "m \<equiv> length (se_pages se)"
  assumes "merging data D xs se" "wt_stage (se_tree se) = StageIdle"
  obtains f where "se_pass_file se = Some f"
    "writing f (encoded (map D (take (se_group_start se) (block_sort (se_run_width se * m) xs))))"
    "se_comparison se = None" "se_group_start se \<le> length xs" "se_run_width se * m dvd se_group_start se \<or> se_group_start se = length xs"
  using assms by (auto simp: merging_def Let_def)

lemma merging_groupI:
  fixes se :: sort_session and xs :: "nat list"
  defines "m \<equiv> length (se_pages se)" and "runs \<equiv> block_sort (se_run_width se) xs"
  assumes "se_phase se = Merging" "se_records se = length xs" "0 < se_run_width se" "se_run_width se < length xs"
    "m = sg_merge_fan_in (se_config se) \<or> length xs \<le> m * se_run_width se" "tree_ok (se_config se) m (se_tree se)"
    "reads_runs D runs se" and pf: "se_pass_file se = Some f"
    "writing f (encoded (map D (take (se_group_start se) (block_sort (se_run_width se * m) xs) @ out)))"
    and st: "wt_stage (se_tree se) \<noteq> StageIdle" "group_at D xs (se_run_width se) m (se_group_start se) out (se_tree se)"
      "tree_at data runs m se"
  shows "merging data D xs se"
proof -
  have "\<exists>out f. se_pass_file se = Some f \<and> writing f (encoded (map D (take (se_group_start se) (block_sort (se_run_width se * m) xs) @ out)))
      \<and> group_at D xs (se_run_width se) m (se_group_start se) out (se_tree se) \<and> tree_at data runs m se"
    using pf st by blast
  then show ?thesis using assms(3-9) st(1) unfolding merging_def Let_def reads_runs_def by (simp add: m_def runs_def)
qed

lemma merging_idleI:
  fixes se :: sort_session and xs :: "nat list"
  defines "m \<equiv> length (se_pages se)" and "runs \<equiv> block_sort (se_run_width se) xs"
  assumes "se_phase se = Merging" "se_records se = length xs" "0 < se_run_width se" "se_run_width se < length xs"
    "m = sg_merge_fan_in (se_config se) \<or> length xs \<le> m * se_run_width se" "tree_ok (se_config se) m (se_tree se)"
    "reads_runs D runs se" and pf: "se_pass_file se = Some f"
    "writing f (encoded (map D (take (se_group_start se) (block_sort (se_run_width se * m) xs))))"
    and st: "wt_stage (se_tree se) = StageIdle" "se_comparison se = None" "se_group_start se \<le> length xs"
      "se_run_width se * m dvd se_group_start se \<or> se_group_start se = length xs"
  shows "merging data D xs se"
  using assms unfolding merging_def Let_def reads_runs_def by simp

context sort_ranks begin

lemma load_descriptor_spec:
  assumes w: "world_ok w" and f: "reads_runs D runs se" and ok: "\<forall>p \<in> set runs. okay p"
    and n: "128 * length runs \<le> u64_max" "i < length runs" and r: "r < length (se_pages se)"
  shows "attains sort_failure (load_descriptor dk i r) ((se, budget), w)
    (\<lambda>d ((se', budget'), w'). d = D (runs ! i) \<and> world_ok w' \<and> budget' = budget \<and> loaded se se' \<and> reads_runs D runs se' \<and> se_tree se' = se_tree se)"
proof -
  from f obtain f where f: "se_run_file se = Some f" "stored f (encoded (map D runs))"
    and pg: "page_holds (se_pages se ! r) (encoded (map D runs))" "\<forall>pg \<in> set (se_pages se). page_holds pg (encoded (map D runs))"
    using r by (auto simp: reads_runs_def)
  have fit: "\<forall>d \<in> set (map D runs). descriptor_fits d" using ok fits by auto
  have run: "attains X (load_descriptor dk i r) ((se, budget), w) Q
      = attains X (page_record dk i) ((se_pages se ! r, f, se_shared se), w)
          (\<lambda>d ((pg, f, sh), w'). Q d ((se\<lparr>se_pages := (se_pages se)[r := pg], se_run_file := Some f, se_shared := sh\<rparr>, budget), w'))" for X Q
    using r by (simp add: load_descriptor_def wp_simps f(1) case_prod_unfold)
  show ?thesis unfolding run
  proof (rule attains_weaken [OF page_record_spec [OF w f(2) pg(1) _ _ fit]], goal_cases)
    case (3 d sw)
    obtain pg' f' sh' w' where sw: "sw = ((pg', f', sh'), w')" by (metis surj_pair)
    with 3 have r': "d = D (runs ! i)" "world_ok w'" "stored f' = stored f" "page_holds pg' (encoded (map D runs))"
      using n moved_fields by auto
    have "\<forall>pg \<in> set ((se_pages se)[r := pg']). page_holds pg (encoded (map D runs))"
      using pg(2) r'(4) set_update_subset_insert [of "se_pages se" r pg'] by blast
    then show ?case using r' f(2) by (simp add: sw loaded_def reads_runs_def same_sort_def)
  qed (use n in simp_all)
qed

lemma load_head_spec:
  assumes w: "world_ok w" and f: "reads_runs D runs se" and ok: "\<forall>p \<in> set runs. okay p"
    and n: "128 * length runs \<le> u64_max" and t: "tree_ok cfg (length (se_pages se)) (se_tree se)" and r: "r < length (se_pages se)"
    and stop: "wt_end (se_tree se) ! r \<le> length runs"
  defines "wt \<equiv> se_tree se"
  shows "attains sort_failure (load_head dk r) ((se, budget), w)
    (\<lambda>_ ((se', budget'), w'). world_ok w' \<and> budget' = budget \<and> loaded se se' \<and> reads_runs D runs se'
       \<and> se_tree se' = wt\<lparr>wt_heads := (wt_heads wt)[r := map_option D (run_key runs (length (se_pages se)) wt r)]\<rparr>)"
proof -
  have len: "\<not> (r \<ge> length (wt_heads wt) \<or> r \<ge> length (wt_next wt) \<or> r \<ge> length (wt_end wt))"
    using t r by (simp add: tree_ok_def wt_def)
  show ?thesis
  proof (cases "wt_next wt ! r < wt_end wt ! r")
    case True
    then have i: "wt_next wt ! r < length runs" using stop by (simp add: wt_def)
    have key: "run_key runs (length (se_pages se)) wt r = Some (runs ! (wt_next wt ! r))" using True r by (simp add: run_key_def)
    have run: "attains X (load_head dk r) ((se, budget), w) Q
       = attains X (load_descriptor dk (wt_next wt ! r) r) ((se, budget), w)
           (\<lambda>d ((se', budget'), w'). Q () ((se'\<lparr>se_tree := (se_tree se')\<lparr>wt_heads := (wt_heads (se_tree se'))[r := Some d]\<rparr>\<rparr>, budget'), w'))"
      for X Q
      using len True by (simp add: load_head_def wp_simps Let_def wt_def [symmetric] modify_tree_def modify_session_def case_prod_unfold)
    show ?thesis unfolding run key
      by (rule attains_weaken [OF load_descriptor_spec [OF w f ok n i r, of budget]])
         (auto simp: wt_def intro: loaded_trans)
  next
    case False
    then have key: "run_key runs (length (se_pages se)) wt r = None" by (simp add: run_key_def)
    show ?thesis using len False w f
      by (simp add: load_head_def wp_simps Let_def wt_def [symmetric] modify_tree_def key)
  qed
qed

end

section \<open>Starting a group\<close>

lemma tree_ok_leaves: "tree_ok cfg m wt \<Longrightarrow> 1 < wt_leaves wt"
proof -
  assume "tree_ok cfg m wt"
  then obtain h where "wt_leaves wt = 2 * 2 ^ h" by (auto simp: tree_ok_def)
  moreover have "(1::nat) \<le> 2 ^ h" by simp
  ultimately show ?thesis by linarith
qed

definition started :: "(nat \<Rightarrow> descriptor) \<Rightarrow> nat list \<Rightarrow> nat \<Rightarrow> nat \<Rightarrow> nat \<Rightarrow> nat \<Rightarrow> winner_tree \<Rightarrow> bool" where
  "started D runs w m gs k wt \<longleftrightarrow>
     (\<forall>r < k. wt_next wt ! r = run_start (length runs) w gs r \<and> wt_end wt ! r = run_start (length runs) w gs (Suc r)
        \<and> wt_heads wt ! r = map_option D (run_key runs m wt r))
     \<and> (\<forall>r < wt_leaves wt. wt_nodes wt ! (wt_leaves wt + r) = (if r < k then leaf_value (run_key runs m wt) r else empty_run))"

text \<open>The tree after run \<open>k\<close> is started.\<close>

definition start_run :: "(nat \<Rightarrow> descriptor) \<Rightarrow> nat list \<Rightarrow> nat \<Rightarrow> nat \<Rightarrow> nat \<Rightarrow> nat \<Rightarrow> winner_tree \<Rightarrow> winner_tree" where
  "start_run D runs w m gs k wt =
     (let wt1 = wt\<lparr>wt_next := (wt_next wt)[k := run_start (length runs) w gs k],
                   wt_end := (wt_end wt)[k := run_start (length runs) w gs (Suc k)]\<rparr>;
          key = run_key runs m wt1 k
      in wt1\<lparr>wt_heads := (wt_heads wt)[k := map_option D key],
             wt_nodes := (if key = None then wt_nodes wt else (wt_nodes wt)[wt_leaves wt + k := k])\<rparr>)"

lemma start_run_fields [simp]:
  "wt_leaves (start_run D runs w m gs k wt) = wt_leaves wt"
  "tree_ok cfg m (start_run D runs w m gs k wt) = tree_ok cfg m wt"
  "wt_stage (start_run D runs w m gs k wt) = wt_stage wt"
  by (simp_all add: start_run_def Let_def tree_ok_def)

lemma started_run:
  assumes t: "tree_ok cfg m wt" and k: "k < m" and s: "started D runs w m gs k wt"
  shows "started D runs w m gs (Suc k) (start_run D runs w m gs k wt)"
proof -
  have len: "k < length (wt_heads wt)" "k < length (wt_next wt)" "k < length (wt_end wt)" "k < wt_leaves wt"
    "length (wt_nodes wt) = 2 * wt_leaves wt" using t k by (auto simp: tree_ok_def)
  let ?wt = "start_run D runs w m gs k wt"
  have key: "r \<noteq> k \<Longrightarrow> run_key runs m ?wt r = run_key runs m wt r" for r
    by (simp add: run_key_def start_run_def Let_def)
  have own: "wt_next ?wt ! k = run_start (length runs) w gs k" "wt_end ?wt ! k = run_start (length runs) w gs (Suc k)"
    "wt_heads ?wt ! k = map_option D (run_key runs m ?wt k)"
    using len by (simp_all add: start_run_def Let_def run_key_def)
  have other: "r \<noteq> k \<Longrightarrow> wt_next ?wt ! r = wt_next wt ! r \<and> wt_end ?wt ! r = wt_end wt ! r \<and> wt_heads ?wt ! r = wt_heads wt ! r" for r
    by (simp add: start_run_def Let_def)
  have leaf: "wt_nodes ?wt ! (wt_leaves wt + r) = (if r = k then leaf_value (run_key runs m ?wt) k else wt_nodes wt ! (wt_leaves wt + r))"
    if "r < wt_leaves wt" for r
    using s len that
    by (cases "run_key runs m ?wt k = None")
       (auto simp: start_run_def Let_def run_key_def started_def leaf_value_def nth_list_update split: if_splits)
  show ?thesis
    unfolding started_def
  proof (intro conjI allI impI)
    fix r assume "r < Suc k"
    then show "wt_next ?wt ! r = run_start (length runs) w gs r" "wt_end ?wt ! r = run_start (length runs) w gs (Suc r)"
      "wt_heads ?wt ! r = map_option D (run_key runs m ?wt r)"
      using s own other [of r] key [of r] by (cases "r = k"; simp add: started_def)+
  next
    fix r assume r: "r < wt_leaves ?wt"
    then show "wt_nodes ?wt ! (wt_leaves ?wt + r) = (if r < Suc k then leaf_value (run_key runs m ?wt) r else empty_run)"
      using s leaf [of r] key [of r] by (auto simp: started_def leaf_value_def)
  qed
qed

context sort_ranks begin

lemma start_runs_spec:
  assumes ok: "\<forall>p \<in> set runs. okay p" and n: "128 * length runs \<le> u64_max"
  shows "world_ok w \<Longrightarrow> reads_runs D runs se \<Longrightarrow> se_records se = length runs \<Longrightarrow> length (se_pages se) = m
    \<Longrightarrow> tree_ok cfg m (se_tree se) \<Longrightarrow> k \<le> m \<Longrightarrow> started D runs (se_run_width se) m gs k (se_tree se)
    \<Longrightarrow> attains sort_failure (start_runs dk (run_start (length runs) (se_run_width se) gs k) [k..<m]) ((se, budget), w)
      (\<lambda>stop ((se', budget'), w'). stop = run_start (length runs) (se_run_width se) gs m \<and> world_ok w' \<and> budget' = budget \<and> loaded se se'
         \<and> reads_runs D runs se' \<and> tree_ok cfg m (se_tree se') \<and> started D runs (se_run_width se) m gs m (se_tree se') \<and> wt_leaves (se_tree se') = wt_leaves (se_tree se))"
proof (induction "m - k" arbitrary: k se budget w)
  case 0
  then show ?case by (simp add: wp_simps)
next
  case (Suc d)
  let ?N = "length runs" and ?w = "se_run_width se" and ?wt = "se_tree se"
  have k: "k < m" using Suc.hyps(2) by simp
  then have list: "[k..<m] = k # [Suc k..<m]" by (simp add: upt_conv_Cons)
  have len: "k < length (wt_heads ?wt)" "k < length (wt_next ?wt)" "k < length (wt_end ?wt)" "k < wt_leaves ?wt" "k < empty_run"
    "length (wt_nodes ?wt) = 2 * wt_leaves ?wt" using Suc.prems(5) k by (auto simp: tree_ok_def)
  define wt1 where "wt1 = ?wt\<lparr>wt_next := (wt_next ?wt)[k := run_start ?N ?w gs k], wt_end := (wt_end ?wt)[k := run_start ?N ?w gs (Suc k)]\<rparr>"
  define se1 where "se1 = se\<lparr>se_tree := wt1\<rparr>"
  have stop: "min (saturating_add (run_start ?N ?w gs k) ?w) (se_records se) = run_start ?N ?w gs (Suc k)"
  proof -
    have "?N \<le> u64_max" using n by linarith
    then have "min (saturating_add (run_start ?N ?w gs k) ?w) ?N = min (run_start ?N ?w gs k + ?w) ?N"
      by (simp add: saturating_add_def)
    then show ?thesis by (simp add: Suc.prems(3) run_start_Suc)
  qed
  have run: "attains X (start_runs dk (run_start ?N ?w gs k) [k..<m]) ((se, budget), w) Q
     = attains X (load_head dk k) ((se1, budget), w) (\<lambda>_ sw. attains X (with_state (\<lambda>(se, _).
             let wt = se_tree se in
             if wt_heads wt ! k = None then give ()
             else if k > empty_run then fail InvalidConfig
             else if wt_leaves wt + k \<ge> length (wt_nodes wt) then panic
             else modify_tree (\<lambda>wt. wt\<lparr>wt_nodes := (wt_nodes wt)[wt_leaves wt + k := k]\<rparr>))) sw
           (\<lambda>_ sw. attains X (start_runs dk (run_start ?N ?w gs (Suc k)) [Suc k..<m]) sw Q))" for X Q
    using len by (simp add: list wp_simps Let_def stop modify_tree_def se1_def wt1_def cong: if_cong)
  have t1: "tree_ok cfg (length (se_pages se1)) (se_tree se1)" "k < length (se_pages se1)" "wt_end (se_tree se1) ! k \<le> ?N"
    "reads_runs D runs se1"
    using Suc.prems k len by (simp_all add: se1_def wt1_def tree_ok_def)
  show ?case unfolding run
  proof (rule attains_weaken [OF load_head_spec [OF Suc.prems(1) t1(4) ok n t1(1-3)]], goal_cases)
    case (1 u sw)
    obtain se2 budget2 w2 where sw: "sw = ((se2, budget2), w2)" by (metis surj_pair)
    with 1 have 2: "world_ok w2" "loaded se1 se2" "reads_runs D runs se2" "budget2 = budget"
      "se_tree se2 = wt1\<lparr>wt_heads := (wt_heads wt1)[k := map_option D (run_key runs m wt1 k)]\<rparr>"
      by (auto simp: se1_def Suc.prems(4))
    define se3 where "se3 = se2\<lparr>se_tree := start_run D runs ?w m gs k ?wt\<rparr>"
    have rest: "attains X (with_state (\<lambda>(se, _).
             let wt = se_tree se in
             if wt_heads wt ! k = None then give ()
             else if k > empty_run then fail InvalidConfig
             else if wt_leaves wt + k \<ge> length (wt_nodes wt) then panic
             else modify_tree (\<lambda>wt. wt\<lparr>wt_nodes := (wt_nodes wt)[wt_leaves wt + k := k]\<rparr>))) sw Q = Q () ((se3, budget2), w2)" for X Q
    proof (cases "run_key runs m wt1 k")
      case None
      then have "se_tree se2 = start_run D runs ?w m gs k ?wt" by (simp add: 2(5) start_run_def Let_def wt1_def)
      then have "se2 = se3" by (simp add: se3_def)
      moreover have "wt_heads (se_tree se2) ! k = None" using len None by (simp add: 2(5) wt1_def)
      ultimately show ?thesis by (simp add: sw wp_simps Let_def)
    next
      case (Some x)
      have "start_run D runs ?w m gs k ?wt = (se_tree se2)\<lparr>wt_nodes := (wt_nodes (se_tree se2))[wt_leaves (se_tree se2) + k := k]\<rparr>"
        using Some by (simp add: 2(5) start_run_def Let_def wt1_def)
      moreover have "wt_heads (se_tree se2) ! k = Some (D x)" "wt_leaves (se_tree se2) + k < length (wt_nodes (se_tree se2))"
        using len Some by (simp_all add: 2(5) wt1_def)
      ultimately show ?thesis using len by (simp add: sw wp_simps Let_def modify_tree_def se3_def)
    qed
    have same: "loaded se se3" using loaded_trans [OF loaded_tree [of se wt1, folded se1_def] 2(2)] loaded_trans
      by (metis loaded_tree se3_def)
    note same' = loaded_fields [OF same]
    have s3: "started D runs (se_run_width se3) m gs (Suc k) (se_tree se3)" "tree_ok cfg m (se_tree se3)" "reads_runs D runs se3"
      using started_run [OF Suc.prems(5) k Suc.prems(7)] Suc.prems(5) 2(3) same' by (simp_all add: se3_def)
    have leaves3: "wt_leaves (se_tree se3) = wt_leaves ?wt" by (simp add: se3_def)
    have eqs: "se_records se3 = length runs" "length (se_pages se3) = m" "se_run_width se3 = ?w" "Suc k \<le> m" "d = m - Suc k"
      using same' Suc.prems k Suc.hyps(2) by simp_all
    note IH = Suc.hyps(1) [OF eqs(5) 2(1) s3(3) eqs(1) eqs(2) s3(2) eqs(4) s3(1), of budget2, unfolded eqs(3)]
    show ?case unfolding rest
      by (rule attains_weaken [OF IH]) (auto dest: loaded_trans [OF same] simp: 2(4) leaves3)
  qed
qed

lemma start_group_spec:
  fixes se :: sort_session and xs :: "nat list"
  assumes w: "world_ok w" and cfg: "se_config se = cfg" and ok: "\<forall>p \<in> set xs. okay p" and n: "128 * length xs \<le> u64_max"
    and me: "merging data D xs se" and idle: "wt_stage (se_tree se) = StageIdle" and more: "se_group_start se \<noteq> length xs"
  shows "attains sort_failure (start_group dk) ((se, budget), w)
    (\<lambda>_ ((se', budget'), w'). world_ok w' \<and> same_sort se se' \<and> merging data D xs se' \<and> merge_todo data xs se' < merge_todo data xs se
       \<and> wt_stage (se_tree se') \<noteq> StageIdle \<and> budget' = budget)"
proof -
  let ?m = "length (se_pages se)" and ?w = "se_run_width se" and ?gs = "se_group_start se"
  define runs where "runs = block_sort ?w xs"
  obtain f where pf: "se_pass_file se = Some f" "writing f (encoded (map D (take ?gs (block_sort (?w * ?m) xs))))"
    and gs: "?gs < length xs" "?w * ?m dvd ?gs" and none: "se_comparison se = None"
    using merging_idle [OF me idle] more by (metis le_neq_implies_less)
  note parts = mergingD [OF me]
  have ph: "se_phase se = Merging" "se_records se = length xs" and t: "tree_ok cfg ?m (se_tree se)"
    and wd: "0 < ?w" "?w < length xs" "?m = sg_merge_fan_in cfg \<or> length xs \<le> ?m * ?w" and f: "reads_runs D runs se"
    using parts cfg by (simp_all add: runs_def)
  have ok': "\<forall>p \<in> set runs. okay p" and n': "128 * length runs \<le> u64_max" using ok n by (simp_all add: runs_def)
  define wt1 where "wt1 = (se_tree se)\<lparr>wt_nodes := map (\<lambda>_. empty_run) (wt_nodes (se_tree se))\<rparr>"
  define se1 where "se1 = se\<lparr>se_tree := wt1\<rparr>"
  have start: "?gs = run_start (length runs) (se_run_width se1) ?gs 0" using gs(1) by (simp add: runs_def)
  have run: "attains X (start_group dk) ((se, budget), w) Q
     = attains X (start_runs dk (run_start (length runs) (se_run_width se1) ?gs 0) [0..<?m]) ((se1, budget), w)
         (\<lambda>stop ((se', budget'), w'). Q () ((se'\<lparr>se_tree := (se_tree se')\<lparr>wt_group_end := stop,
             wt_stage := (if wt_leaves (se_tree se') > 1 then StageBuild (wt_leaves (se_tree se') - 1) else StageEmit)\<rparr>\<rparr>, budget'), w'))" for X Q
    unfolding start [symmetric]
    by (simp add: start_group_def wp_simps modify_tree_def se1_def wt1_def case_prod_unfold modify_session_def split del: if_split)
  have t1: "tree_ok cfg ?m (se_tree se1)" using t by (simp add: se1_def wt1_def tree_ok_def)
  have s1: "started D runs (se_run_width se1) ?m ?gs 0 (se_tree se1)"
    using t by (simp add: started_def se1_def wt1_def tree_ok_def)
  have b1: "reads_runs D runs se1" "se_records se1 = length runs" "length (se_pages se1) = ?m" using f ph by (simp_all add: se1_def runs_def)
  show ?thesis unfolding run
  proof (rule attains_weaken [OF start_runs_spec [OF ok' n' w b1 t1 _ s1]], goal_cases)
    case (2 stop sw)
    obtain se2 budget2 w2 where sw: "sw = ((se2, budget2), w2)" by (metis surj_pair)
    with 2 have 2: "world_ok w2" "budget2 = budget" "loaded se1 se2" "reads_runs D runs se2" "tree_ok cfg ?m (se_tree se2)"
      "started D runs ?w ?m ?gs ?m (se_tree se2)" "wt_leaves (se_tree se2) = wt_leaves (se_tree se)" and stop: "stop = run_start (length runs) ?w ?gs ?m" by (auto simp: se1_def wt1_def)
    from 2(3) have same: "loaded se se2" using loaded_trans [OF loaded_tree [of se wt1, folded se1_def]] by blast
    let ?l = "wt_leaves (se_tree se2)"
    have l: "1 < ?l" using 2(5) by (rule tree_ok_leaves)
    define wt3 where "wt3 = (se_tree se2)\<lparr>wt_group_end := stop, wt_stage := StageBuild (?l - 1)\<rparr>"
    define se3 where "se3 = se2\<lparr>se_tree := wt3\<rparr>"
    have same3: "loaded se se3" using same loaded_trans [OF _ loaded_tree] by (simp add: se3_def)
    have key: "run_key runs ?m wt3 = run_key runs ?m (se_tree se2)" by (simp add: wt3_def)
    have lens: "length runs = length xs" by (simp add: runs_def)
    have pos: "r < ?m \<Longrightarrow> wt_next wt3 ! r = run_start (length xs) ?w ?gs r \<and> wt_end wt3 ! r = run_start (length xs) ?w ?gs (Suc r)
        \<and> wt_heads wt3 ! r = map_option D (run_key runs ?m wt3 r)" for r
      using 2(6) by (simp add: started_def key) (simp add: wt3_def lens)
    have segs: "map (\<lambda>r. segment runs (wt_next wt3 ! r) (wt_end wt3 ! r)) [0..<?m]
        = map (\<lambda>r. segment runs (run_start (length runs) ?w ?gs r) (run_start (length runs) ?w ?gs (Suc r))) [0..<?m]"
      using pos by (simp add: lens)
    have "?gs \<le> length runs" using gs by (simp add: lens)
    note whole = runs_concat [OF this, of ?w ?m]
    have "run_start (length xs) ?w ?gs r \<le> run_start (length xs) ?w ?gs (Suc r)" for r by (rule run_start_mono) simp
    with pos gs have group: "group_at D xs ?w ?m ?gs [] wt3"
      unfolding group_at_def Let_def runs_def [symmetric] segs whole
      by (simp add: lens) (simp add: wt3_def stop lens)
    have node: "node_correct runs ?m wt3 i" if "?l \<le> i" "i < 2 * ?l" for i
    proof -
      define r where "r = i - ?l"
      then have r: "i = ?l + r" "r < ?l" using that by linarith+
      have "wt_nodes wt3 ! (?l + r) = (if r < ?m then leaf_value (run_key runs ?m wt3) r else empty_run)"
        using 2(6) r(2) unfolding key by (simp add: started_def wt3_def)
      then have "wt_nodes wt3 ! i = leaf_value (run_key runs ?m wt3) r" by (simp add: r leaf_value_def run_key_def)
      moreover have "wt_leaves wt3 = ?l" by (simp add: wt3_def)
      ultimately show ?thesis using l by (simp add: node_correct_def r best_leaf)
    qed
    have none3: "se_comparison se3 = None" using same3 none by (simp add: loaded_def)
    have plays: "plays data runs ?m se3 k" for k by (simp add: plays_def none3)
    have tr: "se_tree se3 = wt3" "wt_stage wt3 = StageBuild (?l - 1)" "wt_leaves wt3 = ?l" by (simp_all add: se3_def wt3_def)
    have "node_correct runs ?m wt3 i" if "?l - 1 < i" "i < 2 * ?l" for i using node [of i] that by linarith
    then have "tree_at data runs ?m se3"
      using l plays by (simp add: tree_at_def tr)
    moreover have "tree_ok cfg ?m wt3" using 2(5) by (simp add: wt3_def tree_ok_def)
    moreover have "wt_stage (se_tree se3) = StageBuild (?l - 1)" by (simp add: se3_def wt3_def)
    moreover have "reads_runs D runs se3" using 2(4) by (simp add: se3_def)
    ultimately have me3: "merging data D xs se3"
      by (intro merging_groupI [of se3 xs D f "[]"])
        (use same3 ph wd pf cfg group in \<open>simp_all add: loaded_def same_sort_def runs_def [symmetric] tr\<close>)
    have "?l - 1 < 2 * wt_leaves (se_tree se)" using 2(7) l by linarith
    then have "merge_todo data xs se3 < merge_todo data xs se"
      using same3 idle by (simp add: merge_todo_def loaded_def emitted_bytes_def stage_todo_def) (simp add: se3_def wt3_def)
    with me3 2(1,2) same3 l show ?case by (simp add: sw se3_def wt3_def loaded_def)
  qed simp
qed

end

end
