(* ===== verification/Sort_Emit.thy ===== *)
theory Sort_Emit imports Sort_Merge_Step begin

text \<open>
  Emitting the winner of a merge: the root names a run whose head is the smallest record left of the
  group, and after it is written only the path from its leaf to the root is to be played again.
\<close>

section \<open>Groups\<close>

lemma group_at_run:
  assumes "group_at D xs w m gs out wt" "r < m"
  defines "n \<equiv> length xs"
  shows "run_start n w gs r \<le> wt_next wt ! r" "wt_next wt ! r \<le> wt_end wt ! r" "wt_end wt ! r = run_start n w gs (Suc r)"
    "wt_heads wt ! r = map_option D (run_key (block_sort w xs) m wt r)"
  using assms by (auto simp: group_at_def Let_def)

lemma group_out_le:
  assumes "group_at D xs w m gs out wt"
  shows "gs + length out \<le> run_start (length xs) w gs m"
proof -
  let ?rest = "sort (concat (map (\<lambda>r. segment (block_sort w xs) (wt_next wt ! r) (wt_end wt ! r)) [0..<m]))"
  have eq: "out @ ?rest = sort (segment (block_sort w xs) gs (run_start (length xs) w gs m))" and gs: "gs \<le> length xs"
    using assms by (simp_all add: group_at_def Let_def)
  have "length out \<le> length (segment (block_sort w xs) gs (run_start (length xs) w gs m))"
    using arg_cong [OF eq, of length] by simp
  then have "length out \<le> run_start (length xs) w gs m - gs" by (simp add: segment_def)
  moreover have "gs \<le> run_start (length xs) w gs m" using gs run_start_mono [of 0 m "length xs" w gs] by simp
  ultimately show ?thesis by linarith
qed

lemma group_out_set:
  assumes "group_at D xs w m gs out wt" shows "set out \<subseteq> set xs"
proof -
  let ?seg = "segment (block_sort w xs) gs (run_start (length xs) w gs m)"
  have "out @ sort (concat (map (\<lambda>r. segment (block_sort w xs) (wt_next wt ! r) (wt_end wt ! r)) [0..<m])) = sort ?seg"
    using assms unfolding group_at_def Let_def by blast
  then have "set out \<subseteq> set (sort ?seg)" by (metis set_append sup_ge1)
  also have "\<dots> \<subseteq> set (block_sort w xs)" unfolding segment_def set_sort by (meson order_trans set_drop_subset set_take_subset)
  finally show ?thesis by simp
qed

text \<open>Taking the head of a run with the smallest key.\<close>

definition take_head :: "(nat \<Rightarrow> descriptor) \<Rightarrow> nat list \<Rightarrow> nat \<Rightarrow> nat \<Rightarrow> winner_tree \<Rightarrow> winner_tree" where
  "take_head D runs m r wt =
     (let wt1 = wt\<lparr>wt_next := (wt_next wt)[r := wt_next wt ! r + 1]\<rparr>;
          key = run_key runs m wt1 r
      in wt1\<lparr>wt_heads := (wt_heads wt)[r := map_option D key],
             wt_nodes := (wt_nodes wt)[wt_leaves wt + r := leaf_value (run_key runs m wt1) r],
             wt_stage := StageReplay ((wt_leaves wt + r) div 2)\<rparr>)"

lemma take_head_fields [simp]:
  "wt_leaves (take_head D runs m r wt) = wt_leaves wt" "wt_end (take_head D runs m r wt) = wt_end wt"
  "wt_group_end (take_head D runs m r wt) = wt_group_end wt" "tree_ok cfg m (take_head D runs m r wt) = tree_ok cfg m wt"
  "wt_stage (take_head D runs m r wt) = StageReplay ((wt_leaves wt + r) div 2)"
  "wt_next (take_head D runs m r wt) = (wt_next wt)[r := wt_next wt ! r + 1]"
  "wt_heads (take_head D runs m r wt) = (wt_heads wt)[r := map_option D (run_key runs m (take_head D runs m r wt) r)]"
  "wt_nodes (take_head D runs m r wt) = (wt_nodes wt)[wt_leaves wt + r := leaf_value (run_key runs m (take_head D runs m r wt)) r]"
  by (simp_all add: take_head_def Let_def tree_ok_def run_key_def leaf_value_def)

lemma take_head_other: "r' \<noteq> r \<Longrightarrow> run_key runs m (take_head D runs m r wt) r' = run_key runs m wt r'"
  by (simp add: run_key_def)

lemma group_pick:
  assumes g: "group_at D xs w m gs out wt" and t: "tree_ok cfg m wt" and w: "0 < w"
    and r: "run_key (block_sort w xs) m wt r = Some x" and least: "\<forall>i y. run_key (block_sort w xs) m wt i = Some y \<longrightarrow> x \<le> y"
  shows "group_at D xs w m gs (out @ [x]) (take_head D (block_sort w xs) m r wt)"
proof -
  let ?runs = "block_sort w xs" and ?n = "length xs"
  let ?wt = "take_head D ?runs m r wt"
  define f where "f i = segment ?runs (wt_next wt ! i) (wt_end wt ! i)" for i
  define f' where "f' i = segment ?runs (wt_next ?wt ! i) (wt_end ?wt ! i)" for i
  note key = run_key_below [OF r]
  have gs: "gs < ?n" "w * m dvd gs" using g by (simp_all add: group_at_def Let_def)
  have len: "r < length (wt_next wt)" "r < length (wt_heads wt)" using t key by (simp_all add: tree_ok_def)
  have dvd: "w dvd gs" using gs(2) by (metis dvd_mult_left)
  have bound: "wt_end wt ! i \<le> ?n" if "i < m" for i using group_at_run [OF g that] by simp
  have pick: "f r = x # f' r"
  proof -
    have "f r = ?runs ! (wt_next wt ! r) # segment ?runs (Suc (wt_next wt ! r)) (wt_end wt ! r)"
      unfolding f_def using key bound [of r] by (intro segment_Cons) simp_all
    then show ?thesis using key len by (simp add: f'_def)
  qed
  have rest: "\<forall>i. i \<noteq> r \<longrightarrow> f' i = f i" by (simp add: f_def f'_def)
  have small: "x \<le> y" if y: "y \<in> set (f i)" and i: "i < m" for y i
  proof -
    have ne: "wt_next wt ! i < wt_end wt ! i" using y by (cases "wt_next wt ! i < wt_end wt ! i") (auto simp: f_def segment_def)
    then have head: "run_key ?runs m wt i = Some (?runs ! (wt_next wt ! i))" using i by (simp add: run_key_def)
    have "f i = ?runs ! (wt_next wt ! i) # segment ?runs (Suc (wt_next wt ! i)) (wt_end wt ! i)"
      unfolding f_def using ne bound [OF i] by (intro segment_Cons) simp_all
    moreover have "sorted (f i)"
      using run_sorted [OF w dvd less_imp_le [OF gs(1)] group_at_run(1) [OF g i]] group_at_run(3) [OF g i] by (simp add: f_def)
    ultimately have "?runs ! (wt_next wt ! i) \<le> y" using y by auto
    with least head show ?thesis by fastforce
  qed
  have ms: "mset (concat (map f [0..<m])) = add_mset x (mset (concat (map f' [0..<m])))"
    by (rule mset_concat_take [OF _ pick rest]) (use key in simp)
  have all: "\<forall>y \<in> set (concat (map f' [0..<m])). x \<le> y"
  proof
    fix y assume "y \<in> set (concat (map f' [0..<m]))"
    then have "y \<in># add_mset x (mset (concat (map f' [0..<m])))" by simp
    then have "y \<in> set (concat (map f [0..<m]))" unfolding ms [symmetric] by simp
    then obtain i where "i < m" "y \<in> set (f i)" by auto
    then show "x \<le> y" using small by blast
  qed
  have pm: "sort (concat (map f [0..<m])) = x # sort (concat (map f' [0..<m]))" by (rule sort_pick_min [OF ms all])
  have "out @ sort (concat (map f [0..<m])) = sort (segment ?runs gs (run_start ?n w gs m))"
    using g by (simp add: group_at_def Let_def f_def [abs_def])
  then have srt: "(out @ [x]) @ sort (concat (map f' [0..<m])) = sort (segment ?runs gs (run_start ?n w gs m))"
    by (simp add: pm)
  have pos: "run_start ?n w gs i \<le> wt_next ?wt ! i \<and> wt_next ?wt ! i \<le> wt_end wt ! i
     \<and> wt_heads ?wt ! i = map_option D (run_key ?runs m ?wt i)" if "i < m" for i
  proof (cases "i = r")
    case True
    then show ?thesis using group_at_run [OF g that] key len by simp
  next
    case False
    then show ?thesis using group_at_run [OF g that] take_head_other [of i r ?runs m D wt] by (simp del: take_head_fields(7)) (simp add: take_head_fields(7))
  qed
  show ?thesis
    unfolding group_at_def Let_def using g gs srt pos
    by (simp add: f'_def [abs_def] group_at_def Let_def)
qed

text \<open>The nodes off the path of the leaf stay right.\<close>

lemma replay_correct:
  assumes t: "tree_ok cfg m wt" and r: "r < m" and old: "\<forall>i. 0 < i \<and> i < 2 * wt_leaves wt \<longrightarrow> node_correct runs m wt i"
    and i: "0 < i" "i < 2 * wt_leaves wt" "\<not> below i ((wt_leaves wt + r) div 2)"
  shows "node_correct runs m (take_head D runs m r wt) i"
proof (cases "i = wt_leaves wt + r")
  case True
  have "length (wt_nodes wt) = 2 * wt_leaves wt" using t by (simp add: tree_ok_def)
  then show ?thesis using True i tree_ok_leaves [OF t] by (simp add: node_correct_def best_leaf)
next
  case False
  have t': "tree_ok cfg m (take_head D runs m r wt)" using t by simp
  have "\<not> below i (wt_leaves wt + r)" using False i(3) below_step by blast
  then have "best (wt_leaves wt) (run_key runs m (take_head D runs m r wt)) i = best (wt_leaves wt) (run_key runs m wt) i"
    using best_update [OF run_key_live [OF t, of runs] _ _ i(1,2)] run_key_live [OF t', of runs] take_head_other
    by (metis take_head_fields(1))
  with old i False show ?thesis by (simp add: node_correct_def)
qed

section \<open>Emitting\<close>

lemma writing_bytes: "writing f c \<Longrightarrow> df_bytes f = length c"
  by (simp add: writing_def)

text \<open>The end of a group.\<close>

lemma group_done:
  fixes se :: sort_session and xs :: "nat list"
  defines "m \<equiv> length (se_pages se)" and "runs \<equiv> block_sort (se_run_width se) xs" and "wt \<equiv> se_tree se"
  assumes me: "merging data D xs se" and st: "wt_stage wt = StageEmit" and root: "wt_nodes wt ! 1 = empty_run"
  defines "se' \<equiv> se\<lparr>se_group_start := wt_group_end wt, se_tree := wt\<lparr>wt_stage := StageIdle\<rparr>\<rparr>"
  shows "merging data D xs se'" "merge_todo data xs se' < merge_todo data xs se"
proof -
  let ?w = "se_run_width se" and ?gs = "se_group_start se" and ?ys = "block_sort (se_run_width se * m) xs"
  have busy: "wt_stage (se_tree se) \<noteq> StageIdle" using st by (simp add: wt_def)
  obtain f out where pf: "se_pass_file se = Some f" "writing f (encoded (map D (take ?gs ?ys @ out)))"
    and g: "group_at D xs ?w m ?gs out wt" and at: "tree_at data runs m se"
    using merging_group [OF me busy] by (metis m_def runs_def wt_def)
  note parts = mergingD [OF me]
  have t: "tree_ok (se_config se) m wt" using parts by (simp add: m_def wt_def)
  then obtain h where l: "wt_leaves wt = 2 ^ Suc h" by (auto simp: tree_ok_def)
  have none: "se_comparison se = None" and node: "\<forall>i. 0 < i \<and> i < 2 * wt_leaves wt \<longrightarrow> node_correct runs m wt i"
    using at st by (simp_all add: tree_at_def Let_def wt_def)
  have "node_correct runs m wt 1" using node tree_ok_leaves [OF t] by simp
  then have none_left: "run_key runs m wt r = None" for r
    using best_root [OF run_key_live [OF t, of runs] l] root by (simp add: node_correct_def)
  have gs: "?gs < length xs" "?w * m dvd ?gs" and stop: "wt_group_end wt = run_start (length xs) ?w ?gs m"
    using g by (simp_all add: group_at_def Let_def)
  have "wt_next wt ! r = wt_end wt ! r" if "r < m" for r
    using none_left [of r] group_at_run(2) [OF g that] that by (simp add: run_key_def split: if_splits)
  then have "map (\<lambda>r. segment runs (wt_next wt ! r) (wt_end wt ! r)) [0..<m] = map (\<lambda>_. []) [0..<m]"
    by (simp add: segment_def)
  then have left: "concat (map (\<lambda>r. segment runs (wt_next wt ! r) (wt_end wt ! r)) [0..<m]) = []"
    by (simp only: concat_eq_Nil_conv) simp
  have "out @ sort (concat (map (\<lambda>r. segment runs (wt_next wt ! r) (wt_end wt ! r)) [0..<m])) = sort (segment runs ?gs (wt_group_end wt))"
    using g unfolding group_at_def Let_def runs_def stop by blast
  then have out: "out = sort (segment runs ?gs (wt_group_end wt))" unfolding left by simp
  have m: "0 < m" using t by (simp add: tree_ok_def)
  have ge: "wt_group_end wt = min (?gs + ?w * m) (length xs)" by (simp add: stop run_start_def mult.commute)
  have "segment ?ys ?gs (wt_group_end wt) = out"
    using block_merge [OF parts(3) m gs(2) less_imp_le [OF gs(1)]] by (simp add: out ge runs_def)
  then have take: "take ?gs ?ys @ out = take (wt_group_end wt) ?ys"
    using take_segment [of ?gs "wt_group_end wt" ?ys] gs(1) by (auto simp: ge)
  have "?w * m dvd wt_group_end wt \<or> wt_group_end wt = length xs"
    using gs(2) by (simp add: ge min_def)
  moreover have "wt_group_end wt \<le> length xs" by (simp add: ge)
  ultimately show "merging data D xs se'"
    using parts pf(1) pf(2) [unfolded take] none
    by (intro merging_idleI [of se' xs D f]) (simp_all add: se'_def m_def wt_def runs_def reads_runs_def)
  have "0 < ?w * m" using parts(3) m by simp
  then have "?gs < wt_group_end wt" using gs(1) unfolding ge by linarith
  then show "merge_todo data xs se' < merge_todo data xs se"
    using gs(1) by (simp add: merge_todo_def se'_def emitted_bytes_def comparison_left_def diff_less_mono2)
qed

context sort_ranks begin

lemma emit_winner_spec:
  fixes se :: sort_session and xs :: "nat list"
  assumes w: "world_ok w" and cfg: "se_config se = cfg" and ok: "\<forall>p \<in> set xs. okay p" and n: "128 * length xs \<le> u64_max"
    and me: "merging data D xs se" and st: "wt_stage (se_tree se) = StageEmit"
  shows "attains sort_failure (emit_winner dk) ((se, budget), w)
    (\<lambda>_ ((se', budget'), w'). world_ok w' \<and> same_sort se se' \<and> merging data D xs se' \<and> merge_todo data xs se' < merge_todo data xs se)"
proof -
  let ?m = "length (se_pages se)" and ?w = "se_run_width se" and ?gs = "se_group_start se" and ?wt = "se_tree se"
  define runs where "runs = block_sort ?w xs"
  have busy: "wt_stage ?wt \<noteq> StageIdle" using st by simp
  note parts = mergingD [OF me]
  have t: "tree_ok cfg ?m ?wt" using parts cfg by simp
  then obtain h where l: "wt_leaves ?wt = 2 ^ Suc h" by (auto simp: tree_ok_def)
  have len: "\<not> 1 \<ge> length (wt_nodes ?wt)" using t tree_ok_leaves [OF t] by (simp add: tree_ok_def)
  show ?thesis
  proof (cases "wt_nodes ?wt ! 1 = empty_run")
    case True
    then show ?thesis using len w group_done [OF me st True]
      by (simp add: emit_winner_def wp_simps Let_def same_sort_def)
  next
    case False
    define r where "r = wt_nodes ?wt ! 1"
    have root: "wt_nodes ?wt ! Suc 0 = r" by (simp add: r_def)
    obtain f out where pf: "se_pass_file se = Some f" "writing f (encoded (map D (take ?gs (block_sort (?w * ?m) xs) @ out)))"
      and g: "group_at D xs ?w ?m ?gs out ?wt" and at: "tree_at data runs ?m se"
      using merging_group [OF me busy] by (metis runs_def)
    have none: "se_comparison se = None" and node: "\<forall>i. 0 < i \<and> i < 2 * wt_leaves ?wt \<longrightarrow> node_correct runs ?m ?wt i"
      using at st by (simp_all add: tree_at_def Let_def)
    have "node_correct runs ?m ?wt 1" using node tree_ok_leaves [OF t] by simp
    then obtain x where x: "run_key runs ?m ?wt r = Some x" "\<forall>i y. run_key runs ?m ?wt i = Some y \<longrightarrow> x \<le> y"
      using best_root [OF run_key_live [OF t, of runs] l] False by (auto simp: node_correct_def r_def)
    note key = run_key_below [OF x(1)]
    have r: "r < ?m" "r < length (wt_heads ?wt)" "r < length (wt_next ?wt)" "r < wt_leaves ?wt"
      "length (wt_nodes ?wt) = 2 * wt_leaves ?wt" using t key by (auto simp: tree_ok_def)
    have head: "wt_heads ?wt ! r = Some (D x)" using group_at_run(4) [OF g r(1)] x(1) by (simp add: runs_def)
    let ?c = "encoded (map D (take ?gs (block_sort (?w * ?m) xs) @ out))"
    define wt1 where "wt1 = ?wt\<lparr>wt_heads := (wt_heads ?wt)[r := None], wt_next := (wt_next ?wt)[r := wt_next ?wt ! r + 1]\<rparr>"
    have run: "attains X (emit_winner dk) ((se, budget), w) Q
      = attains X (append_bytes dk (encode_descriptor (D x))) ((f, se_shared se), w) (\<lambda>_ ((f', sh), w').
          attains X (load_head dk r) ((se\<lparr>se_shared := sh, se_pass_file := Some f', se_tree := wt1\<rparr>, budget - 128), w')
            (\<lambda>_ ((se', budget'), w'). Q () ((se'\<lparr>se_tree := (se_tree se')\<lparr>
                 wt_nodes := (wt_nodes (se_tree se'))[wt_leaves (se_tree se') + r := (if wt_heads (se_tree se') ! r = None then empty_run else r)],
                 wt_stage := StageReplay ((wt_leaves (se_tree se') + r) div 2)\<rparr>\<rparr>, budget'), w')))" for X Q
      using len False [unfolded One_nat_def root] head r by (simp add: emit_winner_def wp_simps Let_def root pf(1) modify_tree_def modify_session_def
          wt1_def case_prod_unfold option_or_def cong: if_cong split del: if_split)
    show ?thesis unfolding run
    proof (rule attains_weaken [OF append_spec [OF w pf(2)]], goal_cases)
      case (1 u sw)
      obtain f' sh w1 where sw: "sw = ((f', sh), w1)" by (metis surj_pair)
      with 1 have 1: "world_ok w1" "writing f' (?c @ encode_descriptor (D x))" by auto
      define se1 where "se1 = se\<lparr>se_shared := sh, se_pass_file := Some f', se_tree := wt1\<rparr>"
      have t1: "tree_ok cfg (length (se_pages se1)) (se_tree se1)" "r < length (se_pages se1)" "wt_end (se_tree se1) ! r \<le> length runs"
        "reads_runs D runs se1" "\<forall>p \<in> set runs. okay p" "128 * length runs \<le> u64_max"
        using t r parts group_at_run(3) [OF g r(1)] ok n by (simp_all add: se1_def wt1_def tree_ok_def runs_def reads_runs_def)
      have less: "wt_end ?wt ! r \<le> length runs" using t1(3) by (simp add: se1_def wt1_def)
      show ?case unfolding sw prod.case se1_def [symmetric]
      proof (rule attains_weaken [OF load_head_spec [OF 1(1) t1(4,5,6) t1(1-3)]], goal_cases)
        case (1 u sw)
        obtain se2 budget2 w2 where sw: "sw = ((se2, budget2), w2)" by (metis surj_pair)
        with 1 have 2: "world_ok w2" "loaded se1 se2" "reads_runs D runs se2"
          "se_tree se2 = wt1\<lparr>wt_heads := (wt_heads wt1)[r := map_option D (run_key runs ?m wt1 r)]\<rparr>"
          by (auto simp: se1_def)
        define wt3 where "wt3 = take_head D runs ?m r ?wt"
        define se3 where "se3 = se2\<lparr>se_tree := wt3\<rparr>"
        have tree: "(se_tree se2)\<lparr>wt_nodes := (wt_nodes (se_tree se2))[wt_leaves (se_tree se2) + r := (if wt_heads (se_tree se2) ! r = None then empty_run else r)],
                 wt_stage := StageReplay ((wt_leaves (se_tree se2) + r) div 2)\<rparr> = wt3"
          using r by (simp add: 2(4) wt3_def take_head_def Let_def leaf_value_def) (simp add: wt1_def run_key_def)
        have same: "loaded se1 se3" using 2(2) loaded_trans [OF _ loaded_tree] by (simp add: se3_def)
        have fields: "same_sort se se3" "se_phase se3 = se_phase se" "se_run_width se3 = ?w" "length (se_pages se3) = ?m"
          "se_pass_file se3 = Some f'" "se_group_start se3 = ?gs" "se_comparison se3 = None" "se_tree se3 = wt3"
          "se_config se3 = cfg" "se_records se3 = length xs"
          using same none parts cfg by (simp_all add: loaded_def same_sort_def se1_def) (simp add: se3_def)
        have g3: "group_at D xs ?w ?m ?gs (out @ [x]) wt3"
          using group_pick [OF g t parts(3) x [unfolded runs_def]] by (simp add: wt3_def runs_def)
        have l3: "0 < (wt_leaves ?wt + r) div 2" "(wt_leaves ?wt + r) div 2 < wt_leaves ?wt" using tree_ok_leaves [OF t] r by simp_all
        have "tree_at data runs ?m se3"
          using replay_correct [OF t r(1) node, where D = D] l3
          by (simp add: tree_at_def fields wt3_def plays_def del: take_head_fields(6-8))
        moreover have "writing f' (encoded (map D (take ?gs (block_sort (?w * ?m) xs) @ out @ [x])))"
          using \<open>writing f' (?c @ encode_descriptor (D x))\<close> by simp
        moreover have "reads_runs D runs se3" using 2(3) by (simp add: se3_def)
        moreover have "tree_ok cfg ?m wt3" using t by (simp add: wt3_def)
        ultimately have me3: "merging data D xs se3"
          using parts cfg g3
          by (intro merging_groupI [of se3 xs D f' "out @ [x]"]) (simp_all add: fields runs_def wt3_def)
        have "df_bytes f < 128 * length xs" "df_bytes f' = df_bytes f + 128"
        proof -
          have "?gs < length xs" using g by (simp add: group_at_def Let_def)
          have "set (take ?gs (block_sort (?w * ?m) xs)) \<subseteq> set xs" using set_take_subset by fastforce
          with group_out_set [OF g3] ok fits
          have prefix: "\<forall>d \<in> set (map D (take ?gs (block_sort (?w * ?m) xs) @ out)). length (ds_prefix d) = 32" "length (ds_prefix (D x)) = 32"
            by (auto simp: descriptor_fits_def)
          have "?gs + length (out @ [x]) \<le> length xs" using group_out_le [OF g3] run_start_le order_trans by blast
          then have "length (take ?gs (block_sort (?w * ?m) xs) @ out) < length xs" using \<open>?gs < length xs\<close> by simp
          then have "length ?c < 128 * length xs" unfolding length_encoded [OF prefix(1)] by simp
          then show "df_bytes f < 128 * length xs" using writing_bytes [OF pf(2)] by simp
          show "df_bytes f' = df_bytes f + 128"
            using writing_bytes [OF pf(2)] writing_bytes [OF \<open>writing f' (?c @ encode_descriptor (D x))\<close>] length_encode_descriptor [OF prefix(2)] by simp
        qed
        then have "128 * length xs - df_bytes f' < 128 * length xs - df_bytes f" by linarith
        then have "merge_todo data xs se3 < merge_todo data xs se"
          using pf(1) by (simp add: merge_todo_def fields emitted_bytes_def)
        with me3 2(1) fields(1) show ?case by (simp add: sw tree se3_def)
      qed
    qed
  qed
qed

end

end
