(* ===== verification/Sort_Maps.thy ===== *)
theory Sort_Maps imports Sort_Merge_Step begin

text \<open>
  Writing the two maps from the one run that is left: the order map gets an entry per record, the
  builder of the inverse a pair of row and rank; then the buckets of the inverse are placed.
\<close>

section \<open>The state of the maps\<close>

definition order_bytes :: "(nat \<Rightarrow> descriptor) \<Rightarrow> nat list \<Rightarrow> nat \<Rightarrow> nat \<Rightarrow> bytes" where
  "order_bytes D zs size_bytes j = map_header (length zs) size_bytes 24 @ concat (map (\<lambda>p. order_entry (D p)) (take j zs))"

definition row_ranks :: "(nat \<Rightarrow> descriptor) \<Rightarrow> nat list \<Rightarrow> nat \<Rightarrow> (nat \<times> nat) list" where
  "row_ranks D zs j = zip (map (\<lambda>p. ds_row (D p)) (take j zs)) [0..<j]"

definition mapping :: "(nat \<Rightarrow> descriptor) \<Rightarrow> nat list \<Rightarrow> sort_session \<Rightarrow> bool" where
  "mapping D zs se \<longleftrightarrow>
     (let n = length zs; size_bytes = fp_size (se_snapshot se); j = se_inverse_at se in
      se_phase se = BuildingInverse \<and> se_records se = n \<and> j \<le> n
      \<and> (\<exists>order inv ib. se_order se = Some order \<and> se_inverse se = Some inv \<and> se_inverse_builder se = Some ib \<and> ib_records ib = n
           \<and> (if se_run_file se = None
              then j = n \<and> stored order (order_bytes D zs size_bytes n)
                \<and> placing ib inv (map_header n size_bytes 8) (row_ranks D zs n)
              else reads_runs D zs se \<and> se_pages se \<noteq> [] \<and> writing order (order_bytes D zs size_bytes j)
                \<and> stored inv (map_header n size_bytes 8 @ replicate (8 * n) 0)
                \<and> collects ib (row_ranks D zs j) \<and> room ib)))"

text \<open>The two maps of the finished sort.\<close>

definition mapped :: "(nat \<Rightarrow> descriptor) \<Rightarrow> nat list \<Rightarrow> sort_session \<Rightarrow> bool" where
  "mapped D zs se \<longleftrightarrow>
     (let n = length zs; size_bytes = fp_size (se_snapshot se); rows = map (\<lambda>p. ds_row (D p)) zs in
      se_phase se = SortComplete \<and> se_records se = n
      \<and> (\<exists>order inv ranks. se_order se = Some order \<and> se_inverse se = Some inv
           \<and> stored order (order_bytes D zs size_bytes n) \<and> stored inv (map_header n size_bytes 8 @ rank_bytes ranks)
           \<and> length ranks = n \<and> (\<forall>row < n. ranks ! row < n \<and> rows ! (ranks ! row) = row)))"

definition maps_todo :: "sort_session \<Rightarrow> nat \<times> nat \<times> nat" where
  "maps_todo se =
     (se_records se - se_inverse_at se, if se_run_file se = None then 0 else 1,
      case se_inverse_builder se of None \<Rightarrow> 0 | Some ib \<Rightarrow> place_left ib)"

text \<open>Every row once.\<close>

definition covers :: "(nat \<Rightarrow> descriptor) \<Rightarrow> nat list \<Rightarrow> bool" where
  "covers D zs \<longleftrightarrow> distinct (map (\<lambda>p. ds_row (D p)) zs) \<and> (\<forall>p \<in> set zs. ds_row (D p) < length zs)"

lemma order_bytes_Suc: "j < length zs \<Longrightarrow> order_bytes D zs s (Suc j) = order_bytes D zs s j @ order_entry (D (zs ! j))"
  by (simp add: order_bytes_def take_Suc_conv_app_nth)

lemma row_ranks_Suc: "j < length zs \<Longrightarrow> row_ranks D zs (Suc j) = row_ranks D zs j @ [(ds_row (D (zs ! j)), j)]"
  by (simp add: row_ranks_def take_Suc_conv_app_nth)

lemma row_ranks_rows: "j \<le> length zs \<Longrightarrow> map fst (row_ranks D zs j) = map (\<lambda>p. ds_row (D p)) (take j zs)"
  by (simp add: row_ranks_def map_fst_zip)

lemma covers_good:
  assumes "covers D zs"
  shows "j \<le> length zs \<Longrightarrow> distinct (map fst (row_ranks D zs j))"
    and "distinct (map fst (row_ranks D zs (length zs))) \<and> fst ` set (row_ranks D zs (length zs)) = {..<length zs}"
proof -
  have d: "distinct (map (\<lambda>p. ds_row (D p)) zs)" and r: "\<forall>p \<in> set zs. ds_row (D p) < length zs"
    using assms by (simp_all add: covers_def)
  show 1: "j \<le> length zs \<Longrightarrow> distinct (map fst (row_ranks D zs j))" for j
    using distinct_take [OF d, of j] by (simp add: row_ranks_rows take_map)
  have sub: "set (map (\<lambda>p. ds_row (D p)) zs) \<subseteq> {..<length zs}" using r by auto
  have "card (set (map (\<lambda>p. ds_row (D p)) zs)) = length zs" using distinct_card [OF d] by simp
  with sub have "set (map (\<lambda>p. ds_row (D p)) zs) = {..<length zs}" by (intro card_subset_eq) simp_all
  moreover have "fst ` set (row_ranks D zs (length zs)) = set (map fst (row_ranks D zs (length zs)))" by simp
  ultimately show "distinct (map fst (row_ranks D zs (length zs))) \<and> fst ` set (row_ranks D zs (length zs)) = {..<length zs}"
    using d row_ranks_rows [of "length zs" zs D] by simp
qed

lemma map_header_length [simp]: "length (map_header n s k) = 32"
  by (simp add: map_header_def ascii_def)

lemma refuses_True: "refuses True = sort_failure"
  by (simp add: refuses_def fun_eq_iff)

context sort_ranks begin

text \<open>One record into both maps.\<close>

lemma map_record_spec:
  fixes se :: sort_session
  assumes w: "world_ok w" and ok: "\<forall>p \<in> set zs. okay p" and n: "128 * length zs \<le> u64_max" and cov: "covers D zs"
    and m: "mapping D zs se" and j: "se_inverse_at se < length zs"
  shows "attains sort_failure (build_maps env dk) ((se, budget), w)
    (\<lambda>_ ((se', budget'), w'). world_ok w' \<and> se_snapshot se' = se_snapshot se \<and> se_config se' = se_config se \<and> mapping D zs se'
       \<and> maps_todo se' < maps_todo se)"
proof -
  let ?j = "se_inverse_at se" and ?n = "length zs" and ?s = "fp_size (se_snapshot se)"
  from m j obtain order inv ib where f: "se_order se = Some order" "se_inverse se = Some inv" "se_inverse_builder se = Some ib"
      "ib_records ib = ?n" "reads_runs D zs se" "se_pages se \<noteq> []" "writing order (order_bytes D zs ?s ?j)"
      "stored inv (map_header ?n ?s 8 @ replicate (8 * ?n) 0)" "collects ib (row_ranks D zs ?j)" "room ib"
    and ph: "se_phase se = BuildingInverse" "se_records se = ?n"
    by (auto simp: mapping_def Let_def split: if_splits)
  let ?d = "D (zs ! ?j)"
  have row: "ds_row ?d < ib_records ib" using cov j f(4) by (simp add: covers_def)
  have page: "0 < length (se_pages se)" using f(6) by simp
  have good: "True \<Longrightarrow> distinct (map fst (row_ranks D zs ?j @ [(ds_row ?d, ?j)]))"
    using covers_good(1) [OF cov, of "Suc ?j"] j by (simp add: row_ranks_Suc)
  have run: "attains X (build_maps env dk) ((se, budget), w) Q
     = attains X (load_descriptor dk ?j 0) ((se, budget), w) (\<lambda>d sw.
         attains X (and_then (on_order_file (append_bytes dk (order_entry d))) (\<lambda>_.
         and_then (on_inverse_builder (inverse_push dk (ds_row d) ?j)) (\<lambda>_.
         and_then (modify_session (\<lambda>se. se\<lparr>se_inverse_at := se_inverse_at se + 1\<rparr>)) (\<lambda>_. spend 128)))) sw Q)" for X Q
    using j ph by (simp add: build_maps_def wp_simps)
  show ?thesis unfolding run
  proof (rule attains_weaken [OF load_descriptor_spec [OF w f(5) ok n j page]], goal_cases)
    case (1 d sw)
    obtain se1 budget1 w1 where sw: "sw = ((se1, budget1), w1)" by (metis surj_pair)
    with 1 have 1: "d = ?d" "world_ok w1" "loaded se se1" "reads_runs D zs se1" by auto
    have f1: "se_order se1 = Some order" "se_inverse se1 = Some inv" "se_inverse_builder se1 = Some ib" "se_snapshot se1 = se_snapshot se"
      "se_config se1 = se_config se" "se_phase se1 = BuildingInverse" "se_records se1 = ?n" "length (se_pages se1) = length (se_pages se)"
      "se_inverse_at se1 = ?j"
      using 1(3) f ph by (simp_all add: loaded_def same_sort_def)
    show ?case unfolding sw attains_and_then attains_on_file f1 option.case
    proof (rule attains_weaken [OF append_spec [OF 1(2) f(7)]], goal_cases)
      case (1 u sw)
      obtain order' sh2 w2 where sw: "sw = ((order', sh2), w2)" by (metis surj_pair)
      with 1 have 2: "world_ok w2" "writing order' (order_bytes D zs ?s ?j @ order_entry d)" by auto
      have step: "attains X (on_inverse_builder (inverse_push dk (ds_row d) ?j)) ((se1\<lparr>se_shared := sh2, se_order := Some order'\<rparr>, budget1), w2) Q
        = attains X (inverse_push dk (ds_row d) ?j) ((ib, sh2), w2) (\<lambda>a ((ib', sh), w').
            Q a ((se1\<lparr>se_shared := sh2, se_order := Some order', se_inverse_builder := Some ib', se_shared := sh\<rparr>, budget1), w'))" for X Q
        by (simp add: on_inverse_builder_def wp_simps f1 case_prod_unfold)
      have push: "attains sort_failure (inverse_push dk (ds_row d) ?j) ((ib, sh2), w2)
        (\<lambda>_ ((ib', sh'), w'). world_ok w' \<and> collects ib' (row_ranks D zs (Suc ?j)) \<and> room ib' \<and> same_setup ib ib')"
        unfolding \<open>d = ?d\<close> refuses_True [symmetric]
        by (rule attains_weaken [OF push_spec [OF 2(1) f(9,10) row j [folded f(4)] good]]) (auto simp: row_ranks_Suc j)
      show ?case unfolding sw prod.case step
      proof (rule attains_weaken [OF push], goal_cases)
        case (1 u sw)
        obtain ib' sh3 w3 where sw: "sw = ((ib', sh3), w3)" by (metis surj_pair)
        with 1 have 3: "world_ok w3" "collects ib' (row_ranks D zs (Suc ?j))" "room ib'" "ib_records ib' = ?n"
          using f(4) by (auto simp: same_setup_def)
        define se3 where "se3 = se1\<lparr>se_shared := sh2, se_order := Some order', se_inverse_builder := Some ib', se_shared := sh3, se_inverse_at := Suc ?j\<rparr>"
        have "reads_runs D zs se3" using \<open>reads_runs D zs se1\<close> by (simp add: se3_def reads_runs_def)
        moreover have "se_pages se3 \<noteq> []" using f(6) f1(8) by (auto simp: se3_def)
        moreover have "writing order' (order_bytes D zs ?s (Suc ?j))" using 2(2) j \<open>d = ?d\<close> by (simp add: order_bytes_Suc)
        ultimately have "mapping D zs se3"
          using 3 f f1 j by (simp add: mapping_def Let_def se3_def) (auto simp: reads_runs_def)
        moreover have "maps_todo se3 < maps_todo se" using diff_less_mono2 [OF lessI j] ph f1 by (simp add: maps_todo_def se3_def)
        ultimately show ?case using 3(1) f1 by (simp add: sw wp_simps se3_def)
      qed
    qed
  qed
qed

text \<open>All records are in: the buckets are flushed and the run is dropped.\<close>

lemma drop_file_spec:
  assumes "world_ok w" and "\<And>sh w'. world_ok w' \<Longrightarrow> Q () ((se\<lparr>se_shared := sh\<rparr>, budget), w')"
  shows "attains sort_failure (drop_file dk f) ((se, budget), w) Q"
proof -
  have "attains sort_failure (\<lambda>sw. (Ok (), case f of None \<Rightarrow> sw | Some f \<Rightarrow> disk_file_drop dk f sw)) (se_shared se, w)
      (\<lambda>a (sh, w'). Q a ((se\<lparr>se_shared := sh\<rparr>, budget), w'))"
  proof (cases f)
    case None
    then show ?thesis using assms(2) [OF assms(1), of "se_shared se"] by (simp add: attains_def)
  next
    case (Some g)
    have "world_ok (snd (disk_file_drop dk g (se_shared se, w)))" by (rule drop_ok [OF assms(1)])
    then show ?thesis using assms(2) by (auto simp: attains_def Some split: prod.split)
  qed
  then show ?thesis unfolding drop_file_def attains_on_sort_shared .
qed

lemma maps_collected_spec:
  fixes se :: sort_session
  assumes w: "world_ok w" and cov: "covers D zs" and m: "mapping D zs se" and j: "se_inverse_at se = length zs"
    and run_file: "se_run_file se \<noteq> None"
  shows "attains sort_failure (build_maps env dk) ((se, budget), w)
    (\<lambda>_ ((se', budget'), w'). world_ok w' \<and> se_snapshot se' = se_snapshot se \<and> se_config se' = se_config se \<and> mapping D zs se'
       \<and> maps_todo se' < maps_todo se)"
proof -
  let ?n = "length zs" and ?s = "fp_size (se_snapshot se)"
  from m j run_file obtain order inv ib where f: "se_order se = Some order" "se_inverse se = Some inv" "se_inverse_builder se = Some ib"
      "ib_records ib = ?n" "writing order (order_bytes D zs ?s ?n)"
      "stored inv (map_header ?n ?s 8 @ replicate (8 * ?n) 0)" "collects ib (row_ranks D zs ?n)"
    and ph: "se_phase se = BuildingInverse" "se_records se = ?n"
    by (auto simp: mapping_def Let_def split: if_splits)
  have run: "attains X (build_maps env dk) ((se, budget), w) Q
     = attains X (finish_buckets dk [0..<ib_buckets ib]) ((ib, se_shared se), w) (\<lambda>_ ((ib', sh), w').
         attains X (on_order_file (finish_writing dk)) ((se\<lparr>se_inverse_builder := Some ib', se_shared := sh\<rparr>, budget), w') (\<lambda>_ sw.
         attains X (with_state (\<lambda>(se, _).
              and_then (modify_session (\<lambda>se. se\<lparr>se_run_file := None\<rparr>)) (\<lambda>_. drop_file dk (se_run_file se)))) sw Q))" for X Q
    using j ph f run_file by (simp add: build_maps_def wp_simps on_inverse_builder_def case_prod_unfold finish_collecting_def)
  have good: "True \<Longrightarrow> distinct (map fst (row_ranks D zs ?n)) \<and> fst ` set (row_ranks D zs ?n) = {..<?n}"
    using covers_good(2) [OF cov] by simp
  have fin: "attains sort_failure (finish_buckets dk [0..<ib_buckets ib]) ((ib, se_shared se), w)
      (\<lambda>_ ((ib', sh'), w'). world_ok w' \<and> collected ib' (row_ranks D zs ?n) \<and> collects ib' (row_ranks D zs ?n) \<and> same_setup ib ib')"
    unfolding refuses_True [symmetric]
    by (rule attains_weaken [OF finish_buckets_spec [OF good w f(7,4)]]) auto
  show ?thesis unfolding run
  proof (rule attains_weaken [OF fin], goal_cases)
    case (1 u sw)
    obtain ib' sh1 w1 where sw: "sw = ((ib', sh1), w1)" by (metis surj_pair)
    with 1 f(4) have 1: "world_ok w1" "collected ib' (row_ranks D zs ?n)" "ib_bucket ib' = 0" "ib_read ib' = 0" "ib_records ib' = ?n"
      by (auto simp: collects_def same_setup_def)
    have place: "placing ib' inv (map_header ?n ?s 8) (row_ranks D zs ?n)"
      by (rule place_start [OF 1(2-4)]) (use f(6) 1(5) in simp_all)
    show ?case unfolding sw prod.case
    proof (simp add: wp_simps f(1), rule attains_weaken [OF finish_spec [OF 1(1) f(5)]], goal_cases)
      case (1 u sw)
      obtain order' sh2 w2 where sw: "sw = ((order', sh2), w2)" by (metis surj_pair)
      with 1 have 2: "world_ok w2" "stored order' (order_bytes D zs ?s ?n)" by auto
      define se2 where "se2 = se\<lparr>se_inverse_builder := Some ib', se_shared := sh2, se_order := Some order', se_run_file := None\<rparr>"
      have "mapping D zs (se2\<lparr>se_shared := sh\<rparr>)" for sh
        using 2 f ph j place \<open>ib_records ib' = ?n\<close> by (simp add: mapping_def Let_def se2_def)
      moreover have "maps_todo (se2\<lparr>se_shared := sh\<rparr>) < maps_todo se" for sh
        using run_file by (auto simp: maps_todo_def se2_def)
      ultimately have "attains sort_failure (drop_file dk (se_run_file se)) ((se2, budget), w2)
        (\<lambda>_ ((se', budget'), w'). world_ok w' \<and> se_snapshot se' = se_snapshot se \<and> se_config se' = se_config se \<and> mapping D zs se'
           \<and> maps_todo se' < maps_todo se)"
        by (intro drop_file_spec [OF 2(1)]) (simp add: se2_def)
      then show ?case by (simp add: sw wp_simps se2_def)
    qed
  qed
qed

text \<open>Placing the buckets, and the end of the sort.\<close>

lemma maps_placed_spec:
  fixes se :: sort_session
  assumes w: "world_ok w" and cov: "covers D zs" and m: "mapping D zs se" and run_file: "se_run_file se = None"
  shows "attains sort_failure (build_maps env dk) ((se, budget), w)
    (\<lambda>_ ((se', budget'), w'). world_ok w' \<and> se_snapshot se' = se_snapshot se \<and> se_config se' = se_config se
       \<and> (mapping D zs se' \<and> maps_todo se' < maps_todo se \<or> mapped D zs se'))"
proof -
  let ?n = "length zs" and ?s = "fp_size (se_snapshot se)"
  from m run_file obtain order inv ib where f: "se_order se = Some order" "se_inverse se = Some inv" "se_inverse_builder se = Some ib"
      "ib_records ib = ?n" "stored order (order_bytes D zs ?s ?n)" "placing ib inv (map_header ?n ?s 8) (row_ranks D zs ?n)"
    and ph: "se_phase se = BuildingInverse" "se_records se = ?n" "se_inverse_at se = ?n"
    by (auto simp: mapping_def Let_def split: if_splits)
  have run: "attains X (build_maps env dk) ((se, budget), w) Q
     = attains X (inverse_place dk) ((ib, inv, budget, se_shared se), w) (\<lambda>complete ((ib', f', b', sh), w').
         attains X (if complete then and_then (drop_builder dk) (\<lambda>_. modify_session (\<lambda>se. se\<lparr>se_phase := SortComplete\<rparr>)) else give ())
           ((se\<lparr>se_inverse_builder := Some ib', se_inverse := Some f', se_shared := sh\<rparr>, b'), w') Q)" for X Q
    using ph f run_file by (simp add: build_maps_def wp_simps place_step_def case_prod_unfold)
  have place: "attains sort_failure (inverse_place dk) ((ib, inv, budget, se_shared se), w)
      (\<lambda>complete ((ib', f', budget', sh'), w'). world_ok w' \<and> placing ib' f' (map_header ?n ?s 8) (row_ranks D zs ?n)
         \<and> complete = (ib_bucket ib' = ib_buckets ib') \<and> ib_records ib' = ?n
         \<and> (complete \<or> place_left ib' < place_left ib))"
  proof (cases "ib_bucket ib = ib_buckets ib")
    case True
    then show ?thesis using w f by (simp add: inverse_place_def wp_simps)
  next
    case False
    then have more: "ib_bucket ib < ib_buckets ib" using f(6) by (simp add: placing_def)
    have good: "True \<Longrightarrow> distinct (map fst (row_ranks D zs ?n))" using covers_good(2) [OF cov] by simp
    show ?thesis unfolding refuses_True [symmetric]
      by (rule attains_weaken [OF place_spec [OF w f(6) more good]]) (use f(4) in \<open>auto simp: same_setup_def\<close>)
  qed
  show ?thesis unfolding run
  proof (rule attains_weaken [OF place], goal_cases)
    case (1 complete sw)
    obtain ib' f' b' sh1 w1 where sw: "sw = ((ib', f', b', sh1), w1)" by (metis surj_pair)
    with 1 have 1: "world_ok w1" "placing ib' f' (map_header ?n ?s 8) (row_ranks D zs ?n)"
      "complete = (ib_bucket ib' = ib_buckets ib')" "ib_records ib' = ?n" "complete \<or> place_left ib' < place_left ib" by auto
    define se1 where "se1 = se\<lparr>se_inverse_builder := Some ib', se_inverse := Some f', se_shared := sh1\<rparr>"
    show ?case
    proof (cases complete)
      case False
      have "mapping D zs se1" using f ph run_file 1 by (simp add: mapping_def Let_def se1_def)
      moreover have "maps_todo se1 < maps_todo se" using False 1(5) f ph by (simp add: maps_todo_def se1_def)
      ultimately show ?thesis using False 1(1) by (simp add: sw wp_simps se1_def)
    next
      case True
      let ?rows = "map (\<lambda>p. ds_row (D p)) zs"
      have pl: "placing ib' f' (map_header ?n ?s 8) (zip ?rows [0..<length ?rows])" using 1(2) by (simp add: row_ranks_def)
      obtain ranks where ranks: "stored f' (map_header ?n ?s 8 @ rank_bytes ranks)" "length ranks = length ?rows"
        "\<forall>row < length ?rows. ranks ! row < length ?rows \<and> ?rows ! (ranks ! row) = row"
        by (rule placed_inverse [OF pl]) (use 1 True in auto)
      define se2 where "se2 = se1\<lparr>se_inverse_builder := None, se_shared := sh1\<rparr>"
      have done2: "mapped D zs (se2\<lparr>se_shared := sh, se_phase := SortComplete\<rparr>)" for sh
      proof -
        have "length ranks = ?n" "\<forall>row < ?n. ranks ! row < ?n \<and> ?rows ! (ranks ! row) = row"
          using ranks(2,3) by (simp_all only: length_map)
        moreover have "se_phase (se2\<lparr>se_shared := sh, se_phase := SortComplete\<rparr>) = SortComplete"
          "se_records (se2\<lparr>se_shared := sh, se_phase := SortComplete\<rparr>) = ?n"
          "se_order (se2\<lparr>se_shared := sh, se_phase := SortComplete\<rparr>) = Some order"
          "se_inverse (se2\<lparr>se_shared := sh, se_phase := SortComplete\<rparr>) = Some f'"
          "se_snapshot (se2\<lparr>se_shared := sh, se_phase := SortComplete\<rparr>) = se_snapshot se"
          using f ph by (simp_all add: se2_def se1_def)
        ultimately show ?thesis using ranks(1) f(5) unfolding mapped_def Let_def by metis
      qed
      obtain sh2 w2 where r: "disk_file_drop dk (ib_pairs ib') (sh1, w1) = (sh2, w2)" by fastforce
      with drop_ok [OF 1(1), of "ib_pairs ib'" sh1] have w2: "world_ok w2" by simp
      have "attains X (drop_builder dk) ((se1, b'), w1) Q = Q () ((se2\<lparr>se_shared := with_resources (release (ib_memory ib')) sh2\<rparr>, b'), w2)" for X Q
        by (simp add: drop_builder_def wp_simps se1_def se2_def) (simp add: attains_def r release_shared_def)
      then show ?thesis using True w2 done2 by (simp add: sw wp_simps se1_def [symmetric]) (simp add: se2_def se1_def)
    qed
  qed
qed

end

end
