(* ===== verification/Sort_Pass.thy ===== *)
theory Sort_Pass imports Sort_Emit Sort_Maps begin

text \<open>
  From runs to maps: a pass that is over makes its file the run file and its groups the runs, until one
  run is left, of which the maps are made.
\<close>

context sort_ranks begin

lemma attains_on_shared [wp_simps]:
  "attains E (on_shared m) ((f, sh), w) Q = attains E m (sh, w) (\<lambda>a (sh', w'). Q a ((f, sh'), w'))"
  by (simp add: on_shared_def wp_simps case_prod_unfold)

lemma filled_then:
  assumes "world_ok w" "\<And>w'. world_ok w' \<Longrightarrow> Q (replicate n z) w'"
  shows "attains sort_failure (filled env n z) w Q"
  unfolding filled_def attains_and_then attains_give
  using try_reserve_ok [OF assms(1), of n] assms(2)
  by (auto simp: attains_def try_reserve_def split: prod.splits)

lemma tree_new_one:
  assumes "world_ok w" shows "attains sort_failure (tree_new env 1) w (\<lambda>_ w'. world_ok w')"
proof -
  have leaves: "next_power_of_two 1 = 1" by (simp add: next_power_of_two.simps)
  have ok: "world_ok (snd (try_reserve env SortAllocation n w'))" "fst (try_reserve env SortAllocation n w') = Ok ()
     \<or> fst (try_reserve env SortAllocation n w') = Err SortAllocation" if "world_ok w'" for n w'
    using try_reserve_ok [OF that, of n] by (auto simp: try_reserve_def split: prod.splits)
  show ?thesis
    unfolding tree_new_def leaves Let_def
    by (simp add: checked_mul_def option_or_def wp_simps, intro filled_then assms, simp_all)
qed

lemma create_maps_spec:
  assumes w: "world_ok w" and n: "16 * n \<le> u64_max"
  shows "attains sort_failure (create_maps env dk n s) (sh, w)
    (\<lambda>(order, inv, ib) (sh', w'). world_ok w' \<and> writing order (map_header n s 24)
       \<and> stored inv (map_header n s 8 @ replicate (8 * n) 0) \<and> collects ib [] \<and> room ib \<and> ib_records ib = n)"
proof -
  have mul: "checked_mul n 8 = Some (8 * n)" using n by (simp add: checked_mul_def mult.commute)
  have start: "attains sort_failure (inverse_new env dk n map_bucket_rows map_bucket_buffer_bytes) (sh, w)
    (\<lambda>ib (sh', w'). world_ok w' \<and> collects ib [] \<and> room ib \<and> ib_records ib = n)" if "world_ok w" for sh w
    by (rule attains_weaken [OF new_spec [OF that]]) (use n in \<open>auto simp: map_bucket_rows_def map_bucket_buffer_bytes_def\<close>)
  have by_row: "attains sort_failure (and_then (append_bytes dk (map_header n s 8)) (\<lambda>_.
              and_then (option_or InvalidScratch (checked_mul n 8)) (\<lambda>bytes.
              and_then (allocate_bytes dk bytes) (\<lambda>_.
              on_shared (inverse_new env dk n map_bucket_rows map_bucket_buffer_bytes))))) ((f, sh), w)
      (\<lambda>ib ((f', sh'), w'). world_ok w' \<and> stored f' (map_header n s 8 @ replicate (8 * n) 0) \<and> collects ib [] \<and> room ib \<and> ib_records ib = n)"
    if "world_ok w" "writing f []" for f sh w
    unfolding attains_and_then attains_option_or mul option.case
  proof (rule attains_weaken [OF append_spec [OF that]], goal_cases)
    case (1 u sw)
    obtain f1 sh1 w1 where sw: "sw = ((f1, sh1), w1)" by (metis surj_pair)
    with 1 have "world_ok w1" "writing f1 (map_header n s 8)" by auto
    then show ?case unfolding sw
    proof (rule allocate_then, goal_cases)
      case (1 f2 sh2 w2)
      then show ?case unfolding attains_on_shared by (intro attains_weaken [OF start]) auto
    qed
  qed
  have order: "attains sort_failure (and_then (append_bytes dk (map_header n s 24)) (\<lambda>_.
        on_shared
          (and_then (disk_file_create dk (ascii ''inverse.bin'')) (\<lambda>by_row.
           with_file dk by_row
             (and_then (append_bytes dk (map_header n s 8)) (\<lambda>_.
              and_then (option_or InvalidScratch (checked_mul n 8)) (\<lambda>bytes.
              and_then (allocate_bytes dk bytes) (\<lambda>_.
              on_shared (inverse_new env dk n map_bucket_rows map_bucket_buffer_bytes))))))))) ((f, sh), w)
      (\<lambda>(inv, ib) ((f', sh'), w'). world_ok w' \<and> writing f' (map_header n s 24)
         \<and> stored inv (map_header n s 8 @ replicate (8 * n) 0) \<and> collects ib [] \<and> room ib \<and> ib_records ib = n)"
    if "world_ok w" "writing f []" for f sh w
    unfolding attains_and_then [of _ "append_bytes dk (map_header n s 24)"]
  proof (rule attains_weaken [OF append_spec [OF that]], goal_cases)
    case (1 u sw)
    obtain f1 sh1 w1 where sw: "sw = ((f1, sh1), w1)" by (metis surj_pair)
    with 1 have 1: "world_ok w1" "writing f1 (map_header n s 24)" by auto
    show ?case unfolding sw attains_on_shared attains_and_then [of _ "disk_file_create dk (ascii ''inverse.bin'')"]
    proof (rule create_then [OF 1(1)], goal_cases)
      case (1 f2 sh2 w2)
      show ?case unfolding attains_with_file
        by (rule attains_weaken [OF by_row [OF 1(1,2)]]) (use \<open>writing f1 (map_header n s 24)\<close> in auto)
    qed
  qed
  show ?thesis unfolding create_maps_def attains_and_then [of _ "disk_file_create dk (ascii ''order.bin'')"]
  proof (rule create_then [OF w], goal_cases)
    case (1 f1 sh1 w1)
    show ?case unfolding attains_with_file
      by (rule attains_weaken [OF order [OF 1(1,2)]]) auto
  qed
qed

lemma begin_maps_spec:
  assumes w: "world_ok w" and n: "128 * length zs \<le> u64_max" and f: "reads_runs D zs se" "se_pages se \<noteq> []"
    and se: "se_records se = length zs" "se_inverse_at se = 0"
  shows "attains sort_failure (begin_maps env dk) ((se, budget), w)
    (\<lambda>_ ((se', budget'), w'). world_ok w' \<and> se_snapshot se' = se_snapshot se \<and> se_config se' = se_config se
       \<and> mapping D zs se' \<and> budget' = budget)"
proof -
  let ?n = "length zs" and ?s = "fp_size (se_snapshot se)"
  from f(1) obtain rf where rf: "se_run_file se = Some rf" "stored rf (encoded (map D zs))"
    and pg: "\<forall>pg \<in> set (se_pages se). page_holds pg (encoded (map D zs))" by (auto simp: reads_runs_def)
  have pages: "take 1 (se_pages se) \<noteq> []" "\<forall>pg \<in> set (take 1 (se_pages se)). page_holds pg (encoded (map D zs))"
    using f(2) pg by (auto dest: in_set_takeD)
  define se1 where "se1 tree = se\<lparr>se_batch := [], se_alternate := [], se_pages := take 1 (se_pages se), se_tree := tree,
     se_shared := (case se_merge_memory se of None \<Rightarrow> se_shared se | Some r \<Rightarrow> with_resources (release r) (se_shared se)),
     se_merge_memory := None\<rparr>" for tree
  have run: "attains X (begin_maps env dk) ((se, budget), w) Q
     = attains X (tree_new env 1) w (\<lambda>tree w'.
         attains X (create_maps env dk ?n ?s) (se_shared (se1 tree), w') (\<lambda>(order, by_row, builder) (sh, w').
           Q () ((se1 tree\<lparr>se_shared := sh, se_inverse_builder := Some builder, se_order := Some order,
                        se_inverse := Some by_row, se_phase := BuildingInverse\<rparr>, budget), w')))" for X Q
    by (simp add: begin_maps_def wp_simps case_prod_unfold se1_def se(1) cong: option.case_cong)
  show ?thesis unfolding run
  proof (rule attains_weaken [OF tree_new_one [OF w]], goal_cases)
    case (1 tree w1)
    show ?case
    proof (rule attains_weaken [OF create_maps_spec [OF 1, of ?n ?s]], goal_cases)
      case (2 maps sw)
      obtain order inv ib where maps: "maps = (order, inv, ib)" by (metis surj_pair)
      obtain sh w2 where sw: "sw = (sh, w2)" by fastforce
      let ?se = "se1 tree\<lparr>se_shared := sh, se_inverse_builder := Some ib, se_order := Some order, se_inverse := Some inv, se_phase := BuildingInverse\<rparr>"
      from 2 maps sw have 2: "world_ok w2" "writing order (map_header ?n ?s 24)" "stored inv (map_header ?n ?s 8 @ replicate (8 * ?n) 0)"
        "collects ib []" "room ib" "ib_records ib = ?n" by auto
      have "reads_runs D zs ?se" using rf pages by (simp add: reads_runs_def se1_def)
      then have "mapping D zs ?se"
        using 2 se rf(1) pages(1) unfolding mapping_def Let_def
        by (simp add: se1_def order_bytes_def row_ranks_def)
      then show ?case using 2(1) by (simp add: maps sw se1_def)
    qed (use n in simp)
  qed
qed


lemma add_pages_spec:
  "world_ok w \<Longrightarrow> attains sort_failure (add_pages env k) ((se, budget), w)
    (\<lambda>_ ((se', budget'), w'). world_ok w' \<and> budget' = budget \<and> (\<exists>pgs. length pgs = k \<and> (\<forall>pg \<in> set pgs. page_holds pg c)
       \<and> se' = se\<lparr>se_pages := se_pages se @ pgs\<rparr>))"
proof (induction k arbitrary: se w)
  case 0
  then show ?case by (simp add: wp_simps)
next
  case (Suc k)
  show ?case unfolding add_pages.simps attains_and_then attains_on_world snd_conv
  proof (rule attains_weaken [OF page_new_spec [OF Suc.prems, of c]], goal_cases)
    case (1 pg w1)
    then have "world_ok w1" "page_holds pg c" by auto
    then show ?case
      by (simp add: wp_simps) (rule attains_weaken [OF Suc.IH], assumption, force intro!: exI [of _ "pg # _"])
  qed
qed

end

lemma div_ceil_mult: "0 < w \<Longrightarrow> n \<le> div_ceil n w * w"
proof -
  assume w: "0 < w"
  show ?thesis
  proof (cases "n mod w = 0")
    case True
    then have "n = n div w * w" by (metis add.right_neutral div_mult_mod_eq)
    with True show ?thesis by (simp add: div_ceil_def)
  next
    case False
    have "n = n div w * w + n mod w" by simp
    also have "\<dots> \<le> n div w * w + w" using mod_less_divisor [OF w, of n] by linarith
    finally show ?thesis using False by (simp add: div_ceil_def)
  qed
qed

text \<open>A run file that is complete, in blocks of the run width.\<close>

definition runs_written :: "(nat \<Rightarrow> descriptor) \<Rightarrow> nat list \<Rightarrow> sort_session \<Rightarrow> bool" where
  "runs_written D xs se \<longleftrightarrow> se_records se = length xs \<and> 0 < se_run_width se \<and> se_comparison se = None \<and> se_inverse_at se = 0
     \<and> (\<exists>f. se_run_file se = Some f \<and> writing f (encoded (map D (block_sort (se_run_width se) xs))))
     \<and> tree_ok (se_config se) 1 (se_tree se) \<and> 2 \<le> sg_merge_fan_in (se_config se)
     \<and> se_pages se \<noteq> [] \<and> length (se_pages se) \<le> sg_merge_fan_in (se_config se)
     \<and> (\<forall>pg \<in> set (se_pages se). \<exists>c. page_holds pg c)"

context sort_ranks begin

lemma begin_disk_spec:
  fixes se :: sort_session and xs :: "nat list"
  assumes w: "world_ok w" and n: "128 * length xs \<le> u64_max" and rw: "runs_written D xs se"
  shows "attains sort_failure (begin_disk_merge env dk) ((se, budget), w)
    (\<lambda>_ ((se', budget'), w'). world_ok w' \<and> se_snapshot se' = se_snapshot se \<and> se_config se' = se_config se
       \<and> budget' = budget
       \<and> (if length xs \<le> se_run_width se then mapping D (sort xs) se'
          else merging data D xs se' \<and> se_run_width se' = se_run_width se \<and> se_inverse_at se' = 0))"
proof -
  let ?w = "se_run_width se" and ?fan = "sg_merge_fan_in (se_config se)"
  define runs where "runs = block_sort ?w xs"
  from rw obtain f where f: "se_run_file se = Some f" "writing f (encoded (map D runs))"
    and se: "se_records se = length xs" "0 < ?w" "se_comparison se = None" "se_inverse_at se = 0" "tree_ok (se_config se) 1 (se_tree se)"
      "2 \<le> ?fan" "se_pages se \<noteq> []" "length (se_pages se) \<le> ?fan" "\<forall>pg \<in> set (se_pages se). \<exists>c. page_holds pg c"
    by (auto simp: runs_written_def runs_def)
  let ?rest = "with_state (\<lambda>(se, _).
       if se_records se \<le> se_run_width se then begin_maps env dk
       else
         (let runs = min (div_ceil (se_records se) (se_run_width se)) (sg_merge_fan_in (se_config se)) in
          and_then (add_pages env (runs - length (se_pages se))) (\<lambda>_.
          and_then (modify_session (\<lambda>se. se\<lparr>se_pass := se_pass se + 1\<rparr>)) (\<lambda>_.
          and_then (on_sort_shared (disk_file_create dk (run_file_name (se_pass se + 1)))) (\<lambda>f.
          and_then (drop_file dk (se_pass_file se)) (\<lambda>_.
          modify_session (\<lambda>se. se\<lparr>se_pass_file := Some f, se_group_start := 0,
            se_tree := (se_tree se)\<lparr>wt_stage := StageIdle\<rparr>, se_phase := Merging\<rparr>)))))))"
  have run: "attains X (begin_disk_merge env dk) ((se, budget), w) Q
     = attains X (finish_writing dk) ((f, se_shared se), w) (\<lambda>_ ((f', sh), w').
         attains X ?rest ((se\<lparr>se_shared := sh, se_run_file := Some f',
           se_pages := map (\<lambda>pg. pg\<lparr>rp_base := u64_max\<rparr>) (se_pages se)\<rparr>, budget), w') Q)" for X Q
    unfolding begin_disk_merge_def attains_and_then attains_on_file f(1) option.case
    by (simp add: attains_modify_session case_prod_unfold)
  show ?thesis unfolding run
  proof (rule attains_weaken [OF finish_spec [OF w f(2)]], goal_cases)
    case (1 u sw)
    obtain f1 sh1 w1 where sw: "sw = ((f1, sh1), w1)" by (metis surj_pair)
    with 1 have 1: "world_ok w1" "stored f1 (encoded (map D runs))" by auto
    define se1 where "se1 = se\<lparr>se_shared := sh1, se_run_file := Some f1, se_pages := map (\<lambda>pg. pg\<lparr>rp_base := u64_max\<rparr>) (se_pages se)\<rparr>"
    have pages1: "\<forall>pg \<in> set (se_pages se1). page_holds pg (encoded (map D runs))"
      using se(9) page_forget by (auto simp: se1_def)
    show ?case unfolding sw prod.case se1_def [symmetric]
    proof (cases "length xs \<le> ?w")
      case True
      then have zs: "runs = sort xs" by (simp add: runs_def block_sort_sorted)
      have f1: "reads_runs D (sort xs) se1" "se_pages se1 \<noteq> []" "se_records se1 = length (sort xs)" "se_inverse_at se1 = 0"
        "128 * length (sort xs) \<le> u64_max"
        using 1(2) pages1 se n by (auto simp: reads_runs_def se1_def zs)
      have go: "attains X ?rest ((se1, budget), w1) Q = attains X (begin_maps env dk) ((se1, budget), w1) Q" for X Q
        using True se(1) by (simp add: wp_simps se1_def)
      show "attains sort_failure ?rest ((se1, budget), w1)
         (\<lambda>_ ((se', budget'), w'). world_ok w' \<and> se_snapshot se' = se_snapshot se \<and> se_config se' = se_config se
           \<and> budget' = budget
           \<and> (if length xs \<le> se_run_width se then mapping D (sort xs) se'
              else merging data D xs se' \<and> se_run_width se' = se_run_width se \<and> se_inverse_at se' = 0))"
        unfolding go by (rule attains_weaken [OF begin_maps_spec [OF 1(1) f1(5,1,2,3,4)]]) (use True in \<open>auto simp: se1_def\<close>)
    next
      case False
      show "attains sort_failure ?rest ((se1, budget), w1)
         (\<lambda>_ ((se', budget'), w'). world_ok w' \<and> se_snapshot se' = se_snapshot se \<and> se_config se' = se_config se
           \<and> budget' = budget
           \<and> (if length xs \<le> se_run_width se then mapping D (sort xs) se'
              else merging data D xs se' \<and> se_run_width se' = se_run_width se \<and> se_inverse_at se' = 0))"
      proof -
        define k where "k = min (div_ceil (length xs) ?w) ?fan - length (se_pages se1)"
        have len1: "length (se_pages se1) = length (se_pages se)" by (simp add: se1_def)
        define m where "m = length (se_pages se1) + k"
        have m: "0 < m" "m \<le> ?fan" "m = ?fan \<or> length xs \<le> m * ?w"
        proof -
          show "0 < m" "m \<le> ?fan" using se(7,8) len1 by (auto simp: m_def k_def)
          show "m = ?fan \<or> length xs \<le> m * ?w"
          proof (cases "m = ?fan")
            case False
            then have "div_ceil (length xs) ?w \<le> m" using se(8) len1 by (auto simp: m_def k_def min_def split: if_splits)
            then have "div_ceil (length xs) ?w * ?w \<le> m * ?w" by (rule mult_le_mono1)
            with div_ceil_mult [OF se(2), of "length xs"] show ?thesis by linarith
          qed simp
        qed
        have go: "attains X ?rest ((se1, budget), w1) Q
          = attains X (add_pages env k) ((se1, budget), w1) (\<lambda>_ sw. attains X
              (and_then (modify_session (\<lambda>se. se\<lparr>se_pass := se_pass se + 1\<rparr>)) (\<lambda>_.
               and_then (on_sort_shared (disk_file_create dk (run_file_name (se_pass se1 + 1)))) (\<lambda>f.
               and_then (drop_file dk (se_pass_file se1)) (\<lambda>_.
               modify_session (\<lambda>se. se\<lparr>se_pass_file := Some f, se_group_start := 0,
                 se_tree := (se_tree se)\<lparr>wt_stage := StageIdle\<rparr>, se_phase := Merging\<rparr>))))) sw Q)" for X Q
          using False se(1) by (simp add: wp_simps se1_def k_def Let_def)
        show ?thesis unfolding go
        proof (rule attains_weaken [OF add_pages_spec [OF 1(1), of k se1 budget "encoded (map D runs)"]], goal_cases)
          case (1 u sw)
          obtain se2 w2 where sw: "sw = ((se2, budget), w2)" using 1 by auto
          with 1 obtain pgs where 2: "world_ok w2" "length pgs = k" "\<forall>pg \<in> set pgs. page_holds pg (encoded (map D runs))"
            "se2 = se1\<lparr>se_pages := se_pages se1 @ pgs\<rparr>" by auto
          show ?case unfolding sw attains_and_then attains_modify_session attains_on_sort_shared
          proof (rule create_then [OF 2(1)], unfold prod.case, goal_cases)
            case (1 pf sh3 w3)
            define se3 where "se3 = se2\<lparr>se_pass := se_pass se2 + 1, se_shared := sh3\<rparr>"
            show ?case unfolding se3_def [symmetric]
            proof (rule drop_file_spec [OF 1(1)], unfold attains_modify_session, goal_cases)
              case (1 sh4 w4)
              let ?se = "se3\<lparr>se_shared := sh4, se_pass_file := Some pf, se_group_start := 0,
                 se_tree := (se_tree (se3\<lparr>se_shared := sh4\<rparr>))\<lparr>wt_stage := StageIdle\<rparr>, se_phase := Merging\<rparr>"
              have len: "length (se_pages ?se) = m" by (simp add: se3_def 2 m_def)
              have reads: "reads_runs D (block_sort (se_run_width ?se) xs) ?se"
                using pages1 2(3) \<open>stored f1 (encoded (map D runs))\<close> by (auto simp: reads_runs_def se3_def 2(4)) (auto simp: se1_def runs_def)
              have tree: "tree_ok (se_config ?se) m (se_tree ?se)"
                using se(5) m by (auto simp: se3_def 2(4) se1_def tree_ok_def)
              have "merging data D xs ?se"
                using False se m reads tree \<open>writing pf []\<close>
                by (intro merging_idleI [of ?se xs D pf]) (simp_all only: len, simp_all add: se3_def 2(4) se1_def)
              then show ?case using 1 False se(4) by (simp add: se3_def 2(4) se1_def)
            qed
          qed
        qed
      qed
    qed
  qed
qed

end

end
