(* ===== verification/Sort_Merge_Pass.thy ===== *)
theory Sort_Merge_Pass imports Sort_Pass begin

text \<open>
  One step of a merge: it keeps the state of the merge and comes closer to its end, or the last pass is
  over and the maps are begun from the sorted records.
\<close>

context sort_ranks begin

lemma merge_step_spec:
  fixes se :: sort_session and xs :: "nat list"
  assumes w: "world_ok w" and cfg: "se_config se = cfg" and ok: "\<forall>p \<in> set xs. okay p" and n: "128 * length xs \<le> u64_max"
    and me: "merging data D xs se" and busy: "wt_stage (se_tree se) \<noteq> StageIdle" and budget: "0 < budget"
  shows "attains sort_failure (merge_step env dk) ((se, budget), w)
    (\<lambda>_ ((se', budget'), w'). world_ok w' \<and> same_sort se se' \<and> merging data D xs se' \<and> merge_todo data xs se' < merge_todo data xs se)"
proof (cases "wt_stage (se_tree se)")
  case (StageBuild k)
  then have "merge_step env dk ((se, budget), w) = play_node env k (next_stage (wt_stage (se_tree se))) ((se, budget), w)"
    by (simp add: merge_step_def with_state_def)
  then show ?thesis by (rule attains_eq) (rule play_node_spec [OF w cfg ok budget me], simp add: StageBuild)
next
  case (StageReplay k)
  then have "merge_step env dk ((se, budget), w) = play_node env k (next_stage (wt_stage (se_tree se))) ((se, budget), w)"
    by (simp add: merge_step_def with_state_def)
  then show ?thesis by (rule attains_eq) (rule play_node_spec [OF w cfg ok budget me], simp add: StageReplay)
next
  case StageEmit
  then have "merge_step env dk ((se, budget), w) = emit_winner dk ((se, budget), w)" by (simp add: merge_step_def with_state_def)
  then show ?thesis by (rule attains_eq) (rule emit_winner_spec [OF w cfg ok n me StageEmit])
qed (use busy in simp)

lemma end_pass_spec:
  fixes se :: sort_session and xs :: "nat list"
  assumes w: "world_ok w" and cfg: "se_config se = cfg" "2 \<le> sg_merge_fan_in cfg" and n: "128 * length xs \<le> u64_max"
    and me: "merging data D xs se" and idle: "wt_stage (se_tree se) = StageIdle" and all: "se_group_start se = length xs"
    and inv: "se_inverse_at se = 0"
  shows "attains sort_failure (end_pass env dk) ((se, budget), w)
    (\<lambda>_ ((se', budget'), w'). world_ok w' \<and> se_snapshot se' = se_snapshot se \<and> se_config se' = se_config se
       \<and> (merging data D xs se' \<and> se_inverse_at se' = 0 \<and> merge_todo data xs se' < merge_todo data xs se
          \<or> mapping D (sort xs) se'))"
proof -
  let ?m = "length (se_pages se)" and ?w = "se_run_width se"
  define w' where "w' = saturating_mul ?w (sg_merge_fan_in cfg)"
  note parts = mergingD [OF me]
  obtain pf where pf: "se_pass_file se = Some pf" "writing pf (encoded (map D (take (se_group_start se) (block_sort (?w * ?m) xs))))"
    and none: "se_comparison se = None" using merging_idle [OF me idle] by blast
  have t: "tree_ok cfg ?m (se_tree se)" using parts cfg by simp
  have u: "length xs \<le> u64_max" using n by linarith
  have grow: "?w < w'"
  proof -
    have "?w * 2 \<le> ?w * sg_merge_fan_in cfg" using cfg(2) by (rule mult_le_mono2)
    then have "?w < ?w * sg_merge_fan_in cfg" using parts(3) by linarith
    moreover have "?w < u64_max" using parts(4) u by linarith
    ultimately show ?thesis by (simp add: w'_def saturating_mul_def)
  qed
  have blocks: "block_sort w' xs = block_sort (?w * ?m) xs"
  proof (cases "?w * ?m = w'")
    case False
    have "length xs \<le> w' \<and> length xs \<le> ?w * ?m"
    proof (cases "?m = sg_merge_fan_in cfg")
      case True
      then show ?thesis using False u by (auto simp: w'_def saturating_mul_def min_def split: if_splits)
    next
      case other: False
      then have "length xs \<le> ?w * ?m" using parts(5) cfg(1) by (simp add: mult.commute)
      moreover have "?w * ?m \<le> ?w * sg_merge_fan_in cfg" using t by (intro mult_le_mono2) (simp add: tree_ok_def)
      ultimately have "length xs \<le> ?w * ?m \<and> length xs \<le> ?w * sg_merge_fan_in cfg" by linarith
      then show ?thesis using u by (simp add: w'_def saturating_mul_def)
    qed
    then show ?thesis by (simp add: block_sort_sorted)
  qed simp
  define se1 where "se1 = se\<lparr>se_run_file := Some pf, se_pass_file := None\<rparr>"
  have run: "attains X (end_pass env dk) ((se, budget), w) Q
     = attains X (drop_file dk (se_run_file se)) ((se1, budget), w) (\<lambda>_ sw.
         attains X (and_then (modify_session (\<lambda>se. se\<lparr>se_run_width := saturating_mul (se_run_width se) (sg_merge_fan_in (se_config se))\<rparr>))
           (\<lambda>_. begin_disk_merge env dk)) sw Q)" for X Q
    by (simp add: end_pass_def wp_simps se1_def pf(1))
  show ?thesis unfolding run
  proof (rule drop_file_spec [OF w], unfold attains_and_then attains_modify_session, goal_cases)
    case (1 sh w1)
    define se2 where "se2 = se1\<lparr>se_shared := sh, se_run_width := w'\<rparr>"
    have eq: "se1\<lparr>se_shared := sh, se_run_width := saturating_mul (se_run_width (se1\<lparr>se_shared := sh\<rparr>))
        (sg_merge_fan_in (se_config (se1\<lparr>se_shared := sh\<rparr>)))\<rparr> = se2"
      using cfg by (simp add: se2_def se1_def w'_def)
    have "\<forall>pg \<in> set (se_pages se). \<exists>c. page_holds pg c" using parts(7) by (auto simp: reads_runs_def)
    moreover have "writing pf (encoded (map D (block_sort w' xs)))" using pf(2) all by (simp add: blocks)
    ultimately have rw: "runs_written D xs se2"
      using parts grow none inv t cfg by (auto simp: runs_written_def se2_def se1_def tree_ok_def)
    have "merge_todo data xs se' < merge_todo data xs se" if "se_run_width se' = w'" "w' < length xs" for se'
    proof -
      have "length xs - w' < length xs - ?w" using that(2) grow by linarith
      then show ?thesis using that(1) by (simp add: merge_todo_def)
    qed
    then show ?case unfolding eq
      by (intro attains_weaken [OF begin_disk_spec [OF 1 n rw]])
         (auto simp: se2_def se1_def split: if_splits)
  qed
qed

lemma merge_disk_spec:
  fixes se :: sort_session and xs :: "nat list"
  assumes w: "world_ok w" and cfg: "se_config se = cfg" "2 \<le> sg_merge_fan_in cfg" and ok: "\<forall>p \<in> set xs. okay p"
    and n: "128 * length xs \<le> u64_max" and me: "merging data D xs se" and inv: "se_inverse_at se = 0" and budget: "0 < budget"
  shows "attains sort_failure (merge_disk env dk) ((se, budget), w)
    (\<lambda>_ ((se', budget'), w'). world_ok w' \<and> se_snapshot se' = se_snapshot se \<and> se_config se' = se_config se
       \<and> (merging data D xs se' \<and> se_inverse_at se' = 0 \<and> merge_todo data xs se' < merge_todo data xs se
          \<or> mapping D (sort xs) se'))"
proof -
  have rec: "se_records se = length xs" using mergingD [OF me] by simp
  consider (busy) "wt_stage (se_tree se) \<noteq> StageIdle" | (all) "wt_stage (se_tree se) = StageIdle" "se_group_start se = length xs"
    | (group) "wt_stage (se_tree se) = StageIdle" "se_group_start se \<noteq> length xs" by blast
  then show ?thesis
  proof cases
    case busy
    then have "merge_disk env dk ((se, budget), w) = merge_step env dk ((se, budget), w)" by (simp add: merge_disk_def with_state_def)
    then show ?thesis
      by (rule attains_eq) (rule attains_weaken [OF merge_step_spec [OF w cfg(1) ok n me busy budget]], use inv in \<open>auto simp: same_sort_def\<close>)
  next
    case all
    then have "merge_disk env dk ((se, budget), w) = end_pass env dk ((se, budget), w)" by (simp add: merge_disk_def with_state_def rec)
    then show ?thesis
      by (rule attains_eq) (rule attains_weaken [OF end_pass_spec [OF w cfg n me all inv]], auto)
  next
    case group
    then have run: "merge_disk env dk ((se, budget), w) = and_then (start_group dk) (\<lambda>_. merge_step env dk) ((se, budget), w)"
      by (simp add: merge_disk_def with_state_def rec)
    have "attains sort_failure (and_then (start_group dk) (\<lambda>_. merge_step env dk)) ((se, budget), w)
      (\<lambda>_ ((se', budget'), w'). world_ok w' \<and> same_sort se se' \<and> merging data D xs se' \<and> merge_todo data xs se' < merge_todo data xs se)"
      unfolding attains_and_then
    proof (rule attains_weaken [OF start_group_spec [OF w cfg(1) ok n me group]], goal_cases)
      case (1 u sw)
      obtain se1 w1 where sw: "sw = ((se1, budget), w1)" using 1 by auto
      with 1 have 1: "world_ok w1" "same_sort se se1" "merging data D xs se1" "merge_todo data xs se1 < merge_todo data xs se"
        "wt_stage (se_tree se1) \<noteq> StageIdle" by auto
      have cfg1: "se_config se1 = cfg" using 1(2) cfg by (simp add: same_sort_def)
      show ?case unfolding sw
        by (rule attains_weaken [OF merge_step_spec [OF 1(1) cfg1 ok n 1(3,5) budget]]) (use 1 in \<open>auto intro: same_sort_trans\<close>)
    qed
    then have "attains sort_failure (merge_disk env dk) ((se, budget), w)
      (\<lambda>_ ((se', budget'), w'). world_ok w' \<and> same_sort se se' \<and> merging data D xs se' \<and> merge_todo data xs se' < merge_todo data xs se)"
      by (rule attains_eq [rotated], intro run)
    then show ?thesis by (rule attains_weaken) (use inv in \<open>auto simp: same_sort_def\<close>)
  qed
qed

end

end
