(* ===== verification/Sort_State.thy ===== *)
theory Sort_State imports Sort_Scanning Sort_Batch_Step Sort_Merge_Pass begin

text \<open>
  The state of a sort of a source that does not change, phase by phase, and the measure that every step
  decreases: the rows left to scan, what is left of the key and the batch at hand, the records left to
  merge, the records left to map.
\<close>

section \<open>What the sort needs of its configuration\<close>

definition sort_okay :: "sort_config \<Rightarrow> bytes \<Rightarrow> bool" where
  "sort_okay cfg data \<longleftrightarrow> valid_format (sg_format cfg) \<and> 0 < sg_batch_capacity cfg \<and> 2 \<le> sg_merge_fan_in cfg
     \<and> sg_merge_fan_in cfg \<le> empty_run \<and> 128 * length data \<le> u64_max"

abbreviation row_count :: "sort_config \<Rightarrow> bytes \<Rightarrow> nat" where
  "row_count cfg data \<equiv> length (source_rows cfg data)"

text \<open>The ranks of the first rows, in the order of the source.\<close>

definition ranks_upto :: "sort_config \<Rightarrow> bytes \<Rightarrow> nat \<Rightarrow> nat list" where
  "ranks_upto cfg data k = map (row_rank cfg data) [0..<k]"

definition in_range :: "sort_config \<Rightarrow> bytes \<Rightarrow> nat \<Rightarrow> bool" where
  "in_range cfg data k \<longleftrightarrow> (\<forall>i < k. \<exists>d. row_stored cfg data i = Inr d)"

lemma length_ranks_upto [simp]: "length (ranks_upto cfg data k) = k"
  by (simp add: ranks_upto_def)

lemma ranks_upto_Suc: "ranks_upto cfg data (Suc k) = ranks_upto cfg data k @ [row_rank cfg data k]"
  by (simp add: ranks_upto_def)

lemma take_ranks_upto: "m \<le> k \<Longrightarrow> take m (ranks_upto cfg data k) = ranks_upto cfg data m"
  by (simp add: ranks_upto_def take_map)

lemma ranks_okay:
  assumes "sort_okay cfg data" "in_range cfg data k" "k \<le> row_count cfg data" "p \<in> set (ranks_upto cfg data k)"
  shows "ranked_okay cfg data p"
proof -
  from assms(4) obtain i where i: "i < k" "p = row_rank cfg data i" by (auto simp: ranks_upto_def)
  with assms(3) have "i < row_count cfg data" by simp
  with assms i show ?thesis by (simp add: ranked_okay_def sort_okay_def row_rank_less row_rank_row in_range_def)
qed

lemma ranks_all:
  shows "mset (ranks_upto cfg data (row_count cfg data)) = mset [0..<row_count cfg data]"
    "sort (ranks_upto cfg data (row_count cfg data)) = [0..<row_count cfg data]"
proof -
  let ?n = "row_count cfg data"
  have inj: "inj_on (row_rank cfg data) {..<?n}" using row_rank_order(2) by (auto intro: inj_onI)
  have "row_rank cfg data ` {..<?n} = {..<?n}" by (rule endo_inj_surj [OF _ _ inj]) (auto simp: row_rank_less)
  then have "set (ranks_upto cfg data ?n) = set [0..<?n]" by (auto simp: ranks_upto_def lessThan_atLeast0)
  moreover have "distinct (ranks_upto cfg data ?n)"
    using inj by (simp add: ranks_upto_def distinct_map lessThan_atLeast0)
  ultimately show m: "mset (ranks_upto cfg data ?n) = mset [0..<?n]" 
    using set_eq_iff_mset_eq_distinct [of "ranks_upto cfg data ?n" "[0..<?n]"] by simp
  show "sort (ranks_upto cfg data ?n) = [0..<?n]" using sort_mset_eq [OF m] by (simp add: sorted_sort_id)
qed

lemma ranks_cover:
  assumes "sort_okay cfg data" "in_range cfg data (row_count cfg data)"
  shows "covers (ranked_descriptor cfg data) (sort (ranks_upto cfg data (row_count cfg data)))"
proof -
  let ?n = "row_count cfg data"
  have row: "ds_row (ranked_descriptor cfg data p) = ranked_row cfg data p" if "p < ?n" for p
  proof -
    have "p \<in> set (ranks_upto cfg data ?n)" using mset_eq_setD [OF ranks_all(1) [of cfg data]] that by simp
    from ranked_stored(3) [OF ranks_okay [OF assms order.refl this]] show ?thesis .
  qed
  have "inj_on (ranked_row cfg data) {0..<?n}" using ranked_row_rank by (metis inj_on_inverseI atLeastLessThan_iff)
  then have "distinct (map (ranked_row cfg data) [0..<?n])" by (simp add: distinct_map)
  moreover have rows: "map (\<lambda>p. ds_row (ranked_descriptor cfg data p)) [0..<?n] = map (ranked_row cfg data) [0..<?n]" using row by simp
  ultimately have "distinct (map (\<lambda>p. ds_row (ranked_descriptor cfg data p)) [0..<?n])" by (simp only:)
  moreover have "ds_row (ranked_descriptor cfg data p) < ?n" if "p < ?n" for p using row [OF that] ranked_row_rank(1) [OF that] by simp
  ultimately show ?thesis unfolding covers_def ranks_all(2) by simp
qed

section \<open>Extracting\<close>

definition key_at :: "sort_config \<Rightarrow> bytes \<Rightarrow> nat \<Rightarrow> sort_session \<Rightarrow> bool" where
  "key_at cfg data k se \<longleftrightarrow>
     (case se_pending se of
        None \<Rightarrow> True
      | Some (PendingLocate lo) \<Rightarrow> locator_at data lo \<and> located lo (lo_rest data lo) = row_extent cfg data k
      | Some (PendingBuild kb) \<Rightarrow>
          \<exists>u. builder_at data (sr_mode (sg_request cfg)) (row_extent cfg data k) u kb
            \<and> row_key cfg data k = u @ kc_rest data (kb_cursor kb))"

definition key_left :: "bytes \<Rightarrow> sort_session \<Rightarrow> nat \<times> nat" where
  "key_left data se =
     (case se_pending se of
        None \<Rightarrow> (0, 0)
      | Some (PendingLocate lo) \<Rightarrow> (2, ds_end (lo_descriptor lo) - lo_cursor lo)
      | Some (PendingBuild kb) \<Rightarrow> (1, length (kc_bytes data (kb_cursor kb))))"

text \<open>The rows the scanner has reported.\<close>

definition taken :: "sort_session \<Rightarrow> nat" where
  "taken se = (if se_pending se = None then se_records se else Suc (se_records se))"

definition set_up :: "sort_config \<Rightarrow> sort_session \<Rightarrow> bool" where
  "set_up cfg se \<longleftrightarrow> se_run_width se = sg_batch_capacity cfg \<and> se_inverse_at se = 0 \<and> tree_ok cfg 1 (se_tree se)
     \<and> se_pages se \<noteq> [] \<and> length (se_pages se) \<le> sg_merge_fan_in cfg \<and> (\<forall>pg \<in> set (se_pages se). \<exists>c. page_holds pg c)
     \<and> length (se_alternate se) = sg_batch_capacity cfg"

definition extracting :: "sort_config \<Rightarrow> bytes \<Rightarrow> sort_session \<Rightarrow> bool" where
  "extracting cfg data se \<longleftrightarrow>
     (let D = ranked_descriptor cfg data; cap = sg_batch_capacity cfg; k = se_records se in
      se_phase se = Extracting \<and> set_up cfg se \<and> se_comparison se = None \<and> in_range cfg data k \<and> key_at cfg data k se
      \<and> scan_at cfg data (taken se) se
      \<and> (\<exists>m f. m \<le> k \<and> k - m \<le> cap \<and> (cap dvd m \<or> m = k \<and> se_scanner se = None) \<and> (se_pending se \<noteq> None \<longrightarrow> k - m < cap \<and> cap dvd m)
           \<and> se_batch se = map D (drop m (ranks_upto cfg data k)) \<and> se_run_file se = Some f
           \<and> writing f (encoded (map D (block_sort cap (ranks_upto cfg data m))))))"

definition batch_sorting :: "sort_config \<Rightarrow> bytes \<Rightarrow> sort_session \<Rightarrow> bool" where
  "batch_sorting cfg data se \<longleftrightarrow>
     (let D = ranked_descriptor cfg data; cap = sg_batch_capacity cfg; k = se_records se in
      set_up cfg se \<and> se_pending se = None \<and> in_range cfg data k \<and> scan_at cfg data k se
      \<and> (\<exists>m. m < k \<and> cap dvd m \<and> (k - m = cap \<or> k - m \<le> cap \<and> se_scanner se = None)
           \<and> sorting data D (encoded (map D (block_sort cap (ranks_upto cfg data m)))) (drop m (ranks_upto cfg data k)) se))"

section \<open>All phases\<close>

definition sort_state :: "sort_config \<Rightarrow> bytes \<Rightarrow> source_fingerprint \<Rightarrow> sort_session \<Rightarrow> bool" where
  "sort_state cfg data base se \<longleftrightarrow>
     (let D = ranked_descriptor cfg data; n = row_count cfg data; ps = ranks_upto cfg data n in
      se_config se = cfg \<and> se_snapshot se = base \<and>
      (case se_phase se of
         Extracting \<Rightarrow> extracting cfg data se
       | SortingRuns \<Rightarrow> batch_sorting cfg data se
       | Merging \<Rightarrow> in_range cfg data n \<and> merging data D ps se \<and> se_inverse_at se = 0
       | BuildingInverse \<Rightarrow> in_range cfg data n \<and> mapping D (sort ps) se
       | SortComplete \<Rightarrow> in_range cfg data n \<and> mapped D (sort ps) se
       | SortCancelled \<Rightarrow> True))"

definition batch_of :: "sort_config \<Rightarrow> bytes \<Rightarrow> sort_session \<Rightarrow> nat list" where
  "batch_of cfg data se = drop (se_records se - length (se_batch se)) (ranks_upto cfg data (se_records se))"

definition extract_todo :: "sort_config \<Rightarrow> bytes \<Rightarrow> sort_session \<Rightarrow> (nat \<times> nat) \<times> (nat \<times> nat) \<times> nat \<times> nat \<times> nat \<times> nat \<times> nat" where
  "extract_todo cfg data se =
     ((row_count cfg data - taken se, scan_left data se), key_left data se,
      (if se_phase se = SortingRuns then (1, batch_todo data (batch_of cfg data se) se)
       else (if se_batch se = [] then 0 else 2, 0, 0, 0, 0)))"

definition sort_todo ::
    "sort_config \<Rightarrow> bytes \<Rightarrow> sort_session
     \<Rightarrow> nat \<times> ((nat \<times> nat) \<times> (nat \<times> nat) \<times> nat \<times> nat \<times> nat \<times> nat \<times> nat) \<times> (nat \<times> nat \<times> nat \<times> nat \<times> nat) \<times> nat \<times> nat \<times> nat" where
  "sort_todo cfg data se =
     (let none = ((0, 0), (0, 0), 0, 0, 0, 0, 0) in
      case se_phase se of
        Extracting \<Rightarrow> (3, extract_todo cfg data se, (0, 0, 0, 0, 0), 0, 0, 0)
      | SortingRuns \<Rightarrow> (3, extract_todo cfg data se, (0, 0, 0, 0, 0), 0, 0, 0)
      | Merging \<Rightarrow> (2, none, merge_todo data (ranks_upto cfg data (row_count cfg data)) se, 0, 0, 0)
      | BuildingInverse \<Rightarrow> (1, none, (0, 0, 0, 0, 0), maps_todo se)
      | SortComplete \<Rightarrow> (0, none, (0, 0, 0, 0, 0), 0, 0, 0)
      | SortCancelled \<Rightarrow> (0, none, (0, 0, 0, 0, 0), 0, 0, 0))"

end
