(* ===== verification/Sort_Extracting.thy ===== *)
theory Sort_Extracting imports Sort_State begin

text \<open>
  A step of the extraction: a record is scanned, its key located or built, a full batch goes to be
  sorted, and when the source is at its end the runs are merged.
\<close>

lemma extractingE:
  assumes "extracting cfg data se"
  obtains m f where "se_phase se = Extracting" "set_up cfg se" "se_comparison se = None" "in_range cfg data (se_records se)"
    "key_at cfg data (se_records se) se" "scan_at cfg data (taken se) se" "m \<le> se_records se"
    "se_records se - m \<le> sg_batch_capacity cfg" "sg_batch_capacity cfg dvd m \<or> m = se_records se \<and> se_scanner se = None"
    "se_pending se \<noteq> None \<longrightarrow> se_records se - m < sg_batch_capacity cfg \<and> sg_batch_capacity cfg dvd m"
    "se_batch se = map (ranked_descriptor cfg data) (drop m (ranks_upto cfg data (se_records se)))" "se_run_file se = Some f"
    "writing f (encoded (map (ranked_descriptor cfg data) (block_sort (sg_batch_capacity cfg) (ranks_upto cfg data m))))"
  using assms by (auto simp: extracting_def Let_def)

lemma extractingI:
  assumes "se_phase se = Extracting" "set_up cfg se" "se_comparison se = None" "in_range cfg data (se_records se)"
    "key_at cfg data (se_records se) se" "scan_at cfg data (taken se) se" "m \<le> se_records se"
    "se_records se - m \<le> sg_batch_capacity cfg" "sg_batch_capacity cfg dvd m \<or> m = se_records se \<and> se_scanner se = None"
    "se_pending se \<noteq> None \<longrightarrow> se_records se - m < sg_batch_capacity cfg \<and> sg_batch_capacity cfg dvd m"
    "se_batch se = map (ranked_descriptor cfg data) (drop m (ranks_upto cfg data (se_records se)))" "se_run_file se = Some f"
    "writing f (encoded (map (ranked_descriptor cfg data) (block_sort (sg_batch_capacity cfg) (ranks_upto cfg data m))))"
  shows "extracting cfg data se"
  using assms unfolding extracting_def Let_def by blast

lemma set_up_same: "same_runs se se' \<Longrightarrow> set_up cfg se' = set_up cfg se"
  by (simp add: same_runs_def set_up_def)

context sort_world begin

text \<open>The key at hand.\<close>

lemma extract_pending_spec:
  assumes w: "world_ok w" and cfg: "sort_okay cfg data" "se_config se = cfg" and ex: "extracting cfg data se"
    and p: "se_pending se = Some p" and budget: "0 < budget"
  shows "attains sort_failure (extract_pending env p) ((se, budget), w)
    (\<lambda>_ ((se', budget'), w'). world_ok w' \<and> se_snapshot se' = se_snapshot se \<and> se_config se' = cfg \<and> extracting cfg data se'
       \<and> extract_todo cfg data se' < extract_todo cfg data se)"
proof -
  let ?k = "se_records se" and ?cap = "sg_batch_capacity cfg" and ?D = "ranked_descriptor cfg data"
  let ?mode = "sr_mode (sg_request cfg)"
  obtain m f where parts: "se_phase se = Extracting" "set_up cfg se" "se_comparison se = None" "in_range cfg data ?k"
    "key_at cfg data ?k se" "scan_at cfg data (taken se) se" "m \<le> ?k" "?k - m < ?cap" "?cap dvd m"
    "se_batch se = map ?D (drop m (ranks_upto cfg data ?k))" "se_run_file se = Some f"
    "writing f (encoded (map ?D (block_sort ?cap (ranks_upto cfg data m))))"
    using extractingE [OF ex] p by (metis option.distinct(1))
  have taken: "taken se = Suc ?k" using p by (simp add: taken_def)
  have k: "?k < row_count cfg data" using parts(6) by (simp add: scan_at_def taken)
  have fmt: "valid_format (sg_format cfg)" using cfg by (simp add: sort_okay_def)
  note key = key_located [where row = ?k and target = "sr_column (sg_request cfg)", OF fmt source_row_valid [OF k]]
  have quote: "session_quote se = format_quote (sg_format cfg)" using cfg(2) by (simp add: session_quote_def)
  have keep: "extracting cfg data (se\<lparr>se_pending := Some p'\<rparr>)" if "key_at cfg data ?k (se\<lparr>se_pending := Some p'\<rparr>)" for p'
    by (rule extractingI [of _ cfg data m f])
       (use parts that taken scan_at_cong [of "se\<lparr>se_pending := Some p'\<rparr>" se cfg data "taken se"] in
          \<open>simp_all add: set_up_def taken_def\<close>)
  have todo: "extract_todo cfg data (se\<lparr>se_pending := Some p'\<rparr>) < extract_todo cfg data se"
    if "key_left data (se\<lparr>se_pending := Some p'\<rparr>) < key_left data se" for p'
    using that taken by (simp add: extract_todo_def taken_def scan_left_def)
  show ?thesis
  proof (cases p)
    case (PendingLocate lo)
    have lo: "locator_at data lo" "located lo (lo_rest data lo) = row_extent cfg data ?k"
      using parts(5) p by (simp_all add: key_at_def PendingLocate)
    have run: "attains X (extract_pending env p) ((se, budget), w) Q
      = attains X (locator_advance env) ((lo, budget), w) (\<lambda>r ((lo', budget'), w').
          case r of None \<Rightarrow> Q () ((se\<lparr>se_pending := Some (PendingLocate lo')\<rparr>, budget'), w')
          | Some d \<Rightarrow> Q () ((se\<lparr>se_pending := Some (PendingBuild (builder_new d (session_quote se)))\<rparr>, budget'), w'))" for X Q
      by (simp add: extract_pending_def PendingLocate wp_simps case_prod_unfold session_quote_def
          cong: option.case_cong) (rule arg_cong [where f = "attains X (locator_advance env) ((lo, budget), w)"],
          auto simp: fun_eq_iff wp_simps modify_session_def session_quote_def split: option.split)
    show ?thesis unfolding run
    proof (rule attains_weaken [OF yields_attains [OF locator_advance_spec [OF lo(1) w]]], goal_cases)
      case (1 r sw)
      obtain lo' budget' w' where sw: "sw = ((lo', budget'), w')" by (metis surj_pair)
      with 1 have 1: "world_ok w'" "locator_post data lo budget r lo' budget'" by auto
      show ?case
      proof (cases r)
        case None
        with 1(2) have l: "locator_at data lo'" "located lo' (lo_rest data lo') = located lo (lo_rest data lo)"
          "lo_cursor lo' = lo_cursor lo + budget" "ds_end (lo_descriptor lo') = ds_end (lo_descriptor lo)"
          by (simp_all add: locator_post_def)
        have at: "key_at cfg data ?k (se\<lparr>se_pending := Some (PendingLocate lo')\<rparr>)" using l lo by (simp add: key_at_def)
        have "lo_cursor lo' \<le> ds_end (lo_descriptor lo')" using l(1) by (simp add: locator_at_def)
        then have "ds_end (lo_descriptor lo') - lo_cursor lo' < ds_end (lo_descriptor lo) - lo_cursor lo"
          unfolding l(3,4) using budget by linarith
        then have "key_left data (se\<lparr>se_pending := Some (PendingLocate lo')\<rparr>) < key_left data se"
          by (simp add: key_left_def p PendingLocate)
        from keep [OF at] todo [OF this] show ?thesis using None 1(1) cfg(2) by (simp add: sw)
      next
        case (Some d)
        with 1(2) lo have d: "d = row_extent cfg data ?k" by (simp add: locator_post_def)
        have e: "ds_key_start d \<le> ds_key_end d" "ds_key_end d \<le> length data"
          "cursor_values (cursor_flags True (ds_quoted d) False (session_quote se))
             (take (ds_key_end d - ds_key_start d) (drop (ds_key_start d) data)) = row_key cfg data ?k"
          using key(3,4,12) unfolding d row_extent_def Let_def row_key_def quote .
        note b = extent_cursor(1) [OF e, of ?mode] extent_cursor(2) [OF e]
        let ?p = "PendingBuild (builder_new d (session_quote se))"
        have at: "key_at cfg data ?k (se\<lparr>se_pending := Some ?p\<rparr>)"
          using b by (auto simp: key_at_def d intro!: exI [of _ "[]"])
        have "key_left data (se\<lparr>se_pending := Some ?p\<rparr>) < key_left data se" by (simp add: key_left_def p PendingLocate)
        from keep [OF at] todo [OF this] show ?thesis using Some 1(1) cfg(2) by (simp add: sw)
      qed
    qed
  next
    case (PendingBuild kb)
    let ?E = "row_extent cfg data ?k" and ?v = "row_key cfg data ?k"
    obtain u where u: "builder_at data ?mode ?E u kb" "?v = u @ kc_rest data (kb_cursor kb)"
      using parts(5) p by (auto simp: key_at_def PendingBuild)
    have build: "attains sort_failure (builder_advance env ?mode) ((kb, budget), w)
      (\<lambda>r ((kb', budget'), w'). world_ok w' \<and> builder_post data ?mode ?E ?v r kb' budget'
         \<and> length (kc_bytes data (kb_cursor kb')) + budget = length (kc_bytes data (kb_cursor kb)) + budget')"
      using builder_advance_spec [OF u(1) w u(2), of budget]
      by (auto simp: attains_def split: prod.splits outcome.splits dest: stored_key_error)
    have run: "attains X (extract_pending env p) ((se, budget), w) Q
      = attains X (builder_advance env ?mode) ((kb, budget), w) (\<lambda>r ((kb', budget'), w').
          case r of None \<Rightarrow> Q () ((se\<lparr>se_pending := Some (PendingBuild kb')\<rparr>, budget'), w')
          | Some d \<Rightarrow> Q () ((se\<lparr>se_batch := se_batch se @ [d], se_records := ?k + 1, se_pending := None\<rparr>, budget'), w'))" for X Q
      by (simp add: extract_pending_def PendingBuild wp_simps case_prod_unfold cfg(2) cong: option.case_cong)
        (rule arg_cong [where f = "attains X (builder_advance env ?mode) ((kb, budget), w)"],
          auto simp: fun_eq_iff wp_simps modify_session_def split: option.split)
    show ?thesis unfolding run
    proof (rule attains_weaken [OF build], goal_cases)
      case (1 r sw)
      obtain kb' budget' w' where sw: "sw = ((kb', budget'), w')" by (metis surj_pair)
      with 1 have 1: "world_ok w'" "builder_post data ?mode ?E ?v r kb' budget'"
        "length (kc_bytes data (kb_cursor kb')) + budget = length (kc_bytes data (kb_cursor kb)) + budget'" by auto
      show ?case
      proof (cases r)
        case None
        with 1(2) obtain u' where b: "budget' = 0" "builder_at data ?mode ?E u' kb'" "u' @ kc_rest data (kb_cursor kb') = ?v"
          by (auto simp: builder_post_def)
        have at: "key_at cfg data ?k (se\<lparr>se_pending := Some (PendingBuild kb')\<rparr>)" using b by (auto simp: key_at_def)
        have "length (kc_bytes data (kb_cursor kb')) < length (kc_bytes data (kb_cursor kb))" using 1(3) b(1) budget by linarith
        then have "key_left data (se\<lparr>se_pending := Some (PendingBuild kb')\<rparr>) < key_left data se"
          by (simp add: key_left_def p PendingBuild)
        from keep [OF at] todo [OF this] show ?thesis using None 1(1) cfg(2) by (simp add: sw)
      next
        case (Some d)
        with 1(2) have d: "row_stored cfg data ?k = Inr d" by (simp add: builder_post_def row_stored_def)
        define se' where "se' = se\<lparr>se_batch := se_batch se @ [d], se_records := Suc ?k, se_pending := None\<rparr>"
        have "?D (row_rank cfg data ?k) = d" using d by (simp add: ranked_descriptor_def row_rank_row [OF k])
        then have batch: "se_batch se' = map ?D (drop m (ranks_upto cfg data (Suc ?k)))"
          using parts(7,10) by (simp add: se'_def ranks_upto_Suc)
        have range: "in_range cfg data (Suc ?k)" using parts(4) d by (auto simp: in_range_def less_Suc_eq)
        have scan: "scan_at cfg data (Suc ?k) se'" "scan_left data se' = scan_left data se"
          using parts(6) scan_at_cong [of se' se cfg data "Suc ?k"] by (simp_all add: taken se'_def)
        have "extracting cfg data se'"
          by (rule extractingI [of _ cfg data m f])
             (use parts scan range batch in \<open>simp_all add: set_up_def taken_def key_at_def se'_def\<close>)
        moreover have "extract_todo cfg data se' < extract_todo cfg data se"
        proof -
          have t: "taken se' = taken se" unfolding taken by (simp add: taken_def se'_def)
          have "key_left data se' < key_left data se" by (simp add: key_left_def p PendingBuild se'_def)
          then show ?thesis unfolding extract_todo_def t scan(2) by simp
        qed
        ultimately show ?thesis using Some 1(1) cfg(2) by (simp add: sw se'_def)
      qed
    qed
  qed
qed

text \<open>A batch that is full, or the last one, goes to be sorted.\<close>

lemma begin_batch:
  fixes se :: sort_session
  assumes cfg: "sort_okay cfg data" and ex: "extracting cfg data se" and p: "se_pending se = None" and batch: "se_batch se \<noteq> []"
    and full: "length (se_batch se) = sg_batch_capacity cfg \<or> se_scanner se = None"
  defines "se' \<equiv> se\<lparr>se_merge := batch_merge_default\<lparr>bm_width := 1\<rparr>, se_write_at := 0, se_phase := SortingRuns\<rparr>"
  shows "batch_sorting cfg data se'" "extract_todo cfg data se' < extract_todo cfg data se"
proof -
  let ?k = "se_records se" and ?cap = "sg_batch_capacity cfg" and ?D = "ranked_descriptor cfg data"
  obtain m f where parts: "se_phase se = Extracting" "set_up cfg se" "se_comparison se = None" "in_range cfg data ?k"
    "key_at cfg data ?k se" "scan_at cfg data (taken se) se" "m \<le> ?k" "?k - m \<le> ?cap" "?cap dvd m \<or> m = ?k \<and> se_scanner se = None"
    "se_batch se = map ?D (drop m (ranks_upto cfg data ?k))" "se_run_file se = Some f"
    "writing f (encoded (map ?D (block_sort ?cap (ranks_upto cfg data m))))"
    by (rule extractingE [OF ex]) metis
  let ?xs = "drop m (ranks_upto cfg data ?k)"
  have m: "m < ?k" "?cap dvd m" "length ?xs = ?k - m" using batch parts(7,9,10) by auto
  have "sorting data ?D (encoded (map ?D (block_sort ?cap (ranks_upto cfg data m)))) ?xs se'"
    using parts(2,3,8,10-12) m unfolding sorting_def merging_batch_def Let_def
    by (simp add: se'_def batch_merge_default_def block_sort_one set_up_def)
  moreover have "scan_at cfg data ?k se'"
    using parts(6) p scan_at_cong [of se' se cfg data ?k] by (simp add: taken_def se'_def)
  moreover have "?k - m = ?cap \<or> ?k - m \<le> ?cap \<and> se_scanner se = None" using full parts(8,10) m by auto
  ultimately show "batch_sorting cfg data se'"
    using parts p m unfolding batch_sorting_def Let_def
    by (intro conjI exI [of _ m]) (simp_all add: se'_def set_up_def)
  have "key_left data se' = key_left data se" "taken se' = taken se" "scan_left data se' = scan_left data se"
    by (simp_all add: key_left_def taken_def scan_left_def se'_def)
  then show "extract_todo cfg data se' < extract_todo cfg data se"
    using batch parts(1) by (simp add: extract_todo_def) (simp add: se'_def)
qed

text \<open>The end of the extraction.\<close>

lemma end_extracting:
  assumes cfg: "sort_okay cfg data" "se_config se = cfg" and ex: "extracting cfg data se" and p: "se_pending se = None"
    and batch: "se_batch se = []" and sc: "se_scanner se = None"
  shows "runs_written (ranked_descriptor cfg data) (ranks_upto cfg data (row_count cfg data)) se"
    "in_range cfg data (row_count cfg data)"
proof -
  let ?k = "se_records se" and ?cap = "sg_batch_capacity cfg" and ?D = "ranked_descriptor cfg data"
  obtain m f where parts: "se_phase se = Extracting" "set_up cfg se" "se_comparison se = None" "in_range cfg data ?k"
    "scan_at cfg data (taken se) se" "m \<le> ?k" "se_batch se = map ?D (drop m (ranks_upto cfg data ?k))" "se_run_file se = Some f"
    "writing f (encoded (map ?D (block_sort ?cap (ranks_upto cfg data m))))"
    by (rule extractingE [OF ex]) metis
  have k: "?k = row_count cfg data" using parts(5) sc p by (simp add: scan_at_def taken_def)
  have m: "m = ?k" using parts(6,7) batch by simp
  show "in_range cfg data (row_count cfg data)" using parts(4) k by simp
  show "runs_written ?D (ranks_upto cfg data (row_count cfg data)) se"
    using parts cfg m k unfolding runs_written_def by (simp add: set_up_def sort_okay_def)
qed

end

end
