(* ===== verification/Sort_Steps.thy ===== *)
theory Sort_Steps imports Sort_Extracting begin

text \<open>
  One step of a sort, whatever its phase: it keeps the state of the sort and decreases what is left to
  do; the errors it may end with are those of the disk, of memory and of keys out of range.
\<close>

lemma sort_state_extracting:
  "se_config se = cfg \<Longrightarrow> se_snapshot se = base \<Longrightarrow> extracting cfg data se \<Longrightarrow> sort_state cfg data base se"
  by (simp add: sort_state_def) (simp add: extracting_def Let_def)

lemma extract_todo_less:
  assumes "extract_todo cfg data se' < extract_todo cfg data se" "se_phase se \<in> {Extracting, SortingRuns}"
    "se_phase se' \<in> {Extracting, SortingRuns}"
  shows "sort_todo cfg data se' < sort_todo cfg data se"
  using assms by (auto simp: sort_todo_def Let_def)

lemma extracting_phase: "extracting cfg data se \<Longrightarrow> se_phase se = Extracting"
  by (simp add: extracting_def Let_def)

lemma batch_sorting_phase: "batch_sorting cfg data se \<Longrightarrow> se_phase se = SortingRuns"
  by (auto simp: batch_sorting_def sorting_def Let_def)

context sort_world begin

lemma session_extract_spec:
  assumes w: "world_ok w" and cfg: "sort_okay cfg data" "se_config se = cfg" "se_snapshot se = base"
    and ex: "extracting cfg data se" and budget: "0 < budget"
  shows "attains sort_failure (session_extract env dk) ((se, budget), w)
    (\<lambda>_ ((se', budget'), w'). world_ok w' \<and> sort_state cfg data base se' \<and> se_phase se' \<noteq> SortCancelled \<and> sort_todo cfg data se' < sort_todo cfg data se)"
proof -
  let ?D = "ranked_descriptor cfg data" and ?n = "row_count cfg data"
  have ph: "se_phase se = Extracting" using ex by (rule extracting_phase)
  have size: "length data \<le> u64_max" "128 * ?n \<le> u64_max"
    using cfg(1) format_records_length [of "sg_format cfg" 0 data] unfolding sort_okay_def by linarith+
  consider (pending) p where "se_pending se = Some p"
    | (batch) "se_pending se = None" "se_batch se \<noteq> []" "length (se_batch se) = sg_batch_capacity cfg \<or> se_scanner se = None"
    | (finished) "se_pending se = None" "se_batch se = []" "se_scanner se = None"
    | (scan) "se_pending se = None" "length (se_batch se) \<noteq> sg_batch_capacity cfg" "se_scanner se \<noteq> None"
    using cfg(1) by (cases "se_pending se"; cases "se_batch se = []"; cases "se_scanner se") (auto simp: sort_okay_def)
  then show ?thesis
  proof cases
    case pending
    then have run: "session_extract env dk ((se, budget), w) = extract_pending env p ((se, budget), w)"
      by (simp add: session_extract_def with_state_def)
    show ?thesis
      by (rule attains_eq, rule run, rule attains_weaken [OF extract_pending_spec [OF w cfg(1,2) ex pending budget]])
         (use cfg(3) ph in \<open>auto intro: sort_state_extracting extract_todo_less dest: extracting_phase\<close>)
  next
    case batch
    let ?se = "se\<lparr>se_merge := batch_merge_default\<lparr>bm_width := 1\<rparr>, se_write_at := 0, se_phase := SortingRuns\<rparr>"
    note b = begin_batch [OF cfg(1) ex batch]
    have "sort_state cfg data base ?se" using b(1) cfg by (simp add: sort_state_def)
    moreover have "sort_todo cfg data ?se < sort_todo cfg data se" using b(2) ph by (intro extract_todo_less) auto
    ultimately show ?thesis using batch w cfg(2) by (simp add: session_extract_def wp_simps)
  next
    case finished
    note e = end_extracting [OF cfg(1,2) ex finished]
    have run: "session_extract env dk ((se, budget), w) = begin_disk_merge env dk ((se, budget), w)"
      using finished by (simp add: session_extract_def with_state_def)
    have len: "128 * length (ranks_upto cfg data ?n) \<le> u64_max" using size by simp
    show ?thesis
    proof (rule attains_eq, rule run, rule attains_weaken [OF sort_ranks.begin_disk_spec [OF ranked_sort [OF sort_world_axioms] w len e(1)]],
        goal_cases)
      case (1 u sw)
      obtain se' budget' w' where sw: "sw = ((se', budget'), w')" by (metis surj_pair)
      with 1 have 1: "world_ok w'" "se_snapshot se' = base" "se_config se' = cfg"
        "if ?n \<le> se_run_width se then mapping ?D (sort (ranks_upto cfg data ?n)) se'
         else merging data ?D (ranks_upto cfg data ?n) se' \<and> se_run_width se' = se_run_width se \<and> se_inverse_at se' = 0"
        using cfg by auto
      have "sort_state cfg data base se' \<and> (se_phase se' = BuildingInverse \<or> se_phase se' = Merging)"
      proof (cases "?n \<le> se_run_width se")
        case True
        then have "mapping ?D (sort (ranks_upto cfg data ?n)) se'" using 1(4) by simp
        moreover from this have "se_phase se' = BuildingInverse" by (simp add: mapping_def Let_def)
        ultimately show ?thesis using 1 e(2) by (simp add: sort_state_def)
      next
        case False
        then have "merging data ?D (ranks_upto cfg data ?n) se'" "se_inverse_at se' = 0" using 1(4) by simp_all
        moreover from this have "se_phase se' = Merging" by (simp add: mergingD)
        ultimately show ?thesis using 1 e(2) by (simp add: sort_state_def)
      qed
      then show ?case using 1(1) ph by (auto simp: sw sort_todo_def Let_def)
    qed
  next
    case scan
    have at: "scan_at cfg data (se_records se) se" using ex scan(1) by (auto simp: extracting_def Let_def taken_def)
    let ?next = "\<lambda>span. case span of None \<Rightarrow> give ()
      | Some sp \<Rightarrow> modify_session (\<lambda>se. se\<lparr>se_pending := Some (PendingLocate
           (locator_new (se_records se) sp (sg_format (se_config se)) (sr_column (sg_request (se_config se)))))\<rparr>)"
    have eq: "session_extract env dk ((se, budget), w) = and_then (session_scan env) ?next ((se, budget), w)"
    proof -
      obtain sc where "se_scanner se = Some sc" using scan(3) by auto
      then show ?thesis using scan(1,2) cfg(2) by (simp add: session_extract_def with_state_def)
    qed
    have run: "attains X (session_extract env dk) ((se, budget), w) Q
      = attains X (session_scan env) ((se, budget), w) (\<lambda>span sw. attains X (?next span) sw Q)" for X Q
      unfolding attains_and_then [symmetric] by (simp only: attains_def eq)
    let ?k = "se_records se" and ?cap = "sg_batch_capacity cfg"
    obtain m f where parts: "set_up cfg se" "se_comparison se = None" "in_range cfg data ?k" "m \<le> ?k" "?k - m \<le> ?cap"
      "?cap dvd m \<or> m = ?k \<and> se_scanner se = None" "se_batch se = map ?D (drop m (ranks_upto cfg data ?k))" "se_run_file se = Some f"
      "writing f (encoded (map ?D (block_sort ?cap (ranks_upto cfg data m))))"
      by (rule extractingE [OF ex]) metis
    have m: "?cap dvd m" "?k - m < ?cap" using parts(5-7) scan by auto
    have fp: "fp_size (se_snapshot se) = length data" using cfg(3) base_size by simp
    show ?thesis unfolding run
    proof (rule attains_weaken [OF session_scan_spec [OF w at scan(3) budget fp size(1)]], goal_cases)
      case (1 out sw)
      obtain se' budget' w' where sw: "sw = ((se', budget'), w')" by (metis surj_pair)
      with 1 have 1: "world_ok w'" "same_runs se se'" "scan_result cfg data ?k se out se'" by (auto simp: scan_result_def)
      have same: "se_records se' = ?k" "se_phase se' = Extracting" "se_config se' = cfg" "se_snapshot se' = base" "se_pending se' = None"
        "se_batch se' = se_batch se" "se_run_file se' = Some f" "set_up cfg se'" "se_comparison se' = None"
        using 1(2) ph cfg scan(1) parts set_up_same [OF 1(2)] by (simp_all add: same_runs_def)
      show ?case
      proof (cases out)
        case None
        with 1(3) have r: "scan_at cfg data ?k se'" "scan_left data se' < scan_left data se" by (simp_all add: scan_result_def)
        have "extracting cfg data se'"
          by (rule extractingI [of _ cfg data m f]) (use same parts m r in \<open>simp_all add: key_at_def taken_def\<close>)
        moreover have "extract_todo cfg data se' < extract_todo cfg data se"
          using r(2) same(1,5) scan(1) by (simp add: extract_todo_def taken_def)
        ultimately show ?thesis using None 1(1) same ph
          by (auto simp: sw wp_simps intro: sort_state_extracting extract_todo_less)
      next
        case (Some sp)
        with 1(3) have r: "?k < ?n" "sp = source_rows cfg data ! ?k" "scan_at cfg data (Suc ?k) se'" by (simp_all add: scan_result_def)
        let ?lo = "locator_new ?k sp (sg_format cfg) (sr_column (sg_request cfg))"
        define se2 where "se2 = se'\<lparr>se_pending := Some (PendingLocate ?lo)\<rparr>"
        have fmt: "valid_format (sg_format cfg)" using cfg(1) by (simp add: sort_okay_def)
        note key = key_located [where row = ?k and target = "sr_column (sg_request cfg)", OF fmt source_row_valid [OF r(1)], folded r(2)]
        have key2: "key_at cfg data ?k se2" using key(1,2) r(2) by (simp add: key_at_def se2_def row_extent_def Let_def)
        have scan2: "scan_at cfg data (Suc ?k) se2" using r(3) scan_at_cong [of se2 se' cfg data "Suc ?k"] by (simp add: se2_def)
        have up2: "set_up cfg se2" using same(8) by (simp add: se2_def set_up_def)
        have "extracting cfg data se2"
          by (rule extractingI [of _ cfg data m f])
             (use same parts m key2 scan2 up2 in \<open>simp_all add: taken_def se2_def\<close>)
        moreover have "extract_todo cfg data se2 < extract_todo cfg data se"
        proof -
          have "taken se2 = Suc ?k" "taken se = ?k" using same(1) scan(1) by (simp_all add: taken_def se2_def)
          moreover have "?n - Suc ?k < ?n - ?k" using r(1) by simp
          ultimately show ?thesis by (simp add: extract_todo_def)
        qed
        ultimately show ?thesis using Some 1(1) same ph
          by (auto simp: sw wp_simps se2_def intro!: sort_state_extracting extract_todo_less)
      qed
    qed
  qed
qed

text \<open>Sorting a batch.\<close>

lemma batch_written:
  assumes cap: "0 < cap" and m: "cap dvd m" "m \<le> k" "k - m \<le> cap"
  shows "block_sort cap (ranks_upto cfg data k)
     = block_sort cap (ranks_upto cfg data m) @ sort (drop m (ranks_upto cfg data k))"
proof -
  obtain j where j: "m = cap * j" using m(1) by (rule dvdE)
  have "ranks_upto cfg data k = ranks_upto cfg data m @ drop m (ranks_upto cfg data k)"
    using take_ranks_upto [OF m(2), of cfg data] append_take_drop_id [of m "ranks_upto cfg data k"] by simp
  moreover have "block_sort cap (ranks_upto cfg data m @ drop m (ranks_upto cfg data k))
      = block_sort cap (ranks_upto cfg data m) @ block_sort cap (drop m (ranks_upto cfg data k))"
    by (rule block_sort_append [OF cap, where k = j]) (use m(2) in \<open>simp add: j\<close>)
  moreover have "block_sort cap (drop m (ranks_upto cfg data k)) = sort (drop m (ranks_upto cfg data k))"
    using m(3) by (intro block_sort_sorted) simp
  ultimately show ?thesis by simp
qed

lemma sort_batch_step:
  assumes w: "world_ok w" and cfg: "sort_okay cfg data" "se_config se = cfg" "se_snapshot se = base"
    and bs: "batch_sorting cfg data se" and budget: "0 < budget"
  shows "attains sort_failure (sort_batch env dk) ((se, budget), w)
    (\<lambda>_ ((se', budget'), w'). world_ok w' \<and> sort_state cfg data base se' \<and> se_phase se' \<noteq> SortCancelled \<and> sort_todo cfg data se' < sort_todo cfg data se)"
proof -
  let ?D = "ranked_descriptor cfg data" and ?k = "se_records se" and ?cap = "sg_batch_capacity cfg"
  have ph: "se_phase se = SortingRuns" using bs by (rule batch_sorting_phase)
  obtain m where parts: "set_up cfg se" "se_pending se = None" "in_range cfg data ?k" "scan_at cfg data ?k se" "m < ?k" "?cap dvd m"
    "?k - m = ?cap \<or> ?k - m \<le> ?cap \<and> se_scanner se = None"
    and s: "sorting data ?D (encoded (map ?D (block_sort ?cap (ranks_upto cfg data m)))) (drop m (ranks_upto cfg data ?k)) se"
    using bs by (auto simp: batch_sorting_def Let_def)
  let ?xs = "drop m (ranks_upto cfg data ?k)" and ?c = "encoded (map ?D (block_sort ?cap (ranks_upto cfg data m)))"
  have k: "?k \<le> row_count cfg data" using parts(4) by (simp add: scan_at_def)
  have ok: "\<forall>p \<in> set ?xs. ranked_okay cfg data p" using ranks_okay [OF cfg(1) parts(3) k] by (auto dest: in_set_dropD)
  have len: "length ?xs \<le> u64_max"
    using k cfg(1) format_records_length [of "sg_format cfg" 0 data] unfolding sort_okay_def by simp linarith
  have batch: "length (se_batch se) = ?k - m" using s by (simp add: sorting_def)
  then have of: "batch_of cfg data se = ?xs" using parts(5) by (simp add: batch_of_def)
  show ?thesis
  proof (rule attains_weaken [OF sort_ranks.sort_batch_spec [OF ranked_sort [OF sort_world_axioms] w cfg(2) ok len s budget]], goal_cases)
    case (1 u sw)
    obtain se' budget' w' where sw: "sw = ((se', budget'), w')" by (metis surj_pair)
    with 1 have 1: "world_ok w'" "same_scan se se'"
      "if se_phase se' = Extracting
        then se_batch se' = [] \<and> se_comparison se' = None
          \<and> (\<exists>f. se_run_file se' = Some f \<and> writing f (?c @ encoded (map ?D (sort ?xs))))
        else sorting data ?D ?c ?xs se' \<and> batch_todo data ?xs se' < batch_todo data ?xs se" by auto
    have same: "se_records se' = ?k" "se_config se' = cfg" "se_snapshot se' = base" "se_pending se' = None" "set_up cfg se'"
      "se_scanner se' = se_scanner se"
      using 1(2) cfg parts by (simp_all add: same_scan_def set_up_def)
    have scan: "scan_at cfg data ?k se'" "scan_left data se' = scan_left data se"
      using parts(4) 1(2) scan_at_cong [of se' se cfg data ?k] by (simp_all add: same_scan_def)
    have left: "key_left data se' = key_left data se" "taken se' = taken se"
      using same(1,4) parts(2) by (simp_all add: key_left_def taken_def)
    show ?case
    proof (cases "se_phase se' = Extracting")
      case True
      with 1(3) obtain f where f: "se_batch se' = []" "se_comparison se' = None" "se_run_file se' = Some f"
        "writing f (?c @ encoded (map ?D (sort ?xs)))" by auto
      have cap: "0 < ?cap" using cfg(1) by (simp add: sort_okay_def)
      have km: "?k - m \<le> ?cap" using parts(7) by auto
      have "?c @ encoded (map ?D (sort ?xs)) = encoded (map ?D (block_sort ?cap (ranks_upto cfg data ?k)))"
        unfolding batch_written [OF cap parts(6) less_imp_le [OF parts(5)] km] by simp
      then have wr: "writing f (encoded (map ?D (block_sort ?cap (ranks_upto cfg data ?k))))" using f(4) by simp
      have last: "?cap dvd ?k \<or> ?k = se_records se' \<and> se_scanner se' = None"
      proof (cases "se_scanner se = None")
        case False
        then have "?k = m + ?cap" using parts(5,7) by auto
        then show ?thesis using parts(6) by simp
      qed (use same in simp)
      have "extracting cfg data se'"
        by (rule extractingI [of _ cfg data ?k f])
           (use True same f scan parts(3) wr last in \<open>simp_all add: key_at_def taken_def\<close>)
      moreover have "extract_todo cfg data se' < extract_todo cfg data se"
        using ph True f(1) by (simp add: extract_todo_def scan(2) left)
      ultimately show ?thesis using 1(1) same ph True by (auto simp: sw intro: sort_state_extracting extract_todo_less)
    next
      case False
      with 1(3) have so: "sorting data ?D ?c ?xs se'" "batch_todo data ?xs se' < batch_todo data ?xs se" by simp_all
      then have ph': "se_phase se' = SortingRuns" and batch': "length (se_batch se') = ?k - m" by (simp_all add: sorting_def)
      have "batch_of cfg data se' = ?xs" using parts(5) same(1) by (simp add: batch_of_def batch')
      then have "extract_todo cfg data se' < extract_todo cfg data se"
        using ph ph' so(2) of by (simp add: extract_todo_def scan(2) left)
      moreover have "batch_sorting cfg data se'"
        using same scan(1) parts so(1) unfolding batch_sorting_def Let_def by (intro conjI exI [of _ m]) simp_all
      ultimately show ?thesis using 1(1) same ph ph' by (auto simp: sw sort_state_def intro: extract_todo_less)
    qed
  qed
qed

text \<open>Merging and mapping.\<close>

lemma merge_disk_step:
  assumes w: "world_ok w" and cfg: "sort_okay cfg data" and st: "sort_state cfg data base se" and ph: "se_phase se = Merging"
    and budget: "0 < budget"
  shows "attains sort_failure (merge_disk env dk) ((se, budget), w)
    (\<lambda>_ ((se', budget'), w'). world_ok w' \<and> sort_state cfg data base se' \<and> se_phase se' \<noteq> SortCancelled \<and> sort_todo cfg data se' < sort_todo cfg data se)"
proof -
  let ?D = "ranked_descriptor cfg data" and ?n = "row_count cfg data"
  let ?ps = "ranks_upto cfg data ?n"
  have s: "se_config se = cfg" "se_snapshot se = base" "in_range cfg data ?n" "merging data ?D ?ps se" "se_inverse_at se = 0"
    using st ph by (simp_all add: sort_state_def Let_def)
  have ok: "\<forall>p \<in> set ?ps. ranked_okay cfg data p" using ranks_okay [OF cfg s(3) order.refl] by blast
  have len: "128 * length ?ps \<le> u64_max" and fan: "2 \<le> sg_merge_fan_in cfg"
    using cfg format_records_length [of "sg_format cfg" 0 data] unfolding sort_okay_def by simp_all
  show ?thesis
  proof (rule attains_weaken [OF sort_ranks.merge_disk_spec [OF ranked_sort [OF sort_world_axioms] w s(1) fan ok len s(4,5) budget]],
      goal_cases)
    case (1 u sw)
    obtain se' budget' w' where sw: "sw = ((se', budget'), w')" by (metis surj_pair)
    with 1 have 1: "world_ok w'" "se_config se' = cfg" "se_snapshot se' = base"
      "merging data ?D ?ps se' \<and> se_inverse_at se' = 0 \<and> merge_todo data ?ps se' < merge_todo data ?ps se
       \<or> mapping ?D (sort ?ps) se'" using s by auto
    from 1(4) show ?case
    proof
      assume m: "merging data ?D ?ps se' \<and> se_inverse_at se' = 0 \<and> merge_todo data ?ps se' < merge_todo data ?ps se"
      then have "se_phase se' = Merging" using mergingD(1) by blast
      then show ?thesis using m 1 s(3) ph by (simp add: sw sort_state_def sort_todo_def Let_def)
    next
      assume m: "mapping ?D (sort ?ps) se'"
      then have "se_phase se' = BuildingInverse" by (simp add: mapping_def Let_def)
      then show ?thesis using m 1 s(3) ph by (simp add: sw sort_state_def sort_todo_def Let_def)
    qed
  qed
qed

lemma build_maps_step:
  assumes w: "world_ok w" and cfg: "sort_okay cfg data" and st: "sort_state cfg data base se" and ph: "se_phase se = BuildingInverse"
  shows "attains sort_failure (build_maps env dk) ((se, budget), w)
    (\<lambda>_ ((se', budget'), w'). world_ok w' \<and> sort_state cfg data base se' \<and> se_phase se' \<noteq> SortCancelled \<and> sort_todo cfg data se' < sort_todo cfg data se)"
proof -
  let ?D = "ranked_descriptor cfg data" and ?n = "row_count cfg data"
  let ?zs = "sort (ranks_upto cfg data ?n)"
  have s: "se_config se = cfg" "se_snapshot se = base" "in_range cfg data ?n" "mapping ?D ?zs se"
    using st ph by (simp_all add: sort_state_def Let_def)
  have ok: "\<forall>p \<in> set ?zs. ranked_okay cfg data p" using ranks_okay [OF cfg s(3) order.refl] by simp
  have len: "128 * length ?zs \<le> u64_max"
    using cfg format_records_length [of "sg_format cfg" 0 data] unfolding sort_okay_def by simp
  note cov = ranks_cover [OF cfg s(3)]
  note ranked = ranked_sort [OF sort_world_axioms, of cfg]
  let ?post = "\<lambda>(_ :: unit) ((se', budget' :: nat), w'). world_ok w' \<and> se_snapshot se' = se_snapshot se \<and> se_config se' = se_config se
       \<and> (mapping ?D ?zs se' \<and> maps_todo se' < maps_todo se \<or> mapped ?D ?zs se')"
  have "attains sort_failure (build_maps env dk) ((se, budget), w) ?post"
  proof (cases "se_inverse_at se < length ?zs")
    case True
    show ?thesis
      by (rule attains_weaken [OF sort_ranks.map_record_spec [OF ranked w ok len cov s(4) True]]) auto
  next
    case False
    then have all: "se_inverse_at se = length ?zs" using s(4) by (simp add: mapping_def Let_def)
    show ?thesis
    proof (cases "se_run_file se = None")
      case True
      show ?thesis by (rule attains_weaken [OF sort_ranks.maps_placed_spec [OF ranked w cov s(4) True]]) auto
    next
      case False
      show ?thesis by (rule attains_weaken [OF sort_ranks.maps_collected_spec [OF ranked w cov s(4) all False]]) auto
    qed
  qed
  then show ?thesis
  proof (rule attains_weaken, goal_cases)
    case (1 u sw)
    obtain se' budget' w' where sw: "sw = ((se', budget'), w')" by (metis surj_pair)
    with 1 have 1: "world_ok w'" "se_config se' = cfg" "se_snapshot se' = base"
      "mapping ?D ?zs se' \<and> maps_todo se' < maps_todo se \<or> mapped ?D ?zs se'" using s by auto
    from 1(4) show ?case
    proof
      assume m: "mapping ?D ?zs se' \<and> maps_todo se' < maps_todo se"
      then have "se_phase se' = BuildingInverse" by (simp add: mapping_def Let_def)
      then show ?thesis using m 1 s(3) ph by (simp add: sw sort_state_def sort_todo_def Let_def)
    next
      assume m: "mapped ?D ?zs se'"
      then have "se_phase se' = SortComplete" by (simp add: mapped_def Let_def)
      then show ?thesis using m 1 s(3) ph by (simp add: sw sort_state_def sort_todo_def Let_def)
    qed
  qed
qed

text \<open>A step of any phase.\<close>

lemma session_work_spec:
  assumes w: "world_ok w" and cfg: "sort_okay cfg data" and st: "sort_state cfg data base se" and budget: "0 < budget"
    and busy: "se_phase se \<noteq> SortComplete" "se_phase se \<noteq> SortCancelled"
  shows "attains sort_failure (session_work env dk) ((se, budget), w)
    (\<lambda>_ ((se', budget'), w'). world_ok w' \<and> sort_state cfg data base se' \<and> se_phase se' \<noteq> SortCancelled \<and> sort_todo cfg data se' < sort_todo cfg data se)"
proof -
  have fields: "se_config se = cfg" "se_snapshot se = base" using st by (simp_all add: sort_state_def Let_def)
  show ?thesis
  proof (cases "se_phase se")
    case Extracting
    then have ex: "extracting cfg data se" using st by (simp add: sort_state_def Let_def)
    show ?thesis using session_extract_spec [OF w cfg fields ex budget] by (simp add: session_work_def wp_simps Extracting)
  next
    case SortingRuns
    then have bs: "batch_sorting cfg data se" using st by (simp add: sort_state_def Let_def)
    show ?thesis using sort_batch_step [OF w cfg fields bs budget] by (simp add: session_work_def wp_simps SortingRuns)
  next
    case Merging
    then show ?thesis using merge_disk_step [OF w cfg st Merging budget] by (simp add: session_work_def wp_simps)
  next
    case BuildingInverse
    then show ?thesis using build_maps_step [OF w cfg st BuildingInverse] by (simp add: session_work_def wp_simps)
  qed (use busy in simp_all)
qed

end

end
