(* ===== verification/Sort_Advance.thy ===== *)
theory Sort_Advance imports Sort_Steps begin

text \<open>
  A call of \<open>advance\<close> over a source that does not change: it returns, and unless it is cancelled or the
  sort is over it brings the sort nearer to its end.
\<close>

abbreviation idle :: "sort_session \<Rightarrow> bool" where
  "idle se \<equiv> se_phase se = SortComplete \<or> se_phase se = SortCancelled"

lemma sort_state_cancelled: "sort_state cfg data base se \<Longrightarrow> sort_state cfg data base (se\<lparr>se_phase := SortCancelled\<rparr>)"
  by (simp add: sort_state_def Let_def)

lemma sort_todo_cancelled: "\<not> idle se \<Longrightarrow> sort_todo cfg data (se\<lparr>se_phase := SortCancelled\<rparr>) < sort_todo cfg data se"
  by (cases "se_phase se") (simp_all add: sort_todo_def Let_def)

lemma sort_state_fields: "sort_state cfg data base se \<Longrightarrow> se_config se = cfg \<and> se_snapshot se = base"
  by (simp add: sort_state_def Let_def)

context sort_world begin

text \<open>Whether some load of the token may show another generation.\<close>

definition cancellable :: "cancellation_generation \<Rightarrow> bool" where
  "cancellable gen \<longleftrightarrow> (\<exists>w. world_ok w \<and> is_cancelled (fst (env_load_token env w)) gen)"

text \<open>What a loop over the session may end with.\<close>

definition advanced :: "cancellation_generation \<Rightarrow> sort_config \<Rightarrow> sort_session \<Rightarrow> bool \<Rightarrow> (sort_error, 'a) outcome \<Rightarrow> sort_session \<Rightarrow> 'w \<Rightarrow> bool" where
  "advanced gen cfg se works r se' w' \<longleftrightarrow>
     (case r of
        Ok _ \<Rightarrow> world_ok w' \<and> sort_state cfg data base se'
          \<and> (se' = se \<and> \<not> works \<or> sort_todo cfg data se' < sort_todo cfg data se)
          \<and> (se_phase se' = SortCancelled \<longrightarrow> se_phase se = SortCancelled \<or> cancellable gen)
      | Err e \<Rightarrow> sort_failure e
      | Panic \<Rightarrow> False)"

lemma session_loop_spec:
  assumes "world_ok w" "sort_okay cfg data" "sort_state cfg data base se"
  shows "\<exists>r se' budget' w'. session_loop env dk gen ((se, budget), w) = Some (r, ((se', budget'), w'))
    \<and> advanced gen cfg se (0 < budget \<and> \<not> idle se) r se' w'"
  using assms
proof (induction "sort_todo cfg data se" arbitrary: se budget w rule: less_induct)
  case less
  note w = less.prems(1) and cfg = less.prems(2) and st = less.prems(3)
  show ?case
  proof (cases "budget = 0 \<or> idle se")
    case True
    then show ?thesis using w st by (subst session_loop.simps) (auto simp: advanced_def)
  next
    case False
    obtain token w1 where t: "env_load_token env w = (token, w1)" by fastforce
    have w1: "world_ok w1" using load_token_ok [OF w] t by simp
    have step: "session_loop env dk gen ((se, budget), w) =
        (if is_cancelled token gen then Some (Ok (), ((se\<lparr>se_phase := SortCancelled\<rparr>, budget), w1))
         else (case session_work env dk ((se, budget), w1) of (r, sw') \<Rightarrow>
                  if r = Ok () then session_loop env dk gen sw' else Some (r, sw')))"
      using False t by (subst session_loop.simps) simp
    show ?thesis
    proof (cases "is_cancelled token gen")
      case True
      then show ?thesis unfolding step
        using False True t w sort_state_cancelled [OF st] sort_todo_cancelled [of se cfg data] w1
        by (auto simp: advanced_def cancellable_def)
    next
      case live: False
      have "attains sort_failure (session_work env dk) ((se, budget), w1)
        (\<lambda>_ ((se', budget'), w'). world_ok w' \<and> sort_state cfg data base se' \<and> se_phase se' \<noteq> SortCancelled
           \<and> sort_todo cfg data se' < sort_todo cfg data se)"
        using False by (intro session_work_spec [OF w1 cfg st]) auto
      then show ?thesis
      proof (cases rule: attains_cases)
        case (result a sw')
        obtain se' budget' w' where sw: "sw' = ((se', budget'), w')" by (metis surj_pair)
        with result have s: "world_ok w'" "sort_state cfg data base se'" "sort_todo cfg data se' < sort_todo cfg data se"
          "se_phase se' \<noteq> SortCancelled" by auto
        from less.hyps [OF s(3,1) cfg s(2), of budget'] obtain r se2 b2 w2 where
          l: "session_loop env dk gen ((se', budget'), w') = Some (r, ((se2, b2), w2))"
            "advanced gen cfg se' (0 < budget' \<and> \<not> idle se') r se2 w2" by blast
        have "advanced gen cfg se (0 < budget \<and> \<not> idle se) r se2 w2"
          using l(2) s(3,4) by (cases r) (auto simp: advanced_def)
        then show ?thesis unfolding step using live result(1) l(1) by (simp add: sw)
      next
        case (failed e sw')
        obtain se' budget' w' where sw: "sw' = ((se', budget'), w')" by (metis surj_pair)
        show ?thesis unfolding step using live failed by (simp add: sw advanced_def)
      qed
    qed
  qed
qed

lemma ensure_snapshot_spec:
  assumes "world_ok w" "se_snapshot se = base"
  shows "\<exists>w'. ensure_snapshot env ((se, budget), w) = (Ok (), ((se, budget), w')) \<and> world_ok w'"
proof -
  from fingerprint_stable [OF assms(1)] obtain w' where w': "env_fingerprint env w = (Inr base, w')" "world_ok w'" by blast
  then show ?thesis using assms(2)
    by (simp add: ensure_snapshot_def with_state_def and_then_def on_world_def capture_def compare_refl is_changed_def give_def)
qed

text \<open>A call of \<open>advance\<close>.\<close>

lemma session_advance_spec:
  assumes w: "world_ok w" and cfg: "sort_okay cfg data" "0 < sg_step_bytes cfg" and st: "sort_state cfg data base se"
  shows "\<exists>r se' w'. session_advance env dk gen (se, w) = Some (r, (se', w'))
    \<and> (case r of
         Ok step \<Rightarrow> world_ok w' \<and> sort_state cfg data base se' \<and> step = session_progress se'
           \<and> (se' = se \<and> idle se \<or> se_phase se' = SortCancelled \<or> sort_todo cfg data se' < sort_todo cfg data se)
           \<and> (se_phase se' = SortCancelled \<longrightarrow> se_phase se = SortCancelled \<or> cancellable gen)
       | Err e \<Rightarrow> sort_failure e
       | Panic \<Rightarrow> False)"
proof -
  obtain token w1 where t: "env_load_token env w = (token, w1)" by fastforce
  have w1: "world_ok w1" using load_token_ok [OF w] t by simp
  note fields = sort_state_fields [OF st]
  show ?thesis
  proof (cases "is_cancelled token gen")
    case True
    then have "cancellable gen" using t w by (auto simp: cancellable_def)
    then show ?thesis using True t w1 sort_state_cancelled [OF st] by (simp add: session_advance_def Let_def)
  next
    case False
    from ensure_snapshot_spec [OF w1, of se "sg_step_bytes cfg"] fields obtain w2 where
      e1: "ensure_snapshot env ((se, sg_step_bytes cfg), w1) = (Ok (), ((se, sg_step_bytes cfg), w2))" "world_ok w2" by blast
    from session_loop_spec [OF e1(2) cfg(1) st, of gen "sg_step_bytes cfg"] obtain r se' b' w' where
      l: "session_loop env dk gen ((se, sg_step_bytes cfg), w2) = Some (r, ((se', b'), w'))"
        "advanced gen cfg se (0 < sg_step_bytes cfg \<and> \<not> idle se) r se' w'" by blast
    show ?thesis
    proof (cases r)
      case (Ok u)
      with l(2) cfg(2) have s: "world_ok w'" "sort_state cfg data base se'"
        "se' = se \<and> idle se \<or> sort_todo cfg data se' < sort_todo cfg data se"
        "se_phase se' = SortCancelled \<longrightarrow> se_phase se = SortCancelled \<or> cancellable gen" by (auto simp: advanced_def)
      from ensure_snapshot_spec [OF s(1), of se' b'] sort_state_fields [OF s(2)] obtain w3 where
        "ensure_snapshot env ((se', b'), w') = (Ok (), ((se', b'), w3))" "world_ok w3" by blast
      then have "session_advance env dk gen (se, w) = Some (Ok (session_progress se'), (se', w3))" "world_ok w3"
        using t False fields e1(1) l(1) Ok by (simp_all add: session_advance_def)
      then show ?thesis using s by auto
    next
      case (Err e)
      then have "session_advance env dk gen (se, w) = Some (Err e, (se', w'))" "sort_failure e"
        using t False fields e1(1) l by (simp_all add: session_advance_def advanced_def)
      then show ?thesis by auto
    next
      case Panic
      then show ?thesis using l(2) by (simp add: advanced_def)
    qed
  qed
qed

end

section \<open>To the end\<close>

text \<open>What the reader of a sort does: it advances until the sort is complete, cancelled or failed.\<close>

fun advance_until_idle ::
    "nat \<Rightarrow> 'w environment \<Rightarrow> 'w sort_disk \<Rightarrow> cancellation_generation \<Rightarrow> sort_session \<times> 'w
     \<Rightarrow> ((sort_error, bool) outcome \<times> sort_session \<times> 'w) option" where
  "advance_until_idle 0 env dk gen sw = Some (Ok (idle (fst sw)), sw)"
| "advance_until_idle (Suc n) env dk gen sw =
     (if idle (fst sw) then Some (Ok True, sw)
      else
        (case session_advance env dk gen sw of
           None \<Rightarrow> None
         | Some (Ok _, sw') \<Rightarrow> advance_until_idle n env dk gen sw'
         | Some (Err e, sw') \<Rightarrow> Some (Err e, sw')
         | Some (Panic, sw') \<Rightarrow> Some (Panic, sw')))"

context sort_world begin

lemma advance_until_idle_ends:
  assumes "world_ok w" "sort_okay cfg data" "0 < sg_step_bytes cfg" "sort_state cfg data base se"
  shows "\<exists>n r se' w'. advance_until_idle n env dk gen (se, w) = Some (r, (se', w'))
    \<and> (case r of
         Ok ended \<Rightarrow> ended \<and> idle se' \<and> sort_state cfg data base se' \<and> world_ok w'
           \<and> (se_phase se' = SortCancelled \<longrightarrow> se_phase se = SortCancelled \<or> cancellable gen)
       | Err e \<Rightarrow> sort_failure e | Panic \<Rightarrow> False)"
  using assms
proof (induction "sort_todo cfg data se" arbitrary: se w rule: less_induct)
  case less
  show ?case
  proof (cases "idle se")
    case True
    then show ?thesis using less.prems by (intro exI [of _ 0]) simp
  next
    case False
    from session_advance_spec [OF less.prems, of gen] obtain r se1 w1 where
      a: "session_advance env dk gen (se, w) = Some (r, (se1, w1))"
        "case r of
         Ok step \<Rightarrow> world_ok w1 \<and> sort_state cfg data base se1 \<and> step = session_progress se1
           \<and> (se1 = se \<and> idle se \<or> se_phase se1 = SortCancelled \<or> sort_todo cfg data se1 < sort_todo cfg data se)
           \<and> (se_phase se1 = SortCancelled \<longrightarrow> se_phase se = SortCancelled \<or> cancellable gen)
       | Err e \<Rightarrow> sort_failure e
       | Panic \<Rightarrow> False" by blast
    show ?thesis
    proof (cases r)
      case (Ok step)
      with a False have s: "world_ok w1" "sort_state cfg data base se1"
        "se_phase se1 = SortCancelled \<or> sort_todo cfg data se1 < sort_todo cfg data se"
        "se_phase se1 = SortCancelled \<longrightarrow> cancellable gen" by auto
      from s(3) show ?thesis
      proof
        assume "se_phase se1 = SortCancelled"
        then have "advance_until_idle (Suc 0) env dk gen (se, w) = Some (Ok True, (se1, w1))" using False a(1) Ok by simp
        then show ?thesis using s \<open>se_phase se1 = SortCancelled\<close> by (intro exI [of _ "Suc 0"]) simp
      next
        assume "sort_todo cfg data se1 < sort_todo cfg data se"
        from less.hyps [OF this s(1) less.prems(2,3) s(2)] obtain n r' se2 w2 where
          n: "advance_until_idle n env dk gen (se1, w1) = Some (r', (se2, w2))"
            "case r' of
               Ok ended \<Rightarrow> ended \<and> idle se2 \<and> sort_state cfg data base se2 \<and> world_ok w2
                 \<and> (se_phase se2 = SortCancelled \<longrightarrow> se_phase se1 = SortCancelled \<or> cancellable gen)
             | Err e \<Rightarrow> sort_failure e | Panic \<Rightarrow> False"
          by blast
        have "advance_until_idle (Suc n) env dk gen (se, w) = Some (r', (se2, w2))" using False a(1) Ok n(1) by simp
        then show ?thesis using n(2) s(4)
          by (intro exI [of _ "Suc n"] exI [of _ r'] exI [of _ se2] exI [of _ w2]) (cases r', auto)
      qed
    next
      case (Err e)
      then have "advance_until_idle (Suc 0) env dk gen (se, w) = Some (Err e, (se1, w1))" using False a(1) by simp
      then show ?thesis using a(2) Err by (intro exI [of _ "Suc 0"]) simp
    next
      case Panic
      then show ?thesis using a(2) by simp
    qed
  qed
qed

end

end
