(* ===== verification/Sort_Start.thy ===== *)
theory Sort_Start imports Sort_Advance begin

text \<open>A new session: it starts in the state of a sort that has scanned nothing.\<close>

lemma next_power_of_two_double: "2 \<le> n \<Longrightarrow> \<exists>h. next_power_of_two n = 2 ^ Suc h"
proof -
  assume n: "2 \<le> n"
  obtain h where h: "next_power_of_two n = 2 ^ h" using next_power_of_two_power by blast
  have "2 \<le> next_power_of_two n" using next_power_of_two_ge [of n] n by linarith
  with h have "h \<noteq> 0" by (intro notI) simp
  then show ?thesis using h by (metis not0_implies_Suc)
qed

lemma attains_any: "attains E m sw Q \<Longrightarrow> attains (\<lambda>_. True) m sw Q"
  by (simp add: attains_def split: prod.splits outcome.splits)

lemma attains_resource_call [wp_simps]:
  "attains E (resource_call f) (rs, w) Q =
     (case f rs of (Inl e, rs') \<Rightarrow> E e | (Inr a, rs') \<Rightarrow> Q a (rs', w))"
  by (simp add: attains_def resource_call_def split: prod.split sum.split)

lemma attains_with_owner:
  "attains E (with_owner dk ow m) (rs, w) Q =
     attains E m (\<lparr>sh_resources = rs, sh_owner = ow\<rparr>, w) (\<lambda>a (sh, w). Q (sh, a) (sh_resources sh, w))"
  by (simp add: attains_def with_owner_def split: prod.split outcome.split)

lemma reserve_never_panics:
  "(\<And>r rs'. Q r (rs', w)) \<Longrightarrow> attains (\<lambda>_. True) (resource_call (reserve n m)) (rs, w) Q"
  by (auto simp: attains_resource_call split: prod.split sum.split)

text \<open>The session that is built.\<close>

definition new_session ::
    "source_fingerprint \<Rightarrow> sort_config \<Rightarrow> sort_shared \<Rightarrow> reservation \<Rightarrow> reservation \<Rightarrow> descriptor list \<Rightarrow> bytes \<Rightarrow> read_page list
     \<Rightarrow> disk_file \<Rightarrow> winner_tree \<Rightarrow> sort_session" where
  "new_session snapshot cfg sh fixed memory alternate buffer pages runs tree =
     \<lparr>se_snapshot = snapshot, se_config = cfg, se_shared = sh, se_fixed_memory = fixed,
      se_merge_memory = Some memory, se_phase = Extracting,
      se_scanner = Some (boundary_scanner_new (sg_format cfg) 0), se_scan_buffer = buffer,
      se_scan_pos = 0, se_scan_count = 0, se_pending = None, se_batch = [],
      se_alternate = alternate, se_merge = batch_merge_default, se_comparison = None,
      se_write_at = 0, se_records = 0, se_run_file = Some runs, se_pass_file = None,
      se_run_width = sg_batch_capacity cfg, se_pass = 0, se_group_start = 0, se_tree = tree,
      se_order = None, se_inverse = None, se_inverse_at = 0, se_inverse_builder = None,
      se_pages = pages\<rparr>"

context sort_world begin

lemma filled_then:
  assumes "world_ok w" "\<And>w'. world_ok w' \<Longrightarrow> Q (replicate n v) w'"
  shows "attains sort_failure (filled env n v) w Q"
  unfolding filled_def attains_and_then attains_give
  using try_reserve_ok [OF assms(1), of n] assms(2)
  by (auto simp: attains_def try_reserve_def split: prod.splits)

lemma reserve_then:
  assumes "world_ok w" "\<And>w'. world_ok w' \<Longrightarrow> Q () w'"
  shows "attains sort_failure (try_reserve env SortAllocation n) w Q"
  using try_reserve_ok [OF assms(1), of n] assms(2) by (auto simp: attains_def try_reserve_def split: prod.splits)

lemma tree_new_spec:
  assumes w: "world_ok w" and fan: "2 \<le> sg_merge_fan_in cfg" "sg_merge_fan_in cfg \<le> empty_run"
  shows "attains (\<lambda>_. True) (tree_new env (sg_merge_fan_in cfg)) w (\<lambda>wt w'. world_ok w' \<and> tree_ok cfg 1 wt)"
proof -
  let ?k = "sg_merge_fan_in cfg"
  obtain h where h: "next_power_of_two ?k = 2 ^ Suc h" using next_power_of_two_double [OF fan(1)] by blast
  have ge: "?k \<le> next_power_of_two ?k" by (rule next_power_of_two_ge)
  have "attains (\<lambda>_. True)
      (and_then (option_or InvalidConfig (checked_mul (next_power_of_two ?k) 2)) (\<lambda>n.
        and_then (filled env n empty_run) (\<lambda>nodes.
        and_then (filled env ?k None) (\<lambda>heads.
        and_then (filled env ?k 0) (\<lambda>nexts.
        and_then (filled env ?k 0) (\<lambda>ends.
        give \<lparr>wt_leaves = next_power_of_two ?k, wt_nodes = nodes, wt_heads = heads, wt_next = nexts, wt_end = ends,
              wt_group_end = 0, wt_stage = StageIdle\<rparr>)))))) w (\<lambda>wt w'. world_ok w' \<and> tree_ok cfg 1 wt)"
    unfolding attains_and_then attains_option_or
    by (auto split: option.split simp: checked_simps,
        rule attains_any [OF filled_then [OF w]],
        rule attains_any [OF filled_then], assumption,
        rule attains_any [OF filled_then], assumption,
        rule attains_any [OF filled_then], assumption)
       (use fan ge h in \<open>auto simp: attains_give tree_ok_def\<close>)
  then show ?thesis by (simp add: tree_new_def Let_def attains_fail)
qed

lemma owner_attempts_spec:
  "world_ok w \<Longrightarrow> attains (\<lambda>_. True) (owner_attempts dk directory k) w (\<lambda>ow w'. world_ok w')"
proof (induction k arbitrary: w)
  case (Suc k)
  obtain n w1 where n: "sd_next_owner dk w = (n, w1)" by fastforce
  have w1: "world_ok w1" using disk_ok(11) [OF Suc.prems] n by simp
  let ?p = "directory @ [sort_name_prefix @ decimal_text (sd_process_id dk) @ ascii ''-'' @ decimal_text n]"
  obtain r w2 where r: "sd_create_dir dk w1 ?p = (r, w2)" by fastforce
  have w2: "world_ok w2" using disk_ok(8) [OF w1, of ?p] r by simp
  obtain e w3 where e: "sd_open_new dk w2 (?p @ [ascii ''owner.lock'']) = (e, w3)" by fastforce
  have w3: "world_ok w3" using disk_ok(3) [OF w2, of "?p @ [ascii ''owner.lock'']"] e by simp
  show ?case
  proof (cases r)
    case Opened
    then show ?thesis using n r e w3 by (cases e) (simp_all add: attains_def)
  next
    case AlreadyExists
    then show ?thesis using Suc.IH [OF w2] n r by (simp add: attains_def)
  next
    case (OpenFailed x)
    then show ?thesis using n r by (simp add: attains_def)
  qed
qed (simp add: attains_def)

lemma owner_create_spec:
  assumes "world_ok w"
  shows "attains (\<lambda>_. True) (owner_create dk directory) w (\<lambda>ow w'. world_ok w')"
proof -
  obtain b w' where d: "ordinary_directory dk directory w = (b, w')" by fastforce
  obtain md v where v: "sd_path_metadata dk w directory = (md, v)" by fastforce
  have "world_ok v" using disk_ok(7) [OF assms, of directory] v by simp
  then have "world_ok w'" using d v by (auto simp: ordinary_directory_def split: option.splits)
  then show ?thesis using owner_attempts_spec [of w' directory 64] d by (cases b) (simp_all add: attains_def owner_create_def)
qed

lemma retry_slots_ok: "world_ok w \<Longrightarrow> retry_slots dk slots (rs, w) = (slots', rs', w') \<Longrightarrow> world_ok w'"
proof (induction slots arbitrary: slots' rs w)
  case (Cons s slots)
  show ?case
  proof (cases s)
    case None
    then show ?thesis using Cons.prems Cons.IH [OF Cons.prems(1)] by (auto split: prod.splits)
  next
    case (Some entry)
    obtain r w1 where r: "sd_remove_dir_all dk w (pc_path entry) = (r, w1)" by fastforce
    have "world_ok w1" using disk_ok(10) [OF Cons.prems(1), of "pc_path entry"] r by simp
    from Cons.IH [OF this] show ?thesis using Cons.prems(2) r Some by (cases r) (auto split: prod.splits)
  qed
qed simp

lemma session_buffers_spec:
  assumes w: "world_ok w"
  shows "attains sort_failure (session_buffers env cfg) w
    (\<lambda>(alternate, buffer, pages) w'. world_ok w' \<and> length alternate = sg_batch_capacity cfg \<and> length buffer = scan_buffer_bytes
       \<and> (\<exists>pg. pages = [pg] \<and> (\<forall>c. page_holds pg c)))"
  unfolding session_buffers_def attains_and_then
proof (rule reserve_then [OF w], rule reserve_then, assumption, rule reserve_then, assumption, rule reserve_then, assumption, goal_cases)
  case (1 w1 w2 w3 w4)
  show ?case
  proof (rule attains_weaken [OF page_new_spec [OF 1(4), of "[]"]], goal_cases)
    case (1 pg w5)
    then have "\<forall>c. page_holds pg c" by (simp add: page_holds_def)
    then show ?case using 1 by (simp add: attains_give)
  qed
qed

lemma session_new_state:
  assumes w: "world_ok w" and cfg: "sort_okay cfg data"
  shows "attains (\<lambda>_. True) (session_new env dk cfg directory) (rs, w)
    (\<lambda>se (rs', w'). world_ok w' \<and> sort_state cfg data base se \<and> se_phase se = Extracting)"
proof (cases "sg_batch_capacity cfg = 0 \<or> sg_merge_fan_in cfg < 2 \<or> sg_step_bytes cfg = 0")
  case True
  then show ?thesis by (simp add: session_new_def attains_fail)
next
  case False
  have fan: "2 \<le> sg_merge_fan_in cfg" "sg_merge_fan_in cfg \<le> empty_run" and cap: "0 < sg_batch_capacity cfg"
    using cfg by (simp_all add: sort_okay_def)
  have snap: "attains (\<lambda>_. True) (capture env SortIo) w (\<lambda>s w'. s = base \<and> world_ok w')"
    using fingerprint_stable [OF w] by (auto simp: attains_def capture_def)
  note scanner = boundary_scanner_new_laws [of 0 "sg_format cfg"]
  show ?thesis
    unfolding session_new_def if_not_P [OF False] attains_and_then attains_on_world attains_on_failure attains_option_or fst_conv snd_conv
  proof (rule attains_weaken [OF snap], elim conjE, hypsubst, rule reserve_never_panics, goal_cases)
    case (1 s w1 fixed rs1)
    show ?case
    proof (cases "merge_bytes dk cfg")
      case (Some bytes)
      show ?thesis unfolding Some option.case
      proof (rule reserve_never_panics, unfold fst_conv snd_conv, rule attains_weaken [OF attains_any [OF session_buffers_spec [OF 1]]], goal_cases)
        case (1 memory rs2 out w2)
        then obtain alternate buffer pg where out: "out = (alternate, buffer, [pg])" and b: "world_ok w2"
          "length alternate = sg_batch_capacity cfg" "length buffer = scan_buffer_bytes" "\<forall>c. page_holds pg c" by (auto split: prod.splits)
        obtain rs3 w3 where c: "retry_cleanup dk (rs2, w2) = (rs3, w3)" by fastforce
        have w3: "world_ok w3" using c retry_slots_ok [OF b(1)] by (auto simp: retry_cleanup_def split: prod.splits)
        have clean: "attains E (\<lambda>rw. (Ok (), retry_cleanup dk rw)) (rs2, w2) Q = Q () (rs3, w3)" for E :: "sort_error \<Rightarrow> bool" and Q
          by (simp add: attains_def c)
        show ?case unfolding out prod.case attains_and_then clean attains_on_world fst_conv snd_conv
        proof (rule attains_weaken [OF owner_create_spec [OF w3]], goal_cases)
          case (1 ow w4)
          show ?case unfolding attains_with_owner attains_and_then attains_with_file attains_on_world fst_conv snd_conv
          proof (rule attains_weaken [OF attains_any [OF create_spec [OF 1]]], unfold split_def, elim conjE, goal_cases)
            case (1 f shw)
            obtain sh w5 where shw: "shw = (sh, w5)" by fastforce
            with 1 have f: "world_ok w5" "writing f []" by simp_all
            show ?case unfolding attains_with_file attains_on_world shw split_def fst_conv snd_conv
            proof (rule attains_weaken [OF tree_new_spec [OF f(1) fan]], goal_cases)
              case (1 wt w6)
              define se where "se = new_session base cfg sh fixed memory alternate buffer [pg] f wt"
              have "scan_at cfg data 0 se"
                using b(3) scanner by (simp add: scan_at_def se_def new_session_def scan_buffer_bytes_def)
              moreover have "set_up cfg se"
                using 1 b(2,4) fan(1) by (simp add: set_up_def se_def new_session_def)
              ultimately have "extracting cfg data se"
                by (intro extractingI [of _ cfg data 0 f])
                   (use f(2) cap in \<open>simp_all add: se_def new_session_def in_range_def key_at_def taken_def ranks_upto_def\<close>)
              then have "sort_state cfg data base se" by (intro sort_state_extracting) (simp_all add: se_def new_session_def)
              then show ?case using 1 by (simp add: attains_give se_def new_session_def)
            qed
          qed
        qed
      qed
    qed simp
  qed
qed

end

end
