(* ===== verification/Sort_Result.thy ===== *)
theory Sort_Result imports Sort_Start Sort_Inverse_Map begin

text \<open>
  Reading the finished order: the record at a rank is the row the order of the keys puts there, and the
  rank of a row is its place in that order.
\<close>

section \<open>The two maps\<close>

lemma ranked_span:
  assumes "ranked_okay cfg data p"
  defines "sp \<equiv> source_rows cfg data ! ranked_row cfg data p"
  shows "ds_start (ranked_descriptor cfg data p) = span_start sp" "ds_end (ranked_descriptor cfg data p) = span_end sp"
proof -
  let ?i = "ranked_row cfg data p" and ?d = "ranked_descriptor cfg data p"
  note r = ranked_stored(1,2) [OF assms(1)]
  have fmt: "valid_format (sg_format cfg)" using assms(1) by (simp add: ranked_okay_def)
  note k = key_located [where row = ?i and target = "sr_column (sg_request cfg)", OF fmt source_row_valid [OF r(1)]]
  have D: "ds_len (row_extent cfg data ?i) = 0" "length (ds_prefix (row_extent cfg data ?i)) = 32"
    using k(8,9) by (simp_all add: row_extent_def Let_def)
  have d: "ds_start ?d = ds_start (row_extent cfg data ?i)" "ds_end ?d = ds_end (row_extent cfg data ?i)"
    by (subst stored_key_stores(2) [OF D r(2) [unfolded row_stored_def]], simp)+
  then show "ds_start ?d = span_start sp" "ds_end ?d = span_end sp"
    by (simp_all add: row_extent_def Let_def key_extent_def descriptor_new_def sp_def)
qed

definition order_row :: "sort_config \<Rightarrow> bytes \<Rightarrow> nat \<Rightarrow> bytes" where
  "order_row cfg data rank =
     (let row = ranked_row cfg data rank; sp = source_rows cfg data ! row in
      le_bytes 8 row @ le_bytes 8 (span_start sp) @ le_bytes 8 (span_end sp))"

definition finished_order :: "sort_config \<Rightarrow> bytes \<Rightarrow> sorted_order \<Rightarrow> bool" where
  "finished_order cfg data so \<longleftrightarrow>
     (let n = row_count cfg data in
      so_records so = n \<and> so_source_size so = length data
      \<and> stored (so_order so) (map_header n (length data) 24 @ concat (map (order_row cfg data) [0..<n]))
      \<and> stored (so_inverse so) (map_header n (length data) 8 @ rank_bytes (map (row_rank cfg data) [0..<n])))"

lemma complete_maps:
  assumes cfg: "sort_okay cfg data" and st: "sort_state cfg data base se" and size: "fp_size base = length data"
    and ph: "se_phase se = SortComplete"
  obtains order inv where "se_order se = Some order" "se_inverse se = Some inv" "se_records se = row_count cfg data"
    "stored order (map_header (row_count cfg data) (length data) 24 @ concat (map (order_row cfg data) [0..<row_count cfg data]))"
    "stored inv (map_header (row_count cfg data) (length data) 8 @ rank_bytes (map (row_rank cfg data) [0..<row_count cfg data]))"
proof -
  let ?n = "row_count cfg data" and ?D = "ranked_descriptor cfg data"
  have ir: "in_range cfg data ?n" and m: "mapped ?D [0..<?n] se" and snap: "se_snapshot se = base"
    using st ph by (simp_all add: sort_state_def Let_def ranks_all)
  have ok: "ranked_okay cfg data p" if "p < ?n" for p
  proof -
    have "p \<in> set (ranks_upto cfg data ?n)" using mset_eq_setD [OF ranks_all(1) [of cfg data]] that by simp
    then show ?thesis by (rule ranks_okay [OF cfg ir order.refl])
  qed
  obtain order inv ranks where f: "se_order se = Some order" "se_inverse se = Some inv" "se_records se = ?n"
    "stored order (order_bytes ?D [0..<?n] (length data) ?n)" "stored inv (map_header ?n (length data) 8 @ rank_bytes ranks)"
    "length ranks = ?n" "\<forall>row < ?n. ranks ! row < ?n \<and> map (\<lambda>p. ds_row (?D p)) [0..<?n] ! (ranks ! row) = row"
    using m unfolding mapped_def Let_def snap size by auto
  have entries: "map (\<lambda>p. order_entry (?D p)) [0..<?n] = map (order_row cfg data) [0..<?n]"
    using ranked_stored(3) [OF ok] ranked_span [OF ok] by (simp add: order_entry_def order_row_def Let_def)
  have "ranks ! row = row_rank cfg data row" if "row < ?n" for row
  proof -
    have r: "ranks ! row < ?n" "ds_row (?D (ranks ! row)) = row" using f(7) that by auto
    then have "ranked_row cfg data (ranks ! row) = row" using ranked_stored(3) [OF ok [OF r(1)]] by simp
    then show ?thesis using ranked_row_rank(2) [OF r(1)] by simp
  qed
  then have "ranks = map (row_rank cfg data) [0..<?n]" using f(6) by (intro nth_equalityI) simp_all
  then show thesis using that [OF f(1-3)] f(4,5) by (simp add: order_bytes_def entries)
qed

section \<open>Reads\<close>

context sort_world begin

lemma validate_map_spec:
  assumes w: "world_ok w" and f: "stored f (map_header n s k @ body)" "length body = n * k" "n * k \<le> u64_max"
  shows "attains sort_failure (validate_map dk n s k) ((f, sh), w) (\<lambda>_ ((f', sh'), w'). world_ok w' \<and> moved f f')"
proof -
  have len: "0 + 32 \<le> length (df_data f)" using f(1) by (simp add: stored_def)
  show ?thesis unfolding validate_map_def attains_and_then
  proof (rule attains_weaken [OF read_spec [OF w len]], goal_cases)
    case (1 bs fsw)
    obtain f1 sh1 w1 where fsw: "fsw = ((f1, sh1), w1)" by (metis surj_pair)
    with 1 have 1: "world_ok w1" "bs = map_header n s k" "moved f f1"
      using f(1) by (simp_all add: stored_def segment_def)
    have c: "df_data f1 = map_header n s k @ body" using f(1) moved_fields [OF 1(3)] by (simp add: stored_def)
    obtain r w2 where r: "sd_metadata dk w1 = (r, w2)" by fastforce
    have "world_ok w2" using disk_ok(6) [OF 1(1)] r by simp
    then show ?case using 1 f(2,3) r c
      by (cases r) (simp_all add: fsw wp_simps attains_system_call checked_mul_def)
  qed
qed

lemma order_fields:
  fixes so :: sorted_order
  assumes "finished_order cfg data so" "moved (so_order so) f"
  shows "finished_order cfg data (so\<lparr>so_order := f, so_shared := sh\<rparr>)"
  using assms(1) moved_fields [OF assms(2)] by (simp add: finished_order_def Let_def)

lemma inverse_fields:
  fixes so :: sorted_order
  assumes "finished_order cfg data so" "moved (so_inverse so) f"
  shows "finished_order cfg data (so\<lparr>so_inverse := f, so_shared := sh\<rparr>)"
  using assms(1) moved_fields [OF assms(2)] by (simp add: finished_order_def Let_def)

end

lemma map_entry_at:
  assumes i: "i < length xs" and n: "\<forall>x \<in> set xs. length (f x) = n" and h: "length h = 32"
  shows "segment (h @ concat (map f xs)) (32 + i * n) (32 + i * n + n) = f (xs ! i)"
proof -
  have "segment xs i (Suc i) = [xs ! i]" using i by (simp add: segment_def Cons_nth_drop_Suc [symmetric])
  then have "segment (concat (map f xs)) (n * i) (n * Suc i) = f (xs ! i)"
    using segment_concat_width [OF n, of i "Suc i"] by simp
  then show ?thesis by (simp add: segment_skip h algebra_simps)
qed

lemma length_order_row [simp]: "length (order_row cfg data rank) = 24"
  by (simp add: order_row_def Let_def)

lemma moved_twice: "moved f f1 \<Longrightarrow> moved f1 f2 \<Longrightarrow> moved f f2"
  by (auto simp: moved_def)

lemma segment_all: "segment (le_bytes n x) 0 n = le_bytes n x"
  by (simp add: segment_def)

lemma le_value_position: "x \<le> u64_max \<Longrightarrow> le_value (le_bytes 8 x) = x"
  by (rule le_value_le_bytes) simp

context sort_world begin

lemma record_at_spec:
  assumes w: "world_ok w" and cfg: "sort_okay cfg data" and so: "finished_order cfg data so" and rank: "rank < row_count cfg data"
  shows "attains sort_failure (record_at dk rank) (so, w)
    (\<lambda>r (so', w'). world_ok w' \<and> finished_order cfg data so'
       \<and> r = \<lparr>srt_source_row = ranked_row cfg data rank, srt_span = source_rows cfg data ! ranked_row cfg data rank\<rparr>)"
proof -
  let ?n = "row_count cfg data" and ?row = "ranked_row cfg data rank"
  let ?c = "map_header ?n (length data) 24 @ concat (map (order_row cfg data) [0..<?n])"
  let ?sp = "source_rows cfg data ! ?row"
  have f: "so_records so = ?n" "so_source_size so = length data" "stored (so_order so) ?c"
    using so by (simp_all add: finished_order_def Let_def)
  have size: "?n * 24 \<le> u64_max" "length data \<le> u64_max" "?n \<le> u64_max"
    using cfg format_records_length [of "sg_format cfg" 0 data] unfolding sort_okay_def by linarith+
  have body: "length (concat (map (order_row cfg data) [0..<?n])) = ?n * 24"
    using length_concat_width [of "[0..<?n]" "order_row cfg data" 24] by (simp add: mult.commute)
  have row: "?row < ?n" using ranked_row_rank(1) [OF rank] .
  note sp = source_row_valid [OF row]
  show ?thesis unfolding record_at_def attains_with_state attains_and_then fst_conv snd_conv f(1,2) on_order_map_def attains_focus
  proof (rule attains_weaken [OF validate_map_spec [OF w f(3) body size(1)]], goal_cases)
    case (1 u fsw)
    obtain f1 sh1 w1 where fsw: "fsw = ((f1, sh1), w1)" by (metis surj_pair)
    with 1 have 1: "world_ok w1" "moved (so_order so) f1" by simp_all
    have st: "stored f1 ?c" using moved_fields [OF 1(2)] f(3) by simp
    then have inside: "32 + rank * 24 + 24 \<le> length (df_data f1)" using rank body by (simp add: stored_def)
    have at: "checked_mul rank 24 = Some (rank * 24)" using rank size(1) by (simp add: checked_mul_def)
    have sel: "so_order (so\<lparr>so_order := f1, so_shared := sh1\<rparr>) = f1" "so_shared (so\<lparr>so_order := f1, so_shared := sh1\<rparr>) = sh1"
      by simp_all
    have nr: "\<not> rank \<ge> ?n" using rank by simp
    show ?case unfolding fsw fst_conv snd_conv prod.case if_not_P [OF nr] at option.case attains_and_then attains_focus sel
    proof (rule attains_weaken [OF read_spec [OF 1(1) inside]], goal_cases)
      case (1 bs gsw)
      obtain f2 sh2 w2 where gsw: "gsw = ((f2, sh2), w2)" by (metis surj_pair)
      with 1 have 1: "world_ok w2" "bs = segment (df_data f1) (32 + rank * 24) (32 + rank * 24 + 24)" "moved f1 f2" by simp_all
      have "bs = order_row cfg data rank"
        using map_entry_at [of rank "[0..<?n]" "order_row cfg data" 24 "map_header ?n (length data) 24"] rank st 1(2)
        by (simp add: stored_def)
      then have bs: "le_value (segment bs 0 8) = ?row" "le_value (segment bs 8 16) = span_start ?sp" "le_value (segment bs 16 24) = span_end ?sp"
        using row sp size by (simp_all add: order_row_def Let_def segment_here segment_skip le_value_position segment_all)
      have m: "moved (so_order so) f2" using \<open>moved (so_order so) f1\<close> 1(3) by (rule moved_twice)
      have valid: "\<not> (?row \<ge> ?n \<or> span_end ?sp > length data)" "span_new (span_start ?sp) (span_end ?sp) = Inr ?sp"
        using row sp by (simp_all add: span_new_def)
      show ?case unfolding gsw bs Let_def if_not_P [OF valid(1)] valid(2)
        using 1(1) order_fields [OF so m] by (simp add: attains_give)
    qed
  qed
qed

lemma rank_of_spec:
  assumes w: "world_ok w" and cfg: "sort_okay cfg data" and so: "finished_order cfg data so" and row: "row < row_count cfg data"
  shows "attains sort_failure (rank_of dk row) (so, w)
    (\<lambda>r (so', w'). world_ok w' \<and> finished_order cfg data so' \<and> r = row_rank cfg data row)"
proof -
  let ?n = "row_count cfg data"
  let ?c = "map_header ?n (length data) 8 @ rank_bytes (map (row_rank cfg data) [0..<?n])"
  have f: "so_records so = ?n" "so_source_size so = length data" "stored (so_inverse so) ?c"
    using so by (simp_all add: finished_order_def Let_def)
  have size: "?n * 8 \<le> u64_max" "?n \<le> u64_max"
    using cfg format_records_length [of "sg_format cfg" 0 data] unfolding sort_okay_def by linarith+
  have body: "length (rank_bytes (map (row_rank cfg data) [0..<?n])) = ?n * 8" by (simp add: mult.commute)
  have rank: "row_rank cfg data row < ?n" by (rule row_rank_less [OF row])
  show ?thesis unfolding rank_of_def attains_with_state attains_and_then fst_conv snd_conv f(1,2) on_inverse_map_def attains_focus
  proof (rule attains_weaken [OF validate_map_spec [OF w f(3) body size(1)]], goal_cases)
    case (1 u fsw)
    obtain f1 sh1 w1 where fsw: "fsw = ((f1, sh1), w1)" by (metis surj_pair)
    with 1 have 1: "world_ok w1" "moved (so_inverse so) f1" by simp_all
    have st: "stored f1 ?c" using moved_fields [OF 1(2)] f(3) by simp
    then have inside: "32 + row * 8 + 8 \<le> length (df_data f1)" using row body by (simp add: stored_def)
    have at: "checked_mul row 8 = Some (row * 8)" using row size(1) by (simp add: checked_mul_def)
    have sel: "so_inverse (so\<lparr>so_inverse := f1, so_shared := sh1\<rparr>) = f1" "so_shared (so\<lparr>so_inverse := f1, so_shared := sh1\<rparr>) = sh1"
      by simp_all
    have nr: "\<not> row \<ge> ?n" using row by simp
    show ?case unfolding fsw fst_conv snd_conv prod.case if_not_P [OF nr] at option.case attains_and_then attains_focus sel
    proof (rule attains_weaken [OF read_spec [OF 1(1) inside]], goal_cases)
      case (1 bs gsw)
      obtain f2 sh2 w2 where gsw: "gsw = ((f2, sh2), w2)" by (metis surj_pair)
      with 1 have 1: "world_ok w2" "bs = segment (df_data f1) (32 + row * 8) (32 + row * 8 + 8)" "moved f1 f2" by simp_all
      have "bs = le_bytes 8 (row_rank cfg data row)"
        using map_entry_at [of row "map (row_rank cfg data) [0..<?n]" "le_bytes 8" 8 "map_header ?n (length data) 8"] row st 1(2)
        by (simp add: stored_def rank_bytes_def)
      then have bs: "le_value bs = row_rank cfg data row" using rank size(2) by (simp add: le_value_position)
      have m: "moved (so_inverse so) f2" using \<open>moved (so_inverse so) f1\<close> 1(3) by (rule moved_twice)
      show ?case unfolding gsw bs Let_def using rank 1(1) inverse_fields [OF so m] by (simp add: attains_give)
    qed
  qed
qed

end

end
