(* ===== verification/Sort_Correct.thy ===== *)
theory Sort_Correct imports Sort_Result begin

text \<open>
  What a sort promises its reader: whatever sequence of calls it makes, over a source that does not
  change, the session keeps its state, every call returns, repeated calls come to an end, and the order
  of a completed sort is the order of the keys.
\<close>

section \<open>The sessions a reader can have\<close>

text \<open>
  A new session, a session after a call of \<open>advance\<close>, and one between whose calls other threads used
  the ledger and anything else the source does not see.
\<close>

inductive sort_reached ::
    "('w \<Rightarrow> bool) \<Rightarrow> 'w environment \<Rightarrow> 'w sort_disk \<Rightarrow> sort_config \<Rightarrow> path \<Rightarrow> sort_session \<Rightarrow> 'w \<Rightarrow> bool"
  for ok env dk cfg directory where
  Started: "ok w \<Longrightarrow> session_new env dk cfg directory (rs, w) = (Ok se, (rs', w'))
     \<Longrightarrow> sort_reached ok env dk cfg directory se w'"
| Advanced: "sort_reached ok env dk cfg directory se w \<Longrightarrow>
     session_advance env dk gen (se, w) = Some (Ok step, (se', w')) \<Longrightarrow> sort_reached ok env dk cfg directory se' w'"
| Meanwhile: "sort_reached ok env dk cfg directory se w \<Longrightarrow> ok w' \<Longrightarrow>
     sort_reached ok env dk cfg directory (se\<lparr>se_shared := (se_shared se)\<lparr>sh_resources := rs\<rparr>\<rparr>) w'"

lemma shared_simps:
  fixes se :: sort_session and sh :: sort_shared
  defines "se' \<equiv> se\<lparr>se_shared := sh\<rparr>"
  shows "set_up cfg se' = set_up cfg se" "key_at cfg data k se' = key_at cfg data k se" "taken se' = taken se"
    "scan_at cfg data k se' = scan_at cfg data k se" "compares data se' p q = compares data se p q" "in_block data D xs se' = in_block data D xs se"
    "plays data runs m se' i = plays data runs m se i" "reads_runs D xs se' = reads_runs D xs se"
  by (simp_all add: se'_def set_up_def key_at_def taken_def scan_at_def compares_def in_block_def plays_def reads_runs_def cong: option.case_cong)

lemma shared_sorting: "sorting data D c xs (se\<lparr>se_shared := sh\<rparr>) = sorting data D c xs se"
  by (simp add: sorting_def merging_batch_def shared_simps cong: if_cong)

lemma shared_tree: "tree_at data runs m (se\<lparr>se_shared := sh\<rparr>) = tree_at data runs m se"
  by (cases "wt_stage (se_tree se)") (simp_all add: tree_at_def shared_simps Let_def)

lemma sort_state_shared: "sort_state cfg data base (se\<lparr>se_shared := sh\<rparr>) = sort_state cfg data base se"
proof -
  have "extracting cfg data (se\<lparr>se_shared := sh\<rparr>) = extracting cfg data se"
    by (simp add: extracting_def shared_simps)
  moreover have "batch_sorting cfg data (se\<lparr>se_shared := sh\<rparr>) = batch_sorting cfg data se"
    by (simp add: batch_sorting_def shared_sorting shared_simps)
  moreover have "merging data D xs (se\<lparr>se_shared := sh\<rparr>) = merging data D xs se" for D xs
    by (simp add: merging_def shared_tree shared_simps)
  moreover have "mapping D xs (se\<lparr>se_shared := sh\<rparr>) = mapping D xs se" for D xs
    by (simp add: mapping_def shared_simps)
  moreover have "mapped D xs (se\<lparr>se_shared := sh\<rparr>) = mapped D xs se" for D xs
    by (simp add: mapped_def)
  ultimately show ?thesis by (cases "se_phase se") (simp_all add: sort_state_def Let_def)
qed

context sort_world begin

lemma sort_reached_state:
  assumes "sort_reached world_ok env dk cfg directory se w" "sort_okay cfg data"
  shows "world_ok w \<and> sort_state cfg data base se \<and> 0 < sg_step_bytes cfg"
  using assms(1)
proof (induction rule: sort_reached.induct)
  case (Started w rs se rs' w')
  have "0 < sg_step_bytes cfg" using Started(2) by (auto simp: session_new_def fail_def split: if_splits)
  then show ?case using session_new_state [OF Started(1) assms(2), of directory rs] Started(2) by (simp add: attains_def)
next
  case (Advanced se w gen step se' w')
  then show ?case using session_advance_spec [of w cfg se gen] assms(2) by fastforce
next
  case (Meanwhile se w w' rs)
  then show ?case by (simp add: sort_state_shared)
qed

text \<open>Dropping files leaves the world in order.\<close>

lemma flush_buffer_world: "world_ok w \<Longrightarrow> world_ok (snd (snd (flush_buffer fuel dk (fsh, w))))"
proof (induction fuel arbitrary: fsh w)
  case 0
  then show ?case by (auto simp: flush_buffer.simps split: option.splits list.splits)
next
  case (Suc fuel)
  obtain f sh where fsh: "fsh = (f, sh)" by fastforce
  show ?case
  proof (cases "df_writer f")
    case None
    then show ?thesis using Suc.prems by (simp add: flush_buffer.simps fsh)
  next
    case (Some buf)
    show ?thesis
    proof (cases buf)
      case Nil
      then show ?thesis using Suc.prems Some by (simp add: flush_buffer.simps fsh)
    next
      case (Cons b bs)
      obtain r w1 where r: "sd_write dk w (length (b # bs)) = (r, w1)" by fastforce
      have "world_ok w1" using disk_ok(1) [OF Suc.prems, of "length (b # bs)"] r by simp
      note world = this
      have step: "flush_buffer (Suc fuel) dk (fsh, w) = and_then (counted_write dk (b # bs)) (\<lambda>n.
                 if n = 0 then fail (SortIo write_zero)
                 else and_then (update_state (\<lambda>(f, sh). (f\<lparr>df_writer := Some (drop n (b # bs))\<rparr>, sh)))
                        (\<lambda>_. flush_buffer fuel dk)) (fsh, w)"
        using Some Cons by (subst flush_buffer.simps) (simp add: fsh)
      show ?thesis
      proof (cases r)
        case (Inl e)
        then show ?thesis using world r unfolding step
          by (simp add: fsh and_then_def counted_write_def count_request_def update_state_def write_request_def)
      next
        case (Inr k)
        define n where "n = length (take k (b # bs))"
        obtain f' sh' where c: "counted_write dk (b # bs) (fsh, w) = (Ok n, ((f', sh'), w1))"
          using Inr r by (simp add: fsh and_then_def counted_write_def count_request_def update_state_def write_request_def Let_def n_def)
        show ?thesis
        proof (cases "n = 0")
          case True
          then show ?thesis using world unfolding step by (simp add: and_then_def c fail_def)
        next
          case False
          then have "flush_buffer (Suc fuel) dk (fsh, w) = flush_buffer fuel dk ((f'\<lparr>df_writer := Some (drop n (b # bs))\<rparr>, sh'), w1)"
            unfolding step by (simp add: and_then_def c update_state_def)
          then show ?thesis using Suc.IH [OF world] by (simp only:)
        qed
      qed
    qed
  qed
qed

lemma disk_file_drop_world: "world_ok w \<Longrightarrow> world_ok (snd (disk_file_drop dk f (sh, w)))"
proof -
  assume "world_ok w"
  obtain f1 sh1 w1 where f: "snd (flush_writer dk ((f, sh), w)) = ((f1, sh1), w1)" by (metis surj_pair)
  moreover have "world_ok (snd (snd (flush_writer dk ((f, sh), w))))"
    using flush_buffer_world [OF \<open>world_ok w\<close>] by (simp add: flush_writer_def with_state_def)
  then have "world_ok w1" by (simp add: f)
  moreover obtain removal w2 where r: "sd_remove_file dk w1 (df_path f1) = (removal, w2)" by fastforce
  moreover have "world_ok w2" using disk_ok(9) [OF \<open>world_ok w1\<close>, of "df_path f1"] r by simp
  ultimately show ?thesis by (simp add: disk_file_drop_def Let_def split_def)
qed

lemma drop_files_world: "world_ok w \<Longrightarrow> world_ok (snd (drop_files dk fs (sh, w)))"
proof (induction fs arbitrary: sh w)
  case (Cons f fs)
  show ?case
  proof (cases f)
    case None
    then show ?thesis using Cons by (simp add: drop_files_def)
  next
    case (Some x)
    obtain sh1 w1 where d: "disk_file_drop dk x (sh, w) = (sh1, w1)" by fastforce
    have "world_ok w1" using disk_file_drop_world [OF Cons.prems, of x sh] d by simp
    then show ?thesis using Cons.IH Some d by (simp add: drop_files_def)
  qed
qed (simp add: drop_files_def)

lemma into_order_finished:
  assumes w: "world_ok w" and cfg: "sort_okay cfg data" and st: "sort_state cfg data base se"
    and into: "session_into_order env dk se w = (Ok so, (sh, w'))"
  shows "world_ok w' \<and> finished_order cfg data so \<and> se_phase se = SortComplete"
proof -
  have ph: "se_phase se = SortComplete"
    using into by (auto simp: session_into_order_def Let_def split: if_splits prod.splits)
  obtain w1 where fp: "env_fingerprint env w = (Inr base, w1)" "world_ok w1" using fingerprint_stable [OF w] by blast
  have snap: "se_snapshot se = base" using sort_state_fields [OF st] by simp
  obtain order inv where maps: "se_order se = Some order" "se_inverse se = Some inv" "se_records se = row_count cfg data"
    "stored order (map_header (row_count cfg data) (length data) 24 @ concat (map (order_row cfg data) [0..<row_count cfg data]))"
    "stored inv (map_header (row_count cfg data) (length data) 8 @ rank_bytes (map (row_rank cfg data) [0..<row_count cfg data]))"
    using complete_maps [OF cfg st base_size ph] by metis
  obtain r rs where rs: "reserve order_memory_bytes True (sh_resources (se_shared se)) = (r, rs)" by fastforce
  have drop: "world_ok (snd (drop_files dk fs (sh1, w1)))" for fs sh1 by (rule drop_files_world [OF fp(2)])
  show ?thesis
  proof (cases r)
    case (Inl e)
    then show ?thesis using into ph fp(1) snap maps rs
      by (simp add: session_into_order_def Let_def split: prod.splits)
  next
    case (Inr memory)
    let ?files = "[se_run_file se, se_pass_file se]"
    obtain sh1 w2 where d: "drop_files dk ?files (with_resources (release (se_fixed_memory se)) ((se_shared se)\<lparr>sh_resources := rs\<rparr>), w1)
        = (sh1, w2)" by fastforce
    have w2: "world_ok w2" using drop [of ?files] d by (metis snd_conv)
    have so: "so_order so = order" "so_inverse so = inv" "so_records so = row_count cfg data" "so_source_size so = length data"
      using into ph fp(1) snap maps rs Inr base_size d
      by (auto simp: session_into_order_def Let_def split: prod.splits option.splits)
    have "world_ok w'"
    proof (cases "se_inverse_builder se")
      case None
      then show ?thesis using into ph fp(1) snap maps rs Inr d w2
        by (auto simp: session_into_order_def Let_def split: prod.splits)
    next
      case (Some ib)
      obtain sh2 w3 where d2: "disk_file_drop dk (ib_pairs ib) (sh1, w2) = (sh2, w3)" by fastforce
      have "world_ok w3" using disk_file_drop_world [OF w2, of "ib_pairs ib" sh1] d2 by simp
      then show ?thesis using Some into ph fp(1) snap maps rs Inr d d2
        by (auto simp: session_into_order_def Let_def release_shared_def split: prod.splits)
    qed
    then show ?thesis using so maps(4,5) ph by (simp add: finished_order_def Let_def)
  qed
qed

end

end
