(* ===== verification/Sort_Theorems.thy ===== *)
theory Sort_Theorems imports Sort_Correct begin

text \<open>
  The external sort as its reader sees it: new, advanced until it is idle, turned into an order, and the
  order read at any ranks.
\<close>

section \<open>A whole sort\<close>

definition sort_rows ::
    "nat \<Rightarrow> 'w environment \<Rightarrow> 'w sort_disk \<Rightarrow> sort_config \<Rightarrow> path \<Rightarrow> cancellation_generation \<Rightarrow> sort_resources \<times> 'w
     \<Rightarrow> ((sort_error, sorted_order) outcome \<times> 'w) option" where
  "sort_rows n env dk cfg directory gen rw =
     (case session_new env dk cfg directory rw of
        (Ok se, (_, w)) \<Rightarrow>
          (case advance_until_idle n env dk gen (se, w) of
             Some (Ok True, (se', w')) \<Rightarrow> (case session_into_order env dk se' w' of (r, (_, w'')) \<Rightarrow> Some (r, w''))
           | Some (Ok False, _) \<Rightarrow> None
           | Some (Err e, (_, w')) \<Rightarrow> Some (Err e, w')
           | Some (Panic, (_, w')) \<Rightarrow> Some (Panic, w')
           | None \<Rightarrow> None)
      | (Err e, (_, w)) \<Rightarrow> Some (Err e, w)
      | (Panic, (_, w)) \<Rightarrow> Some (Panic, w))"

text \<open>The records at some ranks, each with the rank its row is found at.\<close>

fun visit_ranks :: "'w sort_disk \<Rightarrow> nat list \<Rightarrow> ('w, (sorted_record \<times> nat) list) order_run" where
  "visit_ranks dk [] = give []"
| "visit_ranks dk (k # ks) =
     and_then (record_at dk k) (\<lambda>r.
     and_then (rank_of dk (srt_source_row r)) (\<lambda>rank.
     and_then (visit_ranks dk ks) (\<lambda>rest. give ((r, rank) # rest))))"

text \<open>The rows of the source in the order of their keys.\<close>

definition sorted_rows :: "sort_config \<Rightarrow> bytes \<Rightarrow> nat list" where
  "sorted_rows cfg data = map (ranked_row cfg data) [0..<row_count cfg data]"

lemma sorted_rows_perm: "mset (sorted_rows cfg data) = mset [0..<row_count cfg data]"
proof -
  let ?n = "row_count cfg data"
  have inj: "inj_on (ranked_row cfg data) {..<?n}" using ranked_row_rank by (metis inj_on_inverseI lessThan_iff)
  have "ranked_row cfg data ` {..<?n} = {..<?n}" by (rule endo_inj_surj [OF _ _ inj]) (auto simp: ranked_row_rank)
  then have "set (sorted_rows cfg data) = set [0..<?n]" by (auto simp: sorted_rows_def lessThan_atLeast0)
  moreover have "distinct (sorted_rows cfg data)" using inj by (simp add: sorted_rows_def distinct_map lessThan_atLeast0)
  ultimately show ?thesis using set_eq_iff_mset_eq_distinct [of "sorted_rows cfg data" "[0..<?n]"] by simp
qed

lemma sorted_rows_ordered: "sorted_wrt (row_before cfg data) (sorted_rows cfg data)"
proof -
  have "row_before cfg data (ranked_row cfg data p) (ranked_row cfg data q)" if "p < q" "q < row_count cfg data" for p q
    using rank_order [of p cfg data q] that by (simp add: row_before_def ord_cmp_def)
  then show ?thesis by (simp add: sorted_rows_def sorted_wrt_iff_nth_less)
qed

context sort_world begin

lemma visit_ranks_spec:
  assumes "sort_okay cfg data"
  shows "world_ok w \<Longrightarrow> finished_order cfg data so \<Longrightarrow> \<forall>k \<in> set ks. k < row_count cfg data \<Longrightarrow>
    attains sort_failure (visit_ranks dk ks) (so, w)
      (\<lambda>rs _. rs = map (\<lambda>k. (\<lparr>srt_source_row = sorted_rows cfg data ! k, srt_span = source_rows cfg data ! (sorted_rows cfg data ! k)\<rparr>, k)) ks)"
proof (induction ks arbitrary: so w)
  case (Cons k ks)
  then have k: "k < row_count cfg data" by simp
  then have row: "sorted_rows cfg data ! k = ranked_row cfg data k" by (simp add: sorted_rows_def)
  show ?case unfolding visit_ranks.simps attains_and_then
  proof (rule attains_weaken [OF record_at_spec [OF Cons.prems(1) assms Cons.prems(2) k]], goal_cases)
    case (1 r sw)
    obtain so1 w1 where sw: "sw = (so1, w1)" by fastforce
    with 1 have 1: "world_ok w1" "finished_order cfg data so1"
      "r = \<lparr>srt_source_row = ranked_row cfg data k, srt_span = source_rows cfg data ! ranked_row cfg data k\<rparr>" by simp_all
    have r: "srt_source_row r = ranked_row cfg data k" by (simp add: 1(3))
    note rr = ranked_row_rank [OF k]
    show ?case unfolding sw r
    proof (rule attains_weaken [OF rank_of_spec [OF 1(1) assms 1(2) rr(1)]], goal_cases)
      case (1 rank sw2)
      obtain so2 w2 where sw2: "sw2 = (so2, w2)" by fastforce
      with 1 rr(2) have 1: "world_ok w2" "finished_order cfg data so2" "rank = k" by simp_all
      have ks: "\<forall>k \<in> set ks. k < row_count cfg data" using Cons.prems(3) by simp
      show ?case unfolding sw2
        by (rule attains_weaken [OF Cons.IH [OF 1(1,2) ks]])
           (use row 1(3) \<open>r = \<lparr>srt_source_row = _, srt_span = _\<rparr>\<close> in \<open>simp add: attains_give\<close>)
    qed
  qed
qed (simp add: attains_give)

lemma sort_rows_spec:
  assumes w: "world_ok w" and cfg: "sort_okay cfg data"
  shows "\<exists>n r w'. sort_rows n env dk cfg directory gen (rs, w) = Some (r, w') \<and> r \<noteq> Panic
    \<and> (\<forall>so. r = Ok so \<longrightarrow> world_ok w' \<and> finished_order cfg data so \<and> in_range cfg data (row_count cfg data))"
proof (cases rule: attains_cases [OF session_new_state [OF w cfg, of directory rs]])
  case (1 se rw)
  obtain rs1 w1 where rw: "rw = (rs1, w1)" by fastforce
  with 1 have s: "world_ok w1" "sort_state cfg data base se" by simp_all
  have step: "0 < sg_step_bytes cfg" using 1(1) by (auto simp: session_new_def fail_def split: if_splits)
  from advance_until_idle_ends [OF s(1) cfg step s(2), of gen] obtain n r se' w' where
    a: "advance_until_idle n env dk gen (se, w1) = Some (r, (se', w'))"
      "case r of Ok ended \<Rightarrow> ended \<and> idle se' \<and> sort_state cfg data base se' \<and> world_ok w'
           \<and> (se_phase se' = SortCancelled \<longrightarrow> se_phase se = SortCancelled \<or> cancellable gen)
       | Err e \<Rightarrow> sort_failure e | Panic \<Rightarrow> False" by blast
  show ?thesis
  proof (cases r)
    case (Ok ended)
    with a(2) have s': "ended" "world_ok w'" "sort_state cfg data base se'" by simp_all
    obtain r2 sh w2 where i: "session_into_order env dk se' w' = (r2, (sh, w2))" by (metis surj_pair)
    have "sort_rows n env dk cfg directory gen (rs, w) = Some (r2, w2)"
      using 1(1) a(1) Ok s'(1) i by (simp add: sort_rows_def rw)
    moreover have "r2 \<noteq> Panic" using i by (auto simp: session_into_order_def Let_def split: if_splits prod.splits sum.splits option.splits)
    moreover have "world_ok w2 \<and> finished_order cfg data so \<and> in_range cfg data (row_count cfg data)" if "r2 = Ok so" for so
    proof -
      have f: "world_ok w2 \<and> finished_order cfg data so \<and> se_phase se' = SortComplete"
        by (rule into_order_finished [OF s'(2) cfg s'(3)]) (use i that in simp)
      moreover have "in_range cfg data (row_count cfg data)"
        using s'(3) f by (simp add: sort_state_def Let_def)
      ultimately show ?thesis by blast
    qed
    ultimately show ?thesis by blast
  next
    case (Err e)
    then have "sort_rows n env dk cfg directory gen (rs, w) = Some (Err e, w')" using 1(1) a(1) by (simp add: sort_rows_def rw)
    then show ?thesis by blast
  next
    case Panic
    then show ?thesis using a(2) by simp
  qed
next
  case (2 e rw)
  then have "sort_rows 0 env dk cfg directory gen (rs, w) = Some (Err e, snd rw)" by (cases rw) (simp add: sort_rows_def)
  then show ?thesis by blast
qed

end

section \<open>Properties\<close>

text \<open>
  C32. Every session whose calls succeeded is well formed.  After any calls of \<open>advance\<close> that each
  returned a step, with whatever cancellations and whatever other threads do to the ledger in between,
  the session is in the state its phase asks for: the rows it has scanned are the first rows of the source, the runs on disk
  hold exactly their descriptors in sorted blocks, the tree and the comparison in progress are those of
  the runs that are merged, and the two maps hold the ranks written so far.  In particular a sort that
  completes has a record for every row.
\<close>

theorem sort_session_well_formed:
  assumes "sort_world env data base world_ok dk" "sort_okay cfg data" "sort_reached world_ok env dk cfg directory se w"
  shows "sort_state cfg data base se \<and> (se_phase se = SortComplete \<longrightarrow> se_records se = length (source_rows cfg data))
    \<and> (se_phase se = Extracting \<or> se_phase se = SortingRuns \<longrightarrow> se_records se \<le> length (source_rows cfg data))"
proof -
  have st: "sort_state cfg data base se" using sort_world.sort_reached_state [OF assms(1,3,2)] by simp
  have "se_records se = row_count cfg data" if "se_phase se = SortComplete"
    using st that by (simp add: sort_state_def mapped_def Let_def)
  moreover have "se_records se \<le> row_count cfg data" if ph: "se_phase se = Extracting \<or> se_phase se = SortingRuns"
  proof -
    have "scan_at cfg data (taken se) se \<or> scan_at cfg data (se_records se) se"
      using st ph by (auto simp: sort_state_def extracting_def batch_sorting_def Let_def)
    then show ?thesis by (auto simp: scan_at_def taken_def split: if_splits)
  qed
  ultimately show ?thesis using st by blast
qed

text \<open>
  C33. The sort ends.  Over a source that does not change, on a session whose calls so far each returned a
  step, the next call of \<open>advance\<close> returns and does not panic, and its error, if any, is one of the disk,
  of memory, of the quotas or of an exponent out of range; and calling it again until it is idle or fails
  takes finitely many calls and ends with such an error, or with the sort complete, or cancelled where a
  load of the token showed a cancellation.
\<close>

theorem sort_comes_to_an_end:
  assumes "sort_world env data base world_ok dk" "sort_okay cfg data" "sort_reached world_ok env dk cfg directory se w"
    "se_phase se \<noteq> SortCancelled"
  shows "(\<exists>r se' w'. session_advance env dk gen (se, w) = Some (r, (se', w'))
      \<and> (case r of Ok step \<Rightarrow> step = session_progress se' | Err e \<Rightarrow> sort_failure e | Panic \<Rightarrow> False))
    \<and> (\<exists>n r se' w'. advance_until_idle n env dk gen (se, w) = Some (r, (se', w'))
      \<and> (case r of
           Ok ended \<Rightarrow> ended \<and> (se_phase se' = SortComplete
             \<or> se_phase se' = SortCancelled \<and> (\<exists>w. world_ok w \<and> is_cancelled (fst (env_load_token env w)) gen))
         | Err e \<Rightarrow> sort_failure e
         | Panic \<Rightarrow> False))"
proof
  note s = sort_world.sort_reached_state [OF assms(1,3,2)]
  from sort_world.session_advance_spec [OF assms(1) _ assms(2), of w se gen] s
  show "\<exists>r se' w'. session_advance env dk gen (se, w) = Some (r, (se', w'))
      \<and> (case r of Ok step \<Rightarrow> step = session_progress se' | Err e \<Rightarrow> sort_failure e | Panic \<Rightarrow> False)"
    by (elim exE conjE) (fastforce split: outcome.splits)
  from sort_world.advance_until_idle_ends [OF assms(1) _ assms(2), of w se gen] s assms(4)
  show "\<exists>n r se' w'. advance_until_idle n env dk gen (se, w) = Some (r, (se', w'))
      \<and> (case r of
           Ok ended \<Rightarrow> ended \<and> (se_phase se' = SortComplete
             \<or> se_phase se' = SortCancelled \<and> (\<exists>w. world_ok w \<and> is_cancelled (fst (env_load_token env w)) gen))
         | Err e \<Rightarrow> sort_failure e
         | Panic \<Rightarrow> False)"
    unfolding sort_world.cancellable_def [OF assms(1)]
    by (elim exE conjE) (fastforce split: outcome.splits)
qed

text \<open>
  C34. The order of a finished sort is the order of the keys.  A whole sort of a source that does not
  change returns; when it returns an order, no key had an exponent out of range, and reading the order
  at any ranks gives the rows of the source, each at the rank its row is found at, where the rows by
  rank are all the rows, each once, and every row comes before the next by the order of their keys.
\<close>

theorem sort_orders_the_rows:
  assumes "sort_world env data base world_ok dk" "world_ok w" "sort_okay cfg data"
  shows "\<exists>n r w'. sort_rows n env dk cfg directory gen (rs, w) = Some (r, w') \<and> r \<noteq> Panic
    \<and> (\<forall>so. r = Ok so \<longrightarrow>
         (\<forall>i < length (source_rows cfg data). \<exists>d. row_stored cfg data i = Inr d)
         \<and> (\<exists>rows. mset rows = mset [0..<length (source_rows cfg data)] \<and> sorted_wrt (row_before cfg data) rows
              \<and> (\<forall>ks. (\<forall>k \<in> set ks. k < length rows) \<longrightarrow>
                   attains sort_failure (visit_ranks dk ks) (so, w')
                     (\<lambda>rs _. rs = map (\<lambda>k. (\<lparr>srt_source_row = rows ! k, srt_span = source_rows cfg data ! (rows ! k)\<rparr>, k)) ks))))"
proof -
  from sort_world.sort_rows_spec [OF assms, of directory gen rs] obtain n r w' where
    r: "sort_rows n env dk cfg directory gen (rs, w) = Some (r, w')" "r \<noteq> Panic"
      "\<forall>so. r = Ok so \<longrightarrow> world_ok w' \<and> finished_order cfg data so \<and> in_range cfg data (row_count cfg data)" by blast
  have len: "length (sorted_rows cfg data) = row_count cfg data" by (simp add: sorted_rows_def)
  have "attains sort_failure (visit_ranks dk ks) (so, w')
      (\<lambda>rs _. rs = map (\<lambda>k. (\<lparr>srt_source_row = sorted_rows cfg data ! k,
         srt_span = source_rows cfg data ! (sorted_rows cfg data ! k)\<rparr>, k)) ks)"
    if "r = Ok so" "\<forall>k \<in> set ks. k < length (sorted_rows cfg data)" for so ks
    using r(3) that len by (intro sort_world.visit_ranks_spec [OF assms(1,3)]) simp_all
  moreover have "\<forall>i < row_count cfg data. \<exists>d. row_stored cfg data i = Inr d" if "r = Ok so" for so
    using r(3) that by (simp add: in_range_def)
  ultimately show ?thesis using r(1,2) sorted_rows_perm [of cfg data] sorted_rows_ordered [of cfg data] by blast
qed

section \<open>An instance\<close>

text \<open>A file of two rows on a disk that never refuses, sorted a row at a time.\<close>

definition sample_sort :: sort_config where
  "sample_sort = \<lparr>sg_format = Delimited \<lparr>delimiter = 44, quote = 34\<rparr>,
     sg_request = \<lparr>sr_column = 0, sr_mode = SortText, sr_direction = Ascending\<rparr>,
     sg_batch_capacity = 1, sg_merge_fan_in = 2, sg_step_bytes = 100\<rparr>"

definition sample_rows :: bytes where
  "sample_rows = [98, 10, 97, 10]"

lemma sample_sort_okay: "sort_okay sample_sort sample_rows"
  by (simp add: sort_okay_def sample_sort_def sample_rows_def empty_run_def valid_format_def)

lemma sample_world:
  "sort_world (file_environment 4 sample_rows) sample_rows (file_fingerprint sample_rows) (\<lambda>_. True) ready_disk"
  using ready_world.sort_world_axioms [of 3 sample_rows] by (simp add: numeral_eq_Suc)

lemma two_to_two: "next_power_of_two 2 = 2"
  by (simp add: next_power_of_two.simps)

lemma sample_names: "decimal_text 0 = [48]" "decimal_text (Suc 0) = [49]"
  by (subst decimal_text.simps, simp)+

lemma retry_nothing: "retry_slots dk (replicate n None) (rs, w) = (replicate n None, rs, w)"
  by (induction n) simp_all

text \<open>The operands of the combinators are evaluated only when the run reaches them.\<close>

lemma lazy_runs:
  "s = s' \<Longrightarrow> and_then m f s = and_then m f s'"
  "t = t' \<Longrightarrow> with_state g t = with_state g t'"
  "u = u' \<Longrightarrow> on_world h u = on_world h u'"
  "v = v' \<Longrightarrow> on_failure k undo v = on_failure k undo v'"
  "w = w' \<Longrightarrow> with_file dk x y w = with_file dk x y w'"
  "r = r' \<Longrightarrow> with_owner dk ow z r = with_owner dk ow z r'"
  by simp_all

lemmas first_attempt = owner_attempts.simps(2) [of _ _ "pred_numeral k", folded numeral_eq_Suc] for k

lemma sample_session:
  "\<exists>se rs w. session_new (file_environment 4 sample_rows) ready_disk sample_sort [] (resources_new 100000000 100000000, token_new)
     = (Ok se, (rs, w))"
  by (simp add: session_new_def and_then_def with_state_def on_world_def on_failure_def with_file_def with_owner_def give_def
      capture_def resource_call_def release_lease_def reserve_def take_bytes_def raise_peak_def counter_def limit_def set_counter_def
      resources_new_def checked_add_def checked_mul_def fixed_bytes_def merge_page_bytes_def tree_bytes_per_run_def write_buffer_bytes_def
      read_page_new_def Let_def option_or_def merge_bytes_def session_buffers_def try_reserve_def
      owner_create_def ordinary_directory_def first_attempt disk_file_create_def system_call_def ledger_call_def tree_new_def filled_def
      retry_cleanup_def retry_nothing two_to_two sample_names sample_sort_def file_environment_def ready_disk_def
      cong: lazy_runs)

lemma sample_reached:
  obtains se w where "sort_reached (\<lambda>_. True) (file_environment 4 sample_rows) ready_disk sample_sort [] se w" "se_phase se = Extracting"
proof -
  obtain se rs w where new: "session_new (file_environment 4 sample_rows) ready_disk sample_sort [] (resources_new 100000000 100000000, token_new)
      = (Ok se, (rs, w))" using sample_session by blast
  have "se_phase se = Extracting"
    using sort_world.session_new_state [OF sample_world _ sample_sort_okay, where w = token_new and directory = "[]"
        and rs = "resources_new 100000000 100000000"] new
    by (simp add: attains_def)
  moreover have "sort_reached (\<lambda>_. True) (file_environment 4 sample_rows) ready_disk sample_sort [] se w"
    by (rule sort_reached.Started [OF _ new]) simp
  ultimately show thesis using that by blast
qed

lemma sort_session_well_formed_witness:
  "\<exists>se w. sort_reached (\<lambda>_. True) (file_environment 4 sample_rows) ready_disk sample_sort [] se w
     \<and> sort_state sample_sort sample_rows (file_fingerprint sample_rows) se \<and> se_records se \<le> length (source_rows sample_sort sample_rows)"
proof -
  obtain se w where r: "sort_reached (\<lambda>_. True) (file_environment 4 sample_rows) ready_disk sample_sort [] se w" "se_phase se = Extracting"
    by (rule sample_reached)
  from sort_session_well_formed [OF sample_world sample_sort_okay r(1)] r show ?thesis by blast
qed

lemma sort_comes_to_an_end_witness:
  "\<exists>se w n r se' w'. sort_reached (\<lambda>_. True) (file_environment 4 sample_rows) ready_disk sample_sort [] se w
     \<and> advance_until_idle n (file_environment 4 sample_rows) ready_disk 0 (se, w) = Some (r, (se', w')) \<and> r \<noteq> Panic"
proof -
  obtain se w where r: "sort_reached (\<lambda>_. True) (file_environment 4 sample_rows) ready_disk sample_sort [] se w" "se_phase se = Extracting"
    by (rule sample_reached)
  from r(2) have live: "se_phase se \<noteq> SortCancelled" by simp
  from sort_comes_to_an_end [OF sample_world sample_sort_okay r(1) live, where gen = 0] obtain n x se' w' where
    a: "advance_until_idle n (file_environment 4 sample_rows) ready_disk 0 (se, w) = Some (x, (se', w'))"
    and x: "case x of Ok ended \<Rightarrow> ended \<and> (se_phase se' = SortComplete
         \<or> se_phase se' = SortCancelled \<and> (\<exists>w. True \<and> is_cancelled (fst (env_load_token (file_environment 4 sample_rows) w)) 0))
       | Err e \<Rightarrow> sort_failure e | Panic \<Rightarrow> False" by blast
  from x have "x \<noteq> Panic" by (cases x) auto
  with a r(1) show ?thesis by blast
qed

lemma sort_orders_the_rows_witness:
  "\<exists>n r w'. sort_rows n (file_environment 4 sample_rows) ready_disk sample_sort [] 0 (resources_new 100000000 100000000, token_new)
     = Some (r, w') \<and> r \<noteq> Panic"
proof -
  from sort_orders_the_rows [OF sample_world TrueI sample_sort_okay, where w = token_new and directory = "[]" and gen = 0
      and rs = "resources_new 100000000 100000000"]
  show ?thesis by blast
qed

end
