(* ===== verification/Work_Mailbox.thy ===== *)
theory Work_Mailbox imports Rust_Base "HOL-Library.Sublist" begin

text \<open>
  The mailbox between the window and its workers (\<open>crates/leanrows-win32/src/mailbox.rs\<close>): one slot under a
  mutex and a condition variable.  Every critical section is one operation on the slot; what happens
  between them, the sleeping and waking of receivers included, is a step of the system below.
\<close>

section \<open>The slot\<close>

datatype send_outcome = Accepted | Replaced
datatype mailbox_closed = MailboxClosed

record 'a mailbox =
  mb_pending :: "'a option"
  mb_closed :: bool

definition mailbox_new :: "'a mailbox" where
  "mailbox_new = \<lparr>mb_pending = None, mb_closed = False\<rparr>"

definition mailbox_send :: "'a \<Rightarrow> 'a mailbox \<Rightarrow> (mailbox_closed + send_outcome) \<times> 'a mailbox" where
  "mailbox_send value mb =
     (if mb_closed mb then (Inl MailboxClosed, mb)
      else (Inr (if mb_pending mb \<noteq> None then Replaced else Accepted), mb\<lparr>mb_pending := Some value\<rparr>))"

definition mailbox_try_take :: "'a mailbox \<Rightarrow> 'a option \<times> 'a mailbox" where
  "mailbox_try_take mb = (mb_pending mb, mb\<lparr>mb_pending := None\<rparr>)"

definition mailbox_close :: "'a mailbox \<Rightarrow> 'a mailbox" where
  "mailbox_close mb = mb\<lparr>mb_closed := True\<rparr>"

text \<open>
  One round of \<open>wait_take\<close> under the lock: it returns, or it gives up the lock and sleeps.
\<close>

datatype 'a wait_round = Returns "'a option" | Sleeps

definition mailbox_wait_round :: "'a mailbox \<Rightarrow> 'a wait_round \<times> 'a mailbox" where
  "mailbox_wait_round mb =
     (case mb_pending mb of
        Some value \<Rightarrow> (Returns (Some value), mb\<lparr>mb_pending := None\<rparr>)
      | None \<Rightarrow> if mb_closed mb then (Returns None, mb) else (Sleeps, mb))"

section \<open>Senders and receivers\<close>

text \<open>
  The receivers inside \<open>wait_take\<close> are those that will look at the slot next and those that sleep.
  What was sent and what was taken is kept in the order of the critical sections.
\<close>

record 'a mail_system =
  ms_box :: "'a mailbox"
  ms_awake :: nat
  ms_sleeping :: nat
  ms_sent :: "'a list"
  ms_taken :: "'a list"

definition mail_new :: "'a mail_system" where
  "mail_new = \<lparr>ms_box = mailbox_new, ms_awake = 0, ms_sleeping = 0, ms_sent = [], ms_taken = []\<rparr>"

definition wake_one :: "'a mail_system \<Rightarrow> 'a mail_system" where
  "wake_one ms =
     (if ms_sleeping ms = 0 then ms else ms\<lparr>ms_sleeping := ms_sleeping ms - 1, ms_awake := ms_awake ms + 1\<rparr>)"

definition wake_all :: "'a mail_system \<Rightarrow> 'a mail_system" where
  "wake_all ms = ms\<lparr>ms_sleeping := 0, ms_awake := ms_awake ms + ms_sleeping ms\<rparr>"

text \<open>\<open>notify_one\<close> and \<open>notify_all\<close> wake receivers, and so may the system at any time.\<close>

inductive mail_step :: "'a mail_system \<Rightarrow> 'a mail_system \<Rightarrow> bool" where
  Sent: "mailbox_send v (ms_box ms) = (Inr out, mb) \<Longrightarrow>
     mail_step ms (wake_one (ms\<lparr>ms_box := mb, ms_sent := ms_sent ms @ [v]\<rparr>))"
| Refused: "mailbox_send v (ms_box ms) = (Inl MailboxClosed, mb) \<Longrightarrow> mail_step ms (ms\<lparr>ms_box := mb\<rparr>)"
| Tried: "mailbox_try_take (ms_box ms) = (v, mb) \<Longrightarrow>
     mail_step ms (ms\<lparr>ms_box := mb, ms_taken := ms_taken ms @ (case v of None \<Rightarrow> [] | Some v \<Rightarrow> [v])\<rparr>)"
| Waits: "mail_step ms (ms\<lparr>ms_awake := ms_awake ms + 1\<rparr>)"
| Took: "0 < ms_awake ms \<Longrightarrow> mailbox_wait_round (ms_box ms) = (Returns v, mb) \<Longrightarrow>
     mail_step ms (ms\<lparr>ms_box := mb, ms_awake := ms_awake ms - 1,
       ms_taken := ms_taken ms @ (case v of None \<Rightarrow> [] | Some v \<Rightarrow> [v])\<rparr>)"
| Slept: "0 < ms_awake ms \<Longrightarrow> mailbox_wait_round (ms_box ms) = (Sleeps, mb) \<Longrightarrow>
     mail_step ms (ms\<lparr>ms_box := mb, ms_awake := ms_awake ms - 1, ms_sleeping := ms_sleeping ms + 1\<rparr>)"
| Woke: "mail_step ms (wake_one ms)"
| Closed: "mail_step ms (wake_all (ms\<lparr>ms_box := mailbox_close (ms_box ms)\<rparr>))"

inductive_cases mail_stepE: "mail_step ms ms'"

abbreviation mail_run :: "'a mail_system \<Rightarrow> 'a mail_system \<Rightarrow> bool" where
  "mail_run \<equiv> mail_step\<^sup>*\<^sup>*"

section \<open>What the mailbox promises\<close>

definition delivered :: "'a mail_system \<Rightarrow> bool" where
  "delivered ms \<longleftrightarrow>
     (\<exists>before. ms_sent ms = before @ (case mb_pending (ms_box ms) of None \<Rightarrow> [] | Some v \<Rightarrow> [v])
        \<and> subseq (ms_taken ms) before)"

definition nobody_forgotten :: "'a mail_system \<Rightarrow> bool" where
  "nobody_forgotten ms \<longleftrightarrow>
     (0 < ms_sleeping ms \<longrightarrow> \<not> mb_closed (ms_box ms) \<and> (mb_pending (ms_box ms) \<noteq> None \<longrightarrow> 0 < ms_awake ms))"

lemma wake_fields [simp]:
  "ms_box (wake_one ms) = ms_box ms" "ms_sent (wake_one ms) = ms_sent ms" "ms_taken (wake_one ms) = ms_taken ms"
  "ms_box (wake_all ms) = ms_box ms" "ms_sent (wake_all ms) = ms_sent ms" "ms_taken (wake_all ms) = ms_taken ms"
  "ms_sleeping (wake_all ms) = 0" "ms_awake (wake_all ms) = ms_awake ms + ms_sleeping ms"
  "0 < ms_awake (wake_one ms) \<longleftrightarrow> 0 < ms_awake ms \<or> 0 < ms_sleeping ms" "ms_sleeping (wake_one ms) = ms_sleeping ms - 1"
  by (simp_all add: wake_one_def wake_all_def)

lemma mail_step_delivered:
  assumes "mail_step ms ms'" "delivered ms"
  shows "delivered ms'"
proof -
  from assms(2) obtain before where b: "ms_sent ms = before @ (case mb_pending (ms_box ms) of None \<Rightarrow> [] | Some v \<Rightarrow> [v])"
    "subseq (ms_taken ms) before" by (auto simp: delivered_def)
  from assms(1) show ?thesis
  proof cases
    case (Sent v out mb)
    then have "mb = (ms_box ms)\<lparr>mb_pending := Some v\<rparr>" by (auto simp: mailbox_send_def split: if_splits)
    then show ?thesis using b unfolding delivered_def Sent(1)
      by (intro exI [of _ "ms_sent ms"]) (auto intro: subseq_order.trans simp: list_emb_append2)
  next
    case (Refused v mb)
    then show ?thesis using assms(2) by (auto simp: delivered_def mailbox_send_def split: if_splits)
  next
    case (Tried v mb)
    then show ?thesis using b unfolding delivered_def
      by (intro exI [of _ "ms_sent ms"]) (auto simp: mailbox_try_take_def split: option.splits)
  next
    case (Took v mb)
    then show ?thesis using b unfolding delivered_def
      by (intro exI [of _ "ms_sent ms"]) (auto simp: mailbox_wait_round_def split: option.splits if_splits)
  next
    case (Slept mb)
    then show ?thesis using assms(2) by (auto simp: delivered_def mailbox_wait_round_def split: option.splits if_splits)
  next
    case Closed
    then show ?thesis using assms(2) by (simp add: delivered_def mailbox_close_def)
  qed (use assms(2) in \<open>simp_all add: delivered_def\<close>)
qed

lemma mail_step_nobody_forgotten:
  assumes "mail_step ms ms'" "nobody_forgotten ms"
  shows "nobody_forgotten ms'"
  using assms(1)
proof cases
  case (Sent v out mb)
  then show ?thesis using assms(2) by (auto simp: nobody_forgotten_def mailbox_send_def split: if_splits)
next
  case (Tried v mb)
  then show ?thesis using assms(2) by (auto simp: nobody_forgotten_def mailbox_try_take_def)
next
  case (Took v mb)
  then show ?thesis using assms(2) by (auto simp: nobody_forgotten_def mailbox_wait_round_def split: option.splits if_splits)
next
  case (Slept mb)
  then show ?thesis using assms(2) by (auto simp: nobody_forgotten_def mailbox_wait_round_def split: option.splits if_splits)
next
  case (Refused v mb)
  then show ?thesis using assms(2) by (auto simp: nobody_forgotten_def mailbox_send_def split: if_splits)
qed (use assms(2) in \<open>auto simp: nobody_forgotten_def mailbox_close_def\<close>)

text \<open>
  C35. The mailbox hands over the newest work and forgets nobody.  In every interleaving of senders,
  receivers, closing and wake-ups, what was taken is a part of what was sent, in the order it was sent;
  the value in the slot is the last one sent; and no receiver sleeps once the mailbox is closed, or
  while a value waits that no other receiver is about to take.
\<close>

theorem mailbox_delivers_the_newest:
  assumes "mail_run mail_new ms"
  shows "subseq (ms_taken ms) (ms_sent ms)
    \<and> (\<forall>v. mb_pending (ms_box ms) = Some v \<longrightarrow> ms_sent ms \<noteq> [] \<and> last (ms_sent ms) = v)
    \<and> (\<forall>v mb. 0 < ms_awake ms \<and> mailbox_wait_round (ms_box ms) = (Returns (Some v), mb) \<longrightarrow> last (ms_sent ms) = v)
    \<and> (0 < ms_sleeping ms \<longrightarrow> \<not> mb_closed (ms_box ms) \<and> (mb_pending (ms_box ms) \<noteq> None \<longrightarrow> 0 < ms_awake ms))"
proof -
  have "delivered ms \<and> nobody_forgotten ms" using assms
  proof (induction rule: rtranclp_induct)
    case base
    then show ?case by (simp add: delivered_def nobody_forgotten_def mail_new_def mailbox_new_def)
  next
    case (step ms ms')
    then show ?case using mail_step_delivered mail_step_nobody_forgotten by blast
  qed
  then have d: "delivered ms" and n: "nobody_forgotten ms" by simp_all
  from d obtain before where b: "ms_sent ms = before @ (case mb_pending (ms_box ms) of None \<Rightarrow> [] | Some v \<Rightarrow> [v])"
    "subseq (ms_taken ms) before" by (auto simp: delivered_def)
  from b have "subseq (ms_taken ms) (ms_sent ms)" using list_emb_prefix [of "(=)", OF b(2)] by simp
  moreover have "ms_sent ms \<noteq> [] \<and> last (ms_sent ms) = v" if "mb_pending (ms_box ms) = Some v" for v using b(1) that by simp
  ultimately show ?thesis using n by (auto simp: nobody_forgotten_def mailbox_wait_round_def split: option.splits if_splits)
qed

lemma mailbox_delivers_the_newest_witness:
  "\<exists>ms. mail_run mail_new ms \<and> ms_sent ms = [10, 11 :: nat] \<and> mb_pending (ms_box ms) = Some 11 \<and> last (ms_sent ms) = 11"
proof -
  let ?m1 = "mail_new\<lparr>ms_box := \<lparr>mb_pending = Some (10 :: nat), mb_closed = False\<rparr>, ms_sent := [10]\<rparr>"
  let ?m2 = "?m1\<lparr>ms_box := \<lparr>mb_pending = Some 11, mb_closed = False\<rparr>, ms_sent := [10, 11]\<rparr>"
  have "mail_step mail_new ?m1"
    using Sent [of 10 "mail_new :: nat mail_system" Accepted "\<lparr>mb_pending = Some 10, mb_closed = False\<rparr>"]
    by (simp add: mail_new_def mailbox_new_def mailbox_send_def wake_one_def)
  moreover have "mail_step ?m1 ?m2"
    using Sent [of 11 ?m1 Replaced "\<lparr>mb_pending = Some 11, mb_closed = False\<rparr>"]
    by (simp add: mail_new_def mailbox_send_def wake_one_def)
  ultimately have run: "mail_run mail_new ?m2" by (meson rtranclp.rtrancl_refl rtranclp.rtrancl_into_rtrancl)
  from mailbox_delivers_the_newest [OF run] show ?thesis using run by (intro exI [of _ ?m2]) simp
qed

end
