(* ===== verification/Sort_Permit.thy ===== *)
theory Sort_Permit imports Rust_Base "HOL-Library.Multiset" begin

text \<open>
  The permit that lets one document at a time sort (\<open>crates/leanrows-win32/src/sort_coordinator.rs\<close>): two
  atomic 64-bit counters, the last serial handed out and the serial that holds the permit, 0 when it
  is free.
\<close>

record sort_coordinator =
  sc_next :: "64 word"
  sc_active :: "64 word"

definition coordinator_new :: sort_coordinator where
  "coordinator_new = \<lparr>sc_next = 0, sc_active = 0\<rparr>"

text \<open>\<open>compare_exchange\<close>: the value before, and whether it was exchanged.\<close>

definition exchange_active :: "64 word \<Rightarrow> 64 word \<Rightarrow> sort_coordinator \<Rightarrow> bool \<times> sort_coordinator" where
  "exchange_active expected new sc =
     (if sc_active sc = expected then (True, sc\<lparr>sc_active := new\<rparr>) else (False, sc))"

text \<open>One round of \<open>request\<close>: a serial, or nothing when the counter wrapped to 0.\<close>

definition request_round :: "sort_coordinator \<Rightarrow> 64 word option \<times> sort_coordinator" where
  "request_round sc =
     (let serial = sc_next sc + 1 in (if serial \<noteq> 0 then Some serial else None, sc\<lparr>sc_next := serial\<rparr>))"

text \<open>The loop of \<open>request\<close> with nobody in between; a second round always has a serial.\<close>

definition coordinator_request :: "sort_coordinator \<Rightarrow> 64 word \<times> sort_coordinator" where
  "coordinator_request sc =
     (case request_round sc of
        (Some serial, sc') \<Rightarrow> (serial, sc')
      | (None, sc') \<Rightarrow> (case request_round sc' of (r, sc'') \<Rightarrow> (the r, sc'')))"

definition try_acquire :: "64 word \<Rightarrow> sort_coordinator \<Rightarrow> 64 word option \<times> sort_coordinator" where
  "try_acquire serial sc =
     (case exchange_active 0 serial sc of (True, sc') \<Rightarrow> (Some serial, sc') | (False, sc') \<Rightarrow> (None, sc'))"

text \<open>\<open>Drop for SortPermit\<close>.\<close>

definition permit_drop :: "64 word \<Rightarrow> sort_coordinator \<Rightarrow> sort_coordinator" where
  "permit_drop serial sc = snd (exchange_active serial 0 sc)"

lemma request_nonzero: "coordinator_request sc = (serial, sc') \<Longrightarrow> serial \<noteq> 0 \<and> sc_active sc' = sc_active sc"
  by (auto simp: coordinator_request_def request_round_def Let_def split: if_splits)

section \<open>Workers that sort\<close>

text \<open>
  The serials the workers hold, the permits that are alive, and how many rounds \<open>request\<close> has run.  A
  worker asks for the permit with a serial it holds; every counter is changed in one atomic step.
\<close>

record sort_workers =
  sw_coordinator :: sort_coordinator
  sw_serials :: "64 word multiset"
  sw_permits :: "64 word multiset"
  sw_rounds :: nat

definition workers_new :: sort_workers where
  "workers_new = \<lparr>sw_coordinator = coordinator_new, sw_serials = {#}, sw_permits = {#}, sw_rounds = 0\<rparr>"

inductive permit_step :: "sort_workers \<Rightarrow> sort_workers \<Rightarrow> bool" where
  Round: "request_round (sw_coordinator sw) = (r, sc) \<Longrightarrow>
     permit_step sw (sw\<lparr>sw_coordinator := sc, sw_rounds := sw_rounds sw + 1,
       sw_serials := (case r of None \<Rightarrow> sw_serials sw | Some s \<Rightarrow> add_mset s (sw_serials sw))\<rparr>)"
| Acquire: "s \<in># sw_serials sw \<Longrightarrow> try_acquire s (sw_coordinator sw) = (r, sc) \<Longrightarrow>
     permit_step sw (sw\<lparr>sw_coordinator := sc,
       sw_permits := (case r of None \<Rightarrow> sw_permits sw | Some s \<Rightarrow> add_mset s (sw_permits sw))\<rparr>)"
| Release: "s \<in># sw_permits sw \<Longrightarrow>
     permit_step sw (sw\<lparr>sw_coordinator := permit_drop s (sw_coordinator sw), sw_permits := sw_permits sw - {#s#}\<rparr>)"
| Forget: "permit_step sw (sw\<lparr>sw_serials := sw_serials sw - {#s#}\<rparr>)"

definition permits_ok :: "sort_workers \<Rightarrow> bool" where
  "permits_ok sw \<longleftrightarrow>
     (let a = sc_active (sw_coordinator sw) in
      sw_permits sw = (if a = 0 then {#} else {#a#}) \<and> 0 \<notin># sw_serials sw
      \<and> sc_next (sw_coordinator sw) = word_of_nat (sw_rounds sw)
      \<and> (sw_rounds sw < 2 ^ 64 \<longrightarrow> (\<forall>s. count (sw_serials sw) s \<le> 1 \<and> (s \<in># sw_serials sw \<longrightarrow> unat s \<le> sw_rounds sw))))"

lemma permit_step_ok:
  assumes "permit_step sw sw'" "permits_ok sw"
  shows "permits_ok sw'"
  using assms(1)
proof cases
  case (Round r sc)
  let ?s = "word_of_nat (sw_rounds sw) + 1 :: 64 word"
  have ok: "sw_permits sw = (if sc_active (sw_coordinator sw) = 0 then {#} else {#sc_active (sw_coordinator sw)#})"
      "0 \<notin># sw_serials sw" "sc_next (sw_coordinator sw) = word_of_nat (sw_rounds sw)"
    and distinct: "sw_rounds sw < 2 ^ 64 \<Longrightarrow> count (sw_serials sw) s \<le> 1 \<and> (s \<in># sw_serials sw \<longrightarrow> unat s \<le> sw_rounds sw)" for s
    using assms(2) by (simp_all add: permits_ok_def Let_def)
  have sc: "sc = (sw_coordinator sw)\<lparr>sc_next := ?s\<rparr>" and r: "r = (if ?s \<noteq> 0 then Some ?s else None)"
    using Round(2) ok(3) by (auto simp: request_round_def Let_def)
  have small: "unat ?s = sw_rounds sw + 1" if "sw_rounds sw + 1 < 2 ^ 64"
  proof -
    have "?s = word_of_nat (sw_rounds sw + 1)" by simp
    then show ?thesis using that by (simp only: unat_of_nat) simp
  qed
  have new: "?s \<notin># sw_serials sw" if "sw_rounds sw + 1 < 2 ^ 64"
    using distinct [of ?s] small [OF that] that by auto
  show ?thesis
  proof (cases "?s = 0")
    case True
    then have "r = None" using r by simp
    moreover have "\<not> sw_rounds sw + 1 < 2 ^ 64" using True small by auto
    ultimately show ?thesis using ok by (simp add: permits_ok_def Let_def Round(1) sc add.commute)
  next
    case False
    then have rs: "r = Some ?s" using r by simp
    have "count (add_mset ?s (sw_serials sw)) s \<le> 1 \<and> (s \<in># add_mset ?s (sw_serials sw) \<longrightarrow> unat s \<le> sw_rounds sw + 1)"
      if "sw_rounds sw + 1 < 2 ^ 64" for s
      using distinct [of s] new [OF that] small [OF that] that by (auto simp: not_in_iff)
    then show ?thesis using ok False by (simp add: permits_ok_def Let_def Round(1) sc rs add.commute)
  qed
next
  case (Acquire s r sc)
  have "s \<noteq> 0" using Acquire(2) assms(2) by (auto simp: permits_ok_def Let_def)
  then show ?thesis using assms(2) Acquire
    by (auto simp: permits_ok_def try_acquire_def exchange_active_def Let_def split: if_splits)
next
  case (Release s)
  then show ?thesis using assms(2)
    by (auto simp: permits_ok_def permit_drop_def exchange_active_def Let_def split: if_splits)
next
  case (Forget s)
  then show ?thesis using assms(2) by (auto simp: permits_ok_def Let_def dest: in_diffD intro: le_trans)
qed

text \<open>
  C36. At most one sort runs at a time, and the permit is never lost.  In every interleaving of the
  workers' atomic steps at most one permit is alive, it is the serial the coordinator holds, and when
  none is alive the next worker that asks with its serial gets it.  Until the counter of serials has
  wrapped round, no two of them are the same.
\<close>

theorem one_sort_at_a_time:
  assumes "permit_step\<^sup>*\<^sup>* workers_new sw"
  shows "size (sw_permits sw) \<le> 1
    \<and> (\<forall>s. s \<in># sw_permits sw \<longleftrightarrow> s = sc_active (sw_coordinator sw) \<and> s \<noteq> 0)
    \<and> (\<forall>s \<in># sw_serials sw. s \<noteq> 0 \<and> (fst (try_acquire s (sw_coordinator sw)) = Some s \<longleftrightarrow> sw_permits sw = {#}))
    \<and> (sw_rounds sw < 2 ^ 64 \<longrightarrow> (\<forall>s. count (sw_serials sw) s \<le> 1))"
proof -
  have "permits_ok sw" using assms
  proof (induction rule: rtranclp_induct)
    case base
    then show ?case by (simp add: permits_ok_def workers_new_def coordinator_new_def)
  next
    case (step sw sw')
    then show ?case using permit_step_ok by blast
  qed
  then show ?thesis
    by (auto simp: permits_ok_def try_acquire_def exchange_active_def Let_def split: if_splits)
qed

lemma one_sort_at_a_time_witness:
  "\<exists>sw. permit_step\<^sup>*\<^sup>* workers_new sw \<and> sw_permits sw = {#1#} \<and> size (sw_permits sw) \<le> 1
     \<and> fst (try_acquire 1 (sw_coordinator sw)) = None"
proof -
  let ?w1 = "\<lparr>sw_coordinator = \<lparr>sc_next = 1, sc_active = 0\<rparr>, sw_serials = {#1#}, sw_permits = {#}, sw_rounds = 1\<rparr>"
  let ?w2 = "?w1\<lparr>sw_coordinator := \<lparr>sc_next = 1, sc_active = 1\<rparr>, sw_permits := {#1#}\<rparr>"
  have "permit_step workers_new ?w1"
    using permit_step.Round [of workers_new "Some 1" "\<lparr>sc_next = 1, sc_active = 0\<rparr>"]
    by (simp add: workers_new_def coordinator_new_def request_round_def)
  moreover have "permit_step ?w1 ?w2"
    using permit_step.Acquire [of 1 ?w1 "Some 1" "\<lparr>sc_next = 1, sc_active = 1\<rparr>"] by (simp add: try_acquire_def exchange_active_def)
  ultimately have run: "permit_step\<^sup>*\<^sup>* workers_new ?w2" by (meson rtranclp.rtrancl_refl rtranclp.rtrancl_into_rtrancl)
  from one_sort_at_a_time [OF run] show ?thesis using run by (intro exI [of _ ?w2]) (auto simp: try_acquire_def exchange_active_def)
qed

end
