(* ===== verification/Scroll_Bar.thy ===== *)
theory Scroll_Bar imports Rust_Base begin

text \<open>
  The geometry of a scroll bar (\<open>crates/leanrows-win32/src/scroll.rs\<close>).  The fields are 32-bit integers and
  the arithmetic is done in 64 bits, where it cannot overflow (\<open>scroll_products_fit\<close>); all quotients are of
  numbers that are not negative.
\<close>

definition i32_min :: int where "i32_min = - (2 ^ 31)"
definition i32_max :: int where "i32_max = 2 ^ 31 - 1"

definition i32_try :: "int \<Rightarrow> int option" where
  "i32_try x = (if i32_min \<le> x \<and> x \<le> i32_max then Some x else None)"

definition or_else :: "'a \<Rightarrow> 'a option \<Rightarrow> 'a" where
  "or_else d r = (case r of None \<Rightarrow> d | Some a \<Rightarrow> a)"

definition clamp :: "int \<Rightarrow> int \<Rightarrow> int \<Rightarrow> int" where
  "clamp lo hi x = (if x < lo then lo else if x > hi then hi else x)"

record scroll_range =
  sr_min :: int
  sr_max :: int
  sr_page :: int
  sr_pos :: int

record scroll_thumb =
  th_start :: int
  th_length :: int

definition range_span :: "scroll_range \<Rightarrow> int" where
  "range_span r = max (sr_max r - sr_min r + 1) 0"

definition range_last_pos :: "scroll_range \<Rightarrow> int" where
  "range_last_pos r = max (sr_max r - sr_page r + 1) (sr_min r)"

definition range_scrolls :: "scroll_range \<Rightarrow> bool" where
  "range_scrolls r \<longleftrightarrow> sr_page r > 0 \<and> range_span r > sr_page r"

definition thumb_end :: "scroll_thumb \<Rightarrow> int" where
  "thumb_end t = clamp i32_min i32_max (th_start t + th_length t)"

definition scroll_thumb_for :: "scroll_range \<Rightarrow> int \<Rightarrow> int \<Rightarrow> scroll_thumb option" where
  "scroll_thumb_for r track min_length =
     (if \<not> range_scrolls r \<or> track \<le> 0 then None
      else
        (let span = range_span r;
             len = min (max (track * sr_page r div span) (min min_length track)) track;
             travel = track - len;
             steps = range_last_pos r - sr_min r;
             offset = clamp 0 steps (sr_pos r - sr_min r);
             start = (if steps = 0 then 0 else (travel * offset + steps div 2) div steps)
         in Some \<lparr>th_start = or_else 0 (i32_try start), th_length = or_else track (i32_try len)\<rparr>))"

definition position_at :: "scroll_range \<Rightarrow> int \<Rightarrow> int \<Rightarrow> int \<Rightarrow> int" where
  "position_at r track len start =
     (let travel = track - len; steps = range_last_pos r - sr_min r in
      if travel \<le> 0 \<or> steps \<le> 0 then sr_min r
      else
        (let start = clamp 0 travel start;
             pos = sr_min r + (steps * start + travel div 2) div travel
         in or_else (sr_max r) (i32_try pos)))"

definition page_direction :: "scroll_thumb \<Rightarrow> int \<Rightarrow> int" where
  "page_direction t at = (if at < th_start t then -1 else if at \<ge> thumb_end t then 1 else 0)"

section \<open>Lemmas\<close>

text \<open>What the types of the fields say.\<close>

definition range_fits :: "scroll_range \<Rightarrow> bool" where
  "range_fits r \<longleftrightarrow> i32_min \<le> sr_min r \<and> sr_max r \<le> i32_max \<and> sr_min r \<le> i32_max \<and> i32_min \<le> sr_max r
     \<and> 0 \<le> sr_page r \<and> sr_page r < 2 ^ 32 \<and> i32_min \<le> sr_pos r \<and> sr_pos r \<le> i32_max"

lemma rounded_bounds:
  fixes T s x :: int
  assumes "0 < s" "0 \<le> x" "x \<le> s" "0 \<le> T"
  shows "0 \<le> (T * x + s div 2) div s" "(T * x + s div 2) div s \<le> T"
proof -
  show "0 \<le> (T * x + s div 2) div s" using assms by (intro pos_imp_zdiv_nonneg_iff [THEN iffD2]) simp_all
  have "T * x \<le> T * s" using assms by (intro mult_left_mono) simp_all
  then have "T * x + s div 2 < (T + 1) * s" using assms(1) by (simp add: algebra_simps)
  moreover have "s * ((T * x + s div 2) div s) \<le> T * x + s div 2"
    using assms(1) pos_mod_sign [of s "T * x + s div 2"] mult_div_mod_eq [of s "T * x + s div 2"] by linarith
  ultimately have "s * ((T * x + s div 2) div s) < s * (T + 1)" by (simp add: mult.commute)
  then have "(T * x + s div 2) div s < T + 1" using assms(1) by (simp only: mult_less_cancel_left_pos)
  then show "(T * x + s div 2) div s \<le> T" by simp
qed

text \<open>Rounding to the track and back, when a step is at least a pixel.\<close>

lemma round_trip:
  fixes T s x :: int
  assumes "0 < s" "s \<le> T" "0 \<le> x" "x \<le> s"
  shows "(s * ((T * x + s div 2) div s) + T div 2) div T = x"
proof (cases "s = T")
  case True
  have "(T * x + T div 2) div T = x" using assms by (simp add: True)
  then show ?thesis using assms True by simp
next
  case False
  define q where "q = (T * x + s div 2) div s"
  have q: "s * q \<le> T * x + s div 2" "T * x + s div 2 < s * q + s"
    using assms(1) pos_mod_bound [of s "T * x + s div 2"] pos_mod_sign [of s "T * x + s div 2"]
      mult_div_mod_eq [of s "T * x + s div 2"] unfolding q_def by linarith+
  have "T * x \<le> s * q + T div 2" using q(2) assms False by linarith
  moreover have "s * q + T div 2 < T * x + T" using q(1) assms False by linarith
  ultimately show ?thesis unfolding q_def [symmetric]
    using assms by (intro int_div_pos_eq [of _ _ _ "s * q + T div 2 - T * x"]) simp_all
qed

lemma thumb_parts:
  fixes min_length :: int
  assumes f: "range_fits r" and track: "0 < track" "track \<le> i32_max" and s: "range_scrolls r"
    and len_def: "len = min (max (track * sr_page r div range_span r) (min min_length track)) track"
    and steps_def: "steps = range_last_pos r - sr_min r" and offset_def: "offset = clamp 0 steps (sr_pos r - sr_min r)"
  shows "0 < steps" "0 \<le> offset" "offset \<le> steps" "0 \<le> len" "len \<le> track"
    "scroll_thumb_for r track min_length = Some \<lparr>th_start = ((track - len) * offset + steps div 2) div steps, th_length = len\<rparr>"
proof -
  have sp: "range_span r = sr_max r - sr_min r + 1" "0 < range_span r" "sr_page r < range_span r" "0 < sr_page r"
    using s by (auto simp: range_scrolls_def range_span_def)
  show st: "0 < steps" using sp by (simp add: steps_def range_last_pos_def)
  show off: "0 \<le> offset" "offset \<le> steps" using st by (auto simp: offset_def clamp_def steps_def)
  have "0 \<le> track * sr_page r div range_span r" using track(1) sp by (intro pos_imp_zdiv_nonneg_iff [THEN iffD2]) simp_all
  then show len: "0 \<le> len" "len \<le> track" using track(1) by (auto simp: len_def)
  let ?start = "((track - len) * offset + steps div 2) div steps"
  have b: "0 \<le> ?start" "?start \<le> track - len" using rounded_bounds [OF st off] len by simp_all
  have "i32_try ?start = Some ?start" "i32_try len = Some len"
    using b len track(2) by (simp_all add: i32_try_def i32_min_def)
  moreover have "scroll_thumb_for r track min_length
      = Some \<lparr>th_start = or_else 0 (i32_try (if steps = 0 then 0 else ?start)), th_length = or_else track (i32_try len)\<rparr>"
    using s track(1) by (simp only: scroll_thumb_for_def Let_def len_def steps_def offset_def if_False not_le simp_thms) simp
  ultimately show "scroll_thumb_for r track min_length = Some \<lparr>th_start = ?start, th_length = len\<rparr>"
    using st by (simp add: or_else_def)
qed

text \<open>No product or sum leaves 64 bits.\<close>

lemma scroll_products_fit:
  assumes "range_fits r" "range_scrolls r" "0 < track" "track \<le> i32_max" "0 \<le> len" "len \<le> track" "0 \<le> x" "x \<le> range_last_pos r - sr_min r"
    "0 \<le> y" "y \<le> track - len"
  shows "track * sr_page r < 2 ^ 63" "(track - len) * x + (range_last_pos r - sr_min r) div 2 < 2 ^ 63"
    "(range_last_pos r - sr_min r) * y + (track - len) div 2 < 2 ^ 63"
proof -
  let ?s = "range_last_pos r - sr_min r"
  have s: "0 \<le> ?s" "?s \<le> 2 ^ 32 - 1"
    using assms(1,2) by (auto simp: range_last_pos_def range_scrolls_def range_fits_def range_span_def i32_min_def i32_max_def max_def split: if_splits)
  have t: "track \<le> 2 ^ 31 - 1" using assms(4) by (simp add: i32_max_def)
  have p: "sr_page r \<le> 2 ^ 32 - 1" "0 \<le> sr_page r" using assms(1) by (simp_all add: range_fits_def)
  have "track * sr_page r \<le> (2 ^ 31 - 1) * (2 ^ 32 - 1)" using t p assms(3) by (intro mult_mono) simp_all
  then show "track * sr_page r < 2 ^ 63" by simp
  have "(track - len) * x \<le> (2 ^ 31 - 1) * (2 ^ 32 - 1)" using t s assms(5-8) by (intro mult_mono) simp_all
  moreover have "?s div 2 < 2 ^ 31" using s by simp
  ultimately show "(track - len) * x + ?s div 2 < 2 ^ 63" by simp
  have "?s * y \<le> (2 ^ 32 - 1) * (2 ^ 31 - 1)" using t s assms(5,6,9,10) by (intro mult_mono) simp_all
  moreover have "(track - len) div 2 < 2 ^ 31" using t assms(5) by simp
  ultimately show "?s * y + (track - len) div 2 < 2 ^ 63" by simp
qed

text \<open>
  C37. The thumb stays on its track and dragging it to where it is changes nothing.  For a list that
  scrolls, the thumb starts and ends inside the track and is no shorter than the minimum, or the
  track if that is shorter; it touches the start when the list is at its first position and the end when
  it is at its last; and for a list that scrolls by no more positions than the thumb has pixels to travel,
  the position read back from the thumb is the position of the list.
\<close>

theorem scroll_thumb_on_track:
  assumes "range_fits r" "0 < track" "track \<le> i32_max" "range_scrolls r"
  shows "\<exists>t. scroll_thumb_for r track min_length = Some t
    \<and> 0 \<le> th_start t \<and> th_start t + th_length t \<le> track \<and> min min_length track \<le> th_length t
    \<and> (sr_pos r \<le> sr_min r \<longrightarrow> th_start t = 0) \<and> (range_last_pos r \<le> sr_pos r \<longrightarrow> th_start t + th_length t = track)
    \<and> (range_last_pos r - sr_min r \<le> track - th_length t \<longrightarrow>
         position_at r track (th_length t) (th_start t) = clamp (sr_min r) (range_last_pos r) (sr_pos r))"
proof -
  define len where "len = min (max (track * sr_page r div range_span r) (min min_length track)) track"
  define steps where "steps = range_last_pos r - sr_min r"
  define offset where "offset = clamp 0 steps (sr_pos r - sr_min r)"
  note parts = thumb_parts [OF assms len_def steps_def offset_def]
  let ?start = "((track - len) * offset + steps div 2) div steps"
  have b: "0 \<le> ?start" "?start \<le> track - len" using rounded_bounds [OF parts(1-3)] parts(5) by simp_all
  have len: "min min_length track \<le> len" by (simp add: len_def)
  have first: "?start = 0" if "sr_pos r \<le> sr_min r"
  proof -
    have "offset = 0" using that parts(1) by (simp add: offset_def clamp_def)
    then show ?thesis using parts(1) by simp
  qed
  have last: "?start = track - len" if "range_last_pos r \<le> sr_pos r"
  proof -
    have "offset = steps" using that parts(1) by (simp add: offset_def clamp_def steps_def)
    then show ?thesis using parts(1) by simp
  qed
  have readback: "position_at r track len ?start = clamp (sr_min r) (range_last_pos r) (sr_pos r)" if "steps \<le> track - len"
  proof -
    have "clamp 0 (track - len) ?start = ?start" using b by (simp add: clamp_def)
    moreover have "(steps * ?start + (track - len) div 2) div (track - len) = offset"
      by (rule round_trip [OF parts(1) that parts(2,3)])
    moreover have "sr_min r + offset = clamp (sr_min r) (range_last_pos r) (sr_pos r)"
      using parts(1) by (auto simp: offset_def clamp_def steps_def)
    moreover have "i32_try (sr_min r + offset) = Some (sr_min r + offset)"
      using assms(1,4) parts(2,3)
      by (auto simp: i32_try_def range_fits_def steps_def range_last_pos_def range_scrolls_def)
    ultimately show ?thesis using that parts(1) by (simp add: position_at_def Let_def steps_def [symmetric] or_else_def)
  qed
  show ?thesis using parts(6) b len first last readback unfolding steps_def [symmetric] by auto
qed

lemma scroll_thumb_on_track_witness:
  "\<exists>t. scroll_thumb_for \<lparr>sr_min = 0, sr_max = 99, sr_page = 10, sr_pos = 45\<rparr> 200 20 = Some t
     \<and> th_start t = 90 \<and> th_length t = 20
     \<and> position_at \<lparr>sr_min = 0, sr_max = 99, sr_page = 10, sr_pos = 45\<rparr> 200 20 90 = 45"
proof -
  let ?r = "\<lparr>sr_min = 0, sr_max = 99, sr_page = 10, sr_pos = 45\<rparr>"
  have h: "range_fits ?r" "(0 :: int) < 200" "200 \<le> i32_max" "range_scrolls ?r"
    by (simp_all add: range_fits_def i32_min_def i32_max_def range_scrolls_def range_span_def)
  have t: "scroll_thumb_for ?r 200 20 = Some \<lparr>th_start = 90, th_length = 20\<rparr>"
    by (simp add: scroll_thumb_for_def range_scrolls_def range_span_def range_last_pos_def clamp_def i32_try_def i32_min_def
        i32_max_def or_else_def Let_def)
  from scroll_thumb_on_track [OF h, of 20] t show ?thesis by (auto simp: range_last_pos_def clamp_def)
qed

end
