(* ===== verification/Row_Zoom.thy ===== *)
theory Row_Zoom imports Scroll_Bar begin

text \<open>
  The zoom of the rows and the widths of the columns across zoom changes
  (\<open>crates/leanrows-win32/src/zoom.rs\<close>).  Widths are 32-bit integers and levels 32-bit naturals, with the
  arithmetic in 64 bits; the quotients of \<open>scale_by_zoom\<close> and \<open>wheel_notches\<close> round towards zero, so
  they are those of the absolute values.
\<close>

definition zoom_levels :: "nat list" where
  "zoom_levels = [50, 67, 75, 80, 90, 100, 110, 125, 150, 175, 200, 250, 300]"

definition default_zoom :: nat where "default_zoom = 100"

definition quotient :: "int \<Rightarrow> int \<Rightarrow> int" where
  "quotient a b = sgn a * (\<bar>a\<bar> div b)"

definition step_zoom :: "nat \<Rightarrow> int \<Rightarrow> nat" where
  "step_zoom current direction =
     (if direction > 0 then or_else (last zoom_levels) (find (\<lambda>l. l > current) zoom_levels)
      else if direction < 0 then or_else (hd zoom_levels) (find (\<lambda>l. l < current) (rev zoom_levels))
      else default_zoom)"

text \<open>\<open>min_by_key\<close> keeps the first of equal minima.\<close>

definition abs_diff :: "nat \<Rightarrow> nat \<Rightarrow> nat" where
  "abs_diff a b = (if a < b then b - a else a - b)"

fun min_by_key :: "('a \<Rightarrow> nat) \<Rightarrow> 'a list \<Rightarrow> 'a option" where
  "min_by_key k [] = None"
| "min_by_key k (x # xs) = (case min_by_key k xs of None \<Rightarrow> Some x | Some y \<Rightarrow> Some (if k y < k x then y else x))"

definition u32_max :: nat where "u32_max = 2 ^ 32 - 1"

definition normalize_zoom :: "nat \<Rightarrow> nat" where
  "normalize_zoom value =
     (let lowest = hd zoom_levels; highest = last zoom_levels in
      if value < lowest - 1 \<or> value > min (highest + 1) u32_max then default_zoom
      else or_else default_zoom (min_by_key (\<lambda>l. abs_diff l value) zoom_levels))"

definition scale_by_zoom :: "int \<Rightarrow> nat \<Rightarrow> int" where
  "scale_by_zoom size_px zoom =
     (let scaled = quotient (size_px * int zoom + sgn size_px * 50) 100;
          scaled = (if scaled = 0 then sgn size_px else scaled)
      in or_else (if size_px < 0 then i32_min else i32_max) (i32_try scaled))"

text \<open>\<open>abs\<close> of the notches is unsigned, so it does not overflow.\<close>

definition zoom_after_notches :: "nat \<Rightarrow> int \<Rightarrow> nat" where
  "zoom_after_notches current notches = fold (\<lambda>_ level. step_zoom level (sgn notches)) [0..<nat \<bar>notches\<bar>] current"

text \<open>The movement that is left, and the whole notches.\<close>

definition wheel_notches :: "int \<Rightarrow> int \<Rightarrow> int \<times> int" where
  "wheel_notches pending delta =
     (let p = clamp i32_min i32_max (pending + delta); n = quotient p 120 in (p - n * 120, n))"

record column_basis =
  cb_width :: int
  cb_zoom :: nat
  cb_applied :: int

definition basis_unknown :: column_basis where
  "basis_unknown = \<lparr>cb_width = 0, cb_zoom = default_zoom, cb_applied = -1\<rparr>"

type_synonym column_zoom = "column_basis list"

definition resize_columns :: "nat \<Rightarrow> column_zoom \<Rightarrow> column_zoom" where
  "resize_columns n cols = take n cols @ replicate (n - length cols) basis_unknown"

definition scale_width :: "int \<Rightarrow> nat \<Rightarrow> nat \<Rightarrow> int" where
  "scale_width width from_zoom to_zoom =
     (let f = int (max from_zoom 1); scaled = quotient (width * int to_zoom + f div 2) f
      in max (or_else i32_max (i32_try scaled)) 1)"

definition columns_insert :: "nat \<Rightarrow> int \<Rightarrow> nat \<Rightarrow> column_zoom \<Rightarrow> column_zoom \<times> int" where
  "columns_insert index design zoom cols =
     (let applied = max (scale_by_zoom design zoom) 1;
          cols' = (if length cols \<le> index then resize_columns (index + 1) cols else cols)
      in (cols'[index := \<lparr>cb_width = design, cb_zoom = default_zoom, cb_applied = applied\<rparr>], applied))"

definition rescale_column :: "nat \<Rightarrow> nat \<Rightarrow> int \<Rightarrow> column_basis \<Rightarrow> column_basis" where
  "rescale_column from_zoom to_zoom width basis =
     (let basis' = (if cb_applied basis \<noteq> width
                    then \<lparr>cb_width = width, cb_zoom = max from_zoom 1, cb_applied = width\<rparr> else basis)
      in basis'\<lparr>cb_applied := scale_width (cb_width basis') (cb_zoom basis') to_zoom\<rparr>)"

definition columns_rescale :: "int list \<Rightarrow> nat \<Rightarrow> nat \<Rightarrow> column_zoom \<Rightarrow> column_zoom \<times> int list" where
  "columns_rescale current from_zoom to_zoom cols =
     (let cols' = map2 (rescale_column from_zoom to_zoom) current (resize_columns (length current) cols)
      in (cols', map cb_applied cols'))"

section \<open>Levels\<close>

lemma zoom_levels_sorted: "sorted zoom_levels" "distinct zoom_levels"
  by (simp_all add: zoom_levels_def)

lemma found_level: "d \<in> set xs \<Longrightarrow> or_else d (find P xs) \<in> set xs"
  by (auto simp: or_else_def dest!: find_Some_iff [THEN iffD1] split: option.split)

lemma step_zoom_is_level: "direction \<noteq> 0 \<Longrightarrow> step_zoom current direction \<in> set zoom_levels"
proof -
  assume "direction \<noteq> 0"
  moreover have "last zoom_levels \<in> set zoom_levels" "hd zoom_levels \<in> set (rev zoom_levels)" by (simp_all add: zoom_levels_def)
  note found_level [OF this(1)] found_level [OF this(2)]
  ultimately show ?thesis by (simp add: step_zoom_def)
qed

section \<open>Columns and their widths\<close>

text \<open>
  The columns, the widths the list shows, and its zoom: columns are added at the end, the last ones
  are removed (their bases stay behind), the zoom changes, and the user drags a column to any width, down
  to nothing.
\<close>

inductive columns_shown :: "column_zoom \<Rightarrow> int list \<Rightarrow> nat \<Rightarrow> bool" where
  Start: "0 < zoom \<Longrightarrow> columns_shown [] [] zoom"
| Insert: "columns_shown cols widths zoom \<Longrightarrow> columns_insert (length widths) design zoom cols = (cols', w) \<Longrightarrow>
     0 \<le> design \<Longrightarrow> columns_shown cols' (widths @ [w]) zoom"
| Remove: "columns_shown cols widths zoom \<Longrightarrow> columns_shown cols (take n widths) zoom"
| Zoom: "columns_shown cols widths zoom \<Longrightarrow> columns_rescale widths zoom to_zoom cols = (cols', widths') \<Longrightarrow> 0 < to_zoom \<Longrightarrow>
     columns_shown cols' widths' to_zoom"
| Drag: "columns_shown cols widths zoom \<Longrightarrow> i < length widths \<Longrightarrow> 0 \<le> w \<Longrightarrow> w \<le> i32_max \<Longrightarrow>
     columns_shown cols (widths[i := w]) zoom"

definition basis_at :: "nat \<Rightarrow> int \<Rightarrow> column_basis \<Rightarrow> bool" where
  "basis_at zoom w basis \<longleftrightarrow> 0 \<le> w \<and> w \<le> i32_max
     \<and> (cb_applied basis = -1 \<or> cb_applied basis = scale_width (cb_width basis) (cb_zoom basis) zoom)"

definition columns_ok :: "column_zoom \<Rightarrow> int list \<Rightarrow> nat \<Rightarrow> bool" where
  "columns_ok cols widths zoom \<longleftrightarrow> 0 < zoom \<and> list_all2 (basis_at zoom) widths (resize_columns (length widths) cols)"

lemma scale_width_range: "1 \<le> scale_width w a b \<and> scale_width w a b \<le> i32_max"
  by (auto simp: scale_width_def Let_def or_else_def i32_try_def i32_max_def split: option.splits)

lemma scale_width_nonneg: "0 \<le> scale_width w a b"
  using scale_width_range [of w a b] by simp

text \<open>A width at its own zoom is itself, or one pixel when it is nothing.\<close>

lemma scale_width_same: "0 \<le> w \<Longrightarrow> w \<le> i32_max \<Longrightarrow> 0 < z \<Longrightarrow> scale_width w z z = max 1 w"
proof (cases "w = 0")
  case True
  assume "0 < z"
  then show ?thesis by (simp add: True scale_width_def quotient_def or_else_def i32_try_def i32_min_def i32_max_def)
next
  case False
  assume "0 \<le> w" "w \<le> i32_max" and z: "0 < z"
  with False have w: "1 \<le> w" "w \<le> i32_max" by simp_all
  have "(w * int z + int z div 2) div int z = w" using z by (simp add: div_mult_self3)
  moreover have "0 < w * int z + int z div 2" using w z by (simp add: add_pos_nonneg)
  ultimately have "quotient (w * int z + int z div 2) (int z) = w" by (simp add: quotient_def)
  moreover have "max z 1 = z" using z by simp
  ultimately show ?thesis using w by (simp add: scale_width_def i32_try_def or_else_def i32_min_def)
qed

text \<open>A column opened at a zoom is as wide as its design scaled to it.\<close>

lemma scale_by_zoom_width: "0 \<le> design \<Longrightarrow> max (scale_by_zoom design zoom) 1 = scale_width design default_zoom zoom"
proof (cases "design = 0")
  case True
  then show ?thesis by (simp add: scale_by_zoom_def scale_width_def quotient_def default_zoom_def or_else_def i32_try_def i32_min_def i32_max_def)
next
  case False
  assume "0 \<le> design"
  with False have d: "0 < design" by simp
  then have "quotient (design * int zoom + 50) 100 = (design * int zoom + 50) div 100"
    by (simp add: quotient_def abs_of_nonneg sgn_if)
  then show ?thesis using d
    by (auto simp: scale_by_zoom_def scale_width_def default_zoom_def or_else_def i32_try_def i32_min_def i32_max_def Let_def
        split: option.splits)
qed

lemma rescale_column_at:
  fixes to_zoom :: nat
  assumes "basis_at z w basis" "0 < z"
  defines "b' \<equiv> rescale_column z to_zoom w basis"
  shows "basis_at to_zoom (cb_applied b') b'" "scale_width (cb_width b') (cb_zoom b') z = max 1 w"
    "cb_applied b' = scale_width (cb_width b') (cb_zoom b') to_zoom"
  using assms(1,2) scale_width_range [of "cb_width b'" "cb_zoom b'"] scale_width_range [of "cb_width basis" "cb_zoom basis" z]
    scale_width_same [of w z] scale_width_nonneg
  by (auto simp: b'_def rescale_column_def basis_at_def Let_def)

lemma length_resize_columns [simp]: "length (resize_columns n cols) = n"
  by (simp add: resize_columns_def)

lemma resize_same [simp]: "length cols = n \<Longrightarrow> resize_columns n cols = cols"
  by (simp add: resize_columns_def)

lemma columns_rescale_at:
  assumes "columns_ok cols widths z" "0 < to_zoom" "columns_rescale widths z to_zoom cols = (cols', widths')"
  shows "columns_ok cols' widths' to_zoom" "length widths' = length widths" "length cols' = length widths"
    "map cb_applied cols' = widths'"
    "\<forall>b \<in> set cols'. cb_applied b = scale_width (cb_width b) (cb_zoom b) to_zoom"
    "map (\<lambda>b. scale_width (cb_width b) (cb_zoom b) z) cols' = map (max 1) widths"
proof -
  let ?cs = "resize_columns (length widths) cols"
  have c: "cols' = map2 (rescale_column z to_zoom) widths ?cs" "widths' = map cb_applied cols'"
    using assms(3) by (auto simp: columns_rescale_def Let_def)
  have b: "basis_at z (widths ! i) (?cs ! i)" if "i < length widths" for i
    using assms(1) that by (auto simp: columns_ok_def list_all2_conv_all_nth)
  have z: "0 < z" using assms(1) by (simp add: columns_ok_def)
  show len: "length widths' = length widths" "length cols' = length widths" and "map cb_applied cols' = widths'"
    by (simp_all add: c)
  have nth: "cols' ! i = rescale_column z to_zoom (widths ! i) (?cs ! i)" if "i < length widths" for i
    using that by (simp add: c(1))
  have at: "basis_at to_zoom (cb_applied (cols' ! i)) (cols' ! i)"
      "scale_width (cb_width (cols' ! i)) (cb_zoom (cols' ! i)) z = max 1 (widths ! i)"
      "cb_applied (cols' ! i) = scale_width (cb_width (cols' ! i)) (cb_zoom (cols' ! i)) to_zoom" if "i < length widths" for i
    unfolding nth [OF that] using rescale_column_at [OF b [OF that] z] by blast+
  have same: "resize_columns (length cols') cols' = cols'" by simp
  show "columns_ok cols' widths' to_zoom"
    unfolding columns_ok_def using assms(2) len at(1) by (simp add: list_all2_conv_all_nth c(2))
  show "\<forall>b \<in> set cols'. cb_applied b = scale_width (cb_width b) (cb_zoom b) to_zoom"
    using at(3) len(2) by (metis in_set_conv_nth)
  show "map (\<lambda>b. scale_width (cb_width b) (cb_zoom b) z) cols' = map (max 1) widths"
    using at(2) len(2) by (intro nth_equalityI) simp_all
qed

lemma columns_shown_ok: "columns_shown cols widths zoom \<Longrightarrow> columns_ok cols widths zoom"
proof (induction rule: columns_shown.induct)
  case (Start zoom)
  then show ?case by (simp add: columns_ok_def)
next
  case (Insert cols widths zoom design cols' w)
  let ?n = "length widths"
  let ?b = "\<lparr>cb_width = design, cb_zoom = default_zoom, cb_applied = w\<rparr>"
  have r: "w = scale_width design default_zoom zoom"
    "cols' = (if length cols \<le> ?n then resize_columns (?n + 1) cols else cols)[?n := ?b]"
    using Insert scale_by_zoom_width [of design zoom] by (auto simp: columns_insert_def columns_ok_def Let_def)
  have c: "resize_columns (?n + 1) cols' = resize_columns ?n cols @ [?b]"
    by (intro nth_equalityI) (auto simp: r(2) resize_columns_def nth_append nth_list_update)
  show ?case using Insert(4) scale_width_range [of design default_zoom zoom] c
    by (simp add: columns_ok_def list_all2_appendI basis_at_def r(1) scale_width_nonneg)
next
  case (Remove cols widths zoom n)
  then have "resize_columns (length (take n widths)) cols = take n (resize_columns (length widths) cols)"
    by (intro nth_equalityI) (auto simp: resize_columns_def nth_append min_def)
  then show ?case using Remove(2) by (simp add: columns_ok_def list_all2_takeI)
next
  case (Zoom cols widths zoom to_zoom cols' widths')
  then show ?case using columns_rescale_at(1) by blast
next
  case (Drag cols widths zoom i w)
  let ?cs = "resize_columns (length widths) cols"
  have b: "basis_at zoom (widths ! j) (?cs ! j)" if "j < length widths" for j
    using Drag(5) that by (auto simp: columns_ok_def list_all2_conv_all_nth)
  show ?case using Drag(2-5) b by (auto simp: columns_ok_def list_all2_conv_all_nth nth_list_update basis_at_def)
qed

text \<open>Through a sequence of zooms.\<close>

fun zoom_through :: "nat list \<Rightarrow> nat \<Rightarrow> column_zoom \<times> int list \<Rightarrow> column_zoom \<times> int list" where
  "zoom_through [] from_zoom cw = cw"
| "zoom_through (z # zs) from_zoom (cols, widths) = zoom_through zs z (columns_rescale widths from_zoom z cols)"

lemma zoom_through_bases:
  assumes "columns_ok cols widths z" "length cols = length widths" "map cb_applied cols = widths" "\<forall>z \<in> set zs. 0 < z"
    "zoom_through zs z (cols, widths) = (cols', widths')"
  shows "map (\<lambda>b. (cb_width b, cb_zoom b)) cols' = map (\<lambda>b. (cb_width b, cb_zoom b)) cols
    \<and> columns_ok cols' widths' (last (z # zs)) \<and> map cb_applied cols' = widths' \<and> length cols' = length widths'"
  using assms
proof (induction zs arbitrary: z cols widths)
  case (Cons z1 zs)
  obtain c1 w1 where r: "columns_rescale widths z z1 cols = (c1, w1)" by fastforce
  have z1: "0 < z1" using Cons.prems(4) by simp
  note at = columns_rescale_at [OF Cons.prems(1) z1 r]
  have "c1 = map2 (rescale_column z z1) widths cols" using r Cons.prems(2) by (simp add: columns_rescale_def Let_def)
  then have same: "map (\<lambda>b. (cb_width b, cb_zoom b)) c1 = map (\<lambda>b. (cb_width b, cb_zoom b)) cols"
    using Cons.prems(2,3) by (intro nth_equalityI) (auto simp: rescale_column_def Let_def)
  have len: "length c1 = length w1" using at(2,3) by simp
  show ?case using Cons.IH [OF at(1) len at(4)] Cons.prems(4,5) same r by simp
qed simp

text \<open>
  C38. Zooming away and back changes no column that shows.  However the columns were added, removed,
  zoomed and dragged before, after any sequence of further zoom levels that ends at the zoom it started from every
  column has the width it had, except that a column dragged to nothing comes back one pixel wide; and a
  column that is opened at a zoom is as wide there as one that was opened at full size and zoomed.
\<close>

theorem columns_come_back:
  assumes "columns_shown cols widths zoom" "\<forall>z \<in> set zs. 0 < z"
  shows "snd (zoom_through (zs @ [zoom]) zoom (cols, widths)) = map (max 1) widths
    \<and> (\<forall>design \<ge> 0. snd (columns_insert (length widths) design zoom cols) = scale_width design default_zoom zoom)"
proof -
  have ok: "columns_ok cols widths zoom" using columns_shown_ok [OF assms(1)] .
  have z: "0 < zoom" using ok by (simp add: columns_ok_def)
  have last_rescale: "zoom_through (ys @ [z]) x cw = (case zoom_through ys x cw of (c, w) \<Rightarrow> columns_rescale w (last (x # ys)) z c)"
    for ys z x cw by (induction ys arbitrary: x cw) (auto split: prod.splits)
  have "snd (zoom_through (zs @ [zoom]) zoom (cols, widths)) = map (max 1) widths"
  proof (cases zs)
    case Nil
    obtain c1 w1 where r: "columns_rescale widths zoom zoom cols = (c1, w1)" by fastforce
    note at = columns_rescale_at [OF ok z r]
    have "w1 = map (\<lambda>b. scale_width (cb_width b) (cb_zoom b) zoom) c1" unfolding at(4) [symmetric] using at(5) by simp
    then show ?thesis using at(6) r Nil by simp
  next
    case (Cons z1 rest)
    obtain c1 w1 where r: "columns_rescale widths zoom z1 cols = (c1, w1)" by fastforce
    have z1: "0 < z1" using assms(2) Cons by simp
    note at = columns_rescale_at [OF ok z1 r]
    obtain c2 w2 where t: "zoom_through (rest @ [zoom]) z1 (c1, w1) = (c2, w2)" by fastforce
    obtain c3 w3 where t3: "zoom_through rest z1 (c1, w1) = (c3, w3)" by fastforce
    have len: "length c1 = length w1" using at(2,3) by simp
    have pos: "\<forall>z \<in> set rest. 0 < z" "\<forall>z \<in> set (rest @ [zoom]). 0 < z" using assms(2) Cons z by auto
    note b2 = zoom_through_bases [OF at(1) len at(4) pos(2) t]
    note b3 = zoom_through_bases [OF at(1) len at(4) pos(1) t3]
    have "columns_rescale w3 (last (z1 # rest)) zoom c3 = (c2, w2)" using t t3 last_rescale [of rest zoom z1 "(c1, w1)"] by simp
    note at2 = columns_rescale_at(4,5) [OF _ z this]
    have "columns_ok c3 w3 (last (z1 # rest))" using b3 by blast
    then have "w2 = map (\<lambda>b. scale_width (cb_width b) (cb_zoom b) zoom) c2" using at2 by (metis (no_types, lifting) map_eq_conv)
    also have "\<dots> = map (\<lambda>(w, z). scale_width w z zoom) (map (\<lambda>b. (cb_width b, cb_zoom b)) c2)" by simp
    also have "\<dots> = map (\<lambda>b. scale_width (cb_width b) (cb_zoom b) zoom) c1" using b2 by simp
    finally show ?thesis using at(6) t r Cons by simp
  qed
  moreover have "snd (columns_insert (length widths) design zoom cols) = scale_width design default_zoom zoom" if "0 \<le> design" for design
    using scale_by_zoom_width [OF that] by (simp add: columns_insert_def Let_def)
  ultimately show ?thesis by blast
qed

lemma columns_come_back_witness:
  "\<exists>cols. columns_shown cols [90, 33] 90 \<and> snd (zoom_through [300, 50, 90] 90 (cols, [90, 33])) = [90, 33]
     \<and> columns_shown cols [90, 0] 90 \<and> snd (zoom_through [300, 50, 90] 90 (cols, [90, 0])) = [90, 1]"
proof -
  let ?b = "\<lparr>cb_width = 100, cb_zoom = 100, cb_applied = 90\<rparr>"
  have "columns_shown [] [] 90" by (rule columns_shown.Start) simp
  from columns_shown.Insert [OF this, of 100 "[?b]" 90] have 1: "columns_shown [?b] [90] 90"
    by (simp add: columns_insert_def scale_by_zoom_def quotient_def i32_try_def i32_min_def i32_max_def or_else_def default_zoom_def
        resize_columns_def Let_def)
  from columns_shown.Insert [OF this, of 100 "[?b, ?b]" 90] have two: "columns_shown [?b, ?b] [90, 90] 90"
    by (simp add: columns_insert_def scale_by_zoom_def quotient_def i32_try_def i32_min_def i32_max_def or_else_def default_zoom_def
        resize_columns_def Let_def)
  from columns_shown.Drag [OF two, of 1 33] have s: "columns_shown [?b, ?b] [90, 33] 90" by (simp add: i32_max_def)
  from columns_shown.Drag [OF two, of 1 0] have t: "columns_shown [?b, ?b] [90, 0] 90" by (simp add: i32_max_def)
  from columns_come_back [OF s, of "[300, 50]"] columns_come_back [OF t, of "[300, 50]"] show ?thesis
    using s t by (intro exI [of _ "[?b, ?b]"]) simp
qed

end
