(* ===== verification/Row_Window.thy ===== *)
theory Row_Window imports Scroll_Bar begin

text \<open>
  The window of rows the native list shows and the cache of rows it draws from
  (\<open>crates/leanrows-win32/src/model.rs\<close>).  A file may have more rows than the list can hold, so the list
  shows at most a hundred million of them from a movable first row.
\<close>

section \<open>The window\<close>

definition max_native_rows :: nat where
  "max_native_rows = 100000000"

definition u32_try :: "nat \<Rightarrow> nat option" where
  "u32_try n = (if n < 2 ^ 32 then Some n else None)"

record row_window =
  rw_total :: nat
  rw_first :: nat
  rw_visible :: nat

definition window_new :: "nat \<Rightarrow> nat \<Rightarrow> row_window" where
  "window_new total_rows requested =
     (let native = (if requested > max_native_rows then max_native_rows else requested);
          visible = (if total_rows < native then or_else max_native_rows (u32_try total_rows) else native)
      in \<lparr>rw_total = total_rows, rw_first = 0, rw_visible = visible\<rparr>)"

definition window_max_first :: "row_window \<Rightarrow> nat" where
  "window_max_first rw = saturating_sub (rw_total rw) (rw_visible rw)"

definition window_clamp :: "row_window \<Rightarrow> row_window" where
  "window_clamp rw = rw\<lparr>rw_first := min (rw_first rw) (window_max_first rw)\<rparr>"

definition window_set_total :: "nat \<Rightarrow> row_window \<Rightarrow> row_window" where
  "window_set_total total_rows rw =
     window_clamp (rw\<lparr>rw_total := total_rows, rw_visible := min (rw_visible rw) (or_else (2 ^ 32 - 1) (u32_try total_rows))\<rparr>)"

definition window_set_visible :: "nat \<Rightarrow> row_window \<Rightarrow> row_window" where
  "window_set_visible requested rw =
     window_clamp (rw\<lparr>rw_visible := or_else max_native_rows (u32_try (min (min requested max_native_rows) (rw_total rw)))\<rparr>)"

definition window_seek :: "nat \<Rightarrow> row_window \<Rightarrow> row_window" where
  "window_seek requested rw = rw\<lparr>rw_first := min requested (window_max_first rw)\<rparr>"

definition window_center_on :: "nat \<Rightarrow> row_window \<Rightarrow> row_window" where
  "window_center_on row rw =
     (let bounded = min row (saturating_sub (rw_total rw) 1)
      in window_seek (saturating_sub bounded (rw_visible rw div 2)) rw)"

definition window_scroll :: "int \<Rightarrow> row_window \<Rightarrow> row_window" where
  "window_scroll delta rw =
     window_seek (if delta < 0 then saturating_sub (rw_first rw) (nat \<bar>delta\<bar>)
                  else saturating_add (rw_first rw) (nat \<bar>delta\<bar>)) rw"

definition local_to_absolute :: "row_window \<Rightarrow> int \<Rightarrow> nat option" where
  "local_to_absolute rw local_row =
     (if local_row < 0 then None
      else if nat local_row \<ge> rw_visible rw then None
      else Option.bind (checked_add (rw_first rw) (nat local_row)) (\<lambda>absolute.
             if absolute < rw_total rw then Some absolute else None))"

definition absolute_to_local :: "row_window \<Rightarrow> nat \<Rightarrow> int option" where
  "absolute_to_local rw row =
     (if row \<ge> rw_total rw then None
      else Option.bind (checked_sub row (rw_first rw)) (\<lambda>local_row.
             if local_row \<ge> rw_visible rw then None else i32_try (int local_row)))"

section \<open>The cache\<close>

record cached_row =
  cr_absolute :: nat
  cr_rank :: nat
  cr_cells :: "16 word list list"

text \<open>Rows of one rank may be in any order among themselves.\<close>

definition cache_new :: "cached_row list \<Rightarrow> cached_row list" where
  "cache_new rows = sort_key cr_rank rows"

text \<open>\<open>binary_search_by_key\<close> between two positions.\<close>

function search_rank :: "cached_row list \<Rightarrow> nat \<Rightarrow> nat \<Rightarrow> nat \<Rightarrow> nat option" where
  "search_rank rows rank lo hi =
     (if hi \<le> lo then None
      else
        (let mid = (lo + hi) div 2; k = cr_rank (rows ! mid) in
         if k = rank then Some mid
         else if k < rank then search_rank rows rank (mid + 1) hi
         else search_rank rows rank lo mid))"
  by pat_completeness auto
termination by (relation "measure (\<lambda>(rows, rank, lo, hi). hi - lo)") auto

declare search_rank.simps [simp del]

definition cache_row :: "cached_row list \<Rightarrow> nat \<Rightarrow> cached_row option" where
  "cache_row rows rank = map_option (\<lambda>i. rows ! i) (search_rank rows rank 0 (length rows))"

definition cache_cell :: "cached_row list \<Rightarrow> nat \<Rightarrow> nat \<Rightarrow> 16 word list option" where
  "cache_cell rows rank subitem =
     Option.bind (cache_row rows rank) (\<lambda>row. if subitem < length (cr_cells row) then Some (cr_cells row ! subitem) else None)"

definition cache_contains_row :: "cached_row list \<Rightarrow> nat \<Rightarrow> bool" where
  "cache_contains_row rows rank \<longleftrightarrow> cache_row rows rank \<noteq> None"

definition cache_cell_count :: "cached_row list \<Rightarrow> nat \<Rightarrow> nat option" where
  "cache_cell_count rows rank = map_option (\<lambda>row. length (cr_cells row)) (cache_row rows rank)"

definition cache_source_row :: "cached_row list \<Rightarrow> nat \<Rightarrow> nat option" where
  "cache_source_row rows rank = map_option cr_absolute (cache_row rows rank)"

section \<open>Lemmas\<close>

text \<open>The windows the list can have, of files of at most \<open>2 ^ 64 - 1\<close> rows.\<close>

inductive window_reached :: "row_window \<Rightarrow> bool" where
  New: "total_rows \<le> u64_max \<Longrightarrow> window_reached (window_new total_rows requested)"
| Total: "window_reached rw \<Longrightarrow> total_rows \<le> u64_max \<Longrightarrow> window_reached (window_set_total total_rows rw)"
| Visible: "window_reached rw \<Longrightarrow> window_reached (window_set_visible requested rw)"
| Seek: "window_reached rw \<Longrightarrow> window_reached (window_seek requested rw)"
| Center: "window_reached rw \<Longrightarrow> window_reached (window_center_on row rw)"
| Scroll: "window_reached rw \<Longrightarrow> window_reached (window_scroll delta rw)"

definition window_ok :: "row_window \<Rightarrow> bool" where
  "window_ok rw \<longleftrightarrow> rw_first rw + rw_visible rw \<le> rw_total rw \<and> rw_visible rw \<le> max_native_rows \<and> rw_total rw \<le> u64_max"

lemma u32_small [simp]: "n < 2 ^ 32 \<Longrightarrow> or_else d (u32_try n) = n"
  by (simp add: u32_try_def or_else_def)

lemma window_clamp_ok:
  "rw_visible rw \<le> rw_total rw \<Longrightarrow> rw_visible rw \<le> max_native_rows \<Longrightarrow> rw_total rw \<le> u64_max \<Longrightarrow> window_ok (window_clamp rw)"
  by (auto simp: window_ok_def window_clamp_def window_max_first_def)

lemma window_seek_ok: "window_ok rw \<Longrightarrow> window_ok (window_seek n rw)"
  by (auto simp: window_ok_def window_seek_def window_max_first_def)

lemma window_reached_ok: "window_reached rw \<Longrightarrow> window_ok rw"
proof (induction rule: window_reached.induct)
  case (New total_rows requested)
  then show ?case by (auto simp: window_ok_def window_new_def Let_def max_native_rows_def)
next
  case (Total rw total_rows)
  then show ?case unfolding window_set_total_def
    by (intro window_clamp_ok) (auto simp: window_ok_def max_native_rows_def u32_try_def or_else_def min_def)
next
  case (Visible rw requested)
  then show ?case unfolding window_set_visible_def
    by (intro window_clamp_ok) (auto simp: window_ok_def max_native_rows_def)
qed (simp_all add: window_seek_ok window_center_on_def window_scroll_def Let_def)

lemma search_rank_found:
  "sorted (map cr_rank rows) \<Longrightarrow> hi \<le> length rows \<Longrightarrow>
   (case search_rank rows rank lo hi of
      None \<Rightarrow> \<forall>i. lo \<le> i \<and> i < hi \<longrightarrow> cr_rank (rows ! i) \<noteq> rank
    | Some i \<Rightarrow> lo \<le> i \<and> i < hi \<and> cr_rank (rows ! i) = rank)"
proof (induction rows rank lo hi rule: search_rank.induct)
  case (1 rows rank lo hi)
  let ?mid = "(lo + hi) div 2"
  have mid: "lo \<le> ?mid" "?mid < hi" if "lo < hi" using that by linarith+
  have ordered: "cr_rank (rows ! i) \<le> cr_rank (rows ! j)" if "i \<le> j" "j < length rows" for i j
    using sorted_nth_mono [OF 1(3), of i j] that by simp
  consider "hi \<le> lo" | (hit) "lo < hi" "cr_rank (rows ! ?mid) = rank" | (less) "lo < hi" "cr_rank (rows ! ?mid) < rank"
    | (more) "lo < hi" "rank < cr_rank (rows ! ?mid)" by linarith
  then show ?case
  proof cases
    case hit
    then show ?thesis using mid by (subst search_rank.simps) (simp add: Let_def)
  next
    case less
    have run: "search_rank rows rank lo hi = search_rank rows rank (?mid + 1) hi"
      using less by (subst search_rank.simps) (simp add: Let_def)
    have "cr_rank (rows ! i) \<noteq> rank" if "i \<le> ?mid" for i using ordered [of i ?mid] that less 1(4) mid by simp
    moreover have "case search_rank rows rank (?mid + 1) hi of
        None \<Rightarrow> \<forall>i. ?mid + 1 \<le> i \<and> i < hi \<longrightarrow> cr_rank (rows ! i) \<noteq> rank
      | Some i \<Rightarrow> ?mid + 1 \<le> i \<and> i < hi \<and> cr_rank (rows ! i) = rank"
      using 1(1) less 1(3,4) by simp
    ultimately show ?thesis unfolding run by (auto split: option.splits) (metis Suc_leI not_less_eq_eq)
  next
    case more
    have run: "search_rank rows rank lo hi = search_rank rows rank lo ?mid"
      using more by (subst search_rank.simps) (simp add: Let_def)
    have "cr_rank (rows ! i) \<noteq> rank" if "?mid \<le> i" "i < hi" for i using ordered [of ?mid i] that more 1(4) mid by simp
    moreover have "case search_rank rows rank lo ?mid of
        None \<Rightarrow> \<forall>i. lo \<le> i \<and> i < ?mid \<longrightarrow> cr_rank (rows ! i) \<noteq> rank
      | Some i \<Rightarrow> lo \<le> i \<and> i < ?mid \<and> cr_rank (rows ! i) = rank"
      using 1(2) more 1(3,4) mid by simp
    ultimately show ?thesis unfolding run by (auto split: option.splits) (metis not_less)
  qed (simp add: search_rank.simps)
qed

text \<open>A row is found by its rank exactly when the cache has one.\<close>

lemma cache_row_found:
  assumes "distinct (map cr_rank rows)"
  shows "cache_row (cache_new rows) rank = Some row \<longleftrightarrow> row \<in> set rows \<and> cr_rank row = rank"
proof -
  let ?c = "cache_new rows"
  have c: "sorted (map cr_rank ?c)" "set ?c = set rows" by (simp_all add: cache_new_def)
  have one: "r = r'" if "r \<in> set rows" "r' \<in> set rows" "cr_rank r = cr_rank r'" for r r'
    using assms that by (simp add: distinct_map inj_on_def)
  note f = search_rank_found [OF c(1) order.refl, where rank = rank and lo = 0]
  show ?thesis
  proof (cases "search_rank ?c rank 0 (length ?c)")
    case None
    then have "\<forall>i < length ?c. cr_rank (?c ! i) \<noteq> rank" using f by simp
    then have "\<forall>r \<in> set ?c. cr_rank r \<noteq> rank" by (metis in_set_conv_nth)
    then show ?thesis using None c(2) by (auto simp: cache_row_def)
  next
    case (Some i)
    then have i: "i < length ?c" "cr_rank (?c ! i) = rank" using f by simp_all
    then have "?c ! i \<in> set rows" using nth_mem [OF i(1)] c(2) by simp
    then show ?thesis using Some one i(2) by (auto simp: cache_row_def)
  qed
qed

text \<open>
  C39. The window never leaves the file and its two maps of rows are inverse.  Whatever resizing,
  seeking, centring and scrolling the list does, the window shows at most a hundred million rows that
  all exist; every row it shows has one place in the list and every place one row, places are 32-bit
  numbers; and centring on a row of the file, in a window that shows any, brings it into view.
\<close>

theorem row_window_maps_rows:
  assumes "window_reached rw"
  shows "rw_first rw + rw_visible rw \<le> rw_total rw \<and> rw_visible rw \<le> max_native_rows
    \<and> (\<forall>l row. local_to_absolute rw l = Some row \<longleftrightarrow> absolute_to_local rw row = Some l)
    \<and> (\<forall>row. (\<exists>l. absolute_to_local rw row = Some l) \<longleftrightarrow> rw_first rw \<le> row \<and> row < rw_first rw + rw_visible rw)
    \<and> (\<forall>row < rw_total rw. 0 < rw_visible rw \<longrightarrow> (\<exists>l. absolute_to_local (window_center_on row rw) row = Some l))"
proof -
  have ok: "window_ok rw" using window_reached_ok [OF assms] .
  then have b: "rw_first rw + rw_visible rw \<le> rw_total rw" "rw_visible rw \<le> max_native_rows" "rw_total rw \<le> u64_max"
    by (simp_all add: window_ok_def)
  have to_local: "absolute_to_local v row = (if rw_first v \<le> row \<and> row < rw_first v + rw_visible v then Some (int (row - rw_first v)) else None)"
    if "window_ok v" for v row
    using that by (auto simp: absolute_to_local_def window_ok_def checked_sub_def i32_try_def i32_min_def i32_max_def max_native_rows_def)
  have to_absolute: "local_to_absolute rw l = (if 0 \<le> l \<and> nat l < rw_visible rw then Some (rw_first rw + nat l) else None)" for l
    using b by (auto simp: local_to_absolute_def checked_add_def)
  have center: "\<exists>l. absolute_to_local (window_center_on row rw) row = Some l" if "row < rw_total rw" "0 < rw_visible rw" for row
  proof -
    let ?v = "window_center_on row rw"
    have v: "window_ok ?v" using window_seek_ok [OF ok] by (simp add: window_center_on_def Let_def)
    have f: "rw_first ?v = min (row - rw_visible rw div 2) (rw_total rw - rw_visible rw)" "rw_visible ?v = rw_visible rw"
      using that by (simp_all add: window_center_on_def window_seek_def window_max_first_def Let_def min_def)
    have "rw_first ?v \<le> row" "row < rw_first ?v + rw_visible ?v" using that b f by (auto simp: min_def)
    then show ?thesis using to_local [OF v, of row] by simp
  qed
  show ?thesis using b center by (auto simp: to_local [OF ok] to_absolute split: if_splits)
qed

lemma row_window_maps_rows_witness:
  "window_reached (window_center_on 5000000000 (window_new 6000000000 4000000000))
   \<and> absolute_to_local (window_center_on 5000000000 (window_new 6000000000 4000000000)) 5000000000 = Some 50000000
   \<and> local_to_absolute (window_center_on 5000000000 (window_new 6000000000 4000000000)) 50000000 = Some 5000000000"
proof -
  let ?w = "window_center_on 5000000000 (window_new 6000000000 4000000000)"
  have r: "window_reached ?w" by (intro window_reached.intros) simp
  have l: "absolute_to_local ?w 5000000000 = Some 50000000"
    by (simp add: window_center_on_def window_new_def window_seek_def window_max_first_def absolute_to_local_def checked_sub_def
        i32_try_def i32_min_def i32_max_def max_native_rows_def)
  from row_window_maps_rows [OF r] l r show ?thesis by blast
qed

end
