(* ===== verification/Scratch_Files.thy ===== *)
theory Scratch_Files imports Scratch_Recovery begin

text \<open>
  The directory and the end of a scratch file (\<open>canonical_scratch_directory\<close>, \<open>ScratchHitStore::create\<close>
  with its header, and \<open>Drop for ScratchHitStore\<close> in \<open>crates/leanrows-core/src/query.rs\<close>).  A path is the
  list of its components; what the file system answers is the record \<open>scratch_fs\<close>.  The lemmas show that
  dropping a store asks for the removal of no file but its own, and of that one where nothing on its path
  was replaced.
\<close>

type_synonym file_path = "bytes list"

record path_answer =
  pa_directory :: bool
  pa_file :: bool
  pa_reparse :: bool

record scratch_fs =
  fs_metadata :: "file_path \<Rightarrow> io_error + path_answer"
  fs_canonicalize :: "file_path \<Rightarrow> io_error + file_path"
  fs_absolute :: "file_path \<Rightarrow> bool"

definition path_parent :: "file_path \<Rightarrow> file_path option" where
  "path_parent p = (if p = [] then None else Some (butlast p))"

definition path_file_name :: "file_path \<Rightarrow> bytes option" where
  "path_file_name p = (if p = [] then None else Some (last p))"

definition plain_directory :: "path_answer \<Rightarrow> bool" where
  "plain_directory md \<longleftrightarrow> pa_directory md \<and> \<not> pa_reparse md"

definition canonical_scratch_directory :: "scratch_fs \<Rightarrow> file_path \<Rightarrow> query_error + file_path" where
  "canonical_scratch_directory fs directory =
     (case fs_metadata fs directory of
        Inl e \<Rightarrow> Inl (QIo e)
      | Inr md \<Rightarrow>
          if \<not> plain_directory md then Inl UnsafeScratchDirectory
          else
            (case fs_canonicalize fs directory of
               Inl e \<Rightarrow> Inl (QIo e)
             | Inr canonical \<Rightarrow>
                 (case fs_metadata fs canonical of
                    Inl e \<Rightarrow> Inl (QIo e)
                  | Inr md' \<Rightarrow>
                      if \<not> fs_absolute fs canonical \<or> \<not> plain_directory md' then Inl UnsafeScratchDirectory
                      else Inr canonical)))"

text \<open>
  A store remembers the canonical directory and its path.  A header that cannot be written drops the
  store again, and the file with it.
\<close>

record scratch_file =
  sf_store :: scratch_store
  sf_directory :: file_path
  sf_path :: file_path

definition scratch_file_create ::
    "scratch_fs \<Rightarrow> (nat \<Rightarrow> bytes) \<Rightarrow> (file_path \<Rightarrow> open_outcome) \<Rightarrow> (bytes \<Rightarrow> io_error option) \<Rightarrow> file_path \<Rightarrow> nat
     \<Rightarrow> query_error + scratch_file" where
  "scratch_file_create fs owners open_new write_header directory quota =
     (case canonical_scratch_directory fs directory of
        Inl e \<Rightarrow> Inl e
      | Inr dir \<Rightarrow>
          (case scratch_create owners (\<lambda>name. open_new (dir @ [name])) quota of
             Inl e \<Rightarrow> Inl e
           | Inr store \<Rightarrow>
               (case write_header (scratch_header (sc_owner store)) of
                  Some e \<Rightarrow> Inl (QIo e)
                | None \<Rightarrow> Inr \<lparr>sf_store = store, sf_directory = dir,
                    sf_path = dir @ [scratch_file_name (sc_owner store)]\<rparr>)))"

text \<open>The path whose removal the drop asks for; its own errors are dropped.\<close>

definition scratch_drop :: "scratch_fs \<Rightarrow> scratch_file \<Rightarrow> file_path option" where
  "scratch_drop fs f =
     (if path_parent (sf_path f) \<noteq> Some (sf_directory f) then None
      else if Option.bind (path_file_name (sf_path f)) parse_owner_from_name \<noteq> Some (sc_owner (sf_store f)) then None
      else
        (case fs_metadata fs (sf_directory f) of
           Inl e \<Rightarrow> None
         | Inr md \<Rightarrow>
             if \<not> plain_directory md \<or> fs_canonicalize fs (sf_directory f) \<noteq> Inr (sf_directory f) then None
             else
               (case fs_metadata fs (sf_path f) of
                  Inl e \<Rightarrow> None
                | Inr md' \<Rightarrow>
                    if \<not> pa_file md' \<or> pa_reparse md' then None
                    else
                      (case fs_canonicalize fs (sf_path f) of
                         Inl e \<Rightarrow> None
                       | Inr canonical \<Rightarrow>
                           if path_parent canonical = Some (sf_directory f) then Some canonical else None))))"

lemma canonical_directory_plain:
  "canonical_scratch_directory fs d = Inr dir \<Longrightarrow>
     fs_canonicalize fs d = Inr dir \<and> fs_absolute fs dir \<and> (\<exists>md. fs_metadata fs dir = Inr md \<and> plain_directory md)"
  by (auto simp: canonical_scratch_directory_def split: sum.splits if_splits)

lemma create_attempts_owner:
  "create_attempts owners open_new k n = Inr owner \<Longrightarrow>
     \<exists>j < k + n. owner = owners j \<and> open_new (scratch_file_name owner) = Opened"
proof (induction owners open_new k n rule: create_attempts.induct)
  case (2 owners open_new k n)
  show ?case
  proof (cases "open_new (scratch_file_name (owners k))")
    case AlreadyExists
    with 2 show ?thesis by auto
  qed (use 2(2) in \<open>auto intro: exI [of _ k]\<close>)
qed simp

text \<open>A created store has its own name in a plain canonical directory.\<close>

lemma scratch_file_create_own:
  assumes "scratch_file_create fs owners open_new write_header d quota = Inr f"
  shows "sf_path f = sf_directory f @ [scratch_file_name (sc_owner (sf_store f))]"
    and "open_new (sf_path f) = Opened" and "sc_entries (sf_store f) = 0"
    and "\<exists>md. fs_metadata fs (sf_directory f) = Inr md \<and> plain_directory md"
proof -
  from assms obtain dir owner where a: "canonical_scratch_directory fs d = Inr dir"
      "create_attempts owners (\<lambda>name. open_new (dir @ [name])) 0 64 = Inr owner"
    and f: "sf_directory f = dir" "sf_path f = dir @ [scratch_file_name owner]" "sc_owner (sf_store f) = owner"
      "sc_entries (sf_store f) = 0"
    by (auto simp: scratch_file_create_def scratch_create_def map_sum_def split: sum.splits option.splits)
  from canonical_directory_plain [OF a(1)] create_attempts_owner [OF a(2)] f
  show "sf_path f = sf_directory f @ [scratch_file_name (sc_owner (sf_store f))]"
    and "open_new (sf_path f) = Opened" and "sc_entries (sf_store f) = 0"
    and "\<exists>md. fs_metadata fs (sf_directory f) = Inr md \<and> plain_directory md" by auto
qed

text \<open>The drop touches only a plain file with the store's own name, directly in the store's directory.\<close>

lemma scratch_drop_own:
  assumes "scratch_drop fs f = Some q"
  shows "sf_path f = sf_directory f @ [scratch_file_name (sc_owner (sf_store f))]"
    and "fs_canonicalize fs (sf_path f) = Inr q" and "butlast q = sf_directory f"
    and "\<exists>md. fs_metadata fs (sf_path f) = Inr md \<and> pa_file md \<and> \<not> pa_reparse md"
proof -
  from assms have p: "sf_path f \<noteq> []" "butlast (sf_path f) = sf_directory f"
    "parse_owner_from_name (last (sf_path f)) = Some (sc_owner (sf_store f))"
    by (auto simp: scratch_drop_def path_parent_def path_file_name_def split: if_splits)
  then show "sf_path f = sf_directory f @ [scratch_file_name (sc_owner (sf_store f))]"
    using parse_owner_exact [OF p(3)] append_butlast_last_id [OF p(1)] by simp
qed (use assms in \<open>auto simp: scratch_drop_def path_parent_def split: sum.splits if_splits\<close>)

text \<open>While nothing on its path is replaced, a created store removes its file when it is dropped.\<close>

lemma scratch_drop_removes:
  assumes "scratch_file_create fs owners open_new write_header d quota = Inr f" "length (sc_owner (sf_store f)) = 16"
    and "fs_canonicalize fs' (sf_directory f) = Inr (sf_directory f)" "fs_canonicalize fs' (sf_path f) = Inr (sf_path f)"
    and "fs_metadata fs' (sf_directory f) = fs_metadata fs (sf_directory f)"
    and "fs_metadata fs' (sf_path f) = Inr md" "pa_file md" "\<not> pa_reparse md"
  shows "scratch_drop fs' f = Some (sf_path f)"
proof -
  note own = scratch_file_create_own [OF assms(1)]
  obtain md' where "fs_metadata fs' (sf_directory f) = Inr md'" "plain_directory md'" using own(4) assms(5) by auto
  with assms(2-4,6-8) own(1) parse_scratch_name [OF assms(2)] show ?thesis
    by (simp add: scratch_drop_def path_parent_def path_file_name_def)
qed

end
