(* ===== verification/Sort_Recovery.thy ===== *)
theory Sort_Recovery imports Sort_Ledger begin

text \<open>
  Recovery of stale sort directories (\<open>recover_stale_sort_files\<close> and \<open>remove_stale_owner\<close> in
  \<open>crates/leanrows-core/src/sort/storage.rs\<close>, as built for Windows: elsewhere the recovery removes
  nothing).  A directory is the list of entries its enumeration gives, each with what the file system
  answers about it; what was removed is recorded beside the result.  The lemmas show that only inactive
  owner directories are touched and that the lock file of one is removed last.
\<close>

record owner_child =
  oc_name :: bytes
  oc_directory :: "io_error + bool"
  oc_remove_dir_all :: "io_error option"
  oc_remove_file :: "io_error option"

text \<open>The name is the lossy text of the file name, and the lock opens unless another program holds it.\<close>

record sort_entry =
  so_name :: bytes
  so_metadata :: "path_metadata option"
  so_lock_opens :: bool
  so_children :: "io_error + (io_error + owner_child) list"
  so_remove_lock :: "io_error option"
  so_remove_dir :: "io_error option"

definition owner_lock_name :: bytes where
  "owner_lock_name = ascii ''owner.lock''"

definition ordinary_metadata :: "path_metadata option \<Rightarrow> bool" where
  "ordinary_metadata m =
     (case m of
        None \<Rightarrow> False
      | Some md \<Rightarrow> md_directory md \<and> \<not> md_symlink md \<and> and (md_attributes md) 0x400 = 0)"

text \<open>What one folder lost: the children removed, the lock file, and the folder itself.\<close>

record folder_removal =
  fr_children :: "bytes list"
  fr_lock :: bool
  fr_folder :: bool

fun remove_children :: "(io_error + owner_child) list \<Rightarrow> bytes list \<Rightarrow> io_error option \<times> bytes list" where
  "remove_children [] gone = (None, gone)"
| "remove_children (Inl e # cs) gone = (Some e, gone)"
| "remove_children (Inr c # cs) gone =
     (if oc_name c = owner_lock_name then remove_children cs gone
      else
        (case oc_directory c of
           Inl e \<Rightarrow> (Some e, gone)
         | Inr is_dir \<Rightarrow>
             (case (if is_dir then oc_remove_dir_all c else oc_remove_file c) of
                Some e \<Rightarrow> (Some e, gone)
              | None \<Rightarrow> remove_children cs (gone @ [oc_name c]))))"

definition remove_stale_owner :: "sort_entry \<Rightarrow> io_error option \<times> folder_removal" where
  "remove_stale_owner entry =
     (case so_children entry of
        Inl e \<Rightarrow> (Some e, \<lparr>fr_children = [], fr_lock = False, fr_folder = False\<rparr>)
      | Inr cs \<Rightarrow>
          (case remove_children cs [] of
             (Some e, gone) \<Rightarrow> (Some e, \<lparr>fr_children = gone, fr_lock = False, fr_folder = False\<rparr>)
           | (None, gone) \<Rightarrow>
               (case so_remove_lock entry of
                  Some e \<Rightarrow> (Some e, \<lparr>fr_children = gone, fr_lock = False, fr_folder = False\<rparr>)
                | None \<Rightarrow> (so_remove_dir entry,
                    \<lparr>fr_children = gone, fr_lock = True, fr_folder = (so_remove_dir entry = None)\<rparr>))))"

fun recover_sort_entries ::
    "(io_error + sort_entry) list \<Rightarrow> nat \<Rightarrow> (sort_error + nat) \<times> (bytes \<times> folder_removal) list" where
  "recover_sort_entries [] removed = (Inr removed, [])"
| "recover_sort_entries (Inl e # es) removed = (Inl (SortIo e), [])"
| "recover_sort_entries (Inr entry # es) removed =
     (if take (length sort_name_prefix) (so_name entry) \<noteq> sort_name_prefix \<or> \<not> ordinary_metadata (so_metadata entry)
        \<or> \<not> so_lock_opens entry
      then recover_sort_entries es removed
      else
        (case remove_stale_owner entry of
           (err, removal) \<Rightarrow>
             map_prod id (Cons (so_name entry, removal))
               (recover_sort_entries es (if err = None then removed + 1 else removed))))"

definition recover_stale_sort_files ::
    "path_metadata option \<Rightarrow> io_error + (io_error + sort_entry) list
     \<Rightarrow> (sort_error + nat) \<times> (bytes \<times> folder_removal) list" where
  "recover_stale_sort_files directory listing =
     (if \<not> ordinary_metadata directory then (Inl InvalidScratch, [])
      else
        (case listing of
           Inl e \<Rightarrow> (Inl (SortIo e), [])
         | Inr es \<Rightarrow> recover_sort_entries es 0))"

text \<open>The check of an entry is the one the creation of an owner makes of its directory.\<close>

lemma ordinary_metadata_directory:
  "fst (ordinary_directory dk p w) = ordinary_metadata (fst (sd_path_metadata dk w p))"
  by (auto simp: ordinary_directory_def ordinary_metadata_def split: prod.splits option.splits)

lemma remove_children_all:
  "remove_children cs gone = (None, gone') \<Longrightarrow>
     (\<forall>c \<in> set cs. \<not> isl c) \<and> gone' = gone @ filter (\<lambda>n. n \<noteq> owner_lock_name) (map (oc_name \<circ> projr) cs)"
proof (induction cs gone rule: remove_children.induct)
  case (3 c cs gone)
  then show ?case by (cases "oc_name c = owner_lock_name") (auto split: sum.splits option.splits if_splits)
qed auto

text \<open>The lock goes last: once it is removed nothing else of the folder is left to remove.\<close>

lemma lock_removed_last:
  assumes "remove_stale_owner entry = (err, removal)" "fr_lock removal"
  shows "\<exists>cs. so_children entry = Inr (map Inr cs)
    \<and> fr_children removal = filter (\<lambda>n. n \<noteq> owner_lock_name) (map oc_name cs)"
proof -
  from assms obtain cs where cs: "so_children entry = Inr cs" "remove_children cs [] = (None, fr_children removal)"
    by (auto simp: remove_stale_owner_def split: sum.splits prod.splits option.splits)
  note all = remove_children_all [OF cs(2)]
  then have "cs = map Inr (map projr cs)" by (simp add: map_idI)
  with all cs(1) show ?thesis by (metis append_Nil map_map)
qed

text \<open>Only inactive owner directories are touched, and the count is of the folders that are gone.\<close>

definition stale_owner :: "sort_entry \<Rightarrow> bool" where
  "stale_owner entry \<longleftrightarrow> (\<exists>rest. so_name entry = sort_name_prefix @ rest)
     \<and> ordinary_metadata (so_metadata entry) \<and> so_lock_opens entry"

lemma stale_owner_iff:
  "stale_owner entry \<longleftrightarrow> take (length sort_name_prefix) (so_name entry) = sort_name_prefix
     \<and> ordinary_metadata (so_metadata entry) \<and> so_lock_opens entry"
  unfolding stale_owner_def by (metis append_eq_conv_conj append_take_drop_id)

lemma removed_folder: "remove_stale_owner entry = (err, removal) \<Longrightarrow> fr_folder removal \<longleftrightarrow> err = None"
  by (auto simp: remove_stale_owner_def split: sum.splits prod.splits option.splits)

lemma recover_sort_entries_touched:
  "recover_sort_entries es n = (r, touched) \<Longrightarrow>
     (\<forall>x \<in> set touched. \<exists>entry. Inr entry \<in> set es \<and> stale_owner entry
        \<and> x = (so_name entry, snd (remove_stale_owner entry)))
   \<and> (\<forall>m. r = Inr m \<longrightarrow> m = n + length (filter (fr_folder \<circ> snd) touched))"
proof (induction es n arbitrary: touched rule: recover_sort_entries.induct)
  case (3 entry es n)
  show ?case
  proof (cases "stale_owner entry")
    case False
    then have "recover_sort_entries es n = (r, touched)" using 3(3) by (auto simp: stale_owner_iff split: if_splits)
    from 3(1) [OF _ this] False show ?thesis by (fastforce simp: stale_owner_iff)
  next
    case True
    obtain err removal where ro: "remove_stale_owner entry = (err, removal)" by fastforce
    with True 3(3) obtain ts where ts: "touched = (so_name entry, removal) # ts"
      "recover_sort_entries es (if err = None then n + 1 else n) = (r, ts)"
      by (auto simp: stale_owner_iff map_prod_def split: prod.splits if_splits)
    have "\<not> (take (length sort_name_prefix) (so_name entry) \<noteq> sort_name_prefix
        \<or> \<not> ordinary_metadata (so_metadata entry) \<or> \<not> so_lock_opens entry)"
      using True by (simp add: stale_owner_iff)
    from 3(2) [OF this ro [symmetric] ts(2)] show ?thesis
      using True ro removed_folder [OF ro] unfolding ts(1) by auto
  qed
qed auto

end
