(* ===== verification/Xml_Tokens.thy ===== *)
theory Xml_Tokens imports Sort_Ledger Literal_Search begin

text \<open>
  The tokenizer for the XML parts of a workbook (\<open>xlsx/xml.rs\<close>): a machine that takes a byte at a time
  and reports start tags, end tags and text, with the entities and attributes its caller asks for.
  Strings are their bytes.  After an error the caller gives the part up, so a failing call returns no
  tokenizer.  The count of text bytes is \<open>u64\<close> and wraps, as it does in the release build.
\<close>

section \<open>Errors\<close>

datatype xlsx_error =
    XlNotZip
  | XlLegacyOrEncrypted
  | XlTruncated
  | XlZip64Unsupported
  | XlEncryptedEntry bytes
  | XlUnsupportedCompression bytes "16 word"
  | XlTooManyEntries nat
  | XlDuplicateEntry bytes
  | XlMalformedZip string
  | XlEntryTooLarge bytes nat
  | XlCompressionRatio bytes nat
  | XlSizeMismatch bytes
  | XlChecksumMismatch bytes
  | XlCorruptData bytes
  | XlMissingPart bytes
  | XlExternalRelationship bytes
  | XlNotWorksheet
  | XlNoWorksheet
  | XlSheetOutOfRange
  | XlDoctype bytes
  | XlUnsupportedEncoding bytes
  | XlMalformedXml bytes string
  | XlTooManySharedStrings nat
  | XlSharedStringsTooLarge nat
  | XlTooManyStyles nat
  | XlTooManySheets nat
  | XlBadRowNumber nat
  | XlBadCellReference nat
  | XlSharedStringIndex nat
  | XlStyleIndex nat
  | XlIo io_error
  | XlAllocationFailed
  | XlCancelled

section \<open>Names and entities\<close>

definition xml_space :: "u8 \<Rightarrow> bool" where
  "xml_space b \<longleftrightarrow> b = 0x20 \<or> b = 0x09 \<or> b = 0x0D \<or> b = 0x0A"

text \<open>What follows the last colon.\<close>

fun xml_local :: "bytes \<Rightarrow> bytes" where
  "xml_local [] = []"
| "xml_local (b # bs) = (if 0x3A \<in> set bs then xml_local bs else if b = 0x3A then bs else b # bs)"

text \<open>\<open>char::to_digit\<close> for the radices 10 and 16, \<open>char::from_u32\<close> and \<open>char::encode_utf8\<close>.\<close>

definition to_digit :: "u8 \<Rightarrow> nat \<Rightarrow> nat option" where
  "to_digit b radix =
     (let d = (if 0x30 \<le> b \<and> b \<le> 0x39 then unat b - 0x30
               else if 0x61 \<le> b \<and> b \<le> 0x7A then unat b - 0x61 + 10
               else if 0x41 \<le> b \<and> b \<le> 0x5A then unat b - 0x41 + 10
               else radix)
      in if d < radix then Some d else None)"

definition scalar_value :: "nat \<Rightarrow> bool" where
  "scalar_value n \<longleftrightarrow> n < 0xD800 \<or> 0xE000 \<le> n \<and> n \<le> 0x10FFFF"

definition encode_utf8 :: "nat \<Rightarrow> bytes" where
  "encode_utf8 n =
     (if n < 0x80 then [word_of_nat n]
      else if n < 0x800 then [word_of_nat (0xC0 + n div 64), word_of_nat (0x80 + n mod 64)]
      else if n < 0x10000
        then [word_of_nat (0xE0 + n div 4096), word_of_nat (0x80 + n div 64 mod 64),
              word_of_nat (0x80 + n mod 64)]
      else [word_of_nat (0xF0 + n div 262144), word_of_nat (0x80 + n div 4096 mod 64),
            word_of_nat (0x80 + n div 64 mod 64), word_of_nat (0x80 + n mod 64)])"

text \<open>The value of a character reference, a \<open>u32\<close> with checked arithmetic.\<close>

fun reference_value :: "nat \<Rightarrow> nat \<Rightarrow> bytes \<Rightarrow> nat option" where
  "reference_value radix v [] = Some v"
| "reference_value radix v (b # bs) =
     (case to_digit b radix of
        None \<Rightarrow> None
      | Some d \<Rightarrow> if v * radix + d \<le> 0xFFFFFFFF then reference_value radix (v * radix + d) bs else None)"

definition decode_entity :: "bytes \<Rightarrow> string + bytes" where
  "decode_entity body =
     (if body = ascii ''lt'' then Inr [0x3C]
      else if body = ascii ''gt'' then Inr [0x3E]
      else if body = ascii ''amp'' then Inr [0x26]
      else if body = ascii ''quot'' then Inr [0x22]
      else if body = ascii ''apos'' then Inr [0x27]
      else
        (case body of
           [] \<Rightarrow> Inl ''undeclared entity reference''
         | b # digits \<Rightarrow>
             if b \<noteq> 0x23 then Inl ''undeclared entity reference''
             else
               let (ds, radix) =
                 (case digits of x # hex \<Rightarrow> if x = 0x78 then (hex, 16) else (digits, 10) | [] \<Rightarrow> (digits, 10))
               in if ds = [] then Inl ''empty character reference''
                  else (case reference_value radix 0 ds of
                          None \<Rightarrow> Inl ''bad character reference''
                        | Some v \<Rightarrow>
                            if scalar_value v \<and> v \<noteq> 0 then Inr (encode_utf8 v)
                            else Inl ''bad character reference'')))"

function decode_entities :: "bytes \<Rightarrow> string + bytes" where
  "decode_entities [] = Inr []"
| "decode_entities (b # bs) =
     (if b = 0x26 then
        (let body = takeWhile (\<lambda>c. c \<noteq> 0x3B) bs; rest = drop (length body) bs
         in if rest = [] then Inl ''unterminated entity reference''
            else (case decode_entity body of
                    Inl e \<Rightarrow> Inl e
                  | Inr cs \<Rightarrow> (case decode_entities (tl rest) of Inl e \<Rightarrow> Inl e | Inr out \<Rightarrow> Inr (cs @ out))))
      else (case decode_entities bs of Inl e \<Rightarrow> Inl e | Inr out \<Rightarrow> Inr (b # out)))"
  by pat_completeness auto
termination
  by (relation "measure length") auto

section \<open>The tokenizer\<close>

datatype xml_event = XmlStart bool | XmlEnd | XmlText

datatype xml_state =
    XsStart
  | XsText
  | XsTextEntity
  | XsTagOpen
  | XsTag bool u8
  | XsBang
  | XsComment nat
  | XsCData nat
  | XsInstruction bool

abbreviation max_entity_bytes :: nat where "max_entity_bytes \<equiv> 12"
abbreviation max_bang_bytes :: nat where "max_bang_bytes \<equiv> 8"
abbreviation max_instruction_bytes :: nat where "max_instruction_bytes \<equiv> 256"

record xml_tokenizer =
  xt_part :: bytes
  xt_state :: xml_state
  xt_tag :: bytes
  xt_max_tag_bytes :: nat
  xt_entity :: bytes
  xt_instruction :: bytes
  xt_collect :: bool
  xt_text :: bytes
  xt_text_limit :: nat
  xt_text_total :: "64 word"
  xt_text_truncated :: bool
  xt_pending_cr :: bool
  xt_have_text :: bool

definition tokenizer_new :: "bytes \<Rightarrow> nat \<Rightarrow> nat \<Rightarrow> xml_tokenizer" where
  "tokenizer_new part max_tag_bytes text_limit =
     \<lparr>xt_part = part, xt_state = XsStart, xt_tag = [], xt_max_tag_bytes = max_tag_bytes, xt_entity = [],
      xt_instruction = [], xt_collect = False, xt_text = [], xt_text_limit = text_limit,
      xt_text_total = 0, xt_text_truncated = False, xt_pending_cr = False, xt_have_text = False\<rparr>"

definition tokenizer_checkpoint :: "xml_tokenizer \<Rightarrow> xml_tokenizer" where
  "tokenizer_checkpoint x =
     \<lparr>xt_part = xt_part x, xt_state = xt_state x, xt_tag = [], xt_max_tag_bytes = xt_max_tag_bytes x,
      xt_entity = xt_entity x, xt_instruction = [], xt_collect = False, xt_text = [],
      xt_text_limit = xt_text_limit x, xt_text_total = 0, xt_text_truncated = False,
      xt_pending_cr = False, xt_have_text = False\<rparr>"

definition collect_text :: "bool \<Rightarrow> xml_tokenizer \<Rightarrow> xml_tokenizer" where
  "collect_text c x =
     x\<lparr>xt_collect := c, xt_text := [], xt_text_total := 0, xt_text_truncated := False,
       xt_have_text := False, xt_pending_cr := False\<rparr>"

abbreviation malformed_xml :: "xml_tokenizer \<Rightarrow> string \<Rightarrow> xlsx_error" where
  "malformed_xml x reason \<equiv> XlMalformedXml (xt_part x) reason"

subsection \<open>Names and attributes\<close>

definition tag_body :: "xml_tokenizer \<Rightarrow> bytes" where
  "tag_body x =
     (let body = (case xt_tag x of b # bs \<Rightarrow> if b = 0x2F then bs else xt_tag x | [] \<Rightarrow> [])
      in if body \<noteq> [] \<and> last body = 0x2F then butlast body else body)"

definition xml_name :: "xml_tokenizer \<Rightarrow> bytes" where
  "xml_name x = xml_local (takeWhile (\<lambda>b. \<not> (xml_space b \<or> b = 0x2F)) (tag_body x))"

lemma length_dropWhile_bound: "length (dropWhile P xs) \<le> length xs"
  by (induction xs) auto

lemma attribute_shorter:
  assumes "rest = dropWhile P body" "equals = dropWhile Q (drop j rest)" "quoted = dropWhile R (tl equals)"
    and "closing = drop k (tl quoted)" "closing \<noteq> []"
  shows "length (tl closing) < length body"
proof -
  have "length (tl closing) < length closing"
    using assms(5) by (cases closing) simp_all
  also have "\<dots> \<le> length quoted"
    by (simp add: assms(4))
  also have "\<dots> \<le> length equals"
    by (simp only: assms(3)) (rule order.trans [OF length_dropWhile_bound], simp)
  also have "\<dots> \<le> length rest"
    by (simp only: assms(2)) (rule order.trans [OF length_dropWhile_bound], simp)
  also have "\<dots> \<le> length body"
    by (simp only: assms(1) length_dropWhile_bound)
  finally show ?thesis .
qed

text \<open>
  The loop of \<open>attribute\<close> over what is left of the body.  \<open>None\<close> is \<open>Ok(false)\<close>.
\<close>

function attribute_from ::
    "bytes \<Rightarrow> bytes \<Rightarrow> bool \<Rightarrow> bytes \<Rightarrow> xlsx_error + bytes option" where
  "attribute_from part name prefixed body =
     (let rest = dropWhile xml_space body in
      if rest = [] then Inr None
      else
        let qualified = takeWhile (\<lambda>b. b \<noteq> 0x3D \<and> \<not> xml_space b) rest;
            equals = dropWhile xml_space (drop (length qualified) rest)
        in if equals = [] \<or> hd equals \<noteq> 0x3D then Inl (XlMalformedXml part ''attribute without a value'')
           else
             let quoted = dropWhile xml_space (tl equals)
             in if quoted = [] then Inl (XlMalformedXml part ''attribute without a value'')
                else if hd quoted \<noteq> 0x22 \<and> hd quoted \<noteq> 0x27
                  then Inl (XlMalformedXml part ''attribute value is not quoted'')
                else
                  let value = takeWhile (\<lambda>b. b \<noteq> hd quoted) (tl quoted);
                      closing = drop (length value) (tl quoted)
                  in if closing = [] then Inl (XlMalformedXml part ''attribute value is not closed'')
                     else if xml_local qualified = name \<and> (0x3A \<in> set qualified) = prefixed
                       then (case decode_entities value of
                               Inl reason \<Rightarrow> Inl (XlMalformedXml part reason)
                             | Inr out \<Rightarrow> Inr (Some out))
                     else attribute_from part name prefixed (tl closing))"
  by pat_completeness auto
termination
  by (relation "measure (\<lambda>(_, _, _, body). length body)") 
    (rule wf_measure, unfold in_measure prod.case, rule attribute_shorter)

definition xml_attribute :: "bytes \<Rightarrow> bool \<Rightarrow> xml_tokenizer \<Rightarrow> xlsx_error + bytes option" where
  "xml_attribute name prefixed x =
     attribute_from (xt_part x) name prefixed (dropWhile (\<lambda>b. \<not> xml_space b) (tag_body x))"

subsection \<open>Collecting\<close>

definition push_text :: "u8 \<Rightarrow> xml_tokenizer \<Rightarrow> xml_tokenizer" where
  "push_text b x =
     (if \<not> xt_collect x then x
      else
        let x1 = x\<lparr>xt_have_text := True, xt_text_total := xt_text_total x + 1\<rparr>
        in if length (xt_text x) < xt_text_limit x then x1\<lparr>xt_text := xt_text x @ [b]\<rparr>
           else x1\<lparr>xt_text_truncated := True\<rparr>)"

definition push_raw_text :: "u8 \<Rightarrow> xml_tokenizer \<Rightarrow> xml_tokenizer" where
  "push_raw_text b x =
     (let x1 = (if xt_pending_cr x then push_text 0x0A (x\<lparr>xt_pending_cr := False\<rparr>) else x)
      in if xt_pending_cr x \<and> b = 0x0A then x1
         else if b = 0x0D then x1\<lparr>xt_pending_cr := True\<rparr>
         else push_text b x1)"

definition flush_cr :: "xml_tokenizer \<Rightarrow> xml_tokenizer" where
  "flush_cr x = (if xt_pending_cr x then push_text 0x0A (x\<lparr>xt_pending_cr := False\<rparr>) else x)"

definition push_tag :: "u8 \<Rightarrow> xml_tokenizer \<Rightarrow> xlsx_error + xml_tokenizer" where
  "push_tag b x =
     (if xt_max_tag_bytes x \<le> length (xt_tag x) then Inl (malformed_xml x ''a tag is longer than the limit'')
      else Inr (x\<lparr>xt_tag := xt_tag x @ [b]\<rparr>))"

definition push_instruction :: "u8 \<Rightarrow> xml_tokenizer \<Rightarrow> xml_tokenizer" where
  "push_instruction b x =
     (if length (xt_instruction x) < max_instruction_bytes
      then x\<lparr>xt_instruction := xt_instruction x @ [b]\<rparr> else x)"

text \<open>What follows the first occurrence of \<open>needle\<close>.\<close>

fun after_first :: "bytes \<Rightarrow> bytes \<Rightarrow> bytes option" where
  "after_first needle hay =
     (if take (length needle) hay = needle then Some (drop (length needle) hay)
      else case hay of [] \<Rightarrow> None | _ # rest \<Rightarrow> after_first needle rest)"

declare after_first.simps [simp del]

definition eq_ignore_case :: "bytes \<Rightarrow> bytes \<Rightarrow> bool" where
  "eq_ignore_case a b \<longleftrightarrow> map to_ascii_lowercase a = map to_ascii_lowercase b"

definition check_declaration :: "xml_tokenizer \<Rightarrow> xlsx_error + unit" where
  "check_declaration x =
     (if take 3 (xt_instruction x) \<noteq> ascii ''xml'' then Inr ()
      else
        let rest = drop 3 (xt_instruction x)
        in if rest = [] \<or> \<not> xml_space (hd rest) then Inr ()
           else
             (case after_first (ascii ''encoding'') rest of
                None \<Rightarrow> Inr ()
              | Some after \<Rightarrow>
                  let value = takeWhile (\<lambda>b. b \<noteq> 0x22 \<and> b \<noteq> 0x27)
                                (drop 1 (dropWhile (\<lambda>b. xml_space b \<or> b = 0x3D) after))
                  in if eq_ignore_case value (ascii ''utf-8'') \<or> eq_ignore_case value (ascii ''utf8'')
                     then Inr () else Inl (XlUnsupportedEncoding (xt_part x))))"

subsection \<open>One byte\<close>

text \<open>
  The branches of the state machine.  A step returns the tokenizer and the token that it completes.
\<close>

type_synonym xml_step = "xlsx_error + xml_tokenizer \<times> xml_event option"

definition text_byte :: "u8 \<Rightarrow> xml_tokenizer \<Rightarrow> xml_step" where
  "text_byte b x =
     (if b = 0x3C then
        (let x1 = (flush_cr x)\<lparr>xt_state := XsTagOpen, xt_tag := []\<rparr>
         in Inr (x1, if xt_collect x1 \<and> xt_have_text x1 then Some XmlText else None))
      else if b = 0x26 then Inr ((flush_cr x)\<lparr>xt_entity := [], xt_state := XsTextEntity\<rparr>, None)
      else Inr (push_raw_text b x, None))"

definition start_byte :: "u8 \<Rightarrow> xml_tokenizer \<Rightarrow> xml_step" where
  "start_byte b x =
     (if length (xt_instruction x) < 3 \<and> (b = 0xEF \<or> xt_instruction x \<noteq> []) then
        (let mark = xt_instruction x @ [b]
         in if length mark = 3 then
              (if mark \<noteq> [0xEF, 0xBB, 0xBF] then Inl (malformed_xml x ''bad byte order mark'')
               else Inr (x\<lparr>xt_instruction := [], xt_state := XsText\<rparr>, None))
            else Inr (x\<lparr>xt_instruction := mark\<rparr>, None))
      else if b = 0xFE \<or> b = 0xFF \<or> b = 0 then Inl (XlUnsupportedEncoding (xt_part x))
      else text_byte b (x\<lparr>xt_state := XsText\<rparr>))"

definition entity_byte :: "u8 \<Rightarrow> xml_tokenizer \<Rightarrow> xml_step" where
  "entity_byte b x =
     (if b = 0x3B then
        (case decode_entity (xt_entity x) of
           Inl reason \<Rightarrow> Inl (malformed_xml x reason)
         | Inr decoded \<Rightarrow> Inr ((fold push_text decoded x)\<lparr>xt_state := XsText\<rparr>, None))
      else if max_entity_bytes \<le> length (xt_entity x)
        then Inl (malformed_xml x ''an entity reference is too long'')
      else Inr (x\<lparr>xt_entity := xt_entity x @ [b]\<rparr>, None))"

definition tag_open_byte :: "u8 \<Rightarrow> xml_tokenizer \<Rightarrow> xml_step" where
  "tag_open_byte b x =
     (if b = 0x2F then Inr (x\<lparr>xt_tag := xt_tag x @ [0x2F], xt_state := XsTag True 0\<rparr>, None)
      else if b = 0x21 then Inr (x\<lparr>xt_instruction := [], xt_state := XsBang\<rparr>, None)
      else if b = 0x3F then Inr (x\<lparr>xt_instruction := [], xt_state := XsInstruction False\<rparr>, None)
      else if xml_space b \<or> b = 0x3E then Inl (malformed_xml x ''a tag has no name'')
      else (case push_tag b x of
              Inl e \<Rightarrow> Inl e
            | Inr x1 \<Rightarrow> Inr (x1\<lparr>xt_state := XsTag False 0\<rparr>, None)))"

definition tag_byte :: "bool \<Rightarrow> u8 \<Rightarrow> u8 \<Rightarrow> xml_tokenizer \<Rightarrow> xml_step" where
  "tag_byte is_end q b x =
     (if q \<noteq> 0 then
        (case push_tag b (if b = q then x\<lparr>xt_state := XsTag is_end 0\<rparr> else x) of
           Inl e \<Rightarrow> Inl e
         | Inr x1 \<Rightarrow> Inr (x1, None))
      else if b = 0x3E then
        Inr (x\<lparr>xt_state := XsText\<rparr>,
             Some (if is_end then XmlEnd else XmlStart (xt_tag x \<noteq> [] \<and> last (xt_tag x) = 0x2F)))
      else if b = 0x3C then Inl (malformed_xml x (CHR 0x27 # CHR 0x3C # CHR 0x27 # '' inside a tag''))
      else
        (case push_tag b (if b = 0x22 \<or> b = 0x27 then x\<lparr>xt_state := XsTag is_end b\<rparr> else x) of
           Inl e \<Rightarrow> Inl e
         | Inr x1 \<Rightarrow> Inr (x1, None)))"

definition bang_byte :: "u8 \<Rightarrow> xml_tokenizer \<Rightarrow> xml_step" where
  "bang_byte b x =
     (let seen = xt_instruction x @ [b]; n = length seen; x1 = x\<lparr>xt_instruction := seen\<rparr>
      in if seen = ascii ''--'' then Inr (x1\<lparr>xt_state := XsComment 0\<rparr>, None)
         else if seen = ascii ''[CDATA['' then Inr (x1\<lparr>xt_state := XsCData 0\<rparr>, None)
         else if eq_ignore_case seen (ascii ''DOCTYPE'') then Inl (XlDoctype (xt_part x))
         else if \<not> (n \<le> 2 \<and> take n (ascii ''--'') = seen
                 \<or> n \<le> 7 \<and> take n (ascii ''[CDATA['') = seen
                 \<or> n \<le> 7 \<and> eq_ignore_case (take n (ascii ''DOCTYPE'')) seen)
              \<or> max_bang_bytes < n
           then Inl (malformed_xml x ''unsupported markup declaration'')
         else Inr (x1, None))"

definition comment_byte :: "nat \<Rightarrow> u8 \<Rightarrow> xml_tokenizer \<Rightarrow> xml_step" where
  "comment_byte dashes b x =
     Inr (x\<lparr>xt_state :=
            (if b = 0x3E \<and> 2 \<le> dashes then XsText
             else if b = 0x2D then XsComment (min (dashes + 1) 255)
             else XsComment 0)\<rparr>, None)"

definition cdata_byte :: "nat \<Rightarrow> u8 \<Rightarrow> xml_tokenizer \<Rightarrow> xml_step" where
  "cdata_byte brackets b x =
     (if b = 0x3E \<and> 2 \<le> brackets then Inr (x\<lparr>xt_state := XsText\<rparr>, None)
      else if b = 0x5D then
        (if 2 \<le> brackets then Inr (push_raw_text 0x5D x, None)
         else Inr (x\<lparr>xt_state := XsCData (brackets + 1)\<rparr>, None))
      else Inr ((push_raw_text b (fold push_raw_text (replicate brackets 0x5D) x))\<lparr>xt_state := XsCData 0\<rparr>, None))"

definition instruction_byte :: "bool \<Rightarrow> u8 \<Rightarrow> xml_tokenizer \<Rightarrow> xml_step" where
  "instruction_byte question b x =
     (if question \<and> b = 0x3E then
        (case check_declaration x of Inl e \<Rightarrow> Inl e | Inr _ \<Rightarrow> Inr (x\<lparr>xt_state := XsText\<rparr>, None))
      else
        let x1 = (if question then push_instruction 0x3F x else x)
        in Inr (if b = 0x3F then x1\<lparr>xt_state := XsInstruction True\<rparr>
                else (push_instruction b x1)\<lparr>xt_state := XsInstruction False\<rparr>, None))"

definition xml_byte :: "u8 \<Rightarrow> xml_tokenizer \<Rightarrow> xml_step" where
  "xml_byte b x =
     (case xt_state x of
        XsStart \<Rightarrow> start_byte b x
      | XsText \<Rightarrow> text_byte b x
      | XsTextEntity \<Rightarrow> entity_byte b x
      | XsTagOpen \<Rightarrow> tag_open_byte b x
      | XsTag is_end q \<Rightarrow> tag_byte is_end q b x
      | XsBang \<Rightarrow> bang_byte b x
      | XsComment dashes \<Rightarrow> comment_byte dashes b x
      | XsCData brackets \<Rightarrow> cdata_byte brackets b x
      | XsInstruction question \<Rightarrow> instruction_byte question b x)"

subsection \<open>Chunks and parts\<close>

fun feed_from :: "nat \<Rightarrow> bytes \<Rightarrow> xml_tokenizer \<Rightarrow> xlsx_error + xml_tokenizer \<times> nat \<times> xml_event option" where
  "feed_from index [] x = Inr (x, index, None)"
| "feed_from index (b # bs) x =
     (case xml_byte b x of
        Inl e \<Rightarrow> Inl e
      | Inr (x1, Some ev) \<Rightarrow> Inr (x1, Suc index, Some ev)
      | Inr (x1, None) \<Rightarrow> feed_from (Suc index) bs x1)"

definition xml_feed :: "bytes \<Rightarrow> xml_tokenizer \<Rightarrow> xlsx_error + xml_tokenizer \<times> nat \<times> xml_event option" where
  "xml_feed input x = feed_from 0 input x"

definition xml_finish :: "xml_tokenizer \<Rightarrow> xlsx_error + unit" where
  "xml_finish x =
     (if xt_state x = XsStart \<or> xt_state x = XsText then Inr ()
      else Inl (malformed_xml x ''the part ends inside markup''))"

text \<open>
  A part being read: the tokenizer, the bytes the stream has available, and what further calls of
  \<open>fill\<close> bring, an error or a piece of the part.
\<close>

record part_cursor =
  pc_xml :: xml_tokenizer
  pc_available :: bytes
  pc_fills :: "(xlsx_error + bytes) list"

lemma feed_used:
  assumes "feed_from k bs x = Inr (x1, used, ev)"
  shows "k \<le> used \<and> used \<le> k + length bs \<and> (ev = None \<longrightarrow> used = k + length bs) \<and> (bs \<noteq> [] \<longrightarrow> k < used)"
  using assms
proof (induction bs arbitrary: k x)
  case (Cons b bs)
  from Cons.prems show ?case
    by (auto split: sum.splits prod.splits option.splits dest!: Cons.IH)
qed simp

function part_next :: "part_cursor \<Rightarrow> xlsx_error + part_cursor \<times> xml_event option" where
  "part_next pc =
     (if pc_available pc = [] then
        (case pc_fills pc of
           [] \<Rightarrow> (case xml_finish (pc_xml pc) of Inl e \<Rightarrow> Inl e | Inr _ \<Rightarrow> Inr (pc, None))
         | Inl e # _ \<Rightarrow> Inl e
         | Inr piece # rest \<Rightarrow> part_next (pc\<lparr>pc_available := piece, pc_fills := rest\<rparr>))
      else
        (case xml_feed (pc_available pc) (pc_xml pc) of
           Inl e \<Rightarrow> Inl e
         | Inr (x1, used, ev) \<Rightarrow>
             let pc1 = pc\<lparr>pc_xml := x1, pc_available := drop used (pc_available pc)\<rparr>
             in case ev of Some _ \<Rightarrow> Inr (pc1, ev) | None \<Rightarrow> part_next pc1))"
  by pat_completeness auto
termination
  by (relation "measures [\<lambda>pc. length (pc_fills pc), \<lambda>pc. length (pc_available pc)]")
    (auto simp: xml_feed_def dest!: feed_used)

declare part_next.simps [simp del] attribute_from.simps [simp del]

end
