(* ===== verification/Xml_Read.thy ===== *)
theory Xml_Read imports Xml_Tokens begin

text \<open>
  Reading a whole part (\<open>PartCursor::next\<close> in \<open>xlsx/mod.rs\<close>) as its callers do: attributes are asked for
  at start tags, and the text of an element is collected from its start tag to the next end tag.
  \<open>observe\<close> is the same reader over the bytes of the part, without the pieces they arrive in.
\<close>

section \<open>A reader of parts\<close>

text \<open>
  \<open>wants\<close> says of which elements the text is collected, \<open>asks\<close> are the attributes looked up at a start
  tag.  The items are what the reader sees: the name of a tag, the answers, the text with its full
  length and whether it was cut.
\<close>

datatype xml_item =
    StartSeen bytes bool "(xlsx_error + bytes option) list"
  | EndSeen bytes "(bytes \<times> 64 word \<times> bool) option"

definition react ::
    "(bytes \<Rightarrow> bool) \<Rightarrow> (bytes \<times> bool) list \<Rightarrow> xml_event \<Rightarrow> xml_tokenizer \<Rightarrow> xml_item list \<times> xml_tokenizer" where
  "react wants asks ev x =
     (case ev of
        XmlStart closed \<Rightarrow>
          ([StartSeen (xml_name x) closed (map (\<lambda>(name, prefixed). xml_attribute name prefixed x) asks)],
           if \<not> closed \<and> wants (xml_name x) then collect_text True x else x)
      | XmlEnd \<Rightarrow>
          ([EndSeen (xml_name x)
              (if xt_collect x then Some (xt_text x, xt_text_total x, xt_text_truncated x) else None)],
           if xt_collect x then collect_text False x else x)
      | XmlText \<Rightarrow> ([], x))"

definition continue_with :: "xml_item list \<Rightarrow> xlsx_error + xml_item list \<Rightarrow> xlsx_error + xml_item list" where
  "continue_with items r = (case r of Inl e \<Rightarrow> Inl e | Inr rest \<Rightarrow> Inr (items @ rest))"

definition bytes_left :: "part_cursor \<Rightarrow> nat" where
  "bytes_left pc =
     length (pc_available pc) +
     sum_list (map (\<lambda>f. case f of Inl _ \<Rightarrow> 0 | Inr piece \<Rightarrow> length piece) (pc_fills pc))"

lemma part_next_advances:
  "part_next pc = Inr (pc1, Some ev) \<Longrightarrow> bytes_left pc1 < bytes_left pc"
proof (induction pc rule: part_next.induct)
  case (1 pc)
  show ?case
  proof (cases "pc_available pc = []")
    case True
    with "1.prems" obtain piece rest where fills: "pc_fills pc = Inr piece # rest"
      by (subst (asm) part_next.simps) (auto split: list.splits sum.splits)
    with True "1.prems" have "part_next (pc\<lparr>pc_available := piece, pc_fills := rest\<rparr>) = Inr (pc1, Some ev)"
      by (subst (asm) part_next.simps) simp
    from "1.IH"(1) [OF True fills refl this] True fills show ?thesis
      by (simp add: bytes_left_def)
  next
    case False
    with "1.prems" obtain x1 used ev1 where feed: "xml_feed (pc_available pc) (pc_xml pc) = Inr (x1, used, ev1)"
      by (subst (asm) part_next.simps) (auto split: sum.splits)
    then have used: "0 < used" "used \<le> length (pc_available pc)"
      using feed_used [of 0 "pc_available pc" "pc_xml pc" x1 used ev1] False by (simp_all add: xml_feed_def)
    let ?pc = "pc\<lparr>pc_xml := x1, pc_available := drop used (pc_available pc)\<rparr>"
    have less: "bytes_left ?pc < bytes_left pc"
      using used by (simp add: bytes_left_def)
    show ?thesis
    proof (cases ev1)
      case None
      with "1.prems" False feed have "part_next ?pc = Inr (pc1, Some ev)"
        by (subst (asm) part_next.simps) simp
      from "1.IH"(2) [OF False feed refl refl refl None this] less show ?thesis by simp
    next
      case (Some e)
      with "1.prems" False feed have "pc1 = ?pc"
        by (subst (asm) part_next.simps) simp
      with less show ?thesis by simp
    qed
  qed
qed

function read_part ::
    "(bytes \<Rightarrow> bool) \<Rightarrow> (bytes \<times> bool) list \<Rightarrow> part_cursor \<Rightarrow> xlsx_error + xml_item list" where
  "read_part wants asks pc =
     (case part_next pc of
        Inl e \<Rightarrow> Inl e
      | Inr (pc1, None) \<Rightarrow> Inr []
      | Inr (pc1, Some ev) \<Rightarrow>
          continue_with (fst (react wants asks ev (pc_xml pc1)))
            (read_part wants asks (pc1\<lparr>pc_xml := snd (react wants asks ev (pc_xml pc1))\<rparr>)))"
  by pat_completeness auto
termination
  by (relation "measure (\<lambda>(_, _, pc). bytes_left pc)") (auto dest!: part_next_advances simp: bytes_left_def)

declare read_part.simps [simp del]

section \<open>Without the pieces\<close>

fun observe ::
    "(bytes \<Rightarrow> bool) \<Rightarrow> (bytes \<times> bool) list \<Rightarrow> bytes \<Rightarrow> xml_tokenizer \<Rightarrow> xlsx_error + xml_item list" where
  "observe wants asks [] x = (case xml_finish x of Inl e \<Rightarrow> Inl e | Inr _ \<Rightarrow> Inr [])"
| "observe wants asks (b # bs) x =
     (case xml_byte b x of
        Inl e \<Rightarrow> Inl e
      | Inr (x1, None) \<Rightarrow> observe wants asks bs x1
      | Inr (x1, Some ev) \<Rightarrow>
          continue_with (fst (react wants asks ev x1)) (observe wants asks bs (snd (react wants asks ev x1))))"

lemma feed_observe:
  "(case feed_from k bs x of
      Inl e \<Rightarrow> observe wants asks (bs @ r) x = Inl e
    | Inr (x1, used, None) \<Rightarrow> observe wants asks (bs @ r) x = observe wants asks r x1
    | Inr (x1, used, Some ev) \<Rightarrow>
        observe wants asks (bs @ r) x =
          continue_with (fst (react wants asks ev x1))
            (observe wants asks (drop (used - k) bs @ r) (snd (react wants asks ev x1))))"
proof (induction bs arbitrary: k x)
  case (Cons b bs)
  have "Suc k \<le> used" if "feed_from (Suc k) bs y = Inr (z, used, ev)" for y z used ev
    using feed_used [OF that] by simp
  then have drops: "drop (used - k) (b # bs) = drop (used - Suc k) bs"
    if "feed_from (Suc k) bs y = Inr (z, used, ev)" for y z used ev
    using that by (metis Suc_diff_le diff_Suc_Suc drop_Suc_Cons)
  show ?case
  proof (cases "xml_byte b x")
    case (Inr result)
    obtain x1 ev where result: "result = (x1, ev)" by (cases result)
    show ?thesis
    proof (cases ev)
      case None
      with Inr result Cons.IH [where k = "Suc k" and x = x1] show ?thesis
        by (simp add: drops split: sum.splits prod.splits option.splits)
    qed (simp add: Inr result)
  qed simp
qed simp

lemma part_next_observe:
  assumes "pc_fills pc = map Inr pieces"
  shows "case part_next pc of
      Inl e \<Rightarrow> observe wants asks (pc_available pc @ concat pieces) (pc_xml pc) = Inl e
    | Inr (pc1, None) \<Rightarrow> observe wants asks (pc_available pc @ concat pieces) (pc_xml pc) = Inr []
    | Inr (pc1, Some ev) \<Rightarrow>
        (\<exists>pieces1. pc_fills pc1 = map Inr pieces1 \<and>
           observe wants asks (pc_available pc @ concat pieces) (pc_xml pc) =
             continue_with (fst (react wants asks ev (pc_xml pc1)))
               (observe wants asks (pc_available pc1 @ concat pieces1) (snd (react wants asks ev (pc_xml pc1)))))"
  using assms
proof (induction pc arbitrary: pieces rule: part_next.induct)
  case (1 pc)
  show ?case
  proof (cases "pc_available pc = []")
    case True
    show ?thesis
    proof (cases pieces)
      case Nil
      with True "1.prems" show ?thesis
        by (subst part_next.simps) (auto split: sum.splits)
    next
      case (Cons piece rest)
      with "1.prems" have fills: "pc_fills pc = Inr piece # map Inr rest" by simp
      let ?pc = "pc\<lparr>pc_available := piece, pc_fills := map Inr rest\<rparr>"
      have "part_next pc = part_next ?pc"
        using True fills by (subst part_next.simps) simp
      moreover have "pc_available pc @ concat pieces = pc_available ?pc @ concat rest" "pc_xml pc = pc_xml ?pc"
        using True Cons by simp_all
      moreover have "pc_fills ?pc = map Inr rest" by simp
      note "1.IH"(1) [OF True fills refl this]
      ultimately show ?thesis by (simp only:)
    qed
  next
    case False
    show ?thesis
    proof (cases "xml_feed (pc_available pc) (pc_xml pc)")
      case (Inl e)
      with False feed_observe [where k = 0 and bs = "pc_available pc" and x = "pc_xml pc" and wants = wants and asks = asks and r = "concat pieces"] show ?thesis
        by (subst part_next.simps) (simp add: xml_feed_def)
    next
      case (Inr result)
      obtain x1 used ev where result: "result = (x1, used, ev)" by (cases result)
      note feed = Inr [unfolded result]
      note fo = feed_observe [where k = 0 and bs = "pc_available pc" and x = "pc_xml pc" and wants = wants and asks = asks and r = "concat pieces"]
      let ?pc = "pc\<lparr>pc_xml := x1, pc_available := drop used (pc_available pc)\<rparr>"
      show ?thesis
      proof (cases ev)
        case None
        have "used = length (pc_available pc)"
          using feed None feed_used [of 0 "pc_available pc" "pc_xml pc" x1 used ev] by (simp add: xml_feed_def)
        then have "part_next pc = part_next ?pc"
          and "observe wants asks (pc_available pc @ concat pieces) (pc_xml pc) =
               observe wants asks (pc_available ?pc @ concat pieces) (pc_xml ?pc)"
          using False feed None fo \<open>used = _\<close> by (subst part_next.simps, simp_all add: xml_feed_def)
        moreover have "pc_fills ?pc = map Inr pieces"
          using "1.prems" by simp
        note "1.IH"(2) [OF False feed refl refl refl None this]
        ultimately show ?thesis by (simp only:)
      next
        case (Some e)
        with "1.prems" False feed fo show ?thesis
          by (subst part_next.simps) (auto simp: xml_feed_def)
      qed
    qed
  qed
qed

text \<open>The pieces a part arrives in do not matter, for any part, well formed or not.\<close>

lemma read_part_observe:
  "pc_fills pc = map Inr pieces \<Longrightarrow>
   read_part wants asks pc = observe wants asks (pc_available pc @ concat pieces) (pc_xml pc)"
proof (induction wants asks pc arbitrary: pieces rule: read_part.induct)
  case (1 wants asks pc)
  note next_obs = part_next_observe [OF "1.prems", of wants asks]
  show ?case
  proof (cases "part_next pc")
    case (Inl e)
    with next_obs show ?thesis by (simp add: read_part.simps)
  next
    case (Inr result)
    then obtain pc1 ev where res: "part_next pc = Inr (pc1, ev)" by (cases result) simp
    show ?thesis
    proof (cases ev)
      case None
      with next_obs res show ?thesis by (simp add: read_part.simps)
    next
      case (Some e)
      with res have next_some: "part_next pc = Inr (pc1, Some e)" by simp
      with next_obs obtain pieces1 where
          fills: "pc_fills pc1 = map Inr pieces1"
        and obs: "observe wants asks (pc_available pc @ concat pieces) (pc_xml pc) =
             continue_with (fst (react wants asks e (pc_xml pc1)))
               (observe wants asks (pc_available pc1 @ concat pieces1) (snd (react wants asks e (pc_xml pc1))))"
        by auto
      from "1.IH" [OF next_some refl refl, of pieces1] fills obs next_some show ?thesis
        by (subst read_part.simps) simp
    qed
  qed
qed

end
