(* ===== verification/Xml_Collect.thy ===== *)
theory Xml_Collect imports Xml_Read "HOL-Library.Sublist" begin

text \<open>
  What the tokenizer has collected.  \<open>at_state\<close> says where a tokenizer is in a part and what text
  has been collected for its reader, a carriage return that may still turn out to be half a line end
  included; the lemmas follow it through the bytes of text, entities, sections and comments.
\<close>

section \<open>Collected text\<close>

text \<open>\<open>None\<close> when no text is collected.\<close>

abbreviation add_text :: "bytes option \<Rightarrow> bytes \<Rightarrow> bytes option" where
  "add_text w bs \<equiv> map_option (\<lambda>v. v @ bs) w"

fun settled :: "bytes option \<Rightarrow> xml_tokenizer \<Rightarrow> bool" where
  "settled None x \<longleftrightarrow> \<not> xt_collect x"
| "settled (Some w) x \<longleftrightarrow>
     xt_collect x \<and> xt_text x = take (xt_text_limit x) w \<and> xt_text_total x = word_of_nat (length w) \<and>
     xt_text_truncated x = (xt_text_limit x < length w) \<and> xt_have_text x = (w \<noteq> [])"

definition holds_text :: "bytes option \<Rightarrow> xml_tokenizer \<Rightarrow> bool" where
  "holds_text w x \<longleftrightarrow> (if xt_pending_cr x then \<exists>v. settled v x \<and> w = add_text v [0x0A] else settled w x)"

lemma settled_frame [simp]:
  "settled w (x\<lparr>xt_state := s\<rparr>) = settled w x" "settled w (x\<lparr>xt_tag := t\<rparr>) = settled w x"
  "settled w (x\<lparr>xt_entity := e\<rparr>) = settled w x" "settled w (x\<lparr>xt_instruction := i\<rparr>) = settled w x"
  "settled w (x\<lparr>xt_pending_cr := p\<rparr>) = settled w x"
  by (cases w; simp)+

lemma holds_frame [simp]:
  "holds_text w (x\<lparr>xt_state := s\<rparr>) = holds_text w x" "holds_text w (x\<lparr>xt_tag := t\<rparr>) = holds_text w x"
  "holds_text w (x\<lparr>xt_entity := e\<rparr>) = holds_text w x"
  "holds_text w (x\<lparr>xt_instruction := i\<rparr>) = holds_text w x"
  by (simp_all add: holds_text_def)

text \<open>Pushing text changes nothing but the text.\<close>

definition same_frame :: "xml_tokenizer \<Rightarrow> xml_tokenizer \<Rightarrow> bool" where
  "same_frame y x \<longleftrightarrow>
     xt_part y = xt_part x \<and> xt_state y = xt_state x \<and> xt_tag y = xt_tag x \<and>
     xt_max_tag_bytes y = xt_max_tag_bytes x \<and> xt_entity y = xt_entity x \<and>
     xt_instruction y = xt_instruction x \<and> xt_text_limit y = xt_text_limit x"

lemma same_frame_trans [trans]: "same_frame z y \<Longrightarrow> same_frame y x \<Longrightarrow> same_frame z x"
  by (simp add: same_frame_def)

lemma same_frame_refl [simp]: "same_frame x x"
  by (simp add: same_frame_def)

lemma push_text_frame [simp]:
  fixes b :: u8 and x :: xml_tokenizer
  shows "same_frame (push_text b x) x" "xt_pending_cr (push_text b x) = xt_pending_cr x"
  by (simp_all add: push_text_def same_frame_def Let_def)

lemma same_frame_push_text: "same_frame y x \<Longrightarrow> same_frame (push_text b y) x"
  by (rule same_frame_trans [OF push_text_frame(1)])

lemma settled_push_text: "settled w x \<Longrightarrow> settled (add_text w [b]) (push_text b x)"
  by (cases w) (auto simp: push_text_def Let_def)

lemma flush_cr_text:
  assumes "holds_text w x"
  shows "settled w (flush_cr x)" "same_frame (flush_cr x) x" "\<not> xt_pending_cr (flush_cr x)"
proof -
  show "same_frame (flush_cr x) x"
    using push_text_frame(1) [where b = "0x0A" and x = "x\<lparr>xt_pending_cr := False\<rparr>"] by (simp add: flush_cr_def same_frame_def)
  show "\<not> xt_pending_cr (flush_cr x)"
    by (simp add: flush_cr_def)
  show "settled w (flush_cr x)"
    using assms by (auto simp: holds_text_def flush_cr_def intro!: settled_push_text split: if_splits)
qed

lemma push_text_all:
  "settled w x \<Longrightarrow> settled (add_text w bs) (fold push_text bs x) \<and> same_frame (fold push_text bs x) x \<and>
     xt_pending_cr (fold push_text bs x) = xt_pending_cr x"
proof (induction bs arbitrary: w x)
  case (Cons b bs)
  from Cons.IH [OF settled_push_text [OF Cons.prems, of b]] show ?case
    by (cases w) (auto intro: same_frame_trans [OF _ push_text_frame(1)])
qed (simp add: option.map_ident)

section \<open>Raw text\<close>

text \<open>
  A part is written with one kind of line ends, \<open>newline\<close>; only when it is the lone carriage return can
  one be pending between two bytes of the text.
\<close>

definition newline_style :: "bytes \<Rightarrow> bool" where
  "newline_style newline \<longleftrightarrow> newline = [0x0A] \<or> newline = [0x0D, 0x0A] \<or> newline = [0x0D]"

definition collected :: "bytes \<Rightarrow> bytes option \<Rightarrow> xml_tokenizer \<Rightarrow> bool" where
  "collected newline w x \<longleftrightarrow> holds_text w x \<and> (xt_pending_cr x \<longrightarrow> newline = [0x0D])"

lemma collected_frame [simp]:
  "collected nl w (x\<lparr>xt_state := s\<rparr>) = collected nl w x" "collected nl w (x\<lparr>xt_tag := t\<rparr>) = collected nl w x"
  "collected nl w (x\<lparr>xt_entity := e\<rparr>) = collected nl w x"
  "collected nl w (x\<lparr>xt_instruction := i\<rparr>) = collected nl w x"
  by (simp_all add: collected_def)

lemma push_raw_frame: "same_frame (push_raw_text b x) x"
proof -
  have "same_frame (push_text c (push_text d (x\<lparr>xt_pending_cr := p\<rparr>))) x" for c d p
    by (intro same_frame_push_text) (simp add: same_frame_def)
  moreover have "same_frame (push_text c (x\<lparr>xt_pending_cr := p\<rparr>)) x" for c p
    by (intro same_frame_push_text) (simp add: same_frame_def)
  moreover have "same_frame (y\<lparr>xt_pending_cr := True\<rparr>) x" if "same_frame y x" for y
    using that by (simp add: same_frame_def)
  ultimately show ?thesis
    by (simp add: push_raw_text_def Let_def)
qed

text \<open>A byte of the text as it is written.\<close>

definition raw_byte :: "bytes \<Rightarrow> u8 \<Rightarrow> bytes" where
  "raw_byte newline b = (if b = 0x0A then newline else [b])"

lemma push_raw_plain:
  assumes "collected nl w x" "b \<noteq> 0x0A" "b \<noteq> 0x0D"
  shows "collected nl (add_text w [b]) (push_raw_text b x)"
  using assms
  by (auto simp: collected_def holds_text_def push_raw_text_def Let_def option.map_comp comp_def
        intro!: settled_push_text)

lemma push_raw_newline:
  assumes "newline_style nl" "collected nl w x"
  shows "collected nl (add_text w [0x0A]) (fold push_raw_text nl x)"
proof -
  have settles: "settled (add_text v [0x0A]) (push_text 0x0A (y\<lparr>xt_pending_cr := False\<rparr>))" if "settled v y" for v y
    using that by (intro settled_push_text) simp
  consider "nl = [0x0A]" | "nl = [0x0D, 0x0A]" | "nl = [0x0D]"
    using assms(1) by (auto simp: newline_style_def)
  then show ?thesis
  proof cases
    case 1
    with assms(2) show ?thesis
      by (auto simp: collected_def holds_text_def push_raw_text_def Let_def intro!: settled_push_text)
  next
    case 2
    with assms(2) show ?thesis
      by (auto simp: collected_def holds_text_def push_raw_text_def Let_def intro!: settles)
  next
    case 3
    with assms(2) show ?thesis
      by (auto simp: collected_def holds_text_def push_raw_text_def Let_def intro!: settles exI [of _ w])
  qed
qed

lemma push_raw_byte:
  assumes "newline_style nl" "collected nl w x" "b \<noteq> 0x0D"
  shows "collected nl (add_text w [b]) (fold push_raw_text (raw_byte nl b) x)"
  using assms push_raw_plain push_raw_newline by (auto simp: raw_byte_def)

lemma push_raw_all_frame: "same_frame (fold push_raw_text bs x) x"
  by (induction bs arbitrary: x) (auto intro: same_frame_trans [OF _ push_raw_frame])

end
