(* ===== verification/Xml_Written.thy ===== *)
theory Xml_Written imports Xml_Collect begin

text \<open>
  Writing a part, and what its reader is to see.  Both are specification: a document is a list of
  pieces, \<open>write_piece\<close> the bytes of one, and \<open>seen\<close> the items of a reader that collects the text of
  the elements it wants.
\<close>

section \<open>Documents\<close>

datatype xml_piece =
    StartTag bytes "(bytes \<times> bytes) list" bool
  | EndTag bytes
  | Characters bytes
  | CharRef nat
  | CDataSection bytes
  | Remark bytes

definition text_escape :: "bytes \<Rightarrow> u8 \<Rightarrow> bytes" where
  "text_escape newline b =
     (if b = 0x26 then ascii ''&amp;'' else if b = 0x3C then ascii ''&lt;'' else if b = 0x3E then ascii ''&gt;''
      else if b = 0x0D then ascii ''&#13;'' else raw_byte newline b)"

definition attribute_escape :: "u8 \<Rightarrow> bytes" where
  "attribute_escape b =
     (if b = 0x26 then ascii ''&amp;'' else if b = 0x3C then ascii ''&lt;'' else if b = 0x22 then ascii ''&quot;''
      else if b = 0x09 then ascii ''&#9;'' else if b = 0x0A then ascii ''&#xA;'' else if b = 0x0D then ascii ''&#xd;''
      else [b])"

definition write_attribute :: "bytes \<times> bytes \<Rightarrow> bytes" where
  "write_attribute a = 0x20 # fst a @ [0x3D, 0x22] @ concat (map attribute_escape (snd a)) @ [0x22]"

definition tag_content :: "bytes \<Rightarrow> (bytes \<times> bytes) list \<Rightarrow> bool \<Rightarrow> bytes" where
  "tag_content name attributes closed = name @ concat (map write_attribute attributes) @ (if closed then [0x2F] else [])"

fun write_piece :: "bytes \<Rightarrow> xml_piece \<Rightarrow> bytes" where
  "write_piece newline (StartTag name attributes closed) = [0x3C] @ tag_content name attributes closed @ [0x3E]"
| "write_piece newline (EndTag name) = [0x3C, 0x2F] @ name @ [0x3E]"
| "write_piece newline (Characters t) = concat (map (text_escape newline) t)"
| "write_piece newline (CharRef n) = [0x26, 0x23] @ decimal_text n @ [0x3B]"
| "write_piece newline (CDataSection t) = ascii ''<![CDATA['' @ concat (map (raw_byte newline) t) @ ascii '']]>''"
| "write_piece newline (Remark t) = ascii ''<!--'' @ t @ ascii ''-->''"

definition name_ok :: "bytes \<Rightarrow> bool" where
  "name_ok name \<longleftrightarrow> name \<noteq> [] \<and>
     list_all (\<lambda>b. \<not> xml_space b \<and> b \<notin> {0x2F, 0x3E, 0x3C, 0x22, 0x27, 0x3D, 0x21, 0x3F}) name"

fun piece_ok :: "nat \<Rightarrow> xml_piece \<Rightarrow> bool" where
  "piece_ok max_tag (StartTag name attributes closed) \<longleftrightarrow>
     name_ok name \<and> list_all (\<lambda>a. name_ok (fst a)) attributes \<and>
     length (tag_content name attributes closed) \<le> max_tag"
| "piece_ok max_tag (EndTag name) \<longleftrightarrow> name_ok name \<and> length name < max_tag"
| "piece_ok max_tag (Characters t) \<longleftrightarrow> True"
| "piece_ok max_tag (CharRef n) \<longleftrightarrow> scalar_value n \<and> n \<noteq> 0"
| "piece_ok max_tag (CDataSection t) \<longleftrightarrow> 0x0D \<notin> set t \<and> \<not> sublist [0x5D, 0x5D, 0x3E] t"
| "piece_ok max_tag (Remark t) \<longleftrightarrow> \<not> sublist [0x2D, 0x2D] (t @ [0x2D])"

section \<open>What is seen\<close>

definition find_attribute :: "(bytes \<times> bytes) list \<Rightarrow> bytes \<Rightarrow> bool \<Rightarrow> bytes option" where
  "find_attribute attributes name prefixed =
     map_option snd (find (\<lambda>(q, v). xml_local q = name \<and> (0x3A \<in> set q) = prefixed) attributes)"

definition shown_text :: "nat \<Rightarrow> bytes \<Rightarrow> bytes \<times> 64 word \<times> bool" where
  "shown_text max_text t = (take max_text t, word_of_nat (length t), max_text < length t)"

fun piece_seen ::
    "(bytes \<Rightarrow> bool) \<Rightarrow> (bytes \<times> bool) list \<Rightarrow> nat \<Rightarrow> bytes option \<Rightarrow> xml_piece \<Rightarrow> xml_item list \<times> bytes option" where
  "piece_seen wants asks max_text w (StartTag name attributes closed) =
     ([StartSeen (xml_local name) closed (map (\<lambda>(n, prefixed). Inr (find_attribute attributes n prefixed)) asks)],
      if \<not> closed \<and> wants (xml_local name) then Some [] else w)"
| "piece_seen wants asks max_text w (EndTag name) =
     ([EndSeen (xml_local name) (map_option (shown_text max_text) w)], None)"
| "piece_seen wants asks max_text w (Characters t) = ([], add_text w t)"
| "piece_seen wants asks max_text w (CharRef n) = ([], add_text w (encode_utf8 n))"
| "piece_seen wants asks max_text w (CDataSection t) = ([], add_text w t)"
| "piece_seen wants asks max_text w (Remark t) = ([], w)"

fun seen ::
    "(bytes \<Rightarrow> bool) \<Rightarrow> (bytes \<times> bool) list \<Rightarrow> nat \<Rightarrow> bytes option \<Rightarrow> xml_piece list \<Rightarrow> xml_item list" where
  "seen wants asks max_text w [] = []"
| "seen wants asks max_text w (p # ps) =
     fst (piece_seen wants asks max_text w p) @ seen wants asks max_text (snd (piece_seen wants asks max_text w p)) ps"

section \<open>Bytes without a tag\<close>

text \<open>A run over bytes in which the tokenizer reports nothing, or text, which its reader passes over.\<close>

fun silent :: "bytes \<Rightarrow> xml_tokenizer \<Rightarrow> xml_tokenizer option" where
  "silent [] x = Some x"
| "silent (b # bs) x =
     (case xml_byte b x of
        Inl e \<Rightarrow> None
      | Inr (x1, ev) \<Rightarrow> if ev = None \<or> ev = Some XmlText then silent bs x1 else None)"

lemma silent_append: "silent (bs @ cs) x = Option.bind (silent bs x) (silent cs)"
  by (induction bs arbitrary: x) (auto split: sum.splits)

lemma silent_trans: "silent bs x = Some y \<Longrightarrow> silent cs y = Some z \<Longrightarrow> silent (bs @ cs) x = Some z"
  by (simp add: silent_append)

lemma observe_silent: "silent bs x = Some y \<Longrightarrow> observe wants asks (bs @ r) x = observe wants asks r y"
proof (induction bs arbitrary: x)
  case (Cons b bs)
  then show ?case
    by (auto simp: react_def continue_with_def split: sum.splits prod.splits option.splits if_splits)
qed simp

definition at_state :: "xml_tokenizer \<Rightarrow> bytes \<Rightarrow> xml_state \<Rightarrow> bytes option \<Rightarrow> xml_tokenizer \<Rightarrow> bool" where
  "at_state x0 newline s w x \<longleftrightarrow>
     xt_part x = xt_part x0 \<and> xt_max_tag_bytes x = xt_max_tag_bytes x0 \<and> xt_text_limit x = xt_text_limit x0 \<and>
     xt_state x = s \<and> collected newline w x"

lemma at_state_frame:
  "at_state x0 nl s w x \<Longrightarrow> same_frame y x \<Longrightarrow> collected nl v y \<Longrightarrow> at_state x0 nl s v y"
  by (simp add: at_state_def same_frame_def)

lemma flush_collected:
  assumes "collected nl w x"
  shows "collected nl w (flush_cr x)" "settled w (flush_cr x)" "\<not> xt_pending_cr (flush_cr x)"
  using flush_cr_text [of w x] assms by (auto simp: collected_def holds_text_def)

subsection \<open>Entities\<close>

lemma entity_body:
  assumes "xt_state x = XsTextEntity" "0x3B \<notin> set bs" "length (xt_entity x) + length bs \<le> max_entity_bytes"
  shows "silent bs x = Some (x\<lparr>xt_entity := xt_entity x @ bs\<rparr>)"
  using assms
proof (induction bs arbitrary: x)
  case (Cons b bs)
  let ?x = "x\<lparr>xt_entity := xt_entity x @ [b]\<rparr>"
  from Cons.prems have "xml_byte b x = Inr (?x, None)"
    by (simp add: xml_byte_def entity_byte_def)
  with Cons.IH [of ?x] Cons.prems show ?case by simp
qed simp

lemma entity_text:
  assumes at: "at_state x0 nl XsText w x" and body: "0x3B \<notin> set es" "length es \<le> max_entity_bytes"
    and dec: "decode_entity es = Inr ds"
  shows "\<exists>y. silent (0x26 # es @ [0x3B]) x = Some y \<and> at_state x0 nl XsText (add_text w ds) y"
proof -
  let ?x1 = "(flush_cr x)\<lparr>xt_entity := [], xt_state := XsTextEntity\<rparr>"
  let ?x2 = "?x1\<lparr>xt_entity := es\<rparr>"
  let ?y = "(fold push_text ds ?x2)\<lparr>xt_state := XsText\<rparr>"
  have col: "collected nl w x" and state: "xt_state x = XsText"
    using at by (simp_all add: at_state_def)
  have frame: "same_frame (flush_cr x) x" "settled w ?x2" "\<not> xt_pending_cr ?x2"
    using flush_cr_text [of w x] flush_collected [OF col] col by (simp_all add: collected_def)
  have "silent [0x26] x = Some ?x1"
    using state by (simp add: xml_byte_def text_byte_def)
  moreover have "silent es ?x1 = Some ?x2"
    using entity_body [of ?x1 es] body by simp
  moreover have "silent [0x3B] ?x2 = Some ?y"
    using dec by (simp add: xml_byte_def entity_byte_def)
  ultimately have "silent ([0x26] @ es @ [0x3B]) x = Some ?y"
    by (intro silent_trans [of "[0x26]"] silent_trans [of es])
  moreover have "at_state x0 nl XsText (add_text w ds) ?y"
    using push_text_all [OF frame(2), of ds] frame(1,3) at
    by (simp add: at_state_def collected_def holds_text_def same_frame_def)
  ultimately show ?thesis by auto
qed

lemma ascii_Cons [simp]: "ascii (c # cs) = of_char c # ascii cs" "ascii [] = []"
  by (simp_all add: ascii_def)

lemma raw_run:
  assumes "xt_state x = XsText" "0x3C \<notin> set bs" "0x26 \<notin> set bs"
  shows "silent bs x = Some (fold push_raw_text bs x)"
  using assms
proof (induction bs arbitrary: x)
  case (Cons b bs)
  then have "xml_byte b x = Inr (push_raw_text b x, None)"
    by (auto simp: xml_byte_def text_byte_def)
  with Cons.IH [of "push_raw_text b x"] Cons.prems push_raw_frame [of b x] show ?case
    by (simp add: same_frame_def)
qed simp

lemma text_byte_written:
  assumes at: "at_state x0 nl XsText w x" and nl: "newline_style nl"
  shows "\<exists>y. silent (text_escape nl b) x = Some y \<and> at_state x0 nl XsText (add_text w [b]) y"
proof -
  note entity = entity_text [OF at]
  consider "b = 0x26" | "b = 0x3C" | "b = 0x3E" | "b = 0x0D" | "b \<notin> {0x26, 0x3C, 0x3E, 0x0D}" by blast
  then show ?thesis
  proof cases
    case 1 with entity [of "ascii ''amp''" "[0x26]"] show ?thesis by (simp add: text_escape_def decode_entity_def)
  next
    case 2 with entity [of "ascii ''lt''" "[0x3C]"] show ?thesis by (simp add: text_escape_def decode_entity_def)
  next
    case 3 with entity [of "ascii ''gt''" "[0x3E]"] show ?thesis by (simp add: text_escape_def decode_entity_def)
  next
    case 4
    have "decode_entity (ascii ''#13'') = Inr [0x0D]"
      by (simp add: decode_entity_def to_digit_def scalar_value_def encode_utf8_def)
    with 4 entity [of "ascii ''#13''" "[0x0D]"] show ?thesis by (simp add: text_escape_def)
  next
    case 5
    then have esc: "text_escape nl b = raw_byte nl b" by (simp add: text_escape_def)
    have col: "collected nl w x" and state: "xt_state x = XsText" using at by (simp_all add: at_state_def)
    have "silent (raw_byte nl b) x = Some (fold push_raw_text (raw_byte nl b) x)"
      using 5 nl by (intro raw_run [OF state]) (auto simp: raw_byte_def newline_style_def)
    moreover have "collected nl (add_text w [b]) (fold push_raw_text (raw_byte nl b) x)"
      using 5 by (intro push_raw_byte [OF nl col]) simp
    ultimately show ?thesis
      using at_state_frame [OF at push_raw_all_frame] esc by auto
  qed
qed

lemma text_written:
  assumes "at_state x0 nl XsText w x" and nl: "newline_style nl"
  shows "\<exists>y. silent (concat (map (text_escape nl) t)) x = Some y \<and> at_state x0 nl XsText (add_text w t) y"
  using assms(1)
proof (induction t arbitrary: w x)
  case (Cons b t)
  from text_byte_written [OF Cons.prems nl] obtain y where
    y: "silent (text_escape nl b) x = Some y" "at_state x0 nl XsText (add_text w [b]) y" by blast
  from Cons.IH [OF y(2)] obtain z where
    "silent (concat (map (text_escape nl) t)) y = Some z" "at_state x0 nl XsText (add_text w (b # t)) z"
    by (auto simp: option.map_comp comp_def)
  with silent_trans [OF y(1)] show ?case by auto
qed (auto simp: option.map_ident)

lemma reference_value_append:
  "reference_value radix v (bs @ cs) = Option.bind (reference_value radix v bs) (\<lambda>u. reference_value radix u cs)"
  by (induction bs arbitrary: v) (auto split: option.splits)

lemma digit_byte:
  assumes "d < 10"
  shows "48 \<le> (48 + word_of_nat d :: u8) \<and> (48 + word_of_nat d :: u8) \<le> 57 \<and> unat (48 + word_of_nat d :: u8) = 48 + d"
proof -
  have "unat (48 + word_of_nat d :: u8) = 48 + d"
    using assms by (simp add: unat_word_ariths)
  then show ?thesis
    using assms by (simp add: word_le_nat_alt)
qed

lemma to_digit_written: "d < 10 \<Longrightarrow> to_digit (48 + word_of_nat d) 10 = Some d"
  using digit_byte [of d] by (simp add: to_digit_def)

lemma decimal_read: "n \<le> 0xFFFFFFFF \<Longrightarrow> reference_value 10 0 (decimal_text n) = Some n"
proof (induction n rule: less_induct)
  case (less n)
  have digit: "to_digit (48 + word_of_nat (n mod 10)) 10 = Some (n mod 10)"
    by (rule to_digit_written) simp
  show ?case
  proof (cases "n < 10")
    case True
    with digit show ?thesis by (subst decimal_text.simps) simp
  next
    case False
    then have "reference_value 10 0 (decimal_text (n div 10)) = Some (n div 10)"
      using less.prems by (intro less.IH) auto
    with False digit less.prems show ?thesis
      by (subst decimal_text.simps) (simp add: reference_value_append)
  qed
qed

lemma decimal_bytes: "b \<in> set (decimal_text n) \<Longrightarrow> 48 \<le> b \<and> b \<le> 57"
proof (induction n rule: decimal_text.induct)
  case (1 n)
  have "b = 48 + word_of_nat (n mod 10) \<or> \<not> n < 10 \<and> b \<in> set (decimal_text (n div 10))"
    using "1.prems" by (subst (asm) decimal_text.simps) (auto split: if_splits)
  then show ?case
    using "1.IH" digit_byte [of "n mod 10"] by auto
qed

lemma decimal_length: "n < 10 ^ k \<Longrightarrow> 0 < k \<Longrightarrow> length (decimal_text n) \<le> k"
proof (induction k arbitrary: n)
  case (Suc k)
  show ?case
  proof (cases "n < 10")
    case False
    then have "0 < k" using Suc.prems by (cases k) auto
    moreover have "n div 10 < 10 ^ k" using Suc.prems by auto
    ultimately show ?thesis
      using Suc.IH [of "n div 10"] False by (subst decimal_text.simps) simp
  qed (subst decimal_text.simps, simp)
qed simp

lemma reference_written:
  assumes at: "at_state x0 nl XsText w x" and ok: "scalar_value n" "n \<noteq> 0"
  shows "\<exists>y. silent (write_piece nl (CharRef n)) x = Some y \<and> at_state x0 nl XsText (add_text w (encode_utf8 n)) y"
proof -
  have small: "n \<le> 0x10FFFF" using ok by (auto simp: scalar_value_def)
  obtain d ds where dt: "decimal_text n = d # ds" "48 \<le> d" "d \<le> 57"
    using decimal_bytes [of _ n] by (cases "decimal_text n") (auto simp: decimal_text.simps [of n])
  have "d \<noteq> 0x78" using dt by auto
  have "0x3B \<notin> set (0x23 # decimal_text n)"
    using decimal_bytes [of "0x3B" n] by auto
  moreover have "length (0x23 # decimal_text n) \<le> max_entity_bytes"
    using decimal_length [of n 7] small by simp
  moreover have "decode_entity (0x23 # decimal_text n) = Inr (encode_utf8 n)"
    using decimal_read [of n] small ok dt \<open>d \<noteq> 0x78\<close> by (simp add: decode_entity_def)
  ultimately show ?thesis
    using entity_text [OF at, of "0x23 # decimal_text n" "encode_utf8 n"] by simp
qed

subsection \<open>Sections and comments\<close>

lemma push_text_state [simp]: "push_text b (x\<lparr>xt_state := s\<rparr>) = (push_text b x)\<lparr>xt_state := s\<rparr>"
  by (simp add: push_text_def Let_def)

lemma push_raw_state [simp]: "push_raw_text b (x\<lparr>xt_state := s\<rparr>) = (push_raw_text b x)\<lparr>xt_state := s\<rparr>"
proof -
  have "push_text c (x\<lparr>xt_state := s, xt_pending_cr := p\<rparr>) = (push_text c (x\<lparr>xt_pending_cr := p\<rparr>))\<lparr>xt_state := s\<rparr>" for c p
    by (simp add: push_text_def Let_def)
  then show ?thesis
    by (simp add: push_raw_text_def Let_def)
qed

lemma push_raw_all_state: "fold push_raw_text bs (x\<lparr>xt_state := s\<rparr>) = (fold push_raw_text bs x)\<lparr>xt_state := s\<rparr>"
  by (induction bs arbitrary: x) simp_all

lemma cdata_run_plain:
  "xt_state x = XsCData 0 \<Longrightarrow> 0x5D \<notin> set cs \<Longrightarrow> silent cs x = Some (fold push_raw_text cs x)"
proof (induction cs arbitrary: x)
  case (Cons c cs)
  have state: "xt_state (push_raw_text c x) = XsCData 0"
    using push_raw_frame [of c x] Cons.prems by (simp add: same_frame_def)
  have "xml_byte c x = Inr (push_raw_text c x, None)"
    using Cons.prems state by (auto simp: xml_byte_def cdata_byte_def)
  with Cons.IH [OF state] Cons.prems show ?case by simp
qed simp

lemma cdata_run:
  assumes "xt_state x = XsCData k" "b \<noteq> 0x5D" "b = 0x3E \<Longrightarrow> k < 2" "0x5D \<notin> set cs"
  shows "silent (b # cs) x = Some ((fold push_raw_text (replicate k 0x5D @ b # cs) x)\<lparr>xt_state := XsCData 0\<rparr>)"
proof -
  let ?y = "(push_raw_text b (fold push_raw_text (replicate k 0x5D) x))\<lparr>xt_state := XsCData 0\<rparr>"
  have "xml_byte b x = Inr (?y, None)"
    using assms(1-3) by (auto simp: xml_byte_def cdata_byte_def)
  moreover have "silent cs ?y = Some (fold push_raw_text cs ?y)"
    using assms(4) by (intro cdata_run_plain) simp_all
  ultimately show ?thesis by (simp add: push_raw_all_state)
qed

lemma push_raw_all_plain:
  "collected nl w x \<Longrightarrow> 0x0A \<notin> set bs \<Longrightarrow> 0x0D \<notin> set bs \<Longrightarrow>
   collected nl (add_text w bs) (fold push_raw_text bs x)"
proof (induction bs arbitrary: w x)
  case (Cons b bs)
  from Cons.IH [OF push_raw_plain [OF Cons.prems(1), of b]] Cons.prems(2,3) show ?case
    by (simp add: option.map_comp comp_def)
qed (simp add: option.map_ident)

end
