(* ===== verification/Xml_Sections.thy ===== *)
theory Xml_Sections imports Xml_Written begin

text \<open>
  Sections and comments as they are written: the machine counts the brackets or dashes that may begin
  the end of one, and text without that end goes through whole.
\<close>

lemma add_text_twice [simp]: "add_text (add_text w bs) cs = add_text w (bs @ cs)" "add_text w [] = w"
  by (cases w; simp)+

lemma markup_open:
  assumes at: "at_state x0 nl XsText w x"
  obtains y where "silent [0x3C] x = Some y" "at_state x0 nl XsTagOpen w y" "xt_tag y = []" "\<not> xt_pending_cr y"
proof -
  let ?y = "(flush_cr x)\<lparr>xt_state := XsTagOpen, xt_tag := []\<rparr>"
  have col: "collected nl w x" and state: "xt_state x = XsText"
    using at by (simp_all add: at_state_def)
  have "silent [0x3C] x = Some ?y"
    using state by (simp add: xml_byte_def text_byte_def Let_def)
  moreover have "at_state x0 nl XsTagOpen w ?y"
    using at flush_collected [OF col] flush_cr_text [of w x] col
    by (simp add: at_state_def same_frame_def collected_def)
  ultimately show ?thesis by (rule that) (simp_all add: flush_collected [OF col])
qed

lemma bang_steps:
  assumes "at_state x0 nl XsTagOpen w x"
  shows "\<exists>y. silent (ascii ''![CDATA['') x = Some y \<and> at_state x0 nl (XsCData 0) w y"
    and "\<exists>y. silent (ascii ''!--'') x = Some y \<and> at_state x0 nl (XsComment 0) w y"
  using assms
  by (simp_all add: at_state_def xml_byte_def tag_open_byte_def bang_byte_def eq_ignore_case_def to_ascii_lowercase_def)

lemma cdata_body:
  assumes "at_state x0 nl (XsCData k) w x" "newline_style nl" "k \<le> 2" "0x0D \<notin> set t"
    "\<not> sublist [0x5D, 0x5D, 0x3E] (replicate k 0x5D @ t)"
  shows "\<exists>y k' v. silent (concat (map (raw_byte nl) t)) x = Some y \<and> at_state x0 nl (XsCData k') v y \<and> k' \<le> 2 \<and>
           add_text v (replicate k' 0x5D) = add_text w (replicate k 0x5D @ t)"
  using assms
proof (induction t arbitrary: w x k)
  case (Cons b t)
  note at = Cons.prems(1) and nl = Cons.prems(2)
  have col: "collected nl w x" and state: "xt_state x = XsCData k"
    using at by (simp_all add: at_state_def)
  have finish: ?case if step: "silent (raw_byte nl b) x = Some y" and aty: "at_state x0 nl (XsCData j) u y"
      and j: "j \<le> 2" and said: "add_text u (replicate j 0x5D) = add_text w (replicate k 0x5D @ [b])"
      and tail: "suffix (replicate j 0x5D @ t) (replicate k 0x5D @ b # t)" for y j u
  proof -
    have no_end: "\<not> sublist [0x5D, 0x5D, 0x3E] (replicate j 0x5D @ t)"
      using Cons.prems(5) tail by (meson sublist_order.order.trans suffix_imp_sublist)
    have "0x0D \<notin> set t" using Cons.prems(4) by simp
    from Cons.IH [OF aty nl j this no_end] obtain z k' v where
        z: "silent (concat (map (raw_byte nl) t)) y = Some z" "at_state x0 nl (XsCData k') v z" "k' \<le> 2"
      and v: "add_text v (replicate k' 0x5D) = add_text (add_text u (replicate j 0x5D)) t"
      by auto
    from v said have "add_text v (replicate k' 0x5D) = add_text w (replicate k 0x5D @ b # t)" by simp
    with z silent_trans [OF step z(1)] show ?thesis by auto
  qed
  show ?case
  proof (cases "b = 0x5D")
    case True
    then have raw: "raw_byte nl b = [0x5D]" by (simp add: raw_byte_def)
    show ?thesis
    proof (cases "k = 2")
      case True
      have "silent [0x5D] x = Some (push_raw_text 0x5D x)"
        using True state by (simp add: xml_byte_def cdata_byte_def)
      moreover have "at_state x0 nl (XsCData 2) (add_text w [0x5D]) (push_raw_text 0x5D x)"
        using True at push_raw_plain [OF col, of "0x5D"] by (auto intro: at_state_frame [OF _ push_raw_frame])
      ultimately show ?thesis
        using True \<open>b = 0x5D\<close> raw
        by (intro finish [of _ 2 "add_text w [0x5D]"]) (simp_all add: numeral_2_eq_2 suffix_def)
    next
      case False
      with Cons.prems(3) have "k < 2" by simp
      moreover have "silent [0x5D] x = Some (x\<lparr>xt_state := XsCData (Suc k)\<rparr>)"
        using \<open>k < 2\<close> state by (simp add: xml_byte_def cdata_byte_def)
      moreover have "at_state x0 nl (XsCData (Suc k)) w (x\<lparr>xt_state := XsCData (Suc k)\<rparr>)"
        using at by (simp add: at_state_def)
      ultimately show ?thesis
        using \<open>b = 0x5D\<close> raw
        by (intro finish [of _ "Suc k" w]) (simp_all add: replicate_append_same replicate_app_Cons_same)
    qed
  next
    case False
    have end_free: "k < 2" if "b = 0x3E"
    proof (rule ccontr)
      assume "\<not> k < 2"
      with Cons.prems(3) have "replicate k 0x5D @ b # t = [] @ [0x5D, 0x5D, 0x3E] @ t"
        using that by (auto simp: le_Suc_eq numeral_2_eq_2)
      then have "sublist [0x5D, 0x5D, 0x3E] (replicate k 0x5D @ b # t)"
        unfolding sublist_def by blast
      with Cons.prems(5) show False by simp
    qed
    obtain c cs where raw: "raw_byte nl b = c # cs" "c \<noteq> 0x5D" "0x5D \<notin> set cs" "c = 0x3E \<Longrightarrow> b = 0x3E"
      by (rule that [of "hd (raw_byte nl b)" "tl (raw_byte nl b)"])
        (use False nl in \<open>auto simp: raw_byte_def newline_style_def split: if_splits\<close>)
    let ?y = "(fold push_raw_text (replicate k 0x5D @ raw_byte nl b) x)\<lparr>xt_state := XsCData 0\<rparr>"
    have "silent (raw_byte nl b) x = Some ?y"
      using cdata_run [OF state raw(2) _ raw(3)] end_free raw(1,4) by simp
    moreover have "collected nl (add_text w (replicate k 0x5D @ [b])) ?y"
      using push_raw_byte [OF nl push_raw_all_plain [OF col], of "replicate k 0x5D" b] Cons.prems(4) by simp
    then have "at_state x0 nl (XsCData 0) (add_text w (replicate k 0x5D @ [b])) ?y"
      using at push_raw_all_frame [of "replicate k 0x5D @ raw_byte nl b" x]
      by (simp add: at_state_def same_frame_def del: fold_append)
    ultimately show ?thesis
      by (rule finish) (simp_all add: suffix_def option.map_ident)
  qed
qed (use assms in auto)

lemma cdata_end:
  assumes at: "at_state x0 nl (XsCData k) w x" and k: "k \<le> 2"
  shows "\<exists>y. silent (ascii '']]>'') x = Some y \<and> at_state x0 nl XsText (add_text w (replicate k 0x5D)) y"
proof -
  have col: "collected nl w x" and state: "xt_state x = XsCData k"
    using at by (simp_all add: at_state_def)
  let ?y = "(fold push_raw_text (replicate k 0x5D) x)\<lparr>xt_state := XsText\<rparr>"
  have "xt_state (push_raw_text 0x5D z) = xt_state z" for z
    using push_raw_frame [of "0x5D" z] by (simp add: same_frame_def)
  moreover have "(push_raw_text 0x5D ^^ 2) x = push_raw_text 0x5D (push_raw_text 0x5D x)"
    by (simp add: numeral_2_eq_2)
  moreover have "k = 0 \<or> k = 1 \<or> k = 2"
    using k by linarith
  ultimately have "silent (ascii '']]>'') x = Some ?y"
    using state by (elim disjE) (simp_all add: xml_byte_def cdata_byte_def)
  moreover have "at_state x0 nl XsText (add_text w (replicate k 0x5D)) ?y"
    using at push_raw_all_frame [of "replicate k 0x5D" x] push_raw_all_plain [OF col, of "replicate k 0x5D"]
    by (simp add: at_state_def same_frame_def)
  ultimately show ?thesis by auto
qed

lemma comment_body:
  assumes "xt_state x = XsComment d" "d \<le> 1" "\<not> sublist [0x2D, 0x2D] (replicate d 0x2D @ t @ [0x2D])"
  shows "\<exists>d'. silent t x = Some (x\<lparr>xt_state := XsComment d'\<rparr>)"
  using assms
proof (induction t arbitrary: x d)
  case (Cons b t)
  let ?d = "if b = 0x2D then Suc d else 0"
  let ?x = "x\<lparr>xt_state := XsComment ?d\<rparr>"
  have tail: "suffix (replicate ?d 0x2D @ t @ [0x2D]) (replicate d 0x2D @ (b # t) @ [0x2D])"
    by (auto simp: suffix_def replicate_append_same)
  then have no_end: "\<not> sublist [0x2D, 0x2D] (replicate ?d 0x2D @ t @ [0x2D])"
    using Cons.prems(3) by (meson sublist_order.order.trans suffix_imp_sublist)
  have "?d \<le> 1"
  proof (rule ccontr)
    assume "\<not> ?d \<le> 1"
    with Cons.prems(2) have "replicate ?d 0x2D @ t @ [0x2D] = [] @ [0x2D, 0x2D] @ t @ [0x2D]"
      by (auto simp: le_Suc_eq split: if_splits)
    then have "sublist [0x2D, 0x2D] (replicate ?d 0x2D @ t @ [0x2D])"
      unfolding sublist_def by blast
    with no_end show False by simp
  qed
  with Cons.IH [of ?x ?d] no_end obtain d' where "silent t ?x = Some (x\<lparr>xt_state := XsComment d'\<rparr>)" by auto
  moreover have "xml_byte b x = Inr (?x, None)"
    using Cons.prems(1,2) by (auto simp: xml_byte_def comment_byte_def)
  ultimately show ?case by auto
qed (metis silent.simps(1) xml_tokenizer.surjective xml_tokenizer.update_convs(2))

lemma comment_end:
  "xt_state x = XsComment d \<Longrightarrow> silent (ascii ''-->'') x = Some (x\<lparr>xt_state := XsText\<rparr>)"
  by (simp add: xml_byte_def comment_byte_def)

text \<open>A piece without a tag.\<close>

lemma cdata_written:
  assumes at: "at_state x0 nl XsText w x" and nl: "newline_style nl" and ok: "piece_ok m (CDataSection t)"
  shows "\<exists>y. silent (write_piece nl (CDataSection t)) x = Some y \<and> at_state x0 nl XsText (add_text w t) y"
proof -
  obtain x1 where x1: "silent [0x3C] x = Some x1" "at_state x0 nl XsTagOpen w x1"
    using markup_open [OF at] by blast
  obtain x2 where x2: "silent (ascii ''![CDATA['') x1 = Some x2" "at_state x0 nl (XsCData 0) w x2"
    using bang_steps(1) [OF x1(2)] by blast
  obtain x3 k v where x3: "silent (concat (map (raw_byte nl) t)) x2 = Some x3" "at_state x0 nl (XsCData k) v x3" "k \<le> 2"
      "add_text v (replicate k 0x5D) = add_text w t"
    using cdata_body [OF x2(2) nl, of t] ok by auto
  obtain x4 where x4: "silent (ascii '']]>'') x3 = Some x4" "at_state x0 nl XsText (add_text w t) x4"
    using cdata_end [OF x3(2,3)] x3(4) by auto
  have "silent ([0x3C] @ ascii ''![CDATA['' @ concat (map (raw_byte nl) t) @ ascii '']]>'') x = Some x4"
    by (rule silent_trans [OF x1(1) silent_trans [OF x2(1) silent_trans [OF x3(1) x4(1)]]])
  with x4(2) show ?thesis by auto
qed

lemma remark_written:
  assumes at: "at_state x0 nl XsText w x" and ok: "piece_ok m (Remark t)"
  shows "\<exists>y. silent (write_piece nl (Remark t)) x = Some y \<and> at_state x0 nl XsText w y"
proof -
  obtain x1 where x1: "silent [0x3C] x = Some x1" "at_state x0 nl XsTagOpen w x1"
    using markup_open [OF at] by blast
  obtain x2 where x2: "silent (ascii ''!--'') x1 = Some x2" "at_state x0 nl (XsComment 0) w x2"
    using bang_steps(2) [OF x1(2)] by blast
  obtain d where x3: "silent t x2 = Some (x2\<lparr>xt_state := XsComment d\<rparr>)"
    using comment_body [of x2 0 t] x2(2) ok by (auto simp: at_state_def)
  have x4: "silent (ascii ''-->'') (x2\<lparr>xt_state := XsComment d\<rparr>) = Some (x2\<lparr>xt_state := XsText\<rparr>)"
    using comment_end [of "x2\<lparr>xt_state := XsComment d\<rparr>" d] by simp
  have "silent ([0x3C] @ ascii ''!--'' @ t @ ascii ''-->'') x = Some (x2\<lparr>xt_state := XsText\<rparr>)"
    by (rule silent_trans [OF x1(1) silent_trans [OF x2(1) silent_trans [OF x3 x4]]])
  with x2(2) show ?thesis by (auto simp: at_state_def)
qed

end
