(* ===== verification/Xml_Tags.thy ===== *)
theory Xml_Tags imports Xml_Sections begin

text \<open>
  Tags as they are written: what the tokenizer keeps of a tag, the name and the attributes read from
  it, and the event at its end.
\<close>

section \<open>The bytes of a tag\<close>

lemma tag_plain:
  assumes "xt_state x = XsTag e 0" "list_all (\<lambda>b. b \<notin> {0x3E, 0x3C, 0x22, 0x27}) bs"
    "length (xt_tag x) + length bs \<le> xt_max_tag_bytes x"
  shows "silent bs x = Some (x\<lparr>xt_tag := xt_tag x @ bs\<rparr>)"
  using assms
proof (induction bs arbitrary: x)
  case (Cons b bs)
  let ?x = "x\<lparr>xt_tag := xt_tag x @ [b]\<rparr>"
  from Cons.prems have "xml_byte b x = Inr (?x, None)"
    by (simp add: xml_byte_def tag_byte_def push_tag_def)
  with Cons.IH [of ?x] Cons.prems show ?case by simp
qed simp

lemma tag_quoted:
  assumes "xt_state x = XsTag e q" "q \<noteq> 0" "q \<notin> set bs" "length (xt_tag x) + length bs \<le> xt_max_tag_bytes x"
  shows "silent bs x = Some (x\<lparr>xt_tag := xt_tag x @ bs\<rparr>)"
  using assms
proof (induction bs arbitrary: x)
  case (Cons b bs)
  let ?x = "x\<lparr>xt_tag := xt_tag x @ [b]\<rparr>"
  from Cons.prems have "xml_byte b x = Inr (?x, None)"
    by (auto simp: xml_byte_def tag_byte_def push_tag_def)
  with Cons.IH [of ?x] Cons.prems show ?case by simp
qed simp

lemma tag_quote:
  assumes "xt_state x = XsTag e q" "q = 0 \<or> q = 0x22" "length (xt_tag x) < xt_max_tag_bytes x"
  shows "silent [0x22] x = Some (x\<lparr>xt_state := XsTag e (if q = 0 then 0x22 else 0), xt_tag := xt_tag x @ [0x22]\<rparr>)"
  using assms by (auto simp: xml_byte_def tag_byte_def push_tag_def)

lemma name_ok_plain: "name_ok name \<Longrightarrow> list_all (\<lambda>b. b \<notin> {0x3E, 0x3C, 0x22, 0x27}) name"
  by (auto simp: name_ok_def list_all_iff)

lemma escaped_unquoted: "0x22 \<notin> set (concat (map attribute_escape v))"
  by (induction v) (auto simp: attribute_escape_def)

lemma tag_attribute:
  assumes state: "xt_state x = XsTag e 0" and ok: "name_ok (fst a)"
    and room: "length (xt_tag x) + length (write_attribute a) \<le> xt_max_tag_bytes x"
  shows "silent (write_attribute a) x = Some (x\<lparr>xt_tag := xt_tag x @ write_attribute a\<rparr>)"
proof -
  let ?n = "0x20 # fst a @ [0x3D]" and ?v = "concat (map attribute_escape (snd a))"
  let ?x1 = "x\<lparr>xt_tag := xt_tag x @ ?n\<rparr>"
  let ?x2 = "x\<lparr>xt_state := XsTag e 0x22, xt_tag := xt_tag x @ ?n @ [0x22]\<rparr>"
  let ?x3 = "x\<lparr>xt_state := XsTag e 0x22, xt_tag := xt_tag x @ ?n @ [0x22] @ ?v\<rparr>"
  have len: "length (xt_tag x) + (length (fst a) + length ?v + 4) \<le> xt_max_tag_bytes x"
    using room by (simp add: write_attribute_def del: length_concat)
  have "silent ?n x = Some ?x1"
    using state name_ok_plain [OF ok] len by (intro tag_plain) simp_all
  moreover have "silent [0x22] ?x1 = Some ?x2"
    using tag_quote [of ?x1 e 0] state len by simp
  moreover have "silent ?v ?x2 = Some ?x3"
    using tag_quoted [of ?x2 e "0x22" ?v] escaped_unquoted len by simp
  moreover have "silent [0x22] ?x3 = Some (x\<lparr>xt_tag := xt_tag x @ write_attribute a\<rparr>)"
    using tag_quote [of ?x3 e "0x22"] state len by (simp add: write_attribute_def)
  ultimately have "silent (?n @ [0x22] @ ?v @ [0x22]) x = Some (x\<lparr>xt_tag := xt_tag x @ write_attribute a\<rparr>)"
    by (intro silent_trans)
  then show ?thesis by (simp add: write_attribute_def)
qed

lemma tag_attributes:
  assumes "xt_state x = XsTag e 0" "list_all (\<lambda>a. name_ok (fst a)) as"
    "length (xt_tag x) + length (concat (map write_attribute as)) \<le> xt_max_tag_bytes x"
  shows "silent (concat (map write_attribute as)) x = Some (x\<lparr>xt_tag := xt_tag x @ concat (map write_attribute as)\<rparr>)"
  using assms
proof (induction as arbitrary: x)
  case (Cons a as)
  let ?x = "x\<lparr>xt_tag := xt_tag x @ write_attribute a\<rparr>"
  have "silent (write_attribute a) x = Some ?x"
    using Cons.prems by (intro tag_attribute) simp_all
  moreover have "silent (concat (map write_attribute as)) ?x =
      Some (?x\<lparr>xt_tag := xt_tag ?x @ concat (map write_attribute as)\<rparr>)"
    using Cons.prems by (intro Cons.IH) simp_all
  ultimately show ?case
    using silent_trans by fastforce
qed simp

section \<open>Reading a tag\<close>

lemma attributes_shape:
  "concat (map write_attribute as) = [] \<or> (\<exists>r. concat (map write_attribute as) = 0x20 # r)"
  by (cases as) (auto simp: write_attribute_def)

lemma attributes_last:
  "as \<noteq> [] \<Longrightarrow> last (concat (map write_attribute as)) = 0x22 \<and> concat (map write_attribute as) \<noteq> []"
  by (induction as rule: rev_induct) (auto simp: write_attribute_def)

lemma tag_body_start:
  assumes ok: "name_ok name" and tag: "xt_tag x = tag_content name as closed"
  shows "tag_body x = name @ concat (map write_attribute as)"
proof -
  obtain b bs where name: "name = b # bs" "b \<noteq> 0x2F" using ok by (cases name) (auto simp: name_ok_def)
  have "last name \<noteq> 0x2F" using ok by (auto simp: name_ok_def list_all_iff)
  then have "last (name @ concat (map write_attribute as)) \<noteq> 0x2F"
    using attributes_last [of as] by (cases "as = []") (auto simp: last_append)
  moreover define attrs where "attrs = concat (map write_attribute as)"
  ultimately have "last (b # bs @ attrs) \<noteq> 0x2F" using name by simp
  with name tag show ?thesis
    by (cases closed) (simp_all add: tag_body_def tag_content_def butlast_append Let_def flip: attrs_def append_assoc)
qed

lemma name_before:
  assumes ok: "name_ok name" and rest: "rest = [] \<or> (\<exists>r. rest = 0x20 # r)"
  shows "takeWhile (\<lambda>b. \<not> (xml_space b \<or> b = 0x2F)) (name @ rest) = name"
    and "dropWhile (\<lambda>b. \<not> xml_space b) (name @ rest) = rest"
proof -
  have name: "\<forall>b\<in>set name. \<not> (xml_space b \<or> b = 0x2F)"
    using ok by (auto simp: name_ok_def list_all_iff)
  have sp: "xml_space 0x20" by (simp add: xml_space_def)
  show "takeWhile (\<lambda>b. \<not> (xml_space b \<or> b = 0x2F)) (name @ rest) = name"
    using name rest sp by (auto simp: takeWhile_append2)
  show "dropWhile (\<lambda>b. \<not> xml_space b) (name @ rest) = rest"
    using name rest sp by (auto simp: dropWhile_append2)
qed

lemma decode_escaped: "decode_entities (concat (map attribute_escape v)) = Inr v"
proof (induction v)
  case (Cons b v)
  then show ?case
    by (simp add: attribute_escape_def decode_entity_def to_digit_def scalar_value_def encode_utf8_def)
qed simp

lemma attribute_read:
  assumes "list_all (\<lambda>a. name_ok (fst a)) as"
  shows "attribute_from part name prefixed (concat (map write_attribute as)) = Inr (find_attribute as name prefixed)"
  using assms
proof (induction as)
  case Nil
  show ?case by (simp add: attribute_from.simps find_attribute_def)
next
  case (Cons a as)
  obtain q v where a: "a = (q, v)" by (cases a)
  let ?v = "concat (map attribute_escape v)" and ?r = "concat (map write_attribute as)"
  have q: "q \<noteq> []" "\<forall>b\<in>set q. b \<noteq> 0x3D \<and> \<not> xml_space b"
    using Cons.prems a by (auto simp: name_ok_def list_all_iff)
  have eqs: "dropWhile xml_space (0x20 # q @ 0x3D # 0x22 # ?v @ 0x22 # ?r) = q @ 0x3D # 0x22 # ?v @ 0x22 # ?r"
    using q by (cases q) (auto simp: xml_space_def)
  have tq: "takeWhile (\<lambda>b. b \<noteq> 0x3D \<and> \<not> xml_space b) (q @ 0x3D # 0x22 # ?v @ 0x22 # ?r) = q"
    using q by (simp add: takeWhile_append2)
  have tv: "takeWhile (\<lambda>b. b \<noteq> 0x22) (?v @ 0x22 # ?r) = ?v"
    using escaped_unquoted [of v] by (subst takeWhile_append2) auto
  have "\<not> xml_space 0x3D" "\<not> xml_space 0x22" by (simp_all add: xml_space_def)
  moreover have shape: "concat (map write_attribute (a # as)) = 0x20 # q @ 0x3D # 0x22 # ?v @ 0x22 # ?r"
    by (simp add: a write_attribute_def)
  moreover have "attribute_from part name prefixed ?r = Inr (find_attribute as name prefixed)"
    using Cons by simp
  ultimately show ?case
    using eqs tq tv q unfolding shape
    by (subst attribute_from.simps) (simp add: Let_def decode_escaped find_attribute_def a)
qed

end
