(* ===== verification/Xml_Roundtrip.thy ===== *)
theory Xml_Roundtrip imports Xml_Tags begin

text \<open>
  A part written and read back: whatever pieces it arrives in, the reader sees the tags that were
  written with the attributes it asks for, and the text of the elements it wants up to its limit.
\<close>

section \<open>Pieces\<close>








section \<open>Documents\<close>










section \<open>The property\<close>





end
