(* ===== verification/Spec2Isabelle.thy ===== *)
theory Spec2Isabelle imports Viewport_Correct Query_Complete Scratch_Recovery Csv_Roundtrip Dense_Index Memory_Budget Session_Correct Sort_Keys Sort_Ledger Sort_Pages_Correct Sort_Inverse_Map Winner_Tree Sort_Batch_Step Sort_Theorems Work_Mailbox Sort_Permit Row_Zoom Row_Window Scratch_Files Sort_Recovery Xml_Roundtrip begin

text \<open>
  LeanRows: a verification development of its engine.

  LeanRows shows very large delimited and text files in a fixed amount of memory.  The engine is the
  crate \<open>crates/leanrows-core\<close>; the window in \<open>crates/leanrows-win32\<close> calls it from worker threads and
  keeps a few pure parts of its own.  Paths below are under \<open>src/crates/leanrows-core/src\<close> unless they
  name the other crate.

  The parts and how they interact.  A source is read through \<open>PositionedRead\<close> (\<open>source.rs\<close>): reads at
  an offset, and a fingerprint that shows whether the file was replaced.  The scanners (\<open>scan.rs\<close>) cut
  its bytes into records, in chunks of any size.  A scan session (\<open>session.rs\<close>) drives a scanner once
  over the file and keeps a sparse index of record boundaries (\<open>index.rs\<close>).  The viewport reader
  (\<open>viewport.rs\<close>) starts a scanner at the nearest checkpoint and collects the rows to be shown within
  a payload (\<open>budget.rs\<close>), and the projection (\<open>projection.rs\<close>) turns the bytes of a row into fields.
  The literal query (\<open>query.rs\<close>) scans the file again, runs a matcher over every record and appends its
  hits to a scratch file.  The sorter (\<open>sort/\<close>) scans the file a third time, extracts one key per
  record and orders the records on disk: batches are merge sorted in memory and written as runs, the
  runs are merged through a winner tree until one is left, and from it two maps are written, from
  ranks to records and from rows to ranks.  The window hands its requests to the workers through a
  mailbox of one slot, lets one document sort at a time, and shows a window of the rows.

  The theories and the code.
    \<^item> \<open>Rust_Base\<close>: outcomes of fallible calls (\<open>Ok\<close>, \<open>Err\<close>, \<open>Panic\<close>), checked arithmetic, little-endian
      numbers; \<open>Run_Monad\<close>: operations on the world, as functions \<open>run\<close>, with the triples \<open>run_ok\<close> and
      \<open>yields\<close> that the proofs use.
    \<^item> \<open>Spans\<close>, \<open>Cancel_Token\<close>, \<open>Snapshots\<close>: \<open>span.rs\<close>, \<open>cancel.rs\<close>, \<open>snapshot.rs\<close> and \<open>source.rs\<close>.  The world
      an operation runs in is a record of the calls it can make (\<open>environment\<close>); the locale
      \<open>stable_source\<close> is the contract of a file that nobody changes, with short reads.
    \<^item> \<open>Scanner\<close>: \<open>scan.rs\<close>, one definition per branch of the two state machines.  \<open>Record_Splitting\<close> is the
      reference splitter, \<open>Csv_Quoting\<close> says on the bytes alone when a position is inside a quoted field,
      \<open>Scanner_Contract\<close> the locale \<open>record_scanner\<close> between the scanners and their
      clients, \<open>Chunked_Scan\<close> its interpretations and the properties of whole scans, \<open>Formats\<close> the
      two-way scanner of \<open>format.rs\<close>.
    \<^item> \<open>Row_Index\<close>, \<open>Dense_Index\<close>: \<open>index.rs\<close>, the locale \<open>checkpoint_lookup\<close>, and what the index holds
      after a scan.  \<open>Memory_Budget\<close>: \<open>budget.rs\<close>.
    \<^item> \<open>Scan_Session\<close>, \<open>Session_Correct\<close>: \<open>session.rs\<close>, the whole of \<open>step\<close>, and its invariant.
    \<^item> \<open>Viewport_Read\<close>, \<open>Viewport_Correct\<close>: \<open>viewport.rs\<close>, a pass with its collector and the rows it returns.
    \<^item> \<open>Literal_Search\<close>, \<open>Scratch_Store\<close>, \<open>Query_Session\<close>: \<open>query.rs\<close>; \<open>Query_Store\<close>, \<open>Query_Correct\<close>,
      \<open>Query_Search\<close>, \<open>Query_Complete\<close> prove that a query finds every occurrence, and \<open>Scratch_Recovery\<close>
      and \<open>Scratch_Files\<close> are about its scratch files: their creation, their removal when a session is
      dropped, and the removal of stale ones at startup.
    \<^item> \<open>Field_Projection\<close>, \<open>Csv_Roundtrip\<close>: \<open>projection.rs\<close>, and writing a table and reading it back.
    \<^item> \<open>Sort_Key\<close>: \<open>sort/key.rs\<close> and the types of \<open>sort.rs\<close>.  \<open>Sort_Number\<close>, \<open>Sort_Order\<close>, \<open>Sort_Extract\<close>,
      \<open>Sort_Locate\<close>, \<open>Sort_Compare\<close> prove its parts right and \<open>Sort_Keys\<close> states the properties.
    \<^item> \<open>Sort_Ledger\<close>, \<open>Sort_Recovery\<close>, \<open>Sort_Disk\<close>, \<open>Sort_Pages\<close>: \<open>sort/storage.rs\<close>, the ledger of disk and memory with
      the atomic steps of its threads, the recovery of stale owner directories, the scratch files, and the pages of descriptors; \<open>Sort_Disk_Correct\<close> and \<open>Sort_Pages_Correct\<close> say what the files
      hold.  \<open>Sort_Inverse\<close>: \<open>sort/inverse.rs\<close>; \<open>Sort_Inverse_Correct\<close> and \<open>Sort_Inverse_Map\<close> show that the
      finished map is the inverse.
    \<^item> \<open>Sort_Session\<close>: \<open>sort/session.rs\<close>, with every phase of \<open>advance\<close>.  Its parts are proved where they
      work: \<open>Sort_Blocks\<close> (lists in sorted blocks), \<open>Sort_Batch\<close> and \<open>Sort_Batch_Step\<close> (the merge sort of
      a batch), \<open>Sort_Ranks\<close> (the records named by their rank), \<open>Winner_Tree\<close>, \<open>Sort_Merge\<close>,
      \<open>Sort_Merge_Step\<close>, \<open>Sort_Emit\<close>, \<open>Sort_Maps\<close>, \<open>Sort_Pass\<close> and \<open>Sort_Merge_Pass\<close> (the merges and the
      maps), \<open>Sort_Scanning\<close> and \<open>Sort_Extracting\<close> (the records and their keys).
    \<^item> \<open>Sort_State\<close> has the invariant of each phase and the measure, lexicographic in the rows to scan,
      the batch at hand, the records to merge and the records to map; \<open>Sort_Steps\<close> shows that every
      step keeps the one and decreases the other, \<open>Sort_Advance\<close> and \<open>Sort_Start\<close> are about whole calls
      and new sessions, \<open>Sort_Result\<close> and \<open>Sort_Correct\<close> about the order that is read, and
      \<open>Sort_Theorems\<close> states the properties of a whole sort.
    \<^item> \<open>Xml_Tokens\<close>: \<open>xlsx/xml.rs\<close>, one definition per state of the tokenizer, with \<open>XlsxError\<close> and the
      part cursor of \<open>xlsx/mod.rs\<close>.  \<open>Xml_Read\<close> is a reader of whole parts and shows that the pieces a part
      arrives in do not matter; \<open>Xml_Collect\<close>, \<open>Xml_Sections\<close> and \<open>Xml_Tags\<close> follow text, sections and
      tags through the tokenizer; \<open>Xml_Written\<close> is the specification, a writer of documents and what a
      reader of them sees, and \<open>Xml_Roundtrip\<close> the property.
    \<^item> Of \<open>crates/leanrows-win32/src\<close>: \<open>Work_Mailbox\<close> (\<open>mailbox.rs\<close>) and \<open>Sort_Permit\<close>
      (\<open>sort_coordinator.rs\<close>), whose operations interleave at their critical sections and atomic
      instructions; \<open>Scroll_Bar\<close> (\<open>scroll.rs\<close>), \<open>Row_Zoom\<close> (\<open>zoom.rs\<close>) and \<open>Row_Window\<close> (\<open>model.rs\<close>).

  How the code is modelled.  A struct is a \<open>record\<close> with a prefix per type, an enum a \<open>datatype\<close>, a method
  with \<open>&mut self\<close> a function that returns the changed object, also when it fails.  \<open>u64\<close> and \<open>usize\<close> (the
  program is built for x64) are natural numbers with every checked operation and every bound written
  out; bytes, generations, hashes and the text count of the XML tokenizer, which wraps in the release
  build, are words.  A slice index out of range, an overflow in an
  unchecked operation that the code relies on not to happen, and an \<open>unwrap\<close> of nothing are \<open>Panic\<close>.
  Loops over the input are structural recursion on it.  A loop whose bound is not structural takes
  fuel: the bytes of the request plus one where every round moves a byte, the work that is left
  where the invariant bounds it; running out of fuel is \<open>Panic\<close> and the properties show that it
  does not happen, so the fuel is always enough.

  What the lemmas show.  Scans are independent of the cut into chunks and can be stopped and resumed
  anywhere; the index keeps exactly the rows that are multiples of its stride; a session, a viewport
  read and a query over an unchanged source return the records, rows and hits of the reference
  splitter or a reported cancellation, refused memory, exhausted quota or a scratch write that failed,
  and nothing else; a source that changes is never mixed with the old one; a query ends after a bounded
  number of calls; stored entries read back; CSV written and read back is the same table; the stored sort keys decide the
  order of the keys they stand for.  The resources of sorting are never
  charged beyond their limits, and what could not be deleted stays charged.  A sort of an unchanged
  source keeps its state through every sequence of calls that succeed, comes to an end or to a reported
  failure after finitely many of them, and when it is complete shows at each rank the record that a
  stable sort by the keys puts there, and the rank of each row; sessions that are advanced again after a
  call failed are outside these properties.  An XML document that is written and read back shows its
  reader what was written.  The
  mailbox delivers the newest request and never one that was replaced, at most one document holds
  the sort permit, a scroll thumb stays on its track, columns return to their widths when the zoom
  does (a column of no width to one pixel), and the rows of the list are those of the file whatever window of them is shown.

  Not modelled.  The worker threads and the adapter they call the engine through, the native window
  with its drawing, its layout, its accessible names and its table of shortcuts
  (\<open>crates/leanrows-win32\<close>), the application's command line and resources, the measurement tools, and
  of the reading of XLSX workbooks (\<open>xlsx/\<close>) all but the XML tokenizer: the ZIP directory, the cells and
  the sheets, and the decompressor, which is a third-party crate.
\<close>

end
